(* ===== verification/Prelude.thy ===== *)
theory Prelude
  imports Main "HOL-Library.Word" "HOL-Library.Monad_Syntax"
begin

text \<open>
  What every component of the library shares: the machine types of the C code
  (\<open>size_t\<close>, bytes, memory blocks), the allocator of the C library with its failure
  choice as an argument, loads and stores that are undefined outside their block,
  arrays of fixed-size elements inside a block, and the circular view used by the three
  queues. Undefined behaviour is the value \<open>None\<close> of the type \<open>'a ub\<close>.
\<close>

named_theorems mem_simps \<open>loads, stores and element arrays\<close>
named_theorems sz_simps \<open>\<open>size_t\<close> arithmetic read as natural numbers\<close>

section \<open>Machine types\<close>

type_synonym size_t = "64 word"
type_synonym u32 = "32 word"
type_synonym u64 = "64 word"
type_synonym byte = "8 word"

text \<open>A memory cell is a byte, or indeterminate when it has never been written.\<close>

type_synonym cell = "byte option"
type_synonym block = "cell list"

text \<open>A C computation with undefined behaviour: \<open>None\<close> stands for it.\<close>

type_synonym 'a ub = "'a option"

abbreviation SIZE_MAX :: size_t where
  "SIZE_MAX \<equiv> - 1"

abbreviation PTRDIFF_MAX :: nat where
  "PTRDIFF_MAX \<equiv> 9223372036854775807"

section \<open>Word arithmetic read as naturals\<close>

lemma unat_SIZE_MAX [sz_simps]: "unat SIZE_MAX = 18446744073709551615"
  by (simp add: unsigned_minus_1_eq_mask mask_eq_exp_minus_1)

lemma unat_less_2p64: "unat (x :: size_t) < 18446744073709551616"
  using unsigned_less [of x, where ?'a = nat] by simp

lemma unat_le_SIZE_MAX: "unat (x :: size_t) \<le> 18446744073709551615"
  using unat_less_2p64 [of x] by simp

lemma unat_add_small [sz_simps]:
  "unat (a :: size_t) + unat b < 18446744073709551616 \<Longrightarrow> unat (a + b) = unat a + unat b"
  by (subst unat_add_lem [THEN iffD1]) simp_all

lemma unat_Suc_small [sz_simps]:
  "unat (a :: size_t) < 18446744073709551615 \<Longrightarrow> unat (a + 1) = Suc (unat a)"
  by (subst unat_add_small) simp_all

lemma unat_mult_small [sz_simps]:
  "unat (a :: size_t) * unat b < 18446744073709551616 \<Longrightarrow> unat (a * b) = unat a * unat b"
  by (subst unat_mult_lem [THEN iffD1]) simp_all

lemma unat_diff_le [sz_simps]:
  "b \<le> a \<Longrightarrow> unat (a - b) = unat a - unat (b :: size_t)"
  by (rule unat_sub)

lemma unat_mod_word [sz_simps]: "unat (a mod b) = unat a mod unat (b :: size_t)"
  by (simp add: unat_mod)

lemma unat_div_word [sz_simps]: "unat (a div b) = unat a div unat (b :: size_t)"
  by (simp add: unat_div)

lemma unat_pos_iff: "0 < unat (a :: size_t) \<longleftrightarrow> a \<noteq> 0"
  by (simp add: unat_gt_0)

lemma word_le_unat: "a \<le> b \<longleftrightarrow> unat a \<le> unat (b :: size_t)"
  by (simp add: word_le_nat_alt)

lemma word_less_unat: "a < b \<longleftrightarrow> unat a < unat (b :: size_t)"
  by (simp add: word_less_nat_alt)

lemma word_eq_unat: "a = b \<longleftrightarrow> unat a = unat (b :: size_t)"
  by (simp add: word_unat_eq_iff)

lemma unat_pow2 [simp]: "k < 64 \<Longrightarrow> unat ((2 :: size_t) ^ k) = 2 ^ k"
proof -
  assume k: "k < 64"
  have lt: "(2 :: nat) ^ k < 2 ^ 64" using k by (rule power_strict_increasing) simp
  have "unat ((2 :: size_t) ^ k) = unat (word_of_nat (2 ^ k) :: size_t)" by simp
  also have "\<dots> = take_bit 64 (2 ^ k)" by (simp only: unsigned_of_nat len_num1 len_bit0) simp
  also have "\<dots> = 2 ^ k" using lt by (rule take_bit_nat_eq_self)
  finally show ?thesis .
qed

lemma unat_word_of_nat: "n < 18446744073709551616 \<Longrightarrow> unat (word_of_nat n :: size_t) = n"
proof -
  assume "n < 18446744073709551616"
  then have lt: "n < 2 ^ 64" by simp
  have "unat (word_of_nat n :: size_t) = take_bit 64 n"
    by (simp only: unsigned_of_nat len_num1 len_bit0) simp
  also have "\<dots> = n" using lt by (rule take_bit_nat_eq_self)
  finally show ?thesis .
qed

lemma factor_le: "a * b \<le> n \<Longrightarrow> 0 < b \<Longrightarrow> a \<le> (n :: nat)"
  by (cases b) auto

text \<open>The overflow guard used everywhere: \<open>n > SIZE_MAX / es\<close>.\<close>

lemma mult_guard:
  "(n > SIZE_MAX div es) = (unat n * unat es \<ge> 18446744073709551616)" if "es \<noteq> 0"
  for n es :: size_t
proof -
  have es: "0 < unat es" using that by (simp add: unat_gt_0)
  have "(n > SIZE_MAX div es) = (18446744073709551615 div unat es < unat n)"
    by (simp add: word_less_unat unat_div_word unat_SIZE_MAX)
  also have "\<dots> = (18446744073709551615 < unat n * unat es)"
    using es by (simp add: div_less_iff_less_mult)
  finally show ?thesis by auto
qed

section \<open>The C library's allocator\<close>

text \<open>
  Whether an allocation succeeds is the environment's choice \<open>ok\<close>; it never succeeds for
  more than \<open>PTRDIFF_MAX\<close> bytes (glibc and every libc the project supports). A fresh
  block from \<open>malloc\<close> is indeterminate, one from \<open>calloc\<close> is zeroed, and
  \<open>realloc\<close> keeps the common prefix.
\<close>

definition malloc :: "bool \<Rightarrow> size_t \<Rightarrow> block option" where
  "malloc ok n = (if ok \<and> unat n \<le> PTRDIFF_MAX then Some (replicate (unat n) None) else None)"

definition realloc :: "bool \<Rightarrow> block option \<Rightarrow> size_t \<Rightarrow> block option" where
  "realloc ok p n =
     (if ok \<and> unat n \<le> PTRDIFF_MAX
      then Some (let old = (case p of None \<Rightarrow> [] | Some d \<Rightarrow> d)
                 in take (unat n) old @ replicate (unat n - length old) None)
      else None)"

lemma malloc_SomeD:
  "malloc ok n = Some d \<Longrightarrow> length d = unat n \<and> unat n \<le> PTRDIFF_MAX \<and> ok"
  by (auto simp: malloc_def split: if_splits)

lemma realloc_SomeD:
  "realloc ok p n = Some d \<Longrightarrow> length d = unat n \<and> unat n \<le> PTRDIFF_MAX \<and> ok"
  by (auto simp: realloc_def Let_def split: if_splits)

lemma realloc_prefix:
  "realloc ok (Some d) n = Some d' \<Longrightarrow> k \<le> length d \<Longrightarrow> k \<le> unat n \<Longrightarrow> take k d' = take k d"
  by (auto simp: realloc_def Let_def min_def split: if_splits)

section \<open>Loads and stores\<close>

text \<open>\<open>memcpy\<close> out of and into a block; both are undefined outside it.\<close>

definition load :: "nat \<Rightarrow> nat \<Rightarrow> 'c list \<Rightarrow> 'c list ub" where
  "load off n d = (if off + n \<le> length d then Some (take n (drop off d)) else None)"

definition store :: "nat \<Rightarrow> 'c list \<Rightarrow> 'c list \<Rightarrow> 'c list ub" where
  "store off e d =
     (if off + length e \<le> length d then Some (take off d @ e @ drop (off + length e) d) else None)"

lemma length_store [mem_simps]: "store off e d = Some d' \<Longrightarrow> length d' = length d"
  by (auto simp: store_def split: if_splits)

lemma load_whole: "length e = n \<Longrightarrow> load 0 n e = Some e"
  by (simp add: load_def)

lemma store_defined: "off + length e \<le> length d \<Longrightarrow> \<exists>d'. store off e d = Some d'"
  by (simp add: store_def)

lemma load_defined: "off + n \<le> length d \<Longrightarrow> \<exists>e. load off n d = Some e \<and> length e = n"
  by (simp add: load_def)

lemma load_length: "load off n d = Some e \<Longrightarrow> length e = n"
  by (auto simp: load_def split: if_splits)

lemma nth_store:
  "store off e d = Some d' \<Longrightarrow> i < length d \<Longrightarrow>
   d' ! i = (if off \<le> i \<and> i < off + length e then e ! (i - off) else d ! i)"
  by (auto simp: store_def nth_append split: if_splits)

lemma load_store_same: "store off e d = Some d' \<Longrightarrow> load off (length e) d' = Some e"
  by (auto simp: store_def load_def split: if_splits)

lemma load_store_other:
  assumes "store off e d = Some d'" and "p + n \<le> off \<or> off + length e \<le> p"
  shows "load p n d' = load p n d"
proof (cases "p + n \<le> length d")
  case False
  then show ?thesis using length_store [OF assms(1)] by (simp add: load_def)
next
  case True
  have "take n (drop p d') = take n (drop p d)"
  proof (rule nth_equalityI)
    show "length (take n (drop p d')) = length (take n (drop p d))"
      using length_store [OF assms(1)] by simp
  next
    fix i assume "i < length (take n (drop p d'))"
    then have "i < n" "p + i < length d" using length_store [OF assms(1)] by auto
    then show "take n (drop p d') ! i = take n (drop p d) ! i"
      using nth_store [OF assms(1), of "p + i"] assms(2) length_store [OF assms(1)] by auto
  qed
  then show ?thesis using True length_store [OF assms(1)] by (simp add: load_def)
qed

lemma store_append:
  "off + length a + length b \<le> length d \<Longrightarrow>
   \<exists>d'. store off a d = Some d' \<and> store (off + length a) b d' = store off (a @ b) d"
  by (auto simp: store_def drop_append ac_simps)

section \<open>Arrays of fixed-size elements in a block\<close>

text \<open>\<open>elems es n d\<close> reads the block as \<open>n\<close> elements of \<open>es\<close> cells each.\<close>

definition elems :: "nat \<Rightarrow> nat \<Rightarrow> 'c list \<Rightarrow> 'c list list" where
  "elems es n d = map (\<lambda>i. take es (drop (i * es) d)) [0 ..< n]"

lemma length_elems [simp]: "length (elems es n d) = n"
  by (simp add: elems_def)

lemma nth_elems: "i < n \<Longrightarrow> elems es n d ! i = take es (drop (i * es) d)"
  by (simp add: elems_def)

lemma elem_bound: "i < n \<Longrightarrow> i * es + es \<le> n * (es :: nat)"
proof -
  assume "i < n"
  then have "Suc i * es \<le> n * es" by (intro mult_le_mono1) simp
  then show ?thesis by simp
qed

lemma load_elem [mem_simps]:
  assumes "i < n" and "n * es \<le> length d"
  shows "load (i * es) es d = Some (elems es n d ! i)"
  using elem_bound [OF assms(1), of es] assms by (simp add: load_def nth_elems)

lemma store_elem:
  assumes "i < n" and "n * es \<le> length d" and "length e = es"
  shows "\<exists>d'. store (i * es) e d = Some d' \<and> length d' = length d
              \<and> elems es n d' = (elems es n d)[i := e]"
proof -
  have bnd: "i * es + es \<le> length d" using elem_bound [OF assms(1), of es] assms(2) by simp
  then obtain d' where d': "store (i * es) e d = Some d'"
    using assms(3) by (metis store_defined)
  have "elems es n d' = (elems es n d)[i := e]"
  proof (rule nth_equalityI)
    show "length (elems es n d') = length ((elems es n d)[i := e])" by simp
  next
    fix j assume "j < length (elems es n d')"
    then have j: "j < n" by simp
    have jb: "j * es + es \<le> length d" using elem_bound [OF j, of es] assms(2) by simp
    show "elems es n d' ! j = (elems es n d)[i := e] ! j"
    proof (cases "j = i")
      case True
      have "load (i * es) es d' = Some e"
        using load_store_same [OF d'] assms(3) by simp
      then show ?thesis using True j by (auto simp: load_def nth_elems split: if_splits)
    next
      case False
      then have "j * es + es \<le> i * es \<or> i * es + es \<le> j * es"
        using elem_bound [of j i es] elem_bound [of i j es] by linarith
      then have "load (j * es) es d' = load (j * es) es d"
        using load_store_other [OF d'] assms(3) by simp
      then show ?thesis using False j jb length_store [OF d']
        by (simp add: load_def nth_elems)
    qed
  qed
  then show ?thesis using d' length_store [OF d'] by blast
qed

lemma elems_take_cong:
  assumes "take (n * es) d = take (n * es) d'"
  shows "elems es n d = elems es n d'"
proof (rule nth_equalityI)
  fix i assume "i < length (elems es n d)"
  then have i: "i < n" by simp
  have "take es (drop (i * es) d) = take es (drop (i * es) (take (n * es) d))" for d :: "'a list"
    using elem_bound [OF i, of es] by (simp add: drop_take min_def)
  then show "elems es n d ! i = elems es n d' ! i"
    using assms i by (metis nth_elems)
qed simp

lemma elems_take: "m \<le> n \<Longrightarrow> take m (elems es n d) = elems es m d"
  by (rule nth_equalityI) (simp_all add: nth_elems)

lemma length_elem: "i < n \<Longrightarrow> n * es \<le> length d \<Longrightarrow> length (elems es n d ! i) = es"
  using elem_bound [of i n es] by (simp add: nth_elems)

lemmas elems_facts = nth_elems load_elem length_elem elem_bound

section \<open>Circular views\<close>

text \<open>
  The contents of a circular array from index \<open>h\<close>: what \<open>RingBuf\<close>,
  \<open>BlockingQueue\<close> and \<open>SpscQueue\<close> all keep.
\<close>

definition ring_view :: "'a list \<Rightarrow> nat \<Rightarrow> nat \<Rightarrow> 'a list" where
  "ring_view xs h n = map (\<lambda>i. xs ! ((h + i) mod length xs)) [0 ..< n]"

lemma length_ring_view [simp]: "length (ring_view xs h n) = n"
  by (simp add: ring_view_def)

lemma ring_view_0 [simp]: "ring_view xs h 0 = []"
  by (simp add: ring_view_def)

lemma ring_view_eq_Nil [simp]: "ring_view xs h n = [] \<longleftrightarrow> n = 0"
  by (metis length_ring_view length_0_conv)

lemma ring_index_neq:
  assumes "i < n" and "n < L"
  shows "(h + i) mod L \<noteq> (h + n) mod (L :: nat)"
proof
  assume "(h + i) mod L = (h + n) mod L"
  then have "((h + n) - (h + i)) mod L = 0"
    using assms(1) by (metis less_imp_le mod_eq_dvd_iff_nat nat_add_left_cancel_le dvd_imp_mod_0)
  moreover have "(h + n) - (h + i) = n - i" by simp
  moreover have "0 < n - i" and "n - i < L" using assms by auto
  ultimately show False by simp
qed

lemma ring_view_push:
  assumes "n < length xs"
  shows "ring_view (xs[(h + n) mod length xs := e]) h (Suc n) = ring_view xs h n @ [e]"
proof -
  have pos: "(h + n) mod length xs < length xs" using assms by (intro mod_less_divisor) linarith
  have same: "xs[(h + n) mod length xs := e] ! ((h + i) mod length xs) = xs ! ((h + i) mod length xs)"
    if "i < n" for i
    using ring_index_neq [OF that assms, of h] by (metis nth_list_update_neq)
  have "map (\<lambda>i. xs[(h + n) mod length xs := e] ! ((h + i) mod length xs)) [0 ..< n]
      = map (\<lambda>i. xs ! ((h + i) mod length xs)) [0 ..< n]"
    by (rule map_cong [OF refl]) (rule same, simp)
  then show ?thesis using pos by (simp add: ring_view_def)
qed

lemma ring_view_Suc:
  assumes "xs \<noteq> []"
  shows "ring_view xs h (Suc n) =
         xs ! (h mod length xs) # ring_view xs ((h + 1) mod length xs) n"
proof -
  have "(h + Suc i) mod length xs = ((h + 1) mod length xs + i) mod length xs" for i
    by (simp add: mod_add_left_eq)
  then show ?thesis
    unfolding ring_view_def by (simp del: upt_Suc add: upt_conv_Cons map_Suc_upt [symmetric] o_def)
qed

lemma ring_view_overwrite:
  assumes "h < length xs"
  shows "ring_view (xs[h := e]) ((h + 1) mod length xs) (length xs)
       = tl (ring_view xs h (length xs)) @ [e]"
proof -
  obtain m where m: "length xs = Suc m" using assms by (cases "length xs") auto
  have ne: "xs \<noteq> []" using assms by auto
  let ?h' = "(h + 1) mod length xs"
  have last: "(?h' + m) mod length xs = h"
  proof -
    have "(?h' + m) mod length xs = (h + 1 + m) mod length xs" by (simp add: mod_add_left_eq)
    also have "\<dots> = (h + length xs) mod length xs" using m by simp
    also have "\<dots> = h" using assms by simp
    finally show ?thesis .
  qed
  have "ring_view (xs[(?h' + m) mod length xs := e]) ?h' (Suc m) = ring_view xs ?h' m @ [e]"
    by (rule ring_view_push) (simp add: m)
  moreover have "tl (ring_view xs h (Suc m)) = ring_view xs ?h' m"
    using ring_view_Suc [OF ne, of h m] assms by simp
  ultimately show ?thesis using last m by simp
qed

section \<open>Linked lists in memory\<close>

text \<open>\<open>links\<close> is the word stored at each address; \<open>chain m p xs\<close> follows it from \<open>p\<close> to \<open>NULL\<close>.\<close>

type_synonym links = "u64 \<Rightarrow> u64"

fun chain :: "links \<Rightarrow> u64 \<Rightarrow> u64 list \<Rightarrow> bool" where
  "chain m p [] = (p = 0)"
| "chain m p (x # xs) = (p = x \<and> x \<noteq> 0 \<and> chain m (m x) xs)"

lemma chain_upd_other: "b \<notin> set xs \<Longrightarrow> chain (m(b := v)) p xs = chain m p xs"
  by (induction xs arbitrary: p) auto

lemma chain_nonzero: "chain m p xs \<Longrightarrow> p \<noteq> 0 \<longleftrightarrow> xs \<noteq> []"
  by (cases xs) auto

lemma chain_append:
  "chain m p (xs @ [x]) \<Longrightarrow> y \<noteq> 0 \<Longrightarrow> y \<notin> set (xs @ [x]) \<Longrightarrow> distinct (xs @ [x]) \<Longrightarrow> m y = 0 \<Longrightarrow>
   chain (m(x := y)) p (xs @ [x, y])"
  by (induction xs arbitrary: p) (auto simp: chain_upd_other)

end
