(* ===== verification/Core.thy ===== *)
theory Core
  imports Prelude
begin

text \<open>
  The error codes of \<open>include/core/error.h\<close> and their names (\<open>src/core/error.c\<close>).
  Every fallible function of the library returns one.
\<close>

datatype error_code =
  ERR_OK | ERR_NOMEM | ERR_IO | ERR_INVALID_ARG | ERR_OVERFLOW | ERR_NOT_FOUND | ERR_UNSUPPORTED

text \<open>The integer value the C enumeration gives each code.\<close>

fun code_num :: "error_code \<Rightarrow> int" where
  "code_num ERR_OK = 0"
| "code_num ERR_NOMEM = 1"
| "code_num ERR_IO = 2"
| "code_num ERR_INVALID_ARG = 3"
| "code_num ERR_OVERFLOW = 4"
| "code_num ERR_NOT_FOUND = 5"
| "code_num ERR_UNSUPPORTED = 6"

definition error_strings :: "string list" where
  "error_strings =
     [''success'', ''out of memory'', ''I/O error'', ''invalid argument'', ''overflow'',
      ''not found'', ''unsupported operation'']"

definition error_str :: "int \<Rightarrow> string" where
  "error_str code =
     (if code < 0 \<or> int (length error_strings) \<le> code then ''unknown error''
      else error_strings ! nat code)"

lemma error_str_code_known: "error_str (code_num c) \<in> set error_strings"
  by (cases c) (simp_all add: error_str_def error_strings_def)

lemma error_str_inj: "error_str (code_num c) = error_str (code_num d) \<Longrightarrow> c = d"
  by (cases c; cases d) (simp_all add: error_str_def error_strings_def)

end
