(* ===== verification/Fifo.thy ===== *)
theory Fifo
  imports Prelude
begin

text \<open>
  The interface of a bounded first-in-first-out queue, which the ring buffer, the
  single-producer ring and the critical sections of the blocking queue all implement: a
  push that is refused exactly when the queue is full, a pop that is refused exactly when
  it is empty, both described on the list of stored elements. The client's facts (a run
  of operations refines the run on lists, and what comes out is what went in, in order)
  are proved once from the laws.
\<close>

section \<open>Operations and the list specification\<close>

datatype 'e fifo_op = Push 'e | Pop

datatype 'e fifo_out = Accepted | Refused | Popped 'e | Empty

fun spec_step :: "nat \<Rightarrow> 'e fifo_op \<Rightarrow> 'e list \<Rightarrow> 'e fifo_out \<times> 'e list" where
  "spec_step n (Push e) xs = (if length xs < n then (Accepted, xs @ [e]) else (Refused, xs))"
| "spec_step n Pop xs = (case xs of [] \<Rightarrow> (Empty, []) | y # ys \<Rightarrow> (Popped y, ys))"

fun spec_run :: "nat \<Rightarrow> 'e fifo_op list \<Rightarrow> 'e list \<Rightarrow> 'e fifo_out list \<times> 'e list" where
  "spec_run n [] xs = ([], xs)"
| "spec_run n (x # ops) xs =
     (let (out, ys) = spec_step n x xs; (outs, zs) = spec_run n ops ys in (out # outs, zs))"

fun impl_run ::
  "('e \<Rightarrow> 's \<Rightarrow> (bool \<times> 's) ub) \<Rightarrow> ('s \<Rightarrow> ('e option \<times> 's) ub) \<Rightarrow>
   'e fifo_op list \<Rightarrow> 's \<Rightarrow> ('e fifo_out list \<times> 's) ub" where
  "impl_run push pop [] s = Some ([], s)"
| "impl_run push pop (Push e # ops) s =
     do { (ok, t) \<leftarrow> push e s;
          (outs, u) \<leftarrow> impl_run push pop ops t;
          Some ((if ok then Accepted else Refused) # outs, u) }"
| "impl_run push pop (Pop # ops) s =
     do { (r, t) \<leftarrow> pop s;
          (outs, u) \<leftarrow> impl_run push pop ops t;
          Some ((case r of None \<Rightarrow> Empty | Some e \<Rightarrow> Popped e) # outs, u) }"

text \<open>What a run accepted, and what it delivered.\<close>

fun accepted :: "'e fifo_op list \<Rightarrow> 'e fifo_out list \<Rightarrow> 'e list" where
  "accepted (Push e # ops) (Accepted # outs) = e # accepted ops outs"
| "accepted (x # ops) (out # outs) = accepted ops outs"
| "accepted ops outs = []"

fun delivered :: "'e fifo_out list \<Rightarrow> 'e list" where
  "delivered [] = []"
| "delivered (Popped e # outs) = e # delivered outs"
| "delivered (out # outs) = delivered outs"

text \<open>On the specification: everything accepted is delivered in order, or still stored.\<close>

lemma spec_run_fifo:
  "spec_run n ops xs = (outs, ys) \<Longrightarrow> xs @ accepted ops outs = delivered outs @ ys"
proof (induction ops arbitrary: xs outs)
  case Nil
  then show ?case by simp
next
  case (Cons x ops)
  obtain out zs where step: "spec_step n x xs = (out, zs)" by fastforce
  obtain outs' where outs: "outs = out # outs'" and run: "spec_run n ops zs = (outs', ys)"
    using Cons.prems step by (auto split: prod.splits)
  from Cons.IH [OF run] have "zs @ accepted ops outs' = delivered outs' @ ys" .
  then show ?case
    using step outs by (cases x) (auto split: if_splits list.splits)
qed

section \<open>The interface\<close>

locale bounded_fifo =
  fixes inv :: "'s \<Rightarrow> bool"
    and view :: "'s \<Rightarrow> 'e list"
    and capacity :: "'s \<Rightarrow> nat"
    and fits :: "'s \<Rightarrow> 'e \<Rightarrow> bool"
    and push :: "'e \<Rightarrow> 's \<Rightarrow> (bool \<times> 's) ub"
    and pop :: "'s \<Rightarrow> ('e option \<times> 's) ub"
  assumes view_bound: "inv s \<Longrightarrow> length (view s) \<le> capacity s"
    and push_room: "inv s \<Longrightarrow> fits s e \<Longrightarrow> length (view s) < capacity s \<Longrightarrow>
          \<exists>t. push e s = Some (True, t) \<and> inv t \<and> view t = view s @ [e]
              \<and> capacity t = capacity s \<and> fits t = fits s"
    and push_full: "inv s \<Longrightarrow> fits s e \<Longrightarrow> length (view s) = capacity s \<Longrightarrow>
          push e s = Some (False, s)"
    and pop_some: "inv s \<Longrightarrow> view s = e # es \<Longrightarrow>
          \<exists>t. pop s = Some (Some e, t) \<and> inv t \<and> view t = es
              \<and> capacity t = capacity s \<and> fits t = fits s"
    and pop_none: "inv s \<Longrightarrow> view s = [] \<Longrightarrow> pop s = Some (None, s)"
begin

lemma push_step:
  assumes "inv s" and "fits s e"
  shows "\<exists>t. push e s = Some (fst (spec_step (capacity s) (Push e) (view s)) = Accepted, t)
             \<and> inv t \<and> view t = snd (spec_step (capacity s) (Push e) (view s))
             \<and> capacity t = capacity s \<and> fits t = fits s"
proof (cases "length (view s) < capacity s")
  case True
  then show ?thesis using push_room [OF assms] by auto
next
  case False
  then have "length (view s) = capacity s" using view_bound [OF assms(1)] by simp
  then show ?thesis using push_full [OF assms] assms(1) by auto
qed

text \<open>A run never gets stuck, keeps the invariant, and is the run on lists.\<close>

lemma run_refines:
  assumes "inv s" and "\<And>e. Push e \<in> set ops \<Longrightarrow> fits s e"
  shows "\<exists>t. impl_run push pop ops s = Some (fst (spec_run (capacity s) ops (view s)), t)
             \<and> inv t \<and> view t = snd (spec_run (capacity s) ops (view s))
             \<and> capacity t = capacity s \<and> fits t = fits s"
  using assms
proof (induction ops arbitrary: s)
  case Nil
  then show ?case by simp
next
  case (Cons x ops)
  show ?case
  proof (cases x)
    case (Push e)
    obtain t where t: "push e s = Some (fst (spec_step (capacity s) (Push e) (view s)) = Accepted, t)"
        "inv t" "view t = snd (spec_step (capacity s) (Push e) (view s))"
        "capacity t = capacity s" "fits t = fits s"
      using push_step [OF Cons.prems(1), of e] Cons.prems(2) [of e] Push by auto
    from Cons.IH [OF t(2)] Cons.prems(2) t(5)
    obtain u where u: "impl_run push pop ops t = Some (fst (spec_run (capacity t) ops (view t)), u)"
        "inv u" "view u = snd (spec_run (capacity t) ops (view t))"
        "capacity u = capacity t" "fits u = fits t"
      by auto
    show ?thesis
      by (rule exI [of _ u]) (use t u Push in \<open>auto split: prod.splits\<close>)
  next
    case Pop
    show ?thesis
    proof (cases "view s")
      case Nil
      from Cons.IH [OF Cons.prems(1)] Cons.prems(2)
      obtain u where u: "impl_run push pop ops s = Some (fst (spec_run (capacity s) ops (view s)), u)"
          "inv u" "view u = snd (spec_run (capacity s) ops (view s))"
          "capacity u = capacity s" "fits u = fits s"
        by auto
      show ?thesis
        by (rule exI [of _ u])
           (use u Pop Nil pop_none [OF Cons.prems(1) Nil] in \<open>auto split: prod.splits\<close>)
    next
      case (Cons y ys)
      obtain t where t: "pop s = Some (Some y, t)" "inv t" "view t = ys"
          "capacity t = capacity s" "fits t = fits s"
        using pop_some [OF Cons.prems(1) Cons] by auto
      from Cons.IH [OF t(2)] Cons.prems(2) t(5)
      obtain u where u: "impl_run push pop ops t = Some (fst (spec_run (capacity t) ops (view t)), u)"
          "inv u" "view u = snd (spec_run (capacity t) ops (view t))"
          "capacity u = capacity t" "fits u = fits t"
        by auto
      show ?thesis
        by (rule exI [of _ u]) (use t u Pop Cons in \<open>auto split: prod.splits\<close>)
    qed
  qed
qed

text \<open>First in, first out: nothing is lost, duplicated or reordered.\<close>

lemma run_fifo:
  assumes "inv s" and "\<And>e. Push e \<in> set ops \<Longrightarrow> fits s e"
  shows "\<exists>outs t. impl_run push pop ops s = Some (outs, t) \<and> inv t
             \<and> view s @ accepted ops outs = delivered outs @ view t
             \<and> length (view t) \<le> capacity s"
proof -
  obtain t where t: "impl_run push pop ops s = Some (fst (spec_run (capacity s) ops (view s)), t)"
      "inv t" "view t = snd (spec_run (capacity s) ops (view s))" "capacity t = capacity s"
    using run_refines [OF assms] by blast
  have "view s @ accepted ops (fst (spec_run (capacity s) ops (view s)))
      = delivered (fst (spec_run (capacity s) ops (view s))) @ view t"
    using spec_run_fifo [of "capacity s" ops "view s"] t(3) by (metis prod.collapse)
  then show ?thesis using t view_bound [OF t(2)] by metis
qed

end

end
