(* ===== verification/RingBuf.thy ===== *)
theory RingBuf
  imports Core Fifo
begin

text \<open>
  The circular buffer of \<open>src/containers/ringbuf.c\<close>: fixed capacity, elements of
  \<open>elem_size\<close> bytes copied in and out of one block. A \<open>NULL\<close> pointer argument is
  \<open>None\<close>; the outcome \<open>None\<close> of an operation is undefined behaviour (a copy outside a
  block, a division by zero). The invariant makes all of it impossible, and the
  operations implement the bounded queue of \<open>Fifo\<close>.
\<close>

section \<open>State and operations\<close>

record ringbuf =
  rb_data :: "block option"
  rb_elem_size :: size_t
  rb_cap :: size_t
  rb_head :: size_t
  rb_len :: size_t

definition ringbuf_init ::
  "bool \<Rightarrow> ringbuf option \<Rightarrow> size_t \<Rightarrow> size_t \<Rightarrow> error_code \<times> ringbuf option" where
  "ringbuf_init ok rp elem_size capacity =
     (case rp of
        None \<Rightarrow> (ERR_INVALID_ARG, None)
      | Some r \<Rightarrow>
          if elem_size = 0 \<or> capacity = 0 then (ERR_INVALID_ARG, Some r)
          else if capacity > SIZE_MAX div elem_size then (ERR_OVERFLOW, Some r)
          else (case malloc ok (capacity * elem_size) of
              None \<Rightarrow> (ERR_NOMEM, Some (r\<lparr>rb_data := None\<rparr>))
            | Some d \<Rightarrow> (ERR_OK, Some \<lparr>rb_data = Some d, rb_elem_size = elem_size,
                                        rb_cap = capacity, rb_head = 0, rb_len = 0\<rparr>)))"

definition ringbuf_destroy :: "ringbuf option \<Rightarrow> ringbuf option" where
  "ringbuf_destroy rp =
     map_option (\<lambda>r. r\<lparr>rb_data := None, rb_cap := 0, rb_len := 0\<rparr>) rp"

definition tail_index :: "ringbuf \<Rightarrow> size_t ub" where
  "tail_index r = (if rb_cap r = 0 then None else Some ((rb_head r + rb_len r) mod rb_cap r))"

definition ringbuf_push :: "ringbuf option \<Rightarrow> block option \<Rightarrow> (error_code \<times> ringbuf option) ub" where
  "ringbuf_push rp elem =
     (case (rp, elem) of
        (Some r, Some e) \<Rightarrow>
          (case rb_data r of
             None \<Rightarrow> Some (ERR_INVALID_ARG, rp)
           | Some d \<Rightarrow>
               if rb_len r = rb_cap r then Some (ERR_OVERFLOW, rp)
               else do {
                 i \<leftarrow> tail_index r;
                 src \<leftarrow> load 0 (unat (rb_elem_size r)) e;
                 d' \<leftarrow> store (unat (i * rb_elem_size r)) src d;
                 Some (ERR_OK, Some (r\<lparr>rb_data := Some d', rb_len := rb_len r + 1\<rparr>)) })
      | _ \<Rightarrow> Some (ERR_INVALID_ARG, rp))"

definition ringbuf_push_overwrite ::
  "ringbuf option \<Rightarrow> block option \<Rightarrow> (error_code \<times> ringbuf option) ub" where
  "ringbuf_push_overwrite rp elem =
     (case (rp, elem) of
        (Some r, Some e) \<Rightarrow>
          (case rb_data r of
             None \<Rightarrow> Some (ERR_INVALID_ARG, rp)
           | Some d \<Rightarrow>
               if rb_len r < rb_cap r then ringbuf_push rp elem
               else do {
                 src \<leftarrow> load 0 (unat (rb_elem_size r)) e;
                 d' \<leftarrow> store (unat (rb_head r * rb_elem_size r)) src d;
                 h \<leftarrow> (if rb_cap r = 0 then None else Some ((rb_head r + 1) mod rb_cap r));
                 Some (ERR_OK, Some (r\<lparr>rb_data := Some d', rb_head := h\<rparr>)) })
      | _ \<Rightarrow> Some (ERR_INVALID_ARG, rp))"

text \<open>\<open>pop\<close> returns what is copied to \<open>out\<close>; with \<open>want = False\<close>, \<open>out\<close> is \<open>NULL\<close>.\<close>

definition ringbuf_pop ::
  "ringbuf option \<Rightarrow> bool \<Rightarrow> (error_code \<times> block option \<times> ringbuf option) ub" where
  "ringbuf_pop rp want =
     (case rp of
        None \<Rightarrow> Some (ERR_INVALID_ARG, None, rp)
      | Some r \<Rightarrow>
          (case rb_data r of
             None \<Rightarrow> Some (ERR_INVALID_ARG, None, rp)
           | Some d \<Rightarrow>
               if rb_len r = 0 then Some (ERR_NOT_FOUND, None, rp)
               else do {
                 out \<leftarrow> (if want
                         then map_option Some
                                (load (unat (rb_head r * rb_elem_size r)) (unat (rb_elem_size r)) d)
                         else Some None);
                 h \<leftarrow> (if rb_cap r = 0 then None else Some ((rb_head r + 1) mod rb_cap r));
                 Some (ERR_OK, out, Some (r\<lparr>rb_head := h, rb_len := rb_len r - 1\<rparr>)) }))"

definition ringbuf_len :: "ringbuf option \<Rightarrow> size_t" where
  "ringbuf_len rp = (case rp of None \<Rightarrow> 0 | Some r \<Rightarrow> rb_len r)"

definition ringbuf_is_full :: "ringbuf option \<Rightarrow> bool" where
  "ringbuf_is_full rp = (case rp of None \<Rightarrow> False | Some r \<Rightarrow> rb_len r = rb_cap r)"

section \<open>Invariant and abstraction\<close>

definition rb_inv :: "ringbuf \<Rightarrow> bool" where
  "rb_inv r \<longleftrightarrow>
     (\<exists>d. rb_data r = Some d \<and> length d = unat (rb_cap r) * unat (rb_elem_size r)) \<and>
     0 < unat (rb_elem_size r) \<and> unat (rb_head r) < unat (rb_cap r) \<and>
     unat (rb_len r) \<le> unat (rb_cap r) \<and>
     unat (rb_cap r) * unat (rb_elem_size r) \<le> PTRDIFF_MAX"

definition rb_slots :: "ringbuf \<Rightarrow> block list" where
  "rb_slots r = elems (unat (rb_elem_size r)) (unat (rb_cap r)) (the (rb_data r))"

definition rb_view :: "ringbuf \<Rightarrow> block list" where
  "rb_view r = ring_view (rb_slots r) (unat (rb_head r)) (unat (rb_len r))"

definition rb_capacity :: "ringbuf \<Rightarrow> nat" where
  "rb_capacity r = unat (rb_cap r)"

definition rb_fits :: "ringbuf \<Rightarrow> block \<Rightarrow> bool" where
  "rb_fits r e \<longleftrightarrow> length e = unat (rb_elem_size r)"

lemma length_rb_slots [simp]: "length (rb_slots r) = unat (rb_cap r)"
  by (simp add: rb_slots_def)

lemma rb_len_view [simp]: "length (rb_view r) = unat (rb_len r)"
  by (simp add: rb_view_def)

text \<open>The numeric facts every operation needs, from the invariant.\<close>

lemma rb_inv_numbers:
  assumes "rb_inv r"
  shows "unat (rb_cap r) \<le> PTRDIFF_MAX" and "rb_cap r \<noteq> 0"
    and "unat (rb_head r + rb_len r) = unat (rb_head r) + unat (rb_len r)"
    and "unat (rb_head r + 1) = unat (rb_head r) + 1"
    and "unat i < unat (rb_cap r) \<Longrightarrow> unat (i * rb_elem_size r) = unat i * unat (rb_elem_size r)"
proof -
  have es: "0 < unat (rb_elem_size r)" and b: "unat (rb_cap r) * unat (rb_elem_size r) \<le> PTRDIFF_MAX"
    and h: "unat (rb_head r) < unat (rb_cap r)" and l: "unat (rb_len r) \<le> unat (rb_cap r)"
    using assms by (auto simp: rb_inv_def)
  show cap: "unat (rb_cap r) \<le> PTRDIFF_MAX"
    using b es by (rule factor_le)
  show "rb_cap r \<noteq> 0" using h by auto
  show "unat (rb_head r + rb_len r) = unat (rb_head r) + unat (rb_len r)"
    using cap h l by (intro unat_add_small) linarith
  show "unat (rb_head r + 1) = unat (rb_head r) + 1"
    using cap h by (simp add: unat_Suc_small)
  show "unat (i * rb_elem_size r) = unat i * unat (rb_elem_size r)" if "unat i < unat (rb_cap r)"
  proof (rule unat_mult_small)
    have "unat i * unat (rb_elem_size r) \<le> unat (rb_cap r) * unat (rb_elem_size r)"
      using that by (intro mult_le_mono1) simp
    then show "unat i * unat (rb_elem_size r) < 18446744073709551616" using b by linarith
  qed
qed

lemma tail_index_eq:
  assumes "rb_inv r"
  shows "\<exists>i. tail_index r = Some i
           \<and> unat i = (unat (rb_head r) + unat (rb_len r)) mod unat (rb_cap r)
           \<and> unat i < unat (rb_cap r)"
  using rb_inv_numbers(2,3) [OF assms]
  by (simp add: tail_index_def unat_mod_word unat_pos_iff)

text \<open>One store into a slot, as the operations do it.\<close>

lemma rb_store_slot:
  assumes "rb_inv r" and "rb_data r = Some d" and "unat i < unat (rb_cap r)"
    and "length e = unat (rb_elem_size r)"
  shows "\<exists>d'. store (unat (i * rb_elem_size r)) e d = Some d'
            \<and> length d' = length d
            \<and> elems (unat (rb_elem_size r)) (unat (rb_cap r)) d' = (rb_slots r)[unat i := e]"
  using store_elem [OF assms(3), of "unat (rb_elem_size r)" d e] assms rb_inv_numbers(5) [OF assms(1,3)]
  by (auto simp: rb_inv_def rb_slots_def)

section \<open>What each operation does\<close>

lemma ringbuf_init_inv:
  assumes "ringbuf_init ok (Some r0) es c = (ERR_OK, rp)"
  shows "\<exists>r. rp = Some r \<and> rb_inv r \<and> rb_view r = [] \<and> rb_capacity r = unat c \<and> rb_elem_size r = es"
proof -
  from assms have es: "es \<noteq> 0" and c: "c \<noteq> 0" and g: "\<not> c > SIZE_MAX div es"
    and m: "\<exists>d. malloc ok (c * es) = Some d"
    by (auto simp: ringbuf_init_def split: if_splits option.splits)
  then obtain d where d: "malloc ok (c * es) = Some d" by blast
  have prod: "unat (c * es) = unat c * unat es"
    using g mult_guard [OF es, of c] by (intro unat_mult_small) simp
  have "length d = unat c * unat es \<and> unat c * unat es \<le> PTRDIFF_MAX"
    using malloc_SomeD [OF d] prod by simp
  then show ?thesis
    using assms es c g d by (auto simp: ringbuf_init_def rb_inv_def rb_view_def rb_capacity_def
        unat_pos_iff [symmetric] split: if_splits)
qed

lemma ringbuf_push_room:
  assumes inv: "rb_inv r" and e: "rb_fits r e" and room: "length (rb_view r) < rb_capacity r"
  shows "\<exists>t. ringbuf_push (Some r) (Some e) = Some (ERR_OK, Some t) \<and> rb_inv t
             \<and> rb_view t = rb_view r @ [e] \<and> rb_capacity t = rb_capacity r
             \<and> rb_elem_size t = rb_elem_size r"
proof -
  obtain d where d: "rb_data r = Some d" using inv by (auto simp: rb_inv_def)
  have room': "unat (rb_len r) < unat (rb_cap r)" using room by (simp add: rb_capacity_def)
  obtain i where i: "tail_index r = Some i" "unat i < unat (rb_cap r)"
      "unat i = (unat (rb_head r) + unat (rb_len r)) mod unat (rb_cap r)"
    using tail_index_eq [OF inv] by blast
  have el: "length e = unat (rb_elem_size r)" using e by (simp add: rb_fits_def)
  obtain d' where d': "store (unat (i * rb_elem_size r)) e d = Some d'" "length d' = length d"
      "elems (unat (rb_elem_size r)) (unat (rb_cap r)) d' = (rb_slots r)[unat i := e]"
    using rb_store_slot [OF inv d i(2) el] by blast
  let ?t = "r\<lparr>rb_data := Some d', rb_len := rb_len r + 1\<rparr>"
  have step: "ringbuf_push (Some r) (Some e) = Some (ERR_OK, Some ?t)"
    using d i(1) d'(1) room' el by (auto simp: ringbuf_push_def load_whole)
  have len: "unat (rb_len r + 1) = Suc (unat (rb_len r))"
    using room' rb_inv_numbers(1) [OF inv] by (intro unat_Suc_small) linarith
  have "rb_view ?t = ring_view ((rb_slots r)[unat i := e]) (unat (rb_head r)) (Suc (unat (rb_len r)))"
    using d'(3) len by (simp add: rb_view_def rb_slots_def)
  also have "\<dots> = rb_view r @ [e]"
    using ring_view_push [of "unat (rb_len r)" "rb_slots r" "unat (rb_head r)" e] room' i(3)
    by (simp add: rb_view_def)
  finally have view: "rb_view ?t = rb_view r @ [e]" .
  have "rb_inv ?t" using inv d d'(2) len room' by (simp add: rb_inv_def)
  then show ?thesis using step view by (auto simp: rb_capacity_def)
qed

lemma ringbuf_push_full:
  "rb_inv r \<Longrightarrow> length (rb_view r) = rb_capacity r \<Longrightarrow>
   ringbuf_push (Some r) (Some e) = Some (ERR_OVERFLOW, Some r)"
  by (auto simp: ringbuf_push_def rb_inv_def rb_capacity_def word_eq_unat)

lemma ringbuf_pop_some:
  assumes inv: "rb_inv r" and view: "rb_view r = e # es"
  shows "\<exists>t. ringbuf_pop (Some r) want = Some (ERR_OK, if want then Some e else None, Some t)
             \<and> rb_inv t \<and> rb_view t = es \<and> rb_capacity t = rb_capacity r
             \<and> rb_elem_size t = rb_elem_size r"
proof -
  obtain d where d: "rb_data r = Some d" "length d = unat (rb_cap r) * unat (rb_elem_size r)"
    using inv by (auto simp: rb_inv_def)
  have h: "unat (rb_head r) < unat (rb_cap r)" using inv by (simp add: rb_inv_def)
  obtain n where n: "unat (rb_len r) = Suc n"
    using rb_len_view [of r] view by (metis length_Cons)
  have ne: "rb_slots r \<noteq> []" using h by (metis length_rb_slots less_zeroE list.size(3))
  have cons: "rb_view r = rb_slots r ! unat (rb_head r)
        # ring_view (rb_slots r) ((unat (rb_head r) + 1) mod unat (rb_cap r)) n"
    using ring_view_Suc [OF ne, of "unat (rb_head r)" n] n h by (simp add: rb_view_def)
  have ld: "load (unat (rb_head r * rb_elem_size r)) (unat (rb_elem_size r)) d = Some e"
    using load_elem [OF h, of "unat (rb_elem_size r)" d] d cons view rb_inv_numbers(5) [OF inv h]
    by (simp add: rb_slots_def)
  let ?t = "r\<lparr>rb_head := (rb_head r + 1) mod rb_cap r, rb_len := rb_len r - 1\<rparr>"
  have hd: "unat ((rb_head r + 1) mod rb_cap r) = (unat (rb_head r) + 1) mod unat (rb_cap r)"
    using rb_inv_numbers(4) [OF inv] by (simp add: unat_mod_word)
  have len: "unat (rb_len r - 1) = n"
    using n by (subst unat_diff_le) (simp_all add: word_le_unat)
  have step: "ringbuf_pop (Some r) want = Some (ERR_OK, if want then Some e else None, Some ?t)"
    using d(1) ld n rb_inv_numbers(2) [OF inv] by (auto simp: ringbuf_pop_def)
  have "rb_view ?t = es"
    using cons view hd len by (simp add: rb_view_def rb_slots_def)
  moreover have "rb_inv ?t" using inv hd len n by (simp add: rb_inv_def)
  ultimately show ?thesis using step by (auto simp: rb_capacity_def)
qed

lemma ringbuf_pop_none:
  "rb_inv r \<Longrightarrow> rb_view r = [] \<Longrightarrow> ringbuf_pop (Some r) want = Some (ERR_NOT_FOUND, None, Some r)"
  using rb_len_view [of r] by (auto simp: ringbuf_pop_def rb_inv_def unat_eq_zero)

lemma ringbuf_push_overwrite_full:
  assumes inv: "rb_inv r" and e: "rb_fits r e" and full: "length (rb_view r) = rb_capacity r"
  shows "\<exists>t. ringbuf_push_overwrite (Some r) (Some e) = Some (ERR_OK, Some t) \<and> rb_inv t
             \<and> rb_view t = tl (rb_view r) @ [e] \<and> rb_capacity t = rb_capacity r"
proof -
  obtain d where d: "rb_data r = Some d" using inv by (auto simp: rb_inv_def)
  have h: "unat (rb_head r) < unat (rb_cap r)" using inv by (simp add: rb_inv_def)
  have eq: "unat (rb_len r) = unat (rb_cap r)" using full by (simp add: rb_capacity_def)
  then have leq: "rb_len r = rb_cap r" by (simp add: word_eq_unat)
  have el: "length e = unat (rb_elem_size r)" using e by (simp add: rb_fits_def)
  obtain d' where d': "store (unat (rb_head r * rb_elem_size r)) e d = Some d'" "length d' = length d"
      "elems (unat (rb_elem_size r)) (unat (rb_cap r)) d' = (rb_slots r)[unat (rb_head r) := e]"
    using rb_store_slot [OF inv d h el] by blast
  let ?t = "r\<lparr>rb_data := Some d', rb_head := (rb_head r + 1) mod rb_cap r\<rparr>"
  have hd: "unat ((rb_head r + 1) mod rb_cap r) = (unat (rb_head r) + 1) mod unat (rb_cap r)"
    using rb_inv_numbers(4) [OF inv] by (simp add: unat_mod_word)
  have step: "ringbuf_push_overwrite (Some r) (Some e) = Some (ERR_OK, Some ?t)"
    using d d'(1) leq el rb_inv_numbers(2) [OF inv]
    by (auto simp: ringbuf_push_overwrite_def load_whole)
  have "rb_view ?t = ring_view ((rb_slots r)[unat (rb_head r) := e])
                        ((unat (rb_head r) + 1) mod unat (rb_cap r)) (unat (rb_cap r))"
    using d'(3) hd eq by (simp add: rb_view_def rb_slots_def)
  also have "\<dots> = tl (rb_view r) @ [e]"
    using ring_view_overwrite [of "unat (rb_head r)" "rb_slots r" e] h eq by (simp add: rb_view_def)
  finally have view: "rb_view ?t = tl (rb_view r) @ [e]" .
  have "rb_inv ?t" using inv d d'(2) hd h by (simp add: rb_inv_def)
  then show ?thesis using step view by (auto simp: rb_capacity_def)
qed

lemma ringbuf_push_overwrite_room:
  "rb_inv r \<Longrightarrow> length (rb_view r) < rb_capacity r \<Longrightarrow>
   ringbuf_push_overwrite (Some r) (Some e) = ringbuf_push (Some r) (Some e)"
  by (auto simp: ringbuf_push_overwrite_def rb_inv_def rb_capacity_def word_less_unat)

section \<open>The ring buffer is a bounded queue\<close>

definition rb_push :: "block \<Rightarrow> ringbuf \<Rightarrow> (bool \<times> ringbuf) ub" where
  "rb_push e r = do { (c, rp) \<leftarrow> ringbuf_push (Some r) (Some e);
                      t \<leftarrow> rp; Some (c = ERR_OK, t) }"

definition rb_pop :: "ringbuf \<Rightarrow> (block option \<times> ringbuf) ub" where
  "rb_pop r = do { (c, out, rp) \<leftarrow> ringbuf_pop (Some r) True;
                   t \<leftarrow> rp; Some (out, t) }"

interpretation rb: bounded_fifo rb_inv rb_view rb_capacity rb_fits rb_push rb_pop
proof unfold_locales
  fix r :: ringbuf and e :: block and es :: "block list"
  show "rb_inv r \<Longrightarrow> length (rb_view r) \<le> rb_capacity r"
    by (simp add: rb_inv_def rb_capacity_def)
  show "rb_inv r \<Longrightarrow> rb_fits r e \<Longrightarrow> length (rb_view r) < rb_capacity r \<Longrightarrow>
    \<exists>t. rb_push e r = Some (True, t) \<and> rb_inv t \<and> rb_view t = rb_view r @ [e]
        \<and> rb_capacity t = rb_capacity r \<and> rb_fits t = rb_fits r"
    using ringbuf_push_room [of r e] by (auto simp: rb_push_def rb_fits_def fun_eq_iff)
  show "rb_inv r \<Longrightarrow> rb_fits r e \<Longrightarrow> length (rb_view r) = rb_capacity r \<Longrightarrow>
    rb_push e r = Some (False, r)"
    by (simp add: rb_push_def ringbuf_push_full)
  show "rb_inv r \<Longrightarrow> rb_view r = e # es \<Longrightarrow>
    \<exists>t. rb_pop r = Some (Some e, t) \<and> rb_inv t \<and> rb_view t = es
        \<and> rb_capacity t = rb_capacity r \<and> rb_fits t = rb_fits r"
    using ringbuf_pop_some [of r e es True] by (auto simp: rb_pop_def rb_fits_def fun_eq_iff)
  show "rb_inv r \<Longrightarrow> rb_view r = [] \<Longrightarrow> rb_pop r = Some (None, r)"
    by (simp add: rb_pop_def ringbuf_pop_none)
qed

section \<open>Properties\<close>

text \<open>
  C38. From any well-formed ring buffer, any sequence of pushes and pops runs without
  undefined behaviour and keeps the ring well-formed, and the elements come out in the
  order they went in: what was stored before followed by what was accepted is what was
  delivered followed by what is stored now, and never more than the capacity is stored.
\<close>

theorem ringbuf_fifo:
  assumes "rb_inv r" and "\<And>e. Push e \<in> set ops \<Longrightarrow> rb_fits r e"
  shows "\<exists>outs t. impl_run rb_push rb_pop ops r = Some (outs, t) \<and> rb_inv t
             \<and> rb_view r @ accepted ops outs = delivered outs @ rb_view t
             \<and> length (rb_view t) \<le> rb_capacity r"
  using assms by (rule rb.run_fifo)

definition rb_example :: ringbuf where
  "rb_example = \<lparr>rb_data = Some [Some 1, Some 2], rb_elem_size = 1, rb_cap = 2, rb_head = 1, rb_len = 1\<rparr>"

theorem ringbuf_fifo_witness:
  "\<exists>outs t. impl_run rb_push rb_pop [Push [Some 7], Pop, Pop, Pop] rb_example = Some (outs, t) \<and> rb_inv t
      \<and> rb_view rb_example @ accepted [Push [Some 7], Pop, Pop, Pop] outs = delivered outs @ rb_view t
      \<and> length (rb_view t) \<le> rb_capacity rb_example"
  by (rule ringbuf_fifo) (auto simp: rb_inv_def rb_example_def rb_fits_def)

text \<open>
  \<open>ringbuf_push_overwrite\<close> never refuses: it appends the element, and on a full ring it
  drops exactly the oldest one to make room, keeping the ring well-formed and its capacity.
\<close>

theorem ringbuf_push_overwrite_spec:
  assumes "rb_inv r" and "rb_fits r e"
  shows "\<exists>t. ringbuf_push_overwrite (Some r) (Some e) = Some (ERR_OK, Some t) \<and> rb_inv t
             \<and> rb_capacity t = rb_capacity r
             \<and> rb_view t = (if length (rb_view r) = rb_capacity r then tl (rb_view r) else rb_view r) @ [e]"
proof (cases "length (rb_view r) = rb_capacity r")
  case True
  then show ?thesis using ringbuf_push_overwrite_full [OF assms] by auto
next
  case False
  then have room: "length (rb_view r) < rb_capacity r" using rb.view_bound [OF assms(1)] by simp
  then show ?thesis
    using ringbuf_push_room [OF assms room] ringbuf_push_overwrite_room [OF assms(1) room] by auto
qed

theorem ringbuf_push_overwrite_witness:
  "\<exists>t. ringbuf_push_overwrite (Some rb_example) (Some [Some 9]) = Some (ERR_OK, Some t) \<and> rb_inv t
      \<and> rb_capacity t = rb_capacity rb_example
      \<and> rb_view t = (if length (rb_view rb_example) = rb_capacity rb_example
                     then tl (rb_view rb_example) else rb_view rb_example) @ [[Some 9]]"
  by (rule ringbuf_push_overwrite_spec) (auto simp: rb_inv_def rb_example_def rb_fits_def)

end
