(* ===== verification/Arena.thy ===== *)
theory Arena
  imports Core
begin

unbundle bit_operations_syntax

text \<open>
  The bump allocator of \<open>src/memory/arena.c\<close>. Addresses are 64-bit words with 0 for
  \<open>NULL\<close>; the address the C allocator gives for the backing buffer is an argument of
  \<open>arena_init\<close>. The lemmas show what the rounding \<open>(x + align - 1) & ~(align - 1)\<close>
  computes, that no request is refused that fits, and that the blocks handed out since the
  last reset are inside the buffer and pairwise disjoint.
\<close>

section \<open>State and operations\<close>

record arena =
  ar_buf :: u64
  ar_cap :: size_t
  ar_pos :: size_t

text \<open>\<open>base\<close> is the result of \<open>malloc(capacity)\<close>, 0 when it fails.\<close>

definition arena_init :: "u64 \<Rightarrow> arena option \<Rightarrow> size_t \<Rightarrow> error_code \<times> arena option" where
  "arena_init base ap capacity =
     (case ap of
        None \<Rightarrow> (ERR_INVALID_ARG, None)
      | Some a \<Rightarrow>
          if capacity = 0 then (ERR_INVALID_ARG, Some a)
          else if base = 0 then (ERR_NOMEM, Some (a\<lparr>ar_buf := 0\<rparr>))
          else (ERR_OK, Some \<lparr>ar_buf = base, ar_cap = capacity, ar_pos = 0\<rparr>))"

definition arena_alloc :: "arena option \<Rightarrow> size_t \<Rightarrow> size_t \<Rightarrow> u64 \<times> arena option" where
  "arena_alloc ap sz align =
     (case ap of
        None \<Rightarrow> (0, None)
      | Some a \<Rightarrow>
          if ar_buf a = 0 \<or> sz = 0 then (0, ap)
          else if align = 0 \<or> align AND (align - 1) \<noteq> 0 then (0, ap)
          else if ar_pos a > SIZE_MAX - (align - 1) then (0, ap)
          else (let aligned = (ar_pos a + align - 1) AND NOT (align - 1)
                in if aligned > ar_cap a \<or> sz > ar_cap a - aligned then (0, ap)
                   else (ar_buf a + aligned, Some (a\<lparr>ar_pos := aligned + sz\<rparr>))))"

definition arena_reset :: "arena option \<Rightarrow> arena option" where
  "arena_reset ap = map_option (\<lambda>a. a\<lparr>ar_pos := 0\<rparr>) ap"

definition arena_destroy :: "arena option \<Rightarrow> arena option" where
  "arena_destroy ap = map_option (\<lambda>a. \<lparr>ar_buf = 0, ar_cap = 0, ar_pos = 0\<rparr>) ap"

section \<open>Powers of two and rounding up\<close>

text \<open>The test \<open>align != 0 && (align & (align - 1)) == 0\<close> accepts exactly the powers of two.\<close>

lemma and_pred_zero_pow2:
  assumes "w \<noteq> 0" and "w AND (w - 1) = (0 :: size_t)"
  shows "\<exists>k < 64. w = 2 ^ k"
proof -
  let ?n = "unat w"
  have n0: "0 < ?n" using assms(1) by (simp add: unat_gt_0)
  have "1 \<le> ?n" using n0 by simp
  then have "\<exists>k. 2 ^ k \<le> ?n \<and> ?n < 2 ^ (k + 1)" by (intro ex_power_ivl1) simp_all
  then obtain k where k: "2 ^ k \<le> ?n" "?n < 2 ^ (k + 1)" by blast
  have "(2::nat) ^ k < 2 ^ 64" using k(1) unat_less_2p64 [of w] by simp
  then have k64: "k < 64" by (rule power_less_imp_less_exp [rotated]) simp
  have pred: "unat (w - 1) = ?n - 1"
    using n0 by (subst unat_diff_le) (simp_all add: word_le_unat)
  have "?n = 2 ^ k"
  proof (rule ccontr)
    assume "?n \<noteq> 2 ^ k"
    then have gt: "2 ^ k < ?n" using k(1) by simp
    have one: "m div 2 ^ k = 1" if "2 ^ k \<le> m" "m < 2 ^ (k + 1)" for m :: nat
      using that by (simp add: div_nat_eqI)
    have "bit ?n k" using one [OF k] by (simp add: bit_iff_odd)
    moreover have "bit (?n - 1) k" using one [of "?n - 1"] gt k(2) by (simp add: bit_iff_odd)
    ultimately have "bit (unat w AND unat (w - 1)) k" using pred by (simp add: bit_and_iff)
    then have "unat (w AND (w - 1)) \<noteq> 0"
      by (metis bit_0_eq bot_apply bot_bool_def unsigned_and_eq)
    then show False using assms(2) by simp
  qed
  then have "w = 2 ^ k" using k64 by (simp add: word_eq_unat)
  then show ?thesis using k64 by blast
qed

lemma pow2_and_pred_zero: "k < 64 \<Longrightarrow> (2 ^ k :: size_t) \<noteq> 0 \<and> 2 ^ k AND (2 ^ k - 1) = (0 :: size_t)"
proof -
  assume k: "k < 64"
  have "unat ((2 :: size_t) ^ k) \<noteq> 0" using unat_pow2 [OF k] by simp
  then have nz: "(2 ^ k :: size_t) \<noteq> 0" by (metis unat_0)
  have "2 ^ k AND (2 ^ k - 1) = (take_bit k (2 ^ k) :: size_t)"
    by (simp add: take_bit_eq_mask mask_eq_exp_minus_1)
  also have "\<dots> = 0" by (simp add: take_bit_eq_mod)
  finally show ?thesis using nz by simp
qed

lemma unat_and_not_mask:
  "k < 64 \<Longrightarrow> unat (x AND NOT (2 ^ k - 1 :: size_t)) = unat x - unat x mod 2 ^ k"
proof -
  assume k: "k < 64"
  have m: "(2 ^ k - 1 :: size_t) = mask k" by (simp add: mask_eq_exp_minus_1)
  have "x = take_bit k x + (x AND NOT (mask k))"
    by (subst disjunctive_add)
       (auto simp: bit_simps intro!: bit_word_eqI)
  then have eq: "x AND NOT (mask k) = x - take_bit k x" by (metis add_diff_cancel_left')
  have le: "take_bit k x \<le> x"
    by (simp add: word_le_nat_alt unsigned_take_bit_eq take_bit_nat_less_eq_self)
  show ?thesis
    unfolding m eq unat_diff_le [OF le] unsigned_take_bit_eq
    by (simp add: take_bit_eq_mod)
qed

text \<open>Rounding up: the least multiple of the alignment at or above the position.\<close>

lemma align_up:
  assumes "align \<noteq> 0" and "align AND (align - 1) = (0 :: size_t)"
    and "\<not> pos > SIZE_MAX - (align - 1)"
  defines "up \<equiv> (pos + align - 1) AND NOT (align - 1)"
  shows "unat align dvd unat up" and "pos \<le> up" and "unat up < unat pos + unat align"
proof -
  obtain k where k: "k < 64" "align = 2 ^ k" using and_pred_zero_pow2 [OF assms(1,2)] by blast
  have al: "unat align = 2 ^ k" using k by simp
  have pred: "unat (align - 1) = 2 ^ k - 1"
    using al by (subst unat_diff_le) (simp_all add: word_le_unat)
  have bound: "unat pos + (2 ^ k - 1) \<le> 18446744073709551615"
  proof -
    have "align - 1 \<le> SIZE_MAX" by (simp add: word_le_unat unat_SIZE_MAX unat_le_SIZE_MAX)
    then have "unat (SIZE_MAX - (align - 1)) = 18446744073709551615 - (2 ^ k - 1)"
      using pred unat_diff_le [of "align - 1" SIZE_MAX] unat_SIZE_MAX by simp
    moreover have "unat pos \<le> unat (SIZE_MAX - (align - 1))"
      using assms(3) by (simp only: word_less_unat not_less)
    moreover have "2 ^ k - 1 \<le> (18446744073709551615 :: nat)"
      using pred unat_le_SIZE_MAX [of "align - 1"] by simp
    ultimately show ?thesis by linarith
  qed
  have sum: "unat (pos + align - 1) = unat pos + (2 ^ k - 1)"
  proof -
    have "pos + align - 1 = pos + (align - 1)" by simp
    moreover have "unat (pos + (align - 1)) = unat pos + unat (align - 1)"
      using bound pred by (intro unat_add_small) linarith
    ultimately show ?thesis using pred by (simp only:)
  qed
  have up: "unat up = (unat pos + (2 ^ k - 1)) - (unat pos + (2 ^ k - 1)) mod 2 ^ k"
    using unat_and_not_mask [OF k(1), of "pos + align - 1"] sum k(2) by (simp add: up_def)
  have lt: "(unat pos + (2 ^ k - 1)) mod 2 ^ k < 2 ^ k" by simp
  show "unat align dvd unat up" unfolding up al by (rule dvd_minus_mod)
  show "pos \<le> up" using up lt unfolding word_le_unat by linarith
  show "unat up < unat pos + unat align" using up lt unfolding al by linarith
qed

section \<open>Invariant and what an allocation returns\<close>

text \<open>The C allocator's guarantee: the buffer does not wrap around the address space.\<close>

definition ar_inv :: "arena \<Rightarrow> bool" where
  "ar_inv a \<longleftrightarrow> ar_buf a \<noteq> 0 \<and> ar_pos a \<le> ar_cap a \<and> unat (ar_buf a) + unat (ar_cap a) < 2 ^ 64"

lemma arena_init_inv:
  assumes "arena_init base (Some a0) n = (ERR_OK, ap)" and "unat base + unat n < 2 ^ 64"
  shows "\<exists>a. ap = Some a \<and> ar_inv a \<and> ar_pos a = 0 \<and> ar_cap a = n \<and> ar_buf a = base"
  using assms by (auto simp: arena_init_def ar_inv_def split: if_splits)

lemma arena_reset_inv: "ar_inv a \<Longrightarrow> \<exists>b. arena_reset (Some a) = Some b \<and> ar_inv b \<and> ar_pos b = 0"
  by (simp add: arena_reset_def ar_inv_def)

lemma arena_alloc_invalid:
  "sz = 0 \<or> align = 0 \<or> align AND (align - 1) \<noteq> 0 \<Longrightarrow> arena_alloc (Some a) sz align = (0, Some a)"
  by (auto simp: arena_alloc_def)

text \<open>The offset of a request: the position rounded up to the alignment.\<close>

definition ar_offset :: "arena \<Rightarrow> size_t \<Rightarrow> nat" where
  "ar_offset a align = ((unat (ar_pos a) + unat align - 1) div unat align) * unat align"

lemma round_up_unique:
  assumes "(m :: nat) dvd u" and "p \<le> u" and "u < p + m"
  shows "u = ((p + m - 1) div m) * m"
proof -
  obtain q where q: "u = m * q" using assms(1) by blast
  have m: "0 < m" using assms by linarith
  have "(p + m - 1) div m = q"
  proof (rule div_nat_eqI)
    show "m * q \<le> p + m - 1" using assms(3) q by linarith
    show "p + m - 1 < m * Suc q" using assms(2) q m by simp
  qed
  then show ?thesis using q by (simp add: mult.commute)
qed

lemma arena_alloc_cases:
  assumes inv: "ar_inv a" and sz: "sz \<noteq> 0" and al: "align \<noteq> 0" "align AND (align - 1) = 0"
  shows "if ar_offset a align + unat sz \<le> unat (ar_cap a)
         then \<exists>b. arena_alloc (Some a) sz align = (ar_buf a + word_of_nat (ar_offset a align), Some b)
                  \<and> unat (ar_buf a + word_of_nat (ar_offset a align)) = unat (ar_buf a) + ar_offset a align
                  \<and> b = a\<lparr>ar_pos := ar_pos b\<rparr> \<and> ar_inv b
                  \<and> unat (ar_pos b) = ar_offset a align + unat sz
         else arena_alloc (Some a) sz align = (0, Some a)"
proof (cases "ar_pos a > SIZE_MAX - (align - 1)")
  case True
  have n0: "0 < unat align" using al(1) by (simp add: unat_gt_0)
  have pred: "unat (align - 1) = unat align - 1"
    using n0 by (subst unat_diff_le) (simp_all add: word_le_unat)
  have "align - 1 \<le> SIZE_MAX" by (simp add: word_le_unat unat_SIZE_MAX unat_le_SIZE_MAX)
  then have "unat (SIZE_MAX - (align - 1)) = 18446744073709551615 - (unat align - 1)"
    using pred unat_diff_le [of "align - 1" SIZE_MAX] unat_SIZE_MAX by simp
  then have big: "18446744073709551615 < unat (ar_pos a) + unat align - 1"
    using True n0 unat_le_SIZE_MAX [of align] by (simp add: word_less_unat)
  obtain k where k: "k < 64" "align = 2 ^ k" using and_pred_zero_pow2 [OF al] by blast
  have "2 ^ k dvd (18446744073709551616 :: nat)"
  proof -
    have "(2 :: nat) ^ k dvd 2 ^ 64" using k(1) by (intro le_imp_power_dvd) simp
    then show ?thesis by simp
  qed
  then have "unat align dvd (18446744073709551616 :: nat)" using k by simp
  then obtain q where q: "18446744073709551616 = unat align * q" by blast
  have "q \<le> (unat (ar_pos a) + unat align - 1) div unat align"
    using big n0 q by (simp add: less_eq_div_iff_mult_less_eq mult.commute)
  then have "18446744073709551616 \<le> ar_offset a align"
    unfolding ar_offset_def q by (subst mult.commute) (rule mult_le_mono1)
  then have "\<not> ar_offset a align + unat sz \<le> unat (ar_cap a)"
    using unat_le_SIZE_MAX [of "ar_cap a"] by linarith
  then show ?thesis using True sz al by (simp add: arena_alloc_def)
next
  case False
  let ?up = "(ar_pos a + align - 1) AND NOT (align - 1)"
  have up: "unat align dvd unat ?up" "ar_pos a \<le> ?up" "unat ?up < unat (ar_pos a) + unat align"
    using align_up [OF al False] by blast+
  have off: "unat ?up = ar_offset a align"
    unfolding ar_offset_def using up by (intro round_up_unique) (simp_all add: word_le_unat)
  have word: "?up = word_of_nat (ar_offset a align)" by (simp add: off [symmetric])
  have guard: "(?up > ar_cap a \<or> sz > ar_cap a - ?up) = (\<not> ar_offset a align + unat sz \<le> unat (ar_cap a))"
  proof (cases "?up \<le> ar_cap a")
    case True
    then show ?thesis using off by (auto simp: word_less_unat word_le_unat unat_diff_le)
  next
    case False
    then show ?thesis using off by (auto simp: word_le_unat word_less_unat)
  qed
  show ?thesis
  proof (cases "ar_offset a align + unat sz \<le> unat (ar_cap a)")
    case True
    let ?b = "a\<lparr>ar_pos := ?up + sz\<rparr>"
    have pos: "unat (?up + sz) = ar_offset a align + unat sz"
      using True off unat_less_2p64 [of "ar_cap a"] by (subst unat_add_small) simp_all
    have addr: "unat (ar_buf a + ?up) = unat (ar_buf a) + ar_offset a align"
      using True off inv by (subst unat_add_small) (simp_all add: ar_inv_def)
    have "arena_alloc (Some a) sz align = (ar_buf a + ?up, Some ?b)"
      using inv sz al False True guard by (simp add: arena_alloc_def Let_def ar_inv_def)
    moreover have "ar_inv ?b" using inv True pos by (simp add: ar_inv_def word_le_unat)
    ultimately show ?thesis using True pos addr word by auto
  next
    case no: False
    then show ?thesis using inv sz al False guard by (auto simp: arena_alloc_def Let_def ar_inv_def)
  qed
qed

section \<open>Sequences of allocations\<close>

text \<open>
  A run of requests since the last reset, collecting the blocks handed out (refused
  requests give none).
\<close>

fun arena_run :: "(size_t \<times> size_t) list \<Rightarrow> arena \<Rightarrow> (u64 \<times> size_t \<times> size_t) list \<times> arena" where
  "arena_run [] a = ([], a)"
| "arena_run ((sz, align) # reqs) a =
     (case arena_alloc (Some a) sz align of
        (p, Some b) \<Rightarrow> (let (bs, c) = arena_run reqs b
                       in (if p = 0 then bs else (p, sz, align) # bs, c))
      | (p, None) \<Rightarrow> ([], a))"

definition blocks_apart :: "u64 \<times> size_t \<times> size_t \<Rightarrow> u64 \<times> size_t \<times> size_t \<Rightarrow> bool" where
  "blocks_apart b c \<longleftrightarrow>
     unat (fst b) + unat (fst (snd b)) \<le> unat (fst c) \<or> unat (fst c) + unat (fst (snd c)) \<le> unat (fst b)"

definition block_ok :: "arena \<Rightarrow> u64 \<times> size_t \<times> size_t \<Rightarrow> bool" where
  "block_ok a b \<longleftrightarrow>
     (case b of (p, sz, align) \<Rightarrow>
        unat (ar_buf a) + unat (ar_pos a) \<le> unat p \<and> unat p + unat sz \<le> unat (ar_buf a) + unat (ar_cap a)
        \<and> unat align dvd unat p - unat (ar_buf a))"

text \<open>One request, with any size and alignment.\<close>

lemma arena_alloc_step:
  assumes "ar_inv a" and "arena_alloc (Some a) sz align = (p, bp)"
  shows "\<exists>b. bp = Some b \<and> ar_inv b \<and> ar_buf b = ar_buf a \<and> ar_cap b = ar_cap a
             \<and> ar_pos a \<le> ar_pos b
             \<and> (p \<noteq> 0 \<longrightarrow> block_ok a (p, sz, align)
                          \<and> unat p + unat sz = unat (ar_buf b) + unat (ar_pos b))"
proof (cases "sz \<noteq> 0 \<and> align \<noteq> 0 \<and> align AND (align - 1) = 0 \<and>
              ar_offset a align + unat sz \<le> unat (ar_cap a)")
  case True
  then obtain b where b: "arena_alloc (Some a) sz align = (ar_buf a + word_of_nat (ar_offset a align), Some b)"
      "unat (ar_buf a + word_of_nat (ar_offset a align)) = unat (ar_buf a) + ar_offset a align"
      "b = a\<lparr>ar_pos := ar_pos b\<rparr>" "ar_inv b" "unat (ar_pos b) = ar_offset a align + unat sz"
    using arena_alloc_cases [OF assms(1), of sz align] by auto
  have n0: "0 < unat align" using True by (simp add: unat_gt_0)
  have ge: "unat (ar_pos a) \<le> ar_offset a align"
  proof -
    have "unat (ar_pos a) + unat align - 1
        = ar_offset a align + (unat (ar_pos a) + unat align - 1) mod unat align"
      by (simp add: ar_offset_def)
    moreover have "(unat (ar_pos a) + unat align - 1) mod unat align < unat align" using n0 by simp
    ultimately show ?thesis by linarith
  qed
  have fields: "ar_buf b = ar_buf a" "ar_cap b = ar_cap a"
    using b(3) by (metis arena.select_convs(1) arena.surjective arena.update_convs(3),
                   metis arena.select_convs(2) arena.surjective arena.update_convs(3))
  have "unat align dvd ar_offset a align" by (simp add: ar_offset_def)
  then show ?thesis
    using b fields ge True assms(2) by (auto simp: block_ok_def word_le_unat)
next
  case False
  then have "arena_alloc (Some a) sz align = (0, Some a)"
    using arena_alloc_invalid [of sz align a] arena_alloc_cases [OF assms(1), of sz align] by metis
  then have "p = 0 \<and> bp = Some a" using assms(2) by simp
  then show ?thesis using assms(1) by auto
qed

lemma arena_run_blocks:
  assumes "ar_inv a"
  shows "ar_inv (snd (arena_run reqs a)) \<and> ar_cap (snd (arena_run reqs a)) = ar_cap a
       \<and> list_all (block_ok a) (fst (arena_run reqs a))
       \<and> sorted_wrt blocks_apart (fst (arena_run reqs a))"
  using assms
proof (induction reqs arbitrary: a)
  case Nil
  then show ?case by simp
next
  case (Cons r reqs)
  obtain sz align where r: "r = (sz, align)" by fastforce
  obtain p bp where step: "arena_alloc (Some a) sz align = (p, bp)" by fastforce
  obtain b where b: "bp = Some b" "ar_inv b" "ar_buf b = ar_buf a" "ar_cap b = ar_cap a"
      "ar_pos a \<le> ar_pos b"
      "p \<noteq> 0 \<longrightarrow> block_ok a (p, sz, align) \<and> unat p + unat sz = unat (ar_buf b) + unat (ar_pos b)"
    using arena_alloc_step [OF Cons.prems step] by blast
  obtain bs c where run: "arena_run reqs b = (bs, c)" by fastforce
  have IH: "ar_inv c" "ar_cap c = ar_cap b" "list_all (block_ok b) bs" "sorted_wrt blocks_apart bs"
    using Cons.IH [OF b(2)] run by simp_all
  have mono: "block_ok a x" if "block_ok b x" for x
    using that b(3,4,5) by (auto simp: block_ok_def word_le_unat)
  have apart: "blocks_apart (p, sz, align) x" if "block_ok b x" "p \<noteq> 0" for x
    using that b(6) by (auto simp: block_ok_def blocks_apart_def)
  show ?case
    using r step b run IH mono apart by (auto simp: list_all_iff)
qed

section \<open>Properties\<close>

text \<open>
  C37. However the arena is used between two resets (any sizes, any alignments, valid or
  not), every block it hands out lies inside the buffer at or after the starting position,
  at an offset that is a multiple of the alignment asked for, and no two blocks overlap.
\<close>

theorem arena_blocks_disjoint:
  assumes "ar_inv a"
  shows "list_all (block_ok a) (fst (arena_run reqs a))
       \<and> sorted_wrt blocks_apart (fst (arena_run reqs a)) \<and> ar_inv (snd (arena_run reqs a))"
  using arena_run_blocks [OF assms] by simp

definition arena_example :: arena where
  "arena_example = \<lparr>ar_buf = 4096, ar_cap = 64, ar_pos = 3\<rparr>"

theorem arena_blocks_disjoint_witness:
  "list_all (block_ok arena_example) (fst (arena_run [(5, 8), (3, 0), (40, 16), (99, 1)] arena_example))
   \<and> sorted_wrt blocks_apart (fst (arena_run [(5, 8), (3, 0), (40, 16), (99, 1)] arena_example))
   \<and> ar_inv (snd (arena_run [(5, 8), (3, 0), (40, 16), (99, 1)] arena_example))"
  by (rule arena_blocks_disjoint) (simp add: ar_inv_def arena_example_def)

text \<open>
  A request is served exactly when it is valid and fits: the size is not 0, the
  alignment is a power of two, and the rounded-up position plus the size is within the
  capacity. In particular neither the wrap-around guard nor the two-part comparison of the
  code ever refuses a request that fits.
\<close>

theorem arena_alloc_served_iff:
  assumes "ar_inv a"
  shows "fst (arena_alloc (Some a) sz align) \<noteq> 0 \<longleftrightarrow>
         sz \<noteq> 0 \<and> (\<exists>k < 64. align = 2 ^ k) \<and> ar_offset a align + unat sz \<le> unat (ar_cap a)"
proof (cases "sz \<noteq> 0 \<and> align \<noteq> 0 \<and> align AND (align - 1) = 0")
  case True
  obtain k where k: "k < 64" "align = 2 ^ k" using and_pred_zero_pow2 True by blast
  have "ar_buf a \<noteq> 0" using assms by (simp add: ar_inv_def)
  then have base: "unat (ar_buf a) \<noteq> 0" by (simp add: unat_eq_zero)
  have cases: "if ar_offset a align + unat sz \<le> unat (ar_cap a)
      then fst (arena_alloc (Some a) sz align) \<noteq> 0 else fst (arena_alloc (Some a) sz align) = 0"
    using arena_alloc_cases [OF assms, of sz align] True base
    by (auto simp: unat_eq_zero split: if_splits)
  show ?thesis using cases True k by (auto split: if_splits)
next
  case False
  have "fst (arena_alloc (Some a) sz align) = 0"
    using False arena_alloc_invalid [of sz align a] by auto
  moreover have "\<not> (sz \<noteq> 0 \<and> (\<exists>k < 64. align = 2 ^ k))"
    using False pow2_and_pred_zero by auto
  ultimately show ?thesis by blast
qed

theorem arena_alloc_served_iff_witness:
  "fst (arena_alloc (Some arena_example) 8 16) \<noteq> 0 \<longleftrightarrow>
     (8 :: size_t) \<noteq> 0 \<and> (\<exists>k < 64. (16 :: size_t) = 2 ^ k)
     \<and> ar_offset arena_example 16 + unat (8 :: size_t) \<le> unat (ar_cap arena_example)"
  by (rule arena_alloc_served_iff) (simp add: ar_inv_def arena_example_def)

text \<open>
  The offset is aligned, the address need not be: the code rounds \<open>pos\<close>, not \<open>buf + pos\<close>.
  With a buffer at a 16-byte boundary (all \<open>malloc\<close> promises) an alignment of 64 is accepted
  and the pointer returned is not a multiple of 64.
\<close>

lemma arena_address_not_aligned:
  "\<exists>a p b. ar_inv a \<and> 16 dvd unat (ar_buf a) \<and> arena_alloc (Some a) 8 64 = (p, b)
      \<and> p \<noteq> 0 \<and> \<not> 64 dvd unat p"
proof -
  let ?a = "\<lparr>ar_buf = 4112, ar_cap = 256, ar_pos = 0\<rparr>"
  have "arena_alloc (Some ?a) 8 64 = (4112, Some (?a\<lparr>ar_pos := 8\<rparr>))"
    by (simp add: arena_alloc_def)
  moreover have "ar_inv ?a" by (simp add: ar_inv_def)
  ultimately show ?thesis by (intro exI [of _ ?a]) auto
qed

end
