(* ===== verification/Pool.thy ===== *)
theory Pool
  imports Core
begin

text \<open>
  The fixed-size block allocator of \<open>src/memory/pool.c\<close>. The free list is threaded
  through the first pointer-sized word of the free blocks, so the model keeps that memory:
  a function from addresses to the 64-bit word stored there. A client that owns a block may
  overwrite its word. The step relation interleaves allocations, frees and client writes;
  its invariant is that the list threaded in memory holds exactly the blocks that no client
  owns, each once. A link is a store through \<open>void **\<close> at the start of a block, and memory is here a function on
  all addresses: the model takes every such store as defined. The code does not round a block size of
  more than eight bytes up to a multiple of eight, so for other sizes the C standard calls these
  stores misaligned and undefined; on the processors the model describes they store the eight bytes.
\<close>

section \<open>State and operations\<close>

record pool =
  pl_buf :: u64
  pl_block_size :: size_t
  pl_block_count :: size_t
  pl_free_list :: u64

text \<open>The loop \<open>for (i = block_count; i-- > 0;)\<close>.\<close>

primrec thread_blocks :: "u64 \<Rightarrow> size_t \<Rightarrow> nat \<Rightarrow> links \<Rightarrow> u64 \<Rightarrow> links \<times> u64" where
  "thread_blocks buf bs 0 m fl = (m, fl)"
| "thread_blocks buf bs (Suc i) m fl =
     (let block = buf + word_of_nat i * bs in thread_blocks buf bs i (m(block := fl)) block)"

text \<open>\<open>base\<close> is the result of \<open>malloc(block_size * block_count)\<close>, 0 when it fails.\<close>

definition pool_init ::
  "u64 \<Rightarrow> links \<Rightarrow> pool option \<Rightarrow> size_t \<Rightarrow> size_t \<Rightarrow> error_code \<times> links \<times> pool option" where
  "pool_init base m pp block_size block_count =
     (case pp of
        None \<Rightarrow> (ERR_INVALID_ARG, m, None)
      | Some p \<Rightarrow>
          if block_count = 0 then (ERR_INVALID_ARG, m, Some p)
          else (let bs = (if block_size < 8 then 8 else block_size) in
            if block_count > SIZE_MAX div bs then (ERR_OVERFLOW, m, Some p)
            else (let p1 = p\<lparr>pl_block_size := bs, pl_block_count := block_count, pl_buf := base\<rparr> in
              if base = 0 then (ERR_NOMEM, m, Some p1)
              else (let (m', fl) = thread_blocks base bs (unat block_count) m 0
                    in (ERR_OK, m', Some (p1\<lparr>pl_free_list := fl\<rparr>))))))"

lemma thread_blocks_numeral [simp]:
  "thread_blocks buf bs (numeral k) m fl =
     (let block = buf + word_of_nat (pred_numeral k) * bs
      in thread_blocks buf bs (pred_numeral k) (m(block := fl)) block)"
  by (simp add: numeral_eq_Suc)

definition pool_alloc :: "links \<Rightarrow> pool option \<Rightarrow> u64 \<times> pool option" where
  "pool_alloc m pp =
     (case pp of
        None \<Rightarrow> (0, None)
      | Some p \<Rightarrow>
          if pl_free_list p = 0 then (0, pp)
          else (let block = pl_free_list p in (block, Some (p\<lparr>pl_free_list := m block\<rparr>))))"

definition pool_free :: "links \<Rightarrow> pool option \<Rightarrow> u64 \<Rightarrow> links \<times> pool option" where
  "pool_free m pp ptr =
     (case pp of
        None \<Rightarrow> (m, None)
      | Some p \<Rightarrow>
          if ptr = 0 \<or> pl_buf p = 0 then (m, pp)
          else (let span = pl_block_size p * pl_block_count p in
            if ptr < pl_buf p \<or> ptr \<ge> pl_buf p + span then (m, pp)
            else if (ptr - pl_buf p) mod pl_block_size p \<noteq> 0 then (m, pp)
            else (m(ptr := pl_free_list p), Some (p\<lparr>pl_free_list := ptr\<rparr>))))"

definition pool_destroy :: "pool option \<Rightarrow> pool option" where
  "pool_destroy pp = map_option (\<lambda>p. p\<lparr>pl_buf := 0, pl_free_list := 0\<rparr>) pp"

section \<open>Geometry: the blocks of a pool\<close>

definition pl_geom :: "pool \<Rightarrow> bool" where
  "pl_geom p \<longleftrightarrow> pl_buf p \<noteq> 0 \<and> 0 < unat (pl_block_size p) \<and>
     unat (pl_buf p) + unat (pl_block_count p) * unat (pl_block_size p) < 2 ^ 64"

definition pl_addr :: "pool \<Rightarrow> nat \<Rightarrow> u64" where
  "pl_addr p i = pl_buf p + word_of_nat i * pl_block_size p"

definition pl_blocks :: "pool \<Rightarrow> u64 set" where
  "pl_blocks p = pl_addr p ` {..< unat (pl_block_count p)}"

lemma unat_block:
  assumes "unat (buf :: u64) + n * unat bs < 2 ^ 64" and "i < n" and "0 < unat bs"
  shows "unat (buf + word_of_nat i * bs) = unat buf + i * unat bs"
proof -
  have m: "i * unat bs \<le> n * unat bs" using assms(2) by (intro mult_le_mono1) simp
  have lim: "unat buf + n * unat bs < 18446744073709551616" using assms(1) by simp
  have "i \<le> n * unat bs" using m assms(3) by (rule factor_le)
  then have i64: "i < 18446744073709551616" using lim by linarith
  then have i: "unat (word_of_nat i :: u64) = i" by (simp add: unsigned_of_nat take_bit_nat_eq_self)
  have "i * unat bs < 18446744073709551616" using m lim by linarith
  then have p: "unat (word_of_nat i * bs) = i * unat bs"
    using unat_mult_small [of "word_of_nat i" bs] i by simp
  have "unat buf + i * unat bs < 18446744073709551616" using m lim by linarith
  then show ?thesis using unat_add_small [of buf "word_of_nat i * bs"] p by simp
qed

lemma unat_pl_addr:
  "pl_geom p \<Longrightarrow> i < unat (pl_block_count p) \<Longrightarrow>
   unat (pl_addr p i) = unat (pl_buf p) + i * unat (pl_block_size p)"
  unfolding pl_addr_def pl_geom_def by (rule unat_block) auto

lemma pl_addr_inj: "pl_geom p \<Longrightarrow> inj_on (pl_addr p) {..< unat (pl_block_count p)}"
  by (rule inj_onI) (metis (no_types, lifting) unat_pl_addr lessThan_iff add_left_cancel
      mult_cancel2 pl_geom_def less_numeral_extra(3))

lemma card_pl_blocks: "pl_geom p \<Longrightarrow> card (pl_blocks p) = unat (pl_block_count p)"
  by (simp add: pl_blocks_def card_image pl_addr_inj)

lemma pl_blocks_nonzero:
  assumes "pl_geom p" and "b \<in> pl_blocks p"
  shows "b \<noteq> 0"
proof -
  obtain i where i: "i < unat (pl_block_count p)" "b = pl_addr p i"
    using assms(2) by (auto simp: pl_blocks_def)
  have "unat (pl_buf p) \<noteq> 0" using assms(1) by (simp add: pl_geom_def unat_eq_zero)
  then have "unat b \<noteq> 0" using unat_pl_addr [OF assms(1) i(1)] i(2) by simp
  then show ?thesis by (metis unat_0)
qed

text \<open>The checks of \<open>pool_free\<close> accept exactly the block addresses.\<close>

lemma pool_free_guard:
  assumes g: "pl_geom p"
  shows "(\<not> (ptr < pl_buf p \<or> ptr \<ge> pl_buf p + pl_block_size p * pl_block_count p)
          \<and> (ptr - pl_buf p) mod pl_block_size p = 0) \<longleftrightarrow> ptr \<in> pl_blocks p"
    (is "?ok \<longleftrightarrow> _")
proof -
  let ?b = "unat (pl_buf p)" and ?s = "unat (pl_block_size p)" and ?n = "unat (pl_block_count p)"
  have b: "?b + ?n * ?s < 18446744073709551616" "0 < ?s" using g by (auto simp: pl_geom_def)
  have span: "unat (pl_block_size p * pl_block_count p) = ?n * ?s"
    using b unat_mult_small [of "pl_block_size p" "pl_block_count p"] by (simp add: mult.commute)
  have top: "unat (pl_buf p + pl_block_size p * pl_block_count p) = ?b + ?n * ?s"
    using b span unat_add_small [of "pl_buf p" "pl_block_size p * pl_block_count p"] by simp
  have ok: "?ok \<longleftrightarrow> ?b \<le> unat ptr \<and> unat ptr < ?b + ?n * ?s \<and> (unat ptr - ?b) mod ?s = 0"
  proof (cases "pl_buf p \<le> ptr")
    case True
    have "(ptr - pl_buf p) mod pl_block_size p = 0 \<longleftrightarrow> (unat ptr - ?b) mod ?s = 0"
      by (simp add: word_eq_unat unat_mod_word unat_diff_le [OF True])
    then show ?thesis using True top by (auto simp: word_less_unat word_le_unat)
  qed (auto simp: word_le_unat word_less_unat)
  show ?thesis
  proof
    assume "?ok"
    then obtain i where i: "unat ptr - ?b = ?s * i" and le: "?b \<le> unat ptr" "unat ptr < ?b + ?n * ?s"
      using ok by (auto elim!: dvdE simp: mod_eq_0_iff_dvd)
    have "?s * i < ?n * ?s" using i le by linarith
    then have "i * ?s < ?n * ?s" by (simp only: mult.commute [of ?s i])
    then have "i < ?n" by (simp only: mult_less_cancel2)
    moreover have "ptr = pl_addr p i"
      using unat_pl_addr [OF g \<open>i < ?n\<close>] i le by (simp add: word_eq_unat mult.commute)
    ultimately show "ptr \<in> pl_blocks p" by (auto simp: pl_blocks_def)
  next
    assume "ptr \<in> pl_blocks p"
    then obtain i where i: "i < ?n" "ptr = pl_addr p i" by (auto simp: pl_blocks_def)
    have eq: "unat ptr = ?b + i * ?s" using unat_pl_addr [OF g i(1)] i(2) by simp
    have "i * ?s + ?s \<le> ?n * ?s" by (rule elem_bound [OF i(1)])
    then have "unat ptr < ?b + ?n * ?s" using eq b(2) by linarith
    then show "?ok" unfolding ok using eq by simp
  qed
qed

section \<open>The threaded list\<close>

lemma thread_blocks_chain:
  assumes "chain m fl xs" and "set xs \<inter> (\<lambda>i. buf + word_of_nat i * bs) ` {..< n} = {}"
    and "inj_on (\<lambda>i. buf + word_of_nat i * bs) {..< n}"
    and "\<And>i. i < n \<Longrightarrow> buf + word_of_nat i * bs \<noteq> 0"
  shows "\<exists>m' fl'. thread_blocks buf bs n m fl = (m', fl')
           \<and> chain m' fl' (map (\<lambda>i. buf + word_of_nat i * bs) [0 ..< n] @ xs)"
  using assms
proof (induction n arbitrary: m fl xs)
  case 0
  then show ?case by simp
next
  case (Suc n)
  let ?a = "\<lambda>i. buf + word_of_nat i * bs"
  have "?a n \<notin> set xs" using Suc.prems(2) by auto
  then have "chain (m(?a n := fl)) (?a n) (?a n # xs)"
    using Suc.prems(1,4) by (simp add: chain_upd_other)
  moreover have "set (?a n # xs) \<inter> ?a ` {..< n} = {}"
  proof -
    have "?a n \<noteq> ?a i" if "i < n" for i
      using inj_onD [OF Suc.prems(3), of n i] that by auto
    moreover have "set xs \<inter> ?a ` {..< n} = {}" using Suc.prems(2) by auto
    ultimately show ?thesis by auto
  qed
  moreover have "inj_on ?a {..< n}" using Suc.prems(3) by (rule inj_on_subset) auto
  ultimately have "\<exists>m' fl'. thread_blocks buf bs n (m(?a n := fl)) (?a n) = (m', fl')
      \<and> chain m' fl' (map ?a [0 ..< n] @ ?a n # xs)"
    by (rule Suc.IH) (rule Suc.prems(4), simp)
  then show ?case by (simp add: Let_def)
qed

section \<open>Clients and the pool\<close>

text \<open>
  A state is the pool, the threaded memory and the set of blocks clients own. A client may
  allocate, free a block it owns, hand \<open>pool_free\<close> any pointer that is not a block of the
  pool, and overwrite the first word of a block it owns.
\<close>

type_synonym pool_state = "pool \<times> links \<times> u64 set"

inductive pool_step :: "pool_state \<Rightarrow> pool_state \<Rightarrow> bool" where
  step_alloc: "pool_alloc m (Some p) = (b, Some p') \<Longrightarrow> b \<noteq> 0 \<Longrightarrow>
     pool_step (p, m, own) (p', m, insert b own)"
| step_full: "pool_alloc m (Some p) = (0, Some p') \<Longrightarrow> pool_step (p, m, own) (p', m, own)"
| step_free: "b \<in> own \<Longrightarrow> pool_free m (Some p) b = (m', Some p') \<Longrightarrow>
     pool_step (p, m, own) (p', m', own - {b})"
| step_foreign: "b \<notin> pl_blocks p \<Longrightarrow> pool_free m (Some p) b = (m', Some p') \<Longrightarrow>
     pool_step (p, m, own) (p', m', own)"
| step_write: "b \<in> own \<Longrightarrow> pool_step (p, m, own) (p, m(b := v), own)"

inductive pool_reach :: "pool_state \<Rightarrow> pool_state \<Rightarrow> bool" for s where
  reach_start: "pool_reach s s"
| reach_step: "pool_reach s t \<Longrightarrow> pool_step t u \<Longrightarrow> pool_reach s u"

definition pool_inv :: "pool_state \<Rightarrow> bool" where
  "pool_inv s \<longleftrightarrow>
     (case s of (p, m, own) \<Rightarrow> pl_geom p \<and>
        (\<exists>xs. chain m (pl_free_list p) xs \<and> distinct xs \<and> set xs \<inter> own = {}
              \<and> set xs \<union> own = pl_blocks p))"

lemma pl_blocks_free_list [simp]: "pl_blocks (p\<lparr>pl_free_list := x\<rparr>) = pl_blocks p"
  by (simp add: pl_blocks_def pl_addr_def)

lemma pl_geom_free_list [simp]: "pl_geom (p\<lparr>pl_free_list := x\<rparr>) = pl_geom p"
  by (simp add: pl_geom_def)

lemma pool_free_block:
  assumes "pl_geom p" and "b \<in> pl_blocks p"
  shows "pool_free m (Some p) b = (m(b := pl_free_list p), Some (p\<lparr>pl_free_list := b\<rparr>))"
proof -
  have nz: "b \<noteq> 0" "pl_buf p \<noteq> 0"
    using pl_blocks_nonzero [OF assms] assms(1) by (auto simp: pl_geom_def)
  have ok: "\<not> (b < pl_buf p \<or> b \<ge> pl_buf p + pl_block_size p * pl_block_count p)"
      "(b - pl_buf p) mod pl_block_size p = 0"
    using pool_free_guard [OF assms(1), of b] assms(2) by blast+
  show ?thesis
    unfolding pool_free_def option.case Let_def
    by (simp only: nz ok if_False if_True simp_thms not_True_eq_False)
qed

lemma pool_free_foreign:
  assumes "pl_geom p" and "b \<notin> pl_blocks p"
  shows "pool_free m (Some p) b = (m, Some p)"
proof (cases "(b < pl_buf p \<or> b \<ge> pl_buf p + pl_block_size p * pl_block_count p)")
  case True
  show ?thesis
    unfolding pool_free_def option.case Let_def by (simp only: True if_True if_cancel)
next
  case False
  then have "(b - pl_buf p) mod pl_block_size p \<noteq> 0"
    using pool_free_guard [OF assms(1), of b] assms(2) by metis
  then show ?thesis
    unfolding pool_free_def option.case Let_def by (simp only: if_True if_cancel simp_thms)
qed

lemma pool_init_inv:
  assumes init: "pool_init base m (Some p0) bs n = (ERR_OK, m', Some p)"
    and room: "unat base + unat n * unat (if bs < 8 then 8 else bs) < 2 ^ 64"
  shows "pool_inv (p, m', {}) \<and> pl_block_count p = n \<and> pl_block_size p = (if bs < 8 then 8 else bs)"
proof -
  let ?bs = "if bs < 8 then 8 else bs"
  have n0: "n \<noteq> 0" and base: "base \<noteq> 0" using init by (auto simp: pool_init_def Let_def split: if_splits)
  let ?q = "p0\<lparr>pl_block_size := ?bs, pl_block_count := n, pl_buf := base\<rparr>"
  have s0: "0 < unat ?bs"
    by (cases "bs < 8") (auto simp: word_less_unat unat_pos_iff word_eq_unat not_less)
  have g: "pl_geom ?q" using base s0 room by (simp add: pl_geom_def)
  have addr: "pl_addr ?q = (\<lambda>i. base + word_of_nat i * ?bs)" by (simp add: pl_addr_def fun_eq_iff)
  have inj: "inj_on (\<lambda>i. base + word_of_nat i * ?bs) {..< unat n}"
    using pl_addr_inj [OF g] addr by simp
  have nz: "base + word_of_nat i * ?bs \<noteq> 0" if "i < unat n" for i
    using pl_blocks_nonzero [OF g, of "pl_addr ?q i"] that addr by (auto simp: pl_blocks_def)
  obtain mm fl where th: "thread_blocks base ?bs (unat n) m 0 = (mm, fl)"
      and ch: "chain mm fl (map (\<lambda>i. base + word_of_nat i * ?bs) [0 ..< unat n] @ [])"
    using thread_blocks_chain [of m 0 "[]" base ?bs "unat n", OF _ _ inj nz] by auto
  have res: "m' = mm" "p = ?q\<lparr>pl_free_list := fl\<rparr>"
    using init n0 base th by (auto simp: pool_init_def Let_def split: if_splits)
  let ?xs = "map (pl_addr ?q) [0 ..< unat n]"
  have "distinct ?xs" using inj addr by (simp add: distinct_map atLeast0LessThan)
  moreover have "set ?xs = pl_blocks ?q" by (simp add: pl_blocks_def atLeast0LessThan)
  moreover have "chain mm fl ?xs" using ch addr by simp
  ultimately have "pool_inv (?q\<lparr>pl_free_list := fl\<rparr>, mm, {})"
    unfolding pool_inv_def using g by (auto intro!: exI [of _ ?xs])
  then show ?thesis using res by simp
qed

lemma pool_inv_alloc:
  assumes "pool_inv (p, m, own)"
  shows "(own = pl_blocks p \<and> pool_alloc m (Some p) = (0, Some p))
       \<or> (\<exists>b. b \<in> pl_blocks p - own \<and> pool_alloc m (Some p) = (b, Some (p\<lparr>pl_free_list := m b\<rparr>))
              \<and> pool_inv (p\<lparr>pl_free_list := m b\<rparr>, m, insert b own))"
proof -
  obtain xs where xs: "pl_geom p" "chain m (pl_free_list p) xs" "distinct xs"
      "set xs \<inter> own = {}" "set xs \<union> own = pl_blocks p"
    using assms by (auto simp: pool_inv_def)
  show ?thesis
  proof (cases xs)
    case Nil
    then show ?thesis using xs by (simp add: pool_alloc_def)
  next
    case (Cons b ys)
    then have b: "pl_free_list p = b" "b \<noteq> 0" "chain m (m b) ys" using xs(2) by auto
    have "pool_alloc m (Some p) = (b, Some (p\<lparr>pl_free_list := m b\<rparr>))"
      using b by (simp add: pool_alloc_def)
    moreover have "pool_inv (p\<lparr>pl_free_list := m b\<rparr>, m, insert b own)"
      unfolding pool_inv_def using xs Cons b(3) by (auto intro!: exI [of _ ys])
    moreover have "b \<in> pl_blocks p - own" using xs(4,5) Cons by auto
    ultimately show ?thesis by (intro disjI2 exI [of _ b]) simp
  qed
qed

lemma pool_inv_free:
  assumes "pool_inv (p, m, own)" and "b \<in> own"
  shows "\<exists>m' p'. pool_free m (Some p) b = (m', Some p') \<and> pool_inv (p', m', own - {b})
                \<and> pl_blocks p' = pl_blocks p"
proof -
  obtain xs where xs: "pl_geom p" "chain m (pl_free_list p) xs" "distinct xs"
      "set xs \<inter> own = {}" "set xs \<union> own = pl_blocks p"
    using assms by (auto simp: pool_inv_def)
  have b: "b \<in> pl_blocks p" "b \<notin> set xs" using assms(2) xs by auto
  have nz: "b \<noteq> 0" using pl_blocks_nonzero [OF xs(1) b(1)] .
  have "chain (m(b := pl_free_list p)) (pl_free_list p) xs"
    using xs(2) chain_upd_other [OF b(2)] by blast
  then have ch: "chain (m(b := pl_free_list p)) b (b # xs)" using nz by simp
  then have "pool_inv (p\<lparr>pl_free_list := b\<rparr>, m(b := pl_free_list p), own - {b})"
    unfolding pool_inv_def prod.case using xs b assms(2) ch
    by (intro conjI exI [of _ "b # xs"]) auto
  then show ?thesis using pool_free_block [OF xs(1) b(1)] by auto
qed

lemma pool_inv_write:
  assumes "pool_inv (p, m, own)" and "b \<in> own"
  shows "pool_inv (p, m(b := v), own)"
proof -
  obtain xs where xs: "pl_geom p" "chain m (pl_free_list p) xs" "distinct xs"
      "set xs \<inter> own = {}" "set xs \<union> own = pl_blocks p"
    using assms by (auto simp: pool_inv_def)
  have "b \<notin> set xs" using xs(4) assms(2) by auto
  then have "chain (m(b := v)) (pl_free_list p) xs" using xs(2) by (simp add: chain_upd_other)
  then show ?thesis unfolding pool_inv_def using xs by auto
qed

inductive_cases pool_stepE: "pool_step (p, m, own) t"

lemma pool_step_inv:
  assumes "pool_step s t" and "pool_inv s"
  shows "pool_inv t \<and> pl_blocks (fst t) = pl_blocks (fst s)"
proof -
  obtain p m own where s: "s = (p, m, own)" by (metis prod_cases3)
  have g: "pl_geom p" using assms(2) s by (auto simp: pool_inv_def)
  show ?thesis
    using assms(1)[unfolded s]
  proof (rule pool_stepE)
    fix b p' assume "t = (p', m, insert b own)" "pool_alloc m (Some p) = (b, Some p')" "b \<noteq> 0"
    then show ?thesis using pool_inv_alloc [of p m own] assms(2) s by auto
  next
    fix p' assume "t = (p', m, own)" "pool_alloc m (Some p) = (0, Some p')"
    then show ?thesis
      using pool_inv_alloc [of p m own] assms(2) s pl_blocks_nonzero [OF g] by auto
  next
    fix b m' p' assume "t = (p', m', own - {b})" "b \<in> own" "pool_free m (Some p) b = (m', Some p')"
    then show ?thesis using pool_inv_free [of p m own b] assms(2) s by auto
  next
    fix b m' p' assume "t = (p', m', own)" "b \<notin> pl_blocks p" "pool_free m (Some p) b = (m', Some p')"
    then show ?thesis using pool_free_foreign [OF g, of b m] assms(2) s by auto
  next
    fix b v assume "t = (p, m(b := v), own)" "b \<in> own"
    then show ?thesis using pool_inv_write [of p m own b v] assms(2) s by simp
  qed
qed

lemma pool_reach_inv:
  "pool_reach s t \<Longrightarrow> pool_inv s \<Longrightarrow> pool_inv t \<and> pl_blocks (fst t) = pl_blocks (fst s)"
  by (induction rule: pool_reach.induct) (auto dest: pool_step_inv)

section \<open>Properties\<close>

text \<open>
  C36. After a successful \<open>pool_init\<close>, however clients allocate, free what they own, pass
  foreign pointers to \<open>pool_free\<close> and write into the blocks they own, the next allocation
  either returns a block of the pool that nobody owns, or returns \<open>NULL\<close> because clients
  own every block of the pool.
\<close>

theorem pool_alloc_fresh:
  assumes "pool_init base m0 (Some p0) bs n = (ERR_OK, m1, Some p1)"
    and "unat base + unat n * unat (if bs < 8 then 8 else bs) < 2 ^ 64"
    and "pool_reach (p1, m1, {}) (p, m, own)"
  shows "own \<subseteq> pl_blocks p1 \<and> card (pl_blocks p1) = unat n
       \<and> (if own = pl_blocks p1 then fst (pool_alloc m (Some p)) = 0
          else fst (pool_alloc m (Some p)) \<in> pl_blocks p1 - own)"
proof -
  have start: "pool_inv (p1, m1, {})" "pl_block_count p1 = n"
    using pool_init_inv [OF assms(1,2)] by auto
  have inv: "pool_inv (p, m, own)" and same: "pl_blocks p = pl_blocks p1"
    using pool_reach_inv [OF assms(3) start(1)] by auto
  have "own \<subseteq> pl_blocks p" using inv by (auto simp: pool_inv_def)
  moreover have "card (pl_blocks p1) = unat n"
    using card_pl_blocks [of p1] start by (simp add: pool_inv_def)
  ultimately show ?thesis using pool_inv_alloc [OF inv] same by auto
qed

definition pool_example :: pool where
  "pool_example = \<lparr>pl_buf = 4096, pl_block_size = 16, pl_block_count = 2, pl_free_list = 4096\<rparr>"

definition links_example :: links where
  "links_example = ((\<lambda>_. 0)(4112 := 0))(4096 := 4112)"

theorem pool_alloc_fresh_witness:
  "({} :: u64 set) \<subseteq> pl_blocks pool_example \<and> card (pl_blocks pool_example) = unat (2 :: size_t)
   \<and> (if {} = pl_blocks pool_example then fst (pool_alloc links_example (Some pool_example)) = 0
      else fst (pool_alloc links_example (Some pool_example)) \<in> pl_blocks pool_example - {})"
proof (rule pool_alloc_fresh)
  show "pool_init 4096 (\<lambda>_. 0) (Some (pool_example\<lparr>pl_free_list := 99\<rparr>)) 16 2
      = (ERR_OK, links_example, Some pool_example)"
    by (simp add: pool_init_def pool_example_def links_example_def)
  show "unat (4096 :: u64) + unat (2 :: size_t) * unat (if (16 :: size_t) < 8 then 8 else 16 :: size_t) < 2 ^ 64"
    by simp
  show "pool_reach (pool_example, links_example, {}) (pool_example, links_example, {})"
    by (rule reach_start)
qed

text \<open>
  What the pool does not promise: \<open>pool_free\<close> of a block that is already free is accepted,
  and the next two allocations return that block twice.
\<close>

lemma pool_double_free_aliases:
  "\<exists>p m b. pool_inv (p, m, {b}) \<and>
     (case pool_free m (Some p) b of (m1, p1) \<Rightarrow>
      case pool_free m1 p1 b of (m2, p2) \<Rightarrow>
      case pool_alloc m2 p2 of (a1, p3) \<Rightarrow>
        a1 = b \<and> fst (pool_alloc m2 p3) = b)"
proof -
  let ?p = "pool_example\<lparr>pl_free_list := 4112\<rparr>"
  have two: "{..< 2 :: nat} = {0, 1}" by auto
  have blocks: "pl_blocks ?p = {4096, 4112}"
    by (simp add: pl_blocks_def pl_addr_def pool_example_def two)
  have "pool_inv (?p, links_example, {4096})"
    unfolding pool_inv_def prod.case blocks
    by (intro conjI exI [of _ "[4112]"])
       (auto simp: pl_geom_def pool_example_def links_example_def)
  then show ?thesis
    by (intro exI conjI, assumption)
       (simp add: pool_free_def pool_alloc_def pool_example_def links_example_def Let_def)
qed

text \<open>
  After \<open>pool_init\<close> fails for lack of memory the \<open>free_list\<close> field keeps whatever the caller's
  struct held, and \<open>pool_alloc\<close> hands it out.
\<close>

lemma pool_init_failed_keeps_free_list:
  "\<exists>p. pool_init 0 m (Some (pool_example\<lparr>pl_free_list := 99\<rparr>)) 16 2 = (ERR_NOMEM, m, Some p)
     \<and> fst (pool_alloc m (Some p)) = 99"
  by (simp add: pool_init_def pool_alloc_def pool_example_def)

end
