(* ===== verification/LeakDetect.thy ===== *)
theory LeakDetect
  imports Core
begin

text \<open>
  The allocation tracker of \<open>src/memory/leak_detect.c\<close>: a singly linked list of records
  (most recent first) and two counters. What the C allocator returns is an argument of each
  wrapper (0 for \<open>NULL\<close>), and so is whether the record itself could be allocated. The
  specification is the heap, a map from live pointers to their sizes, with the set of those whose record could not be
  allocated. On well-behaved clients the records are the rest of that map, so the report counts exactly the leaks it can know of.
\<close>

section \<open>State and operations\<close>

record alloc_record =
  ar_ptr :: u64
  ar_size :: size_t
  ar_file :: string
  ar_line :: int

record leak_state =
  g_head :: "alloc_record list"
  g_total_allocs :: size_t
  g_total_frees :: size_t

definition leak_detect_init :: leak_state where
  "leak_detect_init = \<lparr>g_head = [], g_total_allocs = 0, g_total_frees = 0\<rparr>"

definition record_add :: "bool \<Rightarrow> u64 \<Rightarrow> size_t \<Rightarrow> string \<Rightarrow> int \<Rightarrow> leak_state \<Rightarrow> leak_state" where
  "record_add ok p sz file line s =
     (if ok then s\<lparr>g_head := \<lparr>ar_ptr = p, ar_size = sz, ar_file = file, ar_line = line\<rparr> # g_head s,
                   g_total_allocs := g_total_allocs s + 1\<rparr>
      else s)"

text \<open>Unlink the first record of the pointer; \<open>None\<close> when there is none.\<close>

fun unlink_record :: "u64 \<Rightarrow> alloc_record list \<Rightarrow> alloc_record list option" where
  "unlink_record p [] = None"
| "unlink_record p (r # rs) = (if ar_ptr r = p then Some rs else map_option ((#) r) (unlink_record p rs))"

definition record_remove :: "u64 \<Rightarrow> leak_state \<Rightarrow> leak_state" where
  "record_remove p s =
     (case unlink_record p (g_head s) of
        Some rs \<Rightarrow> s\<lparr>g_head := rs, g_total_frees := g_total_frees s + 1\<rparr>
      | None \<Rightarrow> s)"

definition leak_detect_malloc ::
  "u64 \<Rightarrow> bool \<Rightarrow> size_t \<Rightarrow> string \<Rightarrow> int \<Rightarrow> leak_state \<Rightarrow> u64 \<times> leak_state" where
  "leak_detect_malloc res ok sz file line s =
     (res, if res \<noteq> 0 then record_add ok res sz file line s else s)"

definition leak_detect_calloc ::
  "u64 \<Rightarrow> bool \<Rightarrow> size_t \<Rightarrow> size_t \<Rightarrow> string \<Rightarrow> int \<Rightarrow> leak_state \<Rightarrow> u64 \<times> leak_state" where
  "leak_detect_calloc res ok count sz file line s =
     (if sz \<noteq> 0 \<and> count > SIZE_MAX div sz then (0, s)
      else (res, if res \<noteq> 0 then record_add ok res (count * sz) file line s else s))"

text \<open>Overwrite the first record of the pointer in place; \<open>None\<close> when there is none.\<close>

fun retarget :: "u64 \<Rightarrow> alloc_record \<Rightarrow> alloc_record list \<Rightarrow> alloc_record list option" where
  "retarget p new [] = None"
| "retarget p new (r # rs) = (if ar_ptr r = p then Some (new # rs) else map_option ((#) r) (retarget p new rs))"

definition leak_detect_realloc ::
  "u64 \<Rightarrow> bool \<Rightarrow> u64 \<Rightarrow> size_t \<Rightarrow> string \<Rightarrow> int \<Rightarrow> leak_state \<Rightarrow> u64 \<times> leak_state" where
  "leak_detect_realloc res ok p sz file line s =
     (let new = \<lparr>ar_ptr = res, ar_size = sz, ar_file = file, ar_line = line\<rparr>;
          upd = (if p \<noteq> 0 then retarget p new (g_head s) else None)
      in if res = 0 then (0, s)
         else (case upd of
                 Some rs \<Rightarrow> (res, s\<lparr>g_head := rs\<rparr>)
               | None \<Rightarrow> (res, record_add ok res sz file line s)))"

definition leak_detect_free :: "u64 \<Rightarrow> leak_state \<Rightarrow> leak_state" where
  "leak_detect_free p s = (if p = 0 then s else record_remove p s)"

text \<open>The lines the report prints, then the number it returns.\<close>

datatype report_line =
  Leak size_t u64 string int | Total size_t size_t | Counts size_t size_t

fun report_loop :: "alloc_record list \<Rightarrow> size_t \<Rightarrow> size_t \<Rightarrow> report_line list \<times> size_t \<times> size_t" where
  "report_loop [] leaks bytes = ([], leaks, bytes)"
| "report_loop (r # rs) leaks bytes =
     (let (out, l, b) = report_loop rs (leaks + 1) (bytes + ar_size r)
      in (Leak (ar_size r) (ar_ptr r) (ar_file r) (ar_line r) # out, l, b))"

definition leak_detect_report :: "leak_state \<Rightarrow> report_line list \<times> size_t" where
  "leak_detect_report s =
     (let (out, leaks, bytes) = report_loop (g_head s) 0 0
      in (out @ (if leaks \<noteq> 0 then [Total leaks bytes] else [])
              @ [Counts (g_total_allocs s) (g_total_frees s)], leaks))"

definition leak_detect_shutdown :: "leak_state \<Rightarrow> leak_state" where
  "leak_detect_shutdown s = s\<lparr>g_head := []\<rparr>"

section \<open>The heap, and client events\<close>

text \<open>
  One event per call, with what the C allocator answered and whether the record, if one is needed, can be allocated.
  \<open>ref_step\<close> is what the call does to the heap and to the set of live blocks without a record: \<open>realloc(p, 0)\<close> that answers
  \<open>NULL\<close> has freed the block, any other \<open>NULL\<close> keeps it; a resized block keeps its record, if it has one.
  \<open>event_ok\<close> says the allocator and the client behave: a new pointer is not
  live, a resized block may stay where it is, only live pointers (or \<open>NULL\<close>) are resized or
  freed, and no block is freed with \<open>realloc(p, 0)\<close>.
\<close>

datatype leak_event =
  EMalloc bool u64 size_t | ECalloc bool u64 size_t size_t | ERealloc bool u64 u64 size_t | EFree u64

type_synonym heap = "u64 \<rightharpoonup> size_t"

fun leak_step :: "leak_event \<Rightarrow> leak_state \<Rightarrow> leak_state" where
  "leak_step (EMalloc ok res sz) s = snd (leak_detect_malloc res ok sz [] 0 s)"
| "leak_step (ECalloc ok res n sz) s = snd (leak_detect_calloc res ok n sz [] 0 s)"
| "leak_step (ERealloc ok res p sz) s = snd (leak_detect_realloc res ok p sz [] 0 s)"
| "leak_step (EFree p) s = leak_detect_free p s"

definition new_block :: "bool \<Rightarrow> u64 \<Rightarrow> size_t \<Rightarrow> heap \<times> u64 set \<Rightarrow> heap \<times> u64 set" where
  "new_block ok p sz = (\<lambda>(h, lost). (h(p \<mapsto> sz), if ok then lost else insert p lost))"

definition gone_block :: "u64 \<Rightarrow> heap \<times> u64 set \<Rightarrow> heap \<times> u64 set" where
  "gone_block p = (\<lambda>(h, lost). (h(p := None), lost - {p}))"

fun ref_step :: "leak_event \<Rightarrow> heap \<times> u64 set \<Rightarrow> heap \<times> u64 set" where
  "ref_step (EMalloc ok res sz) r = (if res = 0 then r else new_block ok res sz r)"
| "ref_step (ECalloc ok res n sz) r =
     (if res = 0 \<or> (sz \<noteq> 0 \<and> n > SIZE_MAX div sz) then r else new_block ok res (n * sz) r)"
| "ref_step (ERealloc ok res p sz) r =
     (if res = 0 then (if p \<noteq> 0 \<and> sz = 0 then gone_block p r else r)
      else new_block (ok \<or> p \<in> dom (fst r) - snd r) res sz (gone_block p r))"
| "ref_step (EFree p) r = gone_block p r"

fun event_ok :: "leak_event \<Rightarrow> heap \<Rightarrow> bool" where
  "event_ok (EMalloc ok res sz) h = (h res = None)"
| "event_ok (ECalloc ok res n sz) h = (h res = None)"
| "event_ok (ERealloc ok res p sz) h =
     ((p = 0 \<or> h p \<noteq> None) \<and> (res = p \<or> h res = None) \<and> (p \<noteq> 0 \<and> sz = 0 \<longrightarrow> res \<noteq> 0))"
| "event_ok (EFree p) h = (p = 0 \<or> h p \<noteq> None)"

fun events_ok :: "leak_event list \<Rightarrow> heap \<times> u64 set \<Rightarrow> bool" where
  "events_ok [] r = True"
| "events_ok (e # es) r = (event_ok e (fst r) \<and> events_ok es (ref_step e r))"

text \<open>The events whose record can be allocated.\<close>

fun recorded :: "leak_event \<Rightarrow> bool" where
  "recorded (EMalloc ok _ _) = ok"
| "recorded (ECalloc ok _ _ _) = ok"
| "recorded (ERealloc ok _ _ _) = ok"
| "recorded (EFree _) = True"

definition tracked :: "alloc_record list \<Rightarrow> heap" where
  "tracked rs = map_of (map (\<lambda>r. (ar_ptr r, ar_size r)) rs)"

definition leak_inv :: "leak_state \<Rightarrow> bool" where
  "leak_inv s \<longleftrightarrow> distinct (map ar_ptr (g_head s)) \<and> 0 \<notin> ar_ptr ` set (g_head s)
     \<and> g_total_allocs s - g_total_frees s = word_of_nat (length (g_head s))"

section \<open>The records are the heap\<close>

lemma tracked_simps [simp]:
  "tracked [] = Map.empty" "tracked (r # rs) = (tracked rs)(ar_ptr r \<mapsto> ar_size r)"
  by (simp_all add: tracked_def)

lemma dom_tracked [simp]: "dom (tracked rs) = ar_ptr ` set rs"
  by (simp add: tracked_def dom_map_of_conv_image_fst image_image)

lemma tracked_None [simp]: "tracked rs p = None \<longleftrightarrow> p \<notin> ar_ptr ` set rs"
  by (metis domIff dom_tracked)

lemma unlink_record_None: "unlink_record p rs = None \<longleftrightarrow> p \<notin> ar_ptr ` set rs"
  by (induction rs) auto

lemma unlink_record_Some:
  "distinct (map ar_ptr rs) \<Longrightarrow> unlink_record p rs = Some qs \<Longrightarrow>
   tracked qs = (tracked rs)(p := None) \<and> distinct (map ar_ptr qs)
   \<and> ar_ptr ` set qs = ar_ptr ` set rs - {p} \<and> length rs = Suc (length qs)"
proof (induction rs arbitrary: qs)
  case Nil
  then show ?case by simp
next
  case (Cons r rs)
  show ?case
  proof (cases "ar_ptr r = p")
    case True
    then have "p \<notin> ar_ptr ` set rs" and qs: "qs = rs" using Cons.prems by auto
    then have "tracked rs p = None" by simp
    then show ?thesis using True qs Cons.prems by (auto simp: fun_upd_idem)
  next
    case False
    then obtain ys where ys: "unlink_record p rs = Some ys" "qs = r # ys"
      using Cons.prems by auto
    then show ?thesis using Cons.IH [OF _ ys(1)] Cons.prems False by (auto simp: fun_upd_twist)
  qed
qed

lemma retarget_None: "retarget p new rs = None \<longleftrightarrow> p \<notin> ar_ptr ` set rs"
  by (induction rs) auto

lemma retarget_Some:
  "distinct (map ar_ptr rs) \<Longrightarrow> retarget p new rs = Some qs \<Longrightarrow>
   ar_ptr new \<notin> ar_ptr ` set rs - {p} \<Longrightarrow>
   tracked qs = ((tracked rs)(p := None))(ar_ptr new \<mapsto> ar_size new) \<and> distinct (map ar_ptr qs)
   \<and> ar_ptr ` set qs = insert (ar_ptr new) (ar_ptr ` set rs - {p}) \<and> length qs = length rs"
proof (induction rs arbitrary: qs)
  case Nil
  then show ?case by simp
next
  case (Cons r rs)
  show ?case
  proof (cases "ar_ptr r = p")
    case True
    then have "p \<notin> ar_ptr ` set rs" and qs: "qs = new # rs" using Cons.prems by auto
    then have "tracked rs p = None" by simp
    then show ?thesis using True qs Cons.prems by (auto simp: fun_upd_idem)
  next
    case False
    then obtain ys where ys: "retarget p new rs = Some ys" "qs = r # ys"
      using Cons.prems by auto
    have "ar_ptr new \<noteq> ar_ptr r" using Cons.prems(3) False by auto
    then show ?thesis using Cons.IH [OF _ ys(1)] Cons.prems ys(2) False by (auto simp: fun_upd_twist)
  qed
qed

lemma leak_inv_add:
  "leak_inv s \<Longrightarrow> p \<noteq> 0 \<Longrightarrow> p \<notin> ar_ptr ` set (g_head s) \<Longrightarrow>
   leak_inv (record_add True p sz f l s)
   \<and> tracked (g_head (record_add True p sz f l s)) = (tracked (g_head s))(p \<mapsto> sz)"
  by (auto simp: leak_inv_def record_add_def algebra_simps)

text \<open>The records are the heap without the lost blocks.\<close>

definition leak_rel :: "leak_state \<Rightarrow> heap \<times> u64 set \<Rightarrow> bool" where
  "leak_rel s r \<longleftrightarrow> leak_inv s \<and> tracked (g_head s) = fst r |` (- snd r) \<and> snd r \<subseteq> dom (fst r) \<and> fst r 0 = None"

lemma leak_rel_ptrs: "leak_rel s r \<Longrightarrow> ar_ptr ` set (g_head s) = dom (fst r) - snd r"
  unfolding leak_rel_def using dom_tracked [of "g_head s"] by auto

lemma leak_rel_new:
  assumes "leak_rel s r" and "p \<noteq> 0" and "fst r p = None"
  shows "leak_rel (record_add ok p sz f l s) (new_block ok p sz r)"
proof (cases ok)
  case True
  have "p \<notin> ar_ptr ` set (g_head s)" using leak_rel_ptrs [OF assms(1)] assms(3) by auto
  moreover have "p \<notin> snd r" using assms(1,3) by (auto simp: leak_rel_def)
  ultimately show ?thesis using True assms leak_inv_add [of s p sz f l]
    by (auto simp: leak_rel_def new_block_def case_prod_beta restrict_map_def fun_eq_iff)
next
  case False
  then show ?thesis using assms
    by (auto simp: leak_rel_def new_block_def case_prod_beta record_add_def restrict_map_def fun_eq_iff)
qed

lemma leak_rel_gone:
  assumes "leak_rel s r" and "p = 0 \<or> fst r p \<noteq> None"
  shows "leak_rel (leak_detect_free p s) (gone_block p r)"
proof (cases "p \<in> dom (fst r) - snd r")
  case True
  then have p: "p \<noteq> 0" using assms(1) by (auto simp: leak_rel_def)
  obtain qs where qs: "unlink_record p (g_head s) = Some qs"
    using True unlink_record_None [of p "g_head s"] leak_rel_ptrs [OF assms(1)] by auto
  have inv: "leak_inv s" using assms(1) by (simp add: leak_rel_def)
  then have d: "distinct (map ar_ptr (g_head s))" and c: "g_total_allocs s - g_total_frees s = word_of_nat (length (g_head s))"
    by (simp_all add: leak_inv_def)
  note u = unlink_record_Some [OF d qs]
  have "g_total_allocs s - (g_total_frees s + 1) = word_of_nat (length qs)" using c u by (simp add: algebra_simps)
  then show ?thesis
    using u p assms(1) inv qs True
    by (auto simp: leak_rel_def gone_block_def case_prod_beta leak_detect_free_def record_remove_def leak_inv_def
        restrict_map_def fun_eq_iff)
next
  case False
  then have "p \<notin> ar_ptr ` set (g_head s)" using leak_rel_ptrs [OF assms(1)] by auto
  then have "leak_detect_free p s = s"
    using unlink_record_None [of p "g_head s"] by (simp add: leak_detect_free_def record_remove_def)
  moreover have "(fst r)(p := None) |` (- (snd r - {p})) = fst r |` (- snd r)"
    using False by (cases "fst r p") (auto simp: restrict_map_def fun_eq_iff)
  ultimately show ?thesis using assms(1) by (auto simp: leak_rel_def gone_block_def case_prod_beta)
qed

lemma leak_rel_resized:
  assumes "leak_rel s r" and "res \<noteq> 0" and "p = 0 \<or> fst r p \<noteq> None" and "res = p \<or> fst r res = None"
  shows "leak_rel (snd (leak_detect_realloc res ok p sz f l s))
           (new_block (ok \<or> p \<in> dom (fst r) - snd r) res sz (gone_block p r))"
proof (cases "p \<in> dom (fst r) - snd r")
  case True
  then have p: "p \<noteq> 0" using assms(1) by (auto simp: leak_rel_def)
  let ?new = "\<lparr>ar_ptr = res, ar_size = sz, ar_file = f, ar_line = l\<rparr>"
  obtain qs where qs: "retarget p ?new (g_head s) = Some qs"
    using True retarget_None [of p ?new "g_head s"] leak_rel_ptrs [OF assms(1)] by auto
  have inv: "leak_inv s" using assms(1) by (simp add: leak_rel_def)
  then have d: "distinct (map ar_ptr (g_head s))" by (simp add: leak_inv_def)
  have "ar_ptr ?new \<notin> ar_ptr ` set (g_head s) - {p}" using leak_rel_ptrs [OF assms(1)] assms(4) by auto
  note t = retarget_Some [OF d qs this]
  have "res \<notin> snd r" using True assms(1,4) by (auto simp: leak_rel_def)
  then have "tracked qs = ((fst r)(p := None, res \<mapsto> sz)) |` (- (snd r - {p}))"
    using t True assms(1) by (auto simp: leak_rel_def restrict_map_def fun_eq_iff)
  moreover have "leak_inv (s\<lparr>g_head := qs\<rparr>)" using t inv assms(2) by (auto simp: leak_inv_def)
  moreover have "snd (leak_detect_realloc res ok p sz f l s) = s\<lparr>g_head := qs\<rparr>"
    using p qs assms(2) by (simp add: leak_detect_realloc_def Let_def)
  moreover have "new_block (ok \<or> p \<in> dom (fst r) - snd r) res sz (gone_block p r) = ((fst r)(p := None, res \<mapsto> sz), snd r - {p})"
    using True by (simp add: new_block_def gone_block_def case_prod_beta)
  moreover have "snd r - {p} \<subseteq> dom ((fst r)(p := None, res \<mapsto> sz))" "((fst r)(p := None, res \<mapsto> sz)) 0 = None"
    using assms(1,2) by (auto simp: leak_rel_def)
  ultimately show ?thesis by (simp add: leak_rel_def)
next
  case False
  then have no: "p \<notin> ar_ptr ` set (g_head s)" using leak_rel_ptrs [OF assms(1)] by auto
  then have code: "snd (leak_detect_realloc res ok p sz f l s) = record_add ok res sz f l s"
    using assms(2) retarget_None [of p _ "g_head s"] by (auto simp: leak_detect_realloc_def Let_def split: option.splits)
  have "leak_detect_free p s = s"
    using no unlink_record_None [of p "g_head s"] by (simp add: leak_detect_free_def record_remove_def)
  then have g: "leak_rel s (gone_block p r)" using leak_rel_gone [OF assms(1,3)] by simp
  have "fst (gone_block p r) res = None" using assms(4) by (auto simp: gone_block_def case_prod_beta)
  moreover have "(ok \<or> p \<in> dom (fst r) - snd r) = ok" using False by blast
  ultimately show ?thesis using leak_rel_new [OF g assms(2)] unfolding code by simp
qed

lemma leak_step_refines:
  assumes "leak_rel s r" and "event_ok e (fst r)"
  shows "leak_rel (leak_step e s) (ref_step e r)"
proof (cases e)
  case (EMalloc ok res sz)
  then show ?thesis using assms leak_rel_new [of s r res] by (simp add: leak_detect_malloc_def)
next
  case (ECalloc ok res n sz)
  then show ?thesis using assms leak_rel_new [of s r res] by (auto simp: leak_detect_calloc_def)
next
  case (EFree p)
  then show ?thesis using assms leak_rel_gone [of s r p] by auto
next
  case (ERealloc ok res p sz)
  show ?thesis
  proof (cases "res = 0")
    case True
    then show ?thesis using ERealloc assms by (auto simp: leak_detect_realloc_def Let_def)
  next
    case False
    then show ?thesis using ERealloc assms leak_rel_resized [OF assms(1) False, of p ok sz "[]" 0] by simp
  qed
qed

lemma leak_run_refines:
  "leak_rel s r \<Longrightarrow> events_ok es r \<Longrightarrow> leak_rel (fold leak_step es s) (fold ref_step es r)"
proof (induction es arbitrary: s r)
  case (Cons e es)
  then show ?case using Cons.IH [of "leak_step e s" "ref_step e r"] leak_step_refines [of s r e] by simp
qed simp

lemma nothing_lost:
  "\<forall>e \<in> set es. recorded e \<Longrightarrow> snd r = {} \<Longrightarrow> snd (fold ref_step es r) = {}"
proof (induction es arbitrary: r)
  case (Cons e es)
  have "snd (ref_step e r) = {}"
    using Cons.prems by (cases e) (auto simp: new_block_def gone_block_def case_prod_beta)
  then show ?case using Cons by simp
qed simp

lemma report_loop_counts:
  "snd (report_loop rs l b) = (l + word_of_nat (length rs), b + (\<Sum>r\<leftarrow>rs. ar_size r))"
  by (induction rs arbitrary: l b) (simp_all add: Let_def case_prod_beta algebra_simps)

lemma length_head_card:
  "leak_inv s \<Longrightarrow> length (g_head s) = card (dom (tracked (g_head s)))"
  by (metis card_image distinct_card distinct_map dom_tracked leak_inv_def length_map list.set_map)

section \<open>Properties\<close>

text \<open>
  C39. For a well-behaved client and allocator, the
  tracker's records after any sequence of calls are exactly the live heap without the blocks whose record could not be
  allocated (\<open>lost\<close>): the same pointers, each once, with their current sizes. The report therefore returns the number of those
  blocks (as a \<open>size_t\<close>), and the two counters differ by that number. When every record could be allocated no block is lost,
  and the records are the live heap.
\<close>

theorem leak_report_exact:
  assumes "events_ok es (Map.empty, {})"
  defines "s \<equiv> fold leak_step es leak_detect_init" and "h \<equiv> fst (fold ref_step es (Map.empty, {}))"
    and "lost \<equiv> snd (fold ref_step es (Map.empty, {}))"
  shows "tracked (g_head s) = h |` (- lost) \<and> distinct (map ar_ptr (g_head s)) \<and> lost \<subseteq> dom h
       \<and> snd (leak_detect_report s) = word_of_nat (card (dom h - lost))
       \<and> g_total_allocs s - g_total_frees s = word_of_nat (card (dom h - lost))
       \<and> ((\<forall>e \<in> set es. recorded e) \<longrightarrow> lost = {} \<and> tracked (g_head s) = h)"
proof -
  have "leak_rel leak_detect_init (Map.empty, {})"
    by (simp add: leak_rel_def leak_inv_def leak_detect_init_def)
  then have rel: "leak_rel s (h, lost)"
    using leak_run_refines [OF _ assms(1)] by (simp add: s_def h_def lost_def)
  then have inv: "leak_inv s" and eq: "tracked (g_head s) = h |` (- lost)" "lost \<subseteq> dom h" by (simp_all add: leak_rel_def)
  have len: "length (g_head s) = card (dom h - lost)"
    using length_head_card [OF inv] eq(1) by (simp add: Diff_eq)
  have "snd (leak_detect_report s) = word_of_nat (length (g_head s))"
    using report_loop_counts [of "g_head s" 0 0]
    by (simp add: leak_detect_report_def Let_def case_prod_beta)
  moreover have "lost = {} \<and> tracked (g_head s) = h" if "\<forall>e \<in> set es. recorded e"
    using nothing_lost [OF that, of "(Map.empty, {})"] eq(1) by (simp add: lost_def restrict_map_def)
  moreover have "distinct (map ar_ptr (g_head s))" "g_total_allocs s - g_total_frees s = word_of_nat (card (dom h - lost))"
    using inv len by (simp_all add: leak_inv_def)
  ultimately show ?thesis using eq len by metis
qed

text \<open>The record of the second block cannot be allocated; resizing the first keeps its record.\<close>

theorem leak_report_exact_witness:
  "let es = [EMalloc True 16 10, ECalloc False 32 2 8, ERealloc False 48 16 20];
       s = fold leak_step es leak_detect_init; r = fold ref_step es (Map.empty, {})
   in tracked (g_head s) = fst r |` (- snd r) \<and> snd r = {32}
      \<and> snd (leak_detect_report s) = word_of_nat (card (dom (fst r) - snd r))"
proof -
  let ?es = "[EMalloc True 16 10, ECalloc False 32 2 8, ERealloc False 48 16 20]"
  have "events_ok ?es (Map.empty, {})" by (simp add: new_block_def gone_block_def word_le_nat_alt)
  moreover have "snd (fold ref_step ?es (Map.empty, {})) = {32}" by (auto simp: new_block_def gone_block_def)
  ultimately show ?thesis using leak_report_exact [of ?es] unfolding Let_def by blast
qed

text \<open>
  \<open>realloc(p, 0)\<close> that frees the block and returns \<open>NULL\<close>, as glibc does, leaves the record:
  the code takes every \<open>NULL\<close> for a failure that keeps the block, and reports a leak of an empty heap.
\<close>

lemma realloc_zero_reported_as_leak:
  "let es = [EMalloc True 16 10, ERealloc True 0 16 0]
   in dom (fst (fold ref_step es (Map.empty, {}))) = {}
    \<and> snd (leak_detect_report (fold leak_step es leak_detect_init)) = 1"
  by (simp add: Let_def new_block_def gone_block_def leak_detect_realloc_def leak_detect_malloc_def record_add_def
      leak_detect_init_def leak_detect_report_def)

end
