(* ===== verification/Hash.thy ===== *)
theory Hash
  imports Prelude
begin

text \<open>
  The hash functions of \<open>src/containers/hash.c\<close>. FNV-1a is a fold of a bijective step;
  the bitwise CRC-32 is linear over exclusive or, which gives both its agreement with the
  table-driven algorithm of zlib, over the table zlib publishes, and the error detection one expects of a CRC: it takes the
  bits of a message one by one, the low bit of a byte first, and tells apart messages whose differences span at most 32 of them.
\<close>

unbundle bit_operations_syntax

section \<open>Definitions\<close>

text \<open>A C string is the list of its characters before the terminator; the code reads bytes.\<close>

definition bytes_of :: "string \<Rightarrow> byte list" where
  "bytes_of s = map of_char s"

definition fnv_step :: "u64 \<Rightarrow> byte \<Rightarrow> u64" where
  "fnv_step h b = (h XOR ucast b) * 1099511628211"

definition hash_fnv1a :: "byte list option \<Rightarrow> u64" where
  "hash_fnv1a data =
     (case data of None \<Rightarrow> 14695981039346656037 | Some p \<Rightarrow> foldl fnv_step 14695981039346656037 p)"

definition hash_fnv1a_str :: "string option \<Rightarrow> u64" where
  "hash_fnv1a_str sp = (case sp of None \<Rightarrow> hash_fnv1a None | Some s \<Rightarrow> hash_fnv1a (Some (bytes_of s)))"

definition crc_bit :: "u32 \<Rightarrow> u32" where
  "crc_bit crc = drop_bit 1 crc XOR (0xEDB88320 AND (0 - (crc AND 1)))"

definition crc_byte :: "u32 \<Rightarrow> byte \<Rightarrow> u32" where
  "crc_byte crc b = (crc_bit ^^ 8) (crc XOR ucast b)"

definition hash_crc32 :: "byte list option \<Rightarrow> u32" where
  "hash_crc32 data =
     (case data of None \<Rightarrow> 0 | Some p \<Rightarrow> NOT (foldl crc_byte 0xFFFFFFFF p))"

text \<open>
  The reference: the table-driven CRC-32, one table lookup and one shift per byte, with the table that zlib
  publishes (its \<open>crc32.h\<close>), entry by entry.
\<close>

definition crc_table :: "u32 list" where
  "crc_table = [
     0x00000000, 0x77073096, 0xEE0E612C, 0x990951BA, 0x076DC419, 0x706AF48F, 0xE963A535, 0x9E6495A3,
     0x0EDB8832, 0x79DCB8A4, 0xE0D5E91E, 0x97D2D988, 0x09B64C2B, 0x7EB17CBD, 0xE7B82D07, 0x90BF1D91,
     0x1DB71064, 0x6AB020F2, 0xF3B97148, 0x84BE41DE, 0x1ADAD47D, 0x6DDDE4EB, 0xF4D4B551, 0x83D385C7,
     0x136C9856, 0x646BA8C0, 0xFD62F97A, 0x8A65C9EC, 0x14015C4F, 0x63066CD9, 0xFA0F3D63, 0x8D080DF5,
     0x3B6E20C8, 0x4C69105E, 0xD56041E4, 0xA2677172, 0x3C03E4D1, 0x4B04D447, 0xD20D85FD, 0xA50AB56B,
     0x35B5A8FA, 0x42B2986C, 0xDBBBC9D6, 0xACBCF940, 0x32D86CE3, 0x45DF5C75, 0xDCD60DCF, 0xABD13D59,
     0x26D930AC, 0x51DE003A, 0xC8D75180, 0xBFD06116, 0x21B4F4B5, 0x56B3C423, 0xCFBA9599, 0xB8BDA50F,
     0x2802B89E, 0x5F058808, 0xC60CD9B2, 0xB10BE924, 0x2F6F7C87, 0x58684C11, 0xC1611DAB, 0xB6662D3D,
     0x76DC4190, 0x01DB7106, 0x98D220BC, 0xEFD5102A, 0x71B18589, 0x06B6B51F, 0x9FBFE4A5, 0xE8B8D433,
     0x7807C9A2, 0x0F00F934, 0x9609A88E, 0xE10E9818, 0x7F6A0DBB, 0x086D3D2D, 0x91646C97, 0xE6635C01,
     0x6B6B51F4, 0x1C6C6162, 0x856530D8, 0xF262004E, 0x6C0695ED, 0x1B01A57B, 0x8208F4C1, 0xF50FC457,
     0x65B0D9C6, 0x12B7E950, 0x8BBEB8EA, 0xFCB9887C, 0x62DD1DDF, 0x15DA2D49, 0x8CD37CF3, 0xFBD44C65,
     0x4DB26158, 0x3AB551CE, 0xA3BC0074, 0xD4BB30E2, 0x4ADFA541, 0x3DD895D7, 0xA4D1C46D, 0xD3D6F4FB,
     0x4369E96A, 0x346ED9FC, 0xAD678846, 0xDA60B8D0, 0x44042D73, 0x33031DE5, 0xAA0A4C5F, 0xDD0D7CC9,
     0x5005713C, 0x270241AA, 0xBE0B1010, 0xC90C2086, 0x5768B525, 0x206F85B3, 0xB966D409, 0xCE61E49F,
     0x5EDEF90E, 0x29D9C998, 0xB0D09822, 0xC7D7A8B4, 0x59B33D17, 0x2EB40D81, 0xB7BD5C3B, 0xC0BA6CAD,
     0xEDB88320, 0x9ABFB3B6, 0x03B6E20C, 0x74B1D29A, 0xEAD54739, 0x9DD277AF, 0x04DB2615, 0x73DC1683,
     0xE3630B12, 0x94643B84, 0x0D6D6A3E, 0x7A6A5AA8, 0xE40ECF0B, 0x9309FF9D, 0x0A00AE27, 0x7D079EB1,
     0xF00F9344, 0x8708A3D2, 0x1E01F268, 0x6906C2FE, 0xF762575D, 0x806567CB, 0x196C3671, 0x6E6B06E7,
     0xFED41B76, 0x89D32BE0, 0x10DA7A5A, 0x67DD4ACC, 0xF9B9DF6F, 0x8EBEEFF9, 0x17B7BE43, 0x60B08ED5,
     0xD6D6A3E8, 0xA1D1937E, 0x38D8C2C4, 0x4FDFF252, 0xD1BB67F1, 0xA6BC5767, 0x3FB506DD, 0x48B2364B,
     0xD80D2BDA, 0xAF0A1B4C, 0x36034AF6, 0x41047A60, 0xDF60EFC3, 0xA867DF55, 0x316E8EEF, 0x4669BE79,
     0xCB61B38C, 0xBC66831A, 0x256FD2A0, 0x5268E236, 0xCC0C7795, 0xBB0B4703, 0x220216B9, 0x5505262F,
     0xC5BA3BBE, 0xB2BD0B28, 0x2BB45A92, 0x5CB36A04, 0xC2D7FFA7, 0xB5D0CF31, 0x2CD99E8B, 0x5BDEAE1D,
     0x9B64C2B0, 0xEC63F226, 0x756AA39C, 0x026D930A, 0x9C0906A9, 0xEB0E363F, 0x72076785, 0x05005713,
     0x95BF4A82, 0xE2B87A14, 0x7BB12BAE, 0x0CB61B38, 0x92D28E9B, 0xE5D5BE0D, 0x7CDCEFB7, 0x0BDBDF21,
     0x86D3D2D4, 0xF1D4E242, 0x68DDB3F8, 0x1FDA836E, 0x81BE16CD, 0xF6B9265B, 0x6FB077E1, 0x18B74777,
     0x88085AE6, 0xFF0F6A70, 0x66063BCA, 0x11010B5C, 0x8F659EFF, 0xF862AE69, 0x616BFFD3, 0x166CCF45,
     0xA00AE278, 0xD70DD2EE, 0x4E048354, 0x3903B3C2, 0xA7672661, 0xD06016F7, 0x4969474D, 0x3E6E77DB,
     0xAED16A4A, 0xD9D65ADC, 0x40DF0B66, 0x37D83BF0, 0xA9BCAE53, 0xDEBB9EC5, 0x47B2CF7F, 0x30B5FFE9,
     0xBDBDF21C, 0xCABAC28A, 0x53B39330, 0x24B4A3A6, 0xBAD03605, 0xCDD70693, 0x54DE5729, 0x23D967BF,
     0xB3667A2E, 0xC4614AB8, 0x5D681B02, 0x2A6F2B94, 0xB40BBE37, 0xC30C8EA1, 0x5A05DF1B, 0x2D02EF8D]"

definition crc_table_step :: "u32 \<Rightarrow> byte \<Rightarrow> u32" where
  "crc_table_step crc b = drop_bit 8 crc XOR crc_table ! unat ((crc XOR ucast b) AND 0xFF)"

definition crc32_reference :: "byte list \<Rightarrow> u32" where
  "crc32_reference p = NOT (foldl crc_table_step 0xFFFFFFFF p)"

section \<open>FNV-1a\<close>

lemma fnv_prime_inverse: "1099511628211 * 14886173955864302971 = (1 :: u64)"
  by simp

lemma mult_fnv_prime_inj: "x * 1099511628211 = y * (1099511628211 :: u64) \<Longrightarrow> x = y"
  by (metis (no_types, lifting) fnv_prime_inverse mult.assoc mult.right_neutral)

lemma xor_cancel_right: "a XOR c = b XOR c \<Longrightarrow> a = (b :: 'a::len word)"
  by (metis bit.xor_cancel_right xor.assoc xor_self_eq xor.right_neutral)

lemma xor_cancel_left: "c XOR a = c XOR b \<Longrightarrow> a = (b :: 'a::len word)"
  by (metis xor.commute xor_cancel_right)

lemma fnv_step_inj_state: "fnv_step h b = fnv_step h' b \<Longrightarrow> h = h'"
  unfolding fnv_step_def by (blast dest: mult_fnv_prime_inj xor_cancel_right)

lemma fnv_step_inj_byte: "fnv_step h b = fnv_step h c \<Longrightarrow> b = c"
proof -
  assume "fnv_step h b = fnv_step h c"
  then have "(ucast b :: u64) = ucast c"
    unfolding fnv_step_def by (blast dest: mult_fnv_prime_inj xor_cancel_left)
  then have eq: "bit (ucast b :: u64) n = bit (ucast c :: u64) n" for n by simp
  show ?thesis
  proof (rule bit_word_eqI)
    fix n assume "n < LENGTH(8)"
    then show "bit b n = bit c n" using eq [of n] by (simp add: bit_ucast_iff)
  qed
qed

section \<open>CRC-32\<close>

lemma crc_bit_cases:
  "crc_bit c = (if bit c 0 then drop_bit 1 c XOR 0xEDB88320 else drop_bit 1 c)"
proof -
  have "c AND 1 = (if bit c 0 then 1 else 0)" by (simp add: and_one_eq mod2_eq_if bit_0)
  then show ?thesis by (simp add: crc_bit_def)
qed

lemma crc_bit_xor: "crc_bit (a XOR b) = crc_bit a XOR crc_bit b"
  by (simp add: crc_bit_cases bit_xor_iff xor.assoc xor.left_commute xor.commute)

lemma crc_bit_0 [simp]: "crc_bit 0 = 0"
  by (simp add: crc_bit_cases)

lemma crc_bit_kernel:
  assumes "crc_bit x = 0" shows "x = 0"
proof (cases "bit x 0")
  case False
  then have d: "drop_bit 1 x = 0" using assms by (simp add: crc_bit_cases)
  show ?thesis
  proof (rule bit_word_eqI)
    fix n assume "n < LENGTH(32)"
    have "bit (drop_bit 1 x) (n - 1) = False" using d by simp
    then show "bit x n = bit 0 n" using False by (cases n) (simp_all add: bit_drop_bit_eq)
  qed
next
  case True
  then have "drop_bit 1 x = 0xEDB88320"
    using assms by (simp add: crc_bit_cases) (metis xor_self_eq xor_cancel_right)
  then have "bit (drop_bit 1 x) 31 = bit (0xEDB88320 :: u32) 31" by simp
  then show ?thesis by (simp add: bit_drop_bit_eq bit_numeral_word_iff) (auto dest: bit_imp_le_length)
qed

lemma crc_shift_xor: "(crc_bit ^^ n) (a XOR b) = (crc_bit ^^ n) a XOR (crc_bit ^^ n) b"
  by (induction n) (simp_all add: crc_bit_xor)

lemma crc_shift_0 [simp]: "(crc_bit ^^ n) 0 = 0"
  by (induction n) simp_all

lemma crc_shift_kernel: "(crc_bit ^^ n) x = 0 \<Longrightarrow> x = 0"
  by (induction n) (auto dest: crc_bit_kernel)

lemma crc_shift_low_zero:
  assumes "\<And>i. i < n \<Longrightarrow> \<not> bit x i"
  shows "(crc_bit ^^ n) x = drop_bit n x"
  using assms
proof (induction n)
  case (Suc n)
  then have "(crc_bit ^^ n) x = drop_bit n x" by simp
  moreover have "\<not> bit (drop_bit n x) 0" using Suc.prems [of n] by (simp add: bit_drop_bit_eq)
  ultimately show ?case using crc_bit_cases [of "(crc_bit ^^ n) x"] by simp
qed simp

subsection \<open>Bit by bit\<close>

text \<open>The bits of a message in the order the code takes them, and one step on one bit.\<close>

definition msg_bits :: "byte list \<Rightarrow> bool list" where
  "msg_bits p = concat (map (\<lambda>b. map (bit b) [0 ..< 8]) p)"

definition crc_in :: "u32 \<Rightarrow> bool \<Rightarrow> u32" where
  "crc_in crc b = crc_bit (crc XOR of_bool b)"

text \<open>Up to 32 bits as the word they fill from below.\<close>

primrec bits_word :: "bool list \<Rightarrow> u32" where
  "bits_word [] = 0"
| "bits_word (b # bs) = of_bool b XOR push_bit 1 (bits_word bs)"

lemma bit_bits_word: "bit (bits_word bs) n \<longleftrightarrow> n < 32 \<and> n < length bs \<and> bs ! n"
proof (induction bs arbitrary: n)
  case (Cons b bs)
  show ?case
  proof (cases n)
    case 0
    then show ?thesis by (simp add: bit_xor_iff bit_push_bit_iff del: push_bit_Suc One_nat_def)
  next
    case (Suc m)
    have "bit (bits_word (b # bs)) n \<longleftrightarrow> n < 32 \<and> bit (bits_word bs) m"
      by (simp add: Suc bit_xor_iff bit_push_bit_iff bit_of_bool_iff del: push_bit_Suc One_nat_def)
    then show ?thesis using Cons.IH [of m] Suc by auto
  qed
qed simp

lemma crc_bit_push:
  assumes "\<not> bit y 31" shows "crc_bit (push_bit 1 y) = y"
proof -
  have "drop_bit 1 (push_bit 1 y) = y"
  proof (rule bit_word_eqI)
    fix n assume "n < LENGTH(32)"
    then show "bit (drop_bit 1 (push_bit 1 y)) n = bit y n"
      using assms by (cases "n = 31") (auto simp: bit_drop_bit_eq bit_push_bit_iff simp del: push_bit_Suc One_nat_def)
  qed
  moreover have "\<not> bit (push_bit 1 y) 0" by (simp add: bit_push_bit_iff del: push_bit_Suc One_nat_def)
  ultimately show ?thesis by (simp add: crc_bit_cases)
qed

lemma crc_in_short:
  "length bs \<le> 32 \<Longrightarrow> foldl crc_in s bs = (crc_bit ^^ length bs) (s XOR bits_word bs)"
proof (induction bs arbitrary: s)
  case (Cons b bs)
  have "\<not> bit (bits_word bs) 31" using Cons.prems by (simp add: bit_bits_word)
  then have "crc_bit (push_bit 1 (bits_word bs)) = bits_word bs" by (rule crc_bit_push)
  then have "crc_bit (s XOR bits_word (b # bs)) = crc_in s b XOR bits_word bs"
    by (simp add: crc_in_def crc_bit_xor xor.assoc)
  then show ?case using Cons by (simp add: funpow_swap1 del: bits_word.simps)
qed simp

lemma crc_byte_bits: "crc_byte c b = foldl crc_in c (map (bit b) [0 ..< 8])"
proof -
  have "bits_word (map (bit b) [0 ..< 8]) = ucast b"
  proof (rule bit_word_eqI)
    fix n assume "n < LENGTH(32)"
    then show "bit (bits_word (map (bit b) [0 ..< 8])) n = bit (ucast b :: u32) n"
      using bit_imp_le_length [of b n] by (auto simp: bit_bits_word bit_ucast_iff)
  qed
  then show ?thesis using crc_in_short [of "map (bit b) [0 ..< 8]" c] by (simp add: crc_byte_def)
qed

lemma crc_fold_bits: "foldl crc_byte c p = foldl crc_in c (msg_bits p)"
  by (induction p arbitrary: c) (simp_all add: msg_bits_def crc_byte_bits del: upt_rec_numeral)

lemma crc_in_xor:
  "length u = length v \<Longrightarrow> foldl crc_in s u XOR foldl crc_in s' v = foldl crc_in (s XOR s') (map2 (\<noteq>) u v)"
proof (induction u v arbitrary: s s' rule: list_induct2)
  case (Cons a u b v)
  have "(of_bool (a \<noteq> b) :: u32) = of_bool a XOR of_bool b" by (cases a; cases b) simp_all
  then have "crc_in s a XOR crc_in s' b = crc_in (s XOR s') (a \<noteq> b)"
    by (simp add: crc_in_def crc_bit_xor [symmetric] xor.assoc xor.left_commute xor.commute)
  then show ?case using Cons.IH [of "crc_in s a" "crc_in s' b"] by simp
qed simp

lemma crc_in_zeros: "True \<notin> set bs \<Longrightarrow> foldl crc_in 0 bs = 0"
  by (induction bs) (auto simp: crc_in_def)

lemma crc_in_zeros_kernel: "True \<notin> set bs \<Longrightarrow> foldl crc_in x bs = 0 \<Longrightarrow> x = 0"
proof (induction bs arbitrary: x)
  case (Cons b bs)
  then have "crc_in x False = 0" by simp
  then show ?case by (simp add: crc_in_def crc_bit_kernel)
qed simp

text \<open>A pattern of differences that lies in a window of 32 bits and leaves no trace is empty.\<close>

lemma crc_burst:
  assumes "foldl crc_in 0 D = 0" and "\<forall>i < length D. D ! i \<longrightarrow> k \<le> i \<and> i < k + 32"
  shows "True \<notin> set D"
proof -
  let ?a = "take k D" and ?w = "take 32 (drop k D)" and ?b = "drop (k + 32) D"
  have D: "D = ?a @ ?w @ ?b" by (metis append_take_drop_id drop_drop add.commute)
  have a: "True \<notin> set ?a" using assms(2) by (auto simp: in_set_conv_nth) 
  have b: "True \<notin> set ?b"
  proof
    assume "True \<in> set ?b"
    then obtain j where "j < length ?b" "?b ! j" by (auto simp: in_set_conv_nth)
    then have "k + 32 + j < length D" "D ! (k + 32 + j)" by (simp_all add: nth_drop)
    then show False using assms(2) by auto
  qed
  have "foldl crc_in (foldl crc_in 0 ?w) ?b = 0"
    using assms(1) crc_in_zeros [OF a] by (subst (asm) D) (simp only: foldl_append)
  then have "foldl crc_in 0 ?w = 0" by (rule crc_in_zeros_kernel [OF b])
  then have "bits_word ?w = 0" using crc_in_short [of ?w 0] crc_shift_kernel by simp
  then have "\<not> bit (bits_word ?w) i" for i by simp
  then have "\<not> ?w ! i" if "i < length ?w" for i using bit_bits_word [of ?w i] that by (metis length_take min_less_iff_conj)
  then have "True \<notin> set ?w" by (metis in_set_conv_nth)
  then show ?thesis using a b by (subst D) (simp only: set_append Un_iff, blast)
qed

lemma no_differences: "length u = length v \<Longrightarrow> True \<notin> set (map2 (\<noteq>) u v) \<Longrightarrow> u = v"
  by (induction u v rule: list_induct2) auto

lemma length_msg_bits [simp]: "length (msg_bits p) = 8 * length p"
  by (induction p) (simp_all add: msg_bits_def)

lemma msg_bits_inj: "length p = length p' \<Longrightarrow> msg_bits p = msg_bits p' \<Longrightarrow> p = p'"
proof (induction p p' rule: list_induct2)
  case (Cons b p b' p')
  then have "map (bit b) [0 ..< 8] = map (bit b') [0 ..< 8]" "msg_bits p = msg_bits p'"
    by (simp_all add: msg_bits_def del: upt_rec_numeral)
  moreover from this(1) have "bit b n = bit b' n" if "n < 8" for n
    using that by (metis add_0 diff_zero length_upt map_eq_conv nth_map nth_upt)
  then have "b = b'" by (intro bit_word_eqI) simp
  ultimately show ?case using Cons by simp
qed simp

section \<open>Agreement with the table\<close>

lemma word_split_mask: "x = (x AND m) XOR (x AND NOT m)" for x :: "'a::len word"
  by (rule bit_word_eqI) (auto simp: bit_xor_iff bit_and_iff bit_not_iff)

text \<open>The table zlib publishes holds what eight bit steps make of each byte.\<close>

lemma crc_byte_unfold:
  "crc_byte crc b = crc_bit (crc_bit (crc_bit (crc_bit (crc_bit (crc_bit (crc_bit (crc_bit
     (crc XOR ucast b))))))))"
  by (simp add: crc_byte_def numeral_eq_Suc del: crc_bit_0)

lemma crc_eight: "(crc_bit ^^ 8) c = crc_bit (crc_bit (crc_bit (crc_bit (crc_bit (crc_bit (crc_bit (crc_bit c)))))))"
  by (simp add: numeral_eq_Suc del: crc_bit_0)

lemma crc_bit_numeral:
  "crc_bit (numeral k) = drop_bit 1 (numeral k) XOR (0xEDB88320 AND (0 - (numeral k AND 1)))" "crc_bit 1 = 0xEDB88320"
  by (simp_all add: crc_bit_def)

lemma byte_values: "map word_of_nat [0 ..< 256] =
    ([0, 1, 2, 3, 4, 5, 6, 7, 8, 9, 10, 11, 12, 13, 14, 15, 16, 17, 18, 19, 20, 21, 22, 23, 24, 25, 26, 27, 28, 29,
     30, 31, 32, 33, 34, 35, 36, 37, 38, 39, 40, 41, 42, 43, 44, 45, 46, 47, 48, 49, 50, 51, 52, 53, 54, 55, 56,
     57, 58, 59, 60, 61, 62, 63, 64, 65, 66, 67, 68, 69, 70, 71, 72, 73, 74, 75, 76, 77, 78, 79, 80, 81, 82, 83,
     84, 85, 86, 87, 88, 89, 90, 91, 92, 93, 94, 95, 96, 97, 98, 99, 100, 101, 102, 103, 104, 105, 106, 107, 108,
     109, 110, 111, 112, 113, 114, 115, 116, 117, 118, 119, 120, 121, 122, 123, 124, 125, 126, 127, 128, 129, 130,
     131, 132, 133, 134, 135, 136, 137, 138, 139, 140, 141, 142, 143, 144, 145, 146, 147, 148, 149, 150, 151, 152,
     153, 154, 155, 156, 157, 158, 159, 160, 161, 162, 163, 164, 165, 166, 167, 168, 169, 170, 171, 172, 173, 174,
     175, 176, 177, 178, 179, 180, 181, 182, 183, 184, 185, 186, 187, 188, 189, 190, 191, 192, 193, 194, 195, 196,
     197, 198, 199, 200, 201, 202, 203, 204, 205, 206, 207, 208, 209, 210, 211, 212, 213, 214, 215, 216, 217, 218,
     219, 220, 221, 222, 223, 224, 225, 226, 227, 228, 229, 230, 231, 232, 233, 234, 235, 236, 237, 238, 239, 240,
     241, 242, 243, 244, 245, 246, 247, 248, 249, 250, 251, 252, 253, 254, 255] :: u32 list)"
  by (simp add: upt_conv_Cons)

lemma crc_table_map: "crc_table = map (\<lambda>n. (crc_bit ^^ 8) (word_of_nat n)) [0 ..< 256]"
proof -
  have "map (crc_bit ^^ 8) (map word_of_nat [0 ..< 256]) = crc_table"
    unfolding byte_values crc_table_def list.map crc_eight by (simp add: crc_bit_numeral)
  then show ?thesis by (simp add: o_def del: upt_rec_numeral)
qed

lemma crc_table_entries: "n < 256 \<Longrightarrow> crc_table ! n = (crc_bit ^^ 8) (word_of_nat n)"
  by (simp add: crc_table_map del: upt_rec_numeral)

lemma crc_byte_table: "crc_byte c b = crc_table_step c b"
proof -
  let ?x = "c XOR ucast b"
  let ?lo = "?x AND 0xFF" and ?hi = "?x AND NOT 0xFF"
  have mask: "(0xFF :: u32) = mask 8" by (simp add: mask_numeral)
  have "?x = ?lo XOR ?hi" by (rule word_split_mask)
  then have "crc_byte c b = (crc_bit ^^ 8) ?lo XOR (crc_bit ^^ 8) ?hi"
    unfolding crc_byte_def by (metis crc_shift_xor)
  also have "(crc_bit ^^ 8) ?hi = drop_bit 8 ?hi"
    by (rule crc_shift_low_zero) (simp add: mask bit_and_iff bit_not_iff bit_mask_iff)
  also have "drop_bit 8 ?hi = drop_bit 8 c"
    by (rule bit_word_eqI)
       (auto simp: mask bit_drop_bit_eq bit_xor_iff bit_and_iff bit_not_iff bit_mask_iff bit_ucast_iff
             dest: bit_imp_le_length)
  also have "(crc_bit ^^ 8) ?lo = crc_table ! unat ?lo"
  proof -
    have "?lo = take_bit 8 ?x" by (simp only: mask take_bit_eq_mask)
    then have "unat ?lo = take_bit 8 (unat ?x)" by (metis unsigned_take_bit_eq)
    then have "unat ?lo < 256" by (simp add: take_bit_eq_mod)
    then show ?thesis by (simp add: crc_table_entries)
  qed
  finally show ?thesis by (simp only: crc_table_step_def xor.commute)
qed

section \<open>Properties\<close>

text \<open>
  C40. The bitwise CRC-32 of the code is, on every input, the table-driven CRC-32 with the table of zlib,
  and it detects every error burst of up to 32 bits: two different messages of the same length whose bits (the low bit of a byte
  first) differ only inside some window of 32 consecutive bits, wherever it starts, never have the same CRC.
\<close>

theorem crc32_table_and_bursts:
  "hash_crc32 (Some p) = crc32_reference p
   \<and> (length m = length m' \<longrightarrow> m \<noteq> m' \<longrightarrow>
      (\<forall>i < 8 * length m. msg_bits m ! i \<noteq> msg_bits m' ! i \<longrightarrow> k \<le> i \<and> i < k + 32) \<longrightarrow>
      hash_crc32 (Some m) \<noteq> hash_crc32 (Some m'))"
proof
  have "crc_byte = crc_table_step" by (intro ext) (rule crc_byte_table)
  then show "hash_crc32 (Some p) = crc32_reference p"
    by (simp add: hash_crc32_def crc32_reference_def)
  show "length m = length m' \<longrightarrow> m \<noteq> m' \<longrightarrow>
      (\<forall>i < 8 * length m. msg_bits m ! i \<noteq> msg_bits m' ! i \<longrightarrow> k \<le> i \<and> i < k + 32) \<longrightarrow>
      hash_crc32 (Some m) \<noteq> hash_crc32 (Some m')"
  proof (intro impI notI)
    assume m: "length m = length m'" "m \<noteq> m'"
      and win: "\<forall>i < 8 * length m. msg_bits m ! i \<noteq> msg_bits m' ! i \<longrightarrow> k \<le> i \<and> i < k + 32"
      and same: "hash_crc32 (Some m) = hash_crc32 (Some m')"
    let ?D = "map2 (\<noteq>) (msg_bits m) (msg_bits m')"
    have len: "length (msg_bits m) = length (msg_bits m')" using m(1) by simp
    have "foldl crc_in 0xFFFFFFFF (msg_bits m) = foldl crc_in 0xFFFFFFFF (msg_bits m')"
      using same by (simp add: hash_crc32_def crc_fold_bits)
    then have "foldl crc_in 0 ?D = 0" using crc_in_xor [OF len, of "0xFFFFFFFF" "0xFFFFFFFF"] by simp
    moreover have "\<forall>i < length ?D. ?D ! i \<longrightarrow> k \<le> i \<and> i < k + 32" using win m(1) by simp
    ultimately have none: "True \<notin> set ?D" by (rule crc_burst)
    then have "msg_bits m = msg_bits m'" by (rule no_differences [OF len])
    then show False using msg_bits_inj [OF m(1)] m(2) by blast
  qed
qed

text \<open>A burst of 32 bits over five bytes: the high half of the second to the low half of the sixth.\<close>

theorem crc32_table_and_bursts_witness:
  "hash_crc32 (Some [1, 2]) = crc32_reference [1, 2]
   \<and> hash_crc32 (Some [1, 0x02, 3, 4, 5, 0x06, 7]) \<noteq> hash_crc32 (Some [1, 0x12, 0, 0, 0, 0x0E, 7])"
proof -
  have "\<forall>i < 8 * length [1 :: byte, 0x02, 3, 4, 5, 0x06, 7].
      msg_bits [1, 0x02, 3, 4, 5, 0x06, 7] ! i \<noteq> msg_bits [1, 0x12, 0, 0, 0, 0x0E, 7] ! i \<longrightarrow> 12 \<le> i \<and> i < 12 + 32"
    by (simp add: msg_bits_def All_less_Suc numeral_eq_Suc)
  then show ?thesis
    using crc32_table_and_bursts [of "[1, 2]" "[1, 0x02, 3, 4, 5, 0x06, 7]" "[1, 0x12, 0, 0, 0, 0x0E, 7]" 12] by simp
qed

text \<open>The check value every CRC-32/ISO-HDLC implementation publishes.\<close>

lemma crc32_check_value: "hash_crc32 (Some (bytes_of ''123456789'')) = 0xCBF43926"
  by (simp add: hash_crc32_def bytes_of_def crc_byte_unfold crc_bit_def)

text \<open>FNV-1a tells any two strings apart that differ in one byte.\<close>

lemma fnv1a_fold_inj_state: "foldl fnv_step h bs = foldl fnv_step h' bs \<Longrightarrow> h = h'"
  by (induction bs arbitrary: h h') (auto dest: fnv_step_inj_state)

lemma fnv1a_one_byte:
  "b \<noteq> c \<Longrightarrow> hash_fnv1a (Some (p @ b # q)) \<noteq> hash_fnv1a (Some (p @ c # q))"
  by (auto simp: hash_fnv1a_def dest: fnv1a_fold_inj_state fnv_step_inj_byte)

end
