(* ===== verification/StringMap.thy ===== *)
theory StringMap
  imports Core
begin

text \<open>
  The interface of a string-keyed map whose insertions may run out of memory: what a client
  sees of the operations is what a finite map answers, except that an insertion may be
  refused, without effect, with \<open>ERR_NOMEM\<close>. The client's lemma (a run of operations is a
  run on the map) is proved once from the laws.
\<close>

section \<open>Operations and the specification\<close>

text \<open>The two booleans of an insertion are the answers of the allocator to it.\<close>

datatype map_op = MPut bool bool string u64 | MGet string | MContains string | MRemove string

datatype map_reply = RErr error_code | RVal u64 | RBool bool

fun map_spec :: "map_op \<Rightarrow> map_reply \<Rightarrow> (string \<rightharpoonup> u64) \<Rightarrow> (string \<rightharpoonup> u64) option" where
  "map_spec (MPut a b k v) (RErr e) M =
     (if e = ERR_OK then Some (M(k \<mapsto> v)) else if e = ERR_NOMEM \<and> \<not> (a \<and> b) then Some M else None)"
| "map_spec (MGet k) (RVal v) M = (if v = (case M k of None \<Rightarrow> 0 | Some w \<Rightarrow> w) then Some M else None)"
| "map_spec (MContains k) (RBool b) M = (if b = (M k \<noteq> None) then Some M else None)"
| "map_spec (MRemove k) (RErr e) M =
     (if e = (if M k = None then ERR_NOT_FOUND else ERR_OK) then Some (M(k := None)) else None)"
| "map_spec _ _ M = None"

fun map_spec_run ::
  "map_op list \<Rightarrow> map_reply list \<Rightarrow> (string \<rightharpoonup> u64) \<Rightarrow> (string \<rightharpoonup> u64) option" where
  "map_spec_run [] [] M = Some M"
| "map_spec_run (x # ops) (r # rs) M = do { M' \<leftarrow> map_spec x r M; map_spec_run ops rs M' }"
| "map_spec_run _ _ M = None"

fun map_run ::
  "(bool \<Rightarrow> bool \<Rightarrow> string \<Rightarrow> u64 \<Rightarrow> 's \<Rightarrow> (error_code \<times> 's) ub) \<Rightarrow> (string \<Rightarrow> 's \<Rightarrow> u64 ub) \<Rightarrow>
   (string \<Rightarrow> 's \<Rightarrow> bool ub) \<Rightarrow> (string \<Rightarrow> 's \<Rightarrow> (error_code \<times> 's) ub) \<Rightarrow>
   map_op list \<Rightarrow> 's \<Rightarrow> (map_reply list \<times> 's) ub" where
  "map_run put get contains remove [] s = Some ([], s)"
| "map_run put get contains remove (MPut a b k v # ops) s =
     do { (e, t) \<leftarrow> put a b k v s; (rs, u) \<leftarrow> map_run put get contains remove ops t; Some (RErr e # rs, u) }"
| "map_run put get contains remove (MGet k # ops) s =
     do { v \<leftarrow> get k s; (rs, u) \<leftarrow> map_run put get contains remove ops s; Some (RVal v # rs, u) }"
| "map_run put get contains remove (MContains k # ops) s =
     do { b \<leftarrow> contains k s; (rs, u) \<leftarrow> map_run put get contains remove ops s; Some (RBool b # rs, u) }"
| "map_run put get contains remove (MRemove k # ops) s =
     do { (e, t) \<leftarrow> remove k s; (rs, u) \<leftarrow> map_run put get contains remove ops t; Some (RErr e # rs, u) }"

section \<open>The interface\<close>

text \<open>
  \<open>within n s\<close> bounds the memory the state asks for by the number \<open>n\<close> of operations so far;
  below \<open>limit\<close> operations an insertion whose allocations succeed succeeds.
\<close>

locale string_map =
  fixes inv :: "'s \<Rightarrow> bool"
    and abs :: "'s \<Rightarrow> string \<rightharpoonup> u64"
    and within :: "nat \<Rightarrow> 's \<Rightarrow> bool"
    and limit :: nat
    and put :: "bool \<Rightarrow> bool \<Rightarrow> string \<Rightarrow> u64 \<Rightarrow> 's \<Rightarrow> (error_code \<times> 's) ub"
    and get :: "string \<Rightarrow> 's \<Rightarrow> u64 ub"
    and contains :: "string \<Rightarrow> 's \<Rightarrow> bool ub"
    and remove :: "string \<Rightarrow> 's \<Rightarrow> (error_code \<times> 's) ub"
  assumes put_law: "inv s \<Longrightarrow> within n s \<Longrightarrow> n < limit \<Longrightarrow>
      \<exists>e t. put a b k v s = Some (e, t) \<and> inv t \<and> within (Suc n) t
          \<and> (e = ERR_OK \<and> abs t = (abs s)(k \<mapsto> v) \<or> e = ERR_NOMEM \<and> abs t = abs s \<and> \<not> (a \<and> b))"
    and get_law: "inv s \<Longrightarrow> get k s = Some (case abs s k of None \<Rightarrow> 0 | Some v \<Rightarrow> v)"
    and contains_law: "inv s \<Longrightarrow> contains k s = Some (abs s k \<noteq> None)"
    and remove_law: "inv s \<Longrightarrow> within n s \<Longrightarrow>
      \<exists>t. remove k s = Some (if abs s k = None then ERR_NOT_FOUND else ERR_OK, t) \<and> inv t
          \<and> within n t \<and> abs t = (abs s)(k := None)"
    and within_mono: "within n s \<Longrightarrow> within (Suc n) s"
begin

lemma run_refines:
  "inv s \<Longrightarrow> within n s \<Longrightarrow> n + length ops \<le> limit \<Longrightarrow>
   \<exists>rs t. map_run put get contains remove ops s = Some (rs, t) \<and> inv t
        \<and> map_spec_run ops rs (abs s) = Some (abs t)"
proof (induction ops arbitrary: s n)
  case Nil
  then show ?case by simp
next
  case (Cons x ops)
  have next_run: "\<exists>rs u. map_run put get contains remove ops t = Some (rs, u) \<and> inv u
        \<and> map_spec_run ops rs (abs t) = Some (abs u)" if "inv t" "within (Suc n) t" for t
    using Cons.IH [OF that] Cons.prems(3) by simp
  show ?case
  proof (cases x)
    case (MPut a b k v)
    from put_law [OF Cons.prems(1,2), of a b k v] Cons.prems(3)
    obtain e t where p: "put a b k v s = Some (e, t)" and t: "inv t" "within (Suc n) t"
      and et: "e = ERR_OK \<and> abs t = (abs s)(k \<mapsto> v) \<or> e = ERR_NOMEM \<and> abs t = abs s \<and> \<not> (a \<and> b)"
      by auto
    from et have "map_spec x (RErr e) (abs s) = Some (abs t)" using MPut by auto
    with next_run [OF t] p MPut show ?thesis by (force intro: exI [of _ "RErr e # rs" for rs])
  next
    case (MGet k)
    then show ?thesis
      using next_run [OF Cons.prems(1) within_mono [OF Cons.prems(2)]] get_law [OF Cons.prems(1), of k]
      by (force intro: exI [of _ "RVal v # rs" for v rs])
  next
    case (MContains k)
    then show ?thesis
      using next_run [OF Cons.prems(1) within_mono [OF Cons.prems(2)]] contains_law [OF Cons.prems(1), of k]
      by (force intro: exI [of _ "RBool b # rs" for b rs])
  next
    case (MRemove k)
    from remove_law [OF Cons.prems(1,2), of k]
    obtain t where p: "remove k s = Some (if abs s k = None then ERR_NOT_FOUND else ERR_OK, t)"
      and t: "inv t" "within n t" "abs t = (abs s)(k := None)" by blast
    from next_run [OF t(1) within_mono [OF t(2)]] p t(3) MRemove show ?thesis
      by (force intro: exI [of _ "RErr e # rs" for e rs])
  qed
qed

end

end
