(* ===== verification/HashMap.thy ===== *)
theory HashMap
  imports StringMap Hash
begin

text \<open>
  The open-addressing hash map of \<open>src/containers/hashmap.c\<close>: linear probing over a
  power-of-two table, tombstones, doubling at a load of three quarters. A key is a C string
  (its characters), a value an opaque pointer word, and each operation that allocates takes
  the allocator's answers as arguments. Dereferencing \<open>NULL\<close> and reading outside the
  table are undefined (\<open>None\<close>). The specification is a finite map from strings to values.
\<close>

unbundle bit_operations_syntax

section \<open>State and operations\<close>

record slot =
  sl_key :: "string option"
  sl_value :: u64
  sl_dead :: u32

record hashmap =
  hm_slots :: "slot list option"
  hm_cap :: size_t
  hm_len :: size_t
  hm_used :: size_t

definition empty_slot :: slot where
  "empty_slot = \<lparr>sl_key = None, sl_value = 0, sl_dead = 0\<rparr>"

text \<open>\<open>calloc\<close> of slots (24 bytes each): zeroed, or \<open>NULL\<close>.\<close>

definition calloc_slots :: "bool \<Rightarrow> size_t \<Rightarrow> slot list option" where
  "calloc_slots ok n =
     (if ok \<and> unat n * 24 \<le> PTRDIFF_MAX then Some (replicate (unat n) empty_slot) else None)"

definition hashmap_init :: "bool \<Rightarrow> hashmap option \<Rightarrow> error_code \<times> hashmap option" where
  "hashmap_init ok mp =
     (case mp of
        None \<Rightarrow> (ERR_INVALID_ARG, None)
      | Some m \<Rightarrow>
          (case calloc_slots ok 16 of
             None \<Rightarrow> (ERR_NOMEM, Some (m\<lparr>hm_slots := None\<rparr>))
           | Some ss \<Rightarrow> (ERR_OK, Some \<lparr>hm_slots = Some ss, hm_cap = 16, hm_len = 0, hm_used = 0\<rparr>)))"

definition hashmap_destroy :: "hashmap option \<Rightarrow> hashmap option" where
  "hashmap_destroy mp =
     (case mp of
        None \<Rightarrow> None
      | Some m \<Rightarrow>
          (case hm_slots m of
             None \<Rightarrow> Some m
           | Some ss \<Rightarrow> Some \<lparr>hm_slots = None, hm_cap = 0, hm_len = 0, hm_used = 0\<rparr>))"

text \<open>
  The probe loop, \<open>n\<close> steps before \<open>step = cap\<close>: \<open>i\<close> is the current index and \<open>ft\<close> the
  first tombstone. The result is a slot index, or \<open>None\<close> for the \<open>NULL\<close> pointer.
\<close>

primrec probe_loop ::
  "slot list \<Rightarrow> size_t \<Rightarrow> string \<Rightarrow> nat \<Rightarrow> size_t \<Rightarrow> size_t option \<Rightarrow> size_t option ub" where
  "probe_loop ss cap k 0 i ft = Some ft"
| "probe_loop ss cap k (Suc n) i ft =
     (if length ss \<le> unat i then None
      else let s = ss ! unat i in
        case sl_key s of
          None \<Rightarrow> Some (case ft of None \<Rightarrow> Some i | Some t \<Rightarrow> Some t)
        | Some k' \<Rightarrow>
            if sl_dead s \<noteq> 0 then
              probe_loop ss cap k n ((i + 1) AND (cap - 1)) (case ft of None \<Rightarrow> Some i | Some t \<Rightarrow> Some t)
            else if k' = k then Some (Some i)
            else probe_loop ss cap k n ((i + 1) AND (cap - 1)) ft)"

definition probe :: "slot list \<Rightarrow> size_t \<Rightarrow> string \<Rightarrow> size_t option ub" where
  "probe ss cap k = probe_loop ss cap k (unat cap) (hash_fnv1a_str (Some k) AND (cap - 1)) None"

text \<open>The loop of \<open>rehash\<close>: each live slot moves into the slot the new table's probe gives.\<close>

primrec rehash_loop :: "slot list \<Rightarrow> size_t \<Rightarrow> slot list \<Rightarrow> slot list ub" where
  "rehash_loop [] cap fresh = Some fresh"
| "rehash_loop (s # rest) cap fresh =
     (case sl_key s of
        Some k \<Rightarrow>
          if sl_dead s = 0 then do {
            dst \<leftarrow> probe fresh cap k;
            i \<leftarrow> dst;
            if length fresh \<le> unat i then None
            else rehash_loop rest cap
                   (fresh[unat i := (fresh ! unat i)\<lparr>sl_key := Some k, sl_value := sl_value s\<rparr>]) }
          else rehash_loop rest cap fresh
      | None \<Rightarrow> rehash_loop rest cap fresh)"

definition rehash :: "bool \<Rightarrow> hashmap \<Rightarrow> slot list \<Rightarrow> size_t \<Rightarrow> (error_code \<times> hashmap) ub" where
  "rehash ok m ss new_cap =
     (case calloc_slots ok new_cap of
        None \<Rightarrow> Some (ERR_NOMEM, m)
      | Some fresh \<Rightarrow>
          if length ss < unat (hm_cap m) then None
          else do {
            fresh' \<leftarrow> rehash_loop (take (unat (hm_cap m)) ss) new_cap fresh;
            Some (ERR_OK, m\<lparr>hm_slots := Some fresh', hm_cap := new_cap, hm_used := hm_len m\<rparr>) })"

text \<open>\<open>ok_table\<close> answers the \<open>calloc\<close> of a rehash, \<open>ok_key\<close> the \<open>strdup\<close> of the key.\<close>

definition put_slot :: "bool \<Rightarrow> hashmap \<Rightarrow> string \<Rightarrow> u64 \<Rightarrow> (error_code \<times> hashmap) ub" where
  "put_slot ok_key m key v =
     do {
       ss \<leftarrow> hm_slots m;
       r \<leftarrow> probe ss (hm_cap m) key;
       i \<leftarrow> r;
       if length ss \<le> unat i then None
       else let s = ss ! unat i in
         if sl_key s \<noteq> None \<and> sl_dead s = 0
         then Some (ERR_OK, m\<lparr>hm_slots := Some (ss[unat i := s\<lparr>sl_value := v\<rparr>])\<rparr>)
         else if \<not> ok_key then Some (ERR_NOMEM, m)
         else Some (ERR_OK,
                m\<lparr>hm_slots := Some (ss[unat i := \<lparr>sl_key = Some key, sl_value = v, sl_dead = 0\<rparr>]),
                  hm_used := (if sl_key s = None then hm_used m + 1 else hm_used m),
                  hm_len := hm_len m + 1\<rparr>) }"

definition hashmap_put ::
  "bool \<Rightarrow> bool \<Rightarrow> hashmap option \<Rightarrow> string option \<Rightarrow> u64 \<Rightarrow> (error_code \<times> hashmap option) ub" where
  "hashmap_put ok_table ok_key mp kp v =
     (case (mp, kp) of
        (Some m, Some key) \<Rightarrow>
          (case hm_slots m of
             None \<Rightarrow> Some (ERR_INVALID_ARG, mp)
           | Some ss \<Rightarrow>
               if hm_used m > SIZE_MAX div 4 - 1 then Some (ERR_OVERFLOW, mp)
               else if (hm_used m + 1) * 4 > hm_cap m * 3 then
                 if hm_cap m > SIZE_MAX div 2 then Some (ERR_OVERFLOW, mp)
                 else do {
                   (err, m') \<leftarrow> rehash ok_table m ss (hm_cap m * 2);
                   if err \<noteq> ERR_OK then Some (err, Some m')
                   else do { (e, m'') \<leftarrow> put_slot ok_key m' key v; Some (e, Some m'') } }
               else do { (e, m'') \<leftarrow> put_slot ok_key m key v; Some (e, Some m'') })
      | _ \<Rightarrow> Some (ERR_INVALID_ARG, mp))"

text \<open>The live slot of a key: its index, or \<open>None\<close> for \<open>NULL\<close>.\<close>

definition find_live :: "hashmap option \<Rightarrow> string option \<Rightarrow> size_t option ub" where
  "find_live mp kp =
     (case (mp, kp) of
        (Some m, Some key) \<Rightarrow>
          (case hm_slots m of
             None \<Rightarrow> Some None
           | Some ss \<Rightarrow> do {
               r \<leftarrow> probe ss (hm_cap m) key;
               case r of
                 None \<Rightarrow> Some None
               | Some i \<Rightarrow>
                   if length ss \<le> unat i then None
                   else Some (if sl_key (ss ! unat i) \<noteq> None \<and> sl_dead (ss ! unat i) = 0
                              then Some i else None) })
      | _ \<Rightarrow> Some None)"

definition slot_of :: "hashmap option \<Rightarrow> size_t \<Rightarrow> slot" where
  "slot_of mp i = the (hm_slots (the mp)) ! unat i"

definition hashmap_get :: "hashmap option \<Rightarrow> string option \<Rightarrow> u64 ub" where
  "hashmap_get mp kp =
     do { r \<leftarrow> find_live mp kp;
          Some (case r of None \<Rightarrow> 0 | Some i \<Rightarrow> sl_value (slot_of mp i)) }"

definition hashmap_contains :: "hashmap option \<Rightarrow> string option \<Rightarrow> bool ub" where
  "hashmap_contains mp kp = do { r \<leftarrow> find_live mp kp; Some (r \<noteq> None) }"

definition hashmap_remove :: "hashmap option \<Rightarrow> string option \<Rightarrow> (error_code \<times> hashmap option) ub" where
  "hashmap_remove mp kp =
     (case (mp, kp) of
        (Some m, Some key) \<Rightarrow>
          (case hm_slots m of
             None \<Rightarrow> Some (ERR_INVALID_ARG, mp)
           | Some ss \<Rightarrow> do {
               r \<leftarrow> find_live mp kp;
               case r of
                 None \<Rightarrow> Some (ERR_NOT_FOUND, mp)
               | Some i \<Rightarrow>
                   Some (ERR_OK,
                     Some (m\<lparr>hm_slots := Some (ss[unat i := (ss ! unat i)\<lparr>sl_dead := 1, sl_value := 0\<rparr>]),
                             hm_len := hm_len m - 1\<rparr>)) })
      | _ \<Rightarrow> Some (ERR_INVALID_ARG, mp))"

definition hashmap_len :: "hashmap option \<Rightarrow> size_t" where
  "hashmap_len mp = (case mp of None \<Rightarrow> 0 | Some m \<Rightarrow> hm_len m)"

text \<open>The iterator: the index to examine next, and the entry produced, if any.\<close>

function next_loop :: "slot list \<Rightarrow> size_t \<Rightarrow> size_t \<Rightarrow> ((string \<times> u64) option \<times> size_t) ub" where
  "next_loop ss cap i =
     (if i < cap then
        if length ss \<le> unat i then None
        else (case sl_key (ss ! unat i) of
                Some k \<Rightarrow> if sl_dead (ss ! unat i) = 0
                          then Some (Some (k, sl_value (ss ! unat i)), i + 1)
                          else next_loop ss cap (i + 1)
              | None \<Rightarrow> next_loop ss cap (i + 1))
      else Some (None, i))"
  by auto
termination
proof (relation "measure (\<lambda>(ss, cap, i). unat cap - unat i)")
  fix ss :: "slot list" and cap i :: size_t
  assume "i < cap"
  then have "unat i < unat cap" "unat (i + 1) = Suc (unat i)"
    using unat_le_SIZE_MAX [of cap] by (auto simp: word_less_unat intro!: unat_Suc_small)
  then show "((ss, cap, i + 1), (ss, cap, i)) \<in> measure (\<lambda>(ss, cap, i). unat cap - unat i)"
    and "((ss, cap, i + 1), (ss, cap, i)) \<in> measure (\<lambda>(ss, cap, i). unat cap - unat i)"
    by simp_all
qed simp

declare next_loop.simps [simp del]

definition hashmap_next ::
  "hashmap option \<Rightarrow> size_t option \<Rightarrow> ((string \<times> u64) option \<times> size_t option) ub" where
  "hashmap_next mp itp =
     (case (mp, itp) of
        (Some m, Some i) \<Rightarrow>
          (case hm_slots m of
             None \<Rightarrow> Some (None, itp)
           | Some ss \<Rightarrow> do { (r, j) \<leftarrow> next_loop ss (hm_cap m) i; Some (r, Some j) })
      | _ \<Rightarrow> Some (None, itp))"

section \<open>Tables\<close>

definition live :: "slot \<Rightarrow> bool" where
  "live s \<longleftrightarrow> sl_key s \<noteq> None \<and> sl_dead s = 0"

definition holds :: "slot \<Rightarrow> string \<Rightarrow> bool" where
  "holds s k \<longleftrightarrow> sl_key s = Some k \<and> sl_dead s = 0"

definition entries :: "slot list \<Rightarrow> (string \<times> u64) list" where
  "entries ss = map (\<lambda>s. (the (sl_key s), sl_value s)) (filter live ss)"

definition slots_map :: "slot list \<Rightarrow> string \<rightharpoonup> u64" where
  "slots_map ss = map_of (entries ss)"

text \<open>Slots that are not empty (live or tombstones).\<close>

definition occupied :: "slot list \<Rightarrow> nat" where
  "occupied ss = length (filter (\<lambda>s. sl_key s \<noteq> None) ss)"

text \<open>The \<open>j\<close>-th index the probe of \<open>k\<close> visits in a table of \<open>L\<close> slots.\<close>

definition pos :: "nat \<Rightarrow> string \<Rightarrow> nat \<Rightarrow> nat" where
  "pos L k j = (unat (hash_fnv1a_str (Some k)) + j) mod L"

definition reach :: "slot list \<Rightarrow> string \<Rightarrow> nat \<Rightarrow> bool" where
  "reach ss k i \<longleftrightarrow>
     (\<exists>j < length ss. pos (length ss) k j = i \<and> (\<forall>e < j. sl_key (ss ! pos (length ss) k e) \<noteq> None))"

definition table_ok :: "slot list \<Rightarrow> bool" where
  "table_ok ss \<longleftrightarrow>
     (\<exists>q < 60. length ss = 2 ^ q) \<and> distinct (map fst (entries ss)) \<and>
     (\<forall>i < length ss. \<forall>k. holds (ss ! i) k \<longrightarrow> reach ss k i)"

named_theorems table_simps \<open>entries and counts of an updated table\<close>

lemma holds_live: "holds s k \<Longrightarrow> live s"
  by (simp add: holds_def live_def)

lemma live_holds: "live s \<Longrightarrow> holds s (the (sl_key s))"
  by (auto simp: holds_def live_def)

lemma entries_append [table_simps]: "entries (xs @ ys) = entries xs @ entries ys"
  by (simp add: entries_def)

lemma entries_Cons [table_simps]:
  "entries (s # ss) = (if live s then [(the (sl_key s), sl_value s)] else []) @ entries ss"
  by (simp add: entries_def)

lemma entries_Nil [simp]: "entries [] = []"
  by (simp add: entries_def)

lemma entries_split:
  "t < length ss \<Longrightarrow> entries ss = entries (take t ss) @ entries [ss ! t] @ entries (drop (Suc t) ss)"
  by (metis append_Cons append_Nil entries_append id_take_nth_drop)

lemma entries_update:
  "t < length ss \<Longrightarrow>
   entries (ss[t := s]) = entries (take t ss) @ entries [s] @ entries (drop (Suc t) ss)"
  by (simp add: upd_conv_take_nth_drop table_simps)

lemma occupied_split:
  "t < length ss \<Longrightarrow> occupied ss = occupied (take t ss) + occupied [ss ! t] + occupied (drop (Suc t) ss)"
  using id_take_nth_drop [of t ss] unfolding occupied_def
  by (metis append_Cons append_Nil filter_append length_append add.assoc)

lemma occupied_update:
  "t < length ss \<Longrightarrow>
   occupied (ss[t := s]) = occupied (take t ss) + occupied [s] + occupied (drop (Suc t) ss)"
  by (simp add: upd_conv_take_nth_drop occupied_def)

lemma entries_nth: "i < length ss \<Longrightarrow> holds (ss ! i) k \<Longrightarrow> (k, sl_value (ss ! i)) \<in> set (entries ss)"
  by (force simp: entries_def holds_def live_def)

lemma entries_nthD: "(k, v) \<in> set (entries ss) \<Longrightarrow> \<exists>i < length ss. holds (ss ! i) k \<and> sl_value (ss ! i) = v"
  by (auto simp: entries_def holds_def live_def in_set_conv_nth)

lemma slots_map_holds:
  "distinct (map fst (entries ss)) \<Longrightarrow> i < length ss \<Longrightarrow> holds (ss ! i) k \<Longrightarrow>
   slots_map ss k = Some (sl_value (ss ! i))"
  by (simp add: slots_map_def entries_nth)

lemma slots_map_NoneD: "slots_map ss k = None \<Longrightarrow> i < length ss \<Longrightarrow> \<not> holds (ss ! i) k"
  unfolding slots_map_def map_of_eq_None_iff by (metis entries_nth fst_conv imageI)

lemma slots_map_SomeD:
  "slots_map ss k = Some v \<Longrightarrow> \<exists>i < length ss. holds (ss ! i) k \<and> sl_value (ss ! i) = v"
  unfolding slots_map_def by (blast dest: map_of_SomeD entries_nthD)

text \<open>Filling a free slot, overwriting a live one, and killing a live one.\<close>

lemma map_of_insert_middle:
  "k \<notin> fst ` set xs \<Longrightarrow> map_of (xs @ (k, v) # ys) = (map_of (xs @ ys))(k \<mapsto> v)"
  by (induction xs) auto

lemma entries_fill:
  assumes "t < length ss" and "\<not> live (ss ! t)" and "holds s k" and "slots_map ss k = None"
    and "distinct (map fst (entries ss))"
  shows "slots_map (ss[t := s]) = (slots_map ss)(k \<mapsto> sl_value s)"
    and "distinct (map fst (entries (ss[t := s])))"
    and "length (entries (ss[t := s])) = Suc (length (entries ss))"
proof -
  have old: "entries ss = entries (take t ss) @ entries (drop (Suc t) ss)"
    using entries_split [OF assms(1)] assms(2) by (simp add: entries_Cons)
  have new: "entries (ss[t := s]) = entries (take t ss) @ (k, sl_value s) # entries (drop (Suc t) ss)"
    using entries_update [OF assms(1), of s] assms(3) holds_live [OF assms(3)]
    by (simp add: entries_Cons holds_def)
  have nk: "k \<notin> fst ` set (entries ss)"
    using assms(4) by (simp add: slots_map_def map_of_eq_None_iff)
  then show "slots_map (ss[t := s]) = (slots_map ss)(k \<mapsto> sl_value s)"
    unfolding slots_map_def new by (subst map_of_insert_middle) (auto simp: old)
  show "distinct (map fst (entries (ss[t := s])))"
    using assms(5) nk unfolding new old by auto
  show "length (entries (ss[t := s])) = Suc (length (entries ss))"
    unfolding new old by simp
qed

lemma entries_at:
  assumes "t < length ss" and "holds (ss ! t) k" and "distinct (map fst (entries ss))"
  shows "entries ss = entries (take t ss) @ (k, sl_value (ss ! t)) # entries (drop (Suc t) ss)"
    and "k \<notin> fst ` set (entries (take t ss))" and "k \<notin> fst ` set (entries (drop (Suc t) ss))"
proof -
  show e: "entries ss = entries (take t ss) @ (k, sl_value (ss ! t)) # entries (drop (Suc t) ss)"
    using entries_split [OF assms(1)] assms(2) holds_live [OF assms(2)]
    by (simp add: entries_Cons holds_def)
  show "k \<notin> fst ` set (entries (take t ss))" and "k \<notin> fst ` set (entries (drop (Suc t) ss))"
    using assms(3) unfolding e by auto
qed

lemma entries_overwrite:
  assumes "t < length ss" and "holds (ss ! t) k" and "distinct (map fst (entries ss))"
  shows "slots_map (ss[t := (ss ! t)\<lparr>sl_value := v\<rparr>]) = (slots_map ss)(k \<mapsto> v)"
    and "map fst (entries (ss[t := (ss ! t)\<lparr>sl_value := v\<rparr>])) = map fst (entries ss)"
proof -
  have new: "entries (ss[t := (ss ! t)\<lparr>sl_value := v\<rparr>])
      = entries (take t ss) @ (k, v) # entries (drop (Suc t) ss)"
    using entries_update [OF assms(1)] assms(2) by (simp add: entries_Cons holds_def live_def)
  show "slots_map (ss[t := (ss ! t)\<lparr>sl_value := v\<rparr>]) = (slots_map ss)(k \<mapsto> v)"
    unfolding slots_map_def new entries_at(1) [OF assms]
    using entries_at(2) [OF assms] by (simp add: map_of_insert_middle del: map_of_append)
  show "map fst (entries (ss[t := (ss ! t)\<lparr>sl_value := v\<rparr>])) = map fst (entries ss)"
    unfolding new entries_at(1) [OF assms] by simp
qed

lemma entries_kill:
  assumes "t < length ss" and "holds (ss ! t) k" and "distinct (map fst (entries ss))"
    and "\<not> live s"
  shows "slots_map (ss[t := s]) = (slots_map ss)(k := None)"
    and "distinct (map fst (entries (ss[t := s])))"
    and "Suc (length (entries (ss[t := s]))) = length (entries ss)"
proof -
  have new: "entries (ss[t := s]) = entries (take t ss) @ entries (drop (Suc t) ss)"
    using entries_update [OF assms(1), of s] assms(4) by (simp add: entries_Cons)
  note old = entries_at [OF assms(1-3)]
  have "map_of (entries (take t ss) @ entries (drop (Suc t) ss)) k = None"
    using old(2,3) by (auto simp: map_of_eq_None_iff map_add_def split: option.splits)
  then show "slots_map (ss[t := s]) = (slots_map ss)(k := None)"
    unfolding slots_map_def new old(1) map_of_insert_middle [OF old(2)] by auto
  show "distinct (map fst (entries (ss[t := s])))"
    using assms(3) unfolding new by (subst (asm) old(1)) auto
  show "Suc (length (entries (ss[t := s]))) = length (entries ss)"
    using arg_cong [OF old(1), of length] unfolding new by simp
qed

section \<open>Probing\<close>

text \<open>On a power of two the mask is the remainder.\<close>

lemma unat_and_pow2:
  assumes "unat (cap :: size_t) = 2 ^ q" and "q < 60"
  shows "unat (x AND (cap - 1)) = unat x mod 2 ^ q"
proof -
  have "cap = 2 ^ q" using assms by (intro word_unat_eq_iff [THEN iffD2]) simp
  then have "cap - 1 = mask q" by (simp add: mask_eq_exp_minus_1)
  then have "x AND (cap - 1) = take_bit q x" by (simp add: take_bit_eq_mask)
  then have "unat (x AND (cap - 1)) = take_bit q (unat x)" by (metis unsigned_take_bit_eq)
  then show ?thesis by (simp only: take_bit_eq_mod)
qed

lemma probe_next_index:
  assumes "unat (cap :: size_t) = 2 ^ q" and "q < 60" and "unat i = pos (2 ^ q) k j"
  shows "unat ((i + 1) AND (cap - 1)) = pos (2 ^ q) k (Suc j)"
proof -
  have p: "(2 :: nat) ^ q < 2 ^ 60" using assms(2) by (intro power_strict_increasing) auto
  then have "unat i < 1152921504606846976"
    using assms(3) pos_def [of "2 ^ q" k j] by (simp add: order_less_trans [OF mod_less_divisor])
  then have "unat (i + 1) = Suc (unat i)" by (intro unat_Suc_small) simp
  then show ?thesis
    by (simp add: unat_and_pow2 [OF assms(1,2)] assms(3) pos_def mod_Suc_eq)
qed

lemma pos_less: "0 < L \<Longrightarrow> pos L k j < L"
  by (simp add: pos_def)

text \<open>
  The loop from the \<open>j\<close>-th visited slot: it reaches the live slot of the key if the slots
  before it are occupied, and otherwise stops at an empty slot with the first free one.
\<close>

lemma probe_loop_hit:
  assumes "length ss = 2 ^ q" and "unat cap = 2 ^ q" and "q < 60"
    and "unat i = pos (2 ^ q) k j" and "d < n"
    and "holds (ss ! pos (2 ^ q) k (j + d)) k"
    and "\<And>e. e < d \<Longrightarrow> sl_key (ss ! pos (2 ^ q) k (j + e)) \<noteq> None"
  shows "\<exists>t. probe_loop ss cap k n i ft = Some (Some t) \<and> unat t < length ss \<and> holds (ss ! unat t) k"
  using assms(4-)
proof (induction n arbitrary: i j d ft)
  case (Suc n)
  have i: "unat i < length ss" using Suc.prems(1) assms(1) pos_less [of "2 ^ q"] by simp
  show ?case
  proof (cases "holds (ss ! unat i) k")
    case True
    then show ?thesis using i by (auto simp: holds_def Let_def)
  next
    case False
    then have "d \<noteq> 0" using Suc.prems(1,3) by (cases d) auto
    then obtain d' where d: "d = Suc d'" by (cases d) auto
    note nxt = probe_next_index [OF assms(2,3) Suc.prems(1)]
    have step: "\<exists>t. probe_loop ss cap k n ((i + 1) AND (cap - 1)) ft' = Some (Some t) \<and>
        unat t < length ss \<and> holds (ss ! unat t) k" for ft'
      by (rule Suc.IH [OF nxt, of d']) (use Suc.prems(2,3) Suc.prems(4) [of "Suc e" for e] d in auto)
    obtain k' where "sl_key (ss ! unat i) = Some k'"
      using Suc.prems(4) [of 0] Suc.prems(1) d by auto
    then show ?thesis using i False step by (auto simp: holds_def Let_def)
  qed
qed simp

lemma probe_loop_miss:
  assumes "length ss = 2 ^ q" and "unat cap = 2 ^ q" and "q < 60"
    and "\<And>e. e < 2 ^ q \<Longrightarrow> \<not> holds (ss ! e) k"
    and "unat i = pos (2 ^ q) k j" and "d < n"
    and "sl_key (ss ! pos (2 ^ q) k (j + d)) = None"
  shows "\<exists>t. probe_loop ss cap k n i ft = Some (Some t) \<and>
     (case ft of Some u \<Rightarrow> t = u
      | None \<Rightarrow> (\<exists>e \<le> d. unat t = pos (2 ^ q) k (j + e) \<and> \<not> live (ss ! unat t) \<and>
                   (\<forall>e' < e. sl_key (ss ! pos (2 ^ q) k (j + e')) \<noteq> None)))"
  using assms(5-)
proof (induction n arbitrary: i j d ft)
  case (Suc n)
  have i: "unat i < length ss" using Suc.prems(1) assms(1) pos_less [of "2 ^ q"] by simp
  then have nh: "\<not> holds (ss ! unat i) k" using assms(1,4) by simp
  show ?case
  proof (cases "sl_key (ss ! unat i)")
    case None
    then have "\<not> live (ss ! unat i)" by (simp add: live_def)
    then show ?thesis using i None Suc.prems(1)
      by (auto simp: Let_def split: option.splits intro!: exI [of _ "0 :: nat"])
  next
    case (Some k')
    then have "d \<noteq> 0" using Suc.prems(1,3) by (cases d) auto
    then obtain d' where d: "d = Suc d'" by (cases d) auto
    note nxt = probe_next_index [OF assms(2,3) Suc.prems(1)]
    have step: "\<exists>t. probe_loop ss cap k n ((i + 1) AND (cap - 1)) ft' = Some (Some t) \<and>
      (case ft' of Some u \<Rightarrow> t = u
       | None \<Rightarrow> (\<exists>e \<le> d'. unat t = pos (2 ^ q) k (Suc j + e) \<and> \<not> live (ss ! unat t) \<and>
                   (\<forall>e' < e. sl_key (ss ! pos (2 ^ q) k (Suc j + e')) \<noteq> None)))" for ft'
      by (rule Suc.IH [OF nxt, of d']) (use Suc.prems(2,3) d in auto)
    show ?thesis
    proof (cases "ft = None \<and> sl_dead (ss ! unat i) = 0")
      case True
      have lift: "\<forall>e' < Suc e. sl_key (ss ! pos (2 ^ q) k (j + e')) \<noteq> None"
        if "\<forall>e' < e. sl_key (ss ! pos (2 ^ q) k (Suc j + e')) \<noteq> None" for e
        using that Some Suc.prems(1) by (auto simp: less_Suc_eq_0_disj)
      from step [of None] obtain t e where t: "probe_loop ss cap k n ((i + 1) AND (cap - 1)) None = Some (Some t)"
        and e: "e \<le> d'" "unat t = pos (2 ^ q) k (Suc j + e)" "\<not> live (ss ! unat t)"
          "\<forall>e' < e. sl_key (ss ! pos (2 ^ q) k (Suc j + e')) \<noteq> None" by auto
      have "\<exists>e \<le> d. unat t = pos (2 ^ q) k (j + e) \<and> \<not> live (ss ! unat t) \<and>
              (\<forall>e' < e. sl_key (ss ! pos (2 ^ q) k (j + e')) \<noteq> None)"
        using e lift [OF e(4)] d by (intro exI [of _ "Suc e"]) auto
      then show ?thesis using True t i Some nh by (auto simp: Let_def holds_def)
    next
      case False
      show ?thesis
      proof (cases ft)
        case (Some u)
        then show ?thesis using step [of "Some u"] i \<open>sl_key (ss ! unat i) = Some k'\<close> nh
          by (auto simp: Let_def holds_def)
      next
        case None
        then have "\<not> live (ss ! unat i)" using False by (simp add: live_def)
        then have "\<exists>e \<le> d. unat i = pos (2 ^ q) k (j + e) \<and> \<not> live (ss ! unat i) \<and>
              (\<forall>e' < e. sl_key (ss ! pos (2 ^ q) k (j + e')) \<noteq> None)"
          using Suc.prems(1) by (intro exI [of _ 0]) auto
        then show ?thesis using step [of "Some i"] i Some None False by (auto simp: Let_def)
      qed
    qed
  qed
qed simp

lemma pos_surj:
  assumes "i < L" shows "\<exists>d < L. pos L k d = i"
proof -
  let ?h = "unat (hash_fnv1a_str (Some k)) mod L"
  have h: "?h < L" using assms by simp
  have "pos L k ((i + (L - ?h)) mod L) = (?h + (i + (L - ?h))) mod L"
    by (simp add: pos_def mod_add_left_eq mod_add_right_eq)
  also have "?h + (i + (L - ?h)) = i + L" using h by linarith
  finally have "pos L k ((i + (L - ?h)) mod L) = i" using assms by simp
  moreover have "(i + (L - ?h)) mod L < L" using assms by simp
  ultimately show ?thesis by blast
qed

lemma empty_slot_exists:
  assumes "occupied ss < length ss" shows "\<exists>i < length ss. sl_key (ss ! i) = None"
proof (rule ccontr)
  assume "\<not> (\<exists>i < length ss. sl_key (ss ! i) = None)"
  then have "\<forall>s \<in> set ss. sl_key s \<noteq> None" by (auto simp: in_set_conv_nth)
  then have "filter (\<lambda>s. sl_key s \<noteq> None) ss = ss" by (rule filter_True)
  then show False using assms by (simp add: occupied_def)
qed

lemma probe_start:
  "unat cap = 2 ^ q \<Longrightarrow> q < 60 \<Longrightarrow>
   unat (hash_fnv1a_str (Some k) AND (cap - 1)) = pos (2 ^ q) k 0"
  by (simp add: unat_and_pow2 pos_def)

lemma probe_hit:
  assumes "table_ok ss" and "unat cap = length ss" and "i < length ss" and "holds (ss ! i) k"
  shows "\<exists>t. probe ss cap k = Some (Some t) \<and> unat t = i"
proof -
  obtain q where q: "q < 60" "length ss = 2 ^ q" using assms(1) by (auto simp: table_ok_def)
  obtain d where d: "d < length ss" "pos (2 ^ q) k d = i"
      "\<And>e. e < d \<Longrightarrow> sl_key (ss ! pos (2 ^ q) k e) \<noteq> None"
    using assms(1,3,4) q unfolding table_ok_def reach_def by metis
  have "\<exists>t. probe_loop ss cap k (unat cap) (hash_fnv1a_str (Some k) AND (cap - 1)) None = Some (Some t)
      \<and> unat t < length ss \<and> holds (ss ! unat t) k"
    by (rule probe_loop_hit [of ss q cap _ k 0 d]) (use d q assms probe_start in auto)
  then obtain t where t: "probe ss cap k = Some (Some t)" "unat t < length ss" "holds (ss ! unat t) k"
    by (auto simp: probe_def)
  have "unat t = i"
  proof (rule ccontr)
    assume ne: "unat t \<noteq> i"
    have "distinct (map fst (entries ss))" using assms(1) by (simp add: table_ok_def)
    then have out: "k \<notin> fst ` set (entries (take i ss))" "k \<notin> fst ` set (entries (drop (Suc i) ss))"
      using entries_at [OF assms(3,4)] by auto
    show False
    proof (cases "unat t < i")
      case True
      then have "take i ss ! unat t = ss ! unat t" by simp
      then have "(k, sl_value (ss ! unat t)) \<in> set (entries (take i ss))"
        using entries_nth [of "unat t" "take i ss" k] True t(2,3) by simp
      then show False using out(1) by force
    next
      case False
      define u where "u = unat t - Suc i"
      have u: "Suc i + u = unat t" using False ne u_def by simp
      then have "drop (Suc i) ss ! u = ss ! unat t" "u < length (drop (Suc i) ss)" using t(2) by auto
      then have "(k, sl_value (ss ! unat t)) \<in> set (entries (drop (Suc i) ss))"
        using entries_nth [of u "drop (Suc i) ss" k] t(3) by simp
      then show False using out(2) by force
    qed
  qed
  then show ?thesis using t by blast
qed

lemma probe_miss:
  assumes "table_ok ss" and "unat cap = length ss" and "occupied ss < length ss"
    and "slots_map ss k = None"
  shows "\<exists>t. probe ss cap k = Some (Some t) \<and> unat t < length ss \<and> \<not> live (ss ! unat t)
             \<and> reach ss k (unat t)"
proof -
  obtain q where q: "q < 60" "length ss = 2 ^ q" using assms(1) by (auto simp: table_ok_def)
  obtain i where i: "i < length ss" "sl_key (ss ! i) = None" using empty_slot_exists [OF assms(3)] by blast
  obtain d where d: "d < length ss" "pos (2 ^ q) k d = i" using pos_surj [OF i(1), of k] q(2) by auto
  have "\<exists>t. probe_loop ss cap k (unat cap) (hash_fnv1a_str (Some k) AND (cap - 1)) None = Some (Some t) \<and>
      (case None of Some u \<Rightarrow> t = u
       | None \<Rightarrow> (\<exists>e \<le> d. unat t = pos (2 ^ q) k (0 + e) \<and> \<not> live (ss ! unat t) \<and>
                   (\<forall>e' < e. sl_key (ss ! pos (2 ^ q) k (0 + e')) \<noteq> None)))"
    by (rule probe_loop_miss)
       (use d i q assms probe_start slots_map_NoneD [OF assms(4)] in auto)
  then obtain t e where t: "probe ss cap k = Some (Some t)" and e: "e \<le> d" "unat t = pos (2 ^ q) k e"
      "\<not> live (ss ! unat t)" "\<forall>e' < e. sl_key (ss ! pos (2 ^ q) k e') \<noteq> None"
    by (auto simp: probe_def)
  have "unat t < length ss" using e(2) q pos_less [of "2 ^ q" k e] by simp
  moreover have "reach ss k (unat t)"
    unfolding reach_def using e d(1) q(2) by (intro exI [of _ e]) simp
  ultimately show ?thesis using t e(3) by blast
qed

text \<open>What the three updates keep.\<close>

lemma reach_mono:
  assumes "reach ss k i" and "length ss' = length ss"
    and "\<And>j. j < length ss \<Longrightarrow> sl_key (ss ! j) \<noteq> None \<Longrightarrow> sl_key (ss' ! j) \<noteq> None"
  shows "reach ss' k i"
proof -
  obtain j where j: "j < length ss" "pos (length ss) k j = i"
      "\<forall>e < j. sl_key (ss ! pos (length ss) k e) \<noteq> None"
    using assms(1) by (auto simp: reach_def)
  have "pos (length ss) k e < length ss" for e by (rule pos_less) (use j(1) in linarith)
  then show ?thesis unfolding reach_def assms(2) using j assms(3) by blast
qed

lemma table_update:
  assumes "table_ok ss" and "t < length ss" and "sl_key s \<noteq> None"
    and "distinct (map fst (entries (ss[t := s])))"
    and "\<And>k. holds s k \<Longrightarrow> reach ss k t"
  shows "table_ok (ss[t := s])"
proof -
  have mono: "reach ss k i \<Longrightarrow> reach (ss[t := s]) k i" for k i
    by (erule reach_mono) (use assms(2,3) in \<open>auto simp: nth_list_update\<close>)
  show ?thesis
    using assms mono unfolding table_ok_def by (auto simp: nth_list_update)
qed

lemma occupied_fill:
  assumes "t < length ss" and "sl_key s \<noteq> None"
  shows "occupied (ss[t := s]) = (if sl_key (ss ! t) = None then Suc (occupied ss) else occupied ss)"
  using occupied_split [OF assms(1)] occupied_update [OF assms(1), of s] assms(2)
  by (auto simp: occupied_def)

section \<open>Rehashing\<close>

lemma rehash_loop_ok:
  assumes "table_ok fresh" and "unat cap = length fresh" and "\<And>s. s \<in> set fresh \<Longrightarrow> sl_dead s = 0"
    and "occupied fresh + length (entries ss) < length fresh"
    and "distinct (map fst (entries ss))"
    and "\<And>k. k \<in> fst ` set (entries ss) \<Longrightarrow> slots_map fresh k = None"
  shows "\<exists>f. rehash_loop ss cap fresh = Some f \<and> table_ok f \<and> length f = length fresh
             \<and> slots_map f = slots_map fresh ++ slots_map ss
             \<and> occupied f = occupied fresh + length (entries ss)
             \<and> length (entries f) = length (entries fresh) + length (entries ss)"
  using assms
proof (induction ss arbitrary: fresh)
  case Nil
  then show ?case by (simp add: slots_map_def)
next
  case (Cons s ss)
  show ?case
  proof (cases "live s")
    case False
    then have e: "entries (s # ss) = entries ss" by (simp add: entries_Cons)
    have "\<exists>f. rehash_loop ss cap fresh = Some f \<and> table_ok f \<and> length f = length fresh
             \<and> slots_map f = slots_map fresh ++ slots_map ss
             \<and> occupied f = occupied fresh + length (entries ss)
             \<and> length (entries f) = length (entries fresh) + length (entries ss)"
      using Cons.prems e by (intro Cons.IH) auto
    moreover have "rehash_loop (s # ss) cap fresh = rehash_loop ss cap fresh"
      using False by (auto simp: live_def split: option.splits)
    ultimately show ?thesis by (simp add: e slots_map_def)
  next
    case True
    then obtain k where k: "sl_key s = Some k" "sl_dead s = 0" by (auto simp: live_def)
    have e: "entries (s # ss) = (k, sl_value s) # entries ss" using True k by (simp add: entries_Cons)
    have none: "slots_map fresh k = None" using Cons.prems(6) e by simp
    obtain t where t: "probe fresh cap k = Some (Some t)" "unat t < length fresh"
        "\<not> live (fresh ! unat t)" "reach fresh k (unat t)"
      using probe_miss [OF Cons.prems(1,2) _ none] Cons.prems(4) by auto
    have nokey: "sl_key (fresh ! unat t) = None"
      using t(2,3) Cons.prems(3) [of "fresh ! unat t"] by (auto simp: live_def)
    have dead: "sl_dead (fresh ! unat t) = 0" using t(2) Cons.prems(3) [of "fresh ! unat t"] by simp
    define s' where "s' = (fresh ! unat t)\<lparr>sl_key := Some k, sl_value := sl_value s\<rparr>"
    define fresh' where "fresh' = fresh[unat t := s']"
    have s': "holds s' k" "sl_key s' = Some k" "sl_value s' = sl_value s" "sl_dead s' = 0"
      using dead by (auto simp: s'_def holds_def)
    have dist: "distinct (map fst (entries fresh))" using Cons.prems(1) by (simp add: table_ok_def)
    note fill = entries_fill [OF t(2,3) s'(1) none dist, folded fresh'_def]
    have ok': "table_ok fresh'"
      unfolding fresh'_def by (rule table_update [OF Cons.prems(1) t(2)])
        (use s' t(4) fill(2) in \<open>auto simp: holds_def fresh'_def\<close>)
    have occ: "occupied fresh' = Suc (occupied fresh)"
      unfolding fresh'_def using occupied_fill [OF t(2), of s'] s'(2) nokey by simp
    have len: "length fresh' = length fresh" by (simp add: fresh'_def)
    have "\<exists>f. rehash_loop ss cap fresh' = Some f \<and> table_ok f \<and> length f = length fresh'
             \<and> slots_map f = slots_map fresh' ++ slots_map ss
             \<and> occupied f = occupied fresh' + length (entries ss)
             \<and> length (entries f) = length (entries fresh') + length (entries ss)"
    proof (rule Cons.IH [OF ok'])
      show "unat cap = length fresh'" using Cons.prems(2) len by simp
      show "sl_dead x = 0" if "x \<in> set fresh'" for x
        using that Cons.prems(3) s'(4) set_update_subset_insert [of fresh "unat t" s']
        by (auto simp: fresh'_def)
      show "occupied fresh' + length (entries ss) < length fresh'" using occ len Cons.prems(4) e by simp
      show "distinct (map fst (entries ss))" using Cons.prems(5) e by simp
      show "slots_map fresh' j = None" if "j \<in> fst ` set (entries ss)" for j
        using that Cons.prems(5,6) e fill(1) by auto
    qed
    moreover have "rehash_loop (s # ss) cap fresh = rehash_loop ss cap fresh'"
      using k t(1,2) by (simp add: fresh'_def s'_def)
    moreover have "slots_map fresh' ++ slots_map ss = slots_map fresh ++ slots_map (s # ss)"
    proof -
      have "slots_map ss k = None"
        using Cons.prems(5) e by (simp add: slots_map_def map_of_eq_None_iff)
      moreover have "slots_map (s # ss) = (slots_map ss)(k \<mapsto> sl_value s)"
        by (simp add: slots_map_def e)
      ultimately show ?thesis by (auto simp: fill(1) s'(3) map_add_def fun_eq_iff split: option.splits)
    qed
    ultimately show ?thesis using occ len fill(3) e by simp
  qed
qed

lemma fresh_table:
  assumes "n = 2 ^ q" and "q < 60"
  shows "table_ok (replicate n empty_slot)" and "entries (replicate n empty_slot) = []"
    and "occupied (replicate n empty_slot) = 0" and "slots_map (replicate n empty_slot) = Map.empty"
proof -
  have nl: "\<not> live empty_slot" by (simp add: live_def empty_slot_def)
  show e: "entries (replicate n empty_slot) = []" by (simp add: entries_def nl)
  show "occupied (replicate n empty_slot) = 0" by (simp add: occupied_def empty_slot_def)
  show "slots_map (replicate n empty_slot) = Map.empty" by (simp add: slots_map_def e)
  have "\<not> holds empty_slot k" for k by (simp add: holds_def empty_slot_def)
  then show "table_ok (replicate n empty_slot)"
    unfolding table_ok_def e using assms by auto
qed

lemma entries_le_occupied: "length (entries ss) \<le> occupied ss"
  by (induction ss) (auto simp: entries_Cons occupied_def live_def)

section \<open>Invariant and operations\<close>

definition hm_inv :: "hashmap \<Rightarrow> bool" where
  "hm_inv m \<longleftrightarrow>
     (\<exists>ss. hm_slots m = Some ss \<and> length ss = unat (hm_cap m) \<and> table_ok ss
         \<and> unat (hm_len m) = length (entries ss) \<and> unat (hm_used m) = occupied ss
         \<and> occupied ss * 4 \<le> length ss * 3 \<and> 16 \<le> length ss \<and> length ss * 24 \<le> PTRDIFF_MAX)"

definition hm_map :: "hashmap \<Rightarrow> string \<rightharpoonup> u64" where
  "hm_map m = slots_map (the (hm_slots m))"

lemma hashmap_init_ok:
  "hashmap_init True (Some m0) = (e, Some m) \<Longrightarrow> e = ERR_OK \<and> hm_inv m \<and> hm_map m = Map.empty"
  using fresh_table [of 16 4]
  by (auto simp: hashmap_init_def calloc_slots_def hm_inv_def hm_map_def)

lemma hm_invE:
  assumes "hm_inv m"
  obtains ss where "hm_slots m = Some ss" "length ss = unat (hm_cap m)" "table_ok ss"
    "unat (hm_len m) = length (entries ss)" "unat (hm_used m) = occupied ss"
    "occupied ss * 4 \<le> length ss * 3" "16 \<le> length ss" "length ss * 24 \<le> PTRDIFF_MAX"
    "distinct (map fst (entries ss))" "occupied ss < length ss" "hm_map m = slots_map ss"
    "hm_map m k = None \<or> (\<exists>i < length ss. holds (ss ! i) k \<and> hm_map m k = Some (sl_value (ss ! i)))"
proof -
  obtain ss where ss: "hm_slots m = Some ss" "length ss = unat (hm_cap m)" "table_ok ss"
    "unat (hm_len m) = length (entries ss)" "unat (hm_used m) = occupied ss"
    "occupied ss * 4 \<le> length ss * 3" "16 \<le> length ss" "length ss * 24 \<le> PTRDIFF_MAX"
    using assms by (auto simp: hm_inv_def)
  have mp: "hm_map m = slots_map ss" by (simp add: hm_map_def ss(1))
  have "hm_map m k = None \<or> (\<exists>i < length ss. holds (ss ! i) k \<and> hm_map m k = Some (sl_value (ss ! i)))"
    unfolding mp using slots_map_SomeD [of ss k] by (cases "slots_map ss k") auto
  moreover have "distinct (map fst (entries ss))" using ss(3) by (simp add: table_ok_def)
  moreover have "occupied ss < length ss" using ss(6,7) by linarith
  ultimately show ?thesis using that ss mp by metis
qed

text \<open>Finding a key.\<close>

lemma find_live_spec:
  assumes "hm_inv m"
  shows "\<exists>r. find_live (Some m) (Some k) = Some r
     \<and> (case r of None \<Rightarrow> hm_map m k = None
         | Some i \<Rightarrow> unat i < unat (hm_cap m) \<and> holds (slot_of (Some m) i) k
                     \<and> hm_map m k = Some (sl_value (slot_of (Some m) i)))"
  using assms
proof (rule hm_invE [where k = k])
  fix ss
  assume ss: "hm_slots m = Some ss" "length ss = unat (hm_cap m)" "table_ok ss"
    "occupied ss < length ss" "hm_map m = slots_map ss"
    and c: "hm_map m k = None \<or> (\<exists>i < length ss. holds (ss ! i) k \<and> hm_map m k = Some (sl_value (ss ! i)))"
  show ?thesis
  proof (cases "hm_map m k = None")
    case True
    then obtain t where t: "probe ss (hm_cap m) k = Some (Some t)" "unat t < length ss" "\<not> live (ss ! unat t)"
      using probe_miss [OF ss(3) _ ss(4), of "hm_cap m" k] ss(2,5) by auto
    then have "find_live (Some m) (Some k) = Some None"
      using ss(1) by (auto simp: find_live_def live_def)
    then show ?thesis using True by simp
  next
    case False
    then obtain i where i: "i < length ss" "holds (ss ! i) k" "hm_map m k = Some (sl_value (ss ! i))"
      using c by auto
    then obtain t where t: "probe ss (hm_cap m) k = Some (Some t)" "unat t = i"
      using probe_hit [OF ss(3) _ i(1,2), of "hm_cap m"] ss(2) by auto
    then have "find_live (Some m) (Some k) = Some (Some t)"
      using ss(1) i(1,2) by (auto simp: find_live_def holds_def)
    then show ?thesis using t(2) i ss(1,2) by (simp add: slot_of_def)
  qed
qed

lemma hashmap_get_spec:
  assumes "hm_inv m"
  shows "hashmap_get (Some m) (Some k) = Some (case hm_map m k of None \<Rightarrow> 0 | Some v \<Rightarrow> v)"
  using find_live_spec [OF assms, of k] by (auto simp: hashmap_get_def split: option.splits)

lemma hashmap_contains_spec:
  assumes "hm_inv m"
  shows "hashmap_contains (Some m) (Some k) = Some (hm_map m k \<noteq> None)"
  using find_live_spec [OF assms, of k] by (auto simp: hashmap_contains_def split: option.splits)

lemma hashmap_remove_spec:
  assumes "hm_inv m"
  shows "\<exists>m'. hashmap_remove (Some m) (Some k) =
            Some (if hm_map m k = None then ERR_NOT_FOUND else ERR_OK, Some m')
          \<and> hm_inv m' \<and> hm_map m' = (hm_map m)(k := None)
          \<and> (hm_map m k = None \<longrightarrow> m' = m)"
  using assms
proof (rule hm_invE [where k = k])
  fix ss
  assume ss: "hm_slots m = Some ss" "length ss = unat (hm_cap m)" "table_ok ss"
    "unat (hm_len m) = length (entries ss)" "unat (hm_used m) = occupied ss"
    "occupied ss * 4 \<le> length ss * 3" "16 \<le> length ss" "length ss * 24 \<le> PTRDIFF_MAX"
    "distinct (map fst (entries ss))" "hm_map m = slots_map ss"
  obtain r where r: "find_live (Some m) (Some k) = Some r"
    and rs: "case r of None \<Rightarrow> hm_map m k = None
         | Some i \<Rightarrow> unat i < unat (hm_cap m) \<and> holds (slot_of (Some m) i) k
                     \<and> hm_map m k = Some (sl_value (slot_of (Some m) i))"
    using find_live_spec [OF assms] by blast
  show ?thesis
  proof (cases r)
    case None
    then show ?thesis using r rs ss(1) assms by (auto simp: hashmap_remove_def fun_upd_idem)
  next
    case (Some i)
    define s where "s = (ss ! unat i)\<lparr>sl_dead := 1, sl_value := 0\<rparr>"
    have i: "unat i < length ss" "holds (ss ! unat i) k" "hm_map m k \<noteq> None"
      using rs Some ss(1,2) by (auto simp: slot_of_def)
    have s: "\<not> live s" "\<And>k. \<not> holds s k" "sl_key s \<noteq> None"
      using i(2) by (auto simp: s_def live_def holds_def)
    note kill = entries_kill [OF i(1,2) ss(9) s(1)]
    have occ: "occupied (ss[unat i := s]) = occupied ss"
      using occupied_fill [OF i(1) s(3)] i(2) by (simp add: holds_def)
    have tab: "table_ok (ss[unat i := s])"
      by (rule table_update [OF ss(3) i(1) s(3) kill(2)]) (use s(2) in auto)
    have "hm_len m \<noteq> 0" using kill(3) ss(4) by auto
    then have len: "unat (hm_len m - 1) = length (entries (ss[unat i := s]))"
      using kill(3) ss(4) by (simp add: unat_minus_one)
    let ?m = "m\<lparr>hm_slots := Some (ss[unat i := s]), hm_len := hm_len m - 1\<rparr>"
    have "hm_inv ?m" unfolding hm_inv_def using ss tab occ len by simp
    moreover have "hm_map ?m = (hm_map m)(k := None)" using kill(1) ss(10) by (simp add: hm_map_def)
    moreover have "hashmap_remove (Some m) (Some k) = Some (ERR_OK, Some ?m)"
      using r Some ss(1) by (simp add: hashmap_remove_def s_def)
    ultimately show ?thesis using i(3) by auto
  qed
qed

text \<open>
  \<open>put_slot\<close> once there is room: the bound on the load is the hypothesis that the resize
  established.
\<close>

lemma put_slot_spec:
  assumes "hm_inv m" and "(unat (hm_used m) + 1) * 4 \<le> unat (hm_cap m) * 3"
  shows "\<exists>e m'. put_slot ok m k v = Some (e, m') \<and> hm_inv m'
          \<and> (e = ERR_OK \<and> hm_map m' = (hm_map m)(k \<mapsto> v)
             \<or> e = ERR_NOMEM \<and> \<not> ok \<and> m' = m)"
  using assms(1)
proof (rule hm_invE [where k = k])
  fix ss
  assume ss: "hm_slots m = Some ss" "length ss = unat (hm_cap m)" "table_ok ss"
    "unat (hm_len m) = length (entries ss)" "unat (hm_used m) = occupied ss"
    "occupied ss * 4 \<le> length ss * 3" "16 \<le> length ss" "length ss * 24 \<le> PTRDIFF_MAX"
    "distinct (map fst (entries ss))" "occupied ss < length ss" "hm_map m = slots_map ss"
    and c: "hm_map m k = None \<or> (\<exists>i < length ss. holds (ss ! i) k \<and> hm_map m k = Some (sl_value (ss ! i)))"
  show ?thesis
  proof (cases "hm_map m k = None")
    case False
    then obtain i where i: "i < length ss" "holds (ss ! i) k" using c by auto
    then obtain t where t: "probe ss (hm_cap m) k = Some (Some t)" "unat t = i"
      using probe_hit [OF ss(3) _ i] ss(2) by auto
    define s where "s = (ss ! i)\<lparr>sl_value := v\<rparr>"
    have s: "sl_key s \<noteq> None" "\<And>j. holds s j \<Longrightarrow> j = k" using i(2) by (auto simp: s_def holds_def)
    note ow = entries_overwrite [OF i ss(9), of v, folded s_def]
    have rk: "reach ss k i" using ss(3) i by (simp add: table_ok_def)
    have tab: "table_ok (ss[i := s])"
      by (rule table_update [OF ss(3) i(1) s(1)]) (use ow(2) ss(9) s(2) rk in auto)
    have occ: "occupied (ss[i := s]) = occupied ss"
      using occupied_fill [OF i(1) s(1)] i(2) by (simp add: holds_def)
    have len: "length (entries (ss[i := s])) = length (entries ss)"
      using arg_cong [OF ow(2), of length] by simp
    let ?m = "m\<lparr>hm_slots := Some (ss[i := s])\<rparr>"
    have "hm_inv ?m" unfolding hm_inv_def using ss tab occ len by simp
    moreover have "hm_map ?m = (hm_map m)(k \<mapsto> v)" using ow(1) ss(11) by (simp add: hm_map_def)
    moreover have "put_slot ok m k v = Some (ERR_OK, ?m)"
      using t i ss(1) by (simp add: put_slot_def s_def holds_def)
    ultimately show ?thesis by blast
  next
    case True
    then have none: "slots_map ss k = None" using ss(11) by simp
    obtain t where t: "probe ss (hm_cap m) k = Some (Some t)" "unat t < length ss"
        "\<not> live (ss ! unat t)" "reach ss k (unat t)"
      using probe_miss [OF ss(3) _ ss(10) none] ss(2) by auto
    show ?thesis
    proof (cases ok)
      case False
      then have "put_slot ok m k v = Some (ERR_NOMEM, m)"
        using t(1-3) ss(1) by (auto simp: put_slot_def live_def Let_def)
      then show ?thesis using assms(1) False by blast
    next
      case True
      define s where "s = \<lparr>sl_key = Some k, sl_value = v, sl_dead = 0\<rparr>"
      have s: "holds s k" "sl_key s \<noteq> None" "\<And>j. holds s j \<Longrightarrow> j = k" "sl_value s = v"
        by (auto simp: s_def holds_def)
      note fill = entries_fill [OF t(2,3) s(1) none ss(9)]
      have tab: "table_ok (ss[unat t := s])"
        by (rule table_update [OF ss(3) t(2) s(2) fill(2)]) (use s(3) t(4) in auto)
      have occ: "occupied (ss[unat t := s])
          = (if sl_key (ss ! unat t) = None then Suc (occupied ss) else occupied ss)"
        by (rule occupied_fill [OF t(2) s(2)])
      have small: "occupied ss < 18446744073709551615" "length (entries ss) < 18446744073709551615"
        using entries_le_occupied [of ss] ss(8,10) by linarith+
      have l: "unat (hm_len m + 1) = Suc (length (entries ss))"
        and u: "unat (hm_used m + 1) = Suc (occupied ss)"
        using small ss(4,5) by (simp_all add: unat_Suc_small)
      let ?m = "m\<lparr>hm_slots := Some (ss[unat t := s]),
                 hm_used := (if sl_key (ss ! unat t) = None then hm_used m + 1 else hm_used m),
                 hm_len := hm_len m + 1\<rparr>"
      have "hm_inv ?m" unfolding hm_inv_def
        using ss tab occ fill(3) l u assms(2) by (auto simp: unat_Suc_small)
      moreover have "hm_map ?m = (hm_map m)(k \<mapsto> v)" using fill(1) ss(11) s(4) by (simp add: hm_map_def)
      moreover have "put_slot ok m k v = Some (ERR_OK, ?m)"
        using t(1-3) ss(1) True by (auto simp: put_slot_def s_def live_def Let_def)
      ultimately show ?thesis by blast
    qed
  qed
qed

lemma rehash_spec:
  assumes "hm_inv m" and "hm_slots m = Some ss"
  shows "\<exists>e m'. rehash ok m ss (hm_cap m * 2) = Some (e, m') \<and> hm_inv m'
          \<and> hm_map m' = hm_map m
          \<and> (e = ERR_OK \<and> (unat (hm_used m') + 1) * 4 \<le> unat (hm_cap m') * 3
             \<or> e = ERR_NOMEM \<and> m' = m \<and> (ok \<longrightarrow> PTRDIFF_MAX < unat (hm_cap m) * 48))"
  using assms(1)
proof (rule hm_invE [where k = "[]"])
  fix ss'
  assume ss': "hm_slots m = Some ss'" "length ss' = unat (hm_cap m)" "table_ok ss'"
    "unat (hm_len m) = length (entries ss')" "unat (hm_used m) = occupied ss'"
    "occupied ss' * 4 \<le> length ss' * 3" "16 \<le> length ss'" "length ss' * 24 \<le> PTRDIFF_MAX"
    "distinct (map fst (entries ss'))" "occupied ss' < length ss'" "hm_map m = slots_map ss'"
  then have ss: "ss' = ss" using assms(2) by simp
  note ss' = ss' [unfolded ss]
  obtain q where q: "q < 60" "length ss = 2 ^ q" using ss'(3) by (auto simp: table_ok_def)
  have dbl: "unat (hm_cap m * 2) = 2 * length ss"
    using ss'(2,8) by (subst unat_mult_small) (simp_all add: mult.commute)
  show ?thesis
  proof (cases "ok \<and> unat (hm_cap m * 2) * 24 \<le> PTRDIFF_MAX")
    case False
    then have "calloc_slots ok (hm_cap m * 2) = None" by (simp add: calloc_slots_def)
    then have "rehash ok m ss (hm_cap m * 2) = Some (ERR_NOMEM, m)"
      unfolding rehash_def by simp
    then show ?thesis using False dbl ss'(2) assms(1) by auto
  next
    case True
    let ?n = "2 * length ss"
    have q': "?n = 2 ^ Suc q" "Suc q < 60"
    proof -
      show "?n = 2 ^ Suc q" using q(2) by simp
      have "2 ^ Suc q * 24 \<le> PTRDIFF_MAX" using True dbl q(2) by simp
      then have "(2 :: nat) ^ Suc q < 2 ^ 60" by simp
      then show "Suc q < 60" by (rule power_less_imp_less_exp [rotated]) simp
    qed
    note fresh = fresh_table [OF q']
    have "\<exists>f. rehash_loop ss (hm_cap m * 2) (replicate ?n empty_slot) = Some f \<and> table_ok f
             \<and> length f = length (replicate ?n empty_slot)
             \<and> slots_map f = slots_map (replicate ?n empty_slot) ++ slots_map ss
             \<and> occupied f = occupied (replicate ?n empty_slot) + length (entries ss)
             \<and> length (entries f) = length (entries (replicate ?n empty_slot)) + length (entries ss)"
    proof (rule rehash_loop_ok [OF fresh(1)])
      show "occupied (replicate ?n empty_slot) + length (entries ss) < length (replicate ?n empty_slot)"
        using fresh(3) entries_le_occupied [of ss] ss'(10) by simp
    qed (use dbl fresh(4) ss'(9) in \<open>auto simp: empty_slot_def\<close>)
    then obtain f where f: "rehash_loop ss (hm_cap m * 2) (replicate ?n empty_slot) = Some f"
        "table_ok f" "length f = ?n" "slots_map f = slots_map ss" "occupied f = length (entries ss)"
        "length (entries f) = length (entries ss)"
      using fresh by auto
    let ?m = "m\<lparr>hm_slots := Some f, hm_cap := hm_cap m * 2, hm_used := hm_len m\<rparr>"
    have load: "(length (entries ss) + 1) * 4 \<le> ?n * 3"
      using entries_le_occupied [of ss] ss'(6,7) by simp
    have "hm_inv ?m" unfolding hm_inv_def
      using f dbl ss'(4,7) True load by auto
    moreover have "hm_map ?m = hm_map m" using f(4) ss'(11) by (simp add: hm_map_def)
    moreover have "rehash ok m ss (hm_cap m * 2) = Some (ERR_OK, ?m)"
    proof -
      have "calloc_slots ok (hm_cap m * 2) = Some (replicate ?n empty_slot)"
        using True dbl by (simp add: calloc_slots_def)
      then show ?thesis unfolding rehash_def using f(1) ss'(2) by simp
    qed
    moreover have "(unat (hm_used ?m) + 1) * 4 \<le> unat (hm_cap ?m) * 3"
      using load ss'(4) dbl by simp
    ultimately show ?thesis by blast
  qed
qed

lemma hashmap_put_spec:
  assumes "hm_inv m"
  shows "\<exists>e m'. hashmap_put ok1 ok2 (Some m) (Some k) v = Some (e, Some m') \<and> hm_inv m'
          \<and> (e = ERR_OK \<and> hm_map m' = (hm_map m)(k \<mapsto> v)
             \<or> e = ERR_NOMEM \<and> hm_map m' = hm_map m
               \<and> (ok1 \<and> ok2 \<longrightarrow> PTRDIFF_MAX < unat (hm_cap m) * 48))"
  using assms
proof (rule hm_invE [where k = k])
  fix ss
  assume ss: "hm_slots m = Some ss" "length ss = unat (hm_cap m)"
    "unat (hm_used m) = occupied ss" "occupied ss < length ss" "length ss * 24 \<le> PTRDIFF_MAX"
  have n1: "\<not> hm_used m > SIZE_MAX div 4 - 1" and n2: "\<not> hm_cap m > SIZE_MAX div 2"
    using ss by (simp_all add: word_less_unat)
  have u1: "unat (hm_used m + 1) = occupied ss + 1"
    using ss(3-5) by (simp add: unat_Suc_small)
  have u4: "unat ((hm_used m + 1) * 4) = (occupied ss + 1) * 4"
    using ss(4,5) by (subst unat_mult_small) (simp_all add: u1)
  have c3: "unat (hm_cap m * 3) = unat (hm_cap m) * 3"
    using ss(2,5) by (subst unat_mult_small) simp_all
  show ?thesis
  proof (cases "(hm_used m + 1) * 4 > hm_cap m * 3")
    case False
    then have room: "(unat (hm_used m) + 1) * 4 \<le> unat (hm_cap m) * 3"
      using u4 c3 ss(3) by (simp add: word_less_unat)
    from put_slot_spec [OF assms room, of ok2 k v]
    obtain e m' where "put_slot ok2 m k v = Some (e, m')" "hm_inv m'"
        "e = ERR_OK \<and> hm_map m' = (hm_map m)(k \<mapsto> v) \<or> e = ERR_NOMEM \<and> \<not> ok2 \<and> m' = m" by blast
    then show ?thesis using False ss(1) n1 by (auto simp: hashmap_put_def simp del: not_less)
  next
    case True
    from rehash_spec [OF assms ss(1), of ok1]
    obtain e m1 where m1: "rehash ok1 m ss (hm_cap m * 2) = Some (e, m1)" "hm_inv m1"
        "hm_map m1 = hm_map m"
        "e = ERR_OK \<and> (unat (hm_used m1) + 1) * 4 \<le> unat (hm_cap m1) * 3
         \<or> e = ERR_NOMEM \<and> m1 = m \<and> (ok1 \<longrightarrow> PTRDIFF_MAX < unat (hm_cap m) * 48)" by blast
    show ?thesis
    proof (cases "e = ERR_OK")
      case False
      then show ?thesis using m1 True ss(1) n1 n2 by (auto simp: hashmap_put_def simp del: not_less)
    next
      case e: True
      then have room: "(unat (hm_used m1) + 1) * 4 \<le> unat (hm_cap m1) * 3" using m1(4) by auto
      from put_slot_spec [OF m1(2) room, of ok2 k v]
      obtain e' m' where "put_slot ok2 m1 k v = Some (e', m')" "hm_inv m'"
          "e' = ERR_OK \<and> hm_map m' = (hm_map m1)(k \<mapsto> v) \<or> e' = ERR_NOMEM \<and> \<not> ok2 \<and> m' = m1" by blast
      then show ?thesis using True ss(1) n1 n2 m1(1,3) e
        by (auto simp: hashmap_put_def simp del: not_less)
    qed
  qed
qed

text \<open>How fast a table grows: after \<open>n\<close> operations it has at most \<open>16 + 4 * n\<close> slots.\<close>

definition hm_within :: "nat \<Rightarrow> hashmap \<Rightarrow> bool" where
  "hm_within n m \<longleftrightarrow> unat (hm_used m) \<le> n \<and> unat (hm_cap m) \<le> 16 + 4 * n"

lemma put_slot_shape:
  "put_slot ok m k v = Some (e, m') \<Longrightarrow>
   hm_cap m' = hm_cap m \<and> (hm_used m' = hm_used m \<or> hm_used m' = hm_used m + 1)"
  by (auto simp: put_slot_def Let_def bind_eq_Some_conv split: if_splits)

lemma rehash_shape:
  "rehash ok m ss c = Some (e, m') \<Longrightarrow>
   e = ERR_NOMEM \<and> m' = m \<or> e = ERR_OK \<and> hm_cap m' = c \<and> hm_used m' = hm_len m"
  by (auto simp: rehash_def bind_eq_Some_conv split: option.splits if_splits)

lemma put_slot_within:
  assumes "put_slot ok m k v = Some (e, m')" and "unat (hm_used m) \<le> n" and "unat (hm_cap m) \<le> 20 + 4 * n"
  shows "hm_within (Suc n) m'"
proof -
  have "unat (hm_used m + 1) \<le> Suc (unat (hm_used m))" by (simp add: unat_plus_if') linarith
  then have "unat (hm_used m') \<le> Suc n" using put_slot_shape [OF assms(1)] assms(2) by auto
  then show ?thesis using put_slot_shape [OF assms(1)] assms(3) by (simp add: hm_within_def)
qed

lemma hashmap_put_within:
  assumes "hm_inv m" and "hashmap_put ok1 ok2 (Some m) (Some k) v = Some (e, Some m')" and "hm_within n m"
  shows "hm_within (Suc n) m'"
  using assms(1)
proof (rule hm_invE)
  fix ss
  assume ss: "hm_slots m = Some ss" "length ss = unat (hm_cap m)"
    "unat (hm_used m) = occupied ss" "occupied ss < length ss" "length ss * 24 \<le> PTRDIFF_MAX"
    "unat (hm_len m) = length (entries ss)"
  have w: "unat (hm_used m) \<le> n" "unat (hm_cap m) \<le> 16 + 4 * n" using assms(3) by (auto simp: hm_within_def)
  have stay: "hm_within (Suc n) m" using w by (simp add: hm_within_def)
  show ?thesis
  proof (cases "(hm_used m + 1) * 4 > hm_cap m * 3")
    case False
    then have "hashmap_put ok1 ok2 (Some m) (Some k) v = Some (e, Some m') \<Longrightarrow>
        m' = m \<or> put_slot ok2 m k v = Some (e, m')"
      using ss(1) by (auto simp: hashmap_put_def bind_eq_Some_conv split: if_splits)
    then show ?thesis using put_slot_within [of ok2 m k v e m' n] w stay assms(2) by auto
  next
    case True
    have u4: "unat ((hm_used m + 1) * 4) = (occupied ss + 1) * 4"
      using ss(3-5) by (subst unat_mult_small) (simp_all add: unat_Suc_small)
    have c3: "unat (hm_cap m * 3) = unat (hm_cap m) * 3"
      using ss(2,5) by (subst unat_mult_small) simp_all
    have big: "unat (hm_cap m) * 3 < (occupied ss + 1) * 4" using True u4 c3 by (simp add: word_less_unat)
    have dbl: "unat (hm_cap m * 2) = 2 * unat (hm_cap m)"
      using ss(2,5) by (subst unat_mult_small) (simp_all add: mult.commute)
    show ?thesis
    proof (cases "m' = m")
      case False
      then obtain e1 m1 where r: "rehash ok1 m ss (hm_cap m * 2) = Some (e1, m1)"
          and o: "e1 \<noteq> ERR_OK \<and> m' = m1 \<or> e1 = ERR_OK \<and> put_slot ok2 m1 k v = Some (e, m')"
        using assms(2) True ss(1)
        by (auto simp: hashmap_put_def bind_eq_Some_conv split: if_splits)
      have "e1 = ERR_OK" using rehash_shape [OF r] o False by auto
      then have m1: "hm_cap m1 = hm_cap m * 2" "hm_used m1 = hm_len m" and p: "put_slot ok2 m1 k v = Some (e, m')"
        using rehash_shape [OF r] o by auto
      show ?thesis
      proof (rule put_slot_within [OF p])
        show "unat (hm_used m1) \<le> n" using m1(2) ss(3,6) w(1) entries_le_occupied [of ss] by simp
        show "unat (hm_cap m1) \<le> 20 + 4 * n" using m1(1) dbl big w(1) ss(3) by simp
      qed
    qed (use stay in simp)
  qed
qed

lemma hashmap_put_room:
  assumes "hm_inv m" and "hm_within n m" and "n < 2 ^ 50"
    and "hashmap_put True True (Some m) (Some k) v = Some (e, Some m')"
  shows "e = ERR_OK"
  using hashmap_put_spec [OF assms(1), of True True k v] assms(2-) by (auto simp: hm_within_def)

lemma hm_len_card:
  assumes "hm_inv m" shows "unat (hm_len m) = card (dom (hm_map m))"
proof -
  obtain ss where ss: "hm_slots m = Some ss" "unat (hm_len m) = length (entries ss)"
      "distinct (map fst (entries ss))" using assms by (auto simp: hm_inv_def table_ok_def)
  have "dom (hm_map m) = set (map fst (entries ss))"
    by (simp add: hm_map_def ss(1) slots_map_def dom_map_of_conv_image_fst)
  then show ?thesis using ss(2,3) distinct_card [OF ss(3)] by simp
qed

section \<open>Iteration\<close>

lemma next_loop_spec:
  assumes "length ss = unat cap" and "unat i \<le> unat cap"
  shows "\<exists>r j. next_loop ss cap i = Some (r, j) \<and> unat j \<le> unat cap
     \<and> entries (drop (unat i) ss) = (case r of None \<Rightarrow> [] | Some e \<Rightarrow> e # entries (drop (unat j) ss))"
  using assms
proof (induction ss cap i rule: next_loop.induct)
  case (1 ss cap i)
  show ?case
  proof (cases "i < cap")
    case False
    then have "unat i = unat cap" using 1(4) by (simp add: word_less_unat)
    then show ?thesis using False 1(3) by (simp add: next_loop.simps [of ss cap i])
  next
    case True
    then have lt: "unat i < length ss" using 1(3) by (simp add: word_less_unat)
    have s: "unat (i + 1) = Suc (unat i)"
      using lt 1(3) unat_le_SIZE_MAX [of cap] by (intro unat_Suc_small) simp
    have e: "entries (drop (unat i) ss)
        = (if live (ss ! unat i) then [(the (sl_key (ss ! unat i)), sl_value (ss ! unat i))] else [])
          @ entries (drop (Suc (unat i)) ss)"
      using lt by (simp add: entries_Cons flip: Cons_nth_drop_Suc)
    show ?thesis
    proof (cases "live (ss ! unat i)")
      case l: True
      then show ?thesis using True lt s e 1(3)
        by (auto simp: next_loop.simps [of ss cap i] live_def split: option.splits)
    next
      case l: False
      have "next_loop ss cap i = next_loop ss cap (i + 1)"
        using True lt l by (auto simp: next_loop.simps [of ss cap i] live_def split: option.splits)
      moreover have "\<exists>r j. next_loop ss cap (i + 1) = Some (r, j) \<and> unat j \<le> unat cap
         \<and> entries (drop (unat (i + 1)) ss) = (case r of None \<Rightarrow> [] | Some e \<Rightarrow> e # entries (drop (unat j) ss))"
      proof (cases "sl_key (ss ! unat i)")
        case None
        show ?thesis by (rule 1(1)) (use True lt None s 1(3) in auto)
      next
        case (Some k)
        show ?thesis by (rule 1(2)) (use True lt Some l s 1(3) in \<open>auto simp: live_def\<close>)
      qed
      ultimately show ?thesis using e l s by simp
    qed
  qed
qed

text \<open>Calling \<open>hashmap_next\<close> until it returns false, at most \<open>n\<close> times.\<close>

primrec iterate :: "nat \<Rightarrow> hashmap \<Rightarrow> size_t \<Rightarrow> (string \<times> u64) list ub" where
  "iterate 0 m i = None"
| "iterate (Suc n) m i =
     do { (r, it) \<leftarrow> hashmap_next (Some m) (Some i);
          case r of None \<Rightarrow> Some [] | Some e \<Rightarrow> map_option ((#) e) (iterate n m (the it)) }"

lemma iterate_entries:
  assumes "hm_slots m = Some ss" and "length ss = unat (hm_cap m)" and "unat i \<le> unat (hm_cap m)"
    and "length (entries (drop (unat i) ss)) < n"
  shows "iterate n m i = Some (entries (drop (unat i) ss))"
  using assms(3,4)
proof (induction n arbitrary: i)
  case (Suc n)
  obtain r j where rj: "next_loop ss (hm_cap m) i = Some (r, j)" "unat j \<le> unat (hm_cap m)"
      "entries (drop (unat i) ss) = (case r of None \<Rightarrow> [] | Some e \<Rightarrow> e # entries (drop (unat j) ss))"
    using next_loop_spec [OF assms(2) Suc.prems(1)] by blast
  show ?case
    using Suc.IH [OF rj(2)] Suc.prems(2) rj assms(1)
    by (auto simp: hashmap_next_def split: option.splits)
qed simp

section \<open>The map interface\<close>

text \<open>The operations at an existing map, as the interface takes them.\<close>

definition hm_put :: "bool \<Rightarrow> bool \<Rightarrow> string \<Rightarrow> u64 \<Rightarrow> hashmap \<Rightarrow> (error_code \<times> hashmap) ub" where
  "hm_put a b k v m = map_option (apsnd the) (hashmap_put a b (Some m) (Some k) v)"

definition hm_get :: "string \<Rightarrow> hashmap \<Rightarrow> u64 ub" where
  "hm_get k m = hashmap_get (Some m) (Some k)"

definition hm_contains :: "string \<Rightarrow> hashmap \<Rightarrow> bool ub" where
  "hm_contains k m = hashmap_contains (Some m) (Some k)"

definition hm_remove :: "string \<Rightarrow> hashmap \<Rightarrow> (error_code \<times> hashmap) ub" where
  "hm_remove k m = map_option (apsnd the) (hashmap_remove (Some m) (Some k))"

lemma hashmap_remove_within:
  assumes "hashmap_remove (Some m) (Some k) = Some (e, Some m')" and "hm_within n m"
  shows "hm_within n m'"
  using assms
  by (auto simp: hashmap_remove_def hm_within_def bind_eq_Some_conv split: option.splits)

interpretation hm: string_map hm_inv hm_map hm_within "2 ^ 50" hm_put hm_get hm_contains hm_remove
proof (unfold_locales, goal_cases)
  case (1 s n a b k v)
  obtain e t where t: "hashmap_put a b (Some s) (Some k) v = Some (e, Some t)" "hm_inv t"
    and et: "e = ERR_OK \<and> hm_map t = (hm_map s)(k \<mapsto> v) \<or> e = ERR_NOMEM \<and> hm_map t = hm_map s"
    using hashmap_put_spec [OF 1(1), of a b k v] by blast
  have "a \<and> b \<Longrightarrow> e = ERR_OK" using hashmap_put_room [OF 1(1,2,3)] t(1) by simp
  then have "e = ERR_OK \<and> hm_map t = (hm_map s)(k \<mapsto> v)
      \<or> e = ERR_NOMEM \<and> hm_map t = hm_map s \<and> \<not> (a \<and> b)" using et by auto
  then show ?case
    using t hashmap_put_within [OF 1(1) t(1) 1(2)] by (simp add: hm_put_def)
next
  case (2 s k)
  then show ?case by (simp add: hm_get_def hashmap_get_spec)
next
  case (3 s k)
  then show ?case by (simp add: hm_contains_def hashmap_contains_spec)
next
  case (4 s n k)
  from hashmap_remove_spec [OF 4(1), of k] obtain t
    where "hashmap_remove (Some s) (Some k)
             = Some (if hm_map s k = None then ERR_NOT_FOUND else ERR_OK, Some t)"
      "hm_inv t" "hm_map t = (hm_map s)(k := None)" by blast
  then show ?case using hashmap_remove_within 4(2) by (auto simp: hm_remove_def)
next
  case (5 n s)
  then show ?case by (simp add: hm_within_def)
qed

section \<open>Properties\<close>

text \<open>
  C1. A map fresh from \<open>hashmap_init\<close> answers every sequence of (up to \<open>2 ^ 50\<close>) insertions,
  lookups, membership tests and removals exactly as a finite map does, through growth,
  rehashing and tombstones, and never dereferences \<open>NULL\<close> or leaves its table. An insertion
  fails only with \<open>ERR_NOMEM\<close>, only when an allocation failed, and then changes nothing. The
  length is the number of keys.
\<close>

theorem hashmap_refines_map:
  assumes "hashmap_init True (Some m0) = (ERR_OK, Some m)" and "length ops \<le> 2 ^ 50"
  shows "\<exists>replies m'. map_run hm_put hm_get hm_contains hm_remove ops m = Some (replies, m')
       \<and> map_spec_run ops replies Map.empty = Some (hm_map m')
       \<and> hm_inv m' \<and> unat (hashmap_len (Some m')) = card (dom (hm_map m'))"
proof -
  have m: "hm_inv m" "hm_map m = Map.empty" using hashmap_init_ok [OF assms(1)] by auto
  have "hm_within 0 m" using assms(1) by (auto simp: hashmap_init_def calloc_slots_def hm_within_def)
  from hm.run_refines [OF m(1) this, of ops] assms(2) m(2) show ?thesis
    by (auto simp: hashmap_len_def dest: hm_len_card)
qed

definition hm_example :: hashmap where
  "hm_example = \<lparr>hm_slots = Some (replicate 16 empty_slot), hm_cap = 16, hm_len = 0, hm_used = 0\<rparr>"

theorem hashmap_refines_map_witness:
  "\<exists>replies m'. map_run hm_put hm_get hm_contains hm_remove
       [MPut True True ''a'' 1, MPut True False ''b'' 2, MRemove ''a'', MGet ''a''] hm_example = Some (replies, m')
     \<and> map_spec_run [MPut True True ''a'' 1, MPut True False ''b'' 2, MRemove ''a'', MGet ''a'']
           replies Map.empty = Some (hm_map m')
     \<and> hm_inv m' \<and> unat (hashmap_len (Some m')) = card (dom (hm_map m'))"
  by (rule hashmap_refines_map [of hm_example])
     (simp_all add: hashmap_init_def calloc_slots_def hm_example_def)

text \<open>
  Iterating a well-formed map from a zeroed iterator ends within \<open>cap + 1\<close> calls and
  yields every entry exactly once: the keys are distinct, they are the keys of the map, and
  each comes with its value.
\<close>

theorem hashmap_iteration_complete:
  assumes "hm_inv m"
  shows "\<exists>es. iterate (unat (hm_cap m) + 1) m 0 = Some es \<and> distinct (map fst es)
            \<and> map_of es = hm_map m \<and> length es = unat (hm_len m)"
proof -
  obtain ss where ss: "hm_slots m = Some ss" "length ss = unat (hm_cap m)" "table_ok ss"
      "unat (hm_len m) = length (entries ss)"
    using assms by (auto simp: hm_inv_def)
  have "length (entries ss) \<le> length ss" by (simp add: entries_def)
  then have "iterate (unat (hm_cap m) + 1) m 0 = Some (entries ss)"
    using iterate_entries [OF ss(1,2), of 0] ss(2) by (simp del: iterate.simps)
  then show ?thesis using ss by (auto simp: table_ok_def hm_map_def slots_map_def)
qed

theorem hashmap_iteration_complete_witness:
  "\<exists>es. iterate (unat (hm_cap hm_example) + 1) hm_example 0 = Some es \<and> distinct (map fst es)
      \<and> map_of es = hm_map hm_example \<and> length es = unat (hm_len hm_example)"
  by (rule hashmap_iteration_complete)
     (use hashmap_init_ok [of hm_example] in \<open>simp add: hashmap_init_def calloc_slots_def hm_example_def\<close>)

text \<open>
  \<open>rehash\<close> never compacts in place: a table whose occupied slots are all tombstones is
  doubled as well, so churn alone makes the map grow.
\<close>

lemma hashmap_churn_grows:
  "\<exists>m m'. hm_inv m \<and> hm_len m = 0 \<and> hm_cap m = 16 \<and> rehash True m (the (hm_slots m)) (hm_cap m * 2) = Some (ERR_OK, m')
        \<and> hm_cap m' = 32 \<and> hm_used m + 1 = 13"
proof -
  let ?dead = "\<lparr>sl_key = Some [], sl_value = 0, sl_dead = 1\<rparr>"
  let ?ss = "replicate 12 ?dead @ replicate 4 empty_slot"
  let ?m = "\<lparr>hm_slots = Some ?ss, hm_cap = 16, hm_len = 0, hm_used = 12\<rparr>"
  have nl: "\<not> live ?dead" "\<not> live empty_slot" by (simp_all add: live_def empty_slot_def)
  have e: "entries ?ss = []" using nl by (simp add: entries_def)
  have o: "occupied ?ss = 12" by (simp add: occupied_def empty_slot_def)
  have "\<not> holds s k" if "s \<in> set ?ss" for s k using that by (auto simp: holds_def empty_slot_def)
  then have "table_ok ?ss" unfolding table_ok_def e by (auto intro!: exI [of _ 4] simp del: set_append)
  then have inv: "hm_inv ?m" unfolding hm_inv_def using e o by simp
  from rehash_spec [OF inv, of ?ss True]
  obtain e m' where "rehash True ?m ?ss (hm_cap ?m * 2) = Some (e, m')" "e = ERR_OK" by auto
  then show ?thesis using inv rehash_shape [of True ?m ?ss "hm_cap ?m * 2" e m']
    by (intro exI [of _ ?m] exI [of _ m']) auto
qed

end
