(* ===== verification/Allocator.thy ===== *)
theory Allocator
  imports Core
begin

text \<open>
  The pluggable allocator of \<open>include/memory/allocator.h\<close>: a table of function pointers and
  the state their context points to. A \<open>NULL\<close> function pointer is \<open>None\<close>. What a container
  may rely on is the locale \<open>heap_allocator\<close>, the documented contract of \<open>realloc\<close>; the
  table over the C library (\<open>src/memory/allocator.c\<close>) satisfies it.
\<close>

section \<open>The table\<close>

record 'c allocator =
  al_alloc :: "('c \<Rightarrow> size_t \<Rightarrow> block option \<times> 'c) option"
  al_realloc :: "('c \<Rightarrow> block option \<Rightarrow> size_t \<Rightarrow> block option \<times> 'c) option"
  al_free :: "('c \<Rightarrow> block option \<Rightarrow> 'c) option"

text \<open>The C library: its state is the list of the answers it will still give.\<close>

type_synonym answers = "bool list"

fun libc_alloc :: "answers \<Rightarrow> size_t \<Rightarrow> block option \<times> answers" where
  "libc_alloc [] n = (None, [])"
| "libc_alloc (ok # oks) n = (malloc ok n, oks)"

fun libc_realloc :: "answers \<Rightarrow> block option \<Rightarrow> size_t \<Rightarrow> block option \<times> answers" where
  "libc_realloc [] p n = (None, [])"
| "libc_realloc (ok # oks) p n = (realloc ok p n, oks)"

definition libc_free :: "answers \<Rightarrow> block option \<Rightarrow> answers" where
  "libc_free c p = c"

definition allocator_libc :: "answers allocator" where
  "allocator_libc =
     \<lparr>al_alloc = Some libc_alloc, al_realloc = Some libc_realloc, al_free = Some libc_free\<rparr>"

section \<open>The contract\<close>

locale heap_allocator =
  fixes al :: "'c allocator"
  assumes has_realloc: "al_realloc al \<noteq> None"
    and has_free: "al_free al \<noteq> None"
    and realloc_size: "al_realloc al = Some f \<Longrightarrow> f c p n = (Some d, c') \<Longrightarrow>
          length d = unat n \<and> unat n \<le> PTRDIFF_MAX"
    and realloc_keeps: "al_realloc al = Some f \<Longrightarrow> f c (Some d) n = (Some d', c') \<Longrightarrow>
          k \<le> length d \<Longrightarrow> k \<le> unat n \<Longrightarrow> take k d' = take k d"

lemma libc_realloc_SomeD:
  "libc_realloc c p n = (Some d, c') \<Longrightarrow> \<exists>ok. realloc ok p n = Some d"
  by (cases c) auto

interpretation libc: heap_allocator allocator_libc
proof (unfold_locales, goal_cases)
  case (3 f c p n d c')
  then show ?case by (auto simp: allocator_libc_def dest!: libc_realloc_SomeD dest: realloc_SomeD)
next
  case (4 f c d n d' c' k)
  then show ?case by (auto simp: allocator_libc_def dest!: libc_realloc_SomeD intro: realloc_prefix)
qed (simp_all add: allocator_libc_def)

end
