(* ===== verification/VecArray.thy ===== *)
theory VecArray
  imports Allocator
begin

text \<open>
  The growable array of \<open>src/containers/vec.c\<close>: elements of \<open>elem_size\<close> bytes stored by value
  in one block that doubles, from whatever allocator the client passed. Against any allocator
  that keeps the contract of \<open>heap_allocator\<close> the operations implement a list.
\<close>

section \<open>State and operations\<close>

record 'c vec =
  vc_data :: "block option"
  vc_len :: size_t
  vc_cap :: size_t
  vc_elem_size :: size_t
  vc_alloc :: "'c allocator option"

text \<open>\<open>NULL\<close> means the C library (the argument \<open>heap\<close>); a table without its pointers is refused.\<close>

definition vec_heap :: "'c allocator \<Rightarrow> 'c allocator option \<Rightarrow> 'c allocator option" where
  "vec_heap heap alloc =
     (case alloc of
        None \<Rightarrow> Some heap
      | Some a \<Rightarrow> if al_realloc a = None \<or> al_free a = None then None else Some a)"

definition vec_init_a ::
  "'c allocator \<Rightarrow> 'c vec option \<Rightarrow> size_t \<Rightarrow> 'c allocator option \<Rightarrow> error_code \<times> 'c vec option" where
  "vec_init_a heap vp elem_size alloc =
     (case vp of
        None \<Rightarrow> (ERR_INVALID_ARG, None)
      | Some v \<Rightarrow>
          if elem_size = 0 then (ERR_INVALID_ARG, Some v)
          else (case vec_heap heap alloc of
                  None \<Rightarrow> (ERR_INVALID_ARG, Some v)
                | Some a \<Rightarrow> (ERR_OK, Some \<lparr>vc_data = None, vc_len = 0, vc_cap = 0,
                                          vc_elem_size = elem_size, vc_alloc = Some a\<rparr>)))"

definition vec_init :: "answers vec option \<Rightarrow> size_t \<Rightarrow> error_code \<times> answers vec option" where
  "vec_init vp elem_size = vec_init_a allocator_libc vp elem_size (Some allocator_libc)"

text \<open>\<open>destroy\<close> hands the block to the allocator; with no \<open>free\<close> it goes to the C library.\<close>

definition vec_destroy :: "'c \<Rightarrow> 'c vec option \<Rightarrow> 'c vec option \<times> 'c" where
  "vec_destroy c vp =
     (case vp of
        None \<Rightarrow> (None, c)
      | Some v \<Rightarrow>
          (Some \<lparr>vc_data = None, vc_len = 0, vc_cap = 0, vc_elem_size = 0, vc_alloc = None\<rparr>,
           if vc_data v = None then c
           else (case Option.bind (vc_alloc v) al_free of
                   Some f \<Rightarrow> f c (vc_data v) | None \<Rightarrow> c)))"

definition vec_reserve ::
  "'c \<Rightarrow> 'c vec option \<Rightarrow> size_t \<Rightarrow> error_code \<times> 'c vec option \<times> 'c" where
  "vec_reserve c vp cap =
     (case vp of
        None \<Rightarrow> (ERR_INVALID_ARG, vp, c)
      | Some v \<Rightarrow>
          (case Option.bind (vc_alloc v) al_realloc of
             None \<Rightarrow> (ERR_INVALID_ARG, vp, c)
           | Some f \<Rightarrow>
               if vc_elem_size v = 0 then (ERR_INVALID_ARG, vp, c)
               else if cap \<le> vc_cap v then (ERR_OK, vp, c)
               else if cap > SIZE_MAX div vc_elem_size v then (ERR_OVERFLOW, vp, c)
               else (case f c (vc_data v) (cap * vc_elem_size v) of
                       (None, c') \<Rightarrow> (ERR_NOMEM, vp, c')
                     | (Some d, c') \<Rightarrow> (ERR_OK, Some (v\<lparr>vc_data := Some d, vc_cap := cap\<rparr>), c'))))"

text \<open>The copy and the increment at the end of \<open>push\<close>.\<close>

definition vec_append :: "'c vec \<Rightarrow> block \<Rightarrow> 'c vec ub" where
  "vec_append v e =
     do { d \<leftarrow> vc_data v;
          src \<leftarrow> load 0 (unat (vc_elem_size v)) e;
          d' \<leftarrow> store (unat (vc_len v * vc_elem_size v)) src d;
          Some (v\<lparr>vc_data := Some d', vc_len := vc_len v + 1\<rparr>) }"

definition vec_push ::
  "'c \<Rightarrow> 'c vec option \<Rightarrow> block option \<Rightarrow> (error_code \<times> 'c vec option \<times> 'c) ub" where
  "vec_push c vp elem =
     (case (vp, elem) of
        (Some v, Some e) \<Rightarrow>
          if vc_elem_size v = 0 then Some (ERR_INVALID_ARG, vp, c)
          else if vc_len v = vc_cap v then
            (let new_cap = (if vc_cap v = 0 then 8 else vc_cap v * 2) in
             if new_cap \<le> vc_cap v then Some (ERR_OVERFLOW, vp, c)
             else (case vec_reserve c vp new_cap of
                     (err, vp', c') \<Rightarrow>
                       if err \<noteq> ERR_OK then Some (err, vp', c')
                       else do { v' \<leftarrow> vp'; w \<leftarrow> vec_append v' e; Some (ERR_OK, Some w, c') }))
          else do { w \<leftarrow> vec_append v e; Some (ERR_OK, Some w, c) }
      | _ \<Rightarrow> Some (ERR_INVALID_ARG, vp, c))"

definition vec_pop :: "'c vec option \<Rightarrow> bool \<Rightarrow> (error_code \<times> block option \<times> 'c vec option) ub" where
  "vec_pop vp want =
     (case vp of
        None \<Rightarrow> Some (ERR_INVALID_ARG, None, vp)
      | Some v \<Rightarrow>
          (case vc_data v of
             None \<Rightarrow> Some (ERR_INVALID_ARG, None, vp)
           | Some d \<Rightarrow>
               if vc_len v = 0 then Some (ERR_NOT_FOUND, None, vp)
               else (let n = vc_len v - 1; v' = v\<lparr>vc_len := n\<rparr> in
                 if want then do {
                   e \<leftarrow> load (unat (n * vc_elem_size v)) (unat (vc_elem_size v)) d;
                   Some (ERR_OK, Some e, Some v') }
                 else Some (ERR_OK, None, Some v'))))"

text \<open>\<open>vec_at\<close> returns the offset of the element in the block, \<open>None\<close> for \<open>NULL\<close>.\<close>

definition vec_at :: "'c vec option \<Rightarrow> size_t \<Rightarrow> size_t option" where
  "vec_at vp i =
     (case vp of
        None \<Rightarrow> None
      | Some v \<Rightarrow> if vc_data v = None \<or> i \<ge> vc_len v then None else Some (i * vc_elem_size v))"

definition vec_clear :: "'c vec option \<Rightarrow> 'c vec option" where
  "vec_clear vp = map_option (\<lambda>v. v\<lparr>vc_len := 0\<rparr>) vp"

section \<open>Invariant and abstraction\<close>

definition vec_inv :: "'c allocator \<Rightarrow> 'c vec \<Rightarrow> bool" where
  "vec_inv al v \<longleftrightarrow>
     vc_alloc v = Some al \<and> 0 < unat (vc_elem_size v) \<and> unat (vc_len v) \<le> unat (vc_cap v) \<and>
     (case vc_data v of
        None \<Rightarrow> vc_cap v = 0
      | Some d \<Rightarrow> vc_cap v \<noteq> 0 \<and> length d = unat (vc_cap v) * unat (vc_elem_size v)
                \<and> unat (vc_cap v) * unat (vc_elem_size v) \<le> PTRDIFF_MAX)"

definition vec_block :: "'c vec \<Rightarrow> block" where
  "vec_block v = (case vc_data v of None \<Rightarrow> [] | Some d \<Rightarrow> d)"

definition vec_view :: "'c vec \<Rightarrow> block list" where
  "vec_view v = elems (unat (vc_elem_size v)) (unat (vc_len v)) (vec_block v)"

lemma length_vec_view [simp]: "length (vec_view v) = unat (vc_len v)"
  by (simp add: vec_view_def)

lemma vec_inv_block:
  assumes "vec_inv al v"
  shows "length (vec_block v) = unat (vc_cap v) * unat (vc_elem_size v)"
    and "unat (vc_cap v) * unat (vc_elem_size v) \<le> PTRDIFF_MAX" and "0 < unat (vc_elem_size v)"
    and "unat (vc_len v) \<le> unat (vc_cap v)" and "unat (vc_cap v) \<le> PTRDIFF_MAX"
proof -
  show l: "length (vec_block v) = unat (vc_cap v) * unat (vc_elem_size v)"
    and b: "unat (vc_cap v) * unat (vc_elem_size v) \<le> PTRDIFF_MAX" and e: "0 < unat (vc_elem_size v)"
    and "unat (vc_len v) \<le> unat (vc_cap v)"
    using assms by (auto simp: vec_inv_def vec_block_def split: option.splits)
  show "unat (vc_cap v) \<le> PTRDIFF_MAX" using b e by (rule factor_le)
qed

lemma vec_offset:
  assumes "vec_inv al v" and "unat i \<le> unat (vc_cap v)"
  shows "unat (i * vc_elem_size v) = unat i * unat (vc_elem_size v)"
proof (rule unat_mult_small)
  have "unat i * unat (vc_elem_size v) \<le> unat (vc_cap v) * unat (vc_elem_size v)"
    using assms(2) by (rule mult_le_mono1)
  then show "unat i * unat (vc_elem_size v) < 18446744073709551616"
    using vec_inv_block(2) [OF assms(1)] by linarith
qed

lemma vec_append_spec:
  assumes "vec_inv al v" and "unat (vc_len v) < unat (vc_cap v)" and "length e = unat (vc_elem_size v)"
  shows "\<exists>w. vec_append v e = Some w \<and> vec_inv al w \<and> vec_view w = vec_view v @ [e]
             \<and> vc_elem_size w = vc_elem_size v"
proof -
  note b = vec_inv_block [OF assms(1)]
  have "vc_cap v \<noteq> 0" using assms(2) by auto
  then obtain d where d: "vc_data v = Some d" "length d = unat (vc_cap v) * unat (vc_elem_size v)"
    using assms(1) by (auto simp: vec_inv_def split: option.splits)
  let ?es = "unat (vc_elem_size v)" and ?n = "unat (vc_len v)"
  obtain d' where d': "store (?n * ?es) e d = Some d'" "length d' = length d"
      "elems ?es (unat (vc_cap v)) d' = (elems ?es (unat (vc_cap v)) d)[?n := e]"
    using store_elem [OF assms(2), of ?es d e] d(2) assms(3) by auto
  have off: "unat (vc_len v * vc_elem_size v) = ?n * ?es"
    by (rule vec_offset [OF assms(1)]) (use b in simp)
  have len: "unat (vc_len v + 1) = Suc ?n"
    using assms(2) b(5) by (simp add: unat_Suc_small)
  let ?w = "v\<lparr>vc_data := Some d', vc_len := vc_len v + 1\<rparr>"
  have "vec_append v e = Some ?w"
    using d(1) d'(1) off assms(3) by (simp add: vec_append_def load_whole)
  moreover have "vec_inv al ?w"
    using assms(1,2) d d'(2) len by (auto simp: vec_inv_def)
  moreover have "vec_view ?w = vec_view v @ [e]"
  proof -
    have "elems ?es (Suc ?n) d' = take (Suc ?n) (elems ?es (unat (vc_cap v)) d')"
      using assms(2) by (simp add: elems_take)
    also have "\<dots> = take ?n (elems ?es (unat (vc_cap v)) d) @ [e]"
      unfolding d'(3) using assms(2) by (simp add: take_Suc_conv_app_nth)
    also have "take ?n (elems ?es (unat (vc_cap v)) d) = elems ?es ?n d"
      using assms(2) by (simp add: elems_take)
    finally show ?thesis using d(1) len by (simp add: vec_view_def vec_block_def)
  qed
  ultimately show ?thesis by simp
qed

lemma vec_pop_spec:
  assumes "vec_inv al v"
  shows "vec_view v = [] \<Longrightarrow> \<exists>c. vec_pop (Some v) want = Some (c, None, Some v)
           \<and> c = (if vc_data v = None then ERR_INVALID_ARG else ERR_NOT_FOUND)"
    and "vec_view v \<noteq> [] \<Longrightarrow>
           \<exists>w. vec_pop (Some v) True = Some (ERR_OK, Some (last (vec_view v)), Some w)
             \<and> vec_inv al w \<and> vec_view w = butlast (vec_view v) \<and> vc_elem_size w = vc_elem_size v"
proof -
  show "vec_view v = [] \<Longrightarrow> \<exists>c. vec_pop (Some v) want = Some (c, None, Some v)
           \<and> c = (if vc_data v = None then ERR_INVALID_ARG else ERR_NOT_FOUND)"
    by (auto simp: vec_pop_def unat_eq_0 simp flip: length_0_conv split: option.splits)
  assume ne: "vec_view v \<noteq> []"
  note b = vec_inv_block [OF assms]
  have nz: "vc_len v \<noteq> 0" using ne by (auto simp flip: length_0_conv)
  then obtain m where m: "unat (vc_len v) = Suc m" by (metis not0_implies_Suc unat_eq_0)
  have n: "unat (vc_len v - 1) = m" using nz m by (simp add: unat_minus_one)
  obtain d where d: "vc_data v = Some d" "length d = unat (vc_cap v) * unat (vc_elem_size v)"
    using assms m by (auto simp: vec_inv_def split: option.splits)
  let ?es = "unat (vc_elem_size v)"
  let ?w = "v\<lparr>vc_len := vc_len v - 1\<rparr>"
  have off: "unat ((vc_len v - 1) * vc_elem_size v) = m * ?es"
    using vec_offset [OF assms, of "vc_len v - 1"] n m b(4) by simp
  have v: "vec_view v = elems ?es (Suc m) d" by (simp add: vec_view_def vec_block_def d(1) m)
  have w: "vec_view ?w = elems ?es m d" by (simp add: vec_view_def vec_block_def d(1) n)
  have "Suc m * ?es \<le> length d" using m b(4) d(2) by (metis mult_le_mono1)
  then have "load (m * ?es) ?es d = Some (elems ?es (Suc m) d ! m)" by (intro load_elem) auto
  moreover have "elems ?es (Suc m) d ! m = last (vec_view v)"
    using v by (simp add: last_conv_nth flip: length_0_conv)
  ultimately have "vec_pop (Some v) True = Some (ERR_OK, Some (last (vec_view v)), Some ?w)"
    using d(1) nz off by (simp add: vec_pop_def Let_def)
  moreover have "vec_inv al ?w" using assms n m by (auto simp: vec_inv_def split: option.splits)
  moreover have "vec_view ?w = butlast (vec_view v)"
    using v w elems_take [of m "Suc m" ?es d] by (simp add: butlast_conv_take)
  ultimately show "\<exists>w. vec_pop (Some v) True = Some (ERR_OK, Some (last (vec_view v)), Some w)
             \<and> vec_inv al w \<and> vec_view w = butlast (vec_view v) \<and> vc_elem_size w = vc_elem_size v"
    by auto
qed

lemma vec_at_spec:
  assumes "vec_inv al v"
  shows "case vec_at (Some v) i of
           None \<Rightarrow> length (vec_view v) \<le> unat i
         | Some off \<Rightarrow> unat i < length (vec_view v)
             \<and> load (unat off) (unat (vc_elem_size v)) (vec_block v) = Some (vec_view v ! unat i)"
proof (cases "vec_at (Some v) i")
  case None
  then show ?thesis using assms
    by (auto simp: vec_at_def vec_inv_def word_le_unat split: if_splits)
next
  case (Some off)
  then have i: "unat i < unat (vc_len v)" and off: "off = i * vc_elem_size v"
    by (auto simp: vec_at_def not_le word_less_unat split: if_splits)
  note b = vec_inv_block [OF assms]
  have "unat off = unat i * unat (vc_elem_size v)"
    unfolding off by (rule vec_offset [OF assms]) (use i b(4) in simp)
  moreover have "unat (vc_len v) * unat (vc_elem_size v) \<le> length (vec_block v)"
    using b(1,4) by (metis mult_le_mono1)
  ultimately show ?thesis using i Some by (simp add: vec_view_def load_elem)
qed

section \<open>Growth, against the allocator's contract\<close>

text \<open>
  Runs of operations, and what a list with a capacity answers to them. Room for \<open>n\<close> elements, when there is less, is refused with
  \<open>ERR_OVERFLOW\<close> exactly when its size in bytes is not a 64-bit number; otherwise the allocator may refuse, and
  then the answer is \<open>ERR_NOMEM\<close>.
\<close>

datatype vec_op = VPush block | VPop | VAt size_t | VReserve size_t | VClear

datatype vec_reply = VCode error_code | VPopped error_code "block option" | VElem "block option" | VDone

definition vec_grow_spec :: "nat \<Rightarrow> nat \<Rightarrow> error_code \<Rightarrow> nat \<Rightarrow> nat option" where
  "vec_grow_spec es n c cap =
     (if n \<le> cap then (if c = ERR_OK then Some cap else None)
      else if 2 ^ 64 \<le> n * es then (if c = ERR_OVERFLOW then Some cap else None)
      else if c = ERR_NOMEM then Some cap
      else if c = ERR_OK \<and> n * es \<le> PTRDIFF_MAX then Some n
      else None)"

fun vec_spec :: "nat \<Rightarrow> vec_op \<Rightarrow> vec_reply \<Rightarrow> block list \<times> nat \<Rightarrow> (block list \<times> nat) option" where
  "vec_spec es (VPush e) (VCode c) (xs, cap) =
     do { cap' \<leftarrow> vec_grow_spec es (if length xs < cap then cap else if cap = 0 then 8 else 2 * cap) c cap;
          Some (if c = ERR_OK then xs @ [e] else xs, cap') }"
| "vec_spec es VPop (VPopped c r) (xs, cap) =
     (if xs = []
      then (if r = None \<and> c = (if cap = 0 then ERR_INVALID_ARG else ERR_NOT_FOUND) then Some (xs, cap) else None)
      else (if c = ERR_OK \<and> r = Some (last xs) then Some (butlast xs, cap) else None))"
| "vec_spec es (VAt i) (VElem r) (xs, cap) =
     (if r = (if unat i < length xs then Some (xs ! unat i) else None) then Some (xs, cap) else None)"
| "vec_spec es (VReserve n) (VCode c) (xs, cap) = do { cap' \<leftarrow> vec_grow_spec es (unat n) c cap; Some (xs, cap') }"
| "vec_spec es VClear VDone (xs, cap) = Some ([], cap)"
| "vec_spec es _ _ s = None"

fun vec_spec_run ::
  "nat \<Rightarrow> vec_op list \<Rightarrow> vec_reply list \<Rightarrow> block list \<times> nat \<Rightarrow> (block list \<times> nat) option" where
  "vec_spec_run es [] [] s = Some s"
| "vec_spec_run es (x # ops) (r # rs) s = do { t \<leftarrow> vec_spec es x r s; vec_spec_run es ops rs t }"
| "vec_spec_run es _ _ s = None"

definition vec_abs :: "'c vec \<Rightarrow> block list \<times> nat" where
  "vec_abs v = (vec_view v, unat (vc_cap v))"

fun vec_step :: "vec_op \<Rightarrow> 'c \<Rightarrow> 'c vec \<Rightarrow> (vec_reply \<times> 'c \<times> 'c vec) ub" where
  "vec_step (VPush e) c v =
     do { (err, vp, c') \<leftarrow> vec_push c (Some v) (Some e); v' \<leftarrow> vp; Some (VCode err, c', v') }"
| "vec_step VPop c v =
     do { (err, r, vp) \<leftarrow> vec_pop (Some v) True; v' \<leftarrow> vp; Some (VPopped err r, c, v') }"
| "vec_step (VAt i) c v =
     (case vec_at (Some v) i of
        None \<Rightarrow> Some (VElem None, c, v)
      | Some off \<Rightarrow> do { d \<leftarrow> vc_data v; e \<leftarrow> load (unat off) (unat (vc_elem_size v)) d;
                        Some (VElem (Some e), c, v) })"
| "vec_step (VReserve n) c v =
     (case vec_reserve c (Some v) n of (err, vp, c') \<Rightarrow> do { v' \<leftarrow> vp; Some (VCode err, c', v') })"
| "vec_step VClear c v = do { v' \<leftarrow> vec_clear (Some v); Some (VDone, c, v') }"

fun vec_run :: "vec_op list \<Rightarrow> 'c \<Rightarrow> 'c vec \<Rightarrow> (vec_reply list \<times> 'c vec) ub" where
  "vec_run [] c v = Some ([], v)"
| "vec_run (x # ops) c v =
     do { (r, c', v') \<leftarrow> vec_step x c v; (rs, w) \<leftarrow> vec_run ops c' v'; Some (r # rs, w) }"

context heap_allocator
begin

lemma vec_reserve_spec:
  assumes "vec_inv al v"
  shows "\<exists>err w c'. vec_reserve c (Some v) n = (err, Some w, c') \<and> vec_inv al w
           \<and> vec_view w = vec_view v \<and> vc_elem_size w = vc_elem_size v \<and> vc_len w = vc_len v
           \<and> (err \<noteq> ERR_OK \<longrightarrow> w = v)
           \<and> vec_grow_spec (unat (vc_elem_size v)) (unat n) err (unat (vc_cap v)) = Some (unat (vc_cap w))"
proof -
  obtain f where f: "al_realloc al = Some f" using has_realloc by auto
  note b = vec_inv_block [OF assms]
  have al: "vc_alloc v = Some al" using assms by (simp add: vec_inv_def)
  have es: "vc_elem_size v \<noteq> 0" using b(3) by auto
  have guard: "n > SIZE_MAX div vc_elem_size v \<longleftrightarrow> 2 ^ 64 \<le> unat n * unat (vc_elem_size v)"
    using mult_guard [OF es, of n] by simp
  consider "n \<le> vc_cap v" | "n > SIZE_MAX div vc_elem_size v" "vc_cap v < n"
    | "vc_cap v < n" "\<not> n > SIZE_MAX div vc_elem_size v" by fastforce
  then show ?thesis
  proof cases
    case 1
    then show ?thesis using assms al f es by (simp add: vec_reserve_def vec_grow_spec_def word_le_unat)
  next
    case 2
    then have "\<not> n \<le> vc_cap v" by simp
    then show ?thesis using 2(1) guard assms al f es
      by (simp add: vec_reserve_def vec_grow_spec_def word_le_unat)
  next
    case 3
    have lt: "unat (vc_cap v) < unat n" using 3(1) by (simp add: word_less_unat)
    have fits: "\<not> 2 ^ 64 \<le> unat n * unat (vc_elem_size v)" using 3(2) guard by blast
    obtain r c' where r: "f c (vc_data v) (n * vc_elem_size v) = (r, c')" by fastforce
    have step: "vec_reserve c (Some v) n = (case r of None \<Rightarrow> (ERR_NOMEM, Some v, c')
        | Some d \<Rightarrow> (ERR_OK, Some (v\<lparr>vc_data := Some d, vc_cap := n\<rparr>), c'))"
    proof -
      have "\<not> n \<le> vc_cap v" using 3(1) by simp
      then show ?thesis using 3(2) al f es r by (simp add: vec_reserve_def split: option.splits)
    qed
    show ?thesis
    proof (cases r)
      case None
      then show ?thesis using step assms lt fits by (simp add: vec_grow_spec_def)
    next
      case (Some d)
      let ?es = "unat (vc_elem_size v)"
      have prod: "unat (n * vc_elem_size v) = unat n * ?es"
        by (rule unat_mult_small) (use fits in simp)
      have d: "length d = unat n * ?es" "unat n * ?es \<le> PTRDIFF_MAX"
        using realloc_size [OF f r [unfolded Some]] unfolding prod by simp_all
      have le: "unat (vc_len v) * ?es \<le> length (vec_block v)" using b(1,4) by (metis mult_le_mono1)
      have "take (unat (vc_len v) * ?es) d = take (unat (vc_len v) * ?es) (vec_block v)"
      proof (cases "vc_data v")
        case None
        then have "unat (vc_len v) = 0" using assms by (auto simp: vec_inv_def)
        then show ?thesis by simp
      next
        case (Some d0)
        have "unat (vc_len v) * ?es \<le> unat (n * vc_elem_size v)"
          unfolding prod using lt b(4) by (intro mult_le_mono1) simp
        then show ?thesis
          using realloc_keeps [OF f] r \<open>r = Some d\<close> Some le by (simp add: vec_block_def)
      qed
      then have "elems ?es (unat (vc_len v)) d = elems ?es (unat (vc_len v)) (vec_block v)"
        by (rule elems_take_cong)
      then have view: "vec_view (v\<lparr>vc_data := Some d, vc_cap := n\<rparr>) = vec_view v"
        by (simp add: vec_view_def vec_block_def [of "v\<lparr>vc_data := Some d, vc_cap := n\<rparr>"])
      have "vec_inv al (v\<lparr>vc_data := Some d, vc_cap := n\<rparr>)"
        using assms d lt b(4) by (auto simp: vec_inv_def)
      then show ?thesis using step Some view lt fits d(2) by (simp add: vec_grow_spec_def)
    qed
  qed
qed

lemma vec_push_spec:
  assumes "vec_inv al v" and "length e = unat (vc_elem_size v)"
  shows "\<exists>err w c'. vec_push c (Some v) (Some e) = Some (err, Some w, c') \<and> vec_inv al w
           \<and> vc_elem_size w = vc_elem_size v
           \<and> vec_spec (unat (vc_elem_size v)) (VPush e) (VCode err) (vec_abs v) = Some (vec_abs w)"
proof -
  note b = vec_inv_block [OF assms(1)]
  have es: "vc_elem_size v \<noteq> 0" using b(3) by auto
  show ?thesis
  proof (cases "vc_len v = vc_cap v")
    case False
    then have lt: "unat (vc_len v) < unat (vc_cap v)" using b(4) by (metis le_neq_implies_less word_eq_unat)
    obtain w where w: "vec_append v e = Some w" "vec_inv al w" "vec_view w = vec_view v @ [e]"
        "vc_elem_size w = vc_elem_size v"
      using vec_append_spec [OF assms(1) lt assms(2)] by blast
    moreover have "vc_cap w = vc_cap v" using w(1) by (auto simp: vec_append_def bind_eq_Some_conv)
    ultimately show ?thesis using False es lt by (simp add: vec_push_def vec_abs_def vec_grow_spec_def)
  next
    case True
    define new where "new = (if vc_cap v = 0 then 8 else vc_cap v * 2)"
    have two: "unat (vc_cap v * 2) = unat (vc_cap v) * 2"
      by (subst unat_mult_small) (use b(5) in simp_all)
    have new: "unat new = (if unat (vc_cap v) = 0 then 8 else 2 * unat (vc_cap v))"
      using two by (simp add: new_def unat_eq_0)
    then have gt: "\<not> new \<le> vc_cap v" by (auto simp: word_le_unat)
    from vec_reserve_spec [OF assms(1), of c new]
    obtain err w c' where r: "vec_reserve c (Some v) new = (err, Some w, c')" "vec_inv al w"
        "vec_view w = vec_view v" "vc_elem_size w = vc_elem_size v" "vc_len w = vc_len v"
        "err \<noteq> ERR_OK \<longrightarrow> w = v"
        "vec_grow_spec (unat (vc_elem_size v)) (unat new) err (unat (vc_cap v)) = Some (unat (vc_cap w))"
      by blast
    have push: "vec_push c (Some v) (Some e) =
        (if err \<noteq> ERR_OK then Some (err, Some w, c')
         else do { x \<leftarrow> vec_append w e; Some (ERR_OK, Some x, c') })"
      using True gt es r(1) by (simp add: vec_push_def new_def Let_def)
    have grow: "vec_grow_spec (unat (vc_elem_size v)) (if length (vec_view v) < unat (vc_cap v) then unat (vc_cap v)
        else if unat (vc_cap v) = 0 then 8 else 2 * unat (vc_cap v)) err (unat (vc_cap v)) = Some (unat (vc_cap w))"
      using r(7) True unfolding new by simp
    show ?thesis
    proof (cases "err = ERR_OK")
      case False
      then show ?thesis using push r(1-6) grow by (simp add: vec_abs_def)
    next
      case ok: True
      then have "vc_cap w = new"
        using r(7) gt by (simp add: vec_grow_spec_def word_le_unat split: if_splits) (metis word_eq_unat)
      then have "unat (vc_len w) < unat (vc_cap w)"
        using r(5) gt True by (simp add: word_le_unat)
      then obtain x where x: "vec_append w e = Some x" "vec_inv al x" "vec_view x = vec_view w @ [e]"
          "vc_elem_size x = vc_elem_size w"
        using vec_append_spec [OF r(2)] assms(2) r(4) by metis
      moreover have "vc_cap x = vc_cap w" using x(1) by (auto simp: vec_append_def bind_eq_Some_conv)
      moreover have "vec_push c (Some v) (Some e) = Some (ERR_OK, Some x, c')" using push ok x(1) by simp
      ultimately show ?thesis using r(3,4) grow ok by (simp add: vec_abs_def)
    qed
  qed
qed

lemma vec_step_spec:
  assumes "vec_inv al v" and "\<And>e. x = VPush e \<Longrightarrow> length e = unat (vc_elem_size v)"
  shows "\<exists>r c' w. vec_step x c v = Some (r, c', w) \<and> vec_inv al w \<and> vc_elem_size w = vc_elem_size v
           \<and> vec_spec (unat (vc_elem_size v)) x r (vec_abs v) = Some (vec_abs w)"
proof (cases x)
  case (VPush e)
  obtain err w c' where "vec_push c (Some v) (Some e) = Some (err, Some w, c')" "vec_inv al w"
      "vc_elem_size w = vc_elem_size v"
      "vec_spec (unat (vc_elem_size v)) (VPush e) (VCode err) (vec_abs v) = Some (vec_abs w)"
    using vec_push_spec [OF assms(1) assms(2) [OF VPush], of c] by blast
  then show ?thesis using VPush by (simp del: vec_spec.simps)
next
  case VPop
  show ?thesis
  proof (cases "vec_view v = []")
    case True
    have "vc_data v = None \<longleftrightarrow> unat (vc_cap v) = 0"
      using assms(1) by (auto simp: vec_inv_def unat_eq_0 split: option.splits)
    then show ?thesis using vec_pop_spec(1) [OF assms(1) True, of True] assms(1) VPop True
      by (auto simp: vec_abs_def)
  next
    case False
    obtain w where w: "vec_pop (Some v) True = Some (ERR_OK, Some (last (vec_view v)), Some w)" "vec_inv al w"
        "vec_view w = butlast (vec_view v)" "vc_elem_size w = vc_elem_size v"
      using vec_pop_spec(2) [OF assms(1) False] by blast
    moreover have "vc_cap w = vc_cap v"
      using w(1) by (auto simp: vec_pop_def Let_def bind_eq_Some_conv split: option.splits if_splits)
    ultimately show ?thesis using VPop False by (simp add: vec_abs_def)
  qed
next
  case (VAt i)
  show ?thesis
  proof (cases "vec_at (Some v) i")
    case None
    then show ?thesis using vec_at_spec [OF assms(1), of i] assms(1) VAt by (auto simp: vec_abs_def)
  next
    case (Some off)
    then have i: "unat i < length (vec_view v)"
        "load (unat off) (unat (vc_elem_size v)) (vec_block v) = Some (vec_view v ! unat i)"
      using vec_at_spec [OF assms(1), of i] by auto
    obtain d where "vc_data v = Some d" using Some by (auto simp: vec_at_def split: if_splits)
    then show ?thesis using i Some assms(1) VAt by (auto simp: vec_block_def vec_abs_def)
  qed
next
  case (VReserve n)
  obtain err w c' where "vec_reserve c (Some v) n = (err, Some w, c')" "vec_inv al w"
      "vec_view w = vec_view v" "vc_elem_size w = vc_elem_size v"
      "vec_grow_spec (unat (vc_elem_size v)) (unat n) err (unat (vc_cap v)) = Some (unat (vc_cap w))"
    using vec_reserve_spec [OF assms(1), of c n] by blast
  then show ?thesis using VReserve by (simp add: vec_abs_def)
next
  case VClear
  have "vec_inv al (v\<lparr>vc_len := 0\<rparr>)" using assms(1) by (auto simp: vec_inv_def split: option.splits)
  moreover have "vec_view (v\<lparr>vc_len := 0\<rparr>) = []" by (simp flip: length_0_conv)
  ultimately show ?thesis using VClear by (simp add: vec_clear_def vec_abs_def)
qed

lemma vec_run_spec:
  assumes "vec_inv al v" and "\<And>e. VPush e \<in> set ops \<Longrightarrow> length e = unat (vc_elem_size v)"
  shows "\<exists>rs w. vec_run ops c v = Some (rs, w) \<and> vec_inv al w
           \<and> vec_spec_run (unat (vc_elem_size v)) ops rs (vec_abs v) = Some (vec_abs w)"
  using assms
proof (induction ops arbitrary: c v)
  case (Cons x ops)
  obtain r c' w where w: "vec_step x c v = Some (r, c', w)" "vec_inv al w" "vc_elem_size w = vc_elem_size v"
      "vec_spec (unat (vc_elem_size v)) x r (vec_abs v) = Some (vec_abs w)"
    using vec_step_spec [OF Cons.prems(1), of x c] Cons.prems(2) by auto
  obtain rs u where u: "vec_run ops c' w = Some (rs, u)" "vec_inv al u"
      "vec_spec_run (unat (vc_elem_size v)) ops rs (vec_abs w) = Some (vec_abs u)"
    using Cons.IH [OF w(2), of c'] Cons.prems(2) w(3) by auto
  show ?case using w u by (intro exI [of _ "r # rs"] exI [of _ u]) simp
qed simp

end

section \<open>Properties\<close>

text \<open>
  C8. A vector initialised with any allocator that keeps the \<open>realloc\<close> contract behaves as a
  list with a capacity under every sequence of pushes, pops, indexed reads, reserves and clears, error codes included.
  Elements survive every reallocation, the capacity starts at 8 and doubles, and \<open>reserve\<close> sets it exactly. A push with room left
  succeeds. Growth is refused with \<open>ERR_OVERFLOW\<close> exactly when the size in bytes exceeds 64 bits, without asking the allocator, and otherwise
  fails only with \<open>ERR_NOMEM\<close>; either changes nothing. Popping an empty vector answers \<open>ERR_NOT_FOUND\<close>, or
  \<open>ERR_INVALID_ARG\<close> when it never grew. Reads outside are refused, and no access leaves the block.
\<close>

theorem vec_refines_list:
  assumes "heap_allocator al" and "vec_init_a heap (Some v0) elem_size (Some al) = (ERR_OK, Some v)"
    and "\<And>e. VPush e \<in> set ops \<Longrightarrow> length e = unat elem_size"
  shows "\<exists>replies w. vec_run ops c v = Some (replies, w)
           \<and> vec_spec_run (unat elem_size) ops replies ([], 0) = Some (vec_view w, unat (vc_cap w)) \<and> vec_inv al w"
proof -
  have v: "v = \<lparr>vc_data = None, vc_len = 0, vc_cap = 0, vc_elem_size = elem_size, vc_alloc = Some al\<rparr>"
    and nz: "elem_size \<noteq> 0"
    using assms(2) by (auto simp: vec_init_a_def vec_heap_def split: if_splits)
  have inv: "vec_inv al v" using nz by (simp add: v vec_inv_def unat_pos_iff)
  have nil: "vec_abs v = ([], 0)" by (simp add: v vec_abs_def flip: length_0_conv)
  have es: "vc_elem_size v = elem_size" by (simp add: v)
  show ?thesis
    using heap_allocator.vec_run_spec [OF assms(1) inv, of ops c] assms(3) unfolding es nil vec_abs_def [symmetric] by blast
qed

theorem vec_refines_list_witness:
  "\<exists>replies w. vec_run [VPop, VPush [Some 1, Some 2], VReserve 100, VPush [Some 3, Some 4], VAt 1, VPop]
         [True, False] (\<lparr>vc_data = None, vc_len = 0, vc_cap = 0, vc_elem_size = 2,
                        vc_alloc = Some allocator_libc\<rparr> :: answers vec) = Some (replies, w)
      \<and> vec_spec_run (unat (2 :: size_t)) [VPop, VPush [Some 1, Some 2], VReserve 100, VPush [Some 3, Some 4], VAt 1, VPop]
           replies ([], 0) = Some (vec_view w, unat (vc_cap w)) \<and> vec_inv allocator_libc w"
  by (rule vec_refines_list [OF libc.heap_allocator_axioms, of allocator_libc
        "\<lparr>vc_data = None, vc_len = 0, vc_cap = 0, vc_elem_size = 0, vc_alloc = None\<rparr>" 2])
     (auto simp: vec_init_a_def vec_heap_def allocator_libc_def)

text \<open>Popping a vector that never grew is refused as an invalid argument, not as empty.\<close>

lemma vec_pop_fresh_invalid:
  "vec_init vp 4 = (ERR_OK, Some v) \<Longrightarrow> vec_pop (Some v) True = Some (ERR_INVALID_ARG, None, Some v)"
  by (auto simp: vec_init_def vec_init_a_def vec_pop_def split: option.splits)

end
