(* ===== verification/StrBuf.thy ===== *)
theory StrBuf
  imports Core
begin

text \<open>
  The string builder of \<open>src/containers/strbuf.c\<close>: a doubling byte block that always ends in
  a NUL. \<open>vsnprintf\<close> is the text it formats (an argument, \<open>None\<close> for an encoding error); a
  copy outside a block is undefined (\<open>None\<close>), and so is a growth loop that does not end.
  A copy of no bytes is taken to do nothing whatever its pointers are: this is what the C library does and what \<open>strbuf_append_n\<close>
  relies on when it is called with \<open>NULL\<close> and length 0, although the standard before C2Y asks for valid pointers there too.
\<close>

section \<open>State and operations\<close>

record strbuf =
  sb_data :: "block option"
  sb_len :: size_t
  sb_cap :: size_t

definition strbuf_init :: "bool \<Rightarrow> strbuf option \<Rightarrow> (error_code \<times> strbuf option) ub" where
  "strbuf_init ok sp =
     (case sp of
        None \<Rightarrow> Some (ERR_INVALID_ARG, None)
      | Some sb \<Rightarrow>
          (case malloc ok 32 of
             None \<Rightarrow> Some (ERR_NOMEM, Some (sb\<lparr>sb_data := None\<rparr>))
           | Some d \<Rightarrow> do { d' \<leftarrow> store 0 [Some 0] d;
                           Some (ERR_OK, Some \<lparr>sb_data = Some d', sb_len = 0, sb_cap = 32\<rparr>) }))"

definition strbuf_destroy :: "strbuf option \<Rightarrow> strbuf option" where
  "strbuf_destroy sp = map_option (\<lambda>sb. \<lparr>sb_data = None, sb_len = 0, sb_cap = 0\<rparr>) sp"

text \<open>
  The doubling loop of \<open>ensure\<close>: \<open>Some None\<close> is its overflow exit, and the value \<open>None\<close> a
  loop that never ends (which a capacity of 0 would give).
\<close>

partial_function (option) grow_cap :: "size_t \<Rightarrow> size_t \<Rightarrow> size_t option option" where
  "grow_cap need c =
     (if c < need then (if c > SIZE_MAX div 2 then Some None else grow_cap need (c * 2))
      else Some (Some c))"

definition ensure :: "bool \<Rightarrow> strbuf \<Rightarrow> size_t \<Rightarrow> (error_code \<times> strbuf) ub" where
  "ensure ok sb extra =
     (if extra > SIZE_MAX - sb_len sb - 1 then Some (ERR_OVERFLOW, sb)
      else let need = sb_len sb + extra + 1 in
        if need \<le> sb_cap sb then Some (ERR_OK, sb)
        else do {
          r \<leftarrow> grow_cap need (sb_cap sb);
          case r of
            None \<Rightarrow> Some (ERR_OVERFLOW, sb)
          | Some new_cap \<Rightarrow>
              (case realloc ok (sb_data sb) new_cap of
                 None \<Rightarrow> Some (ERR_NOMEM, sb)
               | Some d \<Rightarrow> Some (ERR_OK, sb\<lparr>sb_data := Some d, sb_cap := new_cap\<rparr>)) })"

text \<open>The source is \<open>NULL\<close> or a block of bytes; with \<open>n = 0\<close> nothing is copied from it.\<close>

definition strbuf_append_n ::
  "bool \<Rightarrow> strbuf option \<Rightarrow> byte list option \<Rightarrow> size_t \<Rightarrow> (error_code \<times> strbuf option) ub" where
  "strbuf_append_n ok sp s n =
     (case sp of
        None \<Rightarrow> Some (ERR_INVALID_ARG, sp)
      | Some sb \<Rightarrow>
          if sb_data sb = None \<or> s = None \<and> n > 0 then Some (ERR_INVALID_ARG, sp)
          else do {
            (err, sb') \<leftarrow> ensure ok sb n;
            if err \<noteq> ERR_OK then Some (err, Some sb')
            else do {
              d \<leftarrow> sb_data sb';
              src \<leftarrow> load 0 (unat n) (case s of None \<Rightarrow> [] | Some p \<Rightarrow> p);
              d1 \<leftarrow> store (unat (sb_len sb')) (map Some src) d;
              d2 \<leftarrow> store (unat (sb_len sb' + n)) [Some 0] d1;
              Some (ERR_OK, Some (sb'\<lparr>sb_data := Some d2, sb_len := sb_len sb' + n\<rparr>)) } })"

text \<open>A C string argument is its characters; \<open>strlen\<close> is their number.\<close>

definition strbuf_append ::
  "bool \<Rightarrow> strbuf option \<Rightarrow> byte list option \<Rightarrow> (error_code \<times> strbuf option) ub" where
  "strbuf_append ok sp s =
     (case s of None \<Rightarrow> Some (ERR_INVALID_ARG, sp)
      | Some p \<Rightarrow> strbuf_append_n ok sp (Some p) (word_of_nat (length p)))"

definition strbuf_append_char ::
  "bool \<Rightarrow> strbuf option \<Rightarrow> byte \<Rightarrow> (error_code \<times> strbuf option) ub" where
  "strbuf_append_char ok sp c = strbuf_append_n ok sp (Some [c]) 1"

text \<open>
  \<open>text\<close> is what \<open>vsnprintf\<close> produces for the format and arguments (\<open>None\<close> when \<open>fmt\<close> is
  \<open>NULL\<close>); it reports a negative length for an error or a text longer than an \<open>int\<close> counts.
\<close>

definition strbuf_appendf ::
  "bool \<Rightarrow> strbuf option \<Rightarrow> byte list option option \<Rightarrow> (error_code \<times> strbuf option) ub" where
  "strbuf_appendf ok sp fmt =
     (case (sp, fmt) of
        (Some sb, Some text) \<Rightarrow>
          if sb_data sb = None then Some (ERR_INVALID_ARG, sp)
          else (case text of
              None \<Rightarrow> Some (ERR_INVALID_ARG, sp)
            | Some t \<Rightarrow>
                if 2147483647 < length t then Some (ERR_INVALID_ARG, sp)
                else (let needed = word_of_nat (length t) in do {
                  (err, sb') \<leftarrow> ensure ok sb needed;
                  if err \<noteq> ERR_OK then Some (err, Some sb')
                  else do {
                    d \<leftarrow> sb_data sb';
                    d' \<leftarrow> store (unat (sb_len sb')) (map Some t @ [Some 0]) d;
                    Some (ERR_OK, Some (sb'\<lparr>sb_data := Some d', sb_len := sb_len sb' + needed\<rparr>)) } }))
      | _ \<Rightarrow> Some (ERR_INVALID_ARG, sp))"

text \<open>The block the returned pointer names; \<open>None\<close> is the literal empty string.\<close>

definition strbuf_cstr :: "strbuf option \<Rightarrow> block option" where
  "strbuf_cstr sp = Option.bind sp sb_data"

definition strbuf_clear :: "strbuf option \<Rightarrow> strbuf option ub" where
  "strbuf_clear sp =
     (case sp of
        None \<Rightarrow> Some None
      | Some sb \<Rightarrow>
          (case sb_data sb of
             None \<Rightarrow> Some sp
           | Some d \<Rightarrow> do { d' \<leftarrow> store 0 [Some 0] d;
                           Some (Some (sb\<lparr>sb_data := Some d', sb_len := 0\<rparr>)) }))"

definition strbuf_take :: "bool \<Rightarrow> strbuf option \<Rightarrow> (block option \<times> strbuf option) ub" where
  "strbuf_take ok sp =
     (case sp of
        None \<Rightarrow> Some (None, sp)
      | Some sb \<Rightarrow>
          if sb_data sb = None then Some (None, sp)
          else do {
            (err, sp') \<leftarrow> strbuf_init ok (Some \<lparr>sb_data = None, sb_len = 0, sb_cap = 0\<rparr>);
            Some (sb_data sb,
                  if err \<noteq> ERR_OK then map_option (\<lambda>s. s\<lparr>sb_data := None\<rparr>) sp' else sp') })"

section \<open>The growth loop ends\<close>

lemma grow_cap_total:
  assumes "c \<noteq> 0"
  shows "\<exists>r. grow_cap need c = Some r
           \<and> (case r of None \<Rightarrow> True
              | Some c' \<Rightarrow> need \<le> c' \<and> c \<le> c' \<and> (c < need \<longrightarrow> unat c' < 2 * unat need))"
  using assms
proof (induction "18446744073709551616 - unat c" arbitrary: c rule: less_induct)
  case less
  show ?case
  proof (cases "c < need")
    case False
    then have "grow_cap need c = Some (Some c)" by (subst grow_cap.simps) simp
    moreover have "need \<le> c" using False by simp
    ultimately show ?thesis using False by simp
  next
    case lt: True
    show ?thesis
    proof (cases "c > SIZE_MAX div 2")
      case True
      then show ?thesis using lt by (subst grow_cap.simps) simp
    next
      case False
      then have "unat c \<le> 9223372036854775807" by (simp add: word_le_unat not_less)
      then have dbl: "unat (c * 2) = 2 * unat c" by (subst unat_mult_small) (simp_all add: mult.commute)
      have pos: "0 < unat c" using less.prems by (simp add: unat_gt_0)
      have nz: "c * 2 \<noteq> 0" using dbl pos by (metis mult_pos_pos unat_0 zero_less_numeral nat_neq_iff)
      have dec: "18446744073709551616 - unat (c * 2) < 18446744073709551616 - unat c"
        using dbl pos unat_less_2p64 [of c] by linarith
      have step: "grow_cap need c = grow_cap need (c * 2)"
        using lt False by (subst grow_cap.simps) simp
      obtain r where r: "grow_cap need (c * 2) = Some r"
        "case r of None \<Rightarrow> True
         | Some c' \<Rightarrow> need \<le> c' \<and> c * 2 \<le> c' \<and> (c * 2 < need \<longrightarrow> unat c' < 2 * unat need)"
        using less.hyps [OF dec nz] by blast
      have "unat c' < 2 * unat need" if "r = Some c'" for c'
      proof (cases "c * 2 < need")
        case True
        then show ?thesis using r(2) that by simp
      next
        case False
        then have "grow_cap need (c * 2) = Some (Some (c * 2))" by (subst grow_cap.simps) simp
        then have "c' = c * 2" using r(1) that by simp
        then show ?thesis using dbl lt by (simp add: word_less_unat)
      qed
      then show ?thesis using r step dbl pos
        by (auto simp: word_le_unat split: option.splits)
    qed
  qed
qed

section \<open>Invariant and abstraction\<close>

text \<open>Every cell up to and including the terminator has been written.\<close>

definition sb_inv :: "strbuf \<Rightarrow> bool" where
  "sb_inv sb \<longleftrightarrow>
     (\<exists>d. sb_data sb = Some d \<and> length d = unat (sb_cap sb) \<and> unat (sb_cap sb) \<le> PTRDIFF_MAX
        \<and> unat (sb_len sb) < unat (sb_cap sb)
        \<and> (\<forall>i < unat (sb_len sb). d ! i \<noteq> None) \<and> d ! unat (sb_len sb) = Some 0)"

definition sb_text :: "strbuf \<Rightarrow> byte list" where
  "sb_text sb = map the (take (unat (sb_len sb)) (the (sb_data sb)))"

text \<open>What a C program reads from a block: the bytes up to the first NUL.\<close>

fun c_string :: "block \<Rightarrow> byte list ub" where
  "c_string [] = None"
| "c_string (None # d) = None"
| "c_string (Some b # d) = (if b = 0 then Some [] else map_option ((#) b) (c_string d))"

lemma c_string_append: "0 \<notin> set t \<Longrightarrow> c_string (map Some t @ Some 0 # d) = Some t"
  by (induction t) auto

lemma sb_block_shape:
  assumes "sb_inv sb" and "sb_data sb = Some d"
  shows "\<exists>rest. d = map Some (sb_text sb) @ Some 0 # rest \<and> length (sb_text sb) = unat (sb_len sb)"
proof -
  let ?n = "unat (sb_len sb)"
  have d: "length d = unat (sb_cap sb)" "?n < length d" "\<And>i. i < ?n \<Longrightarrow> d ! i \<noteq> None" "d ! ?n = Some 0"
    using assms by (auto simp: sb_inv_def)
  have "map Some (sb_text sb) = take ?n d"
    using d(2,3) assms(2) by (auto simp: sb_text_def intro!: nth_equalityI)
  moreover have "d = take ?n d @ d ! ?n # drop (Suc ?n) d" using d(2) by (simp add: id_take_nth_drop)
  ultimately have "d = map Some (sb_text sb) @ Some 0 # drop (Suc ?n) d" using d(4) by simp
  moreover have "length (sb_text sb) = ?n" using d(2) assms(2) by (simp add: sb_text_def)
  ultimately show ?thesis by blast
qed

text \<open>Writing text and terminator at the end, which both appends amount to.\<close>

lemma sb_append_at:
  assumes "sb_inv sb" and "sb_data sb = Some d" and "unat (sb_len sb) + length t < unat (sb_cap sb)"
    and "unat n = length t"
  shows "\<exists>d'. store (unat (sb_len sb)) (map Some t @ [Some 0]) d = Some d'
            \<and> sb_inv (sb\<lparr>sb_data := Some d', sb_len := sb_len sb + n\<rparr>)
            \<and> sb_text (sb\<lparr>sb_data := Some d', sb_len := sb_len sb + n\<rparr>) = sb_text sb @ t"
proof -
  have cap: "length d = unat (sb_cap sb)" "unat (sb_cap sb) \<le> PTRDIFF_MAX"
    using assms(1,2) by (auto simp: sb_inv_def)
  obtain rest where rest: "d = map Some (sb_text sb) @ Some 0 # rest" "length (sb_text sb) = unat (sb_len sb)"
    using sb_block_shape [OF assms(1,2)] by blast
  have len: "unat (sb_len sb + n) = unat (sb_len sb) + length t"
    using assms(3,4) cap(2) by (subst unat_add_small) simp_all
  define d' where "d' = map Some (sb_text sb @ t) @ Some 0 # drop (length t) rest"
  have room: "length t \<le> length rest" using assms(3) cap(1) rest by simp
  have "store (unat (sb_len sb)) (map Some t @ [Some 0]) d = Some d'"
    using room rest(2) by (simp add: store_def rest(1) d'_def)
  moreover have "length d' = length d" using room by (simp add: d'_def rest(1))
  moreover have "d' ! i \<noteq> None" if "i < unat (sb_len sb) + length t" for i
    using that rest(2) by (simp add: d'_def nth_append)
  moreover have "d' ! (unat (sb_len sb) + length t) = Some 0"
    using rest(2) by (simp add: d'_def nth_append)
  moreover have "map the (take (unat (sb_len sb) + length t) d') = sb_text sb @ t"
    using rest(2) by (simp add: d'_def o_def)
  ultimately show ?thesis
    using cap assms(3) len by (auto simp: sb_inv_def sb_text_def)
qed

lemma ensure_spec:
  assumes "sb_inv sb"
  shows "\<exists>err sb'. ensure ok sb extra = Some (err, sb') \<and> sb_inv sb' \<and> sb_text sb' = sb_text sb
           \<and> sb_len sb' = sb_len sb
           \<and> (err = ERR_OK \<and> unat (sb_len sb) + unat extra < unat (sb_cap sb')
              \<or> err \<in> {ERR_NOMEM, ERR_OVERFLOW} \<and> sb' = sb)"
proof (cases "extra > SIZE_MAX - sb_len sb - 1")
  case True
  then show ?thesis using assms by (simp add: ensure_def)
next
  case False
  obtain d where d: "sb_data sb = Some d" "length d = unat (sb_cap sb)" "unat (sb_cap sb) \<le> PTRDIFF_MAX"
      "unat (sb_len sb) < unat (sb_cap sb)" "\<And>i. i < unat (sb_len sb) \<Longrightarrow> d ! i \<noteq> None"
      "d ! unat (sb_len sb) = Some 0"
    using assms by (auto simp: sb_inv_def)
  have l1: "unat (SIZE_MAX - sb_len sb) = 18446744073709551615 - unat (sb_len sb)"
    by (subst unat_diff_le) (simp_all add: unat_SIZE_MAX)
  have l2: "unat (SIZE_MAX - sb_len sb - 1) = 18446744073709551614 - unat (sb_len sb)"
    by (subst unat_diff_le) (use l1 d(3,4) in \<open>simp_all add: word_le_unat\<close>)
  have sum: "unat (sb_len sb) + unat extra + 1 < 18446744073709551616"
    using False l2 d(3,4) by (simp add: word_le_unat not_less)
  define need where "need = sb_len sb + extra + 1"
  have need: "unat need = unat (sb_len sb) + unat extra + 1"
    unfolding need_def using sum by (subst unat_Suc_small; subst unat_add_small) simp_all
  show ?thesis
  proof (cases "need \<le> sb_cap sb")
    case True
    then have "ensure ok sb extra = Some (ERR_OK, sb)" using False by (simp add: ensure_def need_def Let_def)
    then show ?thesis using assms need True by (simp add: word_le_unat)
  next
    case grow: False
    have nz: "sb_cap sb \<noteq> 0" using d(4) by auto
    from grow_cap_total [OF nz, of need] obtain r where r: "grow_cap need (sb_cap sb) = Some r"
      and rs: "case r of None \<Rightarrow> True | Some c' \<Rightarrow> need \<le> c' \<and> sb_cap sb \<le> c' \<and> (sb_cap sb < need \<longrightarrow> unat c' < 2 * unat need)"
      by blast
    have step: "ensure ok sb extra =
        (case r of
            None \<Rightarrow> Some (ERR_OVERFLOW, sb)
          | Some new_cap \<Rightarrow>
              (case realloc ok (sb_data sb) new_cap of
                 None \<Rightarrow> Some (ERR_NOMEM, sb)
               | Some d \<Rightarrow> Some (ERR_OK, sb\<lparr>sb_data := Some d, sb_cap := new_cap\<rparr>)))"
      using False grow r by (simp add: ensure_def need_def Let_def)
    show ?thesis
    proof (cases r)
      case None
      then show ?thesis using step assms by simp
    next
      case (Some c')
      show ?thesis
      proof (cases "realloc ok (sb_data sb) c'")
        case None
        then show ?thesis using step Some assms by simp
      next
        case re: (Some d')
        have c': "unat need \<le> unat c'" "unat (sb_cap sb) \<le> unat c'" using rs Some by (auto simp: word_le_unat)
        have len: "length d' = unat c'" "unat c' \<le> PTRDIFF_MAX" using realloc_SomeD [OF re] by auto
        have pre: "take (unat (sb_cap sb)) d' = take (unat (sb_cap sb)) d"
          using realloc_prefix [OF re [unfolded d(1)], of "unat (sb_cap sb)"] d(2) c'(2) by simp
        have same: "d' ! i = d ! i" if "i < unat (sb_cap sb)" for i
          using pre that by (metis nth_take)
        let ?sb = "sb\<lparr>sb_data := Some d', sb_cap := c'\<rparr>"
        have "sb_inv ?sb" using len c' d(4-6) same by (auto simp: sb_inv_def)
        moreover have "sb_text ?sb = sb_text sb"
        proof -
          have "take (unat (sb_len sb)) d' = take (unat (sb_len sb)) (take (unat (sb_cap sb)) d')"
            using d(4) by simp
          also have "\<dots> = take (unat (sb_len sb)) d" unfolding pre using d(4) by simp
          finally show ?thesis using d(1) by (simp add: sb_text_def)
        qed
        moreover have "ensure ok sb extra = Some (ERR_OK, ?sb)" using step Some re by simp
        ultimately show ?thesis using need c'(1) by simp
      qed
    qed
  qed
qed

lemma strbuf_append_n_spec:
  assumes "sb_inv sb" and "unat n \<le> length s"
  shows "\<exists>err sb'. strbuf_append_n ok (Some sb) (Some s) n = Some (err, Some sb') \<and> sb_inv sb'
           \<and> (err = ERR_OK \<and> sb_text sb' = sb_text sb @ take (unat n) s
              \<or> err \<in> {ERR_NOMEM, ERR_OVERFLOW} \<and> sb' = sb)"
proof -
  obtain d0 where d0: "sb_data sb = Some d0" using assms(1) by (auto simp: sb_inv_def)
  from ensure_spec [OF assms(1), of ok n]
  obtain err sb1 where e: "ensure ok sb n = Some (err, sb1)" "sb_inv sb1" "sb_text sb1 = sb_text sb"
      "sb_len sb1 = sb_len sb"
      "err = ERR_OK \<and> unat (sb_len sb) + unat n < unat (sb_cap sb1) \<or> err \<in> {ERR_NOMEM, ERR_OVERFLOW} \<and> sb1 = sb"
    by blast
  show ?thesis
  proof (cases "err = ERR_OK")
    case False
    then show ?thesis using e d0 assms(1) by (auto simp: strbuf_append_n_def)
  next
    case True
    let ?t = "take (unat n) s"
    obtain d where d: "sb_data sb1 = Some d" "length d = unat (sb_cap sb1)" "unat (sb_cap sb1) \<le> PTRDIFF_MAX"
      using e(2) by (auto simp: sb_inv_def)
    have fit: "unat (sb_len sb1) + length ?t < unat (sb_cap sb1)" using True e(4,5) assms(2) by simp
    have nt: "unat n = length ?t" using assms(2) by simp
    from sb_append_at [OF e(2) d(1) fit nt] obtain d2 where
      d2: "store (unat (sb_len sb1)) (map Some ?t @ [Some 0]) d = Some d2"
        "sb_inv (sb1\<lparr>sb_data := Some d2, sb_len := sb_len sb1 + n\<rparr>)"
        "sb_text (sb1\<lparr>sb_data := Some d2, sb_len := sb_len sb1 + n\<rparr>) = sb_text sb1 @ ?t" by blast
    have off: "unat (sb_len sb1 + n) = unat (sb_len sb1) + length (map Some ?t)"
      using fit d(3) assms(2) by (subst unat_add_small) simp_all
    obtain d1 where "store (unat (sb_len sb1)) (map Some ?t) d = Some d1"
        "store (unat (sb_len sb1 + n)) [Some 0] d1 = Some d2"
      using store_append [of "unat (sb_len sb1)" "map Some ?t" "[Some 0]" d] d2(1) fit d(2) unfolding off by auto
    then have "strbuf_append_n ok (Some sb) (Some s) n
        = Some (ERR_OK, Some (sb1\<lparr>sb_data := Some d2, sb_len := sb_len sb1 + n\<rparr>))"
      using d0 d(1) e(1) True assms(2) by (simp add: strbuf_append_n_def load_def)
    then show ?thesis using d2(2,3) e(3) by simp
  qed
qed

lemma strbuf_append_spec:
  assumes "sb_inv sb" and "length s < 18446744073709551616"
  shows "\<exists>err sb'. strbuf_append ok (Some sb) (Some s) = Some (err, Some sb') \<and> sb_inv sb'
           \<and> (err = ERR_OK \<and> sb_text sb' = sb_text sb @ s
              \<or> err \<in> {ERR_NOMEM, ERR_OVERFLOW} \<and> sb' = sb)"
proof -
  have "unat (word_of_nat (length s) :: size_t) = length s"
    using assms(2) by (simp add: unat_word_of_nat)
  then show ?thesis
    using strbuf_append_n_spec [OF assms(1), of "word_of_nat (length s)" s ok] by (simp add: strbuf_append_def)
qed

lemma strbuf_appendf_spec:
  assumes "sb_inv sb"
  shows "\<exists>err sb'. strbuf_appendf ok (Some sb) (Some text) = Some (err, Some sb') \<and> sb_inv sb'
           \<and> (err = ERR_OK \<and> (\<exists>t. text = Some t \<and> sb_text sb' = sb_text sb @ t)
              \<or> err \<in> {ERR_NOMEM, ERR_OVERFLOW} \<and> sb' = sb
              \<or> err = ERR_INVALID_ARG \<and> sb' = sb \<and> (\<forall>t. text = Some t \<longrightarrow> 2147483647 < length t))"
proof -
  obtain d0 where d0: "sb_data sb = Some d0" using assms(1) by (auto simp: sb_inv_def)
  show ?thesis
  proof (cases "\<exists>t. text = Some t \<and> length t \<le> 2147483647")
    case False
    then have "strbuf_appendf ok (Some sb) (Some text) = Some (ERR_INVALID_ARG, Some sb)"
      using d0 by (auto simp: strbuf_appendf_def split: option.splits)
    then show ?thesis using assms False by auto
  next
    case True
    then obtain t where t: "text = Some t" "length t \<le> 2147483647" by blast
    define n :: size_t where "n = word_of_nat (length t)"
    have n: "unat n = length t" unfolding n_def using t(2) by (simp add: unat_word_of_nat)
    from ensure_spec [OF assms(1), of ok n]
    obtain err sb1 where e: "ensure ok sb n = Some (err, sb1)" "sb_inv sb1" "sb_text sb1 = sb_text sb"
        "sb_len sb1 = sb_len sb"
        "err = ERR_OK \<and> unat (sb_len sb) + unat n < unat (sb_cap sb1) \<or> err \<in> {ERR_NOMEM, ERR_OVERFLOW} \<and> sb1 = sb"
      by blast
    show ?thesis
    proof (cases "err = ERR_OK")
      case False
      have "strbuf_appendf ok (Some sb) (Some text) = Some (err, Some sb1)"
        using t d0 e(1) False by (simp add: strbuf_appendf_def Let_def n_def)
      then show ?thesis using e False assms by auto
    next
      case True
      obtain d where d: "sb_data sb1 = Some d" using e(2) by (auto simp: sb_inv_def)
      have fit: "unat (sb_len sb1) + length t < unat (sb_cap sb1)" using True e(4,5) n by simp
      from sb_append_at [OF e(2) d fit n] obtain d2 where
        d2: "store (unat (sb_len sb1)) (map Some t @ [Some 0]) d = Some d2"
          "sb_inv (sb1\<lparr>sb_data := Some d2, sb_len := sb_len sb1 + n\<rparr>)"
          "sb_text (sb1\<lparr>sb_data := Some d2, sb_len := sb_len sb1 + n\<rparr>) = sb_text sb1 @ t" by blast
      have "strbuf_appendf ok (Some sb) (Some text)
          = Some (ERR_OK, Some (sb1\<lparr>sb_data := Some d2, sb_len := sb_len sb1 + n\<rparr>))"
        using t d0 d e(1) True d2(1) by (simp add: strbuf_appendf_def Let_def n_def)
      then show ?thesis using d2(2,3) e(3) t(1) by simp
    qed
  qed
qed

lemma strbuf_init_spec:
  "strbuf_init ok (Some sb0) = Some (e, sp) \<Longrightarrow> e = ERR_OK \<Longrightarrow>
   \<exists>sb. sp = Some sb \<and> sb_inv sb \<and> sb_text sb = []"
  by (auto simp: strbuf_init_def sb_inv_def sb_text_def malloc_def store_def split: option.splits if_splits)

lemma strbuf_init_True:
  "\<exists>sb. strbuf_init True (Some sb0) = Some (ERR_OK, Some sb) \<and> sb_inv sb \<and> sb_text sb = []"
  by (simp add: strbuf_init_def sb_inv_def sb_text_def malloc_def store_def)

lemma strbuf_clear_spec:
  assumes "sb_inv sb"
  shows "\<exists>sb'. strbuf_clear (Some sb) = Some (Some sb') \<and> sb_inv sb' \<and> sb_text sb' = []"
proof -
  obtain d where d: "sb_data sb = Some d" "length d = unat (sb_cap sb)" "unat (sb_cap sb) \<le> PTRDIFF_MAX"
      "unat (sb_len sb) < unat (sb_cap sb)"
    using assms by (auto simp: sb_inv_def)
  then show ?thesis
    by (auto simp: strbuf_clear_def store_def sb_inv_def sb_text_def)
qed

section \<open>Runs\<close>

datatype sb_op = SAppend bool "byte list" | SAppendN bool "byte list" size_t | SChar bool byte
  | SFormat bool "byte list option" | SClear

fun sb_step :: "sb_op \<Rightarrow> strbuf \<Rightarrow> (error_code \<times> strbuf) ub" where
  "sb_step (SAppend ok s) sb = do { (e, sp) \<leftarrow> strbuf_append ok (Some sb) (Some s); t \<leftarrow> sp; Some (e, t) }"
| "sb_step (SAppendN ok s n) sb = do { (e, sp) \<leftarrow> strbuf_append_n ok (Some sb) (Some s) n; t \<leftarrow> sp; Some (e, t) }"
| "sb_step (SChar ok c) sb = do { (e, sp) \<leftarrow> strbuf_append_char ok (Some sb) c; t \<leftarrow> sp; Some (e, t) }"
| "sb_step (SFormat ok t) sb = do { (e, sp) \<leftarrow> strbuf_appendf ok (Some sb) (Some t); t \<leftarrow> sp; Some (e, t) }"
| "sb_step SClear sb = do { sp \<leftarrow> strbuf_clear (Some sb); t \<leftarrow> sp; Some (ERR_OK, t) }"

text \<open>The text an operation appends, and the text after it given the code it returned.\<close>

fun sb_added :: "sb_op \<Rightarrow> byte list" where
  "sb_added (SAppend ok s) = s"
| "sb_added (SAppendN ok s n) = take (unat n) s"
| "sb_added (SChar ok c) = [c]"
| "sb_added (SFormat ok t) = (case t of None \<Rightarrow> [] | Some u \<Rightarrow> u)"
| "sb_added SClear = []"

definition sb_after :: "sb_op \<Rightarrow> error_code \<Rightarrow> byte list \<Rightarrow> byte list" where
  "sb_after x e txt = (if x = SClear then [] else if e = ERR_OK then txt @ sb_added x else txt)"

text \<open>The source must be readable: a string in memory, or at least \<open>n\<close> bytes.\<close>

fun sb_readable :: "sb_op \<Rightarrow> bool" where
  "sb_readable (SAppend ok s) = (length s < 18446744073709551616)"
| "sb_readable (SAppendN ok s n) = (unat n \<le> length s)"
| "sb_readable _ = True"

fun sb_run :: "sb_op list \<Rightarrow> strbuf \<Rightarrow> (error_code list \<times> strbuf) ub" where
  "sb_run [] sb = Some ([], sb)"
| "sb_run (x # ops) sb = do { (e, t) \<leftarrow> sb_step x sb; (es, u) \<leftarrow> sb_run ops t; Some (e # es, u) }"

fun text_run :: "sb_op list \<Rightarrow> error_code list \<Rightarrow> byte list \<Rightarrow> byte list" where
  "text_run (x # ops) (e # es) txt = text_run ops es (sb_after x e txt)"
| "text_run _ _ txt = txt"

lemma sb_step_spec:
  assumes "sb_inv sb" and "sb_readable x"
  shows "\<exists>e t. sb_step x sb = Some (e, t) \<and> sb_inv t \<and> sb_text t = sb_after x e (sb_text sb)"
proof (cases x)
  case (SAppend ok s)
  then show ?thesis using strbuf_append_spec [OF assms(1), of s ok] assms(2) by (auto simp: sb_after_def)
next
  case (SAppendN ok s n)
  then show ?thesis using strbuf_append_n_spec [OF assms(1), of n s ok] assms(2) by (auto simp: sb_after_def)
next
  case (SChar ok c)
  then show ?thesis using strbuf_append_n_spec [OF assms(1), of 1 "[c]" ok]
    by (auto simp: sb_after_def strbuf_append_char_def)
next
  case (SFormat ok t)
  then show ?thesis using strbuf_appendf_spec [OF assms(1), of ok t] by (auto simp: sb_after_def)
next
  case SClear
  then show ?thesis using strbuf_clear_spec [OF assms(1)] by (auto simp: sb_after_def)
qed

lemma sb_run_spec:
  assumes "sb_inv sb" and "\<And>x. x \<in> set ops \<Longrightarrow> sb_readable x"
  shows "\<exists>es t. sb_run ops sb = Some (es, t) \<and> sb_inv t \<and> sb_text t = text_run ops es (sb_text sb)"
  using assms
proof (induction ops arbitrary: sb)
  case (Cons x ops)
  obtain e t where t: "sb_step x sb = Some (e, t)" "sb_inv t" "sb_text t = sb_after x e (sb_text sb)"
    using sb_step_spec [OF Cons.prems(1), of x] Cons.prems(2) by auto
  obtain es u where u: "sb_run ops t = Some (es, u)" "sb_inv u" "sb_text u = text_run ops es (sb_text t)"
    using Cons.IH [OF t(2)] Cons.prems(2) by auto
  show ?case using t u by (intro exI [of _ "e # es"] exI [of _ u]) simp
qed simp

section \<open>Properties\<close>

text \<open>
  C16. From \<open>strbuf_init\<close>, every sequence of appends (strings, byte ranges, characters,
  formatted text) and clears ends, stays inside the block, and leaves the builder holding
  exactly the concatenation of what was accepted since the last clear, NUL-terminated: as
  long as no NUL was appended, \<open>strbuf_cstr\<close> reads back as that text.
\<close>

theorem strbuf_holds_appended_text:
  assumes "strbuf_init ok (Some sb0) = Some (ERR_OK, Some sb)" and "\<And>x. x \<in> set ops \<Longrightarrow> sb_readable x"
  shows "\<exists>es t. sb_run ops sb = Some (es, t) \<and> sb_text t = text_run ops es []
           \<and> (0 \<notin> set (text_run ops es []) \<longrightarrow>
              Option.bind (strbuf_cstr (Some t)) c_string = Some (text_run ops es []))"
proof -
  have sb: "sb_inv sb" "sb_text sb = []" using strbuf_init_spec [OF assms(1)] by auto
  obtain es t where t: "sb_run ops sb = Some (es, t)" "sb_inv t" "sb_text t = text_run ops es []"
    using sb_run_spec [OF sb(1), of ops] assms(2) unfolding sb(2) by blast
  obtain d where d: "sb_data t = Some d" using t(2) by (auto simp: sb_inv_def)
  have "0 \<notin> set (sb_text t) \<Longrightarrow> Option.bind (strbuf_cstr (Some t)) c_string = Some (sb_text t)"
    using sb_block_shape [OF t(2) d] d c_string_append by (auto simp: strbuf_cstr_def)
  then show ?thesis using t by auto
qed

theorem strbuf_holds_appended_text_witness:
  "\<exists>es t. sb_run [SAppend True [72, 105], SChar False 33, SFormat True (Some [52, 50])]
       \<lparr>sb_data = Some (Some 0 # replicate 31 None), sb_len = 0, sb_cap = 32\<rparr> = Some (es, t)
     \<and> sb_text t = text_run [SAppend True [72, 105], SChar False 33, SFormat True (Some [52, 50])] es []"
proof -
  let ?ops = "[SAppend True [72, 105], SChar False 33, SFormat True (Some [52, 50])]"
  have "strbuf_init True (Some \<lparr>sb_data = None, sb_len = 0, sb_cap = 0\<rparr>)
      = Some (ERR_OK, Some \<lparr>sb_data = Some (Some 0 # replicate 31 None), sb_len = 0, sb_cap = 32\<rparr>)"
    by (simp add: strbuf_init_def malloc_def store_def)
  moreover have "\<And>x. x \<in> set ?ops \<Longrightarrow> sb_readable x" by auto
  ultimately show ?thesis using strbuf_holds_appended_text by blast
qed

text \<open>\<open>strbuf_take\<close> hands the text over and leaves an empty builder, or a destroyed one.\<close>

lemma strbuf_take_spec:
  assumes "sb_inv sb"
  shows "\<exists>d sb'. strbuf_take ok (Some sb) = Some (Some d, Some sb') \<and> sb_data sb = Some d
           \<and> (if ok then sb_inv sb' \<and> sb_text sb' = [] else sb_data sb' = None)"
proof -
  obtain d where d: "sb_data sb = Some d" using assms by (auto simp: sb_inv_def)
  then show ?thesis
    by (auto simp: strbuf_take_def strbuf_init_def malloc_def store_def sb_inv_def sb_text_def)
qed

end
