(* ===== verification/CLib.thy ===== *)
theory CLib
  imports Core
begin

text \<open>
  What the code uses of the C library on bytes and strings, in the C locale: character
  classes, \<open>memchr\<close>, \<open>memcmp\<close> and \<open>strtol\<close>. A pointer to bytes is the list of bytes readable
  from it; reading past its end is undefined (\<open>None\<close>).
\<close>

named_theorems ctype_simps \<open>character classes\<close>

definition c_isspace :: "byte \<Rightarrow> bool" where
  [ctype_simps]: "c_isspace b \<longleftrightarrow> b = 32 \<or> 9 \<le> b \<and> b \<le> 13"

definition c_isdigit :: "byte \<Rightarrow> bool" where
  [ctype_simps]: "c_isdigit b \<longleftrightarrow> 48 \<le> b \<and> b \<le> 57"

text \<open>A C string in memory: its characters and the terminator.\<close>

definition cstr :: "byte list \<Rightarrow> byte list" where
  "cstr s = s @ [0]"

text \<open>\<open>memchr\<close> over \<open>n\<close> bytes: the index of the first occurrence, \<open>None\<close> inside for \<open>NULL\<close>.\<close>

fun memchr :: "byte list \<Rightarrow> byte \<Rightarrow> nat \<Rightarrow> nat option ub" where
  "memchr p c 0 = Some None"
| "memchr [] c (Suc n) = None"
| "memchr (b # p) c (Suc n) =
     (if b = c then Some (Some 0) else map_option (map_option Suc) (memchr p c n))"

text \<open>\<open>memcmp\<close> used for equality.\<close>

definition mem_equal :: "byte list \<Rightarrow> byte list \<Rightarrow> nat \<Rightarrow> bool ub" where
  "mem_equal p q n = do { a \<leftarrow> load 0 n p; b \<leftarrow> load 0 n q; Some (a = b) }"

lemma memchr_spec:
  "n \<le> length p \<Longrightarrow>
   memchr p c n = Some (if c \<in> set (take n p) then Some (length (takeWhile (\<lambda>b. b \<noteq> c) (take n p))) else None)"
  by (induction p c n rule: memchr.induct) auto

lemma mem_equal_spec:
  "n \<le> length p \<Longrightarrow> n \<le> length q \<Longrightarrow> mem_equal p q n = Some (take n p = take n q)"
  by (simp add: mem_equal_def load_def)

section \<open>Decimal numbers\<close>

definition digit_val :: "byte \<Rightarrow> int" where
  "digit_val b = uint b - 48"

definition dec_value :: "byte list \<Rightarrow> int" where
  "dec_value ds = foldl (\<lambda>v b. 10 * v + digit_val b) 0 ds"

abbreviation LONG_MAX :: int where "LONG_MAX \<equiv> 9223372036854775807"
abbreviation LONG_MIN :: int where "LONG_MIN \<equiv> - 9223372036854775808"

text \<open>
  \<open>strtol (s, &end, 10)\<close>: leading white space, an optional sign, digits. The result is the
  value, the index \<open>end\<close> points to (0 when there is no digit), and whether \<open>errno\<close> became
  \<open>ERANGE\<close>.
\<close>

definition strtol :: "byte list \<Rightarrow> int \<times> nat \<times> bool" where
  "strtol s =
     (let ws = takeWhile c_isspace s; r = dropWhile c_isspace s;
          signed = (r \<noteq> [] \<and> (hd r = 43 \<or> hd r = 45));
          neg = (r \<noteq> [] \<and> hd r = 45);
          ds = takeWhile c_isdigit (if signed then tl r else r);
          v = (if neg then - dec_value ds else dec_value ds)
      in if ds = [] then (0, 0, False)
         else (if v > LONG_MAX then LONG_MAX else if v < LONG_MIN then LONG_MIN else v,
               length ws + (if signed then 1 else 0) + length ds,
               v > LONG_MAX \<or> v < LONG_MIN))"

text \<open>How \<open>printf\<close> writes a number with \<open>%ld\<close>.\<close>

fun dec_nat :: "nat \<Rightarrow> byte list" where
  "dec_nat n = (if n < 10 then [] else dec_nat (n div 10)) @ [48 + word_of_nat (n mod 10)]"

declare dec_nat.simps [simp del]

definition dec_int :: "int \<Rightarrow> byte list" where
  "dec_int v = (if v < 0 then 45 # dec_nat (nat (- v)) else dec_nat (nat v))"

lemma uint_digit: "k < 10 \<Longrightarrow> uint (48 + word_of_nat k :: byte) = 48 + int k"
proof -
  assume k: "k < 10"
  then have "k = 0 \<or> k = 1 \<or> k = 2 \<or> k = 3 \<or> k = 4 \<or> k = 5 \<or> k = 6 \<or> k = 7 \<or> k = 8 \<or> k = 9"
    by arith
  then show ?thesis by (elim disjE) simp_all
qed

lemma digit_ok: "k < 10 \<Longrightarrow> c_isdigit (48 + word_of_nat k)"
  using uint_digit [of k] by (simp add: c_isdigit_def word_le_def)

lemma dec_nat_digits: "b \<in> set (dec_nat n) \<Longrightarrow> c_isdigit b"
proof (induction n rule: dec_nat.induct)
  case (1 n)
  then show ?case
    by (subst (asm) (2) dec_nat.simps) (auto simp: digit_ok split: if_splits)
qed

lemma dec_nat_Nil [simp]: "dec_nat n \<noteq> []"
  by (subst dec_nat.simps) simp

lemma dec_value_snoc: "dec_value (ds @ [b]) = 10 * dec_value ds + digit_val b"
  by (simp add: dec_value_def)

lemma dec_value_nat: "dec_value (dec_nat n) = int n"
proof (induction n rule: dec_nat.induct)
  case (1 n)
  have d: "digit_val (48 + word_of_nat (n mod 10)) = int (n mod 10)"
    by (simp add: digit_val_def uint_digit)
  show ?case
  proof (cases "n < 10")
    case True
    then have e: "dec_nat n = [48 + word_of_nat n]" by (subst dec_nat.simps) simp
    show ?thesis unfolding e using uint_digit [OF True] by (simp add: dec_value_def digit_val_def)
  next
    case False
    then have e: "dec_nat n = dec_nat (n div 10) @ [48 + word_of_nat (n mod 10)]"
      by (subst dec_nat.simps) simp
    have "10 * int (n div 10) + int (n mod 10) = int (10 * (n div 10) + n mod 10)"
      by (simp only: of_nat_add of_nat_mult of_nat_numeral)
    also have "\<dots> = int n" by (simp only: mult_div_mod_eq)
    finally show ?thesis unfolding e dec_value_snoc d 1 [OF False] .
  qed
qed

lemma length_dec_nat: "n < 10 ^ k \<Longrightarrow> 0 < k \<Longrightarrow> length (dec_nat n) \<le> k"
proof (induction n arbitrary: k rule: dec_nat.induct)
  case (1 n)
  show ?case
  proof (cases "n < 10")
    case True
    then show ?thesis using 1(3) by (subst dec_nat.simps) simp
  next
    case False
    obtain j where j: "k = Suc j" using 1(3) by (cases k) auto
    have "0 < j" using False 1(2) j by (cases j) auto
    note k = j this
    have "n div 10 < 10 ^ j" using 1(2) k by (simp add: div_less_iff_less_mult mult.commute)
    from 1(1) [OF False this k(2)] show ?thesis using k False by (subst dec_nat.simps) simp
  qed
qed

lemma takeWhile_digits: "\<forall>b \<in> set ds. c_isdigit b \<Longrightarrow> \<not> c_isdigit z \<Longrightarrow> takeWhile c_isdigit (ds @ z # rest) = ds"
  by (induction ds) auto

lemma digit_not_space: "c_isdigit b \<Longrightarrow> \<not> c_isspace b"
  by (auto simp: ctype_simps word_le_def)

lemma digit_not_sign: "c_isdigit b \<Longrightarrow> b \<noteq> 43 \<and> b \<noteq> 45"
  by (auto simp: ctype_simps)

text \<open>Reading back what was printed.\<close>

lemma strtol_dec_int:
  assumes "LONG_MIN \<le> v" and "v \<le> LONG_MAX"
  shows "strtol (cstr (dec_int v)) = (v, length (dec_int v), False)"
proof -
  have digs: "\<forall>b \<in> set (dec_nat n). c_isdigit b" for n using dec_nat_digits by blast
  have z: "\<not> c_isdigit 0" by (simp add: c_isdigit_def)
  have tw: "takeWhile c_isdigit (dec_nat n @ [0]) = dec_nat n" for n
    using takeWhile_digits [OF digs z, of n "[]"] .
  have hd: "c_isdigit (hd (dec_nat n))" for n using digs [of n] dec_nat_Nil [of n] by (metis hd_in_set)
  show ?thesis
  proof (cases "v < 0")
    case True
    have "\<not> c_isspace 45" by (simp add: c_isspace_def)
    then show ?thesis using True assms tw
      by (simp add: strtol_def cstr_def dec_int_def dec_value_nat Let_def)
  next
    case False
    have ns: "dropWhile c_isspace (dec_nat n @ [0]) = dec_nat n @ [0]"
        "takeWhile c_isspace (dec_nat n @ [0]) = []" for n
      using hd [of n] dec_nat_Nil [of n] digit_not_space by (cases "dec_nat n"; auto)+
    have sg: "hd (dec_nat n @ [0]) \<noteq> 43 \<and> hd (dec_nat n @ [0]) \<noteq> 45" for n
      using hd [of n] digit_not_sign dec_nat_Nil [of n] by (metis hd_append2)
    show ?thesis using False assms tw ns sg
      by (simp add: strtol_def cstr_def dec_int_def dec_value_nat Let_def)
  qed
qed

text \<open>A number as text, and \<open>%0wd\<close>: filled with zeros on the left, after the sign.\<close>

definition int_text :: "int \<Rightarrow> string" where
  "int_text i = map (\<lambda>b. char_of (unat b)) (dec_int i)"

definition zero_pad :: "nat \<Rightarrow> int \<Rightarrow> string" where
  "zero_pad w i =
     (let ds = int_text \<bar>i\<bar>; sign = (if i < 0 then ''-'' else '''')
      in sign @ replicate (w - length sign - length ds) CHR ''0'' @ ds)"

lemma length_int_text: "0 \<le> i \<Longrightarrow> i < 10 ^ k \<Longrightarrow> 0 < k \<Longrightarrow> length (int_text i) \<le> k"
  using length_dec_nat [of "nat i" k] by (simp add: int_text_def dec_int_def nat_less_iff)

lemma length_zero_pad: "0 \<le> i \<Longrightarrow> i < 10 ^ w \<Longrightarrow> 0 < w \<Longrightarrow> length (zero_pad w i) = w"
  using length_int_text [of i w] by (simp add: zero_pad_def Let_def)

lemma int_text_printable: "c \<in> set (int_text i) \<Longrightarrow> c \<noteq> CHR 0x0A"
proof -
  assume "c \<in> set (int_text i)"
  then obtain b where b: "b \<in> set (dec_int i)" "c = char_of (unat b)" by (auto simp: int_text_def)
  have "b = 45 \<or> c_isdigit b" using b(1) dec_nat_digits by (auto simp: dec_int_def split: if_splits)
  then have "45 \<le> unat b" by (auto simp: ctype_simps word_le_nat_alt)
  moreover have "unat b < 256" by (rule order.strict_trans2 [OF unsigned_less]) simp
  ultimately have "of_char c \<noteq> (10 :: nat)" using b(2) by (simp add: take_bit_eq_mod)
  then show ?thesis by auto
qed

end
