(* ===== verification/StrView.thy ===== *)
theory StrView
  imports CLib
begin

text \<open>
  The string views of \<open>src/containers/str.c\<close>. The pointer of a view is the list of bytes
  readable from it (\<open>None\<close> for \<open>NULL\<close>), so advancing it drops bytes; reading past the end is
  undefined (\<open>None\<close>). A view is valid when its length is within what is readable.
\<close>

section \<open>State and operations\<close>

record strview =
  sv_data :: "byte list option"
  sv_len :: size_t

definition sv_from :: "byte list option \<Rightarrow> strview" where
  "sv_from s = \<lparr>sv_data = map_option cstr s,
               sv_len = (case s of None \<Rightarrow> 0 | Some t \<Rightarrow> word_of_nat (length t))\<rparr>"

definition sv_from_n :: "byte list option \<Rightarrow> size_t \<Rightarrow> strview" where
  "sv_from_n p n = \<lparr>sv_data = p, sv_len = (if p = None then 0 else n)\<rparr>"

definition sv_slice :: "strview \<Rightarrow> size_t \<Rightarrow> size_t \<Rightarrow> strview" where
  "sv_slice sv start0 end0 =
     (let start1 = (if start0 > sv_len sv then sv_len sv else start0);
          end1 = (if end0 > sv_len sv then sv_len sv else end0);
          start2 = (if start1 > end1 then end1 else start1)
      in \<lparr>sv_data = map_option (drop (unat start2)) (sv_data sv), sv_len = end1 - start2\<rparr>)"

definition sv_eq :: "strview \<Rightarrow> strview \<Rightarrow> bool ub" where
  "sv_eq a b =
     (if sv_len a \<noteq> sv_len b then Some False
      else if sv_len a = 0 then Some True
      else do { p \<leftarrow> sv_data a; q \<leftarrow> sv_data b; mem_equal p q (unat (sv_len a)) })"

definition sv_eq_cstr :: "strview \<Rightarrow> byte list option \<Rightarrow> bool ub" where
  "sv_eq_cstr sv s = (if s = None then Some False else sv_eq sv (sv_from s))"

definition sv_starts_with :: "strview \<Rightarrow> byte list option \<Rightarrow> bool ub" where
  "sv_starts_with sv prefix =
     (case prefix of
        None \<Rightarrow> Some False
      | Some t \<Rightarrow> let n = word_of_nat (length t) in
          if \<not> n \<le> sv_len sv then Some False
          else if n = 0 then Some True
          else do { p \<leftarrow> sv_data sv; mem_equal p (cstr t) (unat n) })"

definition sv_ends_with :: "strview \<Rightarrow> byte list option \<Rightarrow> bool ub" where
  "sv_ends_with sv suffix =
     (case suffix of
        None \<Rightarrow> Some False
      | Some t \<Rightarrow> let n = word_of_nat (length t) in
          if \<not> n \<le> sv_len sv then Some False
          else if n = 0 then Some True
          else do { p \<leftarrow> sv_data sv; mem_equal (drop (unat (sv_len sv - n)) p) (cstr t) (unat n) })"

text \<open>The two loops of \<open>trim\<close>.\<close>

fun trim_front :: "byte list \<Rightarrow> nat \<Rightarrow> (byte list \<times> nat) ub" where
  "trim_front p 0 = Some (p, 0)"
| "trim_front [] (Suc n) = None"
| "trim_front (b # p) (Suc n) = (if c_isspace b then trim_front p n else Some (b # p, Suc n))"

primrec trim_back :: "byte list \<Rightarrow> nat \<Rightarrow> nat ub" where
  "trim_back p 0 = Some 0"
| "trim_back p (Suc n) =
     (if length p \<le> n then None else if c_isspace (p ! n) then trim_back p n else Some (Suc n))"

definition sv_trim :: "strview \<Rightarrow> strview ub" where
  "sv_trim sv =
     (case sv_data sv of
        None \<Rightarrow> if sv_len sv = 0 then Some sv else None
      | Some p \<Rightarrow> do {
          (q, n) \<leftarrow> trim_front p (unat (sv_len sv));
          m \<leftarrow> trim_back q n;
          Some \<lparr>sv_data = Some q, sv_len = word_of_nat m\<rparr> })"

text \<open>Whether a token was produced, the token, and the remainder.\<close>

definition sv_split_next ::
  "strview option \<Rightarrow> byte \<Rightarrow> strview option \<Rightarrow> (bool \<times> strview option \<times> strview option) ub" where
  "sv_split_next rest delim out =
     (case (rest, out) of
        (Some r, Some tk) \<Rightarrow>
          (case sv_data r of
             None \<Rightarrow> Some (False, out, rest)
           | Some p \<Rightarrow> do {
               sep \<leftarrow> memchr p delim (unat (sv_len r));
               case sep of
                 Some i \<Rightarrow>
                   Some (True, Some \<lparr>sv_data = Some p, sv_len = word_of_nat i\<rparr>,
                         Some \<lparr>sv_data = Some (drop (Suc i) p),
                               sv_len = sv_len r - (word_of_nat i + 1)\<rparr>)
               | None \<Rightarrow> Some (True, Some r, Some \<lparr>sv_data = None, sv_len = 0\<rparr>) })
      | _ \<Rightarrow> Some (False, out, rest))"

definition sv_to_cstr :: "strview \<Rightarrow> block option \<Rightarrow> size_t \<Rightarrow> (error_code \<times> block option) ub" where
  "sv_to_cstr sv buf cap =
     (case buf of
        None \<Rightarrow> Some (ERR_INVALID_ARG, buf)
      | Some d \<Rightarrow>
          if sv_len sv > 0 \<and> sv_data sv = None then Some (ERR_INVALID_ARG, buf)
          else if cap < sv_len sv + 1 then Some (ERR_OVERFLOW, buf)
          else do {
            d1 \<leftarrow> (if sv_len sv > 0
                   then do { p \<leftarrow> sv_data sv; src \<leftarrow> load 0 (unat (sv_len sv)) p; store 0 (map Some src) d }
                   else Some d);
            d2 \<leftarrow> store (unat (sv_len sv)) [Some 0] d1;
            Some (ERR_OK, Some d2) })"

text \<open>
  \<open>want\<close> is whether \<open>out\<close> is not \<open>NULL\<close>. The local array of 24 bytes is read by \<open>strtol\<close> up
  to its terminator, and all of these cells were written.
\<close>

definition sv_parse_long :: "strview \<Rightarrow> bool \<Rightarrow> (error_code \<times> int option) ub" where
  "sv_parse_long sv want =
     (if \<not> want then Some (ERR_INVALID_ARG, None)
      else if sv_len sv = 0 then Some (ERR_INVALID_ARG, None)
      else if sv_len sv \<ge> 24 then Some (ERR_OVERFLOW, None)
      else do {
        (err, buf) \<leftarrow> sv_to_cstr sv (Some (replicate 24 None)) 24;
        if err \<noteq> ERR_OK then Some (err, None)
        else do {
          d \<leftarrow> buf;
          let s = map the (take (unat (sv_len sv) + 1) d);
          (let (v, e, erange) = strtol s in
           if erange then Some (ERR_OVERFLOW, None)
           else if e = 0 \<or> s ! e \<noteq> 0 then Some (ERR_INVALID_ARG, None)
           else Some (ERR_OK, Some v)) } })"

section \<open>What a view denotes\<close>

definition sv_ok :: "strview \<Rightarrow> bool" where
  "sv_ok sv \<longleftrightarrow>
     (case sv_data sv of None \<Rightarrow> sv_len sv = 0 | Some p \<Rightarrow> unat (sv_len sv) \<le> length p)"

definition sv_bytes :: "strview \<Rightarrow> byte list" where
  "sv_bytes sv = (case sv_data sv of None \<Rightarrow> [] | Some p \<Rightarrow> take (unat (sv_len sv)) p)"

lemma length_sv_bytes: "sv_ok sv \<Longrightarrow> length (sv_bytes sv) = unat (sv_len sv)"
  by (auto simp: sv_ok_def sv_bytes_def split: option.splits)

lemma sv_from_ok:
  "length s < 18446744073709551615 \<Longrightarrow> sv_ok (sv_from (Some s)) \<and> sv_bytes (sv_from (Some s)) = s"
  by (simp add: sv_from_def sv_ok_def sv_bytes_def cstr_def unat_word_of_nat)

lemma sv_slice_spec:
  assumes "sv_ok sv"
  shows "sv_ok (sv_slice sv i j)"
    and "sv_bytes (sv_slice sv i j) = drop (unat i) (take (unat j) (sv_bytes sv))"
proof -
  let ?n = "unat (sv_len sv)"
  define j1 where "j1 = (if j > sv_len sv then sv_len sv else j)"
  define i1 where "i1 = (if i > sv_len sv then sv_len sv else i)"
  define i2 where "i2 = (if i1 > j1 then j1 else i1)"
  have j1: "unat j1 = min ?n (unat j)" by (auto simp: j1_def word_less_unat)
  have i2: "unat i2 = min (unat i) (unat j1)" "i2 \<le> j1"
    by (auto simp: i2_def i1_def j1_def word_less_unat word_le_unat)
  have sl: "sv_slice sv i j = \<lparr>sv_data = map_option (drop (unat i2)) (sv_data sv), sv_len = j1 - i2\<rparr>"
    by (simp add: sv_slice_def Let_def i2_def i1_def j1_def)
  have len: "unat (j1 - i2) = unat j1 - unat i2" using i2(2) by (rule unat_diff_le)
  show "sv_ok (sv_slice sv i j)"
    using assms len i2(1) j1 by (auto simp: sl sv_ok_def unat_eq_0 [symmetric] intro!: diff_le_mono split: option.splits)
  show "sv_bytes (sv_slice sv i j) = drop (unat i) (take (unat j) (sv_bytes sv))"
  proof (cases "sv_data sv")
    case None
    then show ?thesis by (simp add: sl sv_bytes_def)
  next
    case (Some p)
    have "drop (unat i) (take (unat j) (take ?n p)) = drop (unat i) (take (unat j1) p)"
      by (simp add: j1 min.commute)
    also have "\<dots> = drop (unat i2) (take (unat j1) p)"
      by (cases "unat i \<le> unat j1") (simp_all add: i2(1) min_def)
    moreover have "unat i2 \<le> unat j1" using i2(2) by (simp add: word_le_unat)
    ultimately show ?thesis using Some by (simp add: sl sv_bytes_def len take_drop)
  qed
qed

lemma sv_eq_spec:
  "sv_ok a \<Longrightarrow> sv_ok b \<Longrightarrow> sv_eq a b = Some (sv_bytes a = sv_bytes b)"
proof -
  assume ok: "sv_ok a" "sv_ok b"
  show ?thesis
  proof (cases "sv_len a = sv_len b")
    case False
    then show ?thesis using length_sv_bytes [OF ok(1)] length_sv_bytes [OF ok(2)]
      by (auto simp: sv_eq_def word_eq_unat)
  next
    case True
    then show ?thesis using ok
      by (auto simp: sv_eq_def sv_ok_def sv_bytes_def mem_equal_spec split: option.splits)
  qed
qed

lemma trim_front_spec:
  "n \<le> length p \<Longrightarrow>
   \<exists>q m. trim_front p n = Some (q, m) \<and> m \<le> length q \<and> m \<le> n \<and> take m q = dropWhile c_isspace (take n p)"
  by (induction p n rule: trim_front.induct) (auto intro: le_SucI)

lemma trim_back_spec:
  "n \<le> length p \<Longrightarrow>
   \<exists>m. trim_back p n = Some m \<and> m \<le> n
     \<and> take m p = rev (dropWhile c_isspace (rev (take n p)))"
  by (induction n) (auto simp: take_Suc_conv_app_nth intro: le_SucI)

lemma sv_trim_spec:
  assumes "sv_ok sv"
  shows "\<exists>tr. sv_trim sv = Some tr \<and> sv_ok tr
     \<and> sv_bytes tr = rev (dropWhile c_isspace (rev (dropWhile c_isspace (sv_bytes sv))))"
proof (cases "sv_data sv")
  case None
  then show ?thesis using assms by (auto simp: sv_trim_def sv_ok_def sv_bytes_def)
next
  case (Some p)
  then have n: "unat (sv_len sv) \<le> length p" using assms by (simp add: sv_ok_def)
  obtain q m where q: "trim_front p (unat (sv_len sv)) = Some (q, m)" "m \<le> length q"
      "m \<le> unat (sv_len sv)" "take m q = dropWhile c_isspace (take (unat (sv_len sv)) p)"
    using trim_front_spec [OF n] by blast
  obtain k where k: "trim_back q m = Some k" "k \<le> m" "take k q = rev (dropWhile c_isspace (rev (take m q)))"
    using trim_back_spec [OF q(2)] by blast
  have "unat (word_of_nat k :: size_t) = k"
    using k(2) q(3) unat_less_2p64 [of "sv_len sv"] by (intro unat_word_of_nat) linarith
  then show ?thesis using Some q k by (auto simp: sv_trim_def sv_ok_def sv_bytes_def)
qed

section \<open>Splitting\<close>

text \<open>The tokens the split iterator yields, until it returns false (at most \<open>n\<close> calls).\<close>

primrec split_all :: "nat \<Rightarrow> strview \<Rightarrow> byte \<Rightarrow> byte list list ub" where
  "split_all 0 rest delim = None"
| "split_all (Suc n) rest delim =
     do { (more, tk, rest') \<leftarrow> sv_split_next (Some rest) delim (Some \<lparr>sv_data = None, sv_len = 0\<rparr>);
          if more then do { t \<leftarrow> tk; r \<leftarrow> rest'; map_option ((#) (sv_bytes t)) (split_all n r delim) }
          else Some [] }"

text \<open>The reference: cut at every delimiter, and join back.\<close>

fun split_on :: "byte \<Rightarrow> byte list \<Rightarrow> byte list list" where
  "split_on d [] = [[]]"
| "split_on d (b # s) =
     (if b = d then [] # split_on d s else (b # hd (split_on d s)) # tl (split_on d s))"

definition join :: "byte \<Rightarrow> byte list list \<Rightarrow> byte list" where
  "join d ts = concat (map (\<lambda>t. t @ [d]) (butlast ts)) @ last ts"

lemma split_on_ne [simp]: "split_on d s \<noteq> []"
  by (cases "(d, s)" rule: split_on.cases) auto

lemma join_Cons: "ts \<noteq> [] \<Longrightarrow> join d (t # ts) = t @ d # join d ts"
  by (simp add: join_def)

lemma join_split_on: "join d (split_on d s) = s"
proof (induction s)
  case (Cons b s)
  obtain t ts where t: "split_on d s = t # ts" by (metis split_on_ne list.exhaust)
  then have "join d ((b # t) # ts) = b # join d (t # ts)" by (cases ts) (simp_all add: join_def)
  then show ?case using Cons t by (simp add: join_Cons)
qed (simp add: join_def)

lemma split_on_no_delim: "t \<in> set (split_on d s) \<Longrightarrow> d \<notin> set t"
proof (induction s arbitrary: t)
  case (Cons b s)
  have "hd (split_on d s) \<in> set (split_on d s)" "\<And>x. x \<in> set (tl (split_on d s)) \<Longrightarrow> x \<in> set (split_on d s)"
    by (simp, meson list.set_sel(2) split_on_ne)
  then show ?case using Cons by (auto split: if_splits)
qed simp

lemma length_split_on: "length (split_on d s) = count_list s d + 1"
  by (induction s) simp_all

lemma split_on_takeWhile:
  "split_on d s = (if d \<in> set s then takeWhile (\<lambda>b. b \<noteq> d) s # split_on d (drop (Suc (length (takeWhile (\<lambda>b. b \<noteq> d) s))) s)
                   else [s])"
  by (induction s) auto

lemma length_takeWhile_neq: "d \<in> set s \<Longrightarrow> length (takeWhile (\<lambda>b. b \<noteq> d) s) < length s"
  by (induction s) auto

lemma sv_split_step:
  assumes "sv_ok sv" and "sv_data sv = Some p"
  shows "\<exists>tk rest. sv_split_next (Some sv) d (Some out) = Some (True, Some tk, Some rest) \<and> sv_ok rest
     \<and> (if d \<in> set (sv_bytes sv)
        then sv_bytes tk = takeWhile (\<lambda>b. b \<noteq> d) (sv_bytes sv) \<and> sv_data rest \<noteq> None
           \<and> sv_bytes rest = drop (Suc (length (takeWhile (\<lambda>b. b \<noteq> d) (sv_bytes sv)))) (sv_bytes sv)
        else sv_bytes tk = sv_bytes sv \<and> sv_data rest = None)"
proof -
  let ?n = "unat (sv_len sv)" and ?s = "sv_bytes sv"
  have n: "?n \<le> length p" and s: "?s = take ?n p" using assms by (simp_all add: sv_ok_def sv_bytes_def)
  note m = memchr_spec [OF n, of d]
  show ?thesis
  proof (cases "d \<in> set ?s")
    case False
    then show ?thesis using m assms s by (simp add: sv_split_next_def sv_ok_def)
  next
    case True
    define i where "i = length (takeWhile (\<lambda>b. b \<noteq> d) ?s)"
    have ilt: "i < ?n"
    proof -
      have "i < length ?s" unfolding i_def using True by (rule length_takeWhile_neq)
      then show ?thesis by (simp add: length_sv_bytes [OF assms(1)])
    qed
    have wi: "unat (word_of_nat i :: size_t) = i"
      using ilt unat_less_2p64 [of "sv_len sv"] by (intro unat_word_of_nat) linarith
    have wi1: "unat (word_of_nat i + 1 :: size_t) = Suc i"
      using ilt wi unat_less_2p64 [of "sv_len sv"] by (subst unat_Suc_small) simp_all
    have rl: "unat (sv_len sv - (word_of_nat i + 1)) = ?n - Suc i"
      using ilt wi1 by (subst unat_diff_le) (simp_all add: word_le_unat)
    have "take i p = take i ?s" using ilt s by simp
    also have "\<dots> = takeWhile (\<lambda>b. b \<noteq> d) ?s" unfolding i_def by (metis takeWhile_eq_take)
    finally have tk: "take i p = takeWhile (\<lambda>b. b \<noteq> d) ?s" .
    have "sv_split_next (Some sv) d (Some out) =
        Some (True, Some \<lparr>sv_data = Some p, sv_len = word_of_nat i\<rparr>,
              Some \<lparr>sv_data = Some (drop (Suc i) p), sv_len = sv_len sv - (word_of_nat i + 1)\<rparr>)"
      using m True s assms(2) by (simp add: sv_split_next_def i_def)
    moreover have "sv_bytes \<lparr>sv_data = Some (drop (Suc i) p), sv_len = sv_len sv - (word_of_nat i + 1)\<rparr>
        = drop (Suc i) ?s"
      unfolding s by (simp add: sv_bytes_def rl drop_take)
    moreover have "sv_bytes \<lparr>sv_data = Some p, sv_len = word_of_nat i\<rparr> = takeWhile (\<lambda>b. b \<noteq> d) ?s"
      by (simp add: sv_bytes_def wi tk)
    moreover have "sv_ok \<lparr>sv_data = Some (drop (Suc i) p), sv_len = sv_len sv - (word_of_nat i + 1)\<rparr>"
      using n ilt rl by (simp add: sv_ok_def)
    ultimately show ?thesis using True by (simp add: i_def)
  qed
qed

lemma split_all_spec:
  assumes "sv_ok sv" and "sv_data sv \<noteq> None" and "length (sv_bytes sv) + 2 \<le> n"
  shows "split_all n sv d = Some (split_on d (sv_bytes sv))"
  using assms
proof (induction n arbitrary: sv)
  case (Suc n)
  obtain p where p: "sv_data sv = Some p" using Suc.prems(2) by auto
  obtain tk rest where st: "sv_split_next (Some sv) d (Some \<lparr>sv_data = None, sv_len = 0\<rparr>) = Some (True, Some tk, Some rest)"
      "sv_ok rest"
    and r: "if d \<in> set (sv_bytes sv)
        then sv_bytes tk = takeWhile (\<lambda>b. b \<noteq> d) (sv_bytes sv) \<and> sv_data rest \<noteq> None
           \<and> sv_bytes rest = drop (Suc (length (takeWhile (\<lambda>b. b \<noteq> d) (sv_bytes sv)))) (sv_bytes sv)
        else sv_bytes tk = sv_bytes sv \<and> sv_data rest = None"
    using sv_split_step [OF Suc.prems(1) p] by blast
  show ?case
  proof (cases "d \<in> set (sv_bytes sv)")
    case True
    then have pos: "sv_bytes sv \<noteq> []" by auto
    have "length (sv_bytes rest) + 2 \<le> n" using r True Suc.prems(3) pos by (cases "sv_bytes sv") auto
    then have rec: "split_all n rest d = Some (split_on d (sv_bytes rest))"
      using Suc.IH [OF st(2)] r True by simp
    have "split_on d (sv_bytes sv) = sv_bytes tk # split_on d (sv_bytes rest)"
      by (subst split_on_takeWhile) (use r True in simp)
    then show ?thesis using st rec by simp
  next
    case False
    then obtain n' where n: "n = Suc n'" using Suc.prems(3) by (cases n) auto
    have "split_all n rest d = Some []" using r False by (simp add: n sv_split_next_def)
    moreover have "split_on d (sv_bytes sv) = [sv_bytes tk]"
      by (subst split_on_takeWhile) (use r False in simp)
    ultimately show ?thesis using st by simp
  qed
qed simp

section \<open>Parsing numbers\<close>

text \<open>The texts that denote a number: white space, an optional sign, digits.\<close>

definition long_text :: "byte list \<Rightarrow> int \<Rightarrow> bool" where
  "long_text s v \<longleftrightarrow>
     (\<exists>ws sg ds. s = ws @ sg @ ds \<and> (\<forall>b \<in> set ws. c_isspace b) \<and> sg \<in> {[], [43], [45]}
        \<and> ds \<noteq> [] \<and> (\<forall>b \<in> set ds. c_isdigit b)
        \<and> v = (if sg = [45] then - dec_value ds else dec_value ds))"

lemma takeWhile_spaces:
  "\<forall>b \<in> set ws. c_isspace b \<Longrightarrow> rest \<noteq> [] \<Longrightarrow> \<not> c_isspace (hd rest) \<Longrightarrow>
   takeWhile c_isspace (ws @ rest) = ws \<and> dropWhile c_isspace (ws @ rest) = rest"
  by (induction ws) (auto simp: takeWhile_eq_Nil_iff dropWhile_eq_self_iff)

lemma strtol_long_text:
  assumes "s = ws @ sg @ ds" and "\<forall>b \<in> set ws. c_isspace b" and "sg \<in> {[], [43], [45]}"
    and "ds \<noteq> []" and "\<forall>b \<in> set ds. c_isdigit b"
  defines "v \<equiv> (if sg = [45] then - dec_value ds else dec_value ds)"
  shows "strtol (cstr s) = (if v > LONG_MAX then LONG_MAX else if v < LONG_MIN then LONG_MIN else v,
                            length s, v > LONG_MAX \<or> v < LONG_MIN)"
proof -
  have z: "\<not> c_isdigit 0" by (simp add: c_isdigit_def)
  have tw: "takeWhile c_isdigit (ds @ [0]) = ds" using takeWhile_digits [OF assms(5) z, of "[]"] .
  have h: "c_isdigit (hd ds)" using assms(4,5) by simp
  have nsp: "\<not> c_isspace (hd (sg @ ds @ [0]))"
    using assms(3,4) digit_not_space [OF h] by (auto simp: c_isspace_def)
  have sp: "takeWhile c_isspace (cstr s) = ws" "dropWhile c_isspace (cstr s) = sg @ ds @ [0]"
    using takeWhile_spaces [OF assms(2) _ nsp] assms(1) by (simp_all add: cstr_def)
  have sgn: "hd ds \<noteq> 43" "hd ds \<noteq> 45" using digit_not_sign [OF h] by auto
  from assms(3) consider "sg = []" | "sg = [43]" | "sg = [45]" by blast
  then show ?thesis
  proof cases
    case 1
    then show ?thesis using sp tw sgn assms(4) by (simp add: strtol_def Let_def assms(1) v_def)
  next
    case 2
    then show ?thesis using sp tw assms(4) by (simp add: strtol_def Let_def assms(1) v_def)
  next
    case 3
    then show ?thesis using sp tw assms(4) by (simp add: strtol_def Let_def assms(1) v_def)
  qed
qed

lemma strtol_of_long_text:
  assumes "long_text s v"
  shows "strtol (cstr s) = (if v > LONG_MAX then LONG_MAX else if v < LONG_MIN then LONG_MIN else v,
                            length s, v > LONG_MAX \<or> v < LONG_MIN)"
proof -
  obtain ws sg ds where g: "s = ws @ sg @ ds" "\<forall>b \<in> set ws. c_isspace b" "sg \<in> {[], [43], [45]}"
      "ds \<noteq> []" "\<forall>b \<in> set ds. c_isdigit b" and v: "v = (if sg = [45] then - dec_value ds else dec_value ds)"
    using assms unfolding long_text_def by blast
  show ?thesis unfolding v by (rule strtol_long_text [OF g])
qed

text \<open>If \<open>strtol\<close> stops at the terminator of a string without NULs, the string is such a text.\<close>

lemma strtol_complete:
  assumes "strtol (cstr s) = (v, e, erange)" and "e \<noteq> 0" and "cstr s ! e = 0" and "0 \<notin> set s"
  shows "\<exists>w. long_text s w"
proof -
  let ?ws = "takeWhile c_isspace (cstr s)" and ?r = "dropWhile c_isspace (cstr s)"
  define sgd where "sgd = (?r \<noteq> [] \<and> (hd ?r = 43 \<or> hd ?r = 45))"
  define r' where "r' = (if sgd then tl ?r else ?r)"
  define sg where "sg = (if sgd then [hd ?r] else [])"
  let ?ds = "takeWhile c_isdigit r'"
  have ds: "?ds \<noteq> []" and e: "e = length ?ws + length sg + length ?ds"
    using assms(1,2) by (auto simp: strtol_def Let_def sgd_def r'_def sg_def split: if_splits)
  have split: "cstr s = (?ws @ sg @ ?ds) @ dropWhile c_isdigit r'"
    by (auto simp: r'_def sg_def sgd_def)
  have "e < length (cstr s)"
  proof (rule ccontr)
    assume "\<not> e < length (cstr s)"
    then have "length (dropWhile c_isdigit r') = 0"
      using e arg_cong [OF split, of length] unfolding length_append by linarith
    then have "dropWhile c_isdigit r' = []" by (simp only: length_0_conv)
    then have "last (cstr s) = last ?ds" using ds split by (metis append_Nil2 last_appendR append_is_Nil_conv)
    moreover have "last ?ds \<in> set ?ds" using ds by (rule last_in_set)
    then have "c_isdigit (last ?ds)" by (rule set_takeWhileD [THEN conjunct2])
    ultimately show False by (simp add: cstr_def c_isdigit_def)
  qed
  moreover have "e = length s"
  proof (rule ccontr)
    assume "e \<noteq> length s"
    then have "e < length s" using calculation by (simp add: cstr_def)
    then have "cstr s ! e \<in> set s" by (simp add: cstr_def nth_append)
    then show False using assms(3,4) by simp
  qed
  ultimately have "take e (cstr s) = s" by (simp add: cstr_def)
  moreover have "take e (cstr s) = ?ws @ sg @ ?ds"
    by (subst split) (simp add: e takeWhile_eq_take [symmetric])
  ultimately have s: "s = ?ws @ sg @ ?ds" by simp
  have "sg \<in> {[], [43], [45]}" by (auto simp: sg_def sgd_def)
  then show ?thesis unfolding long_text_def
    using s ds by (intro exI [of _ "if sg = [45] then - dec_value ?ds else dec_value ?ds"]
        exI [of _ ?ws] exI [of _ sg] exI [of _ ?ds]) (auto dest: set_takeWhileD)
qed

lemma sv_parse_long_step:
  assumes "sv_ok sv" and "sv_bytes sv = s" and "s \<noteq> []" and "length s < 24"
  shows "sv_parse_long sv True =
     (case strtol (cstr s) of (v, e, erange) \<Rightarrow>
        if erange then Some (ERR_OVERFLOW, None)
        else if e = 0 \<or> cstr s ! e \<noteq> 0 then Some (ERR_INVALID_ARG, None)
        else Some (ERR_OK, Some v))"
proof -
  have l: "unat (sv_len sv) = length s" using length_sv_bytes [OF assms(1)] assms(2) by simp
  have nz: "sv_len sv \<noteq> 0" using l assms(3) by auto
  have lt: "\<not> sv_len sv \<ge> 24" "\<not> (24 < sv_len sv + 1)"
  proof -
    have "unat (sv_len sv + 1) = Suc (length s)" using l assms(4) by (simp add: unat_Suc_small)
    then show "\<not> sv_len sv \<ge> 24" "\<not> (24 < sv_len sv + 1)"
      using l assms(4) by (simp_all add: word_le_unat word_less_unat)
  qed
  obtain p where p: "sv_data sv = Some p" using assms(1) nz by (auto simp: sv_ok_def split: option.splits)
  have "load 0 (length s) p = Some s"
    using assms(1,2) p l by (simp add: sv_ok_def sv_bytes_def load_def)
  moreover obtain d where d: "store 0 (map Some s) (replicate 24 None) = Some (map Some s @ d)" "length d = 24 - length s"
    using assms(4) by (simp add: store_def)
  moreover obtain b d' where "d = b # d'" using d(2) assms(4) by (cases d) auto
  then have "store (length s) [Some 0] (map Some s @ d) = Some (map Some (cstr s) @ d')"
    by (simp add: store_def cstr_def)
  ultimately have "sv_to_cstr sv (Some (replicate 24 None)) 24 = Some (ERR_OK, Some (map Some (cstr s) @ d'))"
    using p nz lt(2) l by (simp add: sv_to_cstr_def word_gt_0)
  moreover have "map the (take (unat (sv_len sv) + 1) (map Some (cstr s) @ d')) = cstr s"
    by (simp add: l cstr_def o_def)
  ultimately show ?thesis using nz lt(1)
    by (simp add: sv_parse_long_def Let_def del: take_append map_append take_Suc_conv_app_nth
        split: prod.splits)
qed

section \<open>Properties\<close>

text \<open>
  C17. The split iterator, started on any valid non-\<open>NULL\<close> view, stops and yields exactly the
  pieces between delimiters: one more than there are delimiters, none containing one, and
  joining them with the delimiter gives back the bytes of the view.
\<close>

theorem sv_split_roundtrip:
  assumes "sv_ok sv" and "sv_data sv \<noteq> None"
  shows "\<exists>ts. split_all (unat (sv_len sv) + 2) sv d = Some ts
            \<and> join d ts = sv_bytes sv \<and> (\<forall>t \<in> set ts. d \<notin> set t)
            \<and> length ts = count_list (sv_bytes sv) d + 1"
  using split_all_spec [OF assms, of "unat (sv_len sv) + 2" d] length_sv_bytes [OF assms(1)]
    join_split_on [of d "sv_bytes sv"] split_on_no_delim [of _ d "sv_bytes sv"]
    length_split_on [of d "sv_bytes sv"]
  by auto

theorem sv_split_roundtrip_witness:
  "\<exists>ts. split_all (unat (sv_len (sv_from (Some [97, 44, 44, 98]))) + 2) (sv_from (Some [97, 44, 44, 98])) 44 = Some ts
      \<and> join 44 ts = sv_bytes (sv_from (Some [97, 44, 44, 98])) \<and> length ts = 3"
proof -
  have "sv_ok (sv_from (Some [97, 44, 44, 98]))" by (simp add: sv_from_def sv_ok_def cstr_def)
  from sv_split_roundtrip [OF this, of 44] show ?thesis by (auto simp: sv_from_def sv_bytes_def cstr_def)
qed

text \<open>
  On a view without NUL bytes of at most 23 bytes, \<open>sv_parse_long\<close> succeeds with \<open>v\<close>
  exactly when the whole view is white space, an optional sign and digits that denote \<open>v\<close> and
  \<open>v\<close> fits a 64-bit \<open>long\<close>; and it reads back every number as \<open>printf\<close> writes it.
\<close>

theorem sv_parse_long_exact:
  assumes "sv_ok sv" and "0 \<notin> set (sv_bytes sv)" and "sv_len sv < 24"
  shows "(sv_parse_long sv True = Some (ERR_OK, Some v)
           \<longleftrightarrow> long_text (sv_bytes sv) v \<and> LONG_MIN \<le> v \<and> v \<le> LONG_MAX)
       \<and> (LONG_MIN \<le> v \<and> v \<le> LONG_MAX \<longrightarrow>
           sv_parse_long (sv_from (Some (dec_int v))) True = Some (ERR_OK, Some v))"
proof (intro conjI impI)
  have len: "length (sv_bytes sv) < 24"
    using length_sv_bytes [OF assms(1)] assms(3) by (simp add: word_less_unat)
  show "sv_parse_long sv True = Some (ERR_OK, Some v)
           \<longleftrightarrow> long_text (sv_bytes sv) v \<and> LONG_MIN \<le> v \<and> v \<le> LONG_MAX"
  proof (cases "sv_bytes sv = []")
    case True
    then have "sv_len sv = 0" using length_sv_bytes [OF assms(1)] by (simp add: unat_eq_0)
    then show ?thesis using True by (simp add: sv_parse_long_def long_text_def)
  next
    case False
    note step = sv_parse_long_step [OF assms(1) refl False len]
    have fwd: "long_text (sv_bytes sv) v \<and> LONG_MIN \<le> v \<and> v \<le> LONG_MAX"
      if "sv_parse_long sv True = Some (ERR_OK, Some v)"
    proof -
      obtain v' e er where st: "strtol (cstr (sv_bytes sv)) = (v', e, er)" by (metis prod_cases3)
      then have e: "strtol (cstr (sv_bytes sv)) = (v, e, False)" "e \<noteq> 0" "cstr (sv_bytes sv) ! e = 0"
        using that step by (simp_all split: if_splits)
      obtain w where w: "long_text (sv_bytes sv) w" using strtol_complete [OF e assms(2)] by blast
      then have "v = w" "LONG_MIN \<le> w" "w \<le> LONG_MAX"
        using e(1) strtol_of_long_text [OF w] by (auto split: if_splits)
      then show ?thesis using w by simp
    qed
    have "sv_parse_long sv True = Some (ERR_OK, Some v)"
      if "long_text (sv_bytes sv) v" "LONG_MIN \<le> v" "v \<le> LONG_MAX"
    proof -
      have "strtol (cstr (sv_bytes sv)) = (v, length (sv_bytes sv), False)"
        using strtol_of_long_text [OF that(1)] that(2,3) by simp
      then show ?thesis using step False by (simp add: cstr_def)
    qed
    then show ?thesis using fwd by blast
  qed
  show "sv_parse_long (sv_from (Some (dec_int v))) True = Some (ERR_OK, Some v)"
    if r: "LONG_MIN \<le> v \<and> v \<le> LONG_MAX"
  proof -
    have "\<bar>v\<bar> < 10000000000000000000" using r by linarith
    then have "nat \<bar>v\<bar> < 10 ^ 19" by (simp add: nat_less_iff)
    then have "length (dec_nat (nat \<bar>v\<bar>)) \<le> 19" by (rule length_dec_nat) simp
    then have l: "length (dec_int v) < 24"
      by (cases "v < 0") (simp_all add: dec_int_def)
    have ne: "dec_int v \<noteq> []" by (simp add: dec_int_def)
    have ok: "sv_ok (sv_from (Some (dec_int v)))" "sv_bytes (sv_from (Some (dec_int v))) = dec_int v"
      using sv_from_ok [of "dec_int v"] l by auto
    show ?thesis
      using sv_parse_long_step [OF ok ne l] strtol_dec_int [of v] r ne by (simp add: cstr_def)
  qed
qed

theorem sv_parse_long_exact_witness:
  "(sv_parse_long (sv_from (Some [32, 45, 52, 50])) True = Some (ERR_OK, Some (- 42))
      \<longleftrightarrow> long_text (sv_bytes (sv_from (Some [32, 45, 52, 50]))) (- 42) \<and> LONG_MIN \<le> - 42 \<and> - 42 \<le> LONG_MAX)
   \<and> sv_parse_long (sv_from (Some (dec_int (- 42)))) True = Some (ERR_OK, Some (- 42))"
proof -
  let ?sv = "sv_from (Some [32, 45, 52, 50])"
  have "sv_ok ?sv" "0 \<notin> set (sv_bytes ?sv)" "sv_len ?sv < 24"
    by (simp_all add: sv_from_def sv_ok_def sv_bytes_def cstr_def word_less_unat)
  from sv_parse_long_exact [OF this, of "- 42"] show ?thesis by auto
qed

text \<open>
  A NUL inside the view hides what follows, and 24 characters are reported as an overflow
  even when they denote a small number.
\<close>

lemma sv_parse_long_embedded_nul:
  "sv_parse_long \<lparr>sv_data = Some [49, 50, 0, 120], sv_len = 4\<rparr> True = Some (ERR_OK, Some 12)"
  by (subst sv_parse_long_step [where s = "[49, 50, 0, 120]"])
     (simp_all add: sv_ok_def sv_bytes_def strtol_def ctype_simps dec_value_def digit_val_def cstr_def Let_def)

lemma sv_parse_long_leading_zeros:
  "sv_parse_long \<lparr>sv_data = Some (replicate 24 48), sv_len = 24\<rparr> True = Some (ERR_OVERFLOW, None)"
  by (simp add: sv_parse_long_def)

end
