(* ===== verification/Spsc.thy ===== *)
theory Spsc
  imports Core Fifo
begin

text \<open>
  The lock-free single-producer single-consumer ring of \<open>src/hpc/spsc.c\<close>. Each operation is
  cut at its atomic accesses into a check, a copy and a publication. Composed they are
  \<open>spsc_push\<close> and \<open>spsc_pop\<close>; interleaved they are a step relation in which an acquire load
  may return any value of the other thread's index that coherence still allows (not only the
  latest), which is what C11 promises for a location with one writer. The release store after
  the copy and the acquire load before it order the element bytes; the invariant shows the two
  threads never touch the same slot at the same time.
\<close>

section \<open>State and operations\<close>

record spsc =
  sq_data :: "block option"
  sq_elem_size :: size_t
  sq_slots :: size_t
  sq_head :: size_t
  sq_tail :: size_t

definition spsc_init :: "bool \<Rightarrow> spsc option \<Rightarrow> size_t \<Rightarrow> size_t \<Rightarrow> error_code \<times> spsc option" where
  "spsc_init ok qp elem_size capacity =
     (case qp of
        None \<Rightarrow> (ERR_INVALID_ARG, None)
      | Some q \<Rightarrow>
          if elem_size = 0 \<or> capacity = 0 then (ERR_INVALID_ARG, Some q)
          else if capacity + 1 > SIZE_MAX div elem_size then (ERR_OVERFLOW, Some q)
          else (case malloc ok ((capacity + 1) * elem_size) of
              None \<Rightarrow> (ERR_NOMEM, Some (q\<lparr>sq_data := None\<rparr>))
            | Some d \<Rightarrow> (ERR_OK, Some \<lparr>sq_data = Some d, sq_elem_size = elem_size,
                                      sq_slots = capacity + 1, sq_head = 0, sq_tail = 0\<rparr>)))"

definition spsc_destroy :: "spsc option \<Rightarrow> spsc option" where
  "spsc_destroy qp = map_option (\<lambda>q. q\<lparr>sq_data := None, sq_slots := 0\<rparr>) qp"

text \<open>The pieces of \<open>push\<close>: \<open>seen\<close> is the value the acquire load of \<open>head\<close> returned.\<close>

definition next_index :: "spsc \<Rightarrow> size_t \<Rightarrow> size_t ub" where
  "next_index q i = (if sq_slots q = 0 then None else Some ((i + 1) mod sq_slots q))"

definition push_check :: "spsc \<Rightarrow> size_t \<Rightarrow> bool ub" where
  "push_check q seen = do { n \<leftarrow> next_index q (sq_tail q); Some (n \<noteq> seen) }"

definition push_copy :: "spsc \<Rightarrow> block \<Rightarrow> spsc ub" where
  "push_copy q e =
     do { d \<leftarrow> sq_data q;
          src \<leftarrow> load 0 (unat (sq_elem_size q)) e;
          d' \<leftarrow> store (unat (sq_tail q * sq_elem_size q)) src d;
          Some (q\<lparr>sq_data := Some d'\<rparr>) }"

definition push_publish :: "spsc \<Rightarrow> spsc ub" where
  "push_publish q = do { n \<leftarrow> next_index q (sq_tail q); Some (q\<lparr>sq_tail := n\<rparr>) }"

definition spsc_push :: "spsc option \<Rightarrow> block option \<Rightarrow> (bool \<times> spsc option) ub" where
  "spsc_push qp elem =
     (case (qp, elem) of
        (Some q, Some e) \<Rightarrow>
          if sq_data q = None then Some (False, qp)
          else do {
            room \<leftarrow> push_check q (sq_head q);
            if \<not> room then Some (False, qp)
            else do { q1 \<leftarrow> push_copy q e; q2 \<leftarrow> push_publish q1; Some (True, Some q2) } }
      | _ \<Rightarrow> Some (False, qp))"

text \<open>The pieces of \<open>pop\<close>: \<open>seen\<close> is the value the acquire load of \<open>tail\<close> returned.\<close>

definition pop_check :: "spsc \<Rightarrow> size_t \<Rightarrow> bool" where
  "pop_check q seen \<longleftrightarrow> sq_head q \<noteq> seen"

definition pop_copy :: "spsc \<Rightarrow> block ub" where
  "pop_copy q =
     do { d \<leftarrow> sq_data q; load (unat (sq_head q * sq_elem_size q)) (unat (sq_elem_size q)) d }"

definition pop_publish :: "spsc \<Rightarrow> spsc ub" where
  "pop_publish q = do { n \<leftarrow> next_index q (sq_head q); Some (q\<lparr>sq_head := n\<rparr>) }"

definition spsc_pop :: "spsc option \<Rightarrow> bool \<Rightarrow> (bool \<times> block option \<times> spsc option) ub" where
  "spsc_pop qp want =
     (case qp of
        None \<Rightarrow> Some (False, None, qp)
      | Some q \<Rightarrow>
          if sq_data q = None \<or> \<not> want then Some (False, None, qp)
          else if \<not> pop_check q (sq_tail q) then Some (False, None, qp)
          else do { out \<leftarrow> pop_copy q; q1 \<leftarrow> pop_publish q; Some (True, Some out, Some q1) })"

text \<open>\<open>head\<close> and \<open>tail\<close> are the values the two relaxed loads returned.\<close>

definition spsc_len :: "spsc option \<Rightarrow> size_t \<Rightarrow> size_t \<Rightarrow> size_t ub" where
  "spsc_len qp head tail =
     (case qp of
        None \<Rightarrow> Some 0
      | Some q \<Rightarrow>
          if sq_data q = None then Some 0
          else if sq_slots q = 0 then None
          else Some ((tail + sq_slots q - head) mod sq_slots q))"

section \<open>The two threads\<close>

datatype producer = PIdle | PChecked block | PCopied block

datatype consumer = CIdle | CChecked | CCopied block

text \<open>
  The shared queue, the modification orders of \<open>head\<close> and \<open>tail\<close> (every value stored so far),
  the position up to which the other thread has read each, the two program counters, and what
  was pushed and popped so far.
\<close>

record spsc_sys =
  sy_q :: spsc
  sy_heads :: "size_t list"
  sy_tails :: "size_t list"
  sy_head_seen :: nat
  sy_tail_seen :: nat
  sy_prod :: producer
  sy_cons :: consumer
  sy_pushed :: "block list"
  sy_popped :: "block list"

definition spsc_start :: "spsc \<Rightarrow> spsc_sys" where
  "spsc_start q = \<lparr>sy_q = q, sy_heads = [0], sy_tails = [0], sy_head_seen = 0, sy_tail_seen = 0,
     sy_prod = PIdle, sy_cons = CIdle, sy_pushed = [], sy_popped = []\<rparr>"

inductive spsc_step :: "spsc_sys \<Rightarrow> spsc_sys \<Rightarrow> bool" where
  push_full:
    "\<lbrakk>sy_prod s = PIdle; sy_head_seen s \<le> j; j < length (sy_heads s);
      push_check (sy_q s) (sy_heads s ! j) = Some False\<rbrakk>
     \<Longrightarrow> spsc_step s (s\<lparr>sy_head_seen := j\<rparr>)"
| push_room:
    "\<lbrakk>sy_prod s = PIdle; sy_head_seen s \<le> j; j < length (sy_heads s);
      push_check (sy_q s) (sy_heads s ! j) = Some True; length e = unat (sq_elem_size (sy_q s))\<rbrakk>
     \<Longrightarrow> spsc_step s (s\<lparr>sy_head_seen := j, sy_prod := PChecked e\<rparr>)"
| push_write:
    "\<lbrakk>sy_prod s = PChecked e; push_copy (sy_q s) e = Some q\<rbrakk>
     \<Longrightarrow> spsc_step s (s\<lparr>sy_q := q, sy_prod := PCopied e\<rparr>)"
| push_release:
    "\<lbrakk>sy_prod s = PCopied e; push_publish (sy_q s) = Some q\<rbrakk>
     \<Longrightarrow> spsc_step s (s\<lparr>sy_q := q, sy_tails := sy_tails s @ [sq_tail q], sy_prod := PIdle,
                       sy_pushed := sy_pushed s @ [e]\<rparr>)"
| pop_empty:
    "\<lbrakk>sy_cons s = CIdle; sy_tail_seen s \<le> j; j < length (sy_tails s);
      \<not> pop_check (sy_q s) (sy_tails s ! j)\<rbrakk>
     \<Longrightarrow> spsc_step s (s\<lparr>sy_tail_seen := j\<rparr>)"
| pop_some:
    "\<lbrakk>sy_cons s = CIdle; sy_tail_seen s \<le> j; j < length (sy_tails s);
      pop_check (sy_q s) (sy_tails s ! j)\<rbrakk>
     \<Longrightarrow> spsc_step s (s\<lparr>sy_tail_seen := j, sy_cons := CChecked\<rparr>)"
| pop_read:
    "\<lbrakk>sy_cons s = CChecked; pop_copy (sy_q s) = Some e\<rbrakk>
     \<Longrightarrow> spsc_step s (s\<lparr>sy_cons := CCopied e\<rparr>)"
| pop_release:
    "\<lbrakk>sy_cons s = CCopied e; pop_publish (sy_q s) = Some q\<rbrakk>
     \<Longrightarrow> spsc_step s (s\<lparr>sy_q := q, sy_heads := sy_heads s @ [sq_head q], sy_cons := CIdle,
                       sy_popped := sy_popped s @ [e]\<rparr>)"

inductive_cases spsc_stepE: "spsc_step s t"

inductive spsc_reach :: "spsc_sys \<Rightarrow> spsc_sys \<Rightarrow> bool" for s where
  reach_refl: "spsc_reach s s"
| reach_step: "spsc_reach s t \<Longrightarrow> spsc_step t u \<Longrightarrow> spsc_reach s u"

section \<open>Invariant\<close>

definition sq_geom :: "spsc \<Rightarrow> bool" where
  "sq_geom q \<longleftrightarrow>
     (\<exists>d. sq_data q = Some d \<and> length d = unat (sq_slots q) * unat (sq_elem_size q)) \<and>
     0 < unat (sq_elem_size q) \<and> 1 < unat (sq_slots q) \<and>
     unat (sq_slots q) * unat (sq_elem_size q) \<le> PTRDIFF_MAX"

definition sq_cells :: "spsc \<Rightarrow> block list" where
  "sq_cells q = elems (unat (sq_elem_size q)) (unat (sq_slots q)) (the (sq_data q))"

abbreviation sq_n :: "spsc \<Rightarrow> nat" where "sq_n q \<equiv> unat (sq_slots q)"

text \<open>
  With \<open>P\<close> elements published and \<open>C\<close> taken: the indices are \<open>P\<close> and \<open>C\<close> modulo the slots,
  the stored values are the multiples they passed through, what each thread last saw of the
  other bounds how far it may run ahead, and the slots from \<open>C\<close> to \<open>P\<close> hold the elements.
\<close>

definition spsc_inv :: "spsc_sys \<Rightarrow> bool" where
  "spsc_inv s \<longleftrightarrow>
     (let q = sy_q s; S = sq_n q; P = length (sy_pushed s); C = length (sy_popped s) in
      sq_geom q
      \<and> unat (sq_tail q) = P mod S \<and> unat (sq_head q) = C mod S
      \<and> length (sy_tails s) = Suc P \<and> (\<forall>i \<le> P. unat (sy_tails s ! i) = i mod S)
      \<and> length (sy_heads s) = Suc C \<and> (\<forall>i \<le> C. unat (sy_heads s ! i) = i mod S)
      \<and> sy_head_seen s \<le> C \<and> sy_tail_seen s \<le> P \<and> C \<le> sy_tail_seen s
      \<and> P < sy_head_seen s + S \<and> (sy_prod s \<noteq> PIdle \<longrightarrow> Suc P < sy_head_seen s + S)
      \<and> (sy_cons s \<noteq> CIdle \<longrightarrow> C < sy_tail_seen s)
      \<and> sy_popped s = take C (sy_pushed s)
      \<and> (\<forall>i. C \<le> i \<longrightarrow> i < P \<longrightarrow> sq_cells q ! (i mod S) = sy_pushed s ! i)
      \<and> (\<forall>e. sy_prod s = PChecked e \<longrightarrow> length e = unat (sq_elem_size q))
      \<and> (\<forall>e. sy_prod s = PCopied e \<longrightarrow> sq_cells q ! (P mod S) = e)
      \<and> (\<forall>e. sy_cons s = CCopied e \<longrightarrow> e = sy_pushed s ! C))"

lemma spsc_invD:
  assumes "spsc_inv s"
  defines "q \<equiv> sy_q s" and "S \<equiv> sq_n (sy_q s)" and "P \<equiv> length (sy_pushed s)" and "C \<equiv> length (sy_popped s)"
  shows "sq_geom q" "unat (sq_tail q) = P mod S" "unat (sq_head q) = C mod S"
    "length (sy_tails s) = Suc P" "\<And>i. i \<le> P \<Longrightarrow> unat (sy_tails s ! i) = i mod S"
    "length (sy_heads s) = Suc C" "\<And>i. i \<le> C \<Longrightarrow> unat (sy_heads s ! i) = i mod S"
    "sy_head_seen s \<le> C" "sy_tail_seen s \<le> P" "C \<le> sy_tail_seen s"
    "P < sy_head_seen s + S" "sy_prod s \<noteq> PIdle \<Longrightarrow> Suc P < sy_head_seen s + S"
    "sy_cons s \<noteq> CIdle \<Longrightarrow> C < sy_tail_seen s" "sy_popped s = take C (sy_pushed s)"
    "\<And>i. C \<le> i \<Longrightarrow> i < P \<Longrightarrow> sq_cells q ! (i mod S) = sy_pushed s ! i"
    "\<And>e. sy_prod s = PChecked e \<Longrightarrow> length e = unat (sq_elem_size q)"
    "\<And>e. sy_prod s = PCopied e \<Longrightarrow> sq_cells q ! (P mod S) = e"
    "\<And>e. sy_cons s = CCopied e \<Longrightarrow> e = sy_pushed s ! C"
  using assms(1) by (simp_all add: spsc_inv_def Let_def q_def S_def P_def C_def)

lemma sq_geom_numbers:
  assumes "sq_geom q"
  shows "sq_slots q \<noteq> 0" and "sq_n q \<le> PTRDIFF_MAX" and "0 < sq_n q"
    and "unat i < sq_n q \<Longrightarrow> unat (i * sq_elem_size q) = unat i * unat (sq_elem_size q)"
    and "unat i < sq_n q \<Longrightarrow> \<exists>n. next_index q i = Some n \<and> unat n = Suc (unat i) mod sq_n q"
proof -
  have es: "0 < unat (sq_elem_size q)" and b: "sq_n q * unat (sq_elem_size q) \<le> PTRDIFF_MAX"
    and one: "1 < sq_n q"
    using assms by (auto simp: sq_geom_def)
  show nz: "sq_slots q \<noteq> 0" using one by auto
  show n: "sq_n q \<le> PTRDIFF_MAX" using b es by (rule factor_le)
  show "0 < sq_n q" using one by simp
  show "unat (i * sq_elem_size q) = unat i * unat (sq_elem_size q)" if "unat i < sq_n q"
  proof (rule unat_mult_small)
    have "unat i * unat (sq_elem_size q) \<le> sq_n q * unat (sq_elem_size q)"
      using that by (intro mult_le_mono1) simp
    then show "unat i * unat (sq_elem_size q) < 18446744073709551616" using b by linarith
  qed
  show "\<exists>k. next_index q i = Some k \<and> unat k = Suc (unat i) mod sq_n q" if "unat i < sq_n q"
  proof -
    have "unat (i + 1) = Suc (unat i)" using that n by (intro unat_Suc_small) linarith
    then show ?thesis using nz by (simp add: next_index_def unat_mod_word)
  qed
qed

text \<open>What a copy into the tail slot does, and what a copy out of the head slot reads.\<close>

lemma push_copy_spec:
  assumes "sq_geom q" and "unat (sq_tail q) < sq_n q" and "length e = unat (sq_elem_size q)"
  shows "\<exists>q'. push_copy q e = Some q' \<and> sq_geom q' \<and> sq_cells q' = (sq_cells q)[unat (sq_tail q) := e]
     \<and> sq_tail q' = sq_tail q \<and> sq_head q' = sq_head q \<and> sq_slots q' = sq_slots q
     \<and> sq_elem_size q' = sq_elem_size q"
proof -
  obtain d where d: "sq_data q = Some d" "length d = sq_n q * unat (sq_elem_size q)"
    using assms(1) by (auto simp: sq_geom_def)
  obtain d' where d': "store (unat (sq_tail q) * unat (sq_elem_size q)) e d = Some d'" "length d' = length d"
      "elems (unat (sq_elem_size q)) (sq_n q) d' = (elems (unat (sq_elem_size q)) (sq_n q) d)[unat (sq_tail q) := e]"
    using store_elem [OF assms(2), of "unat (sq_elem_size q)" d e] d(2) assms(3) by auto
  have "push_copy q e = Some (q\<lparr>sq_data := Some d'\<rparr>)"
    using d(1) d'(1) assms(3) sq_geom_numbers(4) [OF assms(1,2)] by (simp add: push_copy_def load_whole)
  then show ?thesis using assms(1) d d'(2,3) by (auto simp: sq_geom_def sq_cells_def)
qed

lemma pop_copy_spec:
  assumes "sq_geom q" and "unat (sq_head q) < sq_n q"
  shows "pop_copy q = Some (sq_cells q ! unat (sq_head q))"
proof -
  obtain d where d: "sq_data q = Some d" "length d = sq_n q * unat (sq_elem_size q)"
    using assms(1) by (auto simp: sq_geom_def)
  then show ?thesis
    using sq_geom_numbers(4) [OF assms] load_elem [OF assms(2), of "unat (sq_elem_size q)" d]
    by (simp add: pop_copy_def sq_cells_def)
qed

lemma length_sq_cells [simp]: "length (sq_cells q) = sq_n q"
  by (simp add: sq_cells_def)

lemma mod_close_eq:
  assumes "i mod S = j mod (S :: nat)" and "i \<le> j" and "j < i + S"
  shows "i = j"
proof -
  have "(j - i) mod S = 0" using assms(1,2) by (metis mod_eq_dvd_iff_nat dvd_imp_mod_0)
  moreover have "j - i < S" using assms(2,3) by linarith
  ultimately show ?thesis using assms(2) by simp
qed

section \<open>Every step keeps the invariant\<close>

lemma push_check_value:
  assumes "spsc_inv s" and "sy_head_seen s \<le> j" and "j \<le> length (sy_popped s)"
  shows "push_check (sy_q s) (sy_heads s ! j)
       = Some (Suc (length (sy_pushed s)) < j + sq_n (sy_q s))"
proof -
  let ?q = "sy_q s" and ?P = "length (sy_pushed s)"
  note I = spsc_invD [OF assms(1)]
  have lt: "unat (sq_tail ?q) < sq_n ?q" using I(2) sq_geom_numbers(3) [OF I(1)] by simp
  obtain n where n: "next_index ?q (sq_tail ?q) = Some n" "unat n = Suc (unat (sq_tail ?q)) mod sq_n ?q"
    using sq_geom_numbers(5) [OF I(1) lt] by blast
  have nv: "unat n = Suc ?P mod sq_n ?q" using n(2) I(2) by (simp add: mod_Suc_eq)
  have hv: "unat (sy_heads s ! j) = j mod sq_n ?q" using I(7) [OF assms(3)] .
  have P: "j \<le> Suc ?P" "?P < j + sq_n ?q" using I(8,9,10,11) assms(2,3) by linarith+
  have "(n = sy_heads s ! j) = (\<not> Suc ?P < j + sq_n ?q)"
  proof
    assume "n = sy_heads s ! j"
    then have eq: "j mod sq_n ?q = Suc ?P mod sq_n ?q" using nv hv by simp
    show "\<not> Suc ?P < j + sq_n ?q"
    proof
      assume "Suc ?P < j + sq_n ?q"
      then have "j = Suc ?P" using mod_close_eq [OF eq P(1)] by simp
      then show False using assms(3) I(9,10) by linarith
    qed
  next
    assume "\<not> Suc ?P < j + sq_n ?q"
    then have "Suc ?P = j + sq_n ?q" using P(2) by linarith
    then have "unat n = unat (sy_heads s ! j)" unfolding nv hv by simp
    then show "n = sy_heads s ! j" by (simp add: word_eq_unat)
  qed
  then show ?thesis using n(1) by (auto simp: push_check_def)
qed

lemma pop_check_value:
  assumes "spsc_inv s" and "sy_tail_seen s \<le> j" and "j \<le> length (sy_pushed s)"
  shows "pop_check (sy_q s) (sy_tails s ! j) = (length (sy_popped s) < j)"
proof -
  note I = spsc_invD [OF assms(1)]
  have tv: "unat (sy_tails s ! j) = j mod sq_n (sy_q s)" using I(5) [OF assms(3)] .
  have b: "length (sy_popped s) \<le> j" "j < length (sy_popped s) + sq_n (sy_q s)"
    using I(8,10,11) assms(2,3) by linarith+
  have "(sq_head (sy_q s) = sy_tails s ! j) = (length (sy_popped s) = j)"
    using mod_close_eq [OF _ b] I(3) tv by (auto simp: word_eq_unat)
  then show ?thesis using b(1) by (auto simp: pop_check_def)
qed

lemma spsc_inv_push_write:
  assumes "spsc_inv s" and "sy_prod s = PChecked e" and "push_copy (sy_q s) e = Some q"
  shows "spsc_inv (s\<lparr>sy_q := q, sy_prod := PCopied e\<rparr>)"
proof -
  let ?q = "sy_q s" and ?P = "length (sy_pushed s)" and ?C = "length (sy_popped s)"
  note I = spsc_invD [OF assms(1)]
  have lt: "unat (sq_tail ?q) < sq_n ?q" using I(2) sq_geom_numbers(3) [OF I(1)] by simp
  have q: "sq_geom q" "sq_cells q = (sq_cells ?q)[?P mod sq_n ?q := e]"
    "sq_tail q = sq_tail ?q" "sq_head q = sq_head ?q" "sq_slots q = sq_slots ?q" "sq_elem_size q = sq_elem_size ?q"
    using push_copy_spec [OF I(1) lt I(16) [OF assms(2)]] assms(3) I(2) by auto
  have away: "i mod sq_n ?q \<noteq> ?P mod sq_n ?q" if "?C \<le> i" "i < ?P" for i
  proof
    assume eq: "i mod sq_n ?q = ?P mod sq_n ?q"
    have "?P < i + sq_n ?q" using I(8,12) assms(2) that by simp
    then have "i = ?P" using mod_close_eq [OF eq] that by simp
    then show False using that by simp
  qed
  have cells: "sq_cells q ! (i mod sq_n ?q) = sy_pushed s ! i" if "?C \<le> i" "i < ?P" for i
    using away [OF that] I(15) [OF that] by (simp add: q(2))
  have "sq_cells q ! (?P mod sq_n ?q) = e"
    using lt I(2) by (simp add: q(2))
  then show ?thesis
    unfolding spsc_inv_def Let_def using I q cells assms(2) by simp
qed

lemma spsc_inv_push_release:
  assumes "spsc_inv s" and "sy_prod s = PCopied e" and "push_publish (sy_q s) = Some q"
  shows "spsc_inv (s\<lparr>sy_q := q, sy_tails := sy_tails s @ [sq_tail q], sy_prod := PIdle,
                     sy_pushed := sy_pushed s @ [e]\<rparr>)"
proof -
  let ?q = "sy_q s" and ?P = "length (sy_pushed s)" and ?C = "length (sy_popped s)"
  note I = spsc_invD [OF assms(1)]
  have lt: "unat (sq_tail ?q) < sq_n ?q" using I(2) sq_geom_numbers(3) [OF I(1)] by simp
  obtain n where n: "next_index ?q (sq_tail ?q) = Some n" "unat n = Suc (unat (sq_tail ?q)) mod sq_n ?q"
    using sq_geom_numbers(5) [OF I(1) lt] by blast
  have q: "q = ?q\<lparr>sq_tail := n\<rparr>" using assms(3) n(1) by (simp add: push_publish_def)
  have nv: "unat n = Suc ?P mod sq_n ?q" using n(2) I(2) by (simp add: mod_Suc_eq)
  have geom: "sq_geom q" and cells: "sq_cells q = sq_cells ?q" using I(1) by (auto simp: q sq_geom_def sq_cells_def)
  have tails: "unat ((sy_tails s @ [n]) ! i) = i mod sq_n ?q" if "i \<le> Suc ?P" for i
    using that I(4,5) nv by (cases "i = Suc ?P") (simp_all add: nth_append)
  have pop: "sy_popped s = take ?C (sy_pushed s @ [e])" using I(14) I(9,10) by simp
  have mem: "sq_cells ?q ! (i mod sq_n ?q) = (sy_pushed s @ [e]) ! i" if "?C \<le> i" "i < Suc ?P" for i
    using that I(15) I(17) [OF assms(2)] by (cases "i = ?P") (simp_all add: nth_append)
  have cons: "\<forall>e'. sy_cons s = CCopied e' \<longrightarrow> e' = (sy_pushed s @ [e]) ! ?C"
    using I(9,13,18) by (auto simp: nth_append)
  have "Suc ?P < sy_head_seen s + sq_n ?q" using I(12) assms(2) by simp
  then show ?thesis
    unfolding spsc_inv_def Let_def using I geom cells tails nv pop mem cons by (simp add: q)
qed

lemma spsc_inv_pop_release:
  assumes "spsc_inv s" and "sy_cons s = CCopied e" and "pop_publish (sy_q s) = Some q"
  shows "spsc_inv (s\<lparr>sy_q := q, sy_heads := sy_heads s @ [sq_head q], sy_cons := CIdle,
                     sy_popped := sy_popped s @ [e]\<rparr>)"
proof -
  let ?q = "sy_q s" and ?P = "length (sy_pushed s)" and ?C = "length (sy_popped s)"
  note I = spsc_invD [OF assms(1)]
  have lt: "unat (sq_head ?q) < sq_n ?q" using I(3) sq_geom_numbers(3) [OF I(1)] by simp
  obtain n where n: "next_index ?q (sq_head ?q) = Some n" "unat n = Suc (unat (sq_head ?q)) mod sq_n ?q"
    using sq_geom_numbers(5) [OF I(1) lt] by blast
  have q: "q = ?q\<lparr>sq_head := n\<rparr>" using assms(3) n(1) by (simp add: pop_publish_def)
  have nv: "unat n = Suc ?C mod sq_n ?q" using n(2) I(3) by (simp add: mod_Suc_eq)
  have geom: "sq_geom q" and cells: "sq_cells q = sq_cells ?q" using I(1) by (auto simp: q sq_geom_def sq_cells_def)
  have heads: "unat ((sy_heads s @ [n]) ! i) = i mod sq_n ?q" if "i \<le> Suc ?C" for i
    using that I(6,7) nv by (cases "i = Suc ?C") (simp_all add: nth_append)
  have C: "?C < ?P" "?C < sy_tail_seen s" using I(9,13) assms(2) by auto
  have pop: "sy_popped s @ [e] = take (Suc ?C) (sy_pushed s)"
    using I(14) I(18) [OF assms(2)] C(1) by (simp add: take_Suc_conv_app_nth)
  show ?thesis
    unfolding spsc_inv_def Let_def using I geom cells heads nv pop C by (simp add: q)
qed

lemma spsc_step_inv:
  assumes "spsc_inv s" and "spsc_step s t"
  shows "spsc_inv t"
  using assms(2)
proof (cases rule: spsc_step.cases)
  case (push_full j)
  note I = spsc_invD [OF assms(1)]
  have "j \<le> length (sy_popped s)" using push_full I(6) by simp
  then show ?thesis unfolding spsc_inv_def Let_def using I push_full by simp
next
  case (push_room j e)
  note I = spsc_invD [OF assms(1)]
  have j: "j \<le> length (sy_popped s)" using push_room I(6) by simp
  have "Suc (length (sy_pushed s)) < j + sq_n (sy_q s)"
    using push_check_value [OF assms(1) push_room(3) j] push_room(5) by simp
  then show ?thesis unfolding spsc_inv_def Let_def using I push_room j by simp
next
  case (push_write e q)
  then show ?thesis using spsc_inv_push_write [OF assms(1)] by simp
next
  case (push_release e q)
  then show ?thesis using spsc_inv_push_release [OF assms(1)] by simp
next
  case (pop_empty j)
  note I = spsc_invD [OF assms(1)]
  have "j \<le> length (sy_pushed s)" using pop_empty I(4) by simp
  then show ?thesis unfolding spsc_inv_def Let_def using I pop_empty by simp
next
  case (pop_some j)
  note I = spsc_invD [OF assms(1)]
  have j: "j \<le> length (sy_pushed s)" using pop_some I(4) by simp
  have "length (sy_popped s) < j" using pop_check_value [OF assms(1) pop_some(3) j] pop_some(5) by simp
  then show ?thesis unfolding spsc_inv_def Let_def using I pop_some j by simp
next
  case (pop_read e)
  note I = spsc_invD [OF assms(1)]
  have lt: "unat (sq_head (sy_q s)) < sq_n (sy_q s)" using I(3) sq_geom_numbers(3) [OF I(1)] by simp
  have C: "length (sy_popped s) < length (sy_pushed s)" using I(9,13) pop_read by simp
  have "e = sy_pushed s ! length (sy_popped s)"
    using pop_copy_spec [OF I(1) lt] pop_read(3) I(3) I(15) [OF _ C] by simp
  then show ?thesis unfolding spsc_inv_def Let_def using I pop_read by simp
next
  case (pop_release e q)
  then show ?thesis using spsc_inv_pop_release [OF assms(1)] by simp
qed

lemma spsc_reach_inv: "spsc_reach s t \<Longrightarrow> spsc_inv s \<Longrightarrow> spsc_inv t"
  by (induction rule: spsc_reach.induct) (auto intro: spsc_step_inv)

lemma spsc_init_inv:
  assumes "spsc_init ok (Some q0) elem_size capacity = (ERR_OK, Some q)" and "capacity \<noteq> SIZE_MAX"
  shows "spsc_inv (spsc_start q)" and "sq_n q = unat capacity + 1" and "sq_elem_size q = elem_size"
proof -
  from assms(1) have nz: "elem_size \<noteq> 0" "capacity \<noteq> 0" and g: "\<not> capacity + 1 > SIZE_MAX div elem_size"
    and m: "\<exists>d. malloc ok ((capacity + 1) * elem_size) = Some d \<and> q = \<lparr>sq_data = Some d, sq_elem_size = elem_size,
                                      sq_slots = capacity + 1, sq_head = 0, sq_tail = 0\<rparr>"
    by (auto simp: spsc_init_def split: if_splits option.splits)
  have "unat capacity \<noteq> 18446744073709551615" using assms(2) by (metis unat_SIZE_MAX word_eq_unat)
  then have c: "unat (capacity + 1) = unat capacity + 1"
    using unat_le_SIZE_MAX [of capacity] by (simp add: unat_Suc_small)
  have p: "unat ((capacity + 1) * elem_size) = (unat capacity + 1) * unat elem_size"
    using mult_guard [OF nz(1), of "capacity + 1"] g c by (subst unat_mult_small) simp_all
  obtain d where d: "malloc ok ((capacity + 1) * elem_size) = Some d"
    and q: "q = \<lparr>sq_data = Some d, sq_elem_size = elem_size, sq_slots = capacity + 1, sq_head = 0, sq_tail = 0\<rparr>"
    using m by blast
  have "0 < unat capacity" "0 < unat elem_size" using nz by (simp_all add: unat_pos_iff)
  moreover have "length d = (unat capacity + 1) * unat elem_size"
    "(unat capacity + 1) * unat elem_size \<le> PTRDIFF_MAX"
    using malloc_SomeD [OF d] unfolding p by simp_all
  ultimately have "sq_geom q" unfolding q sq_geom_def using c by simp
  then show "spsc_inv (spsc_start q)" and "sq_n q = unat capacity + 1" and "sq_elem_size q = elem_size"
    using m c by (auto simp: spsc_inv_def Let_def spsc_start_def sq_geom_def)
qed

section \<open>One thread at a time\<close>

text \<open>Called by one thread, the two operations are a bounded queue.\<close>

definition sq_inv :: "spsc \<Rightarrow> bool" where
  "sq_inv q \<longleftrightarrow> sq_geom q \<and> unat (sq_head q) < sq_n q \<and> unat (sq_tail q) < sq_n q"

definition sq_count :: "spsc \<Rightarrow> nat" where
  "sq_count q = (unat (sq_tail q) + sq_n q - unat (sq_head q)) mod sq_n q"

definition sq_view :: "spsc \<Rightarrow> block list" where
  "sq_view q = ring_view (sq_cells q) (unat (sq_head q)) (sq_count q)"

definition sq_capacity :: "spsc \<Rightarrow> nat" where
  "sq_capacity q = sq_n q - 1"

definition sq_fits :: "spsc \<Rightarrow> block \<Rightarrow> bool" where
  "sq_fits q e \<longleftrightarrow> length e = unat (sq_elem_size q)"

definition sq_push :: "block \<Rightarrow> spsc \<Rightarrow> (bool \<times> spsc) ub" where
  "sq_push e q = map_option (apsnd the) (spsc_push (Some q) (Some e))"

definition sq_pop :: "spsc \<Rightarrow> (block option \<times> spsc) ub" where
  "sq_pop q = map_option (\<lambda>(ok, out, q'). (out, the q')) (spsc_pop (Some q) True)"

lemma sq_count_cases:
  assumes "h < S" and "t < (S :: nat)"
  shows "(t + S - h) mod S = (if h \<le> t then t - h else t + S - h)"
proof (cases "h \<le> t")
  case True
  then have "t + S - h = (t - h) + S" by (rule diff_add_assoc2)
  then have "(t + S - h) mod S = (t - h) mod S" by (simp only: mod_add_self2)
  then show ?thesis using True assms(2) by simp
next
  case False
  then show ?thesis using assms(1) by simp
qed

lemma sq_tail_index:
  assumes "sq_inv q"
  shows "unat (sq_tail q) = (unat (sq_head q) + sq_count q) mod sq_n q" and "sq_count q < sq_n q"
proof -
  have b: "unat (sq_head q) < sq_n q" "unat (sq_tail q) < sq_n q" using assms by (auto simp: sq_inv_def)
  note c = sq_count_cases [OF b]
  show "unat (sq_tail q) = (unat (sq_head q) + sq_count q) mod sq_n q" "sq_count q < sq_n q"
    using b by (auto simp: sq_count_def c)
qed

lemma sq_next:
  assumes "sq_inv q"
  shows "\<exists>n. next_index q (sq_tail q) = Some n \<and> unat n = (unat (sq_head q) + Suc (sq_count q)) mod sq_n q"
    and "\<exists>n. next_index q (sq_head q) = Some n \<and> unat n = Suc (unat (sq_head q)) mod sq_n q"
proof -
  have g: "sq_geom q" and b: "unat (sq_head q) < sq_n q" "unat (sq_tail q) < sq_n q"
    using assms by (auto simp: sq_inv_def)
  show "\<exists>n. next_index q (sq_head q) = Some n \<and> unat n = Suc (unat (sq_head q)) mod sq_n q"
    by (rule sq_geom_numbers(5) [OF g b(1)])
  obtain n where n: "next_index q (sq_tail q) = Some n" "unat n = Suc (unat (sq_tail q)) mod sq_n q"
    using sq_geom_numbers(5) [OF g b(2)] by blast
  have "unat n = (unat (sq_head q) + Suc (sq_count q)) mod sq_n q"
    using n(2) sq_tail_index(1) [OF assms] by (simp add: mod_Suc_eq)
  then show "\<exists>n. next_index q (sq_tail q) = Some n \<and> unat n = (unat (sq_head q) + Suc (sq_count q)) mod sq_n q"
    using n(1) by blast
qed

lemma sq_push_decision:
  assumes "sq_inv q"
  shows "push_check q (sq_head q) = Some (sq_count q < sq_capacity q)"
proof -
  obtain n where n: "next_index q (sq_tail q) = Some n" "unat n = (unat (sq_head q) + Suc (sq_count q)) mod sq_n q"
    using sq_next(1) [OF assms] by blast
  have b: "unat (sq_head q) < sq_n q" and c: "sq_count q < sq_n q"
    using assms sq_tail_index(2) [OF assms] by (auto simp: sq_inv_def)
  have "(n = sq_head q) = (Suc (sq_count q) = sq_n q)"
  proof
    assume "n = sq_head q"
    then have "unat (sq_head q) mod sq_n q = (unat (sq_head q) + Suc (sq_count q)) mod sq_n q"
      using n(2) b by simp
    then have "\<not> unat (sq_head q) + Suc (sq_count q) < unat (sq_head q) + sq_n q"
      using mod_close_eq [of "unat (sq_head q)" "sq_n q" "unat (sq_head q) + Suc (sq_count q)"] by auto
    then show "Suc (sq_count q) = sq_n q" using c by simp
  next
    assume "Suc (sq_count q) = sq_n q"
    then have "unat n = unat (sq_head q)" using n(2) b by simp
    then show "n = sq_head q" by (simp add: word_eq_unat)
  qed
  then show ?thesis using n(1) c by (auto simp: push_check_def sq_capacity_def)
qed

lemma sq_push_room:
  assumes "sq_inv q" and "sq_fits q e" and "sq_count q < sq_capacity q"
  shows "\<exists>t. sq_push e q = Some (True, t) \<and> sq_inv t \<and> sq_view t = sq_view q @ [e]
             \<and> sq_capacity t = sq_capacity q \<and> sq_fits t = sq_fits q"
proof -
  have g: "sq_geom q" and b: "unat (sq_head q) < sq_n q" "unat (sq_tail q) < sq_n q"
    using assms(1) by (auto simp: sq_inv_def)
  obtain q1 where q1: "push_copy q e = Some q1" "sq_geom q1" "sq_cells q1 = (sq_cells q)[unat (sq_tail q) := e]"
     "sq_tail q1 = sq_tail q" "sq_head q1 = sq_head q" "sq_slots q1 = sq_slots q" "sq_elem_size q1 = sq_elem_size q"
    using push_copy_spec [OF g b(2)] assms(2) by (auto simp: sq_fits_def)
  obtain n where n: "next_index q (sq_tail q) = Some n" "unat n = (unat (sq_head q) + Suc (sq_count q)) mod sq_n q"
    using sq_next(1) [OF assms(1)] by blast
  let ?t = "q1\<lparr>sq_tail := n\<rparr>"
  have "sq_data q \<noteq> None" using g by (auto simp: sq_geom_def)
  then have "sq_push e q = Some (True, ?t)"
    using q1(1,4,6) n(1) sq_push_decision [OF assms(1)] assms(3)
    by (auto simp: sq_push_def spsc_push_def push_publish_def next_index_def split: if_splits)
  moreover have inv: "sq_inv ?t" using q1(2,5,6) b n(2) by (auto simp: sq_inv_def sq_geom_def)
  moreover have cnt: "sq_count ?t = Suc (sq_count q)"
  proof -
    have lt: "Suc (sq_count q) < sq_n q" using assms(3) by (simp add: sq_capacity_def)
    have "sq_count ?t < sq_n q" using sq_tail_index(2) [OF inv] q1(6) by simp
    moreover have "(unat (sq_head q) + sq_count ?t) mod sq_n q = (unat (sq_head q) + Suc (sq_count q)) mod sq_n q"
      using sq_tail_index(1) [OF inv] n(2) q1(5,6) by simp
    ultimately show ?thesis
      using lt ring_index_neq [of "sq_count ?t" "Suc (sq_count q)" "sq_n q" "unat (sq_head q)"]
        ring_index_neq [of "Suc (sq_count q)" "sq_count ?t" "sq_n q" "unat (sq_head q)"] by (metis nat_neq_iff)
  qed
  moreover have "sq_view ?t = sq_view q @ [e]"
  proof -
    have "sq_count q < length (sq_cells q)" using sq_tail_index(2) [OF assms(1)] by simp
    from ring_view_push [OF this, of "unat (sq_head q)" e] show ?thesis
      unfolding sq_view_def cnt using q1 sq_tail_index(1) [OF assms(1)] by (simp add: sq_cells_def)
  qed
  ultimately show ?thesis using q1(6,7) by (simp add: sq_capacity_def sq_fits_def fun_eq_iff)
qed

lemma sq_pop_some:
  assumes "sq_inv q" and "sq_view q = e # es"
  shows "\<exists>t. sq_pop q = Some (Some e, t) \<and> sq_inv t \<and> sq_view t = es
             \<and> sq_capacity t = sq_capacity q \<and> sq_fits t = sq_fits q"
proof -
  have g: "sq_geom q" and b: "unat (sq_head q) < sq_n q" "unat (sq_tail q) < sq_n q"
    using assms(1) by (auto simp: sq_inv_def)
  obtain n where n: "next_index q (sq_head q) = Some n" "unat n = Suc (unat (sq_head q)) mod sq_n q"
    using sq_next(2) [OF assms(1)] by blast
  have ne: "sq_cells q \<noteq> []" using b(1) by (simp flip: length_0_conv)
  have "length (sq_view q) = sq_count q" by (simp add: sq_view_def)
  then have pos: "sq_count q \<noteq> 0" using assms(2) by auto
  then obtain m where m: "sq_count q = Suc m" by (cases "sq_count q") auto
  have view: "e = sq_cells q ! unat (sq_head q)"
      "es = ring_view (sq_cells q) (Suc (unat (sq_head q)) mod sq_n q) m"
    using assms(2) ring_view_Suc [OF ne, of "unat (sq_head q)" m] b(1) by (simp_all add: sq_view_def m)
  have differ: "sq_head q \<noteq> sq_tail q" using pos by (auto simp: sq_count_def)
  let ?t = "q\<lparr>sq_head := n\<rparr>"
  have "sq_data q \<noteq> None" using g by (auto simp: sq_geom_def)
  then have "sq_pop q = Some (Some e, ?t)"
    using differ pop_copy_spec [OF g b(1)] n(1) view(1)
    by (auto simp: sq_pop_def spsc_pop_def pop_check_def pop_publish_def)
  moreover have inv: "sq_inv ?t" using g b n(2) by (auto simp: sq_inv_def sq_geom_def)
  moreover have cnt: "sq_count ?t = m"
  proof -
    have "sq_count ?t < sq_n q" using sq_tail_index(2) [OF inv] by simp
    moreover have "m < sq_n q" using m sq_tail_index(2) [OF assms(1)] by simp
    moreover have "(Suc (unat (sq_head q)) + sq_count ?t) mod sq_n q = (Suc (unat (sq_head q)) + m) mod sq_n q"
    proof -
      have "(Suc (unat (sq_head q)) mod sq_n q + sq_count ?t) mod sq_n q = unat (sq_tail q)"
        using sq_tail_index(1) [OF inv] n(2) by simp
      also have "\<dots> = (unat (sq_head q) + Suc m) mod sq_n q" using sq_tail_index(1) [OF assms(1)] m by simp
      finally show ?thesis by (simp add: mod_add_left_eq)
    qed
    ultimately show ?thesis
      using ring_index_neq [of "sq_count ?t" m "sq_n q" "Suc (unat (sq_head q))"]
        ring_index_neq [of m "sq_count ?t" "sq_n q" "Suc (unat (sq_head q))"] by (metis nat_neq_iff)
  qed
  moreover have "sq_view ?t = es" using view(2) n(2) by (simp add: sq_view_def cnt) (simp add: sq_cells_def)
  ultimately show ?thesis by (simp add: sq_capacity_def sq_fits_def fun_eq_iff)
qed

interpretation spsc: bounded_fifo sq_inv sq_view sq_capacity sq_fits sq_push sq_pop
proof (unfold_locales, goal_cases)
  case (1 s)
  then show ?case using sq_tail_index(2) [OF 1] by (simp add: sq_view_def sq_capacity_def)
next
  case (2 s e)
  then show ?case using sq_push_room by (simp add: sq_view_def)
next
  case (3 s e)
  then have "sq_data s \<noteq> None" by (auto simp: sq_inv_def sq_geom_def)
  then show ?case using 3 sq_push_decision [OF 3(1)] by (auto simp: sq_push_def spsc_push_def sq_view_def)
next
  case (4 s e es)
  then show ?case by (rule sq_pop_some)
next
  case (5 s)
  then have z: "sq_count s = 0" by (simp add: sq_view_def)
  have "unat (sq_head s) < sq_n s" "unat (sq_tail s) < sq_n s" using 5(1) by (auto simp: sq_inv_def)
  then have "unat (sq_head s) = unat (sq_tail s)"
    using sq_tail_index(1) [OF 5(1)] z by simp
  then show ?case using 5(1) by (auto simp: sq_pop_def spsc_pop_def pop_check_def word_eq_unat)
qed

section \<open>Properties\<close>

text \<open>
  C2. However the producer and the consumer interleave, and whichever allowed value each
  acquire load returns: the elements popped are a prefix of the elements pushed, in order and
  untorn; at most \<open>capacity\<close> are in flight; no copy leaves the block or divides by zero; the
  threads never copy to and from the same slot at once; and a push that reads the current
  head is refused exactly when the ring is full, a pop that reads the current tail exactly
  when it is empty.
\<close>

theorem spsc_concurrent_fifo:
  assumes "spsc_init ok (Some q0) elem_size capacity = (ERR_OK, Some q)" and "capacity \<noteq> SIZE_MAX"
    and "spsc_reach (spsc_start q) s"
  shows "sy_popped s = take (length (sy_popped s)) (sy_pushed s)
       \<and> length (sy_pushed s) - length (sy_popped s) \<le> unat capacity
       \<and> (\<forall>e. sy_prod s = PChecked e \<longrightarrow> push_copy (sy_q s) e \<noteq> None)
       \<and> (\<forall>e. sy_prod s = PCopied e \<longrightarrow> push_publish (sy_q s) \<noteq> None)
       \<and> (sy_cons s = CChecked \<longrightarrow> pop_copy (sy_q s) \<noteq> None)
       \<and> pop_publish (sy_q s) \<noteq> None
       \<and> (sy_prod s \<noteq> PIdle \<longrightarrow> sy_cons s \<noteq> CIdle \<longrightarrow> sq_tail (sy_q s) \<noteq> sq_head (sy_q s))
       \<and> push_check (sy_q s) (last (sy_heads s))
           = Some (length (sy_pushed s) - length (sy_popped s) < unat capacity)
       \<and> pop_check (sy_q s) (last (sy_tails s)) = (length (sy_popped s) < length (sy_pushed s))"
proof -
  have start: "spsc_inv (spsc_start q)" and n0: "sq_n q = unat capacity + 1"
    using spsc_init_inv [OF assms(1,2)] by auto
  have inv: "spsc_inv s" using spsc_reach_inv [OF assms(3) start] .
  have n: "sq_n (sy_q s) = unat capacity + 1"
    using assms(3)
  proof (induction rule: spsc_reach.induct)
    case reach_refl
    then show ?case using n0 by (simp add: spsc_start_def)
  next
    case (reach_step t u)
    from reach_step(2,3) show ?case
      by (auto elim!: spsc_stepE simp: push_copy_def push_publish_def pop_publish_def bind_eq_Some_conv)
  qed
  note I = spsc_invD [OF inv]
  let ?q = "sy_q s" and ?P = "length (sy_pushed s)" and ?C = "length (sy_popped s)"
  have pos: "0 < sq_n ?q" by (rule sq_geom_numbers(3) [OF I(1)])
  have tl: "unat (sq_tail ?q) < sq_n ?q" and hd: "unat (sq_head ?q) < sq_n ?q" using I(2,3) pos by simp_all
  have PC: "?P < ?C + sq_n ?q" "?C \<le> ?P" using I(8-11) by linarith+
  have lastv: "last (sy_heads s) = sy_heads s ! ?C" "last (sy_tails s) = sy_tails s ! ?P"
    using I(4,6) by (simp_all add: last_conv_nth flip: length_0_conv)
  have apart: "sq_tail ?q \<noteq> sq_head ?q" if "sy_prod s \<noteq> PIdle" "sy_cons s \<noteq> CIdle"
  proof
    assume "sq_tail ?q = sq_head ?q"
    then have "?C mod sq_n ?q = ?P mod sq_n ?q" using I(2,3) by simp
    then have "?C = ?P" using mod_close_eq [OF _ PC(2,1)] by simp
    then show False using I(9,13) that(2) by simp
  qed
  have checks: "push_check ?q (last (sy_heads s)) = Some (?P - ?C < unat capacity)"
      "pop_check ?q (last (sy_tails s)) = (?C < ?P)"
    using push_check_value [OF inv I(8)] pop_check_value [OF inv I(9)] n PC unfolding lastv by auto
  show ?thesis
    using I(14) PC n checks apart pop_copy_spec [OF I(1) hd]
      push_copy_spec [OF I(1) tl] I(16) sq_geom_numbers(5) [OF I(1) tl] sq_geom_numbers(5) [OF I(1) hd]
    by (auto simp: push_publish_def pop_publish_def)
qed

definition spsc_example :: spsc where
  "spsc_example = \<lparr>sq_data = Some [None, None, None], sq_elem_size = 1, sq_slots = 3, sq_head = 0, sq_tail = 0\<rparr>"

theorem spsc_concurrent_fifo_witness:
  "\<exists>s. spsc_reach (spsc_start spsc_example) s \<and> sy_pushed s = [[Some 7]] \<and> sy_popped s = take (length (sy_popped s)) (sy_pushed s)"
proof -
  let ?s1 = "(spsc_start spsc_example)\<lparr>sy_head_seen := 0, sy_prod := PChecked [Some 7]\<rparr>"
  let ?q2 = "spsc_example\<lparr>sq_data := Some [Some 7, None, None]\<rparr>"
  let ?s2 = "?s1\<lparr>sy_q := ?q2, sy_prod := PCopied [Some 7]\<rparr>"
  let ?s3 = "?s2\<lparr>sy_q := ?q2\<lparr>sq_tail := 1\<rparr>, sy_tails := sy_tails ?s2 @ [sq_tail (?q2\<lparr>sq_tail := 1\<rparr>)], sy_prod := PIdle,
              sy_pushed := sy_pushed ?s2 @ [[Some 7]]\<rparr>"
  have "spsc_step (spsc_start spsc_example) ?s1"
    by (rule push_room) (simp_all add: spsc_start_def spsc_example_def push_check_def next_index_def)
  then have r1: "spsc_reach (spsc_start spsc_example) ?s1" by (rule reach_step [OF reach_refl])
  have "spsc_step ?s1 ?s2"
    by (rule push_write)
       (simp_all add: spsc_start_def spsc_example_def push_copy_def load_def store_def)
  then have r2: "spsc_reach (spsc_start spsc_example) ?s2" by (rule reach_step [OF r1])
  have "spsc_step ?s2 ?s3"
    by (rule push_release) (simp_all add: spsc_start_def spsc_example_def push_publish_def next_index_def)
  then have r3: "spsc_reach (spsc_start spsc_example) ?s3" by (rule reach_step [OF r2])
  have "replicate 3 (None :: cell) = [None, None, None]" by (simp add: numeral_3_eq_3)
  then have init: "spsc_init True (Some q0) 1 2 = (ERR_OK, Some spsc_example)" for q0
    by (simp add: spsc_init_def spsc_example_def malloc_def)
  have "sy_pushed ?s3 = [[Some 7]]" by (simp add: spsc_start_def)
  then obtain s where s: "spsc_reach (spsc_start spsc_example) s" "sy_pushed s = [[Some 7]]"
    using r3 by blast
  then have "sy_popped s = take (length (sy_popped s)) (sy_pushed s)"
    using spsc_concurrent_fifo [OF init _ s(1)] by auto
  then show ?thesis using s by blast
qed

text \<open>
  With \<open>capacity = SIZE_MAX\<close> the slot count wraps to 0, the overflow check passes, and the
  first push divides by zero.
\<close>

lemma spsc_init_wraps:
  "\<exists>q'. spsc_init True (Some q) 8 SIZE_MAX = (ERR_OK, Some q') \<and> spsc_push (Some q') (Some e) = None"
  by (simp add: spsc_init_def malloc_def spsc_push_def push_check_def next_index_def)

end
