(* ===== verification/BlockingQueue.thy ===== *)
theory BlockingQueue
  imports RingBuf
begin

text \<open>
  The bounded blocking queue of \<open>src/hpc/blocking_queue.c\<close>. Every access happens between
  \<open>pthread_mutex_lock\<close> and \<open>pthread_mutex_unlock\<close>, so what a thread does from taking the
  mutex to releasing it (or to sleeping in \<open>pthread_cond_wait\<close>, which releases it) is one
  step of a system of threads. A signal wakes one sleeper if there is one, a broadcast wakes
  all, and a sleeper may also wake without any reason, as POSIX allows.
\<close>

section \<open>State and critical sections\<close>

record bqueue =
  bq_data :: "block option"
  bq_elem_size :: size_t
  bq_cap :: size_t
  bq_head :: size_t
  bq_len :: size_t
  bq_closed :: int

definition bq_init :: "bool \<Rightarrow> bqueue option \<Rightarrow> size_t \<Rightarrow> size_t \<Rightarrow> error_code \<times> bqueue option" where
  "bq_init ok qp elem_size capacity =
     (case qp of
        None \<Rightarrow> (ERR_INVALID_ARG, None)
      | Some q \<Rightarrow>
          if elem_size = 0 \<or> capacity = 0 then (ERR_INVALID_ARG, Some q)
          else if capacity > SIZE_MAX div elem_size then (ERR_OVERFLOW, Some q)
          else (case malloc ok (capacity * elem_size) of
              None \<Rightarrow> (ERR_NOMEM, Some \<lparr>bq_data = None, bq_elem_size = 0, bq_cap = 0, bq_head = 0,
                                       bq_len = 0, bq_closed = 0\<rparr>)
            | Some d \<Rightarrow> (ERR_OK, Some \<lparr>bq_data = Some d, bq_elem_size = elem_size, bq_cap = capacity,
                                      bq_head = 0, bq_len = 0, bq_closed = 0\<rparr>)))"

definition bq_destroy :: "bqueue option \<Rightarrow> bqueue option" where
  "bq_destroy qp =
     map_option (\<lambda>q. if bq_data q = None then q else q\<lparr>bq_data := None, bq_cap := 0, bq_len := 0\<rparr>) qp"

text \<open>What a thread that holds the mutex does: sleep on its condition, or return.\<close>

datatype 'r section_out = Waits | Returns error_code 'r bqueue

text \<open>The body of \<open>push\<close> after the wait: the copy to the tail slot.\<close>

definition bq_put :: "bqueue \<Rightarrow> block \<Rightarrow> bqueue ub" where
  "bq_put q e =
     (if bq_cap q = 0 then None
      else do {
        d \<leftarrow> bq_data q;
        let tail = (bq_head q + bq_len q) mod bq_cap q;
        src \<leftarrow> load 0 (unat (bq_elem_size q)) e;
        d' \<leftarrow> store (unat (tail * bq_elem_size q)) src d;
        Some (q\<lparr>bq_data := Some d', bq_len := bq_len q + 1\<rparr>) })"

definition bq_push :: "bqueue option \<Rightarrow> block option \<Rightarrow> unit section_out option ub" where
  "bq_push qp elem =
     (case (qp, elem) of
        (Some q, Some e) \<Rightarrow>
          if bq_data q = None then Some None
          else if bq_len q = bq_cap q \<and> bq_closed q = 0 then Some (Some Waits)
          else if bq_closed q \<noteq> 0 then Some (Some (Returns ERR_UNSUPPORTED () q))
          else do { q' \<leftarrow> bq_put q e; Some (Some (Returns ERR_OK () q')) }
      | _ \<Rightarrow> Some None)"

text \<open>The body of \<open>pop\<close> after the wait: the copy out of the head slot.\<close>

definition bq_take :: "bqueue \<Rightarrow> (block \<times> bqueue) ub" where
  "bq_take q =
     do { d \<leftarrow> bq_data q;
          out \<leftarrow> load (unat (bq_head q * bq_elem_size q)) (unat (bq_elem_size q)) d;
          h \<leftarrow> (if bq_cap q = 0 then None else Some ((bq_head q + 1) mod bq_cap q));
          Some (out, q\<lparr>bq_head := h, bq_len := bq_len q - 1\<rparr>) }"

definition bq_pop :: "bqueue option \<Rightarrow> bool \<Rightarrow> block option section_out option ub" where
  "bq_pop qp want =
     (case qp of
        None \<Rightarrow> Some None
      | Some q \<Rightarrow>
          if bq_data q = None \<or> \<not> want then Some None
          else if bq_len q = 0 \<and> bq_closed q = 0 then Some (Some Waits)
          else if bq_len q = 0 then Some (Some (Returns ERR_NOT_FOUND None q))
          else do { (out, q') \<leftarrow> bq_take q; Some (Some (Returns ERR_OK (Some out) q')) })"

text \<open>The outer \<open>None\<close> is undefined behaviour, the inner one the refusal of a \<open>NULL\<close> argument.\<close>

definition bq_close :: "bqueue option \<Rightarrow> bqueue option" where
  "bq_close qp =
     map_option (\<lambda>q. if bq_data q = None then q else q\<lparr>bq_closed := 1\<rparr>) qp"

section \<open>The threads\<close>

text \<open>
  Outside the queue, about to take the mutex (first time, or after a wake-up), asleep on
  \<open>not_full\<close> or \<open>not_empty\<close>.
\<close>

datatype bq_thread = TOut
  | TPush block | TPushSleep block | TPushWoken block
  | TPop | TPopSleep | TPopWoken

record bq_sys =
  bs_q :: bqueue
  bs_thr :: "nat \<Rightarrow> bq_thread"
  bs_pushed :: "block list"
  bs_popped :: "block list"

definition bq_start :: "bqueue \<Rightarrow> bq_sys" where
  "bq_start q = \<lparr>bs_q = q, bs_thr = (\<lambda>t. TOut), bs_pushed = [], bs_popped = []\<rparr>"

fun push_asleep :: "bq_thread \<Rightarrow> bool" where
  "push_asleep (TPushSleep e) = True"
| "push_asleep _ = False"

fun pop_asleep :: "bq_thread \<Rightarrow> bool" where
  "pop_asleep TPopSleep = True"
| "pop_asleep _ = False"

fun push_woken :: "bq_thread \<Rightarrow> bool" where
  "push_woken (TPushWoken e) = True"
| "push_woken _ = False"

fun pop_woken :: "bq_thread \<Rightarrow> bool" where
  "pop_woken TPopWoken = True"
| "pop_woken _ = False"

fun wake :: "bq_thread \<Rightarrow> bq_thread" where
  "wake (TPushSleep e) = TPushWoken e"
| "wake TPopSleep = TPopWoken"
| "wake th = th"

fun wants_push :: "bq_thread \<Rightarrow> block option" where
  "wants_push (TPush e) = Some e"
| "wants_push (TPushWoken e) = Some e"
| "wants_push _ = None"

fun wants_pop :: "bq_thread \<Rightarrow> bool" where
  "wants_pop TPop = True"
| "wants_pop TPopWoken = True"
| "wants_pop _ = False"

text \<open>\<open>pthread_cond_signal\<close> on the condition whose sleepers satisfy \<open>asleep\<close>.\<close>

definition signal :: "(bq_thread \<Rightarrow> bool) \<Rightarrow> (nat \<Rightarrow> bq_thread) \<Rightarrow> (nat \<Rightarrow> bq_thread) \<Rightarrow> bool" where
  "signal asleep f g \<longleftrightarrow>
     (if \<exists>u. asleep (f u) then \<exists>u. asleep (f u) \<and> g = f(u := wake (f u)) else g = f)"

inductive bq_step :: "bq_sys \<Rightarrow> bq_sys \<Rightarrow> bool" where
  call_push:
    "\<lbrakk>bs_thr s t = TOut; length e = unat (bq_elem_size (bs_q s))\<rbrakk>
     \<Longrightarrow> bq_step s (s\<lparr>bs_thr := (bs_thr s)(t := TPush e)\<rparr>)"
| push_wait:
    "\<lbrakk>wants_push (bs_thr s t) = Some e; bq_push (Some (bs_q s)) (Some e) = Some (Some Waits)\<rbrakk>
     \<Longrightarrow> bq_step s (s\<lparr>bs_thr := (bs_thr s)(t := TPushSleep e)\<rparr>)"
| push_refused:
    "\<lbrakk>wants_push (bs_thr s t) = Some e;
      bq_push (Some (bs_q s)) (Some e) = Some (Some (Returns err () q)); err \<noteq> ERR_OK\<rbrakk>
     \<Longrightarrow> bq_step s (s\<lparr>bs_q := q, bs_thr := (bs_thr s)(t := TOut)\<rparr>)"
| push_done:
    "\<lbrakk>wants_push (bs_thr s t) = Some e;
      bq_push (Some (bs_q s)) (Some e) = Some (Some (Returns ERR_OK () q));
      signal pop_asleep ((bs_thr s)(t := TOut)) f\<rbrakk>
     \<Longrightarrow> bq_step s (s\<lparr>bs_q := q, bs_thr := f, bs_pushed := bs_pushed s @ [e]\<rparr>)"
| call_pop:
    "bs_thr s t = TOut \<Longrightarrow> bq_step s (s\<lparr>bs_thr := (bs_thr s)(t := TPop)\<rparr>)"
| pop_wait:
    "\<lbrakk>wants_pop (bs_thr s t); bq_pop (Some (bs_q s)) True = Some (Some Waits)\<rbrakk>
     \<Longrightarrow> bq_step s (s\<lparr>bs_thr := (bs_thr s)(t := TPopSleep)\<rparr>)"
| pop_refused:
    "\<lbrakk>wants_pop (bs_thr s t); bq_pop (Some (bs_q s)) True = Some (Some (Returns err None q))\<rbrakk>
     \<Longrightarrow> bq_step s (s\<lparr>bs_q := q, bs_thr := (bs_thr s)(t := TOut)\<rparr>)"
| pop_done:
    "\<lbrakk>wants_pop (bs_thr s t); bq_pop (Some (bs_q s)) True = Some (Some (Returns err (Some e) q));
      signal push_asleep ((bs_thr s)(t := TOut)) f\<rbrakk>
     \<Longrightarrow> bq_step s (s\<lparr>bs_q := q, bs_thr := f, bs_popped := bs_popped s @ [e]\<rparr>)"
| spurious:
    "bq_step s (s\<lparr>bs_thr := (bs_thr s)(t := wake (bs_thr s t))\<rparr>)"
| close:
    "bq_close (Some (bs_q s)) = Some q \<Longrightarrow> bq_step s (s\<lparr>bs_q := q, bs_thr := wake \<circ> bs_thr s\<rparr>)"

inductive bq_reach :: "bq_sys \<Rightarrow> bq_sys \<Rightarrow> bool" for s where
  bq_refl: "bq_reach s s"
| bq_more: "bq_reach s t \<Longrightarrow> bq_step t u \<Longrightarrow> bq_reach s u"

section \<open>The ring inside\<close>

text \<open>The fields are those of the ring buffer, and the two bodies are its push and pop.\<close>

definition ring_of :: "bqueue \<Rightarrow> ringbuf" where
  "ring_of q = \<lparr>rb_data = bq_data q, rb_elem_size = bq_elem_size q, rb_cap = bq_cap q,
                rb_head = bq_head q, rb_len = bq_len q\<rparr>"

definition bq_view :: "bqueue \<Rightarrow> block list" where
  "bq_view q = rb_view (ring_of q)"

lemma bq_put_ring:
  "bq_cap q \<noteq> 0 \<Longrightarrow> bq_len q \<noteq> bq_cap q \<Longrightarrow> bq_data q \<noteq> None \<Longrightarrow>
   ringbuf_push (Some (ring_of q)) (Some e) = map_option (\<lambda>q'. (ERR_OK, Some (ring_of q'))) (bq_put q e)"
  by (auto simp: ringbuf_push_def bq_put_def ring_of_def tail_index_def Let_def split: Option.bind_splits)

lemma bq_take_ring:
  "bq_len q \<noteq> 0 \<Longrightarrow> bq_data q \<noteq> None \<Longrightarrow>
   ringbuf_pop (Some (ring_of q)) True = map_option (\<lambda>(e, q'). (ERR_OK, Some e, Some (ring_of q'))) (bq_take q)"
  by (auto simp: ringbuf_pop_def bq_take_def ring_of_def split: Option.bind_splits)

lemma bq_put_spec:
  assumes "rb_inv (ring_of q)" and "length e = unat (bq_elem_size q)" and "bq_len q \<noteq> bq_cap q"
  shows "\<exists>q'. bq_put q e = Some q' \<and> rb_inv (ring_of q') \<and> bq_view q' = bq_view q @ [e]
     \<and> bq_cap q' = bq_cap q \<and> bq_elem_size q' = bq_elem_size q \<and> bq_closed q' = bq_closed q
     \<and> unat (bq_len q') = Suc (unat (bq_len q))"
proof -
  have le: "unat (bq_len q) \<le> unat (bq_cap q)" and data: "bq_data q \<noteq> None"
    and cap: "bq_cap q \<noteq> 0"
    using assms(1) rb_inv_numbers(2) [OF assms(1)] by (auto simp: rb_inv_def ring_of_def)
  then have lt: "unat (bq_len q) < unat (bq_cap q)" using assms(3) by (metis le_neq_implies_less word_eq_unat)
  then have room: "length (rb_view (ring_of q)) < rb_capacity (ring_of q)"
    by (simp add: rb_capacity_def ring_of_def)
  from ringbuf_push_room [OF assms(1) _ room, of e] assms(2)
  obtain r where r: "ringbuf_push (Some (ring_of q)) (Some e) = Some (ERR_OK, Some r)" "rb_inv r"
      "rb_view r = rb_view (ring_of q) @ [e]"
    by (auto simp: rb_fits_def ring_of_def)
  then obtain q' where q': "bq_put q e = Some q'" "r = ring_of q'"
    using bq_put_ring [OF cap assms(3) data, of e] by auto
  have same: "bq_cap q' = bq_cap q" "bq_elem_size q' = bq_elem_size q" "bq_closed q' = bq_closed q"
    using q'(1) by (auto simp: bq_put_def Let_def bind_eq_Some_conv split: if_splits)
  have "unat (bq_len q') = length (rb_view r)" by (simp add: q'(2) ring_of_def)
  also have "\<dots> = Suc (unat (bq_len q))" using r(3) by (simp add: ring_of_def)
  finally show ?thesis using r q' same by (simp add: bq_view_def)
qed

lemma bq_take_spec:
  assumes "rb_inv (ring_of q)" and "bq_len q \<noteq> 0"
  shows "\<exists>e q'. bq_take q = Some (e, q') \<and> rb_inv (ring_of q') \<and> bq_view q = e # bq_view q'
     \<and> bq_cap q' = bq_cap q \<and> bq_elem_size q' = bq_elem_size q \<and> bq_closed q' = bq_closed q
     \<and> unat (bq_len q) = Suc (unat (bq_len q'))"
proof -
  have data: "bq_data q \<noteq> None" using assms(1) by (auto simp: rb_inv_def ring_of_def)
  have "length (rb_view (ring_of q)) = unat (bq_len q)" by (simp add: ring_of_def)
  then obtain e es where v: "rb_view (ring_of q) = e # es"
    using assms(2) by (metis length_0_conv neq_Nil_conv unat_eq_0)
  from ringbuf_pop_some [OF assms(1) v, of True]
  obtain r where r: "ringbuf_pop (Some (ring_of q)) True = Some (ERR_OK, Some e, Some r)" "rb_inv r" "rb_view r = es"
    by auto
  then obtain q' where q': "bq_take q = Some (e, q')" "r = ring_of q'"
    using bq_take_ring [OF assms(2) data] by auto
  have same: "bq_cap q' = bq_cap q" "bq_elem_size q' = bq_elem_size q" "bq_closed q' = bq_closed q"
    using q'(1) by (auto simp: bq_take_def bind_eq_Some_conv split: if_splits)
  have "unat (bq_len q') = length es" using r(3) by (metis q'(2) rb_len_view ring_of_def ringbuf.select_convs(5))
  moreover have "unat (bq_len q) = Suc (length es)" using v by (metis length_Cons rb_len_view ring_of_def ringbuf.select_convs(5))
  ultimately show ?thesis using r q' same v by (simp add: bq_view_def)
qed

section \<open>Counting threads\<close>

definition count_thr :: "(bq_thread \<Rightarrow> bool) \<Rightarrow> (nat \<Rightarrow> bq_thread) \<Rightarrow> nat" where
  "count_thr P f = card {u. P (f u)}"

definition finite_thr :: "(nat \<Rightarrow> bq_thread) \<Rightarrow> bool" where
  "finite_thr f \<longleftrightarrow> finite {u. f u \<noteq> TOut}"

lemma finite_thr_upd [simp]: "finite_thr f \<Longrightarrow> finite_thr (f(t := x))"
  unfolding finite_thr_def by (rule finite_subset [of _ "insert t {u. f u \<noteq> TOut}"]) auto

lemma count_thr_upd:
  assumes "finite_thr f" and "\<not> P TOut"
  shows "count_thr P (f(t := x)) + (if P (f t) then 1 else 0) = count_thr P f + (if P x then 1 else 0)"
proof -
  let ?A = "{u. P (f u)} - {t}"
  have fin: "finite {u. P (f u)}"
    using assms unfolding finite_thr_def by (elim finite_subset [rotated]) auto
  have "{u. P ((f(t := x)) u)} = (if P x then insert t ?A else ?A)" by auto
  moreover have "card (insert t ?A) = Suc (card ?A)" by (rule card_insert_disjoint) (use fin in auto)
  ultimately have "count_thr P (f(t := x)) = card ?A + (if P x then 1 else 0)"
    unfolding count_thr_def by simp
  moreover have "count_thr P f = card ?A + (if P (f t) then 1 else 0)"
  proof (cases "P (f t)")
    case True
    then show ?thesis using card.remove [OF fin, of t] by (simp add: count_thr_def)
  next
    case False
    then have "?A = {u. P (f u)}" by auto
    then show ?thesis using False by (simp add: count_thr_def)
  qed
  ultimately show ?thesis by simp
qed

section \<open>Invariant\<close>

fun thread_elem :: "bq_thread \<Rightarrow> block option" where
  "thread_elem (TPush e) = Some e"
| "thread_elem (TPushSleep e) = Some e"
| "thread_elem (TPushWoken e) = Some e"
| "thread_elem _ = None"

text \<open>
  No wake-up is lost: while a consumer sleeps, the elements present are at most the consumers
  that were woken and have not run yet; likewise free slots and producers. Nobody sleeps on a
  closed queue.
\<close>

definition no_lost_wakeup :: "bqueue \<Rightarrow> (nat \<Rightarrow> bq_thread) \<Rightarrow> bool" where
  "no_lost_wakeup q f \<longleftrightarrow>
     ((\<exists>t. pop_asleep (f t)) \<longrightarrow> unat (bq_len q) \<le> count_thr pop_woken f) \<and>
     ((\<exists>t. push_asleep (f t)) \<longrightarrow> unat (bq_cap q) \<le> unat (bq_len q) + count_thr push_woken f) \<and>
     (bq_closed q \<noteq> 0 \<longrightarrow> (\<forall>t. \<not> pop_asleep (f t) \<and> \<not> push_asleep (f t)))"

definition bq_inv :: "bq_sys \<Rightarrow> bool" where
  "bq_inv s \<longleftrightarrow>
     rb_inv (ring_of (bs_q s)) \<and> finite_thr (bs_thr s)
     \<and> bs_pushed s = bs_popped s @ bq_view (bs_q s)
     \<and> (\<forall>t e. thread_elem (bs_thr s t) = Some e \<longrightarrow> length e = unat (bq_elem_size (bs_q s)))
     \<and> no_lost_wakeup (bs_q s) (bs_thr s)"

lemma no_lost_wakeupD:
  assumes "no_lost_wakeup q f"
  shows "pop_asleep (f t) \<Longrightarrow> unat (bq_len q) \<le> count_thr pop_woken f"
    and "push_asleep (f t) \<Longrightarrow> unat (bq_cap q) \<le> unat (bq_len q) + count_thr push_woken f"
    and "bq_closed q \<noteq> 0 \<Longrightarrow> \<not> pop_asleep (f t) \<and> \<not> push_asleep (f t)"
  using assms unfolding no_lost_wakeup_def by blast+

lemma no_lost_wakeupI:
  assumes "\<And>t. pop_asleep (f t) \<Longrightarrow> unat (bq_len q) \<le> count_thr pop_woken f"
    and "\<And>t. push_asleep (f t) \<Longrightarrow> unat (bq_cap q) \<le> unat (bq_len q) + count_thr push_woken f"
    and "\<And>t. bq_closed q \<noteq> 0 \<Longrightarrow> \<not> pop_asleep (f t) \<and> \<not> push_asleep (f t)"
  shows "no_lost_wakeup q f"
  using assms unfolding no_lost_wakeup_def by blast

lemma wants_push_cases: "wants_push th = Some e \<Longrightarrow> th = TPush e \<or> th = TPushWoken e"
  by (cases th) auto

lemma wants_pop_cases: "wants_pop th \<Longrightarrow> th = TPop \<or> th = TPopWoken"
  by (cases th) auto

lemma wake_simps [simp]:
  "pop_asleep (wake th) = False" "push_asleep (wake th) = False" "thread_elem (wake th) = thread_elem th"
  "pop_woken (wake th) = (pop_woken th \<or> pop_asleep th)" "push_woken (wake th) = (push_woken th \<or> push_asleep th)"
  "(wake th = TOut) = (th = TOut)"
  by (cases th; simp)+

lemma asleep_not_woken: "pop_asleep th \<Longrightarrow> \<not> pop_woken th" "push_asleep th \<Longrightarrow> \<not> push_woken th"
  "pop_asleep th \<Longrightarrow> \<not> push_asleep th" "pop_asleep th \<Longrightarrow> \<not> push_woken th" "push_asleep th \<Longrightarrow> \<not> pop_woken th"
  "push_asleep th \<Longrightarrow> \<not> pop_asleep th"
  by (cases th; simp)+

text \<open>A thread that was not asleep does not sleep: only the woken counts can drop.\<close>

lemma no_lost_wakeup_wake1:
  assumes "finite_thr f" and "no_lost_wakeup q f"
  shows "no_lost_wakeup q (f(t := wake (f t)))"
proof -
  have a: "count_thr pop_woken f \<le> count_thr pop_woken (f(t := wake (f t)))"
    using count_thr_upd [OF assms(1), of pop_woken t "wake (f t)"] by (auto split: if_splits)
  have b: "count_thr push_woken f \<le> count_thr push_woken (f(t := wake (f t)))"
    using count_thr_upd [OF assms(1), of push_woken t "wake (f t)"] by (auto split: if_splits)
  have sub: "pop_asleep ((f(t := wake (f t))) u) \<Longrightarrow> pop_asleep (f u)"
    "push_asleep ((f(t := wake (f t))) u) \<Longrightarrow> push_asleep (f u)" for u
    by (auto split: if_splits)
  show ?thesis
    by (rule no_lost_wakeupI)
       (use sub a b no_lost_wakeupD [OF assms(2)] in \<open>blast intro: order_trans add_left_mono\<close>)+
qed

lemma signal_pop:
  assumes "signal pop_asleep f g" and "finite_thr f"
  shows "finite_thr g" "pop_asleep (g u) \<Longrightarrow> pop_asleep (f u)" "push_asleep (g u) = push_asleep (f u)"
    "pop_asleep (g u) \<Longrightarrow> count_thr pop_woken g = Suc (count_thr pop_woken f)"
    "count_thr push_woken g = count_thr push_woken f" "thread_elem (g u) = thread_elem (f u)"
proof -
  consider "\<forall>v. \<not> pop_asleep (f v)" "g = f" | v where "pop_asleep (f v)" "g = f(v := wake (f v))"
    using assms(1) by (auto simp: signal_def split: if_splits)
  note cs = this
  show "finite_thr g" using cs assms(2) by cases auto
  show "pop_asleep (g u) \<Longrightarrow> pop_asleep (f u)" using cs by cases (auto split: if_splits)
  show "push_asleep (g u) = push_asleep (f u)" using cs by cases (auto dest: asleep_not_woken)
  show "pop_asleep (g u) \<Longrightarrow> count_thr pop_woken g = Suc (count_thr pop_woken f)"
    using cs
  proof cases
    case (2 v)
    then show ?thesis using count_thr_upd [OF assms(2), of pop_woken v "wake (f v)"]
      by (simp add: asleep_not_woken)
  qed simp
  show "count_thr push_woken g = count_thr push_woken f"
    using cs
  proof cases
    case (2 v)
    then show ?thesis using count_thr_upd [OF assms(2), of push_woken v "wake (f v)"]
      by (simp add: asleep_not_woken)
  qed simp
  show "thread_elem (g u) = thread_elem (f u)" using cs by cases auto
qed

lemma signal_push:
  assumes "signal push_asleep f g" and "finite_thr f"
  shows "finite_thr g" "push_asleep (g u) \<Longrightarrow> push_asleep (f u)" "pop_asleep (g u) = pop_asleep (f u)"
    "push_asleep (g u) \<Longrightarrow> count_thr push_woken g = Suc (count_thr push_woken f)"
    "count_thr pop_woken g = count_thr pop_woken f" "thread_elem (g u) = thread_elem (f u)"
proof -
  consider "\<forall>v. \<not> push_asleep (f v)" "g = f" | v where "push_asleep (f v)" "g = f(v := wake (f v))"
    using assms(1) by (auto simp: signal_def split: if_splits)
  note cs = this
  show "finite_thr g" using cs assms(2) by cases auto
  show "push_asleep (g u) \<Longrightarrow> push_asleep (f u)" using cs by cases (auto split: if_splits)
  show "pop_asleep (g u) = pop_asleep (f u)" using cs by cases (auto dest: asleep_not_woken)
  show "push_asleep (g u) \<Longrightarrow> count_thr push_woken g = Suc (count_thr push_woken f)"
    using cs
  proof cases
    case (2 v)
    then show ?thesis using count_thr_upd [OF assms(2), of push_woken v "wake (f v)"]
      by (simp add: asleep_not_woken)
  qed simp
  show "count_thr pop_woken g = count_thr pop_woken f"
    using cs
  proof cases
    case (2 v)
    then show ?thesis using count_thr_upd [OF assms(2), of pop_woken v "wake (f v)"]
      by (simp add: asleep_not_woken)
  qed simp
  show "thread_elem (g u) = thread_elem (f u)" using cs by cases auto
qed

lemma count_out:
  assumes "finite_thr f" and "wants_push (f t) \<noteq> None \<or> wants_pop (f t)"
  shows "count_thr pop_woken f \<le> Suc (count_thr pop_woken (f(t := TOut)))"
    and "count_thr push_woken f \<le> Suc (count_thr push_woken (f(t := TOut)))"
    and "wants_push (f t) \<noteq> None \<Longrightarrow> count_thr pop_woken (f(t := TOut)) = count_thr pop_woken f"
    and "wants_pop (f t) \<Longrightarrow> count_thr push_woken (f(t := TOut)) = count_thr push_woken f"
    and "\<not> pop_asleep (f t)" and "\<not> push_asleep (f t)"
proof -
  note c = count_thr_upd [OF assms(1), of pop_woken t TOut] count_thr_upd [OF assms(1), of push_woken t TOut]
  show "count_thr pop_woken f \<le> Suc (count_thr pop_woken (f(t := TOut)))"
    and "count_thr push_woken f \<le> Suc (count_thr push_woken (f(t := TOut)))"
    using c by (auto split: if_splits)
  show "wants_push (f t) \<noteq> None \<Longrightarrow> count_thr pop_woken (f(t := TOut)) = count_thr pop_woken f"
    using c(1) by (auto dest: wants_push_cases)
  show "wants_pop (f t) \<Longrightarrow> count_thr push_woken (f(t := TOut)) = count_thr push_woken f"
    using c(2) by (auto dest: wants_pop_cases)
  show "\<not> pop_asleep (f t)" and "\<not> push_asleep (f t)"
    using assms(2) by (auto dest: wants_push_cases wants_pop_cases)
qed

section \<open>Every step keeps the invariant\<close>

lemma bq_inv_push_done:
  assumes "bq_inv s" and "wants_push (bs_thr s t) = Some e"
    and "bq_push (Some (bs_q s)) (Some e) = Some (Some (Returns ERR_OK () q))"
    and "signal pop_asleep ((bs_thr s)(t := TOut)) f"
  shows "bq_inv (s\<lparr>bs_q := q, bs_thr := f, bs_pushed := bs_pushed s @ [e]\<rparr>)"
proof -
  let ?q = "bs_q s" and ?f = "bs_thr s" and ?f1 = "(bs_thr s)(t := TOut)"
  have I: "rb_inv (ring_of ?q)" "finite_thr ?f" "bs_pushed s = bs_popped s @ bq_view ?q"
      "\<And>t e. thread_elem (?f t) = Some e \<Longrightarrow> length e = unat (bq_elem_size ?q)" "no_lost_wakeup ?q ?f"
    using assms(1) by (auto simp: bq_inv_def)
  have cond: "bq_closed ?q = 0" "bq_len ?q \<noteq> bq_cap ?q" "bq_put ?q e = Some q"
    using assms(3) by (auto simp: bq_push_def bind_eq_Some_conv split: if_splits)
  have le: "length e = unat (bq_elem_size ?q)" using I(4) [of t e] wants_push_cases [OF assms(2)] by auto
  have q: "rb_inv (ring_of q)" "bq_view q = bq_view ?q @ [e]" "bq_cap q = bq_cap ?q"
      "bq_elem_size q = bq_elem_size ?q" "bq_closed q = bq_closed ?q" "unat (bq_len q) = Suc (unat (bq_len ?q))"
    using bq_put_spec [OF I(1) le cond(2)] cond(3) by auto
  have w: "wants_push (?f t) \<noteq> None \<or> wants_pop (?f t)" "wants_push (?f t) \<noteq> None" using assms(2) by auto
  note co = count_out [OF I(2) w(1)]
  note sg = signal_pop [OF assms(4) finite_thr_upd [OF I(2)]]
  have up: "pop_asleep (f u) \<Longrightarrow> pop_asleep (?f u)" "push_asleep (f u) \<Longrightarrow> push_asleep (?f u)" for u
    using sg(2,3) [of u] by (auto split: if_splits)
  have "no_lost_wakeup q f"
  proof (rule no_lost_wakeupI)
    fix u assume p: "pop_asleep (f u)"
    then have "unat (bq_len ?q) \<le> count_thr pop_woken ?f" using no_lost_wakeupD(1) [OF I(5)] up(1) by blast
    then show "unat (bq_len q) \<le> count_thr pop_woken f" using sg(4) [OF p] co(3) [OF w(2)] q(6) by simp
  next
    fix u assume "push_asleep (f u)"
    then have "unat (bq_cap ?q) \<le> unat (bq_len ?q) + count_thr push_woken ?f"
      using no_lost_wakeupD(2) [OF I(5)] up(2) by blast
    then show "unat (bq_cap q) \<le> unat (bq_len q) + count_thr push_woken f"
      using sg(5) co(2) q(3,6) by simp
  qed (use cond(1) q(5) in simp)
  moreover have "\<forall>u e. thread_elem (f u) = Some e \<longrightarrow> length e = unat (bq_elem_size q)"
    using sg(6) I(4) q(4) by (auto split: if_splits)
  ultimately show ?thesis using q I(3) sg(1) by (simp add: bq_inv_def)
qed

lemma bq_inv_pop_done:
  assumes "bq_inv s" and "wants_pop (bs_thr s t)"
    and "bq_pop (Some (bs_q s)) True = Some (Some (Returns err (Some e) q))"
    and "signal push_asleep ((bs_thr s)(t := TOut)) f"
  shows "bq_inv (s\<lparr>bs_q := q, bs_thr := f, bs_popped := bs_popped s @ [e]\<rparr>)"
proof -
  let ?q = "bs_q s" and ?f = "bs_thr s" and ?f1 = "(bs_thr s)(t := TOut)"
  have I: "rb_inv (ring_of ?q)" "finite_thr ?f" "bs_pushed s = bs_popped s @ bq_view ?q"
      "\<And>t e. thread_elem (?f t) = Some e \<Longrightarrow> length e = unat (bq_elem_size ?q)" "no_lost_wakeup ?q ?f"
    using assms(1) by (auto simp: bq_inv_def)
  have cond: "bq_len ?q \<noteq> 0" "bq_take ?q = Some (e, q)"
    using assms(3) by (auto simp: bq_pop_def bind_eq_Some_conv split: if_splits)
  have q: "rb_inv (ring_of q)" "bq_view ?q = e # bq_view q" "bq_cap q = bq_cap ?q"
      "bq_elem_size q = bq_elem_size ?q" "bq_closed q = bq_closed ?q" "unat (bq_len ?q) = Suc (unat (bq_len q))"
    using bq_take_spec [OF I(1) cond(1)] cond(2) by auto
  have w: "wants_push (?f t) \<noteq> None \<or> wants_pop (?f t)" using assms(2) by simp
  note co = count_out [OF I(2) w]
  note sg = signal_push [OF assms(4) finite_thr_upd [OF I(2)]]
  have up: "pop_asleep (f u) \<Longrightarrow> pop_asleep (?f u)" "push_asleep (f u) \<Longrightarrow> push_asleep (?f u)" for u
    using sg(2,3) [of u] by (auto split: if_splits)
  have "no_lost_wakeup q f"
  proof (rule no_lost_wakeupI)
    fix u assume "pop_asleep (f u)"
    then have "unat (bq_len ?q) \<le> count_thr pop_woken ?f" using no_lost_wakeupD(1) [OF I(5)] up(1) by blast
    then show "unat (bq_len q) \<le> count_thr pop_woken f" using sg(5) co(1) q(6) by simp
  next
    fix u assume p: "push_asleep (f u)"
    then have "unat (bq_cap ?q) \<le> unat (bq_len ?q) + count_thr push_woken ?f"
      using no_lost_wakeupD(2) [OF I(5)] up(2) by blast
    then show "unat (bq_cap q) \<le> unat (bq_len q) + count_thr push_woken f"
      using sg(4) [OF p] co(4) [OF assms(2)] q(3,6) by simp
  next
    fix u assume "bq_closed q \<noteq> 0"
    then show "\<not> pop_asleep (f u) \<and> \<not> push_asleep (f u)"
      using no_lost_wakeupD(3) [OF I(5)] up q(5) by metis
  qed
  moreover have "\<forall>u e. thread_elem (f u) = Some e \<longrightarrow> length e = unat (bq_elem_size q)"
    using sg(6) I(4) q(4) by (auto split: if_splits)
  ultimately show ?thesis using q I(3) sg(1) by (simp add: bq_inv_def)
qed

text \<open>Steps that change one thread and not the queue.\<close>

lemma bq_inv_thread:
  assumes "bq_inv s" and "no_lost_wakeup (bs_q s) ((bs_thr s)(t := x))"
    and "\<And>e. thread_elem x = Some e \<Longrightarrow> length e = unat (bq_elem_size (bs_q s))"
  shows "bq_inv (s\<lparr>bs_thr := (bs_thr s)(t := x)\<rparr>)"
  using assms by (auto simp: bq_inv_def)

lemma bq_step_inv:
  assumes "bq_inv s" and "bq_step s s'"
  shows "bq_inv s'"
proof -
  let ?q = "bs_q s" and ?f = "bs_thr s"
  have I: "rb_inv (ring_of ?q)" "finite_thr ?f"
      "\<And>t e. thread_elem (?f t) = Some e \<Longrightarrow> length e = unat (bq_elem_size ?q)" "no_lost_wakeup ?q ?f"
    using assms(1) by (auto simp: bq_inv_def)
  note nlw = no_lost_wakeupD [OF I(4)]
  have awake: "no_lost_wakeup ?q (?f(t := x))"
    if "\<not> pop_asleep x" "\<not> push_asleep x" "count_thr pop_woken ?f \<le> count_thr pop_woken (?f(t := x)) \<or> bq_len ?q = 0"
      "count_thr push_woken ?f \<le> count_thr push_woken (?f(t := x)) \<or> bq_closed ?q \<noteq> 0"
      "bq_len ?q = 0 \<longrightarrow> bq_closed ?q \<noteq> 0 \<or> count_thr pop_woken ?f \<le> count_thr pop_woken (?f(t := x))" for t x
  proof (rule no_lost_wakeupI)
    fix u assume "pop_asleep ((?f(t := x)) u)"
    then have "pop_asleep (?f u)" using that(1) by (auto split: if_splits)
    then show "unat (bq_len ?q) \<le> count_thr pop_woken (?f(t := x))" using nlw(1) that(3) by (metis le_trans unat_0 zero_le)
  next
    fix u assume "push_asleep ((?f(t := x)) u)"
    then have "push_asleep (?f u)" using that(2) by (auto split: if_splits)
    then show "unat (bq_cap ?q) \<le> unat (bq_len ?q) + count_thr push_woken (?f(t := x))"
      using nlw(2,3) that(4) by (metis add_left_mono le_trans)
  qed (use nlw(3) that(1,2) in \<open>auto split: if_splits\<close>)
  from assms(2) show ?thesis
  proof (cases rule: bq_step.cases)
    case (call_push t e)
    have "no_lost_wakeup ?q (?f(t := TPush e))"
      by (rule awake) (use count_thr_upd [OF I(2), of pop_woken t "TPush e"]
          count_thr_upd [OF I(2), of push_woken t "TPush e"] call_push in auto)
    then show ?thesis unfolding call_push(1)
      by (rule bq_inv_thread [OF assms(1)]) (use call_push(3) in simp)
  next
    case (push_wait t e)
    have full: "bq_len ?q = bq_cap ?q" "bq_closed ?q = 0"
      using push_wait by (auto simp: bq_push_def bind_eq_Some_conv split: if_splits)
    have c: "count_thr pop_woken (?f(t := TPushSleep e)) = count_thr pop_woken ?f"
      using count_thr_upd [OF I(2), of pop_woken t "TPushSleep e"] push_wait(2) by (auto dest: wants_push_cases)
    have "no_lost_wakeup ?q (?f(t := TPushSleep e))"
      by (rule no_lost_wakeupI) (use full c nlw(1) in \<open>auto split: if_splits\<close>)
    moreover have "length e = unat (bq_elem_size ?q)"
      using I(3) [of t e] wants_push_cases [OF push_wait(2)] by auto
    ultimately show ?thesis unfolding push_wait(1) by (intro bq_inv_thread [OF assms(1)]) simp_all
  next
    case (push_refused t e err q)
    then have q: "q = ?q" "bq_closed ?q \<noteq> 0"
      by (auto simp: bq_push_def bind_eq_Some_conv split: if_splits)
    have "no_lost_wakeup ?q (?f(t := TOut))"
      by (rule no_lost_wakeupI) (use nlw(3) [OF q(2)] in \<open>auto split: if_splits\<close>)
    moreover have "s' = s\<lparr>bs_thr := ?f(t := TOut)\<rparr>" using push_refused(1) q(1) by simp
    ultimately show ?thesis using bq_inv_thread [OF assms(1), of t TOut] by simp
  next
    case (push_done t e q f)
    then show ?thesis using bq_inv_push_done [OF assms(1)] by simp
  next
    case (call_pop t)
    have "no_lost_wakeup ?q (?f(t := TPop))"
      by (rule awake) (use count_thr_upd [OF I(2), of pop_woken t TPop]
          count_thr_upd [OF I(2), of push_woken t TPop] call_pop in auto)
    moreover have "s' = s\<lparr>bs_thr := ?f(t := TPop)\<rparr>" using call_pop(1) by simp
    ultimately show ?thesis using bq_inv_thread [OF assms(1), of t TPop] by simp
  next
    case (pop_wait t)
    have empty: "bq_len ?q = 0" "bq_closed ?q = 0"
      using pop_wait by (auto simp: bq_pop_def bind_eq_Some_conv split: if_splits)
    have c: "count_thr push_woken (?f(t := TPopSleep)) = count_thr push_woken ?f"
      using count_thr_upd [OF I(2), of push_woken t TPopSleep] pop_wait(2) by (auto dest: wants_pop_cases)
    have "no_lost_wakeup ?q (?f(t := TPopSleep))"
      by (rule no_lost_wakeupI) (use empty c nlw(2) in \<open>auto split: if_splits\<close>)
    moreover have "s' = s\<lparr>bs_thr := ?f(t := TPopSleep)\<rparr>" using pop_wait(1) by simp
    ultimately show ?thesis using bq_inv_thread [OF assms(1), of t TPopSleep] by simp
  next
    case (pop_refused t err q)
    then have q: "q = ?q" "bq_closed ?q \<noteq> 0"
      by (auto simp: bq_pop_def bind_eq_Some_conv split: if_splits)
    have "no_lost_wakeup ?q (?f(t := TOut))"
      by (rule no_lost_wakeupI) (use nlw(3) [OF q(2)] in \<open>auto split: if_splits\<close>)
    moreover have "s' = s\<lparr>bs_thr := ?f(t := TOut)\<rparr>" using pop_refused(1) q(1) by simp
    ultimately show ?thesis using bq_inv_thread [OF assms(1), of t TOut] by simp
  next
    case (pop_done t err e q f)
    then show ?thesis using bq_inv_pop_done [OF assms(1)] by simp
  next
    case (spurious t)
    then show ?thesis
      using bq_inv_thread [OF assms(1) no_lost_wakeup_wake1 [OF I(2,4)]] I(3) by simp
  next
    case (close q)
    then have q: "q = ?q\<lparr>bq_closed := 1\<rparr>" using I(1) by (auto simp: bq_close_def rb_inv_def ring_of_def)
    have "no_lost_wakeup q (wake \<circ> ?f)" by (rule no_lost_wakeupI) simp_all
    moreover have "finite_thr (wake \<circ> ?f)" using I(2) by (simp add: finite_thr_def)
    ultimately show ?thesis using assms(1) close by (simp add: bq_inv_def q ring_of_def bq_view_def)
  qed
qed

lemma bq_reach_inv: "bq_reach s t \<Longrightarrow> bq_inv s \<Longrightarrow> bq_inv t"
  by (induction rule: bq_reach.induct) (auto intro: bq_step_inv)

lemma bq_init_inv:
  assumes "bq_init ok (Some q0) elem_size capacity = (ERR_OK, Some q)"
  shows "bq_inv (bq_start q)" and "bq_cap q = capacity"
proof -
  have nz: "elem_size \<noteq> 0" "capacity \<noteq> 0" and g: "\<not> capacity > SIZE_MAX div elem_size"
    and m: "\<exists>d. malloc ok (capacity * elem_size) = Some d \<and> q = \<lparr>bq_data = Some d, bq_elem_size = elem_size,
              bq_cap = capacity, bq_head = 0, bq_len = 0, bq_closed = 0\<rparr>"
    using assms by (auto simp: bq_init_def split: if_splits option.splits)
  obtain d where d: "malloc ok (capacity * elem_size) = Some d"
    and q: "q = \<lparr>bq_data = Some d, bq_elem_size = elem_size, bq_cap = capacity, bq_head = 0, bq_len = 0, bq_closed = 0\<rparr>"
    using m by blast
  have p: "unat (capacity * elem_size) = unat capacity * unat elem_size"
    using mult_guard [OF nz(1), of capacity] g by (subst unat_mult_small) simp_all
  have "length d = unat capacity * unat elem_size" "unat capacity * unat elem_size \<le> PTRDIFF_MAX"
    using malloc_SomeD [OF d] unfolding p by simp_all
  then have "rb_inv (ring_of q)" using nz by (simp add: q ring_of_def rb_inv_def unat_pos_iff)
  moreover have "bq_view q = []" by (simp add: bq_view_def q ring_of_def rb_view_def)
  ultimately show "bq_inv (bq_start q)"
    by (simp add: bq_inv_def bq_start_def finite_thr_def no_lost_wakeup_def)
  show "bq_cap q = capacity" by (simp add: q)
qed

lemma bq_cap_const: "bq_reach s t \<Longrightarrow> bq_inv s \<Longrightarrow> bq_cap (bs_q t) = bq_cap (bs_q s)"
proof (induction rule: bq_reach.induct)
  case (bq_more t u)
  from bq_more(2) have "bq_cap (bs_q u) = bq_cap (bs_q t)"
    by (cases rule: bq_step.cases)
       (auto simp: bq_push_def bq_pop_def bq_put_def bq_take_def bq_close_def bind_eq_Some_conv Let_def
             split: if_splits)
  then show ?case using bq_more by simp
qed simp

section \<open>Properties\<close>

text \<open>
  C3. Whatever producers and consumers do and however they are scheduled and woken, the
  elements consumed followed by those stored are the elements accepted, in order: none is
  lost, duplicated or reordered, and at most \<open>capacity\<close> are stored. No thread that takes the
  mutex leaves the block or divides by zero.
\<close>

theorem bq_concurrent_fifo:
  assumes "bq_init ok (Some q0) elem_size capacity = (ERR_OK, Some q)" and "bq_reach (bq_start q) s"
  shows "bs_pushed s = bs_popped s @ bq_view (bs_q s)
       \<and> length (bq_view (bs_q s)) \<le> unat capacity
       \<and> (\<forall>t e. wants_push (bs_thr s t) = Some e \<longrightarrow> bq_push (Some (bs_q s)) (Some e) \<noteq> None)
       \<and> bq_pop (Some (bs_q s)) True \<noteq> None"
proof -
  have start: "bq_inv (bq_start q)" "bq_cap q = capacity" using bq_init_inv [OF assms(1)] by auto
  have inv: "bq_inv s" using bq_reach_inv [OF assms(2) start(1)] .
  have cap: "bq_cap (bs_q s) = capacity"
    using bq_cap_const [OF assms(2) start(1)] start(2) by (simp add: bq_start_def)
  have I: "rb_inv (ring_of (bs_q s))" "bs_pushed s = bs_popped s @ bq_view (bs_q s)"
      "\<And>t e. thread_elem (bs_thr s t) = Some e \<Longrightarrow> length e = unat (bq_elem_size (bs_q s))"
    using inv by (auto simp: bq_inv_def)
  have "length (bq_view (bs_q s)) \<le> unat capacity"
    using I(1) cap by (auto simp: bq_view_def rb_inv_def) (simp add: ring_of_def)
  moreover have "bq_push (Some (bs_q s)) (Some e) \<noteq> None" if "wants_push (bs_thr s t) = Some e" for t e
  proof -
    have "length e = unat (bq_elem_size (bs_q s))"
      using I(3) [of t e] wants_push_cases [OF that] by auto
    then have "bq_len (bs_q s) \<noteq> bq_cap (bs_q s) \<Longrightarrow> \<exists>q'. bq_put (bs_q s) e = Some q'"
      using bq_put_spec [OF I(1)] by blast
    then show ?thesis by (auto simp: bq_push_def)
  qed
  moreover have "bq_pop (Some (bs_q s)) True \<noteq> None"
    using bq_take_spec [OF I(1)] by (auto simp: bq_pop_def)
  ultimately show ?thesis using I(2) by blast
qed

text \<open>
  C4. No wake-up is lost. In every reachable state where some thread sleeps: if the queue is
  closed there is none; if elements are stored while a consumer sleeps, a consumer has been
  woken and is still to run; if there is room while a producer sleeps, a producer has been
  woken and is still to run. So the threads can only all be stuck on a queue that is really
  empty, or really full.
\<close>

theorem bq_no_lost_wakeup:
  assumes "bq_init ok (Some q0) elem_size capacity = (ERR_OK, Some q)" and "bq_reach (bq_start q) s"
  shows "(bs_thr s t = TPopSleep \<longrightarrow> bq_closed (bs_q s) = 0
            \<and> (bq_view (bs_q s) \<noteq> [] \<longrightarrow> (\<exists>u. bs_thr s u = TPopWoken)))
       \<and> (bs_thr s t = TPushSleep e \<longrightarrow> bq_closed (bs_q s) = 0
            \<and> (length (bq_view (bs_q s)) < unat capacity \<longrightarrow> (\<exists>u e'. bs_thr s u = TPushWoken e')))"
proof -
  have start: "bq_inv (bq_start q)" "bq_cap q = capacity" using bq_init_inv [OF assms(1)] by auto
  have inv: "bq_inv s" using bq_reach_inv [OF assms(2) start(1)] .
  have cap: "bq_cap (bs_q s) = capacity"
    using bq_cap_const [OF assms(2) start(1)] start(2) by (simp add: bq_start_def)
  have I: "rb_inv (ring_of (bs_q s))" "finite_thr (bs_thr s)" "no_lost_wakeup (bs_q s) (bs_thr s)"
    using inv by (auto simp: bq_inv_def)
  note n = no_lost_wakeupD [OF I(3), of t]
  have len: "length (bq_view (bs_q s)) = unat (bq_len (bs_q s))"
    by (simp add: bq_view_def) (simp add: ring_of_def)
  have some: "\<exists>u. P (bs_thr s u)" if "count_thr P (bs_thr s) \<noteq> 0" for P
    using that unfolding count_thr_def by (metis (mono_tags, lifting) card.empty empty_Collect_eq)
  have pw: "pop_woken th \<longleftrightarrow> th = TPopWoken" "push_woken th \<longleftrightarrow> (\<exists>e. th = TPushWoken e)" for th
    by (cases th; simp)+
  have closed: "bs_thr s t = TPopSleep \<or> bs_thr s t = TPushSleep e \<Longrightarrow> bq_closed (bs_q s) = 0"
    using n(3) by fastforce
  have "\<exists>u. bs_thr s u = TPopWoken" if "bs_thr s t = TPopSleep" "bq_view (bs_q s) \<noteq> []"
  proof -
    have "0 < unat (bq_len (bs_q s))" using that(2) len by (metis length_greater_0_conv)
    then have "count_thr pop_woken (bs_thr s) \<noteq> 0" using n(1) that(1) by simp
    then show ?thesis using some [of pop_woken] by (auto simp: pw)
  qed
  moreover have "\<exists>u e'. bs_thr s u = TPushWoken e'"
    if "bs_thr s t = TPushSleep e" "length (bq_view (bs_q s)) < unat capacity"
  proof -
    have "count_thr push_woken (bs_thr s) \<noteq> 0" using n(2) that len cap by simp
    then show ?thesis using some [of push_woken] by (auto simp: pw)
  qed
  ultimately show ?thesis using closed by blast
qed

definition bq_example :: bqueue where
  "bq_example = \<lparr>bq_data = Some [None], bq_elem_size = 1, bq_cap = 1, bq_head = 0, bq_len = 0, bq_closed = 0\<rparr>"

lemma bq_example_init: "bq_init True (Some q0) 1 1 = (ERR_OK, Some bq_example)"
  by (simp add: bq_init_def bq_example_def malloc_def)

lemma bq_example_push:
  "bq_push (Some bq_example) (Some [Some 7])
     = Some (Some (Returns ERR_OK () (bq_example\<lparr>bq_data := Some [Some 7], bq_len := 1\<rparr>)))"
  by (simp add: bq_push_def bq_put_def bq_example_def load_def store_def Let_def)

text \<open>A consumer sleeps on the empty queue; a producer comes, and its signal wakes it.\<close>

lemma bq_example_run:
  "\<exists>s. bq_reach (bq_start bq_example) s \<and> bs_thr s 0 = TPopWoken \<and> bs_pushed s = [[Some 7]]"
proof -
  let ?q = "bq_example\<lparr>bq_data := Some [Some 7], bq_len := 1\<rparr>"
  let ?s0 = "bq_start bq_example"
  let ?s1 = "?s0\<lparr>bs_thr := (bs_thr ?s0)(0 := TPop)\<rparr>"
  let ?s2 = "?s1\<lparr>bs_thr := (bs_thr ?s1)(0 := TPopSleep)\<rparr>"
  let ?s3 = "?s2\<lparr>bs_thr := (bs_thr ?s2)(1 := TPush [Some 7])\<rparr>"
  let ?f = "((bs_thr ?s3)(1 := TOut))(0 := TPopWoken)"
  let ?s4 = "?s3\<lparr>bs_q := ?q, bs_thr := ?f, bs_pushed := bs_pushed ?s3 @ [[Some 7]]\<rparr>"
  have s1: "bq_step ?s0 ?s1" by (rule call_pop) (simp add: bq_start_def)
  have s2: "bq_step ?s1 ?s2"
    by (rule pop_wait) (simp_all add: bq_start_def bq_pop_def bq_example_def)
  have s3: "bq_step ?s2 ?s3"
    by (rule call_push) (simp_all add: bq_start_def bq_example_def)
  have s4: "bq_step ?s3 ?s4"
  proof (rule push_done)
    show "signal pop_asleep ((bs_thr ?s3)(1 := TOut)) ?f"
      unfolding signal_def by (auto simp: bq_start_def intro!: exI [of _ 0])
  qed (simp_all add: bq_start_def bq_example_push)
  have "bq_reach ?s0 ?s4"
    by (rule bq_more [OF bq_more [OF bq_more [OF bq_more [OF bq_refl s1] s2] s3] s4])
  moreover have "bs_thr ?s4 0 = TPopWoken" "bs_pushed ?s4 = [[Some 7]]" by (simp_all add: bq_start_def)
  ultimately show ?thesis by blast
qed

lemma bq_example_sleep: "\<exists>s. bq_reach (bq_start bq_example) s \<and> bs_thr s 0 = TPopSleep"
proof -
  let ?s0 = "bq_start bq_example"
  let ?s1 = "?s0\<lparr>bs_thr := (bs_thr ?s0)(0 := TPop)\<rparr>"
  let ?s2 = "?s1\<lparr>bs_thr := (bs_thr ?s1)(0 := TPopSleep)\<rparr>"
  have s1: "bq_step ?s0 ?s1" by (rule call_pop) (simp add: bq_start_def)
  have s2: "bq_step ?s1 ?s2"
    by (rule pop_wait) (simp_all add: bq_start_def bq_pop_def bq_example_def)
  have "bq_reach ?s0 ?s2" by (rule bq_more [OF bq_more [OF bq_refl s1] s2])
  then show ?thesis by (intro exI [of _ ?s2]) simp
qed

theorem bq_concurrent_fifo_witness:
  "\<exists>s. bq_reach (bq_start bq_example) s \<and> bs_pushed s = [[Some 7]]
      \<and> bs_pushed s = bs_popped s @ bq_view (bs_q s)"
  using bq_example_run bq_concurrent_fifo [OF bq_example_init] by metis

theorem bq_no_lost_wakeup_witness:
  "\<exists>s. bq_reach (bq_start bq_example) s \<and> bs_thr s 0 = TPopSleep \<and> bq_closed (bs_q s) = 0"
  using bq_example_sleep bq_no_lost_wakeup [OF bq_example_init] by metis

end
