(* ===== verification/Pipeline.thy ===== *)
theory Pipeline
  imports BlockingQueue
begin

text \<open>
  The producer and consumer pipeline of \<open>examples/pipeline_demo.c\<close>, the program that puts the blocking
  queue to work: producers push a fixed number of items each, the main thread pops them all, joins the
  producers and closes the queue. Every step is a step of the thread system of theory BlockingQueue;
  here the threads follow their programs, so that they can be shown to finish.
\<close>

section \<open>Items\<close>

definition PRODUCERS :: nat where
  "PRODUCERS = 3"

definition ITEMS_PER_PRODUCER :: nat where
  "ITEMS_PER_PRODUCER = 1000"

definition QUEUE_CAP :: size_t where
  "QUEUE_CAP = 32"

text \<open>A \<open>WorkItem\<close> is two \<open>int\<close>s of four bytes, least significant byte first.\<close>

definition int_bytes :: "int \<Rightarrow> block" where
  "int_bytes x = map (\<lambda>k. Some (word_of_int (x div 2 ^ (8 * k)))) [0 ..< 4]"

definition bytes_int :: "block \<Rightarrow> int" where
  "bytes_int b = sint (word_of_int (horner_sum uint 256 (map the b)) :: 32 word)"

definition work_item :: "nat \<Rightarrow> nat \<Rightarrow> block" where
  "work_item p v = int_bytes (int p) @ int_bytes (int v)"

definition item_producer :: "block \<Rightarrow> int" where
  "item_producer e = bytes_int (take 4 e)"

definition item_value :: "block \<Rightarrow> int" where
  "item_value e = bytes_int (drop 4 e)"

definition sizeof_work_item :: size_t where
  "sizeof_work_item = 8"

lemma length_int_bytes [simp]: "length (int_bytes x) = 4"
  by (simp add: int_bytes_def)

lemma four_digits: "(x :: int) mod 256 + 256 * (x div 256 mod 256 + 256 * (x div 65536 mod 256 + 256 * (x div 16777216 mod 256))) = x mod 4294967296"
proof -
  have "x div 65536 mod 256 + 256 * (x div 16777216 mod 256) = x div 65536 mod 65536"
    using zmod_zmult2_eq [of 256 "x div 65536" 256] by (simp add: zdiv_zmult2_eq [symmetric])
  moreover have "x div 256 mod 256 + 256 * (x div 65536 mod 65536) = x div 256 mod 16777216"
    using zmod_zmult2_eq [of 65536 "x div 256" 256] by (simp add: zdiv_zmult2_eq [symmetric])
  moreover have "x mod 256 + 256 * (x div 256 mod 16777216) = x mod 4294967296"
    using zmod_zmult2_eq [of 16777216 x 256] by simp
  ultimately show ?thesis by simp
qed

lemma bytes_int_bytes:
  assumes "- (2 ^ 31) \<le> x" and "x < 2 ^ 31"
  shows "bytes_int (int_bytes x) = x"
proof -
  have "[0 ..< 4] = [0, 1, 2, 3 :: nat]" by (simp add: upt_conv_Cons)
  then have "map the (int_bytes x) = map word_of_int [x, x div 256, x div 65536, x div 16777216]"
    by (simp add: int_bytes_def)
  then have "horner_sum uint 256 (map the (int_bytes x)) = x mod 4294967296"
    unfolding four_digits [symmetric] by (simp add: uint_word_of_int)
  then have "bytes_int (int_bytes x) = sint (word_of_int (x mod 2 ^ 32) :: 32 word)" by (simp add: bytes_int_def)
  also have "\<dots> = sint (word_of_int x :: 32 word)"
    by (rule arg_cong [where f = sint]) (simp add: word_of_int_eq_iff take_bit_eq_mod)
  also have "\<dots> = x" using assms by (simp add: signed_of_int signed_take_bit_int_eq_self)
  finally show ?thesis .
qed

lemma work_item_fields [simp]:
  "length (work_item p v) = 8"
  "p < 2 ^ 31 \<Longrightarrow> item_producer (work_item p v) = int p"
  "v < 2 ^ 31 \<Longrightarrow> item_value (work_item p v) = int v"
proof -
  have int: "bytes_int (int_bytes (int n)) = int n" if "n < 2 ^ 31" for n
    using that by (intro bytes_int_bytes) auto
  show "length (work_item p v) = 8" by (simp add: work_item_def)
  show "p < 2 ^ 31 \<Longrightarrow> item_producer (work_item p v) = int p" by (simp only: work_item_def item_producer_def) (simp add: int)
  show "v < 2 ^ 31 \<Longrightarrow> item_value (work_item p v) = int v" by (simp only: work_item_def item_value_def) (simp add: int)
qed

section \<open>The threads and their programs\<close>

text \<open>
  Thread 0 is \<open>main\<close>, threads 1 to \<open>PRODUCERS\<close> are the producers. \<open>pi_i\<close> is the loop variable of each
  producer and \<open>pi_n\<close> the one of the consuming loop; a loop left by \<open>break\<close> has its variable past the end.
\<close>

record pipe =
  pi_sys :: bq_sys
  pi_i :: "nat \<Rightarrow> nat"
  pi_n :: nat
  pi_total :: int
  pi_per :: "int \<Rightarrow> int"

definition pipe_start :: "bqueue \<Rightarrow> pipe" where
  "pipe_start q = \<lparr>pi_sys = bq_start q, pi_i = (\<lambda>t. 1), pi_n = 0, pi_total = 0, pi_per = (\<lambda>p. 0)\<rparr>"

definition producers :: "nat set" where
  "producers = {1 .. PRODUCERS}"

definition all_items :: nat where
  "all_items = PRODUCERS * ITEMS_PER_PRODUCER"

definition set_thr :: "nat \<Rightarrow> bq_thread \<Rightarrow> bq_sys \<Rightarrow> bq_sys" where
  "set_thr t x b = b\<lparr>bs_thr := (bs_thr b)(t := x)\<rparr>"

inductive pipe_step :: "pipe \<Rightarrow> pipe \<Rightarrow> bool" where
  producer_call:
    "\<lbrakk>b = pi_sys s; t \<in> producers; bs_thr b t = TOut; pi_i s t \<le> ITEMS_PER_PRODUCER\<rbrakk>
     \<Longrightarrow> pipe_step s (s\<lparr>pi_sys := set_thr t (TPush (work_item (t - 1) (pi_i s t))) b\<rparr>)"
| producer_waits:
    "\<lbrakk>b = pi_sys s; wants_push (bs_thr b t) = Some e; bq_push (Some (bs_q b)) (Some e) = Some (Some Waits)\<rbrakk>
     \<Longrightarrow> pipe_step s (s\<lparr>pi_sys := set_thr t (TPushSleep e) b\<rparr>)"
| producer_refused:
    "\<lbrakk>b = pi_sys s; wants_push (bs_thr b t) = Some e;
      bq_push (Some (bs_q b)) (Some e) = Some (Some (Returns err () q)); err \<noteq> ERR_OK\<rbrakk>
     \<Longrightarrow> pipe_step s (s\<lparr>pi_sys := set_thr t TOut (b\<lparr>bs_q := q\<rparr>), pi_i := (pi_i s)(t := Suc ITEMS_PER_PRODUCER)\<rparr>)"
| producer_done:
    "\<lbrakk>b = pi_sys s; wants_push (bs_thr b t) = Some e;
      bq_push (Some (bs_q b)) (Some e) = Some (Some (Returns ERR_OK () q));
      signal pop_asleep ((bs_thr b)(t := TOut)) f\<rbrakk>
     \<Longrightarrow> pipe_step s (s\<lparr>pi_sys := b\<lparr>bs_q := q, bs_thr := f, bs_pushed := bs_pushed b @ [e]\<rparr>,
                        pi_i := (pi_i s)(t := Suc (pi_i s t))\<rparr>)"
| consumer_call:
    "\<lbrakk>b = pi_sys s; bs_thr b 0 = TOut; pi_n s < all_items\<rbrakk> \<Longrightarrow> pipe_step s (s\<lparr>pi_sys := set_thr 0 TPop b\<rparr>)"
| consumer_waits:
    "\<lbrakk>b = pi_sys s; wants_pop (bs_thr b 0); bq_pop (Some (bs_q b)) True = Some (Some Waits)\<rbrakk>
     \<Longrightarrow> pipe_step s (s\<lparr>pi_sys := set_thr 0 TPopSleep b\<rparr>)"
| consumer_refused:
    "\<lbrakk>b = pi_sys s; wants_pop (bs_thr b 0); bq_pop (Some (bs_q b)) True = Some (Some (Returns err None q))\<rbrakk>
     \<Longrightarrow> pipe_step s (s\<lparr>pi_sys := set_thr 0 TOut (b\<lparr>bs_q := q\<rparr>), pi_n := all_items\<rparr>)"
| consumer_done:
    "\<lbrakk>b = pi_sys s; wants_pop (bs_thr b 0); bq_pop (Some (bs_q b)) True = Some (Some (Returns err (Some e) q));
      signal push_asleep ((bs_thr b)(0 := TOut)) f\<rbrakk>
     \<Longrightarrow> pipe_step s (s\<lparr>pi_sys := b\<lparr>bs_q := q, bs_thr := f, bs_popped := bs_popped b @ [e]\<rparr>,
                        pi_n := Suc (pi_n s), pi_total := pi_total s + item_value e,
                        pi_per := (pi_per s)(item_producer e := pi_per s (item_producer e) + 1)\<rparr>)"
| main_closes:
    "\<lbrakk>b = pi_sys s; bs_thr b 0 = TOut; all_items \<le> pi_n s;
      \<forall>t \<in> producers. bs_thr b t = TOut \<and> ITEMS_PER_PRODUCER < pi_i s t;
      bq_closed (bs_q b) = 0; bq_close (Some (bs_q b)) = Some q\<rbrakk>
     \<Longrightarrow> pipe_step s (s\<lparr>pi_sys := b\<lparr>bs_q := q, bs_thr := wake \<circ> bs_thr b\<rparr>\<rparr>)"

text \<open>A wake-up without a signal, which POSIX allows at any time.\<close>

definition pipe_spurious :: "nat \<Rightarrow> pipe \<Rightarrow> pipe" where
  "pipe_spurious t s = s\<lparr>pi_sys := set_thr t (wake (bs_thr (pi_sys s) t)) (pi_sys s)\<rparr>"

inductive pipe_reach :: "pipe \<Rightarrow> pipe \<Rightarrow> bool" for s where
  pipe_refl: "pipe_reach s s"
| pipe_more: "pipe_reach s t \<Longrightarrow> pipe_step t u \<Longrightarrow> pipe_reach s u"
| pipe_wake: "pipe_reach s t \<Longrightarrow> pipe_reach s (pipe_spurious v t)"

section \<open>The pipeline uses the queue as its clients may\<close>

lemma pipe_step_bq:
  assumes "pipe_step s s'" and "bq_elem_size (bs_q (pi_sys s)) = sizeof_work_item"
  shows "bq_step (pi_sys s) (pi_sys s')"
  using assms
  by cases
     (auto simp: set_thr_def sizeof_work_item_def intro: bq_step.intros)


lemma bq_step_const:
  assumes "bq_step s s'"
  shows "bq_cap (bs_q s') = bq_cap (bs_q s)" and "bq_elem_size (bs_q s') = bq_elem_size (bs_q s)"
  using assms
  by (cases rule: bq_step.cases;
      auto simp: bq_push_def bq_pop_def bq_put_def bq_take_def bq_close_def bind_eq_Some_conv Let_def split: if_splits)+

section \<open>Invariant\<close>

text \<open>What thread \<open>t\<close> may be doing, by the value of its loop variable.\<close>

definition role :: "nat \<Rightarrow> bq_thread \<Rightarrow> nat \<Rightarrow> nat \<Rightarrow> bool" where
  "role t th i n \<longleftrightarrow>
     (case thread_elem th of
        Some e \<Rightarrow> t \<in> producers \<and> i \<le> ITEMS_PER_PRODUCER \<and> e = work_item (t - 1) i
      | None \<Rightarrow> th = TOut \<or> t = 0 \<and> n < all_items)"

definition pipe_ended :: "pipe \<Rightarrow> bool" where
  "pipe_ended s \<longleftrightarrow> pi_n s = all_items \<and> (\<forall>t. bs_thr (pi_sys s) t = TOut) \<and> (\<forall>t \<in> producers. pi_i s t = Suc ITEMS_PER_PRODUCER)"

definition from_producer :: "nat \<Rightarrow> block \<Rightarrow> bool" where
  "from_producer p e \<longleftrightarrow> item_producer e = int p"

text \<open>What was pushed, in terms of the loop variables.\<close>

definition pushed_ok :: "(nat \<Rightarrow> nat) \<Rightarrow> block list \<Rightarrow> bool" where
  "pushed_ok i xs \<longleftrightarrow>
     (\<forall>t \<in> producers. 1 \<le> i t \<and> i t \<le> Suc ITEMS_PER_PRODUCER
        \<and> filter (from_producer (t - 1)) xs = map (work_item (t - 1)) [1 ..< i t])
     \<and> (\<forall>e \<in> set xs. \<exists>t \<in> producers. from_producer (t - 1) e)
     \<and> length xs + (\<Sum>t \<in> producers. Suc ITEMS_PER_PRODUCER - i t) = all_items
     \<and> (\<Sum>e \<leftarrow> xs. item_value e) = (\<Sum>t \<in> producers. \<Sum>v = 1 ..< i t. int v)"

definition pipe_inv :: "pipe \<Rightarrow> bool" where
  "pipe_inv s \<longleftrightarrow>
     bq_inv (pi_sys s) \<and> bq_elem_size (bs_q (pi_sys s)) = sizeof_work_item
     \<and> (\<forall>t. role t (bs_thr (pi_sys s) t) (pi_i s t) (pi_n s))
     \<and> (bq_closed (bs_q (pi_sys s)) \<noteq> 0 \<longrightarrow> pipe_ended s)
     \<and> pushed_ok (pi_i s) (bs_pushed (pi_sys s))
     \<and> pi_n s = length (bs_popped (pi_sys s))
     \<and> pi_total s = (\<Sum>e \<leftarrow> bs_popped (pi_sys s). item_value e)
     \<and> (\<forall>p. pi_per s p = int (length (filter (\<lambda>e. item_producer e = p) (bs_popped (pi_sys s)))))"

lemma finite_producers [simp]: "finite producers" "0 \<notin> producers"
  by (simp_all add: producers_def)

lemma sum_upd:
  fixes g :: "'b \<Rightarrow> 'c::ab_group_add"
  assumes "finite A" and "t \<in> A"
  shows "(\<Sum>u \<in> A. g ((f(t := x)) u)) = (\<Sum>u \<in> A. g (f u)) - g (f t) + g x"
proof -
  have "(\<Sum>u \<in> A - {t}. g ((f(t := x)) u)) = (\<Sum>u \<in> A - {t}. g (f u))" by (rule sum.cong) auto
  then show ?thesis using sum.remove [OF assms, of "\<lambda>u. g ((f(t := x)) u)"] sum.remove [OF assms, of "\<lambda>u. g (f u)"]
    by (simp add: algebra_simps)
qed

lemma sum_upd_nat:
  fixes g :: "'b \<Rightarrow> nat"
  assumes "finite A" and "t \<in> A"
  shows "(\<Sum>u \<in> A. g ((f(t := x)) u)) + g (f t) = (\<Sum>u \<in> A. g (f u)) + g x"
proof -
  have "(\<Sum>u \<in> A - {t}. g ((f(t := x)) u)) = (\<Sum>u \<in> A - {t}. g (f u))" by (rule sum.cong) auto
  then show ?thesis using sum.remove [OF assms, of "\<lambda>u. g ((f(t := x)) u)"] sum.remove [OF assms, of "\<lambda>u. g (f u)"]
    by simp
qed

lemma producers_small: "t \<in> producers \<Longrightarrow> t - 1 < 2 ^ 31"
  by (auto simp: producers_def PRODUCERS_def)

lemma items_small: "v \<le> ITEMS_PER_PRODUCER \<Longrightarrow> v < 2 ^ 31"
  by (simp add: ITEMS_PER_PRODUCER_def)

lemma pushed_ok_item:
  assumes "pushed_ok i xs" and "t \<in> producers" and "i t \<le> ITEMS_PER_PRODUCER"
  shows "pushed_ok (i(t := Suc (i t))) (xs @ [work_item (t - 1) (i t)])"
proof -
  let ?i = "i(t := Suc (i t))" and ?e = "work_item (t - 1) (i t)"
  note inv = assms(1) [unfolded pushed_ok_def]
  have it: "1 \<le> i t" using inv assms(2) by blast
  have e: "item_producer ?e = int (t - 1)" "item_value ?e = int (i t)"
    using work_item_fields(2) [OF producers_small [OF assms(2)]] work_item_fields(3) [OF items_small [OF assms(3)]] by auto
  have fro: "from_producer (u - 1) ?e \<longleftrightarrow> u = t" if "u \<in> producers" for u
    using that assms(2) unfolding from_producer_def e by (auto simp: producers_def)
  have "filter (from_producer (u - 1)) (xs @ [?e]) = map (work_item (u - 1)) [1 ..< ?i u]" if "u \<in> producers" for u
    using inv that fro [OF that] it by auto
  moreover have "\<forall>d \<in> set (xs @ [?e]). \<exists>t \<in> producers. from_producer (t - 1) d" using inv fro assms(2) by auto
  moreover have "1 \<le> ?i u \<and> ?i u \<le> Suc ITEMS_PER_PRODUCER" if "u \<in> producers" for u
    using inv that assms(3) by auto
  moreover have "Suc (\<Sum>t \<in> producers. Suc ITEMS_PER_PRODUCER - ?i t) = (\<Sum>t \<in> producers. Suc ITEMS_PER_PRODUCER - i t)"
    using assms(3) sum_upd_nat [OF finite_producers(1) assms(2), of "\<lambda>v. Suc ITEMS_PER_PRODUCER - v" i "Suc (i t)"] by linarith
  then have "length (xs @ [?e]) + (\<Sum>t \<in> producers. Suc ITEMS_PER_PRODUCER - ?i t) = all_items"
    using inv by (simp del: fun_upd_apply)
  moreover have "(\<Sum>e \<leftarrow> xs @ [?e]. item_value e) = (\<Sum>t \<in> producers. \<Sum>v = 1 ..< ?i t. int v)"
    using inv it sum_upd [OF finite_producers(1) assms(2), of "\<lambda>j. \<Sum>v = 1 ..< j. int v" i "Suc (i t)"]
    by (simp only: map_append sum_list_append) (simp add: e del: One_nat_def)
  ultimately show ?thesis unfolding pushed_ok_def by blast
qed

text \<open>What a step of a thread that holds the mutex does to the queue.\<close>

lemma push_result:
  assumes "bq_push (Some q) (Some e) = Some (Some (Returns err () q'))"
  shows "bq_closed q' = bq_closed q" and "err = ERR_OK \<longleftrightarrow> bq_closed q = 0"
  using assms by (auto simp: bq_push_def bq_put_def bind_eq_Some_conv Let_def split: if_splits)

lemma pop_result:
  "bq_pop (Some q) True = Some (Some (Returns err (Some e) q')) \<Longrightarrow> bq_closed q' = bq_closed q"
  "bq_pop (Some q) True = Some (Some (Returns err None q')) \<Longrightarrow> bq_closed q \<noteq> 0"
  by (auto simp: bq_pop_def bq_take_def bind_eq_Some_conv split: if_splits)

lemma wait_result:
  "bq_push (Some q) (Some e) = Some (Some Waits) \<Longrightarrow> bq_closed q = 0"
  "bq_pop (Some q) True = Some (Some Waits) \<Longrightarrow> bq_closed q = 0"
  by (auto simp: bq_push_def bq_pop_def bind_eq_Some_conv split: if_splits)

lemma signal_wakes: "signal P f g \<Longrightarrow> g u = f u \<or> g u = wake (f u)"
  by (auto simp: signal_def split: if_splits)

lemma role_wake [simp]: "role t (wake th) i n = role t th i n"
  by (simp add: role_def split: option.split)

lemma role_simps [simp]:
  "role t TOut i n"
  "thread_elem th = Some e \<Longrightarrow> role t th i n \<longleftrightarrow> t \<in> producers \<and> i \<le> ITEMS_PER_PRODUCER \<and> e = work_item (t - 1) i"
  "role t TPop i n \<longleftrightarrow> t = 0 \<and> n < all_items" "role t TPopSleep i n \<longleftrightarrow> t = 0 \<and> n < all_items"
  by (simp_all add: role_def)

lemma wants_push_elem: "wants_push th = Some e \<Longrightarrow> thread_elem th = Some e \<and> th \<noteq> TOut"
  by (cases th) auto

lemma wants_pop_role: "wants_pop th \<Longrightarrow> role t th i n \<Longrightarrow> t = 0 \<and> n < all_items \<and> th \<noteq> TOut"
  by (cases th) (auto simp: role_def)

text \<open>The variables of another thread do not matter to a role.\<close>

lemma role_other:
  "role u th i n \<Longrightarrow> u \<noteq> 0 \<Longrightarrow> role u th i n'"
  "role 0 th i n \<Longrightarrow> role 0 th i' n"
  by (auto simp: role_def split: option.splits)

lemma signal_role:
  assumes "signal P (f(t := TOut)) g" and "\<And>u. role u (f u) (i u) n"
    and "\<And>u. u \<noteq> t \<Longrightarrow> role u (f u) (i u) n \<Longrightarrow> role u (f u) (i' u) n'"
  shows "role u (g u) (i' u) n'"
proof (cases "u = t")
  case True
  then show ?thesis using signal_wakes [OF assms(1), of u] by auto
next
  case False
  then show ?thesis using signal_wakes [OF assms(1), of u] assms(2,3) [of u] by auto
qed

lemma pipe_inv_open:
  assumes "pipe_inv s" and "bs_thr (pi_sys s) t \<noteq> TOut"
  shows "bq_closed (bs_q (pi_sys s)) = 0"
  using assms by (auto simp: pipe_inv_def pipe_ended_def)

lemma role_stranger: "role t th i n \<Longrightarrow> t \<notin> producers \<Longrightarrow> t \<noteq> 0 \<Longrightarrow> th = TOut"
  by (auto simp: role_def split: option.splits)

lemma wake_TOut: "th = TOut \<Longrightarrow> wake th = TOut"
  by simp

lemma pipe_counts:
  assumes "pipe_inv s"
  shows "bs_pushed (pi_sys s) = bs_popped (pi_sys s) @ bq_view (bs_q (pi_sys s))"
    and "pi_n s \<le> length (bs_pushed (pi_sys s))" and "length (bs_pushed (pi_sys s)) \<le> all_items" and "pi_n s \<le> all_items"
proof -
  show 1: "bs_pushed (pi_sys s) = bs_popped (pi_sys s) @ bq_view (bs_q (pi_sys s))"
    using assms by (auto simp: pipe_inv_def bq_inv_def)
  show 2: "pi_n s \<le> length (bs_pushed (pi_sys s))" using assms unfolding 1 by (simp add: pipe_inv_def)
  show 3: "length (bs_pushed (pi_sys s)) \<le> all_items" using assms by (auto simp: pipe_inv_def pushed_ok_def)
  show "pi_n s \<le> all_items" using 2 3 by simp
qed

lemma pipe_step_inv:
  assumes "pipe_inv s" and "pipe_step s s'"
  shows "pipe_inv s'"
proof -
  note inv = assms(1) [unfolded pipe_inv_def]
  have size: "bq_elem_size (bs_q (pi_sys s)) = sizeof_work_item" using inv by blast
  note bs = pipe_step_bq [OF assms(2) size]
  have bq: "bq_inv (pi_sys s')" "bq_elem_size (bs_q (pi_sys s')) = sizeof_work_item"
    using bq_step_inv [OF _ bs] bq_step_const(2) [OF bs] inv by auto
  have role: "role u (bs_thr (pi_sys s) u) (pi_i s u) (pi_n s)" for u using inv by blast
  note [simp del] = fun_upd_apply
  have one: "pipe_inv s'" if "s' = s\<lparr>pi_sys := set_thr t x (pi_sys s)\<rparr>" "role t x (pi_i s t) (pi_n s)" "bq_closed (bs_q (pi_sys s)) = 0" for t x
    using inv bq that unfolding pipe_inv_def by (auto simp: set_thr_def fun_upd_apply)
  from assms(2) show ?thesis
  proof (cases rule: pipe_step.cases)
    case (producer_call b t)
    then have "bq_closed (bs_q b) = 0" using inv by (auto simp: pipe_ended_def)
    then show ?thesis by (intro one) (use producer_call in auto)
  next
    case (producer_waits b t e)
    then show ?thesis
      by (intro one [of t "TPushSleep e"]) (use role [of t] wants_push_elem [OF producer_waits(3)] wait_result(1) [OF producer_waits(4)] in auto)
  next
    case (producer_refused b t e err q)
    then show ?thesis using pipe_inv_open [OF assms(1), of t] wants_push_elem [OF producer_refused(3)]
        push_result [OF producer_refused(4)] by auto
  next
    case (producer_done b t e q f)
    have t: "t \<in> producers" "pi_i s t \<le> ITEMS_PER_PRODUCER" "e = work_item (t - 1) (pi_i s t)"
      using role [of t] wants_push_elem [OF producer_done(3)] producer_done(2) by auto
    have "role u (f u) (((pi_i s)(t := Suc (pi_i s t))) u) (pi_n s)" for u
      by (rule signal_role [OF producer_done(5) role [folded producer_done(2)]]) (simp add: fun_upd_apply)
    moreover have "pushed_ok ((pi_i s)(t := Suc (pi_i s t))) (bs_pushed b @ [e])"
      using pushed_ok_item [of "pi_i s", OF _ t(1,2)] inv t(3) producer_done(2) by blast
    moreover have "bq_closed q = 0" using push_result [OF producer_done(4)] by simp
    ultimately show ?thesis using inv bq producer_done unfolding pipe_inv_def by simp
  next
    case (consumer_call b)
    then have "bq_closed (bs_q b) = 0" using inv by (auto simp: pipe_ended_def)
    then show ?thesis by (intro one) (use consumer_call in auto)
  next
    case (consumer_waits b)
    then show ?thesis
      by (intro one [of 0 TPopSleep]) (use role [of 0] wants_pop_role [OF consumer_waits(3)] wait_result(2) [OF consumer_waits(4)] in auto)
  next
    case (consumer_refused b err q)
    then show ?thesis using pipe_inv_open [OF assms(1), of 0] wants_pop_role [OF consumer_refused(3)] role [of 0]
        pop_result(2) [OF consumer_refused(4)] by auto
  next
    case (consumer_done b err e q f)
    have "role u (f u) (pi_i s u) (Suc (pi_n s))" for u
      by (rule signal_role [OF consumer_done(5) role [folded consumer_done(2)]]) (auto intro: role_other)
    moreover have "bq_closed q = 0"
      using pop_result(1) [OF consumer_done(4)] pipe_inv_open [OF assms(1), of 0] wants_pop_role [OF consumer_done(3)] role [of 0]
        consumer_done(2) by auto
    ultimately show ?thesis using inv bq consumer_done unfolding pipe_inv_def by (auto simp: fun_upd_apply)
  next
    case (main_closes b q)
    have "bs_thr b u = TOut" for u
      using role_stranger [OF role [of u]] main_closes(2,3,5) by (cases "u \<in> producers"; cases "u = 0") auto
    moreover have "pi_i s t = Suc ITEMS_PER_PRODUCER" if "t \<in> producers" for t
      using that inv main_closes(5) by (fastforce simp: pushed_ok_def)
    moreover have "pi_n s = all_items" using pipe_counts [OF assms(1)] main_closes(4) by simp
    ultimately have "pipe_ended s'" using main_closes(1,2) by (auto simp: pipe_ended_def wake_TOut)
    then show ?thesis using inv bq role main_closes(1,2) unfolding pipe_inv_def by simp
  qed
qed

lemma pipe_spurious_inv:
  assumes "pipe_inv s"
  shows "pipe_inv (pipe_spurious t s)"
proof -
  have "bq_inv (pi_sys (pipe_spurious t s))"
    using bq_step_inv [OF _ spurious [of "pi_sys s" t]] assms by (simp add: pipe_inv_def pipe_spurious_def set_thr_def)
  then show ?thesis using assms by (auto simp: pipe_inv_def pipe_ended_def pipe_spurious_def set_thr_def)
qed

lemma pipe_reach_inv: "pipe_reach s t \<Longrightarrow> pipe_inv s \<Longrightarrow> pipe_inv t"
  by (induction rule: pipe_reach.induct) (auto intro: pipe_step_inv pipe_spurious_inv)

lemma pipe_start_inv:
  assumes "bq_init ok (Some q0) sizeof_work_item QUEUE_CAP = (ERR_OK, Some q)"
  shows "pipe_inv (pipe_start q)"
proof -
  have q: "bq_elem_size q = sizeof_work_item" "bq_closed q = 0"
    using assms by (auto simp: bq_init_def split: if_splits option.splits)
  have "pushed_ok (\<lambda>t. 1) []"
    by (simp add: pushed_ok_def all_items_def producers_def)
  then show ?thesis using bq_init_inv(1) [OF assms] q by (simp add: pipe_inv_def pipe_start_def bq_start_def)
qed

section \<open>Progress\<close>

text \<open>Every step of a program uses up work; a wake-up without a signal gives back at most one unit.\<close>

fun thread_work :: "bq_thread \<Rightarrow> nat" where
  "thread_work TOut = 3"
| "thread_work (TPushSleep e) = 1"
| "thread_work TPopSleep = 1"
| "thread_work _ = 2"

definition pipe_work :: "pipe \<Rightarrow> nat" where
  "pipe_work s = 4 * ((\<Sum>t \<in> producers. Suc ITEMS_PER_PRODUCER - pi_i s t) + (all_items - pi_n s))
     + (\<Sum>t \<in> insert 0 producers. thread_work (bs_thr (pi_sys s) t)) + (if bq_closed (bs_q (pi_sys s)) = 0 then 1 else 0)"

lemma thread_work_wake: "thread_work (wake th) \<le> Suc (thread_work th)" "thread_work th \<le> thread_work (wake th)"
  by (cases th; simp)+

lemma work_upd:
  assumes "t \<in> insert 0 producers"
  shows "(\<Sum>u \<in> insert 0 producers. thread_work ((f(t := x)) u)) + thread_work (f t)
    = (\<Sum>u \<in> insert 0 producers. thread_work (f u)) + thread_work x"
  by (rule sum_upd_nat) (use assms in auto)

lemma work_wake:
  "(\<Sum>u \<in> insert 0 producers. thread_work ((f(t := wake (f t))) u)) \<le> Suc (\<Sum>u \<in> insert 0 producers. thread_work (f u))"
proof (cases "t \<in> insert 0 producers")
  case True
  then show ?thesis using work_upd [OF True, of f "wake (f t)"] thread_work_wake(1) [of "f t"] by simp
next
  case False
  then have "(\<Sum>u \<in> insert 0 producers. thread_work ((f(t := wake (f t))) u)) = (\<Sum>u \<in> insert 0 producers. thread_work (f u))"
    by (intro sum.cong) auto
  then show ?thesis by simp
qed

lemma work_signal:
  assumes "signal P (f(t := TOut)) g" and "t \<in> insert 0 producers" and "thread_work (f t) = 2"
  shows "(\<Sum>u \<in> insert 0 producers. thread_work (g u)) \<le> (\<Sum>u \<in> insert 0 producers. thread_work (f u)) + 2"
proof -
  let ?S = "\<lambda>h. \<Sum>u \<in> insert 0 producers. thread_work (h u)"
  have "?S (f(t := TOut)) = Suc (?S f)" using work_upd [OF assms(2), of f TOut] assms(3) by (simp del: fun_upd_apply)
  moreover have "?S g \<le> Suc (?S (f(t := TOut)))"
    using assms(1) work_wake [of "f(t := TOut)"] unfolding signal_def by (auto split: if_splits simp del: fun_upd_apply)
  ultimately show ?thesis by simp
qed

lemma wants_work: "wants_push th = Some e \<Longrightarrow> thread_work th = 2" "wants_pop th \<Longrightarrow> thread_work th = 2"
  by (cases th; simp)+

lemma role_member: "role t th i n \<Longrightarrow> th \<noteq> TOut \<Longrightarrow> t \<in> insert 0 producers"
  using role_stranger by blast

lemma pipe_step_work:
  assumes "pipe_inv s" and "pipe_step s s'"
  shows "pipe_work s' < pipe_work s"
proof -
  note inv = assms(1) [unfolded pipe_inv_def]
  have role: "role u (bs_thr (pi_sys s) u) (pi_i s u) (pi_n s)" for u using inv by blast
  have one: "pipe_work s' < pipe_work s" if "s' = s\<lparr>pi_sys := set_thr t x (pi_sys s)\<rparr>" "t \<in> insert 0 producers"
      "thread_work x < thread_work (bs_thr (pi_sys s) t)" for t x
    using that(1,3) work_upd [OF that(2), of "bs_thr (pi_sys s)" x] unfolding pipe_work_def by (simp add: set_thr_def del: fun_upd_apply)
  from assms(2) show ?thesis
  proof (cases rule: pipe_step.cases)
    case (producer_waits b t e)
    then show ?thesis
      by (intro one [of t "TPushSleep e"]) (use role [of t] wants_push_elem [OF producer_waits(3)] wants_work(1) [OF producer_waits(3)] in auto)
  next
    case (producer_refused b t e err q)
    then show ?thesis using pipe_inv_open [OF assms(1), of t] wants_push_elem [OF producer_refused(3)]
        push_result [OF producer_refused(4)] by auto
  next
    case (producer_done b t e q f)
    have t: "t \<in> producers" "pi_i s t \<le> ITEMS_PER_PRODUCER"
      using role [of t] wants_push_elem [OF producer_done(3)] producer_done(2) by auto
    have "(\<Sum>u \<in> insert 0 producers. thread_work (f u)) \<le> (\<Sum>u \<in> insert 0 producers. thread_work (bs_thr b u)) + 2"
      by (rule work_signal [OF producer_done(5) _ wants_work(1) [OF producer_done(3)]]) (use t in simp)
    moreover have "Suc (\<Sum>u \<in> producers. Suc ITEMS_PER_PRODUCER - ((pi_i s)(t := Suc (pi_i s t))) u) = (\<Sum>u \<in> producers. Suc ITEMS_PER_PRODUCER - pi_i s u)"
      using t(2) sum_upd_nat [OF finite_producers(1) t(1), of "\<lambda>v. Suc ITEMS_PER_PRODUCER - v" "pi_i s" "Suc (pi_i s t)"] by linarith
    ultimately show ?thesis using producer_done(1,2) push_result [OF producer_done(4)]
      unfolding pipe_work_def by (simp del: fun_upd_apply)
  next
    case (consumer_waits b)
    then show ?thesis by (intro one [of 0 TPopSleep]) (use wants_work(2) [OF consumer_waits(3)] in auto)
  next
    case (consumer_refused b err q)
    then show ?thesis using pipe_inv_open [OF assms(1), of 0] wants_pop_role [OF consumer_refused(3)] role [of 0]
        pop_result(2) [OF consumer_refused(4)] by auto
  next
    case (consumer_done b err e q f)
    have "(\<Sum>u \<in> insert 0 producers. thread_work (f u)) \<le> (\<Sum>u \<in> insert 0 producers. thread_work (bs_thr b u)) + 2"
      by (rule work_signal [OF consumer_done(5) _ wants_work(2) [OF consumer_done(3)]]) simp
    moreover have "pi_n s < all_items" using wants_pop_role [OF consumer_done(3)] role [of 0] consumer_done(2) by auto
    ultimately show ?thesis using consumer_done(1,2) pop_result(1) [OF consumer_done(4)]
      unfolding pipe_work_def by simp
  next
    case (main_closes b q)
    have "wake (bs_thr b t) = bs_thr b t" if "t \<in> insert 0 producers" for t
      using that main_closes(3,5) by auto
    then have "(\<Sum>t \<in> insert 0 producers. thread_work ((wake \<circ> bs_thr b) t)) = (\<Sum>t \<in> insert 0 producers. thread_work (bs_thr b t))"
      by (intro sum.cong) auto
    moreover have "bq_closed q \<noteq> 0"
      using main_closes(2,7) inv by (auto simp: bq_close_def bq_inv_def rb_inv_def ring_of_def)
    ultimately show ?thesis using main_closes(1,2,6) unfolding pipe_work_def by simp
  qed (use one in \<open>auto simp: producers_def\<close>)
qed

lemma signal_exists: "\<exists>g. signal P f g"
  unfolding signal_def by auto

lemma push_progress:
  assumes "bq_inv b" and "bq_closed (bs_q b) = 0" and "wants_push (bs_thr b t) = Some e"
  shows "bq_push (Some (bs_q b)) (Some e) = Some (Some Waits) \<or> (\<exists>q. bq_push (Some (bs_q b)) (Some e) = Some (Some (Returns ERR_OK () q)))"
proof -
  have "rb_inv (ring_of (bs_q b))" "length e = unat (bq_elem_size (bs_q b))"
    using assms wants_push_elem [OF assms(3)] by (auto simp: bq_inv_def)
  then show ?thesis using bq_put_spec [of "bs_q b" e] assms(2) by (auto simp: bq_push_def rb_inv_def ring_of_def)
qed

lemma pop_progress:
  assumes "bq_inv b" and "bq_closed (bs_q b) = 0"
  shows "bq_pop (Some (bs_q b)) True = Some (Some Waits) \<or> (\<exists>e q. bq_pop (Some (bs_q b)) True = Some (Some (Returns ERR_OK (Some e) q)))"
proof -
  have "rb_inv (ring_of (bs_q b))" using assms by (auto simp: bq_inv_def)
  then show ?thesis using bq_take_spec [of "bs_q b"] assms(2) by (auto simp: bq_pop_def rb_inv_def ring_of_def)
qed

lemma woken_wants: "push_woken th \<Longrightarrow> wants_push th \<noteq> None" "pop_woken th \<Longrightarrow> wants_pop th"
  by (cases th; simp)+

lemma thread_cases:
  obtains "th = TOut" | e where "wants_push th = Some e" | "wants_pop th" | e where "th = TPushSleep e" | "th = TPopSleep"
  by (cases th) auto

lemma pipe_progress:
  assumes "pipe_inv s" and "bq_closed (bs_q (pi_sys s)) = 0"
  shows "\<exists>s'. pipe_step s s'"
proof (rule ccontr)
  let ?b = "pi_sys s" and ?q = "bs_q (pi_sys s)"
  assume "\<nexists>s'. pipe_step s s'"
  then have stuck: "\<not> pipe_step s s'" for s' by blast
  note inv = assms(1) [unfolded pipe_inv_def]
  have bq: "bq_inv ?b" and role: "role u (bs_thr ?b u) (pi_i s u) (pi_n s)" for u using inv by auto
  have push: "wants_push (bs_thr ?b t) = None" for t
    using stuck push_progress [OF bq assms(2)] producer_waits [OF refl] producer_done [OF refl] signal_exists
    by (metis not_None_eq)
  have pop: "\<not> wants_pop (bs_thr ?b t)" for t
    using stuck pop_progress [OF bq assms(2)] consumer_waits [OF refl] consumer_done [OF refl] signal_exists
      wants_pop_role [OF _ role] by metis
  have "{u. push_woken (bs_thr ?b u)} = {}" "{u. pop_woken (bs_thr ?b u)} = {}"
    using push pop woken_wants by blast+
  then have woken: "count_thr push_woken (bs_thr ?b) = 0" "count_thr pop_woken (bs_thr ?b) = 0"
    by (simp_all add: count_thr_def)
  have producer: "(\<exists>e. bs_thr ?b t = TPushSleep e \<and> pi_i s t \<le> ITEMS_PER_PRODUCER) \<or> bs_thr ?b t = TOut \<and> ITEMS_PER_PRODUCER < pi_i s t"
    if "t \<in> producers" for t
    using push [of t] pop [of t] role [of t] that stuck producer_call [of ?b s t, OF refl that]
    by (cases "bs_thr ?b t" rule: thread_cases) (auto intro: not_le_imp_less)
  have "bs_thr ?b 0 = TOut \<and> all_items \<le> pi_n s \<or> bs_thr ?b 0 = TPopSleep \<and> pi_n s < all_items"
    using push [of 0] pop [of 0] role [of 0] stuck consumer_call [of ?b s, OF refl]
    by (cases "bs_thr ?b 0" rule: thread_cases) (auto intro: not_le_imp_less)
  moreover have left: "length (bs_pushed ?b) + (\<Sum>t \<in> producers. Suc ITEMS_PER_PRODUCER - pi_i s t) = all_items"
    using inv unfolding pushed_ok_def by blast
  ultimately show False
  proof (elim disjE)
    assume c: "bs_thr ?b 0 = TOut \<and> all_items \<le> pi_n s"
    then have "(\<Sum>t \<in> producers. Suc ITEMS_PER_PRODUCER - pi_i s t) = 0"
      using left pipe_counts(2) [OF assms(1)] by linarith
    then have "\<forall>t \<in> producers. ITEMS_PER_PRODUCER < pi_i s t" by (simp add: Suc_le_eq)
    then have "\<forall>t \<in> producers. bs_thr ?b t = TOut \<and> ITEMS_PER_PRODUCER < pi_i s t" using producer by force
    with stuck main_closes [OF refl _ _ this assms(2)] c show False by (auto simp: bq_close_def)
  next
    assume c: "bs_thr ?b 0 = TPopSleep \<and> pi_n s < all_items"
    have nlw: "no_lost_wakeup ?q (bs_thr ?b)" using bq by (simp add: bq_inv_def)
    have len: "unat (bq_len ?q) = 0" using no_lost_wakeupD(1) [OF nlw, of 0] c woken(2) by simp
    have "0 < unat (bq_cap ?q)" using bq by (auto simp: bq_inv_def rb_inv_def ring_of_def simp del: unat_0 intro: gr0I)
    then have "\<not> push_asleep (bs_thr ?b t)" for t using no_lost_wakeupD(2) [OF nlw, of t] len woken(1) by auto
    then have "\<forall>t \<in> producers. ITEMS_PER_PRODUCER < pi_i s t" using producer by (metis push_asleep.simps(1))
    then have "(\<Sum>t \<in> producers. Suc ITEMS_PER_PRODUCER - pi_i s t) = 0" by (simp add: Suc_le_eq)
    then have "length (bs_pushed ?b) = all_items" using left by simp
    moreover have "length (bq_view ?q) = unat (bq_len ?q)" by (simp add: bq_view_def) (simp add: ring_of_def)
    then have "bq_view ?q = []" using len by simp
    ultimately show False using pipe_counts(1) [OF assms(1)] inv c by simp
  qed
qed

section \<open>The property\<close>

lemma sum_item_values: "\<bar>\<Sum>e \<leftarrow> xs. item_value e\<bar> \<le> int (length xs) * 2 ^ 31"
proof (induction xs)
  case (Cons e xs)
  have "- (2 ^ 31) \<le> item_value e" "item_value e < 2 ^ 31"
    using sint_ge [of "word_of_int (horner_sum uint 256 (map the (drop 4 e))) :: 32 word"]
      sint_lt [of "word_of_int (horner_sum uint 256 (map the (drop 4 e))) :: 32 word"]
    by (simp_all add: item_value_def bytes_int_def)
  then show ?case using Cons by (simp add: abs_le_iff algebra_simps)
qed simp

lemma pipe_ended_delivers:
  assumes "pipe_inv s" and "pipe_ended s"
  shows "bs_popped (pi_sys s) = bs_pushed (pi_sys s)" and "pi_total s = 1501500"
    and "p < PRODUCERS \<Longrightarrow> filter (from_producer p) (bs_popped (pi_sys s)) = map (work_item p) [1 ..< 1001] \<and> pi_per s (int p) = 1000"
proof -
  note inv = assms(1) [unfolded pipe_inv_def]
  have n: "pi_n s = all_items" and i: "\<And>t. t \<in> producers \<Longrightarrow> pi_i s t = 1001"
    using assms(2) by (auto simp: pipe_ended_def ITEMS_PER_PRODUCER_def)
  show eq: "bs_popped (pi_sys s) = bs_pushed (pi_sys s)"
    using pipe_counts [OF assms(1)] inv n by simp
  have "(\<Sum>t \<in> producers. \<Sum>v = 1 ..< pi_i s t. int v) = (\<Sum>t \<in> producers. \<Sum>v = 1 ..< 1001. int v)"
    by (rule sum.cong) (simp_all add: i)
  also have "(\<Sum>v = 1 ..< 1001. int v) = 500500"
    using Sum_Ico_nat [of 1 1001] by (simp flip: of_nat_sum)
  finally show "pi_total s = 1501500" using inv eq by (simp add: pushed_ok_def producers_def PRODUCERS_def)
  assume "p < PRODUCERS"
  then have "Suc p \<in> producers" by (simp add: producers_def)
  then have f: "filter (from_producer p) (bs_popped (pi_sys s)) = map (work_item p) [1 ..< 1001]"
    using inv i unfolding eq pushed_ok_def by fastforce
  have "pi_per s (int p) = int (length (filter (from_producer p) (bs_popped (pi_sys s))))"
    using inv by (simp add: from_producer_def [abs_def])
  then show "filter (from_producer p) (bs_popped (pi_sys s)) = map (work_item p) [1 ..< 1001] \<and> pi_per s (int p) = 1000"
    unfolding f by simp
qed

text \<open>
  C5. The pipeline finishes and delivers everything. In every state it reaches, under every schedule and
  with wake-ups at any time: as long as \<open>main\<close> has not closed the queue some thread has a step to take, every
  such step uses up work and a wake-up without a signal gives back at most one unit, so that only an endless
  supply of those could keep it running; every item popped names one of the three counters, and the total
  fits its type. Once the queue is closed, everything pushed was popped, each producer's thousand items
  in their order, and the total is the expected one.
\<close>

theorem pipeline_completes:
  assumes "bq_init ok (Some q0) sizeof_work_item QUEUE_CAP = (ERR_OK, Some q)" and "pipe_reach (pipe_start q) s"
  shows "(bq_closed (bs_q (pi_sys s)) = 0 \<longrightarrow> (\<exists>s'. pipe_step s s'))
     \<and> (\<forall>s'. pipe_step s s' \<longrightarrow> pipe_work s' < pipe_work s)
     \<and> (\<forall>t. pipe_work (pipe_spurious t s) \<le> Suc (pipe_work s))
     \<and> (\<forall>e \<in> set (bs_popped (pi_sys s)). 0 \<le> item_producer e \<and> item_producer e < int PRODUCERS)
     \<and> \<bar>pi_total s\<bar> < 2 ^ 63
     \<and> (bq_closed (bs_q (pi_sys s)) \<noteq> 0 \<longrightarrow>
          bs_popped (pi_sys s) = bs_pushed (pi_sys s) \<and> pi_total s = 1501500
          \<and> (\<forall>p < PRODUCERS. filter (from_producer p) (bs_popped (pi_sys s)) = map (work_item p) [1 ..< 1001]
               \<and> pi_per s (int p) = 1000))"
proof -
  have inv: "pipe_inv s" using pipe_reach_inv [OF assms(2) pipe_start_inv [OF assms(1)]] .
  have "pipe_work (pipe_spurious t s) \<le> Suc (pipe_work s)" for t
    using work_wake [of "bs_thr (pi_sys s)" t] unfolding pipe_work_def
    by (simp add: pipe_spurious_def set_thr_def del: fun_upd_apply)
  moreover have "0 \<le> item_producer e \<and> item_producer e < int PRODUCERS" if "e \<in> set (bs_popped (pi_sys s))" for e
  proof -
    have "e \<in> set (bs_pushed (pi_sys s))" using that pipe_counts(1) [OF inv] by simp
    then obtain t where "t \<in> producers" "from_producer (t - 1) e" using inv unfolding pipe_inv_def pushed_ok_def by blast
    then show ?thesis by (auto simp: from_producer_def producers_def)
  qed
  moreover have "\<bar>pi_total s\<bar> < 2 ^ 63"
  proof -
    have "\<bar>pi_total s\<bar> \<le> int (pi_n s) * 2 ^ 31"
      using sum_item_values [of "bs_popped (pi_sys s)"] inv by (simp add: pipe_inv_def)
    moreover have "pi_n s \<le> 3000"
      using pipe_counts(4) [OF inv] by (simp add: all_items_def PRODUCERS_def ITEMS_PER_PRODUCER_def)
    ultimately show ?thesis by simp
  qed
  moreover have "pipe_ended s" if "bq_closed (bs_q (pi_sys s)) \<noteq> 0" using inv that by (simp add: pipe_inv_def)
  ultimately show ?thesis using pipe_progress [OF inv] pipe_step_work [OF inv] pipe_ended_delivers [OF inv] by blast
qed

definition pipe_queue :: bqueue where
  "pipe_queue = \<lparr>bq_data = Some (replicate 256 None), bq_elem_size = 8, bq_cap = 32, bq_head = 0, bq_len = 0, bq_closed = 0\<rparr>"

text \<open>So a run that ends exists, and it has the expected total.\<close>

theorem pipeline_completes_witness:
  "\<exists>s. pipe_reach (pipe_start pipe_queue) s \<and> bq_closed (bs_q (pi_sys s)) \<noteq> 0 \<and> pi_total s = 1501500"
proof -
  have init: "bq_init True (Some q0) sizeof_work_item QUEUE_CAP = (ERR_OK, Some pipe_queue)" for q0
    by (simp add: bq_init_def pipe_queue_def malloc_def sizeof_work_item_def QUEUE_CAP_def)
  note c = pipeline_completes [OF init]
  have "\<exists>s'. pipe_reach (pipe_start pipe_queue) s' \<and> bq_closed (bs_q (pi_sys s')) \<noteq> 0"
    if "pipe_reach (pipe_start pipe_queue) s" for s
    using that
  proof (induction "pipe_work s" arbitrary: s rule: less_induct)
    case less
    show ?case
    proof (cases "bq_closed (bs_q (pi_sys s)) = 0")
      case True
      then obtain s' where "pipe_step s s'" using c [OF less.prems] by blast
      then show ?thesis using less c [OF less.prems] pipe_more by blast
    qed (use less.prems in blast)
  qed
  then show ?thesis using c pipe_refl by metis
qed

end
