(* ===== verification/ThreadPool.thy ===== *)
theory ThreadPool
  imports Core "HOL-Library.Multiset"
begin

text \<open>
  The thread pool of \<open>src/hpc/thread_pool.c\<close>: a linked list of task nodes threaded through
  memory, under one mutex, with workers that sleep on one condition. The memory holds the nodes
  that are allocated; reading, writing or freeing any other is undefined (\<open>None\<close>). What a thread does
  while it holds the mutex is one step; calling the task's function and returning from it, after which
  the node is freed, are steps of their own, outside the mutex. The functions the tasks call are not
  modelled: a task is its function pointer and argument.
\<close>

section \<open>State and critical sections\<close>

record task =
  tk_func :: u64
  tk_arg :: u64
  tk_next :: u64

type_synonym nodes = "u64 \<rightharpoonup> task"

record tpool =
  tp_num :: size_t
  tp_head :: u64
  tp_tail :: u64
  tp_shutdown :: bool

text \<open>\<open>free\<close> of a node: undefined when it is not allocated.\<close>

definition free_node :: "u64 \<Rightarrow> nodes \<Rightarrow> nodes ub" where
  "free_node a m = (case m a of None \<Rightarrow> None | Some _ \<Rightarrow> Some (m(a := None)))"

text \<open>
  \<open>thread_pool_create\<close>: the answers of \<open>calloc\<close>, of the \<open>malloc\<close> of the thread array, and of
  each \<open>pthread_create\<close>. On a failed creation the workers already started are told to stop
  and joined, so the caller gets no pool.
\<close>

definition thread_pool_create ::
  "bool \<Rightarrow> bool \<Rightarrow> (nat \<Rightarrow> bool) \<Rightarrow> bool \<Rightarrow> size_t \<Rightarrow> error_code \<times> tpool option" where
  "thread_pool_create ok_pool ok_threads started want num_threads =
     (if \<not> want \<or> num_threads = 0 then (ERR_INVALID_ARG, None)
      else if num_threads > SIZE_MAX div 8 then (ERR_OVERFLOW, None)
      else if \<not> ok_pool then (ERR_NOMEM, None)
      else if malloc ok_threads (num_threads * 8) = None then (ERR_NOMEM, None)
      else if list_all started [0 ..< unat num_threads]
           then (ERR_OK, Some \<lparr>tp_num = num_threads, tp_head = 0, tp_tail = 0, tp_shutdown = False\<rparr>)
           else (ERR_IO, None))"

text \<open>The node is what \<open>malloc\<close> returned, 0 for \<open>NULL\<close>.\<close>

definition thread_pool_submit ::
  "u64 \<Rightarrow> nodes \<Rightarrow> tpool option \<Rightarrow> u64 \<Rightarrow> u64 \<Rightarrow> (error_code \<times> nodes \<times> tpool option) ub" where
  "thread_pool_submit node m pp func arg =
     (case pp of
        None \<Rightarrow> Some (ERR_INVALID_ARG, m, pp)
      | Some p \<Rightarrow>
          if func = 0 then Some (ERR_INVALID_ARG, m, pp)
          else if node = 0 then Some (ERR_NOMEM, m, pp)
          else let m = m(node \<mapsto> \<lparr>tk_func = func, tk_arg = arg, tk_next = 0\<rparr>) in
            if tp_shutdown p then do { m \<leftarrow> free_node node m; Some (ERR_UNSUPPORTED, m, pp) }
            else if tp_tail p \<noteq> 0
            then do { t \<leftarrow> m (tp_tail p);
                      Some (ERR_OK, m(tp_tail p \<mapsto> t\<lparr>tk_next := node\<rparr>), Some (p\<lparr>tp_tail := node\<rparr>)) }
            else Some (ERR_OK, m, Some (p\<lparr>tp_head := node, tp_tail := node\<rparr>)))"

text \<open>One turn of the worker loop while it holds the mutex.\<close>

datatype worker_out = WorkerSleeps | WorkerExits | WorkerTakes u64 tpool

definition worker :: "nodes \<Rightarrow> tpool \<Rightarrow> worker_out ub" where
  "worker m p =
     (if tp_head p = 0 \<and> \<not> tp_shutdown p then Some WorkerSleeps
      else if tp_shutdown p \<and> tp_head p = 0 then Some WorkerExits
      else do { t \<leftarrow> m (tp_head p);
                let h = tk_next t;
                Some (WorkerTakes (tp_head p) (p\<lparr>tp_head := h, tp_tail := (if h = 0 then 0 else tp_tail p)\<rparr>)) })"

text \<open>What it does after it has released the mutex: the call it makes, and \<open>free(t)\<close> after it.\<close>

definition worker_call :: "nodes \<Rightarrow> u64 \<Rightarrow> (u64 \<times> u64) ub" where
  "worker_call m t = do { n \<leftarrow> m t; Some (tk_func n, tk_arg n) }"

text \<open>\<open>thread_pool_destroy\<close> before the joins, and the list it frees after them.\<close>

definition begin_shutdown :: "tpool \<Rightarrow> tpool" where
  "begin_shutdown p = p\<lparr>tp_shutdown := True\<rparr>"

partial_function (option) discard_tasks :: "nodes \<Rightarrow> u64 \<Rightarrow> nodes option" where
  "discard_tasks m h =
     (if h = 0 then Some m
      else do { t \<leftarrow> m h; m \<leftarrow> free_node h m; discard_tasks m (tk_next t) })"

section \<open>The threads\<close>

text \<open>
  A worker about to take the mutex, asleep, woken, with a node it took, inside the function it called
  from that node, or returned.
\<close>

datatype worker_state = WReady | WSleep | WWoken | WTaken u64 | WRunning u64 "u64 \<times> u64" | WExited

record tp_sys =
  ts_pool :: tpool
  ts_nodes :: nodes
  ts_workers :: "worker_state list"
  ts_submitted :: "(u64 \<times> u64) list"
  ts_taken :: "(u64 \<times> u64) list"
  ts_finished :: "(u64 \<times> u64) list"
  ts_joined :: bool

definition tp_start :: "tpool \<Rightarrow> tp_sys" where
  "tp_start p = \<lparr>ts_pool = p, ts_nodes = Map.empty,
     ts_workers = replicate (unat (tp_num p)) WReady, ts_submitted = [], ts_taken = [],
     ts_finished = [], ts_joined = False\<rparr>"

fun wake_worker :: "worker_state \<Rightarrow> worker_state" where
  "wake_worker WSleep = WWoken"
| "wake_worker w = w"

definition signal_worker :: "worker_state list \<Rightarrow> worker_state list \<Rightarrow> bool" where
  "signal_worker ws vs \<longleftrightarrow>
     (if WSleep \<in> set ws then \<exists>i < length ws. ws ! i = WSleep \<and> vs = ws[i := WWoken] else vs = ws)"

text \<open>The link and the task of a node.\<close>

definition next_of :: "nodes \<Rightarrow> links" where
  "next_of m = (\<lambda>a. case m a of None \<Rightarrow> 0 | Some n \<Rightarrow> tk_next n)"

definition task_of :: "nodes \<Rightarrow> u64 \<Rightarrow> u64 \<times> u64" where
  "task_of m a = (case m a of None \<Rightarrow> (0, 0) | Some n \<Rightarrow> (tk_func n, tk_arg n))"

text \<open>
  \<open>malloc\<close> returns memory that is not in use. The client destroys the pool once and does not touch it after.
\<close>

inductive tp_step :: "tp_sys \<Rightarrow> tp_sys \<Rightarrow> bool" where
  submit:
    "\<lbrakk>\<not> ts_joined s; ts_nodes s node = None;
      thread_pool_submit node (ts_nodes s) (Some (ts_pool s)) func arg = Some (ERR_OK, m, Some p);
      signal_worker (ts_workers s) ws\<rbrakk>
     \<Longrightarrow> tp_step s (s\<lparr>ts_pool := p, ts_nodes := m, ts_workers := ws,
                     ts_submitted := ts_submitted s @ [(func, arg)]\<rparr>)"
| worker_sleeps:
    "\<lbrakk>i < length (ts_workers s); ts_workers s ! i \<in> {WReady, WWoken};
      worker (ts_nodes s) (ts_pool s) = Some WorkerSleeps\<rbrakk>
     \<Longrightarrow> tp_step s (s\<lparr>ts_workers := (ts_workers s)[i := WSleep]\<rparr>)"
| worker_exits:
    "\<lbrakk>i < length (ts_workers s); ts_workers s ! i \<in> {WReady, WWoken};
      worker (ts_nodes s) (ts_pool s) = Some WorkerExits\<rbrakk>
     \<Longrightarrow> tp_step s (s\<lparr>ts_workers := (ts_workers s)[i := WExited]\<rparr>)"
| worker_takes:
    "\<lbrakk>i < length (ts_workers s); ts_workers s ! i \<in> {WReady, WWoken};
      worker (ts_nodes s) (ts_pool s) = Some (WorkerTakes t p)\<rbrakk>
     \<Longrightarrow> tp_step s (s\<lparr>ts_pool := p, ts_workers := (ts_workers s)[i := WTaken t],
                     ts_taken := ts_taken s @ [task_of (ts_nodes s) t]\<rparr>)"
| worker_calls:
    "\<lbrakk>i < length (ts_workers s); ts_workers s ! i = WTaken t; worker_call (ts_nodes s) t = Some c\<rbrakk>
     \<Longrightarrow> tp_step s (s\<lparr>ts_workers := (ts_workers s)[i := WRunning t c]\<rparr>)"
| task_done:
    "\<lbrakk>i < length (ts_workers s); ts_workers s ! i = WRunning t c; free_node t (ts_nodes s) = Some m\<rbrakk>
     \<Longrightarrow> tp_step s (s\<lparr>ts_nodes := m, ts_workers := (ts_workers s)[i := WReady], ts_finished := ts_finished s @ [c]\<rparr>)"
| spurious:
    "\<lbrakk>i < length (ts_workers s); ts_workers s ! i = WSleep\<rbrakk>
     \<Longrightarrow> tp_step s (s\<lparr>ts_workers := (ts_workers s)[i := WWoken]\<rparr>)"
| shutdown:
    "\<not> tp_shutdown (ts_pool s) \<Longrightarrow>
     tp_step s (s\<lparr>ts_pool := begin_shutdown (ts_pool s), ts_workers := map wake_worker (ts_workers s)\<rparr>)"
| joined:
    "\<lbrakk>tp_shutdown (ts_pool s); \<not> ts_joined s; \<forall>w \<in> set (ts_workers s). w = WExited;
      discard_tasks (ts_nodes s) (tp_head (ts_pool s)) = Some m\<rbrakk>
     \<Longrightarrow> tp_step s (s\<lparr>ts_nodes := m, ts_joined := True\<rparr>)"

inductive tp_reach :: "tp_sys \<Rightarrow> tp_sys \<Rightarrow> bool" for s where
  tp_refl: "tp_reach s s"
| tp_more: "tp_reach s t \<Longrightarrow> tp_step t u \<Longrightarrow> tp_reach s u"

section \<open>Invariant\<close>

text \<open>The nodes the workers hold, and the tasks they are about to run or are running.\<close>

fun held1 :: "worker_state \<Rightarrow> u64 list" where
  "held1 (WTaken t) = [t]"
| "held1 (WRunning t c) = [t]"
| "held1 w = []"

fun hand1 :: "nodes \<Rightarrow> worker_state \<Rightarrow> (u64 \<times> u64) list" where
  "hand1 m (WTaken t) = [task_of m t]"
| "hand1 m (WRunning t c) = [c]"
| "hand1 m w = []"

definition held :: "worker_state list \<Rightarrow> u64 list" where
  "held ws = concat (map held1 ws)"

definition in_hand :: "nodes \<Rightarrow> worker_state list \<Rightarrow> (u64 \<times> u64) list" where
  "in_hand m ws = concat (map (hand1 m) ws)"

text \<open>
  The queue is a chain that ends at the tail; the allocated nodes are those of the queue and those the
  workers hold, each once; what was submitted is what was taken followed by what is queued; what was taken
  is finished or in the hands of a worker; and no wake-up is lost.
\<close>

definition tp_inv :: "tp_sys \<Rightarrow> bool" where
  "tp_inv s \<longleftrightarrow>
     (\<exists>ns. chain (next_of (ts_nodes s)) (tp_head (ts_pool s)) ns
         \<and> distinct (ns @ held (ts_workers s)) \<and> dom (ts_nodes s) = set (ns @ held (ts_workers s))
         \<and> tp_tail (ts_pool s) = (if ns = [] then 0 else last ns)
         \<and> ts_submitted s = ts_taken s @ map (task_of (ts_nodes s)) ns
         \<and> (WSleep \<in> set (ts_workers s) \<longrightarrow> length ns \<le> count_list (ts_workers s) WWoken)
         \<and> (WExited \<in> set (ts_workers s) \<longrightarrow> ns = []))
     \<and> mset (ts_taken s) = mset (ts_finished s) + mset (in_hand (ts_nodes s) (ts_workers s))
     \<and> (tp_shutdown (ts_pool s) \<longrightarrow> WSleep \<notin> set (ts_workers s))
     \<and> (WExited \<in> set (ts_workers s) \<longrightarrow> tp_shutdown (ts_pool s))
     \<and> (ts_joined s \<longrightarrow> tp_shutdown (ts_pool s) \<and> (\<forall>w \<in> set (ts_workers s). w = WExited))
     \<and> ts_workers s \<noteq> []"

lemma tp_invE:
  assumes "tp_inv s"
  obtains ns where "chain (next_of (ts_nodes s)) (tp_head (ts_pool s)) ns"
    "distinct (ns @ held (ts_workers s))" "dom (ts_nodes s) = set (ns @ held (ts_workers s))"
    "tp_tail (ts_pool s) = (if ns = [] then 0 else last ns)"
    "ts_submitted s = ts_taken s @ map (task_of (ts_nodes s)) ns"
    "WSleep \<in> set (ts_workers s) \<Longrightarrow> length ns \<le> count_list (ts_workers s) WWoken"
    "WExited \<in> set (ts_workers s) \<Longrightarrow> ns = []"
    "mset (ts_taken s) = mset (ts_finished s) + mset (in_hand (ts_nodes s) (ts_workers s))"
    "tp_shutdown (ts_pool s) \<Longrightarrow> WSleep \<notin> set (ts_workers s)"
    "WExited \<in> set (ts_workers s) \<Longrightarrow> tp_shutdown (ts_pool s)"
    "ts_joined s \<Longrightarrow> tp_shutdown (ts_pool s) \<and> (\<forall>w \<in> set (ts_workers s). w = WExited)"
    "ts_workers s \<noteq> []"
  using assms unfolding tp_inv_def by blast

lemma tp_invI:
  assumes "chain (next_of (ts_nodes s)) (tp_head (ts_pool s)) ns"
    "distinct (ns @ held (ts_workers s))" "dom (ts_nodes s) = set (ns @ held (ts_workers s))"
    "tp_tail (ts_pool s) = (if ns = [] then 0 else last ns)"
    "ts_submitted s = ts_taken s @ map (task_of (ts_nodes s)) ns"
    "WSleep \<in> set (ts_workers s) \<Longrightarrow> length ns \<le> count_list (ts_workers s) WWoken"
    "WExited \<in> set (ts_workers s) \<Longrightarrow> ns = []"
    "mset (ts_taken s) = mset (ts_finished s) + mset (in_hand (ts_nodes s) (ts_workers s))"
    "tp_shutdown (ts_pool s) \<Longrightarrow> WSleep \<notin> set (ts_workers s)"
    "WExited \<in> set (ts_workers s) \<Longrightarrow> tp_shutdown (ts_pool s)"
    "ts_joined s \<Longrightarrow> tp_shutdown (ts_pool s) \<and> (\<forall>w \<in> set (ts_workers s). w = WExited)"
    "ts_workers s \<noteq> []"
  shows "tp_inv s"
  using assms unfolding tp_inv_def by blast

text \<open>One worker changes.\<close>

lemma concat_update:
  assumes "i < length ws"
  shows "mset (concat (map g (ws[i := w]))) + mset (g (ws ! i)) = mset (concat (map g ws)) + mset (g w)"
proof -
  have "ws = take i ws @ [ws ! i] @ drop (Suc i) ws" using assms by (simp add: id_take_nth_drop)
  then have "concat (map g ws) = concat (map g (take i ws)) @ g (ws ! i) @ concat (map g (drop (Suc i) ws))"
    by (metis append_Cons append_Nil concat.simps(2) concat_append list.simps(9) map_append)
  then show ?thesis using assms by (simp add: upd_conv_take_nth_drop)
qed

lemma held_update:
  assumes "i < length ws" shows "mset (held (ws[i := w])) + mset (held1 (ws ! i)) = mset (held ws) + mset (held1 w)"
  unfolding held_def by (rule concat_update [OF assms])

lemma hand_update:
  assumes "i < length ws" shows "mset (in_hand m (ws[i := w])) + mset (hand1 m (ws ! i)) = mset (in_hand m ws) + mset (hand1 m w)"
  unfolding in_hand_def by (rule concat_update [OF assms])

lemma in_hand_cong: "(\<And>t. WTaken t \<in> set ws \<Longrightarrow> task_of m' t = task_of m t) \<Longrightarrow> in_hand m' ws = in_hand m ws"
proof -
  assume a: "\<And>t. WTaken t \<in> set ws \<Longrightarrow> task_of m' t = task_of m t"
  have "hand1 m' w = hand1 m w" if "w \<in> set ws" for w using a that by (cases w) auto
  then show ?thesis unfolding in_hand_def by (metis (mono_tags, lifting) map_eq_conv)
qed

lemma taken_held: "WTaken t \<in> set ws \<Longrightarrow> t \<in> set (held ws)" "WRunning t c \<in> set ws \<Longrightarrow> t \<in> set (held ws)"
  unfolding held_def by force+

lemma count_update:
  assumes "i < length ws"
  shows "count_list (ws[i := w]) x + (if ws ! i = x then 1 else 0) = count_list ws x + (if w = x then 1 else 0)"
proof -
  have "ws = take i ws @ [ws ! i] @ drop (Suc i) ws" using assms by (simp add: id_take_nth_drop)
  then have "count_list ws x = count_list (take i ws) x + count_list [ws ! i] x + count_list (drop (Suc i) ws) x"
    by (metis count_list_append add.assoc)
  then show ?thesis using assms by (simp add: upd_conv_take_nth_drop)
qed

lemma set_update_cases: "x \<in> set (ws[i := w]) \<Longrightarrow> x = w \<or> x \<in> set ws"
  using set_update_subset_insert by fastforce

text \<open>Appending a fresh node to the queue.\<close>

lemma submit_chain:
  assumes "chain (next_of m) (tp_head p) ns" and "distinct ns" and "set ns \<subseteq> dom m" and "tp_tail p = (if ns = [] then 0 else last ns)"
    and "m node = None" and "thread_pool_submit node m (Some p) func arg = Some (ERR_OK, m', Some p')"
  shows "chain (next_of m') (tp_head p') (ns @ [node])" and "tp_tail p' = node" and "dom m' = insert node (dom m)"
    and "task_of m' a = (if a = node then (func, arg) else task_of m a)"
    and "tp_shutdown p' = tp_shutdown p" and "\<not> tp_shutdown p" and "tp_num p' = tp_num p"
proof -
  let ?m1 = "m(node \<mapsto> \<lparr>tk_func = func, tk_arg = arg, tk_next = 0\<rparr>)"
  have nz: "node \<noteq> 0" and sd: "\<not> tp_shutdown p"
    using assms(6) by (auto simp: thread_pool_submit_def Let_def bind_eq_Some_conv split: if_splits)
  show "\<not> tp_shutdown p" by (rule sd)
  have new: "node \<notin> set ns" using assms(3,5) by auto
  have nzs: "x \<in> set xs \<Longrightarrow> chain f q xs \<Longrightarrow> x \<noteq> 0" for x xs f q by (induction xs arbitrary: q) auto
  consider "ns = []" "m' = ?m1" "p' = p\<lparr>tp_head := node, tp_tail := node\<rparr>"
    | t xs x where "ns = xs @ [x]" "m x = Some t" "m' = ?m1(x \<mapsto> t\<lparr>tk_next := node\<rparr>)" "p' = p\<lparr>tp_tail := node\<rparr>"
  proof (cases "ns = []")
    case True
    then show ?thesis using assms(4,6) that(1) by (auto simp: thread_pool_submit_def Let_def bind_eq_Some_conv split: if_splits)
  next
    case False
    then obtain xs x where x: "ns = xs @ [x]" by (metis append_butlast_last_id)
    then have "x \<noteq> 0" "x \<noteq> node" "tp_tail p = x" using nzs [OF _ assms(1), of x] new assms(4) by auto
    then show ?thesis using assms(6) that(2) [OF x]
      by (auto simp: thread_pool_submit_def Let_def bind_eq_Some_conv split: if_splits)
  qed
  note cs = this
  show "tp_tail p' = node" "tp_shutdown p' = tp_shutdown p" "tp_num p' = tp_num p" using cs by (cases; simp)+
  show "dom m' = insert node (dom m)" using cs by cases auto
  show "task_of m' a = (if a = node then (func, arg) else task_of m a)"
    using cs by cases (use new in \<open>auto simp: task_of_def\<close>)
  show "chain (next_of m') (tp_head p') (ns @ [node])"
    using cs
  proof cases
    case 1
    then show ?thesis using nz by (simp add: next_of_def)
  next
    case (2 t xs x)
    have nx: "next_of m' = ((next_of m)(node := 0))(x := node)" using 2 new by (auto simp: next_of_def)
    have c: "chain ((next_of m)(node := 0)) (tp_head p) (xs @ [x])"
      using assms(1) new 2(1) by (simp add: chain_upd_other)
    have "chain (((next_of m)(node := 0))(x := node)) (tp_head p) (xs @ [x, node])"
      by (rule chain_append [OF c nz]) (use assms(2) new 2(1) in auto)
    then show ?thesis unfolding nx using 2(1,4) by simp
  qed
qed

lemma signal_worker_cases:
  assumes "signal_worker ws vs"
  shows "length vs = length ws" and "mset (held vs) = mset (held ws)" and "mset (in_hand m vs) = mset (in_hand m ws)"
    and "WSleep \<in> set vs \<Longrightarrow> count_list vs WWoken = Suc (count_list ws WWoken)"
    and "WSleep \<in> set vs \<Longrightarrow> WSleep \<in> set ws" and "WExited \<in> set vs \<Longrightarrow> WExited \<in> set ws"
proof -
  consider "WSleep \<notin> set ws" "vs = ws" | i where "i < length ws" "ws ! i = WSleep" "vs = ws[i := WWoken]"
    using assms by (auto simp: signal_worker_def split: if_splits)
  note cs = this
  show "length vs = length ws" using cs by cases auto
  show "mset (held vs) = mset (held ws)" "mset (in_hand m vs) = mset (in_hand m ws)"
    using cs by (cases; use held_update [of _ ws WWoken] hand_update [of _ ws m WWoken] in force)+
  show "WSleep \<in> set vs \<Longrightarrow> count_list vs WWoken = Suc (count_list ws WWoken)"
    using cs
  proof cases
    case (2 i)
    then show ?thesis using count_update [OF 2(1), of WWoken WWoken] by simp
  qed simp
  show "WSleep \<in> set vs \<Longrightarrow> WSleep \<in> set ws" "WExited \<in> set vs \<Longrightarrow> WExited \<in> set ws"
    using cs by (cases; auto dest: set_update_cases)+
qed

lemma wake_worker_simps [simp]: "held1 (wake_worker w) = held1 w" "hand1 m (wake_worker w) = hand1 m w"
  "wake_worker w \<noteq> WSleep" "wake_worker w = WExited \<longleftrightarrow> w = WExited"
  by (cases w; simp)+

lemma wake_workers: "held (map wake_worker ws) = held ws" "in_hand m (map wake_worker ws) = in_hand m ws"
  "WSleep \<notin> set (map wake_worker ws)" "WExited \<in> set (map wake_worker ws) \<longleftrightarrow> WExited \<in> set ws"
  by (auto simp: held_def in_hand_def comp_def image_iff wake_worker_simps(3) [symmetric] dest: wake_worker_simps(4) [THEN iffD1, OF sym])
     (metis wake_worker_simps(3,4))+

text \<open>A worker that goes from one state without a node to another.\<close>

lemma idle_update:
  assumes "i < length ws" and "held1 (ws ! i) = []" and "held1 w = []"
  shows "mset (held (ws[i := w])) = mset (held ws)" and "mset (in_hand m (ws[i := w])) = mset (in_hand m ws)"
proof -
  have e: "hand1 m v = [] \<longleftrightarrow> held1 v = []" for v by (cases v) auto
  show "mset (held (ws[i := w])) = mset (held ws)" using held_update [OF assms(1), of w] assms(2,3) by simp
  show "mset (in_hand m (ws[i := w])) = mset (in_hand m ws)"
    using hand_update [OF assms(1), of m w] e assms(2,3) by (metis add.right_neutral mset.simps(1))
qed

lemma same_nodes:
  assumes "mset (xs :: 'a list) = mset ys"
  shows "distinct xs = distinct ys" and "set xs = set ys"
  using mset_eq_imp_distinct_iff [OF assms] mset_eq_setD [OF assms] by auto

lemma tp_step_inv:
  assumes "tp_inv s" and "tp_step s s'"
  shows "tp_inv s'"
  using assms(1)
proof (rule tp_invE)
  fix ns
  let ?ws = "ts_workers s" and ?m = "ts_nodes s" and ?p = "ts_pool s"
  assume I: "chain (next_of ?m) (tp_head ?p) ns"
    "distinct (ns @ held ?ws)" "dom ?m = set (ns @ held ?ws)"
    "tp_tail ?p = (if ns = [] then 0 else last ns)"
    "ts_submitted s = ts_taken s @ map (task_of ?m) ns"
    "WSleep \<in> set ?ws \<Longrightarrow> length ns \<le> count_list ?ws WWoken"
    "WExited \<in> set ?ws \<Longrightarrow> ns = []"
    "mset (ts_taken s) = mset (ts_finished s) + mset (in_hand ?m ?ws)"
    "tp_shutdown ?p \<Longrightarrow> WSleep \<notin> set ?ws"
    "WExited \<in> set ?ws \<Longrightarrow> tp_shutdown ?p"
    "ts_joined s \<Longrightarrow> tp_shutdown ?p \<and> (\<forall>w \<in> set ?ws. w = WExited)"
    "?ws \<noteq> []"
  have notjoined: "\<not> ts_joined s" if "i < length ?ws" "?ws ! i \<noteq> WExited" for i
    using I(11) that nth_mem by blast
  have exited: "WExited \<in> set (?ws[i := w]) \<Longrightarrow> w \<noteq> WExited \<Longrightarrow> WExited \<in> set ?ws" for i w
    by (auto dest: set_update_cases)
  have asleep: "WSleep \<in> set (?ws[i := w]) \<Longrightarrow> w \<noteq> WSleep \<Longrightarrow> WSleep \<in> set ?ws" for i w
    by (auto dest: set_update_cases)
  have idle: "held1 (?ws ! i) = []" if "?ws ! i \<in> {WReady, WWoken}" for i using that by auto
  from assms(2) show "tp_inv s'"
  proof (cases rule: tp_step.cases)
    case (submit node func arg m p ws)
    have sub: "set ns \<subseteq> dom ?m" and fresh: "node \<notin> set ns" "node \<notin> set (held ?ws)"
      using I(3) submit(3) by auto
    have dn: "distinct ns" using I(2) by simp
    note sc = submit_chain [OF I(1) dn sub I(4) submit(3,4)]
    note sg = signal_worker_cases [OF submit(5)]
    have sw: "set (held ws) = set (held ?ws)" "distinct (held ws) = distinct (held ?ws)"
      using sg(2) mset_eq_setD mset_eq_imp_distinct_iff by blast+
    have hand: "in_hand m ?ws = in_hand ?m ?ws"
      by (rule in_hand_cong) (use sc(4) fresh(2) taken_held(1) in metis)
    have tasks: "map (task_of m) ns = map (task_of ?m) ns" "task_of m node = (func, arg)"
      using sc(4) fresh(1) by auto
    show ?thesis
      by (rule tp_invI [of _ "ns @ [node]"]; unfold submit(1))
         (use sc(1-3,5,6) sw I tasks fresh submit(2) sg hand in \<open>auto\<close>)
  next
    case (worker_sleeps i)
    have h: "tp_head ?p = 0" "\<not> tp_shutdown ?p"
      using worker_sleeps(4) by (auto simp: worker_def Let_def bind_eq_Some_conv split: if_splits)
    then have ns: "ns = []" using I(1) chain_nonzero by metis
    note u = idle_update [OF worker_sleeps(2) idle [OF worker_sleeps(3)], of WSleep]
    show ?thesis
      by (rule tp_invI [of _ ns]; unfold worker_sleeps(1))
         (use I h ns u same_nodes [OF u(1)] exited [of i WSleep] notjoined [OF worker_sleeps(2)] worker_sleeps(3) in auto)
  next
    case (worker_exits i)
    have h: "tp_head ?p = 0" "tp_shutdown ?p"
      using worker_exits(4) by (auto simp: worker_def Let_def bind_eq_Some_conv split: if_splits)
    then have ns: "ns = []" using I(1) chain_nonzero by metis
    note u = idle_update [OF worker_exits(2) idle [OF worker_exits(3)], of WExited]
    show ?thesis
      by (rule tp_invI [of _ ns]; unfold worker_exits(1))
         (use I h ns u same_nodes [OF u(1)] asleep [of i WExited] notjoined [OF worker_exits(2)] worker_exits(3) in auto)
  next
    case (worker_takes i t p)
    obtain n where h: "tp_head ?p = t" "t \<noteq> 0" "?m t = Some n"
      and p: "p = ?p\<lparr>tp_head := tk_next n, tp_tail := (if tk_next n = 0 then 0 else tp_tail ?p)\<rparr>"
      using worker_takes(4) by (auto simp: worker_def Let_def bind_eq_Some_conv split: if_splits)
    obtain ns' where ns: "ns = t # ns'" using I(1) h chain_nonzero by (cases ns) auto
    have c: "chain (next_of ?m) (tk_next n) ns'" using I(1) ns h by (simp add: next_of_def)
    have tz: "tk_next n = 0 \<longleftrightarrow> ns' = []" using c chain_nonzero by blast
    have ho: "mset (held (?ws[i := WTaken t])) = add_mset t (mset (held ?ws))"
      using held_update [OF worker_takes(2), of "WTaken t"] idle [OF worker_takes(3)] by simp
    have "hand1 ?m (?ws ! i) = []" using worker_takes(3) by auto
    then have ha: "mset (in_hand ?m (?ws[i := WTaken t])) = add_mset (task_of ?m t) (mset (in_hand ?m ?ws))"
      using hand_update [OF worker_takes(2), of ?m "WTaken t"] by simp
    have e: "mset (ns' @ held (?ws[i := WTaken t])) = mset (ns @ held ?ws)" using ho ns by simp
    have d: "distinct (ns' @ held (?ws[i := WTaken t]))" "dom ?m = set (ns' @ held (?ws[i := WTaken t]))"
      using mset_eq_imp_distinct_iff [OF e] mset_eq_setD [OF e] I(2,3) by auto
    have wake: "length ns' \<le> count_list (?ws[i := WTaken t]) WWoken" if "WSleep \<in> set (?ws[i := WTaken t])"
    proof -
      have "Suc (length ns') \<le> count_list ?ws WWoken" using I(6) ns asleep [OF that] by simp
      then show ?thesis using count_update [OF worker_takes(2), of "WTaken t" WWoken] by (auto split: if_splits)
    qed
    have noex: "WExited \<notin> set (?ws[i := WTaken t])" using I(7) ns exited [of i "WTaken t"] by auto
    have nj: "\<not> ts_joined s" using notjoined [OF worker_takes(2)] worker_takes(3) by auto
    have sl: "WSleep \<notin> set (?ws[i := WTaken t])" if "tp_shutdown ?p" using I(9) that asleep [of i "WTaken t"] by auto
    show ?thesis
      by (rule tp_invI [of _ ns']; unfold worker_takes(1))
         (use c d I(4,5,8,12) ns tz wake noex nj sl ha p in \<open>simp_all add: p\<close>)
  next
    case (worker_calls i t c)
    have c: "c = task_of ?m t" using worker_calls(4) by (auto simp: worker_call_def task_of_def bind_eq_Some_conv)
    have u: "mset (held (?ws[i := WRunning t c])) = mset (held ?ws)"
      "mset (in_hand ?m (?ws[i := WRunning t c])) = mset (in_hand ?m ?ws)"
      using held_update [OF worker_calls(2), of "WRunning t c"] hand_update [OF worker_calls(2), of ?m "WRunning t c"]
        worker_calls(3) c by simp_all
    have k: "count_list (?ws[i := WRunning t c]) WWoken = count_list ?ws WWoken"
      using count_update [OF worker_calls(2), of "WRunning t c" WWoken] worker_calls(3) by simp
    show ?thesis
      by (rule tp_invI [of _ ns]; unfold worker_calls(1))
         (use I u k same_nodes [OF u(1)] asleep [of i "WRunning t c"] exited [of i "WRunning t c"]
            notjoined [OF worker_calls(2)] worker_calls(3) in auto)
  next
    case (task_done i t c m)
    have m: "m = ?m(t := None)" "t \<in> dom ?m" using task_done(4) by (auto simp: free_node_def split: option.splits)
    have ho: "add_mset t (mset (held (?ws[i := WReady]))) = mset (held ?ws)"
      using held_update [OF task_done(2), of WReady] task_done(3) by simp
    have ha: "add_mset c (mset (in_hand ?m (?ws[i := WReady]))) = mset (in_hand ?m ?ws)"
      using hand_update [OF task_done(2), of ?m WReady] task_done(3) by simp
    have e: "mset (t # ns @ held (?ws[i := WReady])) = mset (ns @ held ?ws)" using ho by simp
    have d: "distinct (t # ns @ held (?ws[i := WReady]))" "dom ?m = set (t # ns @ held (?ws[i := WReady]))"
      using mset_eq_imp_distinct_iff [OF e] mset_eq_setD [OF e] I(2,3) by auto
    have keep: "task_of m a = task_of ?m a" if "a \<noteq> t" for a using that by (simp add: m(1) task_of_def)
    have nx: "next_of m = (next_of ?m)(t := 0)" by (auto simp: m(1) next_of_def)
    have ih: "in_hand m (?ws[i := WReady]) = in_hand ?m (?ws[i := WReady])"
      by (rule in_hand_cong) (use d(1) keep taken_held(1) in fastforce)
    have ch: "chain (next_of m) (tp_head ?p) ns" using I(1) d(1) by (simp add: nx chain_upd_other)
    have tasks: "map (task_of m) ns = map (task_of ?m) ns" using d(1) by (auto intro!: keep)
    have k: "count_list (?ws[i := WReady]) WWoken = count_list ?ws WWoken"
      using count_update [OF task_done(2), of WReady WWoken] task_done(3) by simp
    show ?thesis
      by (rule tp_invI [of _ ns]; unfold task_done(1))
         (use I ch d ha [symmetric] ih tasks k asleep [of i WReady] exited [of i WReady] notjoined [OF task_done(2)] task_done(3) m in auto)
  next
    case (spurious i)
    have u: "mset (held (?ws[i := WWoken])) = mset (held ?ws)" "mset (in_hand ?m (?ws[i := WWoken])) = mset (in_hand ?m ?ws)"
      using idle_update(1) [OF spurious(2), of WWoken] idle_update(2) [OF spurious(2), of WWoken ?m] spurious(3) by simp_all
    have k: "count_list (?ws[i := WWoken]) WWoken = Suc (count_list ?ws WWoken)"
      using count_update [OF spurious(2), of WWoken WWoken] spurious(3) by simp
    show ?thesis
      by (rule tp_invI [of _ ns]; unfold spurious(1))
         (use I u k same_nodes [OF u(1)] asleep [of i WWoken] exited [of i WWoken] notjoined [OF spurious(2)] spurious(3) in auto)
  next
    case shutdown
    note w = wake_workers [where ws = ?ws]
    show ?thesis
      by (rule tp_invI [of _ ns]; unfold shutdown(1) tp_sys.simps w begin_shutdown_def tpool.simps)
         (use I w shutdown(2) in auto)
  next
    case (joined m)
    then have ex: "WExited \<in> set ?ws" using I(12) by (metis list.set_intros(1) neq_Nil_conv)
    then have ns: "ns = []" by (rule I(7))
    have "m = ?m" using joined(5) I(1) ns by (subst (asm) discard_tasks.simps) simp
    then show ?thesis
      by (intro tp_invI [of _ ns]; unfold joined(1)) (use I joined(2-4) in auto)
  qed
qed

lemma tp_reach_inv: "tp_reach s t \<Longrightarrow> tp_inv s \<Longrightarrow> tp_inv t"
  by (induction rule: tp_reach.induct) (auto intro: tp_step_inv)

lemma thread_pool_create_inv:
  assumes "thread_pool_create a b f True n = (ERR_OK, Some p)"
  shows "tp_inv (tp_start p)"
proof -
  have p: "p = \<lparr>tp_num = n, tp_head = 0, tp_tail = 0, tp_shutdown = False\<rparr>" "n \<noteq> 0"
    using assms by (auto simp: thread_pool_create_def split: if_splits)
  have "held (replicate k WReady) = []" "in_hand m (replicate k WReady) = []" for k m
    by (simp_all add: held_def in_hand_def)
  then show ?thesis using p by (intro tp_invI [of _ "[]"]) (auto simp: tp_start_def unat_eq_0)
qed

section \<open>After the shutdown\<close>

text \<open>What is left to do, as a number.\<close>

fun work_left :: "worker_state \<Rightarrow> nat" where
  "work_left WExited = 0"
| "work_left (WTaken t) = 3"
| "work_left (WRunning t c) = 2"
| "work_left w = 1"

definition tp_measure :: "tp_sys \<Rightarrow> nat" where
  "tp_measure s = 3 * (length (ts_submitted s) - length (ts_taken s)) + sum_list (map work_left (ts_workers s))
     + (if ts_joined s then 0 else 1)"

lemma sum_update:
  fixes ws :: "worker_state list"
  assumes "i < length ws"
  shows "sum_list (map work_left (ws[i := w])) + work_left (ws ! i) = sum_list (map work_left ws) + work_left w"
proof -
  have "ws = take i ws @ [ws ! i] @ drop (Suc i) ws" using assms by (simp add: id_take_nth_drop)
  then have "sum_list (map work_left ws)
      = sum_list (map work_left (take i ws)) + work_left (ws ! i) + sum_list (map work_left (drop (Suc i) ws))"
    by (metis add.assoc append_Cons append_Nil list.simps(9) map_append sum_list.Cons sum_list_append)
  then show ?thesis using assms by (simp add: upd_conv_take_nth_drop)
qed

lemma shutdown_step_measure:
  assumes "tp_inv s" and "tp_shutdown (ts_pool s)" and "tp_step s t"
  shows "tp_measure t < tp_measure s" and "tp_shutdown (ts_pool t)"
proof -
  have nosleep: "WSleep \<notin> set (ts_workers s)" using assms(1,2) by (auto elim!: tp_invE)
  have "tp_measure t < tp_measure s \<and> tp_shutdown (ts_pool t)"
    using assms(3)
  proof (cases rule: tp_step.cases)
    case (submit node func arg m p ws)
    then show ?thesis using assms(2) by (auto simp: thread_pool_submit_def Let_def bind_eq_Some_conv split: if_splits)
  next
    case (worker_sleeps i)
    then show ?thesis using assms(2) by (auto simp: worker_def Let_def bind_eq_Some_conv split: if_splits)
  next
    case (worker_exits i)
    have "work_left (ts_workers s ! i) = 1" using worker_exits(3) by auto
    then show ?thesis using sum_update [OF worker_exits(2), of WExited] worker_exits(1) assms(2)
      by (simp add: tp_measure_def)
  next
    case (worker_takes i a p)
    have h: "tp_head (ts_pool s) \<noteq> 0" and p: "tp_shutdown p"
      using worker_takes(4) assms(2) by (auto simp: worker_def Let_def bind_eq_Some_conv split: if_splits)
    from assms(1) obtain ns where "chain (next_of (ts_nodes s)) (tp_head (ts_pool s)) ns"
      "ts_submitted s = ts_taken s @ map (task_of (ts_nodes s)) ns" by (auto elim!: tp_invE)
    then have "Suc (length (ts_taken s)) \<le> length (ts_submitted s)" using h chain_nonzero by (cases ns) auto
    then obtain k where "length (ts_submitted s) = Suc (length (ts_taken s)) + k" by (auto simp: le_iff_add)
    moreover have "work_left (ts_workers s ! i) = 1" using worker_takes(3) by auto
    ultimately show ?thesis using sum_update [OF worker_takes(2), of "WTaken a"] worker_takes(1) p
      by (simp add: tp_measure_def)
  next
    case (worker_calls i a c)
    then show ?thesis using sum_update [OF worker_calls(2), of "WRunning a c"] assms(2) by (simp add: tp_measure_def)
  next
    case (task_done i a c m)
    then show ?thesis using sum_update [OF task_done(2), of WReady] assms(2) by (simp add: tp_measure_def)
  next
    case (spurious i)
    then show ?thesis using nosleep nth_mem [OF spurious(2)] by simp
  next
    case shutdown
    then show ?thesis using assms(2) by simp
  next
    case joined
    then show ?thesis using assms(2) by (simp add: tp_measure_def)
  qed
  then show "tp_measure t < tp_measure s" "tp_shutdown (ts_pool t)" by blast+
qed

text \<open>Nothing a thread does is undefined.\<close>

lemma tp_defined:
  assumes "tp_inv s"
  shows "worker (ts_nodes s) (ts_pool s) \<noteq> None"
    and "ts_nodes s node = None \<Longrightarrow> thread_pool_submit node (ts_nodes s) (Some (ts_pool s)) func arg \<noteq> None"
    and "WTaken t \<in> set (ts_workers s) \<Longrightarrow> worker_call (ts_nodes s) t \<noteq> None"
    and "WRunning t c \<in> set (ts_workers s) \<Longrightarrow> free_node t (ts_nodes s) \<noteq> None"
    and "WExited \<in> set (ts_workers s) \<Longrightarrow> discard_tasks (ts_nodes s) (tp_head (ts_pool s)) = Some (ts_nodes s)"
proof -
  let ?m = "ts_nodes s" and ?p = "ts_pool s"
  obtain ns where I: "chain (next_of ?m) (tp_head ?p) ns" "dom ?m = set (ns @ held (ts_workers s))"
    "tp_tail ?p = (if ns = [] then 0 else last ns)" "WExited \<in> set (ts_workers s) \<Longrightarrow> ns = []"
    using assms by (rule tp_invE) blast
  have hd: "tp_head ?p \<noteq> 0 \<Longrightarrow> \<exists>n. ?m (tp_head ?p) = Some n" using I(1,2) by (cases ns) auto
  show "worker ?m ?p \<noteq> None" using hd by (auto simp: worker_def Let_def)
  have tl: "tp_tail ?p \<noteq> 0 \<Longrightarrow> \<exists>n. ?m (tp_tail ?p) = Some n" using I(2,3) last_in_set [of ns] by (auto split: if_splits)
  show "thread_pool_submit node ?m (Some ?p) func arg \<noteq> None" if "?m node = None"
    using tl that by (auto simp: thread_pool_submit_def free_node_def Let_def)
  have nd: "a \<in> set (held (ts_workers s)) \<Longrightarrow> \<exists>n. ?m a = Some n" for a using I(2) by auto
  show "worker_call ?m t \<noteq> None" if "WTaken t \<in> set (ts_workers s)"
    using nd [OF taken_held(1) [OF that]] by (auto simp: worker_call_def)
  show "free_node t ?m \<noteq> None" if "WRunning t c \<in> set (ts_workers s)"
    using nd [OF taken_held(2) [OF that]] by (auto simp: free_node_def)
  show "discard_tasks ?m (tp_head ?p) = Some ?m" if "WExited \<in> set (ts_workers s)"
    using I(1) I(4) [OF that] by (subst discard_tasks.simps) simp
qed

lemma shutdown_progress:
  assumes "tp_inv s" and "tp_shutdown (ts_pool s)" and "\<not> ts_joined s"
  shows "\<exists>t. tp_step s t"
proof (cases "\<forall>w \<in> set (ts_workers s). w = WExited")
  case True
  moreover have "ts_workers s \<noteq> []" using assms(1) unfolding tp_inv_def by blast
  ultimately have "WExited \<in> set (ts_workers s)" by (metis list.set_intros(1) neq_Nil_conv)
  from tp_step.joined [OF assms(2,3) True tp_defined(5) [OF assms(1) this]] show ?thesis by blast
next
  case False
  then obtain i where i: "i < length (ts_workers s)" "ts_workers s ! i \<noteq> WExited" by (auto simp: in_set_conv_nth)
  have "ts_workers s ! i \<noteq> WSleep"
    using assms(1,2) nth_mem [OF i(1)] by (auto elim!: tp_invE)
  then consider t where "ts_workers s ! i = WTaken t" | t c where "ts_workers s ! i = WRunning t c"
    | "ts_workers s ! i \<in> {WReady, WWoken}"
    using i(2) by (cases "ts_workers s ! i") auto
  then show ?thesis
  proof cases
    case (1 t)
    then show ?thesis using worker_calls [OF i(1) 1] tp_defined(3) [OF assms(1), of t] nth_mem [OF i(1)] by fastforce
  next
    case (2 t c)
    then show ?thesis using task_done [OF i(1) 2] tp_defined(4) [OF assms(1), of t c] nth_mem [OF i(1)] by fastforce
  next
    case 3
    obtain r where "worker (ts_nodes s) (ts_pool s) = Some r" using tp_defined(1) [OF assms(1)] by blast
    then show ?thesis using worker_sleeps [OF i(1) 3] worker_exits [OF i(1) 3] worker_takes [OF i(1) 3]
      by (cases r) blast+
  qed
qed

lemma held_exited: "\<forall>w \<in> set ws. w = WExited \<Longrightarrow> held ws = [] \<and> in_hand m ws = []"
  by (induction ws) (auto simp: held_def in_hand_def)

lemma joined_all_done:
  assumes "tp_inv s" and "ts_joined s"
  shows "mset (ts_finished s) = mset (ts_submitted s) \<and> ts_nodes s = Map.empty \<and> (\<forall>w \<in> set (ts_workers s). w = WExited)"
  using assms(1)
proof (rule tp_invE)
  fix ns
  assume I: "dom (ts_nodes s) = set (ns @ held (ts_workers s))"
    "ts_submitted s = ts_taken s @ map (task_of (ts_nodes s)) ns"
    "WExited \<in> set (ts_workers s) \<Longrightarrow> ns = []"
    "mset (ts_taken s) = mset (ts_finished s) + mset (in_hand (ts_nodes s) (ts_workers s))"
    "ts_joined s \<Longrightarrow> tp_shutdown (ts_pool s) \<and> (\<forall>w \<in> set (ts_workers s). w = WExited)" "ts_workers s \<noteq> []"
  have all: "\<forall>w \<in> set (ts_workers s). w = WExited" using I(5) assms(2) by blast
  then have "ns = []" using I(3,6) by (metis list.set_intros(1) neq_Nil_conv)
  then show ?thesis using I(1,2,4) held_exited [OF all] all by auto
qed

section \<open>Properties\<close>

text \<open>
  C6. Every accepted task runs exactly once, in every reachable state and under every schedule. The tasks taken off the queue
  are a prefix of the submitted ones, in order, and are, as a multiset, the finished ones plus those in the hands of
  a worker. The nodes allocated are those of the queue and those the workers hold, each once: no critical
  section, no call \<open>t->func(t->arg)\<close> and no \<open>free(t)\<close> touches a node that is not allocated. After
  the joins of \<open>thread_pool_destroy\<close> every submitted task has finished and every node is freed.
\<close>

theorem thread_pool_runs_each_task_once:
  assumes "thread_pool_create a b f True n = (ERR_OK, Some p)" and "tp_reach (tp_start p) s"
  shows "ts_taken s = take (length (ts_taken s)) (ts_submitted s)
       \<and> mset (ts_taken s) = mset (ts_finished s) + mset (in_hand (ts_nodes s) (ts_workers s))
       \<and> (\<exists>ns. chain (next_of (ts_nodes s)) (tp_head (ts_pool s)) ns
            \<and> distinct (ns @ held (ts_workers s)) \<and> dom (ts_nodes s) = set (ns @ held (ts_workers s)))
       \<and> worker (ts_nodes s) (ts_pool s) \<noteq> None
       \<and> (\<forall>node func arg. ts_nodes s node = None \<longrightarrow> thread_pool_submit node (ts_nodes s) (Some (ts_pool s)) func arg \<noteq> None)
       \<and> (\<forall>t. WTaken t \<in> set (ts_workers s) \<longrightarrow> worker_call (ts_nodes s) t \<noteq> None)
       \<and> (\<forall>t c. WRunning t c \<in> set (ts_workers s) \<longrightarrow> free_node t (ts_nodes s) \<noteq> None)
       \<and> (ts_joined s \<longrightarrow> mset (ts_finished s) = mset (ts_submitted s) \<and> ts_nodes s = Map.empty)"
proof -
  have inv: "tp_inv s" using tp_reach_inv [OF assms(2) thread_pool_create_inv [OF assms(1)]] .
  from inv obtain ns where "chain (next_of (ts_nodes s)) (tp_head (ts_pool s)) ns"
    "distinct (ns @ held (ts_workers s))" "dom (ts_nodes s) = set (ns @ held (ts_workers s))"
    "ts_submitted s = ts_taken s @ map (task_of (ts_nodes s)) ns"
    "mset (ts_taken s) = mset (ts_finished s) + mset (in_hand (ts_nodes s) (ts_workers s))"
    by (rule tp_invE) blast
  moreover from this(4) have "ts_taken s = take (length (ts_taken s)) (ts_submitted s)" by simp
  ultimately show ?thesis using tp_defined(1-4) [OF inv] joined_all_done [OF inv] by blast
qed

text \<open>
  C7. \<open>thread_pool_destroy\<close> terminates. Once it has announced the shutdown, some thread has a step to take until the joins
  are over, every step of any thread decreases a number, and no step undoes the announcement, so that every run
  reaches the end of the joins (the return of a called function is a step: a task that never returns keeps the destructor waiting); then all workers have returned, every task submitted has finished and
  every node is freed. A submission that comes after the announcement is refused and leaves no node behind.
  Before it, a worker sleeps while tasks are queued only if another one was woken for them.
\<close>

theorem thread_pool_destroy_terminates:
  assumes "thread_pool_create a b f True n = (ERR_OK, Some p)" and "tp_reach (tp_start p) s"
  shows "(tp_shutdown (ts_pool s) \<and> \<not> ts_joined s \<longrightarrow> (\<exists>t. tp_step s t))
       \<and> (tp_shutdown (ts_pool s) \<longrightarrow> (\<forall>t. tp_step s t \<longrightarrow> tp_measure t < tp_measure s \<and> tp_shutdown (ts_pool t)))
       \<and> (ts_joined s \<longrightarrow> (\<forall>w \<in> set (ts_workers s). w = WExited) \<and> mset (ts_finished s) = mset (ts_submitted s)
            \<and> ts_nodes s = Map.empty)
       \<and> (tp_shutdown (ts_pool s) \<longrightarrow> (\<forall>node func arg. node \<noteq> 0 \<and> func \<noteq> 0 \<and> ts_nodes s node = None \<longrightarrow>
            thread_pool_submit node (ts_nodes s) (Some (ts_pool s)) func arg = Some (ERR_UNSUPPORTED, ts_nodes s, Some (ts_pool s))))
       \<and> (WSleep \<in> set (ts_workers s) \<longrightarrow> length (ts_taken s) < length (ts_submitted s) \<longrightarrow> WWoken \<in> set (ts_workers s))"
proof -
  have inv: "tp_inv s" using tp_reach_inv [OF assms(2) thread_pool_create_inv [OF assms(1)]] .
  have wake: "WWoken \<in> set (ts_workers s)"
    if w: "WSleep \<in> set (ts_workers s)" and q: "length (ts_taken s) < length (ts_submitted s)"
    using inv
  proof (rule tp_invE)
    fix ns
    assume "ts_submitted s = ts_taken s @ map (task_of (ts_nodes s)) ns"
      "WSleep \<in> set (ts_workers s) \<Longrightarrow> length ns \<le> count_list (ts_workers s) WWoken"
    then have "count_list (ts_workers s) WWoken \<noteq> 0" using w q by (cases ns) auto
    then show ?thesis by (metis count_notin)
  qed
  have refuse: "thread_pool_submit node (ts_nodes s) (Some (ts_pool s)) func arg = Some (ERR_UNSUPPORTED, ts_nodes s, Some (ts_pool s))"
    if "tp_shutdown (ts_pool s)" "node \<noteq> 0" "func \<noteq> 0" "ts_nodes s node = None" for node func arg
    using that by (simp add: thread_pool_submit_def free_node_def fun_upd_idem)
  show ?thesis using shutdown_progress [OF inv] shutdown_step_measure [OF inv] joined_all_done [OF inv] refuse wake by blast
qed

lemma tp_example:
  "thread_pool_create True True (\<lambda>i. True) True 1
     = (ERR_OK, Some \<lparr>tp_num = 1, tp_head = 0, tp_tail = 0, tp_shutdown = False\<rparr>)"
  by (simp add: thread_pool_create_def malloc_def list_all_iff)

text \<open>One task is submitted, and then the shutdown is announced.\<close>

definition tp_example_pool :: tpool where
  "tp_example_pool = \<lparr>tp_num = 1, tp_head = 0, tp_tail = 0, tp_shutdown = False\<rparr>"

lemma tp_example_shutdown:
  "\<exists>s. tp_reach (tp_start tp_example_pool) s \<and> tp_shutdown (ts_pool s) \<and> ts_submitted s = [(1, 2)]"
proof -
  let ?s = "tp_start tp_example_pool"
  let ?m = "[16 \<mapsto> \<lparr>tk_func = 1, tk_arg = 2, tk_next = 0\<rparr>] :: nodes"
  let ?t = "?s\<lparr>ts_pool := tp_example_pool\<lparr>tp_head := 16, tp_tail := 16\<rparr>, ts_nodes := ?m, ts_workers := ts_workers ?s,
      ts_submitted := ts_submitted ?s @ [(1, 2)]\<rparr>"
  let ?u = "?t\<lparr>ts_pool := begin_shutdown (ts_pool ?t), ts_workers := map wake_worker (ts_workers ?t)\<rparr>"
  have "tp_step ?s ?t"
    by (rule submit [of _ 16]) (simp_all add: tp_start_def tp_example_pool_def thread_pool_submit_def signal_worker_def)
  moreover have "tp_step ?t ?u" by (rule shutdown) (simp add: tp_start_def tp_example_pool_def)
  ultimately have "tp_reach ?s ?u" by (meson tp_more tp_refl)
  moreover have "tp_shutdown (ts_pool ?u)" "ts_submitted ?u = [(1, 2)]"
    by (simp_all add: tp_start_def begin_shutdown_def)
  ultimately show ?thesis by blast
qed

theorem thread_pool_runs_each_task_once_witness:
  "\<exists>s. tp_reach (tp_start tp_example_pool) s \<and> ts_submitted s = [(1, 2)]
     \<and> ts_taken s = take (length (ts_taken s)) (ts_submitted s)"
  using tp_example_shutdown thread_pool_runs_each_task_once [OF tp_example [folded tp_example_pool_def]] by metis

text \<open>From there every run ends with the task finished; there is one.\<close>

theorem thread_pool_destroy_terminates_witness:
  "\<exists>s. tp_reach (tp_start tp_example_pool) s \<and> ts_joined s \<and> ts_finished s = [(1, 2)]"
proof -
  note d = thread_pool_destroy_terminates [OF tp_example [folded tp_example_pool_def]]
  have sub: "tp_shutdown (ts_pool s) \<Longrightarrow> tp_step s t \<Longrightarrow> ts_submitted t = ts_submitted s" for s t
    by (erule tp_step.cases) (auto simp: thread_pool_submit_def Let_def bind_eq_Some_conv split: if_splits)
  have "\<exists>s'. tp_reach (tp_start tp_example_pool) s' \<and> ts_joined s' \<and> ts_submitted s' = ts_submitted s"
    if "tp_reach (tp_start tp_example_pool) s" "tp_shutdown (ts_pool s)" for s
    using that
  proof (induction "tp_measure s" arbitrary: s rule: less_induct)
    case less
    show ?case
    proof (cases "ts_joined s")
      case False
      then obtain t where t: "tp_step s t" "tp_measure t < tp_measure s" "tp_shutdown (ts_pool t)"
        using d [OF less.prems(1)] less.prems(2) by blast
      then show ?thesis using less.hyps [OF t(2) tp_more [OF less.prems(1) t(1)] t(3)] sub [OF less.prems(2) t(1)] by simp
    qed (use less.prems in blast)
  qed
  then obtain s where s: "tp_reach (tp_start tp_example_pool) s" "ts_joined s" "ts_submitted s = [(1, 2)]"
    using tp_example_shutdown by metis
  then have "mset (ts_finished s) = {#(1, 2)#}" using d [OF s(1)] by simp
  then show ?thesis using s by auto
qed

end
