(* ===== verification/Parallel.thy ===== *)
theory Parallel
  imports Core "HOL-Library.Multiset"
begin

text \<open>
  The parallel loop and the parallel reduction of \<open>src/hpc/parallel.c\<close>. The callbacks are
  the client's: the loop is the list of calls of \<open>body\<close> and of the joins,
  the reduction is a function of \<open>map\<close> and \<open>reduce\<close> over the type of their values.
  A thread reads only the slot it was given, which the caller leaves alone until it has joined the thread, so the moment at which
  it runs does not matter: its call is recorded where the join returns.
  The answers of the two \<open>malloc\<close>s and of each \<open>pthread_create\<close> are arguments. A slot written
  outside its block, a slot read before it is written, a call of a \<open>NULL\<close> body, the join of a thread that was not
  created, and freeing the slots of a thread that was not joined are undefined (\<open>None\<close>).
\<close>

section \<open>Definitions\<close>

text \<open>The ranges the loop over the threads computes, from thread \<open>i\<close> at offset \<open>off\<close>.\<close>

primrec chunk_loop :: "size_t \<Rightarrow> size_t \<Rightarrow> nat \<Rightarrow> size_t \<Rightarrow> size_t \<Rightarrow> (size_t \<times> size_t) list" where
  "chunk_loop chunk rest 0 i off = []"
| "chunk_loop chunk rest (Suc m) i off =
     (let e = off + chunk + (if i < rest then 1 else 0)
      in (off, e) # chunk_loop chunk rest m (i + 1) e)"

definition chunks :: "size_t \<Rightarrow> size_t \<Rightarrow> (size_t \<times> size_t) list" where
  "chunks n k = chunk_loop (n div k) (n mod k) (unat k) 0 0"

text \<open>
  The loop's two arrays, the calls of \<open>body\<close> and the joins. A slot's body is present until it is set to
  \<open>NULL\<close>; an entry of the thread array holds a thread that runs, or none.
\<close>

record chunk_arg =
  ca_start :: size_t
  ca_end :: size_t
  ca_body :: bool

record par_state =
  pf_args :: "chunk_arg option list"
  pf_threads :: "bool list"
  pf_calls :: "(size_t \<times> size_t) list"
  pf_joins :: "nat list"

definition chunk_worker :: "chunk_arg \<Rightarrow> par_state \<Rightarrow> par_state ub" where
  "chunk_worker c s = (if ca_body c then Some (s\<lparr>pf_calls := pf_calls s @ [(ca_start c, ca_end c)]\<rparr>) else None)"

definition put_arg :: "nat \<Rightarrow> chunk_arg \<Rightarrow> par_state \<Rightarrow> par_state ub" where
  "put_arg i c s = (if i < length (pf_args s) then Some (s\<lparr>pf_args := (pf_args s)[i := Some c]\<rparr>) else None)"

definition put_thread :: "nat \<Rightarrow> par_state \<Rightarrow> par_state ub" where
  "put_thread i s = (if i < length (pf_threads s) then Some (s\<lparr>pf_threads := (pf_threads s)[i := True]\<rparr>) else None)"

text \<open>The loop that fills the slots and starts the threads.\<close>

primrec create_loop ::
  "(nat \<Rightarrow> bool) \<Rightarrow> size_t \<Rightarrow> size_t \<Rightarrow> nat \<Rightarrow> size_t \<Rightarrow> size_t \<Rightarrow> par_state \<Rightarrow> par_state ub" where
  "create_loop created chunk rest 0 i off s = Some s"
| "create_loop created chunk rest (Suc m) i off s =
     (let a = \<lparr>ca_start = off, ca_end = off + chunk + (if i < rest then 1 else 0), ca_body = True\<rparr> in
      do { s \<leftarrow> put_arg (unat i) a s;
           s \<leftarrow> (if created (unat i) then put_thread (unat i) s
                else do { s \<leftarrow> chunk_worker a s; put_arg (unat i) (a\<lparr>ca_body := False\<rparr>) s });
           create_loop created chunk rest m (i + 1) (ca_end a) s })"

text \<open>The loop that joins: slots whose body is \<open>NULL\<close> are passed over.\<close>

definition join_thread :: "nat \<Rightarrow> par_state \<Rightarrow> par_state ub" where
  "join_thread i s =
     (if \<not> i < length (pf_args s) then None
      else case pf_args s ! i of
          None \<Rightarrow> None
        | Some a \<Rightarrow>
            if \<not> ca_body a then Some s
            else if \<not> (i < length (pf_threads s) \<and> pf_threads s ! i) then None
            else do { s \<leftarrow> chunk_worker a s;
                      Some (s\<lparr>pf_threads := (pf_threads s)[i := False], pf_joins := pf_joins s @ [i]\<rparr>) })"

primrec join_all :: "nat \<Rightarrow> nat \<Rightarrow> par_state \<Rightarrow> par_state ub" where
  "join_all 0 i s = Some s"
| "join_all (Suc m) i s = do { s \<leftarrow> join_thread i s; join_all m (Suc i) s }"

text \<open>The calls of \<open>body\<close>, and the indices of the threads joined.\<close>

definition parallel_for ::
  "bool \<Rightarrow> bool \<Rightarrow> (nat \<Rightarrow> bool) \<Rightarrow> size_t \<Rightarrow> size_t \<Rightarrow> ((size_t \<times> size_t) list \<times> nat list) ub" where
  "parallel_for ok_threads ok_args created n num_threads =
     (if n = 0 \<or> num_threads = 0 then Some ([], [])
      else let k = (if num_threads > n then n else num_threads) in
        if k > SIZE_MAX div 8 \<or> k > SIZE_MAX div 32 then Some ([(0, n)], [])
        else (case (malloc ok_threads (k * 8), malloc ok_args (k * 32)) of
            (Some ts, Some as) \<Rightarrow>
              do { s \<leftarrow> create_loop created (n div k) (n mod k) (unat k) 0 0
                     \<lparr>pf_args = replicate (length as div 32) None, pf_threads = replicate (length ts div 8) False,
                      pf_calls = [], pf_joins = []\<rparr>;
                   s \<leftarrow> join_all (unat k) 0 s;
                   if True \<in> set (pf_threads s) then None else Some (pf_calls s, pf_joins s) }
          | _ \<Rightarrow> Some ([(0, n)], [])))"

text \<open>
  The slots of the reduction. A thread that could not be created is run inline and its slot
  needs no join (\<open>map = NULL\<close>); a created one has run when its join returns.
\<close>

record 'd reduce_arg =
  ra_start :: size_t
  ra_end :: size_t
  ra_map :: bool
  ra_result :: 'd

definition reduce_worker :: "(size_t \<Rightarrow> size_t \<Rightarrow> 'd) \<Rightarrow> 'd reduce_arg \<Rightarrow> 'd reduce_arg" where
  "reduce_worker mapf a = a\<lparr>ra_result := mapf (ra_start a) (ra_end a)\<rparr>"

primrec spawn_loop ::
  "(nat \<Rightarrow> bool) \<Rightarrow> 'd \<Rightarrow> (size_t \<Rightarrow> size_t \<Rightarrow> 'd) \<Rightarrow> nat \<Rightarrow> (size_t \<times> size_t) list \<Rightarrow> 'd reduce_arg list"
where
  "spawn_loop created zero mapf i [] = []"
| "spawn_loop created zero mapf i (r # rs) =
     (let a = \<lparr>ra_start = fst r, ra_end = snd r, ra_map = True, ra_result = zero\<rparr>
      in (if created i then a else (reduce_worker mapf a)\<lparr>ra_map := False\<rparr>)
         # spawn_loop created zero mapf (Suc i) rs)"

text \<open>The join loop: the first partial result, then each further one reduced into it.\<close>

primrec join_loop ::
  "(size_t \<Rightarrow> size_t \<Rightarrow> 'd) \<Rightarrow> ('d \<Rightarrow> 'd \<Rightarrow> 'd) \<Rightarrow> nat \<Rightarrow> 'd \<Rightarrow> 'd reduce_arg list \<Rightarrow> 'd"
where
  "join_loop mapf reduce i result [] = result"
| "join_loop mapf reduce i result (a # as) =
     (let b = (if ra_map a then reduce_worker mapf a else a)
      in join_loop mapf reduce (Suc i) (if i = 0 then ra_result b else reduce result (ra_result b)) as)"

definition parallel_reduce ::
  "bool \<Rightarrow> bool \<Rightarrow> (nat \<Rightarrow> bool) \<Rightarrow> 'd \<Rightarrow> size_t \<Rightarrow> size_t \<Rightarrow> (size_t \<Rightarrow> size_t \<Rightarrow> 'd)
    \<Rightarrow> ('d \<Rightarrow> 'd \<Rightarrow> 'd) \<Rightarrow> 'd ub" where
  "parallel_reduce ok_threads ok_args created zero n num_threads mapf reduce =
     (if n = 0 then Some zero
      else if num_threads \<le> 1 then Some (mapf 0 n)
      else let k = (if num_threads > n then n else num_threads) in
        (case (malloc ok_threads (k * 8), malloc ok_args (k * 40)) of
            (Some ts, Some as) \<Rightarrow>
              if length ts < unat k * 8 \<or> length as < unat k * 40 then None
              else Some (join_loop mapf reduce 0 zero (spawn_loop created zero mapf 0 (chunks n k)))
          | _ \<Rightarrow> Some (mapf 0 n)))"

section \<open>The ranges\<close>

text \<open>The offset before thread \<open>i\<close>, as a natural number.\<close>

definition chunk_start :: "nat \<Rightarrow> nat \<Rightarrow> nat \<Rightarrow> nat" where
  "chunk_start n k i = i * (n div k) + min i (n mod k)"

lemma chunk_start_Suc:
  "chunk_start n k (Suc i) = chunk_start n k i + n div k + (if i < n mod k then 1 else 0)"
  by (simp add: chunk_start_def min_def)

lemma chunk_start_end: "0 < k \<Longrightarrow> chunk_start n k k = n"
  using mod_less_divisor [of k n] mult_div_mod_eq [of k n] by (simp add: chunk_start_def min_absorb2)

lemma chunk_start_mono: "i \<le> j \<Longrightarrow> chunk_start n k i \<le> chunk_start n k j"
  unfolding chunk_start_def by (intro add_mono mult_le_mono1) auto

lemma chunk_loop_nth:
  assumes "unat k = i + m" and "0 < unat k" and "unat iw = i" and "unat off = chunk_start (unat n) (unat k) i"
  shows "map (\<lambda>(s, e). (unat s, unat e)) (chunk_loop (n div k) (n mod k) m iw off)
       = map (\<lambda>j. (chunk_start (unat n) (unat k) j, chunk_start (unat n) (unat k) (Suc j))) [i ..< i + m]"
  using assms
proof (induction m arbitrary: i iw off)
  case 0
  then show ?case by simp
next
  case (Suc m)
  let ?st = "chunk_start (unat n) (unat k)"
  let ?e = "off + n div k + (if iw < n mod k then 1 else 0)"
  have le: "?st (Suc i) \<le> unat n"
    using chunk_start_mono [of "Suc i" "unat k" "unat n" "unat k"] chunk_start_end [OF Suc.prems(2), of "unat n"]
      Suc.prems(1) by simp
  have lt: "iw < n mod k \<longleftrightarrow> i < unat n mod unat k"
    using Suc.prems(3) by (simp add: word_less_unat unat_mod_word)
  have small: "?st i + unat n div unat k + (if i < unat n mod unat k then 1 else 0) < 18446744073709551616"
    using le chunk_start_Suc [of "unat n" "unat k" i] unat_less_2p64 [of n] by linarith
  have e1: "unat (off + n div k) = ?st i + unat n div unat k"
    using small Suc.prems(4) by (subst unat_add_small) (simp_all add: unat_div_word)
  have e: "unat ?e = ?st (Suc i)"
    using small e1 lt by (cases "i < unat n mod unat k") (simp_all add: chunk_start_Suc unat_Suc_small)
  have iw: "unat (iw + 1) = Suc i"
    using Suc.prems(1,3) unat_less_2p64 [of k] by (subst unat_Suc_small) simp_all
  have "map (\<lambda>(s, e). (unat s, unat e)) (chunk_loop (n div k) (n mod k) m (iw + 1) ?e)
      = map (\<lambda>j. (?st j, ?st (Suc j))) [Suc i ..< Suc i + m]"
    by (rule Suc.IH) (use Suc.prems iw e in auto)
  then show ?case using Suc.prems(4) e by (simp add: Let_def upt_conv_Cons del: upt_Suc)
qed

lemma chunks_nat:
  assumes "k \<noteq> 0"
  shows "map (\<lambda>(s, e). (unat s, unat e)) (chunks n k)
       = map (\<lambda>j. (chunk_start (unat n) (unat k) j, chunk_start (unat n) (unat k) (Suc j))) [0 ..< unat k]"
  using chunk_loop_nth [of k 0 "unat k" 0 0 n] assms
  by (simp add: chunks_def unat_pos_iff chunk_start_def)

text \<open>The indices of a list of ranges, in order.\<close>

definition covered :: "(size_t \<times> size_t) list \<Rightarrow> nat list" where
  "covered rs = concat (map (\<lambda>(s, e). [unat s ..< unat e]) rs)"

lemma concat_ranges:
  assumes "\<And>i. f i \<le> f (Suc i)"
  shows "concat (map (\<lambda>j. [f j ..< f (Suc j)]) [0 ..< m]) = [f 0 ..< (f m :: nat)]"
proof (induction m)
  case (Suc m)
  have "f 0 \<le> f m" by (rule lift_Suc_mono_le [of f 0 m, OF assms]) simp
  moreover obtain d where "f (Suc m) = f m + d" using le_Suc_ex [OF assms [of m]] by blast
  ultimately have split: "[f 0 ..< f (Suc m)] = [f 0 ..< f m] @ [f m ..< f (Suc m)]"
    by (metis upt_add_eq_append)
  have "concat (map (\<lambda>j. [f j ..< f (Suc j)]) [0 ..< Suc m])
      = concat (map (\<lambda>j. [f j ..< f (Suc j)]) [0 ..< m]) @ [f m ..< f (Suc m)]" by simp
  then show ?case unfolding Suc.IH split .
qed simp

lemma covered_chunks:
  assumes "k \<noteq> 0" shows "covered (chunks n k) = [0 ..< unat n]"
proof -
  let ?st = "chunk_start (unat n) (unat k)"
  have "covered (chunks n k) = concat (map (\<lambda>(s, e). [s ..< e]) (map (\<lambda>(s, e). (unat s, unat e)) (chunks n k)))"
    by (simp add: covered_def o_def split_def)
  also have "\<dots> = concat (map (\<lambda>j. [?st j ..< ?st (Suc j)]) [0 ..< unat k])"
    unfolding chunks_nat [OF assms] by (simp add: o_def)
  also have "\<dots> = [?st 0 ..< ?st (unat k)]"
    by (rule concat_ranges) (simp add: chunk_start_Suc)
  also have "\<dots> = [0 ..< unat n]"
    using assms by (simp add: chunk_start_end unat_pos_iff) (simp add: chunk_start_def)
  finally show ?thesis .
qed

lemma chunk_sizes:
  assumes "k \<noteq> 0" and "(s, e) \<in> set (chunks n k)"
  shows "unat e = unat s + unat n div unat k \<or> unat e = unat s + unat n div unat k + 1"
proof -
  have "(unat s, unat e) \<in> set (map (\<lambda>(s, e). (unat s, unat e)) (chunks n k))"
    using assms(2) by force
  then obtain j where "unat s = chunk_start (unat n) (unat k) j" "unat e = chunk_start (unat n) (unat k) (Suc j)"
    unfolding chunks_nat [OF assms(1)] by auto
  then show ?thesis by (simp add: chunk_start_Suc)
qed

lemma length_chunks: "k \<noteq> 0 \<Longrightarrow> length (chunks n k) = unat k"
  using arg_cong [OF chunks_nat [of k n], of length] by simp

lemma covered_whole: "covered [(0, n)] = [0 ..< unat n]"
  by (simp add: covered_def)

lemma not_null_prod: "unat k * c < 18446744073709551616 \<Longrightarrow> unat (word_of_nat c :: size_t) = c \<Longrightarrow>
   malloc ok (k * word_of_nat c) = Some d \<Longrightarrow> length d = unat k * c"
  by (metis malloc_SomeD unat_mult_small)

section \<open>The two loops\<close>

text \<open>The slots after the first loop, and the ranges of the threads that a condition picks.\<close>

primrec slots :: "(nat \<Rightarrow> bool) \<Rightarrow> nat \<Rightarrow> (size_t \<times> size_t) list \<Rightarrow> chunk_arg option list" where
  "slots created j [] = []"
| "slots created j (r # rs) = Some \<lparr>ca_start = fst r, ca_end = snd r, ca_body = created j\<rparr> # slots created (Suc j) rs"

primrec picked :: "(nat \<Rightarrow> bool) \<Rightarrow> nat \<Rightarrow> 'r list \<Rightarrow> 'r list" where
  "picked P j [] = []"
| "picked P j (r # rs) = (if P j then [r] else []) @ picked P (Suc j) rs"

lemma length_chunk_loop [simp]: "length (chunk_loop c r m i off) = m"
  by (induction m arbitrary: i off) (simp_all add: Let_def)

lemma length_slots [simp]: "length (slots created j rs) = length rs"
  by (induction rs arbitrary: j) simp_all

lemma picked_parts: "mset (picked (\<lambda>i. \<not> P i) j rs) + mset (picked P j rs) = mset rs"
  by (induction rs arbitrary: j) auto

lemma create_loop_run:
  assumes "unat i = length ps" and "length qs = length ps" and "length ps + m < 18446744073709551616"
  shows "create_loop created c r m i off
      \<lparr>pf_args = ps @ replicate m None, pf_threads = qs @ replicate m False, pf_calls = cs, pf_joins = js\<rparr>
    = Some \<lparr>pf_args = ps @ slots created (length ps) (chunk_loop c r m i off),
            pf_threads = qs @ map created [length ps ..< length ps + m],
            pf_calls = cs @ picked (\<lambda>i. \<not> created i) (length ps) (chunk_loop c r m i off), pf_joins = js\<rparr>"
  using assms
proof (induction m arbitrary: i off ps qs cs)
  case (Suc m)
  let ?e = "off + c + (if i < r then 1 else 0)"
  let ?a = "\<lparr>ca_start = off, ca_end = ?e, ca_body = created (length ps)\<rparr>"
  have i1: "unat (i + 1) = Suc (length ps)"
    using Suc.prems(1,3) by (subst unat_Suc_small) simp_all
  note IH = Suc.IH [of "i + 1" "ps @ [Some ?a]" "qs @ [created (length ps)]" ?e]
  have up: "(qs @ False # zs)[length ps := b] = qs @ b # zs" for b zs
    using Suc.prems(2) by (metis list_update_length)
  show ?case
    using IH i1 Suc.prems
    by (cases "i < r"; cases "created (length ps)")
       (simp_all add: Let_def put_arg_def put_thread_def chunk_worker_def up upt_conv_Cons del: upt_Suc)
qed simp

lemma join_all_run:
  assumes "length qs = length ps"
  shows "join_all (length rs) (length ps)
      \<lparr>pf_args = ps @ slots created (length ps) rs, pf_threads = qs @ map created [length ps ..< length ps + length rs],
       pf_calls = cs, pf_joins = js\<rparr>
    = Some \<lparr>pf_args = ps @ slots created (length ps) rs, pf_threads = qs @ replicate (length rs) False,
            pf_calls = cs @ picked created (length ps) rs,
            pf_joins = js @ filter created [length ps ..< length ps + length rs]\<rparr>"
  using assms
proof (induction rs arbitrary: ps qs cs js)
  case (Cons r rs)
  let ?a = "\<lparr>ca_start = fst r, ca_end = snd r, ca_body = created (length ps)\<rparr>"
  note IH = Cons.IH [of "qs @ [False]" "ps @ [Some ?a]"]
  have up: "(qs @ True # zs)[length ps := b] = qs @ b # zs" "(qs @ c # zs) ! length ps = c" for b c zs
    using Cons.prems by (metis list_update_length, metis nth_append_length)
  show ?case
    using IH Cons.prems
    by (cases "created (length ps)") (simp_all add: join_thread_def chunk_worker_def up upt_conv_Cons del: upt_Suc)
qed simp

lemma covered_mset: "mset rs = mset rs' \<Longrightarrow> mset (covered rs) = mset (covered rs')"
  unfolding covered_def by (metis (no_types, lifting) mset_concat mset_map sum_mset_sum_list)

section \<open>Reduction\<close>

text \<open>A client whose \<open>map\<close> of a range is the reduction of the maps of its two parts.\<close>

definition splits :: "(size_t \<Rightarrow> size_t \<Rightarrow> 'd) \<Rightarrow> ('d \<Rightarrow> 'd \<Rightarrow> 'd) \<Rightarrow> bool" where
  "splits mapf reduce \<longleftrightarrow> (\<forall>a b c. a \<le> b \<longrightarrow> b \<le> c \<longrightarrow> mapf a c = reduce (mapf a b) (mapf b c))"

text \<open>The end of a list of consecutive ranges that starts at \<open>off\<close>.\<close>

primrec last_end :: "size_t \<Rightarrow> (size_t \<times> size_t) list \<Rightarrow> size_t" where
  "last_end off [] = off"
| "last_end off (r # rs) = last_end (snd r) rs"

lemma last_end_last: "rs \<noteq> [] \<Longrightarrow> last_end off rs = snd (last rs)"
  by (induction rs arbitrary: off) auto

lemma chunk_loop_reduce:
  assumes "splits mapf reduce" and "\<And>s e. (s, e) \<in> set (chunk_loop c r m i off) \<Longrightarrow> s \<le> e"
    and "a \<le> off"
  shows "foldl reduce (mapf a off) (map (\<lambda>(s, e). mapf s e) (chunk_loop c r m i off))
       = mapf a (last_end off (chunk_loop c r m i off))"
  using assms(2,3)
proof (induction m arbitrary: i off)
  case (Suc m)
  let ?e = "off + c + (if i < r then 1 else 0)"
  let ?rs = "chunk_loop c r m (i + 1) ?e"
  have rs: "chunk_loop c r (Suc m) i off = (off, ?e) # ?rs" by (simp add: Let_def)
  have oe: "off \<le> ?e" by (rule Suc.prems(1)) (simp add: rs del: chunk_loop.simps)
  have ae: "a \<le> ?e" using Suc.prems(2) oe by (rule order_trans)
  have "foldl reduce (mapf a ?e) (map (\<lambda>(s, e). mapf s e) ?rs) = mapf a (last_end ?e ?rs)"
    by (rule Suc.IH [OF Suc.prems(1) ae]) (simp add: rs del: chunk_loop.simps)
  moreover have "mapf a ?e = reduce (mapf a off) (mapf off ?e)"
    using assms(1) Suc.prems(2) oe unfolding splits_def by blast
  ultimately show ?case unfolding rs by (simp del: chunk_loop.simps)
qed simp

lemma chunks_reduce:
  assumes "splits mapf reduce" and "k \<noteq> 0"
  shows "\<exists>r rs. map (\<lambda>(s, e). mapf s e) (chunks n k) = r # rs \<and> foldl reduce r rs = mapf 0 n"
proof -
  obtain m where m: "unat k = Suc m" using assms(2) by (metis not0_implies_Suc unat_eq_0)
  let ?c = "n div k" and ?r = "n mod k"
  let ?e = "0 + ?c + (if 0 < ?r then 1 else 0)"
  have cs: "chunks n k = (0, ?e) # chunk_loop ?c ?r m 1 ?e" by (simp add: chunks_def m Let_def)
  have le: "s \<le> e" if "(s, e) \<in> set (chunks n k)" for s e
    using chunk_sizes [OF assms(2) that] by (auto simp: word_le_unat)
  have red: "foldl reduce (mapf 0 ?e) (map (\<lambda>(s, e). mapf s e) (chunk_loop ?c ?r m 1 ?e))
       = mapf 0 (last_end ?e (chunk_loop ?c ?r m 1 ?e))"
    by (rule chunk_loop_reduce [OF assms(1)]) (use le cs in auto)
  have last: "last_end ?e (chunk_loop ?c ?r m 1 ?e) = snd (last (chunks n k))"
    using last_end_last [of "chunks n k" 0] by (simp add: cs)
  have "unat (snd (last (chunks n k))) = snd (last (map (\<lambda>(s, e). (unat s, unat e)) (chunks n k)))"
    using cs by (simp add: last_map case_prod_beta)
  also have "\<dots> = unat n"
    unfolding chunks_nat [OF assms(2)] using assms(2) m
    by (simp add: last_map) (metis chunk_start_end m zero_less_Suc)
  finally have "snd (last (chunks n k)) = n" by (simp add: word_eq_unat)
  then show ?thesis using red last unfolding cs by simp
qed

lemma join_spawn_Suc:
  "join_loop mapf reduce (Suc i) result (spawn_loop created zero mapf j rs)
   = foldl reduce result (map (\<lambda>(s, e). mapf s e) rs)"
  by (induction rs arbitrary: i j result) (auto simp: reduce_worker_def Let_def split_def)

lemma join_spawn:
  assumes "map (\<lambda>(s, e). mapf s e) rs = r # vs"
  shows "join_loop mapf reduce 0 zero (spawn_loop created zero mapf 0 rs) = foldl reduce r vs"
proof -
  obtain x xs where "rs = x # xs" using assms by (cases rs) auto
  then show ?thesis using assms
    by (auto simp: join_spawn_Suc reduce_worker_def Let_def split_def)
qed

section \<open>Properties\<close>

section \<open>Properties\<close>

text \<open>
  C23. \<open>parallel_for\<close> has \<open>body\<close> called, by its threads and itself, on ranges that cover \<open>0..n-1\<close> exactly once
  when it returns, without wrap-around, whatever allocations and thread creations fail. Without the arrays (an allocation failed,
  or they would be larger than any object) it calls \<open>body\<close> once and starts no thread. With them, the ranges are
  consecutive, one for each thread, with sizes that differ by at most one; those whose thread could not be created are run by
  the caller, and the threads created are joined, each once, and no other. Nothing is undefined: no slot outside the arrays, no call of
  a \<open>NULL\<close> body, no join of a thread that does not exist, no thread left over when the arrays are freed.
\<close>

theorem parallel_for_covers:
  assumes "num_threads \<noteq> 0"
  shows "\<exists>calls joins. parallel_for ok1 ok2 created n num_threads = Some (calls, joins)
       \<and> mset (covered calls) = mset [0 ..< unat n]
       \<and> (let k = min (unat num_threads) (unat n) in
          if n = 0 then calls = [] \<and> joins = []
          else if PTRDIFF_MAX < k * 32 \<or> \<not> ok1 \<or> \<not> ok2 then calls = [(0, n)] \<and> joins = []
          else joins = filter created [0 ..< k]
             \<and> (\<exists>ranges. length ranges = k \<and> covered ranges = [0 ..< unat n]
                \<and> (\<forall>(s, e) \<in> set ranges. unat e - unat s \<in> {unat n div k, unat n div k + 1})
                \<and> calls = picked (\<lambda>i. \<not> created i) 0 ranges @ picked created 0 ranges))"
proof (cases "n = 0")
  case True
  then show ?thesis by (simp add: parallel_for_def covered_def)
next
  case False
  define k where "k = (if num_threads > n then n else num_threads)"
  have k: "k \<noteq> 0" "min (unat num_threads) (unat n) = unat k"
    using assms False by (auto simp: k_def word_less_unat)
  note pf = parallel_for_def [of ok1 ok2 created n num_threads, folded k_def]
  have big: "k > SIZE_MAX div 8 \<or> k > SIZE_MAX div 32 \<Longrightarrow> PTRDIFF_MAX < unat k * 32"
    by (auto simp: word_less_unat unat_div_word unat_SIZE_MAX)
  show ?thesis
  proof (cases "PTRDIFF_MAX < unat k * 32 \<or> \<not> ok1 \<or> \<not> ok2")
    case True
    have "unat (k * 32) = unat k * 32" if "\<not> (k > SIZE_MAX div 8 \<or> k > SIZE_MAX div 32)"
      using that mult_guard [of 32 k] by (subst unat_mult_small) simp_all
    then show ?thesis using True assms False k by (auto simp: pf Let_def covered_whole malloc_def split: option.splits)
  next
    case guard: False
    let ?rs = "chunks n k"
    have p8: "unat (k * 8) = unat k * 8" and p32: "unat (k * 32) = unat k * 32"
      using guard by (subst unat_mult_small; simp)+
    obtain ts as where m: "malloc ok1 (k * 8) = Some ts" "malloc ok2 (k * 32) = Some as"
      "length ts div 8 = unat k" "length as div 32 = unat k"
      using guard p8 p32 by (simp add: malloc_def)
    have ng: "\<not> (k > SIZE_MAX div 8 \<or> k > SIZE_MAX div 32)" using guard big by blast
    have len: "length ?rs = unat k" by (rule length_chunks [OF k(1)])
    have "parallel_for ok1 ok2 created n num_threads
        = Some (picked (\<lambda>i. \<not> created i) 0 ?rs @ picked created 0 ?rs, filter created [0 ..< unat k])"
      unfolding pf using assms False ng m len unat_less_2p64 [of k]
        create_loop_run [of 0 "[]" "[]" "unat k" created "n div k" "n mod k" 0 "[]" "[]"]
        join_all_run [of "[]" "[]" ?rs created]
      by (auto simp: chunks_def Let_def)
    moreover have "mset (covered (picked (\<lambda>i. \<not> created i) 0 ?rs @ picked created 0 ?rs)) = mset [0 ..< unat n]"
      using covered_mset [of _ ?rs] covered_chunks [OF k(1), of n] picked_parts [of created 0 ?rs] by simp
    moreover have "unat e - unat s \<in> {unat n div unat k, unat n div unat k + 1}" if "(s, e) \<in> set ?rs" for s e
      using chunk_sizes [OF k(1) that] by auto
    ultimately show ?thesis using covered_chunks [OF k(1), of n] len k(2) guard False by (auto simp: Let_def)
  qed
qed

text \<open>Seven indices, three threads, the second of which cannot be created.\<close>

theorem parallel_for_covers_witness:
  "\<exists>calls joins. parallel_for True True (\<lambda>i. i \<noteq> 1) 7 3 = Some (calls, joins)
       \<and> mset (covered calls) = mset [0 ..< 7] \<and> joins = [0, 2]"
  using parallel_for_covers [of 3 True True "\<lambda>i. i \<noteq> 1" 7] by (auto simp: upt_conv_Cons)

text \<open>
  When \<open>map\<close> of a range is the reduction of the maps of its parts, \<open>parallel_reduce\<close> is
  the sequential \<open>map 0 n\<close>: for every number of threads and whatever fails (below the number
  of threads whose array size wraps).
\<close>

theorem parallel_reduce_sequential:
  assumes "splits mapf reduce" and "n \<noteq> 0" and "unat n < 2 ^ 58"
  shows "parallel_reduce ok1 ok2 created zero n num_threads mapf reduce = Some (mapf 0 n)"
proof (cases "num_threads \<le> 1")
  case True
  then show ?thesis using assms(2) by (simp add: parallel_reduce_def)
next
  case False
  define k where "k = (if num_threads > n then n else num_threads)"
  have k: "k \<noteq> 0" "unat k \<le> unat n"
    using False assms(2) by (auto simp: k_def word_less_unat not_less word_le_unat)
  have p8: "unat (k * 8) = unat k * 8" and p40: "unat (k * 40) = unat k * 40"
    using k(2) assms(3) by (subst unat_mult_small; simp)+
  obtain r rs where r: "map (\<lambda>(s, e). mapf s e) (chunks n k) = r # rs" "foldl reduce r rs = mapf 0 n"
    using chunks_reduce [OF assms(1) k(1), of n] by (elim exE conjE)
  show ?thesis
    using assms(2) False r p8 p40 malloc_SomeD [of ok1 "k * 8"] malloc_SomeD [of ok2 "k * 40"]
    by (auto simp: parallel_reduce_def k_def [symmetric] Let_def join_spawn split: option.splits)
qed

theorem parallel_reduce_sequential_witness:
  "parallel_reduce True True (\<lambda>i. i \<noteq> 2) 0 10 4 (\<lambda>a b. uint b - uint a) (+) = Some (uint (10 :: size_t) - uint (0 :: size_t))"
  by (rule parallel_reduce_sequential) (simp_all add: splits_def)

text \<open>
  Unlike \<open>parallel_for\<close>, the reduction does not check that the sizes of its arrays fit: with
  \<open>2 ^ 61\<close> threads the first one wraps to an empty block.
\<close>

lemma parallel_reduce_unchecked_size:
  "parallel_reduce True True created zero (2 ^ 61) (2 ^ 61) mapf reduce = None"
  by (simp add: parallel_reduce_def malloc_def Let_def word_le_nat_alt)

end
