(* ===== verification/CliArgs.thy ===== *)
theory CliArgs
  imports Core
begin

text \<open>
  The command line layer of \<open>src/cli/argparse.c\<close>: options and their four sources (command
  line, environment, configuration file, default), the configuration file parser, subcommand
  dispatch and the help text. Strings are lists of characters. \<open>getopt_long\<close> is a parameter:
  the list of its results up to the \<open>-1\<close> and the final \<open>optind\<close>. The environment is a partial
  map, a file its content; what is printed is the text. \<open>None\<close> is undefined behaviour.
\<close>

section \<open>Types\<close>

abbreviation CLI_MAX_OPTS :: nat where "CLI_MAX_OPTS \<equiv> 64"
abbreviation CLI_MAX_CONFIG :: nat where "CLI_MAX_CONFIG \<equiv> 128"

abbreviation NUL :: char where "NUL \<equiv> CHR 0x00"
abbreviation NEWLINE :: char where "NEWLINE \<equiv> CHR 0x0A"

record cli_option =
  op_long_name :: string
  op_short_name :: char
  op_arg_req :: int
  op_description :: "string option"
  op_env_var :: "string option"
  op_default_val :: "string option"

record cli_subcommand =
  sc_name :: string
  sc_description :: "string option"
  sc_handler :: "int \<Rightarrow> string option list \<Rightarrow> int"

record cli_entry =
  en_key :: "string option"
  en_value :: "string option"

record cli_context =
  cx_cli_args :: "cli_entry list"
  cx_cli_count :: nat
  cx_config_vals :: "cli_entry list"
  cx_config_count :: nat
  cx_options :: "cli_option list"
  cx_option_count :: nat
  cx_subcommand :: "string option"
  cx_rest_argc :: int
  cx_rest_argv :: "string option list"

record long_option =
  lo_name :: string
  lo_has_arg :: int
  lo_val :: int

type_synonym getopt = "int \<Rightarrow> string option list \<Rightarrow> string \<Rightarrow> long_option list \<Rightarrow> (int \<times> string option) list \<times> int"

section \<open>Helpers\<close>

definition ctx_add_cli :: "cli_context \<Rightarrow> string \<Rightarrow> string option \<Rightarrow> cli_context" where
  "ctx_add_cli ctx key val =
     (if cx_cli_count ctx \<ge> CLI_MAX_OPTS then ctx
      else ctx\<lparr>cx_cli_args := (cx_cli_args ctx)[cx_cli_count ctx := \<lparr>en_key = Some key, en_value = val\<rparr>],
               cx_cli_count := cx_cli_count ctx + 1\<rparr>)"

primrec find_entry :: "cli_entry list \<Rightarrow> nat \<Rightarrow> string \<Rightarrow> string option ub" where
  "find_entry entries 0 key = Some None"
| "find_entry entries (Suc i) key =
     (if length entries \<le> i then None
      else (case en_key (entries ! i) of
          None \<Rightarrow> None
        | Some k \<Rightarrow>
            if k = key
            then Some (Some (case en_value (entries ! i) of Some v \<Rightarrow> v | None \<Rightarrow> ''''))
            else find_entry entries i key))"

fun find_option :: "cli_option list \<Rightarrow> string \<Rightarrow> cli_option option" where
  "find_option [] name = None"
| "find_option (o1 # os) name = (if op_long_name o1 = name then Some o1 else find_option os name)"

definition is_space :: "char \<Rightarrow> bool" where
  "is_space c \<longleftrightarrow> c \<in> {CHR '' '', CHR 0x09, CHR 0x0A, CHR 0x0B, CHR 0x0C, CHR 0x0D}"

definition trim :: "string \<Rightarrow> string" where
  "trim s = rev (dropWhile is_space (rev (dropWhile is_space s)))"

section \<open>Parsing the command line\<close>

text \<open>A plain \<open>char\<close> read as an \<open>int\<close> (signed on the supported targets).\<close>

definition char_int :: "char \<Rightarrow> int" where
  "char_int c = (if of_char c < (128 :: int) then of_char c else of_char c - 256)"

definition option_val :: "nat \<Rightarrow> cli_option \<Rightarrow> int" where
  "option_val i o1 = (if op_short_name o1 \<noteq> NUL then char_int (op_short_name o1) else 256 + int i)"

definition short_spec :: "cli_option \<Rightarrow> string" where
  "short_spec o1 =
     (if op_short_name o1 = NUL then ''''
      else op_short_name o1
        # (if op_arg_req o1 = 1 then '':'' else if op_arg_req o1 = 2 then ''::'' else ''''))"

primrec build_options :: "nat \<Rightarrow> cli_option list \<Rightarrow> string \<times> long_option list" where
  "build_options i [] = ('''', [])"
| "build_options i (o1 # os) =
     (let (s, l) = build_options (Suc i) os
      in (short_spec o1 @ s,
          \<lparr>lo_name = op_long_name o1, lo_has_arg = op_arg_req o1, lo_val = option_val i o1\<rparr> # l))"

text \<open>The option a result of \<open>getopt_long\<close> stands for: the first with that value.\<close>

primrec match_option :: "nat \<Rightarrow> cli_option list \<Rightarrow> int \<Rightarrow> cli_option option" where
  "match_option i [] c = None"
| "match_option i (o1 # os) c =
     (if c = option_val i o1 then Some o1 else match_option (Suc i) os c)"

primrec parse_loop ::
  "cli_option list \<Rightarrow> (int \<times> string option) list \<Rightarrow> cli_context \<Rightarrow> cli_context" where
  "parse_loop options [] ctx = ctx"
| "parse_loop options (r # rs) ctx =
     parse_loop options rs
       (if fst r = 63 then ctx
        else (case match_option 0 options (fst r) of
            None \<Rightarrow> ctx
          | Some o1 \<Rightarrow> ctx_add_cli ctx (op_long_name o1) (snd r)))"

definition zero_context :: cli_context where
  "zero_context =
     \<lparr>cx_cli_args = replicate CLI_MAX_OPTS \<lparr>en_key = None, en_value = None\<rparr>, cx_cli_count = 0,
      cx_config_vals = replicate CLI_MAX_CONFIG \<lparr>en_key = None, en_value = None\<rparr>,
      cx_config_count = 0, cx_options = [], cx_option_count = 0, cx_subcommand = None,
      cx_rest_argc = 0, cx_rest_argv = []\<rparr>"

definition cli_parse ::
  "getopt \<Rightarrow> int \<Rightarrow> string option list option \<Rightarrow> cli_option list option \<Rightarrow> int
    \<Rightarrow> cli_context option \<Rightarrow> (error_code \<times> cli_context option) ub" where
  "cli_parse getopt_long argc argvp optionsp num_options ctxp =
     (case (argvp, optionsp, ctxp) of
        (Some argv, Some options, Some _) \<Rightarrow>
          if num_options < 0 \<or> num_options > int CLI_MAX_OPTS then Some (ERR_INVALID_ARG, ctxp)
          else if length options < nat num_options then None
          else let opts = take (nat num_options) options;
                   (short_str, long_opts) = build_options 0 opts;
                   (results, optind) = getopt_long argc argv short_str long_opts;
                   ctx = parse_loop opts results
                     (zero_context\<lparr>cx_options := options, cx_option_count := nat num_options\<rparr>)
               in Some (ERR_OK, Some (ctx\<lparr>cx_rest_argc := argc - optind,
                                          cx_rest_argv := drop (nat optind) argv\<rparr>))
      | _ \<Rightarrow> Some (ERR_INVALID_ARG, ctxp))"

section \<open>The configuration file\<close>

text \<open>\<open>fgets\<close> into a buffer of 1024 bytes: at most 1023 characters, through the newline.\<close>

primrec fgets_take :: "nat \<Rightarrow> string \<Rightarrow> string \<times> string" where
  "fgets_take 0 s = ('''', s)"
| "fgets_take (Suc n) s =
     (case s of
        [] \<Rightarrow> ('''', '''')
      | c # cs \<Rightarrow> if c = NEWLINE then ([c], cs)
                  else (let (l, r) = fgets_take n cs in (c # l, r)))"

lemma fgets_take_rest: "length (snd (fgets_take n s)) \<le> length s"
  by (induction n arbitrary: s) (auto split: list.splits prod.splits simp: le_SucI, (metis le_SucI snd_conv)?)

lemma fgets_take_less: "s \<noteq> [] \<Longrightarrow> length (snd (fgets_take (Suc n) s)) < length s"
  using fgets_take_rest [of n "tl s"] by (cases s) (auto split: prod.splits)

text \<open>One line: the setting it makes, if any.\<close>

definition config_line :: "string \<Rightarrow> (string \<times> string) option" where
  "config_line line =
     (let s = trim (takeWhile (\<lambda>c. c \<noteq> NUL) line)
      in if s = '''' \<or> hd s = CHR ''#'' then None
         else if CHR ''='' \<notin> set s then None
         else Some (trim (takeWhile (\<lambda>c. c \<noteq> CHR ''='') s), trim (tl (dropWhile (\<lambda>c. c \<noteq> CHR ''='') s))))"

lemma fgets_line_less: "s \<noteq> [] \<Longrightarrow> fgets_take 1023 s = (line, rest) \<Longrightarrow> length rest < length s"
  using fgets_take_less [of s 1022] by simp

text \<open>
  The loop over the lines. \<open>dup_key i\<close> and \<open>dup_val i\<close> say whether the two \<open>strdup\<close>s for entry
  \<open>i\<close> succeed.
\<close>

function config_loop ::
  "(nat \<Rightarrow> bool) \<Rightarrow> (nat \<Rightarrow> bool) \<Rightarrow> string \<Rightarrow> cli_context \<Rightarrow> error_code \<times> cli_context" where
  "config_loop dup_key dup_val s ctx =
     (if s = '''' then (ERR_OK, ctx)
      else let (line, rest) = fgets_take 1023 s
           in (case config_line line of
                 None \<Rightarrow> config_loop dup_key dup_val rest ctx
               | Some (key, val) \<Rightarrow>
                   if cx_config_count ctx < CLI_MAX_CONFIG
                   then (if \<not> dup_key (cx_config_count ctx) \<or> \<not> dup_val (cx_config_count ctx)
                         then (ERR_NOMEM, ctx)
                         else config_loop dup_key dup_val rest
                           (ctx\<lparr>cx_config_vals := (cx_config_vals ctx)[cx_config_count ctx :=
                                  \<lparr>en_key = Some key, en_value = Some val\<rparr>],
                                cx_config_count := cx_config_count ctx + 1\<rparr>))
                   else config_loop dup_key dup_val rest ctx))"
  by pat_completeness auto

termination
  by (relation "measure (\<lambda>(_, _, s, _). length s)") (auto intro: fgets_line_less [OF _ sym])

definition cli_load_config ::
  "(string \<rightharpoonup> string) \<Rightarrow> (nat \<Rightarrow> bool) \<Rightarrow> (nat \<Rightarrow> bool) \<Rightarrow> bool \<Rightarrow> string option \<Rightarrow> cli_context option
    \<Rightarrow> error_code \<times> cli_context option" where
  "cli_load_config files dup_key dup_val close_ok pathp ctxp =
     (case (pathp, ctxp) of
        (Some path, Some ctx) \<Rightarrow>
          (case files path of
             None \<Rightarrow> (ERR_NOT_FOUND, ctxp)
           | Some content \<Rightarrow>
               (let (err, ctx') = config_loop dup_key dup_val content ctx
                in if err \<noteq> ERR_OK then (err, Some ctx')
                   else if \<not> close_ok then (ERR_IO, Some ctx')
                   else (ERR_OK, Some ctx')))
      | _ \<Rightarrow> (ERR_INVALID_ARG, ctxp))"

section \<open>Resolution\<close>

definition cli_resolve ::
  "(string \<rightharpoonup> string) \<Rightarrow> cli_context option \<Rightarrow> string option \<Rightarrow> string option ub" where
  "cli_resolve env ctxp namep =
     (case (ctxp, namep) of
        (Some ctx, Some name) \<Rightarrow>
          do { v \<leftarrow> find_entry (cx_cli_args ctx) (cx_cli_count ctx) name;
               (case v of
                  Some v \<Rightarrow> Some (Some v)
                | None \<Rightarrow>
                    (let opt = find_option (take (cx_option_count ctx) (cx_options ctx)) name;
                         e = Option.bind (Option.bind opt op_env_var) env
                     in (case e of
                           Some v \<Rightarrow> Some (Some v)
                         | None \<Rightarrow>
                             do { v \<leftarrow> find_entry (cx_config_vals ctx) (cx_config_count ctx) name;
                                  (case v of
                                     Some v \<Rightarrow> Some (Some v)
                                   | None \<Rightarrow> Some (Option.bind opt op_default_val)) }))) }
      | _ \<Rightarrow> Some None)"

definition cli_flag :: "(string \<rightharpoonup> string) \<Rightarrow> cli_context option \<Rightarrow> string option \<Rightarrow> bool ub" where
  "cli_flag env ctxp namep =
     do { v \<leftarrow> cli_resolve env ctxp namep;
          (case v of
             None \<Rightarrow> Some False
           | Some v \<Rightarrow> Some (v = '''' \<or> v = ''1'' \<or> v = ''true'' \<or> v = ''yes'')) }"

text \<open>\<open>cli_free\<close> with the strings it frees.\<close>

definition cli_free :: "cli_context option \<Rightarrow> cli_entry list \<times> cli_context option" where
  "cli_free ctxp =
     (case ctxp of
        None \<Rightarrow> ([], None)
      | Some ctx \<Rightarrow> (take (cx_config_count ctx) (cx_config_vals ctx), Some (ctx\<lparr>cx_config_count := 0\<rparr>)))"

section \<open>Help and subcommands\<close>

definition pad_right :: "nat \<Rightarrow> string \<Rightarrow> string" where
  "pad_right n s = s @ replicate (n - length s) CHR '' ''"

definition cli_print_usage :: "string \<Rightarrow> bool \<Rightarrow> string" where
  "cli_print_usage prog has_subcommands =
     ''Usage: '' @ prog @ '' '' @ (if has_subcommands then ''<command> '' else '''') @ ''[options]'' @ [NEWLINE]"

definition flag_text :: "cli_option \<Rightarrow> string" where
  "flag_text o1 =
     take 47 (if op_short_name o1 \<noteq> NUL
              then ''-'' @ [op_short_name o1] @ '', --'' @ op_long_name o1
              else ''    --'' @ op_long_name o1)"

definition command_line :: "cli_subcommand \<Rightarrow> string" where
  "command_line c = ''  '' @ pad_right 16 (sc_name c) @ '' ''
     @ (case sc_description c of Some d \<Rightarrow> d | None \<Rightarrow> '''') @ [NEWLINE]"

definition option_line :: "cli_option \<Rightarrow> string" where
  "option_line o1 = ''  '' @ pad_right 24 (flag_text o1) @ '' ''
     @ (case op_description o1 of Some d \<Rightarrow> d | None \<Rightarrow> '''')
     @ (case op_env_var o1 of Some e \<Rightarrow> '' [env: '' @ e @ '']'' | None \<Rightarrow> '''')
     @ (case op_default_val o1 of Some d \<Rightarrow> '' (default: '' @ d @ '')'' | None \<Rightarrow> '''') @ [NEWLINE]"

definition cli_print_help ::
  "string \<Rightarrow> string option \<Rightarrow> cli_option list \<Rightarrow> cli_subcommand list \<Rightarrow> string" where
  "cli_print_help prog description options cmds =
     (case description of Some d \<Rightarrow> d @ [NEWLINE, NEWLINE] | None \<Rightarrow> '''')
     @ cli_print_usage prog (cmds \<noteq> [])
     @ (if cmds \<noteq> [] then [NEWLINE] @ ''Commands:'' @ [NEWLINE] @ concat (map command_line cmds) else '''')
     @ (if options \<noteq> [] then [NEWLINE] @ ''Options:'' @ [NEWLINE] @ concat (map option_line options) else '''')"

datatype dispatch_out = Helped int string | Unknown string string | Handled int

fun dispatch_loop :: "cli_subcommand list \<Rightarrow> string \<Rightarrow> cli_subcommand option" where
  "dispatch_loop [] name = None"
| "dispatch_loop (c # cs) name = (if name = sc_name c then Some c else dispatch_loop cs name)"

definition cli_dispatch ::
  "int \<Rightarrow> string option list \<Rightarrow> cli_subcommand list \<Rightarrow> string option \<Rightarrow> dispatch_out ub" where
  "cli_dispatch argc argv cmds description =
     (let help = (case argv of
                    Some prog # _ \<Rightarrow> Some (cli_print_help prog description [] cmds)
                  | _ \<Rightarrow> None)
      in if argc < 2 then map_option (Helped (- 1)) help
         else if length argv < 2 then None
         else (case argv ! 1 of
                 None \<Rightarrow> map_option (Helped (- 1)) help
               | Some name \<Rightarrow>
                   if name = ''--help'' \<or> name = ''-h'' then map_option (Helped 0) help
                   else (case dispatch_loop cmds name of
                           Some c \<Rightarrow> Some (Handled (sc_handler c (argc - 1) (tl argv)))
                         | None \<Rightarrow> map_option (Unknown (''Unknown command: '' @ name @ [NEWLINE])) help)))"


section \<open>The arrays of the context\<close>

definition entries_ok :: "cli_entry list \<Rightarrow> nat \<Rightarrow> bool" where
  "entries_ok es n \<longleftrightarrow> n \<le> length es \<and> (\<forall>i < n. en_key (es ! i) \<noteq> None)"

definition pairs :: "cli_entry list \<Rightarrow> nat \<Rightarrow> (string \<times> string) list" where
  "pairs es n = map (\<lambda>e. (the (en_key e), case en_value e of Some v \<Rightarrow> v | None \<Rightarrow> '''')) (take n es)"

text \<open>Both arrays of a context hold their counted entries and have their declared sizes.\<close>

definition ctx_ok :: "cli_context \<Rightarrow> bool" where
  "ctx_ok ctx \<longleftrightarrow>
     length (cx_cli_args ctx) = CLI_MAX_OPTS \<and> entries_ok (cx_cli_args ctx) (cx_cli_count ctx)
     \<and> length (cx_config_vals ctx) = CLI_MAX_CONFIG \<and> entries_ok (cx_config_vals ctx) (cx_config_count ctx)"

abbreviation cli_pairs :: "cli_context \<Rightarrow> (string \<times> string) list" where
  "cli_pairs ctx \<equiv> pairs (cx_cli_args ctx) (cx_cli_count ctx)"

abbreviation config_pairs_of :: "cli_context \<Rightarrow> (string \<times> string) list" where
  "config_pairs_of ctx \<equiv> pairs (cx_config_vals ctx) (cx_config_count ctx)"

lemma find_entry_spec:
  "entries_ok es n \<Longrightarrow> find_entry es n key = Some (map_of (rev (pairs es n)) key)"
proof (induction n)
  case 0
  then show ?case by (simp add: pairs_def)
next
  case (Suc n)
  then have ok: "entries_ok es n" and n: "n < length es" "en_key (es ! n) \<noteq> None"
    by (auto simp: entries_ok_def)
  have "pairs es (Suc n) = pairs es n @ [(the (en_key (es ! n)), case en_value (es ! n) of Some v \<Rightarrow> v | None \<Rightarrow> '''')]"
    using n by (simp add: pairs_def take_Suc_conv_app_nth)
  then show ?case using Suc.IH [OF ok] n by auto
qed

lemma entry_append:
  assumes "entries_ok es n" and "n < length es"
  shows "entries_ok (es[n := \<lparr>en_key = Some k, en_value = v\<rparr>]) (Suc n)"
    and "pairs (es[n := \<lparr>en_key = Some k, en_value = v\<rparr>]) (Suc n)
         = pairs es n @ [(k, case v of Some x \<Rightarrow> x | None \<Rightarrow> '''')]"
  using assms by (auto simp: entries_ok_def nth_list_update less_Suc_eq pairs_def take_Suc_conv_app_nth)

lemma length_pairs: "entries_ok es n \<Longrightarrow> length (pairs es n) = n"
  by (simp add: pairs_def entries_ok_def)

section \<open>What the command line gives\<close>

lemma take_take_append: "take n (take n xs @ ys) = take n (xs @ ys)"
  by (cases "n \<le> length xs") simp_all

text \<open>The settings a list of \<open>getopt_long\<close> results stands for.\<close>

definition parsed :: "cli_option list \<Rightarrow> (int \<times> string option) list \<Rightarrow> (string \<times> string) list" where
  "parsed options rs = concat (map (\<lambda>(c, a).
     (if c = 63 then []
      else (case match_option 0 options c of
              None \<Rightarrow> []
            | Some o1 \<Rightarrow> [(op_long_name o1, case a of Some v \<Rightarrow> v | None \<Rightarrow> '''')]))) rs)"

lemma ctx_add_cli_spec:
  assumes "ctx_ok ctx"
  shows "ctx_ok (ctx_add_cli ctx k a)
       \<and> cli_pairs (ctx_add_cli ctx k a)
           = take CLI_MAX_OPTS (cli_pairs ctx @ [(k, case a of Some v \<Rightarrow> v | None \<Rightarrow> '''')])
       \<and> cx_config_vals (ctx_add_cli ctx k a) = cx_config_vals ctx
       \<and> cx_config_count (ctx_add_cli ctx k a) = cx_config_count ctx
       \<and> cx_options (ctx_add_cli ctx k a) = cx_options ctx
       \<and> cx_option_count (ctx_add_cli ctx k a) = cx_option_count ctx"
proof (cases "cx_cli_count ctx \<ge> CLI_MAX_OPTS")
  case True
  then have "take CLI_MAX_OPTS (cli_pairs ctx) = cli_pairs ctx" "cx_cli_count ctx = CLI_MAX_OPTS"
    using assms length_pairs [of "cx_cli_args ctx" "cx_cli_count ctx"] by (auto simp: ctx_ok_def entries_ok_def)
  then show ?thesis using assms True length_pairs [of "cx_cli_args ctx" "cx_cli_count ctx"]
    by (simp add: ctx_add_cli_def ctx_ok_def)
next
  case False
  then have n: "cx_cli_count ctx < length (cx_cli_args ctx)"
    and ok: "entries_ok (cx_cli_args ctx) (cx_cli_count ctx)"
    using assms by (auto simp: ctx_ok_def)
  have "take CLI_MAX_OPTS (cli_pairs ctx @ [p]) = cli_pairs ctx @ [p]" for p
    using False length_pairs [OF ok] by (intro take_all) simp
  then show ?thesis
    using assms False entry_append [OF ok n, of k a] by (simp add: ctx_add_cli_def ctx_ok_def)
qed

lemma parse_loop_spec:
  assumes "ctx_ok ctx"
  shows "ctx_ok (parse_loop options rs ctx)
       \<and> cli_pairs (parse_loop options rs ctx) = take CLI_MAX_OPTS (cli_pairs ctx @ parsed options rs)
       \<and> cx_config_vals (parse_loop options rs ctx) = cx_config_vals ctx
       \<and> cx_config_count (parse_loop options rs ctx) = cx_config_count ctx
       \<and> cx_options (parse_loop options rs ctx) = cx_options ctx
       \<and> cx_option_count (parse_loop options rs ctx) = cx_option_count ctx"
  using assms
proof (induction rs arbitrary: ctx)
  case Nil
  then show ?case using length_pairs by (auto simp: parsed_def ctx_ok_def entries_ok_def pairs_def)
next
  case (Cons r rs)
  define ctx1 where "ctx1 = (if fst r = 63 then ctx
        else (case match_option 0 options (fst r) of None \<Rightarrow> ctx | Some o1 \<Rightarrow> ctx_add_cli ctx (op_long_name o1) (snd r)))"
  define new where "new = parsed options [r]"
  have short: "length (cli_pairs ctx) \<le> CLI_MAX_OPTS"
    using Cons.prems length_pairs by (auto simp: ctx_ok_def entries_ok_def)
  have one: "ctx_ok ctx1 \<and> cli_pairs ctx1 = take CLI_MAX_OPTS (cli_pairs ctx @ new)
      \<and> cx_config_vals ctx1 = cx_config_vals ctx \<and> cx_config_count ctx1 = cx_config_count ctx
      \<and> cx_options ctx1 = cx_options ctx \<and> cx_option_count ctx1 = cx_option_count ctx"
    using ctx_add_cli_spec [OF Cons.prems] Cons.prems short
    by (cases r) (auto simp: ctx1_def new_def parsed_def split: option.splits)
  have step: "parse_loop options (r # rs) ctx = parse_loop options rs ctx1" by (simp add: ctx1_def)
  have more: "parsed options (r # rs) = new @ parsed options rs" by (simp add: new_def parsed_def)
  have cut: "take CLI_MAX_OPTS (take CLI_MAX_OPTS (cli_pairs ctx @ new) @ parsed options rs)
      = take CLI_MAX_OPTS (cli_pairs ctx @ new @ parsed options rs)"
    unfolding take_take_append by simp
  from Cons.IH [OF conjunct1 [OF one]] one show ?case unfolding step more by (simp only: cut)
qed

lemma zero_context_ok: "ctx_ok (zero_context\<lparr>cx_options := options, cx_option_count := n\<rparr>)"
  by (simp add: zero_context_def ctx_ok_def entries_ok_def)

text \<open>The buffer for the short options holds three characters per option and the terminator.\<close>

lemma short_spec_length: "length (short_spec o1) \<le> 3"
  by (simp add: short_spec_def)

lemma short_str_fits: "length (fst (build_options i os)) \<le> 3 * length os"
proof (induction os arbitrary: i)
  case (Cons o1 os)
  then show ?case using add_mono [OF short_spec_length [of o1] Cons.IH [of "Suc i"]]
    by (simp add: case_prod_unfold Let_def)
qed simp

lemma build_options_length: "length (snd (build_options i os)) = length os"
  by (induction os arbitrary: i) (simp_all add: case_prod_unfold Let_def)

section \<open>What the configuration file gives\<close>

function config_pairs :: "string \<Rightarrow> (string \<times> string) list" where
  "config_pairs s =
     (if s = '''' then []
      else let (line, rest) = fgets_take 1023 s
           in (case config_line line of None \<Rightarrow> [] | Some p \<Rightarrow> [p]) @ config_pairs rest)"
  by pat_completeness auto

termination
  by (relation "measure length") (auto intro: fgets_line_less [OF _ sym])

declare config_pairs.simps [simp del] config_loop.simps [simp del]

lemma config_loop_spec:
  assumes "ctx_ok ctx" and "config_loop dk dv s ctx = (err, ctx')"
  shows "ctx_ok ctx' \<and> (err = ERR_OK \<or> err = ERR_NOMEM)
       \<and> (\<exists>n. config_pairs_of ctx' = take CLI_MAX_CONFIG (config_pairs_of ctx @ take n (config_pairs s))
            \<and> (err = ERR_OK \<longrightarrow> n = length (config_pairs s)))
       \<and> (err = ERR_NOMEM \<longrightarrow> (\<exists>i < CLI_MAX_CONFIG. \<not> dk i \<or> \<not> dv i))
       \<and> cx_cli_args ctx' = cx_cli_args ctx \<and> cx_cli_count ctx' = cx_cli_count ctx
       \<and> cx_options ctx' = cx_options ctx \<and> cx_option_count ctx' = cx_option_count ctx"
  using assms
proof (induction "length s" arbitrary: s ctx rule: less_induct)
  case less
  have short: "take CLI_MAX_CONFIG (config_pairs_of ctx) = config_pairs_of ctx"
    using less.prems(1) length_pairs [of "cx_config_vals ctx" "cx_config_count ctx"]
    by (intro take_all) (auto simp: ctx_ok_def entries_ok_def)
  show ?case
  proof (cases "s = ''''")
    case True
    then show ?thesis using less.prems short by (auto simp: config_loop.simps config_pairs.simps)
  next
    case False
    obtain line rest where f: "fgets_take 1023 s = (line, rest)" by fastforce
    have lt: "length rest < length s" by (rule fgets_line_less [OF False f])
    show ?thesis
    proof (cases "config_line line")
      case None
      then have "config_loop dk dv rest ctx = (err, ctx')" and "config_pairs s = config_pairs rest"
        using less.prems(2) False f by (simp_all add: config_loop.simps [of _ _ s] config_pairs.simps [of s])
      then show ?thesis using less.hyps [OF lt less.prems(1)] by simp
    next
      case (Some kv)
      obtain k v where kv: "kv = (k, v)" by fastforce
      have ps: "config_pairs s = (k, v) # config_pairs rest"
        using False f Some kv by (simp add: config_pairs.simps [of s])
      let ?i = "cx_config_count ctx"
      show ?thesis
      proof (cases "?i < CLI_MAX_CONFIG")
        case full: False
        have "config_loop dk dv rest ctx = (err, ctx')"
          using less.prems(2) False f Some kv full by (simp add: config_loop.simps [of _ _ s])
        note IH = less.hyps [OF lt less.prems(1) this]
        have all: "take CLI_MAX_CONFIG (config_pairs_of ctx @ xs) = config_pairs_of ctx" for xs
          using full short length_pairs [of "cx_config_vals ctx" "cx_config_count ctx"] less.prems(1)
          by (auto simp: ctx_ok_def entries_ok_def)
        show ?thesis using IH unfolding all by blast
      next
        case room: True
        show ?thesis
        proof (cases "dk ?i \<and> dv ?i")
          case False
          then have "err = ERR_NOMEM" "ctx' = ctx"
            using less.prems(2) \<open>s \<noteq> ''''\<close> f Some kv room by (auto simp: config_loop.simps [of _ _ s])
          moreover have "config_pairs_of ctx = take CLI_MAX_CONFIG (config_pairs_of ctx @ take 0 (config_pairs s))"
            using short by simp
          ultimately show ?thesis using less.prems(1) False room by blast
        next
          case True
          let ?ctx = "ctx\<lparr>cx_config_vals := (cx_config_vals ctx)[?i := \<lparr>en_key = Some k, en_value = Some v\<rparr>],
                          cx_config_count := ?i + 1\<rparr>"
          have n: "?i < length (cx_config_vals ctx)" "entries_ok (cx_config_vals ctx) ?i"
            using less.prems(1) room by (auto simp: ctx_ok_def)
          have ok: "ctx_ok ?ctx" and ps': "config_pairs_of ?ctx = config_pairs_of ctx @ [(k, v)]"
            using less.prems(1) entry_append [OF n(2,1), of k "Some v"] by (simp_all add: ctx_ok_def)
          have "config_loop dk dv rest ?ctx = (err, ctx')"
            using less.prems(2) \<open>s \<noteq> ''''\<close> f Some kv room True by (simp add: config_loop.simps [of _ _ s])
          from less.hyps [OF lt ok this] obtain n where
            "config_pairs_of ctx' = take CLI_MAX_CONFIG (config_pairs_of ?ctx @ take n (config_pairs rest))"
            "err = ERR_OK \<longrightarrow> n = length (config_pairs rest)" by blast
          then have "\<exists>m. config_pairs_of ctx' = take CLI_MAX_CONFIG (config_pairs_of ctx @ take m (config_pairs s))
            \<and> (err = ERR_OK \<longrightarrow> m = length (config_pairs s))"
            unfolding ps ps' by (intro exI [of _ "Suc n"]) simp
          then show ?thesis using less.hyps [OF lt ok \<open>config_loop dk dv rest ?ctx = _\<close>] by simp
        qed
      qed
    qed
  qed
qed


section \<open>Configuration files as people write them\<close>

datatype config_item = Setting string string | Comment string | Blank string

fun render_item :: "config_item \<Rightarrow> string" where
  "render_item (Setting k v) = k @ ''='' @ v @ [NEWLINE]"
| "render_item (Comment c) = ''#'' @ c @ [NEWLINE]"
| "render_item (Blank w) = w @ [NEWLINE]"

definition render :: "config_item list \<Rightarrow> string" where
  "render items = concat (map render_item items)"

fun settings :: "config_item list \<Rightarrow> (string \<times> string) list" where
  "settings [] = []"
| "settings (Setting k v # xs) = (k, v) # settings xs"
| "settings (_ # xs) = settings xs"

definition clean :: "string \<Rightarrow> bool" where
  "clean s \<longleftrightarrow> NUL \<notin> set s \<and> NEWLINE \<notin> set s \<and> trim s = s"

fun item_ok :: "config_item \<Rightarrow> bool" where
  "item_ok (Setting k v) \<longleftrightarrow> clean k \<and> clean v \<and> CHR ''='' \<notin> set k \<and> (k = '''' \<or> hd k \<noteq> CHR ''#'')"
| "item_ok (Comment c) \<longleftrightarrow> NUL \<notin> set c \<and> NEWLINE \<notin> set c"
| "item_ok (Blank w) \<longleftrightarrow> (\<forall>c \<in> set w. is_space c \<and> c \<noteq> NEWLINE)"

lemma fgets_take_line:
  "NEWLINE \<notin> set l \<Longrightarrow> length l < n \<Longrightarrow> fgets_take n (l @ NEWLINE # s) = (l @ [NEWLINE], s)"
proof (induction l arbitrary: n)
  case Nil
  then show ?case by (cases n) auto
next
  case (Cons c l)
  then obtain m where "n = Suc m" by (cases n) auto
  then show ?case using Cons by auto
qed

lemma fgets_take_last: "NEWLINE \<notin> set l \<Longrightarrow> length l < n \<Longrightarrow> fgets_take n l = (l, '''')"
proof (induction l arbitrary: n)
  case Nil
  then show ?case by (cases n) auto
next
  case (Cons c l)
  then obtain m where "n = Suc m" by (cases n) auto
  then show ?case using Cons by auto
qed

lemma trim_clean: "trim s = s \<Longrightarrow> s = '''' \<or> \<not> is_space (hd s) \<and> \<not> is_space (last s)"
proof (rule ccontr)
  assume t: "trim s = s" and n: "\<not> (s = '''' \<or> \<not> is_space (hd s) \<and> \<not> is_space (last s))"
  have le: "length (trim s) \<le> length (dropWhile is_space s)" "length (dropWhile is_space s) \<le> length s"
    by (metis length_dropWhile_le length_rev trim_def) (rule length_dropWhile_le)
  show False
  proof (cases "is_space (hd s)")
    case True
    then obtain c cs where "s = c # cs" "is_space c" using n by (cases s) auto
    then have "length (dropWhile is_space s) < length s" using length_dropWhile_le [of is_space cs] by simp
    then show False using le t by simp
  next
    case False
    then have h: "dropWhile is_space s = s" using n by (cases s) auto
    obtain c cs where r: "rev s = c # cs" using n by (cases "rev s") auto
    then have "is_space c" using n False by (metis last_rev list.sel(1) rev_rev_ident)
    then have "length (dropWhile is_space (rev s)) < length (rev s)"
      using r length_dropWhile_le [of is_space cs] by simp
    then have "length (trim s) < length s" by (simp add: trim_def h)
    then show False using t by simp
  qed
qed

lemma trim_append_newline: "trim (s @ [NEWLINE]) = trim s"
proof -
  have nl: "is_space NEWLINE" by (simp add: is_space_def)
  show ?thesis
  proof (cases "\<forall>c \<in> set s. is_space c")
    case True
    then have "dropWhile is_space s = []" by simp
    moreover from this have "dropWhile is_space (s @ [NEWLINE]) = []" using nl by (simp only: dropWhile_append) simp
    ultimately show ?thesis by (simp only: trim_def)
  next
    case False
    then obtain c where "c \<in> set s" "\<not> is_space c" by blast
    then show ?thesis using nl by (simp add: trim_def dropWhile_append1)
  qed
qed

lemma trim_noop: "s \<noteq> '''' \<Longrightarrow> \<not> is_space (hd s) \<Longrightarrow> \<not> is_space (last s) \<Longrightarrow> trim s = s"
proof -
  assume s: "s \<noteq> ''''" "\<not> is_space (hd s)" "\<not> is_space (last s)"
  have "dropWhile is_space s = s" using s by (cases s) auto
  moreover have "dropWhile is_space (rev s) = rev s" using s by (cases s rule: rev_cases) auto
  ultimately show ?thesis by (simp add: trim_def)
qed

lemma takeWhile_line: "NUL \<notin> set l \<Longrightarrow> takeWhile (\<lambda>c. c \<noteq> NUL) (l @ [NEWLINE]) = l @ [NEWLINE]"
  by (subst takeWhile_eq_all_conv) auto

lemma config_line_setting:
  assumes "item_ok (Setting k v)"
  shows "config_line (render_item (Setting k v)) = Some (k, v)"
proof -
  let ?s = "k @ CHR ''='' # v"
  have c: "clean k" "clean v" "CHR ''='' \<notin> set k" "k = '''' \<or> hd k \<noteq> CHR ''#''" using assms by auto
  have eq: "\<not> is_space CHR ''=''" by (simp add: is_space_def)
  have "\<not> is_space (hd ?s)" using trim_clean [of k] c(1) eq by (cases k) (auto simp: clean_def)
  moreover have "\<not> is_space (last ?s)" using trim_clean [of v] c(2) eq by (cases v rule: rev_cases) (auto simp: clean_def)
  ultimately have tr: "trim ?s = ?s" by (intro trim_noop) auto
  have nul: "NUL \<notin> set ?s" using c by (simp add: clean_def)
  have whole: "trim (takeWhile (\<lambda>c. c \<noteq> NUL) (?s @ [NEWLINE])) = ?s"
    unfolding takeWhile_line [OF nul] trim_append_newline by (rule tr)
  have "takeWhile (\<lambda>c. c \<noteq> CHR ''='') ?s = k" "dropWhile (\<lambda>c. c \<noteq> CHR ''='') ?s = CHR ''='' # v"
  proof -
    have "\<And>x. x \<in> set k \<Longrightarrow> x \<noteq> CHR ''=''" using c(3) by blast
    then show "takeWhile (\<lambda>c. c \<noteq> CHR ''='') ?s = k" "dropWhile (\<lambda>c. c \<noteq> CHR ''='') ?s = CHR ''='' # v"
      by (subst takeWhile_append2 dropWhile_append2; simp)+
  qed
  moreover have "hd ?s \<noteq> CHR ''#''" using c(4) by (cases k) auto
  moreover have "trim k = k" "trim v = v" using c by (simp_all add: clean_def)
  ultimately show ?thesis using whole by (simp add: config_line_def Let_def)
qed

lemma dropWhile_stop: "\<not> P x \<Longrightarrow> \<exists>t. dropWhile P (xs @ [x]) = t @ [x]"
  by (induction xs) auto

lemma trim_hash: "\<exists>t. trim (CHR ''#'' # d) = CHR ''#'' # t"
proof -
  have n: "\<not> is_space CHR ''#''" by (simp add: is_space_def)
  obtain t where "dropWhile is_space (rev d @ [CHR ''#'']) = t @ [CHR ''#'']"
    using dropWhile_stop [of is_space, OF n, of "rev d"] by blast
  then have "trim (CHR ''#'' # d) = CHR ''#'' # rev t" using n by (simp add: trim_def)
  then show ?thesis by blast
qed

lemma config_line_hash:
  "trim (takeWhile (\<lambda>c. c \<noteq> NUL) l) = CHR ''#'' # t \<Longrightarrow> config_line l = None"
  by (simp add: config_line_def)

lemma config_line_comment:
  assumes "item_ok (Comment c)"
  shows "config_line (render_item (Comment c)) = None"
proof -
  have nul: "NUL \<notin> set (CHR ''#'' # c)" using assms by simp
  obtain t where t: "trim (CHR ''#'' # c) = CHR ''#'' # t" using trim_hash by blast
  have "trim (takeWhile (\<lambda>c. c \<noteq> NUL) ((CHR ''#'' # c) @ [NEWLINE])) = CHR ''#'' # t"
    unfolding takeWhile_line [OF nul] trim_append_newline by (rule t)
  from config_line_hash [OF this] show ?thesis by simp
qed

lemma config_line_blank: "item_ok (Blank w) \<Longrightarrow> config_line (render_item (Blank w)) = None"
proof -
  assume ok: "item_ok (Blank w)"
  have "\<not> is_space NUL" by (simp add: is_space_def)
  then have nul: "NUL \<notin> set w" using ok by auto
  have "trim (takeWhile (\<lambda>c. c \<noteq> NUL) (w @ [NEWLINE])) = trim w"
    unfolding takeWhile_line [OF nul] by (rule trim_append_newline)
  moreover have "dropWhile is_space w = []" using ok by simp
  then have "trim w = ''''" by (simp only: trim_def) simp
  ultimately show ?thesis by (simp add: config_line_def Let_def del: takeWhile.simps)
qed

lemma config_pairs_render:
  assumes "\<And>i. i \<in> set items \<Longrightarrow> item_ok i \<and> length (render_item i) \<le> 1023"
  shows "config_pairs (render items) = settings items"
  using assms
proof (induction items)
  case Nil
  then show ?case by (simp add: render_def config_pairs.simps)
next
  case (Cons i js)
  have ok: "item_ok i" "length (render_item i) \<le> 1023" using Cons.prems by auto
  obtain l where l: "render_item i = l @ [NEWLINE]" "NEWLINE \<notin> set l"
    using ok(1) by (cases i) (auto simp: clean_def)
  have "fgets_take 1023 (render_item i @ render js) = (render_item i, render js)"
    using fgets_take_line [OF l(2), of 1023 "render js"] ok(2) l(1) by simp
  moreover have "S \<noteq> '''' \<Longrightarrow> fgets_take 1023 S = (a, b) \<Longrightarrow>
      config_pairs S = (case config_line a of None \<Rightarrow> [] | Some p \<Rightarrow> [p]) @ config_pairs b" for S a b
    by (subst config_pairs.simps) simp
  moreover have "render_item i @ render js \<noteq> ''''" using l by simp
  ultimately have "config_pairs (render_item i @ render js)
      = (case config_line (render_item i) of None \<Rightarrow> [] | Some p \<Rightarrow> [p]) @ config_pairs (render js)"
    by blast
  moreover have "(case config_line (render_item i) of None \<Rightarrow> [] | Some p \<Rightarrow> [p]) @ settings js = settings (i # js)"
    using ok(1) config_line_setting config_line_comment config_line_blank by (cases i) (auto simp del: render_item.simps item_ok.simps)
  moreover have "render (i # js) = render_item i @ render js" by (simp add: render_def)
  ultimately show ?case using Cons by simp
qed


section \<open>What a line means\<close>

text \<open>
  The lines of a file, whole, and what each means: a key and a value around the first equals sign, without the white space around
  either, unless the first character that is not white space is \<open>#\<close>; nothing when there is no equals sign.
\<close>

fun split_lines :: "string \<Rightarrow> string list" where
  "split_lines [] = ['''']"
| "split_lines (c # cs) =
     (if c = NEWLINE then '''' # split_lines cs
      else (case split_lines cs of l # ls \<Rightarrow> (c # l) # ls | [] \<Rightarrow> [[c]]))"

definition blanks :: "string \<Rightarrow> bool" where
  "blanks s \<longleftrightarrow> (\<forall>c \<in> set s. is_space c)"

definition tidy :: "string \<Rightarrow> bool" where
  "tidy s \<longleftrightarrow> s = '''' \<or> \<not> is_space (hd s) \<and> \<not> is_space (last s)"

inductive line_setting :: "string \<Rightarrow> (string \<times> string) option \<Rightarrow> bool" where
  line_key_value:
    "\<lbrakk>blanks a; blanks b; blanks c; blanks d; tidy k; tidy v; CHR ''='' \<notin> set k; k = '''' \<or> hd k \<noteq> CHR ''#''\<rbrakk>
     \<Longrightarrow> line_setting (a @ k @ b @ CHR ''='' # c @ v @ d) (Some (k, v))"
| line_comment: "blanks a \<Longrightarrow> line_setting (a @ CHR ''#'' # c) None"
| line_no_equals: "CHR ''='' \<notin> set l \<Longrightarrow> line_setting l None"

lemma blanks_simps [simp]: "blanks (rev a) = blanks a" "blanks a \<Longrightarrow> dropWhile is_space a = []"
  by (simp_all add: blanks_def)

lemma drop_blanks: "blanks a \<Longrightarrow> dropWhile is_space (a @ x) = dropWhile is_space x"
  by (rule dropWhile_append2) (simp add: blanks_def)

lemma taken_blanks: "blanks (takeWhile is_space s)"
  by (auto simp: blanks_def dest: set_takeWhileD)

lemma trim_parts: "\<exists>a b. s = a @ trim s @ b \<and> blanks a \<and> blanks b \<and> tidy (trim s)"
proof -
  let ?t = "dropWhile is_space s"
  let ?u = "dropWhile is_space (rev ?t)"
  have t: "s = takeWhile is_space s @ ?t" by simp
  have "rev ?t = takeWhile is_space (rev ?t) @ ?u" by simp
  then have "?t = rev ?u @ rev (takeWhile is_space (rev ?t))" by (metis rev_append rev_rev_ident)
  then have u: "?t = trim s @ rev (takeWhile is_space (rev ?t))" by (simp only: trim_def)
  have "tidy (trim s)"
  proof (cases "trim s = ''''")
    case False
    then have ne: "?u \<noteq> []" by (simp add: trim_def)
    then have "\<not> is_space (hd ?u)" by (rule hd_dropWhile)
    then have l: "\<not> is_space (last (trim s))" using ne by (simp add: trim_def last_rev)
    have "?t \<noteq> []" using ne by (metis dropWhile.simps(1) rev.simps(1))
    then have "\<not> is_space (hd ?t)" by (rule hd_dropWhile)
    moreover have "hd ?t = hd (trim s)" using u False by (metis hd_append2)
    ultimately show ?thesis using l by (simp add: tidy_def)
  qed (simp add: tidy_def)
  moreover have "blanks (takeWhile is_space s)" "blanks (rev (takeWhile is_space (rev ?t)))"
    by (simp_all only: blanks_simps(1) taken_blanks)
  ultimately show ?thesis using t u by (metis)
qed

lemma trim_around:
  assumes "blanks a" and "blanks b" and "tidy s" shows "trim (a @ s @ b) = s"
proof -
  have a: "dropWhile is_space (a @ x) = dropWhile is_space x" for x
    by (rule drop_blanks [OF assms(1)])
  show ?thesis
  proof (cases "s = ''''")
    case True
    then show ?thesis using assms(2) a [of b] by (simp add: trim_def)
  next
    case False
    then have h: "dropWhile is_space (a @ s @ b) = s @ b" "dropWhile is_space (rev s) = rev s"
      using assms(3) a [of "s @ b"] by (cases s, auto simp: tidy_def) (cases s rule: rev_cases, auto simp: tidy_def)
    have "dropWhile is_space (rev b @ rev s) = dropWhile is_space (rev s)" using assms(2) by (intro drop_blanks) simp
    then show ?thesis using h by (simp add: trim_def)
  qed
qed

text \<open>White space around a line with a character that stays.\<close>

lemma trim_split:
  assumes "\<not> is_space e"
  shows "trim (x @ e # y) = dropWhile is_space x @ e # rev (dropWhile is_space (rev y))"
proof -
  have d: "dropWhile is_space (x @ e # y) = dropWhile is_space x @ e # y"
  proof (cases "blanks x")
    case True
    then show ?thesis using assms drop_blanks [OF True, of "e # y"] by simp
  next
    case False
    then obtain z where "z \<in> set x" "\<not> is_space z" by (auto simp: blanks_def)
    then show ?thesis by (simp add: dropWhile_append1)
  qed
  have "dropWhile is_space (rev y @ e # zs) = dropWhile is_space (rev y) @ e # zs" for zs
  proof (cases "blanks y")
    case True
    then show ?thesis using assms drop_blanks [of "rev y" "e # zs"] by simp
  next
    case False
    then obtain z where "z \<in> set (rev y)" "\<not> is_space z" by (auto simp: blanks_def)
    then show ?thesis by (simp add: dropWhile_append1)
  qed
  then show ?thesis by (simp add: trim_def d)
qed

lemma trim_set: "set (trim s) \<subseteq> set s"
  using trim_parts [of s] by (metis Un_iff set_append subsetI)

lemma trim_drop: "trim (dropWhile is_space s) = trim s" "trim (rev (dropWhile is_space (rev s))) = trim s"
proof -
  show "trim (dropWhile is_space s) = trim s" by (simp add: trim_def)
  let ?u = "rev (dropWhile is_space (rev s))"
  have "rev s = takeWhile is_space (rev s) @ dropWhile is_space (rev s)" by simp
  then have s: "s = ?u @ rev (takeWhile is_space (rev s))" by (metis rev_append rev_rev_ident)
  obtain a b where p: "?u = a @ trim ?u @ b" "blanks a" "blanks b" "tidy (trim ?u)" using trim_parts by blast
  have "blanks (b @ rev (takeWhile is_space (rev s)))" using p(3) taken_blanks [of "rev s"] by (auto simp: blanks_def)
  from trim_around [OF p(2) this p(4)] show "trim ?u = trim s" using s p(1) by (metis append.assoc)
qed

lemma not_space: "\<not> is_space CHR ''=''" "\<not> is_space CHR ''#''"
  by (simp_all add: is_space_def)

lemma first_equals:
  assumes "CHR ''='' \<notin> set x"
  shows "takeWhile (\<lambda>c. c \<noteq> CHR ''='') (x @ CHR ''='' # y) = x" "dropWhile (\<lambda>c. c \<noteq> CHR ''='') (x @ CHR ''='' # y) = CHR ''='' # y"
proof -
  have "\<And>c. c \<in> set x \<Longrightarrow> c \<noteq> CHR ''=''" using assms by blast
  then show "takeWhile (\<lambda>c. c \<noteq> CHR ''='') (x @ CHR ''='' # y) = x" "dropWhile (\<lambda>c. c \<noteq> CHR ''='') (x @ CHR ''='' # y) = CHR ''='' # y"
    by (subst takeWhile_append2 dropWhile_append2; simp)+
qed

lemma config_line_setting_line:
  assumes "line_setting l r" and "NUL \<notin> set l"
  shows "config_line l = r" and "config_line (l @ [NEWLINE]) = r"
proof -
  have whole: "takeWhile (\<lambda>c. c \<noteq> NUL) l = l" using assms(2) by (subst takeWhile_eq_all_conv) auto
  show l: "config_line l = r"
    using assms(1)
  proof cases
    case (line_key_value a b c d k v)
    let ?x = "a @ k @ b" and ?y = "c @ v @ d"
    have s: "trim l = dropWhile is_space ?x @ CHR ''='' # rev (dropWhile is_space (rev ?y))"
      using trim_split [OF not_space(1), of ?x ?y] line_key_value(1) by simp
    have ne: "CHR ''='' \<notin> set (dropWhile is_space ?x)"
      using line_key_value not_space(1) by (auto simp: blanks_def dest!: set_dropWhileD)
    have "dropWhile is_space ?x = dropWhile is_space (k @ b)" using line_key_value(3) by (simp add: blanks_def)
    also have "\<dots> = (if k = '''' then '''' else k @ b)"
      using line_key_value(4,7) by (cases k) (auto simp: blanks_def tidy_def)
    finally have e: "dropWhile is_space ?x = (if k = [] then [] else k @ b)" by simp
    have "hd (trim l) \<noteq> CHR ''#''" using line_key_value(10) unfolding s e by (cases "k = []") simp_all
    then show ?thesis
      using first_equals [OF ne] trim_around [OF line_key_value(3,4,7)] trim_around [OF line_key_value(5,6,8)]
        trim_drop(1) [of ?x] trim_drop(2) [of ?y] line_key_value(2)
      unfolding config_line_def whole Let_def s by simp
  next
    case (line_comment a c)
    have "trim l = dropWhile is_space a @ CHR ''#'' # rev (dropWhile is_space (rev c))"
      using trim_split [OF not_space(2), of a c] line_comment(1) by simp
    moreover have "dropWhile is_space a = ''''" using line_comment(3) by (simp add: blanks_def)
    ultimately show ?thesis using line_comment(2) by (simp add: config_line_def Let_def whole)
  next
    case line_no_equals
    then have "CHR ''='' \<notin> set (trim l)" using trim_set by blast
    then show ?thesis using line_no_equals(1) by (simp add: config_line_def Let_def whole)
  qed
  show "config_line (l @ [NEWLINE]) = r"
    using l unfolding config_line_def takeWhile_line [OF assms(2)] whole trim_append_newline .
qed

text \<open>Every line has a meaning.\<close>

lemma line_setting_total: "\<exists>r. line_setting l r"
proof (cases "CHR ''='' \<in> set l")
  case False
  then show ?thesis using line_no_equals by blast
next
  case True
  then obtain x y where l: "l = x @ CHR ''='' # y" "CHR ''='' \<notin> set x" by (metis split_list_first)
  obtain a b where x: "x = a @ trim x @ b" "blanks a" "blanks b" "tidy (trim x)" using trim_parts by blast
  obtain c d where y: "y = c @ trim y @ d" "blanks c" "blanks d" "tidy (trim y)" using trim_parts by blast
  show ?thesis
  proof (cases "trim x = '''' \<or> hd (trim x) \<noteq> CHR ''#''")
    case True
    have "CHR ''='' \<notin> set (trim x)" using l(2) trim_set by blast
    from line_key_value [OF x(2,3) y(2,3) x(4) y(4) this True] show ?thesis using l(1) x(1) y(1)
      by (metis append.assoc append_Cons)
  next
    case False
    then obtain z where "trim x = CHR ''#'' # z" by (cases "trim x") auto
    then have "l = a @ CHR ''#'' # z @ b @ CHR ''='' # y" using l(1) x(1) by (metis append.assoc append_Cons)
    then show ?thesis using line_comment [OF x(2)] by blast
  qed
qed

lemma split_lines_nonempty: "split_lines s \<noteq> []"
  by (cases s) (auto split: list.splits)

lemma split_lines_cases:
  "split_lines s = l # ls \<Longrightarrow>
     NEWLINE \<notin> set l \<and> (if ls = [] then s = l else \<exists>rest. s = l @ NEWLINE # rest \<and> split_lines rest = ls)"
proof (induction s arbitrary: l ls)
  case (Cons c s)
  show ?case
  proof (cases "c = NEWLINE")
    case True
    then show ?thesis using Cons.prems split_lines_nonempty [of s] by auto
  next
    case False
    obtain l' where "split_lines s = l' # ls" "l = c # l'"
      using Cons.prems False split_lines_nonempty [of s] by (auto split: list.splits)
    then show ?thesis using Cons.IH [of l' ls] False by (auto split: if_splits)
  qed
qed auto

text \<open>A file of lines that fit the buffer gives the settings of its lines.\<close>

lemma config_pairs_lines:
  assumes "list_all2 line_setting (split_lines s) ss"
    and "\<forall>l \<in> set (split_lines s). length l \<le> 1022 \<and> NUL \<notin> set l"
  shows "config_pairs s = List.map_filter (\<lambda>x. x) ss"
  using assms
proof (induction "split_lines s" arbitrary: s ss)
  case Nil
  then show ?case using split_lines_nonempty [of s] by simp
next
  case (Cons l ls)
  note sp = split_lines_cases [OF Cons.hyps(2) [symmetric]]
  from Cons.prems(1) obtain r rs where ss: "ss = r # rs" "line_setting l r" "list_all2 line_setting ls rs"
    unfolding Cons.hyps(2) [symmetric] by (cases ss) auto
  have l: "length l \<le> 1022" "NUL \<notin> set l" using Cons.prems(2) unfolding Cons.hyps(2) [symmetric] by auto
  note c = config_line_setting_line [OF ss(2) l(2)]
  have step: "S \<noteq> '''' \<Longrightarrow> fgets_take 1023 S = (x, y) \<Longrightarrow>
      config_pairs S = (case config_line x of None \<Rightarrow> [] | Some p \<Rightarrow> [p]) @ config_pairs y" for S x y
    by (subst config_pairs.simps) simp
  show ?case
  proof (cases "ls = []")
    case True
    then have s: "s = l" "rs = []" using sp ss(3) by auto
    have e: "config_pairs '''' = []" by (simp add: config_pairs.simps)
    show ?thesis
    proof (cases "l = ''''")
      case True
      then have "r = None" using c(1) by (simp add: config_line_def trim_def)
      then show ?thesis using s ss(1) e True by (simp add: List.map_filter_simps)
    next
      case False
      have "fgets_take 1023 l = (l, '''')" by (rule fgets_take_last) (use sp l in auto)
      then show ?thesis using step [OF False] s ss(1) e c(1) by (simp add: List.map_filter_simps split: option.split)
    qed
  next
    case False
    then obtain rest where s: "s = l @ NEWLINE # rest" "split_lines rest = ls" using sp by auto
    have "fgets_take 1023 s = (l @ [NEWLINE], rest)" unfolding s(1) by (rule fgets_take_line) (use sp l in auto)
    moreover have "config_pairs rest = List.map_filter (\<lambda>x. x) rs"
      by (rule Cons.hyps(1)) (use s(2) ss(3) Cons.prems(2) Cons.hyps(2) [symmetric] in auto)
    ultimately show ?thesis using step [of s "l @ [NEWLINE]" rest] s(1) ss(1) c(2) by (simp add: List.map_filter_simps split: option.split)
  qed
qed

section \<open>Properties\<close>

text \<open>The value of the last setting of a name in a list.\<close>

abbreviation last_setting :: "(string \<times> string) list \<Rightarrow> string \<Rightarrow> string option" where
  "last_setting kvs name \<equiv> map_of (rev kvs) name"

lemma cli_resolve_spec:
  assumes "ctx_ok ctx"
  shows "cli_resolve env (Some ctx) (Some name) = Some
       (let opt = find_option (take (cx_option_count ctx) (cx_options ctx)) name
        in case last_setting (cli_pairs ctx) name of Some v \<Rightarrow> Some v
         | None \<Rightarrow> (case Option.bind (Option.bind opt op_env_var) env of Some v \<Rightarrow> Some v
         | None \<Rightarrow> (case last_setting (config_pairs_of ctx) name of Some v \<Rightarrow> Some v
         | None \<Rightarrow> Option.bind opt op_default_val)))"
  using assms by (auto simp: cli_resolve_def find_entry_spec ctx_ok_def Let_def split: option.splits)

text \<open>
  C22. After parsing the command line and loading a configuration file, an option resolves to
  its last occurrence on the command line (an option without argument counting as the empty
  string), else to its environment variable, else to its last setting in the file, else to its
  default. The context keeps the first 64 settings of the command line and the first 128 of the file, and the last is among those.
  The settings of the file are those of its whole lines (\<open>line_setting\<close>), when no line is longer than 1022 characters or holds a
  NUL. Nothing is read outside the context's arrays.
\<close>

theorem cli_resolve_precedence:
  assumes "cli_parse getopt_long argc (Some argv) (Some options) n (Some ctx0) = Some (ERR_OK, Some ctx)"
    and "cli_load_config files dk dv ok (Some path) (Some ctx) = (ERR_OK, Some ctx')"
    and "files path = Some content"
    and "getopt_long argc argv (fst (build_options 0 (take (nat n) options)))
           (snd (build_options 0 (take (nat n) options))) = (results, optind)"
    and "list_all2 line_setting (split_lines content) file_settings"
    and "\<forall>l \<in> set (split_lines content). length l \<le> 1022 \<and> NUL \<notin> set l"
  shows "cli_resolve env (Some ctx') (Some name) = Some
       (let opt = find_option (take (nat n) options) name
        in case last_setting (take 64 (parsed (take (nat n) options) results)) name of Some v \<Rightarrow> Some v
         | None \<Rightarrow> (case Option.bind (Option.bind opt op_env_var) env of Some v \<Rightarrow> Some v
         | None \<Rightarrow> (case last_setting (take 128 (List.map_filter (\<lambda>x. x) file_settings)) name of Some v \<Rightarrow> Some v
         | None \<Rightarrow> Option.bind opt op_default_val)))"
proof -
  let ?z = "zero_context\<lparr>cx_options := options, cx_option_count := nat n\<rparr>"
  have zero: "cli_pairs ?z = []" "config_pairs_of ?z = []"
    by (simp_all add: zero_context_def pairs_def)
  define c where "c = parse_loop (take (nat n) options) results ?z"
  note C = parse_loop_spec [OF zero_context_ok [where options = options and n = "nat n"], of "take (nat n) options" results,
      folded c_def, unfolded zero append_Nil]
  have ctx: "ctx = c\<lparr>cx_rest_argc := argc - optind, cx_rest_argv := drop (nat optind) argv\<rparr>"
    using assms(1,4) by (auto simp: cli_parse_def Let_def c_def case_prod_unfold split: if_splits)
  have "ctx_ok c" using C by blast
  then have ok: "ctx_ok ctx" by (simp add: ctx ctx_ok_def)
  have ps: "cli_pairs ctx = take 64 (parsed (take (nat n) options) results)" "config_pairs_of ctx = []"
    "cx_options ctx = options" "cx_option_count ctx = nat n"
    using C ctx zero(2) by (simp_all add: zero_context_def)
  have loop: "config_loop dk dv content ctx = (ERR_OK, ctx')"
    using assms(2,3) by (auto simp: cli_load_config_def split: prod.splits if_splits)
  from config_loop_spec [OF ok loop] have L: "ctx_ok ctx'" "cx_options ctx' = options"
    "cx_option_count ctx' = nat n" "cli_pairs ctx' = take 64 (parsed (take (nat n) options) results)"
    "config_pairs_of ctx' = take 128 (List.map_filter (\<lambda>x. x) file_settings)"
    using ps config_pairs_lines [OF assms(5,6)] by (auto simp: min_def)
  show ?thesis by (simp only: cli_resolve_spec [OF L(1)] L)
qed

text \<open>
  Writing settings one per line as \<open>key=value\<close>, among comments and blank lines, and
  loading the file gives back exactly those settings in order, when keys and values carry no
  outer white space and no line exceeds 1023 characters.
\<close>

theorem cli_config_roundtrip:
  assumes "\<And>i. i \<in> set items \<Longrightarrow> item_ok i \<and> length (render_item i) \<le> 1023"
    and "ctx_ok ctx" and "cx_config_count ctx = 0" and "length (settings items) \<le> 128"
    and "files path = Some (render items)"
  shows "\<exists>ctx'. cli_load_config files (\<lambda>_. True) (\<lambda>_. True) True (Some path) (Some ctx) = (ERR_OK, Some ctx')
       \<and> config_pairs_of ctx' = settings items \<and> ctx_ok ctx'"
proof -
  obtain err ctx' where loop: "config_loop (\<lambda>_. True) (\<lambda>_. True) (render items) ctx = (err, ctx')" by fastforce
  note S = config_loop_spec [OF assms(2) loop]
  have ps: "config_pairs (render items) = settings items" by (rule config_pairs_render [OF assms(1)])
  have e: "err = ERR_OK" using S by auto
  have "config_pairs_of ctx = []" using assms(3) by (simp add: pairs_def)
  then have "config_pairs_of ctx' = take 128 (settings items)" using S e ps by (auto simp: min_def)
  also have "\<dots> = settings items" using assms(4) by (intro take_all)
  finally have "config_pairs_of ctx' = settings items" .
  moreover have "cli_load_config files (\<lambda>_. True) (\<lambda>_. True) True (Some path) (Some ctx) = (ERR_OK, Some ctx')"
    using assms(5) loop e by (simp add: cli_load_config_def)
  ultimately show ?thesis using S by blast
qed

theorem cli_config_roundtrip_witness:
  "\<exists>ctx'. cli_load_config [''app.conf'' \<mapsto> render [Comment '' x'', Setting ''port'' ''80'', Blank '' '']]
        (\<lambda>_. True) (\<lambda>_. True) True (Some ''app.conf'') (Some zero_context) = (ERR_OK, Some ctx')
     \<and> config_pairs_of ctx' = [(''port'', ''80'')]"
proof -
  let ?items = "[Comment '' x'', Setting ''port'' ''80'', Blank '' '']"
  have "\<And>i. i \<in> set ?items \<Longrightarrow> item_ok i \<and> length (render_item i) \<le> 1023"
    by (auto simp: clean_def trim_def is_space_def)
  moreover have "ctx_ok zero_context" using zero_context_ok [where options = "[]" and n = 0] by (simp add: zero_context_def)
  moreover have "cx_config_count zero_context = 0" by (simp add: zero_context_def)
  moreover have "length (settings ?items) \<le> 128" by simp
  moreover have "[''app.conf'' \<mapsto> render ?items] ''app.conf'' = Some (render ?items)" by simp
  ultimately show ?thesis
    using cli_config_roundtrip [of ?items zero_context "[''app.conf'' \<mapsto> render ?items]" "''app.conf''"]
    by (metis settings.simps(1,2,3,4))
qed


text \<open>The environment wins over a file with a comment, the setting with white space, and an empty last line.\<close>

theorem cli_resolve_precedence_witness:
  "cli_resolve [''PORT'' \<mapsto> ''81'']
     (snd (cli_load_config [''f'' \<mapsto> ''# a=b'' @ NEWLINE # '' port = 82'' @ [NEWLINE]] (\<lambda>_. True) (\<lambda>_. True) True (Some ''f'')
       (snd (the (cli_parse (\<lambda>_ _ _ _. ([], 1)) 1 (Some [Some ''prog''])
          (Some [\<lparr>op_long_name = ''port'', op_short_name = NUL, op_arg_req = 1, op_description = None,
                  op_env_var = Some ''PORT'', op_default_val = Some ''80''\<rparr>]) 1 (Some zero_context))))))
     (Some ''port'') = Some (Some ''81'')"
proof -
  let ?go = "\<lambda>_ _ _ _. ([], 1) :: (int \<times> string option) list \<times> int"
  let ?o = "\<lparr>op_long_name = ''port'', op_short_name = NUL, op_arg_req = 1, op_description = None,
             op_env_var = Some ''PORT'', op_default_val = Some ''80''\<rparr>"
  let ?p = "cli_parse ?go 1 (Some [Some ''prog'']) (Some [?o]) 1 (Some zero_context)"
  let ?text = "''# a=b'' @ NEWLINE # '' port = 82'' @ [NEWLINE]"
  define ctx where "ctx = zero_context\<lparr>cx_options := [?o], cx_option_count := 1,
      cx_rest_argc := 0, cx_rest_argv := []\<rparr>"
  have p: "?p = Some (ERR_OK, Some ctx)"
    by (simp add: cli_parse_def Let_def option_val_def short_spec_def ctx_def zero_context_def)
  have ok: "ctx_ok ctx" by (simp add: ctx_def zero_context_def ctx_ok_def entries_ok_def)
  obtain err ctx' where cl: "config_loop (\<lambda>_. True) (\<lambda>_. True) ?text ctx = (err, ctx')" by fastforce
  then have "err = ERR_OK" using config_loop_spec [OF ok cl] by auto
  then have l: "cli_load_config [''f'' \<mapsto> ?text] (\<lambda>_. True) (\<lambda>_. True) True (Some ''f'') (Some ctx)
      = (ERR_OK, Some ctx')" using cl by (simp add: cli_load_config_def)
  have ls: "split_lines ?text = [''# a=b'', '' port = 82'', '''']" by simp
  have "line_setting ('' '' @ ''port'' @ '' '' @ CHR ''='' # '' '' @ ''82'' @ '''') (Some (''port'', ''82''))"
    by (rule line_key_value) (simp_all add: blanks_def tidy_def is_space_def)
  moreover have "line_setting ('''' @ CHR ''#'' # '' a=b'') None" by (rule line_comment) (simp add: blanks_def)
  moreover have "line_setting '''' None" by (rule line_no_equals) simp
  ultimately have "list_all2 line_setting (split_lines ?text) [None, Some (''port'', ''82''), None]"
    unfolding ls by simp
  moreover have "\<forall>l \<in> set (split_lines ?text). length l \<le> 1022 \<and> NUL \<notin> set l" unfolding ls by simp
  ultimately show ?thesis
    using cli_resolve_precedence [OF p l, of ?text "[]" 1 "[None, Some (''port'', ''82''), None]" "[''PORT'' \<mapsto> ''81'']" "''port''"] p l
    by (simp add: parsed_def)
qed

text \<open>
  A line longer than the buffer is read in pieces: the tail of a long comment becomes a
  setting. An environment variable that is set but empty turns a flag on.
\<close>

lemma long_comment_makes_setting:
  "config_pairs (CHR ''#'' # replicate 1022 CHR ''x'' @ ''a=b'') = [(''a'', ''b'')]"
proof -
  have "fgets_take (Suc n) (CHR ''#'' # replicate n CHR ''x'' @ s) = (CHR ''#'' # replicate n CHR ''x'', s)" for n s
  proof -
    have "fgets_take n (replicate n CHR ''x'' @ s) = (replicate n CHR ''x'', s)" by (induction n) auto
    then show ?thesis by simp
  qed
  from this [of 1022 "''a=b''"] have f: "fgets_take 1023 (CHR ''#'' # replicate 1022 CHR ''x'' @ ''a=b'')
      = (CHR ''#'' # replicate 1022 CHR ''x'', ''a=b'')" by (simp only: Suc_numeral) simp
  have nul: "takeWhile (\<lambda>c. c \<noteq> NUL) (CHR ''#'' # replicate n CHR ''x'') = CHR ''#'' # replicate n CHR ''x''" for n
    by (subst takeWhile_eq_all_conv) auto
  obtain t where "trim (CHR ''#'' # replicate 1022 CHR ''x'') = CHR ''#'' # t" using trim_hash by blast
  then have none: "config_line (CHR ''#'' # replicate 1022 CHR ''x'') = None"
    by (intro config_line_hash) (simp only: nul)
  have "fgets_take 1023 ''a=b'' = (''a=b'', '''')" by (rule fgets_take_last) simp_all
  then have "config_pairs ''a=b'' = [(''a'', ''b'')]"
    by (simp add: config_pairs.simps config_line_def trim_def is_space_def)
  then show ?thesis using f none by (subst config_pairs.simps) simp
qed

lemma empty_environment_sets_flag:
  assumes "ctx_ok ctx" and "last_setting (cli_pairs ctx) name = None"
    and "find_option (take (cx_option_count ctx) (cx_options ctx)) name = Some opt"
    and "op_env_var opt = Some var" and "env var = Some ''''"
  shows "cli_flag env (Some ctx) (Some name) = Some True"
  using assms by (simp add: cli_flag_def cli_resolve_spec Let_def)

end
