(* ===== verification/CliOutput.thy ===== *)
theory CliOutput
  imports CLib "HOL-Library.Signed_Division"
begin

text \<open>
  Terminal output of \<open>src/cli/output.c\<close>: color wrapping, tables and the progress bar. A stream is
  what is written to it: every function returns its text. \<open>int\<close> arithmetic that overflows is
  undefined (\<open>None\<close>).
\<close>

section \<open>Colors\<close>

definition CLR_RESET :: string where
  "CLR_RESET = CHR 0x1B # ''[0m''"

definition cli_colors_enabled :: "(string \<rightharpoonup> string) \<Rightarrow> bool \<Rightarrow> bool" where
  "cli_colors_enabled env tty = (if env ''NO_COLOR'' \<noteq> None then False else tty)"

definition cli_color_fprintf :: "(string \<rightharpoonup> string) \<Rightarrow> bool \<Rightarrow> string \<Rightarrow> string \<Rightarrow> string" where
  "cli_color_fprintf env tty color formatted =
     (let use_color = cli_colors_enabled env tty
      in (if use_color then color else '''') @ formatted @ (if use_color then CLR_RESET else ''''))"

section \<open>Tables\<close>

abbreviation CLI_TABLE_MAX_COLS :: int where "CLI_TABLE_MAX_COLS \<equiv> 16"

record cli_table =
  tb_num_cols :: int
  tb_widths :: "int list"
  tb_headers :: "string list"

text \<open>The loop of \<open>cli_table_init\<close>; reading beyond the caller's arrays is undefined.\<close>

primrec init_loop :: "nat \<Rightarrow> nat \<Rightarrow> int list \<Rightarrow> string option list \<Rightarrow> cli_table \<Rightarrow> cli_table ub" where
  "init_loop 0 i widths headers t = Some t"
| "init_loop (Suc m) i widths headers t =
     (if i \<ge> length widths \<or> i \<ge> length headers then None
      else init_loop m (Suc i) widths headers
        (t\<lparr>tb_widths := (tb_widths t)[i := widths ! i],
           tb_headers := (tb_headers t)[i :=
             take 63 (case headers ! i of Some h \<Rightarrow> h | None \<Rightarrow> '''')]\<rparr>))"

definition cli_table_init :: "int \<Rightarrow> int list \<Rightarrow> string option list \<Rightarrow> cli_table ub" where
  "cli_table_init num_cols widths headers =
     (let n = (if num_cols > CLI_TABLE_MAX_COLS then CLI_TABLE_MAX_COLS else num_cols)
      in init_loop (nat n) 0 widths headers
           \<lparr>tb_num_cols = n, tb_widths = replicate 16 0, tb_headers = replicate 16 ''''\<rparr>)"

text \<open>\<open>%-*s\<close>: padded on the right; a negative width is a left-justified one.\<close>

definition pad_cell :: "int \<Rightarrow> string \<Rightarrow> string" where
  "pad_cell w s = s @ replicate (nat \<bar>w\<bar> - length s) CHR '' ''"

primrec separator_loop :: "nat \<Rightarrow> nat \<Rightarrow> int list \<Rightarrow> string" where
  "separator_loop 0 i widths = ''''"
| "separator_loop (Suc m) i widths =
     (if i > 0 then ''-+-'' else '''') @ replicate (nat (widths ! i)) CHR ''-'' @ separator_loop m (Suc i) widths"

definition cli_table_separator :: "cli_table \<Rightarrow> string" where
  "cli_table_separator t = separator_loop (nat (tb_num_cols t)) 0 (tb_widths t) @ [CHR 0x0A]"

text \<open>The cells of a header or a row.\<close>

primrec cells_loop :: "nat \<Rightarrow> nat \<Rightarrow> int list \<Rightarrow> string list \<Rightarrow> string" where
  "cells_loop 0 i widths cells = ''''"
| "cells_loop (Suc m) i widths cells =
     (if i > 0 then '' | '' else '''') @ pad_cell (widths ! i) (cells ! i) @ cells_loop m (Suc i) widths cells"

definition cli_table_header :: "cli_table \<Rightarrow> string" where
  "cli_table_header t =
     cells_loop (nat (tb_num_cols t)) 0 (tb_widths t) (tb_headers t) @ [CHR 0x0A] @ cli_table_separator t"

definition cli_table_row :: "cli_table \<Rightarrow> string option list \<Rightarrow> string ub" where
  "cli_table_row t vals =
     (if length vals < nat (tb_num_cols t) then None
      else Some (cells_loop (nat (tb_num_cols t)) 0 (tb_widths t)
                   (map (\<lambda>v. case v of Some s \<Rightarrow> s | None \<Rightarrow> '''') vals) @ [CHR 0x0A]))"

section \<open>The progress bar\<close>

abbreviation INT_MAX :: int where "INT_MAX \<equiv> 2147483647"
abbreviation INT_MIN :: int where "INT_MIN \<equiv> - 2147483648"

text \<open>An \<open>int\<close> product, undefined when it does not fit.\<close>

definition int_mult :: "int \<Rightarrow> int \<Rightarrow> int ub" where
  "int_mult a b = (if INT_MIN \<le> a * b \<and> a * b \<le> INT_MAX then Some (a * b) else None)"

text \<open>The loop from column \<open>i\<close>, with \<open>m\<close> columns to go.\<close>

primrec bar_loop :: "nat \<Rightarrow> int \<Rightarrow> int \<Rightarrow> string" where
  "bar_loop 0 i filled = ''''"
| "bar_loop (Suc m) i filled =
     (if i < filled then CHR ''='' else if i = filled then CHR ''>'' else CHR '' '') # bar_loop m (i + 1) filled"

definition cli_progress :: "int \<Rightarrow> int \<Rightarrow> int \<Rightarrow> string ub" where
  "cli_progress current tot width =
     (if tot \<le> 0 then Some ''''
      else do { p \<leftarrow> int_mult current 100;
                let pct = p sdiv tot;
                let pct = (if pct > 100 then 100 else pct);
                f \<leftarrow> int_mult pct width;
                let filled = f sdiv 100;
                let num = int_text pct;
                Some ([CHR 0x0D, CHR ''[''] @ bar_loop (nat width) 0 filled @ ''] ''
                  @ replicate (3 - length num) CHR '' '' @ num @ ''%'') })"

definition cli_progress_done :: string where
  "cli_progress_done = [CHR 0x0A]"

section \<open>Alignment\<close>

lemma init_loop_spec:
  assumes "i + m \<le> length widths" and "i + m \<le> length headers" and "i + m \<le> 16"
    and "length (tb_widths t) = 16" and "length (tb_headers t) = 16"
  shows "\<exists>t'. init_loop m i widths headers t = Some t' \<and> tb_num_cols t' = tb_num_cols t
       \<and> length (tb_widths t') = 16 \<and> length (tb_headers t') = 16
       \<and> (\<forall>j. i \<le> j \<and> j < i + m \<longrightarrow> tb_widths t' ! j = widths ! j
            \<and> tb_headers t' ! j = take 63 (case headers ! j of Some h \<Rightarrow> h | None \<Rightarrow> ''''))
       \<and> (\<forall>j < i. tb_widths t' ! j = tb_widths t ! j \<and> tb_headers t' ! j = tb_headers t ! j)"
  using assms
proof (induction m arbitrary: i t)
  case (Suc m)
  let ?t = "t\<lparr>tb_widths := (tb_widths t)[i := widths ! i],
      tb_headers := (tb_headers t)[i := take 63 (case headers ! i of Some h \<Rightarrow> h | None \<Rightarrow> '''')]\<rparr>"
  obtain t' where t': "init_loop m (Suc i) widths headers ?t = Some t'" "tb_num_cols t' = tb_num_cols t"
    "length (tb_widths t') = 16" "length (tb_headers t') = 16"
    "\<forall>j. Suc i \<le> j \<and> j < Suc i + m \<longrightarrow> tb_widths t' ! j = widths ! j
            \<and> tb_headers t' ! j = take 63 (case headers ! j of Some h \<Rightarrow> h | None \<Rightarrow> '''')"
    "\<forall>j < Suc i. tb_widths t' ! j = tb_widths ?t ! j \<and> tb_headers t' ! j = tb_headers ?t ! j"
    using Suc.IH [of "Suc i" ?t] Suc.prems by auto
  have "tb_widths t' ! i = widths ! i" "tb_headers t' ! i = take 63 (case headers ! i of Some h \<Rightarrow> h | None \<Rightarrow> '''')"
    using t'(6) Suc.prems by simp_all
  then have "\<forall>j. i \<le> j \<and> j < i + Suc m \<longrightarrow> tb_widths t' ! j = widths ! j
            \<and> tb_headers t' ! j = take 63 (case headers ! j of Some h \<Rightarrow> h | None \<Rightarrow> '''')"
    using t'(5) by (metis Suc_leI add_Suc add_Suc_right le_eq_less_or_eq)
  moreover have "\<forall>j < i. tb_widths t' ! j = tb_widths t ! j \<and> tb_headers t' ! j = tb_headers t ! j"
    using t'(6) by simp
  moreover have "init_loop (Suc m) i widths headers t = Some t'" using t'(1) Suc.prems by simp
  ultimately show ?case using t'(2-4) by blast
qed auto

text \<open>The width of a line of \<open>m\<close> columns from \<open>i\<close>.\<close>

definition line_width :: "nat \<Rightarrow> nat \<Rightarrow> int list \<Rightarrow> nat" where
  "line_width i m widths = (\<Sum>j = i ..< i + m. nat (widths ! j) + (if j > 0 then 3 else 0))"

lemma line_width_Suc:
  "line_width i (Suc m) widths = (if i > 0 then 3 else 0) + nat (widths ! i) + line_width (Suc i) m widths"
  unfolding line_width_def by (subst sum.atLeast_Suc_lessThan) auto

lemma separator_width: "length (separator_loop m i widths) = line_width i m widths"
proof (induction m arbitrary: i)
  case (Suc m)
  then show ?case by (simp add: line_width_Suc)
qed (simp add: line_width_def)

lemma cells_width:
  "(\<And>j. i \<le> j \<Longrightarrow> j < i + m \<Longrightarrow> int (length (cells ! j)) \<le> widths ! j) \<Longrightarrow>
   length (cells_loop m i widths cells) = line_width i m widths"
proof (induction m arbitrary: i)
  case (Suc m)
  have "int (length (cells ! i)) \<le> widths ! i" using Suc.prems [of i] by simp
  then have "length (pad_cell (widths ! i) (cells ! i)) = nat (widths ! i)" by (simp add: pad_cell_def)
  moreover have "length (cells_loop m (Suc i) widths cells) = line_width (Suc i) m widths"
    by (rule Suc.IH) (use Suc.prems in auto)
  ultimately show ?case by (simp add: line_width_Suc)
qed (simp add: line_width_def)

section \<open>Properties\<close>

text \<open>
  A table stays aligned: with up to 16 columns whose headers and values fit their widths,
  the header line, the separator and every row have the same length, the sum of the widths and
  of the separators; more than 16 columns are cut, longer headers truncated to 63 characters,
  and no array is read or written outside.
\<close>

theorem cli_table_aligned:
  assumes "0 \<le> n" and "length widths = nat n" and "length headers = nat n" and "length vals = nat n"
    and "\<And>j. j < nat n \<Longrightarrow> length (case headers ! j of Some h \<Rightarrow> h | None \<Rightarrow> '''') \<le> nat (widths ! j)
           \<and> length (case vals ! j of Some v \<Rightarrow> v | None \<Rightarrow> '''') \<le> nat (widths ! j) \<and> 0 \<le> widths ! j"
  shows "\<exists>t head row. cli_table_init n widths headers = Some t \<and> tb_num_cols t = min n 16
       \<and> cli_table_header t = head @ [CHR 0x0A] @ cli_table_separator t
       \<and> cli_table_row t vals = Some row
       \<and> length row = length (cli_table_separator t) \<and> length head + 1 = length (cli_table_separator t)
       \<and> length row = line_width 0 (nat (min n 16)) widths + 1"
proof -
  define k where "k = nat (min n 16)"
  have k: "k \<le> nat n" "k \<le> 16" by (auto simp: k_def)
  have kn: "nat (if n > 16 then 16 else n) = k" "(if n > 16 then 16 else n) = min n 16" by (auto simp: k_def)
  obtain t where t: "cli_table_init n widths headers = Some t" "tb_num_cols t = min n 16"
    "\<forall>j < k. tb_widths t ! j = widths ! j \<and> tb_headers t ! j = take 63 (case headers ! j of Some h \<Rightarrow> h | None \<Rightarrow> '''')"
    using init_loop_spec [of 0 k widths headers "\<lparr>tb_num_cols = min n 16, tb_widths = replicate 16 0, tb_headers = replicate 16 ''''\<rparr>"]
      k assms(2,3) kn by (auto simp: cli_table_init_def Let_def)
  let ?vs = "map (\<lambda>v. case v of Some s \<Rightarrow> s | None \<Rightarrow> '''') vals"
  have lw: "line_width 0 k (tb_widths t) = line_width 0 k widths"
    unfolding line_width_def using t(3) by (intro sum.cong) auto
  have cols: "nat (tb_num_cols t) = k" using t(2) by (simp add: k_def)
  have h: "length (cells_loop k 0 (tb_widths t) (tb_headers t)) = line_width 0 k (tb_widths t)"
  proof (rule cells_width)
    fix j assume "j < 0 + k"
    then have "j < k" "j < nat n" using k by auto
    then show "int (length (tb_headers t ! j)) \<le> tb_widths t ! j" using assms(5) [of j] t(3) by auto
  qed
  have v: "length (cells_loop k 0 (tb_widths t) ?vs) = line_width 0 k (tb_widths t)"
  proof (rule cells_width)
    fix j assume "j < 0 + k"
    then have "j < k" "j < nat n" using k by auto
    then show "int (length (?vs ! j)) \<le> tb_widths t ! j" using assms(4) assms(5) [of j] t(3) by auto
  qed
  have "length (cli_table_separator t) = line_width 0 k widths + 1"
    by (simp add: cli_table_separator_def cols separator_width lw)
  then show ?thesis using t h v lw k assms(4)
    by (intro exI [of _ t] exI [of _ "cells_loop k 0 (tb_widths t) (tb_headers t)"]
        exI [of _ "cells_loop k 0 (tb_widths t) ?vs @ [CHR 0x0A]"])
       (simp add: cli_table_header_def cli_table_row_def cols k_def [symmetric])
qed

theorem cli_table_aligned_witness:
  "\<exists>t head row. cli_table_init 2 [5, 8] [Some ''name'', None] = Some t
     \<and> cli_table_row t [Some ''ab'', Some ''cd''] = Some row
     \<and> cli_table_header t = head @ [CHR 0x0A] @ cli_table_separator t \<and> length row = length (cli_table_separator t)"
proof -
  have P: "\<And>j. j < nat 2 \<Longrightarrow> length (case [Some ''name'', None] ! j of Some h \<Rightarrow> h | None \<Rightarrow> '''') \<le> nat ([5, 8 :: int] ! j)
           \<and> length (case [Some ''ab'', Some ''cd''] ! j of Some v \<Rightarrow> v | None \<Rightarrow> '''') \<le> nat ([5, 8 :: int] ! j)
           \<and> 0 \<le> [5, 8 :: int] ! j"
    by (auto simp: less_Suc_eq numeral_2_eq_2)
  show ?thesis
    using cli_table_aligned [where n = 2 and widths = "[5, 8]" and headers = "[Some ''name'', None]"
        and vals = "[Some ''ab'', Some ''cd'']", OF _ _ _ _ P] by auto
qed

lemma bar_loop_eq:
  "bar_loop m i f = replicate (min m (nat (f - i))) CHR ''=''
     @ (if i \<le> f \<and> nat (f - i) < m then [CHR ''>''] else [])
     @ replicate (m - (if i \<le> f then nat (f - i) + 1 else 0)) CHR '' ''"
proof (induction m arbitrary: i)
  case (Suc m)
  consider "i < f" | "i = f" | "i > f" by linarith
  then show ?case
  proof cases
    case 1
    define k where "k = nat (f - (i + 1))"
    have k: "nat (f - i) = Suc k" "nat (f - (i + 1)) = k" using 1 by (auto simp: k_def)
    then show ?thesis using Suc.IH [of "i + 1"] 1 by simp
  qed (use Suc.IH [of "i + 1"] in simp_all)
qed simp

text \<open>
  The progress bar: for a total above 0 and inputs whose products fit in \<open>int\<close>, the bar has
  exactly \<open>width\<close> columns; the share of them that is done, \<open>min 100 (current * 100 div total)\<close>
  per cent rounded down, is filled, a tip follows when there is room, and the percentage printed
  never exceeds 100.
\<close>

theorem cli_progress_bar:
  assumes "0 < tot" and "0 \<le> current" and "current * 100 \<le> 2147483647" and "0 \<le> width" and "width \<le> 21474836"
    and "pct = min 100 (current * 100 div tot)" and "filled = nat (pct * width div 100)"
  shows "filled \<le> nat width
    \<and> cli_progress current tot width =
        Some ([CHR 0x0D, CHR ''['']
          @ replicate filled CHR ''='' @ (if filled < nat width then [CHR ''>''] else [])
          @ replicate (nat width - filled - 1) CHR '' '' @ ''] ''
          @ replicate (3 - length (int_text pct)) CHR '' '' @ int_text pct @ ''%'')"
proof -
  have pct: "0 \<le> pct" "pct \<le> 100" using assms by (auto simp: pos_imp_zdiv_nonneg_iff)
  have pw: "0 \<le> pct * width" "pct * width \<le> 100 * width" using pct assms by (auto intro: mult_right_mono)
  have f: "0 \<le> pct * width div 100" "pct * width div 100 \<le> width" using pw by (auto simp: pos_imp_zdiv_nonneg_iff)
  have m1: "int_mult current 100 = Some (current * 100)" using assms by (simp add: int_mult_def)
  have m2: "int_mult pct width = Some (pct * width)" using pw assms(5) by (simp add: int_mult_def)
  have d: "current * 100 sdiv tot = current * 100 div tot" "pct * width sdiv 100 = pct * width div 100"
    using assms(1,2) pw(1) by (auto simp: signed_divide_int_def sgn_if)
  have p: "(if current * 100 div tot > 100 then 100 else current * 100 div tot) = pct" using assms(6) by auto
  have le: "filled \<le> nat width" using f assms(7) by simp
  have "bar_loop (nat width) 0 (pct * width div 100) = replicate filled CHR ''=''
      @ (if filled < nat width then [CHR ''>''] else []) @ replicate (nat width - filled - 1) CHR '' ''"
    using f le assms(7) by (simp add: bar_loop_eq min_absorb2)
  moreover have "cli_progress current tot width = Some ([CHR 0x0D, CHR ''['']
      @ bar_loop (nat width) 0 (pct * width div 100) @ ''] ''
      @ replicate (3 - length (int_text pct)) CHR '' '' @ int_text pct @ ''%'')"
    unfolding cli_progress_def m1 Let_def using assms(1) by (simp only: d p m2 bind.bind_lunit) simp
  ultimately show ?thesis using le by simp
qed

theorem cli_progress_bar_witness:
  "cli_progress 3 4 8 = Some ([CHR 0x0D] @ ''[======> ]  75%'')"
proof -
  have p: "75 = min 100 (3 * 100 div 4 :: int)" "6 = nat (75 * 8 div 100 :: int)" by simp_all
  have n: "int_text 75 = ''75''" by code_simp
  show ?thesis
    using cli_progress_bar [OF _ _ _ _ _ p] n by (simp add: eval_nat_numeral)
qed

text \<open>Beyond that the product overflows before the cap at 100 can apply.\<close>

lemma cli_progress_overflow: "cli_progress 21474837 21474837 40 = None"
  by (simp add: cli_progress_def int_mult_def)

end
