(* ===== verification/Path.thy ===== *)
theory Path
  imports Core
begin

text \<open>
  The lexical path functions of \<open>src/systems/path.c\<close>, over strings as lists of characters, and
  \<open>path_mkdirs\<close> over a file system given by its \<open>mkdir\<close> and \<open>stat\<close>. An output buffer is its
  capacity and the string written into it; \<open>path_normalize\<close> works in place, so its model keeps
  the buffer (the string with its terminator) and is undefined (\<open>None\<close>) outside it.
\<close>

abbreviation SLASH :: char where "SLASH \<equiv> CHR ''/''"
abbreviation END :: char where "END \<equiv> CHR 0x00"

section \<open>Joining and taking apart\<close>

definition path_join ::
  "string option \<Rightarrow> string option \<Rightarrow> bool \<Rightarrow> size_t \<Rightarrow> error_code \<times> string option" where
  "path_join ap bp out cap =
     (case (ap, bp) of
        (Some a, Some b) \<Rightarrow>
          if \<not> out \<or> cap = 0 then (ERR_INVALID_ARG, None)
          else if (b \<noteq> '''' \<and> hd b = SLASH) \<or> a = '''' then
            (if length b + 1 > unat cap then (ERR_OVERFLOW, None) else (ERR_OK, Some b))
          else let alen = length a;
                   need_sep = (if a ! (alen - 1) \<noteq> SLASH then 1 else 0);
                   total = alen + need_sep + length b + 1
               in if total > unat cap then (ERR_OVERFLOW, None)
                  else let s = a @ (if need_sep = 1 then ''/'' else '''') @ b; n = length s
                       in (if n > 0 \<and> n < unat cap then ERR_OK else ERR_OVERFLOW, Some (take (unat cap - 1) s))
      | _ \<Rightarrow> (ERR_INVALID_ARG, None))"

text \<open>\<open>strrchr\<close>: the index of the last occurrence.\<close>

fun strrchr :: "string \<Rightarrow> char \<Rightarrow> nat option" where
  "strrchr [] c = None"
| "strrchr (x # xs) c =
     (case strrchr xs c of Some i \<Rightarrow> Some (Suc i) | None \<Rightarrow> if x = c then Some 0 else None)"

definition path_basename :: "string option \<Rightarrow> string" where
  "path_basename pathp =
     (case pathp of
        None \<Rightarrow> ''''
      | Some path \<Rightarrow> (case strrchr path SLASH of Some i \<Rightarrow> drop (i + 1) path | None \<Rightarrow> path))"

definition path_dirname :: "string option \<Rightarrow> bool \<Rightarrow> size_t \<Rightarrow> error_code \<times> string option" where
  "path_dirname pathp out cap =
     (case pathp of
        None \<Rightarrow> (ERR_INVALID_ARG, None)
      | Some path \<Rightarrow>
          if \<not> out \<or> cap = 0 then (ERR_INVALID_ARG, None)
          else (case strrchr path SLASH of
              None \<Rightarrow> if cap < 2 then (ERR_OVERFLOW, None) else (ERR_OK, Some ''.'')
            | Some i \<Rightarrow>
                let n = (if i = 0 then 1 else i)
                in if n + 1 > unat cap then (ERR_OVERFLOW, None) else (ERR_OK, Some (take n path))))"

definition path_ext :: "string option \<Rightarrow> string" where
  "path_ext pathp =
     (let base = path_basename pathp
      in case strrchr base CHR ''.'' of
           Some i \<Rightarrow> if i \<noteq> 0 then drop i base else ''''
         | None \<Rightarrow> '''')"

section \<open>Normalisation in place\<close>

record norm =
  nm_path :: string
  nm_out :: nat
  nm_comp_start :: "nat list"
  nm_ncomp :: nat
  nm_leading :: nat

function skip_while :: "(char \<Rightarrow> bool) \<Rightarrow> string \<Rightarrow> nat \<Rightarrow> nat \<Rightarrow> nat" where
  "skip_while P path len i = (if i < len \<and> P (path ! i) then skip_while P path len (i + 1) else i)"
  by pat_completeness auto

termination
  by (relation "measure (\<lambda>(_, _, len, i). len - i)") auto

declare skip_while.simps [simp del]

text \<open>\<open>memmove\<close> and a single store inside the buffer.\<close>

definition memmove :: "nat \<Rightarrow> nat \<Rightarrow> nat \<Rightarrow> string \<Rightarrow> string ub" where
  "memmove dst src n p =
     (if src + n \<le> length p \<and> dst + n \<le> length p
      then Some (take dst p @ take n (drop src p) @ drop (dst + n) p) else None)"

definition put_char :: "nat \<Rightarrow> char \<Rightarrow> string \<Rightarrow> string ub" where
  "put_char i c p = (if i < length p then Some (p[i := c]) else None)"

text \<open>One component \<open>path[start..start+clen)\<close>.\<close>

definition norm_component :: "bool \<Rightarrow> nat \<Rightarrow> nat \<Rightarrow> norm \<Rightarrow> (error_code \<times> norm) ub" where
  "norm_component absolute start clen s =
     (if clen = 0 \<or> (clen = 1 \<and> nm_path s ! start = CHR ''.'') then Some (ERR_OK, s)
      else
        let dotdot = (clen = 2 \<and> nm_path s ! start = CHR ''.'' \<and> nm_path s ! (start + 1) = CHR ''.'')
        in if dotdot \<and> nm_ncomp s > nm_leading s then
             Some (ERR_OK, s\<lparr>nm_ncomp := nm_ncomp s - 1, nm_out := nm_comp_start s ! (nm_ncomp s - 1)\<rparr>)
           else if dotdot \<and> absolute then Some (ERR_OK, s)
           else let s = (if dotdot then s\<lparr>nm_leading := nm_leading s + 1\<rparr> else s)
             in if nm_ncomp s \<ge> 64 then Some (ERR_OVERFLOW, s)
                else let s = s\<lparr>nm_comp_start := (nm_comp_start s)[nm_ncomp s := nm_out s],
                               nm_ncomp := nm_ncomp s + 1\<rparr>
                  in do { s \<leftarrow> (if nm_out s > 0 \<or> absolute
                                then map_option (\<lambda>p. s\<lparr>nm_path := p, nm_out := nm_out s + 1\<rparr>)
                                       (put_char (nm_out s) SLASH (nm_path s))
                                else Some s);
                          p \<leftarrow> memmove (nm_out s) start clen (nm_path s);
                          Some (ERR_OK, s\<lparr>nm_path := p, nm_out := nm_out s + clen\<rparr>) })"

lemma skip_while_ge: "i \<le> skip_while P path len i"
proof (induction P path len i rule: skip_while.induct)
  case (1 P path len i)
  then show ?case by (subst skip_while.simps) auto
qed

lemma skip_both_progress:
  "i < len \<Longrightarrow> i < skip_while (\<lambda>c. c \<noteq> x) p len (skip_while (\<lambda>c. c = x) p len i)"
proof (cases "p ! i = x")
  case True
  assume "i < len"
  then have "i + 1 \<le> skip_while (\<lambda>c. c = x) p len i"
    using True skip_while_ge [of "i + 1" "\<lambda>c. c = x" p len] by (subst skip_while.simps) simp
  then show ?thesis using skip_while_ge [of "skip_while (\<lambda>c. c = x) p len i" "\<lambda>c. c \<noteq> x" p len] by linarith
next
  case False
  assume "i < len"
  moreover have "skip_while (\<lambda>c. c = x) p len i = i" using False by (subst skip_while.simps) simp
  ultimately show ?thesis
    using False skip_while_ge [of "i + 1" "\<lambda>c. c \<noteq> x" p len] by (simp add: skip_while.simps [of _ p len i])
qed

function norm_loop :: "bool \<Rightarrow> nat \<Rightarrow> nat \<Rightarrow> norm \<Rightarrow> (error_code \<times> norm) ub" where
  "norm_loop absolute len i s =
     (if i < len then
        let start = skip_while (\<lambda>c. c = SLASH) (nm_path s) len i;
            j = skip_while (\<lambda>c. c \<noteq> SLASH) (nm_path s) len start
        in (case norm_component absolute start (j - start) s of
              Some (ERR_OK, s') \<Rightarrow> norm_loop absolute len j s'
            | r \<Rightarrow> r)
      else Some (ERR_OK, s))"
  by pat_completeness auto

termination
  by (relation "measure (\<lambda>(_, len, i, _). len - i)") (auto intro: diff_less_mono2 skip_both_progress)

declare norm_loop.simps [simp del]

definition path_normalize :: "string option \<Rightarrow> (error_code \<times> string option) ub" where
  "path_normalize pathp =
     (case pathp of
        None \<Rightarrow> Some (ERR_INVALID_ARG, None)
      | Some path \<Rightarrow>
          let absolute = (path \<noteq> '''' \<and> hd path = SLASH); len = length path
          in do { (err, s) \<leftarrow> norm_loop absolute len 0
                      \<lparr>nm_path = path @ [END], nm_out = 0, nm_comp_start = replicate 64 0,
                       nm_ncomp = 0, nm_leading = 0\<rparr>;
                  if err \<noteq> ERR_OK then Some (err, Some (nm_path s))
                  else do {
                    s \<leftarrow> (if nm_out s = 0
                          then map_option (\<lambda>p. s\<lparr>nm_path := p, nm_out := 1\<rparr>)
                                 (put_char 0 (if absolute then SLASH else CHR ''.'') (nm_path s))
                          else Some s);
                    p \<leftarrow> put_char (nm_out s) END (nm_path s);
                    Some (ERR_OK, Some (take (nm_out s) p)) } })"

section \<open>The file system\<close>

datatype mkdir_result = Created | Exists | Failed

text \<open>\<open>stat\<close> answers whether the path exists and, if so, whether it is a directory.\<close>

definition path_exists :: "('fs \<Rightarrow> string \<Rightarrow> bool option) \<Rightarrow> 'fs \<Rightarrow> string option \<Rightarrow> bool" where
  "path_exists stat fs pathp = (case pathp of None \<Rightarrow> False | Some p \<Rightarrow> stat fs p \<noteq> None)"

definition path_is_dir :: "('fs \<Rightarrow> string \<Rightarrow> bool option) \<Rightarrow> 'fs \<Rightarrow> string option \<Rightarrow> bool" where
  "path_is_dir stat fs pathp = (case pathp of None \<Rightarrow> False | Some p \<Rightarrow> stat fs p = Some True)"

text \<open>The loop from \<open>buf + 1\<close>: at each slash the prefix before it is created.\<close>

fun mkdirs_loop ::
  "('fs \<Rightarrow> string \<Rightarrow> mkdir_result \<times> 'fs) \<Rightarrow> string \<Rightarrow> string \<Rightarrow> 'fs \<Rightarrow> bool \<times> 'fs" where
  "mkdirs_loop mkdir pre [] fs = (True, fs)"
| "mkdirs_loop mkdir pre (c # cs) fs =
     (if c \<noteq> SLASH then mkdirs_loop mkdir (pre @ [c]) cs fs
      else (case mkdir fs pre of
              (Failed, fs') \<Rightarrow> (False, fs')
            | (_, fs') \<Rightarrow> mkdirs_loop mkdir (pre @ [c]) cs fs'))"

definition path_mkdirs ::
  "('fs \<Rightarrow> string \<Rightarrow> mkdir_result \<times> 'fs) \<Rightarrow> ('fs \<Rightarrow> string \<Rightarrow> bool option) \<Rightarrow> string option \<Rightarrow> 'fs
    \<Rightarrow> error_code \<times> 'fs" where
  "path_mkdirs mkdir stat pathp fs =
     (case pathp of
        None \<Rightarrow> (ERR_INVALID_ARG, fs)
      | Some path \<Rightarrow>
          if path = '''' then (ERR_INVALID_ARG, fs)
          else if length path + 1 > 1024 then (ERR_OVERFLOW, fs)
          else (case mkdirs_loop mkdir [hd path] (tl path) fs of
              (False, fs1) \<Rightarrow> (ERR_IO, fs1)
            | (True, fs1) \<Rightarrow>
                (case mkdir fs1 path of
                   (Failed, fs2) \<Rightarrow> (ERR_IO, fs2)
                 | (_, fs2) \<Rightarrow> (if path_is_dir stat fs2 (Some path) then ERR_OK else ERR_IO, fs2))))"


section \<open>Components and what they denote\<close>

lemma length_dropWhile_less: "s \<noteq> [] \<Longrightarrow> P (hd s) \<Longrightarrow> length (dropWhile P s) < length s"
  by (cases s) (auto simp: le_imp_less_Suc length_dropWhile_le)

function comps :: "string \<Rightarrow> string list" where
  "comps s =
     (let s1 = dropWhile (\<lambda>c. c = SLASH) s
      in if s1 = [] then []
         else takeWhile (\<lambda>c. c \<noteq> SLASH) s1 # comps (dropWhile (\<lambda>c. c \<noteq> SLASH) s1))"
  by pat_completeness auto

termination
proof (relation "measure length", simp, goal_cases)
  case (1 s s1)
  then have "s1 \<noteq> []" "hd s1 \<noteq> SLASH" using hd_dropWhile [of "\<lambda>c. c = SLASH" s] by auto
  from length_dropWhile_less [OF this(1), of "\<lambda>c. c \<noteq> SLASH"] this(2)
  have "length (dropWhile (\<lambda>c. c \<noteq> SLASH) s1) < length s1" by simp
  then show ?case using 1(1) length_dropWhile_le [of "\<lambda>c. c = SLASH" s] by simp
qed

declare comps.simps [simp del]

text \<open>Where a list of components leads, from a directory given by its names.\<close>

definition walk :: "string list \<Rightarrow> string list \<Rightarrow> string list" where
  "walk dir cs = foldl (\<lambda>d c. if c = ''.'' then d else if c = ''..'' then butlast d else d @ [c]) dir cs"

text \<open>The stack of components the code keeps, with the number of leading \<open>..\<close>.\<close>

fun norm_fold :: "bool \<Rightarrow> string list \<Rightarrow> nat \<Rightarrow> string list \<Rightarrow> (string list \<times> nat) option" where
  "norm_fold absolute stk lead [] = Some (stk, lead)"
| "norm_fold absolute stk lead (c # cs) =
     (if c = ''.'' then norm_fold absolute stk lead cs
      else if c = ''..'' \<and> lead < length stk then norm_fold absolute (butlast stk) lead cs
      else if c = ''..'' \<and> absolute then norm_fold absolute stk lead cs
      else if length stk \<ge> 64 then None
      else norm_fold absolute (stk @ [c]) (if c = ''..'' then lead + 1 else lead) cs)"

definition add_comp :: "bool \<Rightarrow> string \<Rightarrow> string \<Rightarrow> string" where
  "add_comp absolute r c = r @ (if r \<noteq> [] \<or> absolute then [SLASH] else []) @ c"

definition render :: "bool \<Rightarrow> string list \<Rightarrow> string" where
  "render absolute stk = foldl (add_comp absolute) [] stk"

lemma render_simps [simp]: "render absolute [] = []"
  "render absolute (stk @ [c]) = add_comp absolute (render absolute stk) c"
  by (simp_all add: render_def)

lemma render_append: "\<exists>r. render absolute (xs @ ys) = render absolute xs @ r"
proof (induction ys rule: rev_induct)
  case (snoc y ys)
  have "render absolute (xs @ ys @ [y]) = add_comp absolute (render absolute (xs @ ys)) y"
    by (simp only: append_assoc [symmetric] render_simps)
  then show ?case using snoc by (auto simp: add_comp_def)
qed simp

section \<open>The loop and the stack\<close>

lemma skip_while_spec:
  "len \<le> length p \<Longrightarrow> i \<le> len \<Longrightarrow>
   skip_while P p len i = i + length (takeWhile P (take (len - i) (drop i p)))"
proof (induction P p len i rule: skip_while.induct)
  case (1 P p len i)
  show ?case
  proof (cases "i < len")
    case False
    then show ?thesis using 1 by (subst skip_while.simps) simp
  next
    case True
    have "drop i p = p ! i # drop (i + 1) p" using Cons_nth_drop_Suc [of i p] 1 True by simp
    moreover have "len - i = Suc (len - (i + 1))" using True by simp
    ultimately have hd: "take (len - i) (drop i p) = p ! i # take (len - (i + 1)) (drop (i + 1) p)"
      by (simp only: take_Suc_Cons)
    show ?thesis
    proof (cases "P (p ! i)")
      case False
      then show ?thesis unfolding hd by (subst skip_while.simps) simp
    next
      case P: True
      have "skip_while P p len i = skip_while P p len (i + 1)"
        using True P by (subst skip_while.simps) simp
      then show ?thesis unfolding hd using 1 True P by simp
    qed
  qed
qed

definition norm_inv :: "bool \<Rightarrow> string \<Rightarrow> nat \<Rightarrow> norm \<Rightarrow> string list \<Rightarrow> nat \<Rightarrow> bool" where
  "norm_inv absolute orig i s stk lead \<longleftrightarrow>
     length (nm_path s) = length orig + 1 \<and> drop i (nm_path s) = drop i orig @ [END]
     \<and> i \<le> length orig \<and> nm_out s \<le> i
     \<and> take (nm_out s) (nm_path s) = render absolute stk \<and> nm_out s = length (render absolute stk)
     \<and> nm_ncomp s = length stk \<and> nm_leading s = lead \<and> length (nm_comp_start s) = 64 \<and> length stk \<le> 64
     \<and> (\<forall>k < length stk. nm_comp_start s ! k = length (render absolute (take k stk)))"

lemma norm_inv_later:
  "norm_inv absolute orig i s stk lead \<Longrightarrow> i \<le> j \<Longrightarrow> j \<le> length orig \<Longrightarrow> norm_inv absolute orig j s stk lead"
proof -
  assume a: "norm_inv absolute orig i s stk lead" "i \<le> j" "j \<le> length orig"
  have "drop j (nm_path s) = drop (j - i) (drop i (nm_path s))" using a(2) by simp
  also have "\<dots> = drop j orig @ [END]" using a by (simp add: norm_inv_def)
  finally show ?thesis using a order_trans [of "nm_out s" i j] unfolding norm_inv_def by blast
qed

lemma memmove_part:
  assumes "memmove dst src n p = Some q" and "dst \<le> src"
  shows "length q = length p \<and> take (dst + n) q = take dst p @ take n (drop src p)
       \<and> drop (src + n) q = drop (src + n) p"
proof -
  have q: "q = take dst p @ take n (drop src p) @ drop (dst + n) p" "src + n \<le> length p" "dst + n \<le> length p"
    using assms by (auto simp: memmove_def split: if_splits)
  then show ?thesis using assms(2) by auto
qed


lemma norm_component_step:
  assumes "norm_inv absolute orig start s stk lead" and "0 < clen" and "start + clen \<le> length orig"
    and "c = take clen (drop start orig)"
    and "render absolute stk \<noteq> [] \<or> absolute \<Longrightarrow> nm_out s < start"
  shows "(case norm_fold absolute stk lead [c] of
            None \<Rightarrow> \<exists>s'. norm_component absolute start clen s = Some (ERR_OVERFLOW, s')
          | Some (stk', lead') \<Rightarrow>
              \<exists>s'. norm_component absolute start clen s = Some (ERR_OK, s')
                 \<and> norm_inv absolute orig (start + clen) s' stk' lead')"
proof -
  note I = assms(1) [unfolded norm_inv_def]
  have pre: "take (length (render absolute stk)) (nm_path s) = render absolute stk" using I by metis
  have at: "nm_path s ! (start + k) = c ! k" if "k < clen" for k
  proof -
    have "nm_path s ! (start + k) = drop start (nm_path s) ! k"
      by (rule nth_drop [symmetric]) (use I in simp)
    also have "\<dots> = (drop start orig @ [END]) ! k" using I by simp
    also have "\<dots> = c ! k" using that assms(3,4) by (auto simp: nth_append)
    finally show ?thesis .
  qed
  have lc: "length c = clen" using assms(3,4) by simp
  have dot: "(clen = 1 \<and> nm_path s ! start = CHR ''.'') \<longleftrightarrow> c = ''.''"
    using at [of 0] lc by (cases c) auto
  have dd: "(clen = 2 \<and> nm_path s ! start = CHR ''.'' \<and> nm_path s ! (start + 1) = CHR ''.'') \<longleftrightarrow> c = ''..''"
  proof (cases "clen = 2")
    case True
    then obtain x y where "c = [x, y]" using lc by (auto simp: numeral_2_eq_2 length_Suc_conv)
    then show ?thesis using at [of 0] at [of 1] True by auto
  next
    case False
    then show ?thesis using lc by auto
  qed
  have later: "norm_inv absolute orig (start + clen) s stk lead"
    by (rule norm_inv_later [OF assms(1)]) (use assms(3) in auto)
  consider (skip) "c = ''.''" | (pop) "c = ''..''" "lead < length stk"
    | (root) "c = ''..''" "\<not> lead < length stk" "absolute"
    | (full) "c \<noteq> ''.''" "c = ''..'' \<longrightarrow> \<not> lead < length stk \<and> \<not> absolute" "length stk \<ge> 64"
    | (push) "c \<noteq> ''.''" "c = ''..'' \<longrightarrow> \<not> lead < length stk \<and> \<not> absolute" "length stk < 64"
    by linarith
  then show ?thesis
  proof cases
    case skip
    then show ?thesis using later dot by (simp add: norm_component_def)
  next
    case pop
    then have n: "length stk - 1 < length stk" "stk \<noteq> []" by auto
    let ?s = "s\<lparr>nm_ncomp := nm_ncomp s - 1, nm_out := nm_comp_start s ! (nm_ncomp s - 1)\<rparr>"
    have "norm_component absolute start clen s = Some (ERR_OK, ?s)"
      using pop dot dd assms(2) I by (simp add: norm_component_def Let_def)
    moreover have "norm_inv absolute orig (start + clen) ?s (butlast stk) lead"
    proof -
      have b: "take (length stk - 1) stk = butlast stk" by (simp add: butlast_conv_take)
      obtain r where r: "render absolute stk = render absolute (butlast stk) @ r"
        using render_append [of absolute "butlast stk" "[last stk]"] n(2) by auto
      have o: "nm_out ?s = length (render absolute (butlast stk))" using I n b by auto
      have whole: "take (nm_out s) (nm_path s) = render absolute (butlast stk) @ r" using I unfolding r by blast
      have le1: "nm_out ?s \<le> nm_out s" using o r I by auto
      have "take (nm_out ?s) (nm_path s) = take (nm_out ?s) (take (nm_out s) (nm_path s))"
        using le1 by (simp only: take_take min_absorb1)
      also have "\<dots> = render absolute (butlast stk)" unfolding whole o by simp
      finally have t: "take (nm_out ?s) (nm_path ?s) = render absolute (butlast stk)" by simp
      have le: "nm_out ?s \<le> start + clen" using o r I by simp
      have tk: "take k (butlast stk) = take k stk" if "k \<le> length stk - 1" for k
        using that by (simp add: butlast_conv_take min_def)
      show ?thesis
        using later t le o tk I n unfolding norm_inv_def by auto
    qed
    ultimately show ?thesis using pop by auto
  next
    case root
    then show ?thesis using later dot dd assms(2) I by (simp add: norm_component_def Let_def)
  next
    case full
    then show ?thesis using dot dd assms(2) I by (auto simp: norm_component_def Let_def)
  next
    case push
    let ?r = "render absolute stk"
    let ?s1 = "s\<lparr>nm_leading := (if c = ''..'' then lead + 1 else lead),
        nm_comp_start := (nm_comp_start s)[length stk := nm_out s], nm_ncomp := length stk + 1\<rparr>"
    define sep where "sep = (if ?r \<noteq> [] \<or> absolute then [SLASH] else [])"
    define p1 where "p1 = (if sep = [] then nm_path s else (nm_path s)[nm_out s := SLASH])"
    define o1 where "o1 = nm_out s + length sep"
    have out: "sep \<noteq> [] \<Longrightarrow> nm_out s < start" "o1 \<le> start" "sep \<noteq> [] \<longleftrightarrow> nm_out s > 0 \<or> absolute"
      using assms(5) I by (auto simp: sep_def o1_def split: if_splits)
    have p1: "length p1 = length orig + 1" "take o1 p1 = ?r @ sep" "drop start p1 = drop start (nm_path s)"
    proof -
      show "length p1 = length orig + 1" using I by (simp add: p1_def)
      show "drop start p1 = drop start (nm_path s)" using out(1) by (simp add: p1_def)
      show "take o1 p1 = ?r @ sep"
      proof (cases "sep = []")
        case True
        then show ?thesis using I pre by (simp add: p1_def o1_def)
      next
        case False
        then have "sep = [SLASH]" by (simp add: sep_def split: if_splits)
        then show ?thesis using I pre out(1) by (simp add: p1_def o1_def take_Suc_conv_app_nth)
      qed
    qed
    obtain q where q: "memmove o1 start clen p1 = Some q"
      using p1(1) out(2) assms(3) by (simp add: memmove_def)
    note Q = memmove_part [OF q out(2)]
    have tq: "take (o1 + clen) q = render absolute (stk @ [c])"
      using Q p1 I assms(3,4) by (simp add: add_comp_def sep_def)
    have dq: "drop (start + clen) q = drop (start + clen) orig @ [END]"
    proof -
      have "drop (start + clen) q = drop clen (drop start p1)" using Q by (simp add: add.commute)
      then show ?thesis using p1(3) I assms(3) by (simp add: add.commute)
    qed
    let ?s' = "?s1\<lparr>nm_path := q, nm_out := o1 + clen\<rparr>"
    have "norm_component absolute start clen s = Some (ERR_OK, ?s')"
    proof -
      have put: "sep \<noteq> [] \<Longrightarrow> put_char (nm_out s) SLASH (nm_path s) = Some p1"
        using out(1) I by (auto simp: put_char_def p1_def)
      have lead: "(if c = ''..'' then s\<lparr>nm_leading := nm_leading s + 1\<rparr> else s)
          = s\<lparr>nm_leading := (if c = ''..'' then lead + 1 else lead)\<rparr>"
        using I by simp
      show ?thesis
      proof (cases "sep = []")
        case True
        then have "nm_out s = 0" "\<not> absolute" "p1 = nm_path s" "o1 = 0" using out(3) by (auto simp: p1_def o1_def)
        then show ?thesis using push dot dd assms(2) I q lead
          by (auto simp: norm_component_def Let_def)
      next
        case False
        then have "sep = [SLASH]" "nm_out s > 0 \<or> absolute" using out(3) by (auto simp: sep_def split: if_splits)
        then show ?thesis using push dot dd assms(2) I q lead put
          by (auto simp: norm_component_def Let_def o1_def)
      qed
    qed
    moreover have "norm_inv absolute orig (start + clen) ?s' (stk @ [c]) (if c = ''..'' then lead + 1 else lead)"
      using tq dq Q p1(1) out(2) I push(3) assms(3) lc
      unfolding norm_inv_def by (auto simp: nth_list_update add_comp_def sep_def o1_def less_Suc_eq)
    ultimately show ?thesis using push by auto
  qed
qed


lemma norm_fold_Cons:
  "norm_fold a stk lead (c # cs)
     = (case norm_fold a stk lead [c] of None \<Rightarrow> None | Some (stk', lead') \<Rightarrow> norm_fold a stk' lead' cs)"
  by simp

lemma skip_both:
  assumes "norm_inv absolute orig i s stk lead"
  defines "start \<equiv> skip_while (\<lambda>c. c = SLASH) (nm_path s) (length orig) i"
  defines "j \<equiv> skip_while (\<lambda>c. c \<noteq> SLASH) (nm_path s) (length orig) start"
  shows "i \<le> start \<and> start \<le> j \<and> j \<le> length orig
       \<and> drop start orig = dropWhile (\<lambda>c. c = SLASH) (drop i orig)
       \<and> take (j - start) (drop start orig) = takeWhile (\<lambda>c. c \<noteq> SLASH) (drop start orig)
       \<and> drop j orig = dropWhile (\<lambda>c. c \<noteq> SLASH) (drop start orig)"
proof -
  note I = assms(1) [unfolded norm_inv_def]
  have il: "i \<le> length orig" using I by blast
  have part: "take (length orig - k) (drop k (nm_path s)) = drop k orig" if "i \<le> k" "k \<le> length orig" for k
  proof -
    have "drop k (nm_path s) = drop (k - i) (drop i (nm_path s))" using that by simp
    also have "\<dots> = drop k orig @ [END]" using I that by simp
    finally show ?thesis using that by simp
  qed
  have s: "start = i + length (takeWhile (\<lambda>c. c = SLASH) (drop i orig))"
    unfolding start_def using I part [of i] by (subst skip_while_spec) auto
  have le: "start \<le> length orig" using s length_takeWhile_le [of "\<lambda>c. c = SLASH" "drop i orig"] il by simp
  have j: "j = start + length (takeWhile (\<lambda>c. c \<noteq> SLASH) (drop start orig))"
    unfolding j_def using I part [of start] le s by (subst skip_while_spec) auto
  have "drop start orig = dropWhile (\<lambda>c. c = SLASH) (drop i orig)"
    unfolding s by (metis add.commute drop_drop dropWhile_eq_drop)
  moreover have "drop j orig = dropWhile (\<lambda>c. c \<noteq> SLASH) (drop start orig)"
    unfolding j by (metis add.commute drop_drop dropWhile_eq_drop)
  moreover have "take (j - start) (drop start orig) = takeWhile (\<lambda>c. c \<noteq> SLASH) (drop start orig)"
    unfolding j by (metis add_diff_cancel_left' takeWhile_eq_take)
  moreover have "j \<le> length orig"
    using j le length_takeWhile_le [of "\<lambda>c. c \<noteq> SLASH" "drop start orig"] by simp
  ultimately show ?thesis using s j by simp
qed

lemma norm_loop_spec:
  assumes "norm_inv absolute orig i s stk lead"
    and "i = 0 \<or> i = length orig \<or> orig ! i = SLASH"
    and "absolute \<longrightarrow> orig \<noteq> [] \<and> orig ! 0 = SLASH"
  shows "(case norm_fold absolute stk lead (comps (drop i orig)) of
            None \<Rightarrow> \<exists>s'. norm_loop absolute (length orig) i s = Some (ERR_OVERFLOW, s')
          | Some (stk', lead') \<Rightarrow>
              \<exists>s'. norm_loop absolute (length orig) i s = Some (ERR_OK, s')
                 \<and> norm_inv absolute orig (length orig) s' stk' lead')"
  using assms(1,2)
proof (induction "length orig - i" arbitrary: i s stk lead rule: less_induct)
  case less
  note I = less.prems(1)
  show ?case
  proof (cases "i < length orig")
    case False
    then have "i = length orig" using I by (simp add: norm_inv_def)
    then show ?thesis using I by (simp add: norm_loop.simps comps.simps)
  next
    case True
    define start where "start = skip_while (\<lambda>c. c = SLASH) (nm_path s) (length orig) i"
    define j where "j = skip_while (\<lambda>c. c \<noteq> SLASH) (nm_path s) (length orig) start"
    note B = skip_both [OF I, folded start_def, folded j_def]
    have ij: "i < j" unfolding j_def start_def by (rule skip_both_progress [OF True])
    have loop: "norm_loop absolute (length orig) i s
        = (case norm_component absolute start (j - start) s of
              Some (ERR_OK, s') \<Rightarrow> norm_loop absolute (length orig) j s' | r \<Rightarrow> r)"
      using True by (subst norm_loop.simps) (simp only: if_True Let_def start_def [symmetric] j_def [symmetric])
    have next_ok: "j = 0 \<or> j = length orig \<or> orig ! j = SLASH"
    proof (cases "j = length orig")
      case False
      then have jl: "j < length orig" using B by auto
      then have "drop j orig \<noteq> []" by simp
      then have "dropWhile (\<lambda>c. c \<noteq> SLASH) (drop start orig) \<noteq> []" using B by metis
      from hd_dropWhile [OF this] have "hd (drop j orig) = SLASH" using B by metis
      then show ?thesis using jl by (simp add: hd_drop_conv_nth)
    qed simp
    have Is: "norm_inv absolute orig start s stk lead" by (rule norm_inv_later [OF I]) (use B in auto)
    show ?thesis
    proof (cases "start < length orig")
      case False
      then have "start = length orig" "j = length orig" using B by auto
      moreover from this have "comps (drop i orig) = []" using B by (subst comps.simps) simp
      moreover have "norm_component absolute (length orig) 0 s = Some (ERR_OK, s)"
        by (simp add: norm_component_def)
      ultimately show ?thesis using loop Is by (simp add: norm_loop.simps)
    next
      case more: True
      have rest: "dropWhile (\<lambda>c. c = SLASH) (drop i orig) \<noteq> []" using B more by (metis drop_eq_Nil not_less)
      let ?c = "takeWhile (\<lambda>c. c \<noteq> SLASH) (drop start orig)"
      have cs: "comps (drop i orig) = ?c # comps (drop j orig)"
        using rest by (subst comps.simps) (simp add: Let_def B)
      have fold: "norm_fold absolute stk lead (comps (drop i orig))
          = (case norm_fold absolute stk lead [?c] of None \<Rightarrow> None
             | Some (stk', lead') \<Rightarrow> norm_fold absolute stk' lead' (comps (drop j orig)))"
        unfolding cs by (rule norm_fold_Cons)
      have "orig ! start \<noteq> SLASH"
        using hd_dropWhile [OF rest] B more hd_drop_conv_nth [OF more] by metis
      then have "?c \<noteq> []" using more by (simp add: Cons_nth_drop_Suc [symmetric])
      then have pos: "0 < j - start" using B by (metis gr0I take_0)
      have out: "nm_out s < start" if "render absolute stk \<noteq> [] \<or> absolute"
      proof (cases "i = 0")
        case True
        then have "nm_out s = 0" "render absolute stk = []" using I by (auto simp: norm_inv_def)
        then have "orig ! 0 = SLASH" using that assms(3) by simp
        then have "start \<noteq> 0" using \<open>orig ! start \<noteq> SLASH\<close> by metis
        then show ?thesis using \<open>nm_out s = 0\<close> by simp
      next
        case False
        then have "orig ! i = SLASH" using less.prems(2) \<open>i < length orig\<close> by auto
        then have "start \<noteq> i" using \<open>orig ! start \<noteq> SLASH\<close> by metis
        then show ?thesis using B I by (simp add: norm_inv_def)
      qed
      have sj: "start + (j - start) = j" using B by simp
      have step: "case norm_fold absolute stk lead [?c] of
            None \<Rightarrow> \<exists>s'. norm_component absolute start (j - start) s = Some (ERR_OVERFLOW, s')
          | Some (stk', lead') \<Rightarrow>
              \<exists>s'. norm_component absolute start (j - start) s = Some (ERR_OK, s')
                 \<and> norm_inv absolute orig (start + (j - start)) s' stk' lead'"
        by (rule norm_component_step [OF Is pos]) (use B out in auto)
      show ?thesis
      proof (cases "norm_fold absolute stk lead [?c]")
        case None
        then show ?thesis using step loop unfolding fold by auto
      next
        case (Some r)
        obtain stk' lead' where r: "r = (stk', lead')" by fastforce
        obtain s' where s': "norm_component absolute start (j - start) s = Some (ERR_OK, s')"
          "norm_inv absolute orig j s' stk' lead'"
          using step Some r sj by auto
        have "length orig - j < length orig - i" using ij True by simp
        note IH = less.hyps [OF this s'(2) next_ok]
        have lj: "norm_loop absolute (length orig) i s = norm_loop absolute (length orig) j s'"
          using loop s'(1) by simp
        from IH show ?thesis
          unfolding fold Some r lj by simp
      qed
    qed
  qed
qed


section \<open>The result\<close>

definition final :: "bool \<Rightarrow> string list \<Rightarrow> string" where
  "final absolute stk = (if stk = [] then (if absolute then ''/'' else ''.'') else render absolute stk)"

abbreviation is_abs :: "string \<Rightarrow> bool" where
  "is_abs p \<equiv> p \<noteq> '''' \<and> hd p = SLASH"

lemma norm_fold_nonempty:
  "norm_fold a stk lead cs = Some (stk', lead') \<Longrightarrow> (\<forall>c \<in> set stk. c \<noteq> []) \<Longrightarrow> (\<forall>c \<in> set cs. c \<noteq> []) \<Longrightarrow>
   (\<forall>c \<in> set stk'. c \<noteq> [])"
proof (induction a stk lead cs rule: norm_fold.induct)
  case (2 a stk lead c cs)
  have "\<forall>c \<in> set (butlast stk). c \<noteq> []" using 2(6) by (auto dest: in_set_butlastD)
  moreover have "\<forall>x \<in> set (stk @ [c]). x \<noteq> []" using 2(6,7) by auto
  moreover have "\<forall>c \<in> set cs. c \<noteq> []" using 2(7) by simp
  ultimately show ?case using 2(1-6) by (simp split: if_split_asm del: set_append)
qed simp

lemma comps_none: "dropWhile (\<lambda>c. c = SLASH) s = [] \<Longrightarrow> comps s = []"
  by (subst comps.simps) simp

lemma comps_Nil [simp]: "comps [] = []"
  by (rule comps_none) simp

lemma comps_more:
  "dropWhile (\<lambda>c. c = SLASH) s \<noteq> [] \<Longrightarrow>
   comps s = takeWhile (\<lambda>c. c \<noteq> SLASH) (dropWhile (\<lambda>c. c = SLASH) s)
           # comps (dropWhile (\<lambda>c. c \<noteq> SLASH) (dropWhile (\<lambda>c. c = SLASH) s))"
  by (subst comps.simps) (simp add: Let_def)

lemma comps_ok: "c \<in> set (comps s) \<Longrightarrow> c \<noteq> [] \<and> SLASH \<notin> set c"
proof (induction s rule: comps.induct)
  case (1 s)
  let ?s1 = "dropWhile (\<lambda>c. c = SLASH) s"
  show ?case
  proof (cases "?s1 = []")
    case True
    then show ?thesis using 1(2) by (simp add: comps_none)
  next
    case False
    then have "hd ?s1 \<noteq> SLASH" using hd_dropWhile [OF False] by simp
    then have "takeWhile (\<lambda>c. c \<noteq> SLASH) ?s1 \<noteq> []" using False by (cases ?s1) auto
    moreover have "SLASH \<notin> set (takeWhile (\<lambda>c. c \<noteq> SLASH) ?s1)" by (auto dest: set_takeWhileD)
    ultimately show ?thesis using 1(1) [OF refl False] 1(2) unfolding comps_more [OF False]
      by (auto simp del: dropWhile_eq_Nil_conv takeWhile_eq_Nil_iff)
  qed
qed

lemma render_nonempty: "stk \<noteq> [] \<Longrightarrow> (\<forall>c \<in> set stk. c \<noteq> []) \<Longrightarrow> render a stk \<noteq> []"
  by (cases stk rule: rev_cases) (auto simp: add_comp_def)

lemma path_normalize_spec:
  assumes "p \<noteq> ''''"
  shows "(case norm_fold (is_abs p) [] 0 (comps p) of
            None \<Rightarrow> \<exists>q. path_normalize (Some p) = Some (ERR_OVERFLOW, Some q)
          | Some (stk, lead) \<Rightarrow> path_normalize (Some p) = Some (ERR_OK, Some (final (is_abs p) stk))
              \<and> length (final (is_abs p) stk) \<le> length p)"
proof -
  let ?a = "is_abs p"
  let ?s = "\<lparr>nm_path = p @ [END], nm_out = 0, nm_comp_start = replicate 64 0, nm_ncomp = 0, nm_leading = 0\<rparr>"
  have inv: "norm_inv ?a p 0 ?s [] 0" by (simp add: norm_inv_def)
  have "?a \<longrightarrow> p \<noteq> [] \<and> p ! 0 = SLASH" by (cases p) auto
  from norm_loop_spec [OF inv _ this]
  have L: "case norm_fold ?a [] 0 (comps p) of
            None \<Rightarrow> \<exists>s'. norm_loop ?a (length p) 0 ?s = Some (ERR_OVERFLOW, s')
          | Some (stk', lead') \<Rightarrow> \<exists>s'. norm_loop ?a (length p) 0 ?s = Some (ERR_OK, s')
                 \<and> norm_inv ?a p (length p) s' stk' lead'" by simp
  show ?thesis
  proof (cases "norm_fold ?a [] 0 (comps p)")
    case None
    then show ?thesis using L by (auto simp: path_normalize_def Let_def)
  next
    case (Some r)
    obtain stk lead where r: "r = (stk, lead)" by fastforce
    obtain s where s: "norm_loop ?a (length p) 0 ?s = Some (ERR_OK, s)" "norm_inv ?a p (length p) s stk lead"
      using L Some r by auto
    note I = s(2) [unfolded norm_inv_def]
    have ne: "\<forall>c \<in> set stk. c \<noteq> []"
      using norm_fold_nonempty [OF Some [unfolded r]] comps_ok by auto
    have "path_normalize (Some p) = Some (ERR_OK, Some (final ?a stk)) \<and> length (final ?a stk) \<le> length p"
    proof (cases "stk = []")
      case True
      then have o: "nm_out s = 0" using I by auto
      have l: "1 < length (nm_path s)" using I assms by (cases p) auto
      obtain x y ys where "nm_path s = x # y # ys" using l by (cases "nm_path s"; cases "tl (nm_path s)") auto
      then show ?thesis using s(1) o True l assms
        by (simp add: path_normalize_def Let_def put_char_def final_def Suc_le_eq)
    next
      case False
      then have "render ?a stk \<noteq> []" by (rule render_nonempty) (use ne in auto)
      then have o: "nm_out s \<noteq> 0" "nm_out s \<le> length p" using I by auto
      have "take (nm_out s) ((nm_path s)[nm_out s := END]) = render ?a stk" using I by (metis take_update_cancel order_refl)
      then show ?thesis using s(1) o False I
        by (simp add: path_normalize_def Let_def put_char_def final_def)
    qed
    then show ?thesis using Some r by simp
  qed
qed

text \<open>The components of the result are the stack.\<close>

lemma comps_leading_slash: "comps (SLASH # s) = comps s"
  by (subst (1 2) comps.simps) simp

lemma comps_one: "c \<noteq> [] \<Longrightarrow> SLASH \<notin> set c \<Longrightarrow> comps c = [c]"
proof -
  assume c: "c \<noteq> []" "SLASH \<notin> set c"
  then have "dropWhile (\<lambda>x. x = SLASH) c = c" by (cases c) auto
  moreover have "takeWhile (\<lambda>x. x \<noteq> SLASH) c = c" "dropWhile (\<lambda>x. x \<noteq> SLASH) c = []" using c(2) by auto
  ultimately show ?thesis using comps_more [of c] c(1) comps_Nil by metis
qed

lemma takeWhile_sep: "takeWhile (\<lambda>c. c \<noteq> x) (xs @ x # ys) = takeWhile (\<lambda>c. c \<noteq> x) xs"
  by (induction xs) auto

lemma dropWhile_sep: "dropWhile (\<lambda>c. c \<noteq> x) (xs @ x # ys) = dropWhile (\<lambda>c. c \<noteq> x) xs @ x # ys"
  by (induction xs) auto

lemma comps_append_slash: "comps (s @ SLASH # c) = comps s @ comps c"
proof (induction s rule: comps.induct)
  case (1 s)
  let ?s1 = "dropWhile (\<lambda>c. c = SLASH) s"
  show ?case
  proof (cases "?s1 = []")
    case True
    then have d: "dropWhile (\<lambda>c. c = SLASH) (s @ SLASH # c) = dropWhile (\<lambda>c. c = SLASH) c"
      by (simp add: dropWhile_append)
    have "comps s = []" using True by (rule comps_none)
    moreover have "comps (s @ SLASH # c) = comps c" by (subst (1 2) comps.simps) (simp add: d)
    ultimately show ?thesis by simp
  next
    case False
    have d: "dropWhile (\<lambda>c. c = SLASH) (s @ SLASH # c) = ?s1 @ SLASH # c"
    proof -
      obtain x where "x \<in> set s" "x \<noteq> SLASH" using False by auto
      then show ?thesis using dropWhile_append1 [of x s "\<lambda>c. c = SLASH" "SLASH # c"] by simp
    qed
    let ?r = "dropWhile (\<lambda>c. c \<noteq> SLASH) ?s1"
    have t: "takeWhile (\<lambda>c. c \<noteq> SLASH) (?s1 @ SLASH # c) = takeWhile (\<lambda>c. c \<noteq> SLASH) ?s1"
      by (rule takeWhile_sep)
    have d2: "dropWhile (\<lambda>c. c \<noteq> SLASH) (?s1 @ SLASH # c) = ?r @ SLASH # c"
      by (rule dropWhile_sep)
    have s: "comps s = takeWhile (\<lambda>c. c \<noteq> SLASH) ?s1 # comps ?r"
      by (rule comps_more [OF False])
    have "comps (s @ SLASH # c) = takeWhile (\<lambda>c. c \<noteq> SLASH) ?s1 # comps (?r @ SLASH # c)"
      using comps_more [of "s @ SLASH # c"] unfolding d t d2 by simp
    then show ?thesis using 1 [OF refl False] s by simp
  qed
qed

lemma comps_render:
  "(\<forall>c \<in> set stk. c \<noteq> [] \<and> SLASH \<notin> set c) \<Longrightarrow> comps (render a stk) = stk"
proof (induction stk rule: rev_induct)
  case Nil
  then show ?case by simp
next
  case (snoc c stk)
  then have ih: "comps (render a stk) = stk" "comps c = [c]" using comps_one [of c] by auto
  show ?case
  proof (cases "render a stk = [] \<and> \<not> a")
    case True
    then have "stk = []" using ih(1) by (metis comps_Nil)
    moreover have "render a (stk @ [c]) = c" using True by (cases a) (simp_all only: render_simps add_comp_def, simp_all)
    ultimately show ?thesis using ih(2) by simp
  next
    case False
    then have "render a (stk @ [c]) = render a stk @ SLASH # c" by (auto simp: add_comp_def)
    then show ?thesis using ih comps_append_slash [of "render a stk" c] by simp
  qed
qed


section \<open>The denotation\<close>

lemma walk_append: "walk d (xs @ ys) = walk (walk d xs) ys"
  by (simp add: walk_def)

lemma walk_Cons: "walk d (c # cs) = walk (walk d [c]) cs"
  by (simp add: walk_def)

lemma walk_simps [simp]: "walk d [] = d" "walk d (''.'' # cs) = walk d cs"
  "walk d (''..'' # cs) = walk (butlast d) cs"
  "c \<noteq> ''.'' \<Longrightarrow> c \<noteq> ''..'' \<Longrightarrow> walk d (c # cs) = walk (d @ [c]) cs"
  by (simp_all add: walk_def)

text \<open>A stack: leading \<open>..\<close> only, none for an absolute path, then proper names.\<close>

definition stack_ok :: "bool \<Rightarrow> string list \<Rightarrow> nat \<Rightarrow> bool" where
  "stack_ok a stk lead \<longleftrightarrow>
     lead \<le> length stk \<and> take lead stk = replicate lead ''..'' \<and> (a \<longrightarrow> lead = 0)
     \<and> (\<forall>c \<in> set (drop lead stk). c \<noteq> ''.'' \<and> c \<noteq> ''..'' \<and> c \<noteq> '''' \<and> SLASH \<notin> set c)
     \<and> length stk \<le> 64"

lemma norm_fold_walk:
  assumes "norm_fold a stk lead cs = Some (stk', lead')" and "stack_ok a stk lead"
    and "\<forall>c \<in> set cs. c \<noteq> '''' \<and> SLASH \<notin> set c" and "a \<longrightarrow> d = []"
  shows "stack_ok a stk' lead' \<and> walk d stk' = walk (walk d stk) cs"
  using assms
proof (induction a stk lead cs rule: norm_fold.induct)
  case (2 a stk lead c cs)
  note ok = 2(6) [unfolded stack_ok_def]
  have cs: "\<forall>c \<in> set cs. c \<noteq> '''' \<and> SLASH \<notin> set c" "c \<noteq> ''''" "SLASH \<notin> set c" using 2(7) by auto
  consider (skip) "c = ''.''" | (pop) "c = ''..''" "lead < length stk"
    | (root) "c = ''..''" "\<not> lead < length stk" "a"
    | (push) "c \<noteq> ''.''" "c = ''..'' \<longrightarrow> \<not> lead < length stk \<and> \<not> a" by blast
  then show ?case
  proof cases
    case skip
    then show ?thesis using 2(1) 2(5,6,8) cs by simp
  next
    case pop
    then obtain ys y where y: "stk = ys @ [y]" by (cases stk rule: rev_cases) auto
    then have len: "lead \<le> length ys" using pop by simp
    then have "y \<in> set (drop lead stk)" using y by simp
    then have yn: "y \<noteq> ''.''" "y \<noteq> ''..''" using ok by auto
    have "stack_ok a ys lead" using ok len unfolding y stack_ok_def by auto
    moreover have "walk d (ys @ [y] @ ''..'' # cs) = walk d (ys @ cs)" using yn by (simp add: walk_append)
    moreover have "norm_fold a ys lead cs = Some (stk', lead')" using 2(5) pop y by simp
    ultimately show ?thesis using 2(2) [OF _ _ _ _ cs(1) 2(8)] pop y yn by (simp add: walk_append)
  next
    case root
    then have "stk = []" "d = []" using ok 2(8) by auto
    then show ?thesis using 2(3) 2(5,6,8) cs root by simp
  next
    case push
    have sz: "length stk < 64" and nf: "norm_fold a (stk @ [c]) (if c = ''..'' then lead + 1 else lead) cs = Some (stk', lead')"
      using 2(5) push by (auto split: if_splits)
    have "stack_ok a (stk @ [c]) (if c = ''..'' then lead + 1 else lead)"
    proof (cases "c = ''..''")
      case True
      then have l: "lead = length stk" "\<not> a" using push ok by auto
      then have "stk = replicate lead ''..''" using ok by auto
      then have "stk @ [''..''] = replicate (Suc lead) ''..''" by (metis replicate_Suc replicate_append_same)
      then show ?thesis using l True sz by (simp add: stack_ok_def del: replicate_Suc)
    next
      case False
      then show ?thesis using ok push(1) cs sz unfolding stack_ok_def by auto
    qed
    from 2(4) [OF _ _ _ _ nf this cs(1) 2(8)] push sz show ?thesis by (auto simp: walk_append walk_Cons [of "walk d stk" c cs])
  qed
qed auto


lemma norm_fold_None: "norm_fold a stk lead cs = None \<Longrightarrow> 64 < length stk + length cs"
proof (induction a stk lead cs rule: norm_fold.induct)
  case (2 a stk lead c cs)
  consider "c = ''.''" | "c = ''..''" "lead < length stk" | "c = ''..''" "\<not> lead < length stk" "a"
    | "c \<noteq> ''.''" "c = ''..'' \<longrightarrow> \<not> lead < length stk \<and> \<not> a" "64 \<le> length stk"
    | "c \<noteq> ''.''" "c = ''..'' \<longrightarrow> \<not> lead < length stk \<and> \<not> a" "\<not> 64 \<le> length stk" by blast
  then show ?case
  proof cases
    case 1
    then show ?thesis using 2(1) 2(5) by simp
  next
    case c: 2
    then show ?thesis using 2(2) 2(5) by simp
  next
    case 3
    then show ?thesis using 2(3) 2(5) by simp
  next
    case 4
    then show ?thesis by simp
  next
    case 5
    then show ?thesis using 2(4) 2(5) by (simp split: if_splits)
  qed
qed simp

lemma norm_fold_id:
  assumes "stack_ok a stk lead" and "k \<le> length stk"
  shows "norm_fold a (take k stk) (min k lead) (drop k stk) = Some (stk, lead)"
  using assms(2)
proof (induction "length stk - k" arbitrary: k)
  case 0
  then show ?case using assms(1) by (simp add: stack_ok_def min_def)
next
  case (Suc m)
  note ok = assms(1) [unfolded stack_ok_def]
  have k: "k < length stk" using Suc.hyps(2) by simp
  have d: "drop k stk = stk ! k # drop (Suc k) stk" using k by (simp add: Cons_nth_drop_Suc)
  have t: "take k stk @ [stk ! k] = take (Suc k) stk" using k by (simp add: take_Suc_conv_app_nth)
  have ih: "norm_fold a (take (Suc k) stk) (min (Suc k) lead) (drop (Suc k) stk) = Some (stk, lead)"
    by (rule Suc.hyps(1)) (use Suc.hyps(2) in auto)
  show ?case
  proof (cases "k < lead")
    case True
    have "stk ! k = take lead stk ! k" using True by simp
    then have c: "stk ! k = ''..''" using ok True by simp
    show ?thesis using ih True c k ok t unfolding d by simp
  next
    case False
    then have "stk ! k \<in> set (drop lead stk)" using k by (auto simp: in_set_conv_nth intro!: exI [of _ "k - lead"])
    then have c: "stk ! k \<noteq> ''.''" "stk ! k \<noteq> ''..''" using ok by auto
    show ?thesis using ih False c k ok t unfolding d by simp
  qed
qed

lemma stack_ok_names:
  assumes "stack_ok a stk lead" shows "\<forall>c \<in> set stk. c \<noteq> '''' \<and> SLASH \<notin> set c"
proof -
  have "set stk = set (take lead stk) \<union> set (drop lead stk)" by (metis append_take_drop_id set_append)
  then show ?thesis using assms unfolding stack_ok_def by (auto split: if_splits)
qed

lemma final_abs:
  assumes "stack_ok a stk lead" shows "is_abs (final a stk) = a"
proof (cases stk)
  case Nil
  then show ?thesis by (simp add: final_def)
next
  case (Cons c cs)
  have c: "c \<noteq> ''''" "SLASH \<notin> set c" using stack_ok_names [OF assms] Cons by auto
  then have h: "hd c \<noteq> SLASH" by (cases c) auto
  have "render a [c] = (if a then [SLASH] else []) @ c"
    using render_simps(2) [of a "[]" c] by (simp add: add_comp_def)
  moreover obtain r where "render a stk = render a [c] @ r" using render_append [of a "[c]" cs] Cons by auto
  ultimately show ?thesis using Cons c h by (simp add: final_def)
qed

lemma comps_final:
  assumes "stack_ok a stk lead"
  shows "comps (final a stk) = (if stk = [] \<and> \<not> a then [''.''] else stk)"
  using comps_render [of stk a] stack_ok_names [OF assms] comps_one [of "''.''"] comps_leading_slash [of "[]"]
  by (auto simp: final_def)

section \<open>Properties\<close>



text \<open>
  In a buffer that holds just the empty string, the result \<open>.\<close> does not fit: the terminator is
  written past the end.
\<close>

lemma path_normalize_empty_overruns: "path_normalize (Some '''') = None"
  by (simp add: path_normalize_def norm_loop.simps put_char_def)

text \<open>
  Taking apart what \<open>path_join\<close> built gives the pieces back: for a directory without
  trailing slash and a name without slash, when the buffers are large enough.
\<close>

lemma strrchr_append: "SLASH \<notin> set b \<Longrightarrow> strrchr (a @ SLASH # b) SLASH = Some (length a)"
proof (induction a)
  case Nil
  moreover have "SLASH \<notin> set b \<Longrightarrow> strrchr b SLASH = None" by (induction b) auto
  ultimately show ?case by simp
qed simp

theorem path_join_roundtrip:
  assumes "d \<noteq> ''''" and "last d \<noteq> SLASH" and "SLASH \<notin> set n"
    and "length d + length n + 2 \<le> unat cap"
  shows "\<exists>j. path_join (Some d) (Some n) True cap = (ERR_OK, Some j) \<and> length j < unat cap
       \<and> path_basename (Some j) = n \<and> path_dirname (Some j) True cap = (ERR_OK, Some d)
       \<and> comps j = comps d @ comps n"
proof (intro exI conjI)
  let ?j = "d @ SLASH # n"
  have c: "cap \<noteq> 0" using assms(4) by auto
  have n: "\<not> (n \<noteq> '''' \<and> hd n = SLASH)" using assms(3) by (cases n) auto
  have l: "d ! (length d - Suc 0) \<noteq> SLASH" using assms(1,2) by (simp add: last_conv_nth)
  show "path_join (Some d) (Some n) True cap = (ERR_OK, Some ?j)"
    using c n l assms by (simp add: path_join_def Let_def)
  show "length ?j < unat cap" using assms(4) by simp
  show "path_basename (Some ?j) = n" by (simp add: path_basename_def strrchr_append assms(3))
  show "path_dirname (Some ?j) True cap = (ERR_OK, Some d)"
    using c assms by (simp add: path_dirname_def strrchr_append Let_def)
  show "comps ?j = comps d @ comps n" by (rule comps_append_slash)
qed

theorem path_join_roundtrip_witness:
  "\<exists>j. path_join (Some ''/usr'') (Some ''lib'') True 16 = (ERR_OK, Some j)
     \<and> path_basename (Some j) = ''lib'' \<and> path_dirname (Some j) True 16 = (ERR_OK, Some ''/usr'')"
  using path_join_roundtrip [of "''/usr''" "''lib''" 16] by auto

section \<open>Creating directories\<close>

text \<open>The paths \<open>path_mkdirs\<close> asks for, while no call fails: each prefix before a slash.\<close>

fun prefixes_before :: "string \<Rightarrow> string \<Rightarrow> string list" where
  "prefixes_before pre [] = []"
| "prefixes_before pre (c # cs) =
     (if c = SLASH then pre # prefixes_before (pre @ [c]) cs else prefixes_before (pre @ [c]) cs)"

text \<open>A file system that is the set of its directories and creates whatever is asked.\<close>

definition set_mkdir :: "string set \<Rightarrow> string \<Rightarrow> mkdir_result \<times> string set" where
  "set_mkdir fs p = (if p \<in> fs then (Exists, fs) else (Created, insert p fs))"

definition set_stat :: "string set \<Rightarrow> string \<Rightarrow> bool option" where
  "set_stat fs p = (if p \<in> fs then Some True else None)"

lemma mkdirs_loop_set: "mkdirs_loop set_mkdir pre cs fs = (True, fs \<union> set (prefixes_before pre cs))"
  by (induction "set_mkdir :: string set \<Rightarrow> _" pre cs fs rule: mkdirs_loop.induct) (auto simp: set_mkdir_def)

lemma path_mkdirs_set:
  assumes "p \<noteq> ''''" and "length p < 1024"
  shows "path_mkdirs set_mkdir set_stat (Some p) fs
       = (ERR_OK, insert p (fs \<union> set (prefixes_before [hd p] (tl p))))"
  using assms by (auto simp: path_mkdirs_def mkdirs_loop_set set_mkdir_def path_is_dir_def set_stat_def)

end
