(* ===== verification/EventLoop.thy ===== *)
theory EventLoop
  imports Core "HOL-Library.Sublist"
begin

text \<open>
  The poll loop of \<open>src/networking/event_loop.c\<close>. The slots in use of the entries array are a
  list, its capacity is a word; the \<open>pollfd\<close> array is what the last round wrote into it. A
  callback is the client's: \<open>prog\<close> says, from the descriptor, the readiness bits, the user
  data, the loop and the client's own state, which loop operations it performs. The answers of
  \<open>poll\<close> and of \<open>realloc\<close> are arguments; a list of \<open>poll\<close> answers that ends too early is a call
  that has not returned (\<open>None\<close>).
\<close>

unbundle bit_operations_syntax

section \<open>State and operations\<close>

abbreviation EV_READ :: u32 where "EV_READ \<equiv> 1"
abbreviation EV_WRITE :: u32 where "EV_WRITE \<equiv> 2"
abbreviation POLLIN :: "16 word" where "POLLIN \<equiv> 1"
abbreviation POLLOUT :: "16 word" where "POLLOUT \<equiv> 4"
abbreviation POLLERR :: "16 word" where "POLLERR \<equiv> 8"
abbreviation POLLHUP :: "16 word" where "POLLHUP \<equiv> 16"

record 'cb event_entry =
  ee_fd :: int
  ee_events :: u32
  ee_cb :: 'cb
  ee_user_data :: u64

record pollfd =
  pf_fd :: int
  pf_events :: "16 word"
  pf_revents :: "16 word"

record 'cb event_loop =
  el_entries :: "'cb event_entry list"
  el_pollfds :: "pollfd list"
  el_cap :: size_t
  el_running :: bool
  el_dispatching :: bool

definition interest_to_poll :: "u32 \<Rightarrow> 16 word" where
  "interest_to_poll events =
     (let p = 0; p = (if events AND EV_READ \<noteq> 0 then p OR POLLIN else p)
      in if events AND EV_WRITE \<noteq> 0 then p OR POLLOUT else p)"

definition poll_to_ready :: "16 word \<Rightarrow> u32" where
  "poll_to_ready revents =
     (let e = 0; e = (if revents AND (POLLIN OR POLLHUP OR POLLERR) \<noteq> 0 then e OR EV_READ else e)
      in if revents AND POLLOUT \<noteq> 0 then e OR EV_WRITE else e)"

fun find_index :: "'cb event_entry list \<Rightarrow> int \<Rightarrow> nat option" where
  "find_index [] fd = None"
| "find_index (e # es) fd = (if ee_fd e = fd then Some 0 else map_option Suc (find_index es fd))"

definition event_loop_create :: "bool \<Rightarrow> bool \<Rightarrow> error_code \<times> 'cb event_loop option" where
  "event_loop_create ok out =
     (if \<not> out then (ERR_INVALID_ARG, None)
      else if \<not> ok then (ERR_NOMEM, None)
      else (ERR_OK, Some \<lparr>el_entries = [], el_pollfds = [], el_cap = 0, el_running = False,
                          el_dispatching = False\<rparr>))"

text \<open>Both arrays and the structure are freed; nothing is left of the loop.\<close>

definition event_loop_destroy :: "'cb event_loop option \<Rightarrow> 'cb event_loop option" where
  "event_loop_destroy loop = (case loop of None \<Rightarrow> None | Some _ \<Rightarrow> None)"

text \<open>The growth step of \<open>event_loop_add\<close>: the new capacity, or the error.\<close>

definition grow_entries :: "bool \<Rightarrow> bool \<Rightarrow> 'cb event_loop \<Rightarrow> error_code \<times> 'cb event_loop" where
  "grow_entries ok_entries ok_pollfds l =
     (if length (el_entries l) \<noteq> unat (el_cap l) then (ERR_OK, l)
      else if el_cap l > SIZE_MAX div 2 then (ERR_OVERFLOW, l)
      else let new_cap = (if el_cap l = 0 then 8 else el_cap l * 2)
        in if new_cap > SIZE_MAX div 24 \<or> new_cap > SIZE_MAX div 8 then (ERR_OVERFLOW, l)
           else if realloc ok_entries None (new_cap * 24) = None then (ERR_NOMEM, l)
           else if realloc ok_pollfds None (new_cap * 8) = None then (ERR_NOMEM, l)
           else (ERR_OK, l\<lparr>el_cap := new_cap\<rparr>))"

definition event_loop_add ::
  "bool \<Rightarrow> bool \<Rightarrow> 'cb event_loop option \<Rightarrow> int \<Rightarrow> u32 \<Rightarrow> 'cb option \<Rightarrow> u64 \<Rightarrow> error_code \<times> 'cb event_loop option" where
  "event_loop_add ok_entries ok_pollfds lp fd events cbp user_data =
     (case (lp, cbp) of
        (Some l, Some cb) \<Rightarrow>
          if fd < 0 \<or> events = 0 then (ERR_INVALID_ARG, lp)
          else if find_index (el_entries l) fd \<noteq> None then (ERR_INVALID_ARG, lp)
          else let (err, l) = grow_entries ok_entries ok_pollfds l
            in if err \<noteq> ERR_OK then (err, Some l)
               else (ERR_OK, Some (l\<lparr>el_entries := el_entries l @
                       [\<lparr>ee_fd = fd, ee_events = events, ee_cb = cb, ee_user_data = user_data\<rparr>]\<rparr>))
      | _ \<Rightarrow> (ERR_INVALID_ARG, lp))"

definition event_loop_mod :: "'cb event_loop option \<Rightarrow> int \<Rightarrow> u32 \<Rightarrow> error_code \<times> 'cb event_loop option" where
  "event_loop_mod lp fd events =
     (case lp of
        None \<Rightarrow> (ERR_INVALID_ARG, None)
      | Some l \<Rightarrow>
          if fd < 0 \<or> events = 0 then (ERR_INVALID_ARG, lp)
          else (case find_index (el_entries l) fd of
              None \<Rightarrow> (ERR_NOT_FOUND, lp)
            | Some i \<Rightarrow> (ERR_OK, Some (l\<lparr>el_entries :=
                (el_entries l)[i := (el_entries l ! i)\<lparr>ee_events := events\<rparr>]\<rparr>))))"

definition event_loop_remove :: "'cb event_loop option \<Rightarrow> int \<Rightarrow> error_code \<times> 'cb event_loop option" where
  "event_loop_remove lp fd =
     (case lp of
        None \<Rightarrow> (ERR_INVALID_ARG, None)
      | Some l \<Rightarrow>
          if fd < 0 then (ERR_INVALID_ARG, lp)
          else (case find_index (el_entries l) fd of
              None \<Rightarrow> (ERR_NOT_FOUND, lp)
            | Some i \<Rightarrow>
                if el_dispatching l
                then (ERR_OK, Some (l\<lparr>el_entries := (el_entries l)[i := (el_entries l ! i)\<lparr>ee_fd := - 1\<rparr>]\<rparr>))
                else (ERR_OK, Some (l\<lparr>el_entries :=
                  butlast ((el_entries l)[i := el_entries l ! (length (el_entries l) - 1)])\<rparr>))))"

definition event_loop_stop :: "'cb event_loop option \<Rightarrow> 'cb event_loop option" where
  "event_loop_stop lp = map_option (\<lambda>l. l\<lparr>el_running := False\<rparr>) lp"

definition event_loop_count :: "'cb event_loop option \<Rightarrow> nat" where
  "event_loop_count lp = (case lp of None \<Rightarrow> 0 | Some l \<Rightarrow> length (el_entries l))"

text \<open>\<open>compact\<close>: the entries kept move to the front.\<close>

fun compact_loop :: "nat \<Rightarrow> nat \<Rightarrow> nat \<Rightarrow> 'cb event_entry list \<Rightarrow> 'cb event_entry list" where
  "compact_loop 0 i kept es = take kept es"
| "compact_loop (Suc m) i kept es =
     (if ee_fd (es ! i) \<ge> 0 then compact_loop m (Suc i) (Suc kept) (es[kept := es ! i])
      else compact_loop m (Suc i) kept es)"

definition compact :: "'cb event_loop \<Rightarrow> 'cb event_loop" where
  "compact l = l\<lparr>el_entries := compact_loop (length (el_entries l)) 0 0 (el_entries l)\<rparr>"

section \<open>One round\<close>

datatype 'cb loop_op =
    OpAdd bool bool int u32 "'cb option" u64
  | OpMod int u32
  | OpRemove int
  | OpStop

fun apply_op :: "'cb loop_op \<Rightarrow> 'cb event_loop \<Rightarrow> 'cb event_loop" where
  "apply_op (OpAdd a b fd ev cb ud) l = the (snd (event_loop_add a b (Some l) fd ev cb ud))"
| "apply_op (OpMod fd ev) l = the (snd (event_loop_mod (Some l) fd ev))"
| "apply_op (OpRemove fd) l = the (snd (event_loop_remove (Some l) fd))"
| "apply_op OpStop l = the (event_loop_stop (Some l))"

text \<open>What a callback does, given its name, the descriptor, the readiness, the user data and the loop.\<close>

type_synonym ('cb, 'w) client = "'cb \<Rightarrow> int \<Rightarrow> u32 \<Rightarrow> u64 \<Rightarrow> 'cb event_loop \<Rightarrow> 'w \<Rightarrow> 'cb loop_op list \<times> 'w"

datatype poll_answer = PollEintr | PollError | PollReady "(16 word) list"

text \<open>The \<open>do ... while (EINTR)\<close> around \<open>poll\<close>: its first real answer and the answers left.\<close>

fun poll_retry :: "poll_answer list \<Rightarrow> poll_answer option" where
  "poll_retry [] = None"
| "poll_retry (PollEintr # rest) = poll_retry rest"
| "poll_retry (a # rest) = Some a"

definition fill_pollfds :: "'cb event_loop \<Rightarrow> 'cb event_loop" where
  "fill_pollfds l = l\<lparr>el_pollfds :=
     map (\<lambda>e. \<lparr>pf_fd = ee_fd e, pf_events = interest_to_poll (ee_events e), pf_revents = 0\<rparr>) (el_entries l)\<rparr>"

definition set_revents :: "(16 word) list \<Rightarrow> 'cb event_loop \<Rightarrow> 'cb event_loop" where
  "set_revents rs l = l\<lparr>el_pollfds := map2 (\<lambda>p r. p\<lparr>pf_revents := r\<rparr>) (el_pollfds l) rs\<rparr>"

text \<open>
  The dispatch loop over the entries \<open>i ..\<close>, with the calls it made: the callback and its arguments, and the operations
  that call performed. Reading outside the arrays is undefined.
\<close>

type_synonym 'cb calls = "(('cb \<times> int \<times> u32 \<times> u64) \<times> 'cb loop_op list) list"

fun dispatch_loop ::
  "('cb, 'w) client \<Rightarrow> nat \<Rightarrow> nat \<Rightarrow> 'cb event_loop \<Rightarrow> 'w \<Rightarrow> ('cb event_loop \<times> 'w \<times> 'cb calls) ub" where
  "dispatch_loop prog 0 i l w = Some (l, w, [])"
| "dispatch_loop prog (Suc m) i l w =
     (if i \<ge> length (el_entries l) then None
      else let e = el_entries l ! i
        in if ee_fd e < 0 then dispatch_loop prog m (Suc i) l w
           else if i \<ge> length (el_pollfds l) then None
           else let ready = poll_to_ready (pf_revents (el_pollfds l ! i))
             in if ready = 0 then dispatch_loop prog m (Suc i) l w
                else let (ops, w1) = prog (ee_cb e) (ee_fd e) ready (ee_user_data e) l w
                  in do { (l2, w2, calls) \<leftarrow> dispatch_loop prog m (Suc i) (fold apply_op ops l) w1;
                          Some (l2, w2, ((ee_cb e, ee_fd e, ready, ee_user_data e), ops) # calls) })"

definition event_loop_poll_once ::
  "('cb, 'w) client \<Rightarrow> poll_answer list \<Rightarrow> 'cb event_loop option \<Rightarrow> 'w
    \<Rightarrow> (error_code \<times> 'cb event_loop option \<times> 'w \<times> 'cb calls) ub" where
  "event_loop_poll_once prog answers lp w =
     (case lp of
        None \<Rightarrow> Some (ERR_INVALID_ARG, None, w, [])
      | Some l \<Rightarrow>
          if el_entries l = [] then
            map_option (\<lambda>a. (if a = PollError then ERR_IO else ERR_OK, lp, w, [])) (poll_retry answers)
          else let l = fill_pollfds l in
            (case poll_retry answers of
               None \<Rightarrow> None
             | Some (PollReady rs) \<Rightarrow>
                 (if length rs \<noteq> length (el_pollfds l) then None
                  else if \<forall>r \<in> set rs. r = 0 then Some (ERR_OK, Some l, w, [])
                  else do { (l, w, calls) \<leftarrow>
                              dispatch_loop prog (length (el_entries l)) 0
                                ((set_revents rs l)\<lparr>el_dispatching := True\<rparr>) w;
                            Some (ERR_OK, Some (compact (l\<lparr>el_dispatching := False\<rparr>)), w, calls) })
             | Some _ \<Rightarrow> Some (ERR_IO, Some l, w, [])))"

text \<open>The loop: one list of \<open>poll\<close> answers per iteration.\<close>

fun run_loop ::
  "('cb, 'w) client \<Rightarrow> poll_answer list list \<Rightarrow> 'cb event_loop \<Rightarrow> 'w \<Rightarrow> (error_code \<times> 'cb event_loop \<times> 'w) ub" where
  "run_loop prog rounds l w =
     (if \<not> el_running l then Some (ERR_OK, l, w)
      else (case rounds of
          [] \<Rightarrow> None
        | answers # rounds \<Rightarrow>
            do { (err, lp, w, _) \<leftarrow> event_loop_poll_once prog answers (Some l) w;
                 l \<leftarrow> lp;
                 (if err \<noteq> ERR_OK then Some (err, l\<lparr>el_running := False\<rparr>, w)
                  else run_loop prog rounds l w) }))"

definition event_loop_run ::
  "('cb, 'w) client \<Rightarrow> poll_answer list list \<Rightarrow> 'cb event_loop option \<Rightarrow> 'w
    \<Rightarrow> (error_code \<times> 'cb event_loop option \<times> 'w) ub" where
  "event_loop_run prog rounds lp w =
     (case lp of
        None \<Rightarrow> Some (ERR_INVALID_ARG, None, w)
      | Some l \<Rightarrow> map_option (\<lambda>(e, l, w). (e, Some l, w)) (run_loop prog rounds (l\<lparr>el_running := True\<rparr>) w))"

section \<open>The registrations\<close>

text \<open>The live entries: the registered descriptors, in order.\<close>

definition live :: "'cb event_loop \<Rightarrow> 'cb event_entry list" where
  "live l = filter (\<lambda>e. 0 \<le> ee_fd e) (el_entries l)"

definition registered :: "'cb event_loop \<Rightarrow> int \<rightharpoonup> u32 \<times> 'cb \<times> u64" where
  "registered l = map_of (map (\<lambda>e. (ee_fd e, ee_events e, ee_cb e, ee_user_data e)) (live l))"

definition loop_inv :: "'cb event_loop \<Rightarrow> bool" where
  "loop_inv l \<longleftrightarrow> distinct (map ee_fd (live l)) \<and> length (el_entries l) \<le> unat (el_cap l)
     \<and> (\<not> el_dispatching l \<longrightarrow> (\<forall>e \<in> set (el_entries l). 0 \<le> ee_fd e))"

lemma find_index_None: "find_index es fd = None \<longleftrightarrow> fd \<notin> ee_fd ` set es"
  by (induction es) auto

lemma find_index_Some:
  "find_index es fd = Some i \<Longrightarrow> i < length es \<and> ee_fd (es ! i) = fd"
  by (induction es arbitrary: i) (auto split: if_splits)

lemma find_index_split:
  "find_index es fd = Some i \<Longrightarrow>
   \<exists>xs e ys. es = xs @ e # ys \<and> length xs = i \<and> ee_fd e = fd"
  using find_index_Some [of es fd i] id_take_nth_drop [of i es] by (metis length_take less_imp_le min.absorb2)

lemma in_live: "0 \<le> fd \<Longrightarrow> fd \<in> ee_fd ` set (live l) \<longleftrightarrow> fd \<in> ee_fd ` set (el_entries l)"
  by (auto simp: live_def)

lemma registered_None: "0 \<le> fd \<Longrightarrow> registered l fd = None \<longleftrightarrow> find_index (el_entries l) fd = None"
  by (simp add: registered_def find_index_None map_of_eq_None_iff image_image in_live [symmetric])


definition entry_pair :: "'cb event_entry \<Rightarrow> int \<times> u32 \<times> 'cb \<times> u64" where
  "entry_pair e = (ee_fd e, ee_events e, ee_cb e, ee_user_data e)"

lemma registered_pairs: "registered l = map_of (map entry_pair (live l))"
  by (simp add: registered_def entry_pair_def [abs_def])

lemma fst_entry_pair [simp]: "fst (entry_pair e) = ee_fd e" "fst \<circ> entry_pair = ee_fd"
  by (auto simp: entry_pair_def)

lemma registered_cong:
  assumes "distinct (map ee_fd es)" and "distinct (map ee_fd es')" and "set es = set es'"
  shows "map_of (map entry_pair es) = map_of (map entry_pair es')"
proof
  have iff: "map_of (map entry_pair zs) k = Some v \<longleftrightarrow> (k, v) \<in> entry_pair ` set zs"
    if "distinct (map ee_fd zs)" for zs :: "'a event_entry list" and k v
    using that by (subst map_of_eq_Some_iff) (simp_all add: comp_def)
  fix k show "map_of (map entry_pair es) k = map_of (map entry_pair es') k"
    using iff [OF assms(1), of k] iff [OF assms(2), of k] assms(3) by (metis option.exhaust)
qed

section \<open>The operations on the registrations\<close>

lemma grow_entries_spec:
  assumes "grow_entries a b l = (err, l')" and "length (el_entries l) \<le> unat (el_cap l)"
  shows "el_entries l' = el_entries l \<and> el_pollfds l' = el_pollfds l \<and> el_dispatching l' = el_dispatching l
       \<and> el_running l' = el_running l \<and> unat (el_cap l) \<le> unat (el_cap l')
       \<and> (err = ERR_OK \<longrightarrow> length (el_entries l) < unat (el_cap l'))"
proof (cases "length (el_entries l) = unat (el_cap l) \<and> \<not> el_cap l > SIZE_MAX div 2")
  case False
  then show ?thesis using assms by (auto simp: grow_entries_def split: if_splits)
next
  case True
  have "unat (el_cap l * 2) = unat (el_cap l) * 2"
    using True mult_guard [of 2 "el_cap l"] by (subst unat_mult_small) simp_all
  moreover have "el_cap l = 0 \<or> 0 < unat (el_cap l)" by (simp add: unat_gt_0)
  ultimately show ?thesis using assms True
    by (auto simp: grow_entries_def Let_def unat_gt_0 split: if_splits)
qed

text \<open>
  Room for one more of \<open>n\<close> entries: the answer, when the reallocations of the two arrays answer \<open>a\<close> and \<open>b\<close>. The capacity
  starts at 8 and doubles; an entry has 24 bytes, the larger of the two arrays.
\<close>

definition room_for_one :: "bool \<Rightarrow> bool \<Rightarrow> nat \<Rightarrow> nat \<Rightarrow> error_code" where
  "room_for_one a b n cap =
     (if n < cap then ERR_OK
      else let new_cap = (if cap = 0 then 8 else 2 * cap)
        in if 2 ^ 64 \<le> new_cap * 24 then ERR_OVERFLOW
           else if a \<and> b \<and> new_cap * 24 \<le> PTRDIFF_MAX then ERR_OK
           else ERR_NOMEM)"

lemma grow_entries_code:
  assumes "length (el_entries l) \<le> unat (el_cap l)"
  shows "fst (grow_entries a b l) = room_for_one a b (length (el_entries l)) (unat (el_cap l))"
proof (cases "length (el_entries l) = unat (el_cap l)")
  case full: True
  show ?thesis
  proof (cases "el_cap l > SIZE_MAX div 2")
    case True
    then have "18446744073709551616 \<le> unat (el_cap l) * 2" using mult_guard [of 2 "el_cap l"] by simp
    then show ?thesis using full True by (auto simp: grow_entries_def room_for_one_def Let_def)
  next
    case False
    let ?new = "if el_cap l = 0 then 8 else el_cap l * 2"
    have new: "unat ?new = (if unat (el_cap l) = 0 then 8 else 2 * unat (el_cap l))"
      using False mult_guard [of 2 "el_cap l"] by (simp add: unat_eq_0 unat_mult_small)
    have g: "(?new > SIZE_MAX div 24) = (2 ^ 64 \<le> unat ?new * 24)" "(?new > SIZE_MAX div 8) = (2 ^ 64 \<le> unat ?new * 8)"
      using mult_guard [of 24 ?new] mult_guard [of 8 ?new] by simp_all
    have p: "unat (?new * 24) = unat ?new * 24" "unat (?new * 8) = unat ?new * 8" if "\<not> 2 ^ 64 \<le> unat ?new * 24"
      using that by (subst unat_mult_small; simp)+
    show ?thesis
      using full False g p unfolding grow_entries_def room_for_one_def new [symmetric]
      by (cases "2 ^ 64 \<le> unat ?new * 24") (auto simp: Let_def realloc_def)
  qed
qed (use assms in \<open>simp add: grow_entries_def room_for_one_def\<close>)

lemma registered_negative: "fd < 0 \<Longrightarrow> registered l fd = None"
  by (auto simp: registered_def live_def map_of_eq_None_iff)

text \<open>The error codes.\<close>

lemma event_loop_codes:
  assumes "loop_inv l"
  shows "fst (event_loop_add a b (Some l) fd ev (Some cb) ud)
       = (if fd < 0 \<or> ev = 0 \<or> registered l fd \<noteq> None then ERR_INVALID_ARG
          else room_for_one a b (length (el_entries l)) (unat (el_cap l)))"
    and "fst (event_loop_mod (Some l) fd ev)
       = (if fd < 0 \<or> ev = 0 then ERR_INVALID_ARG else if registered l fd = None then ERR_NOT_FOUND else ERR_OK)"
    and "fst (event_loop_remove (Some l) fd)
       = (if fd < 0 then ERR_INVALID_ARG else if registered l fd = None then ERR_NOT_FOUND else ERR_OK)"
proof -
  have le: "length (el_entries l) \<le> unat (el_cap l)" using assms by (simp add: loop_inv_def)
  show "fst (event_loop_add a b (Some l) fd ev (Some cb) ud)
       = (if fd < 0 \<or> ev = 0 \<or> registered l fd \<noteq> None then ERR_INVALID_ARG
          else room_for_one a b (length (el_entries l)) (unat (el_cap l)))"
    using grow_entries_code [OF le, of a b] registered_None [of fd l]
    by (cases "grow_entries a b l") (auto simp: event_loop_add_def)
  show "fst (event_loop_mod (Some l) fd ev)
       = (if fd < 0 \<or> ev = 0 then ERR_INVALID_ARG else if registered l fd = None then ERR_NOT_FOUND else ERR_OK)"
    "fst (event_loop_remove (Some l) fd)
       = (if fd < 0 then ERR_INVALID_ARG else if registered l fd = None then ERR_NOT_FOUND else ERR_OK)"
    using registered_None [of fd l] by (auto simp: event_loop_mod_def event_loop_remove_def split: option.splits)
qed

lemma live_registered:
  assumes "loop_inv l" and "e \<in> set (live l)"
  shows "registered l (ee_fd e) = Some (ee_events e, ee_cb e, ee_user_data e)"
  using assms unfolding registered_pairs
  by (auto simp: loop_inv_def map_of_eq_Some_iff entry_pair_def comp_def intro!: image_eqI [of _ _ e])

lemma event_loop_add_spec:
  assumes "loop_inv l" and "event_loop_add a b (Some l) fd ev (Some cb) ud = (err, lp)"
  shows "\<exists>l'. lp = Some l' \<and> loop_inv l' \<and> el_dispatching l' = el_dispatching l \<and> el_pollfds l' = el_pollfds l
       \<and> (if err = ERR_OK
          then 0 \<le> fd \<and> ev \<noteq> 0 \<and> registered l fd = None
             \<and> el_entries l' = el_entries l @ [\<lparr>ee_fd = fd, ee_events = ev, ee_cb = cb, ee_user_data = ud\<rparr>]
             \<and> registered l' = (registered l)(fd \<mapsto> (ev, cb, ud))
          else el_entries l' = el_entries l \<and> registered l' = registered l)"
proof (cases "fd < 0 \<or> ev = 0 \<or> find_index (el_entries l) fd \<noteq> None")
  case True
  then have "err = ERR_INVALID_ARG" "lp = Some l" using assms(2) by (auto simp: event_loop_add_def split: if_splits)
  then show ?thesis using assms(1) by simp
next
  case False
  then have no: "fd \<notin> ee_fd ` set (el_entries l)" "0 \<le> fd" "ev \<noteq> 0" "registered l fd = None"
    by (auto simp: find_index_None [symmetric] registered_None)
  obtain err1 l1 where g: "grow_entries a b l = (err1, l1)" by fastforce
  have inv: "distinct (map ee_fd (live l))" "length (el_entries l) \<le> unat (el_cap l)"
    using assms(1) by (auto simp: loop_inv_def)
  note G = grow_entries_spec [OF g inv(2)]
  let ?e = "\<lparr>ee_fd = fd, ee_events = ev, ee_cb = cb, ee_user_data = ud\<rparr>"
  show ?thesis
  proof (cases "err1 = ERR_OK")
    case False
    then have "lp = Some l1" "err = err1"
      using assms(2) g \<open>\<not> (fd < 0 \<or> _)\<close> by (auto simp: event_loop_add_def)
    moreover have "loop_inv l1" "registered l1 = registered l"
      using assms(1) G by (auto simp: loop_inv_def live_def registered_def)
    ultimately show ?thesis using G False by simp
  next
    case True
    define l2 where "l2 = l1\<lparr>el_entries := el_entries l @ [?e]\<rparr>"
    have r: "lp = Some l2" "err = ERR_OK"
      using assms(2) g \<open>\<not> (fd < 0 \<or> _)\<close> True G by (auto simp: event_loop_add_def l2_def)
    have live2: "live l2 = live l @ [?e]" using no(2) by (simp add: l2_def live_def)
    have "loop_inv l2"
      using assms(1) G True no live2 unfolding loop_inv_def by (auto simp: l2_def live_def)
    moreover have "registered l2 = (registered l)(fd \<mapsto> (ev, cb, ud))"
      using no(4) unfolding registered_pairs live2
      by (auto simp: entry_pair_def map_add_def fun_eq_iff split: option.splits)
    ultimately show ?thesis using r no G by (simp add: l2_def)
  qed
qed

lemma event_loop_mod_spec:
  assumes "loop_inv l" and "event_loop_mod (Some l) fd ev = (err, lp)"
  shows "\<exists>l'. lp = Some l' \<and> loop_inv l' \<and> el_dispatching l' = el_dispatching l \<and> el_pollfds l' = el_pollfds l
       \<and> length (el_entries l') = length (el_entries l)
       \<and> (\<forall>i < length (el_entries l). ee_fd (el_entries l' ! i) = ee_fd (el_entries l ! i)
            \<and> ee_cb (el_entries l' ! i) = ee_cb (el_entries l ! i)
            \<and> ee_user_data (el_entries l' ! i) = ee_user_data (el_entries l ! i))
       \<and> (case registered l fd of
            Some (ev0, cb, ud) \<Rightarrow> if 0 \<le> fd \<and> ev \<noteq> 0 then err = ERR_OK \<and> registered l' = (registered l)(fd \<mapsto> (ev, cb, ud))
                                  else err = ERR_INVALID_ARG \<and> registered l' = registered l
          | None \<Rightarrow> err \<noteq> ERR_OK \<and> registered l' = registered l)"
proof (cases "0 \<le> fd \<and> ev \<noteq> 0 \<and> find_index (el_entries l) fd \<noteq> None")
  case False
  then have "lp = Some l \<and> err = (if fd < 0 \<or> ev = 0 then ERR_INVALID_ARG else ERR_NOT_FOUND)"
    using assms(2) by (auto simp: event_loop_mod_def split: option.splits if_splits)
  moreover have "registered l fd = None \<or> fd < 0 \<or> ev = 0" using False registered_None [of fd l] by force
  moreover have "fd < 0 \<Longrightarrow> registered l fd = None"
    by (auto simp: registered_def live_def map_of_eq_None_iff)
  ultimately show ?thesis using assms(1) by (auto split: option.splits)
next
  case True
  then obtain i where i: "find_index (el_entries l) fd = Some i" by auto
  obtain xs e ys where es: "el_entries l = xs @ e # ys" "length xs = i" "ee_fd e = fd"
    using find_index_split [OF i] by blast
  define l' where "l' = l\<lparr>el_entries := xs @ e\<lparr>ee_events := ev\<rparr> # ys\<rparr>"
  have r: "lp = Some l'" "err = ERR_OK"
    using assms(2) True i es by (auto simp: event_loop_mod_def l'_def)
  let ?f = "filter (\<lambda>e. 0 \<le> ee_fd e)"
  have lv: "live l = ?f xs @ e # ?f ys" "live l' = ?f xs @ e\<lparr>ee_events := ev\<rparr> # ?f ys"
    using True es by (auto simp: live_def l'_def)
  have d: "distinct (map ee_fd (live l))" using assms(1) by (simp add: loop_inv_def)
  have inv: "loop_inv l'"
    using assms(1) lv es(1) by (auto simp: loop_inv_def l'_def live_def)
  have nf: "fd \<notin> ee_fd ` set (?f xs)" using d es(3) unfolding lv(1) by auto
  then have mx: "map_of (map entry_pair (?f xs)) fd = None" by (auto simp: map_of_eq_None_iff image_image)
  have "registered l fd = Some (ee_events e, ee_cb e, ee_user_data e)"
    using mx es(3) unfolding registered_pairs lv(1) by (simp add: entry_pair_def map_add_def)
  moreover have "registered l' = (registered l)(fd \<mapsto> (ev, ee_cb e, ee_user_data e))"
  proof
    fix x show "registered l' x = ((registered l)(fd \<mapsto> (ev, ee_cb e, ee_user_data e))) x"
      using mx es(3) unfolding registered_pairs lv
      by (cases "x = fd") (auto simp: entry_pair_def map_add_def split: option.splits)
  qed
  moreover have "\<forall>j < length (el_entries l). ee_fd (el_entries l' ! j) = ee_fd (el_entries l ! j)
            \<and> ee_cb (el_entries l' ! j) = ee_cb (el_entries l ! j)
            \<and> ee_user_data (el_entries l' ! j) = ee_user_data (el_entries l ! j)"
    unfolding es(1) l'_def by (auto simp: nth_append nth_Cons split: nat.splits)
  ultimately show ?thesis using r inv True es(1) by (simp add: l'_def)
qed

lemma event_loop_remove_spec:
  assumes "loop_inv l" and "event_loop_remove (Some l) fd = (err, lp)"
  shows "\<exists>l'. lp = Some l' \<and> loop_inv l' \<and> el_dispatching l' = el_dispatching l \<and> el_pollfds l' = el_pollfds l
       \<and> (if registered l fd = None then err \<noteq> ERR_OK \<and> l' = l
          else err = ERR_OK \<and> registered l' = (registered l)(fd := None)
             \<and> (el_dispatching l \<longrightarrow> length (el_entries l') = length (el_entries l)
                  \<and> (\<forall>i < length (el_entries l).
                       ee_cb (el_entries l' ! i) = ee_cb (el_entries l ! i)
                     \<and> ee_user_data (el_entries l' ! i) = ee_user_data (el_entries l ! i)
                     \<and> (ee_fd (el_entries l' ! i) = ee_fd (el_entries l ! i)
                        \<or> ee_fd (el_entries l' ! i) = - 1 \<and> ee_fd (el_entries l ! i) = fd))))"
proof (cases "0 \<le> fd \<and> find_index (el_entries l) fd \<noteq> None")
  case False
  have "fd < 0 \<Longrightarrow> registered l fd = None" by (auto simp: registered_def live_def map_of_eq_None_iff)
  then have "registered l fd = None" using False registered_None [of fd l] by force
  moreover have "lp = Some l" "err \<noteq> ERR_OK"
    using False assms(2) by (auto simp: event_loop_remove_def split: option.splits if_splits)
  ultimately show ?thesis using assms(1) by simp
next
  case True
  then obtain i where i: "find_index (el_entries l) fd = Some i" by auto
  obtain xs e ys where es: "el_entries l = xs @ e # ys" "length xs = i" "ee_fd e = fd"
    using find_index_split [OF i] by blast
  have reg: "registered l fd \<noteq> None" using True registered_None [of fd l] by simp
  have d: "distinct (map ee_fd (live l))" using assms(1) by (simp add: loop_inv_def)
  let ?f = "filter (\<lambda>e. 0 \<le> ee_fd e)"
  have lv: "live l = ?f xs @ e # ?f ys" using True es by (simp add: live_def)
  have gone: "map_of (map entry_pair zs) = (registered l)(fd := None)"
    if "distinct (map ee_fd zs)" "set zs = set (?f xs @ ?f ys)" for zs
  proof
    fix x
    have "distinct (map ee_fd (?f xs @ ?f ys))" using d unfolding lv by auto
    then have "map_of (map entry_pair zs) = map_of (map entry_pair (?f xs @ ?f ys))"
      using that by (intro registered_cong) auto
    moreover have "fd \<notin> ee_fd ` set (?f xs @ ?f ys)" using d es(3) unfolding lv by auto
    then have "map_of (map entry_pair (?f xs @ ?f ys)) fd = None" by (auto simp: map_of_eq_None_iff image_image)
    moreover have "x \<noteq> fd \<Longrightarrow> registered l x = map_of (map entry_pair (?f xs @ ?f ys)) x"
      using es(3) unfolding registered_pairs lv
      by (simp add: entry_pair_def map_add_def split: option.splits)
    ultimately show "map_of (map entry_pair zs) x = ((registered l)(fd := None)) x" by (cases "x = fd") auto
  qed
  show ?thesis
  proof (cases "el_dispatching l")
    case disp: True
    define l' where "l' = l\<lparr>el_entries := xs @ e\<lparr>ee_fd := - 1\<rparr> # ys\<rparr>"
    have r: "lp = Some l'" "err = ERR_OK"
      using assms(2) True i es disp by (auto simp: event_loop_remove_def l'_def)
    have lv': "live l' = ?f xs @ ?f ys" by (simp add: live_def l'_def)
    have d': "distinct (map ee_fd (live l'))" using d unfolding lv lv' by auto
    have "loop_inv l'" using assms(1) d' disp es(1) by (simp add: loop_inv_def l'_def)
    moreover have "registered l' = (registered l)(fd := None)"
      unfolding registered_pairs [of l'] using gone [OF d'] unfolding lv' by simp
    moreover have "\<forall>j < length (el_entries l). ee_cb (el_entries l' ! j) = ee_cb (el_entries l ! j)
                     \<and> ee_user_data (el_entries l' ! j) = ee_user_data (el_entries l ! j)
                     \<and> (ee_fd (el_entries l' ! j) = ee_fd (el_entries l ! j)
                        \<or> ee_fd (el_entries l' ! j) = - 1 \<and> ee_fd (el_entries l ! j) = fd)"
      unfolding es(1) l'_def using es(3) by (auto simp: nth_append nth_Cons split: nat.splits)
    ultimately show ?thesis using r reg disp es(1) by (simp add: l'_def)
  next
    case idle: False
    define l' where "l' = l\<lparr>el_entries := butlast ((el_entries l)[i := el_entries l ! (length (el_entries l) - 1)])\<rparr>"
    have r: "lp = Some l'" "err = ERR_OK"
      using assms(2) True i idle by (auto simp: event_loop_remove_def l'_def)
    have all: "?f xs = xs" "?f ys = ys"
      using assms(1) idle es(1) unfolding loop_inv_def by (simp_all add: filter_id_conv)
    have d0: "distinct (map ee_fd (xs @ e # ys))" using d unfolding lv all .
    have ents: "set (el_entries l') = set (xs @ ys) \<and> distinct (map ee_fd (el_entries l'))
      \<and> length (el_entries l') = length xs + length ys"
    proof (cases ys rule: rev_cases)
      case Nil
      then show ?thesis using d0 es by (simp add: l'_def)
    next
      case (snoc zs z)
      have "el_entries l' = xs @ z # zs"
        unfolding l'_def es(1) snoc using es(2) by (auto simp: list_update_append nth_append butlast_append)
      then show ?thesis using d0 snoc by auto
    qed
    have lv': "live l' = el_entries l'"
      using ents assms(1) idle es(1) by (auto simp: live_def filter_id_conv loop_inv_def)
    have "el_cap l' = el_cap l" "el_dispatching l' = el_dispatching l" by (simp_all add: l'_def)
    then have "loop_inv l'" using assms(1) ents lv' es(1) idle unfolding loop_inv_def by auto
    moreover have "registered l' = (registered l)(fd := None)"
      unfolding registered_pairs [of l'] lv' by (rule gone) (use ents all in auto)
    ultimately show ?thesis using r reg idle by (simp add: l'_def)
  qed
qed


section \<open>The dispatch round\<close>

text \<open>What callbacks may do to the entries that were there: change interest, or remove.\<close>

definition kept :: "'cb loop_op list \<Rightarrow> 'cb event_entry list \<Rightarrow> 'cb event_entry list \<Rightarrow> bool" where
  "kept ops es es' \<longleftrightarrow> length es \<le> length es' \<and> (\<forall>i < length es.
     ee_cb (es' ! i) = ee_cb (es ! i) \<and> ee_user_data (es' ! i) = ee_user_data (es ! i)
     \<and> (ee_fd (es' ! i) = ee_fd (es ! i)
        \<or> ee_fd (es' ! i) = - 1 \<and> (ee_fd (es ! i) < 0 \<or> OpRemove (ee_fd (es ! i)) \<in> set ops)))"

lemma kept_refl [simp]: "kept ops es es"
  by (simp add: kept_def)

lemma kept_trans:
  assumes "kept o1 es es'" and "kept o2 es' es''" shows "kept (o1 @ o2) es es''"
  unfolding kept_def
proof (intro conjI allI impI)
  show "length es \<le> length es''" using assms by (auto simp: kept_def)
  fix i assume i: "i < length es"
  then have i': "i < length es'" using assms(1) by (auto simp: kept_def)
  show "ee_cb (es'' ! i) = ee_cb (es ! i)" "ee_user_data (es'' ! i) = ee_user_data (es ! i)"
    using assms i i' by (auto simp: kept_def)
  show "ee_fd (es'' ! i) = ee_fd (es ! i)
        \<or> ee_fd (es'' ! i) = - 1 \<and> (ee_fd (es ! i) < 0 \<or> OpRemove (ee_fd (es ! i)) \<in> set (o1 @ o2))"
    using assms i i' unfolding kept_def by (metis (no_types, lifting) Un_iff set_append neg_less_0_iff_less zero_less_one)
qed

lemma apply_op_kept:
  assumes "loop_inv l" and "el_dispatching l"
  shows "loop_inv (apply_op op l) \<and> el_dispatching (apply_op op l)
       \<and> el_pollfds (apply_op op l) = el_pollfds l \<and> kept [op] (el_entries l) (el_entries (apply_op op l))"
proof (cases op)
  case (OpAdd a b fd ev cbp ud)
  show ?thesis
  proof (cases cbp)
    case None
    then show ?thesis using OpAdd assms by (simp add: event_loop_add_def)
  next
    case (Some cb)
    obtain err lp where r: "event_loop_add a b (Some l) fd ev (Some cb) ud = (err, lp)" by fastforce
    from event_loop_add_spec [OF assms(1) r] obtain l' where l': "lp = Some l'" "loop_inv l'"
      "el_dispatching l' = el_dispatching l" "el_pollfds l' = el_pollfds l"
      "el_entries l' = el_entries l \<or> (\<exists>e. el_entries l' = el_entries l @ [e])" by (auto split: if_splits)
    then have "kept [op] (el_entries l) (el_entries l')" by (auto simp: kept_def nth_append)
    then show ?thesis using l' OpAdd Some r assms(2) by simp
  qed
next
  case (OpMod fd ev)
  obtain err lp where r: "event_loop_mod (Some l) fd ev = (err, lp)" by fastforce
  from event_loop_mod_spec [OF assms(1) r] obtain l' where l': "lp = Some l'" "loop_inv l'"
      "el_dispatching l' = el_dispatching l" "el_pollfds l' = el_pollfds l" "kept [op] (el_entries l) (el_entries l')"
    by (auto simp: kept_def)
  then show ?thesis using OpMod r assms(2) by simp
next
  case (OpRemove fd)
  obtain err lp where r: "event_loop_remove (Some l) fd = (err, lp)" by fastforce
  from event_loop_remove_spec [OF assms(1) r] obtain l' where l': "lp = Some l'" "loop_inv l'"
      "el_dispatching l' = el_dispatching l" "el_pollfds l' = el_pollfds l" and
      R: "if registered l fd = None then l' = l else length (el_entries l') = length (el_entries l)
            \<and> (\<forall>i < length (el_entries l).
                 ee_cb (el_entries l' ! i) = ee_cb (el_entries l ! i)
               \<and> ee_user_data (el_entries l' ! i) = ee_user_data (el_entries l ! i)
               \<and> (ee_fd (el_entries l' ! i) = ee_fd (el_entries l ! i)
                  \<or> ee_fd (el_entries l' ! i) = - 1 \<and> ee_fd (el_entries l ! i) = fd))"
    using assms(2) by auto
  have "kept [op] (el_entries l) (el_entries l')"
    using R OpRemove by (cases "registered l fd = None") (simp, force simp: kept_def)
  then show ?thesis using OpRemove r l' assms(2) by simp
next
  case OpStop
  then show ?thesis using assms by (simp add: event_loop_stop_def loop_inv_def live_def)
qed

lemma apply_ops_kept:
  assumes "loop_inv l" and "el_dispatching l"
  shows "loop_inv (fold apply_op ops l) \<and> el_dispatching (fold apply_op ops l)
       \<and> el_pollfds (fold apply_op ops l) = el_pollfds l \<and> kept ops (el_entries l) (el_entries (fold apply_op ops l))"
  using assms
proof (induction ops arbitrary: l)
  case (Cons op ops)
  note S = apply_op_kept [OF Cons.prems, of op]
  have "kept ([op] @ ops) (el_entries l) (el_entries (fold apply_op ops (apply_op op l)))"
    using S Cons.IH [of "apply_op op l"] by (intro kept_trans [of _ _ "el_entries (apply_op op l)"]) auto
  then show ?case using S Cons.IH [of "apply_op op l"] by simp
qed simp

text \<open>The call entry \<open>i\<close> is due, if any.\<close>

definition due :: "'cb event_loop \<Rightarrow> nat \<Rightarrow> ('cb \<times> int \<times> u32 \<times> u64) option" where
  "due l i =
     (let e = el_entries l ! i; ready = poll_to_ready (pf_revents (el_pollfds l ! i))
      in if ee_fd e < 0 \<or> ready = 0 then None else Some (ee_cb e, ee_fd e, ready, ee_user_data e))"

text \<open>The operations that calls performed, in order.\<close>

definition ops_of :: "'cb calls \<Rightarrow> 'cb loop_op list" where
  "ops_of calls = concat (map snd calls)"

lemma ops_of_simps [simp]: "ops_of [] = []" "ops_of (c # calls) = snd c @ ops_of calls"
  by (simp_all add: ops_of_def)

text \<open>Every call was made while its descriptor was registered with its callback and user data.\<close>

definition calls_registered :: "'cb event_loop \<Rightarrow> 'cb calls \<Rightarrow> bool" where
  "calls_registered l calls \<longleftrightarrow>
     (\<forall>i < length calls. case calls ! i of ((cb, fd, ready, ud), ops) \<Rightarrow>
        \<exists>ev. registered (fold apply_op (ops_of (take i calls)) l) fd = Some (ev, cb, ud))"

lemma calls_registered_Cons:
  assumes "registered l fd = Some (ev, cb, ud)" and "calls_registered (fold apply_op ops l) calls"
  shows "calls_registered l (((cb, fd, ready, ud), ops) # calls)"
  using assms by (auto simp: calls_registered_def less_Suc_eq_0_disj)

lemma due_after:
  assumes "kept ops (el_entries l) (el_entries l')" and "el_pollfds l' = el_pollfds l" and "j < length (el_entries l)"
  shows "due l' j = due l j \<or> due l' j = None \<and> OpRemove (fst (snd (the (due l j)))) \<in> set ops"
  using assms unfolding due_def kept_def Let_def by (smt (verit, ccfv_threshold) fst_conv snd_conv option.sel)

lemma in_map_filter: "x \<in> set (List.map_filter f xs) \<longleftrightarrow> (\<exists>y \<in> set xs. f y = Some x)"
  by (induction xs) (auto simp: List.map_filter_simps split: option.splits)

lemma subseq_map_filter:
  "(\<And>j. j \<in> set js \<Longrightarrow> g j = f j \<or> g j = None) \<Longrightarrow> subseq (List.map_filter g js) (List.map_filter f js)"
proof (induction js)
  case (Cons a js)
  then have "subseq (List.map_filter g js) (List.map_filter f js)" by simp
  moreover have "g a = f a \<or> g a = None" using Cons.prems [of a] by simp
  ultimately show ?case by (auto simp: List.map_filter_simps split: option.splits intro: list_emb_Cons)
qed (simp add: List.map_filter_simps)

lemma dispatch_loop_spec:
  assumes "loop_inv l" and "el_dispatching l" and "i + m \<le> length (el_entries l)" and "i + m \<le> length (el_pollfds l)"
  shows "\<exists>l' w' calls. dispatch_loop prog m i l w = Some (l', w', calls)
       \<and> loop_inv l' \<and> el_dispatching l' \<and> l' = fold apply_op (ops_of calls) l \<and> calls_registered l calls
       \<and> subseq (map fst calls) (List.map_filter (due l) [i ..< i + m])
       \<and> (\<forall>c \<in> set (List.map_filter (due l) [i ..< i + m]) - fst ` set calls. OpRemove (fst (snd c)) \<in> set (ops_of calls))"
  using assms
proof (induction m arbitrary: i l w)
  case 0
  then show ?case by (simp add: List.map_filter_simps calls_registered_def)
next
  case (Suc m)
  have up: "[i ..< i + Suc m] = i # [Suc i ..< Suc i + m]" by (simp add: upt_conv_Cons del: upt_Suc)
  let ?e = "el_entries l ! i"
  let ?ready = "poll_to_ready (pf_revents (el_pollfds l ! i))"
  show ?case
  proof (cases "ee_fd ?e < 0 \<or> ?ready = 0")
    case True
    then have "dispatch_loop prog (Suc m) i l w = dispatch_loop prog m (Suc i) l w" "due l i = None"
      using Suc.prems by (auto simp: Let_def due_def)
    moreover have "Suc i + m \<le> length (el_entries l)" "Suc i + m \<le> length (el_pollfds l)" using Suc.prems by simp_all
    ultimately show ?thesis using Suc.IH [OF Suc.prems(1,2), of "Suc i" w] unfolding up
      by (simp add: List.map_filter_simps)
  next
    case False
    obtain ops w1 where p: "prog (ee_cb ?e) (ee_fd ?e) ?ready (ee_user_data ?e) l w = (ops, w1)" by fastforce
    define l1 where "l1 = fold apply_op ops l"
    note A = apply_ops_kept [OF Suc.prems(1,2), of ops, folded l1_def]
    have len: "Suc i + m \<le> length (el_entries l1)" "Suc i + m \<le> length (el_pollfds l1)"
      using A Suc.prems by (auto simp: kept_def)
    obtain l' w' calls where R: "dispatch_loop prog m (Suc i) l1 w1 = Some (l', w', calls)"
      "loop_inv l'" "el_dispatching l'" "l' = fold apply_op (ops_of calls) l1" "calls_registered l1 calls"
      "subseq (map fst calls) (List.map_filter (due l1) [Suc i ..< Suc i + m])"
      "\<forall>c \<in> set (List.map_filter (due l1) [Suc i ..< Suc i + m]) - fst ` set calls. OpRemove (fst (snd c)) \<in> set (ops_of calls)"
      using Suc.IH [of l1 "Suc i" w1] A len by blast
    let ?c = "(ee_cb ?e, ee_fd ?e, ?ready, ee_user_data ?e)"
    have d: "due l i = Some ?c" using False by (simp add: due_def Let_def)
    have step: "dispatch_loop prog (Suc m) i l w = Some (l', w', (?c, ops) # calls)"
      using False Suc.prems p R(1) by (simp add: Let_def l1_def)
    have "?e \<in> set (live l)" using False Suc.prems(3) by (auto simp: live_def)
    then have reg: "calls_registered l ((?c, ops) # calls)"
      by (intro calls_registered_Cons [OF live_registered [OF Suc.prems(1)]]) (use R(5) in \<open>simp_all add: l1_def\<close>)
    have af: "due l1 j = due l j \<or> due l1 j = None \<and> OpRemove (fst (snd (the (due l j)))) \<in> set ops"
      if "j \<in> set [Suc i ..< Suc i + m]" for j
      by (rule due_after) (use A that Suc.prems in auto)
    have sub: "subseq (map fst calls) (List.map_filter (due l) [Suc i ..< Suc i + m])"
    proof (rule subseq_order.trans [OF R(6)], rule subseq_map_filter)
      fix j assume "j \<in> set [Suc i ..< Suc i + m]"
      from af [OF this] show "due l1 j = due l j \<or> due l1 j = None" by (elim disjE conjE) simp_all
    qed
    have miss: "OpRemove (fst (snd c)) \<in> set (ops @ ops_of calls)"
      if c: "c \<in> set (List.map_filter (due l) [Suc i ..< Suc i + m])" "c \<notin> fst ` set calls" for c
    proof -
      obtain j where j: "j \<in> set [Suc i ..< Suc i + m]" "due l j = Some c"
        using c(1) unfolding in_map_filter by blast
      show ?thesis
      proof (cases "due l1 j = due l j")
        case True
        then have "c \<in> set (List.map_filter (due l1) [Suc i ..< Suc i + m])"
          using j unfolding in_map_filter by metis
        then show ?thesis using R(7) c(2) by auto
      next
        case False
        then show ?thesis using af [OF j(1)] j(2) by auto
      qed
    qed
    have mf: "List.map_filter (due l) [i ..< i + Suc m] = ?c # List.map_filter (due l) [Suc i ..< Suc i + m]"
      unfolding up using d by (simp add: List.map_filter_simps)
    have "subseq (map fst ((?c, ops) # calls)) (List.map_filter (due l) [i ..< i + Suc m])" unfolding mf using sub by simp
    moreover have "\<forall>c \<in> set (List.map_filter (due l) [i ..< i + Suc m]) - fst ` set ((?c, ops) # calls).
        OpRemove (fst (snd c)) \<in> set (ops_of ((?c, ops) # calls))"
    proof (intro ballI)
      fix c assume "c \<in> set (List.map_filter (due l) [i ..< i + Suc m]) - fst ` set ((?c, ops) # calls)"
      then have "c \<in> set (?c # List.map_filter (due l) [Suc i ..< Suc i + m])" "c \<noteq> ?c" "c \<notin> fst ` set calls"
        unfolding mf by auto
      then have "c \<in> set (List.map_filter (due l) [Suc i ..< Suc i + m])" by simp
      from miss [OF this \<open>c \<notin> fst ` set calls\<close>]
      show "OpRemove (fst (snd c)) \<in> set (ops_of ((?c, ops) # calls))" by simp
    qed
    moreover have "l' = fold apply_op (ops_of ((?c, ops) # calls)) l" using R(4) by (simp add: l1_def)
    ultimately show ?thesis using step R(2,3) reg by blast
  qed
qed

lemma compact_loop_spec:
  assumes "kept0 \<le> i" and "i + m = length es"
    and "take kept0 es = filter (\<lambda>e. 0 \<le> ee_fd e) (take i es0)" and "drop i es = drop i es0"
    and "length es0 = length es"
  shows "compact_loop m i kept0 es = filter (\<lambda>e. 0 \<le> ee_fd e) es0"
  using assms
proof (induction m arbitrary: i kept0 es)
  case 0
  then show ?case by simp
next
  case (Suc m)
  have i: "i < length es" using Suc.prems(2) by simp
  have e: "es ! i = es0 ! i"
    using Suc.prems(4,5) i by (metis hd_drop_conv_nth)
  have t: "take (Suc i) es0 = take i es0 @ [es0 ! i]" using i Suc.prems(5) by (simp add: take_Suc_conv_app_nth)
  have d: "drop (Suc i) es = drop (Suc i) es0" using Suc.prems(4) by (metis drop_Suc tl_drop)
  show ?case
  proof (cases "0 \<le> ee_fd (es ! i)")
    case False
    then show ?thesis using Suc.IH [of kept0 "Suc i" es] Suc.prems e t d by simp
  next
    case True
    let ?es = "es[kept0 := es ! i]"
    have "take (Suc kept0) ?es = take kept0 es @ [es ! i]"
      using Suc.prems(1) i by (simp add: take_Suc_conv_app_nth)
    then have "take (Suc kept0) ?es = filter (\<lambda>e. 0 \<le> ee_fd e) (take (Suc i) es0)"
      using Suc.prems(3) True e t by simp
    moreover have "drop (Suc i) ?es = drop (Suc i) es0" using d Suc.prems(1) by simp
    ultimately show ?thesis using Suc.IH [of "Suc kept0" "Suc i" ?es] Suc.prems True by simp
  qed
qed

lemma compact_live: "el_entries (compact l) = live l"
  unfolding compact_def live_def using compact_loop_spec [of 0 0 "length (el_entries l)" "el_entries l" "el_entries l"]
  by simp


text \<open>
  What a round keeps: a statement about the registrations and the client's state that every callback of
  a live entry keeps.
\<close>

lemma dispatch_loop_keeps:
  assumes "dispatch_loop prog m i l w = Some (l', w', calls)" and "loop_inv l" and "el_dispatching l" and "Q (registered l) w"
    and "\<And>l w e ready ops w'. Q (registered l) w \<Longrightarrow> loop_inv l \<Longrightarrow> el_dispatching l \<Longrightarrow> e \<in> set (live l)
      \<Longrightarrow> prog (ee_cb e) (ee_fd e) ready (ee_user_data e) l w = (ops, w') \<Longrightarrow> Q (registered (fold apply_op ops l)) w'"
  shows "loop_inv l' \<and> Q (registered l') w'"
  using assms(1-4)
proof (induction m arbitrary: i l w calls)
  case (Suc m)
  let ?e = "el_entries l ! i" and ?ready = "poll_to_ready (pf_revents (el_pollfds l ! i))"
  show ?case
  proof (cases "i \<ge> length (el_entries l) \<or> ee_fd ?e < 0 \<or> ?ready = 0")
    case True
    then show ?thesis using Suc.IH [OF _ Suc.prems(2-4)] Suc.prems(1) by (auto simp: Let_def split: if_splits)
  next
    case False
    obtain os w1 where p: "prog (ee_cb ?e) (ee_fd ?e) ?ready (ee_user_data ?e) l w = (os, w1)" by fastforce
    have e: "?e \<in> set (live l)" using False by (auto simp: live_def)
    note A = apply_ops_kept [OF Suc.prems(2,3), of os]
    obtain calls' where "dispatch_loop prog m (Suc i) (fold apply_op os l) w1 = Some (l', w', calls')"
      using Suc.prems(1) False p by (auto simp: Let_def bind_eq_Some_conv split: if_splits)
    then show ?thesis using Suc.IH [of _ "fold apply_op os l"] A assms(5) [OF Suc.prems(4,2,3) e p] by blast
  qed
qed simp

lemma registered_cong_entries: "el_entries l' = el_entries l \<Longrightarrow> registered l' = registered l"
  by (simp add: registered_def live_def)

lemma loop_inv_cong:
  "el_entries l' = el_entries l \<Longrightarrow> el_cap l' = el_cap l \<Longrightarrow> el_dispatching l' = el_dispatching l \<Longrightarrow> loop_inv l' = loop_inv l"
  by (simp add: loop_inv_def live_def)

lemma registered_compact: "registered (compact l) = registered l"
  unfolding registered_def live_def [of "compact l"] compact_live by (simp add: live_def)

lemma poll_once_keeps:
  assumes "event_loop_poll_once prog answers (Some l) w = Some (err, Some l', w', calls)"
    and "loop_inv l" and "\<not> el_dispatching l" and "Q (registered l) w"
    and "\<And>l w e ready ops w'. Q (registered l) w \<Longrightarrow> loop_inv l \<Longrightarrow> el_dispatching l \<Longrightarrow> e \<in> set (live l)
      \<Longrightarrow> prog (ee_cb e) (ee_fd e) ready (ee_user_data e) l w = (ops, w') \<Longrightarrow> Q (registered (fold apply_op ops l)) w'"
  shows "loop_inv l' \<and> \<not> el_dispatching l' \<and> Q (registered l') w'"
proof -
  let ?f = "fill_pollfds l"
  have f: "loop_inv ?f" "\<not> el_dispatching ?f" "registered ?f = registered l"
    using assms(2,3) loop_inv_cong [of ?f l] registered_cong_entries [of ?f l] by (simp_all add: fill_pollfds_def)
  consider "l' = l \<or> l' = ?f" "w' = w" | rs l1 calls' where
      "dispatch_loop prog (length (el_entries l)) 0 ((set_revents rs ?f)\<lparr>el_dispatching := True\<rparr>) w = Some (l1, w', calls')"
      "l' = compact (l1\<lparr>el_dispatching := False\<rparr>)"
  proof (cases "el_entries l = []")
    case True
    then show ?thesis using assms(1) that(1) by (auto simp: event_loop_poll_once_def)
  next
    case ne: False
    note run = assms(1) [unfolded event_loop_poll_once_def option.case if_not_P [OF ne] Let_def]
    show ?thesis
    proof (cases "\<exists>rs. poll_retry answers = Some (PollReady rs) \<and> length rs = length (el_pollfds ?f) \<and> \<not> (\<forall>r \<in> set rs. r = 0)")
      case True
      then obtain rs where rs: "poll_retry answers = Some (PollReady rs)" "length rs = length (el_pollfds ?f)" "\<not> (\<forall>r \<in> set rs. r = 0)" by blast
      have "el_entries ?f = el_entries l" by (simp add: fill_pollfds_def)
      then show ?thesis using run that(2) [of rs] unfolding rs(1) option.case poll_answer.case if_not_P [OF rs(3)]
        using rs(2) by (auto simp: bind_eq_Some_conv)
    next
      case False
      then have "l' = ?f \<and> w' = w"
        using run by (cases "poll_retry answers"; cases "the (poll_retry answers)"; auto split: if_splits)
      then show ?thesis using that(1) by blast
    qed
  qed
  then show ?thesis
  proof cases
    case 1
    then show ?thesis using f assms(2-4) by auto
  next
    case 2
    let ?l0 = "(set_revents rs ?f)\<lparr>el_dispatching := True\<rparr>"
    have same: "live ?l0 = live ?f" "el_entries ?l0 = el_entries ?f" "el_cap ?l0 = el_cap ?f"
      by (simp_all add: live_def set_revents_def)
    then have l0: "loop_inv ?l0" "el_dispatching ?l0" "Q (registered ?l0) w"
      using f(1,3) assms(4) registered_cong_entries [OF same(2)] by (simp_all add: loop_inv_def)
    have "loop_inv l1 \<and> Q (registered l1) w'" by (rule dispatch_loop_keeps [of prog _ _ _ _ _ _ _ Q, OF 2(1) l0 assms(5)])
    moreover have "registered l' = registered l1"
      unfolding 2(2) registered_compact by (rule registered_cong_entries) simp
    moreover have "el_entries l' = live l1" "el_cap l' = el_cap l1" "\<not> el_dispatching l'"
      unfolding 2(2) compact_live by (simp_all add: live_def compact_def)
    ultimately show ?thesis by (auto simp: loop_inv_def live_def intro: le_trans [OF length_filter_le])
  qed
qed

text \<open>The loop when its callbacks run: the readiness is in place and the loop is marked as dispatching.\<close>

definition dispatch_start :: "(16 word) list \<Rightarrow> 'cb event_loop \<Rightarrow> 'cb event_loop" where
  "dispatch_start rs l = (set_revents rs (fill_pollfds l))\<lparr>el_dispatching := True\<rparr>"

lemma poll_once_dispatches:
  assumes "loop_inv l" and "\<not> el_dispatching l" and "poll_retry answers = Some (PollReady rs)"
    and "length rs = length (el_entries l)"
  shows "\<exists>l' w' calls. event_loop_poll_once prog answers (Some l) w = Some (ERR_OK, Some l', w', calls)
       \<and> loop_inv l' \<and> \<not> el_dispatching l' \<and> registered l' = registered (fold apply_op (ops_of calls) (dispatch_start rs l))
       \<and> calls_registered (dispatch_start rs l) calls
       \<and> subseq (map fst calls) (List.map_filter (due (dispatch_start rs l)) [0 ..< length (el_entries l)])
       \<and> (\<forall>c \<in> set (List.map_filter (due (dispatch_start rs l)) [0 ..< length (el_entries l)]) - fst ` set calls.
            OpRemove (fst (snd c)) \<in> set (ops_of calls))"
proof -
  let ?f = "fill_pollfds l" and ?l0 = "dispatch_start rs l"
  have len: "length (el_pollfds ?f) = length rs" using assms(4) by (simp add: fill_pollfds_def)
  have invf: "loop_inv ?f" using assms(1) by (simp add: loop_inv_def live_def fill_pollfds_def)
  have nf: "\<not> el_dispatching ?f" using assms(2) by (simp add: fill_pollfds_def)
  have same: "el_entries ?f = el_entries l" "el_entries ?l0 = el_entries l" "el_cap ?l0 = el_cap l"
    by (simp_all add: fill_pollfds_def dispatch_start_def set_revents_def)
  have l0: "loop_inv ?l0" "el_dispatching ?l0" "length (el_pollfds ?l0) = length rs"
    using assms(1) len same by (simp_all add: loop_inv_def live_def) (simp_all add: dispatch_start_def set_revents_def)
  show ?thesis
  proof (cases "\<forall>r \<in> set rs. r = 0")
    case True
    have "due ?l0 j = None" if "j < length rs" for j
      using True [rule_format, OF nth_mem [OF that]] len that
      by (simp add: due_def dispatch_start_def set_revents_def poll_to_ready_def Let_def)
    then have "List.map_filter (due ?l0) [0 ..< length (el_entries l)] = []"
      using assms(4) by (simp add: List.map_filter_def filter_empty_conv)
    moreover have "event_loop_poll_once prog answers (Some l) w
        = Some (ERR_OK, Some (if el_entries l = [] then l else ?f), w, [])"
      using True len assms(3) by (simp add: event_loop_poll_once_def)
    ultimately show ?thesis using assms(1,2) invf nf same registered_cong_entries [of ?f l] registered_cong_entries [of ?l0 l]
      by (auto simp: calls_registered_def)
  next
    case False
    then have ne: "el_entries l \<noteq> []" using assms(4) by (cases rs) auto
    obtain l' w' calls where D: "dispatch_loop prog (length (el_entries l)) 0 ?l0 w = Some (l', w', calls)"
      "loop_inv l'" "l' = fold apply_op (ops_of calls) ?l0" "calls_registered ?l0 calls"
      "subseq (map fst calls) (List.map_filter (due ?l0) [0 ..< length (el_entries l)])"
      "\<forall>c \<in> set (List.map_filter (due ?l0) [0 ..< length (el_entries l)]) - fst ` set calls. OpRemove (fst (snd c)) \<in> set (ops_of calls)"
      using dispatch_loop_spec [OF l0(1,2), of 0 "length (el_entries l)" prog w] l0(3) same(2) assms(4) by auto
    define l2 where "l2 = compact (l'\<lparr>el_dispatching := False\<rparr>)"
    have run: "event_loop_poll_once prog answers (Some l) w = Some (ERR_OK, Some l2, w', calls)"
      using False ne len assms(3) D(1) same(1) by (auto simp add: event_loop_poll_once_def dispatch_start_def l2_def Let_def)
    have l2: "el_entries l2 = live l'" "el_cap l2 = el_cap l'" "\<not> el_dispatching l2"
      unfolding l2_def compact_live by (simp_all add: live_def compact_def)
    then have "live l2 = live l'" by (simp add: live_def)
    moreover have "length (live l') \<le> unat (el_cap l')"
      using D(2) unfolding loop_inv_def live_def by (meson le_trans length_filter_le)
    ultimately have "loop_inv l2" using D(2) l2 by (auto simp: loop_inv_def live_def)
    moreover have "registered l2 = registered l'"
      unfolding l2_def registered_compact by (rule registered_cong_entries) simp
    ultimately show ?thesis using run l2(3) D(3-6) by blast
  qed
qed

section \<open>Properties\<close>

text \<open>
  C19. The loop keeps a finite map from descriptors to their interest, callback and user data,
  inside and outside of dispatch. Adding refuses a descriptor already there, a
  negative one and an empty interest with \<open>ERR_INVALID_ARG\<close>; otherwise it succeeds, and extends the map, when there is a free entry or
  both arrays can grow, and answers \<open>ERR_NOMEM\<close> when they cannot (\<open>ERR_OVERFLOW\<close> when their size would not fit in 64 bits).
  Changing the interest updates one entry and removing deletes one: a negative descriptor or an empty interest is
  \<open>ERR_INVALID_ARG\<close>, a descriptor that is not registered \<open>ERR_NOT_FOUND\<close>, and otherwise they succeed. An operation that fails changes no
  registration, no other entry is affected, and outside dispatch the count is the number of registered descriptors.
\<close>

theorem event_loop_registrations:
  assumes "loop_inv l"
  shows "(case event_loop_add a b (Some l) fd ev (Some cb) ud of (err, lp) \<Rightarrow> \<exists>l'. lp = Some l' \<and> loop_inv l'
            \<and> err = (if fd < 0 \<or> ev = 0 \<or> registered l fd \<noteq> None then ERR_INVALID_ARG
                     else room_for_one a b (length (el_entries l)) (unat (el_cap l)))
            \<and> registered l' = (if err = ERR_OK then (registered l)(fd \<mapsto> (ev, cb, ud)) else registered l))
       \<and> (case event_loop_mod (Some l) fd ev of (err, lp) \<Rightarrow> \<exists>l'. lp = Some l' \<and> loop_inv l'
            \<and> err = (if fd < 0 \<or> ev = 0 then ERR_INVALID_ARG else if registered l fd = None then ERR_NOT_FOUND else ERR_OK)
            \<and> registered l' = (if err = ERR_OK then (registered l)(fd \<mapsto> (ev, snd (the (registered l fd)))) else registered l))
       \<and> (case event_loop_remove (Some l) fd of (err, lp) \<Rightarrow> \<exists>l'. lp = Some l' \<and> loop_inv l'
            \<and> err = (if fd < 0 then ERR_INVALID_ARG else if registered l fd = None then ERR_NOT_FOUND else ERR_OK)
            \<and> registered l' = (registered l)(fd := None))
       \<and> (if el_dispatching l then True else event_loop_count (Some l) = card (dom (registered l)))"
proof (intro conjI)
  obtain err lp where r: "event_loop_add a b (Some l) fd ev (Some cb) ud = (err, lp)" by fastforce
  from event_loop_add_spec [OF assms r] event_loop_codes(1) [OF assms, of a b fd ev cb ud]
  show "case event_loop_add a b (Some l) fd ev (Some cb) ud of (err, lp) \<Rightarrow> \<exists>l'. lp = Some l' \<and> loop_inv l'
            \<and> err = (if fd < 0 \<or> ev = 0 \<or> registered l fd \<noteq> None then ERR_INVALID_ARG
                     else room_for_one a b (length (el_entries l)) (unat (el_cap l)))
            \<and> registered l' = (if err = ERR_OK then (registered l)(fd \<mapsto> (ev, cb, ud)) else registered l)"
    unfolding r fst_conv case_prod_conv by (metis (no_types, lifting))
next
  obtain err lp where r: "event_loop_mod (Some l) fd ev = (err, lp)" by fastforce
  from event_loop_mod_spec [OF assms r] event_loop_codes(2) [OF assms, of fd ev]
  show "case event_loop_mod (Some l) fd ev of (err, lp) \<Rightarrow> \<exists>l'. lp = Some l' \<and> loop_inv l'
            \<and> err = (if fd < 0 \<or> ev = 0 then ERR_INVALID_ARG else if registered l fd = None then ERR_NOT_FOUND else ERR_OK)
            \<and> registered l' = (if err = ERR_OK then (registered l)(fd \<mapsto> (ev, snd (the (registered l fd)))) else registered l)"
    unfolding r fst_conv case_prod_conv by (cases "registered l fd") (auto split: if_splits)
next
  obtain err lp where r: "event_loop_remove (Some l) fd = (err, lp)" by fastforce
  from event_loop_remove_spec [OF assms r] event_loop_codes(3) [OF assms, of fd]
  show "case event_loop_remove (Some l) fd of (err, lp) \<Rightarrow> \<exists>l'. lp = Some l' \<and> loop_inv l'
            \<and> err = (if fd < 0 then ERR_INVALID_ARG else if registered l fd = None then ERR_NOT_FOUND else ERR_OK)
            \<and> registered l' = (registered l)(fd := None)"
    unfolding r fst_conv case_prod_conv by (metis (no_types, lifting) fun_upd_triv)
next
  show "if el_dispatching l then True else event_loop_count (Some l) = card (dom (registered l))"
  proof (cases "el_dispatching l")
    case False
    then have "live l = el_entries l" "distinct (map ee_fd (live l))"
      using assms by (auto simp: loop_inv_def live_def filter_id_conv)
    moreover have "dom (registered l) = ee_fd ` set (live l)"
      by (simp add: registered_pairs dom_map_of_conv_image_fst image_image)
    ultimately show ?thesis
      using distinct_card [of "map ee_fd (el_entries l)"] by (simp add: event_loop_count_def)
  qed simp
qed

text \<open>The state of a loop with a callback on descriptor 3 and one on descriptor 4.\<close>

definition loop_example :: "string event_loop" where
  "loop_example = \<lparr>el_entries = [\<lparr>ee_fd = 3, ee_events = 1, ee_cb = ''a'', ee_user_data = 0\<rparr>,
       \<lparr>ee_fd = 4, ee_events = 1, ee_cb = ''b'', ee_user_data = 0\<rparr>],
     el_pollfds = [], el_cap = 8, el_running = True, el_dispatching = False\<rparr>"

lemma loop_example_inv: "loop_inv loop_example"
  by (simp add: loop_inv_def loop_example_def live_def)

theorem event_loop_registrations_witness:
  "\<exists>l'. snd (event_loop_remove (Some loop_example) 3) = Some l' \<and> loop_inv l'
      \<and> registered l' = (registered loop_example)(3 := None)"
  using event_loop_registrations [OF loop_example_inv, where a = True and b = True and fd = 3 and ev = 1 and cb = "''x''" and ud = 0]
  unfolding case_prod_unfold by blast

text \<open>
  C20. One round of the loop, whatever the callbacks do to the registrations. A callback is called only while its descriptor is
  still registered, with that callback and that user data, after all that the callbacks before it did in the round. The calls are,
  in registration order, those due to the descriptors that \<open>poll\<close> reported ready, each at most once, and one that is left out belongs to a
  descriptor that a callback of the round removed; nothing else is called, in particular no descriptor added during
  the round. No array is read outside, and the round ends with the registrations the callbacks left and with no removed entry in place.
\<close>

theorem event_loop_dispatch:
  assumes "loop_inv l" and "\<not> el_dispatching l" and "poll_retry answers = Some (PollReady rs)"
    and "length rs = length (el_entries l)"
  shows "\<exists>l' w' calls. event_loop_poll_once prog answers (Some l) w = Some (ERR_OK, Some l', w', calls)
       \<and> loop_inv l' \<and> \<not> el_dispatching l' \<and> registered l' = registered (fold apply_op (ops_of calls) (dispatch_start rs l))
       \<and> (\<forall>i < length calls. case calls ! i of ((cb, fd, ready, ud), ops) \<Rightarrow>
            \<exists>ev. registered (fold apply_op (ops_of (take i calls)) (dispatch_start rs l)) fd = Some (ev, cb, ud))
       \<and> subseq (map fst calls) (List.map_filter (due (dispatch_start rs l)) [0 ..< length (el_entries l)])
       \<and> (\<forall>c \<in> set (List.map_filter (due (dispatch_start rs l)) [0 ..< length (el_entries l)]) - fst ` set calls.
            OpRemove (fst (snd c)) \<in> set (ops_of calls))"
  using poll_once_dispatches [OF assms, of prog w] unfolding calls_registered_def .

text \<open>The callback of descriptor 3 removes 4 and registers 5 in its place.\<close>

definition client_example :: "(string, unit) client" where
  "client_example cb fd ready ud l w =
     (if fd = 3 then [OpRemove 4, OpAdd True True 5 1 (Some ''c'') 0] else [], w)"

theorem event_loop_dispatch_witness:
  "\<exists>l' w' calls. event_loop_poll_once client_example [PollEintr, PollReady [1, 1]] (Some loop_example) ()
       = Some (ERR_OK, Some l', w', calls) \<and> loop_inv l' \<and> \<not> el_dispatching l'
       \<and> registered l' = registered (fold apply_op (ops_of calls) (dispatch_start [1, 1] loop_example))"
proof -
  have "\<not> el_dispatching loop_example" "poll_retry [PollEintr, PollReady [1, 1]] = Some (PollReady [1, 1])"
    "length [1, 1 :: 16 word] = length (el_entries loop_example)"
    by (simp_all add: loop_example_def)
  from event_loop_dispatch [OF loop_example_inv this, of client_example "()"] show ?thesis by blast
qed

text \<open>
  During dispatch the count still includes removed descriptors, though it is documented as the
  number of currently registered ones.
\<close>

lemma event_loop_count_stale:
  "event_loop_count (snd (event_loop_remove (Some (loop_example\<lparr>el_dispatching := True\<rparr>)) 3)) = 2
   \<and> card (dom (registered (the (snd (event_loop_remove (Some (loop_example\<lparr>el_dispatching := True\<rparr>)) 3))))) = 1"
  by (simp add: event_loop_remove_def event_loop_count_def loop_example_def registered_def live_def)

end
