(* ===== verification/Sockets.thy ===== *)
theory Sockets
  imports CLib
begin

text \<open>
  The TCP, UDP and Unix domain sockets of \<open>src/networking/socket.c\<close>, \<open>udp.c\<close> and
  \<open>unix_socket.c\<close>. The operating system is a parameter: a record of system calls over its
  state \<open>'k\<close>. A call that returns a negative value is \<open>Fail\<close>, or \<open>Eintr\<close> when \<open>errno\<close> says so.
  The retry loops are partial functions: \<open>None\<close> is a loop that never returns.
\<close>

section \<open>The system calls\<close>

datatype sysret = Ret nat | Eintr | Fail

abbreviation AF_UNIX :: int where "AF_UNIX \<equiv> 1"
abbreviation AF_INET :: int where "AF_INET \<equiv> 2"
abbreviation AF_INET6 :: int where "AF_INET6 \<equiv> 10"
definition AF_UNSPEC :: int where "AF_UNSPEC = 0"
abbreviation SOCK_STREAM :: int where "SOCK_STREAM \<equiv> 1"
abbreviation SOCK_DGRAM :: int where "SOCK_DGRAM \<equiv> 2"
abbreviation SOCK_CLOEXEC :: int where "SOCK_CLOEXEC \<equiv> 524288"

record addrinfo =
  ai_family :: int
  ai_socktype :: int
  ai_protocol :: int
  ai_addr :: "byte list"

record hints =
  hi_family :: int
  hi_socktype :: int
  hi_passive :: bool

record sockaddr =
  ss_family :: int
  ss_port :: "16 word"
  ss_host :: string

datatype file_kind = Absent | SocketFile | OtherFile

record 'k kernel =
  k_socket :: "int \<Rightarrow> int \<Rightarrow> int \<Rightarrow> 'k \<Rightarrow> sysret \<times> 'k"
  k_set_cloexec :: "int \<Rightarrow> 'k \<Rightarrow> 'k"
  k_connect :: "int \<Rightarrow> byte list \<Rightarrow> 'k \<Rightarrow> bool \<times> 'k"
  k_bind :: "int \<Rightarrow> byte list \<Rightarrow> 'k \<Rightarrow> bool \<times> 'k"
  k_listen :: "int \<Rightarrow> int \<Rightarrow> 'k \<Rightarrow> bool \<times> 'k"
  k_accept :: "int \<Rightarrow> 'k \<Rightarrow> sysret \<times> 'k"
  k_send :: "int \<Rightarrow> byte list \<Rightarrow> 'k \<Rightarrow> sysret \<times> 'k"
  k_recv :: "int \<Rightarrow> size_t \<Rightarrow> 'k \<Rightarrow> (sysret \<times> byte list) \<times> 'k"
  k_sendto :: "int \<Rightarrow> byte list \<Rightarrow> byte list \<Rightarrow> 'k \<Rightarrow> sysret \<times> 'k"
  k_recvfrom :: "int \<Rightarrow> size_t \<Rightarrow> 'k \<Rightarrow> (sysret \<times> byte list \<times> sockaddr) \<times> 'k"
  k_close :: "int \<Rightarrow> 'k \<Rightarrow> 'k"
  k_reuseaddr :: "int \<Rightarrow> 'k \<Rightarrow> 'k"
  k_getaddrinfo :: "string option \<Rightarrow> byte list \<Rightarrow> hints \<Rightarrow> 'k \<Rightarrow> addrinfo list option"
  k_getsockname :: "int \<Rightarrow> 'k \<Rightarrow> sockaddr option"
  k_lstat :: "string \<Rightarrow> 'k \<Rightarrow> file_kind"
  k_unlink :: "string \<Rightarrow> 'k \<Rightarrow> 'k"
  k_chmod :: "string \<Rightarrow> 'k \<Rightarrow> 'k"

section \<open>Shared helpers\<close>

text \<open>A descriptor, or \<open>-1\<close>.\<close>

definition fd_of :: "sysret \<Rightarrow> int" where
  "fd_of r = (case r of Ret n \<Rightarrow> int n | _ \<Rightarrow> - 1)"

definition nw_socket :: "'k kernel \<Rightarrow> int \<Rightarrow> int \<Rightarrow> int \<Rightarrow> 'k \<Rightarrow> int \<times> 'k" where
  "nw_socket K domain ty protocol k =
     (let (r, k) = k_socket K domain (ty + SOCK_CLOEXEC) protocol k
      in if fd_of r \<ge> 0 then (fd_of r, k)
         else let (r, k) = k_socket K domain ty protocol k
           in if fd_of r \<ge> 0 then (fd_of r, k_set_cloexec K (fd_of r) k) else (fd_of r, k))"

partial_function (option) accept_loop :: "'k kernel \<Rightarrow> int \<Rightarrow> 'k \<Rightarrow> (int \<times> 'k) option" where
  "accept_loop K listen_fd k =
     (let (r, k') = k_accept K listen_fd k
      in if r = Eintr then accept_loop K listen_fd k' else Some (fd_of r, k'))"

definition nw_accept_intr :: "'k kernel \<Rightarrow> int \<Rightarrow> 'k \<Rightarrow> (int \<times> 'k) option" where
  "nw_accept_intr K listen_fd k = accept_loop K listen_fd k"

text \<open>The send loop from \<open>sent\<close> bytes on.\<close>

partial_function (option) send_loop ::
  "'k kernel \<Rightarrow> int \<Rightarrow> byte list \<Rightarrow> nat \<Rightarrow> 'k \<Rightarrow> (error_code \<times> 'k) option" where
  "send_loop K fd p sent k =
     (if sent < length p then
        let (r, k') = k_send K fd (drop sent p) k
        in (case r of
              Eintr \<Rightarrow> send_loop K fd p sent k'
            | Fail \<Rightarrow> Some (ERR_IO, k')
            | Ret n \<Rightarrow> if n = 0 then Some (ERR_IO, k') else send_loop K fd p (sent + n) k')
      else Some (ERR_OK, k))"

definition nw_send_all :: "'k kernel \<Rightarrow> int \<Rightarrow> byte list \<Rightarrow> 'k \<Rightarrow> (error_code \<times> 'k) option" where
  "nw_send_all K fd buf k = send_loop K fd buf 0 k"

partial_function (option) recv_loop ::
  "'k kernel \<Rightarrow> int \<Rightarrow> size_t \<Rightarrow> 'k \<Rightarrow> ((sysret \<times> byte list) \<times> 'k) option" where
  "recv_loop K fd cap k =
     (let (r, k') = k_recv K fd cap k
      in if fst r = Eintr then recv_loop K fd cap k' else Some (r, k'))"

text \<open>The code with the bytes received (\<open>*out_len\<close> is their number).\<close>

definition nw_recv :: "'k kernel \<Rightarrow> int \<Rightarrow> size_t \<Rightarrow> 'k \<Rightarrow> ((error_code \<times> byte list option) \<times> 'k) option" where
  "nw_recv K fd cap k =
     do { (r, k) \<leftarrow> recv_loop K fd cap k;
          (case fst r of
             Ret n \<Rightarrow> Some ((ERR_OK, Some (take n (snd r))), k)
           | _ \<Rightarrow> Some ((ERR_IO, None), k)) }"

section \<open>TCP\<close>

record tcp_socket =
  ts_fd :: int

text \<open>The loop over the addresses: the descriptor of the first that connects, or \<open>-1\<close>.\<close>

fun connect_loop :: "'k kernel \<Rightarrow> addrinfo list \<Rightarrow> 'k \<Rightarrow> int \<times> 'k" where
  "connect_loop K [] k = (- 1, k)"
| "connect_loop K (ai # ais) k =
     (let (fd, k) = nw_socket K (ai_family ai) (ai_socktype ai) (ai_protocol ai) k
      in if fd < 0 then connect_loop K ais k
         else let (ok, k) = k_connect K fd (ai_addr ai) k
           in if ok then (fd, k) else connect_loop K ais (k_close K fd k))"

definition tcp_connect ::
  "'k kernel \<Rightarrow> tcp_socket option \<Rightarrow> string option \<Rightarrow> 16 word \<Rightarrow> 'k \<Rightarrow> error_code \<times> tcp_socket option \<times> 'k" where
  "tcp_connect K sp hostp port k =
     (case (sp, hostp) of
        (Some s, Some host) \<Rightarrow>
          if port = 0 then (ERR_INVALID_ARG, sp, k)
          else let s = s\<lparr>ts_fd := - 1\<rparr>;
                   hints = \<lparr>hi_family = AF_UNSPEC, hi_socktype = SOCK_STREAM, hi_passive = False\<rparr>
            in (case k_getaddrinfo K (Some host) (dec_nat (unat port)) hints k of
                  None \<Rightarrow> (ERR_NOT_FOUND, Some s, k)
                | Some [] \<Rightarrow> (ERR_NOT_FOUND, Some s, k)
                | Some res \<Rightarrow>
                    let (fd, k) = connect_loop K res k
                    in if fd < 0 then (ERR_IO, Some s, k) else (ERR_OK, Some (s\<lparr>ts_fd := fd\<rparr>), k))
      | _ \<Rightarrow> (ERR_INVALID_ARG, sp, k))"

text \<open>What \<open>tcp_listen_host\<close> and \<open>udp_open_host\<close> ask \<open>getaddrinfo\<close> for.\<close>

definition bind_target :: "string \<Rightarrow> int \<Rightarrow> string option \<times> hints" where
  "bind_target host ty =
     (let any = (host = ''*'' \<or> host = ''0.0.0.0'')
      in (if any then None else Some host,
          \<lparr>hi_family = (if any then AF_INET else if CHR '':'' \<in> set host then AF_INET6 else AF_INET),
           hi_socktype = ty, hi_passive = True\<rparr>))"

definition tcp_listen_host ::
  "'k kernel \<Rightarrow> tcp_socket option \<Rightarrow> string option \<Rightarrow> 16 word \<Rightarrow> int \<Rightarrow> 'k \<Rightarrow> error_code \<times> tcp_socket option \<times> 'k" where
  "tcp_listen_host K sp hostp port backlog k =
     (case (sp, hostp) of
        (Some s, Some host) \<Rightarrow>
          if host = '''' \<or> backlog \<le> 0 then (ERR_INVALID_ARG, sp, k)
          else let s = s\<lparr>ts_fd := - 1\<rparr>; (node, hints) = bind_target host SOCK_STREAM
            in (case k_getaddrinfo K node (dec_nat (unat port)) hints k of
                  None \<Rightarrow> (ERR_NOT_FOUND, Some s, k)
                | Some [] \<Rightarrow> (ERR_NOT_FOUND, Some s, k)
                | Some (res # _) \<Rightarrow>
                    let (fd, k) = nw_socket K (ai_family res) (ai_socktype res) (ai_protocol res) k
                    in if fd < 0 then (ERR_IO, Some s, k)
                       else let k = k_reuseaddr K fd k;
                                (bound, k) = k_bind K fd (ai_addr res) k
                         in if \<not> bound then (ERR_IO, Some s, k_close K fd k)
                            else let (listening, k) = k_listen K fd backlog k
                              in if \<not> listening then (ERR_IO, Some s, k_close K fd k)
                                 else (ERR_OK, Some (s\<lparr>ts_fd := fd\<rparr>), k))
      | _ \<Rightarrow> (ERR_INVALID_ARG, sp, k))"

definition tcp_listen ::
  "'k kernel \<Rightarrow> tcp_socket option \<Rightarrow> 16 word \<Rightarrow> int \<Rightarrow> 'k \<Rightarrow> error_code \<times> tcp_socket option \<times> 'k" where
  "tcp_listen K sp port backlog k = tcp_listen_host K sp (Some ''*'') port backlog k"

definition tcp_accept ::
  "'k kernel \<Rightarrow> tcp_socket option \<Rightarrow> tcp_socket option \<Rightarrow> 'k \<Rightarrow> (error_code \<times> tcp_socket option \<times> 'k) option" where
  "tcp_accept K listener out k =
     (case (listener, out) of
        (Some l, Some c) \<Rightarrow>
          if ts_fd l < 0 then Some (ERR_INVALID_ARG, out, k)
          else do { (fd, k) \<leftarrow> nw_accept_intr K (ts_fd l) k;
                    Some (if fd < 0 then ERR_IO else ERR_OK, Some (c\<lparr>ts_fd := fd\<rparr>), k) }
      | _ \<Rightarrow> Some (ERR_INVALID_ARG, out, k))"

text \<open>\<open>ntohs\<close> on a little-endian machine: the two bytes swapped.\<close>

definition ntohs :: "16 word \<Rightarrow> 16 word" where
  "ntohs x = push_bit 8 x + drop_bit 8 x"

definition tcp_local_port :: "'k kernel \<Rightarrow> tcp_socket option \<Rightarrow> bool \<Rightarrow> 'k \<Rightarrow> error_code \<times> 16 word option" where
  "tcp_local_port K sp out k =
     (case sp of
        None \<Rightarrow> (ERR_INVALID_ARG, None)
      | Some s \<Rightarrow>
          if ts_fd s < 0 \<or> \<not> out then (ERR_INVALID_ARG, None)
          else (case k_getsockname K (ts_fd s) k of
              None \<Rightarrow> (ERR_IO, None)
            | Some ss \<Rightarrow> if ss_family ss = AF_INET \<or> ss_family ss = AF_INET6
                         then (ERR_OK, Some (ntohs (ss_port ss)))
                         else (ERR_UNSUPPORTED, None)))"

definition tcp_send_all ::
  "'k kernel \<Rightarrow> tcp_socket option \<Rightarrow> byte list option \<Rightarrow> 'k \<Rightarrow> (error_code \<times> 'k) option" where
  "tcp_send_all K sp bufp k =
     (case (sp, bufp) of
        (Some s, Some buf) \<Rightarrow>
          if ts_fd s < 0 \<or> buf = [] then Some (ERR_INVALID_ARG, k) else nw_send_all K (ts_fd s) buf k
      | _ \<Rightarrow> Some (ERR_INVALID_ARG, k))"

text \<open>\<open>*out_len\<close> is set to 0 before the call, so an error reports no bytes.\<close>

definition tcp_recv ::
  "'k kernel \<Rightarrow> tcp_socket option \<Rightarrow> bool \<Rightarrow> size_t \<Rightarrow> bool \<Rightarrow> 'k \<Rightarrow> ((error_code \<times> byte list option) \<times> 'k) option" where
  "tcp_recv K sp buf cap out_len k =
     (case sp of
        None \<Rightarrow> Some ((ERR_INVALID_ARG, None), k)
      | Some s \<Rightarrow>
          if ts_fd s < 0 \<or> \<not> buf \<or> cap = 0 \<or> \<not> out_len then Some ((ERR_INVALID_ARG, None), k)
          else map_option (\<lambda>((e, b), k). ((e, case b of None \<Rightarrow> Some [] | Some d \<Rightarrow> Some d), k))
                 (nw_recv K (ts_fd s) cap k))"

definition tcp_close :: "'k kernel \<Rightarrow> tcp_socket option \<Rightarrow> 'k \<Rightarrow> tcp_socket option \<times> 'k" where
  "tcp_close K sp k =
     (case sp of
        None \<Rightarrow> (None, k)
      | Some s \<Rightarrow> if ts_fd s \<ge> 0 then (Some (s\<lparr>ts_fd := - 1\<rparr>), k_close K (ts_fd s) k) else (sp, k))"

section \<open>UDP\<close>

record udp_socket =
  us_fd :: int

record udp_endpoint =
  ue_host :: string
  ue_port :: "16 word"

definition udp_open_host ::
  "'k kernel \<Rightarrow> udp_socket option \<Rightarrow> string option \<Rightarrow> 16 word \<Rightarrow> 'k \<Rightarrow> error_code \<times> udp_socket option \<times> 'k" where
  "udp_open_host K sp hostp port k =
     (case (sp, hostp) of
        (Some s, Some host) \<Rightarrow>
          if host = '''' then (ERR_INVALID_ARG, sp, k)
          else let s = s\<lparr>us_fd := - 1\<rparr>; (node, hints) = bind_target host SOCK_DGRAM
            in (case k_getaddrinfo K node (dec_nat (unat port)) hints k of
                  None \<Rightarrow> (ERR_NOT_FOUND, Some s, k)
                | Some [] \<Rightarrow> (ERR_NOT_FOUND, Some s, k)
                | Some (res # _) \<Rightarrow>
                    let (fd, k) = nw_socket K (ai_family res) (ai_socktype res) (ai_protocol res) k
                    in if fd < 0 then (ERR_IO, Some s, k)
                       else let (bound, k) = k_bind K fd (ai_addr res) k
                         in if \<not> bound then (ERR_IO, Some s, k_close K fd k)
                            else (ERR_OK, Some (s\<lparr>us_fd := fd\<rparr>), k))
      | _ \<Rightarrow> (ERR_INVALID_ARG, sp, k))"

definition udp_open :: "'k kernel \<Rightarrow> udp_socket option \<Rightarrow> 16 word \<Rightarrow> 'k \<Rightarrow> error_code \<times> udp_socket option \<times> 'k" where
  "udp_open K sp port k = udp_open_host K sp (Some ''*'') port k"

definition udp_local_port :: "'k kernel \<Rightarrow> udp_socket option \<Rightarrow> bool \<Rightarrow> 'k \<Rightarrow> error_code \<times> 16 word option" where
  "udp_local_port K sp out k =
     (case sp of
        None \<Rightarrow> (ERR_INVALID_ARG, None)
      | Some s \<Rightarrow>
          if us_fd s < 0 \<or> \<not> out then (ERR_INVALID_ARG, None)
          else (case k_getsockname K (us_fd s) k of
              None \<Rightarrow> (ERR_IO, None)
            | Some ss \<Rightarrow> (ERR_OK, Some (ntohs (ss_port ss)))))"

partial_function (option) sendto_loop ::
  "'k kernel \<Rightarrow> int \<Rightarrow> byte list \<Rightarrow> byte list \<Rightarrow> 'k \<Rightarrow> (sysret \<times> 'k) option" where
  "sendto_loop K fd buf addr k =
     (let (r, k') = k_sendto K fd buf addr k
      in if r = Eintr then sendto_loop K fd buf addr k' else Some (r, k'))"

definition udp_send_to ::
  "'k kernel \<Rightarrow> udp_socket option \<Rightarrow> string option \<Rightarrow> 16 word \<Rightarrow> byte list option \<Rightarrow> 'k \<Rightarrow> (error_code \<times> 'k) option" where
  "udp_send_to K sp hostp port bufp k =
     (case (sp, hostp, bufp) of
        (Some s, Some host, Some buf) \<Rightarrow>
          if us_fd s < 0 \<or> port = 0 \<or> buf = [] then Some (ERR_INVALID_ARG, k)
          else let hints = \<lparr>hi_family = AF_INET, hi_socktype = SOCK_DGRAM, hi_passive = False\<rparr>
            in (case k_getaddrinfo K (Some host) (dec_nat (unat port)) hints k of
                  None \<Rightarrow> Some (ERR_NOT_FOUND, k)
                | Some [] \<Rightarrow> Some (ERR_NOT_FOUND, k)
                | Some (res # _) \<Rightarrow>
                    do { (r, k) \<leftarrow> sendto_loop K (us_fd s) buf (ai_addr res) k;
                         Some (if r = Ret (length buf) then ERR_OK else ERR_IO, k) })
      | _ \<Rightarrow> Some (ERR_INVALID_ARG, k))"

partial_function (option) recvfrom_loop ::
  "'k kernel \<Rightarrow> int \<Rightarrow> size_t \<Rightarrow> 'k \<Rightarrow> ((sysret \<times> byte list \<times> sockaddr) \<times> 'k) option" where
  "recvfrom_loop K fd cap k =
     (let (r, k') = k_recvfrom K fd cap k
      in if fst r = Eintr then recvfrom_loop K fd cap k' else Some (r, k'))"

definition udp_recv_from ::
  "'k kernel \<Rightarrow> udp_socket option \<Rightarrow> bool \<Rightarrow> size_t \<Rightarrow> bool \<Rightarrow> bool \<Rightarrow> 'k
    \<Rightarrow> ((error_code \<times> byte list option \<times> udp_endpoint option) \<times> 'k) option" where
  "udp_recv_from K sp buf cap out_len out_from k =
     (case sp of
        None \<Rightarrow> Some ((ERR_INVALID_ARG, None, None), k)
      | Some s \<Rightarrow>
          if us_fd s < 0 \<or> \<not> buf \<or> cap = 0 \<or> \<not> out_len then Some ((ERR_INVALID_ARG, None, None), k)
          else do { ((r, d, from), k) \<leftarrow> recvfrom_loop K (us_fd s) cap k;
                    (case r of
                       Ret n \<Rightarrow> Some ((ERR_OK, Some (take n d),
                         if out_from then Some \<lparr>ue_host = ss_host from, ue_port = ntohs (ss_port from)\<rparr> else None), k)
                     | _ \<Rightarrow> Some ((ERR_IO, Some [], None), k)) })"

definition udp_close :: "'k kernel \<Rightarrow> udp_socket option \<Rightarrow> 'k \<Rightarrow> udp_socket option \<times> 'k" where
  "udp_close K sp k =
     (case sp of
        None \<Rightarrow> (None, k)
      | Some s \<Rightarrow> if us_fd s \<ge> 0 then (Some (s\<lparr>us_fd := - 1\<rparr>), k_close K (us_fd s) k) else (sp, k))"

section \<open>Unix domain sockets\<close>

record unix_socket =
  xs_fd :: int

text \<open>\<open>sun_path\<close> holds 108 bytes with the terminator.\<close>

definition make_addr :: "string \<Rightarrow> error_code \<times> byte list" where
  "make_addr path =
     (if length path \<ge> 108 then (ERR_INVALID_ARG, []) else (ERR_OK, map of_char path))"

definition unix_listen ::
  "'k kernel \<Rightarrow> unix_socket option \<Rightarrow> string option \<Rightarrow> int \<Rightarrow> 'k \<Rightarrow> error_code \<times> unix_socket option \<times> 'k" where
  "unix_listen K sp pathp backlog k =
     (case (sp, pathp) of
        (Some s, Some path) \<Rightarrow>
          if path = '''' \<or> backlog \<le> 0 then (ERR_INVALID_ARG, sp, k)
          else let s = s\<lparr>xs_fd := - 1\<rparr>; (err, addr) = make_addr path
            in if err \<noteq> ERR_OK then (err, Some s, k)
               else let (fd, k) = nw_socket K AF_UNIX SOCK_STREAM 0 k
                 in if fd < 0 then (ERR_IO, Some s, k)
                    else if k_lstat K path k = OtherFile then (ERR_IO, Some s, k_close K fd k)
                    else let k = (if k_lstat K path k = SocketFile then k_unlink K path k else k);
                             (bound, k) = k_bind K fd addr k
                      in if \<not> bound then (ERR_IO, Some s, k_close K fd k)
                         else let (listening, k) = k_listen K fd backlog k
                           in if \<not> listening then (ERR_IO, Some s, k_close K fd k)
                              else (ERR_OK, Some (s\<lparr>xs_fd := fd\<rparr>), k_chmod K path k)
      | _ \<Rightarrow> (ERR_INVALID_ARG, sp, k))"

definition unix_connect ::
  "'k kernel \<Rightarrow> unix_socket option \<Rightarrow> string option \<Rightarrow> 'k \<Rightarrow> error_code \<times> unix_socket option \<times> 'k" where
  "unix_connect K sp pathp k =
     (case (sp, pathp) of
        (Some s, Some path) \<Rightarrow>
          if path = '''' then (ERR_INVALID_ARG, sp, k)
          else let s = s\<lparr>xs_fd := - 1\<rparr>; (err, addr) = make_addr path
            in if err \<noteq> ERR_OK then (err, Some s, k)
               else let (fd, k) = nw_socket K AF_UNIX SOCK_STREAM 0 k
                 in if fd < 0 then (ERR_IO, Some s, k)
                    else let (ok, k) = k_connect K fd addr k
                      in if \<not> ok then (ERR_IO, Some s, k_close K fd k)
                         else (ERR_OK, Some (s\<lparr>xs_fd := fd\<rparr>), k)
      | _ \<Rightarrow> (ERR_INVALID_ARG, sp, k))"

definition unix_accept ::
  "'k kernel \<Rightarrow> unix_socket option \<Rightarrow> unix_socket option \<Rightarrow> 'k \<Rightarrow> (error_code \<times> unix_socket option \<times> 'k) option" where
  "unix_accept K listener out k =
     (case (listener, out) of
        (Some l, Some c) \<Rightarrow>
          if xs_fd l < 0 then Some (ERR_INVALID_ARG, out, k)
          else do { (fd, k) \<leftarrow> nw_accept_intr K (xs_fd l) k;
                    Some (if fd < 0 then ERR_IO else ERR_OK, Some (c\<lparr>xs_fd := fd\<rparr>), k) }
      | _ \<Rightarrow> Some (ERR_INVALID_ARG, out, k))"

definition unix_send_all ::
  "'k kernel \<Rightarrow> unix_socket option \<Rightarrow> byte list option \<Rightarrow> 'k \<Rightarrow> (error_code \<times> 'k) option" where
  "unix_send_all K sp bufp k =
     (case (sp, bufp) of
        (Some s, Some buf) \<Rightarrow>
          if xs_fd s < 0 \<or> buf = [] then Some (ERR_INVALID_ARG, k) else nw_send_all K (xs_fd s) buf k
      | _ \<Rightarrow> Some (ERR_INVALID_ARG, k))"

definition unix_recv ::
  "'k kernel \<Rightarrow> unix_socket option \<Rightarrow> bool \<Rightarrow> size_t \<Rightarrow> bool \<Rightarrow> 'k \<Rightarrow> ((error_code \<times> byte list option) \<times> 'k) option" where
  "unix_recv K sp buf cap out_len k =
     (case sp of
        None \<Rightarrow> Some ((ERR_INVALID_ARG, None), k)
      | Some s \<Rightarrow>
          if xs_fd s < 0 \<or> \<not> buf \<or> cap = 0 \<or> \<not> out_len then Some ((ERR_INVALID_ARG, None), k)
          else map_option (\<lambda>((e, b), k). ((e, case b of None \<Rightarrow> Some [] | Some d \<Rightarrow> Some d), k))
                 (nw_recv K (xs_fd s) cap k))"

definition unix_close :: "'k kernel \<Rightarrow> unix_socket option \<Rightarrow> 'k \<Rightarrow> unix_socket option \<times> 'k" where
  "unix_close K sp k =
     (case sp of
        None \<Rightarrow> (None, k)
      | Some s \<Rightarrow> if xs_fd s \<ge> 0 then (Some (s\<lparr>xs_fd := - 1\<rparr>), k_close K (xs_fd s) k) else (sp, k))"


section \<open>What is relied on of the system\<close>

text \<open>
  \<open>send\<close> on a stream takes a prefix of what it is given, \<open>log\<close> being what the peer is sent; it
  is interrupted only finitely often in a row (\<open>budget\<close>).
\<close>

definition stream_ok :: "'k kernel \<Rightarrow> int \<Rightarrow> ('k \<Rightarrow> byte list) \<Rightarrow> ('k \<Rightarrow> nat) \<Rightarrow> bool" where
  "stream_ok K fd log budget \<longleftrightarrow> (\<forall>d k. d \<noteq> [] \<longrightarrow>
     (case k_send K fd d k of
        (Ret n, k') \<Rightarrow> n \<le> length d \<and> log k' = log k @ take n d
      | (Eintr, k') \<Rightarrow> log k' = log k \<and> budget k' < budget k
      | (Fail, k') \<Rightarrow> log k' = log k))"

text \<open>
  Descriptors: \<open>socket\<close> opens a fresh one or none, \<open>close\<close> closes the one it is given, the other
  calls open and close none.
\<close>

definition fds_ok :: "'k kernel \<Rightarrow> ('k \<Rightarrow> int set) \<Rightarrow> bool" where
  "fds_ok K fds \<longleftrightarrow>
     (\<forall>d t p k. case k_socket K d t p k of
        (Ret n, k') \<Rightarrow> int n \<notin> fds k \<and> fds k' = insert (int n) (fds k)
      | (_, k') \<Rightarrow> fds k' = fds k)
     \<and> (\<forall>fd k. fds (k_close K fd k) = fds k - {fd}) \<and> (\<forall>fd k. fds (k_set_cloexec K fd k) = fds k)
     \<and> (\<forall>fd a k. fds (snd (k_connect K fd a k)) = fds k) \<and> (\<forall>fd a k. fds (snd (k_bind K fd a k)) = fds k)
     \<and> (\<forall>fd b k. fds (snd (k_listen K fd b k)) = fds k) \<and> (\<forall>fd k. fds (k_reuseaddr K fd k) = fds k)
     \<and> (\<forall>p k. fds (k_unlink K p k) = fds k) \<and> (\<forall>p k. fds (k_chmod K p k) = fds k)"

section \<open>Sending\<close>

lemma send_loop_spec:
  assumes "stream_ok K fd log budget" and "sent \<le> length p"
  shows "\<exists>err k' n. send_loop K fd p sent k = Some (err, k') \<and> n \<le> length p \<and> sent \<le> n
       \<and> log k' = log k @ take (n - sent) (drop sent p)
       \<and> (err = ERR_OK \<and> n = length p \<or> err = ERR_IO \<and> n < length p)"
  using assms(2)
proof (induction "(length p - sent, budget k)" arbitrary: sent k rule: wf_induct_rule [OF wf_lex_prod [OF wf_less_than wf_less_than]])
  case (1 sent k)
  show ?case
  proof (cases "sent < length p")
    case False
    then show ?thesis using 1(2) by (subst send_loop.simps) (auto intro: exI [of _ sent])
  next
    case True
    obtain r k' where r: "k_send K fd (drop sent p) k = (r, k')" by fastforce
    have S: "case (r, k') of (Ret n, k') \<Rightarrow> n \<le> length (drop sent p) \<and> log k' = log k @ take n (drop sent p)
      | (Eintr, k') \<Rightarrow> log k' = log k \<and> budget k' < budget k | (Fail, k') \<Rightarrow> log k' = log k"
    proof -
      have "drop sent p \<noteq> []" using True by simp
      from assms(1) [unfolded stream_ok_def, rule_format, OF this, of k] show ?thesis unfolding r .
    qed
    show ?thesis
    proof (cases r)
      case Eintr
      have s: "send_loop K fd p sent k = send_loop K fd p sent k'"
        using True r Eintr by (subst send_loop.simps) simp
      have "log k' = log k" "budget k' < budget k" using S Eintr by auto
      then have "((length p - sent, budget k'), (length p - sent, budget k)) \<in> less_than <*lex*> less_than" by simp
      from 1(1) [OF this 1(2)] show ?thesis unfolding s \<open>log k' = log k\<close> .
    next
      case Fail
      then have "send_loop K fd p sent k = Some (ERR_IO, k')" "log k' = log k"
        using True r S by (subst send_loop.simps, auto)
      then show ?thesis using True by (intro exI [of _ ERR_IO] exI [of _ k'] exI [of _ sent]) simp
    next
      case (Ret n)
      show ?thesis
      proof (cases "n = 0")
        case True
        then have "send_loop K fd p sent k = Some (ERR_IO, k')" "log k' = log k"
          using \<open>sent < length p\<close> r S Ret by (subst send_loop.simps, auto)
        then show ?thesis using \<open>sent < length p\<close> by (intro exI [of _ ERR_IO] exI [of _ k'] exI [of _ sent]) simp
      next
        case False
        have s: "send_loop K fd p sent k = send_loop K fd p (sent + n) k'"
          using True r Ret False by (subst send_loop.simps) simp
        have n: "n \<le> length p - sent" "log k' = log k @ take n (drop sent p)" using S Ret by auto
        have "((length p - (sent + n), budget k'), (length p - sent, budget k)) \<in> less_than <*lex*> less_than"
        proof -
          have "length p - (sent + n) < length p - sent" using n(1) False True by linarith
          then show ?thesis by simp
        qed
        have "sent + n \<le> length p" using n(1) True by linarith
        from 1(1) [OF \<open>_ \<in> less_than <*lex*> less_than\<close> this] obtain err k2 m where m: "send_loop K fd p (sent + n) k' = Some (err, k2)"
          "m \<le> length p" "sent + n \<le> m" "log k2 = log k' @ take (m - (sent + n)) (drop (sent + n) p)"
          "err = ERR_OK \<and> m = length p \<or> err = ERR_IO \<and> m < length p" by blast
        have "take n (drop sent p) @ take (m - (sent + n)) (drop (sent + n) p) = take (m - sent) (drop sent p)"
          using m(3) take_add [of n "m - (sent + n)" "drop sent p"] by (simp add: add.commute)
        then show ?thesis using m n unfolding s by (intro exI [of _ err] exI [of _ k2] exI [of _ m]) auto
      qed
    qed
  qed
qed

section \<open>Descriptors\<close>

text \<open>What opening a socket must do to the descriptors.\<close>

definition opens :: "('k \<Rightarrow> int set) \<Rightarrow> 'k \<Rightarrow> error_code \<Rightarrow> int \<Rightarrow> 'k \<Rightarrow> bool" where
  "opens fds k err fd k' \<longleftrightarrow>
     (if err = ERR_OK then 0 \<le> fd \<and> fd \<notin> fds k \<and> fds k' = insert fd (fds k)
      else fd < 0 \<and> fds k' = fds k)"

lemma nw_socket_fds:
  assumes "fds_ok K fds" and "nw_socket K d t p k = (fd, k')"
  shows "if fd < 0 then fds k' = fds k else fd \<notin> fds k \<and> fds k' = insert fd (fds k)"
proof -
  note S = assms(1) [unfolded fds_ok_def, THEN conjunct1, rule_format]
  have C: "fds (k_set_cloexec K f j) = fds j" for f j using assms(1) by (simp add: fds_ok_def)
  obtain r1 k1 where 1: "k_socket K d (t + SOCK_CLOEXEC) p k = (r1, k1)" by fastforce
  obtain r2 k2 where 2: "k_socket K d t p k1 = (r2, k2)" by fastforce
  have n1: "nw_socket K d t p k = (if fd_of r1 \<ge> 0 then (fd_of r1, k1)
      else if fd_of r2 \<ge> 0 then (fd_of r2, k_set_cloexec K (fd_of r2) k2) else (fd_of r2, k2))"
    by (simp add: nw_socket_def 1 2 Let_def)
  show ?thesis using assms(2) S [where d = d and t = "t + SOCK_CLOEXEC" and p = p and k = k]
      S [where d = d and t = t and p = p and k = k1] C
    unfolding n1 1 2 by (cases r1; cases r2) (auto simp: fd_of_def)
qed

lemma fds_okD:
  assumes "fds_ok K fds"
  shows "fds (k_close K fd k) = fds k - {fd}" and "k_connect K fd a k = (b, k') \<Longrightarrow> fds k' = fds k"
    and "k_bind K fd a k = (b, k') \<Longrightarrow> fds k' = fds k" and "k_listen K fd i k = (b, k') \<Longrightarrow> fds k' = fds k"
    and "fds (k_reuseaddr K fd k) = fds k" and "fds (k_unlink K q k) = fds k" and "fds (k_chmod K q k) = fds k"
proof -
  show "fds (k_close K fd k) = fds k - {fd}" "fds (k_reuseaddr K fd k) = fds k" "fds (k_unlink K q k) = fds k"
    "fds (k_chmod K q k) = fds k" using assms by (simp_all add: fds_ok_def)
  have "fds (snd (k_connect K fd a k)) = fds k" "fds (snd (k_bind K fd a k)) = fds k"
    "fds (snd (k_listen K fd i k)) = fds k" using assms by (simp_all add: fds_ok_def)
  then show "k_connect K fd a k = (b, k') \<Longrightarrow> fds k' = fds k" "k_bind K fd a k = (b, k') \<Longrightarrow> fds k' = fds k"
    "k_listen K fd i k = (b, k') \<Longrightarrow> fds k' = fds k" by auto
qed

lemma connect_loop_fds:
  assumes "fds_ok K fds" and "connect_loop K ais k = (fd, k')"
  shows "if fd < 0 then fds k' = fds k else fd \<notin> fds k \<and> fds k' = insert fd (fds k)"
  using assms(2)
proof (induction ais arbitrary: k)
  case (Cons ai ais)
  obtain f k1 where s: "nw_socket K (ai_family ai) (ai_socktype ai) (ai_protocol ai) k = (f, k1)" by fastforce
  obtain b k2 where c: "k_connect K f (ai_addr ai) k1 = (b, k2)" by fastforce
  note N = nw_socket_fds [OF assms(1) s]
  note C = fds_okD(2) [OF assms(1) c]
  have step: "connect_loop K (ai # ais) k = (if f < 0 then connect_loop K ais k1
      else if b then (f, k2) else connect_loop K ais (k_close K f k2))" by (simp add: s c)
  consider "f < 0" | "\<not> f < 0" "b" | "\<not> f < 0" "\<not> b" by blast
  then show ?case
  proof cases
    case 1
    then show ?thesis using Cons.prems Cons.IH [of k1] N unfolding step by (auto split: if_splits)
  next
    case 2
    then show ?thesis using Cons.prems N C unfolding step by simp
  next
    case 3
    have "fds (k_close K f k2) = fds k" using 3 N C fds_okD(1) [OF assms(1), of f k2] by auto
    then show ?thesis using 3 Cons.prems Cons.IH [of "k_close K f k2"] unfolding step by (auto split: if_splits)
  qed
qed simp

text \<open>What the last calls of an opening function do: nothing to the descriptors but close.\<close>

lemma opens_new:
  "nw_socket K d t p k = (fd, k1) \<Longrightarrow> fds_ok K fds \<Longrightarrow> \<not> fd < 0 \<Longrightarrow> fds k2 = fds k1 \<Longrightarrow> opens fds k ERR_OK fd k2"
  using nw_socket_fds [of K fds d t p k fd k1] by (simp add: opens_def)

lemma opens_closed:
  "nw_socket K d t p k = (fd, k1) \<Longrightarrow> fds_ok K fds \<Longrightarrow> \<not> fd < 0 \<Longrightarrow> fds k2 = fds k1 \<Longrightarrow>
   opens fds k ERR_IO (- 1) (k_close K fd k2)"
  using nw_socket_fds [of K fds d t p k fd k1] fds_okD(1) [of K fds fd k2] by (simp add: opens_def)

lemma opens_none: "nw_socket K d t p k = (fd, k1) \<Longrightarrow> fds_ok K fds \<Longrightarrow> fd < 0 \<Longrightarrow> opens fds k ERR_IO (- 1) k1"
  using nw_socket_fds [of K fds d t p k fd k1] by (simp add: opens_def)

lemma tcp_connect_fds:
  assumes "fds_ok K fds" and "port \<noteq> 0"
  shows "\<exists>err s' k'. tcp_connect K (Some s) (Some host) port k = (err, Some s', k') \<and> opens fds k err (ts_fd s') k'"
proof -
  let ?g = "k_getaddrinfo K (Some host) (dec_nat (unat port))
    \<lparr>hi_family = AF_UNSPEC, hi_socktype = SOCK_STREAM, hi_passive = False\<rparr> k"
  consider "?g = None \<or> ?g = Some []" | ai ais where "?g = Some (ai # ais)" by (metis list.exhaust option.exhaust)
  then show ?thesis
  proof cases
    case 1
    then show ?thesis using assms(2) by (auto simp: tcp_connect_def opens_def Let_def)
  next
    case 2
    obtain fd k1 where c: "connect_loop K (ai # ais) k = (fd, k1)" by fastforce
    then have "tcp_connect K (Some s) (Some host) port k
        = (if fd < 0 then (ERR_IO, Some (s\<lparr>ts_fd := - 1\<rparr>), k1) else (ERR_OK, Some (s\<lparr>ts_fd := fd\<rparr>), k1))"
      using assms(2) 2 by (simp add: tcp_connect_def Let_def del: connect_loop.simps)
    then show ?thesis using connect_loop_fds [OF assms(1) c] by (auto simp: opens_def)
  qed
qed

lemma tcp_listen_host_fds:
  assumes K: "fds_ok K fds" and "host \<noteq> ''''" and "0 < backlog"
  shows "\<exists>err s' k'. tcp_listen_host K (Some s) (Some host) port backlog k = (err, Some s', k')
       \<and> opens fds k err (ts_fd s') k'"
proof -
  obtain node hints where b: "bind_target host SOCK_STREAM = (node, hints)" by fastforce
  let ?g = "k_getaddrinfo K node (dec_nat (unat port)) hints k"
  consider "?g = None \<or> ?g = Some []" | ai ais where "?g = Some (ai # ais)" by (metis list.exhaust option.exhaust)
  then show ?thesis
  proof cases
    case 1
    then show ?thesis using assms(2,3) b by (auto simp: tcp_listen_host_def opens_def Let_def)
  next
    case 2
    obtain fd k1 where n: "nw_socket K (ai_family ai) (ai_socktype ai) (ai_protocol ai) k = (fd, k1)" by fastforce
    obtain ok1 k2 where bd: "k_bind K fd (ai_addr ai) (k_reuseaddr K fd k1) = (ok1, k2)" by fastforce
    obtain ok2 k3 where ls: "k_listen K fd backlog k2 = (ok2, k3)" by fastforce
    have f: "fds k2 = fds k1" "fds k3 = fds k1"
      using fds_okD(3) [OF K bd] fds_okD(4) [OF K ls] fds_okD(5) [OF K] by simp_all
    have "tcp_listen_host K (Some s) (Some host) port backlog k
        = (if fd < 0 then (ERR_IO, Some (s\<lparr>ts_fd := - 1\<rparr>), k1)
           else if \<not> ok1 then (ERR_IO, Some (s\<lparr>ts_fd := - 1\<rparr>), k_close K fd k2)
           else if \<not> ok2 then (ERR_IO, Some (s\<lparr>ts_fd := - 1\<rparr>), k_close K fd k3)
           else (ERR_OK, Some (s\<lparr>ts_fd := fd\<rparr>), k3))"
      using assms(2,3) 2 b n bd ls by (simp add: tcp_listen_host_def Let_def)
    then show ?thesis
      using opens_none [OF n K] opens_closed [OF n K _ f(1)] opens_closed [OF n K _ f(2)] opens_new [OF n K _ f(2)]
      by (cases "fd < 0"; cases ok1; cases ok2) auto
  qed
qed

lemma udp_open_host_fds:
  assumes K: "fds_ok K fds" and "host \<noteq> ''''"
  shows "\<exists>err s' k'. udp_open_host K (Some s) (Some host) port k = (err, Some s', k')
       \<and> opens fds k err (us_fd s') k'"
proof -
  obtain node hints where b: "bind_target host SOCK_DGRAM = (node, hints)" by fastforce
  let ?g = "k_getaddrinfo K node (dec_nat (unat port)) hints k"
  consider "?g = None \<or> ?g = Some []" | ai ais where "?g = Some (ai # ais)" by (metis list.exhaust option.exhaust)
  then show ?thesis
  proof cases
    case 1
    then show ?thesis using assms(2) b by (auto simp: udp_open_host_def opens_def Let_def)
  next
    case 2
    obtain fd k1 where n: "nw_socket K (ai_family ai) (ai_socktype ai) (ai_protocol ai) k = (fd, k1)" by fastforce
    obtain ok1 k2 where bd: "k_bind K fd (ai_addr ai) k1 = (ok1, k2)" by fastforce
    have f: "fds k2 = fds k1" using fds_okD(3) [OF K bd] .
    have "udp_open_host K (Some s) (Some host) port k
        = (if fd < 0 then (ERR_IO, Some (s\<lparr>us_fd := - 1\<rparr>), k1)
           else if \<not> ok1 then (ERR_IO, Some (s\<lparr>us_fd := - 1\<rparr>), k_close K fd k2)
           else (ERR_OK, Some (s\<lparr>us_fd := fd\<rparr>), k2))"
      using assms(2) 2 b n bd by (simp add: udp_open_host_def Let_def)
    then show ?thesis
      using opens_none [OF n K] opens_closed [OF n K _ f] opens_new [OF n K _ f]
      by (cases "fd < 0"; cases ok1) auto
  qed
qed

lemma unix_connect_fds:
  assumes K: "fds_ok K fds" and "path \<noteq> ''''"
  shows "\<exists>err s' k'. unix_connect K (Some s) (Some path) k = (err, Some s', k') \<and> opens fds k err (xs_fd s') k'"
proof -
  obtain fd k1 where n: "nw_socket K AF_UNIX SOCK_STREAM 0 k = (fd, k1)" by fastforce
  obtain ok1 k2 where c: "k_connect K fd (map of_char path) k1 = (ok1, k2)" by fastforce
  have f: "fds k2 = fds k1" using fds_okD(2) [OF K c] .
  have "unix_connect K (Some s) (Some path) k
      = (if length path \<ge> 108 then (ERR_INVALID_ARG, Some (s\<lparr>xs_fd := - 1\<rparr>), k)
         else if fd < 0 then (ERR_IO, Some (s\<lparr>xs_fd := - 1\<rparr>), k1)
         else if \<not> ok1 then (ERR_IO, Some (s\<lparr>xs_fd := - 1\<rparr>), k_close K fd k2)
         else (ERR_OK, Some (s\<lparr>xs_fd := fd\<rparr>), k2))"
    using assms(2) n c by (simp add: unix_connect_def make_addr_def Let_def)
  then show ?thesis
    using opens_none [OF n K] opens_closed [OF n K _ f] opens_new [OF n K _ f]
    by (cases "length path \<ge> 108"; cases "fd < 0"; cases ok1) (auto simp: opens_def)
qed

lemma unix_listen_fds:
  assumes K: "fds_ok K fds" and "path \<noteq> ''''" and "0 < backlog"
  shows "\<exists>err s' k'. unix_listen K (Some s) (Some path) backlog k = (err, Some s', k') \<and> opens fds k err (xs_fd s') k'"
proof -
  obtain fd k1 where n: "nw_socket K AF_UNIX SOCK_STREAM 0 k = (fd, k1)" by fastforce
  define k2 where "k2 = (if k_lstat K path k1 = SocketFile then k_unlink K path k1 else k1)"
  obtain ok1 k3 where b: "k_bind K fd (map of_char path) k2 = (ok1, k3)" by fastforce
  obtain ok2 k4 where ls: "k_listen K fd backlog k3 = (ok2, k4)" by fastforce
  have f: "fds k3 = fds k1" "fds k4 = fds k1" "fds (k_chmod K path k4) = fds k1"
    using fds_okD(3) [OF K b] fds_okD(4) [OF K ls] fds_okD(6,7) [OF K] by (simp_all add: k2_def)
  have "unix_listen K (Some s) (Some path) backlog k
      = (if length path \<ge> 108 then (ERR_INVALID_ARG, Some (s\<lparr>xs_fd := - 1\<rparr>), k)
         else if fd < 0 then (ERR_IO, Some (s\<lparr>xs_fd := - 1\<rparr>), k1)
         else if k_lstat K path k1 = OtherFile then (ERR_IO, Some (s\<lparr>xs_fd := - 1\<rparr>), k_close K fd k1)
         else if \<not> ok1 then (ERR_IO, Some (s\<lparr>xs_fd := - 1\<rparr>), k_close K fd k3)
         else if \<not> ok2 then (ERR_IO, Some (s\<lparr>xs_fd := - 1\<rparr>), k_close K fd k4)
         else (ERR_OK, Some (s\<lparr>xs_fd := fd\<rparr>), k_chmod K path k4))"
    using assms(2,3) n b ls by (simp add: unix_listen_def make_addr_def Let_def k2_def)
  then show ?thesis
    using opens_none [OF n K] opens_closed [OF n K _ refl] opens_closed [OF n K _ f(1)]
      opens_closed [OF n K _ f(2)] opens_new [OF n K _ f(3)]
    by (cases "length path \<ge> 108"; cases "fd < 0"; cases "k_lstat K path k1 = OtherFile"; cases ok1; cases ok2)
       (auto simp: opens_def)
qed

section \<open>A system for the examples\<close>

text \<open>A system that sends at most two bytes a time, is interrupted once, and serves all else.\<close>

record sim =
  sim_next :: nat
  sim_fds :: "int set"
  sim_log :: "byte list"
  sim_interrupts :: nat

definition sim_kernel :: "sim kernel" where
  "sim_kernel = \<lparr>
     k_socket = (\<lambda>d t p k. if int (sim_next k) \<in> sim_fds k then (Fail, k)
       else (Ret (sim_next k), k\<lparr>sim_next := sim_next k + 1, sim_fds := insert (int (sim_next k)) (sim_fds k)\<rparr>)),
     k_set_cloexec = (\<lambda>fd k. k),
     k_connect = (\<lambda>fd a k. (a \<noteq> [], k)),
     k_bind = (\<lambda>fd a k. (a \<noteq> [], k)),
     k_listen = (\<lambda>fd b k. (True, k)),
     k_accept = (\<lambda>fd k. (Fail, k)),
     k_send = (\<lambda>fd d k. if sim_interrupts k > 0 then (Eintr, k\<lparr>sim_interrupts := sim_interrupts k - 1\<rparr>)
       else (Ret (min 2 (length d)), k\<lparr>sim_log := sim_log k @ take 2 d\<rparr>)),
     k_recv = (\<lambda>fd cap k. ((Ret 0, []), k)),
     k_sendto = (\<lambda>fd d a k. (Ret (length d), k)),
     k_recvfrom = (\<lambda>fd cap k. ((Fail, [], \<lparr>ss_family = AF_INET, ss_port = 0, ss_host = ''''\<rparr>), k)),
     k_close = (\<lambda>fd k. k\<lparr>sim_fds := sim_fds k - {fd}\<rparr>),
     k_reuseaddr = (\<lambda>fd k. k),
     k_getaddrinfo = (\<lambda>h p hi k. Some [\<lparr>ai_family = AF_INET, ai_socktype = hi_socktype hi, ai_protocol = 0, ai_addr = []\<rparr>,
       \<lparr>ai_family = AF_INET, ai_socktype = hi_socktype hi, ai_protocol = 0, ai_addr = [1]\<rparr>]),
     k_getsockname = (\<lambda>fd k. None),
     k_lstat = (\<lambda>p k. Absent),
     k_unlink = (\<lambda>p k. k),
     k_chmod = (\<lambda>p k. k)\<rparr>"

definition sim_start :: sim where
  "sim_start = \<lparr>sim_next = 3, sim_fds = {}, sim_log = [], sim_interrupts = 1\<rparr>"

lemma sim_fds_ok: "fds_ok sim_kernel sim_fds"
  by (auto simp: fds_ok_def sim_kernel_def)

lemma sim_stream_ok: "stream_ok sim_kernel fd sim_log sim_interrupts"
  by (auto simp: stream_ok_def sim_kernel_def min_def)

section \<open>Properties\<close>

text \<open>
  C27. \<open>tcp_send_all\<close> returns, and returns \<open>ERR_OK\<close> exactly when the whole buffer was handed to
  the system, in order and without repetition, however the system splits and interrupts the
  sends; otherwise \<open>ERR_IO\<close> after a proper prefix. The same holds of \<open>unix_send_all\<close>.
\<close>

theorem send_all_exact:
  assumes "stream_ok K fd log budget" and "0 \<le> fd" and "buf \<noteq> []"
  shows "\<exists>err k' n. tcp_send_all K (Some \<lparr>ts_fd = fd\<rparr>) (Some buf) k = Some (err, k')
       \<and> unix_send_all K (Some \<lparr>xs_fd = fd\<rparr>) (Some buf) k = Some (err, k')
       \<and> log k' = log k @ take n buf
       \<and> (err = ERR_OK \<and> n = length buf \<or> err = ERR_IO \<and> n < length buf)"
proof -
  obtain err k' n where "send_loop K fd buf 0 k = Some (err, k')" "log k' = log k @ take n buf"
    "err = ERR_OK \<and> n = length buf \<or> err = ERR_IO \<and> n < length buf"
    using send_loop_spec [OF assms(1), of 0 buf k] by auto
  then show ?thesis using assms(2,3)
    by (intro exI [of _ err] exI [of _ k'] exI [of _ n]) (simp add: tcp_send_all_def unix_send_all_def nw_send_all_def)
qed

theorem send_all_exact_witness:
  "\<exists>err k' n. tcp_send_all sim_kernel (Some \<lparr>ts_fd = 3\<rparr>) (Some [1, 2, 3]) sim_start = Some (err, k')
      \<and> sim_log k' = take n [1, 2, 3]"
  using send_all_exact [OF sim_stream_ok, of 3 "[1, 2, 3]" sim_start] by (auto simp: sim_start_def)

text \<open>
  C28. Opening a connection or a listener never leaks a descriptor: on success exactly the
  returned one is newly open, on every failure path the set of open descriptors is what it was
  and the socket holds \<open>-1\<close>.
\<close>

theorem sockets_no_leak:
  assumes "fds_ok K fds" and "port \<noteq> 0" and "host \<noteq> ''''" and "path \<noteq> ''''" and "0 < backlog"
  shows "(\<exists>err s k'. tcp_connect K (Some ts) (Some host) port k = (err, Some s, k') \<and> opens fds k err (ts_fd s) k')
       \<and> (\<exists>err s k'. tcp_listen_host K (Some ts) (Some host) port backlog k = (err, Some s, k') \<and> opens fds k err (ts_fd s) k')
       \<and> (\<exists>err s k'. udp_open_host K (Some us) (Some host) port k = (err, Some s, k') \<and> opens fds k err (us_fd s) k')
       \<and> (\<exists>err s k'. unix_connect K (Some xs) (Some path) k = (err, Some s, k') \<and> opens fds k err (xs_fd s) k')
       \<and> (\<exists>err s k'. unix_listen K (Some xs) (Some path) backlog k = (err, Some s, k') \<and> opens fds k err (xs_fd s) k')"
  by (intro conjI tcp_connect_fds tcp_listen_host_fds udp_open_host_fds unix_connect_fds unix_listen_fds assms)

theorem sockets_no_leak_witness:
  "\<exists>err s k'. tcp_connect sim_kernel (Some \<lparr>ts_fd = - 1\<rparr>) (Some ''host'') 80 sim_start = (err, Some s, k')
      \<and> opens sim_fds sim_start err (ts_fd s) k'"
proof -
  have "(80 :: 16 word) \<noteq> 0" "''host'' \<noteq> ''''" "''/s'' \<noteq> ''''" "0 < (5 :: int)" by simp_all
  from sockets_no_leak [OF sim_fds_ok this, of "\<lparr>ts_fd = - 1\<rparr>" sim_start "\<lparr>us_fd = - 1\<rparr>" "\<lparr>xs_fd = - 1\<rparr>"]
  show ?thesis by blast
qed

text \<open>
  \<open>udp_open_host\<close> on an IPv6 address asks for an IPv6 socket, but \<open>udp_send_to\<close> resolves IPv4
  only, its comment saying that the socket is \<open>AF_INET\<close>.
\<close>

lemma udp_ipv6_socket: "hi_family (snd (bind_target ''::1'' SOCK_DGRAM)) = AF_INET6"
  by (simp add: bind_target_def Let_def)

end
