(* ===== verification/EchoServer.thy ===== *)
theory EchoServer
  imports EventLoop Sockets
begin

text \<open>
  The echo server of \<open>examples/evloop_server_demo.c\<close>, which puts the event loop and the sockets together:
  the listener and every client are descriptors of one loop, whose callbacks accept, echo and close.
  The kernel is that of theory Sockets; whether the arrays of the loop can grow is a function of its
  state. A callback that does not return leaves no state (\<open>None\<close>).
\<close>

section \<open>The callbacks\<close>

datatype handler = OnAccept | OnClient

definition on_client :: "'k kernel \<Rightarrow> int \<Rightarrow> 'k \<Rightarrow> (handler loop_op list \<times> 'k) ub" where
  "on_client K fd k =
     (let client = \<lparr>ts_fd = fd\<rparr> in
      do { ((err, out), k) \<leftarrow> tcp_recv K (Some client) True 1024 True k;
           let buf = (case out of None \<Rightarrow> [] | Some d \<Rightarrow> d);
           if err \<noteq> ERR_OK \<or> buf = [] then Some ([OpRemove fd], snd (tcp_close K (Some client) k))
           else do { (err, k) \<leftarrow> tcp_send_all K (Some client) (Some buf) k;
                     if err \<noteq> ERR_OK then Some ([OpRemove fd], snd (tcp_close K (Some client) k))
                     else Some ([], k) } })"

text \<open>The structure \<open>conn\<close> is not initialised before \<open>tcp_accept\<close>, which sets its one field.\<close>

definition on_accept ::
  "'k kernel \<Rightarrow> ('k \<Rightarrow> bool \<times> bool) \<Rightarrow> tcp_socket \<Rightarrow> u64 \<Rightarrow> handler event_loop \<Rightarrow> 'k \<Rightarrow> (handler loop_op list \<times> 'k) ub" where
  "on_accept K grow listener srv l k =
     do { (err, conn, k) \<leftarrow> tcp_accept K (Some listener) (Some \<lparr>ts_fd = - 1\<rparr>) k;
          if err \<noteq> ERR_OK then Some ([], k)
          else do {
            c \<leftarrow> conn;
            let (a, b) = grow k;
            let add = OpAdd a b (ts_fd c) EV_READ (Some OnClient) srv;
            if fst (event_loop_add a b (Some l) (ts_fd c) EV_READ (Some OnClient) srv) \<noteq> ERR_OK
            then Some ([add], snd (tcp_close K conn k))
            else Some ([add], k) } }"

definition server ::
  "'k kernel \<Rightarrow> ('k \<Rightarrow> bool \<times> bool) \<Rightarrow> tcp_socket \<Rightarrow> (handler, 'k option) client" where
  "server K grow listener cb fd events srv l w =
     (case Option.bind w (\<lambda>k. case cb of OnAccept \<Rightarrow> on_accept K grow listener srv l k | OnClient \<Rightarrow> on_client K fd k) of
        None \<Rightarrow> ([], None)
      | Some (ops, k) \<Rightarrow> (ops, Some k))"

text \<open>
  \<open>main\<close> after the port is read, up to the loop: the exit status, or the listener and the loop ready to run.
  Then the loop and what follows it.
\<close>

definition server_setup ::
  "'k kernel \<Rightarrow> ('k \<Rightarrow> bool \<times> bool) \<Rightarrow> bool \<Rightarrow> 16 word \<Rightarrow> u64 \<Rightarrow> 'k \<Rightarrow> (int + tcp_socket \<times> handler event_loop) \<times> 'k" where
  "server_setup K grow ok port srv k =
     (let (err, s, k) = tcp_listen_host K (Some \<lparr>ts_fd = - 1\<rparr>) (Some ''127.0.0.1'') port 16 k
      in if err \<noteq> ERR_OK then (Inl 1, k)
         else let (err, lp) = event_loop_create ok True
           in if err \<noteq> ERR_OK then (Inl 1, snd (tcp_close K s k))
              else let (a, b) = grow k; (err, lp) = event_loop_add a b lp (ts_fd (the s)) EV_READ (Some OnAccept) srv
                in if err \<noteq> ERR_OK then (Inl 1, snd (tcp_close K s k)) else (Inr (the s, the lp), k))"

definition server_main ::
  "'k kernel \<Rightarrow> ('k \<Rightarrow> bool \<times> bool) \<Rightarrow> bool \<Rightarrow> 16 word \<Rightarrow> u64 \<Rightarrow> poll_answer list list \<Rightarrow> 'k \<Rightarrow> (int \<times> 'k) ub" where
  "server_main K grow ok port srv rounds k =
     (case server_setup K grow ok port srv k of
        (Inl status, k) \<Rightarrow> Some (status, k)
      | (Inr (listener, l), k) \<Rightarrow>
          do { (err, lp, w) \<leftarrow> event_loop_run (server K grow listener) rounds (Some l) (Some k);
               k \<leftarrow> w;
               Some (if err = ERR_OK then 0 else 1, snd (tcp_close K (Some listener) k)) })"

section \<open>What is relied on of the system\<close>

text \<open>Open descriptors, and what was received and sent on each since it was accepted.\<close>

record net =
  nt_fds :: "int set"
  nt_in :: "int \<Rightarrow> byte list"
  nt_out :: "int \<Rightarrow> byte list"

text \<open>
  \<open>accept\<close> opens a fresh descriptor or none, \<open>recv\<close> delivers bytes, \<open>send\<close> takes a prefix, \<open>close\<close> closes; a
  call that is interrupted or fails does nothing, and interrupts come only finitely often in a row.
\<close>

definition net_ok :: "'k kernel \<Rightarrow> ('k \<Rightarrow> net) \<Rightarrow> ('k \<Rightarrow> nat) \<Rightarrow> bool" where
  "net_ok K net budget \<longleftrightarrow> fds_ok K (\<lambda>k. nt_fds (net k))
     \<and> (\<forall>fd k. net (k_close K fd k) = (net k)\<lparr>nt_fds := nt_fds (net k) - {fd}\<rparr>)
     \<and> (\<forall>fd k. case k_accept K fd k of
          (Ret n, k') \<Rightarrow> int n \<notin> nt_fds (net k)
            \<and> net k' = \<lparr>nt_fds = insert (int n) (nt_fds (net k)), nt_in = (nt_in (net k))(int n := []), nt_out = (nt_out (net k))(int n := [])\<rparr>
        | (r, k') \<Rightarrow> net k' = net k \<and> (r = Eintr \<longrightarrow> budget k' < budget k))
     \<and> (\<forall>fd cap k. case k_recv K fd cap k of
          ((Ret n, d), k') \<Rightarrow> net k' = (net k)\<lparr>nt_in := (nt_in (net k))(fd := nt_in (net k) fd @ take n d)\<rparr>
        | ((r, d), k') \<Rightarrow> net k' = net k \<and> (r = Eintr \<longrightarrow> budget k' < budget k))
     \<and> (\<forall>fd d k. d \<noteq> [] \<longrightarrow> (case k_send K fd d k of
          (Ret n, k') \<Rightarrow> n \<le> length d \<and> net k' = (net k)\<lparr>nt_out := (nt_out (net k))(fd := nt_out (net k) fd @ take n d)\<rparr>
        | (r, k') \<Rightarrow> net k' = net k \<and> (r = Eintr \<longrightarrow> budget k' < budget k)))"

lemma net_okD:
  assumes "net_ok K net budget"
  shows "fds_ok K (\<lambda>k. nt_fds (net k))"
    and "net (k_close K fd k) = (net k)\<lparr>nt_fds := nt_fds (net k) - {fd}\<rparr>"
    and "k_accept K fd k = (Ret n, k') \<Longrightarrow> int n \<notin> nt_fds (net k)
            \<and> net k' = \<lparr>nt_fds = insert (int n) (nt_fds (net k)), nt_in = (nt_in (net k))(int n := []), nt_out = (nt_out (net k))(int n := [])\<rparr>"
    and "k_accept K fd k = (r, k') \<Longrightarrow> fd_of r < 0 \<Longrightarrow> net k' = net k \<and> (r = Eintr \<longrightarrow> budget k' < budget k)"
    and "k_recv K fd cap k = ((Ret n, d), k') \<Longrightarrow> net k' = (net k)\<lparr>nt_in := (nt_in (net k))(fd := nt_in (net k) fd @ take n d)\<rparr>"
    and "k_recv K fd cap k = ((r, d), k') \<Longrightarrow> fd_of r < 0 \<Longrightarrow> net k' = net k \<and> (r = Eintr \<longrightarrow> budget k' < budget k)"
    and "d \<noteq> [] \<Longrightarrow> k_send K fd d k = (Ret n, k') \<Longrightarrow>
           n \<le> length d \<and> net k' = (net k)\<lparr>nt_out := (nt_out (net k))(fd := nt_out (net k) fd @ take n d)\<rparr>"
    and "d \<noteq> [] \<Longrightarrow> k_send K fd d k = (r, k') \<Longrightarrow> fd_of r < 0 \<Longrightarrow> net k' = net k \<and> (r = Eintr \<longrightarrow> budget k' < budget k)"
proof -
  note a = assms [unfolded net_ok_def]
  show "fds_ok K (\<lambda>k. nt_fds (net k))" "net (k_close K fd k) = (net k)\<lparr>nt_fds := nt_fds (net k) - {fd}\<rparr>" using a by blast+
  note c = a [THEN conjunct2, THEN conjunct2]
  note acc = c [THEN conjunct1, THEN spec [of _ fd], THEN spec [of _ k]] and rec = c [THEN conjunct2, THEN conjunct1, THEN spec [of _ fd], THEN spec [of _ cap], THEN spec [of _ k]]
    and sen = c [THEN conjunct2, THEN conjunct2, THEN spec [of _ fd], THEN spec [of _ d], THEN spec [of _ k]]
  show "k_accept K fd k = (Ret n, k') \<Longrightarrow> int n \<notin> nt_fds (net k)
            \<and> net k' = \<lparr>nt_fds = insert (int n) (nt_fds (net k)), nt_in = (nt_in (net k))(int n := []), nt_out = (nt_out (net k))(int n := [])\<rparr>"
    "k_accept K fd k = (r, k') \<Longrightarrow> fd_of r < 0 \<Longrightarrow> net k' = net k \<and> (r = Eintr \<longrightarrow> budget k' < budget k)"
    using acc by (auto simp: fd_of_def split: sysret.splits)
  show "k_recv K fd cap k = ((Ret n, d), k') \<Longrightarrow> net k' = (net k)\<lparr>nt_in := (nt_in (net k))(fd := nt_in (net k) fd @ take n d)\<rparr>"
    "k_recv K fd cap k = ((r, d), k') \<Longrightarrow> fd_of r < 0 \<Longrightarrow> net k' = net k \<and> (r = Eintr \<longrightarrow> budget k' < budget k)"
    using rec by (auto simp: fd_of_def split: sysret.splits)
  show "d \<noteq> [] \<Longrightarrow> k_send K fd d k = (Ret n, k') \<Longrightarrow>
           n \<le> length d \<and> net k' = (net k)\<lparr>nt_out := (nt_out (net k))(fd := nt_out (net k) fd @ take n d)\<rparr>"
    "d \<noteq> [] \<Longrightarrow> k_send K fd d k = (r, k') \<Longrightarrow> fd_of r < 0 \<Longrightarrow> net k' = net k \<and> (r = Eintr \<longrightarrow> budget k' < budget k)"
    using sen by (auto simp: fd_of_def split: sysret.splits)
qed

section \<open>The socket calls return\<close>

lemma accept_returns:
  assumes "net_ok K net budget"
  shows "\<exists>fd k'. accept_loop K l k = Some (fd, k') \<and> (if fd < 0 then net k' = net k
     else fd \<notin> nt_fds (net k) \<and> net k' = \<lparr>nt_fds = insert fd (nt_fds (net k)), nt_in = (nt_in (net k))(fd := []), nt_out = (nt_out (net k))(fd := [])\<rparr>)"
proof (induction "budget k" arbitrary: k rule: less_induct)
  case less
  obtain r k' where r: "k_accept K l k = (r, k')" by fastforce
  note loop = accept_loop.simps [of K l k, unfolded r Let_def prod.case]
  show ?case
  proof (cases r)
    case (Ret n)
    then show ?thesis using loop net_okD(3) [OF assms r [unfolded Ret]] by (simp add: fd_of_def)
  next
    case Eintr
    then have k': "net k' = net k" "budget k' < budget k" using net_okD(4) [OF assms r] by (auto simp: fd_of_def)
    have "accept_loop K l k = accept_loop K l k'" using loop Eintr by simp
    with less [OF k'(2)] show ?thesis unfolding k'(1) by metis
  next
    case Fail
    then show ?thesis using loop net_okD(4) [OF assms r] by (simp add: fd_of_def)
  qed
qed

lemma recv_returns:
  assumes "net_ok K net budget"
  shows "\<exists>err out k'. nw_recv K fd cap k = Some ((err, out), k')
     \<and> (if err = ERR_OK then \<exists>d. out = Some d \<and> net k' = (net k)\<lparr>nt_in := (nt_in (net k))(fd := nt_in (net k) fd @ d)\<rparr>
         else out = None \<and> net k' = net k)"
proof (induction "budget k" arbitrary: k rule: less_induct)
  case less
  obtain r d k' where r: "k_recv K fd cap k = ((r, d), k')" by (metis prod.exhaust)
  note loop = recv_loop.simps [of K fd cap k, unfolded r Let_def prod.case fst_conv]
  show ?case
  proof (cases r)
    case (Ret n)
    then show ?thesis using loop net_okD(5) [OF assms r [unfolded Ret]] by (simp add: nw_recv_def)
  next
    case Eintr
    then have k': "net k' = net k" "budget k' < budget k" using net_okD(6) [OF assms r] by (auto simp: fd_of_def)
    have "nw_recv K fd cap k = nw_recv K fd cap k'" using loop Eintr by (simp add: nw_recv_def)
    with less [OF k'(2)] show ?thesis unfolding k'(1) by metis
  next
    case Fail
    then show ?thesis using loop net_okD(6) [OF assms r] by (simp add: nw_recv_def fd_of_def)
  qed
qed

text \<open>What \<open>send\<close> leaves alone, the loop does.\<close>

lemma send_loop_frame:
  assumes "send_loop K fd p sent k = Some (err, k')" and "\<And>d k. d \<noteq> [] \<Longrightarrow> F (snd (k_send K fd d k)) = F k"
  shows "F k' = F k"
proof -
  let ?P = "\<lambda>K fd p sent k y. (\<forall>d k. d \<noteq> [] \<longrightarrow> F (snd (k_send K fd d k)) = F k) \<longrightarrow> F (snd y) = F k"
  have "?P K fd p sent k (err, k')"
  proof (rule send_loop.raw_induct [of ?P, OF _ assms(1)])
    fix f K fd p sent k y
    assume IH: "\<And>K fd p sent k y. f K fd p sent k = Some y \<Longrightarrow> ?P K fd p sent k y"
      and body: "(if sent < length p then let (r, k') = k_send K fd (drop sent p) k
        in (case r of Ret n \<Rightarrow> if n = 0 then Some (ERR_IO, k') else f K fd p (sent + n) k'
              | Eintr \<Rightarrow> f K fd p sent k' | Fail \<Rightarrow> Some (ERR_IO, k'))
      else Some (ERR_OK, k)) = Some y"
    show "?P K fd p sent k y"
    proof (intro impI)
      assume F: "\<forall>d k. d \<noteq> [] \<longrightarrow> F (snd (k_send K fd d k)) = F k"
      obtain r k' where r: "k_send K fd (drop sent p) k = (r, k')" by fastforce
      show "F (snd y) = F k"
      proof (cases "sent < length p")
        case True
        then have "F k' = F k" using F [rule_format, of "drop sent p" k] r by simp
        then show ?thesis using body True r F IH by (auto split: sysret.splits if_splits)
      qed (use body in auto)
    qed
  qed
  then show ?thesis using assms(2) by simp
qed

lemma send_returns:
  assumes "net_ok K net budget" and "d \<noteq> []"
  shows "\<exists>err k' n. nw_send_all K fd d k = Some (err, k') \<and> (err = ERR_OK \<longleftrightarrow> n = length d)
     \<and> net k' = (net k)\<lparr>nt_out := (nt_out (net k))(fd := nt_out (net k) fd @ take n d)\<rparr>"
proof -
  have st: "stream_ok K fd (\<lambda>k. nt_out (net k) fd) budget"
    unfolding stream_ok_def
  proof (intro allI impI)
    fix d :: "byte list" and k assume d: "d \<noteq> []"
    obtain r k' where r: "k_send K fd d k = (r, k')" by fastforce
    show "case k_send K fd d k of
        (Ret n, k') \<Rightarrow> n \<le> length d \<and> nt_out (net k') fd = nt_out (net k) fd @ take n d
      | (Eintr, k') \<Rightarrow> nt_out (net k') fd = nt_out (net k) fd \<and> budget k' < budget k
      | (Fail, k') \<Rightarrow> nt_out (net k') fd = nt_out (net k) fd"
      using net_okD(7) [OF assms(1) d, of fd k _ k'] net_okD(8) [OF assms(1) d r] r by (auto simp: fd_of_def split: sysret.split)
  qed
  obtain err k' n where s: "send_loop K fd d 0 k = Some (err, k')" "n \<le> length d"
    "nt_out (net k') fd = nt_out (net k) fd @ take n d" "err = ERR_OK \<and> n = length d \<or> err = ERR_IO \<and> n < length d"
    using send_loop_spec [OF st, of 0 d k] by auto
  have "(net (snd (k_send K fd d k)))\<lparr>nt_out := (nt_out (net (snd (k_send K fd d k))))(fd := [])\<rparr> = (net k)\<lparr>nt_out := (nt_out (net k))(fd := [])\<rparr>"
    if "d \<noteq> []" for d k
    using net_okD(7) [OF assms(1) that, of fd k] net_okD(8) [OF assms(1) that, of fd k]
    by (cases "k_send K fd d k"; cases "fst (k_send K fd d k)") (auto simp: fd_of_def)
  from send_loop_frame [OF s(1), of "\<lambda>k. (net k)\<lparr>nt_out := (nt_out (net k))(fd := [])\<rparr>", OF this]
  have fr: "(net k')\<lparr>nt_out := (nt_out (net k'))(fd := [])\<rparr> = (net k)\<lparr>nt_out := (nt_out (net k))(fd := [])\<rparr>" by blast
  have "net k' = (net k)\<lparr>nt_out := (nt_out (net k))(fd := nt_out (net k') fd)\<rparr>"
    using fr by (cases "net k"; cases "net k'") (simp, metis fun_upd_triv fun_upd_upd)
  then show ?thesis using s by (intro exI [of _ err] exI [of _ k'] exI [of _ n]) (auto simp: nw_send_all_def)
qed

section \<open>What every callback keeps\<close>

text \<open>
  The open descriptors are those from before (\<open>base\<close>) and the registered ones; the listener has the
  accepting callback and every other registered descriptor has been sent exactly what it sent.
\<close>

definition echo_inv ::
  "int set \<Rightarrow> int \<Rightarrow> ('k \<Rightarrow> net) \<Rightarrow> (int \<rightharpoonup> u32 \<times> handler \<times> u64) \<Rightarrow> 'k option \<Rightarrow> bool" where
  "echo_inv base lfd net reg w \<longleftrightarrow>
     (\<exists>k. w = Some k \<and> nt_fds (net k) = base \<union> dom reg \<and> base \<inter> dom reg = {} \<and> lfd \<in> dom reg
       \<and> (\<forall>fd ev cb ud. reg fd = Some (ev, cb, ud) \<longrightarrow> 0 \<le> fd \<and> (cb = OnAccept \<longleftrightarrow> fd = lfd)
            \<and> (fd \<noteq> lfd \<longrightarrow> nt_out (net k) fd = nt_in (net k) fd)))"

lemma echo_invD:
  assumes "echo_inv base lfd net reg (Some k)"
  shows "nt_fds (net k) = base \<union> dom reg" and "base \<inter> dom reg = {}" and "lfd \<in> dom reg"
    and "reg fd = Some (ev, cb, ud) \<Longrightarrow> 0 \<le> fd \<and> (cb = OnAccept \<longleftrightarrow> fd = lfd) \<and> (fd \<noteq> lfd \<longrightarrow> nt_out (net k) fd = nt_in (net k) fd)"
  using assms by (auto simp: echo_inv_def)

lemma echo_invI:
  assumes "nt_fds (net k) = base \<union> dom reg" and "base \<inter> dom reg = {}" and "lfd \<in> dom reg"
    and "\<And>fd ev cb ud. reg fd = Some (ev, cb, ud) \<Longrightarrow> 0 \<le> fd \<and> (cb = OnAccept \<longleftrightarrow> fd = lfd) \<and> (fd \<noteq> lfd \<longrightarrow> nt_out (net k) fd = nt_in (net k) fd)"
  shows "echo_inv base lfd net reg (Some k)"
  using assms unfolding echo_inv_def by blast

text \<open>A client that is closed and removed.\<close>

lemma echo_inv_removed:
  assumes "net_ok K net budget" and "loop_inv l" and "el_dispatching l"
    and "echo_inv base lfd net (registered l) (Some k)" and "fd \<in> dom (registered l)" and "fd \<noteq> lfd"
    and "nt_fds (net k') = nt_fds (net k)" and "\<And>q. q \<noteq> fd \<Longrightarrow> nt_in (net k') q = nt_in (net k) q \<and> nt_out (net k') q = nt_out (net k) q"
  shows "echo_inv base lfd net (registered (apply_op (OpRemove fd) l)) (Some (snd (tcp_close K (Some \<lparr>ts_fd = fd\<rparr>) k')))"
proof -
  note I = echo_invD [OF assms(4)]
  have fd: "0 \<le> fd" "fd \<notin> base" using assms(5) I(2) I(4) [of fd] by auto
  obtain err lp where r: "event_loop_remove (Some l) fd = (err, lp)" by fastforce
  have reg: "registered (apply_op (OpRemove fd) l) = (registered l)(fd := None)"
    using event_loop_remove_spec [OF assms(2) r] assms(3,5) r by (auto split: if_splits)
  have c: "net (snd (tcp_close K (Some \<lparr>ts_fd = fd\<rparr>) k')) = (net k')\<lparr>nt_fds := nt_fds (net k') - {fd}\<rparr>"
    using fd(1) net_okD(2) [OF assms(1)] by (simp add: tcp_close_def)
  show ?thesis unfolding reg
  proof (rule echo_invI)
    fix q ev cb ud assume "((registered l)(fd := None)) q = Some (ev, cb, ud)"
    then have q: "q \<noteq> fd" "registered l q = Some (ev, cb, ud)" by (auto split: if_splits)
    show "0 \<le> q \<and> (cb = OnAccept \<longleftrightarrow> q = lfd) \<and> (q \<noteq> lfd \<longrightarrow>
        nt_out (net (snd (tcp_close K (Some \<lparr>ts_fd = fd\<rparr>) k'))) q = nt_in (net (snd (tcp_close K (Some \<lparr>ts_fd = fd\<rparr>) k'))) q)"
      using I(4) [OF q(2)] assms(8) [OF q(1)] unfolding c by simp
  qed (use I(1-3) assms(6,7) fd(2) in \<open>auto simp: c\<close>)
qed

lemma on_client_keeps:
  assumes "net_ok K net budget" and "loop_inv l" and "el_dispatching l"
    and "echo_inv base lfd net (registered l) (Some k)" and "registered l fd = Some (ev, OnClient, ud)"
  shows "\<exists>ops k'. on_client K fd k = Some (ops, k') \<and> echo_inv base lfd net (registered (fold apply_op ops l)) (Some k')"
proof -
  note I = echo_invD [OF assms(4)]
  have fd: "0 \<le> fd" "fd \<noteq> lfd" "nt_out (net k) fd = nt_in (net k) fd" using I(4) [OF assms(5)] by auto
  have "fd \<in> dom (registered l)" using assms(5) by blast
  note removed = echo_inv_removed [OF assms(1-4) this fd(2)]
  obtain err out k1 where r: "nw_recv K fd 1024 k = Some ((err, out), k1)"
    and R: "if err = ERR_OK then \<exists>d. out = Some d \<and> net k1 = (net k)\<lparr>nt_in := (nt_in (net k))(fd := nt_in (net k) fd @ d)\<rparr>
         else out = None \<and> net k1 = net k"
    using recv_returns [OF assms(1), of fd 1024 k] by blast
  define buf where "buf = (case out of None \<Rightarrow> [] | Some d \<Rightarrow> d)"
  have tr: "tcp_recv K (Some \<lparr>ts_fd = fd\<rparr>) True 1024 True k = Some ((err, Some buf), k1)"
    using fd(1) by (simp add: tcp_recv_def r buf_def split: option.split)
  show ?thesis
  proof (cases "err \<noteq> ERR_OK \<or> buf = []")
    case True
    have "net k1 = net k"
    proof (cases "err = ERR_OK")
      case ok: True
      then obtain d where "out = Some d" "net k1 = (net k)\<lparr>nt_in := (nt_in (net k))(fd := nt_in (net k) fd @ d)\<rparr>" using R by auto
      then show ?thesis using True ok by (simp add: buf_def)
    qed (use R in simp)
    then show ?thesis using removed [of k1] True by (simp add: on_client_def tr Let_def)
  next
    case False
    then have n1: "net k1 = (net k)\<lparr>nt_in := (nt_in (net k))(fd := nt_in (net k) fd @ buf)\<rparr>"
      using R by (auto simp: buf_def)
    obtain err2 k2 n where s: "nw_send_all K fd buf k1 = Some (err2, k2)" "err2 = ERR_OK \<longleftrightarrow> n = length buf"
      "net k2 = (net k1)\<lparr>nt_out := (nt_out (net k1))(fd := nt_out (net k1) fd @ take n buf)\<rparr>"
      using send_returns [OF assms(1), of buf fd k1] False by blast
    have ts: "tcp_send_all K (Some \<lparr>ts_fd = fd\<rparr>) (Some buf) k1 = Some (err2, k2)"
      using fd(1) False s(1) by (simp add: tcp_send_all_def)
    show ?thesis
    proof (cases "err2 = ERR_OK")
      case True
      have "echo_inv base lfd net (registered l) (Some k2)"
      proof (rule echo_invI)
        fix q ev cb ud assume "registered l q = Some (ev, cb, ud)"
        then show "0 \<le> q \<and> (cb = OnAccept \<longleftrightarrow> q = lfd) \<and> (q \<noteq> lfd \<longrightarrow> nt_out (net k2) q = nt_in (net k2) q)"
          using I(4) [of q ev cb ud] fd(3) s(2,3) True unfolding n1 by simp
      qed (use I(1-3) s(3) n1 in simp_all)
      then show ?thesis using False True by (simp add: on_client_def tr ts Let_def)
    next
      case f: False
      then show ?thesis using removed [of k2] False s(3) n1 by (simp add: on_client_def tr ts Let_def)
    qed
  qed
qed

lemma on_accept_keeps:
  assumes "net_ok K net budget" and "loop_inv l"
    and "echo_inv base (ts_fd s) net (registered l) (Some k)"
  shows "\<exists>ops k'. on_accept K grow s srv l k = Some (ops, k') \<and> echo_inv base (ts_fd s) net (registered (fold apply_op ops l)) (Some k')"
proof -
  note I = echo_invD [OF assms(3)]
  have lfd: "0 \<le> ts_fd s" using I(3) I(4) [of "ts_fd s"] by auto
  obtain fd k1 where a: "accept_loop K (ts_fd s) k = Some (fd, k1)"
    and A: "if fd < 0 then net k1 = net k else fd \<notin> nt_fds (net k) \<and>
      net k1 = \<lparr>nt_fds = insert fd (nt_fds (net k)), nt_in = (nt_in (net k))(fd := []), nt_out = (nt_out (net k))(fd := [])\<rparr>"
    using accept_returns [OF assms(1)] by blast
  have ta: "tcp_accept K (Some s) (Some \<lparr>ts_fd = - 1\<rparr>) k = Some (if fd < 0 then ERR_IO else ERR_OK, Some \<lparr>ts_fd = fd\<rparr>, k1)"
    using lfd a by (simp add: tcp_accept_def nw_accept_intr_def)
  show ?thesis
  proof (cases "fd < 0")
    case True
    then have "echo_inv base (ts_fd s) net (registered l) (Some k1)" using I A by (intro echo_invI) auto
    then show ?thesis using True by (simp add: on_accept_def ta)
  next
    case False
    then have new: "fd \<notin> base" "fd \<notin> dom (registered l)" using A I(1) by auto
    have n1: "net k1 = \<lparr>nt_fds = insert fd (nt_fds (net k)), nt_in = (nt_in (net k))(fd := []), nt_out = (nt_out (net k))(fd := [])\<rparr>"
      using A False by simp
    obtain x y where g: "grow k1 = (x, y)" by fastforce
    let ?add = "OpAdd x y fd EV_READ (Some OnClient) srv"
    obtain err lp where r: "event_loop_add x y (Some l) fd EV_READ (Some OnClient) srv = (err, lp)" by fastforce
    from event_loop_add_spec [OF assms(2) r] obtain l' where l': "lp = Some l'"
      "err = ERR_OK \<Longrightarrow> registered l' = (registered l)(fd \<mapsto> (EV_READ, OnClient, srv))"
      "err \<noteq> ERR_OK \<Longrightarrow> registered l' = registered l"
      by (auto split: if_splits)
    have other: "0 \<le> q \<and> (cb = OnAccept \<longleftrightarrow> q = ts_fd s) \<and> q \<noteq> fd \<and> (q \<noteq> ts_fd s \<longrightarrow> nt_out (net k1) q = nt_in (net k1) q)"
      if "registered l q = Some (ev, cb, ud)" for q ev cb ud
    proof -
      have "q \<noteq> fd" using that new(2) by blast
      then show ?thesis using I(4) [OF that] by (simp add: n1)
    qed
    show ?thesis
    proof (cases "err = ERR_OK")
      case True
      have "echo_inv base (ts_fd s) net (registered l') (Some k1)" unfolding l'(2) [OF True]
      proof (rule echo_invI)
        fix q ev cb ud assume q: "((registered l)(fd \<mapsto> (EV_READ, OnClient, srv))) q = Some (ev, cb, ud)"
        have "fd \<noteq> ts_fd s" using I(3) new(2) by blast
        then show "0 \<le> q \<and> (cb = OnAccept \<longleftrightarrow> q = ts_fd s) \<and> (q \<noteq> ts_fd s \<longrightarrow> nt_out (net k1) q = nt_in (net k1) q)"
          using q other [of q ev cb ud] False by (cases "q = fd") (auto simp: n1)
      qed (use I(1-3) new in \<open>auto simp: n1\<close>)
      then show ?thesis using False r l'(1) True g by (simp add: on_accept_def ta)
    next
      case f: False
      have c: "net (k_close K fd k1) = (net k1)\<lparr>nt_fds := nt_fds (net k1) - {fd}\<rparr>" using net_okD(2) [OF assms(1)] .
      have "echo_inv base (ts_fd s) net (registered l') (Some (k_close K fd k1))" unfolding l'(3) [OF f]
      proof (rule echo_invI)
        fix q ev cb ud assume "registered l q = Some (ev, cb, ud)"
        from other [OF this] show "0 \<le> q \<and> (cb = OnAccept \<longleftrightarrow> q = ts_fd s)
            \<and> (q \<noteq> ts_fd s \<longrightarrow> nt_out (net (k_close K fd k1)) q = nt_in (net (k_close K fd k1)) q)" unfolding c by simp
      qed (use I(1-3) new in \<open>auto simp: c n1\<close>)
      then show ?thesis using False r l'(1) f g by (simp add: on_accept_def ta tcp_close_def)
    qed
  qed
qed

lemma server_keeps:
  assumes "net_ok K net budget" and "echo_inv base (ts_fd s) net (registered l) w" and "loop_inv l" and "el_dispatching l"
    and "e \<in> set (live l)" and "server K grow s (ee_cb e) (ee_fd e) ready (ee_user_data e) l w = (ops, w')"
  shows "echo_inv base (ts_fd s) net (registered (fold apply_op ops l)) w'"
proof -
  obtain k where k: "w = Some k" using assms(2) by (auto simp: echo_inv_def)
  note inv = assms(2) [unfolded k]
  have e: "registered l (ee_fd e) = Some (ee_events e, ee_cb e, ee_user_data e)" using live_registered [OF assms(3,5)] .
  show ?thesis
  proof (cases "ee_cb e")
    case OnAccept
    then show ?thesis using on_accept_keeps [OF assms(1,3) inv, of grow "ee_user_data e"] assms(6) k by (auto simp: server_def)
  next
    case OnClient
    then show ?thesis using on_client_keeps [OF assms(1,3,4) inv e [unfolded OnClient]] assms(6) k by (auto simp: server_def)
  qed
qed

section \<open>Setting up, and running\<close>

lemma server_setup_spec:
  assumes "net_ok K net budget"
  shows "case server_setup K grow ok port srv k of
      (Inl status, k') \<Rightarrow> status = 1 \<and> nt_fds (net k') = nt_fds (net k)
    | (Inr (s, l), k') \<Rightarrow> loop_inv l \<and> \<not> el_dispatching l \<and> echo_inv (nt_fds (net k)) (ts_fd s) net (registered l) (Some k')"
proof -
  note fo = net_okD(1) [OF assms]
  obtain err s k1 where h: "tcp_listen_host K (Some \<lparr>ts_fd = - 1\<rparr>) (Some ''127.0.0.1'') port 16 k = (err, Some s, k1)"
    and op: "opens (\<lambda>k. nt_fds (net k)) k err (ts_fd s) k1"
    using tcp_listen_host_fds [OF fo, of "''127.0.0.1''" 16 "\<lparr>ts_fd = - 1\<rparr>" port k] by auto
  show ?thesis
  proof (cases "err = ERR_OK")
    case False
    then show ?thesis using op by (simp add: server_setup_def h opens_def)
  next
    case True
    then have fd: "0 \<le> ts_fd s" "ts_fd s \<notin> nt_fds (net k)" "nt_fds (net k1) = insert (ts_fd s) (nt_fds (net k))"
      using op by (simp_all add: opens_def)
    have closed: "nt_fds (net (snd (tcp_close K (Some s) k1))) = nt_fds (net k)"
      using fd net_okD(2) [OF assms, of "ts_fd s" k1] by (simp add: tcp_close_def)
    show ?thesis
    proof (cases ok)
      case False
      then show ?thesis using True closed by (simp add: server_setup_def h event_loop_create_def)
    next
      case ok: True
      define l0 :: "handler event_loop" where
        "l0 = \<lparr>el_entries = [], el_pollfds = [], el_cap = 0, el_running = False, el_dispatching = False\<rparr>"
      obtain x y where g: "grow k1 = (x, y)" by fastforce
      obtain err2 lp where r: "event_loop_add x y (Some l0) (ts_fd s) EV_READ (Some OnAccept) srv = (err2, lp)" by fastforce
      have inv0: "loop_inv l0" "\<not> el_dispatching l0" "registered l0 = Map.empty"
        by (simp_all add: l0_def loop_inv_def live_def registered_def)
      from event_loop_add_spec [OF inv0(1) r] obtain l where l: "lp = Some l" "loop_inv l" "\<not> el_dispatching l"
          "err2 = ERR_OK \<Longrightarrow> registered l = [ts_fd s \<mapsto> (EV_READ, OnAccept, srv)]"
        using inv0(2,3) by (auto split: if_splits)
      have st: "server_setup K grow ok port srv k
          = (if err2 \<noteq> ERR_OK then (Inl 1, snd (tcp_close K (Some s) k1)) else (Inr (s, l), k1))"
        using True ok g r l(1) by (simp add: server_setup_def h event_loop_create_def l0_def Let_def)
      have "echo_inv (nt_fds (net k)) (ts_fd s) net (registered l) (Some k1)" if "err2 = ERR_OK"
        unfolding l(4) [OF that] using fd by (intro echo_invI) (auto split: if_splits)
      then show ?thesis unfolding st using closed l(2,3) by simp
    qed
  qed
qed

text \<open>The states of the loop between its rounds, for every behaviour of the network.\<close>

inductive echo_reach ::
  "'k kernel \<Rightarrow> ('k \<Rightarrow> bool \<times> bool) \<Rightarrow> bool \<Rightarrow> 16 word \<Rightarrow> u64 \<Rightarrow> 'k \<Rightarrow> tcp_socket \<Rightarrow> handler event_loop \<Rightarrow> 'k option \<Rightarrow> bool"
  for K grow ok port srv k0 where
  echo_start: "server_setup K grow ok port srv k0 = (Inr (s, l), k) \<Longrightarrow> echo_reach K grow ok port srv k0 s (l\<lparr>el_running := True\<rparr>) (Some k)"
| echo_round: "echo_reach K grow ok port srv k0 s l w
     \<Longrightarrow> event_loop_poll_once (server K grow s) answers (Some l) w = Some (err, Some l', w', calls)
     \<Longrightarrow> echo_reach K grow ok port srv k0 s l' w'"

lemma echo_round_inv:
  assumes "net_ok K net budget" and "event_loop_poll_once (server K grow s) answers (Some l) w = Some (err, Some l', w', calls)"
    and "loop_inv l" and "\<not> el_dispatching l" and "echo_inv base (ts_fd s) net (registered l) w"
  shows "loop_inv l' \<and> \<not> el_dispatching l' \<and> echo_inv base (ts_fd s) net (registered l') w'"
  by (rule poll_once_keeps [of "server K grow s" _ _ _ _ _ _ _ "echo_inv base (ts_fd s) net", OF assms(2-5)])
     (rule server_keeps [OF assms(1)])

lemma echo_started:
  assumes "net_ok K net budget" and "server_setup K grow ok port srv k0 = (Inr (s, l), k)"
  shows "loop_inv (l\<lparr>el_running := b\<rparr>) \<and> \<not> el_dispatching (l\<lparr>el_running := b\<rparr>)
     \<and> echo_inv (nt_fds (net k0)) (ts_fd s) net (registered (l\<lparr>el_running := b\<rparr>)) (Some k)"
  using server_setup_spec [OF assms(1), where grow = grow and ok = ok and port = port and srv = srv and k = k0] registered_cong_entries [of "l\<lparr>el_running := b\<rparr>" l]
    loop_inv_cong [of "l\<lparr>el_running := b\<rparr>" l] unfolding assms(2) by simp

lemma echo_reach_inv:
  assumes "net_ok K net budget"
  shows "echo_reach K grow ok port srv k0 s l w \<Longrightarrow>
    loop_inv l \<and> \<not> el_dispatching l \<and> echo_inv (nt_fds (net k0)) (ts_fd s) net (registered l) w"
proof (induction rule: echo_reach.induct)
  case (echo_start s l k)
  then show ?case using echo_started [OF assms] by blast
next
  case (echo_round s l w answers err l' w' calls)
  then show ?case using echo_round_inv [OF assms] by blast
qed

lemma run_loop_inv:
  assumes "net_ok K net budget"
  shows "run_loop (server K grow s) rounds l w = Some (err, l', w') \<Longrightarrow> loop_inv l \<Longrightarrow> \<not> el_dispatching l
    \<Longrightarrow> echo_inv base (ts_fd s) net (registered l) w \<Longrightarrow> echo_inv base (ts_fd s) net (registered l') w'"
proof (induction rounds arbitrary: l w)
  case (Cons answers rounds)
  show ?case
  proof (cases "el_running l")
    case True
    then obtain err1 l1 w1 calls where p: "event_loop_poll_once (server K grow s) answers (Some l) w = Some (err1, Some l1, w1, calls)"
      and c: "(if err1 \<noteq> ERR_OK then Some (err1, l1\<lparr>el_running := False\<rparr>, w1) else run_loop (server K grow s) rounds l1 w1) = Some (err, l', w')"
      using Cons.prems(1) by (auto simp: bind_eq_Some_conv)
    note inv = echo_round_inv [OF assms p Cons.prems(2-4)]
    show ?thesis
    proof (cases "err1 = ERR_OK")
      case True
      then show ?thesis using Cons.IH c inv by simp
    next
      case False
      then show ?thesis using c inv registered_cong_entries [of "l1\<lparr>el_running := False\<rparr>" l1] by auto
    qed
  qed (use Cons.prems in simp)
qed (simp split: if_splits)

lemma server_main_spec:
  assumes "net_ok K net budget" and "server_main K grow ok port srv rounds k0 = Some (status, k')"
  shows "\<exists>C. C \<inter> nt_fds (net k0) = {} \<and> nt_fds (net k') = nt_fds (net k0) \<union> C \<and> (\<forall>fd \<in> C. nt_out (net k') fd = nt_in (net k') fd)"
proof (cases "server_setup K grow ok port srv k0")
  case (Pair r k1)
  show ?thesis
  proof (cases r)
    case (Inl x)
    then have "k' = k1" using assms(2) Pair by (simp add: server_main_def)
    then show ?thesis using server_setup_spec [OF assms(1), where grow = grow and ok = ok and port = port and srv = srv and k = k0] Pair Inl
      by (intro exI [of _ "{}"]) simp
  next
    case (Inr x)
    obtain s l where x: "x = (s, l)" by fastforce
    have st: "server_setup K grow ok port srv k0 = (Inr (s, l), k1)" using Pair Inr x by simp
    obtain err l' k2 where run: "run_loop (server K grow s) rounds (l\<lparr>el_running := True\<rparr>) (Some k1) = Some (err, l', Some k2)"
      and k': "k' = snd (tcp_close K (Some s) k2)"
      using assms(2) by (auto simp: server_main_def st event_loop_run_def bind_eq_Some_conv)
    note e = echo_started [OF assms(1) st, of True]
    have inv: "echo_inv (nt_fds (net k0)) (ts_fd s) net (registered l') (Some k2)"
      using run_loop_inv [OF assms(1) run] e by blast
    note I = echo_invD [OF inv]
    have "0 \<le> ts_fd s" using I(3) I(4) [of "ts_fd s"] by auto
    then have n: "net k' = (net k2)\<lparr>nt_fds := nt_fds (net k2) - {ts_fd s}\<rparr>"
      using net_okD(2) [OF assms(1)] by (simp add: k' tcp_close_def)
    have "nt_out (net k') fd = nt_in (net k') fd" if "fd \<in> dom (registered l') - {ts_fd s}" for fd
      using that I(4) [of fd] by (auto simp: n)
    then show ?thesis using I(1-3) by (intro exI [of _ "dom (registered l') - {ts_fd s}"]) (auto simp: n)
  qed
qed

section \<open>The property\<close>

text \<open>
  C21. The echo server, whatever the network, \<open>poll\<close> and the allocator do. If it cannot start it exits with
  status 1 and leaves no descriptor open. Between the rounds of the loop the descriptors open besides those from before are
  exactly the registered ones, among them the listener, and every registered client has been sent exactly
  the bytes received from it; every round that \<open>poll\<close> answers returns. When \<open>main\<close> returns, every connection still
  open has been echoed.
\<close>

theorem echo_server_echoes:
  assumes "net_ok K net budget"
  shows "(\<forall>status k'. server_setup K grow ok port srv k0 = (Inl status, k') \<longrightarrow> status = 1 \<and> nt_fds (net k') = nt_fds (net k0))
     \<and> (\<forall>s l w. echo_reach K grow ok port srv k0 s l w \<longrightarrow>
          (\<exists>k. w = Some k \<and> nt_fds (net k) = nt_fds (net k0) \<union> dom (registered l) \<and> nt_fds (net k0) \<inter> dom (registered l) = {}
             \<and> ts_fd s \<in> dom (registered l) \<and> (\<forall>fd \<in> dom (registered l) - {ts_fd s}. nt_out (net k) fd = nt_in (net k) fd))
          \<and> (\<forall>answers rs. poll_retry answers = Some (PollReady rs) \<longrightarrow> length rs = length (el_entries l) \<longrightarrow>
               (\<exists>l' k' calls. event_loop_poll_once (server K grow s) answers (Some l) w = Some (ERR_OK, Some l', Some k', calls))))
     \<and> (\<forall>rounds status k'. server_main K grow ok port srv rounds k0 = Some (status, k') \<longrightarrow>
          (\<exists>C. C \<inter> nt_fds (net k0) = {} \<and> nt_fds (net k') = nt_fds (net k0) \<union> C \<and> (\<forall>fd \<in> C. nt_out (net k') fd = nt_in (net k') fd)))"
proof (intro conjI allI impI)
  fix status k' assume "server_setup K grow ok port srv k0 = (Inl status, k')"
  then show "status = 1" "nt_fds (net k') = nt_fds (net k0)"
    using server_setup_spec [OF assms, where grow = grow and ok = ok and port = port and srv = srv and k = k0] by simp_all
next
  fix s l w assume "echo_reach K grow ok port srv k0 s l w"
  then have inv: "loop_inv l" "\<not> el_dispatching l" "echo_inv (nt_fds (net k0)) (ts_fd s) net (registered l) w"
    using echo_reach_inv [OF assms] by blast+
  obtain k where k: "w = Some k" using inv(3) by (auto simp: echo_inv_def)
  note I = echo_invD [OF inv(3) [unfolded k]]
  have "nt_out (net k) fd = nt_in (net k) fd" if "fd \<in> dom (registered l) - {ts_fd s}" for fd
    using that I(4) [of fd] by auto
  then show "\<exists>k. w = Some k \<and> nt_fds (net k) = nt_fds (net k0) \<union> dom (registered l) \<and> nt_fds (net k0) \<inter> dom (registered l) = {}
             \<and> ts_fd s \<in> dom (registered l) \<and> (\<forall>fd \<in> dom (registered l) - {ts_fd s}. nt_out (net k) fd = nt_in (net k) fd)"
    using k I(1-3) by blast
  fix answers rs assume "poll_retry answers = Some (PollReady rs)" "length rs = length (el_entries l)"
  then obtain l' w' calls where p: "event_loop_poll_once (server K grow s) answers (Some l) w = Some (ERR_OK, Some l', w', calls)"
    using poll_once_dispatches [OF inv(1,2), where answers = answers and rs = rs and prog = "server K grow s" and w = w] by metis
  moreover obtain k' where "w' = Some k'" using echo_round_inv [OF assms p inv] by (auto simp: echo_inv_def)
  ultimately show "\<exists>l' k' calls. event_loop_poll_once (server K grow s) answers (Some l) w = Some (ERR_OK, Some l', Some k', calls)"
    by blast
next
  fix rounds status k' assume "server_main K grow ok port srv rounds k0 = Some (status, k')"
  then show "\<exists>C. C \<inter> nt_fds (net k0) = {} \<and> nt_fds (net k') = nt_fds (net k0) \<union> C \<and> (\<forall>fd \<in> C. nt_out (net k') fd = nt_in (net k') fd)"
    by (rule server_main_spec [OF assms])
qed

section \<open>An example\<close>

text \<open>A network in which every client sends two bytes and a \<open>send\<close> takes one byte at a time.\<close>

definition echo_kernel :: "(nat \<times> net) kernel" where
  "echo_kernel = \<lparr>
     k_socket = (\<lambda>d t p (n, w). if int n \<in> nt_fds w then (Fail, (n, w))
       else (Ret n, (n + 1, w\<lparr>nt_fds := insert (int n) (nt_fds w)\<rparr>))),
     k_set_cloexec = (\<lambda>fd k. k),
     k_connect = (\<lambda>fd a k. (True, k)),
     k_bind = (\<lambda>fd a k. (True, k)),
     k_listen = (\<lambda>fd b k. (True, k)),
     k_accept = (\<lambda>fd (n, w). if int n \<in> nt_fds w then (Fail, (n, w))
       else (Ret n, (n + 1, \<lparr>nt_fds = insert (int n) (nt_fds w), nt_in = (nt_in w)(int n := []), nt_out = (nt_out w)(int n := [])\<rparr>))),
     k_send = (\<lambda>fd d (n, w). (Ret 1, (n, w\<lparr>nt_out := (nt_out w)(fd := nt_out w fd @ take 1 d)\<rparr>))),
     k_recv = (\<lambda>fd cap (n, w). ((Ret 2, [104, 105]), (n, w\<lparr>nt_in := (nt_in w)(fd := nt_in w fd @ [104, 105])\<rparr>))),
     k_sendto = (\<lambda>fd d a k. (Fail, k)),
     k_recvfrom = (\<lambda>fd cap k. ((Fail, [], \<lparr>ss_family = AF_INET, ss_port = 0, ss_host = ''''\<rparr>), k)),
     k_close = (\<lambda>fd (n, w). (n, w\<lparr>nt_fds := nt_fds w - {fd}\<rparr>)),
     k_reuseaddr = (\<lambda>fd k. k),
     k_getaddrinfo = (\<lambda>h p hi k. Some [\<lparr>ai_family = AF_INET, ai_socktype = hi_socktype hi, ai_protocol = 0, ai_addr = []\<rparr>]),
     k_getsockname = (\<lambda>fd k. None),
     k_lstat = (\<lambda>p k. Absent),
     k_unlink = (\<lambda>p k. k),
     k_chmod = (\<lambda>p k. k)\<rparr>"

lemma echo_kernel_ok: "net_ok echo_kernel snd (\<lambda>k. 0)"
  unfolding net_ok_def fds_ok_def by (auto simp: echo_kernel_def Suc_le_eq)

definition echo_kernel_start :: "nat \<times> net" where
  "echo_kernel_start = (3, \<lparr>nt_fds = {0, 1, 2}, nt_in = (\<lambda>fd. []), nt_out = (\<lambda>fd. [])\<rparr>)"

text \<open>The server starts, and a round in which the listener is ready returns.\<close>

theorem echo_server_echoes_witness:
  "\<exists>s l k l' k' calls. echo_reach echo_kernel (\<lambda>k. (True, True)) True 7778 1 echo_kernel_start s l (Some k)
     \<and> nt_fds (snd k) = {0, 1, 2} \<union> dom (registered l)
     \<and> event_loop_poll_once (server echo_kernel (\<lambda>k. (True, True)) s) [PollReady [1]] (Some l) (Some k)
         = Some (ERR_OK, Some l', Some k', calls)"
proof -
  obtain s l k where st: "server_setup echo_kernel (\<lambda>k. (True, True)) True 7778 1 echo_kernel_start = (Inr (s, l), k)"
    and len: "length (el_entries l) = 1"
    by (simp add: server_setup_def tcp_listen_host_def bind_target_def nw_socket_def echo_kernel_def echo_kernel_start_def
      event_loop_create_def event_loop_add_def grow_entries_def realloc_def fd_of_def Let_def)
  let ?l = "l\<lparr>el_running := True\<rparr>"
  have r: "echo_reach echo_kernel (\<lambda>k. (True, True)) True 7778 1 echo_kernel_start s ?l (Some k)"
    by (rule echo_start [OF st])
  note c = echo_server_echoes [OF echo_kernel_ok, THEN conjunct2, THEN conjunct1, rule_format, OF r]
  have "nt_fds (snd k) = {0, 1, 2} \<union> dom (registered ?l)" using c by (auto simp: echo_kernel_start_def)
  moreover have "\<exists>l' k' calls. event_loop_poll_once (server echo_kernel (\<lambda>k. (True, True)) s) [PollReady [1]] (Some ?l) (Some k)
         = Some (ERR_OK, Some l', Some k', calls)"
    using c [THEN conjunct2, rule_format, of "[PollReady [1]]" "[1]"] len by simp
  ultimately show ?thesis using r by blast
qed

end
