(* ===== verification/FileIo.thy ===== *)
theory FileIo
  imports Core
begin

text \<open>
  Whole-file reading and writing, memory mapping and directory listing of
  \<open>src/systems/file_io.c\<close> (the POSIX branch). A file system maps paths to contents; the
  outcome of each library call is part of an argument. A function that changes the file system
  returns every state it passes through, so that what a crash or a concurrent reader can see is
  part of the model. Streams and descriptors are tracked by counting those open.
\<close>

type_synonym files = "string \<rightharpoonup> byte list"

section \<open>Reading and writing whole files\<close>

text \<open>What the calls of one \<open>file_read_all\<close> answer; \<open>fread\<close> delivers at most what there is.\<close>

record read_env =
  re_seek_end :: bool
  re_tell :: bool
  re_seek_set :: bool
  re_malloc :: bool
  re_fread :: nat
  re_close :: bool

record read_result =
  rr_buf :: "byte list option"
  rr_size :: "size_t option"
  rr_open_streams :: int
  rr_live_blocks :: int

definition read_fail :: "bool \<Rightarrow> read_result" where
  "read_fail allocated = \<lparr>rr_buf = None, rr_size = None, rr_open_streams = 0, rr_live_blocks = 0\<rparr>"

definition file_read_all ::
  "read_env \<Rightarrow> files \<Rightarrow> string option \<Rightarrow> bool \<Rightarrow> bool \<Rightarrow> error_code \<times> read_result" where
  "file_read_all env fs pathp out_buf out_size =
     (case pathp of
        None \<Rightarrow> (ERR_INVALID_ARG, read_fail False)
      | Some path \<Rightarrow>
          if \<not> out_buf \<or> \<not> out_size then (ERR_INVALID_ARG, read_fail False)
          else (case fs path of
              None \<Rightarrow> (ERR_IO, read_fail False)
            | Some content \<Rightarrow>
                let streams = 1 in
                if \<not> re_seek_end env then (ERR_IO, (read_fail False)\<lparr>rr_open_streams := streams - 1\<rparr>)
                else if \<not> re_tell env \<or> \<not> re_seek_set env
                  then (ERR_IO, (read_fail False)\<lparr>rr_open_streams := streams - 1\<rparr>)
                else let len = length content in
                  if \<not> re_malloc env then (ERR_NOMEM, (read_fail False)\<lparr>rr_open_streams := streams - 1\<rparr>)
                  else let blocks = 1; got = take (min (re_fread env) len) content in
                    if len > 0 \<and> length got \<noteq> len
                    then (ERR_IO, (read_fail True)\<lparr>rr_open_streams := streams - 1, rr_live_blocks := blocks - 1\<rparr>)
                    else if \<not> re_close env
                    then (ERR_IO, (read_fail True)\<lparr>rr_open_streams := streams - 1, rr_live_blocks := blocks - 1\<rparr>)
                    else (ERR_OK, \<lparr>rr_buf = Some got, rr_size = Some (word_of_nat len),
                                   rr_open_streams = streams - 1, rr_live_blocks = blocks\<rparr>)))"

text \<open>What the calls of one \<open>file_write_all\<close> answer.\<close>

record write_env =
  we_malloc :: bool
  we_open :: bool
  we_fwrite :: nat
  we_close :: bool
  we_remove :: bool
  we_rename :: bool

definition remove_file :: "bool \<Rightarrow> string \<Rightarrow> files \<Rightarrow> files" where
  "remove_file ok path fs = (if ok then fs(path := None) else fs)"

text \<open>The code, and the file systems passed through, the last being the final one.\<close>

definition file_write_all ::
  "write_env \<Rightarrow> files \<Rightarrow> string option \<Rightarrow> byte list option \<Rightarrow> size_t \<Rightarrow> (error_code \<times> files list) ub" where
  "file_write_all env fs pathp bufp sz =
     (case pathp of
        None \<Rightarrow> Some (ERR_INVALID_ARG, [fs])
      | Some path \<Rightarrow>
          if bufp = None \<and> sz > 0 then Some (ERR_INVALID_ARG, [fs])
          else if length path > unat (SIZE_MAX - 5) then Some (ERR_OVERFLOW, [fs])
          else if \<not> we_malloc env then Some (ERR_NOMEM, [fs])
          else let tmp = path @ ''.tmp'' in
            if \<not> we_open env then Some (ERR_IO, [fs])
            else let fs1 = fs(tmp \<mapsto> []) in
              do { d \<leftarrow> (if sz = 0 then Some [] else load 0 (unat sz) (the bufp));
                   let written = take (min (we_fwrite env) (unat sz)) d; fs2 = fs1(tmp \<mapsto> written)
                   in if sz > 0 \<and> length written \<noteq> unat sz
                      then Some (ERR_IO, [fs, fs1, fs2, remove_file (we_remove env) tmp fs2])
                      else if \<not> we_close env
                      then Some (ERR_IO, [fs, fs1, fs2, remove_file (we_remove env) tmp fs2])
                      else if \<not> we_rename env
                      then Some (ERR_IO, [fs, fs1, fs2, remove_file (we_remove env) tmp fs2])
                      else Some (ERR_OK, [fs, fs1, fs2, fs2(path := fs2 tmp, tmp := None)]) })"

section \<open>Memory mapping\<close>

record mapped_file =
  mf_data :: "byte list option"
  mf_size :: size_t
  mf_fd :: int

record mmap_env =
  me_open :: "int"
  me_fstat :: bool
  me_mmap :: bool

text \<open>\<open>mmap_open\<close>, with the descriptors it leaves open.\<close>

definition mmap_open ::
  "mmap_env \<Rightarrow> files \<Rightarrow> string option \<Rightarrow> mapped_file option \<Rightarrow> int set \<Rightarrow> error_code \<times> mapped_file option \<times> int set" where
  "mmap_open env fs pathp outp fds =
     (case (pathp, outp) of
        (Some path, Some out) \<Rightarrow>
          if me_open env < 0 \<or> fs path = None then (ERR_IO, outp, fds)
          else let fd = me_open env; fds' = insert fd fds; content = the (fs path) in
            if \<not> me_fstat env then (ERR_IO, outp, fds' - {fd})
            else if content = [] then (ERR_UNSUPPORTED, outp, fds' - {fd})
            else if \<not> me_mmap env then (ERR_IO, outp, fds' - {fd})
            else (ERR_OK, Some \<lparr>mf_data = Some content, mf_size = word_of_nat (length content), mf_fd = fd\<rparr>, fds')
      | _ \<Rightarrow> (ERR_INVALID_ARG, outp, fds))"

definition file_mmap_read ::
  "mmap_env \<Rightarrow> files \<Rightarrow> string option \<Rightarrow> mapped_file option \<Rightarrow> int set \<Rightarrow> error_code \<times> mapped_file option \<times> int set" where
  "file_mmap_read env fs pathp outp fds = mmap_open env fs pathp outp fds"

definition file_mmap_rw ::
  "mmap_env \<Rightarrow> files \<Rightarrow> string option \<Rightarrow> mapped_file option \<Rightarrow> int set \<Rightarrow> error_code \<times> mapped_file option \<times> int set" where
  "file_mmap_rw env fs pathp outp fds = mmap_open env fs pathp outp fds"

definition file_munmap :: "mapped_file option \<Rightarrow> int set \<Rightarrow> error_code \<times> mapped_file option \<times> int set" where
  "file_munmap mfp fds =
     (case mfp of
        None \<Rightarrow> (ERR_INVALID_ARG, None, fds)
      | Some mf \<Rightarrow>
          if mf_data mf = None then (ERR_INVALID_ARG, mfp, fds)
          else (ERR_OK, Some \<lparr>mf_data = None, mf_size = 0, mf_fd = - 1\<rparr>, fds - {mf_fd mf}))"

section \<open>Listing a directory\<close>

datatype d_type = DtDir | DtOther | DtUnknown

text \<open>One entry: is it skipped, and is it a directory. \<open>stat\<close> is asked only when needed.\<close>

definition is_dot :: "string \<Rightarrow> bool" where
  "is_dot name \<longleftrightarrow> name = ''.'' \<or> name = ''..''"

definition entry_is_dir :: "(string \<Rightarrow> bool option) \<Rightarrow> string \<Rightarrow> string \<times> d_type \<Rightarrow> bool" where
  "entry_is_dir stat path ent =
     (let is_dir = (snd ent = DtDir)
      in if snd ent = DtUnknown then
           (let full = path @ ''/'' @ fst ent
            in if length full < 1024 then (case stat full of Some d \<Rightarrow> d | None \<Rightarrow> is_dir) else is_dir)
         else is_dir)"

fun walk_loop ::
  "(string \<Rightarrow> bool option) \<Rightarrow> (string \<Rightarrow> bool \<Rightarrow> 'w \<Rightarrow> bool \<times> 'w) \<Rightarrow> string \<Rightarrow> (string \<times> d_type) list \<Rightarrow> 'w
    \<Rightarrow> 'w \<times> (string \<times> bool) list" where
  "walk_loop stat cb path [] w = (w, [])"
| "walk_loop stat cb path (ent # ents) w =
     (if is_dot (fst ent) then walk_loop stat cb path ents w
      else let is_dir = entry_is_dir stat path ent; (more, w1) = cb (fst ent) is_dir w
        in if \<not> more then (w1, [(fst ent, is_dir)])
           else let (w2, calls) = walk_loop stat cb path ents w1 in (w2, (fst ent, is_dir) # calls))"

definition dir_walk ::
  "(string \<Rightarrow> (string \<times> d_type) list option) \<Rightarrow> (string \<Rightarrow> bool option) \<Rightarrow> string option
    \<Rightarrow> (string \<Rightarrow> bool \<Rightarrow> 'w \<Rightarrow> bool \<times> 'w) option \<Rightarrow> 'w \<Rightarrow> error_code \<times> 'w \<times> (string \<times> bool) list" where
  "dir_walk opendir stat pathp cbp w =
     (case (pathp, cbp) of
        (Some path, Some cb) \<Rightarrow>
          (case opendir path of
             None \<Rightarrow> (ERR_IO, w, [])
           | Some ents \<Rightarrow> (let (w', calls) = walk_loop stat cb path ents w in (ERR_OK, w', calls)))
      | _ \<Rightarrow> (ERR_INVALID_ARG, w, []))"

section \<open>Properties\<close>

lemma file_write_steps:
  assumes "sz = word_of_nat (length buf)" and "length buf < 2 ^ 64"
  shows "\<exists>err sts. file_write_all env fs (Some path) (Some buf) sz = Some (err, sts) \<and> sts \<noteq> []
       \<and> (\<forall>s \<in> set sts. s path \<in> {fs path, Some buf} \<and> (\<forall>q. q \<noteq> path \<and> q \<noteq> path @ ''.tmp'' \<longrightarrow> s q = fs q))
       \<and> (if err = ERR_OK then last sts = fs(path \<mapsto> buf, path @ ''.tmp'' := None)
          else last sts path = fs path
            \<and> (we_open env \<and> we_remove env \<and> length sts \<noteq> 1 \<longrightarrow> last sts (path @ ''.tmp'') = None))"
proof -
  let ?tmp = "path @ ''.tmp''"
  have sz: "unat sz = length buf" using assms by (simp add: unat_word_of_nat)
  have d: "(if sz = 0 then Some [] else load 0 (unat sz) buf) = Some buf"
    using sz by (cases "sz = 0") (auto simp: load_def)
  define wr where "wr = take (min (we_fwrite env) (length buf)) buf"
  have full: "length wr = length buf \<Longrightarrow> wr = buf" by (auto simp: wr_def min_def split: if_splits)
  have e: "0 < sz \<and> length wr \<noteq> unat sz \<longleftrightarrow> length wr \<noteq> length buf"
    using sz by (auto simp: wr_def word_less_unat)
  let ?fs1 = "fs(?tmp \<mapsto> [])" and ?fs2 = "fs(?tmp \<mapsto> wr)"
  have run: "file_write_all env fs (Some path) (Some buf) sz =
     (if length path > unat (SIZE_MAX - 5) then Some (ERR_OVERFLOW, [fs])
      else if \<not> we_malloc env then Some (ERR_NOMEM, [fs])
      else if \<not> we_open env then Some (ERR_IO, [fs])
      else if length wr \<noteq> length buf \<or> \<not> we_close env \<or> \<not> we_rename env
      then Some (ERR_IO, [fs, ?fs1, ?fs2, remove_file (we_remove env) ?tmp ?fs2])
      else Some (ERR_OK, [fs, ?fs1, ?fs2, ?fs2(path := Some wr, ?tmp := None)]))"
  proof (cases "sz = 0")
    case True
    then have "buf = []" using sz by simp
    then show ?thesis using True by (simp add: file_write_all_def Let_def wr_def)
  next
    case False
    have ld: "load 0 (length buf) buf = Some buf" "0 < sz" "buf \<noteq> []"
      using sz False unat_eq_0 [of sz] by (auto simp: load_def word_gt_0)
    show ?thesis
    proof (cases "length buf \<le> we_fwrite env")
      case True
      then have "wr = buf" by (simp add: wr_def min_def)
      then show ?thesis using False ld True by (simp add: file_write_all_def Let_def sz min_absorb2)
    next
      case part: False
      then have "wr = take (we_fwrite env) buf" by (simp add: wr_def min_def)
      then show ?thesis using False ld part by (simp add: file_write_all_def Let_def sz min_absorb1)
    qed
  qed
  show ?thesis
    unfolding run using full by (auto simp: remove_file_def fun_upd_twist)
qed

text \<open>
  C26. Writing a whole file is atomic: in every file system it passes through, whatever fails,
  the target holds its old content or the whole new content, and no file but the target and
  its \<open>.tmp\<close> neighbour changes. On \<open>ERR_OK\<close> the target holds the new content and the temporary
  is gone; on an error the target is untouched and the temporary is removed when it can be.
\<close>

theorem file_write_atomic:
  assumes "sz = word_of_nat (length buf)" and "length buf < 2 ^ 64"
  shows "\<exists>err sts. file_write_all env fs (Some path) (Some buf) sz = Some (err, sts) \<and> sts \<noteq> []
       \<and> (\<forall>s \<in> set sts. s path \<in> {fs path, Some buf} \<and> (\<forall>q. q \<noteq> path \<and> q \<noteq> path @ ''.tmp'' \<longrightarrow> s q = fs q))
       \<and> (if err = ERR_OK then last sts = fs(path \<mapsto> buf, path @ ''.tmp'' := None)
          else last sts path = fs path
            \<and> (we_open env \<and> we_remove env \<and> length sts \<noteq> 1 \<longrightarrow> last sts (path @ ''.tmp'') = None))"
  by (rule file_write_steps [OF assms])

theorem file_write_atomic_witness:
  "\<exists>err sts. file_write_all \<lparr>we_malloc = True, we_open = True, we_fwrite = 1, we_close = True, we_remove = True, we_rename = True\<rparr>
       [''f'' \<mapsto> [7]] (Some ''f'') (Some [1, 2]) (word_of_nat (length [1 :: byte, 2])) = Some (err, sts)
     \<and> (if err = ERR_OK then last sts ''f'' = Some [1, 2] else last sts ''f'' = Some [7])"
proof -
  have "length [1 :: byte, 2] < 2 ^ 64" by simp
  from file_write_atomic [OF refl this, of "\<lparr>we_malloc = True, we_open = True, we_fwrite = 1, we_close = True,
      we_remove = True, we_rename = True\<rparr>" "[''f'' \<mapsto> [7]]" "''f''"]
  obtain err sts where r: "file_write_all \<lparr>we_malloc = True, we_open = True, we_fwrite = 1, we_close = True,
      we_remove = True, we_rename = True\<rparr> [''f'' \<mapsto> [7]] (Some ''f'') (Some [1, 2]) (word_of_nat (length [1 :: byte, 2])) = Some (err, sts)"
    "if err = ERR_OK then last sts = [''f'' \<mapsto> [7]](''f'' \<mapsto> [1, 2], ''f'' @ ''.tmp'' := None) else last sts ''f'' = [''f'' \<mapsto> [7]] ''f''"
    by (auto split: if_splits)
  have "if err = ERR_OK then last sts ''f'' = Some [1, 2] else last sts ''f'' = Some [7]"
    using r(2) by (auto split: if_splits)
  then show ?thesis using r(1) by blast
qed

text \<open>
  Reading a file that was written gives the bytes back: after a successful
  \<open>file_write_all\<close>, \<open>file_read_all\<close> delivers them with their length, or fails with an error
  code; on no path does it leave a stream open, on every error it leaves no block allocated and
  reports none.
\<close>

theorem file_roundtrip:
  assumes "file_write_all wenv fs (Some path) (Some buf) sz = Some (ERR_OK, sts)"
    and "sz = word_of_nat (length buf)" and "length buf < 2 ^ 64"
  shows "\<exists>err r. file_read_all renv (last sts) (Some path) True True = (err, r) \<and> rr_open_streams r = 0
       \<and> (if err = ERR_OK then rr_buf r = Some buf \<and> rr_size r = Some sz \<and> rr_live_blocks r = 1
          else rr_buf r = None \<and> rr_live_blocks r = 0)
       \<and> (re_seek_end renv \<and> re_tell renv \<and> re_seek_set renv \<and> re_malloc renv \<and> length buf \<le> re_fread renv
            \<and> re_close renv \<longrightarrow> err = ERR_OK)"
proof -
  have "last sts = fs(path \<mapsto> buf, path @ ''.tmp'' := None)"
    using file_write_steps [OF assms(2,3), of wenv fs path] assms(1) by auto
  then have "last sts path = Some buf" by simp
  then show ?thesis using assms(2) by (auto simp: file_read_all_def Let_def read_fail_def min_def)
qed

theorem file_roundtrip_witness:
  "\<exists>sts err r. file_write_all \<lparr>we_malloc = True, we_open = True, we_fwrite = 2, we_close = True, we_remove = True, we_rename = True\<rparr>
       Map.empty (Some ''f'') (Some [1, 2]) 2 = Some (ERR_OK, sts)
     \<and> file_read_all \<lparr>re_seek_end = True, re_tell = True, re_seek_set = True, re_malloc = True, re_fread = 2, re_close = True\<rparr>
         (last sts) (Some ''f'') True True = (err, r) \<and> err = ERR_OK \<and> rr_buf r = Some [1, 2]"
proof -
  let ?w = "\<lparr>we_malloc = True, we_open = True, we_fwrite = 2, we_close = True, we_remove = True, we_rename = True\<rparr>"
  let ?r = "\<lparr>re_seek_end = True, re_tell = True, re_seek_set = True, re_malloc = True, re_fread = 2, re_close = True\<rparr>"
  obtain sts where s: "file_write_all ?w Map.empty (Some ''f'') (Some [1, 2]) 2 = Some (ERR_OK, sts)"
    by (simp add: file_write_all_def load_def Let_def unat_SIZE_MAX)
  have "(2 :: size_t) = word_of_nat (length [1 :: byte, 2])" "length [1 :: byte, 2] < 2 ^ 64" by simp_all
  from file_roundtrip [OF s this, of ?r] show ?thesis using s by auto
qed

text \<open>
  Mapping keeps the descriptor exactly when it succeeds; unmapping closes it.
\<close>

lemma mmap_fds:
  assumes "mmap_open env fs (Some path) (Some out) fds = (err, outp, fds')" and "me_open env \<notin> fds"
  shows "if err = ERR_OK then fds' = insert (me_open env) fds \<and> snd (snd (file_munmap outp fds')) = fds else fds' = fds"
  using assms by (auto simp: mmap_open_def Let_def file_munmap_def split: if_splits)

text \<open>The callback sees the entries in order, without \<open>.\<close> and \<open>..\<close>, up to the first refusal.\<close>

lemma walk_loop_all:
  assumes "\<And>n d w. fst (cb n d w)"
  shows "snd (walk_loop stat cb path ents w)
       = map (\<lambda>e. (fst e, entry_is_dir stat path e)) (filter (\<lambda>e. \<not> is_dot (fst e)) ents)"
  using assms by (induction ents arbitrary: w) (auto simp: Let_def case_prod_unfold)

text \<open>
  When the path is too long for the buffer, a directory of unknown type is reported as not
  being one.
\<close>

lemma long_path_not_dir:
  "\<not> entry_is_dir (\<lambda>_. Some True) (replicate 1023 CHR ''a'') (''d'', DtUnknown)"
  by (simp add: entry_is_dir_def)

text \<open>A file that already had the temporary's name is lost.\<close>

lemma write_destroys_tmp:
  assumes "file_write_all env fs (Some path) (Some buf) sz = Some (ERR_OK, sts)"
    and "sz = word_of_nat (length buf)" and "length buf < 2 ^ 64"
  shows "last sts (path @ ''.tmp'') = None"
  using file_write_steps [OF assms(2,3), of env fs path] assms(1) by auto

end
