(* ===== verification/Process.thy ===== *)
theory Process
  imports Core
begin

text \<open>
  Running other programs (\<open>src/systems/process.c\<close>, POSIX branch). The output of the command is
  a list of bytes and, possibly, a position where reading fails; the answers of the allocator
  are a function of the number of the request. The captured text is kept in its block, so every
  store is checked against the capacity.
\<close>

definition process_run :: "(string \<Rightarrow> int) \<Rightarrow> string option \<Rightarrow> bool \<Rightarrow> error_code \<times> int option" where
  "process_run system cmdp out =
     (case cmdp of
        None \<Rightarrow> (ERR_INVALID_ARG, None)
      | Some cmd \<Rightarrow>
          if \<not> out then (ERR_INVALID_ARG, None)
          else let ret = system cmd in if ret = - 1 then (ERR_IO, None) else (ERR_OK, Some ret))"

text \<open>What the pipe delivers: the bytes, and whether reading ends in an error rather than at the end.\<close>

record pipe =
  pp_bytes :: "byte list"
  pp_error :: bool

text \<open>
  The read loop from \<open>len\<close> bytes in a block of \<open>cap\<close>; \<open>rest\<close> is what the pipe still has.
  \<open>fread\<close> fills what it is asked for unless the pipe ends.
\<close>

function capture_loop ::
  "(nat \<Rightarrow> bool) \<Rightarrow> nat \<Rightarrow> size_t \<Rightarrow> size_t \<Rightarrow> block \<Rightarrow> byte list \<Rightarrow> (error_code \<times> size_t \<times> size_t \<times> block) ub" where
  "capture_loop ok i cap len buf rest =
     (let n = min (unat (cap - len - 1)) (length rest)
      in if n = 0 then Some (ERR_OK, cap, len, buf)
         else (case store (unat len) (map Some (take n rest)) buf of
             None \<Rightarrow> None
           | Some buf \<Rightarrow>
               let len = len + word_of_nat n
               in if len + 1 \<ge> cap then
                    (if cap > SIZE_MAX div 2 then Some (ERR_OVERFLOW, cap, len, buf)
                     else let cap = cap * 2
                       in (case realloc (ok i) (Some buf) cap of
                             None \<Rightarrow> Some (ERR_NOMEM, cap, len, buf)
                           | Some buf \<Rightarrow> capture_loop ok (i + 1) cap len buf (drop n rest)))
                  else capture_loop ok i cap len buf (drop n rest)))"
  by pat_completeness auto

termination
  by (relation "measure (\<lambda>(_, _, _, _, _, rest). length rest)") auto

declare capture_loop.simps [simp del]

text \<open>The result: the code, and on success the block and the length.\<close>

definition process_capture ::
  "(string \<Rightarrow> pipe option) \<Rightarrow> (nat \<Rightarrow> bool) \<Rightarrow> string option \<Rightarrow> bool \<Rightarrow> bool
    \<Rightarrow> (error_code \<times> (block \<times> size_t) option) ub" where
  "process_capture popen ok cmdp out_buf out_len =
     (case cmdp of
        None \<Rightarrow> Some (ERR_INVALID_ARG, None)
      | Some cmd \<Rightarrow>
          if \<not> out_buf \<or> \<not> out_len then Some (ERR_INVALID_ARG, None)
          else (case popen cmd of
              None \<Rightarrow> Some (ERR_IO, None)
            | Some p \<Rightarrow>
                (case malloc (ok 0) 1024 of
                   None \<Rightarrow> Some (ERR_NOMEM, None)
                 | Some buf \<Rightarrow>
                     do { (err, cap, len, buf) \<leftarrow> capture_loop ok 1 1024 0 buf (pp_bytes p);
                          (if err \<noteq> ERR_OK then Some (err, None)
                           else if pp_error p then Some (ERR_IO, None)
                           else do { buf \<leftarrow> store (unat len) [Some 0] buf;
                                     Some (ERR_OK, Some (buf, len)) }) })))"

text \<open>How the child ends: its \<open>waitpid\<close> status, or \<open>execvp\<close> failed.\<close>

datatype child = ExecFails | Status u32

unbundle bit_operations_syntax

definition wait_status :: "child \<Rightarrow> u32" where
  "wait_status c = (case c of ExecFails \<Rightarrow> push_bit 8 127 | Status w \<Rightarrow> w)"

definition WIFEXITED :: "u32 \<Rightarrow> bool" where
  "WIFEXITED w \<longleftrightarrow> w AND 127 = 0"

definition WEXITSTATUS :: "u32 \<Rightarrow> int" where
  "WEXITSTATUS w = uint (drop_bit 8 w AND 255)"

definition process_exec ::
  "(string \<Rightarrow> string list \<Rightarrow> child option) \<Rightarrow> bool \<Rightarrow> string option \<Rightarrow> string list option \<Rightarrow> bool
    \<Rightarrow> error_code \<times> int option" where
  "process_exec fork_exec wait_ok progp argvp out =
     (case (progp, argvp) of
        (Some prog, Some argv) \<Rightarrow>
          if \<not> out then (ERR_INVALID_ARG, None)
          else (case fork_exec prog argv of
              None \<Rightarrow> (ERR_IO, None)
            | Some c \<Rightarrow>
                if \<not> wait_ok then (ERR_IO, None)
                else (ERR_OK, Some (if WIFEXITED (wait_status c) then WEXITSTATUS (wait_status c) else - 1)))
      | _ \<Rightarrow> (ERR_INVALID_ARG, None))"

text \<open>The SIGINT disposition afterwards; \<open>None\<close> is the default action.\<close>

definition process_on_sigint :: "bool \<Rightarrow> 'h option \<Rightarrow> 'h option \<Rightarrow> error_code \<times> 'h option" where
  "process_on_sigint ok handler current = (if ok then (ERR_OK, handler) else (ERR_IO, current))"

section \<open>Capturing output\<close>

definition holds_text :: "size_t \<Rightarrow> size_t \<Rightarrow> block \<Rightarrow> byte list \<Rightarrow> bool" where
  "holds_text cap len buf out \<longleftrightarrow>
     length buf = unat cap \<and> unat len = length out \<and> length out < unat cap \<and> 1024 \<le> unat cap
     \<and> take (length out) buf = map Some out"

lemma capture_loop_spec:
  assumes "holds_text cap len buf out" and "length out + 1 < unat cap"
  shows "\<exists>err cap' len' buf'. capture_loop ok i cap len buf rest = Some (err, cap', len', buf')
       \<and> (err = ERR_OK \<and> holds_text cap' len' buf' (out @ rest) \<or> err = ERR_NOMEM \<or> err = ERR_OVERFLOW)
       \<and> ((\<forall>j. ok j) \<longrightarrow> length out + length rest < 2 ^ 61 \<longrightarrow> unat cap \<le> 2 ^ 62 \<longrightarrow> err = ERR_OK)"
  using assms
proof (induction "length rest" arbitrary: i cap len buf out rest rule: less_induct)
  case less
  note H = less.prems(1) [unfolded holds_text_def]
  let ?n = "min (unat (cap - len - 1)) (length rest)"
  have room: "unat (cap - len - 1) = unat cap - length out - 1"
  proof -
    have "unat (cap - len) = unat cap - length out"
      using H by (subst unat_diff_le) (auto simp: word_le_unat)
    moreover from this have "1 \<le> cap - len" using less.prems(2) by (simp add: word_le_unat)
    ultimately show ?thesis by (subst unat_diff_le) auto
  qed
  show ?case
  proof (cases "rest = []")
    case True
    then show ?thesis using less.prems(1) by (subst capture_loop.simps) simp
  next
    case False
    then have n: "?n \<noteq> 0" "?n \<le> length rest" "length out + ?n < unat cap" using room less.prems(2) by auto
    obtain buf1 where st: "store (unat len) (map Some (take ?n rest)) buf = Some buf1"
      using store_defined [of "unat len" "map Some (take ?n rest)" buf] H n by auto
    define out1 where "out1 = out @ take ?n rest"
    define len1 where "len1 = len + word_of_nat ?n"
    have t1: "length out1 = length out + ?n" by (simp add: out1_def)
    have lt: "unat cap < 18446744073709551616" by (rule unat_less_2p64)
    have wn: "unat (word_of_nat ?n :: size_t) = ?n" using n(3) lt by (intro unat_word_of_nat) linarith
    have len1: "unat len1 = length out1" unfolding len1_def
      using wn H n(3) lt t1 by (subst unat_add_small) simp_all
    have b1: "length buf1 = unat cap" using length_store [OF st] H by simp
    have tk1: "take (length out1) buf1 = map Some out1"
    proof -
      have "buf1 = take (unat len) buf @ map Some (take ?n rest) @ drop (unat len + ?n) buf"
        using st n(2) by (auto simp: store_def split: if_splits)
      then show ?thesis using H n(2) t1 by (simp add: out1_def)
    qed
    have all: "out1 @ drop ?n rest = out @ rest" by (simp add: out1_def)
    have H1: "holds_text cap len1 buf1 out1" using b1 len1 t1 n(3) tk1 H by (simp add: holds_text_def)
    have shorter: "length (drop ?n rest) < length rest" using n(1,2) by simp
    have one: "unat (len1 + 1) = length out1 + 1" using len1 t1 n(3) lt by (subst unat_Suc_small) simp_all
    have step: "capture_loop ok i cap len buf rest =
      (if len1 + 1 \<ge> cap then
         (if cap > SIZE_MAX div 2 then Some (ERR_OVERFLOW, cap, len1, buf1)
          else (case realloc (ok i) (Some buf1) (cap * 2) of
                  None \<Rightarrow> Some (ERR_NOMEM, cap * 2, len1, buf1)
                | Some b \<Rightarrow> capture_loop ok (i + 1) (cap * 2) len1 b (drop ?n rest)))
       else capture_loop ok i cap len1 buf1 (drop ?n rest))"
      using n(1) st by (subst capture_loop.simps) (simp only: Let_def if_False option.case len1_def)
    show ?thesis
    proof (cases "len1 + 1 \<ge> cap")
      case False
      then have "length out1 + 1 < unat cap" using one by (simp add: word_le_unat)
      from less.hyps [OF shorter H1 this, of i] show ?thesis
        unfolding step all using False n(2) by (simp add: out1_def)
    next
      case grow: True
      then have full: "length out1 + 1 = unat cap" using one t1 n(3) by (simp add: word_le_unat)
      have guard: "(cap > SIZE_MAX div 2) = (18446744073709551616 \<le> unat cap * 2)"
        using mult_guard [of 2 cap] by simp
      show ?thesis
      proof (cases "cap > SIZE_MAX div 2")
        case True
        then show ?thesis unfolding step using grow guard by (simp add: power_strict_increasing)
      next
        case small: False
        then have c2: "unat (cap * 2) = unat cap * 2" using guard by (subst unat_mult_small) simp_all
        show ?thesis
        proof (cases "realloc (ok i) (Some buf1) (cap * 2)")
          case None
          then have "\<not> ok i \<or> unat cap * 2 > PTRDIFF_MAX" using c2 by (auto simp: realloc_def split: if_splits)
          then have "\<not> ((\<forall>j. ok j) \<and> length out + length rest < 2 ^ 61)" using full t1 n(2) by auto
          then show ?thesis unfolding step using grow small None by auto
        next
          case (Some b)
          have "length b = unat cap * 2" using realloc_SomeD [OF Some] c2 by simp
          moreover have "take (length out1) b = map Some out1"
            using realloc_prefix [OF Some, of "length out1"] b1 c2 full tk1 by simp
          ultimately have H2: "holds_text (cap * 2) len1 b out1"
            using len1 full c2 H by (simp add: holds_text_def)
          have r2: "length out1 + 1 < unat (cap * 2)" using full c2 H by simp
          have cap2: "length out + length rest < 2 ^ 61 \<Longrightarrow> unat (cap * 2) \<le> 2 ^ 62"
            using full c2 t1 n(2) by simp
          from less.hyps [OF shorter H2 r2, of "i + 1"] show ?thesis
            unfolding step all using grow small Some n(2) cap2 by (simp add: out1_def) blast
        qed
      qed
    qed
  qed
qed

section \<open>Properties\<close>

text \<open>
  \<open>process_capture\<close> returns for every finite output and never stores outside its block. On
  \<open>ERR_OK\<close> the block holds the complete output followed by a terminator, and its length; an
  output below 2 EiB is captured whenever the allocations succeed and the pipe reports no
  error.
\<close>

theorem process_capture_exact:
  assumes "popen cmd = Some p"
  shows "\<exists>err r. process_capture popen ok (Some cmd) True True = Some (err, r)
       \<and> (if err = ERR_OK
          then \<exists>buf len. r = Some (buf, len) \<and> unat len = length (pp_bytes p)
             \<and> take (length (pp_bytes p) + 1) buf = map Some (pp_bytes p @ [0])
          else r = None)
       \<and> ((\<forall>j. ok j) \<longrightarrow> length (pp_bytes p) < 2 ^ 61 \<longrightarrow> \<not> pp_error p \<longrightarrow> err = ERR_OK)"
proof (cases "malloc (ok 0) 1024")
  case None
  then have "\<not> ok 0" by (auto simp: malloc_def split: if_splits)
  then show ?thesis using assms None by (auto simp: process_capture_def)
next
  case (Some b)
  then have "holds_text 1024 0 b []" using malloc_SomeD [OF Some] by (simp add: holds_text_def)
  moreover have "length ([] :: byte list) + 1 < unat (1024 :: size_t)" by simp
  ultimately obtain err cap len buf where L0: "capture_loop ok 1 1024 0 b (pp_bytes p) = Some (err, cap, len, buf)
    \<and> (err = ERR_OK \<and> holds_text cap len buf ([] @ pp_bytes p) \<or> err = ERR_NOMEM \<or> err = ERR_OVERFLOW)
    \<and> ((\<forall>j. ok j) \<longrightarrow> length ([] :: byte list) + length (pp_bytes p) < 2 ^ 61 \<longrightarrow> unat (1024 :: size_t) \<le> 2 ^ 62 \<longrightarrow> err = ERR_OK)"
    using capture_loop_spec [of 1024 0 b "[]" ok 1 "pp_bytes p"] by blast
  then have L: "capture_loop ok 1 1024 0 b (pp_bytes p) = Some (err, cap, len, buf)"
    "err = ERR_OK \<and> holds_text cap len buf (pp_bytes p) \<or> err = ERR_NOMEM \<or> err = ERR_OVERFLOW"
    "(\<forall>j. ok j) \<longrightarrow> length (pp_bytes p) < 2 ^ 61 \<longrightarrow> err = ERR_OK"
    by auto
  show ?thesis
  proof (cases "err = ERR_OK \<and> \<not> pp_error p")
    case False
    then show ?thesis using assms Some L by (auto simp: process_capture_def)
  next
    case True
    then have H: "length buf = unat cap" "unat len = length (pp_bytes p)" "length (pp_bytes p) < unat cap"
      "take (length (pp_bytes p)) buf = map Some (pp_bytes p)" using L(2) by (auto simp: holds_text_def)
    obtain buf2 where st: "store (unat len) [Some 0] buf = Some buf2"
      using store_defined [of "unat len" "[Some 0]" buf] H by auto
    then have "buf2 = map Some (pp_bytes p) @ [Some 0] @ drop (length (pp_bytes p) + 1) buf"
      using H by (auto simp: store_def split: if_splits)
    then have "take (length (pp_bytes p) + 1) buf2 = map Some (pp_bytes p @ [0])" by simp
    then show ?thesis using assms Some L(1) True st H(2) by (simp add: process_capture_def)
  qed
qed

theorem process_capture_exact_witness:
  "\<exists>buf len. process_capture (\<lambda>_. Some \<lparr>pp_bytes = [104, 105], pp_error = False\<rparr>) (\<lambda>_. True) (Some ''echo hi'') True True
      = Some (ERR_OK, Some (buf, len)) \<and> take 3 buf = [Some 104, Some 105, Some 0]"
  using process_capture_exact [of "\<lambda>_. Some \<lparr>pp_bytes = [104, 105], pp_error = False\<rparr>" "''echo hi''"
      "\<lparr>pp_bytes = [104, 105], pp_error = False\<rparr>" "\<lambda>_. True"]
  by (auto simp: numeral_3_eq_3)

text \<open>A program that cannot be executed reports exit status 127, a signalled one \<open>-1\<close>.\<close>

lemma process_exec_status:
  "process_exec (\<lambda>_ _. Some ExecFails) True (Some p) (Some a) True = (ERR_OK, Some 127)"
  "process_exec (\<lambda>_ _. Some (Status 256)) True (Some p) (Some a) True = (ERR_OK, Some 1)"
  "process_exec (\<lambda>_ _. Some (Status 9)) True (Some p) (Some a) True = (ERR_OK, Some (- 1))"
  by (simp_all add: process_exec_def wait_status_def WIFEXITED_def WEXITSTATUS_def drop_bit_eq_div)

end
