(* ===== verification/Log.thy ===== *)
theory Log
  imports CLib "HOL-Library.Signed_Division"
begin

text \<open>
  Leveled logging of \<open>src/core/log.c\<close>. The two static variables are the state; \<open>log_msg\<close>
  returns the stream it writes to with the text of its one \<open>fprintf\<close>. The formatted message, the wall
  clock, the terminal test and the environment are the caller's and the system's.
\<close>

datatype log_level = LOG_LEVEL_DEBUG | LOG_LEVEL_INFO | LOG_LEVEL_WARN | LOG_LEVEL_ERROR

primrec level_num :: "log_level \<Rightarrow> int" where
  "level_num LOG_LEVEL_DEBUG = 0"
| "level_num LOG_LEVEL_INFO = 1"
| "level_num LOG_LEVEL_WARN = 2"
| "level_num LOG_LEVEL_ERROR = 3"

text \<open>The C enumeration holds any \<open>int\<close>, so the switches are on numbers.\<close>

definition level_name :: "int \<Rightarrow> string" where
  "level_name l =
     (if l = level_num LOG_LEVEL_DEBUG then ''DEBUG''
      else if l = level_num LOG_LEVEL_INFO then ''INFO ''
      else if l = level_num LOG_LEVEL_WARN then ''WARN ''
      else if l = level_num LOG_LEVEL_ERROR then ''ERROR''
      else ''?????'')"

definition level_color :: "int \<Rightarrow> string" where
  "level_color l =
     (if l = level_num LOG_LEVEL_DEBUG then CHR 0x1B # ''[2m''
      else if l = level_num LOG_LEVEL_INFO then CHR 0x1B # ''[32m''
      else if l = level_num LOG_LEVEL_WARN then CHR 0x1B # ''[33m''
      else if l = level_num LOG_LEVEL_ERROR then CHR 0x1B # ''[31m''
      else '''')"

record 'f log_state =
  g_min_level :: int
  g_stream :: "'f option"

definition log_initial :: "'f log_state" where
  "log_initial = \<lparr>g_min_level = level_num LOG_LEVEL_INFO, g_stream = None\<rparr>"

definition log_set_level :: "int \<Rightarrow> 'f log_state \<Rightarrow> 'f log_state" where
  "log_set_level min_level s = s\<lparr>g_min_level := min_level\<rparr>"

definition log_get_level :: "'f log_state \<Rightarrow> int" where
  "log_get_level s = g_min_level s"

definition log_set_stream :: "'f option \<Rightarrow> 'f log_state \<Rightarrow> 'f log_state" where
  "log_set_stream stream s = s\<lparr>g_stream := stream\<rparr>"

record clock_time =
  tm_hour :: int
  tm_min :: int
  tm_sec :: int
  ct_nsec :: int

text \<open>
  \<open>formatted\<close> is what the format and the arguments expand to, \<open>None\<close> for a null format; the buffer
  \<open>msg\<close> holds 1023 bytes of it and \<open>%s\<close> stops at a NUL. The division of the nanoseconds is C's.
\<close>

definition log_msg :: "('f \<Rightarrow> bool) \<Rightarrow> (string \<rightharpoonup> string) \<Rightarrow> 'f \<Rightarrow> clock_time \<Rightarrow> 'f log_state \<Rightarrow>
    int \<Rightarrow> string option \<Rightarrow> ('f \<times> string) option" where
  "log_msg isatty env stderr now s level fmt =
     (case fmt of
        None \<Rightarrow> None
      | Some formatted \<Rightarrow>
          if level < g_min_level s then None
          else let out = (case g_stream s of Some f \<Rightarrow> f | None \<Rightarrow> stderr);
                   msg = takeWhile (\<lambda>c. c \<noteq> CHR 0x00) (take 1023 formatted);
                   color = (isatty out \<and> env ''NO_COLOR'' = None)
               in Some (out, zero_pad 2 (tm_hour now) @ '':'' @ zero_pad 2 (tm_min now) @ '':''
                    @ zero_pad 2 (tm_sec now) @ ''.'' @ zero_pad 3 (ct_nsec now sdiv 1000000) @ '' ''
                    @ (if color then level_color level else '''') @ level_name level
                    @ (if color then CHR 0x1B # ''[0m'' else '''') @ '' '' @ msg @ [CHR 0x0A]))"

text \<open>\<open>error_log_impl\<close> of \<open>src/core/error.c\<close>, to \<open>stderr\<close>.\<close>

definition error_log_impl :: "int \<Rightarrow> string \<Rightarrow> int \<Rightarrow> string" where
  "error_log_impl code file line =
     ''[ERROR] '' @ file @ '':'' @ int_text line @ '': '' @ error_str code @ [CHR 0x0A]"

section \<open>Properties\<close>

definition clock_valid :: "clock_time \<Rightarrow> bool" where
  "clock_valid t \<longleftrightarrow> 0 \<le> tm_hour t \<and> tm_hour t < 24 \<and> 0 \<le> tm_min t \<and> tm_min t < 60
     \<and> 0 \<le> tm_sec t \<and> tm_sec t \<le> 60 \<and> 0 \<le> ct_nsec t \<and> ct_nsec t < 1000000000"

definition timestamp :: "clock_time \<Rightarrow> string" where
  "timestamp t = zero_pad 2 (tm_hour t) @ '':'' @ zero_pad 2 (tm_min t) @ '':''
     @ zero_pad 2 (tm_sec t) @ ''.'' @ zero_pad 3 (ct_nsec t div 1000000)"

lemma zero_pad_line: "c \<in> set (zero_pad w i) \<Longrightarrow> c \<noteq> CHR 0x0A"
  using int_text_printable by (auto simp: zero_pad_def Let_def split: if_splits)

lemma timestamp_line: "CHR 0x0A \<notin> set (timestamp t)"
  using zero_pad_line by (auto simp: timestamp_def)

lemma length_timestamp: "clock_valid t \<Longrightarrow> length (timestamp t) = 12"
proof -
  assume v: "clock_valid t"
  have "0 \<le> ct_nsec t div 1000000 \<and> ct_nsec t div 1000000 < 10 ^ 3"
    using v by (auto simp: clock_valid_def pos_imp_zdiv_nonneg_iff)
  then have "length (zero_pad 3 (ct_nsec t div 1000000)) = 3" by (intro length_zero_pad) auto
  then show ?thesis using v by (simp add: clock_valid_def timestamp_def length_zero_pad)
qed

lemma level_text_line: "CHR 0x0A \<notin> set (level_name l)" "CHR 0x0A \<notin> set (level_color l)"
  by (simp_all add: level_name_def level_color_def)

lemma level_text_length: "length (level_name l) = 5" "length (level_color l) \<le> 5"
  by (simp_all add: level_name_def level_color_def)

lemma log_msg_line:
  assumes "clock_valid now" and "g_min_level s \<le> level"
  shows "log_msg isatty env stderr now s level (Some formatted) =
     (let out = case_option stderr id (g_stream s); color = isatty out \<and> env ''NO_COLOR'' = None
      in Some (out, timestamp now @ '' '' @ (if color then level_color level else '''') @ level_name level
           @ (if color then CHR 0x1B # ''[0m'' else '''') @ '' ''
           @ takeWhile (\<lambda>c. c \<noteq> CHR 0x00) (take 1023 formatted) @ [CHR 0x0A]))"
proof -
  have "ct_nsec now sdiv 1000000 = ct_nsec now div 1000000"
    using assms(1) by (simp add: clock_valid_def signed_divide_int_def sgn_if)
  then show ?thesis using assms(2) by (simp add: log_msg_def timestamp_def Let_def id_def split: option.splits)
qed

text \<open>
  One line per message: below the minimum level, or without a format, nothing is written;
  otherwise exactly one write goes to the chosen stream (\<open>stderr\<close> when it was reset), a line of
  at most 1052 bytes that starts with a 12-character time, ends with a newline and has no other
  one unless the message has; escapes are written only to a terminal without \<open>NO_COLOR\<close>.
\<close>

theorem log_msg_one_line:
  assumes "clock_valid now"
  shows "log_msg isatty env stderr now (log_set_stream stream (log_set_level min_level s)) level fmt =
      (case fmt of
         None \<Rightarrow> None
       | Some formatted \<Rightarrow>
           if level < min_level then None
           else Some (case_option stderr id stream,
                  timestamp now @ '' ''
                  @ (if isatty (case_option stderr id stream) \<and> env ''NO_COLOR'' = None
                     then level_color level @ level_name level @ CHR 0x1B # ''[0m'' else level_name level)
                  @ '' '' @ takeWhile (\<lambda>c. c \<noteq> CHR 0x00) (take 1023 formatted) @ [CHR 0x0A]))
    \<and> (case log_msg isatty env stderr now (log_set_stream stream (log_set_level min_level s)) level fmt of
         None \<Rightarrow> True
       | Some (out, line) \<Rightarrow> length line \<le> 1052 \<and> length (timestamp now) = 12
           \<and> (\<exists>body. line = body @ [CHR 0x0A]
                \<and> (CHR 0x0A \<in> set body) = (CHR 0x0A \<in> set (takeWhile (\<lambda>c. c \<noteq> CHR 0x00) (take 1023 (the fmt))))))"
proof (cases fmt)
  case (Some formatted)
  let ?s = "log_set_stream stream (log_set_level min_level s)"
  let ?m = "takeWhile (\<lambda>c. c \<noteq> CHR 0x00) (take 1023 formatted)"
  have st: "g_min_level ?s = min_level" "g_stream ?s = stream"
    by (simp_all add: log_set_stream_def log_set_level_def)
  have lm: "length ?m \<le> 1023" by (rule order.trans [OF length_takeWhile_le]) simp
  show ?thesis
  proof (cases "level < min_level")
    case True
    then show ?thesis using Some st(1) by (simp add: log_msg_def)
  next
    case False
    let ?c = "isatty (case_option stderr id stream) \<and> env ''NO_COLOR'' = None"
    let ?body = "timestamp now @ '' '' @ (if ?c then level_color level @ level_name level @ CHR 0x1B # ''[0m'' else level_name level)
                  @ '' '' @ ?m"
    have e: "log_msg isatty env stderr now ?s level fmt = Some (case_option stderr id stream, ?body @ [CHR 0x0A])"
      using log_msg_line [OF assms, of ?s level isatty env stderr formatted] False st Some by (simp add: Let_def)
    have "(CHR 0x0A \<in> set ?body) = (CHR 0x0A \<in> set ?m)" using timestamp_line level_text_line by simp
    moreover have "length (?body @ [CHR 0x0A]) \<le> 1052"
      using lm length_timestamp [OF assms] level_text_length [of level] by simp
    ultimately have ex: "length (?body @ [CHR 0x0A]) \<le> 1052 \<and> length (timestamp now) = 12
        \<and> (\<exists>body. ?body @ [CHR 0x0A] = body @ [CHR 0x0A] \<and> (CHR 0x0A \<in> set body) = (CHR 0x0A \<in> set ?m))"
      using length_timestamp [OF assms] by blast
    show ?thesis unfolding e
    proof (intro conjI)
      show "case Some (case_option stderr id stream, ?body @ [CHR 0x0A]) of None \<Rightarrow> True
         | Some (out, line) \<Rightarrow> length line \<le> 1052 \<and> length (timestamp now) = 12
           \<and> (\<exists>body. line = body @ [CHR 0x0A]
                \<and> (CHR 0x0A \<in> set body) = (CHR 0x0A \<in> set (takeWhile (\<lambda>c. c \<noteq> CHR 0x00) (take 1023 (the fmt)))))"
        unfolding option.case prod.case Some option.sel by (rule ex)
    qed (use Some False in simp)
  qed
qed (simp add: log_msg_def)

theorem log_msg_one_line_witness:
  "log_msg (\<lambda>f. f = (0 :: nat)) Map.empty 2 \<lparr>tm_hour = 9, tm_min = 5, tm_sec = 30, ct_nsec = 42000000\<rparr>
     (log_set_stream None (log_set_level 1 log_initial)) 3 (Some ''disk full'')
   = Some (2, ''09:05:30.042 ERROR disk full'' @ [CHR 0x0A])"
proof -
  have v: "clock_valid \<lparr>tm_hour = 9, tm_min = 5, tm_sec = 30, ct_nsec = 42000000\<rparr>" by (simp add: clock_valid_def)
  have t: "timestamp \<lparr>tm_hour = 9, tm_min = 5, tm_sec = 30, ct_nsec = 42000000\<rparr> = ''09:05:30.042''" by code_simp
  show ?thesis
    using log_msg_one_line [OF v, of "\<lambda>f. f = 0" Map.empty "2 :: nat" None 1 log_initial 3 "Some ''disk full''"] t
    by (simp add: level_name_def)
qed

end
