(* ===== verification/Ieee.thy ===== *)
theory Ieee
  imports Complex_Main Prelude
begin

text \<open>
  The floating-point types of the C code, IEEE 754 binary32 (\<open>float\<close>) and binary64 (\<open>double\<close>), as
  executable definitions: a datum is a NaN, an infinity or a sign with a rational magnitude, every
  operation computes the exact result and rounds it to nearest, ties to even. One NaN stands for
  all. The two types are instances of the arithmetic classes, so that code on \<open>float\<close>s is written
  with the operators of the source. Evaluation is as written (no contraction, no excess precision).
\<close>

section \<open>Data and rounding\<close>

datatype fl = FNaN | FInf bool | FFin bool rat

definition pow2 :: "int \<Rightarrow> rat" where
  "pow2 e = (if e \<ge> 0 then 2 ^ nat e else 1 / 2 ^ nat (- e))"

fun nlog2 :: "nat \<Rightarrow> nat" where
  "nlog2 n = (if n < 2 then 0 else Suc (nlog2 (n div 2)))"

declare nlog2.simps [simp del]

definition ilog2 :: "rat \<Rightarrow> int" where
  "ilog2 q =
     (let (a, b) = quotient_of q; e = int (nlog2 (nat a)) - int (nlog2 (nat b))
      in if pow2 e \<le> q then e else e - 1)"

definition round_even :: "rat \<Rightarrow> int" where
  "round_even q =
     (let f = \<lfloor>q\<rfloor>; r = q - of_int f
      in if r < 1 / 2 then f else if r > 1 / 2 then f + 1 else if even f then f else f + 1)"

text \<open>A magnitude in a format of \<open>p\<close> bits and exponents from \<open>emin\<close> to \<open>emax\<close>; \<open>None\<close> is overflow.\<close>

record format =
  prec :: int
  emin :: int
  emax :: int

definition binary32 :: format where "binary32 = \<lparr>prec = 24, emin = - 126, emax = 127\<rparr>"
definition binary64 :: format where "binary64 = \<lparr>prec = 53, emin = - 1022, emax = 1023\<rparr>"

definition round_mag :: "format \<Rightarrow> rat \<Rightarrow> rat option" where
  "round_mag fmt q =
     (if q = 0 then Some 0
      else let u = pow2 (max (ilog2 q) (emin fmt) - (prec fmt - 1));
               v = of_int (round_even (q / u)) * u
           in if v \<ge> pow2 (emax fmt + 1) then None else Some v)"

definition fround :: "format \<Rightarrow> bool \<Rightarrow> rat \<Rightarrow> fl" where
  "fround fmt neg q = (case round_mag fmt q of None \<Rightarrow> FInf neg | Some v \<Rightarrow> FFin neg v)"

definition signed :: "bool \<Rightarrow> rat \<Rightarrow> rat" where
  "signed neg q = (if neg then - q else q)"

section \<open>Operations\<close>

primrec fneg :: "fl \<Rightarrow> fl" where
  "fneg FNaN = FNaN"
| "fneg (FInf s) = FInf (\<not> s)"
| "fneg (FFin s x) = FFin (\<not> s) x"

primrec ffabs :: "fl \<Rightarrow> fl" where
  "ffabs FNaN = FNaN"
| "ffabs (FInf s) = FInf False"
| "ffabs (FFin s x) = FFin False x"

fun fadd :: "format \<Rightarrow> fl \<Rightarrow> fl \<Rightarrow> fl" where
  "fadd fmt (FInf s) (FInf t) = (if s = t then FInf s else FNaN)"
| "fadd fmt (FInf s) (FFin t y) = FInf s"
| "fadd fmt (FFin s x) (FInf t) = FInf t"
| "fadd fmt (FFin s x) (FFin t y) =
     (let v = signed s x + signed t y
      in if v = 0 then FFin (s \<and> t) 0 else fround fmt (v < 0) \<bar>v\<bar>)"
| "fadd fmt _ _ = FNaN"

fun fmul :: "format \<Rightarrow> fl \<Rightarrow> fl \<Rightarrow> fl" where
  "fmul fmt (FInf s) (FInf t) = FInf (s \<noteq> t)"
| "fmul fmt (FInf s) (FFin t y) = (if y = 0 then FNaN else FInf (s \<noteq> t))"
| "fmul fmt (FFin s x) (FInf t) = (if x = 0 then FNaN else FInf (s \<noteq> t))"
| "fmul fmt (FFin s x) (FFin t y) = fround fmt (s \<noteq> t) (x * y)"
| "fmul fmt _ _ = FNaN"

fun fdiv :: "format \<Rightarrow> fl \<Rightarrow> fl \<Rightarrow> fl" where
  "fdiv fmt (FInf s) (FInf t) = FNaN"
| "fdiv fmt (FInf s) (FFin t y) = FInf (s \<noteq> t)"
| "fdiv fmt (FFin s x) (FInf t) = FFin (s \<noteq> t) 0"
| "fdiv fmt (FFin s x) (FFin t y) =
     (if y = 0 then (if x = 0 then FNaN else FInf (s \<noteq> t)) else fround fmt (s \<noteq> t) (x / y))"
| "fdiv fmt _ _ = FNaN"

fun isqrt :: "nat \<Rightarrow> nat" where
  "isqrt n = (if n = 0 then 0 else let r = 2 * isqrt (n div 4) in if (r + 1) * (r + 1) \<le> n then r + 1 else r)"

declare isqrt.simps [simp del]

text \<open>The correctly rounded square root; its result is never subnormal and never overflows.\<close>

definition sqrt_mag :: "format \<Rightarrow> rat \<Rightarrow> rat" where
  "sqrt_mag fmt q =
     (if q = 0 then 0
      else let u = pow2 (ilog2 q div 2 - (prec fmt - 1)); s = q / (u * u); n = isqrt (nat \<lfloor>s\<rfloor>);
               h = (of_nat n + 1 / 2) * (of_nat n + 1 / 2)
           in (if s < h then of_nat n else if s > h then of_nat n + 1
               else if even n then of_nat n else of_nat n + 1) * u)"

primrec fsqrt :: "format \<Rightarrow> fl \<Rightarrow> fl" where
  "fsqrt fmt FNaN = FNaN"
| "fsqrt fmt (FInf s) = (if s then FNaN else FInf False)"
| "fsqrt fmt (FFin s x) = (if x = 0 then FFin s 0 else if s then FNaN else FFin False (sqrt_mag fmt x))"

fun fless :: "fl \<Rightarrow> fl \<Rightarrow> bool" where
  "fless (FFin s x) (FFin t y) \<longleftrightarrow> signed s x < signed t y"
| "fless (FInf s) (FInf t) \<longleftrightarrow> s \<and> \<not> t"
| "fless (FInf s) (FFin t y) \<longleftrightarrow> s"
| "fless (FFin s x) (FInf t) \<longleftrightarrow> \<not> t"
| "fless _ _ \<longleftrightarrow> False"

fun fleq :: "fl \<Rightarrow> fl \<Rightarrow> bool" where
  "fleq (FFin s x) (FFin t y) \<longleftrightarrow> signed s x \<le> signed t y"
| "fleq (FInf s) (FInf t) \<longleftrightarrow> s \<or> \<not> t"
| "fleq (FInf s) (FFin t y) \<longleftrightarrow> s"
| "fleq (FFin s x) (FInf t) \<longleftrightarrow> \<not> t"
| "fleq _ _ \<longleftrightarrow> False"

text \<open>A rational literal, and the conversion of a datum to another format.\<close>

definition fl_of_rat :: "format \<Rightarrow> rat \<Rightarrow> fl" where
  "fl_of_rat fmt q = fround fmt (q < 0) \<bar>q\<bar>"

primrec fconvert :: "format \<Rightarrow> fl \<Rightarrow> fl" where
  "fconvert fmt FNaN = FNaN"
| "fconvert fmt (FInf s) = FInf s"
| "fconvert fmt (FFin s x) = fround fmt s x"

section \<open>The types \<open>float\<close> and \<open>double\<close>\<close>

datatype f32 = F32 (fl32: fl)
datatype f64 = F64 (fl64: fl)

instantiation f32 :: "{zero, one, plus, minus, uminus, times, inverse, abs, ord}"
begin

definition zero_f32 :: f32 where "zero_f32 = F32 (FFin False 0)"
definition one_f32 :: f32 where "one_f32 = F32 (FFin False 1)"
definition plus_f32 :: "f32 \<Rightarrow> f32 \<Rightarrow> f32" where "plus_f32 a b = F32 (fadd binary32 (fl32 a) (fl32 b))"
definition uminus_f32 :: "f32 \<Rightarrow> f32" where "uminus_f32 a = F32 (fneg (fl32 a))"
definition minus_f32 :: "f32 \<Rightarrow> f32 \<Rightarrow> f32" where "minus_f32 a b = F32 (fadd binary32 (fl32 a) (fneg (fl32 b)))"
definition times_f32 :: "f32 \<Rightarrow> f32 \<Rightarrow> f32" where "times_f32 a b = F32 (fmul binary32 (fl32 a) (fl32 b))"
definition divide_f32 :: "f32 \<Rightarrow> f32 \<Rightarrow> f32" where "divide_f32 a b = F32 (fdiv binary32 (fl32 a) (fl32 b))"
definition inverse_f32 :: "f32 \<Rightarrow> f32" where "inverse_f32 a = F32 (fdiv binary32 (FFin False 1) (fl32 a))"
definition abs_f32 :: "f32 \<Rightarrow> f32" where "abs_f32 a = F32 (ffabs (fl32 a))"
definition less_f32 :: "f32 \<Rightarrow> f32 \<Rightarrow> bool" where "less_f32 a b \<longleftrightarrow> fless (fl32 a) (fl32 b)"
definition less_eq_f32 :: "f32 \<Rightarrow> f32 \<Rightarrow> bool" where "less_eq_f32 a b \<longleftrightarrow> fleq (fl32 a) (fl32 b)"

instance ..

end

instantiation f64 :: "{zero, one, plus, minus, uminus, times, inverse, abs, ord}"
begin

definition zero_f64 :: f64 where "zero_f64 = F64 (FFin False 0)"
definition one_f64 :: f64 where "one_f64 = F64 (FFin False 1)"
definition plus_f64 :: "f64 \<Rightarrow> f64 \<Rightarrow> f64" where "plus_f64 a b = F64 (fadd binary64 (fl64 a) (fl64 b))"
definition uminus_f64 :: "f64 \<Rightarrow> f64" where "uminus_f64 a = F64 (fneg (fl64 a))"
definition minus_f64 :: "f64 \<Rightarrow> f64 \<Rightarrow> f64" where "minus_f64 a b = F64 (fadd binary64 (fl64 a) (fneg (fl64 b)))"
definition times_f64 :: "f64 \<Rightarrow> f64 \<Rightarrow> f64" where "times_f64 a b = F64 (fmul binary64 (fl64 a) (fl64 b))"
definition divide_f64 :: "f64 \<Rightarrow> f64 \<Rightarrow> f64" where "divide_f64 a b = F64 (fdiv binary64 (fl64 a) (fl64 b))"
definition inverse_f64 :: "f64 \<Rightarrow> f64" where "inverse_f64 a = F64 (fdiv binary64 (FFin False 1) (fl64 a))"
definition abs_f64 :: "f64 \<Rightarrow> f64" where "abs_f64 a = F64 (ffabs (fl64 a))"
definition less_f64 :: "f64 \<Rightarrow> f64 \<Rightarrow> bool" where "less_f64 a b \<longleftrightarrow> fless (fl64 a) (fl64 b)"
definition less_eq_f64 :: "f64 \<Rightarrow> f64 \<Rightarrow> bool" where "less_eq_f64 a b \<longleftrightarrow> fleq (fl64 a) (fl64 b)"

instance ..

end

definition sqrtf :: "f32 \<Rightarrow> f32" where "sqrtf a = F32 (fsqrt binary32 (fl32 a))"
definition sqrt64 :: "f64 \<Rightarrow> f64" where "sqrt64 a = F64 (fsqrt binary64 (fl64 a))"

definition lit32 :: "rat \<Rightarrow> f32" where "lit32 q = F32 (fl_of_rat binary32 q)"
definition lit64 :: "rat \<Rightarrow> f64" where "lit64 q = F64 (fl_of_rat binary64 q)"

text \<open>Casts: widening, narrowing, and from unsigned integers.\<close>

definition f64_of_f32 :: "f32 \<Rightarrow> f64" where "f64_of_f32 a = F64 (fconvert binary64 (fl32 a))"
definition f32_of_f64 :: "f64 \<Rightarrow> f32" where "f32_of_f64 a = F32 (fconvert binary32 (fl64 a))"
definition f32_of_nat :: "nat \<Rightarrow> f32" where "f32_of_nat n = lit32 (of_nat n)"
definition f64_of_nat :: "nat \<Rightarrow> f64" where "f64_of_nat n = lit64 (of_nat n)"

section \<open>Exactness\<close>

lemma pow2_pos [simp]: "0 < pow2 e"
  by (simp add: pow2_def)

lemma pow2_nonzero [simp]: "pow2 e \<noteq> 0"
  using pow2_pos [of e] by linarith

lemma pow2_Suc: "pow2 (e + 1) = 2 * pow2 e"
proof (cases "e \<ge> 0")
  case True
  then show ?thesis by (simp add: pow2_def nat_add_distrib)
next
  case False
  then obtain k where k: "e = - int (Suc k)" by (metis not_le negD)
  then have "nat (- e) = Suc k" "nat (- (e + 1)) = k" by simp_all
  then show ?thesis using k by (cases k) (auto simp: pow2_def)
qed

lemma pow2_add_nat: "pow2 (e + int n) = pow2 e * 2 ^ n"
proof (induction n)
  case (Suc n)
  have e: "e + int (Suc n) = (e + int n) + 1" by simp
  show ?case unfolding e pow2_Suc Suc.IH by simp
qed simp

lemma pow2_le_mono: "a \<le> b \<Longrightarrow> \<exists>n. pow2 b = pow2 a * 2 ^ n \<and> b = a + int n"
  using pow2_add_nat [of a "nat (b - a)"] by (intro exI [of _ "nat (b - a)"]) simp

lemma pow2_less_iff: "pow2 a < pow2 b \<longleftrightarrow> a < b"
proof -
  have le: "pow2 a \<le> pow2 b" if ab: "a \<le> b" for a b
  proof -
    obtain n where n: "pow2 b = pow2 a * 2 ^ n" using pow2_le_mono [OF ab] by blast
    have "pow2 a * 1 \<le> pow2 a * 2 ^ n" using less_imp_le [OF pow2_pos] by (intro mult_left_mono) auto
    then show ?thesis by (simp add: n)
  qed
  have lt: "pow2 a < pow2 b" if "a < b" for a b
  proof -
    have "2 * pow2 a \<le> pow2 b" using le [of "a + 1" b] that by (simp add: pow2_Suc)
    then show ?thesis using pow2_pos [of a] by linarith
  qed
  show ?thesis using le lt by (metis not_less)
qed

lemma nlog2_spec: "0 < n \<Longrightarrow> 2 ^ nlog2 n \<le> n \<and> n < 2 ^ Suc (nlog2 n)"
proof (induction n rule: nlog2.induct)
  case (1 n)
  show ?case
  proof (cases "n < 2")
    case True
    then show ?thesis using 1(2) by (subst nlog2.simps, subst (2) nlog2.simps) auto
  next
    case False
    then have "2 ^ nlog2 (n div 2) \<le> n div 2" "n div 2 < 2 ^ Suc (nlog2 (n div 2))" using 1(1) by auto
    then have "2 * 2 ^ nlog2 (n div 2) \<le> n" "n < 2 * 2 ^ Suc (nlog2 (n div 2))" by linarith+
    moreover have "nlog2 n = Suc (nlog2 (n div 2))" using False by (subst nlog2.simps) simp
    ultimately show ?thesis by simp
  qed
qed

lemma ilog2_spec:
  assumes "0 < q" shows "pow2 (ilog2 q) \<le> q \<and> q < pow2 (ilog2 q + 1)"
proof -
  obtain a b where ab: "quotient_of q = (a, b)" by fastforce
  have b: "0 < b" using ab by (rule quotient_of_denom_pos)
  have q: "q = of_int a / of_int b" using ab by (rule quotient_of_div)
  have a: "0 < a" using assms b unfolding q by (simp add: zero_less_divide_iff)
  define la where "la = nlog2 (nat a)"
  define lb where "lb = nlog2 (nat b)"
  define e where "e = int la - int lb"
  have ra: "2 ^ la \<le> (of_int a :: rat)" "of_int a < (2 ^ Suc la :: rat)"
    using nlog2_spec [of "nat a"] a unfolding la_def [symmetric]
    by (metis of_int_of_nat_eq of_nat_le_iff of_nat_numeral of_nat_power int_nat_eq less_imp_le zero_less_nat_eq,
        metis of_int_of_nat_eq of_nat_less_iff of_nat_numeral of_nat_power int_nat_eq less_imp_le zero_less_nat_eq)
  have rb: "2 ^ lb \<le> (of_int b :: rat)" "of_int b < (2 ^ Suc lb :: rat)"
    using nlog2_spec [of "nat b"] b unfolding lb_def [symmetric]
    by (metis of_int_of_nat_eq of_nat_le_iff of_nat_numeral of_nat_power int_nat_eq less_imp_le zero_less_nat_eq,
        metis of_int_of_nat_eq of_nat_less_iff of_nat_numeral of_nat_power int_nat_eq less_imp_le zero_less_nat_eq)
  have pe: "pow2 e * 2 ^ lb = 2 ^ la"
    using pow2_add_nat [of e lb] by (simp add: e_def pow2_def)
  have "q * 2 ^ lb \<le> of_int a" 
    unfolding q using rb(1) a b by (simp add: divide_le_eq mult.commute mult_left_mono)
  then have "q * 2 ^ lb < 2 * 2 ^ la" using ra(2) by simp
  then have up: "q < pow2 (e + 1)" unfolding pow2_Suc using pe by (metis mult.assoc mult_less_cancel_right_pos zero_less_numeral zero_less_power)
  have "of_int a < q * (2 * 2 ^ lb)"
    unfolding q using rb(2) a b by (simp add: less_divide_eq mult.commute)
  with ra(1) have "2 ^ la < q * (2 * 2 ^ lb)" by (rule le_less_trans)
  then have "pow2 e * 2 ^ lb < (q * 2) * 2 ^ lb" unfolding pe by (simp only: mult.assoc)
  then have "pow2 e < q * 2" by simp
  then have lo: "pow2 (e - 1) < q" using pow2_Suc [of "e - 1"] by simp
  have "ilog2 q = (if pow2 e \<le> q then e else e - 1)"
    by (simp add: ilog2_def ab e_def la_def lb_def)
  then show ?thesis using up lo by (auto simp: not_le)
qed

lemma ilog2_eq: "pow2 e \<le> q \<Longrightarrow> q < pow2 (e + 1) \<Longrightarrow> ilog2 q = e"
proof -
  assume a: "pow2 e \<le> q" "q < pow2 (e + 1)"
  then have "0 < q" using pow2_pos [of e] by linarith
  then have s: "pow2 (ilog2 q) \<le> q" "q < pow2 (ilog2 q + 1)" using ilog2_spec by blast+
  have "pow2 e < pow2 (ilog2 q + 1)" "pow2 (ilog2 q) < pow2 (e + 1)" using a s by linarith+
  then show ?thesis unfolding pow2_less_iff by linarith
qed

lemma round_even_of_int [simp]: "round_even (of_int k) = k"
  by (simp add: round_even_def)

text \<open>A magnitude of the format is its own rounding.\<close>

lemma round_mag_exact:
  assumes "q = of_nat n * pow2 k" and "int n < 2 ^ nat (prec fmt)" and "0 \<le> prec fmt" and "emin fmt - prec fmt + 1 \<le> k"
    and "q < pow2 (emax fmt + 1)"
  shows "round_mag fmt q = Some q"
proof (cases "n = 0")
  case True
  then show ?thesis using assms(1) by (simp add: round_mag_def)
next
  case False
  then have q: "0 < q" using assms(1) by simp
  define e where "e = max (ilog2 q) (emin fmt) - (prec fmt - 1)"
  have "(of_nat n :: rat) < 2 ^ nat (prec fmt)"
    using assms(2) by (metis of_int_less_iff of_int_numeral of_int_of_nat_eq of_int_power)
  then have "q < 2 ^ nat (prec fmt) * pow2 k" using assms(1) by simp
  also have "\<dots> = pow2 (k + int (nat (prec fmt)))" unfolding pow2_add_nat by simp
  finally have "pow2 (ilog2 q) < pow2 (k + prec fmt)" using ilog2_spec [OF q] assms(3) by simp
  then have "ilog2 q < k + prec fmt" by (simp only: pow2_less_iff)
  then have "e \<le> k" using assms(4) by (simp add: e_def)
  then obtain m where m: "pow2 k = pow2 e * 2 ^ m" using pow2_le_mono by blast
  have "q / pow2 e = of_int (int n * 2 ^ m)" using assms(1) by (simp add: m)
  then have "of_int (round_even (q / pow2 e)) * pow2 e = q"
    using assms(1) by (simp only: round_even_of_int) (simp add: m)
  then show ?thesis using q assms(5) by (simp add: round_mag_def Let_def e_def)
qed

definition exact32 :: "rat \<Rightarrow> bool" where
  "exact32 q \<longleftrightarrow> round_mag binary32 \<bar>q\<bar> = Some \<bar>q\<bar>"

lemma exact32_nat_pow2: "n < 2 ^ 24 \<Longrightarrow> - 149 \<le> k \<Longrightarrow> k \<le> 104 \<Longrightarrow> exact32 (of_nat n * pow2 k)"
proof -
  assume a: "n < 2 ^ 24" "- 149 \<le> k" "k \<le> 104"
  let ?q = "of_nat n * pow2 k :: rat"
  have "?q < of_nat (2 ^ 24) * pow2 k" using a(1) by (intro mult_strict_right_mono) (simp_all only: of_nat_less_iff pow2_pos)
  also have "\<dots> = pow2 (k + int 24)" unfolding pow2_add_nat by simp
  also have "\<dots> \<le> pow2 128" using a(3) pow2_less_iff [of 128 "k + int 24"] by (simp add: not_less [symmetric])
  finally have "?q < pow2 128" .
  then have "round_mag binary32 ?q = Some ?q"
    using a by (intro round_mag_exact [of _ n k]) (simp_all add: binary32_def)
  then show ?thesis by (simp add: exact32_def abs_mult abs_of_pos)
qed

end
