(* ===== verification/Clock.thy ===== *)
theory Clock
  imports Prelude Ieee
begin

text \<open>
  Monotonic time of \<open>src/core/time.c\<close>. \<open>clock_gettime\<close> and \<open>nanosleep\<close> are the operating
  system's: the first is the time it reports, the second a function of an arbitrary kernel state.
  \<open>time_sleep_ms\<close> retries as long as it is interrupted, so it is a partial function.
\<close>

record timespec =
  tv_sec :: int
  tv_nsec :: int

definition time_now_ns :: "timespec \<Rightarrow> 64 word" where
  "time_now_ns ts = word_of_int (tv_sec ts) * 1000000000 + word_of_int (tv_nsec ts)"

text \<open>What \<open>nanosleep\<close> did: slept it all, was interrupted with some time remaining, or failed otherwise.\<close>

datatype nap = Slept | Interrupted timespec | NapError

partial_function (option) sleep_loop :: "('k \<Rightarrow> timespec \<Rightarrow> nap \<times> 'k) \<Rightarrow> 'k \<Rightarrow> timespec \<Rightarrow> (nap \<times> 'k) option" where
  "sleep_loop nanosleep k req =
     (case nanosleep k req of (result, k') \<Rightarrow>
        (case result of
           Interrupted remaining \<Rightarrow> sleep_loop nanosleep k' remaining
         | Slept \<Rightarrow> Some (Slept, k')
         | NapError \<Rightarrow> Some (NapError, k')))"

definition time_sleep_ms :: "('k \<Rightarrow> timespec \<Rightarrow> nap \<times> 'k) \<Rightarrow> 'k \<Rightarrow> 32 word \<Rightarrow> (nap \<times> 'k) option" where
  "time_sleep_ms nanosleep k ms =
     sleep_loop nanosleep k \<lparr>tv_sec = uint (ms div 1000), tv_nsec = uint (ms mod 1000) * 1000000\<rparr>"

record stopwatch =
  start_ns :: "64 word"

text \<open>A null stopwatch is \<open>None\<close>.\<close>

definition stopwatch_start :: "timespec \<Rightarrow> stopwatch option \<Rightarrow> stopwatch option" where
  "stopwatch_start ts sw = (case sw of Some w \<Rightarrow> Some (w\<lparr>start_ns := time_now_ns ts\<rparr>) | None \<Rightarrow> None)"

definition stopwatch_elapsed_ns :: "timespec \<Rightarrow> stopwatch \<Rightarrow> 64 word" where
  "stopwatch_elapsed_ns ts sw = time_now_ns ts - start_ns sw"

text \<open>The times in milliseconds, as \<open>double\<close>: a conversion and a division, each rounded.\<close>

definition time_now_ms :: "timespec \<Rightarrow> f64" where
  "time_now_ms ts = f64_of_nat (unat (time_now_ns ts)) / lit64 1000000"

definition stopwatch_elapsed_ms :: "timespec \<Rightarrow> stopwatch option \<Rightarrow> f64" where
  "stopwatch_elapsed_ms ts sw =
     (case sw of None \<Rightarrow> lit64 0 | Some w \<Rightarrow> f64_of_nat (unat (time_now_ns ts - start_ns w)) / lit64 1000000)"

section \<open>Properties\<close>

definition ts_ns :: "timespec \<Rightarrow> int" where
  "ts_ns ts = tv_sec ts * 1000000000 + tv_nsec ts"

definition ts_valid :: "timespec \<Rightarrow> bool" where
  "ts_valid ts \<longleftrightarrow> 0 \<le> tv_sec ts \<and> 0 \<le> tv_nsec ts \<and> tv_nsec ts < 1000000000"

lemma time_now_ns_word: "time_now_ns ts = word_of_int (ts_ns ts)"
  by (simp add: time_now_ns_def ts_ns_def)

text \<open>
  The documented behaviour of \<open>nanosleep\<close> on a kernel with the clock \<open>now\<close>: it does not fail on a
  valid request; when it returns 0 the request has passed; when it is interrupted it reports a
  valid remaining time that covers what has not been slept. Every interruption uses up one of the
  \<open>signals\<close> still to arrive.
\<close>

definition posix_nanosleep :: "('k \<Rightarrow> int) \<Rightarrow> ('k \<Rightarrow> nat) \<Rightarrow> ('k \<Rightarrow> timespec \<Rightarrow> nap \<times> 'k) \<Rightarrow> bool" where
  "posix_nanosleep now signals nanosleep \<longleftrightarrow>
     (\<forall>k req. ts_valid req \<longrightarrow>
        (case nanosleep k req of
           (Slept, k') \<Rightarrow> now k + ts_ns req \<le> now k'
         | (Interrupted remaining, k') \<Rightarrow>
             ts_valid remaining \<and> now k + ts_ns req \<le> now k' + ts_ns remaining \<and> signals k' < signals k
         | (NapError, k') \<Rightarrow> False))"

lemma sleep_loop_sleeps:
  assumes "posix_nanosleep now signals nanosleep" and "ts_valid req"
  shows "\<exists>k'. sleep_loop nanosleep k req = Some (Slept, k') \<and> now k + ts_ns req \<le> now k'"
  using assms(2)
proof (induction "signals k" arbitrary: k req rule: less_induct)
  case less
  obtain result k1 where n: "nanosleep k req = (result, k1)" by fastforce
  then have spec: "case result of
           Slept \<Rightarrow> now k + ts_ns req \<le> now k1
         | Interrupted remaining \<Rightarrow>
             ts_valid remaining \<and> now k + ts_ns req \<le> now k1 + ts_ns remaining \<and> signals k1 < signals k
         | NapError \<Rightarrow> False"
    using assms(1) less.prems unfolding posix_nanosleep_def by (metis (no_types, lifting) old.prod.case)
  have step: "sleep_loop nanosleep k req =
      (case result of Interrupted remaining \<Rightarrow> sleep_loop nanosleep k1 remaining
         | Slept \<Rightarrow> Some (Slept, k1) | NapError \<Rightarrow> Some (NapError, k1))"
    by (subst sleep_loop.simps) (simp add: n)
  show ?case
  proof (cases result)
    case (Interrupted remaining)
    then have "ts_valid remaining" "now k + ts_ns req \<le> now k1 + ts_ns remaining" "signals k1 < signals k"
      using spec by simp_all
    with less.hyps [of k1 remaining] show ?thesis using step Interrupted by force
  qed (use spec step in simp_all)
qed

text \<open>
  \<open>time_sleep_ms\<close> sleeps long enough: on a kernel that keeps the documented contract of
  \<open>nanosleep\<close> it returns after finitely many signals, every request it makes is a valid
  \<open>timespec\<close> (it never fails with \<open>EINVAL\<close>), and at least \<open>ms\<close> milliseconds have passed.
\<close>

theorem time_sleep_long_enough:
  assumes "posix_nanosleep now signals nanosleep"
  shows "\<exists>k'. time_sleep_ms nanosleep k ms = Some (Slept, k') \<and> now k + uint ms * 1000000 \<le> now k'"
proof -
  let ?req = "\<lparr>tv_sec = uint (ms div 1000), tv_nsec = uint (ms mod 1000) * 1000000\<rparr>"
  have u: "uint (ms div 1000) = uint ms div 1000" "uint (ms mod 1000) = uint ms mod 1000"
    by (simp_all add: uint_div uint_mod)
  have "ts_valid ?req" by (simp add: ts_valid_def u pos_imp_zdiv_nonneg_iff)
  moreover have "ts_ns ?req = uint ms * 1000000" unfolding ts_ns_def timespec.simps u by presburger
  ultimately show ?thesis using sleep_loop_sleeps [OF assms, of ?req k] by (simp only: time_sleep_ms_def)
qed

text \<open>A kernel whose state is the time and the gaps after which signals arrive.\<close>

definition signal_kernel :: "int \<times> int list \<Rightarrow> timespec \<Rightarrow> nap \<times> int \<times> int list" where
  "signal_kernel k req =
     (case snd k of
        [] \<Rightarrow> (Slept, fst k + ts_ns req, [])
      | g # gs \<Rightarrow>
          if 0 \<le> g \<and> g < ts_ns req
          then (Interrupted \<lparr>tv_sec = (ts_ns req - g) div 1000000000, tv_nsec = (ts_ns req - g) mod 1000000000\<rparr>,
                fst k + g, gs)
          else (Slept, fst k + ts_ns req, g # gs))"

lemma signal_kernel_posix: "posix_nanosleep fst (\<lambda>k. length (snd k)) signal_kernel"
  unfolding posix_nanosleep_def
proof (intro allI impI)
  fix k req assume "ts_valid req"
  show "case signal_kernel k req of
           (Slept, k') \<Rightarrow> fst k + ts_ns req \<le> fst k'
         | (Interrupted remaining, k') \<Rightarrow> ts_valid remaining \<and> fst k + ts_ns req \<le> fst k' + ts_ns remaining
             \<and> length (snd k') < length (snd k)
         | (NapError, k') \<Rightarrow> False"
    by (auto simp: signal_kernel_def ts_valid_def ts_ns_def pos_imp_zdiv_nonneg_iff split: list.splits)
qed

theorem time_sleep_long_enough_witness:
  "\<exists>k'. time_sleep_ms signal_kernel (0, [400, 1000000]) 2500 = Some (Slept, k') \<and> 2500000000 \<le> fst k'"
  using time_sleep_long_enough [OF signal_kernel_posix, of "(0, [400, 1000000])" 2500] by simp

text \<open>The stopwatch: elapsed nanoseconds are exact even when the 64-bit clock wraps.\<close>

lemma stopwatch_exact:
  assumes "0 \<le> ts_ns t1 - ts_ns t0" and "ts_ns t1 - ts_ns t0 < 2 ^ 64"
  shows "map_option (\<lambda>sw. uint (stopwatch_elapsed_ns t1 sw)) (stopwatch_start t0 (Some w)) = Some (ts_ns t1 - ts_ns t0)"
proof -
  have e: "word_of_int (ts_ns t1) - word_of_int (ts_ns t0) = (word_of_int (ts_ns t1 - ts_ns t0) :: 64 word)" by simp
  have "uint (word_of_int (ts_ns t1) - word_of_int (ts_ns t0) :: 64 word) = ts_ns t1 - ts_ns t0"
    unfolding e using assms by (simp only: uint_word_of_int) (simp add: take_bit_eq_mod)
  then show ?thesis by (simp add: stopwatch_start_def stopwatch_elapsed_ns_def time_now_ns_word)
qed

end
