(* ===== verification/VecMath.thy ===== *)
theory VecMath
  imports Ieee
begin

text \<open>
  Scalar helpers and fixed-size vectors: \<open>src/include/math/scalar.h\<close> and \<open>src/math/vec.c\<close>. The
  number type is a parameter: the code is the instance \<open>f32\<close>, and at \<open>real\<close> the same definitions
  compute without rounding. The record \<open>fmath\<close> carries what the C language and library give for a
  number type: literals, conversions from and to integers, and the functions of \<open>math.h\<close>; of these
  only the square root is defined by IEEE 754, the others are the platform's.
\<close>

section \<open>Number types\<close>

record 'a fmath =
  fm_lit :: "rat \<Rightarrow> 'a"
  fm_nat :: "nat \<Rightarrow> 'a"
  fm_trunc :: "'a \<Rightarrow> int option"
  fm_sqrt :: "'a \<Rightarrow> 'a"
  fm_sin :: "'a \<Rightarrow> 'a"
  fm_cos :: "'a \<Rightarrow> 'a"
  fm_tan :: "'a \<Rightarrow> 'a"
  fm_acos :: "'a \<Rightarrow> 'a"
  fm_exp :: "'a \<Rightarrow> 'a"
  fm_log :: "'a \<Rightarrow> 'a"
  fm_tanh :: "'a \<Rightarrow> 'a"
  fm_pow :: "'a \<Rightarrow> 'a \<Rightarrow> 'a"

text \<open>
  The integer a conversion of a datum truncates to, \<open>None\<close> for NaN and infinities (undefined in C).
\<close>

definition trunc32 :: "f32 \<Rightarrow> int option" where
  "trunc32 a = (case fl32 a of FFin s x \<Rightarrow> Some (if s then - \<lfloor>x\<rfloor> else \<lfloor>x\<rfloor>) | _ \<Rightarrow> None)"

definition trunc64 :: "f64 \<Rightarrow> int option" where
  "trunc64 a = (case fl64 a of FFin s x \<Rightarrow> Some (if s then - \<lfloor>x\<rfloor> else \<lfloor>x\<rfloor>) | _ \<Rightarrow> None)"

text \<open>\<open>float\<close> and \<open>double\<close> over a library \<open>lib\<close>, and exact arithmetic on the reals.\<close>

definition math32 :: "f32 fmath \<Rightarrow> f32 fmath" where
  "math32 lib = lib\<lparr>fm_lit := lit32, fm_nat := f32_of_nat, fm_trunc := trunc32, fm_sqrt := sqrtf\<rparr>"

definition math64 :: "f64 fmath \<Rightarrow> f64 fmath" where
  "math64 lib = lib\<lparr>fm_lit := lit64, fm_nat := f64_of_nat, fm_trunc := trunc64, fm_sqrt := sqrt64\<rparr>"

definition exact :: "real fmath" where
  "exact = \<lparr>fm_lit = of_rat, fm_nat = of_nat, fm_trunc = (\<lambda>x. Some (if x < 0 then \<lceil>x\<rceil> else \<lfloor>x\<rfloor>)), fm_sqrt = sqrt,
     fm_sin = sin, fm_cos = cos, fm_tan = tan, fm_acos = arccos, fm_exp = exp, fm_log = ln, fm_tanh = tanh,
     fm_pow = (\<lambda>x y. x powr y)\<rparr>"

lemma exact_simps [simp]:
  "fm_lit exact = of_rat" "fm_nat exact = of_nat" "fm_sqrt exact = sqrt" "fm_sin exact = sin" "fm_cos exact = cos"
  "fm_tan exact = tan" "fm_acos exact = arccos" "fm_exp exact = exp" "fm_log exact = ln" "fm_tanh exact = tanh"
  "fm_pow exact = (\<lambda>x y. x powr y)"
  "fm_trunc exact = (\<lambda>x. Some (if x < 0 then \<lceil>x\<rceil> else \<lfloor>x\<rfloor>))"
  by (simp_all add: exact_def)

lemma math32_simps [simp]:
  "fm_lit (math32 lib) = lit32" "fm_nat (math32 lib) = f32_of_nat" "fm_sqrt (math32 lib) = sqrtf"
  "fm_trunc (math32 lib) = trunc32"
  by (simp_all add: math32_def)

section \<open>Scalars\<close>

definition scalar_pi :: "'a fmath \<Rightarrow> 'a" where
  "scalar_pi m = fm_lit m (314159265358979323846 / 10 ^ 20)"

definition scalar_clamp :: "'a::ord \<Rightarrow> 'a \<Rightarrow> 'a \<Rightarrow> 'a" where
  "scalar_clamp x lo hi = (if x < lo then lo else (if x > hi then hi else x))"

definition scalar_lerp :: "'a::{plus,minus,times} \<Rightarrow> 'a \<Rightarrow> 'a \<Rightarrow> 'a" where
  "scalar_lerp a b t = a + (b - a) * t"

definition scalar_deg_to_rad :: "'a::{times,inverse} fmath \<Rightarrow> 'a \<Rightarrow> 'a" where
  "scalar_deg_to_rad m deg = deg * (scalar_pi m / fm_lit m 180)"

definition scalar_rad_to_deg :: "'a::{times,inverse} fmath \<Rightarrow> 'a \<Rightarrow> 'a" where
  "scalar_rad_to_deg m rad = rad * (fm_lit m 180 / scalar_pi m)"

definition scalar_approx_eq :: "'a::{minus,abs,ord} \<Rightarrow> 'a \<Rightarrow> 'a \<Rightarrow> bool" where
  "scalar_approx_eq a b eps \<longleftrightarrow> \<bar>a - b\<bar> \<le> eps"

text \<open>The comparison \<open>a == b\<close> of floating-point values: false on NaN, true on zeros of either sign.\<close>

definition feq :: "'a::ord \<Rightarrow> 'a \<Rightarrow> bool" where
  "feq a b \<longleftrightarrow> a \<le> b \<and> b \<le> a"

lemma feq_iff [simp]: "feq a b \<longleftrightarrow> a = (b :: 'a::order)"
  by (auto simp: feq_def)

section \<open>Two components\<close>

record 'a vec2 =
  x2 :: 'a
  y2 :: 'a

definition vec2_add :: "'a::plus vec2 \<Rightarrow> 'a vec2 \<Rightarrow> 'a vec2" where
  "vec2_add a b = \<lparr>x2 = x2 a + x2 b, y2 = y2 a + y2 b\<rparr>"

definition vec2_sub :: "'a::minus vec2 \<Rightarrow> 'a vec2 \<Rightarrow> 'a vec2" where
  "vec2_sub a b = \<lparr>x2 = x2 a - x2 b, y2 = y2 a - y2 b\<rparr>"

definition vec2_scale :: "'a::times vec2 \<Rightarrow> 'a \<Rightarrow> 'a vec2" where
  "vec2_scale v s = \<lparr>x2 = x2 v * s, y2 = y2 v * s\<rparr>"

definition vec2_dot :: "'a::{plus,times} vec2 \<Rightarrow> 'a vec2 \<Rightarrow> 'a" where
  "vec2_dot a b = x2 a * x2 b + y2 a * y2 b"

definition vec2_length :: "'a::{plus,times} fmath \<Rightarrow> 'a vec2 \<Rightarrow> 'a" where
  "vec2_length m v = fm_sqrt m (vec2_dot v v)"

definition vec2_normalize :: "'a::{zero,one,plus,times,inverse,ord} fmath \<Rightarrow> 'a vec2 \<Rightarrow> 'a vec2" where
  "vec2_normalize m v = (let len = vec2_length m v in if len > 0 then vec2_scale v (1 / len) else v)"

definition vec2_lerp :: "'a::{plus,minus,times} vec2 \<Rightarrow> 'a vec2 \<Rightarrow> 'a \<Rightarrow> 'a vec2" where
  "vec2_lerp a b t = \<lparr>x2 = scalar_lerp (x2 a) (x2 b) t, y2 = scalar_lerp (y2 a) (y2 b) t\<rparr>"

section \<open>Three components\<close>

record 'a vec3 =
  x3 :: 'a
  y3 :: 'a
  z3 :: 'a

definition vec3_add :: "'a::plus vec3 \<Rightarrow> 'a vec3 \<Rightarrow> 'a vec3" where
  "vec3_add a b = \<lparr>x3 = x3 a + x3 b, y3 = y3 a + y3 b, z3 = z3 a + z3 b\<rparr>"

definition vec3_sub :: "'a::minus vec3 \<Rightarrow> 'a vec3 \<Rightarrow> 'a vec3" where
  "vec3_sub a b = \<lparr>x3 = x3 a - x3 b, y3 = y3 a - y3 b, z3 = z3 a - z3 b\<rparr>"

definition vec3_scale :: "'a::times vec3 \<Rightarrow> 'a \<Rightarrow> 'a vec3" where
  "vec3_scale v s = \<lparr>x3 = x3 v * s, y3 = y3 v * s, z3 = z3 v * s\<rparr>"

definition vec3_dot :: "'a::{plus,times} vec3 \<Rightarrow> 'a vec3 \<Rightarrow> 'a" where
  "vec3_dot a b = x3 a * x3 b + y3 a * y3 b + z3 a * z3 b"

definition vec3_cross :: "'a::{minus,times} vec3 \<Rightarrow> 'a vec3 \<Rightarrow> 'a vec3" where
  "vec3_cross a b = \<lparr>x3 = y3 a * z3 b - z3 a * y3 b, y3 = z3 a * x3 b - x3 a * z3 b, z3 = x3 a * y3 b - y3 a * x3 b\<rparr>"

definition vec3_length :: "'a::{plus,times} fmath \<Rightarrow> 'a vec3 \<Rightarrow> 'a" where
  "vec3_length m v = fm_sqrt m (vec3_dot v v)"

definition vec3_distance :: "'a::{plus,minus,times} fmath \<Rightarrow> 'a vec3 \<Rightarrow> 'a vec3 \<Rightarrow> 'a" where
  "vec3_distance m a b = vec3_length m (vec3_sub a b)"

definition vec3_normalize :: "'a::{zero,one,plus,times,inverse,ord} fmath \<Rightarrow> 'a vec3 \<Rightarrow> 'a vec3" where
  "vec3_normalize m v = (let len = vec3_length m v in if len > 0 then vec3_scale v (1 / len) else v)"

definition vec3_lerp :: "'a::{plus,minus,times} vec3 \<Rightarrow> 'a vec3 \<Rightarrow> 'a \<Rightarrow> 'a vec3" where
  "vec3_lerp a b t =
     \<lparr>x3 = scalar_lerp (x3 a) (x3 b) t, y3 = scalar_lerp (y3 a) (y3 b) t, z3 = scalar_lerp (z3 a) (z3 b) t\<rparr>"

definition vec3_approx_eq :: "'a::{minus,abs,ord} vec3 \<Rightarrow> 'a vec3 \<Rightarrow> 'a \<Rightarrow> bool" where
  "vec3_approx_eq a b eps \<longleftrightarrow>
     scalar_approx_eq (x3 a) (x3 b) eps \<and> scalar_approx_eq (y3 a) (y3 b) eps \<and> scalar_approx_eq (z3 a) (z3 b) eps"

section \<open>Four components\<close>

record 'a vec4 =
  x4 :: 'a
  y4 :: 'a
  z4 :: 'a
  w4 :: 'a

definition vec4_add :: "'a::plus vec4 \<Rightarrow> 'a vec4 \<Rightarrow> 'a vec4" where
  "vec4_add a b = \<lparr>x4 = x4 a + x4 b, y4 = y4 a + y4 b, z4 = z4 a + z4 b, w4 = w4 a + w4 b\<rparr>"

definition vec4_sub :: "'a::minus vec4 \<Rightarrow> 'a vec4 \<Rightarrow> 'a vec4" where
  "vec4_sub a b = \<lparr>x4 = x4 a - x4 b, y4 = y4 a - y4 b, z4 = z4 a - z4 b, w4 = w4 a - w4 b\<rparr>"

definition vec4_scale :: "'a::times vec4 \<Rightarrow> 'a \<Rightarrow> 'a vec4" where
  "vec4_scale v s = \<lparr>x4 = x4 v * s, y4 = y4 v * s, z4 = z4 v * s, w4 = w4 v * s\<rparr>"

definition vec4_dot :: "'a::{plus,times} vec4 \<Rightarrow> 'a vec4 \<Rightarrow> 'a" where
  "vec4_dot a b = x4 a * x4 b + y4 a * y4 b + z4 a * z4 b + w4 a * w4 b"

definition vec4_length :: "'a::{plus,times} fmath \<Rightarrow> 'a vec4 \<Rightarrow> 'a" where
  "vec4_length m v = fm_sqrt m (vec4_dot v v)"

section \<open>Exact arithmetic\<close>

named_theorems vec_defs

lemmas vec3_ops [vec_defs] = vec3_add_def vec3_sub_def vec3_scale_def vec3_dot_def vec3_cross_def

lemma vec3_eqI: "x3 a = x3 b \<Longrightarrow> y3 a = y3 b \<Longrightarrow> z3 a = z3 b \<Longrightarrow> a = (b :: 'a vec3)"
  by simp

lemma vec3_dot_self: "0 \<le> vec3_dot v (v :: real vec3)"
  by (simp add: vec3_dot_def)

lemma vec3_dot_self_pos: "v \<noteq> \<lparr>x3 = 0, y3 = 0, z3 = 0\<rparr> \<longleftrightarrow> 0 < vec3_dot v (v :: real vec3)"
proof -
  have "vec3_dot v v = 0 \<longleftrightarrow> x3 v * x3 v + y3 v * y3 v = 0 \<and> z3 v * z3 v = 0"
    unfolding vec3_dot_def by (rule add_nonneg_eq_0_iff) simp_all
  also have "\<dots> \<longleftrightarrow> v = \<lparr>x3 = 0, y3 = 0, z3 = 0\<rparr>" by (simp add: sum_squares_eq_zero_iff) (auto intro: vec3_eqI)
  finally show ?thesis using vec3_dot_self [of v] by linarith
qed

text \<open>A vector and its normal form: unit length, the same direction; the zero vector stays.\<close>

lemma vec3_normalize_unit:
  assumes "v \<noteq> \<lparr>x3 = 0, y3 = 0, z3 = 0\<rparr>"
  shows "vec3_dot (vec3_normalize exact v) (vec3_normalize exact v) = 1"
    and "vec3_scale (vec3_normalize exact v) (vec3_length exact v) = v"
    and "0 < vec3_length exact v"
proof -
  have p: "0 < vec3_dot v v" using assms vec3_dot_self_pos by blast
  then show len: "0 < vec3_length exact v" by (simp add: vec3_length_def)
  then have n: "vec3_normalize exact v = vec3_scale v (1 / vec3_length exact v)"
    by (simp add: vec3_normalize_def Let_def)
  have sq: "vec3_length exact v * vec3_length exact v = vec3_dot v v"
    using p by (simp add: vec3_length_def)
  have "vec3_dot (vec3_scale v s) (vec3_scale v s) = vec3_dot v v * (s * s)" for s
    by (simp add: vec_defs algebra_simps)
  then show "vec3_dot (vec3_normalize exact v) (vec3_normalize exact v) = 1"
    unfolding n using p sq by simp
  show "vec3_scale (vec3_normalize exact v) (vec3_length exact v) = v"
    unfolding n using len by (simp add: vec3_scale_def)
qed

lemma vec3_normalize_zero: "vec3_normalize exact \<lparr>x3 = 0, y3 = 0, z3 = 0\<rparr> = \<lparr>x3 = 0, y3 = 0, z3 = 0\<rparr>"
  by (simp add: vec3_normalize_def vec3_length_def vec3_dot_def)

text \<open>\<open>scalar_clamp\<close> on numbers with a total order; the order of the tests decides when \<open>hi < lo\<close>.\<close>

lemma scalar_clamp_range:
  fixes x :: "'a::linorder"
  assumes "lo \<le> hi"
  shows "lo \<le> scalar_clamp x lo hi \<and> scalar_clamp x lo hi \<le> hi
    \<and> (lo \<le> x \<and> x \<le> hi \<longrightarrow> scalar_clamp x lo hi = x)"
  using assms by (auto simp: scalar_clamp_def)

lemma vec3_cross_orthogonal:
  fixes a :: "'a::comm_ring_1 vec3"
  shows "vec3_dot (vec3_cross a b) a = 0" "vec3_dot (vec3_cross a b) b = 0"
    "vec3_dot (vec3_cross a b) (vec3_cross a b) = vec3_dot a a * vec3_dot b b - vec3_dot a b * vec3_dot a b"
  by (simp_all add: vec_defs algebra_simps)

end
