(* ===== verification/Perf.thy ===== *)
theory Perf
  imports Clock VecMath
begin

text \<open>
  The timing macros of \<open>testing/perf_test.h\<close>: the elapsed time in milliseconds and the minimum, average
  and maximum over the runs of a block. The readings of the clock are arguments; the number type is a
  parameter, the code being the instance \<open>math64\<close>. What is printed is these numbers.
\<close>

record perf_timer =
  pt_label :: string
  pt_start :: timespec

definition perf_start :: "timespec \<Rightarrow> string \<Rightarrow> perf_timer" where
  "perf_start now lab = \<lparr>pt_label = lab, pt_start = now\<rparr>"

text \<open>The differences are taken in integers and then converted, as a literal is.\<close>

definition perf_elapsed_ms :: "'a::{plus,times} fmath \<Rightarrow> timespec \<Rightarrow> perf_timer \<Rightarrow> 'a" where
  "perf_elapsed_ms m now t =
     fm_lit m (of_int (tv_sec now - tv_sec (pt_start t))) * fm_lit m 1000
     + fm_lit m (of_int (tv_nsec now - tv_nsec (pt_start t))) * fm_lit m (1 / 1000000)"

definition perf_stop :: "'a::{plus,times} fmath \<Rightarrow> timespec \<Rightarrow> perf_timer \<Rightarrow> string \<times> 'a" where
  "perf_stop m now t = (pt_label t, perf_elapsed_ms m now t)"

definition DBL_MAX :: rat where
  "DBL_MAX = (2 - 1 / 2 ^ 52) * 2 ^ 1023"

text \<open>One turn of \<open>PERF_BENCH\<close> with the readings before and after the block.\<close>

definition bench_turn :: "'a::{plus,times,ord} fmath \<Rightarrow> string \<Rightarrow> timespec \<times> timespec \<Rightarrow> 'a \<times> 'a \<times> 'a \<Rightarrow> 'a \<times> 'a \<times> 'a" where
  "bench_turn m lab r s =
     (case s of (mn, mx, acc) \<Rightarrow>
        let t = perf_start (fst r) lab; ms = perf_elapsed_ms m (snd r) t in
          (if ms < mn then ms else mn, if ms > mx then ms else mx, acc + ms))"

text \<open>The numbers \<open>PERF_BENCH\<close> prints: minimum, average and maximum.\<close>

definition perf_bench :: "'a::{plus,times,inverse,ord} fmath \<Rightarrow> string \<Rightarrow> (timespec \<times> timespec) list \<Rightarrow> 'a \<times> 'a \<times> 'a" where
  "perf_bench m lab readings =
     (case fold (bench_turn m lab) readings (fm_lit m DBL_MAX, fm_lit m 0, fm_lit m 0) of
        (mn, mx, acc) \<Rightarrow> (mn, acc / fm_lit m (of_nat (length readings)), mx))"

section \<open>Exact arithmetic\<close>

definition millis :: "timespec \<times> timespec \<Rightarrow> real" where
  "millis r = of_int (ts_ns (snd r) - ts_ns (fst r)) / 1000000"

lemma perf_elapsed_exact: "perf_elapsed_ms exact (snd r) (perf_start (fst r) lab) = millis r"
  by (simp add: perf_elapsed_ms_def perf_start_def millis_def ts_ns_def of_rat_divide of_rat_diff field_simps)

lemma bench_fold:
  "fold (bench_turn exact lab) rs (mn, mx, acc)
     = (fold (\<lambda>r a. min (millis r) a) rs mn, fold (\<lambda>r a. max (millis r) a) rs mx, acc + (\<Sum>r \<leftarrow> rs. millis r))"
  by (induction rs arbitrary: mn mx acc) (auto simp: bench_turn_def Let_def perf_elapsed_exact min_def max_def)

text \<open>
  A clock that does not run backwards, and blocks that end within \<open>DBL_MAX\<close> milliseconds: then the
  extremes are those of the elapsed times, and the average is their mean.
\<close>

theorem perf_bench_summary:
  assumes "rs \<noteq> []" and "\<forall>r \<in> set rs. 0 \<le> millis r \<and> millis r \<le> of_rat DBL_MAX"
  shows "perf_bench exact lab rs = (Min (millis ` set rs), (\<Sum>r \<leftarrow> rs. millis r) / of_nat (length rs), Max (millis ` set rs))"
proof -
  let ?b = "of_rat DBL_MAX :: real"
  have fold_map: "fold (\<lambda>r a. f (millis r) a) rs b = fold f (map millis rs) b" for f :: "real \<Rightarrow> real \<Rightarrow> real" and b
    by (induction rs arbitrary: b) simp_all
  obtain r where r: "r \<in> set rs" using assms(1) by (cases rs) auto
  then have "Min (millis ` set rs) \<le> millis r" "millis r \<le> Max (millis ` set rs)" by simp_all
  then have lo: "Min (millis ` set rs) \<le> ?b" and hi: "0 \<le> Max (millis ` set rs)" using assms(2) r by (blast intro: order_trans)+
  have mn: "fold (\<lambda>r a. min (millis r) a) rs ?b = Min (millis ` set rs)"
    unfolding fold_map Min.set_eq_fold [symmetric] using assms(1) lo by (simp add: min.absorb2)
  have mx: "fold (\<lambda>r a. max (millis r) a) rs 0 = Max (millis ` set rs)"
    unfolding fold_map Max.set_eq_fold [symmetric] using assms(1) hi by (simp add: max.absorb2)
  show ?thesis by (simp add: perf_bench_def bench_fold mn mx)
qed

end
