(* ===== verification/Rng.thy ===== *)
theory Rng
  imports Prelude
begin

text \<open>
  The PCG32 generator of \<open>src/math/rng.c\<close>: a 64-bit linear congruential state and a permuted
  32-bit output. The rejection loop of \<open>rng_range_u32\<close> is a partial function, so that its
  termination is a theorem.
\<close>

unbundle bit_operations_syntax

record rng =
  rng_state :: "64 word"
  rng_inc :: "64 word"

definition rng_next_u32 :: "rng \<Rightarrow> 32 word \<times> rng" where
  "rng_next_u32 r =
     (let old = rng_state r;
          r' = r\<lparr>rng_state := old * 6364136223846793005 + rng_inc r\<rparr>;
          xorshifted = ucast (drop_bit 27 (drop_bit 18 old XOR old)) :: 32 word;
          rot = unat (drop_bit 59 old)
      in (drop_bit rot xorshifted OR push_bit (unat ((32 - word_of_nat rot :: 32 word) AND 31)) xorshifted, r'))"

definition rng_seed :: "rng \<Rightarrow> 64 word \<Rightarrow> 64 word \<Rightarrow> rng" where
  "rng_seed r seed seq =
     (let r = r\<lparr>rng_state := 0, rng_inc := push_bit 1 seq OR 1\<rparr>;
          r = snd (rng_next_u32 r);
          r = r\<lparr>rng_state := rng_state r + seed\<rparr>
      in snd (rng_next_u32 r))"

partial_function (option) range_loop :: "rng \<Rightarrow> 32 word \<Rightarrow> 32 word \<Rightarrow> (32 word \<times> rng) option" where
  "range_loop r bound threshold =
     (case rng_next_u32 r of (v, r') \<Rightarrow>
        if v \<ge> threshold then Some (v mod bound, r') else range_loop r' bound threshold)"

definition rng_range_u32 :: "rng \<Rightarrow> 32 word \<Rightarrow> (32 word \<times> rng) option" where
  "rng_range_u32 r bound =
     (if bound = 0 then Some (0, r)
      else let threshold = (0 - bound) mod bound in range_loop r bound threshold)"

section \<open>The state sequence\<close>

definition rng_step :: "rng \<Rightarrow> rng" where
  "rng_step r = snd (rng_next_u32 r)"

lemma rng_step_simps [simp]:
  "rng_state (rng_step r) = rng_state r * 6364136223846793005 + rng_inc r"
  "rng_inc (rng_step r) = rng_inc r"
  by (simp_all add: rng_step_def rng_next_u32_def Let_def)

text \<open>The geometric sum of the multiplier.\<close>

definition geo :: "int \<Rightarrow> nat \<Rightarrow> int" where
  "geo a n = (\<Sum>i<n. a ^ i)"

lemma geo_0 [simp]: "geo a 0 = 0" by (simp add: geo_def)

lemma geo_Suc: "geo a (Suc n) = a * geo a n + 1"
  unfolding geo_def by (subst sum.lessThan_Suc_shift) (simp add: sum_distrib_left)

lemma geo_add: "geo a (m + n) = geo a m + a ^ m * geo a n"
  by (induction m) (simp_all add: geo_Suc algebra_simps)

lemma geo_double: "geo a (2 * n) = geo a n * (1 + a ^ n)"
  using geo_add [of a n n] unfolding mult_2 [of n] by (simp add: algebra_simps)

lemma geo_parity:
  assumes "odd a" shows "odd (geo a n) \<longleftrightarrow> odd n"
  using assms by (induction n) (simp_all add: geo_Suc)

lemma power_mod_4:
  assumes "a mod 4 = (1 :: int)" shows "a ^ n mod 4 = 1"
  by (metis assms mod_mod_trivial one_mod_numeral power_mod power_one semiring_norm(76))

lemma geo_dvd:
  assumes "a mod 4 = (1 :: int)" shows "2 ^ k dvd geo a n \<longleftrightarrow> 2 ^ k dvd n"
proof (induction k arbitrary: n)
  case (Suc k)
  have oa: "odd a" using assms by presburger
  show ?case
  proof (cases "even n")
    case True
    then obtain m where m: "n = 2 * m" by blast
    have "(1 + a ^ m) mod 4 = 2" using power_mod_4 [OF assms, of m] by presburger
    moreover define q where "q = (1 + a ^ m) div 2"
    ultimately have q: "1 + a ^ m = 2 * q" "odd q" by presburger+
    have "geo a n = 2 * (geo a m * q)" using geo_double [of a m] m q(1) by simp
    then have "2 ^ Suc k dvd geo a n \<longleftrightarrow> 2 ^ k dvd geo a m * q" by simp
    also have "\<dots> \<longleftrightarrow> 2 ^ k dvd geo a m" using q(2)
      by (simp add: coprime_dvd_mult_left_iff coprime_power_left_iff)
    also have "\<dots> \<longleftrightarrow> 2 ^ k dvd m" by (rule Suc.IH)
    also have "\<dots> \<longleftrightarrow> 2 ^ Suc k dvd n" by (simp add: m)
    finally show ?thesis .
  next
    case False
    then have "odd (geo a n)" using geo_parity [OF oa] by simp
    then show ?thesis using False by (metis dvd_mult_left power_Suc)
  qed
qed simp

lemma rng_steps_inc [simp]: "rng_inc ((rng_step ^^ n) r) = rng_inc r"
  by (induction n) simp_all

lemma rng_steps_state:
  "rng_state ((rng_step ^^ n) r) = rng_state r
     + of_int (geo 6364136223846793005 n) * (6364136223846793004 * rng_state r + rng_inc r)"
  by (induction n) (simp_all add: geo_Suc algebra_simps)

text \<open>The state recurs exactly after a multiple of \<open>2 ^ 64\<close> steps.\<close>

lemma rng_recurs:
  assumes "odd (rng_inc r)"
  shows "rng_state ((rng_step ^^ n) r) = rng_state r \<longleftrightarrow> 2 ^ 64 dvd n"
proof -
  define w where "w = 6364136223846793004 * rng_state r + rng_inc r"
  have "odd w" using assms by (simp add: w_def)
  then have ow: "odd (uint w)" by transfer (simp add: even_take_bit_eq)
  have "rng_state ((rng_step ^^ n) r) = rng_state r \<longleftrightarrow> of_int (geo 6364136223846793005 n) * w = 0"
    by (simp add: rng_steps_state w_def)
  also have "of_int (geo 6364136223846793005 n) * w = of_int (geo 6364136223846793005 n * uint w)"
    by simp
  also have "\<dots> = 0 \<longleftrightarrow> 2 ^ 64 dvd geo 6364136223846793005 n * uint w"
    by (simp only: word_of_int_eq_0_iff) simp
  also have "\<dots> \<longleftrightarrow> 2 ^ 64 dvd geo 6364136223846793005 n"
    using ow by (intro coprime_dvd_mult_left_iff) (simp only: coprime_power_left_iff coprime_left_2_iff_odd, simp)
  also have "\<dots> \<longleftrightarrow> 2 ^ 64 dvd n" using geo_dvd [of 6364136223846793005 64 n] by simp
  finally show ?thesis .
qed

lemma steps_inject:
  assumes "odd (rng_inc r)" and "m \<le> n" and "n < 2 ^ 64"
    and "rng_state ((rng_step ^^ m) r) = rng_state ((rng_step ^^ n) r)"
  shows "m = n"
proof -
  have "rng_state ((rng_step ^^ (n - m)) ((rng_step ^^ m) r)) = rng_state ((rng_step ^^ m) r)"
    using assms(2,4) by (simp flip: funpow_add [unfolded comp_def, THEN fun_cong])
  then have "2 ^ 64 dvd n - m" using rng_recurs [of "(rng_step ^^ m) r" "n - m"] assms(1) by simp
  moreover have "n - m < 2 ^ 64" using assms(3) by simp
  ultimately have "n - m = 0" using nat_dvd_not_less by blast
  then show ?thesis using assms(2) by simp
qed

text \<open>Every 64-bit value is a state of the cycle.\<close>

lemma rng_states_surj:
  assumes "odd (rng_inc r)"
  shows "\<exists>n < 2 ^ 64. rng_state ((rng_step ^^ n) r) = s"
proof -
  let ?f = "\<lambda>n. rng_state ((rng_step ^^ n) r)"
  have "inj_on ?f {..< 2 ^ 64}"
    using steps_inject [OF assms] by (intro inj_onI) (metis lessThan_iff linear)
  then have "card (?f ` {..< 2 ^ 64}) = 2 ^ 64" by (simp only: card_image card_lessThan)
  also have "\<dots> = card (UNIV :: 64 word set)" by (simp add: card_word)
  finally have "card (?f ` {..< 2 ^ 64}) = card (UNIV :: 64 word set)" .
  then have img: "?f ` {..< 2 ^ 64} = UNIV" by (rule card_subset_eq [OF finite subset_UNIV])
  have "s \<in> ?f ` {..< 2 ^ 64}" unfolding img by (rule UNIV_I)
  then show ?thesis unfolding image_iff bex_simps lessThan_iff by blast
qed

lemma rng_seed_odd: "odd (rng_inc (rng_seed r seed seq))"
proof -
  have "odd (push_bit 1 seq OR 1)" by (simp only: even_or_iff) simp
  then show ?thesis by (simp add: rng_seed_def Let_def flip: rng_step_def)
qed

section \<open>The rejection loop\<close>

text \<open>One state, and so one point of every cycle, has the largest output.\<close>

lemma rng_max_output: "rng_state r = 0x07fffe0000000000 \<Longrightarrow> fst (rng_next_u32 r) = - 1"
proof -
  assume "rng_state r = 0x07fffe0000000000"
  moreover have "ucast (drop_bit 27 (drop_bit 18 0x07fffe0000000000 XOR 0x07fffe0000000000 :: 64 word)) = (- 1 :: 32 word)"
    by simp
  moreover have "unat (drop_bit 59 (0x07fffe0000000000 :: 64 word)) = 0" by simp
  ultimately show ?thesis by (simp add: rng_next_u32_def Let_def)
qed

lemma range_loop_returns:
  "fst (rng_next_u32 ((rng_step ^^ n) r)) \<ge> threshold \<Longrightarrow>
   \<exists>m \<le> n. range_loop r bound threshold =
        Some (fst (rng_next_u32 ((rng_step ^^ m) r)) mod bound, (rng_step ^^ Suc m) r)
      \<and> fst (rng_next_u32 ((rng_step ^^ m) r)) \<ge> threshold
      \<and> (\<forall>j < m. fst (rng_next_u32 ((rng_step ^^ j) r)) < threshold)"
proof (induction n arbitrary: r)
  case 0
  then show ?case
    by (subst range_loop.simps) (auto simp: rng_step_def split: prod.splits)
next
  case (Suc n)
  show ?case
  proof (cases "fst (rng_next_u32 r) \<ge> threshold")
    case True
    then show ?thesis
      by (subst range_loop.simps) (auto simp: rng_step_def split: prod.splits intro!: exI [of _ 0])
  next
    case False
    have "fst (rng_next_u32 ((rng_step ^^ n) (rng_step r))) \<ge> threshold"
      using Suc.prems by (simp add: funpow_swap1)
    from Suc.IH [OF this] obtain m where m: "m \<le> n"
      "range_loop (rng_step r) bound threshold =
        Some (fst (rng_next_u32 ((rng_step ^^ m) (rng_step r))) mod bound, (rng_step ^^ Suc m) (rng_step r))"
      "fst (rng_next_u32 ((rng_step ^^ m) (rng_step r))) \<ge> threshold"
      "\<forall>j < m. fst (rng_next_u32 ((rng_step ^^ j) (rng_step r))) < threshold" by blast
    have "range_loop r bound threshold = range_loop (rng_step r) bound threshold"
      using False by (subst range_loop.simps) (auto simp: rng_step_def split: prod.splits)
    moreover have "\<forall>j < Suc m. fst (rng_next_u32 ((rng_step ^^ j) r)) < threshold"
    proof (intro allI impI)
      fix j assume "j < Suc m"
      then show "fst (rng_next_u32 ((rng_step ^^ j) r)) < threshold"
        using m(4) False by (cases j) (auto simp: funpow_swap1 not_le)
    qed
    ultimately show ?thesis using m(1-3)
      by (intro exI [of _ "Suc m"]) (simp add: funpow_swap1)
  qed
qed

lemma range_loop_total:
  assumes "odd (rng_inc r)"
  shows "\<exists>m. range_loop r bound threshold =
        Some (fst (rng_next_u32 ((rng_step ^^ m) r)) mod bound, (rng_step ^^ Suc m) r)
      \<and> fst (rng_next_u32 ((rng_step ^^ m) r)) \<ge> threshold
      \<and> (\<forall>j < m. fst (rng_next_u32 ((rng_step ^^ j) r)) < threshold) \<and> m < 2 ^ 64"
proof -
  obtain n where n: "n < 2 ^ 64" "rng_state ((rng_step ^^ n) r) = 0x07fffe0000000000"
    using rng_states_surj [OF assms] by blast
  have "fst (rng_next_u32 ((rng_step ^^ n) r)) \<ge> threshold"
    using rng_max_output [OF n(2)] by simp
  from range_loop_returns [OF this] show ?thesis using n(1) by (meson le_less_trans)
qed

text \<open>Every residue is hit equally often in a range of whole multiples.\<close>

lemma residue_in_block:
  assumes "x < b"
  shows "\<exists>k. {k :: nat. s \<le> k \<and> k < s + b \<and> k mod b = x} = {k}"
proof -
  define k where "k = s + (x + b - s mod b) mod b"
  have b: "0 < b" using assms by simp
  have "k mod b = (s mod b + (x + b - s mod b)) mod b" by (simp add: k_def mod_simps)
  also have "s mod b + (x + b - s mod b) = x + b" using mod_less_divisor [OF b, of s] by simp
  finally have "k mod b = x" using assms by simp
  moreover have "s \<le> k" "k < s + b" using b by (auto simp: k_def)
  moreover have "j = k" if "s \<le> j" "j < s + b" "j mod b = x" for j
  proof -
    have "int j mod int b = int k mod int b" using that(3) \<open>k mod b = x\<close> by (simp flip: of_nat_mod)
    then have "int b dvd int j - int k" by (simp add: mod_eq_dvd_iff)
    moreover have "\<bar>int j - int k\<bar> < int b" using that(1,2) \<open>s \<le> k\<close> \<open>k < s + b\<close> by linarith
    ultimately have "int j - int k = 0" by (metis dvd_imp_le_int linorder_not_less abs_of_nat)
    then show ?thesis by simp
  qed
  ultimately show ?thesis by blast
qed

lemma residue_count:
  assumes "x < b"
  shows "card {k :: nat. s \<le> k \<and> k < s + q * b \<and> k mod b = x} = q"
proof (induction q)
  case (Suc q)
  obtain k where k: "{k. s + q * b \<le> k \<and> k < s + q * b + b \<and> k mod b = x} = {k}"
    using residue_in_block [OF assms] by blast
  have "{k. s \<le> k \<and> k < s + Suc q * b \<and> k mod b = x}
      = {k. s \<le> k \<and> k < s + q * b \<and> k mod b = x} \<union> {k. s + q * b \<le> k \<and> k < s + q * b + b \<and> k mod b = x}"
    by auto
  moreover have "card \<dots> = q + 1"
  proof -
    have fin: "finite {k. s \<le> k \<and> k < s + q * b \<and> k mod b = x}" by (rule finite_subset [of _ "{..< s + q * b}"]) auto
    have "k \<notin> {k. s \<le> k \<and> k < s + q * b \<and> k mod b = x}" using k by force
    then show ?thesis unfolding k using fin Suc.IH by simp
  qed
  ultimately show ?case by simp
qed simp

lemma threshold_nat:
  assumes "bound \<noteq> 0" shows "unat ((0 - bound) mod bound :: 32 word) = 2 ^ 32 mod unat bound"
proof -
  have lt: "unat bound < 2 ^ 32" by (rule order.strict_trans2 [OF unsigned_less]) simp
  have "unat (0 - bound) = 2 ^ 32 - unat bound"
    using assms unat_sub_if' [of 0 bound] by (simp add: unsigned_eq_0_iff)
  then have "unat ((0 - bound) mod bound) = (2 ^ 32 - unat bound) mod unat bound" by (simp only: unat_mod)
  also have "\<dots> = 2 ^ 32 mod unat bound" using lt by (metis le_mod_geq less_imp_le)
  finally show ?thesis .
qed

lemma residue_words:
  assumes "bound \<noteq> 0" and "x < bound"
  shows "card {v :: 32 word. (0 - bound) mod bound \<le> v \<and> v mod bound = x} = 2 ^ 32 div unat bound"
proof -
  let ?t = "2 ^ 32 mod unat bound" and ?q = "2 ^ 32 div unat bound"
  let ?V = "{v :: 32 word. (0 - bound) mod bound \<le> v \<and> v mod bound = x}"
  have N: "?t + ?q * unat bound = 2 ^ 32" by (rule mod_div_mult_eq)
  have mem: "v \<in> ?V \<longleftrightarrow> ?t \<le> unat v \<and> unat v mod unat bound = unat x" for v
    unfolding mem_Collect_eq word_le_nat_alt threshold_nat [OF assms(1)]
    unfolding word_unat_eq_iff unat_mod by (rule refl)
  have "unat ` ?V = {k. ?t \<le> k \<and> k < ?t + ?q * unat bound \<and> k mod unat bound = unat x}"
  proof (intro set_eqI iffI)
    fix k assume "k \<in> unat ` ?V"
    then obtain v where v: "k = unat v" "v \<in> ?V" by blast
    have "unat v < 2 ^ 32" by (rule order.strict_trans2 [OF unsigned_less]) simp
    then show "k \<in> {k. ?t \<le> k \<and> k < ?t + ?q * unat bound \<and> k mod unat bound = unat x}"
      using v(2) unfolding mem v(1) N mem_Collect_eq by blast
  next
    fix k assume k: "k \<in> {k. ?t \<le> k \<and> k < ?t + ?q * unat bound \<and> k mod unat bound = unat x}"
    then have "k < 2 ^ 32" unfolding N by blast
    then have u: "unat (word_of_nat k :: 32 word) = k" by (simp add: unsigned_of_nat take_bit_eq_mod)
    then have "word_of_nat k \<in> ?V" using k unfolding mem by simp
    then show "k \<in> unat ` ?V" using u by force
  qed
  then have "card (unat ` ?V) = ?q"
    using residue_count [of "unat x" "unat bound" ?t ?q] assms(2) by (simp only: word_less_nat_alt)
  moreover have "inj_on unat ?V" by (rule inj_onI) (simp only: word_unat_eq_iff)
  ultimately show ?thesis by (simp only: card_image)
qed

section \<open>Properties\<close>

text \<open>
  C30. A seeded generator has the full period: \<open>rng_seed\<close> makes the increment odd, every
  \<open>rng_next_u32\<close> keeps it, the state recurs exactly after a multiple of \<open>2 ^ 64\<close> calls, and
  every 64-bit value is reached as a state.
\<close>

theorem rng_full_period:
  "odd (rng_inc (rng_seed r0 seed seq))
   \<and> rng_inc ((rng_step ^^ n) (rng_seed r0 seed seq)) = push_bit 1 seq OR 1
   \<and> (rng_state ((rng_step ^^ n) (rng_seed r0 seed seq)) = rng_state (rng_seed r0 seed seq)) = (2 ^ 64 dvd n)
   \<and> (\<exists>k < 2 ^ 64. rng_state ((rng_step ^^ k) (rng_seed r0 seed seq)) = s)"
proof (intro conjI)
  show "rng_inc ((rng_step ^^ n) (rng_seed r0 seed seq)) = push_bit 1 seq OR 1"
    unfolding rng_steps_inc by (simp add: rng_seed_def Let_def flip: rng_step_def)
qed (rule rng_seed_odd rng_recurs [OF rng_seed_odd] rng_states_surj [OF rng_seed_odd])+

text \<open>
  C29. \<open>rng_range_u32\<close> terminates and is unbiased: the loop ends within \<open>2 ^ 64\<close> draws with the
  first output that is at least the threshold, the result is its residue, below the bound, and
  every residue is the result of the same number of acceptable outputs. A bound of 0 gives 0 and
  draws nothing.
\<close>

theorem rng_range_u32_uniform:
  assumes "odd (rng_inc r)" and "bound \<noteq> 0" and "x < bound"
  shows "(\<exists>m v. m < 2 ^ 64 \<and> v = fst (rng_next_u32 ((rng_step ^^ m) r))
          \<and> rng_range_u32 r bound = Some (v mod bound, (rng_step ^^ Suc m) r)
          \<and> v mod bound < bound \<and> (0 - bound) mod bound \<le> v
          \<and> (\<forall>j. j < m \<longrightarrow> fst (rng_next_u32 ((rng_step ^^ j) r)) < (0 - bound) mod bound))
       \<and> card {v. (0 - bound) mod bound \<le> v \<and> v mod bound = x} = 2 ^ 32 div unat bound
       \<and> rng_range_u32 r 0 = Some (0, r)"
proof (intro conjI)
  obtain m where m: "range_loop r bound ((0 - bound) mod bound) =
        Some (fst (rng_next_u32 ((rng_step ^^ m) r)) mod bound, (rng_step ^^ Suc m) r)"
      "fst (rng_next_u32 ((rng_step ^^ m) r)) \<ge> (0 - bound) mod bound"
      "\<forall>j < m. fst (rng_next_u32 ((rng_step ^^ j) r)) < (0 - bound) mod bound" "m < 2 ^ 64"
    using range_loop_total [OF assms(1)] by blast
  have "fst (rng_next_u32 ((rng_step ^^ m) r)) mod bound < bound"
    using assms(2) by (simp add: word_less_nat_alt unat_mod unat_gt_0)
  then show "\<exists>m v. m < 2 ^ 64 \<and> v = fst (rng_next_u32 ((rng_step ^^ m) r))
          \<and> rng_range_u32 r bound = Some (v mod bound, (rng_step ^^ Suc m) r)
          \<and> v mod bound < bound \<and> (0 - bound) mod bound \<le> v
          \<and> (\<forall>j. j < m \<longrightarrow> fst (rng_next_u32 ((rng_step ^^ j) r)) < (0 - bound) mod bound)"
    using m assms(2) unfolding rng_range_u32_def Let_def
    by (intro exI [of _ m] exI [of _ "fst (rng_next_u32 ((rng_step ^^ m) r))"]) (simp only: if_False)
qed (use residue_words [OF assms(2,3)] in \<open>simp_all add: rng_range_u32_def\<close>)

theorem rng_range_u32_uniform_witness:
  "(\<exists>m v. rng_range_u32 (rng_seed \<lparr>rng_state = 0, rng_inc = 0\<rparr> 42 54) 6 = Some (v mod 6, (rng_step ^^ Suc m) (rng_seed \<lparr>rng_state = 0, rng_inc = 0\<rparr> 42 54)))
   \<and> card {v :: 32 word. (0 - 6) mod 6 \<le> v \<and> v mod 6 = 3} = 2 ^ 32 div unat (6 :: 32 word)"
  using rng_range_u32_uniform [OF rng_seed_odd, of 6 3 "\<lparr>rng_state = 0, rng_inc = 0\<rparr>" 42 54] by auto

end
