(* ===== verification/RngFloat.thy ===== *)
theory RngFloat
  imports Rng Ieee
begin

text \<open>
  The floating-point draws of \<open>src/math/rng.c\<close> on top of theory Rng. \<open>logf\<close> is the C library's.
\<close>

definition rng_next_float :: "rng \<Rightarrow> f32 \<times> rng" where
  "rng_next_float r =
     (let (v, r') = rng_next_u32 r
      in (f32_of_nat (unat (drop_bit 8 v)) * (lit32 1 / lit32 16777216), r'))"

definition rng_range_float :: "rng \<Rightarrow> f32 \<Rightarrow> f32 \<Rightarrow> f32 \<times> rng" where
  "rng_range_float r lo hi = (let (f, r') = rng_next_float r in (lo + (hi - lo) * f, r'))"

partial_function (option) rng_normal :: "(f32 \<Rightarrow> f32) \<Rightarrow> rng \<Rightarrow> (f32 \<times> rng) option" where
  "rng_normal logf r =
     (case rng_next_float r of (fu, r1) \<Rightarrow>
      case rng_next_float r1 of (fv, r2) \<Rightarrow>
        let u = lit32 2 * fu - lit32 1; v = lit32 2 * fv - lit32 1; s = u * u + v * v
        in if lit32 0 < s \<and> s < lit32 1 then Some (u * sqrtf (lit32 (- 2) * logf s / s), r2)
           else rng_normal logf r2)"

lemma fround_exact: "exact32 q \<Longrightarrow> fround binary32 neg \<bar>q\<bar> = FFin neg \<bar>q\<bar>"
  by (simp add: exact32_def fround_def)

lemma lit32_exact: "exact32 q \<Longrightarrow> lit32 q = F32 (FFin (q < 0) \<bar>q\<bar>)"
  by (simp add: lit32_def fl_of_rat_def fround_exact)

lemma exact32_nat: "n < 2 ^ 24 \<Longrightarrow> exact32 (of_nat n)"
  using exact32_nat_pow2 [of n 0] by (simp add: pow2_def)

lemma unat_high_bits: "unat (drop_bit 8 (v :: 32 word)) = unat v div 256"
proof -
  have "take_bit 32 (unat v) = unat v" by (rule take_bit_nat_eq_self, rule order.strict_trans2 [OF unsigned_less]) simp
  then show ?thesis unfolding unsigned_drop_bit_eq by (simp add: drop_bit_eq_div)
qed

lemma next_float_value:
  "\<exists>k. k < 2 ^ 24 \<and> k = unat (drop_bit 8 (fst (rng_next_u32 r)))
     \<and> rng_next_float r = (F32 (FFin False (of_nat k / 2 ^ 24)), snd (rng_next_u32 r))"
proof -
  obtain v r' where vr: "rng_next_u32 r = (v, r')" by fastforce
  define k where "k = unat (drop_bit 8 v)"
  have "unat v < 2 ^ 32" by (rule order.strict_trans2 [OF unsigned_less]) simp
  then have k: "k < 2 ^ 24" by (simp add: k_def unat_high_bits)
  have e: "pow2 (- 24) = 1 / 16777216" "pow2 24 = 16777216" by (simp_all add: pow2_def)
  have c1: "lit32 1 = F32 (FFin False 1)" using lit32_exact [OF exact32_nat [of 1]] by simp
  have "exact32 16777216" using exact32_nat_pow2 [of 1 24] e(2) by simp
  then have c2: "lit32 16777216 = F32 (FFin False 16777216)" using lit32_exact [of 16777216] by simp
  have "exact32 (1 / 16777216)" using exact32_nat_pow2 [of 1 "- 24"] e(1) by simp
  then have c3: "lit32 1 / lit32 16777216 = F32 (FFin False (1 / 16777216))"
    using fround_exact [of "1 / 16777216" False] by (simp add: c1 c2 divide_f32_def)
  have n: "f32_of_nat k = F32 (FFin False (of_nat k))"
    using lit32_exact [OF exact32_nat [OF k]] by (simp add: f32_of_nat_def)
  have "exact32 (of_nat k * (1 / 16777216))" using exact32_nat_pow2 [OF k, of "- 24"] e(1) by simp
  from fround_exact [OF this, of False]
  have "f32_of_nat k * (lit32 1 / lit32 16777216) = F32 (FFin False (of_nat k / 2 ^ 24))"
    unfolding c3 n by (simp add: times_f32_def)
  moreover have "rng_next_float r = (f32_of_nat k * (lit32 1 / lit32 16777216), r')"
    by (simp add: rng_next_float_def vr k_def)
  moreover have "k = unat (drop_bit 8 (fst (rng_next_u32 r)))" by (simp add: vr k_def)
  ultimately show ?thesis using k by (intro exI [of _ k]) (simp add: vr)
qed

lemma drop_bit_class: "k < 2 ^ 24 \<Longrightarrow> card {v :: 32 word. unat (drop_bit 8 v) = k} = 256"
proof -
  assume k: "k < 2 ^ 24"
  have "unat ` {v :: 32 word. unat (drop_bit 8 v) = k} = {256 * k ..< 256 * k + 256}"
  proof (intro set_eqI iffI)
    fix n assume "n \<in> unat ` {v :: 32 word. unat (drop_bit 8 v) = k}"
    then obtain v :: "32 word" where "n = unat v" "unat v div 256 = k"
      by (auto simp: unat_high_bits)
    then show "n \<in> {256 * k ..< 256 * k + 256}" by auto
  next
    fix n assume n: "n \<in> {256 * k ..< 256 * k + 256}"
    then have "n < 2 ^ 32" using k by auto
    then have u: "unat (word_of_nat n :: 32 word) = n" by (simp add: unsigned_of_nat take_bit_eq_mod)
    have "n div 256 = k" using n by auto
    then have "word_of_nat n \<in> {v :: 32 word. unat (drop_bit 8 v) = k}"
      by (simp add: unat_high_bits u)
    then show "n \<in> unat ` {v :: 32 word. unat (drop_bit 8 v) = k}" using u by force
  qed
  moreover have "inj_on unat {v :: 32 word. unat (drop_bit 8 v) = k}" by (rule inj_onI) (simp only: word_unat_eq_iff)
  then have "card (unat ` {v :: 32 word. unat (drop_bit 8 v) = k}) = card {v :: 32 word. unat (drop_bit 8 v) = k}"
    by (rule card_image)
  ultimately show ?thesis by (simp only: card_atLeastLessThan)
qed

text \<open>
  \<open>rng_next_float\<close> is exact and uniform: neither the conversion nor the multiplication rounds,
  the result is \<open>k / 2 ^ 24\<close> for the 24 high bits \<open>k\<close> of one 32-bit output, so it lies in
  \<open>[0, 1)\<close>, and each of the \<open>2 ^ 24\<close> values belongs to the same number of outputs.
\<close>

theorem rng_next_float_uniform:
  "\<exists>k. rng_next_float r = (F32 (FFin False (of_nat k / 2 ^ 24)), snd (rng_next_u32 r))
     \<and> k = unat (drop_bit 8 (fst (rng_next_u32 r)))
     \<and> (0 :: rat) \<le> of_nat k / 2 ^ 24 \<and> of_nat k / 2 ^ 24 < (1 :: rat)
     \<and> card {v :: 32 word. unat (drop_bit 8 v) = k} = 256"
proof -
  obtain k where k: "k < 2 ^ 24" "k = unat (drop_bit 8 (fst (rng_next_u32 r)))"
    "rng_next_float r = (F32 (FFin False (of_nat k / 2 ^ 24)), snd (rng_next_u32 r))"
    using next_float_value by blast
  have "(of_nat k :: rat) < of_nat (2 ^ 24)" using k(1) by (simp only: of_nat_less_iff)
  then have "of_nat k / 2 ^ 24 < (1 :: rat)" by simp
  then show ?thesis using k(2,3) drop_bit_class [OF k(1)] of_nat_0_le_iff [of k, where ?'a = rat]
    by (intro exI [of _ k]) (simp only: divide_nonneg_nonneg, simp)
qed

text \<open>The half-open range of \<open>rng_range_float\<close> is not: the last draw rounds up to \<open>hi\<close>.\<close>

lemma range_float_reaches_hi:
  "rng_state r = 0x07fffe0000000000 \<Longrightarrow> fst (rng_range_float r (lit32 1) (lit32 2)) = lit32 2"
proof -
  assume "rng_state r = 0x07fffe0000000000"
  then have m: "fst (rng_next_u32 r) = - 1" by (rule rng_max_output)
  have "unat (drop_bit 8 (- 1 :: 32 word)) = 16777215" unfolding unat_high_bits
    by (simp add: unsigned_minus_1_eq_mask mask_eq_exp_minus_1)
  then have "fst (rng_next_float r) = F32 (FFin False (16777215 / 2 ^ 24))" using next_float_value [of r] m by auto
  then have "fst (rng_range_float r (lit32 1) (lit32 2)) = lit32 1 + (lit32 2 - lit32 1) * F32 (FFin False (16777215 / 2 ^ 24))"
    by (cases "rng_next_float r") (simp add: rng_range_float_def)
  also have "\<dots> = lit32 2"
  proof -
    have l: "lit32 1 = F32 (FFin False 1)" "lit32 2 = F32 (FFin False 2)"
      using lit32_exact [OF exact32_nat [of 1]] lit32_exact [OF exact32_nat [of 2]] by simp_all
    have one: "fround binary32 False 1 = FFin False 1" using fround_exact [OF exact32_nat [of 1], of False] by simp
    have "exact32 (of_nat 16777215 * pow2 (- 24))" by (rule exact32_nat_pow2) simp_all
    then have "exact32 (16777215 / 16777216)" by (simp add: pow2_def)
    then have f: "fround binary32 False (16777215 / 16777216) = FFin False (16777215 / 16777216)"
      using fround_exact [of "16777215 / 16777216" False] by simp
    have il: "ilog2 (33554431 / 16777216) = 0" by (rule ilog2_eq) (simp_all add: pow2_def)
    have "(33554431 / 16777216 :: rat) / pow2 (- 23) = 33554431 / 2" by (simp add: pow2_def)
    moreover have "\<lfloor>33554431 / 2 :: rat\<rfloor> = 16777215" by (rule floor_unique) simp_all
    then have "round_even (33554431 / 2) = 16777216" by (simp add: round_even_def Let_def)
    ultimately have "round_mag binary32 (33554431 / 16777216) = Some 2"
      by (simp add: round_mag_def binary32_def il Let_def) (simp add: pow2_def)
    then have s: "fround binary32 False (33554431 / 16777216) = FFin False 2" by (simp add: fround_def)
    show ?thesis by (simp add: l plus_f32_def minus_f32_def times_f32_def signed_def one f s)
  qed
  finally show ?thesis .
qed

end
