(* ===== verification/Loops.thy ===== *)
theory Loops
  imports Prelude
begin

text \<open>
  Counting loops whose body may be undefined, shared by the numeric components, and the loop rule
  their proofs use.
\<close>

text \<open>A loop over a list of index values.\<close>

primrec for_each :: "'i list \<Rightarrow> ('i \<Rightarrow> 's \<Rightarrow> 's ub) \<Rightarrow> 's \<Rightarrow> 's ub" where
  "for_each [] body s = Some s"
| "for_each (i # is) body s = (case body i s of None \<Rightarrow> None | Some s' \<Rightarrow> for_each is body s')"

lemma for_each_append [simp]:
  "for_each (xs @ ys) body s = (case for_each xs body s of None \<Rightarrow> None | Some t \<Rightarrow> for_each ys body t)"
  by (induction xs arbitrary: s) (auto split: option.splits)

lemma for_each_map: "for_each (map g xs) body = for_each xs (\<lambda>x. body (g x))"
proof (rule ext)
  show "for_each (map g xs) body s = for_each xs (\<lambda>x. body (g x)) s" for s
    by (induction xs arbitrary: s) (auto split: option.splits)
qed

lemma for_each_single: "for_each [x] body = body x"
  by (rule ext) (simp split: option.splits)

lemma for_each_cong: "(\<And>i s. i \<in> set xs \<Longrightarrow> f i s = g i s) \<Longrightarrow> for_each xs f s = for_each xs g s"
  by (induction xs arbitrary: s) (auto split: option.splits)

text \<open>The rule of a loop with the invariant \<open>P\<close>.\<close>

lemma for_each_invariant:
  assumes "P a s" and "a \<le> b" and "\<And>i t. a \<le> i \<Longrightarrow> i < b \<Longrightarrow> P i t \<Longrightarrow> \<exists>t'. body i t = Some t' \<and> P (Suc i) t'"
  shows "\<exists>t. for_each [a ..< b] body s = Some t \<and> P b t"
  using assms(2,1,3)
proof (induction b rule: dec_induct)
  case (step b)
  then obtain t where t: "for_each [a ..< b] body s = Some t" "P b t" by (metis less_SucI)
  then obtain t' where "body b t = Some t'" "P (Suc b) t'" using step by (meson lessI)
  then show ?case using t step(1) by simp
qed simp

lemma for_each_total:
  assumes "\<And>i t. i \<in> set xs \<Longrightarrow> body i t = Some (f i t)"
  shows "for_each xs body s = Some (foldl (\<lambda>t i. f i t) s xs)"
  using assms by (induction xs arbitrary: s) simp_all

text \<open>Element \<open>i\<close> of an array of \<open>n\<close> elements; outside it is undefined.\<close>

definition elt :: "'a list \<Rightarrow> nat \<Rightarrow> 'a ub" where
  "elt xs i = (if i < length xs then Some (xs ! i) else None)"

lemma elt_Some [simp]: "i < length xs \<Longrightarrow> elt xs i = Some (xs ! i)"
  by (simp add: elt_def)

text \<open>A loop that overwrites element \<open>i\<close> in turn \<open>i\<close>, and one that appends it.\<close>

lemma for_each_update:
  assumes "n \<le> length ys" and "\<And>i zs. i < n \<Longrightarrow> length zs = length ys \<Longrightarrow> zs ! i = ys ! i \<Longrightarrow> body i zs = Some (zs[i := g i])"
  shows "for_each [0 ..< n] body ys = Some (map g [0 ..< n] @ drop n ys)"
  using assms
proof (induction n)
  case (Suc n)
  then have n: "n < length ys" by simp
  then have d: "drop n ys = ys ! n # drop (Suc n) ys" by (simp add: Cons_nth_drop_Suc)
  have "for_each [0 ..< n] body ys = Some (map g [0 ..< n] @ drop n ys)" by (rule Suc.IH) (use Suc.prems in auto)
  moreover have "body n (map g [0 ..< n] @ drop n ys) = Some ((map g [0 ..< n] @ drop n ys)[n := g n])"
    using n by (intro Suc.prems(2)) (simp_all add: nth_append)
  ultimately show ?case using n by (simp add: d list_update_append)
qed simp

lemma for_each_collect:
  assumes "\<And>i ys. i < n \<Longrightarrow> body i ys = Some (ys @ [g i])"
  shows "for_each [0 ..< n] body [] = Some (map g [0 ..< n])"
  using assms by (induction n) simp_all

end
