(* ===== verification/Matx.thy ===== *)
theory Matx
  imports Loops Ieee Arena RngFloat
begin

text \<open>
  Dynamic matrices of \<open>src/math/matx.c\<close>. A matrix structure holds the address of its data (0 for
  \<open>NULL\<close>) and the memory maps an address to the elements stored there, so that matrices may share
  their data. The element type is a parameter; the code is the instance \<open>f32\<close>. Sizes and indices
  are computed in \<open>size_t\<close>; \<open>None\<close> is an access outside a block, or a loop that does not end.
\<close>

section \<open>Data, memory and loops\<close>

type_synonym 'a mem = "u64 \<Rightarrow> 'a list"

record matx =
  mx_data :: u64
  mx_rows :: size_t
  mx_cols :: size_t
  mx_owns :: int

definition rd :: "'a mem \<Rightarrow> u64 \<Rightarrow> nat \<Rightarrow> 'a ub" where
  "rd h p i = (if i < length (h p) then Some (h p ! i) else None)"

definition wr :: "'a mem \<Rightarrow> u64 \<Rightarrow> nat \<Rightarrow> 'a \<Rightarrow> 'a mem ub" where
  "wr h p i v = (if i < length (h p) then Some (h(p := (h p)[i := v])) else None)"

text \<open>A loop that advances by \<open>block\<close> in \<open>size_t\<close>.\<close>

partial_function (option) tile_loop ::
  "size_t \<Rightarrow> size_t \<Rightarrow> (size_t \<Rightarrow> 's \<Rightarrow> 's option) \<Rightarrow> size_t \<Rightarrow> 's \<Rightarrow> 's option" where
  "tile_loop n block body ii s =
     (if ii < n then (case body ii s of None \<Rightarrow> None | Some s' \<Rightarrow> tile_loop n block body (ii + block) s')
      else Some s)"

definition tile_end :: "size_t \<Rightarrow> size_t \<Rightarrow> size_t \<Rightarrow> size_t" where
  "tile_end ii block n = (if ii + block < n then ii + block else n)"

definition mx_index :: "matx \<Rightarrow> nat \<Rightarrow> nat \<Rightarrow> nat" where
  "mx_index m r c = unat (word_of_nat r * mx_cols m + word_of_nat c)"

definition mx_count :: "matx \<Rightarrow> nat" where
  "mx_count m = unat (mx_rows m * mx_cols m)"

definition matx_get :: "'a mem \<Rightarrow> matx \<Rightarrow> nat \<Rightarrow> nat \<Rightarrow> 'a ub" where
  "matx_get h m r c = rd h (mx_data m) (mx_index m r c)"

definition matx_set :: "'a mem \<Rightarrow> matx \<Rightarrow> nat \<Rightarrow> nat \<Rightarrow> 'a \<Rightarrow> 'a mem ub" where
  "matx_set h m r c v = wr h (mx_data m) (mx_index m r c) v"

section \<open>Creation and destruction\<close>

definition checked_count :: "size_t \<Rightarrow> size_t \<Rightarrow> error_code \<times> size_t" where
  "checked_count rows cols =
     (if rows = 0 \<or> cols = 0 then (ERR_INVALID_ARG, 0)
      else if rows > SIZE_MAX div cols then (ERR_OVERFLOW, 0)
      else if rows * cols > SIZE_MAX div 4 then (ERR_OVERFLOW, 0)
      else (ERR_OK, rows * cols))"

text \<open>\<open>p\<close> is the address \<open>calloc\<close> answers, 0 when it fails.\<close>

definition matx_init :: "u64 \<Rightarrow> 'a::zero mem \<Rightarrow> matx option \<Rightarrow> size_t \<Rightarrow> size_t \<Rightarrow> error_code \<times> 'a mem \<times> matx option" where
  "matx_init p h mp rows cols =
     (case mp of
        None \<Rightarrow> (ERR_INVALID_ARG, h, None)
      | Some m \<Rightarrow>
          (case checked_count rows cols of
             (ERR_OK, count) \<Rightarrow>
               if p = 0 then (ERR_NOMEM, h, Some (m\<lparr>mx_data := 0\<rparr>))
               else (ERR_OK, h(p := replicate (unat count) 0),
                     Some \<lparr>mx_data = p, mx_rows = rows, mx_cols = cols, mx_owns = 1\<rparr>)
           | (err, _) \<Rightarrow> (err, h, mp)))"

definition matx_init_arena :: "'a::zero mem \<Rightarrow> matx option \<Rightarrow> arena option \<Rightarrow> size_t \<Rightarrow> size_t
    \<Rightarrow> error_code \<times> 'a mem \<times> matx option \<times> arena option" where
  "matx_init_arena h mp ap rows cols =
     (case (mp, ap) of
        (Some m, Some a) \<Rightarrow>
          (case checked_count rows cols of
             (ERR_OK, count) \<Rightarrow>
               (case arena_alloc ap (count * 4) 4 of
                  (p, ap') \<Rightarrow>
                    if p = 0 then (ERR_NOMEM, h, Some (m\<lparr>mx_data := 0\<rparr>), ap')
                    else (ERR_OK, h(p := replicate (unat count) 0),
                      Some \<lparr>mx_data = p, mx_rows = rows, mx_cols = cols, mx_owns = 0\<rparr>, ap'))
           | (err, _) \<Rightarrow> (err, h, mp, ap))
      | _ \<Rightarrow> (ERR_INVALID_ARG, h, mp, ap))"

definition matx_destroy :: "'a mem \<Rightarrow> matx option \<Rightarrow> 'a mem \<times> matx option" where
  "matx_destroy h mp =
     (case mp of
        None \<Rightarrow> (h, None)
      | Some m \<Rightarrow> ((if mx_owns m \<noteq> 0 then h(mx_data m := []) else h),
          Some \<lparr>mx_data = 0, mx_rows = 0, mx_cols = 0, mx_owns = 0\<rparr>))"

section \<open>Element-wise operations\<close>

text \<open>A null matrix is \<open>None\<close>. The operations return the memory; the structures do not change.\<close>

definition has_data :: "matx option \<Rightarrow> bool" where
  "has_data mp \<longleftrightarrow> (case mp of None \<Rightarrow> False | Some m \<Rightarrow> mx_data m \<noteq> 0)"

definition same_shape :: "matx \<Rightarrow> matx \<Rightarrow> bool" where
  "same_shape a b \<longleftrightarrow> mx_rows a = mx_rows b \<and> mx_cols a = mx_cols b"

definition matx_fill :: "'a mem \<Rightarrow> matx option \<Rightarrow> 'a \<Rightarrow> (error_code \<times> 'a mem) ub" where
  "matx_fill h mp v =
     (if \<not> has_data mp then Some (ERR_INVALID_ARG, h)
      else let m = the mp in
        do { h' \<leftarrow> for_each [0 ..< mx_count m] (\<lambda>i h. wr h (mx_data m) i v) h; Some (ERR_OK, h') })"

definition matx_random_uniform :: "f32 mem \<Rightarrow> matx option \<Rightarrow> rng option \<Rightarrow> f32 \<Rightarrow> f32
    \<Rightarrow> (error_code \<times> f32 mem \<times> rng option) ub" where
  "matx_random_uniform h mp rp lo hi =
     (if \<not> has_data mp \<or> rp = None then Some (ERR_INVALID_ARG, h, rp)
      else let m = the mp in
        do { (h', r') \<leftarrow> for_each [0 ..< mx_count m]
               (\<lambda>i (h, r). let (v, r1) = rng_range_float r lo hi in map_option (\<lambda>h1. (h1, r1)) (wr h (mx_data m) i v))
               (h, the rp);
             Some (ERR_OK, h', Some r') })"

definition check_elementwise :: "matx option \<Rightarrow> matx option \<Rightarrow> matx option \<Rightarrow> error_code" where
  "check_elementwise a b out =
     (if \<not> has_data a \<or> \<not> has_data b \<or> \<not> has_data out then ERR_INVALID_ARG
      else if \<not> same_shape (the a) (the b) then ERR_INVALID_ARG
      else if \<not> same_shape (the out) (the a) then ERR_INVALID_ARG
      else ERR_OK)"

text \<open>The loop of the three binary operations.\<close>

definition zip_loop :: "('a \<Rightarrow> 'a \<Rightarrow> 'a) \<Rightarrow> 'a mem \<Rightarrow> matx \<Rightarrow> matx \<Rightarrow> matx \<Rightarrow> 'a mem ub" where
  "zip_loop f h a b out =
     for_each [0 ..< mx_count a]
       (\<lambda>i h. do { x \<leftarrow> rd h (mx_data a) i; y \<leftarrow> rd h (mx_data b) i; wr h (mx_data out) i (f x y) }) h"

definition matx_add :: "'a::plus mem \<Rightarrow> matx option \<Rightarrow> matx option \<Rightarrow> matx option \<Rightarrow> (error_code \<times> 'a mem) ub" where
  "matx_add h a b out =
     (if check_elementwise a b out \<noteq> ERR_OK then Some (check_elementwise a b out, h)
      else do { h' \<leftarrow> zip_loop (\<lambda>x y. x + y) h (the a) (the b) (the out); Some (ERR_OK, h') })"

definition matx_sub :: "'a::minus mem \<Rightarrow> matx option \<Rightarrow> matx option \<Rightarrow> matx option \<Rightarrow> (error_code \<times> 'a mem) ub" where
  "matx_sub h a b out =
     (if check_elementwise a b out \<noteq> ERR_OK then Some (check_elementwise a b out, h)
      else do { h' \<leftarrow> zip_loop (\<lambda>x y. x - y) h (the a) (the b) (the out); Some (ERR_OK, h') })"

definition matx_hadamard :: "'a::times mem \<Rightarrow> matx option \<Rightarrow> matx option \<Rightarrow> matx option \<Rightarrow> (error_code \<times> 'a mem) ub" where
  "matx_hadamard h a b out =
     (if check_elementwise a b out \<noteq> ERR_OK then Some (check_elementwise a b out, h)
      else do { h' \<leftarrow> zip_loop (\<lambda>x y. x * y) h (the a) (the b) (the out); Some (ERR_OK, h') })"

definition map_loop :: "('a \<Rightarrow> 'a) \<Rightarrow> 'a mem \<Rightarrow> matx \<Rightarrow> matx \<Rightarrow> 'a mem ub" where
  "map_loop f h a out =
     for_each [0 ..< mx_count a] (\<lambda>i h. do { x \<leftarrow> rd h (mx_data a) i; wr h (mx_data out) i (f x) }) h"

definition matx_scale :: "'a::times mem \<Rightarrow> matx option \<Rightarrow> 'a \<Rightarrow> matx option \<Rightarrow> (error_code \<times> 'a mem) ub" where
  "matx_scale h a s out =
     (if \<not> has_data a \<or> \<not> has_data out then Some (ERR_INVALID_ARG, h)
      else if \<not> same_shape (the out) (the a) then Some (ERR_INVALID_ARG, h)
      else do { h' \<leftarrow> map_loop (\<lambda>x. x * s) h (the a) (the out); Some (ERR_OK, h') })"

definition matx_map :: "'a mem \<Rightarrow> matx option \<Rightarrow> ('a \<Rightarrow> 'a) option \<Rightarrow> matx option \<Rightarrow> (error_code \<times> 'a mem) ub" where
  "matx_map h a fn out =
     (if \<not> has_data a \<or> fn = None \<or> \<not> has_data out then Some (ERR_INVALID_ARG, h)
      else if \<not> same_shape (the out) (the a) then Some (ERR_INVALID_ARG, h)
      else do { h' \<leftarrow> map_loop (the fn) h (the a) (the out); Some (ERR_OK, h') })"

section \<open>Rows, columns and products\<close>

definition matx_add_row :: "'a::plus mem \<Rightarrow> matx option \<Rightarrow> matx option \<Rightarrow> matx option \<Rightarrow> (error_code \<times> 'a mem) ub" where
  "matx_add_row h ap rowp outp =
     (if \<not> has_data ap \<or> \<not> has_data rowp \<or> \<not> has_data outp then Some (ERR_INVALID_ARG, h)
      else let a = the ap; row = the rowp; out = the outp in
        if mx_rows row \<noteq> 1 \<or> mx_cols row \<noteq> mx_cols a then Some (ERR_INVALID_ARG, h)
        else if \<not> same_shape out a then Some (ERR_INVALID_ARG, h)
        else do { h' \<leftarrow> for_each [0 ..< unat (mx_rows a)] (\<lambda>r. for_each [0 ..< unat (mx_cols a)] (\<lambda>c h.
                    do { x \<leftarrow> rd h (mx_data a) (mx_index a r c); y \<leftarrow> rd h (mx_data row) c;
                         wr h (mx_data out) (mx_index a r c) (x + y) })) h;
                  Some (ERR_OK, h') })"

definition matx_col_sums :: "'a::{zero,plus} mem \<Rightarrow> matx option \<Rightarrow> matx option \<Rightarrow> (error_code \<times> 'a mem) ub" where
  "matx_col_sums h ap outp =
     (if \<not> has_data ap \<or> \<not> has_data outp then Some (ERR_INVALID_ARG, h)
      else let a = the ap; out = the outp in
        if mx_rows out \<noteq> 1 \<or> mx_cols out \<noteq> mx_cols a \<or> mx_data out = mx_data a then Some (ERR_INVALID_ARG, h)
        else do { h0 \<leftarrow> for_each [0 ..< unat (mx_cols a)] (\<lambda>c h. wr h (mx_data out) c 0) h;
                  h' \<leftarrow> for_each [0 ..< unat (mx_rows a)] (\<lambda>r. for_each [0 ..< unat (mx_cols a)] (\<lambda>c h.
                    do { s \<leftarrow> rd h (mx_data out) c; x \<leftarrow> rd h (mx_data a) (mx_index a r c);
                         wr h (mx_data out) c (s + x) })) h0;
                  Some (ERR_OK, h') })"

definition matx_row_argmax :: "'a::ord mem \<Rightarrow> matx option \<Rightarrow> size_t \<Rightarrow> bool \<Rightarrow> (error_code \<times> nat option) ub" where
  "matx_row_argmax h ap r out_col =
     (if \<not> has_data ap \<or> r \<ge> mx_rows (the ap) \<or> \<not> out_col then Some (ERR_INVALID_ARG, None)
      else let a = the ap in
        do { best \<leftarrow> for_each [1 ..< unat (mx_cols a)] (\<lambda>c best.
               do { x \<leftarrow> matx_get h a (unat r) c; y \<leftarrow> matx_get h a (unat r) best;
                    Some (if x > y then c else best) }) 0;
             Some (ERR_OK, Some best) })"

definition check_mul :: "matx option \<Rightarrow> matx option \<Rightarrow> matx option \<Rightarrow> error_code" where
  "check_mul ap bp outp =
     (if \<not> has_data ap \<or> \<not> has_data bp \<or> \<not> has_data outp then ERR_INVALID_ARG
      else let a = the ap; b = the bp; out = the outp in
        if mx_cols a \<noteq> mx_rows b then ERR_INVALID_ARG
        else if mx_rows out \<noteq> mx_rows a \<or> mx_cols out \<noteq> mx_cols b then ERR_INVALID_ARG
        else if mx_data out = mx_data a \<or> mx_data out = mx_data b then ERR_INVALID_ARG
        else ERR_OK)"

text \<open>\<open>memset\<close> of the whole matrix to zero.\<close>

definition zero_data :: "'a::zero mem \<Rightarrow> matx \<Rightarrow> 'a mem ub" where
  "zero_data h m = for_each [0 ..< mx_count m] (\<lambda>i h. wr h (mx_data m) i 0) h"

text \<open>The innermost loop of both products: row \<open>i\<close> of the result gets \<open>a(i, k)\<close> times row \<open>k\<close> of \<open>b\<close>.\<close>

definition mul_row :: "matx \<Rightarrow> matx \<Rightarrow> matx \<Rightarrow> nat list \<Rightarrow> nat \<Rightarrow> nat \<Rightarrow> 'a::{plus,times} mem \<Rightarrow> 'a mem ub" where
  "mul_row a b out js i k h =
     do { aik \<leftarrow> matx_get h a i k;
          for_each js (\<lambda>j h.
            do { s \<leftarrow> rd h (mx_data out) (mx_index out i j); x \<leftarrow> rd h (mx_data b) (mx_index b k j);
                 wr h (mx_data out) (mx_index out i j) (s + aik * x) }) h }"

definition matx_mul :: "'a::{zero,plus,times} mem \<Rightarrow> matx option \<Rightarrow> matx option \<Rightarrow> matx option \<Rightarrow> (error_code \<times> 'a mem) ub" where
  "matx_mul h ap bp outp =
     (if check_mul ap bp outp \<noteq> ERR_OK then Some (check_mul ap bp outp, h)
      else let a = the ap; b = the bp; out = the outp in
        do { h0 \<leftarrow> zero_data h out;
             h' \<leftarrow> for_each [0 ..< unat (mx_rows a)] (\<lambda>i. for_each [0 ..< unat (mx_cols a)] (\<lambda>k.
                     mul_row a b out [0 ..< unat (mx_cols b)] i k)) h0;
             Some (ERR_OK, h') })"

definition matx_mul_blocked ::
  "'a::{zero,plus,times} mem \<Rightarrow> matx option \<Rightarrow> matx option \<Rightarrow> matx option \<Rightarrow> size_t \<Rightarrow> (error_code \<times> 'a mem) ub" where
  "matx_mul_blocked h ap bp outp block =
     (if check_mul ap bp outp \<noteq> ERR_OK then Some (check_mul ap bp outp, h)
      else let a = the ap; b = the bp; out = the outp; block = (if block = 0 then 32 else block) in
        do { h0 \<leftarrow> zero_data h out;
             h' \<leftarrow> tile_loop (mx_rows a) block (\<lambda>ii.
                    tile_loop (mx_cols a) block (\<lambda>kk.
                     tile_loop (mx_cols b) block (\<lambda>jj.
                      for_each [unat ii ..< unat (tile_end ii block (mx_rows a))] (\<lambda>i.
                       for_each [unat kk ..< unat (tile_end kk block (mx_cols a))] (\<lambda>k.
                        mul_row a b out [unat jj ..< unat (tile_end jj block (mx_cols b))] i k))) 0) 0) 0 h0;
             Some (ERR_OK, h') })"

definition matx_transpose :: "'a mem \<Rightarrow> matx option \<Rightarrow> matx option \<Rightarrow> (error_code \<times> 'a mem) ub" where
  "matx_transpose h ap outp =
     (if \<not> has_data ap \<or> \<not> has_data outp then Some (ERR_INVALID_ARG, h)
      else let a = the ap; out = the outp in
        if mx_rows out \<noteq> mx_cols a \<or> mx_cols out \<noteq> mx_rows a then Some (ERR_INVALID_ARG, h)
        else if mx_data out = mx_data a then Some (ERR_INVALID_ARG, h)
        else do { h' \<leftarrow> for_each [0 ..< unat (mx_rows a)] (\<lambda>r. for_each [0 ..< unat (mx_cols a)] (\<lambda>c h.
                    do { x \<leftarrow> matx_get h a r c; matx_set h out c r x })) h;
                  Some (ERR_OK, h') })"

section \<open>Loops and indices\<close>

text \<open>A loop that writes element \<open>i\<close> of one block in turn \<open>i\<close>.\<close>

lemma for_each_write:
  assumes "n \<le> length (h p)"
    and "\<And>m d. m < n \<Longrightarrow> length d = length (h p) \<Longrightarrow> drop m d = drop m (h p) \<Longrightarrow> body m (h(p := d)) = Some (h(p := d[m := g m]))"
  shows "for_each [0 ..< n] body h = Some (h(p := map g [0 ..< n] @ drop n (h p)))"
  using assms
proof (induction n)
  case (Suc n)
  let ?d = "map g [0 ..< n] @ drop n (h p)"
  have l: "length ?d = length (h p)" using Suc.prems(1) by simp
  have b: "body n (h(p := ?d)) = Some (h(p := ?d[n := g n]))"
    using Suc.prems(1) by (intro Suc.prems(2)) auto
  have "drop n (h p) = (h p ! n) # drop (Suc n) (h p)" using Suc.prems(1) by (simp add: Cons_nth_drop_Suc)
  then have u: "?d[n := g n] = map g [0 ..< Suc n] @ drop (Suc n) (h p)" by (simp add: list_update_append)
  have "for_each [0 ..< n] body h = Some (h(p := ?d))" by (rule Suc.IH) (use Suc.prems in auto)
  then show ?case using b unfolding u [symmetric] by (simp add: fun_upd_def)
qed simp

text \<open>A matrix whose block has its size; sizes stay below \<open>2 ^ 62\<close> as \<open>checked_count\<close> makes sure.\<close>

definition mx_ok :: "'a mem \<Rightarrow> matx \<Rightarrow> bool" where
  "mx_ok h m \<longleftrightarrow> mx_data m \<noteq> 0 \<and> mx_rows m \<noteq> 0 \<and> mx_cols m \<noteq> 0
     \<and> unat (mx_rows m) * unat (mx_cols m) < 2 ^ 62 \<and> length (h (mx_data m)) = unat (mx_rows m) * unat (mx_cols m)"

definition mx_at :: "'a mem \<Rightarrow> matx \<Rightarrow> nat \<Rightarrow> nat \<Rightarrow> 'a" where
  "mx_at h m r c = h (mx_data m) ! (r * unat (mx_cols m) + c)"

lemma mx_ok_bounds:
  assumes "mx_ok h m"
  shows "unat (mx_rows m) < 2 ^ 62" and "unat (mx_cols m) < 2 ^ 62" and "0 < unat (mx_rows m)" and "0 < unat (mx_cols m)"
    and "mx_count m = length (h (mx_data m))"
proof -
  have pos: "0 < unat (mx_rows m)" "0 < unat (mx_cols m)" using assms by (auto simp: mx_ok_def unat_pos_iff)
  have "unat (mx_rows m) * 1 \<le> unat (mx_rows m) * unat (mx_cols m)" "1 * unat (mx_cols m) \<le> unat (mx_rows m) * unat (mx_cols m)"
    using pos by (auto intro: mult_le_mono)
  moreover have "unat (mx_rows m) * unat (mx_cols m) < 2 ^ 62" using assms by (simp add: mx_ok_def)
  ultimately show "unat (mx_rows m) < 2 ^ 62" "unat (mx_cols m) < 2 ^ 62" by linarith+
  show "mx_count m = length (h (mx_data m))" using assms by (simp add: mx_count_def mx_ok_def unat_mult_small)
qed (use assms in \<open>auto simp: mx_ok_def unat_pos_iff\<close>)

lemma nat_index_less: "i < n \<Longrightarrow> j < (m :: nat) \<Longrightarrow> i * m + j < n * m"
proof -
  assume "i < n" "j < m"
  then have "i * m + j < Suc i * m" "Suc i * m \<le> n * m" by (simp, intro mult_le_mono1, simp)
  then show ?thesis by (rule less_le_trans)
qed

lemma mx_index_eq:
  assumes "mx_ok h m" and "r < unat (mx_rows m)" and "c < unat (mx_cols m)"
  shows "mx_index m r c = r * unat (mx_cols m) + c" and "mx_index m r c < length (h (mx_data m))"
proof -
  have lt: "r * unat (mx_cols m) + c < unat (mx_rows m) * unat (mx_cols m)" using nat_index_less assms(2,3) by blast
  have "r < 2 ^ 62" "c < 2 ^ 62" using assms mx_ok_bounds by (meson less_trans)+
  then have u: "unat (word_of_nat r :: size_t) = r" "unat (word_of_nat c :: size_t) = c" by (auto intro!: unat_word_of_nat)
  have "r * unat (mx_cols m) + c < 2 ^ 62" using lt assms(1) unfolding mx_ok_def by linarith
  then show e: "mx_index m r c = r * unat (mx_cols m) + c"
    unfolding mx_index_def by (subst unat_add_small; (subst unat_mult_small)?) (simp_all add: u unat_mult_small)
  show "mx_index m r c < length (h (mx_data m))" using lt assms(1) by (simp add: e mx_ok_def)
qed

lemma mx_index_inj:
  "mx_ok h m \<Longrightarrow> c < unat (mx_cols m) \<Longrightarrow> c' < unat (mx_cols m) \<Longrightarrow>
   r * unat (mx_cols m) + c = r' * unat (mx_cols m) + c' \<longleftrightarrow> r = r' \<and> c = c'"
proof
  assume a: "c < unat (mx_cols m)" "c' < unat (mx_cols m)" "r * unat (mx_cols m) + c = r' * unat (mx_cols m) + c'"
  have "(r * unat (mx_cols m) + c) mod unat (mx_cols m) = c" "(r' * unat (mx_cols m) + c') mod unat (mx_cols m) = c'"
    using a(1,2) by simp_all
  then have "c = c'" using a(3) by metis
  then show "r = r' \<and> c = c'" using a by auto
qed auto

section \<open>Products\<close>

text \<open>
  Both products are a sequence of updates \<open>out(i, j) := out(i, j) + a(i, k) * b(k, j)\<close>, one for each
  triple, in an order of their own.
\<close>

type_synonym triple = "nat \<times> nat \<times> nat"

definition mac :: "(nat \<Rightarrow> nat \<Rightarrow> 'a::{plus,times}) \<Rightarrow> (nat \<Rightarrow> nat \<Rightarrow> 'a) \<Rightarrow> nat \<Rightarrow> triple \<Rightarrow> 'a list \<Rightarrow> 'a list" where
  "mac A B C t d = (case t of (i, k, j) \<Rightarrow> d[i * C + j := d ! (i * C + j) + A i k * B k j])"

definition runs :: "u64 \<Rightarrow> nat \<Rightarrow> ('t \<Rightarrow> 'a list \<Rightarrow> 'a list) \<Rightarrow> ('a mem \<Rightarrow> 'a mem ub) \<Rightarrow> 'a mem \<Rightarrow> 't list \<Rightarrow> bool" where
  "runs p L step f h ts \<longleftrightarrow> (\<forall>d. length d = L \<longrightarrow> f (h(p := d)) = Some (h(p := fold step ts d)))"

lemma runs_for_each:
  assumes "\<And>x. x \<in> set xs \<Longrightarrow> runs p L step (body x) h (ts x)" and "\<And>t d. length (step t d) = length d"
  shows "runs p L step (for_each xs body) h (concat (map ts xs))"
  using assms(1)
proof (induction xs)
  case (Cons x xs)
  have len: "length (fold step l d) = length d" for l d
    by (induction l arbitrary: d) (simp_all add: assms(2))
  have "runs p L step (body x) h (ts x)" "runs p L step (for_each xs body) h (concat (map ts xs))"
    using Cons by simp_all
  then show ?case by (auto simp: runs_def len)
qed (simp add: runs_def)

lemma runs_mul_row:
  fixes h :: "'a::{plus,times} mem"
  assumes "mx_ok h a" and "mx_ok h b" and "mx_ok h out"
    and "mx_cols a = mx_rows b" and "mx_rows out = mx_rows a" and "mx_cols out = mx_cols b"
    and "mx_data out \<noteq> mx_data a" and "mx_data out \<noteq> mx_data b"
    and "i < unat (mx_rows a)" and "k < unat (mx_cols a)" and "set js \<subseteq> {..< unat (mx_cols b)}"
  shows "runs (mx_data out) (length (h (mx_data out))) (mac (mx_at h a) (mx_at h b) (unat (mx_cols b)))
           (mul_row a b out js i k) h (map (\<lambda>j. (i, k, j)) js)"
  unfolding runs_def
proof (intro allI impI)
  fix d :: "'a list" assume d: "length d = length (h (mx_data out))"
  let ?p = "mx_data out" and ?step = "mac (mx_at h a) (mx_at h b) (unat (mx_cols b))"
  let ?body = "\<lambda>aik j h. do { s \<leftarrow> rd h (mx_data out) (mx_index out i j); x \<leftarrow> rd h (mx_data b) (mx_index b k j);
                 wr h (mx_data out) (mx_index out i j) (s + aik * x) }"
  have "runs ?p (length (h ?p)) ?step (?body (mx_at h a i k) j) h [(i, k, j)]" if "j \<in> set js" for j
  proof -
    have j: "j < unat (mx_cols b)" using that assms(11) by auto
    have i1: "mx_index out i j = i * unat (mx_cols b) + j" "i * unat (mx_cols b) + j < length (h ?p)"
      using mx_index_eq [OF assms(3), of i j] assms(5,6,9) j by auto
    have i2: "mx_index b k j = k * unat (mx_cols b) + j" "k * unat (mx_cols b) + j < length (h (mx_data b))"
      using mx_index_eq [OF assms(2), of k j] assms(4,10) j by auto
    show ?thesis unfolding runs_def i1(1) i2(1)
      using i1(2) i2(2) assms(8) by (auto simp: rd_def wr_def mac_def mx_at_def)
  qed
  then have "runs ?p (length (h ?p)) ?step (for_each js (?body (mx_at h a i k))) h (concat (map (\<lambda>j. [(i, k, j)]) js))"
    by (rule runs_for_each) (auto simp: mac_def split: prod.splits)
  then have "for_each js (?body (mx_at h a i k)) (h(?p := d)) = Some (h(?p := fold ?step (map (\<lambda>j. (i, k, j)) js) d))"
    using d by (simp add: runs_def concat_map_singleton)
  moreover have "matx_get (h(?p := d)) a i k = Some (mx_at h a i k)"
    using mx_index_eq [OF assms(1,9,10)] assms(7) by (simp add: matx_get_def rd_def mx_at_def)
  ultimately show "mul_row a b out js i k (h(?p := d)) = Some (h(?p := fold ?step (map (\<lambda>j. (i, k, j)) js) d))"
    by (simp add: mul_row_def)
qed

text \<open>The values of \<open>k\<close> at which one element is updated, in order.\<close>

definition ks_of :: "nat \<Rightarrow> nat \<Rightarrow> triple list \<Rightarrow> nat list" where
  "ks_of i j ts = map (\<lambda>(i', k, j'). k) (filter (\<lambda>(i', k, j'). i' = i \<and> j' = j) ts)"

lemma ks_of_simps:
  "ks_of i j [] = []"
  "ks_of i j ((i', k, j') # ts) = (if i' = i \<and> j' = j then k # ks_of i j ts else ks_of i j ts)"
  "ks_of i j (ts @ us) = ks_of i j ts @ ks_of i j us"
  by (simp_all add: ks_of_def)

lemma ks_of_concat: "ks_of i j (concat (map f xs)) = concat (map (\<lambda>x. ks_of i j (f x)) xs)"
  by (induction xs) (simp_all add: ks_of_simps)

lemma ks_of_row: "distinct js \<Longrightarrow> ks_of i j (map (\<lambda>j'. (i', k, j')) js) = (if i' = i \<and> j \<in> set js then [k] else [])"
  by (induction js) (auto simp: ks_of_simps)

lemma fold_mac_entry:
  assumes "\<forall>(i', k, j') \<in> set ts. j' < C" and "j < C" and "\<forall>(i', k, j') \<in> set ts. i' * C + j' < length d" and "i * C + j < length d"
  shows "fold (mac A B C) ts d ! (i * C + j) = fold (\<lambda>k s. s + A i k * B k j) (ks_of i j ts) (d ! (i * C + j))"
  using assms
proof (induction ts arbitrary: d)
  case (Cons t ts)
  obtain i' k j' where t: "t = (i', k, j')" by (metis prod_cases3)
  have "(i' * C + j' = i * C + j) = (i' = i \<and> j' = j)"
  proof
    assume e: "i' * C + j' = i * C + j"
    have "(i' * C + j') mod C = j'" "(i * C + j) mod C = j" using Cons.prems(1,2) t by simp_all
    then have "j' = j" using e by metis
    then show "i' = i \<and> j' = j" using e Cons.prems(2) by auto
  qed simp
  then have n: "mac A B C t d ! (i * C + j)
      = (if i' = i \<and> j' = j then d ! (i * C + j) + A i k * B k j else d ! (i * C + j))"
    using Cons.prems(4) by (auto simp: mac_def t nth_list_update)
  have "fold (mac A B C) ts (mac A B C t d) ! (i * C + j)
      = fold (\<lambda>k s. s + A i k * B k j) (ks_of i j ts) (mac A B C t d ! (i * C + j))"
    using Cons.prems by (intro Cons.IH) (auto simp: mac_def t)
  then show ?case by (simp add: t ks_of_simps n [unfolded t])
qed (simp add: ks_of_simps)

lemma length_fold_mac [simp]: "length (fold (mac A B C) ts d) = length d"
  by (induction ts arbitrary: d) (auto simp: mac_def split: prod.splits)

text \<open>Every element of a family of disjoint ranges picks out one range.\<close>

lemma concat_pick:
  "distinct (concat rs) \<Longrightarrow> x \<in> set (concat rs) \<Longrightarrow> concat (map (\<lambda>r. if x \<in> set r then l else []) rs) = l"
proof (induction rs)
  case (Cons r rs)
  show ?case
  proof (cases "x \<in> set r")
    case True
    then have "\<forall>r' \<in> set rs. x \<notin> set r'" using Cons.prems(1) by auto
    then have "concat (map (\<lambda>r. if x \<in> set r then l else []) rs) = []" by auto
    then show ?thesis using True by simp
  next
    case False
    then show ?thesis using Cons by auto
  qed
qed simp

text \<open>The triples of the tiled loops over any ranges that make up the three index sets.\<close>

definition block_triples :: "nat list \<Rightarrow> nat list \<Rightarrow> nat list \<Rightarrow> triple list" where
  "block_triples ri rk rj = concat (map (\<lambda>i. concat (map (\<lambda>k. map (\<lambda>j. (i, k, j)) rj) rk)) ri)"

definition tiled :: "nat list list \<Rightarrow> nat list list \<Rightarrow> nat list list \<Rightarrow> triple list" where
  "tiled ris rks rjs = concat (map (\<lambda>ri. concat (map (\<lambda>rk. concat (map (block_triples ri rk) rjs)) rks)) ris)"

lemma ks_of_block:
  assumes "distinct ri" and "distinct rj"
  shows "ks_of i j (block_triples ri rk rj)
       = (if i \<in> set ri then if j \<in> set rj then rk else [] else [])"
proof -
  have row: "ks_of i j (concat (map (\<lambda>k. map (\<lambda>j'. (i', k, j')) rj) rk)) = (if i' = i \<and> j \<in> set rj then rk else [])" for i'
    by (induction rk) (simp_all add: ks_of_simps ks_of_row assms(2))
  have "concat (map (\<lambda>i'. if i' = i \<and> j \<in> set rj then rk else []) ri) = (if i \<in> set ri \<and> j \<in> set rj then rk else [])"
    using assms(1) by (induction ri) auto
  then show ?thesis unfolding block_triples_def ks_of_concat [of i j _ ri] row by simp
qed

lemma ks_of_tiled:
  assumes "concat ris = [0 ..< n]" and "concat rks = [0 ..< m]" and "concat rjs = [0 ..< C]" and "i < n" and "j < C"
  shows "ks_of i j (tiled ris rks rjs) = [0 ..< m]"
proof -
  have d: "distinct (concat ris)" "distinct (concat rjs)" unfolding assms(1,3) by simp_all
  have dr: "distinct ri" if "ri \<in> set ris" for ri using d(1) that by (simp add: distinct_concat_iff)
  have dj: "distinct rj" if "rj \<in> set rjs" for rj using d(2) that by (simp add: distinct_concat_iff)
  have "ks_of i j (tiled ris rks rjs)
      = concat (map (\<lambda>ri. concat (map (\<lambda>rk. concat (map (\<lambda>rj. if i \<in> set ri then if j \<in> set rj then rk else [] else []) rjs)) rks)) ris)"
    unfolding tiled_def by (simp add: ks_of_concat ks_of_block dr dj cong: map_cong)
  also have "\<dots> = concat (map (\<lambda>ri. if i \<in> set ri then [0 ..< m] else []) ris)"
  proof -
    have pick: "concat (map (\<lambda>rj. if j \<in> set rj then rk else []) rjs) = rk" for rk :: "nat list"
      using concat_pick [OF d(2), of j] assms(3,5) by simp
    have "concat (map (\<lambda>rk. concat (map (\<lambda>rj. if i \<in> set ri then if j \<in> set rj then rk else [] else []) rjs)) rks)
        = (if i \<in> set ri then [0 ..< m] else [])" for ri
      using assms(2) by (cases "i \<in> set ri") (simp_all add: pick)
    then show ?thesis by simp
  qed
  also have "\<dots> = [0 ..< m]" using concat_pick [OF d(1), of i] assms(1,4) by simp
  finally show ?thesis .
qed

lemma tile_end_nat:
  assumes "ii < n" and "unat n < 2 ^ 62" and "ii = 0 \<or> unat block \<le> unat ii"
  shows "unat (tile_end ii block n) = min (unat ii + unat block) (unat n)"
    and "unat ii + unat block < unat n \<Longrightarrow> unat (ii + block) = unat ii + unat block"
    and "unat n \<le> unat ii + unat block \<Longrightarrow> \<not> ii + block < n"
proof -
  have ii: "unat ii < unat n" using assms(1) by (simp add: word_less_unat)
  have sum: "unat ii + unat block < 18446744073709551616"
    using assms(2,3) ii unat_less_2p64 [of block] by auto
  have add: "unat (ii + block) = unat ii + unat block" using sum by (rule unat_add_small)
  then show "unat (tile_end ii block n) = min (unat ii + unat block) (unat n)"
    by (auto simp: tile_end_def word_less_unat)
  show "unat ii + unat block < unat n \<Longrightarrow> unat (ii + block) = unat ii + unat block" by (rule add)
  show "unat n \<le> unat ii + unat block \<Longrightarrow> \<not> ii + block < n" using add by (simp add: word_less_unat)
qed

text \<open>The tiles of one loop: ranges that make up the whole, one after the other.\<close>

lemma tile_loop_ranges:
  assumes "unat n < 2 ^ 62" and "block \<noteq> 0" and "unat ii \<le> unat n" and "ii = 0 \<or> unat block \<le> unat ii"
  shows "\<exists>rs. concat rs = [unat ii ..< unat n]
    \<and> (\<forall>body (s :: 'b). tile_loop n block (\<lambda>ii. body [unat ii ..< unat (tile_end ii block n)]) ii s = for_each rs body s)"
  using assms(3,4)
proof (induction "unat n - unat ii" arbitrary: ii rule: less_induct)
  case less
  show ?case
  proof (cases "ii < n")
    case False
    then have "unat ii = unat n" using less.prems by (simp add: word_less_unat)
    then show ?thesis using False by (intro exI [of _ "[]"]) (simp add: tile_loop.simps)
  next
    case True
    let ?r = "[unat ii ..< unat (tile_end ii block n)]"
    note te = tile_end_nat [OF True assms(1) less.prems(2)]
    have lt: "unat ii < unat n" "0 < unat block" using True assms(2) by (auto simp: word_less_unat unat_pos_iff)
    have unroll: "tile_loop n block (\<lambda>ii. body [unat ii ..< unat (tile_end ii block n)]) ii s
        = (case body ?r s of None \<Rightarrow> None
           | Some s' \<Rightarrow> tile_loop n block (\<lambda>ii. body [unat ii ..< unat (tile_end ii block n)]) (ii + block) s')" for body and s :: 'b
      using True by (subst tile_loop.simps) simp
    show ?thesis
    proof (cases "unat ii + unat block < unat n")
      case inside: True
      have u: "unat (ii + block) = unat ii + unat block" by (rule te(2) [OF inside])
      have "\<exists>rs. concat rs = [unat (ii + block) ..< unat n]
        \<and> (\<forall>body (s :: 'b). tile_loop n block (\<lambda>ii. body [unat ii ..< unat (tile_end ii block n)]) (ii + block) s = for_each rs body s)"
        by (rule less.hyps) (use inside lt u in auto)
      then obtain rs where rs: "concat rs = [unat (ii + block) ..< unat n]"
        "\<And>body s. tile_loop n block (\<lambda>ii. body [unat ii ..< unat (tile_end ii block n)]) (ii + block) (s :: 'b) = for_each rs body s"
        by blast
      have "?r = [unat ii ..< unat ii + unat block]" using te(1) inside by simp
      then have "concat (?r # rs) = [unat ii ..< unat n]"
        using rs(1) inside u upt_add_eq_append [of "unat ii" "unat ii + unat block" "unat n - (unat ii + unat block)"] by simp
      then show ?thesis unfolding unroll rs(2) by (intro exI [of _ "?r # rs"]) simp
    next
      case False
      have "?r = [unat ii ..< unat n]" using te(1) False by simp
      moreover have "tile_loop n block f (ii + block) s = Some s" for f and s :: 'b
        using te(3) False by (subst tile_loop.simps) simp
      ultimately show ?thesis unfolding unroll by (intro exI [of _ "[?r]"]) (simp split: option.splits)
    qed
  qed
qed

definition dot_entry :: "(nat \<Rightarrow> nat \<Rightarrow> 'a::{zero,plus,times}) \<Rightarrow> (nat \<Rightarrow> nat \<Rightarrow> 'a) \<Rightarrow> nat \<Rightarrow> nat \<Rightarrow> nat \<Rightarrow> 'a" where
  "dot_entry A B m i j = fold (\<lambda>k s. s + A i k * B k j) [0 ..< m] 0"

lemma mul_tiled:
  fixes h :: "'a::{zero,plus,times} mem"
  assumes "mx_ok h a" and "mx_ok h b" and "mx_ok h out" and "check_mul (Some a) (Some b) (Some out) = ERR_OK"
    and "concat ris = [0 ..< unat (mx_rows a)]" and "concat rks = [0 ..< unat (mx_cols a)]" and "concat rjs = [0 ..< unat (mx_cols b)]"
  shows "do { h0 \<leftarrow> zero_data h out;
              for_each ris (\<lambda>ri. for_each rks (\<lambda>rk. for_each rjs (\<lambda>rj.
                for_each ri (\<lambda>i. for_each rk (\<lambda>k. mul_row a b out rj i k))))) h0 }
       = Some (h(mx_data out := map (\<lambda>x. dot_entry (mx_at h a) (mx_at h b) (unat (mx_cols a))
                   (x div unat (mx_cols b)) (x mod unat (mx_cols b))) [0 ..< unat (mx_rows a) * unat (mx_cols b)]))"
proof -
  let ?p = "mx_data out" and ?C = "unat (mx_cols b)"
  let ?step = "mac (mx_at h a) (mx_at h b) ?C" and ?L = "length (h ?p)"
  have chk: "mx_cols a = mx_rows b" "mx_rows out = mx_rows a" "mx_cols out = mx_cols b"
      "mx_data out \<noteq> mx_data a" "mx_data out \<noteq> mx_data b"
    using assms(4) by (auto simp: check_mul_def Let_def split: if_splits)
  have L: "?L = unat (mx_rows a) * ?C" using assms(3) chk by (simp add: mx_ok_def)
  have C: "0 < ?C" using mx_ok_bounds(4) [OF assms(2)] .
  have len: "length (?step t d) = length d" for t d by (auto simp: mac_def split: prod.splits)
  have sub: "i < unat (mx_rows a)" if "ri \<in> set ris" "i \<in> set ri" for ri i
    using that arg_cong [OF assms(5), of set] by auto
  have sub2: "k < unat (mx_cols a)" if "rk \<in> set rks" "k \<in> set rk" for rk k
    using that arg_cong [OF assms(6), of set] by auto
  have sub3: "set rj \<subseteq> {..< ?C}" if "rj \<in> set rjs" for rj
    using that arg_cong [OF assms(7), of set] by auto
  have r: "runs ?p ?L ?step (for_each ris (\<lambda>ri. for_each rks (\<lambda>rk. for_each rjs (\<lambda>rj.
                for_each ri (\<lambda>i. for_each rk (\<lambda>k. mul_row a b out rj i k)))))) h (tiled ris rks rjs)"
    unfolding tiled_def block_triples_def
    by (intro runs_for_each len runs_mul_row [OF assms(1-3) chk] sub sub2 sub3)
  have z: "zero_data h out = Some (h(?p := replicate ?L 0))"
    unfolding zero_data_def mx_ok_bounds(5) [OF assms(3)]
    by (subst for_each_write [where g = "\<lambda>_. 0"]) (auto simp: wr_def map_replicate_const)
  let ?d = "fold ?step (tiled ris rks rjs) (replicate ?L 0)"
  have tri: "i < unat (mx_rows a) \<and> j < ?C" if mem: "(i, k, j) \<in> set (tiled ris rks rjs)" for i k j
  proof -
    obtain ri rj where "ri \<in> set ris" "i \<in> set ri" "rj \<in> set rjs" "j \<in> set rj"
      using mem by (auto simp: tiled_def block_triples_def)
    then show ?thesis using sub sub3 by blast
  qed
  have "?d ! x = dot_entry (mx_at h a) (mx_at h b) (unat (mx_cols a)) (x div ?C) (x mod ?C)" if x: "x < ?L" for x
  proof -
    let ?i = "x div ?C" and ?j = "x mod ?C"
    have xe: "?i * ?C + ?j = x" by (rule div_mult_mod_eq)
    have i: "?i < unat (mx_rows a)" using x L by (simp add: less_mult_imp_div_less)
    have j: "?j < ?C" using C by simp
    have "?d ! (?i * ?C + ?j) = fold (\<lambda>k s. s + mx_at h a ?i k * mx_at h b k ?j) (ks_of ?i ?j (tiled ris rks rjs))
            (replicate ?L 0 ! (?i * ?C + ?j))"
    proof (rule fold_mac_entry)
      show "\<forall>(i', k, j') \<in> set (tiled ris rks rjs). j' < ?C" using tri by blast
      show "\<forall>(i', k, j') \<in> set (tiled ris rks rjs). i' * ?C + j' < length (replicate ?L (0 :: 'a))"
        using tri nat_index_less L by fastforce
      show "?i * ?C + ?j < length (replicate ?L (0 :: 'a))" unfolding xe using x by simp
    qed (rule j)
    then show ?thesis using x unfolding xe ks_of_tiled [OF assms(5-7) i j] dot_entry_def by simp
  qed
  then have "?d = map (\<lambda>x. dot_entry (mx_at h a) (mx_at h b) (unat (mx_cols a)) (x div ?C) (x mod ?C)) [0 ..< ?L]"
    by (intro nth_equalityI) simp_all
  then show ?thesis using r unfolding runs_def z by (simp add: L)
qed

text \<open>The plain product is the tiling into one range per index.\<close>

lemma concat_singletons: "concat (map (\<lambda>x. [x]) xs) = xs"
  by (induction xs) simp_all

lemma matx_mul_run:
  fixes h :: "'a::{zero,plus,times} mem"
  assumes "mx_ok h a" and "mx_ok h b" and "mx_ok h out" and "check_mul (Some a) (Some b) (Some out) = ERR_OK"
  shows "matx_mul h (Some a) (Some b) (Some out)
       = Some (ERR_OK, h(mx_data out := map (\<lambda>x. dot_entry (mx_at h a) (mx_at h b) (unat (mx_cols a))
                   (x div unat (mx_cols b)) (x mod unat (mx_cols b))) [0 ..< unat (mx_rows a) * unat (mx_cols b)]))"
  using mul_tiled [OF assms, of "map (\<lambda>x. [x]) [0 ..< unat (mx_rows a)]" "map (\<lambda>x. [x]) [0 ..< unat (mx_cols a)]"
      "[[0 ..< unat (mx_cols b)]]"] assms(4)
  by (simp add: matx_mul_def Let_def concat_singletons for_each_map for_each_single del: for_each.simps) (auto split: bind_splits)

lemma matx_mul_blocked_run:
  fixes h :: "'a::{zero,plus,times} mem"
  assumes "mx_ok h a" and "mx_ok h b" and "mx_ok h out" and "check_mul (Some a) (Some b) (Some out) = ERR_OK"
  shows "matx_mul_blocked h (Some a) (Some b) (Some out) block
       = Some (ERR_OK, h(mx_data out := map (\<lambda>x. dot_entry (mx_at h a) (mx_at h b) (unat (mx_cols a))
                   (x div unat (mx_cols b)) (x mod unat (mx_cols b))) [0 ..< unat (mx_rows a) * unat (mx_cols b)]))"
proof -
  define B where "B = (if block = 0 then 32 else block)"
  have B: "B \<noteq> 0" by (simp add: B_def)
  obtain ris where ris: "concat ris = [0 ..< unat (mx_rows a)]"
     "\<And>body s. tile_loop (mx_rows a) B (\<lambda>ii. body [unat ii ..< unat (tile_end ii B (mx_rows a))]) 0 (s :: 'a mem) = for_each ris body s"
    using tile_loop_ranges [OF mx_ok_bounds(1) [OF assms(1)] B, of 0] by auto
  obtain rks where rks: "concat rks = [0 ..< unat (mx_cols a)]"
     "\<And>body s. tile_loop (mx_cols a) B (\<lambda>ii. body [unat ii ..< unat (tile_end ii B (mx_cols a))]) 0 (s :: 'a mem) = for_each rks body s"
    using tile_loop_ranges [OF mx_ok_bounds(2) [OF assms(1)] B, of 0] by auto
  obtain rjs where rjs: "concat rjs = [0 ..< unat (mx_cols b)]"
     "\<And>body s. tile_loop (mx_cols b) B (\<lambda>ii. body [unat ii ..< unat (tile_end ii B (mx_cols b))]) 0 (s :: 'a mem) = for_each rjs body s"
    using tile_loop_ranges [OF mx_ok_bounds(2) [OF assms(2)] B, of 0] by auto
  have j: "tile_loop (mx_cols b) B (\<lambda>jj. for_each ri (\<lambda>i. for_each rk (\<lambda>k.
        mul_row a b out [unat jj ..< unat (tile_end jj B (mx_cols b))] i k))) 0
      = for_each rjs (\<lambda>rj. for_each ri (\<lambda>i. for_each rk (\<lambda>k. mul_row a b out rj i k :: 'a mem \<Rightarrow> 'a mem ub)))" for ri rk
    by (rule ext) (rule rjs(2) [where body = "\<lambda>rj. for_each ri (\<lambda>i. for_each rk (\<lambda>k. mul_row a b out rj i k :: 'a mem \<Rightarrow> 'a mem ub))"])
  have k: "tile_loop (mx_cols a) B (\<lambda>kk. for_each rjs (\<lambda>rj. for_each ri (\<lambda>i.
        for_each [unat kk ..< unat (tile_end kk B (mx_cols a))] (\<lambda>k. mul_row a b out rj i k)))) 0
      = for_each rks (\<lambda>rk. for_each rjs (\<lambda>rj. for_each ri (\<lambda>i. for_each rk (\<lambda>k. mul_row a b out rj i k :: 'a mem \<Rightarrow> 'a mem ub))))" for ri
    by (rule ext) (rule rks(2) [where body = "\<lambda>rk. for_each rjs (\<lambda>rj. for_each ri (\<lambda>i. for_each rk (\<lambda>k. mul_row a b out rj i k :: 'a mem \<Rightarrow> 'a mem ub)))"])
  have i: "tile_loop (mx_rows a) B (\<lambda>ii. for_each rks (\<lambda>rk. for_each rjs (\<lambda>rj.
        for_each [unat ii ..< unat (tile_end ii B (mx_rows a))] (\<lambda>i. for_each rk (\<lambda>k. mul_row a b out rj i k :: 'a mem \<Rightarrow> 'a mem ub))))) 0
      = for_each ris (\<lambda>ri. for_each rks (\<lambda>rk. for_each rjs (\<lambda>rj. for_each ri (\<lambda>i. for_each rk (\<lambda>k. mul_row a b out rj i k :: 'a mem \<Rightarrow> 'a mem ub)))))"
    by (rule ext) (rule ris(2) [where body = "\<lambda>ri. for_each rks (\<lambda>rk. for_each rjs (\<lambda>rj. for_each ri (\<lambda>i. for_each rk (\<lambda>k. mul_row a b out rj i k :: 'a mem \<Rightarrow> 'a mem ub))))"])
  show ?thesis
    using mul_tiled [OF assms ris(1) rks(1) rjs(1)] assms(4)
    by (simp add: matx_mul_blocked_def Let_def B_def [symmetric] j k i)
       (auto split: option.splits bind_splits)
qed

text \<open>
  C14. The cache-blocked product equals the plain one, bit for bit: for matrices whose blocks have
  their sizes and whose result shares its data with no operand, \<open>matx_mul_blocked\<close> with any block
  size and \<open>matx_mul\<close> return \<open>ERR_OK\<close>, access no block outside, end, and leave the same memory, in
  which only the result has changed and element \<open>(i, j)\<close> is the sum of \<open>a(i, k) * b(k, j)\<close>
  accumulated from 0 in the order of \<open>k\<close>. Mismatched sizes or shared data are refused by both
  without a write.
\<close>

theorem matx_mul_blocked_equals_plain:
  fixes h :: "'a::{zero,plus,times} mem"
  assumes "mx_ok h a" and "mx_ok h b" and "mx_ok h out"
  shows "(if mx_cols a = mx_rows b \<and> mx_rows out = mx_rows a \<and> mx_cols out = mx_cols b
             \<and> mx_data out \<noteq> mx_data a \<and> mx_data out \<noteq> mx_data b
          then \<exists>h'. matx_mul h (Some a) (Some b) (Some out) = Some (ERR_OK, h')
             \<and> matx_mul_blocked h (Some a) (Some b) (Some out) block = Some (ERR_OK, h')
             \<and> (\<forall>q. q \<noteq> mx_data out \<longrightarrow> h' q = h q)
             \<and> (\<forall>i j. i < unat (mx_rows a) \<longrightarrow> j < unat (mx_cols b) \<longrightarrow>
                  mx_at h' out i j = fold (\<lambda>k s. s + mx_at h a i k * mx_at h b k j) [0 ..< unat (mx_cols a)] 0)
          else matx_mul h (Some a) (Some b) (Some out) = Some (ERR_INVALID_ARG, h)
             \<and> matx_mul_blocked h (Some a) (Some b) (Some out) block = Some (ERR_INVALID_ARG, h))"
proof -
  have nz: "mx_data a \<noteq> 0" "mx_data b \<noteq> 0" "mx_data out \<noteq> 0" using assms by (auto simp: mx_ok_def)
  show ?thesis
  proof (cases "check_mul (Some a) (Some b) (Some out) = ERR_OK")
    case False
    then have "check_mul (Some a) (Some b) (Some out) = ERR_INVALID_ARG"
        "\<not> (mx_cols a = mx_rows b \<and> mx_rows out = mx_rows a \<and> mx_cols out = mx_cols b
             \<and> mx_data out \<noteq> mx_data a \<and> mx_data out \<noteq> mx_data b)"
      using nz by (auto simp: check_mul_def has_data_def Let_def split: if_splits)
    then show ?thesis by (simp add: matx_mul_def matx_mul_blocked_def)
  next
    case ok: True
    then have chk: "mx_cols a = mx_rows b \<and> mx_rows out = mx_rows a \<and> mx_cols out = mx_cols b
             \<and> mx_data out \<noteq> mx_data a \<and> mx_data out \<noteq> mx_data b"
      by (auto simp: check_mul_def Let_def split: if_splits)
    let ?C = "unat (mx_cols b)"
    let ?h = "h(mx_data out := map (\<lambda>x. dot_entry (mx_at h a) (mx_at h b) (unat (mx_cols a))
                   (x div ?C) (x mod ?C)) [0 ..< unat (mx_rows a) * ?C])"
    have C: "0 < ?C" using mx_ok_bounds(4) [OF assms(2)] .
    have plain: "matx_mul h (Some a) (Some b) (Some out) = Some (ERR_OK, ?h)"
      by (rule matx_mul_run [OF assms ok])
    have blocked: "matx_mul_blocked h (Some a) (Some b) (Some out) block = Some (ERR_OK, ?h)"
      by (rule matx_mul_blocked_run [OF assms ok])
    have "mx_at ?h out i j = fold (\<lambda>k s. s + mx_at h a i k * mx_at h b k j) [0 ..< unat (mx_cols a)] 0"
      if "i < unat (mx_rows a)" "j < ?C" for i j
    proof -
      have "mx_at ?h out i j = dot_entry (mx_at h a) (mx_at h b) (unat (mx_cols a)) i j"
        using nat_index_less [OF that] that(2) chk by (subst mx_at_def) simp
      then show ?thesis by (simp add: dot_entry_def)
    qed
    then show ?thesis using plain blocked chk by auto
  qed
qed

theorem matx_mul_blocked_equals_plain_witness:
  "\<exists>h'. matx_mul (\<lambda>p. replicate (if p = 3 then 1 else 2) (lit32 3))
        (Some \<lparr>mx_data = 1, mx_rows = 1, mx_cols = 2, mx_owns = 1\<rparr>)
        (Some \<lparr>mx_data = 2, mx_rows = 2, mx_cols = 1, mx_owns = 1\<rparr>)
        (Some \<lparr>mx_data = 3, mx_rows = 1, mx_cols = 1, mx_owns = 1\<rparr>) = Some (ERR_OK, h')
     \<and> matx_mul_blocked (\<lambda>p. replicate (if p = 3 then 1 else 2) (lit32 3))
        (Some \<lparr>mx_data = 1, mx_rows = 1, mx_cols = 2, mx_owns = 1\<rparr>)
        (Some \<lparr>mx_data = 2, mx_rows = 2, mx_cols = 1, mx_owns = 1\<rparr>)
        (Some \<lparr>mx_data = 3, mx_rows = 1, mx_cols = 1, mx_owns = 1\<rparr>) 1 = Some (ERR_OK, h')"
proof -
  let ?h = "\<lambda>p :: u64. replicate (if p = 3 then 1 else 2) (lit32 3)"
  have "mx_ok ?h \<lparr>mx_data = 1, mx_rows = 1, mx_cols = 2, mx_owns = 1\<rparr>"
    "mx_ok ?h \<lparr>mx_data = 2, mx_rows = 2, mx_cols = 1, mx_owns = 1\<rparr>"
    "mx_ok ?h \<lparr>mx_data = 3, mx_rows = 1, mx_cols = 1, mx_owns = 1\<rparr>"
    by (simp_all add: mx_ok_def)
  from matx_mul_blocked_equals_plain [OF this, of 1] show ?thesis by auto
qed

section \<open>Element-wise operations and reshaping\<close>

lemma mx_count_same: "same_shape a b \<Longrightarrow> mx_count a = mx_count b"
  by (simp add: same_shape_def mx_count_def)

lemma zip_loop_spec:
  assumes "mx_ok h a" and "mx_ok h b" and "mx_ok h out" and "same_shape a b" and "same_shape out a"
  shows "zip_loop f h a b out = Some (h(mx_data out := map2 f (h (mx_data a)) (h (mx_data b))))"
proof -
  let ?n = "mx_count a"
  have n: "?n = length (h (mx_data a))" "?n = length (h (mx_data b))" "?n = length (h (mx_data out))"
    using mx_ok_bounds(5) assms mx_count_same by metis+
  have nth: "(h(mx_data out := d)) q ! i = h q ! i"
    if "drop i d = drop i (h (mx_data out))" "i < length (h (mx_data out))" "length d = length (h (mx_data out))" for q i d
  proof (cases "q = mx_data out")
    case True
    have "d ! i = h (mx_data out) ! i" using that by (metis Cons_nth_drop_Suc list.inject)
    then show ?thesis using True by simp
  qed simp
  have "zip_loop f h a b out = Some (h(mx_data out :=
          map (\<lambda>i. f (h (mx_data a) ! i) (h (mx_data b) ! i)) [0 ..< ?n] @ drop ?n (h (mx_data out))))"
    unfolding zip_loop_def
  proof (rule for_each_write)
    fix m d assume m: "m < ?n" "length d = length (h (mx_data out))" "drop m d = drop m (h (mx_data out))"
    have r: "(h(mx_data out := d)) q ! m = h q ! m" for q by (rule nth [OF m(3)]) (use m n in simp_all)
    have l: "length ((h(mx_data out := d)) q) = length (h q)" for q using m(2) by simp
    have o: "(h(mx_data out := d)) (mx_data out) = d" by simp
    have "rd (h(mx_data out := d)) (mx_data a) m = Some (h (mx_data a) ! m)" "rd (h(mx_data out := d)) (mx_data b) m = Some (h (mx_data b) ! m)"
      unfolding rd_def r l using m(1) n by simp_all
    moreover have "wr (h(mx_data out := d)) (mx_data out) m v = Some (h(mx_data out := d[m := v]))" for v
      unfolding wr_def o using m(1,2) n by simp
    ultimately show "do { x \<leftarrow> rd (h(mx_data out := d)) (mx_data a) m; y \<leftarrow> rd (h(mx_data out := d)) (mx_data b) m;
           wr (h(mx_data out := d)) (mx_data out) m (f x y) }
        = Some (h(mx_data out := d[m := f (h (mx_data a) ! m) (h (mx_data b) ! m)]))"
      by simp
  qed (use n in simp)
  moreover have "map (\<lambda>i. f (h (mx_data a) ! i) (h (mx_data b) ! i)) [0 ..< ?n] @ drop ?n (h (mx_data out))
      = map2 f (h (mx_data a)) (h (mx_data b))"
    using n by (intro nth_equalityI) simp_all
  ultimately show ?thesis by simp
qed

lemma map_loop_spec:
  assumes "mx_ok h a" and "mx_ok h out" and "same_shape out a"
  shows "map_loop f h a out = Some (h(mx_data out := map f (h (mx_data a))))"
proof -
  have "map_loop f h a out = zip_loop (\<lambda>x y. f x) h a a out"
    unfolding map_loop_def zip_loop_def by (rule arg_cong [of _ _ "\<lambda>b. for_each _ b h"]) (auto simp: fun_eq_iff rd_def)
  also have "\<dots> = Some (h(mx_data out := map2 (\<lambda>x y. f x) (h (mx_data a)) (h (mx_data a))))"
    by (rule zip_loop_spec) (use assms in \<open>simp_all add: same_shape_def\<close>)
  also have "map2 (\<lambda>x y. f x) (h (mx_data a)) (h (mx_data a)) = map f (h (mx_data a))"
    by (intro nth_equalityI) simp_all
  finally show ?thesis .
qed

text \<open>A double loop over rows and columns is one loop in row-major order.\<close>

lemma grid_loop:
  assumes "0 < C"
  shows "for_each [0 ..< R] (\<lambda>r. for_each [0 ..< C] (body r)) s = for_each [0 ..< R * C] (\<lambda>x. body (x div C) (x mod C)) s"
proof (induction R arbitrary: s)
  case (Suc R)
  have split: "[0 ..< Suc R * C] = [0 ..< R * C] @ map (\<lambda>c. R * C + c) [0 ..< C]"
    using upt_add_eq_append [of 0 "R * C" C] map_add_upt [of "R * C" C] by (simp add: add.commute)
  have "for_each (map (\<lambda>c. R * C + c) [0 ..< C]) (\<lambda>x. body (x div C) (x mod C)) = for_each [0 ..< C] (body R)"
    unfolding for_each_map
  proof (rule ext)
    fix s
    have "\<forall>c \<in> set cs. c < C \<Longrightarrow> for_each cs (\<lambda>c. body ((R * C + c) div C) ((R * C + c) mod C)) s = for_each cs (body R) s" for cs s
      by (induction cs arbitrary: s) (auto split: option.splits)
    then show "for_each [0 ..< C] (\<lambda>c. body ((R * C + c) div C) ((R * C + c) mod C)) s = for_each [0 ..< C] (body R) s" by simp
  qed
  then show ?case unfolding split for_each_append using Suc.IH [of s]
    by (simp add: for_each_single split: option.splits)
qed simp

lemma matx_add_row_spec:
  fixes h :: "'a::plus mem"
  assumes "mx_ok h a" and "mx_ok h row" and "mx_ok h out" and "mx_rows row = 1" and "mx_cols row = mx_cols a"
    and "same_shape out a"
  shows "\<exists>h'. matx_add_row h (Some a) (Some row) (Some out) = Some (ERR_OK, h') \<and> (\<forall>q. q \<noteq> mx_data out \<longrightarrow> h' q = h q)
     \<and> mx_ok h' out
     \<and> (\<forall>r < unat (mx_rows a). \<forall>c < unat (mx_cols a). mx_at h' out r c = mx_at h a r c + mx_at h row 0 c)"
proof -
  let ?R = "unat (mx_rows a)" and ?C = "unat (mx_cols a)" and ?p = "mx_data out"
  have C: "0 < ?C" using mx_ok_bounds(4) [OF assms(1)] .
  have len: "length (h (mx_data a)) = ?R * ?C" "length (h ?p) = ?R * ?C" "length (h (mx_data row)) = ?C"
    using assms by (auto simp: mx_ok_def same_shape_def)
  let ?g = "\<lambda>x. h (mx_data a) ! x + h (mx_data row) ! (x mod ?C)"
  have "for_each [0 ..< ?R * ?C] (\<lambda>x h. do { u \<leftarrow> rd h (mx_data a) (mx_index a (x div ?C) (x mod ?C)); y \<leftarrow> rd h (mx_data row) (x mod ?C);
                         wr h ?p (mx_index a (x div ?C) (x mod ?C)) (u + y) }) h
      = Some (h(?p := map ?g [0 ..< ?R * ?C] @ drop (?R * ?C) (h ?p)))"
  proof (rule for_each_write)
    fix m d assume m: "m < ?R * ?C" "length d = length (h ?p)" "drop m d = drop m (h ?p)"
    have idx: "mx_index a (m div ?C) (m mod ?C) = m"
      using mx_index_eq(1) [OF assms(1), of "m div ?C" "m mod ?C"] m(1) C by (simp add: less_mult_imp_div_less)
    have "(h(?p := d)) (mx_data a) ! m = h (mx_data a) ! m"
    proof (cases "mx_data a = ?p")
      case True
      have "d ! m = h ?p ! m" using m len by (metis Cons_nth_drop_Suc list.inject)
      then show ?thesis using True by simp
    qed simp
    moreover have "m < length ((h(?p := d)) (mx_data a))" using m len by simp
    ultimately have "rd (h(?p := d)) (mx_data a) m = Some (h (mx_data a) ! m)" by (simp add: rd_def del: fun_upd_apply)
    moreover have "rd (h(?p := d)) (mx_data row) (m mod ?C) = Some (h (mx_data row) ! (m mod ?C))"
    proof (cases "mx_data row = ?p")
      case True
      then have "?R * ?C = ?C" using len by simp
      then have "m mod ?C = m" using m(1) by (metis mod_less)
      moreover have "d ! m = h ?p ! m" using m len by (metis Cons_nth_drop_Suc list.inject)
      moreover have "m < length d" using m len by simp
      ultimately show ?thesis using True by (simp add: rd_def)
    qed (use len(3) C in \<open>simp add: rd_def\<close>)
    ultimately show "do { u \<leftarrow> rd (h(?p := d)) (mx_data a) (mx_index a (m div ?C) (m mod ?C)); y \<leftarrow> rd (h(?p := d)) (mx_data row) (m mod ?C);
           wr (h(?p := d)) ?p (mx_index a (m div ?C) (m mod ?C)) (u + y) } = Some (h(?p := d[m := ?g m]))"
      using m len unfolding idx by (simp add: wr_def)
  qed (use len in simp)
  then have loop: "matx_add_row h (Some a) (Some row) (Some out) = Some (ERR_OK, h(?p := map ?g [0 ..< ?R * ?C]))"
    using assms len unfolding matx_add_row_def Let_def option.sel grid_loop [OF C]
    by (simp add: has_data_def mx_ok_def)
  have at: "mx_at (h(?p := map ?g [0 ..< ?R * ?C])) out r c = mx_at h a r c + mx_at h row 0 c" if "r < ?R" "c < ?C" for r c
    using nat_index_less [OF that] that(2) assms(6,5) by (simp add: mx_at_def same_shape_def)
  show ?thesis using loop at assms(3) len
    by (intro exI [of _ "h(?p := map ?g [0 ..< ?R * ?C])"]) (simp add: mx_ok_def)
qed

text \<open>Writes to distinct places in any order.\<close>

lemma for_each_scatter:
  assumes "distinct (map place xs)" and "\<And>x. x \<in> set xs \<Longrightarrow> place x < length (h p)"
    and "\<And>x d. x \<in> set xs \<Longrightarrow> length d = length (h p) \<Longrightarrow> body x (h(p := d)) = Some (h(p := d[place x := g x]))"
    and "length d = length (h p)"
  shows "\<exists>d'. for_each xs body (h(p := d)) = Some (h(p := d')) \<and> length d' = length (h p)
       \<and> (\<forall>x \<in> set xs. d' ! place x = g x) \<and> (\<forall>i. i \<notin> place ` set xs \<longrightarrow> d' ! i = d ! i)"
  using assms
proof (induction xs arbitrary: d)
  case (Cons x xs)
  have "\<exists>d'. for_each xs body (h(p := d[place x := g x])) = Some (h(p := d')) \<and> length d' = length (h p)
       \<and> (\<forall>y \<in> set xs. d' ! place y = g y) \<and> (\<forall>i. i \<notin> place ` set xs \<longrightarrow> d' ! i = d[place x := g x] ! i)"
    using Cons.prems by (intro Cons.IH) auto
  then obtain d' where d': "for_each xs body (h(p := d[place x := g x])) = Some (h(p := d'))" "length d' = length (h p)"
     "\<forall>y \<in> set xs. d' ! place y = g y" "\<forall>i. i \<notin> place ` set xs \<longrightarrow> d' ! i = d[place x := g x] ! i" by blast
  have "d' ! place x = g x" using d'(4) Cons.prems(1,2,4) by (auto simp: image_iff)
  moreover have "body x (h(p := d)) = Some (h(p := d[place x := g x]))" by (rule Cons.prems(3)) (use Cons.prems(4) in simp_all)
  ultimately show ?case using d' by (intro exI [of _ d']) (auto simp: fun_upd_def)
qed auto

lemma matx_transpose_spec:
  fixes h :: "'a mem"
  assumes "mx_ok h a" and "mx_ok h out" and "mx_rows out = mx_cols a" and "mx_cols out = mx_rows a" and "mx_data out \<noteq> mx_data a"
  shows "\<exists>h'. matx_transpose h (Some a) (Some out) = Some (ERR_OK, h') \<and> (\<forall>q. q \<noteq> mx_data out \<longrightarrow> h' q = h q)
     \<and> mx_ok h' out
     \<and> (\<forall>r < unat (mx_rows a). \<forall>c < unat (mx_cols a). mx_at h' out c r = mx_at h a r c)"
proof -
  let ?R = "unat (mx_rows a)" and ?C = "unat (mx_cols a)" and ?p = "mx_data out"
  have C: "0 < ?C" using mx_ok_bounds(4) [OF assms(1)] .
  let ?place = "\<lambda>x. (x mod ?C) * ?R + x div ?C" and ?g = "\<lambda>x. h (mx_data a) ! x"
  have len: "length (h ?p) = ?C * ?R" using assms by (simp add: mx_ok_def)
  have dm: "x div ?C < ?R" "x mod ?C < ?C" if xl: "x < ?R * ?C" for x using xl C by (simp_all add: less_mult_imp_div_less)
  have inj: "distinct (map ?place [0 ..< ?R * ?C])"
  proof -
    have "inj_on ?place (set [0 ..< ?R * ?C])"
    proof (rule inj_onI)
      fix x y assume xy: "x \<in> set [0 ..< ?R * ?C]" "y \<in> set [0 ..< ?R * ?C]" "?place x = ?place y"
      have "x div ?C < unat (mx_cols out)" "y div ?C < unat (mx_cols out)" using xy dm assms(4) by auto
      from mx_index_inj [OF assms(2) this, of "x mod ?C" "y mod ?C"] have "x mod ?C = y mod ?C" "x div ?C = y div ?C"
        using xy(3) assms(4) by auto
      then show "x = y" by (metis div_mult_mod_eq)
    qed
    then show ?thesis by (simp add: distinct_map)
  qed
  obtain d' where d': "for_each [0 ..< ?R * ?C] (\<lambda>x h. do { y \<leftarrow> matx_get h a (x div ?C) (x mod ?C); matx_set h out (x mod ?C) (x div ?C) y })
        (h(?p := h ?p)) = Some (h(?p := d'))" "length d' = length (h ?p)" "\<forall>x \<in> set [0 ..< ?R * ?C]. d' ! ?place x = ?g x"
  proof -
    have "\<exists>d'. for_each [0 ..< ?R * ?C] (\<lambda>x h. do { y \<leftarrow> matx_get h a (x div ?C) (x mod ?C); matx_set h out (x mod ?C) (x div ?C) y })
        (h(?p := h ?p)) = Some (h(?p := d')) \<and> length d' = length (h ?p) \<and> (\<forall>x \<in> set [0 ..< ?R * ?C]. d' ! ?place x = ?g x)
        \<and> (\<forall>i. i \<notin> ?place ` set [0 ..< ?R * ?C] \<longrightarrow> d' ! i = h ?p ! i)"
    proof (rule for_each_scatter [OF inj])
      fix x assume "x \<in> set [0 ..< ?R * ?C]"
      then have x: "x < ?R * ?C" by simp
      note ia = mx_index_eq [OF assms(1) dm [OF x]]
      note io = mx_index_eq [OF assms(2), of "x mod ?C" "x div ?C", unfolded assms(3,4), OF dm(2) [OF x] dm(1) [OF x]]
      show "?place x < length (h ?p)" using io by simp
      fix d :: "'a list" assume "length d = length (h ?p)"
      then show "do { y \<leftarrow> matx_get (h(?p := d)) a (x div ?C) (x mod ?C); matx_set (h(?p := d)) out (x mod ?C) (x div ?C) y }
          = Some (h(?p := d[?place x := ?g x]))"
        using ia io assms(5) by (simp add: matx_get_def matx_set_def rd_def wr_def)
    qed simp
    then show ?thesis using that by blast
  qed
  have "matx_transpose h (Some a) (Some out) = Some (ERR_OK, h(?p := d'))"
    using d'(1) assms unfolding matx_transpose_def Let_def option.sel grid_loop [OF C]
    by (simp add: has_data_def mx_ok_def)
  moreover have "mx_at (h(?p := d')) out c r = mx_at h a r c" if "r < ?R" "c < ?C" for r c
    using d'(3) [rule_format, of "r * ?C + c"] nat_index_less [OF that] that assms(4) by (simp add: mx_at_def)
  ultimately show ?thesis using assms(2) d'(2)
    by (intro exI [of _ "h(?p := d')"]) (simp add: mx_ok_def)
qed

end
