(* ===== verification/MatxOps.thy ===== *)
theory MatxOps
  imports Matx
begin

text \<open>
  What the operations of theory Matx do to the memory, in one form: \<open>writes\<close>. The machine-learning
  components build on it.
\<close>

section \<open>The effect of an operation\<close>

text \<open>
  When \<open>good\<close> the result holds the elements \<open>g\<close>, otherwise nothing is written; other blocks do not
  change, and every matrix keeps its block of the right size.
\<close>

definition writes :: "'a mem \<Rightarrow> matx \<Rightarrow> bool \<Rightarrow> (nat \<Rightarrow> nat \<Rightarrow> 'a) \<Rightarrow> (error_code \<times> 'a mem) ub \<Rightarrow> bool" where
  "writes h out good g res \<longleftrightarrow>
     (\<exists>h'. res = Some (if good then ERR_OK else ERR_INVALID_ARG, h')
         \<and> (\<forall>m. mx_ok h m \<longrightarrow> mx_ok h' m) \<and> (\<forall>q. q \<noteq> mx_data out \<longrightarrow> h' q = h q)
         \<and> (if good then \<forall>r c. r < unat (mx_rows out) \<longrightarrow> c < unat (mx_cols out) \<longrightarrow> mx_at h' out r c = g r c else h' = h))"

lemma writesI:
  assumes "mx_ok h out" and "res = Some (ERR_OK, h')" and "\<And>q. q \<noteq> mx_data out \<Longrightarrow> h' q = h q"
    and "length (h' (mx_data out)) = length (h (mx_data out))"
    and "\<And>r c. r < unat (mx_rows out) \<Longrightarrow> c < unat (mx_cols out) \<Longrightarrow> mx_at h' out r c = g r c"
  shows "writes h out True g res"
proof -
  have "length (h' q) = length (h q)" for q using assms(3,4) by (cases "q = mx_data out") auto
  then show ?thesis using assms by (auto simp: writes_def mx_ok_def)
qed

lemma writes_error: "\<not> good \<Longrightarrow> res = Some (ERR_INVALID_ARG, h) \<Longrightarrow> writes h out good g res"
  by (simp add: writes_def)

lemma mx_ok_has_data [simp]: "mx_ok h m \<Longrightarrow> has_data (Some m)"
  by (simp add: mx_ok_def has_data_def)

text \<open>A new matrix: fresh block of zeros, the requested shape, no size that overflows.\<close>

lemma checked_count_cases:
  "checked_count rows cols = (ERR_OK, count) \<longleftrightarrow>
     rows \<noteq> 0 \<and> cols \<noteq> 0 \<and> unat rows * unat cols < 2 ^ 62 \<and> count = rows * cols"
  "fst (checked_count rows cols) \<in> {ERR_OK, ERR_INVALID_ARG, ERR_OVERFLOW}"
proof -
  show "checked_count rows cols = (ERR_OK, count) \<longleftrightarrow>
     rows \<noteq> 0 \<and> cols \<noteq> 0 \<and> unat rows * unat cols < 2 ^ 62 \<and> count = rows * cols"
  proof (cases "rows = 0 \<or> cols = 0 \<or> rows > SIZE_MAX div cols")
    case True
    then show ?thesis using mult_guard [of cols rows] by (auto simp: checked_count_def)
  next
    case False
    then have lt: "unat rows * unat cols < 18446744073709551616" using mult_guard [of cols rows] by auto
    have "(rows * cols > SIZE_MAX div 4) = (unat (rows * cols) * unat (4 :: size_t) \<ge> 18446744073709551616)"
      by (rule mult_guard) simp
    then have "(rows * cols > SIZE_MAX div 4) = (2 ^ 62 \<le> unat rows * unat cols)" unfolding unat_mult_small [OF lt] by (simp add: mult.commute)
    then show ?thesis using False by (auto simp: checked_count_def not_le)
  qed
qed (simp add: checked_count_def)

lemma matx_init_ok:
  fixes h :: "'a::zero mem"
  assumes "matx_init p h (Some m) rows cols = (ERR_OK, h', m')"
  obtains "m' = Some \<lparr>mx_data = p, mx_rows = rows, mx_cols = cols, mx_owns = 1\<rparr>" "p \<noteq> 0"
    "h' = h(p := replicate (unat rows * unat cols) 0)" "mx_ok h' \<lparr>mx_data = p, mx_rows = rows, mx_cols = cols, mx_owns = 1\<rparr>"
proof -
  obtain err count where cc: "checked_count rows cols = (err, count)" by fastforce
  then have c: "checked_count rows cols = (ERR_OK, count)" using assms by (cases err) (auto simp: matx_init_def)
  then have b: "rows \<noteq> 0" "cols \<noteq> 0" "unat rows * unat cols < 2 ^ 62" "count = rows * cols" by (simp_all add: checked_count_cases)
  have "unat count = unat rows * unat cols" using b(3) by (simp add: b(4) unat_mult_small)
  then show thesis using assms c b(1-3) that by (auto simp: matx_init_def mx_ok_def split: if_splits)
qed

section \<open>Element-wise operations\<close>

lemma elementwise_writes:
  assumes "mx_ok h a" and "mx_ok h b" and "mx_ok h out"
  shows "writes h out (same_shape a b \<and> same_shape out a) (\<lambda>r c. f (mx_at h a r c) (mx_at h b r c))
     (if check_elementwise (Some a) (Some b) (Some out) \<noteq> ERR_OK then Some (check_elementwise (Some a) (Some b) (Some out), h)
      else do { h' \<leftarrow> zip_loop f h a b out; Some (ERR_OK, h') })"
proof (cases "same_shape a b \<and> same_shape out a")
  case False
  then show ?thesis using assms by (intro writes_error) (auto simp: check_elementwise_def)
next
  case True
  have len: "length (h (mx_data a)) = length (h (mx_data out))" "length (h (mx_data b)) = length (h (mx_data out))"
    using True assms by (auto simp: mx_ok_def same_shape_def)
  have "writes h out True (\<lambda>r c. f (mx_at h a r c) (mx_at h b r c)) (Some (ERR_OK, h(mx_data out := map2 f (h (mx_data a)) (h (mx_data b)))))"
  proof (rule writesI [OF assms(3) refl])
    fix r c assume "r < unat (mx_rows out)" "c < unat (mx_cols out)"
    then have "r * unat (mx_cols out) + c < length (h (mx_data out))"
      using nat_index_less assms(3) by (metis mx_ok_def)
    then show "mx_at (h(mx_data out := map2 f (h (mx_data a)) (h (mx_data b)))) out r c = f (mx_at h a r c) (mx_at h b r c)"
      using True len by (simp add: mx_at_def same_shape_def)
  qed (use len in auto)
  then show ?thesis using True assms zip_loop_spec [OF assms, of f] by (simp add: check_elementwise_def)
qed

lemma map_writes:
  assumes "mx_ok h a" and "mx_ok h out"
  shows "writes h out (same_shape out a) (\<lambda>r c. f (mx_at h a r c))
     (if \<not> same_shape out a then Some (ERR_INVALID_ARG, h) else do { h' \<leftarrow> map_loop f h a out; Some (ERR_OK, h') })"
proof (cases "same_shape out a")
  case True
  have len: "length (h (mx_data a)) = length (h (mx_data out))" using True assms by (auto simp: mx_ok_def same_shape_def)
  have "writes h out True (\<lambda>r c. f (mx_at h a r c)) (Some (ERR_OK, h(mx_data out := map f (h (mx_data a)))))"
  proof (rule writesI [OF assms(2) refl])
    fix r c assume "r < unat (mx_rows out)" "c < unat (mx_cols out)"
    then have "r * unat (mx_cols out) + c < length (h (mx_data out))"
      using nat_index_less assms(2) by (metis mx_ok_def)
    then show "mx_at (h(mx_data out := map f (h (mx_data a)))) out r c = f (mx_at h a r c)"
      using True len by (simp add: mx_at_def same_shape_def)
  qed (use len in auto)
  then show ?thesis using True map_loop_spec [OF assms True, of f] by simp
qed (simp add: writes_error)

lemma matx_map_writes:
  assumes "mx_ok h a" and "mx_ok h out"
  shows "writes h out (same_shape out a) (\<lambda>r c. f (mx_at h a r c)) (matx_map h (Some a) (Some f) (Some out))"
  using map_writes [OF assms, of f] assms by (simp add: matx_map_def cong: if_cong split del: if_split)

lemma matx_hadamard_writes:
  assumes "mx_ok h a" and "mx_ok h b" and "mx_ok h out"
  shows "writes h out (same_shape a b \<and> same_shape out a) (\<lambda>r c. mx_at h a r c * mx_at h b r c)
     (matx_hadamard h (Some a) (Some b) (Some out))"
  unfolding matx_hadamard_def option.sel by (rule elementwise_writes [OF assms])

lemma fill_writes:
  assumes "mx_ok h out"
  shows "writes h out True (\<lambda>_ _. v) (matx_fill h (Some out) v)"
proof -
  have run: "matx_fill h (Some out) v = Some (ERR_OK, h(mx_data out := replicate (length (h (mx_data out))) v))"
    using assms unfolding matx_fill_def mx_ok_bounds(5) [OF assms, symmetric] Let_def option.sel
    by (subst for_each_write [where g = "\<lambda>_. v"]) (auto simp: wr_def map_replicate_const mx_ok_bounds(5))
  show ?thesis
  proof (rule writesI [OF assms run])
    fix r c assume "r < unat (mx_rows out)" "c < unat (mx_cols out)"
    then have "r * unat (mx_cols out) + c < length (h (mx_data out))" using nat_index_less assms by (metis mx_ok_def)
    then show "mx_at (h(mx_data out := replicate (length (h (mx_data out))) v)) out r c = v" by (simp add: mx_at_def)
  qed simp_all
qed

section \<open>Rows, columns and products\<close>

lemma transpose_writes:
  assumes "mx_ok h a" and "mx_ok h out"
  shows "writes h out (mx_rows out = mx_cols a \<and> mx_cols out = mx_rows a \<and> mx_data out \<noteq> mx_data a) (\<lambda>r c. mx_at h a c r)
     (matx_transpose h (Some a) (Some out))"
proof (cases "mx_rows out = mx_cols a \<and> mx_cols out = mx_rows a \<and> mx_data out \<noteq> mx_data a")
  case False
  then have "matx_transpose h (Some a) (Some out) = Some (ERR_INVALID_ARG, h)" using assms by (auto simp: matx_transpose_def Let_def)
  then show ?thesis by (rule writes_error [OF False])
next
  case True
  then obtain h' where h': "matx_transpose h (Some a) (Some out) = Some (ERR_OK, h')" "\<forall>q. q \<noteq> mx_data out \<longrightarrow> h' q = h q" "mx_ok h' out"
    "\<forall>r < unat (mx_rows a). \<forall>c < unat (mx_cols a). mx_at h' out c r = mx_at h a r c"
    using matx_transpose_spec [OF assms] by blast
  have "writes h out True (\<lambda>r c. mx_at h a c r) (matx_transpose h (Some a) (Some out))"
    by (rule writesI [OF assms(2) h'(1)]) (use h' assms(2) True in \<open>auto simp: mx_ok_def\<close>)
  then show ?thesis using True by simp
qed

lemma add_row_writes:
  fixes h :: "'a::plus mem"
  assumes "mx_ok h a" and "mx_ok h row" and "mx_ok h out"
  shows "writes h out (mx_rows row = 1 \<and> mx_cols row = mx_cols a \<and> same_shape out a) (\<lambda>r c. mx_at h a r c + mx_at h row 0 c)
     (matx_add_row h (Some a) (Some row) (Some out))"
proof (cases "mx_rows row = 1 \<and> mx_cols row = mx_cols a \<and> same_shape out a")
  case False
  then have "matx_add_row h (Some a) (Some row) (Some out) = Some (ERR_INVALID_ARG, h)"
    using assms by (auto simp: matx_add_row_def Let_def)
  then show ?thesis by (rule writes_error [OF False])
next
  case True
  then obtain h' where h': "matx_add_row h (Some a) (Some row) (Some out) = Some (ERR_OK, h')" "\<forall>q. q \<noteq> mx_data out \<longrightarrow> h' q = h q" "mx_ok h' out"
    "\<forall>r < unat (mx_rows a). \<forall>c < unat (mx_cols a). mx_at h' out r c = mx_at h a r c + mx_at h row 0 c"
    using matx_add_row_spec [OF assms] by blast
  have "writes h out True (\<lambda>r c. mx_at h a r c + mx_at h row 0 c) (matx_add_row h (Some a) (Some row) (Some out))"
    by (rule writesI [OF assms(3) h'(1)]) (use h' assms(3) True in \<open>auto simp: mx_ok_def same_shape_def\<close>)
  then show ?thesis using True by simp
qed

lemma mul_writes:
  fixes h :: "'a::{zero,plus,times} mem"
  assumes "mx_ok h a" and "mx_ok h b" and "mx_ok h out"
  shows "writes h out (mx_cols a = mx_rows b \<and> mx_rows out = mx_rows a \<and> mx_cols out = mx_cols b
             \<and> mx_data out \<noteq> mx_data a \<and> mx_data out \<noteq> mx_data b)
     (dot_entry (mx_at h a) (mx_at h b) (unat (mx_cols a))) (matx_mul h (Some a) (Some b) (Some out))"
proof (cases "check_mul (Some a) (Some b) (Some out) = ERR_OK")
  case False
  then have "check_mul (Some a) (Some b) (Some out) = ERR_INVALID_ARG"
      "\<not> (mx_cols a = mx_rows b \<and> mx_rows out = mx_rows a \<and> mx_cols out = mx_cols b
           \<and> mx_data out \<noteq> mx_data a \<and> mx_data out \<noteq> mx_data b)"
    using assms by (auto simp: check_mul_def Let_def split: if_splits)
  then show ?thesis by (intro writes_error) (simp_all add: matx_mul_def)
next
  case ok: True
  then have chk: "mx_cols a = mx_rows b \<and> mx_rows out = mx_rows a \<and> mx_cols out = mx_cols b
           \<and> mx_data out \<noteq> mx_data a \<and> mx_data out \<noteq> mx_data b"
    by (auto simp: check_mul_def Let_def split: if_splits)
  let ?C = "unat (mx_cols b)" and ?g = "dot_entry (mx_at h a) (mx_at h b) (unat (mx_cols a))"
  let ?h = "h(mx_data out := map (\<lambda>x. ?g (x div ?C) (x mod ?C)) [0 ..< unat (mx_rows a) * ?C])"
  have run: "matx_mul h (Some a) (Some b) (Some out) = Some (ERR_OK, ?h)"
    by (rule matx_mul_run [OF assms ok])
  have "writes h out True ?g (matx_mul h (Some a) (Some b) (Some out))"
  proof (rule writesI [OF assms(3) run])
    fix r c assume "r < unat (mx_rows out)" "c < unat (mx_cols out)"
    then show "mx_at ?h out r c = ?g r c"
      using nat_index_less [of r "unat (mx_rows a)" c ?C] chk by (subst mx_at_def) simp
  qed (use chk assms(3) in \<open>auto simp: mx_ok_def\<close>)
  then show ?thesis using chk by simp
qed

lemma mul_blocked_writes:
  fixes h :: "'a::{zero,plus,times} mem"
  assumes "mx_ok h a" and "mx_ok h b" and "mx_ok h out"
  shows "writes h out (mx_cols a = mx_rows b \<and> mx_rows out = mx_rows a \<and> mx_cols out = mx_cols b
             \<and> mx_data out \<noteq> mx_data a \<and> mx_data out \<noteq> mx_data b)
     (dot_entry (mx_at h a) (mx_at h b) (unat (mx_cols a))) (matx_mul_blocked h (Some a) (Some b) (Some out) block)"
proof -
  have "matx_mul_blocked h (Some a) (Some b) (Some out) block = matx_mul h (Some a) (Some b) (Some out)"
    using matx_mul_run [OF assms] matx_mul_blocked_run [OF assms, of block]
    by (cases "check_mul (Some a) (Some b) (Some out) = ERR_OK") (simp_all add: matx_mul_def matx_mul_blocked_def)
  then show ?thesis using mul_writes [OF assms] by simp
qed

text \<open>The sums of the columns, from 0 in the order of the rows.\<close>

definition col_sum :: "(nat \<Rightarrow> nat \<Rightarrow> 'a::{zero,plus}) \<Rightarrow> nat \<Rightarrow> nat \<Rightarrow> 'a" where
  "col_sum A R c = fold (\<lambda>r s. s + A r c) [0 ..< R] 0"

lemma col_sums_writes:
  fixes h :: "'a::{zero,plus} mem"
  assumes "mx_ok h a" and "mx_ok h out"
  shows "writes h out (mx_rows out = 1 \<and> mx_cols out = mx_cols a \<and> mx_data out \<noteq> mx_data a)
     (\<lambda>_. col_sum (mx_at h a) (unat (mx_rows a))) (matx_col_sums h (Some a) (Some out))"
proof (cases "mx_rows out = 1 \<and> mx_cols out = mx_cols a \<and> mx_data out \<noteq> mx_data a")
  case False
  then have "matx_col_sums h (Some a) (Some out) = Some (ERR_INVALID_ARG, h)" using assms by (auto simp: matx_col_sums_def Let_def)
  then show ?thesis by (rule writes_error [OF False])
next
  case True
  let ?p = "mx_data out" and ?C = "unat (mx_cols a)" and ?R = "unat (mx_rows a)"
  let ?s = "\<lambda>r. map (\<lambda>c. col_sum (mx_at h a) r c) [0 ..< ?C]"
  let ?row = "\<lambda>r c h. do { s \<leftarrow> rd h ?p c; x \<leftarrow> rd h (mx_data a) (mx_index a r c); wr h ?p c (s + x) }"
  have len: "length (h ?p) = ?C" using True assms(2) by (simp add: mx_ok_def)
  have z: "for_each [0 ..< ?C] (\<lambda>c h. wr h ?p c 0) h = Some (h(?p := ?s 0))"
  proof -
    have "?s 0 = replicate ?C 0" by (rule nth_equalityI) (simp_all add: col_sum_def)
    then show ?thesis using len by (subst for_each_write [where g = "\<lambda>_. 0"]) (auto simp: wr_def map_replicate_const)
  qed
  have row: "for_each [0 ..< ?C] (?row r) (h(?p := ?s r)) = Some (h(?p := ?s (Suc r)))" if r: "r < ?R" for r
  proof -
    have "for_each [0 ..< ?C] (?row r) (h(?p := ?s r)) = Some ((h(?p := ?s r))(?p := ?s (Suc r) @ drop ?C ((h(?p := ?s r)) ?p)))"
    proof (rule for_each_write)
      fix c d assume c: "c < ?C" and d: "length d = length ((h(?p := ?s r)) ?p)" "drop c d = drop c ((h(?p := ?s r)) ?p)"
      have "d ! c = ?s r ! c" using c d by (metis Cons_nth_drop_Suc list.inject fun_upd_same length_map length_upt diff_zero)
      then have "rd (h(?p := d)) ?p c = Some (col_sum (mx_at h a) r c)" using c d(1) by (simp add: rd_def)
      moreover have "rd (h(?p := d)) (mx_data a) (mx_index a r c) = Some (mx_at h a r c)"
        using mx_index_eq [OF assms(1) r c] True [THEN conjunct2, THEN conjunct2, symmetric] by (simp add: rd_def mx_at_def)
      ultimately show "?row r c ((h(?p := ?s r))(?p := d)) = Some ((h(?p := ?s r))(?p := d[c := col_sum (mx_at h a) (Suc r) c]))"
        using c d(1) by (simp add: wr_def col_sum_def)
    qed simp
    then show ?thesis by simp
  qed
  have "\<exists>t. for_each [0 ..< ?R] (\<lambda>r. for_each [0 ..< ?C] (?row r)) (h(?p := ?s 0)) = Some t \<and> t = h(?p := ?s ?R)"
  proof (rule for_each_invariant)
    fix r t assume r: "r < ?R" and t: "t = h(?p := ?s r)"
    show "\<exists>t'. for_each [0 ..< ?C] (?row r) t = Some t' \<and> t' = h(?p := ?s (Suc r))"
      unfolding t row [OF r] by blast
  qed simp_all
  then have run: "matx_col_sums h (Some a) (Some out) = Some (ERR_OK, h(?p := ?s ?R))"
    using assms True z by (simp add: matx_col_sums_def Let_def)
  have "writes h out True (\<lambda>_. col_sum (mx_at h a) ?R) (matx_col_sums h (Some a) (Some out))"
    by (rule writesI [OF assms(2) run]) (use True len in \<open>simp_all add: mx_at_def\<close>)
  then show ?thesis using True by simp
qed

text \<open>The first greatest element of a row.\<close>

definition first_max :: "(nat \<Rightarrow> 'a::ord) \<Rightarrow> nat \<Rightarrow> nat" where
  "first_max x n = fold (\<lambda>c best. if x c > x best then c else best) [1 ..< n] 0"

lemma first_max_Suc: "0 < n \<Longrightarrow> first_max x (Suc n) = (if x n > x (first_max x n) then n else first_max x n)"
  by (simp add: first_max_def Suc_le_eq)

lemma first_max_spec:
  fixes x :: "nat \<Rightarrow> 'a::linorder"
  assumes "0 < n"
  shows "first_max x n < n \<and> (\<forall>c < n. x c \<le> x (first_max x n)) \<and> (\<forall>c < first_max x n. x c < x (first_max x n))"
  using assms
proof (induction n rule: nat_induct_non_zero)
  case (Suc n)
  show ?case
  proof (cases "x n > x (first_max x n)")
    case True
    then show ?thesis using Suc by (auto simp: first_max_Suc less_Suc_eq intro: le_less_trans)
  next
    case False
    then show ?thesis using Suc by (auto simp: first_max_Suc less_Suc_eq not_less)
  qed
qed (simp add: first_max_def)

lemma first_max_less: "0 < n \<Longrightarrow> first_max x n < n"
proof (induction n rule: nat_induct_non_zero)
  case (Suc n)
  then show ?case by (simp add: first_max_Suc)
qed (simp add: first_max_def)

lemma row_argmax_eq:
  assumes "mx_ok h a" and "r < mx_rows a"
  shows "matx_row_argmax h (Some a) r True = Some (ERR_OK, Some (first_max (mx_at h a (unat r)) (unat (mx_cols a))))"
proof -
  have r: "unat r < unat (mx_rows a)" using assms(2) by (simp add: word_less_unat)
  have C: "0 < unat (mx_cols a)" using mx_ok_bounds(4) [OF assms(1)] .
  have get: "matx_get h a (unat r) c = Some (mx_at h a (unat r) c)" if "c < unat (mx_cols a)" for c
    using mx_index_eq [OF assms(1) r that] by (simp add: matx_get_def rd_def mx_at_def)
  have "\<exists>t. for_each [1 ..< unat (mx_cols a)] (\<lambda>c best. do { x \<leftarrow> matx_get h a (unat r) c; y \<leftarrow> matx_get h a (unat r) best;
               Some (if x > y then c else best) }) 0 = Some t \<and> t = first_max (mx_at h a (unat r)) (unat (mx_cols a))"
  proof (rule for_each_invariant)
    show "(0 :: nat) = first_max (mx_at h a (unat r)) 1" by (simp add: first_max_def)
    fix c t assume c: "1 \<le> c" "c < unat (mx_cols a)" and t: "t = first_max (mx_at h a (unat r)) c"
    have "first_max (mx_at h a (unat r)) c < unat (mx_cols a)" using first_max_less [of c "mx_at h a (unat r)"] c by simp
    then show "\<exists>t'. do { x \<leftarrow> matx_get h a (unat r) c; y \<leftarrow> matx_get h a (unat r) t; Some (if x > y then c else t) } = Some t'
        \<and> t' = first_max (mx_at h a (unat r)) (Suc c)"
      using c t by (simp add: get first_max_Suc)
  qed (use C in simp)
  then show ?thesis using assms by (auto simp: matx_row_argmax_def Let_def not_le)
qed

section \<open>Elements\<close>

lemma rd_ok:
  assumes "mx_ok h m" and "r < unat (mx_rows m)" and "c < unat (mx_cols m)"
  shows "rd h (mx_data m) (r * unat (mx_cols m) + c) = Some (mx_at h m r c)"
  using mx_index_eq [OF assms] by (simp add: rd_def mx_at_def)

lemma matx_get_ok:
  assumes "mx_ok h m" and "r < unat (mx_rows m)" and "c < unat (mx_cols m)"
  shows "matx_get h m r c = Some (mx_at h m r c)"
  using mx_index_eq [OF assms] by (simp add: matx_get_def rd_def mx_at_def)

lemma mx_at_position:
  assumes "mx_ok h m" and "r < unat (mx_rows m)" and "c < unat (mx_cols m)" and "r' < unat (mx_rows m)" and "c' < unat (mx_cols m)"
  shows "(r' * unat (mx_cols m) + c' = r * unat (mx_cols m) + c) = (r' = r \<and> c' = c)"
proof
  let ?n = "unat (mx_cols m)"
  assume e: "r' * ?n + c' = r * ?n + c"
  have "(r' * ?n + c') div ?n = r'" "(r' * ?n + c') mod ?n = c'" "(r * ?n + c) div ?n = r" "(r * ?n + c) mod ?n = c"
    using assms(3,5) by simp_all
  then show "r' = r \<and> c' = c" using e by metis
qed simp

lemma matx_set_ok:
  assumes "mx_ok h m" and "r < unat (mx_rows m)" and "c < unat (mx_cols m)"
  obtains h' where "matx_set h m r c v = Some h'" "wr h (mx_data m) (r * unat (mx_cols m) + c) v = Some h'" "\<And>q. q \<noteq> mx_data m \<Longrightarrow> h' q = h q" "\<And>q. length (h' q) = length (h q)"
    "\<And>r' c'. r' < unat (mx_rows m) \<Longrightarrow> c' < unat (mx_cols m) \<Longrightarrow> mx_at h' m r' c' = (if r' = r \<and> c' = c then v else mx_at h m r' c')"
proof -
  note i = mx_index_eq [OF assms]
  let ?h = "h(mx_data m := (h (mx_data m))[r * unat (mx_cols m) + c := v])"
  have at: "mx_at ?h m r' c' = (if r' = r \<and> c' = c then v else mx_at h m r' c')"
    if "r' < unat (mx_rows m)" "c' < unat (mx_cols m)" for r' c'
    using mx_at_position [OF assms that] mx_index_eq [OF assms(1) that] i by (auto simp: mx_at_def)
  show thesis using i by (intro that [of ?h] at) (auto simp: matx_set_def wr_def)
qed

lemma mx_ok_len: "(\<And>q. length (h' q) = length (h q)) \<Longrightarrow> mx_ok h' m = mx_ok h m"
  by (simp add: mx_ok_def)

section \<open>Creation, destruction and random contents\<close>

text \<open>The generator after \<open>k\<close> draws.\<close>

definition draws :: "f32 \<Rightarrow> f32 \<Rightarrow> nat \<Rightarrow> rng \<Rightarrow> rng" where
  "draws lo hi k r = ((\<lambda>r. snd (rng_range_float r lo hi)) ^^ k) r"

lemma random_uniform_writes:
  assumes "mx_ok h out"
  shows "\<exists>h'. matx_random_uniform h (Some out) (Some r) lo hi
            = Some (ERR_OK, h', Some (draws lo hi (unat (mx_rows out) * unat (mx_cols out)) r))
       \<and> writes h out True (\<lambda>i j. fst (rng_range_float (draws lo hi (i * unat (mx_cols out) + j) r) lo hi)) (Some (ERR_OK, h'))"
proof -
  let ?p = "mx_data out" and ?n = "unat (mx_rows out) * unat (mx_cols out)"
  let ?v = "\<lambda>i. fst (rng_range_float (draws lo hi i r) lo hi)"
  let ?body = "\<lambda>i (h, r). let (v, r1) = rng_range_float r lo hi in map_option (\<lambda>h1. (h1, r1)) (wr h ?p i v)"
  have len: "length (h ?p) = ?n" using assms by (simp add: mx_ok_def)
  have "\<exists>t. for_each [0 ..< ?n] ?body (h, r) = Some t
      \<and> t = (h(?p := map ?v [0 ..< ?n] @ drop ?n (h ?p)), draws lo hi ?n r)"
  proof (rule for_each_invariant)
    show "(h, r) = (h(?p := map ?v [0 ..< 0] @ drop 0 (h ?p)), draws lo hi 0 r)" by (simp add: draws_def)
    fix i t assume i: "i < ?n" and t: "t = (h(?p := map ?v [0 ..< i] @ drop i (h ?p)), draws lo hi i r)"
    have "drop i (h ?p) = (h ?p ! i) # drop (Suc i) (h ?p)" using i len by (simp add: Cons_nth_drop_Suc)
    then have u: "(map ?v [0 ..< i] @ drop i (h ?p))[i := ?v i] = map ?v [0 ..< Suc i] @ drop (Suc i) (h ?p)"
      by (simp add: list_update_append)
    have "draws lo hi (Suc i) r = snd (rng_range_float (draws lo hi i r) lo hi)" by (simp add: draws_def)
    then show "\<exists>t'. ?body i t = Some t' \<and> t' = (h(?p := map ?v [0 ..< Suc i] @ drop (Suc i) (h ?p)), draws lo hi (Suc i) r)"
      using i len u t by (simp add: wr_def split_def Let_def)
  qed simp
  then have loop: "for_each [0 ..< ?n] ?body (h, r) = Some (h(?p := map ?v [0 ..< ?n]), draws lo hi ?n r)"
    using len by simp
  have run: "matx_random_uniform h (Some out) (Some r) lo hi = Some (ERR_OK, h(?p := map ?v [0 ..< ?n]), Some (draws lo hi ?n r))"
    using assms loop mx_ok_bounds(5) [OF assms] len by (simp add: matx_random_uniform_def Let_def split_def)
  have "writes h out True (\<lambda>i j. ?v (i * unat (mx_cols out) + j)) (Some (ERR_OK, h(?p := map ?v [0 ..< ?n])))"
  proof (rule writesI [OF assms refl])
    fix i j assume "i < unat (mx_rows out)" "j < unat (mx_cols out)"
    then show "mx_at (h(?p := map ?v [0 ..< ?n])) out i j = ?v (i * unat (mx_cols out) + j)"
      using nat_index_less [of i "unat (mx_rows out)" j "unat (mx_cols out)"] by (simp add: mx_at_def)
  qed (use len in simp_all)
  then show ?thesis using run by blast
qed

lemma matx_init_arena_ok:
  fixes h :: "'a::zero mem"
  shows "case matx_init_arena h (Some a) (Some ar) rows cols of
     (err, h', m', ar') \<Rightarrow>
       if err = ERR_OK
       then \<exists>m. m' = Some m \<and> mx_ok h' m \<and> mx_rows m = rows \<and> mx_cols m = cols \<and> mx_owns m = 0
              \<and> set (h' (mx_data m)) = {0} \<and> (\<forall>q. q \<noteq> mx_data m \<longrightarrow> h' q = h q)
              \<and> (mx_data m, ar') = arena_alloc (Some ar) (rows * cols * 4) 4
       else h' = h"
proof -
  obtain err count where cc: "checked_count rows cols = (err, count)" by fastforce
  show ?thesis
  proof (cases "err = ERR_OK")
    case True
    then have b: "rows \<noteq> 0" "cols \<noteq> 0" "unat rows * unat cols < 2 ^ 62" "count = rows * cols"
      using cc checked_count_cases by simp_all
    have n: "unat count = unat rows * unat cols" using b(3) by (simp add: b(4) unat_mult_small)
    show ?thesis
      using cc True b n
      by (cases "arena_alloc (Some ar) (count * 4) 4") (simp add: matx_init_arena_def mx_ok_def unat_eq_0)
  next
    case False
    then show ?thesis using cc by (cases err) (simp_all add: matx_init_arena_def)
  qed
qed

section \<open>All operations\<close>



end
