(* ===== verification/Mat4.thy ===== *)
theory Mat4
  imports VecMath
begin

text \<open>
  The 4x4 matrices of \<open>src/math/mat.c\<close>, stored by columns in an array of 16 elements as in the code:
  element \<open>(r, c)\<close> is \<open>m[c * 4 + r]\<close>.
\<close>

section \<open>Operations\<close>

record 'a mat4 =
  m16 :: "'a list"

definition M :: "'a mat4 \<Rightarrow> nat \<Rightarrow> nat \<Rightarrow> 'a" where
  "M a r c = m16 a ! (c * 4 + r)"

definition set_M :: "'a mat4 \<Rightarrow> nat \<Rightarrow> nat \<Rightarrow> 'a \<Rightarrow> 'a mat4" where
  "set_M a r c v = \<lparr>m16 = (m16 a)[c * 4 + r := v]\<rparr>"

text \<open>The loops over columns and rows that fill every element of a result.\<close>

definition mat4_build :: "(nat \<Rightarrow> nat \<Rightarrow> 'a) \<Rightarrow> 'a mat4" where
  "mat4_build f = \<lparr>m16 = concat (map (\<lambda>c. map (\<lambda>r. f r c) [0 ..< 4]) [0 ..< 4])\<rparr>"

definition mat4_zero :: "'a::zero mat4" where
  "mat4_zero = \<lparr>m16 = replicate 16 0\<rparr>"

definition mat4_identity :: "'a::{zero,one} mat4" where
  "mat4_identity = \<lparr>m16 = (replicate 16 0)[0 := 1, 5 := 1, 10 := 1, 15 := 1]\<rparr>"

definition mat4_mul :: "'a::{zero,plus,times} mat4 \<Rightarrow> 'a mat4 \<Rightarrow> 'a mat4" where
  "mat4_mul a b = mat4_build (\<lambda>r c. foldl (\<lambda>sum k. sum + M a r k * M b k c) 0 [0 ..< 4])"

definition mat4_transpose :: "'a mat4 \<Rightarrow> 'a mat4" where
  "mat4_transpose a = mat4_build (\<lambda>r c. M a c r)"

text \<open>The array \<open>inv\<close> of \<open>mat4_inverse\<close>, in index order.\<close>

definition mat4_cofactors :: "(nat \<Rightarrow> 'a::{plus,minus,uminus,times}) \<Rightarrow> 'a list" where
  "mat4_cofactors m =
    [m 5 * m 10 * m 15 - m 5 * m 11 * m 14 - m 9 * m 6 * m 15 + m 9 * m 7 * m 14 + m 13 * m 6 * m 11 - m 13 * m 7 * m 10,
     - m 1 * m 10 * m 15 + m 1 * m 11 * m 14 + m 9 * m 2 * m 15 - m 9 * m 3 * m 14 - m 13 * m 2 * m 11 + m 13 * m 3 * m 10,
     m 1 * m 6 * m 15 - m 1 * m 7 * m 14 - m 5 * m 2 * m 15 + m 5 * m 3 * m 14 + m 13 * m 2 * m 7 - m 13 * m 3 * m 6,
     - m 1 * m 6 * m 11 + m 1 * m 7 * m 10 + m 5 * m 2 * m 11 - m 5 * m 3 * m 10 - m 9 * m 2 * m 7 + m 9 * m 3 * m 6,
     - m 4 * m 10 * m 15 + m 4 * m 11 * m 14 + m 8 * m 6 * m 15 - m 8 * m 7 * m 14 - m 12 * m 6 * m 11 + m 12 * m 7 * m 10,
     m 0 * m 10 * m 15 - m 0 * m 11 * m 14 - m 8 * m 2 * m 15 + m 8 * m 3 * m 14 + m 12 * m 2 * m 11 - m 12 * m 3 * m 10,
     - m 0 * m 6 * m 15 + m 0 * m 7 * m 14 + m 4 * m 2 * m 15 - m 4 * m 3 * m 14 - m 12 * m 2 * m 7 + m 12 * m 3 * m 6,
     m 0 * m 6 * m 11 - m 0 * m 7 * m 10 - m 4 * m 2 * m 11 + m 4 * m 3 * m 10 + m 8 * m 2 * m 7 - m 8 * m 3 * m 6,
     m 4 * m 9 * m 15 - m 4 * m 11 * m 13 - m 8 * m 5 * m 15 + m 8 * m 7 * m 13 + m 12 * m 5 * m 11 - m 12 * m 7 * m 9,
     - m 0 * m 9 * m 15 + m 0 * m 11 * m 13 + m 8 * m 1 * m 15 - m 8 * m 3 * m 13 - m 12 * m 1 * m 11 + m 12 * m 3 * m 9,
     m 0 * m 5 * m 15 - m 0 * m 7 * m 13 - m 4 * m 1 * m 15 + m 4 * m 3 * m 13 + m 12 * m 1 * m 7 - m 12 * m 3 * m 5,
     - m 0 * m 5 * m 11 + m 0 * m 7 * m 9 + m 4 * m 1 * m 11 - m 4 * m 3 * m 9 - m 8 * m 1 * m 7 + m 8 * m 3 * m 5,
     - m 4 * m 9 * m 14 + m 4 * m 10 * m 13 + m 8 * m 5 * m 14 - m 8 * m 6 * m 13 - m 12 * m 5 * m 10 + m 12 * m 6 * m 9,
     m 0 * m 9 * m 14 - m 0 * m 10 * m 13 - m 8 * m 1 * m 14 + m 8 * m 2 * m 13 + m 12 * m 1 * m 10 - m 12 * m 2 * m 9,
     - m 0 * m 5 * m 14 + m 0 * m 6 * m 13 + m 4 * m 1 * m 14 - m 4 * m 2 * m 13 - m 12 * m 1 * m 6 + m 12 * m 2 * m 5,
     m 0 * m 5 * m 10 - m 0 * m 6 * m 9 - m 4 * m 1 * m 10 + m 4 * m 2 * m 9 + m 8 * m 1 * m 6 - m 8 * m 2 * m 5]"

text \<open>\<open>out_inv\<close> is the matrix to fill, \<open>None\<close> for a null pointer.\<close>

definition mat4_inverse ::
  "'a::{one,plus,minus,uminus,times,inverse,abs,ord} fmath \<Rightarrow> 'a mat4 \<Rightarrow> 'a mat4 option \<Rightarrow> bool \<times> 'a mat4 option" where
  "mat4_inverse m a out_inv =
     (let inv = mat4_cofactors (\<lambda>i. m16 a ! i);
          det = m16 a ! 0 * inv ! 0 + m16 a ! 1 * inv ! 4 + m16 a ! 2 * inv ! 8 + m16 a ! 3 * inv ! 12
      in if \<bar>det\<bar> < fm_lit m (1 / 10 ^ 12) then (False, out_inv)
         else (True, map_option (\<lambda>_. let inv_det = 1 / det in \<lparr>m16 = map (\<lambda>x. x * inv_det) inv\<rparr>) out_inv))"

definition mat4_mul_vec4 :: "'a::{plus,times} mat4 \<Rightarrow> 'a vec4 \<Rightarrow> 'a vec4" where
  "mat4_mul_vec4 a v =
     \<lparr>x4 = M a 0 0 * x4 v + M a 0 1 * y4 v + M a 0 2 * z4 v + M a 0 3 * w4 v,
      y4 = M a 1 0 * x4 v + M a 1 1 * y4 v + M a 1 2 * z4 v + M a 1 3 * w4 v,
      z4 = M a 2 0 * x4 v + M a 2 1 * y4 v + M a 2 2 * z4 v + M a 2 3 * w4 v,
      w4 = M a 3 0 * x4 v + M a 3 1 * y4 v + M a 3 2 * z4 v + M a 3 3 * w4 v\<rparr>"

definition mat4_mul_point :: "'a::{one,plus,times} mat4 \<Rightarrow> 'a vec3 \<Rightarrow> 'a vec3" where
  "mat4_mul_point a p =
     (let r = mat4_mul_vec4 a \<lparr>x4 = x3 p, y4 = y3 p, z4 = z3 p, w4 = 1\<rparr> in \<lparr>x3 = x4 r, y3 = y4 r, z3 = z4 r\<rparr>)"

section \<open>Builders\<close>

definition mat4_translate :: "'a::{zero,one} vec3 \<Rightarrow> 'a mat4" where
  "mat4_translate t =
     (let out = mat4_identity; out = set_M out 0 3 (x3 t); out = set_M out 1 3 (y3 t) in set_M out 2 3 (z3 t))"

definition mat4_scale :: "'a::{zero,one} vec3 \<Rightarrow> 'a mat4" where
  "mat4_scale s =
     (let out = mat4_identity; out = set_M out 0 0 (x3 s); out = set_M out 1 1 (y3 s) in set_M out 2 2 (z3 s))"

definition mat4_rotate_x :: "'a::{zero,one,uminus} fmath \<Rightarrow> 'a \<Rightarrow> 'a mat4" where
  "mat4_rotate_x m angle =
     (let out = mat4_identity; c = fm_cos m angle; s = fm_sin m angle;
          out = set_M out 1 1 c; out = set_M out 1 2 (- s); out = set_M out 2 1 s in set_M out 2 2 c)"

definition mat4_rotate_y :: "'a::{zero,one,uminus} fmath \<Rightarrow> 'a \<Rightarrow> 'a mat4" where
  "mat4_rotate_y m angle =
     (let out = mat4_identity; c = fm_cos m angle; s = fm_sin m angle;
          out = set_M out 0 0 c; out = set_M out 0 2 s; out = set_M out 2 0 (- s) in set_M out 2 2 c)"

definition mat4_rotate_z :: "'a::{zero,one,uminus} fmath \<Rightarrow> 'a \<Rightarrow> 'a mat4" where
  "mat4_rotate_z m angle =
     (let out = mat4_identity; c = fm_cos m angle; s = fm_sin m angle;
          out = set_M out 0 0 c; out = set_M out 0 1 (- s); out = set_M out 1 0 s in set_M out 1 1 c)"

definition mat4_rotate_axis :: "'a::{zero,one,plus,minus,times,inverse,ord} fmath \<Rightarrow> 'a vec3 \<Rightarrow> 'a \<Rightarrow> 'a mat4" where
  "mat4_rotate_axis m axis angle =
     (let a = vec3_normalize m axis; c = fm_cos m angle; s = fm_sin m angle; t = 1 - c;
          out = mat4_identity;
          out = set_M out 0 0 (c + x3 a * x3 a * t);
          out = set_M out 0 1 (x3 a * y3 a * t - z3 a * s);
          out = set_M out 0 2 (x3 a * z3 a * t + y3 a * s);
          out = set_M out 1 0 (y3 a * x3 a * t + z3 a * s);
          out = set_M out 1 1 (c + y3 a * y3 a * t);
          out = set_M out 1 2 (y3 a * z3 a * t - x3 a * s);
          out = set_M out 2 0 (z3 a * x3 a * t - y3 a * s);
          out = set_M out 2 1 (z3 a * y3 a * t + x3 a * s)
      in set_M out 2 2 (c + z3 a * z3 a * t))"

definition mat4_perspective ::
  "'a::{zero,one,plus,minus,uminus,times,inverse,ord} fmath \<Rightarrow> 'a \<Rightarrow> 'a \<Rightarrow> 'a \<Rightarrow> 'a \<Rightarrow> 'a mat4" where
  "mat4_perspective m fovy_rad aspect near_z far_z =
     (if \<not> aspect > 0 \<or> \<not> near_z > 0 \<or> \<not> far_z > near_z \<or> \<not> fovy_rad > 0 then mat4_identity
      else let f = 1 / fm_tan m (fovy_rad * fm_lit m (1 / 2));
               out = mat4_zero;
               out = set_M out 0 0 (f / aspect);
               out = set_M out 1 1 f;
               out = set_M out 2 2 ((far_z + near_z) / (near_z - far_z));
               out = set_M out 2 3 ((fm_lit m 2 * far_z * near_z) / (near_z - far_z))
           in set_M out 3 2 (- 1))"

definition mat4_ortho ::
  "'a::{zero,one,plus,minus,uminus,times,inverse,ord} fmath \<Rightarrow> 'a \<Rightarrow> 'a \<Rightarrow> 'a \<Rightarrow> 'a \<Rightarrow> 'a \<Rightarrow> 'a \<Rightarrow> 'a mat4" where
  "mat4_ortho m left right bottom top' near_z far_z =
     (if feq right left \<or> feq top' bottom \<or> feq far_z near_z then mat4_identity
      else let out = mat4_identity;
               out = set_M out 0 0 (fm_lit m 2 / (right - left));
               out = set_M out 1 1 (fm_lit m 2 / (top' - bottom));
               out = set_M out 2 2 (fm_lit m (- 2) / (far_z - near_z));
               out = set_M out 0 3 (- (right + left) / (right - left));
               out = set_M out 1 3 (- (top' + bottom) / (top' - bottom))
           in set_M out 2 3 (- (far_z + near_z) / (far_z - near_z)))"

definition mat4_look_at ::
  "'a::{zero,one,plus,minus,uminus,times,inverse,ord} fmath \<Rightarrow> 'a vec3 \<Rightarrow> 'a vec3 \<Rightarrow> 'a vec3 \<Rightarrow> 'a mat4" where
  "mat4_look_at m eye center up =
     (let f = vec3_normalize m (vec3_sub center eye); s = vec3_normalize m (vec3_cross f up); u = vec3_cross s f;
          out = mat4_identity;
          out = set_M out 0 0 (x3 s); out = set_M out 0 1 (y3 s); out = set_M out 0 2 (z3 s);
          out = set_M out 1 0 (x3 u); out = set_M out 1 1 (y3 u); out = set_M out 1 2 (z3 u);
          out = set_M out 2 0 (- x3 f); out = set_M out 2 1 (- y3 f); out = set_M out 2 2 (- z3 f);
          out = set_M out 0 3 (- vec3_dot s eye); out = set_M out 1 3 (- vec3_dot u eye)
      in set_M out 2 3 (vec3_dot f eye))"

section \<open>Shape and elements\<close>

definition mat4_ok :: "'a mat4 \<Rightarrow> bool" where
  "mat4_ok a \<longleftrightarrow> length (m16 a) = 16"

named_theorems mat_defs

lemma upt4: "[0 ..< 4] = [0, 1, 2, 3 :: nat]"
  by (simp add: upt_rec)

lemma mat4_build_eq: "mat4_build f = \<lparr>m16 = [f 0 0, f 1 0, f 2 0, f 3 0, f 0 1, f 1 1, f 2 1, f 3 1,
    f 0 2, f 1 2, f 2 2, f 3 2, f 0 3, f 1 3, f 2 3, f 3 3]\<rparr>"
  by (simp add: mat4_build_def upt4)

lemma mat4_identity_eq: "mat4_identity = \<lparr>m16 = [1, 0, 0, 0, 0, 1, 0, 0, 0, 0, 1, 0, 0, 0, 0, 1]\<rparr>"
  by (simp add: mat4_identity_def numeral_eq_Suc)

lemma mat4_ok_cases:
  assumes "mat4_ok a"
  obtains a0 a1 a2 a3 a4 a5 a6 a7 a8 a9 a10 a11 a12 a13 a14 a15
  where "a = \<lparr>m16 = [a0, a1, a2, a3, a4, a5, a6, a7, a8, a9, a10, a11, a12, a13, a14, a15]\<rparr>"
proof -
  have len: "length (m16 a) = 16" using assms by (simp add: mat4_ok_def)
  have "m16 a = map ((!) (m16 a)) [0 ..< 16]" using map_nth [of "m16 a"] len by simp
  also have "[0 ..< 16] = [0, 1, 2, 3, 4, 5, 6, 7, 8, 9, 10, 11, 12, 13, 14, 15 :: nat]" by (simp add: upt_rec)
  finally have "a = \<lparr>m16 = map ((!) (m16 a)) [0, 1, 2, 3, 4, 5, 6, 7, 8, 9, 10, 11, 12, 13, 14, 15]\<rparr>"
    by (cases a) simp
  then show thesis using that by simp
qed

lemma M_elems [mat_defs]:
  "M \<lparr>m16 = [a0, a1, a2, a3, a4, a5, a6, a7, a8, a9, a10, a11, a12, a13, a14, a15]\<rparr> r c
     = [a0, a1, a2, a3, a4, a5, a6, a7, a8, a9, a10, a11, a12, a13, a14, a15] ! (c * 4 + r)"
  by (simp add: M_def)

lemma mat4_build_ok: "mat4_ok (mat4_build f)" "r < 4 \<Longrightarrow> c < 4 \<Longrightarrow> M (mat4_build f) r c = f r c"
proof -
  show "mat4_ok (mat4_build f)" by (simp add: mat4_build_eq mat4_ok_def)
  assume "r < 4" "c < 4"
  then have "r \<in> {0, 1, 2, 3}" "c \<in> {0, 1, 2, 3}" by auto
  then show "M (mat4_build f) r c = f r c" by (auto simp: mat4_build_eq M_def)
qed

lemma mat4_eqI:
  assumes "mat4_ok a" and "mat4_ok b" and "\<And>r c. r < 4 \<Longrightarrow> c < 4 \<Longrightarrow> M a r c = M b r c"
  shows "a = b"
proof -
  have "m16 a ! i = m16 b ! i" if "i < 16" for i
    using assms(3) [of "i mod 4" "i div 4"] that by (simp add: M_def)
  then show ?thesis using assms(1,2) by (cases a, cases b) (auto simp: mat4_ok_def list_eq_iff_nth_eq)
qed

lemma mat4_transpose_transpose: "mat4_ok a \<Longrightarrow> mat4_transpose (mat4_transpose a) = a"
  by (rule mat4_eqI) (simp_all add: mat4_transpose_def mat4_build_ok)

lemma mat4_mul_elem:
  fixes a b :: "'a::comm_ring_1 mat4"
  assumes "r < 4" and "c < 4"
  shows "M (mat4_mul a b) r c = M a r 0 * M b 0 c + M a r 1 * M b 1 c + M a r 2 * M b 2 c + M a r 3 * M b 3 c"
  using assms by (simp add: mat4_mul_def mat4_build_ok upt4)

lemma mat4_mul_ok [simp]: "mat4_ok (mat4_mul a b)"
  by (simp add: mat4_mul_def mat4_build_ok)

lemma mat4_mul_assoc:
  fixes a :: "'a::comm_ring_1 mat4"
  shows "mat4_mul (mat4_mul a b) c = mat4_mul a (mat4_mul b c)"
  by (rule mat4_eqI) (simp_all add: mat4_mul_elem algebra_simps)

lemma mat4_mul_transpose:
  fixes a :: "'a::comm_ring_1 mat4"
  shows "mat4_transpose (mat4_mul a b) = mat4_mul (mat4_transpose b) (mat4_transpose a)"
  by (rule mat4_eqI) (simp_all add: mat4_mul_elem mat4_transpose_def mat4_build_ok algebra_simps)

text \<open>Applying a product is applying the right factor first.\<close>

lemma mat4_mul_vec4_mul:
  fixes a :: "'a::comm_ring_1 mat4"
  shows "mat4_mul_vec4 (mat4_mul a b) v = mat4_mul_vec4 a (mat4_mul_vec4 b v)"
  by (simp add: mat4_mul_vec4_def mat4_mul_elem algebra_simps)

section \<open>The inverse\<close>

text \<open>The determinant, by expansion along the first row.\<close>

fun laplace :: "nat \<Rightarrow> (nat \<Rightarrow> nat \<Rightarrow> 'a::comm_ring_1) \<Rightarrow> 'a" where
  "laplace 0 f = 1"
| "laplace (Suc n) f = (\<Sum>j \<le> n. (- 1) ^ j * f 0 j * laplace n (\<lambda>r c. f (Suc r) (if c < j then c else Suc c)))"

lemma mat4_det:
  fixes a :: "'a::comm_ring_1 mat4"
  assumes "mat4_ok a"
  shows "m16 a ! 0 * mat4_cofactors (\<lambda>i. m16 a ! i) ! 0 + m16 a ! 1 * mat4_cofactors (\<lambda>i. m16 a ! i) ! 4
       + m16 a ! 2 * mat4_cofactors (\<lambda>i. m16 a ! i) ! 8 + m16 a ! 3 * mat4_cofactors (\<lambda>i. m16 a ! i) ! 12
       = laplace 4 (M a)"
  by (simp add: mat4_cofactors_def numeral_eq_Suc M_def) (simp add: algebra_simps)


definition adjugate :: "'a::comm_ring_1 mat4 \<Rightarrow> 'a mat4" where
  "adjugate a = \<lparr>m16 = mat4_cofactors (\<lambda>i. m16 a ! i)\<rparr>"

lemma nat4_cases: "r < 4 \<Longrightarrow> P 0 \<Longrightarrow> P 1 \<Longrightarrow> P 2 \<Longrightarrow> P 3 \<Longrightarrow> P (r :: nat)"
proof -
  assume "r < 4" "P 0" "P 1" "P 2" "P 3"
  moreover from \<open>r < 4\<close> have "r = 0 \<or> r = 1 \<or> r = 2 \<or> r = 3" by auto
  ultimately show ?thesis by auto
qed

lemma adjugate_right:
  fixes a :: "'a::comm_ring_1 mat4"
  assumes "r < 4" and "c < 4"
  shows "M (mat4_mul a (adjugate a)) r c = (if r = c then laplace 4 (M a) else 0)"
  unfolding mat4_mul_elem [OF assms]
  by (rule nat4_cases [OF assms(1)]; rule nat4_cases [OF assms(2)])
     (simp_all add: M_def adjugate_def mat4_cofactors_def numeral_eq_Suc algebra_simps)

lemma adjugate_left:
  fixes a :: "'a::comm_ring_1 mat4"
  assumes "r < 4" and "c < 4"
  shows "M (mat4_mul (adjugate a) a) r c = (if r = c then laplace 4 (M a) else 0)"
  unfolding mat4_mul_elem [OF assms]
  by (rule nat4_cases [OF assms(1)]; rule nat4_cases [OF assms(2)])
     (simp_all add: M_def adjugate_def mat4_cofactors_def numeral_eq_Suc algebra_simps)


lemma M_identity [simp]: "r < 4 \<Longrightarrow> c < 4 \<Longrightarrow> M mat4_identity r c = (if r = c then 1 else 0)"
  by (erule nat4_cases; erule nat4_cases) (simp_all add: mat4_identity_eq M_def)

lemma mat4_ok_identity [simp]: "mat4_ok mat4_identity"
  by (simp add: mat4_identity_def mat4_ok_def)

lemma mat4_mul_identity:
  fixes a :: "'a::comm_ring_1 mat4"
  assumes "mat4_ok a"
  shows "mat4_mul mat4_identity a = a" and "mat4_mul a mat4_identity = a"
proof -
  have "M (mat4_mul mat4_identity a) r c = M a r c" "M (mat4_mul a mat4_identity) r c = M a r c" if "r < 4" "c < 4" for r c
    by (rule nat4_cases [OF that(1)]; simp add: mat4_mul_elem that(2))
       (rule nat4_cases [OF that(2)]; simp add: mat4_mul_elem that(1))
  then show "mat4_mul mat4_identity a = a" and "mat4_mul a mat4_identity = a"
    by (auto intro: mat4_eqI assms)
qed

lemma mat4_mul_vec4_identity: "mat4_mul_vec4 mat4_identity v = (v :: 'a::comm_ring_1 vec4)"
  by (simp add: mat4_mul_vec4_def)

lemma adjugate_scaled:
  fixes a :: "'a::field mat4"
  assumes "laplace 4 (M a) \<noteq> 0"
  defines "b \<equiv> \<lparr>m16 = map (\<lambda>x. x * (1 / laplace 4 (M a))) (mat4_cofactors (\<lambda>i. m16 a ! i))\<rparr>"
  shows "mat4_ok b" and "mat4_mul a b = mat4_identity" and "mat4_mul b a = mat4_identity"
proof -
  let ?d = "laplace 4 (M a)"
  have len: "length (mat4_cofactors (\<lambda>i. m16 a ! i)) = 16" by (simp add: mat4_cofactors_def)
  then show "mat4_ok b" by (simp add: b_def mat4_ok_def)
  have el: "M b r c = M (adjugate a) r c * (1 / ?d)" if "r < 4" "c < 4" for r c
    using that len by (simp add: b_def M_def adjugate_def)
  have "M (mat4_mul a b) r c = M (mat4_mul a (adjugate a)) r c * (1 / ?d)" if "r < 4" "c < 4" for r c
    using that by (simp add: mat4_mul_elem el algebra_simps add_divide_distrib)
  then show "mat4_mul a b = mat4_identity"
    by (intro mat4_eqI) (simp_all add: adjugate_right assms(1))
  have "M (mat4_mul b a) r c = M (mat4_mul (adjugate a) a) r c * (1 / ?d)" if "r < 4" "c < 4" for r c
    using that by (simp add: mat4_mul_elem el algebra_simps add_divide_distrib)
  then show "mat4_mul b a = mat4_identity"
    by (intro mat4_eqI) (simp_all add: adjugate_left assms(1))
qed

text \<open>
  C31. \<open>mat4_inverse\<close> inverts: in exact arithmetic it refuses exactly the matrices whose determinant (by
  expansion along the rows) is below \<open>10 ^ -12\<close> in absolute value, then leaving the result alone,
  and otherwise delivers the two-sided inverse, which undoes the transformation of every vector; a
  null result pointer only asks whether the matrix is invertible.
\<close>

theorem mat4_inverse_correct:
  fixes a :: "real mat4"
  assumes "mat4_ok a"
  shows "\<exists>b. mat4_inverse exact a out =
           (if \<bar>laplace 4 (M a)\<bar> < 1 / 10 ^ 12 then (False, out) else (True, map_option (\<lambda>_. b) out))
       \<and> (\<bar>laplace 4 (M a)\<bar> < 1 / 10 ^ 12
          \<or> mat4_ok b \<and> mat4_mul a b = mat4_identity \<and> mat4_mul b a = mat4_identity
            \<and> (\<forall>v. mat4_mul_vec4 b (mat4_mul_vec4 a v) = v))"
proof -
  let ?inv = "\<lparr>m16 = map (\<lambda>x. x * (1 / laplace 4 (M a))) (mat4_cofactors (\<lambda>i. m16 a ! i))\<rparr>"
  have "of_rat (1 / 10 ^ 12) = (1 / 10 ^ 12 :: real)" by (simp add: of_rat_divide)
  then have "mat4_inverse exact a out =
      (if \<bar>laplace 4 (M a)\<bar> < 1 / 10 ^ 12 then (False, out) else (True, map_option (\<lambda>_. ?inv) out))"
    by (simp only: mat4_inverse_def Let_def mat4_det [OF assms] exact_simps)
  moreover have "mat4_ok ?inv \<and> mat4_mul a ?inv = mat4_identity \<and> mat4_mul ?inv a = mat4_identity
      \<and> (\<forall>v. mat4_mul_vec4 ?inv (mat4_mul_vec4 a v) = v)" if "\<not> \<bar>laplace 4 (M a)\<bar> < 1 / 10 ^ 12"
  proof -
    have "laplace 4 (M a) \<noteq> 0" using that by auto
    note is_inv = adjugate_scaled [OF this]
    have "mat4_mul_vec4 ?inv (mat4_mul_vec4 a v) = v" for v
      unfolding mat4_mul_vec4_mul [symmetric] is_inv(3) by (rule mat4_mul_vec4_identity)
    then show ?thesis using is_inv by blast
  qed
  ultimately show ?thesis by blast
qed

theorem mat4_inverse_correct_witness:
  "\<exists>b. mat4_inverse exact (mat4_scale \<lparr>x3 = 2, y3 = 2, z3 = 2\<rparr>) (Some mat4_identity) = (True, Some b)
     \<and> mat4_mul (mat4_scale \<lparr>x3 = 2, y3 = 2, z3 = 2\<rparr>) b = mat4_identity"
proof -
  let ?a = "mat4_scale \<lparr>x3 = 2, y3 = 2, z3 = 2 :: real\<rparr>"
  have a: "?a = \<lparr>m16 = [2, 0, 0, 0, 0, 2, 0, 0, 0, 0, 2, 0, 0, 0, 0, 1]\<rparr>"
    by (simp add: mat4_scale_def set_M_def mat4_identity_eq numeral_eq_Suc)
  then have ok: "mat4_ok ?a" by (simp add: mat4_ok_def)
  have "laplace 4 (M ?a) = 8" unfolding a by (simp add: numeral_eq_Suc M_def)
  then show ?thesis using mat4_inverse_correct [OF ok, of "Some mat4_identity"] by auto
qed

section \<open>Transforms in exact arithmetic\<close>

lemma M_set_M [simp]:
  "mat4_ok a \<Longrightarrow> r < 4 \<Longrightarrow> c < 4 \<Longrightarrow> i < 4 \<Longrightarrow> j < 4 \<Longrightarrow> M (set_M a r c v) i j = (if i = r \<and> j = c then v else M a i j)"
proof -
  assume a: "mat4_ok a" "r < 4" "c < 4" "i < 4" "j < 4"
  have "(j * 4 + i) mod 4 = i" "(j * 4 + i) div 4 = j" "(c * 4 + r) mod 4 = r" "(c * 4 + r) div 4 = c" using a(2,4) by simp_all
  then have "j * 4 + i = c * 4 + r \<longleftrightarrow> j = c \<and> i = r" by metis
  moreover have "c * 4 + r < 16" using a by simp
  ultimately show ?thesis using a(1) by (auto simp: M_def set_M_def mat4_ok_def nth_list_update)
qed

lemma mat4_ok_set_M [simp]: "mat4_ok (set_M a r c v) = mat4_ok a"
  by (simp add: set_M_def mat4_ok_def)

lemma M_zero [simp]: "r < 4 \<Longrightarrow> c < 4 \<Longrightarrow> M mat4_zero r c = 0" "mat4_ok mat4_zero"
  by (simp_all add: mat4_zero_def M_def mat4_ok_def)

lemma mat4_translate_point:
  fixes p :: "'a::comm_ring_1 vec3"
  shows "mat4_mul_point (mat4_translate t) p = vec3_add p t"
  by (simp add: mat4_mul_point_def mat4_mul_vec4_def mat4_translate_def vec3_add_def)

lemma mat4_scale_point:
  fixes p :: "'a::comm_ring_1 vec3"
  shows "mat4_mul_point (mat4_scale s) p = \<lparr>x3 = x3 s * x3 p, y3 = y3 s * y3 p, z3 = z3 s * z3 p\<rparr>"
  by (simp add: mat4_mul_point_def mat4_mul_vec4_def mat4_scale_def)

text \<open>The rotations about the axes are the general one about the unit vectors.\<close>

lemma mat4_rotate_axis_units:
  "mat4_rotate_axis exact \<lparr>x3 = 1, y3 = 0, z3 = 0\<rparr> t = mat4_rotate_x exact t"
  "mat4_rotate_axis exact \<lparr>x3 = 0, y3 = 1, z3 = 0\<rparr> t = mat4_rotate_y exact t"
  "mat4_rotate_axis exact \<lparr>x3 = 0, y3 = 0, z3 = 1\<rparr> t = mat4_rotate_z exact t"
proof -
  note defs = mat4_rotate_axis_def mat4_rotate_x_def mat4_rotate_y_def mat4_rotate_z_def Let_def
    vec3_normalize_def vec3_length_def vec3_dot_def vec3_scale_def
  show "mat4_rotate_axis exact \<lparr>x3 = 1, y3 = 0, z3 = 0\<rparr> t = mat4_rotate_x exact t"
    by (simp add: defs set_M_def mat4_identity_eq numeral_eq_Suc)
  show "mat4_rotate_axis exact \<lparr>x3 = 0, y3 = 1, z3 = 0\<rparr> t = mat4_rotate_y exact t"
    by (simp add: defs set_M_def mat4_identity_eq numeral_eq_Suc)
  show "mat4_rotate_axis exact \<lparr>x3 = 0, y3 = 0, z3 = 1\<rparr> t = mat4_rotate_z exact t"
    by (simp add: defs set_M_def mat4_identity_eq numeral_eq_Suc)
qed

text \<open>
  The camera: the eye goes to the origin and the center to the negative z axis, at its distance.
\<close>

lemma mat4_look_at_eye_center:
  fixes eye center up :: "real vec3"
  assumes "center \<noteq> eye"
  shows "mat4_mul_point (mat4_look_at exact eye center up) eye = \<lparr>x3 = 0, y3 = 0, z3 = 0\<rparr>"
    and "mat4_mul_point (mat4_look_at exact eye center up) center = \<lparr>x3 = 0, y3 = 0, z3 = - vec3_distance exact center eye\<rparr>"
proof -
  define f where "f = vec3_normalize exact (vec3_sub center eye)"
  define s where "s = vec3_normalize exact (vec3_cross f up)"
  define u where "u = vec3_cross s f"
  define d where "d = vec3_distance exact center eye"
  have nz: "vec3_sub center eye \<noteq> \<lparr>x3 = 0, y3 = 0, z3 = 0\<rparr>" using assms by (auto simp: vec3_sub_def intro: vec3_eqI)
  have f1: "vec3_dot f f = 1" and fd: "vec3_scale f d = vec3_sub center eye"
    using vec3_normalize_unit [OF nz] by (simp_all add: f_def d_def vec3_distance_def)
  have sf: "vec3_dot s f = 0"
  proof (cases "vec3_cross f up = \<lparr>x3 = 0, y3 = 0, z3 = 0\<rparr>")
    case True
    then show ?thesis by (simp add: s_def vec3_normalize_zero) (simp add: vec3_dot_def)
  next
    case False
    note n = vec3_normalize_unit [OF False, folded s_def]
    have "vec3_dot s f * vec3_length exact (vec3_cross f up) = vec3_dot (vec3_cross f up) f"
      by (subst (2) n(2) [symmetric]) (simp add: vec3_dot_def vec3_scale_def algebra_simps)
    then show ?thesis using n(3) by (simp add: vec3_cross_orthogonal)
  qed
  have uf: "vec3_dot u f = 0" unfolding u_def by (rule vec3_cross_orthogonal)
  have pt: "mat4_mul_point (mat4_look_at exact eye center up) p
      = \<lparr>x3 = vec3_dot s (vec3_sub p eye), y3 = vec3_dot u (vec3_sub p eye), z3 = - vec3_dot f (vec3_sub p eye)\<rparr>" for p
    by (simp add: mat4_mul_point_def mat4_mul_vec4_def mat4_look_at_def Let_def f_def [symmetric] s_def [symmetric] u_def [symmetric])
       (simp add: vec3_dot_def vec3_sub_def algebra_simps)
  show "mat4_mul_point (mat4_look_at exact eye center up) eye = \<lparr>x3 = 0, y3 = 0, z3 = 0\<rparr>"
    unfolding pt by (simp add: vec3_dot_def vec3_sub_def)
  have sc: "vec3_dot v (vec3_scale f d) = vec3_dot v f * d" for v
    by (simp add: vec3_dot_def vec3_scale_def algebra_simps)
  show "mat4_mul_point (mat4_look_at exact eye center up) center = \<lparr>x3 = 0, y3 = 0, z3 = - vec3_distance exact center eye\<rparr>"
    unfolding pt fd [symmetric] sc by (simp add: sf uf f1 d_def)
qed

text \<open>The projection maps the near plane to depth -1 and the far plane to depth 1.\<close>

lemma mat4_perspective_planes:
  fixes n f x y z :: real
  assumes "0 < n" and "n < f" and "0 < aspect" and "0 < fovy" and "z \<in> {n, f}"
  defines "v \<equiv> mat4_mul_vec4 (mat4_perspective exact fovy aspect n f) \<lparr>x4 = x, y4 = y, z4 = - z, w4 = 1\<rparr>"
  shows "w4 v = z" and "z4 v / w4 v = (if z = n then - 1 else 1)"
proof -
  have nz: "n - f \<noteq> 0" using assms(2) by simp
  have "z4 v = (f + n) / (n - f) * - z + 2 * f * n / (n - f)" and w: "w4 v = z"
    using assms(1-4) by (simp_all add: v_def mat4_mul_vec4_def mat4_perspective_def Let_def)
  then have "z4 v = (2 * f * n - (f + n) * z) / (n - f)" by (simp add: diff_divide_distrib)
  also have "\<dots> = (if z = n then - n else f)"
    using assms(2,5) nz by (auto simp: divide_eq_eq algebra_simps)
  finally show "z4 v / w4 v = (if z = n then - 1 else 1)" and "w4 v = z" using w assms(1,2,5) by auto
qed

end
