(* ===== verification/Quat.thy ===== *)
theory Quat
  imports Mat4
begin

text \<open>
  Quaternions of \<open>src/math/quat.c\<close>: the vector part \<open>(x, y, z)\<close> and the scalar part \<open>w\<close>.
\<close>

section \<open>Operations\<close>

record 'a quat =
  qx :: 'a
  qy :: 'a
  qz :: 'a
  qw :: 'a

definition quat_identity :: "'a::{zero,one} quat" where
  "quat_identity = \<lparr>qx = 0, qy = 0, qz = 0, qw = 1\<rparr>"

definition quat_from_axis_angle :: "'a::{zero,one,plus,times,inverse,ord} fmath \<Rightarrow> 'a vec3 \<Rightarrow> 'a \<Rightarrow> 'a quat" where
  "quat_from_axis_angle m axis angle_rad =
     (let a = vec3_normalize m axis; half = angle_rad * fm_lit m (1 / 2); s = fm_sin m half
      in \<lparr>qx = x3 a * s, qy = y3 a * s, qz = z3 a * s, qw = fm_cos m half\<rparr>)"

definition quat_mul :: "'a::{plus,minus,times} quat \<Rightarrow> 'a quat \<Rightarrow> 'a quat" where
  "quat_mul a b =
     \<lparr>qx = qw a * qx b + qx a * qw b + qy a * qz b - qz a * qy b,
      qy = qw a * qy b - qx a * qz b + qy a * qw b + qz a * qx b,
      qz = qw a * qz b + qx a * qy b - qy a * qx b + qz a * qw b,
      qw = qw a * qw b - qx a * qx b - qy a * qy b - qz a * qz b\<rparr>"

definition quat_normalize :: "'a::{zero,one,plus,times,inverse,ord} fmath \<Rightarrow> 'a quat \<Rightarrow> 'a quat" where
  "quat_normalize m q =
     (let len = fm_sqrt m (qx q * qx q + qy q * qy q + qz q * qz q + qw q * qw q)
      in if len \<le> 0 then quat_identity
         else let inv = 1 / len in \<lparr>qx = qx q * inv, qy = qy q * inv, qz = qz q * inv, qw = qw q * inv\<rparr>)"

definition quat_conjugate :: "'a::uminus quat \<Rightarrow> 'a quat" where
  "quat_conjugate q = \<lparr>qx = - qx q, qy = - qy q, qz = - qz q, qw = qw q\<rparr>"

definition quat_rotate_vec3 :: "'a::{plus,minus,times} fmath \<Rightarrow> 'a quat \<Rightarrow> 'a vec3 \<Rightarrow> 'a vec3" where
  "quat_rotate_vec3 m q v =
     (let qv = \<lparr>x3 = qx q, y3 = qy q, z3 = qz q\<rparr>; t = vec3_scale (vec3_cross qv v) (fm_lit m 2)
      in vec3_add (vec3_add v (vec3_scale t (qw q))) (vec3_cross qv t))"

definition quat_slerp ::
  "'a::{zero,one,plus,minus,uminus,times,inverse,ord} fmath \<Rightarrow> 'a quat \<Rightarrow> 'a quat \<Rightarrow> 'a \<Rightarrow> 'a quat" where
  "quat_slerp m a b t =
     (let dot = qx a * qx b + qy a * qy b + qz a * qz b + qw a * qw b;
          (b, dot) = (if dot < 0 then (\<lparr>qx = - qx b, qy = - qy b, qz = - qz b, qw = - qw b\<rparr>, - dot) else (b, dot))
      in if dot > fm_lit m (9995 / 10000) then
           quat_normalize m \<lparr>qx = qx a + (qx b - qx a) * t, qy = qy a + (qy b - qy a) * t,
             qz = qz a + (qz b - qz a) * t, qw = qw a + (qw b - qw a) * t\<rparr>
         else let theta = fm_acos m dot; sin_theta = fm_sin m theta;
                  wa = fm_sin m ((1 - t) * theta) / sin_theta; wb = fm_sin m (t * theta) / sin_theta
              in \<lparr>qx = qx a * wa + qx b * wb, qy = qy a * wa + qy b * wb,
                  qz = qz a * wa + qz b * wb, qw = qw a * wa + qw b * wb\<rparr>)"

definition quat_to_mat4 :: "'a::{zero,one,plus,minus,times} fmath \<Rightarrow> 'a quat \<Rightarrow> 'a mat4" where
  "quat_to_mat4 m q =
     (let xx = qx q * qx q; yy = qy q * qy q; zz = qz q * qz q;
          xy = qx q * qy q; xz = qx q * qz q; yz = qy q * qz q;
          wx = qw q * qx q; wy = qw q * qy q; wz = qw q * qz q; two = fm_lit m 2
      in \<lparr>m16 = (m16 mat4_identity)[0 := 1 - two * (yy + zz), 1 := two * (xy + wz), 2 := two * (xz - wy),
           4 := two * (xy - wz), 5 := 1 - two * (xx + zz), 6 := two * (yz + wx),
           8 := two * (xz + wy), 9 := two * (yz - wx), 10 := 1 - two * (xx + yy)]\<rparr>)"

section \<open>Algebra\<close>

definition qdot :: "'a::comm_ring_1 quat \<Rightarrow> 'a quat \<Rightarrow> 'a" where
  "qdot a b = qx a * qx b + qy a * qy b + qz a * qz b + qw a * qw b"

text \<open>The reference: conjugation of the pure quaternion \<open>(v, 0)\<close> by \<open>q\<close>.\<close>

definition pure :: "'a::zero vec3 \<Rightarrow> 'a quat" where
  "pure v = \<lparr>qx = x3 v, qy = y3 v, qz = z3 v, qw = 0\<rparr>"

definition sandwich :: "'a::comm_ring_1 quat \<Rightarrow> 'a quat \<Rightarrow> 'a quat" where
  "sandwich q p = quat_mul (quat_mul q p) (quat_conjugate q)"

lemmas quat_defs = quat_mul_def quat_conjugate_def qdot_def pure_def sandwich_def

lemma quat_mul_assoc: "quat_mul (quat_mul a b) c = quat_mul a (quat_mul b (c :: 'a::comm_ring_1 quat))"
  by (simp add: quat_mul_def algebra_simps)

lemma quat_conjugate_mul: "quat_conjugate (quat_mul a b) = quat_mul (quat_conjugate b) (quat_conjugate (a :: 'a::comm_ring_1 quat))"
  by (simp add: quat_defs algebra_simps)

lemma quat_norm_mul: "qdot (quat_mul a b) (quat_mul a b) = qdot a a * qdot b (b :: 'a::comm_ring_1 quat)"
  by (simp add: quat_defs algebra_simps)

lemma quat_mul_conjugate: "quat_mul (quat_conjugate a) a = \<lparr>qx = 0, qy = 0, qz = 0, qw = qdot a (a :: 'a::comm_ring_1 quat)\<rparr>"
  by (simp add: quat_defs algebra_simps)

lemma quat_identity_neutral:
  "quat_mul quat_identity a = (a :: 'a::comm_ring_1 quat)" "quat_mul a quat_identity = a"
  by (simp_all add: quat_mul_def quat_identity_def)

lemma sandwich_mul: "sandwich (quat_mul a b) p = sandwich a (sandwich b p)"
  unfolding sandwich_def quat_conjugate_mul quat_mul_assoc ..

lemma pure_inj: "pure u = pure v \<Longrightarrow> u = v"
  by (simp add: pure_def)

text \<open>The expanded formula is the conjugation for unit quaternions.\<close>

lemma quat_rotate_sandwich:
  fixes q :: "real quat"
  assumes "qdot q q = 1"
  shows "pure (quat_rotate_vec3 exact q v) = sandwich q (pure v)"
proof -
  have "pure (quat_rotate_vec3 exact q v) =
      (let s = sandwich q (pure v); r = 1 - qdot q q
       in \<lparr>qx = qx s + r * x3 v, qy = qy s + r * y3 v, qz = qz s + r * z3 v, qw = qw s\<rparr>)"
    by (simp add: quat_rotate_vec3_def quat_defs vec3_ops Let_def algebra_simps)
  then show ?thesis using assms by (simp add: Let_def)
qed

lemma quat_rotate_isometry:
  fixes q :: "real quat"
  assumes "qdot q q = 1"
  shows "vec3_dot (quat_rotate_vec3 exact q u) (quat_rotate_vec3 exact q v) = vec3_dot u v"
proof -
  have d: "qdot (pure x) (pure y) = vec3_dot x y" for x y :: "real vec3" by (simp add: pure_def qdot_def vec3_dot_def)
  have "qdot (sandwich q (pure u)) (sandwich q (pure v)) = qdot q q * qdot q q * qdot (pure u) (pure v)"
    by (simp add: quat_defs algebra_simps)
  then show ?thesis using assms by (simp flip: d add: quat_rotate_sandwich)
qed

lemma quat_to_mat4_rotates:
  "mat4_mul_point (quat_to_mat4 exact q) v = quat_rotate_vec3 exact q (v :: real vec3)"
  by (simp add: mat4_mul_point_def mat4_mul_vec4_def quat_to_mat4_def quat_rotate_vec3_def vec3_ops M_def
      mat4_identity_eq Let_def numeral_eq_Suc algebra_simps)

lemma quat_from_axis_angle_unit:
  assumes "axis \<noteq> \<lparr>x3 = 0, y3 = 0, z3 = 0\<rparr>"
  shows "qdot (quat_from_axis_angle exact axis angle) (quat_from_axis_angle exact axis angle) = 1"
proof -
  define a where "a = vec3_normalize exact axis"
  have "x3 a * x3 a + y3 a * y3 a + z3 a * z3 a = 1"
    using vec3_normalize_unit(1) [OF assms] by (simp add: a_def vec3_dot_def)
  moreover have "(x3 a * s) * (x3 a * s) + (y3 a * s) * (y3 a * s) + (z3 a * s) * (z3 a * s)
      = (x3 a * x3 a + y3 a * y3 a + z3 a * z3 a) * (s * s)" for s by (simp add: algebra_simps)
  ultimately show ?thesis
    by (simp add: quat_from_axis_angle_def Let_def a_def [symmetric] qdot_def flip: power2_eq_square)
qed

lemma quat_to_mat4_list:
  "quat_to_mat4 exact \<lparr>qx = x, qy = y, qz = z, qw = w\<rparr> =
     \<lparr>m16 = [1 - 2 * (y * y + z * z), 2 * (x * y + w * z), 2 * (x * z - w * y), 0,
             2 * (x * y - w * z), 1 - 2 * (x * x + z * z), 2 * (y * z + w * x), 0,
             2 * (x * z + w * y), 2 * (y * z - w * x), 1 - 2 * (x * x + y * y), 0, 0, 0, 0, 1]\<rparr>"
  by (simp add: quat_to_mat4_def mat4_identity_eq Let_def numeral_eq_Suc)

lemma mat4_rotate_axis_list:
  assumes "vec3_normalize exact axis = \<lparr>x3 = x, y3 = y, z3 = z\<rparr>"
  shows "mat4_rotate_axis exact axis angle =
     (let c = cos angle; s = sin angle; t = 1 - c
      in \<lparr>m16 = [c + x * x * t, y * x * t + z * s, z * x * t - y * s, 0,
             x * y * t - z * s, c + y * y * t, z * y * t + x * s, 0,
             x * z * t + y * s, y * z * t - x * s, c + z * z * t, 0, 0, 0, 0, 1]\<rparr>)"
  by (simp add: mat4_rotate_axis_def assms set_M_def mat4_identity_eq Let_def numeral_eq_Suc)

lemma quat_axis_angle_matrix:
  assumes "axis \<noteq> \<lparr>x3 = 0, y3 = 0, z3 = 0\<rparr>"
  shows "quat_to_mat4 exact (quat_from_axis_angle exact axis angle) = mat4_rotate_axis exact axis angle"
proof -
  define a where "a = vec3_normalize exact axis"
  define s where "s = sin (angle / 2)"
  define c where "c = cos (angle / 2)"
  have u: "x3 a * x3 a + y3 a * y3 a + z3 a * z3 a = 1"
    using vec3_normalize_unit(1) [OF assms] by (simp add: a_def vec3_dot_def)
  have e: "s * s + c * c = 1" by (simp add: s_def c_def flip: power2_eq_square)
  have cs: "cos angle = 1 - 2 * (s * s)" "sin angle = 2 * (s * c)"
    using cos_double_sin [of "angle / 2"] sin_double [of "angle / 2"] by (simp_all add: s_def c_def power2_eq_square)
  have q: "quat_from_axis_angle exact axis angle = \<lparr>qx = x3 a * s, qy = y3 a * s, qz = z3 a * s, qw = c\<rparr>"
    by (simp add: quat_from_axis_angle_def Let_def a_def s_def c_def of_rat_divide)
  obtain x y z where a: "a = \<lparr>x3 = x, y3 = y, z3 = z\<rparr>" by (cases a)
  have "(y * s) * (y * s) + (z * s) * (z * s) = (y * y + z * z) * (s * s)"
    "(x * s) * (x * s) + (z * s) * (z * s) = (x * x + z * z) * (s * s)"
    "(x * s) * (x * s) + (y * s) * (y * s) = (x * x + y * y) * (s * s)" by (simp_all add: algebra_simps)
  moreover have "y * y + z * z = 1 - x * x" "x * x + z * z = 1 - y * y" "x * x + y * y = 1 - z * z" using u by (simp_all add: a)
  ultimately have d: "(y * s) * (y * s) + (z * s) * (z * s) = (1 - x * x) * (s * s)"
    "(x * s) * (x * s) + (z * s) * (z * s) = (1 - y * y) * (s * s)"
    "(x * s) * (x * s) + (y * s) * (y * s) = (1 - z * z) * (s * s)" by simp_all
  show ?thesis
    unfolding q a vec3.simps quat_to_mat4_list mat4_rotate_axis_list [OF a_def [symmetric, unfolded a]] Let_def cs
      mat4.ext_inject list.inject
    unfolding d by (simp add: algebra_simps)
qed

text \<open>
  C32. The three representations of a rotation agree in exact arithmetic: for unit quaternions the
  expanded rotation formula is conjugation, products compose rotations (the right factor first), the
  conjugate undoes, lengths and angles are kept, the matrix of a quaternion rotates like the
  quaternion, and the quaternion of an axis and an angle is a unit one whose matrix is
  \<open>mat4_rotate_axis\<close> of the same axis and angle.
\<close>

theorem quat_rotation_agrees:
  fixes a b :: "real quat"
  assumes "qdot a a = 1" and "qdot b b = 1" and "axis \<noteq> \<lparr>x3 = 0, y3 = 0, z3 = 0\<rparr>"
  shows "pure (quat_rotate_vec3 exact a v) = sandwich a (pure v)
     \<and> qdot (quat_mul a b) (quat_mul a b) = 1
     \<and> quat_rotate_vec3 exact (quat_mul a b) v = quat_rotate_vec3 exact a (quat_rotate_vec3 exact b v)
     \<and> quat_rotate_vec3 exact (quat_conjugate a) (quat_rotate_vec3 exact a v) = v
     \<and> vec3_dot (quat_rotate_vec3 exact a u) (quat_rotate_vec3 exact a v) = vec3_dot u v
     \<and> mat4_mul_point (quat_to_mat4 exact a) v = quat_rotate_vec3 exact a v
     \<and> qdot (quat_from_axis_angle exact axis angle) (quat_from_axis_angle exact axis angle) = 1
     \<and> quat_to_mat4 exact (quat_from_axis_angle exact axis angle) = mat4_rotate_axis exact axis angle"
proof -
  have n: "qdot (quat_mul a b) (quat_mul a b) = 1" "qdot (quat_conjugate a) (quat_conjugate a) = 1"
    using assms(1,2) by (simp_all add: quat_norm_mul) (simp add: quat_conjugate_def qdot_def)
  have "pure (quat_rotate_vec3 exact (quat_mul a b) v) = pure (quat_rotate_vec3 exact a (quat_rotate_vec3 exact b v))"
    by (simp add: quat_rotate_sandwich assms n sandwich_mul)
  moreover have "pure (quat_rotate_vec3 exact (quat_conjugate a) (quat_rotate_vec3 exact a v)) = pure v"
    by (simp add: quat_rotate_sandwich assms n quat_mul_conjugate flip: sandwich_mul) (simp add: quat_defs)
  ultimately show ?thesis
    using n(1) quat_rotate_sandwich [OF assms(1)] quat_rotate_isometry [OF assms(1)] quat_to_mat4_rotates
      quat_from_axis_angle_unit [OF assms(3)] quat_axis_angle_matrix [OF assms(3)] pure_inj
    by blast
qed

theorem quat_rotation_agrees_witness:
  "quat_rotate_vec3 exact (quat_mul \<lparr>qx = 3 / 5, qy = 0, qz = 0, qw = 4 / 5\<rparr> \<lparr>qx = 0, qy = 1, qz = 0, qw = 0\<rparr>) \<lparr>x3 = 1, y3 = 2, z3 = 3\<rparr>
     = quat_rotate_vec3 exact \<lparr>qx = 3 / 5, qy = 0, qz = 0, qw = 4 / 5\<rparr>
         (quat_rotate_vec3 exact \<lparr>qx = 0, qy = 1, qz = 0, qw = 0\<rparr> \<lparr>x3 = 1, y3 = 2, z3 = 3\<rparr>)
   \<and> quat_to_mat4 exact (quat_from_axis_angle exact \<lparr>x3 = 1, y3 = 1, z3 = 0\<rparr> 2) = mat4_rotate_axis exact \<lparr>x3 = 1, y3 = 1, z3 = 0\<rparr> 2"
  using quat_rotation_agrees [of "\<lparr>qx = 3 / 5, qy = 0, qz = 0, qw = 4 / 5\<rparr>" "\<lparr>qx = 0, qy = 1, qz = 0, qw = 0\<rparr>"
      "\<lparr>x3 = 1, y3 = 1, z3 = 0\<rparr>" "\<lparr>x3 = 1, y3 = 2, z3 = 3\<rparr>" undefined 2]
  by (simp add: qdot_def)

section \<open>Interpolation\<close>

lemma slerp_weights:
  fixes t theta :: real
  assumes "sin theta \<noteq> 0"
  defines "wa \<equiv> sin ((1 - t) * theta) / sin theta" and "wb \<equiv> sin (t * theta) / sin theta"
  shows "wa * wa + wb * wb + 2 * (wa * wb) * cos theta = (1 :: real)"
proof -
  define A where "A = (1 - t) * theta"
  define B where "B = t * theta"
  have th: "theta = A + B" by (simp add: A_def B_def algebra_simps)
  have "sin A * sin A + sin B * sin B + 2 * (sin A * sin B) * cos theta = sin theta * sin theta"
  proof -
    have p: "sin A * sin A + cos A * cos A = 1" "sin B * sin B + cos B * cos B = 1"
      by (simp_all flip: power2_eq_square)
    show ?thesis unfolding th sin_add cos_add using p by algebra
  qed
  then have "(sin A * sin A + sin B * sin B + 2 * (sin A * sin B) * cos theta) / (sin theta * sin theta) = 1"
    using assms(1) by simp
  then show ?thesis by (simp add: wa_def wb_def A_def B_def add_divide_distrib)
qed

text \<open>
  The interpolation of unit quaternions is a unit quaternion, starts at \<open>a\<close>, and ends at the rotation
  of \<open>b\<close>, in both cases of the code.
\<close>

lemma quat_slerp_unit:
  fixes a b :: "real quat"
  assumes "qdot a a = 1" and "qdot b b = 1" and "0 \<le> t" and "t \<le> 1"
  shows "qdot (quat_slerp exact a b t) (quat_slerp exact a b t) = 1"
    and "t = 0 \<Longrightarrow> quat_slerp exact a b t = a"
    and "t = 1 \<Longrightarrow> quat_slerp exact a b t \<in> {b, \<lparr>qx = - qx b, qy = - qy b, qz = - qz b, qw = - qw b\<rparr>}"
proof -
  define c where "c = (if qdot a b < 0 then \<lparr>qx = - qx b, qy = - qy b, qz = - qz b, qw = - qw b\<rparr> else b)"
  define d where "d = \<bar>qdot a b\<bar>"
  have cc: "qdot c c = 1" and ac: "qdot a c = d" using assms(2) by (auto simp: c_def d_def qdot_def)
  have lit: "of_rat (9995 / 10000) = (9995 / 10000 :: real)" by (simp add: of_rat_divide)
  let ?l = "\<lparr>qx = qx a + (qx c - qx a) * t, qy = qy a + (qy c - qy a) * t, qz = qz a + (qz c - qz a) * t, qw = qw a + (qw c - qw a) * t\<rparr>"
  let ?s = "\<lambda>wa wb. \<lparr>qx = qx a * wa + qx c * wb, qy = qy a * wa + qy c * wb, qz = qz a * wa + qz c * wb, qw = qw a * wa + qw c * wb\<rparr>"
  have sl: "quat_slerp exact a b t = (if d > 9995 / 10000 then quat_normalize exact ?l
      else ?s (sin ((1 - t) * arccos d) / sin (arccos d)) (sin (t * arccos d) / sin (arccos d)))"
  proof (cases "qdot a b < 0")
    case True
    then show ?thesis using lit by (simp add: quat_slerp_def Let_def c_def d_def qdot_def)
  next
    case False
    then show ?thesis using lit by (simp add: quat_slerp_def Let_def c_def d_def qdot_def)
  qed
  have sq: "qdot (?s x y) (?s x y) = qdot a a * (x * x) + qdot c c * (y * y) + 2 * (x * y) * qdot a c" for x y
    by (simp add: qdot_def algebra_simps)
  have "d * d \<le> 1"
  proof -
    have "0 \<le> qdot (?s 1 (- d)) (?s 1 (- d))" by (simp add: qdot_def)
    then show ?thesis unfolding sq by (simp add: assms(1) cc ac)
  qed
  then have "(qdot a b)\<^sup>2 \<le> 1" by (simp add: d_def power2_eq_square)
  then have d1: "0 \<le> d" "d \<le> 1" unfolding abs_square_le_1 by (simp_all add: d_def)
  have near: "qdot (quat_normalize exact q) (quat_normalize exact q) = 1
      \<and> (qdot q q = 1 \<longrightarrow> quat_normalize exact q = q)" if "0 < qdot q q" for q :: "real quat"
  proof -
    define l where "l = sqrt (qdot q q)"
    have l: "0 < l" "l * l = qdot q q" using that by (simp_all add: l_def)
    have n: "quat_normalize exact q = \<lparr>qx = qx q * (1 / l), qy = qy q * (1 / l), qz = qz q * (1 / l), qw = qw q * (1 / l)\<rparr>"
      using l(1) by (simp add: quat_normalize_def l_def qdot_def Let_def)
    have "qdot (quat_normalize exact q) (quat_normalize exact q) = qdot q q * (1 / l * (1 / l))"
      unfolding n by (simp add: qdot_def algebra_simps add_divide_distrib)
    then show ?thesis using l that by (auto simp: n l_def)
  qed
  have lpos: "0 < qdot ?l ?l" if "d > 9995 / 10000"
  proof -
    have "qdot ?l ?l = (1 - t) * (1 - t) + t * t + 2 * (1 - t) * t * d"
    proof -
      have "?l = ?s (1 - t) t" by (simp add: algebra_simps)
      then show ?thesis using sq [of "1 - t" t] unfolding assms(1) cc ac by simp
    qed
    moreover have "0 \<le> 2 * (1 - t) * t * d" using assms(3,4) d1 by simp
    moreover have "0 < (1 - t) * (1 - t) + t * t"
      unfolding sum_squares_gt_zero_iff by auto
    ultimately show ?thesis by linarith
  qed
  have sn: "sin (arccos d) \<noteq> 0" if "\<not> d > 9995 / 10000"
  proof -
    have "d < 1" using that by simp
    then have "d * d < 1 * 1" using d1 by (intro mult_strict_mono') simp_all
    then show ?thesis using d1 by (simp add: sin_arccos power2_eq_square)
  qed
  have ca: "cos (arccos d) = d" using d1 by simp
  show "qdot (quat_slerp exact a b t) (quat_slerp exact a b t) = 1"
  proof (cases "d > 9995 / 10000")
    case True
    then show ?thesis unfolding sl using near [OF lpos] by simp
  next
    case False
    define wa where "wa = sin ((1 - t) * arccos d) / sin (arccos d)"
    define wb where "wb = sin (t * arccos d) / sin (arccos d)"
    have "wa * wa + wb * wb + 2 * (wa * wb) * d = 1"
      using slerp_weights [OF sn [OF False], of t] unfolding ca wa_def wb_def .
    moreover have "quat_slerp exact a b t = ?s wa wb" using False unfolding sl wa_def wb_def by (simp only: if_False)
    ultimately show ?thesis using sq [of wa wb] unfolding assms(1) cc ac by simp
  qed
  have eta: "\<lparr>qx = qx p, qy = qy p, qz = qz p, qw = qw p\<rparr> = p" for p :: "real quat" by simp
  show "quat_slerp exact a b t = a" if "t = 0"
  proof (cases "d > 9995 / 10000")
    case True
    then show ?thesis unfolding sl using near [OF lpos] assms(1) that by (simp add: eta)
  next
    case False
    then show ?thesis unfolding sl using sn that by (simp add: eta)
  qed
  have "quat_slerp exact a b t = c" if "t = 1"
  proof (cases "d > 9995 / 10000")
    case True
    then show ?thesis unfolding sl using near [OF lpos] cc that by (simp add: eta)
  next
    case False
    then show ?thesis unfolding sl using sn that by (simp add: eta)
  qed
  then show "t = 1 \<Longrightarrow> quat_slerp exact a b t \<in> {b, \<lparr>qx = - qx b, qy = - qy b, qz = - qz b, qw = - qw b\<rparr>}"
    by (auto simp: c_def)
qed

end
