(* ===== verification/Stats.thy ===== *)
theory Stats
  imports VecMath Loops Core
begin

text \<open>
  Descriptive statistics of \<open>src/math/stats.c\<close>. Two number types occur, the \<open>float\<close> of the data and
  the \<open>double\<close> of the sums; \<open>widen\<close> and \<open>narrow\<close> are the casts between them. Reading outside the
  data is \<open>None\<close>; an output is \<open>Some\<close> when it is written.
\<close>

section \<open>Operations\<close>

definition stats_mean :: "('a \<Rightarrow> 'b) \<Rightarrow> ('b \<Rightarrow> 'a) \<Rightarrow> 'b::{zero,plus,inverse} fmath
    \<Rightarrow> 'a list option \<Rightarrow> size_t \<Rightarrow> bool \<Rightarrow> (error_code \<times> 'a option) ub" where
  "stats_mean widen narrow m data n out =
     (if data = None \<or> n = 0 \<or> \<not> out then Some (ERR_INVALID_ARG, None)
      else do { sum \<leftarrow> for_each [0 ..< unat n] (\<lambda>i sum. do { x \<leftarrow> elt (the data) i; Some (sum + widen x) }) 0;
                Some (ERR_OK, Some (narrow (sum / fm_nat m (unat n)))) })"

text \<open>One turn of Welford's algorithm on \<open>(mean, m2)\<close> with the value \<open>x\<close> at index \<open>i\<close>.\<close>

definition welford_step :: "'b::{plus,minus,times,inverse} fmath \<Rightarrow> nat \<Rightarrow> 'b \<Rightarrow> 'b \<times> 'b \<Rightarrow> 'b \<times> 'b" where
  "welford_step m i x s =
     (case s of (mean, m2) \<Rightarrow>
        let delta = x - mean; mean' = mean + delta / fm_nat m (i + 1) in (mean', m2 + delta * (x - mean')))"

definition stats_variance :: "('a \<Rightarrow> 'b) \<Rightarrow> ('b \<Rightarrow> 'a) \<Rightarrow> 'b::{zero,plus,minus,times,inverse} fmath
    \<Rightarrow> 'a list option \<Rightarrow> size_t \<Rightarrow> bool \<Rightarrow> (error_code \<times> 'a option) ub" where
  "stats_variance widen narrow m data n out =
     (if data = None \<or> n < 2 \<or> \<not> out then Some (ERR_INVALID_ARG, None)
      else do { (mean, m2) \<leftarrow> for_each [0 ..< unat n]
                  (\<lambda>i s. do { x \<leftarrow> elt (the data) i; Some (welford_step m i (widen x) s) }) (0, 0);
                Some (ERR_OK, Some (narrow (m2 / fm_nat m (unat (n - 1))))) })"

definition stats_min_max :: "'a::ord list option \<Rightarrow> size_t \<Rightarrow> bool \<Rightarrow> bool
    \<Rightarrow> (error_code \<times> 'a option \<times> 'a option) ub" where
  "stats_min_max data n out_min out_max =
     (if data = None \<or> n = 0 \<or> (\<not> out_min \<and> \<not> out_max) then Some (ERR_INVALID_ARG, None, None)
      else do { x0 \<leftarrow> elt (the data) 0;
                (lo, hi) \<leftarrow> for_each [1 ..< unat n] (\<lambda>i (lo, hi). do { x \<leftarrow> elt (the data) i;
                  let lo = (if x < lo then x else lo); hi = (if x > hi then x else hi) in Some (lo, hi) }) (x0, x0);
                Some (ERR_OK, (if out_min then Some lo else None), (if out_max then Some hi else None)) })"

section \<open>Exact arithmetic\<close>

definition mean_of :: "real list \<Rightarrow> real" where
  "mean_of d = sum_list d / of_nat (length d)"

definition square_dev :: "real list \<Rightarrow> real" where
  "square_dev d = (\<Sum>x \<leftarrow> d. (x - mean_of d) * (x - mean_of d))"

lemma sum_list_sq_dev: "(\<Sum>x \<leftarrow> d. (x - c) * (x - c)) = (\<Sum>x \<leftarrow> d. x * x) - 2 * c * sum_list d + of_nat (length d) * (c * (c :: real))"
  by (induction d) (simp_all add: algebra_simps)

lemma square_dev_eq: "d \<noteq> [] \<Longrightarrow> square_dev d = (\<Sum>x \<leftarrow> d. x * x) - of_nat (length d) * (mean_of d * mean_of d)"
proof -
  assume "d \<noteq> []"
  then have "sum_list d = of_nat (length d) * mean_of d" by (simp add: mean_of_def)
  then show ?thesis unfolding square_dev_def sum_list_sq_dev by (simp add: algebra_simps)
qed

text \<open>Welford's update keeps the mean and the sum of the squared deviations of what it has seen.\<close>

lemma welford_step_exact:
  assumes "i = length d" and "d \<noteq> [] \<or> s = (0, 0)" and "d \<noteq> [] \<Longrightarrow> s = (mean_of d, square_dev d)"
  shows "welford_step exact i x s = (mean_of (d @ [x]), square_dev (d @ [x]))"
proof (cases "d = []")
  case True
  then show ?thesis using assms by (simp add: welford_step_def mean_of_def square_dev_def)
next
  case False
  define n where "n = (of_nat (length d) :: real)"
  define a where "a = mean_of d"
  define b where "b = mean_of (d @ [x])"
  have n: "0 < n" using False by (simp add: n_def)
  have sd: "sum_list d = n * a" using n by (simp add: a_def mean_of_def n_def)
  have b: "b = a + (x - a) / (n + 1)"
    using n by (simp add: b_def mean_of_def sd n_def [symmetric] field_simps)
  have nb: "(n + 1) * b = n * a + x" using n by (simp add: b field_simps)
  have "square_dev (d @ [x]) = square_dev d + n * (a * a) + x * x - (n + 1) * (b * b)"
    using False by (simp add: square_dev_eq a_def b_def n_def algebra_simps)
  also have "\<dots> = square_dev d + (x - a) * (x - b)"
    using nb by algebra
  finally show ?thesis
    using assms False b by (simp add: welford_step_def Let_def a_def b_def n_def add.commute)
qed

lemma welford_loop:
  assumes "n \<le> length d" and "0 < n"
  shows "for_each [0 ..< n] (\<lambda>i s. do { x \<leftarrow> elt d i; Some (welford_step exact i (id x) s) }) (0, 0)
       = Some (mean_of (take n d), square_dev (take n d))"
proof -
  have "\<exists>t. for_each [0 ..< n] (\<lambda>i s. do { x \<leftarrow> elt d i; Some (welford_step exact i (id x) s) }) (0, 0) = Some t
      \<and> (n = 0 \<and> t = (0, 0) \<or> 0 < n \<and> t = (mean_of (take n d), square_dev (take n d)))"
  proof (rule for_each_invariant)
    fix i t assume "i < n" and t: "i = 0 \<and> t = (0, 0) \<or> 0 < i \<and> t = (mean_of (take i d), square_dev (take i d))"
    then have i: "i < length d" "length (take i d) = i" using assms(1) by auto
    have "welford_step exact i (d ! i) t = (mean_of (take i d @ [d ! i]), square_dev (take i d @ [d ! i]))"
      by (rule welford_step_exact) (use t i in auto)
    then show "\<exists>t'. do { x \<leftarrow> elt d i; Some (welford_step exact i (id x) t) } = Some t'
        \<and> (Suc i = 0 \<and> t' = (0, 0) \<or> 0 < Suc i \<and> t' = (mean_of (take (Suc i) d), square_dev (take (Suc i) d)))"
      using i(1) by (simp add: take_Suc_conv_app_nth)
  qed simp_all
  then show ?thesis using assms(2) by auto
qed

lemma min_max_loop:
  fixes d :: "'a::linorder list"
  assumes "0 < n" and "n \<le> length d"
  shows "for_each [1 ..< n] (\<lambda>i (lo, hi). do { x \<leftarrow> elt d i;
           let lo = (if x < lo then x else lo); hi = (if x > hi then x else hi) in Some (lo, hi) }) (d ! 0, d ! 0)
       = Some (Min (set (take n d)), Max (set (take n d)))"
proof -
  have ne: "set (take i d) \<noteq> {}" if "0 < i" for i using that assms by auto
  have "\<exists>t. for_each [1 ..< n] (\<lambda>i (lo, hi). do { x \<leftarrow> elt d i;
           let lo = (if x < lo then x else lo); hi = (if x > hi then x else hi) in Some (lo, hi) }) (d ! 0, d ! 0)
       = Some t \<and> 0 < n \<and> t = (Min (set (take n d)), Max (set (take n d)))"
  proof (rule for_each_invariant)
    show "0 < (1 :: nat) \<and> (d ! 0, d ! 0) = (Min (set (take 1 d)), Max (set (take 1 d)))"
      using assms by (cases d) auto
    fix i and t :: "'a \<times> 'a"
    assume i: "1 \<le> i" "i < n" and t: "0 < i \<and> t = (Min (set (take i d)), Max (set (take i d)))"
    have ins: "set (take (Suc i) d) = insert (d ! i) (set (take i d))" using i assms by (simp add: take_Suc_conv_app_nth)
    have "set (take i d) \<noteq> {}" using ne [of i] i by simp
    then have "Min (set (take (Suc i) d)) = min (d ! i) (Min (set (take i d)))"
      "Max (set (take (Suc i) d)) = max (d ! i) (Max (set (take i d)))"
      unfolding ins by (simp_all only: Min_insert Max_insert finite_set not_False_eq_True)
    moreover have "i < length d" using i assms(2) by simp
    moreover have "(if x < m then x else m) = min x m" "(if m < x then x else m) = max x m" for x m :: 'a by auto
    ultimately show "\<exists>t'. (case t of (lo, hi) \<Rightarrow> do { x \<leftarrow> elt d i;
           let lo = (if x < lo then x else lo); hi = (if x > hi then x else hi) in Some (lo, hi) }) = Some t'
        \<and> 0 < Suc i \<and> t' = (Min (set (take (Suc i) d)), Max (set (take (Suc i) d)))"
      using t by (simp add: Let_def)
  qed (use assms in simp)
  then show ?thesis by blast
qed

lemma mean_loop:
  "n \<le> length d \<Longrightarrow> for_each [0 ..< n] (\<lambda>i sum. do { x \<leftarrow> elt d i; Some (sum + id x) }) 0 = Some (sum_list (take n (d :: real list)))"
  by (induction n) (simp_all add: take_Suc_conv_app_nth)

text \<open>
  In exact arithmetic \<open>stats_mean\<close> is the arithmetic mean, the single pass of \<open>stats_variance\<close> is
  the two-pass sample variance with denominator \<open>n - 1\<close>, and \<open>stats_min_max\<close> delivers the least and
  the greatest element; nothing outside the first \<open>n\<close> elements is read, and a null pointer or too
  small an \<open>n\<close> is refused with nothing written.
\<close>

theorem stats_match_textbook:
  fixes d :: "real list"
  assumes "unat n \<le> length d"
  defines "s \<equiv> take (unat n) d"
  shows "stats_mean id id exact (Some d) n True
           = Some (if n = 0 then (ERR_INVALID_ARG, None) else (ERR_OK, Some (sum_list s / of_nat (length s))))
       \<and> stats_variance id id exact (Some d) n True
           = Some (if n < 2 then (ERR_INVALID_ARG, None)
                   else (ERR_OK, Some ((\<Sum>x \<leftarrow> s. (x - sum_list s / of_nat (length s)) ^ 2) / (of_nat (length s) - 1))))
       \<and> stats_min_max (Some d) n True True
           = Some (if n = 0 then (ERR_INVALID_ARG, None, None) else (ERR_OK, Some (Min (set s)), Some (Max (set s))))"
proof -
  have len: "length s = unat n" using assms by simp
  have "stats_mean id id exact (Some d) n True
      = Some (if n = 0 then (ERR_INVALID_ARG, None) else (ERR_OK, Some (sum_list s / of_nat (length s))))"
    using mean_loop [OF assms(1)] by (simp add: stats_mean_def len) (simp add: s_def)
  moreover have "stats_variance id id exact (Some d) n True = Some (if n < 2 then (ERR_INVALID_ARG, None)
      else (ERR_OK, Some ((\<Sum>x \<leftarrow> s. (x - sum_list s / of_nat (length s)) ^ 2) / (of_nat (length s) - 1))))"
  proof (cases "n < 2")
    case False
    then have n2: "2 \<le> unat n" by (simp add: not_less word_le_unat)
    then have n1: "1 \<le> n" by (simp add: word_le_unat)
    have "real (unat (n - 1)) = of_nat (length s) - 1" using n2 by (simp add: unat_diff_le [OF n1] len of_nat_diff)
    then show ?thesis using False n2 welford_loop [OF assms(1)]
      by (simp add: stats_variance_def s_def [symmetric] square_dev_def mean_of_def power2_eq_square)
  qed (simp add: stats_variance_def)
  moreover have "stats_min_max (Some d) n True True
      = Some (if n = 0 then (ERR_INVALID_ARG, None, None) else (ERR_OK, Some (Min (set s)), Some (Max (set s))))"
  proof (cases "n = 0")
    case False
    then have n: "0 < unat n" by (simp add: unat_pos_iff)
    have "for_each [1 ..< unat n] (\<lambda>i (lo, hi). do { x \<leftarrow> elt d i;
           let lo = (if x < lo then x else lo); hi = (if x > hi then x else hi) in Some (lo, hi) }) (d ! 0, d ! 0)
       = Some (Min (set s), Max (set s))" unfolding s_def by (rule min_max_loop [OF n assms(1)])
    moreover have "0 < length d" using n assms(1) by linarith
    ultimately show ?thesis using False by (simp add: stats_min_max_def)
  qed (simp add: stats_min_max_def)
  ultimately show ?thesis by blast
qed

theorem stats_match_textbook_witness:
  "stats_variance id id exact (Some [1, 2, 6]) 3 True = Some (ERR_OK, Some 7)
   \<and> stats_min_max (Some [1, 2, 6 :: real]) 3 True True = Some (ERR_OK, Some 1, Some 6)"
  using stats_match_textbook [of 3 "[1, 2, 6]"] by simp

end
