(* ===== verification/Physics.thy ===== *)
theory Physics
  imports VecMath Loops
begin

text \<open>
  The particle simulation of \<open>src/simulation/physics.c\<close>. A null pointer is \<open>None\<close>. The two particles of
  a spring or a collision are given by value: if they are the same object the distance is zero and
  both functions return without a change.
\<close>

section \<open>Operations\<close>

record 'a particle =
  pos :: "'a vec3"
  vel :: "'a vec3"
  prev_pos :: "'a vec3"
  mass :: 'a

text \<open>The loop over the particles.\<close>

definition each_particle :: "size_t \<Rightarrow> ('a particle \<Rightarrow> 'a particle) \<Rightarrow> 'a particle list \<Rightarrow> 'a particle list ub" where
  "each_particle count f ps =
     for_each [0 ..< unat count] (\<lambda>i ps. do { p \<leftarrow> elt ps i; Some (ps[i := f p]) }) ps"

definition physics_step_euler ::
  "'a::{plus,times} particle list option \<Rightarrow> size_t \<Rightarrow> 'a \<Rightarrow> 'a vec3 \<Rightarrow> 'a particle list option ub" where
  "physics_step_euler particles count dt gravity =
     (case particles of
        None \<Rightarrow> Some None
      | Some ps \<Rightarrow> map_option Some (each_particle count
          (\<lambda>p. let p = p\<lparr>vel := vec3_add (vel p) (vec3_scale gravity dt)\<rparr>
               in p\<lparr>pos := vec3_add (pos p) (vec3_scale (vel p) dt)\<rparr>) ps))"

definition physics_step_verlet ::
  "'a::{zero,one,plus,minus,times,inverse,ord} fmath \<Rightarrow> 'a particle list option \<Rightarrow> size_t \<Rightarrow> 'a \<Rightarrow> 'a vec3
    \<Rightarrow> 'a particle list option ub" where
  "physics_step_verlet m particles count dt gravity =
     (case particles of
        None \<Rightarrow> Some None
      | Some ps \<Rightarrow>
          if feq dt 0 then Some (Some ps)
          else map_option Some (each_particle count
            (\<lambda>p. let next = vec3_add (vec3_sub (vec3_scale (pos p) (fm_lit m 2)) (prev_pos p)) (vec3_scale gravity (dt * dt));
                     p = p\<lparr>prev_pos := pos p\<rparr>; p = p\<lparr>pos := next\<rparr>
                 in p\<lparr>vel := vec3_scale (vec3_sub (pos p) (prev_pos p)) (1 / dt)\<rparr>) ps))"

definition physics_apply_spring ::
  "'a::{zero,plus,minus,times,inverse,ord} fmath \<Rightarrow> 'a particle option \<Rightarrow> 'a particle option \<Rightarrow> 'a \<Rightarrow> 'a \<Rightarrow> 'a \<Rightarrow> 'a
    \<Rightarrow> 'a particle option \<times> 'a particle option" where
  "physics_apply_spring m ap bp rest_len k damping dt =
     (case (ap, bp) of
        (Some a, Some b) \<Rightarrow>
          if mass a \<le> 0 \<or> mass b \<le> 0 then (ap, bp)
          else
            let delta = vec3_sub (pos b) (pos a); dist = vec3_length m delta
            in if dist < fm_lit m (1 / 10 ^ 8) then (ap, bp)
               else
                 let force = k * (dist - rest_len);
                     rel_v = vec3_dot (vec3_sub (vel b) (vel a)) delta / dist;
                     force = force + damping * rel_v;
                     impulse = vec3_scale delta (force / dist)
                 in (Some (a\<lparr>vel := vec3_add (vel a) (vec3_scale impulse (dt / mass a))\<rparr>),
                     Some (b\<lparr>vel := vec3_sub (vel b) (vec3_scale impulse (dt / mass b))\<rparr>))
      | _ \<Rightarrow> (ap, bp))"

definition physics_collide_spheres ::
  "'a::{zero,one,plus,minus,times,inverse,ord} fmath \<Rightarrow> 'a particle option \<Rightarrow> 'a particle option \<Rightarrow> 'a
    \<Rightarrow> 'a particle option \<times> 'a particle option" where
  "physics_collide_spheres m ap bp radius =
     (case (ap, bp) of
        (Some a, Some b) \<Rightarrow>
          let delta = vec3_sub (pos b) (pos a); dist2 = vec3_dot delta delta; min_dist = fm_lit m 2 * radius
          in if dist2 \<ge> min_dist * min_dist \<or> dist2 < fm_lit m (1 / 10 ^ 12) then (ap, bp)
             else
               let dist = fm_sqrt m dist2; normal = vec3_scale delta (1 / dist);
                   ma = (if mass a > 0 then mass a else 1); mb = (if mass b > 0 then mass b else 1);
                   inv_mass = 1 / (ma + mb);
                   push = vec3_scale normal (min_dist - dist);
                   a = a\<lparr>pos := vec3_sub (pos a) (vec3_scale push (mb * inv_mass))\<rparr>;
                   b = b\<lparr>pos := vec3_add (pos b) (vec3_scale push (ma * inv_mass))\<rparr>;
                   va = vec3_dot (vel a) normal; vb = vec3_dot (vel b) normal;
                   va2 = (va * (ma - mb) + fm_lit m 2 * mb * vb) * inv_mass;
                   vb2 = (vb * (mb - ma) + fm_lit m 2 * ma * va) * inv_mass
               in (Some (a\<lparr>vel := vec3_add (vel a) (vec3_scale normal (va2 - va))\<rparr>),
                   Some (b\<lparr>vel := vec3_add (vel b) (vec3_scale normal (vb2 - vb))\<rparr>))
      | _ \<Rightarrow> (ap, bp))"

text \<open>One axis of the box: position and velocity.\<close>

definition confine_axis :: "'a::{zero,uminus,times,ord} \<Rightarrow> 'a \<Rightarrow> 'a \<times> 'a \<Rightarrow> 'a \<times> 'a" where
  "confine_axis limit restitution s =
     (case s of (x, v) \<Rightarrow>
        let (x, v) = (if x < 0 then (0, - v * restitution) else (x, v))
        in if x > limit then (limit, - v * restitution) else (x, v))"

definition physics_confine_box :: "'a::{zero,uminus,times,ord} particle option \<Rightarrow> 'a vec3 \<Rightarrow> 'a \<Rightarrow> 'a particle option" where
  "physics_confine_box pp bounds restitution =
     (case pp of
        None \<Rightarrow> None
      | Some p \<Rightarrow>
          let (px, vx) = confine_axis (x3 bounds) restitution (x3 (pos p), x3 (vel p));
              (py, vy) = confine_axis (y3 bounds) restitution (y3 (pos p), y3 (vel p));
              (pz, vz) = confine_axis (z3 bounds) restitution (z3 (pos p), z3 (vel p))
          in Some (p\<lparr>pos := \<lparr>x3 = px, y3 = py, z3 = pz\<rparr>, vel := \<lparr>x3 = vx, y3 = vy, z3 = vz\<rparr>\<rparr>))"

section \<open>Loops and the integrators\<close>

lemma each_particle_map:
  assumes "unat count \<le> length ps"
  shows "each_particle count f ps = Some (map f (take (unat count) ps) @ drop (unat count) ps)"
proof -
  have "each_particle count f ps = Some (map (\<lambda>i. f (ps ! i)) [0 ..< unat count] @ drop (unat count) ps)"
    unfolding each_particle_def by (rule for_each_update [OF assms]) (use assms in simp)
  moreover have "map (\<lambda>i. f (ps ! i)) [0 ..< unat count] = map f (take (unat count) ps)"
    using assms by (intro nth_equalityI) simp_all
  ultimately show ?thesis by simp
qed

text \<open>Motion under constant acceleration.\<close>

definition ballistic :: "real vec3 \<Rightarrow> real vec3 \<Rightarrow> real vec3 \<Rightarrow> real \<Rightarrow> real vec3" where
  "ballistic p0 v0 g t = vec3_add (vec3_add p0 (vec3_scale v0 t)) (vec3_scale g (t * t / 2))"

text \<open>The Verlet step follows it exactly, and its velocity is that of the middle of the step.\<close>

lemma verlet_follows_ballistic:
  assumes "dt \<noteq> 0" and "pos p = ballistic p0 v0 g t" and "prev_pos p = ballistic p0 v0 g (t - dt)"
  shows "\<exists>q. physics_step_verlet exact (Some [p]) 1 dt g = Some (Some [q])
     \<and> pos q = ballistic p0 v0 g (t + dt) \<and> prev_pos q = ballistic p0 v0 g t \<and> mass q = mass p
     \<and> vel q = vec3_add v0 (vec3_scale g (t + dt / 2))"
proof -
  have e: "2 * dt + dt * dt * c = dt * (2 + dt * c)" for c by (simp add: algebra_simps)
  have "vec3_add (vec3_sub (vec3_scale (ballistic p0 v0 g t) 2) (ballistic p0 v0 g (t - dt))) (vec3_scale g (dt * dt))
      = ballistic p0 v0 g (t + dt)"
    by (simp add: ballistic_def vec_defs field_simps)
  moreover have "vec3_scale (vec3_sub (ballistic p0 v0 g (t + dt)) (ballistic p0 v0 g t)) (1 / dt)
      = vec3_add v0 (vec3_scale g (t + dt / 2))"
    using assms(1) by (simp add: ballistic_def vec_defs field_simps)
  ultimately show ?thesis using assms
    by (simp add: physics_step_verlet_def each_particle_map Let_def)
qed

section \<open>Conservation laws\<close>

definition momentum :: "real particle \<Rightarrow> real vec3" where
  "momentum p = vec3_scale (vel p) (mass p)"

definition kinetic2 :: "real particle \<Rightarrow> real" where
  "kinetic2 p = mass p * vec3_dot (vel p) (vel p)"

text \<open>An impulse on one particle and its opposite on the other keep the momentum.\<close>

lemma spring_momentum:
  assumes "physics_apply_spring exact (Some a) (Some b) rest_len k damping dt = (Some a', Some b')"
  shows "vec3_add (momentum a') (momentum b') = vec3_add (momentum a) (momentum b)
     \<and> pos a' = pos a \<and> pos b' = pos b \<and> mass a' = mass a \<and> mass b' = mass b"
proof (cases "mass a \<le> 0 \<or> mass b \<le> 0 \<or> vec3_length exact (vec3_sub (pos b) (pos a)) < of_rat (1 / 10 ^ 8)")
  case True
  then show ?thesis using assms by (auto simp: physics_apply_spring_def Let_def split: if_splits)
next
  case False
  then have m: "mass a \<noteq> 0" "mass b \<noteq> 0" by auto
  obtain i where "a' = a\<lparr>vel := vec3_add (vel a) (vec3_scale i (dt / mass a))\<rparr>"
      "b' = b\<lparr>vel := vec3_sub (vel b) (vec3_scale i (dt / mass b))\<rparr>"
    using False assms by (auto simp: physics_apply_spring_def Let_def)
  then show ?thesis using m by (simp add: momentum_def vec_defs field_simps)
qed

lemma confine_axis_inside:
  fixes limit :: "'a::linordered_idom"
  assumes "0 \<le> limit" and "confine_axis limit e (x, v) = (x', v')"
  shows "0 \<le> x' \<and> x' \<le> limit \<and> (0 \<le> x \<and> x \<le> limit \<longrightarrow> x' = x \<and> v' = v) \<and> (x < 0 \<or> limit < x \<longrightarrow> v' = - v * e)"
  using assms by (auto simp: confine_axis_def split: if_splits)

text \<open>A confined particle is inside the box, and one that was inside does not change.\<close>

lemma confine_box_inside:
  fixes p :: "'a::linordered_idom particle"
  assumes "0 \<le> x3 bounds" and "0 \<le> y3 bounds" and "0 \<le> z3 bounds"
  shows "\<exists>q. physics_confine_box (Some p) bounds e = Some q
     \<and> 0 \<le> x3 (pos q) \<and> x3 (pos q) \<le> x3 bounds \<and> 0 \<le> y3 (pos q) \<and> y3 (pos q) \<le> y3 bounds
     \<and> 0 \<le> z3 (pos q) \<and> z3 (pos q) \<le> z3 bounds
     \<and> physics_confine_box (Some q) bounds e = Some q"
proof -
  obtain px vx py vy pz vz where c: "confine_axis (x3 bounds) e (x3 (pos p), x3 (vel p)) = (px, vx)"
    "confine_axis (y3 bounds) e (y3 (pos p), y3 (vel p)) = (py, vy)"
    "confine_axis (z3 bounds) e (z3 (pos p), z3 (vel p)) = (pz, vz)" by fastforce
  note i = confine_axis_inside [OF assms(1) c(1)] confine_axis_inside [OF assms(2) c(2)] confine_axis_inside [OF assms(3) c(3)]
  have fix_axis: "confine_axis l e (x, v) = (x, v)" if "0 \<le> x" "x \<le> l" for l x v
    using that by (simp add: confine_axis_def)
  show ?thesis using i c by (simp add: physics_confine_box_def fix_axis)
qed

text \<open>The geometry of a collision: normal \<open>n\<close>, distance \<open>d\<close>.\<close>

lemma dot_add_scale:
  "vec3_dot (vec3_add u (vec3_scale n x)) (vec3_add u (vec3_scale n x))
     = vec3_dot u u + 2 * x * vec3_dot u n + x * x * vec3_dot n (n :: real vec3)"
  by (simp add: vec_defs algebra_simps)

lemma elastic_1d:
  fixes ma mb va vb :: real
  assumes "0 < ma" and "0 < mb"
  defines "va2 \<equiv> (va * (ma - mb) + 2 * mb * vb) * (1 / (ma + mb))" and "vb2 \<equiv> (vb * (mb - ma) + 2 * ma * va) * (1 / (ma + mb))"
  shows "ma * va2 + mb * vb2 = ma * va + mb * vb" and "ma * (va2 * va2) + mb * (vb2 * vb2) = ma * (va * va) + mb * (vb * vb)"
    and "vb2 - va2 = - (vb - va)"
proof -
  define c where "c = (ma * va + mb * vb) / (ma + mb)"
  have m: "ma + mb \<noteq> 0" using assms(1,2) by simp
  have c: "(ma + mb) * c = ma * va + mb * vb" using m by (simp add: c_def)
  have v: "va2 = 2 * c - va" "vb2 = 2 * c - vb" using m by (simp_all add: va2_def vb2_def c_def field_simps)
  show "ma * va2 + mb * vb2 = ma * va + mb * vb" unfolding v using c by algebra
  show "ma * (va2 * va2) + mb * (vb2 * vb2) = ma * (va * va) + mb * (vb * vb)" unfolding v using c by algebra
  show "vb2 - va2 = - (vb - va)" unfolding v by simp
qed

text \<open>
  C33. A collision of overlapping spheres is elastic, in exact arithmetic: total momentum, kinetic
  energy and centre of mass do not change, the spheres end up exactly touching on the line they were
  on, and the normal component of their relative velocity is reversed; spheres that do not overlap,
  or whose centres coincide, are left alone.
\<close>

theorem collision_elastic:
  fixes a b :: "real particle"
  assumes "0 < mass a" and "0 < mass b" and "0 < radius"
  defines "delta \<equiv> vec3_sub (pos b) (pos a)"
  shows "\<exists>a' b'. physics_collide_spheres exact (Some a) (Some b) radius = (Some a', Some b')
     \<and> mass a' = mass a \<and> mass b' = mass b
     \<and> vec3_add (momentum a') (momentum b') = vec3_add (momentum a) (momentum b)
     \<and> kinetic2 a' + kinetic2 b' = kinetic2 a + kinetic2 b
     \<and> vec3_add (vec3_scale (pos a') (mass a)) (vec3_scale (pos b') (mass b))
         = vec3_add (vec3_scale (pos a) (mass a)) (vec3_scale (pos b) (mass b))
     \<and> (if vec3_dot delta delta < (2 * radius) ^ 2 \<and> 1 / 10 ^ 12 \<le> vec3_dot delta delta
        then vec3_distance exact (pos b') (pos a') = 2 * radius
           \<and> vec3_dot (vec3_sub (vel b') (vel a')) delta = - vec3_dot (vec3_sub (vel b) (vel a)) delta
           \<and> vec3_cross (vec3_sub (pos b') (pos a')) delta = \<lparr>x3 = 0, y3 = 0, z3 = 0\<rparr>
        else a' = a \<and> b' = b)"
proof -
  have lit: "of_rat (1 / 10 ^ 12) = (1 / 10 ^ 12 :: real)" "of_rat (1 / 1000000000000) = (1 / 10 ^ 12 :: real)"
    by (simp_all add: of_rat_divide)
  show ?thesis
  proof (cases "vec3_dot delta delta < (2 * radius) ^ 2 \<and> 1 / 10 ^ 12 \<le> vec3_dot delta delta")
    case False
    then have "physics_collide_spheres exact (Some a) (Some b) radius = (Some a, Some b)"
      unfolding physics_collide_spheres_def Let_def exact_simps lit delta_def by (auto simp: power2_eq_square)
    then show ?thesis unfolding if_not_P [OF False] by blast
  next
    case True
    define d where "d = sqrt (vec3_dot delta delta)"
    define n where "n = vec3_scale delta (1 / d)"
    define ma where "ma = mass a"
    define mb where "mb = mass b"
    define i where "i = 1 / (ma + mb)"
    define va where "va = vec3_dot (vel a) n"
    define vb where "vb = vec3_dot (vel b) n"
    define xa where "xa = (va * (ma - mb) + 2 * mb * vb) * i - va"
    define xb where "xb = (vb * (mb - ma) + 2 * ma * va) * i - vb"
    define g where "g = 2 * radius - d"
    let ?a = "a\<lparr>pos := vec3_sub (pos a) (vec3_scale (vec3_scale n g) (mb * i)), vel := vec3_add (vel a) (vec3_scale n xa)\<rparr>"
    let ?b = "b\<lparr>pos := vec3_add (pos b) (vec3_scale (vec3_scale n g) (ma * i)), vel := vec3_add (vel b) (vec3_scale n xb)\<rparr>"
    have dd: "0 < vec3_dot delta delta" using True by (smt (verit) divide_pos_pos zero_less_one zero_less_power zero_less_numeral)
    then have d: "0 < d" "d * d = vec3_dot delta delta" by (simp_all add: d_def)
    have mi: "0 < ma" "0 < mb" "(ma + mb) * i = 1" using assms(1,2) by (simp_all add: ma_def mb_def i_def)
    have sc: "vec3_dot (vec3_scale v c) (vec3_scale v c) = vec3_dot v v * (c * c)" for v :: "real vec3" and c by (simp add: vec_defs algebra_simps)
    have nn: "vec3_dot n n = 1" unfolding n_def sc d(2) [symmetric] using d(1) by simp
    have dn: "delta = vec3_scale n d" using d by (simp add: n_def vec3_scale_def)
    have run: "physics_collide_spheres exact (Some a) (Some b) radius = (Some ?a, Some ?b)"
      using True assms(1,2)
      by (simp add: physics_collide_spheres_def lit delta_def [symmetric] power2_eq_square Let_def not_le not_less)
         (simp add: d_def [symmetric] n_def [symmetric] ma_def mb_def i_def va_def vb_def xa_def xb_def g_def)
    note el = elastic_1d [OF mi(1,2), of va vb, folded i_def]
    have e: "ma * xa + mb * xb = 0" "ma * (2 * xa * va + xa * xa) + mb * (2 * xb * vb + xb * xb) = 0" "xb - xa = - 2 * (vb - va)"
      using el unfolding xa_def xb_def by (simp_all add: algebra_simps)
    have "vec3_add (momentum ?a) (momentum ?b) = vec3_add (vec3_add (momentum a) (momentum b)) (vec3_scale n (ma * xa + mb * xb))"
      by (simp add: momentum_def vec_defs ma_def mb_def algebra_simps)
    then have mom: "vec3_add (momentum ?a) (momentum ?b) = vec3_add (momentum a) (momentum b)"
      by (simp add: e(1) vec_defs)
    have ke: "kinetic2 ?a + kinetic2 ?b = kinetic2 a + kinetic2 b"
      using e(2) by (simp add: kinetic2_def dot_add_scale nn va_def vb_def ma_def mb_def algebra_simps)
    have com: "vec3_add (vec3_scale (pos ?a) (mass a)) (vec3_scale (pos ?b) (mass b))
         = vec3_add (vec3_scale (pos a) (mass a)) (vec3_scale (pos b) (mass b))"
      by (simp add: vec_defs ma_def mb_def algebra_simps)
    have rel: "vec3_sub (pos ?b) (pos ?a) = vec3_scale n (2 * radius)"
    proof -
      have "vec3_sub (pos ?b) (pos ?a) = vec3_add delta (vec3_scale n (g * ((ma + mb) * i)))"
        by (simp add: vec_defs delta_def algebra_simps)
      then show ?thesis unfolding mi(3) dn g_def by (simp add: vec_defs algebra_simps)
    qed
    have dist: "vec3_distance exact (pos ?b) (pos ?a) = 2 * radius"
    proof -
      have "sqrt ((2 * radius) * (2 * radius)) = 2 * radius" by (rule real_sqrt_unique) (use assms(3) in \<open>simp_all add: power2_eq_square\<close>)
      then show ?thesis unfolding vec3_distance_def rel vec3_length_def sc nn exact_simps by (simp only: mult_1)
    qed
    have rv: "vec3_dot (vec3_sub (vel ?b) (vel ?a)) delta = - vec3_dot (vec3_sub (vel b) (vel a)) delta"
    proof -
      have "vec3_dot (vec3_sub (vel ?b) (vel ?a)) n = (vb - va) + (xb - xa) * vec3_dot n n"
        by (simp add: va_def vb_def vec_defs algebra_simps)
      then have r: "vec3_dot (vec3_sub (vel ?b) (vel ?a)) n = - (vb - va)" unfolding nn e(3) by simp
      have v: "vb - va = vec3_dot (vec3_sub (vel b) (vel a)) n" by (simp add: va_def vb_def vec_defs algebra_simps)
      have "vec3_dot u delta = vec3_dot u n * d" for u by (simp add: dn vec_defs algebra_simps)
      then show ?thesis by (simp only: r v minus_mult_left)
    qed
    have "vec3_cross (vec3_sub (pos ?b) (pos ?a)) delta = \<lparr>x3 = 0, y3 = 0, z3 = 0\<rparr>"
      unfolding rel dn by (simp add: vec_defs)
    then show ?thesis unfolding if_P [OF True] using run mom ke com dist rv by (intro exI [of _ ?a] exI [of _ ?b]) simp
  qed
qed

theorem collision_elastic_witness:
  "\<exists>a' b'. physics_collide_spheres exact
       (Some \<lparr>pos = \<lparr>x3 = 0, y3 = 0, z3 = 0\<rparr>, vel = \<lparr>x3 = 1, y3 = 0, z3 = 0\<rparr>, prev_pos = \<lparr>x3 = 0, y3 = 0, z3 = 0\<rparr>, mass = 1\<rparr>)
       (Some \<lparr>pos = \<lparr>x3 = 1, y3 = 0, z3 = 0\<rparr>, vel = \<lparr>x3 = 0, y3 = 0, z3 = 0\<rparr>, prev_pos = \<lparr>x3 = 0, y3 = 0, z3 = 0\<rparr>, mass = 2\<rparr>) 1
     = (Some a', Some b') \<and> vec3_distance exact (pos b') (pos a') = 2"
  using collision_elastic [of "\<lparr>pos = \<lparr>x3 = 0, y3 = 0, z3 = 0\<rparr>, vel = \<lparr>x3 = 1, y3 = 0, z3 = 0\<rparr>, prev_pos = \<lparr>x3 = 0, y3 = 0, z3 = 0\<rparr>, mass = 1\<rparr>"
      "\<lparr>pos = \<lparr>x3 = 1, y3 = 0, z3 = 0\<rparr>, vel = \<lparr>x3 = 0, y3 = 0, z3 = 0\<rparr>, prev_pos = \<lparr>x3 = 0, y3 = 0, z3 = 0\<rparr>, mass = 2\<rparr>" 1]
  by (auto simp: vec3_dot_def vec3_sub_def)

text \<open>Spheres that overlap but already move apart are turned to approach each other.\<close>

lemma collide_turns_separating:
  "let z = \<lparr>x3 = 0, y3 = 0, z3 = 0\<rparr>;
       (ap, bp) = physics_collide_spheres exact
         (Some \<lparr>pos = z, vel = \<lparr>x3 = - 1, y3 = 0, z3 = 0\<rparr>, prev_pos = z, mass = 1\<rparr>)
         (Some \<lparr>pos = \<lparr>x3 = 1, y3 = 0, z3 = 0\<rparr>, vel = \<lparr>x3 = 1, y3 = 0, z3 = 0\<rparr>, prev_pos = z, mass = 1\<rparr>) 1
   in x3 (vel (the ap)) = 1 \<and> x3 (vel (the bp)) = - 1"
  by (simp add: physics_collide_spheres_def Let_def vec_defs of_rat_divide)

end
