(* ===== verification/Numerical.thy ===== *)
theory Numerical
  imports VecMath Loops Core
begin

text \<open>
  The numerical methods of \<open>src/simulation/numerical.c\<close>, over the number type of the \<open>double\<close>s. The
  functions they are given are pure, except that the right-hand side of a differential equation
  threads its context. A null pointer is \<open>None\<close>, an access outside an array or a loop that does not
  end is undefined.
\<close>

section \<open>Operations\<close>

definition numerical_integrate_simpson ::
  "'a::{zero,plus,minus,times,inverse} fmath \<Rightarrow> ('a \<Rightarrow> 'a) option \<Rightarrow> 'a \<Rightarrow> 'a \<Rightarrow> int \<Rightarrow> 'a ub" where
  "numerical_integrate_simpson m fp a b n =
     (if n \<le> 0 \<or> n mod 2 \<noteq> 0 then Some 0
      else case fp of
        None \<Rightarrow> None
      | Some f \<Rightarrow>
          let h = (b - a) / fm_nat m (nat n);
              sum = foldl (\<lambda>sum i. sum + f (a + fm_nat m i * h) * (if i mod 2 = 0 then fm_lit m 2 else fm_lit m 4))
                      (f a + f b) [1 ..< nat n]
          in Some (sum * h / fm_lit m 3))"

function bisect_loop ::
  "'a::{zero,plus,minus,times,inverse,ord} fmath \<Rightarrow> ('a \<Rightarrow> 'a) \<Rightarrow> 'a \<Rightarrow> 'a \<Rightarrow> 'a \<Rightarrow> nat \<Rightarrow> 'a \<times> 'a \<times> nat" where
  "bisect_loop m f tol a b count =
     (if b - a > tol \<and> count < 80 then
        let mid = (a + b) / fm_lit m 2
        in if f mid * f a < 0 then bisect_loop m f tol a mid (count + 1) else bisect_loop m f tol mid b (count + 1)
      else (a, b, count))"
  by pat_completeness auto
termination by (relation "measure (\<lambda>(m, f, tol, a, b, count). 80 - count)") auto

declare bisect_loop.simps [simp del]

text \<open>The result and what is written to \<open>iters\<close>.\<close>

definition numerical_bisect ::
  "'a::{zero,plus,minus,times,inverse,ord} fmath \<Rightarrow> ('a \<Rightarrow> 'a) option \<Rightarrow> 'a \<Rightarrow> 'a \<Rightarrow> 'a \<Rightarrow> bool \<Rightarrow> 'a \<times> nat option" where
  "numerical_bisect m fp a b tol iters =
     (if fp = None \<or> \<not> tol > 0 then (a, if iters then Some 0 else None)
      else case bisect_loop m (the fp) tol a b 0 of
        (a, b, count) \<Rightarrow> ((a + b) / fm_lit m 2, if iters then Some count else None))"

function newton_loop ::
  "'a::{minus,inverse,abs,ord} fmath \<Rightarrow> ('a \<Rightarrow> 'a) \<Rightarrow> ('a \<Rightarrow> 'a) \<Rightarrow> 'a \<Rightarrow> int \<Rightarrow> int \<Rightarrow> 'a \<Rightarrow> 'a \<times> int" where
  "newton_loop m f df tol max_iter i x =
     (if i < max_iter then
        let fx = f x; dfx = df x
        in if \<bar>dfx\<bar> < fm_lit m (1 / 10 ^ 15) then (x, i)
           else let x_new = x - fx / dfx
                in if \<bar>x_new - x\<bar> < tol then (x_new, i + 1) else newton_loop m f df tol max_iter (i + 1) x_new
      else (x, i))"
  by pat_completeness auto
termination by (relation "measure (\<lambda>(m, f, df, tol, max_iter, i, x). nat (max_iter - i))") auto

declare newton_loop.simps [simp del]

definition numerical_newton ::
  "'a::{zero,minus,inverse,abs,ord} fmath \<Rightarrow> ('a \<Rightarrow> 'a) option \<Rightarrow> ('a \<Rightarrow> 'a) option \<Rightarrow> 'a \<Rightarrow> 'a \<Rightarrow> int \<Rightarrow> bool
    \<Rightarrow> 'a \<times> int option" where
  "numerical_newton m fp dfp x0 tol max_iter iters =
     (if fp = None \<or> dfp = None \<or> \<not> tol > 0 \<or> max_iter \<le> 0 then (x0, if iters then Some 0 else None)
      else case newton_loop m (the fp) (the dfp) tol max_iter 0 x0 of
        (x, i) \<Rightarrow> (x, if iters then Some i else None))"

type_synonym ('a, 'c) ode = "'a \<Rightarrow> 'a list \<Rightarrow> 'c \<Rightarrow> 'a list \<times> 'c"

text \<open>The loops \<open>tmp[i] = y[i] + c * k[i]\<close>.\<close>

definition add_scaled :: "nat \<Rightarrow> 'a::{plus,times} list \<Rightarrow> 'a \<Rightarrow> 'a list \<Rightarrow> 'a list ub" where
  "add_scaled n y c k =
     for_each [0 ..< n] (\<lambda>i tmp. do { u \<leftarrow> elt y i; v \<leftarrow> elt k i; Some (tmp @ [u + c * v]) }) []"

text \<open>\<open>ok1\<close> and \<open>ok2\<close> say whether the two allocations succeed.\<close>

definition numerical_rk4_step ::
  "'a::{plus,times,inverse} fmath \<Rightarrow> bool \<Rightarrow> bool \<Rightarrow> ('a, 'c) ode option \<Rightarrow> 'a \<Rightarrow> 'a list option \<Rightarrow> int \<Rightarrow> 'a \<Rightarrow> 'c
    \<Rightarrow> (error_code \<times> 'a list option \<times> 'c) ub" where
  "numerical_rk4_step m ok1 ok2 fp t yp n dt ctx =
     (case (fp, yp) of
        (Some f, Some y) \<Rightarrow>
          if n \<le> 0 then Some (ERR_INVALID_ARG, yp, ctx)
          else if \<not> ok1 \<or> \<not> ok2 then Some (ERR_NOMEM, yp, ctx)
          else
            let n = nat n; half = fm_lit m (1 / 2); two = fm_lit m 2; (k1, ctx) = f t y ctx in
            do { tmp \<leftarrow> add_scaled n y (half * dt) k1;
                 let (k2, ctx) = f (t + half * dt) tmp ctx;
                 tmp \<leftarrow> add_scaled n y (half * dt) k2;
                 let (k3, ctx) = f (t + half * dt) tmp ctx;
                 tmp \<leftarrow> add_scaled n y dt k3;
                 let (k4, ctx) = f (t + dt) tmp ctx;
                 y \<leftarrow> for_each [0 ..< n] (\<lambda>i y. do { u \<leftarrow> elt y i; a \<leftarrow> elt k1 i; b \<leftarrow> elt k2 i; c \<leftarrow> elt k3 i; d \<leftarrow> elt k4 i;
                        Some (y[i := u + dt / fm_lit m 6 * (a + two * b + two * c + d)]) }) y;
                 Some (ERR_OK, Some y, ctx) }
      | _ \<Rightarrow> Some (ERR_INVALID_ARG, yp, ctx))"

text \<open>\<open>oks i\<close> are the answers to the allocations of step \<open>i\<close>.\<close>

partial_function (option) rk4_loop ::
  "'a::{plus,minus,times,inverse,ord} fmath \<Rightarrow> (nat \<Rightarrow> bool \<times> bool) \<Rightarrow> ('a, 'c) ode \<Rightarrow> 'a \<Rightarrow> int \<Rightarrow> 'a
    \<Rightarrow> nat \<Rightarrow> 'a \<Rightarrow> 'a list option \<Rightarrow> 'c \<Rightarrow> (error_code \<times> 'a list option \<times> 'c) option" where
  "rk4_loop m oks f t1 n dt i t yp ctx =
     (if t < t1 - dt * fm_lit m (1 / 2) then
        let step = (if t + dt > t1 then t1 - t else dt)
        in case numerical_rk4_step m (fst (oks i)) (snd (oks i)) (Some f) t yp n step ctx of
             None \<Rightarrow> None
           | Some (err, yp, ctx) \<Rightarrow>
               if err \<noteq> ERR_OK then Some (err, yp, ctx) else rk4_loop m oks f t1 n dt (i + 1) (t + step) yp ctx
      else Some (ERR_OK, yp, ctx))"

definition numerical_rk4_integrate ::
  "'a::{zero,plus,minus,times,inverse,ord} fmath \<Rightarrow> (nat \<Rightarrow> bool \<times> bool) \<Rightarrow> ('a, 'c) ode option \<Rightarrow> 'a \<Rightarrow> 'a
    \<Rightarrow> 'a list option \<Rightarrow> int \<Rightarrow> 'a \<Rightarrow> 'c \<Rightarrow> (error_code \<times> 'a list option \<times> 'c) ub" where
  "numerical_rk4_integrate m oks fp t0 t1 yp n dt ctx =
     (if fp = None \<or> yp = None \<or> n \<le> 0 \<or> dt \<le> 0 then Some (ERR_INVALID_ARG, yp, ctx)
      else rk4_loop m oks (the fp) t1 n dt 0 t0 yp ctx)"

section \<open>Simpson's rule\<close>

definition cubic :: "real \<Rightarrow> real \<Rightarrow> real \<Rightarrow> real \<Rightarrow> real \<Rightarrow> real" where
  "cubic c0 c1 c2 c3 x = c0 + c1 * x + c2 * x ^ 2 + c3 * x ^ 3"

definition cubic_integral :: "real \<Rightarrow> real \<Rightarrow> real \<Rightarrow> real \<Rightarrow> real \<Rightarrow> real" where
  "cubic_integral c0 c1 c2 c3 x = c0 * x + c1 * x ^ 2 / 2 + c2 * x ^ 3 / 3 + c3 * x ^ 4 / 4"

lemma cubic_integral_deriv: "(cubic_integral c0 c1 c2 c3 has_real_derivative cubic c0 c1 c2 c3 x) (at x)"
  unfolding cubic_integral_def cubic_def by (auto intro!: derivative_eq_intros)

lemma simpson_panel:
  "(cubic c0 c1 c2 c3 u + 4 * cubic c0 c1 c2 c3 (u + h) + cubic c0 c1 c2 c3 (u + 2 * h)) * h / 3
     = cubic_integral c0 c1 c2 c3 (u + 2 * h) - cubic_integral c0 c1 c2 c3 u"
  by (simp add: cubic_def cubic_integral_def power2_eq_square power3_eq_cube power4_eq_xxxx field_simps)

lemma foldl_sum: "foldl (\<lambda>s i. s + g i) z xs = z + (\<Sum>i \<leftarrow> xs. g i :: real)"
  by (induction xs arbitrary: z) simp_all

text \<open>The weighted sum over the first \<open>2 * k\<close> intervals.\<close>

lemma simpson_sum:
  fixes a h :: real
  assumes "f = cubic c0 c1 c2 c3" and "0 < k"
  shows "(f a + f (a + of_nat (2 * k) * h) + (\<Sum>i \<leftarrow> [1 ..< 2 * k]. f (a + of_nat i * h) * (if i mod 2 = 0 then 2 else 4))) * h / 3
       = cubic_integral c0 c1 c2 c3 (a + of_nat (2 * k) * h) - cubic_integral c0 c1 c2 c3 a"
  using assms(2)
proof (induction k rule: nat_induct_non_zero)
  case 1
  have "[1 ..< 2] = [1 :: nat]" by (simp add: upt_rec)
  then show ?case using simpson_panel [of c0 c1 c2 c3 a h] by (simp add: assms(1) algebra_simps)
next
  case (Suc k)
  let ?u = "a + of_nat (2 * k) * h" and ?w = "\<lambda>i. f (a + of_nat i * h) * (if i mod 2 = 0 then 2 else 4)"
  have e: "[1 ..< 2 * Suc k] = [1 ..< 2 * k] @ [2 * k, 2 * k + 1]" using Suc.hyps by (simp add: upt_Suc_append)
  have p: "a + of_nat (2 * k + 1) * h = ?u + h" "a + of_nat (2 * Suc k) * h = ?u + 2 * h" by (simp_all add: algebra_simps)
  have "(f a + f (?u + 2 * h) + ((\<Sum>i \<leftarrow> [1 ..< 2 * k]. ?w i) + (f ?u * 2 + f (?u + h) * 4))) * h / 3
      = (f a + f ?u + (\<Sum>i \<leftarrow> [1 ..< 2 * k]. ?w i)) * h / 3 + (f ?u + 4 * f (?u + h) + f (?u + 2 * h)) * h / 3"
    by (simp add: field_simps)
  also have "\<dots> = cubic_integral c0 c1 c2 c3 (?u + 2 * h) - cubic_integral c0 c1 c2 c3 a"
    unfolding Suc.IH simpson_panel [of c0 c1 c2 c3 ?u h, folded assms(1)] by simp
  finally have panel: "(f a + f (?u + 2 * h) + ((\<Sum>i \<leftarrow> [1 ..< 2 * k]. ?w i) + (f ?u * 2 + f (?u + h) * 4))) * h / 3
      = cubic_integral c0 c1 c2 c3 (?u + 2 * h) - cubic_integral c0 c1 c2 c3 a" .
  have m: "(2 * k) mod 2 = 0" "(2 * k + 1) mod 2 = 1" by presburger+
  have "(\<Sum>i \<leftarrow> [1 ..< 2 * Suc k]. ?w i) = (\<Sum>i \<leftarrow> [1 ..< 2 * k]. ?w i) + (?w (2 * k) + ?w (2 * k + 1))"
    unfolding e by simp
  also have "?w (2 * k) + ?w (2 * k + 1) = f ?u * 2 + f (?u + h) * 4" unfolding m p(1) by simp
  finally show ?case using panel unfolding p(2) by simp
qed

text \<open>
  \<open>numerical_integrate_simpson\<close> is exact on every cubic polynomial, for every even number of
  intervals and every interval, in exact arithmetic: the result is the difference of an
  antiderivative at the ends. An odd or non-positive number of intervals yields 0 without calling
  the function, which may then be a null pointer.
\<close>

theorem simpson_exact_on_cubics:
  "numerical_integrate_simpson exact (Some (cubic c0 c1 c2 c3)) a b n
     = (if 0 < n \<and> even n then Some (cubic_integral c0 c1 c2 c3 b - cubic_integral c0 c1 c2 c3 a) else Some 0)
   \<and> (\<forall>x. (cubic_integral c0 c1 c2 c3 has_real_derivative cubic c0 c1 c2 c3 x) (at x))
   \<and> numerical_integrate_simpson exact None a b (2 * n + 1) = Some 0"
proof -
  have "numerical_integrate_simpson exact (Some (cubic c0 c1 c2 c3)) a b n
     = Some (cubic_integral c0 c1 c2 c3 b - cubic_integral c0 c1 c2 c3 a)" if n: "0 < n" "even n"
  proof -
    define k where "k = nat n div 2"
    have "even (nat n)" using n by (simp add: even_nat_iff)
    then have k: "nat n = 2 * k" "0 < k" using n by (auto simp: k_def elim!: evenE)
    define h where "h = (b - a) / real (2 * k)"
    have b: "a + real (2 * k) * h = b" using k(2) by (simp add: h_def)
    have "\<not> (n \<le> 0 \<or> n mod 2 \<noteq> 0)" using n by (simp add: even_iff_mod_2_eq_zero)
    then have "numerical_integrate_simpson exact (Some (cubic c0 c1 c2 c3)) a b n
        = Some ((cubic c0 c1 c2 c3 a + cubic c0 c1 c2 c3 b
            + (\<Sum>i \<leftarrow> [1 ..< 2 * k]. cubic c0 c1 c2 c3 (a + of_nat i * h) * (if i mod 2 = 0 then 2 else 4))) * h / 3)"
      by (simp only: numerical_integrate_simpson_def k(1) h_def exact_simps Let_def of_rat_numeral_eq option.case if_False foldl_sum)
    then show ?thesis using simpson_sum [OF refl k(2), of c0 c1 c2 c3 a h] unfolding b by simp
  qed
  then have "numerical_integrate_simpson exact (Some (cubic c0 c1 c2 c3)) a b n
     = (if 0 < n \<and> even n then Some (cubic_integral c0 c1 c2 c3 b - cubic_integral c0 c1 c2 c3 a) else Some 0)"
    by (auto simp: numerical_integrate_simpson_def even_iff_mod_2_eq_zero)
  moreover have "(2 * n + 1) mod 2 = 1" by presburger
  then have "numerical_integrate_simpson exact None a b (2 * n + 1) = Some 0"
    by (simp add: numerical_integrate_simpson_def)
  ultimately show ?thesis using cubic_integral_deriv by blast
qed

section \<open>Bisection and Newton's method\<close>

text \<open>
  The loop keeps a bracket with a change of sign as long as no midpoint is a root itself; the
  bracket after \<open>k\<close> turns is a dyadic part of the first one.
\<close>

lemma bisect_loop_bracket:
  fixes a b tol :: real
  assumes "\<And>k j. j \<le> 2 ^ k \<Longrightarrow> f (a + (b - a) * real j / 2 ^ k) \<noteq> 0" and "count \<le> 80"
    and "j < 2 ^ count" and "u = a + (b - a) * real j / 2 ^ count" and "v = u + (b - a) / 2 ^ count" and "f u * f v < 0"
  shows "\<exists>u' v' n. bisect_loop exact f tol u v count = (u', v', n) \<and> n \<le> 80 \<and> v' - u' = (b - a) / 2 ^ n
     \<and> f u' * f v' < 0 \<and> (n = 80 \<or> v' - u' \<le> tol)
     \<and> (\<exists>j' < 2 ^ n. u' = a + (b - a) * real j' / 2 ^ n)"
  using assms(2-)
proof (induction "80 - count" arbitrary: count u v j)
  case 0
  then have "bisect_loop exact f tol u v count = (u, v, count)" by (subst bisect_loop.simps) simp
  then show ?case using 0 by (intro exI [of _ u] exI [of _ v] exI [of _ count]) auto
next
  case (Suc d)
  show ?case
  proof (cases "v - u > tol")
    case False
    then have "bisect_loop exact f tol u v count = (u, v, count)" by (subst bisect_loop.simps) simp
    then show ?thesis using Suc.prems False by (intro exI [of _ u] exI [of _ v] exI [of _ count]) auto
  next
    case True
    define w where "w = (u + v) / 2"
    have c: "count < 80" "d = 80 - (count + 1)" "count + 1 \<le> 80" using Suc.hyps(2) by auto
    have w: "w = a + (b - a) * real (2 * j + 1) / 2 ^ (count + 1)" "v = w + (b - a) / 2 ^ (count + 1)"
      "w = u + (b - a) / 2 ^ (count + 1)" "u = a + (b - a) * real (2 * j) / 2 ^ (count + 1)"
      using Suc.prems(3,4) by (simp_all add: w_def field_simps)
    have j: "2 * j + 1 < 2 ^ (count + 1)" "2 * j < 2 ^ (count + 1)" using Suc.prems(2) by simp_all
    have fw: "f w \<noteq> 0" unfolding w(1) using j(1) by (intro assms(1)) simp
    have step: "bisect_loop exact f tol u v count =
        (if f w * f u < 0 then bisect_loop exact f tol u w (count + 1) else bisect_loop exact f tol w v (count + 1))"
      using True c(1) by (subst bisect_loop.simps) (simp add: w_def Let_def)
    show ?thesis
    proof (cases "f w * f u < 0")
      case less: True
      show ?thesis unfolding step if_P [OF less]
        by (rule Suc.hyps(1) [OF c(2,3) j(2) w(4,3)]) (use less in \<open>simp add: mult.commute\<close>)
    next
      case False
      have "f w * f v < 0" using False fw Suc.prems(5) by (smt (verit) mult_less_0_iff)
      then show ?thesis unfolding step if_not_P [OF False] by (intro Suc.hyps(1) [OF c(2,3) j(1) w(1,2)])
    qed
  qed
qed

text \<open>
  C34. \<open>numerical_bisect\<close> finds a root: for a continuous function with a change of sign on \<open>[a, b]\<close>
  that does not vanish at the dyadic points of the interval, in exact arithmetic, it stops after at
  most 80 halvings, the result is within half the last bracket of a root in \<open>[a, b]\<close>, and that
  bracket is no wider than the tolerance unless all 80 halvings were used.
\<close>

theorem bisect_finds_root:
  fixes a b tol :: real
  assumes "a < b" and "0 < tol" and "continuous_on {a..b} f" and "f a * f b < 0"
    and "\<And>k j. j \<le> 2 ^ k \<Longrightarrow> f (a + (b - a) * real j / 2 ^ k) \<noteq> 0"
  shows "\<exists>r n x. numerical_bisect exact (Some f) a b tol True = (r, Some n) \<and> n \<le> 80
     \<and> a \<le> x \<and> x \<le> b \<and> f x = 0 \<and> \<bar>r - x\<bar> \<le> (b - a) / 2 ^ (n + 1)
     \<and> ((b - a) / 2 ^ n \<le> tol \<or> n = 80)"
proof -
  obtain u v n j where l: "bisect_loop exact f tol a b 0 = (u, v, n)" "n \<le> 80" "v - u = (b - a) / 2 ^ n"
    "f u * f v < 0" "n = 80 \<or> v - u \<le> tol" "j < 2 ^ n" "u = a + (b - a) * real j / 2 ^ n"
  proof -
    have "\<exists>u' v' n. bisect_loop exact f tol a b 0 = (u', v', n) \<and> n \<le> 80 \<and> v' - u' = (b - a) / 2 ^ n
       \<and> f u' * f v' < 0 \<and> (n = 80 \<or> v' - u' \<le> tol) \<and> (\<exists>j' < 2 ^ n. u' = a + (b - a) * real j' / 2 ^ n)"
      by (rule bisect_loop_bracket [of f a b 0 0]) (use assms(4,5) in simp_all)
    then show thesis using that by blast
  qed
  have jb: "real j / 2 ^ n + 1 / 2 ^ n \<le> 1"
  proof -
    have "real (j + 1) \<le> real (2 ^ n)" using l(6) by (simp only: of_nat_le_iff)
    then show ?thesis by (simp add: field_simps)
  qed
  have "a \<le> u" using l(7) assms(1) by simp
  moreover have "v \<le> b"
  proof -
    have "v = a + (b - a) * (real j / 2 ^ n + 1 / 2 ^ n)" using l(3,7) by (simp add: algebra_simps)
    also have "\<dots> \<le> a + (b - a) * 1" using jb assms(1) by (intro add_left_mono mult_left_mono) simp_all
    finally show ?thesis by simp
  qed
  moreover have uv: "u < v" using l(3) assms(1) by (smt (verit) divide_pos_pos zero_less_power)
  ultimately have cont: "continuous_on {u..v} f" using assms(3) by (auto intro: continuous_on_subset)
  have "\<exists>x. u \<le> x \<and> x \<le> v \<and> f x = 0"
  proof (cases "f u < 0")
    case True
    then have "0 \<le> f v" using l(4) by (simp add: mult_less_0_iff)
    then show ?thesis using IVT' [of f u 0 v] True uv cont by auto
  next
    case False
    then have "f v \<le> 0" "0 \<le> f u" using l(4) by (simp_all add: mult_less_0_iff)
    then show ?thesis using IVT2' [of f v 0 u] uv cont by auto
  qed
  then obtain x where x: "u \<le> x" "x \<le> v" "f x = 0" by blast
  have "\<bar>(u + v) / 2 - x\<bar> \<le> (v - u) / 2" using x by (simp add: abs_le_iff field_simps)
  then have "\<bar>(u + v) / 2 - x\<bar> \<le> (b - a) / 2 ^ (n + 1)" unfolding l(3) by simp
  moreover have "numerical_bisect exact (Some f) a b tol True = ((u + v) / 2, Some n)"
    using assms(2) l(1) by (simp add: numerical_bisect_def)
  ultimately show ?thesis using l(2,3,5) x \<open>a \<le> u\<close> \<open>v \<le> b\<close>
    by (intro exI [of _ "(u + v) / 2"] exI [of _ n] exI [of _ x]) auto
qed

theorem bisect_finds_root_witness:
  "\<exists>r n x. numerical_bisect exact (Some (\<lambda>x. x - 4 / 3)) 1 2 (1 / 1000) True = (r, Some n)
     \<and> n \<le> 80 \<and> x = 4 / 3 \<and> \<bar>r - x\<bar> \<le> 1 / 2 ^ (n + 1)"
proof -
  have three: "3 * j \<noteq> 2 ^ k" for j k :: nat
  proof
    assume "3 * j = 2 ^ k"
    moreover have "2 ^ k mod 3 \<in> {1, 2 :: nat}"
    proof (induction k)
      case (Suc k)
      have "2 ^ Suc k mod 3 = 2 * (2 ^ k mod 3) mod (3 :: nat)" by (simp add: mod_mult_right_eq)
      then show ?case using Suc by auto
    qed simp
    moreover have "3 * j mod 3 = 0" by simp
    ultimately show False by (metis insertE singletonD zero_neq_numeral zero_neq_one)
  qed
  have "1 + real j / 2 ^ k \<noteq> 4 / 3" for j k
  proof
    assume "1 + real j / 2 ^ k = 4 / 3"
    then have "real (3 * j) = real (2 ^ k)" by (simp add: field_simps)
    then show False using three [of j k] by (simp only: of_nat_eq_iff)
  qed
  moreover have "continuous_on {1..2} (\<lambda>x :: real. x - 4 / 3)" by (intro continuous_intros)
  ultimately show ?thesis
    using bisect_finds_root [of 1 2 "1 / 1000" "\<lambda>x. x - 4 / 3"] by auto
qed

text \<open>
  When a midpoint is a root the sign test is no longer about a bracket: the code keeps the wrong
  half, here the one that ends at 1, and converges to its end.
\<close>

lemma bisect_loses_root:
  "fst (numerical_bisect exact (Some (\<lambda>x. x)) (- 1) 1 (1 / 10) True) = 31 / 32"
proof -
  have "bisect_loop exact (\<lambda>x. x) (1 / 10) (- 1) 1 0 = (15 / 16, 1, 5)"
    by (simp add: bisect_loop.simps Let_def)
  then show ?thesis by (simp add: numerical_bisect_def)
qed

text \<open>Newton's method ends within \<open>max_iter\<close> turns, and finds the root of a linear function.\<close>

lemma newton_loop_bound:
  "i \<le> max_iter \<Longrightarrow> newton_loop m f df tol max_iter i x = (y, k) \<Longrightarrow> i \<le> k \<and> k \<le> max_iter"
proof (induction m f df tol max_iter i x rule: newton_loop.induct)
  case (1 m f df tol max_iter i x)
  show ?case
  proof (cases "i < max_iter \<and> \<not> \<bar>df x\<bar> < fm_lit m (1 / 10 ^ 15) \<and> \<not> \<bar>x - f x / df x - x\<bar> < tol")
    case True
    then have "newton_loop m f df tol max_iter (i + 1) (x - f x / df x) = (y, k)"
      using 1(3) by (subst (asm) newton_loop.simps) (simp add: Let_def)
    then have "i + 1 \<le> k \<and> k \<le> max_iter" using True by (intro 1(1) [OF _ refl refl _ refl]) simp_all
    then show ?thesis by simp
  next
    case False
    then show ?thesis using 1(2,3) by (subst (asm) newton_loop.simps) (auto simp: Let_def split: if_splits)
  qed
qed

lemma newton_linear:
  fixes c r :: real
  assumes "1 / 10 ^ 15 \<le> \<bar>c\<bar>" and "0 < tol" and "2 \<le> max_iter"
  shows "fst (numerical_newton exact (Some (\<lambda>x. c * (x - r))) (Some (\<lambda>_. c)) x0 tol max_iter iters) = r"
proof -
  have c: "c \<noteq> 0" using assms(1) by auto
  have lit: "\<not> \<bar>c\<bar> < of_rat (1 / 10 ^ 15)" using assms(1) by (simp add: of_rat_divide)
  have x: "x - c * (x - r) / c = r" for x using c by simp
  have "fst (newton_loop exact (\<lambda>x. c * (x - r)) (\<lambda>_. c) tol max_iter 1 r) = r"
    using assms(2,3) lit by (subst newton_loop.simps) (simp add: Let_def)
  then have "fst (newton_loop exact (\<lambda>x. c * (x - r)) (\<lambda>_. c) tol max_iter 0 x0) = r"
    using assms(3) lit c by (subst newton_loop.simps) (simp add: Let_def x)
  then show ?thesis using assms(2,3)
    by (cases "newton_loop exact (\<lambda>x. c * (x - r)) (\<lambda>_. c) tol max_iter 0 x0") (simp add: numerical_newton_def)
qed

section \<open>Runge-Kutta\<close>

lemma add_scaled_eq:
  "n \<le> length y \<Longrightarrow> n \<le> length k \<Longrightarrow> add_scaled n y c k = Some (map (\<lambda>i. y ! i + c * k ! i) [0 ..< n])"
  unfolding add_scaled_def by (rule for_each_collect) simp

text \<open>
  A step whose right-hand side delivers \<open>n\<close> values never leaves an array; without the memory for its
  scratch arrays it changes nothing, and the four slopes are combined as in the method.
\<close>

definition rk4_value :: "('c \<Rightarrow> real \<Rightarrow> real list \<Rightarrow> real list) \<Rightarrow> real \<Rightarrow> real list \<Rightarrow> real \<Rightarrow> 'c \<Rightarrow> nat \<Rightarrow> real" where
  "rk4_value g t y dt ctx i =
     (let step = (\<lambda>c k. map (\<lambda>i. y ! i + c * k ! i) [0 ..< length y]);
          k1 = g ctx t y; k2 = g ctx (t + dt / 2) (step (dt / 2) k1);
          k3 = g ctx (t + dt / 2) (step (dt / 2) k2); k4 = g ctx (t + dt) (step dt k3)
      in y ! i + dt / 6 * (k1 ! i + 2 * k2 ! i + 2 * k3 ! i + k4 ! i))"

lemma rk4_step_eq:
  fixes y :: "real list"
  assumes "0 < n" and "length y = n" and "\<And>t z. length (g ctx t z) = n"
  shows "numerical_rk4_step exact ok1 ok2 (Some (\<lambda>t y c. (g c t y, c))) t (Some y) (int n) dt ctx
     = Some (if ok1 \<and> ok2 then (ERR_OK, Some (map (rk4_value g t y dt ctx) [0 ..< n]), ctx) else (ERR_NOMEM, Some y, ctx))"
proof (cases "ok1 \<and> ok2")
  case True
  have half: "of_rat (1 / 2) * dt = dt / (2 :: real)" by (simp add: of_rat_divide)
  have "for_each [0 ..< n] (\<lambda>i y. do { u \<leftarrow> elt y i; a \<leftarrow> elt k1 i; b \<leftarrow> elt k2 i; c \<leftarrow> elt k3 i; d \<leftarrow> elt k4 i;
      Some (y[i := u + dt / 6 * (a + 2 * b + 2 * c + d)]) }) y
    = Some (map (\<lambda>i. y ! i + dt / 6 * (k1 ! i + 2 * k2 ! i + 2 * k3 ! i + k4 ! i)) [0 ..< n] @ drop n y)"
    if "length k1 = n" "length k2 = n" "length k3 = n" "length k4 = n" for k1 k2 k3 k4 :: "real list"
    by (rule for_each_update) (use assms(2) that in simp_all)
  then show ?thesis using True assms
    by (simp add: numerical_rk4_step_def half add_scaled_eq rk4_value_def Let_def)
next
  case False
  then show ?thesis using assms(1) by (auto simp: numerical_rk4_step_def)
qed

text \<open>
  Integration of \<open>y' = v\<close> for a constant vector: it ends, and the result is the solution at a time \<open>T\<close>
  that is at most half a step before the end of the interval, and not after it.
\<close>

lemma rk4_value_constant:
  "length v = length y \<Longrightarrow> i < length y \<Longrightarrow> rk4_value (\<lambda>_ _ _. v) t y dt ctx i = y ! i + dt * v ! i"
  by (simp add: rk4_value_def Let_def algebra_simps)

lemma rk4_loop_constant:
  fixes y v :: "real list"
  assumes "0 < dt" and "0 < n" and "length v = n" and "\<And>i. oks i = (True, True)"
  shows "t1 - t \<le> real k * dt \<Longrightarrow> length y = n \<Longrightarrow>
    \<exists>T. rk4_loop exact oks (\<lambda>_ _ c. (v, c)) t1 (int n) dt i t (Some y) ctx
          = Some (ERR_OK, Some (map (\<lambda>i. y ! i + (T - t) * v ! i) [0 ..< n]), ctx)
        \<and> t1 - dt / 2 \<le> T \<and> (T = t \<or> T \<le> t1)"
proof (induction k arbitrary: t y i)
  case (0 t y i)
  have "map (\<lambda>i. y ! i) [0 ..< n] = y" using 0(2) by (metis map_nth)
  then show ?case using 0 assms(1)
    by (intro exI [of _ t], subst rk4_loop.simps) (simp add: of_rat_divide)
next
  case (Suc k t y i)
  show ?case
  proof (cases "t < t1 - dt / 2")
    case False
    have "map (\<lambda>i. y ! i) [0 ..< n] = y" using Suc.prems(2) by (metis map_nth)
    then show ?thesis using False by (intro exI [of _ t], subst rk4_loop.simps) (simp add: of_rat_divide)
  next
    case True
    define s where "s = (if t + dt > t1 then t1 - t else dt)"
    define z where "z = map (\<lambda>i. y ! i + s * v ! i) [0 ..< n]"
    have st: "numerical_rk4_step exact True True (Some (\<lambda>_ _ c. (v, c))) t (Some y) (int n) s ctx = Some (ERR_OK, Some z, ctx)"
      using rk4_step_eq [OF assms(2) Suc.prems(2), of "\<lambda>_ _ _. v" ctx True True t s] Suc.prems(2) assms(3)
      by (simp add: z_def rk4_value_constant cong: map_cong)
    have "t1 - (t + s) \<le> real k * dt"
      using Suc.prems(1) assms(1) by (auto simp: s_def algebra_simps)
    then obtain T where T: "rk4_loop exact oks (\<lambda>_ _ c. (v, c)) t1 (int n) dt (i + 1) (t + s) (Some z) ctx
        = Some (ERR_OK, Some (map (\<lambda>i. z ! i + (T - (t + s)) * v ! i) [0 ..< n]), ctx)"
      "t1 - dt / 2 \<le> T" "T = t + s \<or> T \<le> t1"
      using Suc.IH [of "t + s" z "i + 1"] by (auto simp: z_def)
    have "map (\<lambda>i. z ! i + (T - (t + s)) * v ! i) [0 ..< n] = map (\<lambda>i. y ! i + (T - t) * v ! i) [0 ..< n]"
      by (simp add: z_def algebra_simps)
    moreover have "T \<le> t1" using T(3) True by (auto simp: s_def split: if_splits)
    moreover have "rk4_loop exact oks (\<lambda>_ _ c. (v, c)) t1 (int n) dt i t (Some y) ctx
        = rk4_loop exact oks (\<lambda>_ _ c. (v, c)) t1 (int n) dt (i + 1) (t + s) (Some z) ctx"
      using True st by (subst rk4_loop.simps) (simp add: of_rat_divide assms(4) s_def [symmetric])
    ultimately show ?thesis using T(1,2) by (intro exI [of _ T]) simp
  qed
qed

lemma rk4_integrate_constant:
  fixes y v :: "real list"
  assumes "0 < dt" and "y \<noteq> []" and "length v = length y" and "\<And>i. oks i = (True, True)"
  shows "\<exists>T. numerical_rk4_integrate exact oks (Some (\<lambda>_ _ c. (v, c))) t0 t1 (Some y) (int (length y)) dt ctx
          = Some (ERR_OK, Some (map (\<lambda>i. y ! i + (T - t0) * v ! i) [0 ..< length y]), ctx)
        \<and> t1 - dt / 2 \<le> T \<and> (T = t0 \<or> T \<le> t1)"
proof -
  obtain k where "(t1 - t0) / dt \<le> real k" using real_arch_simple by blast
  then have "t1 - t0 \<le> real k * dt" using assms(1) by (simp add: field_simps)
  from rk4_loop_constant [OF assms(1) _ assms(3,4) this refl, where i = 0 and ctx = ctx] assms(1,2) show ?thesis
    by (simp add: numerical_rk4_integrate_def)
qed

text \<open>
  The interval need not be covered: with \<open>t0 = 0\<close> and \<open>t1 = 1\<close> a step of \<open>4 / 5\<close> ends at \<open>4 / 5\<close>, and a
  step of 3 is not taken at all, both with \<open>ERR_OK\<close>. The clock \<open>y' = 1\<close> shows it.
\<close>

lemma rk4_integrate_stops_short:
  "numerical_rk4_integrate exact (\<lambda>_. (True, True)) (Some (\<lambda>_ _ c. ([1], c))) 0 1 (Some [0]) 1 (4 / 5) ctx = Some (ERR_OK, Some [4 / 5], ctx)"
  "numerical_rk4_integrate exact (\<lambda>_. (True, True)) (Some (\<lambda>_ _ c. ([1], c))) 0 1 (Some [0]) 1 3 ctx = Some (ERR_OK, Some [0], ctx)"
proof -
  have st: "numerical_rk4_step exact True True (Some (\<lambda>_ _ c. ([1], c))) 0 (Some [0]) 1 (4 / 5) ctx = Some (ERR_OK, Some [4 / 5], ctx)"
    using rk4_step_eq [of 1 "[0]" "\<lambda>_ _ _. [1]" ctx True True 0 "4 / 5"] by (simp add: rk4_value_constant)
  show "numerical_rk4_integrate exact (\<lambda>_. (True, True)) (Some (\<lambda>_ _ c. ([1], c))) 0 1 (Some [0]) 1 (4 / 5) ctx = Some (ERR_OK, Some [4 / 5], ctx)"
    by (simp add: numerical_rk4_integrate_def, subst rk4_loop.simps, subst rk4_loop.simps) (simp add: st of_rat_divide)
  show "numerical_rk4_integrate exact (\<lambda>_. (True, True)) (Some (\<lambda>_ _ c. ([1], c))) 0 1 (Some [0]) 1 3 ctx = Some (ERR_OK, Some [0], ctx)"
    by (simp add: numerical_rk4_integrate_def, subst rk4_loop.simps) (simp add: of_rat_divide)
qed

end
