(* ===== verification/Simd.thy ===== *)
theory Simd
  imports Loops
begin

text \<open>
  The vector operations of \<open>src/hpc/simd_ops.c\<close> for each of its three builds: scalar, SSE and NEON.
  Memory is one list of elements and a pointer an index into it, so that the arrays may overlap;
  null is \<open>None\<close>, an access outside the memory is undefined. An array of \<open>n\<close> floats takes \<open>4 n\<close> bytes,
  so the indices of the code do not wrap and are natural numbers here. The lanes of a register are
  a list of four elements; whether the multiply-accumulate of NEON rounds once or twice is the
  platform's (\<open>mla\<close>). The other lane operations are the scalar ones, as on SSE and on 64-bit NEON. NEON
  on 32-bit ARM flushes subnormal numbers to zero in the lanes and not in the scalar tail, so there the
  claims are about data whose operands and results are no subnormals.
\<close>

section \<open>Operations\<close>

datatype target = Scalar | Sse42 | Neon (aarch64: bool)

text \<open>The number of elements the vector loop handles.\<close>

definition vector_part :: "target \<Rightarrow> nat \<Rightarrow> nat" where
  "vector_part t n = (if t = Scalar then 0 else 4 * (n div 4))"

definition simd_zip :: "('a \<Rightarrow> 'a \<Rightarrow> 'a) \<Rightarrow> target \<Rightarrow> 'a list \<Rightarrow> nat option \<Rightarrow> nat option \<Rightarrow> nat option \<Rightarrow> nat \<Rightarrow> 'a list ub" where
  "simd_zip f t h dst a b n =
     (case (dst, a, b) of
        (Some dst, Some a, Some b) \<Rightarrow>
          if n = 0 then Some h
          else do { h \<leftarrow> for_each [0 ..< vector_part t n div 4] (\<lambda>k h.
                      do { x \<leftarrow> load (a + 4 * k) 4 h; y \<leftarrow> load (b + 4 * k) 4 h; store (dst + 4 * k) (map2 f x y) h }) h;
                    for_each [vector_part t n ..< n] (\<lambda>i h.
                      do { x \<leftarrow> elt h (a + i); y \<leftarrow> elt h (b + i); store (dst + i) [f x y] h }) h }
      | _ \<Rightarrow> Some h)"

definition simd_add_f32 :: "target \<Rightarrow> 'a::plus list \<Rightarrow> nat option \<Rightarrow> nat option \<Rightarrow> nat option \<Rightarrow> nat \<Rightarrow> 'a list ub" where
  "simd_add_f32 = simd_zip (\<lambda>x y. x + y)"

definition simd_mul_f32 :: "target \<Rightarrow> 'a::times list \<Rightarrow> nat option \<Rightarrow> nat option \<Rightarrow> nat option \<Rightarrow> nat \<Rightarrow> 'a list ub" where
  "simd_mul_f32 = simd_zip (\<lambda>x y. x * y)"

definition simd_scale_f32 :: "target \<Rightarrow> 'a::times list \<Rightarrow> nat option \<Rightarrow> nat option \<Rightarrow> 'a \<Rightarrow> nat \<Rightarrow> 'a list ub" where
  "simd_scale_f32 t h dst a scalar n =
     (case (dst, a) of
        (Some dst, Some a) \<Rightarrow>
          if n = 0 then Some h
          else do { h \<leftarrow> for_each [0 ..< vector_part t n div 4] (\<lambda>k h.
                      do { x \<leftarrow> load (a + 4 * k) 4 h; store (dst + 4 * k) (map (\<lambda>x. x * scalar) x) h }) h;
                    for_each [vector_part t n ..< n] (\<lambda>i h.
                      do { x \<leftarrow> elt h (a + i); store (dst + i) [x * scalar] h }) h }
      | _ \<Rightarrow> Some h)"

text \<open>The horizontal sum of a register: pairwise on aarch64, low and high halves first on older ARM.\<close>

definition lane_sum :: "target \<Rightarrow> 'a::plus list \<Rightarrow> 'a" where
  "lane_sum t v =
     (case t of
        Neon is64 \<Rightarrow> if is64 then (v ! 0 + v ! 1) + (v ! 2 + v ! 3) else (v ! 0 + v ! 2) + (v ! 1 + v ! 3)
      | _ \<Rightarrow> v ! 0 + v ! 1 + v ! 2 + v ! 3)"

definition simd_dot_f32 ::
  "('a \<Rightarrow> 'a \<Rightarrow> 'a \<Rightarrow> 'a) \<Rightarrow> target \<Rightarrow> 'a::{zero,plus,times} list \<Rightarrow> nat option \<Rightarrow> nat option \<Rightarrow> nat \<Rightarrow> 'a ub" where
  "simd_dot_f32 mla t h a b n =
     (case (a, b) of
        (Some a, Some b) \<Rightarrow>
          if n = 0 then Some 0
          else do { vsum \<leftarrow> for_each [0 ..< vector_part t n div 4] (\<lambda>k vsum.
                      do { x \<leftarrow> load (a + 4 * k) 4 h; y \<leftarrow> load (b + 4 * k) 4 h;
                           Some (if t = Sse42 then map2 (\<lambda>s p. s + p) vsum (map2 (\<lambda>x y. x * y) x y)
                                 else map2 (\<lambda>s (x, y). mla s x y) vsum (zip x y)) }) (replicate 4 0);
                    for_each [vector_part t n ..< n] (\<lambda>i sum. do { x \<leftarrow> elt h (a + i); y \<leftarrow> elt h (b + i); Some (sum + x * y) })
                      (if t = Scalar then 0 else lane_sum t vsum) }
      | _ \<Rightarrow> Some 0)"

definition simd_sum_f32 :: "target \<Rightarrow> 'a::{zero,plus} list \<Rightarrow> nat option \<Rightarrow> nat \<Rightarrow> 'a ub" where
  "simd_sum_f32 t h a n =
     (case a of
        Some a \<Rightarrow>
          if n = 0 then Some 0
          else do { vsum \<leftarrow> for_each [0 ..< vector_part t n div 4] (\<lambda>k vsum.
                      do { x \<leftarrow> load (a + 4 * k) 4 h; Some (map2 (\<lambda>s x. s + x) vsum x) }) (replicate 4 0);
                    for_each [vector_part t n ..< n] (\<lambda>i sum. do { x \<leftarrow> elt h (a + i); Some (sum + x) })
                      (if t = Scalar then 0 else lane_sum t vsum) }
      | None \<Rightarrow> Some 0)"

section \<open>Element-wise operations\<close>

text \<open>The memory after the first \<open>m\<close> elements of the result are written.\<close>

definition upd :: "'a list \<Rightarrow> nat \<Rightarrow> (nat \<Rightarrow> 'a) \<Rightarrow> nat \<Rightarrow> 'a list" where
  "upd h dst g m = map (\<lambda>j. if dst \<le> j \<and> j < dst + m then g (j - dst) else h ! j) [0 ..< length h]"

lemma upd_0 [simp]: "upd h dst g 0 = h"
  by (rule nth_equalityI) (auto simp: upd_def)

lemma length_upd [simp]: "length (upd h dst g m) = length h"
  by (simp add: upd_def)

lemma store_upd:
  assumes "dst + m + c \<le> length h"
  shows "store (dst + m) (map g [m ..< m + c]) (upd h dst g m) = Some (upd h dst g (m + c))"
proof -
  have "take (dst + m) (upd h dst g m) @ map g [m ..< m + c] @ drop (dst + m + c) (upd h dst g m) = upd h dst g (m + c)"
    using assms by (intro nth_equalityI) (auto simp: upd_def nth_append)
  then show ?thesis using assms by (simp add: store_def)
qed

text \<open>An operand is the destination itself or apart from it.\<close>

definition operand_ok :: "'a list \<Rightarrow> nat \<Rightarrow> nat \<Rightarrow> nat \<Rightarrow> bool" where
  "operand_ok h dst n a \<longleftrightarrow> a + n \<le> length h \<and> (a = dst \<or> a + n \<le> dst \<or> dst + n \<le> a)"

lemma nth_upd: "operand_ok h dst n a \<Longrightarrow> m \<le> i \<Longrightarrow> i < n \<Longrightarrow> upd h dst g m ! (a + i) = h ! (a + i)"
  by (auto simp: operand_ok_def upd_def)

lemma load_upd:
  assumes "operand_ok h dst n a" and "m + c \<le> n"
  shows "load (a + m) c (upd h dst g m) = Some (map (\<lambda>i. h ! (a + i)) [m ..< m + c])"
proof -
  have len: "a + m + c \<le> length h" using assms by (simp add: operand_ok_def)
  have "take c (drop (a + m) (upd h dst g m)) = map (\<lambda>i. h ! (a + i)) [m ..< m + c]"
    using len nth_upd [OF assms(1), of m _ g] assms(2) by (intro nth_equalityI) (auto simp: add.assoc)
  then show ?thesis using len by (simp add: load_def)
qed

lemma vector_part_bounds: "4 * (vector_part t n div 4) = vector_part t n" "vector_part t n \<le> n"
  by (auto simp: vector_part_def)

text \<open>Both loops together write the whole result, for any bodies that handle their elements.\<close>

lemma two_loops:
  assumes "\<And>k. 4 * k + 4 \<le> n \<Longrightarrow> vbody k (upd h dst g (4 * k)) = Some (upd h dst g (4 * k + 4))"
    and "\<And>i. i < n \<Longrightarrow> sbody i (upd h dst g i) = Some (upd h dst g (i + 1))"
  shows "do { h \<leftarrow> for_each [0 ..< vector_part t n div 4] vbody h; for_each [vector_part t n ..< n] sbody h } = Some (upd h dst g n)"
proof -
  have "\<exists>u. for_each [0 ..< vector_part t n div 4] vbody h = Some u \<and> u = upd h dst g (4 * (vector_part t n div 4))"
  proof (rule for_each_invariant)
    fix i u assume i: "i < vector_part t n div 4" and u: "u = upd h dst g (4 * i)"
    have "4 * i + 4 \<le> n" using i vector_part_bounds [of t n] by linarith
    then show "\<exists>u'. vbody i u = Some u' \<and> u' = upd h dst g (4 * Suc i)" using assms(1) [of i] u by (simp add: algebra_simps)
  qed simp_all
  moreover have "\<exists>u. for_each [vector_part t n ..< n] sbody (upd h dst g (vector_part t n)) = Some u \<and> u = upd h dst g n"
    by (rule for_each_invariant) (use assms(2) vector_part_bounds(2) [of t n] in auto)
  ultimately show ?thesis by (simp add: vector_part_bounds(1))
qed

lemma simd_zip_spec:
  assumes "dst + n \<le> length h" and "operand_ok h dst n a" and "operand_ok h dst n b"
  shows "simd_zip f t h (Some dst) (Some a) (Some b) n = Some (upd h dst (\<lambda>i. f (h ! (a + i)) (h ! (b + i))) n)"
proof (cases "n = 0")
  case False
  let ?g = "\<lambda>i. f (h ! (a + i)) (h ! (b + i))"
  have m2: "map2 f (map (\<lambda>i. h ! (a + i)) is) (map (\<lambda>i. h ! (b + i)) is) = map ?g is" for "is" by (induction "is") simp_all
  have "do { h \<leftarrow> for_each [0 ..< vector_part t n div 4] (\<lambda>k h.
                do { x \<leftarrow> load (a + 4 * k) 4 h; y \<leftarrow> load (b + 4 * k) 4 h; store (dst + 4 * k) (map2 f x y) h }) h;
             for_each [vector_part t n ..< n] (\<lambda>i h.
                do { x \<leftarrow> elt h (a + i); y \<leftarrow> elt h (b + i); store (dst + i) [f x y] h }) h } = Some (upd h dst ?g n)"
  proof (rule two_loops)
    fix k assume k: "4 * k + 4 \<le> n"
    show "do { x \<leftarrow> load (a + 4 * k) 4 (upd h dst ?g (4 * k)); y \<leftarrow> load (b + 4 * k) 4 (upd h dst ?g (4 * k));
             store (dst + 4 * k) (map2 f x y) (upd h dst ?g (4 * k)) } = Some (upd h dst ?g (4 * k + 4))"
      using load_upd [OF assms(2) k] load_upd [OF assms(3) k] store_upd [of dst "4 * k" 4 h ?g] k assms(1) by (simp add: m2)
  next
    fix i assume i: "i < n"
    then have "a + i < length h" "b + i < length h" using assms by (auto simp: operand_ok_def)
    then show "do { x \<leftarrow> elt (upd h dst ?g i) (a + i); y \<leftarrow> elt (upd h dst ?g i) (b + i); store (dst + i) [f x y] (upd h dst ?g i) }
        = Some (upd h dst ?g (i + 1))"
      using store_upd [of dst i 1 h ?g] i assms(1) by (simp add: nth_upd [OF assms(2)] nth_upd [OF assms(3)])
  qed
  then show ?thesis using False by (simp add: simd_zip_def)
qed (simp add: simd_zip_def)

lemma simd_scale_spec:
  assumes "dst + n \<le> length h" and "operand_ok h dst n a"
  shows "simd_scale_f32 t h (Some dst) (Some a) c n = Some (upd h dst (\<lambda>i. h ! (a + i) * c) n)"
proof (cases "n = 0")
  case False
  let ?g = "\<lambda>i. h ! (a + i) * c"
  have "do { h \<leftarrow> for_each [0 ..< vector_part t n div 4] (\<lambda>k h.
                do { x \<leftarrow> load (a + 4 * k) 4 h; store (dst + 4 * k) (map (\<lambda>x. x * c) x) h }) h;
             for_each [vector_part t n ..< n] (\<lambda>i h.
                do { x \<leftarrow> elt h (a + i); store (dst + i) [x * c] h }) h } = Some (upd h dst ?g n)"
  proof (rule two_loops)
    fix k assume k: "4 * k + 4 \<le> n"
    show "do { x \<leftarrow> load (a + 4 * k) 4 (upd h dst ?g (4 * k)); store (dst + 4 * k) (map (\<lambda>x. x * c) x) (upd h dst ?g (4 * k)) }
        = Some (upd h dst ?g (4 * k + 4))"
      using load_upd [OF assms(2) k] store_upd [of dst "4 * k" 4 h ?g] k assms(1) by (simp add: comp_def)
  next
    fix i assume i: "i < n"
    then have "a + i < length h" using assms by (auto simp: operand_ok_def)
    then show "do { x \<leftarrow> elt (upd h dst ?g i) (a + i); store (dst + i) [x * c] (upd h dst ?g i) } = Some (upd h dst ?g (i + 1))"
      using store_upd [of dst i 1 h ?g] i assms(1) by (simp add: nth_upd [OF assms(2)])
  qed
  then show ?thesis using False by (simp add: simd_scale_f32_def)
qed (simp add: simd_scale_f32_def)

section \<open>Reductions\<close>

text \<open>Lane \<open>l\<close> of the accumulator holds the terms whose index is \<open>l\<close> modulo 4.\<close>

lemma lanes_loop:
  fixes g :: "nat \<Rightarrow> 'a::comm_monoid_add"
  assumes "\<And>k v. 4 * k + 4 \<le> n \<Longrightarrow> length v = 4 \<Longrightarrow> body k v = Some (map (\<lambda>l. v ! l + g (4 * k + l)) [0 ..< 4])"
    and "m \<le> n div 4"
  shows "for_each [0 ..< m] body (replicate 4 0) = Some (map (\<lambda>l. \<Sum>k < m. g (4 * k + l)) [0 ..< 4])"
  using assms(2)
proof (induction m)
  case (Suc m)
  have "4 * m + 4 \<le> n" using Suc.prems by linarith
  then have "body m (map (\<lambda>l. \<Sum>k < m. g (4 * k + l)) [0 ..< 4]) = Some (map (\<lambda>l. \<Sum>k < Suc m. g (4 * k + l)) [0 ..< 4])"
    by (subst assms(1)) simp_all
  then show ?case using Suc by simp
qed (simp add: map_replicate_const)

lemma sum_lanes:
  fixes g :: "nat \<Rightarrow> 'a::comm_monoid_add"
  shows "(\<Sum>k < m. g (4 * k)) + (\<Sum>k < m. g (4 * k + 1)) + (\<Sum>k < m. g (4 * k + 2)) + (\<Sum>k < m. g (4 * k + 3))
    = (\<Sum>i < 4 * m. g i)"
proof (induction m)
  case (Suc m)
  have "(\<Sum>i < 4 * Suc m. g i) = (\<Sum>i < 4 * m. g i) + (g (4 * m) + g (4 * m + 1) + g (4 * m + 2) + g (4 * m + 3))"
    by (simp add: numeral_eq_Suc ac_simps)
  then show ?case unfolding Suc.IH [symmetric] by (simp add: ac_simps)
qed simp

lemma reduce_loops:
  fixes g :: "nat \<Rightarrow> 'a::comm_monoid_add"
  assumes "\<And>k v. 4 * k + 4 \<le> n \<Longrightarrow> length v = 4 \<Longrightarrow> vbody k v = Some (map (\<lambda>l. v ! l + g (4 * k + l)) [0 ..< 4])"
    and "\<And>i s. i < n \<Longrightarrow> sbody i s = Some (s + g i)"
  shows "do { v \<leftarrow> for_each [0 ..< vector_part t n div 4] vbody (replicate 4 0);
              for_each [vector_part t n ..< n] sbody (if t = Scalar then 0 else lane_sum t v) } = Some (\<Sum>i < n. g i)"
proof -
  let ?m = "vector_part t n div 4"
  have "?m \<le> n div 4" using vector_part_bounds(2) [of t n] by (rule div_le_mono)
  then have v: "for_each [0 ..< ?m] vbody (replicate 4 0) = Some (map (\<lambda>l. \<Sum>k < ?m. g (4 * k + l)) [0 ..< 4])"
    by (intro lanes_loop assms(1))
  have l: "(if t = Scalar then 0 else lane_sum t (map (\<lambda>l. \<Sum>k < ?m. g (4 * k + l)) [0 ..< 4])) = (\<Sum>i < vector_part t n. g i)"
    using sum_lanes [of g ?m] unfolding vector_part_bounds(1)
    by (cases t) (simp_all add: lane_sum_def vector_part_def ac_simps)
  have "\<exists>s. for_each [vector_part t n ..< n] sbody (\<Sum>i < vector_part t n. g i) = Some s \<and> s = (\<Sum>i < n. g i)"
    by (rule for_each_invariant) (use assms(2) vector_part_bounds(2) [of t n] in auto)
  then show ?thesis unfolding v using l by simp
qed

lemma load_eq: "a + m + c \<le> length h \<Longrightarrow> load (a + m) c h = Some (map (\<lambda>l. h ! (a + (m + l))) [0 ..< c])"
  by (auto simp: load_def add.assoc intro!: nth_equalityI)

lemma map2_upto: "length v = c \<Longrightarrow> map2 f v (map g [0 ..< c]) = map (\<lambda>l. f (v ! l) (g l)) [0 ..< c]"
  by (rule nth_equalityI) simp_all

lemma simd_dot_spec:
  fixes h :: "'a::comm_semiring_0 list"
  assumes "a + n \<le> length h" and "b + n \<le> length h" and "\<And>s x y. mla s x y = s + x * y"
  shows "simd_dot_f32 mla t h (Some a) (Some b) n = Some (\<Sum>i < n. h ! (a + i) * h ! (b + i))"
proof (cases "n = 0")
  case False
  have "do { vsum \<leftarrow> for_each [0 ..< vector_part t n div 4] (\<lambda>k vsum.
              do { x \<leftarrow> load (a + 4 * k) 4 h; y \<leftarrow> load (b + 4 * k) 4 h;
                   Some (if t = Sse42 then map2 (\<lambda>s p. s + p) vsum (map2 (\<lambda>x y. x * y) x y)
                         else map2 (\<lambda>s (x, y). mla s x y) vsum (zip x y)) }) (replicate 4 0);
            for_each [vector_part t n ..< n] (\<lambda>i sum. do { x \<leftarrow> elt h (a + i); y \<leftarrow> elt h (b + i); Some (sum + x * y) })
              (if t = Scalar then 0 else lane_sum t vsum) } = Some (\<Sum>i < n. h ! (a + i) * h ! (b + i))"
  proof (rule reduce_loops)
    fix k v assume k: "4 * k + 4 \<le> n" and v: "length (v :: 'a list) = 4"
    have z: "zip (map p [0 ..< 4]) (map q [0 ..< 4]) = map (\<lambda>l. (p l, q l)) [0 ..< 4 :: nat]" for p q :: "nat \<Rightarrow> 'a"
      by (rule nth_equalityI) simp_all
    show "do { x \<leftarrow> load (a + 4 * k) 4 h; y \<leftarrow> load (b + 4 * k) 4 h;
               Some (if t = Sse42 then map2 (\<lambda>s p. s + p) v (map2 (\<lambda>x y. x * y) x y) else map2 (\<lambda>s (x, y). mla s x y) v (zip x y)) }
        = Some (map (\<lambda>l. v ! l + h ! (a + (4 * k + l)) * h ! (b + (4 * k + l))) [0 ..< 4])"
      using k assms v by (simp add: load_eq z map2_upto comp_def)
  qed (use assms in simp)
  then show ?thesis using False by (simp add: simd_dot_f32_def)
qed (simp add: simd_dot_f32_def)

lemma simd_sum_spec:
  fixes h :: "'a::comm_monoid_add list"
  assumes "a + n \<le> length h"
  shows "simd_sum_f32 t h (Some a) n = Some (\<Sum>i < n. h ! (a + i))"
proof (cases "n = 0")
  case False
  have "do { vsum \<leftarrow> for_each [0 ..< vector_part t n div 4] (\<lambda>k vsum.
              do { x \<leftarrow> load (a + 4 * k) 4 h; Some (map2 (\<lambda>s x. s + x) vsum x) }) (replicate 4 0);
            for_each [vector_part t n ..< n] (\<lambda>i sum. do { x \<leftarrow> elt h (a + i); Some (sum + x) })
              (if t = Scalar then 0 else lane_sum t vsum) } = Some (\<Sum>i < n. h ! (a + i))"
    by (rule reduce_loops) (use assms in \<open>simp_all add: load_eq map2_upto\<close>)
  then show ?thesis using False by (simp add: simd_sum_f32_def)
qed (simp add: simd_sum_f32_def)

text \<open>
  C35. Every build computes the same: on arrays inside the memory, whose destination is an operand
  itself or apart from it, addition, multiplication and scaling leave exactly the element-wise
  result, whatever the arithmetic of the elements, so bit for bit also with rounding, and change
  nothing else; dot product and sum are those of the index order in exact arithmetic.
\<close>

theorem simd_equals_scalar:
  fixes h :: "'a::{plus,times} list" and r :: "'b::comm_semiring_0 list"
  assumes "dst + n \<le> length h" and "operand_ok h dst n a" and "operand_ok h dst n b"
    and "p + n \<le> length r" and "q + n \<le> length r" and "\<And>s x y. mla s x y = s + x * y"
  shows "\<exists>s m c. simd_add_f32 t h (Some dst) (Some a) (Some b) n = Some s
     \<and> simd_mul_f32 t h (Some dst) (Some a) (Some b) n = Some m
     \<and> simd_scale_f32 t h (Some dst) (Some a) k n = Some c
     \<and> length s = length h \<and> length m = length h \<and> length c = length h
     \<and> (\<forall>i. i < n \<longrightarrow> s ! (dst + i) = h ! (a + i) + h ! (b + i) \<and> m ! (dst + i) = h ! (a + i) * h ! (b + i)
            \<and> c ! (dst + i) = h ! (a + i) * k)
     \<and> (\<forall>j. j < length h \<longrightarrow> j < dst \<or> dst + n \<le> j \<longrightarrow> s ! j = h ! j \<and> m ! j = h ! j \<and> c ! j = h ! j)
     \<and> simd_dot_f32 mla t r (Some p) (Some q) n = Some (\<Sum>i < n. r ! (p + i) * r ! (q + i))
     \<and> simd_sum_f32 t r (Some p) n = Some (\<Sum>i < n. r ! (p + i))"
proof -
  have u: "upd h dst g n ! (dst + i) = g i" if "i < n" for g i using that assms(1) by (simp add: upd_def)
  have o: "upd h dst g n ! j = h ! j" if "j < length h" "j < dst \<or> dst + n \<le> j" for g j using that by (auto simp: upd_def)
  show ?thesis
    using u o simd_scale_spec [OF assms(1,2), of t k] simd_dot_spec [OF assms(4,5), of mla t] assms(6) simd_sum_spec [OF assms(4), of t]
    by (simp add: simd_add_f32_def simd_mul_f32_def simd_zip_spec [OF assms(1-3)])
qed

theorem simd_equals_scalar_witness:
  "\<exists>s. simd_add_f32 Sse42 [1, 2, 3, 4, 5, 6 :: int] (Some 0) (Some 0) (Some 0) 6 = Some s \<and> length s = 6
     \<and> simd_sum_f32 (Neon True) [1, 2, 3, 4, 5, 6 :: int] (Some 0) 6 = Some 21"
proof -
  have ok: "operand_ok [1, 2, 3, 4, 5, 6 :: int] 0 6 0" by (simp add: operand_ok_def)
  have six: "0 + 6 \<le> length [1, 2, 3, 4, 5, 6 :: int]" "0 + 6 \<le> length [1, 2, 3, 4, 5, 6 :: int]" by simp_all
  have "(\<Sum>i < 6. [1, 2, 3, 4, 5, 6 :: int] ! (0 + i)) = 21" by (simp add: numeral_eq_Suc)
  then show ?thesis
    using simd_equals_scalar [OF six(1) ok ok six(2) six(2), of "\<lambda>s x y. s + x * y" Sse42 0]
      simd_equals_scalar [OF six(1) ok ok six(2) six(2), of "\<lambda>s x y. s + x * y" "Neon True" 0] by auto
qed

text \<open>
  With a destination shifted against an operand the builds differ: the scalar loop reads what it has
  just written, the vector loop does not.
\<close>

lemma simd_overlap_differs:
  "simd_add_f32 Scalar [1, 1, 1, 1, 1 :: int] (Some 1) (Some 0) (Some 0) 4 = Some [1, 2, 4, 8, 16]"
  "simd_add_f32 Sse42 [1, 1, 1, 1, 1 :: int] (Some 1) (Some 0) (Some 0) 4 = Some [1, 2, 2, 2, 2]"
  by (simp_all add: simd_add_f32_def simd_zip_def vector_part_def elt_def load_def store_def upt_rec)

end
