(* ===== verification/Renderer.thy ===== *)
theory Renderer
  imports CLib
begin

text \<open>
  The software framebuffer of \<open>src/rendering/software_renderer.c\<close>. Coordinates are \<open>int\<close>s whose
  arithmetic is undefined outside their range; the pixel index is computed in \<open>size_t\<close>. The loop
  of \<open>framebuffer_line\<close> has no bound in the code, so it is a partial function.
\<close>

section \<open>Data and operations\<close>

text \<open>An \<open>int\<close> result, undefined when it does not fit.\<close>

definition c_int :: "int \<Rightarrow> int ub" where
  "c_int i = (if - 2147483648 \<le> i \<and> i \<le> 2147483647 then Some i else None)"

record framebuffer =
  fb_pixels :: "u32 list option"
  fb_width :: int
  fb_height :: int

definition framebuffer_create :: "bool \<Rightarrow> framebuffer option \<Rightarrow> int \<Rightarrow> int \<Rightarrow> error_code \<times> framebuffer option" where
  "framebuffer_create ok fbp width height =
     (case fbp of
        None \<Rightarrow> (ERR_INVALID_ARG, None)
      | Some fb \<Rightarrow>
          if width \<le> 0 \<or> height \<le> 0 then (ERR_INVALID_ARG, fbp)
          else let w = word_of_int width :: size_t; h = word_of_int height :: size_t
            in if h > SIZE_MAX div w then (ERR_OVERFLOW, fbp)
               else if w * h > SIZE_MAX div 4 then (ERR_OVERFLOW, fbp)
               else if \<not> ok then (ERR_NOMEM, Some (fb\<lparr>fb_pixels := None\<rparr>))
               else (ERR_OK, Some (fb\<lparr>fb_pixels := Some (replicate (unat (w * h)) 0),
                      fb_width := width, fb_height := height\<rparr>)))"

definition framebuffer_destroy :: "framebuffer option \<Rightarrow> framebuffer option" where
  "framebuffer_destroy fbp = (case fbp of Some fb \<Rightarrow> Some (fb\<lparr>fb_pixels := None\<rparr>) | None \<Rightarrow> None)"

primrec clear_loop :: "nat \<Rightarrow> nat \<Rightarrow> u32 \<Rightarrow> u32 list \<Rightarrow> u32 list ub" where
  "clear_loop 0 i color px = Some px"
| "clear_loop (Suc m) i color px =
     (if i < length px then clear_loop m (Suc i) color (px[i := color]) else None)"

definition framebuffer_clear :: "framebuffer option \<Rightarrow> u32 \<Rightarrow> framebuffer option ub" where
  "framebuffer_clear fbp color =
     (case fbp of
        None \<Rightarrow> Some None
      | Some fb \<Rightarrow>
          (case fb_pixels fb of
             None \<Rightarrow> Some fbp
           | Some px \<Rightarrow>
               let n = word_of_int (fb_width fb) * word_of_int (fb_height fb) :: size_t
               in do { px' \<leftarrow> clear_loop (unat n) 0 color px; Some (Some (fb\<lparr>fb_pixels := Some px'\<rparr>)) }))"

definition framebuffer_set_pixel :: "framebuffer option \<Rightarrow> int \<Rightarrow> int \<Rightarrow> u32 \<Rightarrow> framebuffer option ub" where
  "framebuffer_set_pixel fbp x y color =
     (case fbp of
        None \<Rightarrow> Some None
      | Some fb \<Rightarrow>
          (case fb_pixels fb of
             None \<Rightarrow> Some fbp
           | Some px \<Rightarrow>
               if x < 0 \<or> x \<ge> fb_width fb \<or> y < 0 \<or> y \<ge> fb_height fb then Some fbp
               else let i = word_of_int y * word_of_int (fb_width fb) + word_of_int x :: size_t
                 in if unat i < length px then Some (Some (fb\<lparr>fb_pixels := Some (px[unat i := color])\<rparr>))
                    else None))"

text \<open>One turn of the Bresenham loop after the pixel: the new error, x and y.\<close>

definition line_step :: "int \<Rightarrow> int \<Rightarrow> int \<Rightarrow> int \<Rightarrow> int \<Rightarrow> int \<Rightarrow> int \<Rightarrow> (int \<times> int \<times> int) ub" where
  "line_step dx dy sx sy err x0 y0 =
     do { e2 \<leftarrow> c_int (2 * err);
          (err1, x) \<leftarrow> (if e2 \<ge> dy then do { e \<leftarrow> c_int (err + dy); x \<leftarrow> c_int (x0 + sx); Some (e, x) }
                       else Some (err, x0));
          (err2, y) \<leftarrow> (if e2 \<le> dx then do { e \<leftarrow> c_int (err1 + dx); y \<leftarrow> c_int (y0 + sy); Some (e, y) }
                       else Some (err1, y0));
          Some (err2, x, y) }"

text \<open>The outer option is termination, the inner one defined behaviour.\<close>

partial_function (option) line_loop ::
  "int \<Rightarrow> int \<Rightarrow> int \<Rightarrow> int \<Rightarrow> int \<Rightarrow> int \<Rightarrow> u32 \<Rightarrow> framebuffer option \<Rightarrow> int \<Rightarrow> int \<Rightarrow> int \<Rightarrow> framebuffer option ub option" where
  "line_loop dx dy sx sy x1 y1 color fbp x0 y0 err =
     (case framebuffer_set_pixel fbp x0 y0 color of
        None \<Rightarrow> Some None
      | Some fbp' \<Rightarrow>
          if x0 = x1 \<and> y0 = y1 then Some (Some fbp')
          else (case line_step dx dy sx sy err x0 y0 of
                  None \<Rightarrow> Some None
                | Some (err', x, y) \<Rightarrow> line_loop dx dy sx sy x1 y1 color fbp' x y err'))"

definition line_setup :: "int \<Rightarrow> int \<Rightarrow> int \<Rightarrow> int \<Rightarrow> (int \<times> int \<times> int) ub" where
  "line_setup x0 y0 x1 y1 =
     do { ex \<leftarrow> c_int (x1 - x0); dx \<leftarrow> c_int \<bar>ex\<bar>;
          ey \<leftarrow> c_int (y1 - y0); ay \<leftarrow> c_int \<bar>ey\<bar>; dy \<leftarrow> c_int (- ay);
          err \<leftarrow> c_int (dx + dy);
          Some (dx, dy, err) }"

definition framebuffer_line :: "framebuffer option \<Rightarrow> int \<Rightarrow> int \<Rightarrow> int \<Rightarrow> int \<Rightarrow> u32 \<Rightarrow> framebuffer option ub option" where
  "framebuffer_line fbp x0 y0 x1 y1 color =
     (case line_setup x0 y0 x1 y1 of
        None \<Rightarrow> Some None
      | Some (dx, dy, err) \<Rightarrow>
          line_loop dx dy (if x0 < x1 then 1 else - 1) (if y0 < y1 then 1 else - 1) x1 y1 color fbp x0 y0 err)"

text \<open>The inner loop from \<open>col\<close> and the outer one from \<open>row\<close>, each with its turns to go.\<close>

primrec cols_loop :: "nat \<Rightarrow> int \<Rightarrow> int \<Rightarrow> u32 \<Rightarrow> framebuffer option \<Rightarrow> framebuffer option ub" where
  "cols_loop 0 col row color fbp = Some fbp"
| "cols_loop (Suc m) col row color fbp =
     do { fbp' \<leftarrow> framebuffer_set_pixel fbp col row color; cols_loop m (col + 1) row color fbp' }"

primrec rows_loop :: "nat \<Rightarrow> int \<Rightarrow> int \<Rightarrow> int \<Rightarrow> u32 \<Rightarrow> framebuffer option \<Rightarrow> framebuffer option ub" where
  "rows_loop 0 row x w color fbp = Some fbp"
| "rows_loop (Suc m) row x w color fbp =
     do { e \<leftarrow> c_int (x + w); fbp' \<leftarrow> cols_loop (nat (e - x)) x row color fbp;
          rows_loop m (row + 1) x w color fbp' }"

definition framebuffer_fill_rect :: "framebuffer option \<Rightarrow> int \<Rightarrow> int \<Rightarrow> int \<Rightarrow> int \<Rightarrow> u32 \<Rightarrow> framebuffer option ub" where
  "framebuffer_fill_rect fbp x y w h color =
     do { e \<leftarrow> c_int (y + h); rows_loop (nat (e - y)) y x w color fbp }"

text \<open>The eight pixels of one turn of the circle loop.\<close>

fun set_pixels :: "(int \<times> int) list \<Rightarrow> u32 \<Rightarrow> framebuffer option \<Rightarrow> framebuffer option ub" where
  "set_pixels [] color fbp = Some fbp"
| "set_pixels ((x, y) # ps) color fbp =
     do { x' \<leftarrow> c_int x; y' \<leftarrow> c_int y; fbp' \<leftarrow> framebuffer_set_pixel fbp x' y' color; set_pixels ps color fbp' }"

definition octants :: "int \<Rightarrow> int \<Rightarrow> int \<Rightarrow> int \<Rightarrow> (int \<times> int) list" where
  "octants cx cy x y =
     [(cx + x, cy + y), (cx - x, cy + y), (cx + x, cy - y), (cx - x, cy - y),
      (cx + y, cy + x), (cx - y, cy + x), (cx + y, cy - x), (cx - y, cy - x)]"

text \<open>The two updates of the decision variable.\<close>

definition circle_east :: "int \<Rightarrow> int \<Rightarrow> int ub" where
  "circle_east d y = do { a \<leftarrow> c_int (2 * y); b \<leftarrow> c_int (a + 1); c_int (d + b) }"

definition circle_diagonal :: "int \<Rightarrow> int \<Rightarrow> int \<Rightarrow> int ub" where
  "circle_diagonal d x y = do { s \<leftarrow> c_int (y - x); a \<leftarrow> c_int (2 * s); b \<leftarrow> c_int (a + 1); c_int (d + b) }"

function circle_loop :: "int \<Rightarrow> int \<Rightarrow> u32 \<Rightarrow> int \<Rightarrow> int \<Rightarrow> int \<Rightarrow> framebuffer option \<Rightarrow> framebuffer option ub" where
  "circle_loop cx cy color x y d fbp =
     (if x \<ge> y then
        (case set_pixels (octants cx cy x y) color fbp of
           None \<Rightarrow> None
         | Some fbp' \<Rightarrow>
             (case c_int (y + 1) of
                None \<Rightarrow> None
              | Some y' \<Rightarrow>
                  if d \<le> 0 then
                    (case circle_east d y' of
                       None \<Rightarrow> None
                     | Some d' \<Rightarrow> circle_loop cx cy color x y' d' fbp')
                  else
                    (case circle_diagonal d (x - 1) y' of
                       None \<Rightarrow> None
                     | Some d' \<Rightarrow> circle_loop cx cy color (x - 1) y' d' fbp')))
      else Some fbp)"
  by pat_completeness auto

termination
  by (relation "measure (\<lambda>(cx, cy, color, x, y, d, fbp). nat (x - y + 1))")
     (auto simp: c_int_def split: if_splits)

declare circle_loop.simps [simp del]

definition framebuffer_circle :: "framebuffer option \<Rightarrow> int \<Rightarrow> int \<Rightarrow> int \<Rightarrow> u32 \<Rightarrow> framebuffer option ub" where
  "framebuffer_circle fbp cx cy r color =
     do { d \<leftarrow> c_int (1 - r); circle_loop cx cy color r 0 d fbp }"

definition framebuffer_rgb :: "8 word \<Rightarrow> 8 word \<Rightarrow> 8 word \<Rightarrow> u32" where
  "framebuffer_rgb r g b =
     or (or (or 0xFF000000 (push_bit 16 (ucast r))) (push_bit 8 (ucast g))) (ucast b)"

definition ppm_pixel :: "u32 \<Rightarrow> byte list" where
  "ppm_pixel p = [ucast (drop_bit 16 p), ucast (drop_bit 8 p), ucast p]"

text \<open>
  \<open>framebuffer_write_ppm\<close>: the error code and what went into the file (\<open>None\<close> when it was not
  opened). \<open>accepted\<close> is how many of the pixel writes succeed, \<open>closed\<close> whether \<open>fclose\<close> does.
\<close>

definition framebuffer_write_ppm ::
  "framebuffer option \<Rightarrow> bool \<Rightarrow> bool \<Rightarrow> nat \<Rightarrow> bool \<Rightarrow> (error_code \<times> byte list option) ub" where
  "framebuffer_write_ppm fbp path opened accepted closed =
     (case fbp of
        None \<Rightarrow> Some (ERR_INVALID_ARG, None)
      | Some fb \<Rightarrow>
          (case fb_pixels fb of
             None \<Rightarrow> Some (ERR_INVALID_ARG, None)
           | Some px \<Rightarrow>
               if \<not> path then Some (ERR_INVALID_ARG, None)
               else if \<not> opened then Some (ERR_IO, None)
               else let n = unat (word_of_int (fb_width fb) * word_of_int (fb_height fb) :: size_t);
                        header = [80, 54, 10] @ dec_int (fb_width fb) @ [32] @ dec_int (fb_height fb) @ [10, 50, 53, 53, 10]
                 in if length px < min n (Suc accepted) then None
                    else if accepted < n then Some (ERR_IO, Some (header @ concat (map ppm_pixel (take accepted px))))
                    else Some (if closed then ERR_OK else ERR_IO, Some (header @ concat (map ppm_pixel (take n px))))))"

section \<open>The canvas\<close>

definition fb_ok :: "framebuffer \<Rightarrow> bool" where
  "fb_ok fb \<longleftrightarrow> 0 < fb_width fb \<and> fb_width fb \<le> 2147483647 \<and> 0 < fb_height fb \<and> fb_height fb \<le> 2147483647
     \<and> (\<exists>px. fb_pixels fb = Some px \<and> int (length px) = fb_width fb * fb_height fb)"

definition inside :: "framebuffer \<Rightarrow> int \<Rightarrow> int \<Rightarrow> bool" where
  "inside fb x y \<longleftrightarrow> 0 \<le> x \<and> x < fb_width fb \<and> 0 \<le> y \<and> y < fb_height fb"

text \<open>The color of each point, \<open>None\<close> outside.\<close>

definition canvas :: "framebuffer \<Rightarrow> int \<times> int \<Rightarrow> u32 option" where
  "canvas fb p =
     (if inside fb (fst p) (snd p) then Some (the (fb_pixels fb) ! nat (snd p * fb_width fb + fst p)) else None)"

definition painted :: "(int \<times> int) set \<Rightarrow> u32 \<Rightarrow> (int \<times> int \<Rightarrow> u32 option) \<Rightarrow> int \<times> int \<Rightarrow> u32 option" where
  "painted ps color c p = (if p \<in> ps \<and> c p \<noteq> None then Some color else c p)"

lemma painted_empty [simp]: "painted {} color c = c"
  by (simp add: painted_def fun_eq_iff)

lemma painted_union: "painted ps color (painted qs color c) = painted (ps \<union> qs) color c"
  by (auto simp: painted_def fun_eq_iff)

lemma index_bound:
  assumes "0 \<le> x" and "x < w" and "0 \<le> y" and "y < h"
  shows "0 \<le> y * w + x" and "y * w + x < w * (h :: int)"
proof -
  show "0 \<le> y * w + x" using assms by simp
  have "y * w + x < (y + 1) * w" using assms by (simp add: algebra_simps)
  also have "\<dots> \<le> h * w" using assms by (intro mult_right_mono) auto
  finally show "y * w + x < w * h" by (simp add: mult.commute)
qed

lemma index_inj:
  assumes "0 \<le> x" "x < w" "0 \<le> x'" "x' < (w :: int)" "y * w + x = y' * w + x'"
  shows "x = x' \<and> y = y'"
proof -
  have "(y * w + x) mod w = x" "(y' * w + x') mod w = x'" using assms(1-4) by simp_all
  then have "x = x'" using assms(5) by metis
  then show ?thesis using assms by auto
qed

lemma area_bound:
  assumes "fb_ok fb" shows "fb_width fb * fb_height fb < 2 ^ 63"
proof -
  have "fb_width fb * fb_height fb \<le> 2147483647 * 2147483647"
    using assms by (intro mult_mono) (auto simp: fb_ok_def)
  then show ?thesis by simp
qed

lemma pixel_index:
  assumes "fb_ok fb" and "inside fb x y"
  shows "unat (word_of_int y * word_of_int (fb_width fb) + word_of_int x :: size_t) = nat (y * fb_width fb + x)"
proof -
  have b: "0 \<le> y * fb_width fb + x" "y * fb_width fb + x < fb_width fb * fb_height fb"
    using index_bound assms(2) by (auto simp: inside_def)
  have e: "word_of_int y * word_of_int (fb_width fb) + word_of_int x = (word_of_int (y * fb_width fb + x) :: size_t)"
    by simp
  have "y * fb_width fb + x < 2 ^ 64" using b(2) area_bound [OF assms(1)] by simp
  then show ?thesis unfolding e using b(1) by (simp only: unat_eq_nat_uint uint_word_of_int) (simp add: take_bit_eq_mod)
qed

lemma set_pixel_canvas:
  assumes "fb_ok fb"
  shows "\<exists>fb'. framebuffer_set_pixel (Some fb) x y color = Some (Some fb') \<and> fb_ok fb'
       \<and> canvas fb' = painted {(x, y)} color (canvas fb)"
proof (cases "inside fb x y")
  case True
  obtain px where px: "fb_pixels fb = Some px" "int (length px) = fb_width fb * fb_height fb"
    using assms by (auto simp: fb_ok_def)
  let ?i = "nat (y * fb_width fb + x)" and ?fb = "fb\<lparr>fb_pixels := Some (px[nat (y * fb_width fb + x) := color])\<rparr>"
  have b: "0 \<le> y * fb_width fb + x" "y * fb_width fb + x < fb_width fb * fb_height fb"
    using index_bound True by (auto simp: inside_def)
  then have lt: "?i < length px" using px(2) by linarith
  have "framebuffer_set_pixel (Some fb) x y color = Some (Some ?fb)"
    using True px(1) lt pixel_index [OF assms True]
    by (simp add: framebuffer_set_pixel_def Let_def inside_def not_le not_less del: of_int_add of_int_mult)
  moreover have "fb_ok ?fb" using assms px by (auto simp: fb_ok_def)
  moreover have "canvas ?fb p = painted {(x, y)} color (canvas fb) p" for p
  proof (cases "inside fb (fst p) (snd p)")
    case p: True
    show ?thesis
    proof (cases "p = (x, y)")
      case eq: True
      then show ?thesis using True lt by (simp add: canvas_def painted_def inside_def)
    next
      case False
      then have ne: "snd p * fb_width fb + fst p \<noteq> y * fb_width fb + x"
        using index_inj [of "fst p" "fb_width fb" x "snd p" y] True p by (auto simp: inside_def prod_eq_iff)
      moreover have "0 \<le> snd p * fb_width fb + fst p" using p by (simp add: inside_def)
      ultimately have "?i \<noteq> nat (snd p * fb_width fb + fst p)" using b(1) by linarith
      then show ?thesis using False px by (simp add: canvas_def painted_def inside_def)
    qed
  next
    case p: False
    then show ?thesis by (auto simp: canvas_def painted_def inside_def)
  qed
  ultimately show ?thesis by blast
next
  case False
  then have "canvas fb = painted {(x, y)} color (canvas fb)"
    by (auto simp: painted_def canvas_def fun_eq_iff)
  moreover have "framebuffer_set_pixel (Some fb) x y color = Some (Some fb)"
    using False assms by (auto simp: framebuffer_set_pixel_def inside_def fb_ok_def)
  ultimately show ?thesis using assms by blast
qed

section \<open>Lines\<close>

text \<open>
  A walk of eight-neighbours from one point to another that stays within \<open>m / 2\<close> of a line, \<open>dev\<close>
  being twice the distance times the longer side.
\<close>

definition adjacent :: "int \<times> int \<Rightarrow> int \<times> int \<Rightarrow> bool" where
  "adjacent p q \<longleftrightarrow> \<bar>fst q - fst p\<bar> \<le> 1 \<and> \<bar>snd q - snd p\<bar> \<le> 1"

fun connected :: "(int \<times> int) list \<Rightarrow> bool" where
  "connected (p # q # ps) \<longleftrightarrow> adjacent p q \<and> connected (q # ps)"
| "connected ps \<longleftrightarrow> True"

text \<open>\<open>i\<close> and \<open>j\<close> count the steps made in each direction of the \<open>a\<close> and \<open>b\<close> needed.\<close>

definition line_inv :: "int \<Rightarrow> int \<Rightarrow> int \<Rightarrow> int \<Rightarrow> int \<Rightarrow> bool" where
  "line_inv a b i j err \<longleftrightarrow> 0 \<le> i \<and> i \<le> a \<and> 0 \<le> j \<and> j \<le> b \<and> err = a * (j + 1) - b * (i + 1)
     \<and> 2 * \<bar>a * j - b * i\<bar> \<le> max a b"

lemma line_inv_step:
  assumes "line_inv a b i j err" and "\<not> (i = a \<and> j = b)"
    and "i' = (if 2 * err \<ge> - b then i + 1 else i)" and "j' = (if 2 * err \<le> a then j + 1 else j)"
    and "err' = (if 2 * err \<ge> - b then err - b else err) + (if 2 * err \<le> a then a else 0)"
  shows "line_inv a b i' j' err'"
    and "(if b \<le> a then i' else j') = (if b \<le> a then i else j) + 1"
proof -
  define D where "D = a * j - b * i"
  have ab: "0 \<le> a" "0 \<le> b" using assms(1) by (auto simp: line_inv_def)
  have err: "err = D + a - b" using assms(1) by (simp add: line_inv_def D_def algebra_simps)
  have dev: "2 * \<bar>D\<bar> \<le> max a b" using assms(1) by (simp add: line_inv_def D_def)
  have D': "a * j' - b * i' = D + (if 2 * err \<le> a then a else 0) - (if 2 * err \<ge> - b then b else 0)"
    using assms(3,4) by (auto simp: D_def algebra_simps)
  have dev': "2 * \<bar>a * j' - b * i'\<bar> \<le> max a b"
    unfolding D' err using dev ab by (auto simp: max_def abs_if split: if_splits)
  have xmax: "i < a" if "2 * err \<ge> - b"
  proof (rule ccontr)
    assume "\<not> i < a"
    then have ia: "i = a" and jb: "j < b" using assms(1,2) by (auto simp: line_inv_def)
    have "a * j \<le> a * (b - 1)" using ab jb by (intro mult_left_mono) auto
    then have "D \<le> - a" using ia by (simp add: D_def algebra_simps)
    then show False using that err ab jb ia assms(1) by (auto simp: line_inv_def)
  qed
  have ymax: "j < b" if "2 * err \<le> a"
  proof (rule ccontr)
    assume "\<not> j < b"
    then have jb: "j = b" and ia: "i < a" using assms(1,2) by (auto simp: line_inv_def)
    have "b * i \<le> b * (a - 1)" using ab ia by (intro mult_left_mono) auto
    then have "D \<ge> b" using jb by (simp add: D_def algebra_simps)
    then show False using that err ab jb ia assms(1) by (auto simp: line_inv_def)
  qed
  have "err' = a * (j' + 1) - b * (i' + 1)" using assms(3-5) err by (auto simp: D_def algebra_simps)
  then show "line_inv a b i' j' err'"
    using dev' xmax ymax assms(1,3,4) by (auto simp: line_inv_def)
  show "(if b \<le> a then i' else j') = (if b \<le> a then i else j) + 1"
    using assms(3,4) err dev ab by (auto simp: max_def split: if_splits)
qed

lemma c_int_bound: "- 2147483648 \<le> i \<Longrightarrow> i \<le> 2147483647 \<Longrightarrow> c_int i = Some i"
  by (simp add: c_int_def)

text \<open>The directed coordinates after \<open>i\<close> and \<open>j\<close> steps.\<close>

abbreviation coord_max :: int where "coord_max \<equiv> 300000000"

lemma line_step_inv:
  assumes "line_inv a b i j err" and "\<not> (i = a \<and> j = b)" and "a \<le> 2 * coord_max" and "b \<le> 2 * coord_max"
    and "sx \<in> {1, - 1}" and "sy \<in> {1, - 1}" and "\<bar>x0\<bar> \<le> coord_max" and "\<bar>y0\<bar> \<le> coord_max"
    and "\<bar>x0 + sx * a\<bar> \<le> coord_max" and "\<bar>y0 + sy * b\<bar> \<le> coord_max"
  shows "\<exists>i' j' err'. line_step a (- b) sx sy err (x0 + sx * i) (y0 + sy * j)
             = Some (err', x0 + sx * i', y0 + sy * j')
          \<and> line_inv a b i' j' err' \<and> \<bar>i' - i\<bar> \<le> 1 \<and> \<bar>j' - j\<bar> \<le> 1
          \<and> (if b \<le> a then i' else j') = (if b \<le> a then i else j) + 1"
proof -
  let ?px = "2 * err \<ge> - b" and ?py = "2 * err \<le> a"
  let ?i = "if ?px then i + 1 else i" and ?j = "if ?py then j + 1 else j"
  let ?e1 = "if ?px then err - b else err" 
  let ?e = "?e1 + (if ?py then a else 0)"
  note inv = line_inv_step [OF assms(1,2) refl refl refl]
  have ab: "0 \<le> a" "0 \<le> b" "0 \<le> i" "i \<le> a" "0 \<le> j" "j \<le> b" using assms(1) by (auto simp: line_inv_def)
  have err: "err = (a * j - b * i) + a - b" using assms(1) by (simp add: line_inv_def algebra_simps)
  have dev: "2 * \<bar>a * j - b * i\<bar> \<le> max a b" using assms(1) by (simp add: line_inv_def)
  have eb: "\<bar>2 * err\<bar> \<le> 1800000000" using err dev ab assms(3,4) by (auto simp: max_def abs_if split: if_splits)
  have c2: "c_int (2 * err) = Some (2 * err)" using eb by (intro c_int_bound) auto
  have ce: "c_int (err - b) = Some (err - b)" "c_int (?e1 + a) = Some (?e1 + a)"
    using eb ab assms(3,4) by (auto intro!: c_int_bound)
  have in1: "0 \<le> ?i" "?i \<le> a" "0 \<le> ?j" "?j \<le> b" using inv(1) by (auto simp: line_inv_def)
  have cx: "c_int (x0 + sx * ?i) = Some (x0 + sx * ?i)"
    using in1 assms(5,7,9) by (intro c_int_bound) auto
  have cy: "c_int (y0 + sy * ?j) = Some (y0 + sy * ?j)"
    using in1 assms(6,8,10) by (intro c_int_bound) auto
  have "line_step a (- b) sx sy err (x0 + sx * i) (y0 + sy * j) = Some (?e, x0 + sx * ?i, y0 + sy * ?j)"
    using c2 ce cx cy by (cases ?px; cases ?py) (simp_all add: line_step_def algebra_simps)
  then show ?thesis using inv by (intro exI [of _ ?i] exI [of _ ?j] exI [of _ ?e]) auto
qed

definition line_point :: "int \<Rightarrow> int \<Rightarrow> int \<Rightarrow> int \<Rightarrow> int \<Rightarrow> int \<Rightarrow> int \<times> int \<Rightarrow> bool" where
  "line_point a b x0 y0 sx sy p \<longleftrightarrow>
     (\<exists>i j. p = (x0 + sx * i, y0 + sy * j) \<and> 0 \<le> i \<and> i \<le> a \<and> 0 \<le> j \<and> j \<le> b \<and> 2 * \<bar>a * j - b * i\<bar> \<le> max a b)"

lemma line_loop_walk:
  assumes "fb_ok fb" and "line_inv a b i j err" and "a \<le> 2 * coord_max" and "b \<le> 2 * coord_max"
    and "sx \<in> {1, - 1}" and "sy \<in> {1, - 1}" and "\<bar>x0\<bar> \<le> coord_max" and "\<bar>y0\<bar> \<le> coord_max"
    and "\<bar>x0 + sx * a\<bar> \<le> coord_max" and "\<bar>y0 + sy * b\<bar> \<le> coord_max"
  shows "\<exists>pts fb'. line_loop a (- b) sx sy (x0 + sx * a) (y0 + sy * b) color (Some fb) (x0 + sx * i) (y0 + sy * j) err
             = Some (Some (Some fb'))
          \<and> fb_ok fb' \<and> canvas fb' = painted (set pts) color (canvas fb) \<and> connected pts
          \<and> pts \<noteq> [] \<and> hd pts = (x0 + sx * i, y0 + sy * j) \<and> last pts = (x0 + sx * a, y0 + sy * b)
          \<and> int (length pts) = (if b \<le> a then a - i else b - j) + 1
          \<and> (\<forall>p \<in> set pts. line_point a b x0 y0 sx sy p)"
  using assms(1,2)
proof (induction "nat (if b \<le> a then a - i else b - j)" arbitrary: fb i j err rule: less_induct)
  case less
  let ?p = "(x0 + sx * i, y0 + sy * j)"
  have ab: "0 \<le> i" "i \<le> a" "0 \<le> j" "j \<le> b" using less.prems(2) by (auto simp: line_inv_def)
  have pp: "line_point a b x0 y0 sx sy ?p"
    using less.prems(2) unfolding line_point_def line_inv_def by blast
  obtain fb1 where fb1: "framebuffer_set_pixel (Some fb) (x0 + sx * i) (y0 + sy * j) color = Some (Some fb1)" "fb_ok fb1"
      "canvas fb1 = painted {?p} color (canvas fb)"
    using set_pixel_canvas [OF less.prems(1)] by blast
  have stop: "(x0 + sx * i = x0 + sx * a \<and> y0 + sy * j = y0 + sy * b) = (i = a \<and> j = b)"
    using assms(5,6) by auto
  show ?case
  proof (cases "i = a \<and> j = b")
    case True
    then have "line_loop a (- b) sx sy (x0 + sx * a) (y0 + sy * b) color (Some fb) (x0 + sx * i) (y0 + sy * j) err
        = Some (Some (Some fb1))" using fb1(1) by (subst line_loop.simps) simp
    then show ?thesis using fb1 pp True by (intro exI [of _ "[?p]"] exI [of _ fb1]) auto
  next
    case False
    obtain i' j' err' where st: "line_step a (- b) sx sy err (x0 + sx * i) (y0 + sy * j)
             = Some (err', x0 + sx * i', y0 + sy * j')" "line_inv a b i' j' err'" "\<bar>i' - i\<bar> \<le> 1" "\<bar>j' - j\<bar> \<le> 1"
          "(if b \<le> a then i' else j') = (if b \<le> a then i else j) + 1"
      using line_step_inv [OF less.prems(2) False assms(3-10)] by blast
    have i'j': "i' \<le> a" "j' \<le> b" using st(2) by (auto simp: line_inv_def)
    have smaller: "nat (if b \<le> a then a - i' else b - j') < nat (if b \<le> a then a - i else b - j)"
      using st(5) i'j' by (auto split: if_splits)
    obtain pts fb' where r: "line_loop a (- b) sx sy (x0 + sx * a) (y0 + sy * b) color (Some fb1) (x0 + sx * i') (y0 + sy * j') err'
             = Some (Some (Some fb'))" "fb_ok fb'" "canvas fb' = painted (set pts) color (canvas fb1)" "connected pts"
          "pts \<noteq> []" "hd pts = (x0 + sx * i', y0 + sy * j')" "last pts = (x0 + sx * a, y0 + sy * b)"
          "int (length pts) = (if b \<le> a then a - i' else b - j') + 1" "\<forall>p \<in> set pts. line_point a b x0 y0 sx sy p"
      using less.hyps [OF smaller fb1(2) st(2)] by blast
    have run: "line_loop a (- b) sx sy (x0 + sx * a) (y0 + sy * b) color (Some fb) (x0 + sx * i) (y0 + sy * j) err
        = Some (Some (Some fb'))"
      using r(1) fb1(1) st(1) False assms(5,6) by (subst line_loop.simps) auto
    have adj: "adjacent ?p (hd pts)"
      using st(3,4) assms(5,6) by (auto simp: adjacent_def r(6) algebra_simps simp flip: right_diff_distrib)
    have conn: "connected (?p # pts)" using r(4,5) adj by (cases pts) auto
    have cv: "canvas fb' = painted (set (?p # pts)) color (canvas fb)"
      unfolding r(3) fb1(3) painted_union by (simp add: insert_is_Un [symmetric] Un_commute)
    have len: "int (length (?p # pts)) = (if b \<le> a then a - i else b - j) + 1"
      using r(8) st(5) by (auto split: if_splits)
    show ?thesis
      using run r(2) cv conn r(5,7) len r(9) pp
      by (intro exI [of _ "?p # pts"] exI [of _ fb']) (simp only: list.set last_ConsR list.sel ball_simps simp_thms list.distinct)
  qed
qed

section \<open>Rectangles\<close>

lemma cols_loop_canvas:
  "fb_ok fb \<Longrightarrow> \<exists>fb'. cols_loop m col row color (Some fb) = Some (Some fb') \<and> fb_ok fb'
     \<and> canvas fb' = painted {p. col \<le> fst p \<and> fst p < col + int m \<and> snd p = row} color (canvas fb)"
proof (induction m arbitrary: fb col)
  case 0
  have "{p. col \<le> fst p \<and> fst p < col + int 0 \<and> snd p = row} = {}" by auto
  then show ?case using 0 by (simp only: painted_empty cols_loop.simps rows_loop.simps) simp
next
  case (Suc m)
  obtain fb1 where fb1: "framebuffer_set_pixel (Some fb) col row color = Some (Some fb1)" "fb_ok fb1"
      "canvas fb1 = painted {(col, row)} color (canvas fb)"
    using set_pixel_canvas [OF Suc.prems] by blast
  obtain fb' where r: "cols_loop m (col + 1) row color (Some fb1) = Some (Some fb')" "fb_ok fb'"
      "canvas fb' = painted {p. col + 1 \<le> fst p \<and> fst p < col + 1 + int m \<and> snd p = row} color (canvas fb1)"
    using Suc.IH [OF fb1(2)] by blast
  have "{p. col + 1 \<le> fst p \<and> fst p < col + 1 + int m \<and> snd p = row} \<union> {(col, row)}
      = {p. col \<le> fst p \<and> fst p < col + int (Suc m) \<and> snd p = row}" by auto
  then show ?case using r fb1 by (simp add: painted_union)
qed

lemma rows_loop_canvas:
  assumes "fb_ok fb" and "- 2147483648 \<le> x + w" and "x + w \<le> 2147483647"
  shows "\<exists>fb'. rows_loop m row x w color (Some fb) = Some (Some fb') \<and> fb_ok fb'
     \<and> canvas fb' = painted {p. x \<le> fst p \<and> fst p < x + w \<and> row \<le> snd p \<and> snd p < row + int m} color (canvas fb)"
  using assms(1)
proof (induction m arbitrary: fb row)
  case 0
  have "{p. x \<le> fst p \<and> fst p < x + w \<and> row \<le> snd p \<and> snd p < row + int 0} = {}" by auto
  then show ?case using 0 by (simp only: painted_empty cols_loop.simps rows_loop.simps) simp
next
  case (Suc m)
  obtain fb1 where fb1: "cols_loop (nat w) x row color (Some fb) = Some (Some fb1)" "fb_ok fb1"
      "canvas fb1 = painted {p. x \<le> fst p \<and> fst p < x + int (nat w) \<and> snd p = row} color (canvas fb)"
    using cols_loop_canvas [OF Suc.prems] by blast
  obtain fb' where r: "rows_loop m (row + 1) x w color (Some fb1) = Some (Some fb')" "fb_ok fb'"
      "canvas fb' = painted {p. x \<le> fst p \<and> fst p < x + w \<and> row + 1 \<le> snd p \<and> snd p < row + 1 + int m} color (canvas fb1)"
    using Suc.IH [OF fb1(2)] by blast
  have "{p. x \<le> fst p \<and> fst p < x + w \<and> row + 1 \<le> snd p \<and> snd p < row + 1 + int m}
         \<union> {p. x \<le> fst p \<and> fst p < x + int (nat w) \<and> snd p = row}
      = {p. x \<le> fst p \<and> fst p < x + w \<and> row \<le> snd p \<and> snd p < row + int (Suc m)}" by auto
  moreover have "c_int (x + w) = Some (x + w)" using assms(2,3) by (simp add: c_int_def)
  ultimately show ?case using r fb1 by (simp add: painted_union)
qed

lemma fill_rect_canvas:
  assumes "fb_ok fb" and "- 2147483648 \<le> x + w" and "x + w \<le> 2147483647"
    and "- 2147483648 \<le> y + h" and "y + h \<le> 2147483647"
  shows "\<exists>fb'. framebuffer_fill_rect (Some fb) x y w h color = Some (Some fb') \<and> fb_ok fb'
     \<and> canvas fb' = painted {p. x \<le> fst p \<and> fst p < x + w \<and> y \<le> snd p \<and> snd p < y + h} color (canvas fb)"
proof -
  have "c_int (y + h) = Some (y + h)" using assms(4,5) by (simp add: c_int_def)
  moreover have "{p :: int \<times> int. x \<le> fst p \<and> fst p < x + w \<and> y \<le> snd p \<and> snd p < y + int (nat h)}
     = {p. x \<le> fst p \<and> fst p < x + w \<and> y \<le> snd p \<and> snd p < y + h}" by auto
  ultimately show ?thesis using rows_loop_canvas [OF assms(1-3), of "nat h" y color]
    by (simp add: framebuffer_fill_rect_def)
qed

section \<open>Circles\<close>

lemma set_pixels_canvas:
  "fb_ok fb \<Longrightarrow> (\<And>p. p \<in> set ps \<Longrightarrow> \<bar>fst p\<bar> \<le> 2147483647 \<and> \<bar>snd p\<bar> \<le> 2147483647) \<Longrightarrow>
   \<exists>fb'. set_pixels ps color (Some fb) = Some (Some fb') \<and> fb_ok fb' \<and> canvas fb' = painted (set ps) color (canvas fb)"
proof (induction ps arbitrary: fb)
  case (Cons p ps)
  obtain x y where p: "p = (x, y)" by fastforce
  have c: "c_int x = Some x" "c_int y = Some y" using Cons.prems(2) [of p] p by (auto simp: c_int_def)
  obtain fb1 where fb1: "framebuffer_set_pixel (Some fb) x y color = Some (Some fb1)" "fb_ok fb1"
      "canvas fb1 = painted {(x, y)} color (canvas fb)"
    using set_pixel_canvas [OF Cons.prems(1)] by blast
  obtain fb' where r: "set_pixels ps color (Some fb1) = Some (Some fb')" "fb_ok fb'"
      "canvas fb' = painted (set ps) color (canvas fb1)"
    using Cons.IH [OF fb1(2)] Cons.prems(2) by force
  then show ?case using fb1 c p by (simp add: painted_union)
qed simp

text \<open>
  The head of the circle loop: \<open>(x, y)\<close> misses the circle by at most \<open>x\<close> (half a pixel), and \<open>d\<close>
  is the decision value of the next row.
\<close>

definition circle_inv :: "int \<Rightarrow> int \<Rightarrow> int \<Rightarrow> int \<Rightarrow> bool" where
  "circle_inv r x y d \<longleftrightarrow> 0 \<le> y \<and> x \<le> r \<and> y \<le> r + 1 \<and> - 1 \<le> x \<and> y \<le> x + 2
     \<and> d = (x * x + y * y - r * r) + 2 * y + 1 - x
     \<and> (y \<le> x \<longrightarrow> \<bar>x * x + y * y - r * r\<bar> \<le> x)"

lemma circle_inv_east:
  assumes "circle_inv r x y d" and "y \<le> x" and "d \<le> 0"
  shows "circle_inv r x (y + 1) (d + (2 * (y + 1) + 1))"
proof -
  define G where "G = x * x + y * y - r * r"
  have e: "x * x + (y + 1) * (y + 1) - r * r = G + 2 * y + 1" by (simp add: G_def algebra_simps)
  show ?thesis using assms unfolding circle_inv_def e G_def [symmetric] by auto
qed

lemma circle_inv_diagonal:
  assumes "circle_inv r x y d" and "y \<le> x" and "0 < d"
  shows "circle_inv r (x - 1) (y + 1) (d + (2 * ((y + 1) - (x - 1)) + 1))"
proof -
  define G where "G = x * x + y * y - r * r"
  have e: "(x - 1) * (x - 1) + (y + 1) * (y + 1) - r * r = G + 2 * y + 1 - 2 * x + 1" by (simp add: G_def algebra_simps)
  have g: "\<bar>G\<bar> \<le> x" "d = G + 2 * y + 1 - x" using assms by (auto simp: circle_inv_def G_def)
  show ?thesis using assms g unfolding circle_inv_def e G_def [symmetric] by auto
qed

lemma circle_steps_int:
  assumes "circle_inv r x y d" and "y \<le> x" and "r \<le> 100000000"
  shows "c_int (y + 1) = Some (y + 1)" and "circle_east d (y + 1) = Some (d + (2 * (y + 1) + 1))"
    and "circle_diagonal d (x - 1) (y + 1) = Some (d + (2 * ((y + 1) - (x - 1)) + 1))"
proof -
  have b: "0 \<le> y" "0 \<le> x" "x \<le> 100000000" "- 400000001 \<le> d" "d \<le> 400000001"
    using assms by (auto simp: circle_inv_def)
  show "c_int (y + 1) = Some (y + 1)" using b assms(2) by (simp add: c_int_def)
  have "c_int (2 * (y + 1)) = Some (2 * (y + 1))" using b assms(2) by (simp add: c_int_def)
  moreover have "c_int (2 * (y + 1) + 1) = Some (2 * (y + 1) + 1)" using b assms(2) by (simp add: c_int_def)
  moreover have "c_int (d + (2 * (y + 1) + 1)) = Some (d + (2 * (y + 1) + 1))"
    using b assms(2) by (simp add: c_int_def)
  ultimately show "circle_east d (y + 1) = Some (d + (2 * (y + 1) + 1))" by (simp add: circle_east_def)
  let ?s = "(y + 1) - (x - 1)"
  have "c_int ?s = Some ?s" using b assms(2) by (simp add: c_int_def)
  moreover have "c_int (2 * ?s) = Some (2 * ?s)" using b assms(2) by (simp add: c_int_def)
  moreover have "c_int (2 * ?s + 1) = Some (2 * ?s + 1)" using b assms(2) by (simp add: c_int_def)
  moreover have "c_int (d + (2 * ?s + 1)) = Some (d + (2 * ?s + 1))" using b assms(2) by (simp add: c_int_def)
  ultimately show "circle_diagonal d (x - 1) (y + 1) = Some (d + (2 * ?s + 1))"
    unfolding circle_diagonal_def by (simp only: bind.bind_lunit)
qed

text \<open>The points within half a pixel of the circle, in all octants.\<close>

definition circle_point :: "int \<Rightarrow> int \<Rightarrow> int \<Rightarrow> int \<times> int \<Rightarrow> bool" where
  "circle_point cx cy r p \<longleftrightarrow>
     (let u = fst p - cx; v = snd p - cy in \<bar>u * u + v * v - r * r\<bar> \<le> max \<bar>u\<bar> \<bar>v\<bar>)"

lemma octants_circle:
  assumes "0 \<le> y" and "y \<le> x" and "\<bar>x * x + y * y - r * r\<bar> \<le> x" and "p \<in> set (octants cx cy x y)"
  shows "circle_point cx cy r p"
proof -
  have c: "y * y + x * x = x * x + y * y" by simp
  have m: "max x y = x" "max y x = x" using assms(2) by auto
  show ?thesis using assms m unfolding octants_def circle_point_def Let_def
    by (auto simp: c max_def)
qed

lemma circle_loop_canvas:
  assumes "fb_ok fb" and "circle_inv r x y d" and "r \<le> 100000000" and "\<bar>cx\<bar> \<le> 1000000000" and "\<bar>cy\<bar> \<le> 1000000000"
  shows "\<exists>fb' pts. circle_loop cx cy color x y d (Some fb) = Some (Some fb') \<and> fb_ok fb'
     \<and> canvas fb' = painted (set pts) color (canvas fb) \<and> (\<forall>p \<in> set pts. circle_point cx cy r p)
     \<and> (y \<le> x \<longrightarrow> set (octants cx cy x y) \<subseteq> set pts)
     \<and> (\<forall>p \<in> set pts. \<forall>s \<in> {1, - 1}. \<forall>t \<in> {1, - 1}.
          (cx + s * (fst p - cx), cy + t * (snd p - cy)) \<in> set pts \<and> (cx + s * (snd p - cy), cy + t * (fst p - cx)) \<in> set pts)"
  using assms(1,2)
proof (induction "nat (x - y + 1)" arbitrary: fb x y d rule: less_induct)
  case less
  show ?case
  proof (cases "y \<le> x")
    case False
    then show ?thesis using less.prems(1) by (subst circle_loop.simps) (auto intro!: exI [of _ "[]"])
  next
    case True
    have xy: "0 \<le> y" "x \<le> r" "\<bar>x * x + y * y - r * r\<bar> \<le> x"
      using less.prems(2) True by (auto simp: circle_inv_def)
    have rng: "\<bar>fst p\<bar> \<le> 2147483647 \<and> \<bar>snd p\<bar> \<le> 2147483647" if "p \<in> set (octants cx cy x y)" for p
      using that xy True assms(3-5) by (auto simp: octants_def)
    obtain fb1 where fb1: "set_pixels (octants cx cy x y) color (Some fb) = Some (Some fb1)" "fb_ok fb1"
        "canvas fb1 = painted (set (octants cx cy x y)) color (canvas fb)"
      using set_pixels_canvas [OF less.prems(1) rng] by blast
    define x' where "x' = (if d \<le> 0 then x else x - 1)"
    define d' where "d' = (if d \<le> 0 then d + (2 * (y + 1) + 1) else d + (2 * ((y + 1) - (x - 1)) + 1))"
    have inv': "circle_inv r x' (y + 1) d'"
      using circle_inv_east [OF less.prems(2) True] circle_inv_diagonal [OF less.prems(2) True]
      by (simp add: x'_def d'_def)
    have run: "circle_loop cx cy color x y d (Some fb) = circle_loop cx cy color x' (y + 1) d' (Some fb1)"
      using fb1(1) True circle_steps_int [OF less.prems(2) True assms(3)]
      by (subst circle_loop.simps) (simp add: x'_def d'_def)
    have smaller: "nat (x' - (y + 1) + 1) < nat (x - y + 1)" using True by (simp add: x'_def)
    obtain fb' pts where r: "circle_loop cx cy color x' (y + 1) d' (Some fb1) = Some (Some fb')" "fb_ok fb'"
        "canvas fb' = painted (set pts) color (canvas fb1)" "\<forall>p \<in> set pts. circle_point cx cy r p"
        "\<forall>p \<in> set pts. \<forall>s \<in> {1, - 1}. \<forall>t \<in> {1, - 1}.
          (cx + s * (fst p - cx), cy + t * (snd p - cy)) \<in> set pts \<and> (cx + s * (snd p - cy), cy + t * (fst p - cx)) \<in> set pts"
      using less.hyps [OF smaller fb1(2) inv'] by blast
    have oct: "\<forall>p \<in> set (octants cx cy x y). circle_point cx cy r p"
      using octants_circle [OF xy(1) True xy(3)] by blast
    have sym: "\<forall>p \<in> set (octants cx cy x y). \<forall>s \<in> {1, - 1}. \<forall>t \<in> {1, - 1}.
          (cx + s * (fst p - cx), cy + t * (snd p - cy)) \<in> set (octants cx cy x y)
        \<and> (cx + s * (snd p - cy), cy + t * (fst p - cx)) \<in> set (octants cx cy x y)"
      by (simp add: octants_def)
    have cv: "canvas fb' = painted (set (octants cx cy x y @ pts)) color (canvas fb)"
      unfolding r(3) fb1(3) painted_union by (simp add: Un_commute)
    show ?thesis unfolding run
    proof (intro exI [of _ fb'] exI [of _ "octants cx cy x y @ pts"] conjI)
      show "\<forall>p \<in> set (octants cx cy x y @ pts). circle_point cx cy r p" using oct r(4) by auto
      show "\<forall>p \<in> set (octants cx cy x y @ pts). \<forall>s \<in> {1, - 1}. \<forall>t \<in> {1, - 1}.
          (cx + s * (fst p - cx), cy + t * (snd p - cy)) \<in> set (octants cx cy x y @ pts)
        \<and> (cx + s * (snd p - cy), cy + t * (fst p - cx)) \<in> set (octants cx cy x y @ pts)"
        using sym r(5) unfolding set_append ball_Un by blast
    qed (use r(1,2) cv in simp_all)
  qed
qed

section \<open>Properties\<close>

lemma clear_loop_fill:
  "i + m \<le> length px \<Longrightarrow> clear_loop m i color px = Some (take i px @ replicate m color @ drop (i + m) px)"
proof (induction m arbitrary: i px)
  case (Suc m)
  have "take (Suc i) (px[i := color]) = take i px @ [color]"
    using Suc.prems by (simp add: take_Suc_conv_app_nth)
  then show ?case using Suc.IH [of "Suc i" "px[i := color]"] Suc.prems by simp
qed simp

lemma clear_canvas:
  assumes "fb_ok fb"
  shows "\<exists>fb'. framebuffer_clear (Some fb) color = Some (Some fb') \<and> fb_ok fb' \<and> canvas fb' = painted UNIV color (canvas fb)"
proof -
  obtain px where px: "fb_pixels fb = Some px" "int (length px) = fb_width fb * fb_height fb"
    using assms by (auto simp: fb_ok_def)
  have e: "word_of_int (fb_width fb) * word_of_int (fb_height fb) = (word_of_int (int (length px)) :: size_t)"
    by (simp add: px(2))
  have "int (length px) < 2 ^ 64" using area_bound [OF assms] px(2) by simp
  then have n: "unat (word_of_int (fb_width fb) * word_of_int (fb_height fb) :: size_t) = length px"
    unfolding e by (simp only: unat_eq_nat_uint uint_word_of_int) (simp add: take_bit_eq_mod)
  let ?fb = "fb\<lparr>fb_pixels := Some (replicate (length px) color)\<rparr>"
  have "framebuffer_clear (Some fb) color = Some (Some ?fb)"
    using clear_loop_fill [of 0 "length px" px color] px(1) by (simp add: framebuffer_clear_def Let_def n)
  moreover have "fb_ok ?fb" using assms px by (auto simp: fb_ok_def)
  moreover have "canvas ?fb p = painted UNIV color (canvas fb) p" for p
  proof (cases "inside fb (fst p) (snd p)")
    case True
    then have "0 \<le> snd p * fb_width fb + fst p" "snd p * fb_width fb + fst p < int (length px)"
      using index_bound [of "fst p" "fb_width fb" "snd p" "fb_height fb"] px(2) by (auto simp: inside_def)
    then have "nat (snd p * fb_width fb + fst p) < length px" by linarith
    then show ?thesis using True by (simp add: canvas_def painted_def inside_def)
  next
    case False
    then show ?thesis by (auto simp: canvas_def painted_def inside_def)
  qed
  ultimately show ?thesis by blast
qed

text \<open>Drawing commands and their meaning on the canvas.\<close>

lemma create_canvas:
  assumes "framebuffer_create ok (Some fb0) width height = (ERR_OK, Some fb)" and "width \<le> 2147483647" and "height \<le> 2147483647"
  shows "fb_ok fb" and "canvas fb = (\<lambda>p. if 0 \<le> fst p \<and> fst p < width \<and> 0 \<le> snd p \<and> snd p < height then Some 0 else None)"
proof -
  have wh: "0 < width" "0 < height" using assms(1) by (auto simp: framebuffer_create_def split: if_splits)
  have fb: "fb = fb0\<lparr>fb_pixels := Some (replicate (unat (word_of_int width * word_of_int height :: size_t)) 0), fb_width := width, fb_height := height\<rparr>"
    using assms(1) by (auto simp: framebuffer_create_def Let_def split: if_splits)
  have "width * height \<le> 2147483647 * 2147483647" using wh assms(2,3) by (intro mult_mono) auto
  then have "width * height < 2 ^ 64" "0 \<le> width * height" using wh by simp_all
  then have n: "unat (word_of_int width * word_of_int height :: size_t) = nat (width * height)"
    by (simp only: of_int_mult [symmetric] unat_eq_nat_uint uint_word_of_int) (simp add: take_bit_eq_mod)
  show "fb_ok fb" using wh assms(2,3) by (simp add: fb fb_ok_def n)
  show "canvas fb = (\<lambda>p. if 0 \<le> fst p \<and> fst p < width \<and> 0 \<le> snd p \<and> snd p < height then Some 0 else None)"
  proof (rule ext)
    fix p :: "int \<times> int"
    show "canvas fb p = (if 0 \<le> fst p \<and> fst p < width \<and> 0 \<le> snd p \<and> snd p < height then Some 0 else None)"
    proof (cases "inside fb (fst p) (snd p)")
      case True
      then have "nat (snd p * width + fst p) < nat (width * height)"
        using index_bound [of "fst p" width "snd p" height] by (auto simp: inside_def fb)
      then show ?thesis using True by (simp add: canvas_def inside_def fb n)
    next
      case False
      then show ?thesis by (auto simp: canvas_def inside_def fb)
    qed
  qed
qed

text \<open>
  Clearing, single pixels and filled rectangles on a fresh framebuffer do what they say, and
  nothing else: the canvas starts black, \<open>framebuffer_clear\<close> sets every point of it, a pixel
  outside is ignored, and \<open>framebuffer_fill_rect\<close> paints exactly the points of the rectangle that
  lie on the canvas, empty and negative sizes included; no index ever leaves the buffer.
\<close>

theorem framebuffer_canvas:
  assumes "framebuffer_create ok (Some fb0) width height = (ERR_OK, Some fb)" and "width \<le> 2147483647" and "height \<le> 2147483647"
    and "\<bar>x + w\<bar> \<le> 2147483647" and "\<bar>y + h\<bar> \<le> 2147483647"
  shows "\<exists>fb1 fb2 fb3. framebuffer_clear (Some fb) bg = Some (Some fb1)
      \<and> framebuffer_fill_rect (Some fb1) x y w h color = Some (Some fb2)
      \<and> framebuffer_set_pixel (Some fb2) px py dot = Some (Some fb3) \<and> fb_ok fb3
      \<and> canvas fb3 = (\<lambda>(u, v).
            if 0 \<le> u \<and> u < width \<and> 0 \<le> v \<and> v < height
            then Some (if u = px \<and> v = py then dot
                       else if x \<le> u \<and> u < x + w \<and> y \<le> v \<and> v < y + h then color else bg)
            else None)"
proof -
  note fb = create_canvas [OF assms(1-3)]
  have range: "- 2147483648 \<le> x + w" "x + w \<le> 2147483647" "- 2147483648 \<le> y + h" "y + h \<le> 2147483647"
    using assms(4,5) by linarith+
  obtain fb1 where fb1: "framebuffer_clear (Some fb) bg = Some (Some fb1)" "fb_ok fb1" "canvas fb1 = painted UNIV bg (canvas fb)"
    using clear_canvas [OF fb(1)] by blast
  obtain fb2 where fb2: "framebuffer_fill_rect (Some fb1) x y w h color = Some (Some fb2)" "fb_ok fb2"
    "canvas fb2 = painted {p. x \<le> fst p \<and> fst p < x + w \<and> y \<le> snd p \<and> snd p < y + h} color (canvas fb1)"
    using fill_rect_canvas [OF fb1(2), of x w y h color] range by blast
  obtain fb3 where fb3: "framebuffer_set_pixel (Some fb2) px py dot = Some (Some fb3)" "fb_ok fb3"
    "canvas fb3 = painted {(px, py)} dot (canvas fb2)"
    using set_pixel_canvas [OF fb2(2)] by blast
  show ?thesis using fb1(1) fb2(1) fb3(1,2)
    by (intro exI [of _ fb1] exI [of _ fb2] exI [of _ fb3])
       (auto simp: fb3(3) fb2(3) fb1(3) fb(2) painted_def fun_eq_iff)
qed

theorem framebuffer_canvas_witness:
  "\<exists>fb fb1 fb2 fb3. framebuffer_create True (Some \<lparr>fb_pixels = None, fb_width = 0, fb_height = 0\<rparr>) 4 3 = (ERR_OK, Some fb)
     \<and> framebuffer_clear (Some fb) 7 = Some (Some fb1)
     \<and> framebuffer_fill_rect (Some fb1) 1 1 9 1 5 = Some (Some fb2)
     \<and> framebuffer_set_pixel (Some fb2) 0 2 9 = Some (Some fb3)
     \<and> canvas fb3 (3, 1) = Some 5 \<and> canvas fb3 (0, 1) = Some 7 \<and> canvas fb3 (0, 2) = Some 9 \<and> canvas fb3 (4, 1) = None"
proof -
  obtain fb where fb: "framebuffer_create True (Some \<lparr>fb_pixels = None, fb_width = 0, fb_height = 0\<rparr>) 4 3 = (ERR_OK, Some fb)"
    by (simp add: framebuffer_create_def Let_def)
  from framebuffer_canvas [OF fb, of 1 9 1 1 7 5 0 2 9] fb show ?thesis by fastforce
qed

text \<open>
  C24. \<open>framebuffer_line\<close> terminates and draws a connected line: for coordinates up to
  \<open>300000000\<close> no arithmetic overflows, the pixels set are a walk of eight-neighbours from one end
  to the other with exactly one pixel per step of the longer side, all inside the bounding box
  and never more than half a pixel from the ideal line, and nothing else on the canvas changes.
\<close>

theorem framebuffer_line_bresenham:
  assumes "fb_ok fb" and "\<bar>x0\<bar> \<le> 300000000" and "\<bar>y0\<bar> \<le> 300000000" and "\<bar>x1\<bar> \<le> 300000000" and "\<bar>y1\<bar> \<le> 300000000"
  shows "\<exists>fb' pts. framebuffer_line (Some fb) x0 y0 x1 y1 color = Some (Some (Some fb')) \<and> fb_ok fb'
      \<and> canvas fb' = (\<lambda>p. if p \<in> set pts \<and> canvas fb p \<noteq> None then Some color else canvas fb p)
      \<and> connected pts \<and> pts \<noteq> [] \<and> hd pts = (x0, y0) \<and> last pts = (x1, y1)
      \<and> int (length pts) = max \<bar>x1 - x0\<bar> \<bar>y1 - y0\<bar> + 1
      \<and> (\<forall>(u, v) \<in> set pts. min x0 x1 \<le> u \<and> u \<le> max x0 x1 \<and> min y0 y1 \<le> v \<and> v \<le> max y0 y1
           \<and> 2 * \<bar>(u - x0) * (y1 - y0) - (v - y0) * (x1 - x0)\<bar> \<le> max \<bar>x1 - x0\<bar> \<bar>y1 - y0\<bar>)"
proof -
  define sx :: int where "sx = (if x0 < x1 then 1 else - 1)"
  define sy :: int where "sy = (if y0 < y1 then 1 else - 1)"
  define a where "a = \<bar>x1 - x0\<bar>"
  define b where "b = \<bar>y1 - y0\<bar>"
  have s: "sx \<in> {1, - 1}" "sy \<in> {1, - 1}" by (auto simp: sx_def sy_def)
  have e: "x0 + sx * a = x1" "y0 + sy * b = y1" by (auto simp: sx_def sy_def a_def b_def)
  have ab: "0 \<le> a" "0 \<le> b" "a \<le> 2 * coord_max" "b \<le> 2 * coord_max" using assms by (auto simp: a_def b_def)
  have init: "line_setup x0 y0 x1 y1 = Some (a, - b, a - b)"
  proof -
    have "c_int (x1 - x0) = Some (x1 - x0)" "c_int (y1 - y0) = Some (y1 - y0)" "c_int \<bar>x1 - x0\<bar> = Some a"
      "c_int \<bar>y1 - y0\<bar> = Some b" "c_int (- b) = Some (- b)" "c_int (a + - b) = Some (a - b)"
      using assms(2-5) ab by (auto simp: c_int_def a_def b_def)
    then show ?thesis by (simp add: line_setup_def)
  qed
  have inv: "line_inv a b 0 0 (a - b)" using ab by (simp add: line_inv_def)
  obtain pts fb' where r: "line_loop a (- b) sx sy (x0 + sx * a) (y0 + sy * b) color (Some fb) (x0 + sx * 0) (y0 + sy * 0) (a - b)
             = Some (Some (Some fb'))" "fb_ok fb'" "canvas fb' = painted (set pts) color (canvas fb)" "connected pts"
          "pts \<noteq> []" "hd pts = (x0 + sx * 0, y0 + sy * 0)" "last pts = (x0 + sx * a, y0 + sy * b)"
          "int (length pts) = (if b \<le> a then a - 0 else b - 0) + 1" "\<forall>p \<in> set pts. line_point a b x0 y0 sx sy p"
    using line_loop_walk [OF assms(1) inv ab(3,4) s assms(2,3)] assms(4,5) unfolding e by blast
  have run: "framebuffer_line (Some fb) x0 y0 x1 y1 color = Some (Some (Some fb'))"
    using r(1) unfolding e by (simp add: framebuffer_line_def init sx_def sy_def)
  have pt: "min x0 x1 \<le> u \<and> u \<le> max x0 x1 \<and> min y0 y1 \<le> v \<and> v \<le> max y0 y1
           \<and> 2 * \<bar>(u - x0) * (y1 - y0) - (v - y0) * (x1 - x0)\<bar> \<le> max a b" if mem: "(u, v) \<in> set pts" for u v
  proof -
    obtain i j where ij: "u = x0 + sx * i" "v = y0 + sy * j" "0 \<le> i" "i \<le> a" "0 \<le> j" "j \<le> b"
        "2 * \<bar>a * j - b * i\<bar> \<le> max a b"
      using r(9) [rule_format, OF mem] by (auto simp: line_point_def)
    have d: "x1 - x0 = sx * a" "y1 - y0 = sy * b" using e by auto
    have "(u - x0) * (y1 - y0) - (v - y0) * (x1 - x0) = sx * sy * (b * i - a * j)"
      unfolding d ij(1,2) by (simp add: algebra_simps)
    then have "\<bar>(u - x0) * (y1 - y0) - (v - y0) * (x1 - x0)\<bar> = \<bar>a * j - b * i\<bar>"
      using s by (auto simp: abs_minus_commute)
    moreover have "min x0 x1 \<le> u \<and> u \<le> max x0 x1 \<and> min y0 y1 \<le> v \<and> v \<le> max y0 y1"
      using ij(1-6) by (auto simp: sx_def sy_def a_def b_def split: if_splits)
    ultimately show ?thesis using ij(7) by simp
  qed
  show ?thesis
    using run r(2,4,5) r(3) [unfolded painted_def fun_eq_iff] r(6) r(7) [unfolded e] r(8) pt
    unfolding a_def [symmetric] b_def [symmetric]
    by (intro exI [of _ fb'] exI [of _ pts]) (auto simp: max_def fun_eq_iff)
qed

theorem framebuffer_line_bresenham_witness:
  "\<exists>fb fb' pts. framebuffer_create True (Some \<lparr>fb_pixels = None, fb_width = 0, fb_height = 0\<rparr>) 4 3 = (ERR_OK, Some fb)
     \<and> framebuffer_line (Some fb) 0 0 5 2 9 = Some (Some (Some fb'))
     \<and> canvas fb' = (\<lambda>p. if p \<in> set pts \<and> canvas fb p \<noteq> None then Some 9 else canvas fb p)
     \<and> hd pts = (0, 0) \<and> last pts = (5, 2) \<and> length pts = 6"
proof -
  obtain fb where fb: "framebuffer_create True (Some \<lparr>fb_pixels = None, fb_width = 0, fb_height = 0\<rparr>) 4 3 = (ERR_OK, Some fb)"
    by (simp add: framebuffer_create_def Let_def)
  have ok: "fb_ok fb" by (rule create_canvas [OF fb]) simp_all
  from framebuffer_line_bresenham [OF ok, of 0 0 5 2 9] fb show ?thesis by fastforce
qed

text \<open>
  C25. \<open>framebuffer_circle\<close> terminates and draws a circle: for a radius up to \<open>100000000\<close> and a centre
  within \<open>1000000000\<close> no arithmetic overflows, every pixel set misses the circle by at most half a
  pixel, the set is symmetric in the eight octants and holds the four points on the axes, and
  nothing else on the canvas changes. A negative radius draws nothing.
\<close>

theorem framebuffer_circle_midpoint:
  assumes "fb_ok fb" and "0 \<le> r" and "r \<le> 100000000" and "\<bar>cx\<bar> \<le> 1000000000" and "\<bar>cy\<bar> \<le> 1000000000"
  shows "\<exists>fb' ps. framebuffer_circle (Some fb) cx cy r color = Some (Some fb') \<and> fb_ok fb'
      \<and> canvas fb' = (\<lambda>p. if p \<in> ps \<and> canvas fb p \<noteq> None then Some color else canvas fb p)
      \<and> {(cx + r, cy), (cx - r, cy), (cx, cy + r), (cx, cy - r)} \<subseteq> ps
      \<and> (\<forall>(u, v) \<in> ps. \<bar>(u - cx) * (u - cx) + (v - cy) * (v - cy) - r * r\<bar> \<le> max \<bar>u - cx\<bar> \<bar>v - cy\<bar>
           \<and> (2 * cx - u, v) \<in> ps \<and> (u, 2 * cy - v) \<in> ps \<and> (cx + (v - cy), cy + (u - cx)) \<in> ps)"
proof -
  have inv: "circle_inv r r 0 (1 - r)" using assms(2) by (simp add: circle_inv_def)
  obtain fb' pts where c: "circle_loop cx cy color r 0 (1 - r) (Some fb) = Some (Some fb')" "fb_ok fb'"
     "canvas fb' = painted (set pts) color (canvas fb)" "\<forall>p \<in> set pts. circle_point cx cy r p"
     "0 \<le> r \<longrightarrow> set (octants cx cy r 0) \<subseteq> set pts"
     "\<forall>p \<in> set pts. \<forall>s \<in> {1, - 1}. \<forall>t \<in> {1, - 1}.
          (cx + s * (fst p - cx), cy + t * (snd p - cy)) \<in> set pts \<and> (cx + s * (snd p - cy), cy + t * (fst p - cx)) \<in> set pts"
    using circle_loop_canvas [OF assms(1) inv assms(3-5)] by blast
  have run: "framebuffer_circle (Some fb) cx cy r color = Some (Some fb')"
    using c(1) assms(2,3) by (simp add: framebuffer_circle_def c_int_def)
  have sym: "(2 * cx - u, v) \<in> set pts \<and> (u, 2 * cy - v) \<in> set pts \<and> (cx + (v - cy), cy + (u - cx)) \<in> set pts"
    if "(u, v) \<in> set pts" for u v
  proof -
    have e: "cx + - 1 * (u - cx) = 2 * cx - u" "cy + 1 * (v - cy) = v" "cx + 1 * (u - cx) = u" "cy + - 1 * (v - cy) = 2 * cy - v"
      by simp_all
    note all = c(6) [rule_format, OF that, unfolded fst_conv snd_conv]
    from all [of "- 1" 1] all [of 1 "- 1"] all [of 1 1] show ?thesis unfolding e by simp
  qed
  show ?thesis
    using run c(2,3) c(4,5) sym assms(2)
    by (intro exI [of _ fb'] exI [of _ "set pts"])
       (auto simp: painted_def fun_eq_iff octants_def circle_point_def Let_def)
qed

theorem framebuffer_circle_midpoint_witness:
  "\<exists>fb fb' ps. framebuffer_create True (Some \<lparr>fb_pixels = None, fb_width = 0, fb_height = 0\<rparr>) 9 9 = (ERR_OK, Some fb)
     \<and> framebuffer_circle (Some fb) 4 4 3 9 = Some (Some fb')
     \<and> canvas fb' = (\<lambda>p. if p \<in> ps \<and> canvas fb p \<noteq> None then Some 9 else canvas fb p)
     \<and> {(7, 4), (1, 4), (4, 7), (4, 1)} \<subseteq> ps"
proof -
  obtain fb where fb: "framebuffer_create True (Some \<lparr>fb_pixels = None, fb_width = 0, fb_height = 0\<rparr>) 9 9 = (ERR_OK, Some fb)"
    by (simp add: framebuffer_create_def Let_def)
  have ok: "fb_ok fb" by (rule create_canvas [OF fb]) simp_all
  from framebuffer_circle_midpoint [OF ok, of 3 4 4 9] fb show ?thesis by auto
qed

text \<open>A line longer than \<open>2 ^ 30\<close> overflows when the error is doubled, although both ends are valid.\<close>

lemma framebuffer_line_overflow: "framebuffer_line None 0 0 1073741824 0 color = Some None"
  by (simp add: framebuffer_line_def line_setup_def c_int_def)
     (subst line_loop.simps, simp add: framebuffer_set_pixel_def line_step_def c_int_def)

end
