(* ===== verification/Nn.thy ===== *)
theory Nn
  imports MatxOps VecMath
begin

text \<open>
  Dense layers, losses and optimizers of \<open>src/ml/nn.c\<close> over the matrices of theory Matx. A layer owns
  its matrices; the addresses \<open>calloc\<close> answers within a call are the argument \<open>ps\<close> (0 when it fails).
  The element type is a parameter, with the functions of \<open>math.h\<close> in the record of theory VecMath;
  the sums of the losses are in a second type, the \<open>double\<close> of the code.
\<close>

section \<open>Activations\<close>

datatype activation = ACT_LINEAR | ACT_RELU | ACT_SIGMOID | ACT_TANH

definition act_relu :: "'a::{zero,ord} \<Rightarrow> 'a" where
  "act_relu x = (if x > 0 then x else 0)"

definition act_relu_grad :: "'a::{zero,one,ord} \<Rightarrow> 'a" where
  "act_relu_grad z = (if z > 0 then 1 else 0)"

definition act_sigmoid :: "'a::{one,plus,uminus,inverse} fmath \<Rightarrow> 'a \<Rightarrow> 'a" where
  "act_sigmoid m x = 1 / (1 + fm_exp m (- x))"

definition act_sigmoid_grad :: "'a::{one,plus,minus,uminus,times,inverse} fmath \<Rightarrow> 'a \<Rightarrow> 'a" where
  "act_sigmoid_grad m z = (let s = act_sigmoid m z in s * (1 - s))"

definition act_tanh :: "'a fmath \<Rightarrow> 'a \<Rightarrow> 'a" where
  "act_tanh m x = fm_tanh m x"

definition act_tanh_grad :: "'a::{one,minus,times} fmath \<Rightarrow> 'a \<Rightarrow> 'a" where
  "act_tanh_grad m z = (let t = fm_tanh m z in 1 - t * t)"

definition act_identity :: "'a \<Rightarrow> 'a" where
  "act_identity x = x"

definition act_identity_grad :: "'a::one \<Rightarrow> 'a" where
  "act_identity_grad z = 1"

primrec act_fn :: "activation \<Rightarrow> 'a::{zero,one,plus,uminus,inverse,ord} fmath \<Rightarrow> 'a \<Rightarrow> 'a" where
  "act_fn ACT_RELU m = act_relu"
| "act_fn ACT_SIGMOID m = act_sigmoid m"
| "act_fn ACT_TANH m = act_tanh m"
| "act_fn ACT_LINEAR m = act_identity"

primrec act_grad_fn :: "activation \<Rightarrow> 'a::{zero,one,plus,minus,uminus,times,inverse,ord} fmath \<Rightarrow> 'a \<Rightarrow> 'a" where
  "act_grad_fn ACT_RELU m = act_relu_grad"
| "act_grad_fn ACT_SIGMOID m = act_sigmoid_grad m"
| "act_grad_fn ACT_TANH m = act_tanh_grad m"
| "act_grad_fn ACT_LINEAR m = act_identity_grad"

section \<open>Dense layers\<close>

record dense_layer =
  dl_in_dim :: size_t
  dl_out_dim :: size_t
  dl_act :: activation
  dl_w :: matx
  dl_b :: matx
  dl_dw :: matx
  dl_db :: matx
  dl_x_cache :: matx
  dl_z_cache :: matx

definition null_matx :: matx where
  "null_matx = \<lparr>mx_data = 0, mx_rows = 0, mx_cols = 0, mx_owns = 0\<rparr>"

text \<open>\<open>if (!err) err = ...\<close>: the next operation runs when the last one succeeded.\<close>

definition and_then :: "(error_code \<times> 's) ub \<Rightarrow> ('s \<Rightarrow> (error_code \<times> 's) ub) \<Rightarrow> (error_code \<times> 's) ub" where
  "and_then r f = (case r of None \<Rightarrow> None | Some (err, s) \<Rightarrow> if err = ERR_OK then f s else Some (err, s))"

text \<open>\<open>matx_init\<close> and \<open>matx_destroy\<close> of a matrix inside a structure.\<close>

definition init_field :: "u64 \<Rightarrow> 'a::zero mem \<Rightarrow> matx \<Rightarrow> size_t \<Rightarrow> size_t \<Rightarrow> error_code \<times> 'a mem \<times> matx" where
  "init_field p h m rows cols = (case matx_init p h (Some m) rows cols of (err, h, mp) \<Rightarrow> (err, h, the mp))"

definition destroy_field :: "'a mem \<Rightarrow> matx \<Rightarrow> 'a mem \<times> matx" where
  "destroy_field h m = (case matx_destroy h (Some m) of (h, mp) \<Rightarrow> (h, the mp))"

definition dense_destroy :: "'a mem \<Rightarrow> dense_layer option \<Rightarrow> 'a mem \<times> dense_layer option" where
  "dense_destroy h lp =
     (case lp of
        None \<Rightarrow> (h, None)
      | Some l \<Rightarrow>
          let (h, w) = destroy_field h (dl_w l); (h, b) = destroy_field h (dl_b l);
              (h, dw) = destroy_field h (dl_dw l); (h, db) = destroy_field h (dl_db l);
              (h, xc) = destroy_field h (dl_x_cache l); (h, zc) = destroy_field h (dl_z_cache l)
          in (h, Some (l\<lparr>dl_w := w, dl_b := b, dl_dw := dw, dl_db := db, dl_x_cache := xc, dl_z_cache := zc\<rparr>)))"

text \<open>The four allocations of \<open>dense_init\<close>, each only after the last one succeeded.\<close>

definition dense_alloc :: "(nat \<Rightarrow> u64) \<Rightarrow> 'a::zero mem \<Rightarrow> dense_layer \<Rightarrow> error_code \<times> 'a mem \<times> dense_layer" where
  "dense_alloc ps h l =
     (case init_field (ps 0) h (dl_w l) (dl_in_dim l) (dl_out_dim l) of (err, h, m) \<Rightarrow>
      let l = l\<lparr>dl_w := m\<rparr> in if err \<noteq> ERR_OK then (err, h, l) else
      case init_field (ps 1) h (dl_b l) 1 (dl_out_dim l) of (err, h, m) \<Rightarrow>
      let l = l\<lparr>dl_b := m\<rparr> in if err \<noteq> ERR_OK then (err, h, l) else
      case init_field (ps 2) h (dl_dw l) (dl_in_dim l) (dl_out_dim l) of (err, h, m) \<Rightarrow>
      let l = l\<lparr>dl_dw := m\<rparr> in if err \<noteq> ERR_OK then (err, h, l) else
      case init_field (ps 3) h (dl_db l) 1 (dl_out_dim l) of (err, h, m) \<Rightarrow>
      (err, h, l\<lparr>dl_db := m\<rparr>))"

definition dense_init ::
  "f32 fmath \<Rightarrow> (nat \<Rightarrow> u64) \<Rightarrow> f32 mem \<Rightarrow> dense_layer option \<Rightarrow> size_t \<Rightarrow> size_t \<Rightarrow> activation \<Rightarrow> rng option
    \<Rightarrow> (error_code \<times> f32 mem \<times> dense_layer option \<times> rng option) ub" where
  "dense_init lib ps h lp in_dim out_dim act rp =
     (if lp = None \<or> in_dim = 0 \<or> out_dim = 0 \<or> rp = None then Some (ERR_INVALID_ARG, h, lp, rp)
      else
        let l = \<lparr>dl_in_dim = in_dim, dl_out_dim = out_dim, dl_act = act, dl_w = null_matx, dl_b = null_matx,
                 dl_dw = null_matx, dl_db = null_matx, dl_x_cache = null_matx, dl_z_cache = null_matx\<rparr>
        in case dense_alloc ps h l of (err, h, l) \<Rightarrow>
             if err \<noteq> ERR_OK then (case dense_destroy h (Some l) of (h, lp) \<Rightarrow> Some (err, h, lp, rp))
             else
               let std = (if act = ACT_RELU then sqrtf (lit32 2 / f32_of_nat (unat in_dim))
                          else sqrtf (lit32 1 / f32_of_nat (unat in_dim)))
               in do { (h, r) \<leftarrow> for_each [0 ..< unat (in_dim * out_dim)] (\<lambda>i (h, r).
                         do { (v, r) \<leftarrow> rng_normal (fm_log lib) r; h \<leftarrow> wr h (mx_data (dl_w l)) i (v * std); Some (h, r) })
                         (h, the rp);
                       Some (ERR_OK, h, Some l, Some r) })"

definition ensure_shape :: "u64 \<Rightarrow> 'a::zero mem \<Rightarrow> matx \<Rightarrow> size_t \<Rightarrow> size_t \<Rightarrow> error_code \<times> 'a mem \<times> matx" where
  "ensure_shape p h m rows cols =
     (if mx_data m \<noteq> 0 \<and> mx_rows m = rows \<and> mx_cols m = cols then (ERR_OK, h, m)
      else case destroy_field h m of (h, m) \<Rightarrow> init_field p h m rows cols)"

text \<open>\<open>memcpy\<close> of \<open>n\<close> elements between blocks.\<close>

definition copy_elems :: "u64 \<Rightarrow> nat \<Rightarrow> u64 \<Rightarrow> nat \<Rightarrow> nat \<Rightarrow> 'a mem \<Rightarrow> 'a mem ub" where
  "copy_elems dst doff src soff n h =
     for_each [0 ..< n] (\<lambda>i h. do { x \<leftarrow> rd h src (soff + i); wr h dst (doff + i) x }) h"

definition dense_forward ::
  "'a::{zero,one,plus,uminus,times,inverse,ord} fmath \<Rightarrow> (nat \<Rightarrow> u64) \<Rightarrow> 'a mem \<Rightarrow> dense_layer option \<Rightarrow> matx option \<Rightarrow> matx option
    \<Rightarrow> (error_code \<times> 'a mem \<times> dense_layer option) ub" where
  "dense_forward m ps h lp xp outp =
     (if lp = None \<or> \<not> has_data xp \<or> \<not> has_data outp then Some (ERR_INVALID_ARG, h, lp)
      else let l = the lp; x = the xp; out = the outp in
        if mx_cols x \<noteq> dl_in_dim l then Some (ERR_INVALID_ARG, h, lp)
        else if mx_rows out \<noteq> mx_rows x \<or> mx_cols out \<noteq> dl_out_dim l then Some (ERR_INVALID_ARG, h, lp)
        else let batch = mx_rows x in
          case ensure_shape (ps 0) h (dl_x_cache l) batch (dl_in_dim l) of (err, h, xc) \<Rightarrow>
          let l = l\<lparr>dl_x_cache := xc\<rparr> in if err \<noteq> ERR_OK then Some (err, h, Some l) else
          case ensure_shape (ps 1) h (dl_z_cache l) batch (dl_out_dim l) of (err, h, zc) \<Rightarrow>
          let l = l\<lparr>dl_z_cache := zc\<rparr> in if err \<noteq> ERR_OK then Some (err, h, Some l) else
          do { h \<leftarrow> copy_elems (mx_data (dl_x_cache l)) 0 (mx_data x) 0 (unat (batch * dl_in_dim l)) h;
               (err, h) \<leftarrow> and_then (matx_mul h (Some x) (Some (dl_w l)) (Some zc)) (\<lambda>h.
                 and_then (matx_add_row h (Some zc) (Some (dl_b l)) (Some zc)) (\<lambda>h.
                   matx_map h (Some zc) (Some (act_fn (dl_act l) m)) (Some out)));
               Some (err, h, Some l) })"

text \<open>The three temporary matrices of \<open>dense_backward\<close> with the memory.\<close>

type_synonym 'a temps = "'a mem \<times> matx \<times> matx \<times> matx"

definition on_mem :: "'a temps \<Rightarrow> (error_code \<times> 'a mem) ub \<Rightarrow> (error_code \<times> 'a temps) ub" where
  "on_mem t r = (case t of (_, dz, xt, wt) \<Rightarrow> map_option (\<lambda>(err, h). (err, (h, dz, xt, wt))) r)"

definition dense_backward ::
  "'a::{zero,one,plus,minus,uminus,times,inverse,ord} fmath \<Rightarrow> (nat \<Rightarrow> u64) \<Rightarrow> 'a mem \<Rightarrow> dense_layer option \<Rightarrow> matx option
    \<Rightarrow> matx option \<Rightarrow> (error_code \<times> 'a mem) ub" where
  "dense_backward m ps h lp doutp dxp =
     (if lp = None \<or> \<not> has_data doutp \<or> mx_data (dl_x_cache (the lp)) = 0 \<or> mx_data (dl_z_cache (the lp)) = 0
      then Some (ERR_INVALID_ARG, h)
      else let l = the lp; dout = the doutp; batch = mx_rows (dl_x_cache l) in
        if mx_rows dout \<noteq> batch \<or> mx_cols dout \<noteq> dl_out_dim l then Some (ERR_INVALID_ARG, h)
        else if dxp \<noteq> None \<and> (mx_rows (the dxp) \<noteq> batch \<or> mx_cols (the dxp) \<noteq> dl_in_dim l) then Some (ERR_INVALID_ARG, h)
        else
          do { (err, h, dz, xt, wt) \<leftarrow>
                 and_then (case init_field (ps 0) h null_matx batch (dl_out_dim l) of (err, h, dz) \<Rightarrow>
                             Some (err, h, dz, null_matx, null_matx)) (\<lambda>(h, dz, xt, wt).
                 and_then (on_mem (h, dz, xt, wt) (matx_map h (Some (dl_z_cache l)) (Some (act_grad_fn (dl_act l) m)) (Some dz))) (\<lambda>(h, dz, xt, wt).
                 and_then (on_mem (h, dz, xt, wt) (matx_hadamard h (Some dz) (Some dout) (Some dz))) (\<lambda>(h, dz, xt, wt).
                 and_then (case init_field (ps 1) h xt (dl_in_dim l) batch of (err, h, xt) \<Rightarrow> Some (err, h, dz, xt, wt)) (\<lambda>(h, dz, xt, wt).
                 and_then (on_mem (h, dz, xt, wt) (matx_transpose h (Some (dl_x_cache l)) (Some xt))) (\<lambda>(h, dz, xt, wt).
                 and_then (on_mem (h, dz, xt, wt) (matx_mul h (Some xt) (Some dz) (Some (dl_dw l)))) (\<lambda>(h, dz, xt, wt).
                 and_then (on_mem (h, dz, xt, wt) (matx_col_sums h (Some dz) (Some (dl_db l)))) (\<lambda>(h, dz, xt, wt).
                 if dxp = None then Some (ERR_OK, h, dz, xt, wt)
                 else
                   and_then (case init_field (ps 2) h wt (dl_out_dim l) (dl_in_dim l) of (err, h, wt) \<Rightarrow> Some (err, h, dz, xt, wt)) (\<lambda>(h, dz, xt, wt).
                   and_then (on_mem (h, dz, xt, wt) (matx_transpose h (Some (dl_w l)) (Some wt))) (\<lambda>(h, dz, xt, wt).
                   on_mem (h, dz, xt, wt) (matx_mul h (Some dz) (Some wt) dxp))))))))));
               let (h, _) = destroy_field h dz; (h, _) = destroy_field h xt; (h, _) = destroy_field h wt in Some (err, h) })"

text \<open>The loop \<open>param[i] -= lr * grad[i]\<close>.\<close>

definition sgd_loop :: "'a::{minus,times} \<Rightarrow> u64 \<Rightarrow> u64 \<Rightarrow> nat \<Rightarrow> 'a mem \<Rightarrow> 'a mem ub" where
  "sgd_loop lr param grad n h =
     for_each [0 ..< n] (\<lambda>i h. do { v \<leftarrow> rd h param i; g \<leftarrow> rd h grad i; wr h param i (v - lr * g) }) h"

definition dense_sgd_step :: "'a::{zero,minus,times,ord} mem \<Rightarrow> dense_layer option \<Rightarrow> 'a \<Rightarrow> (error_code \<times> 'a mem) ub" where
  "dense_sgd_step h lp lr =
     (if lp = None \<or> mx_data (dl_w (the lp)) = 0 \<or> mx_data (dl_dw (the lp)) = 0 \<or> lr \<le> 0 then Some (ERR_INVALID_ARG, h)
      else let l = the lp in
        do { h \<leftarrow> sgd_loop lr (mx_data (dl_w l)) (mx_data (dl_dw l)) (unat (mx_rows (dl_w l) * mx_cols (dl_w l))) h;
             h \<leftarrow> sgd_loop lr (mx_data (dl_b l)) (mx_data (dl_db l)) (unat (mx_cols (dl_b l))) h;
             Some (ERR_OK, h) })"

section \<open>Adam\<close>

record adam_state =
  ad_mw :: matx
  ad_vw :: matx
  ad_mb :: matx
  ad_vb :: matx
  ad_t :: int

definition adam_destroy :: "'a mem \<Rightarrow> adam_state option \<Rightarrow> 'a mem \<times> adam_state option" where
  "adam_destroy h sp =
     (case sp of
        None \<Rightarrow> (h, None)
      | Some s \<Rightarrow>
          let (h, mw) = destroy_field h (ad_mw s); (h, vw) = destroy_field h (ad_vw s);
              (h, mb) = destroy_field h (ad_mb s); (h, vb) = destroy_field h (ad_vb s)
          in (h, Some (s\<lparr>ad_mw := mw, ad_vw := vw, ad_mb := mb, ad_vb := vb\<rparr>)))"

definition adam_init ::
  "(nat \<Rightarrow> u64) \<Rightarrow> 'a::zero mem \<Rightarrow> adam_state option \<Rightarrow> dense_layer option \<Rightarrow> error_code \<times> 'a mem \<times> adam_state option" where
  "adam_init ps h sp lp =
     (if sp = None \<or> lp = None \<or> mx_data (dl_w (the lp)) = 0 then (ERR_INVALID_ARG, h, sp)
      else
        let l = the lp; w = dl_w l; b = dl_b l;
            s = \<lparr>ad_mw = null_matx, ad_vw = null_matx, ad_mb = null_matx, ad_vb = null_matx, ad_t = 0\<rparr>;
            (err, h, m) = init_field (ps 0) h (ad_mw s) (mx_rows w) (mx_cols w); s = s\<lparr>ad_mw := m\<rparr>;
            (err, h, s) = (if err \<noteq> ERR_OK then (err, h, s)
               else case init_field (ps 1) h (ad_vw s) (mx_rows w) (mx_cols w) of (err, h, m) \<Rightarrow> (err, h, s\<lparr>ad_vw := m\<rparr>));
            (err, h, s) = (if err \<noteq> ERR_OK then (err, h, s)
               else case init_field (ps 2) h (ad_mb s) 1 (mx_cols b) of (err, h, m) \<Rightarrow> (err, h, s\<lparr>ad_mb := m\<rparr>));
            (err, h, s) = (if err \<noteq> ERR_OK then (err, h, s)
               else case init_field (ps 3) h (ad_vb s) 1 (mx_cols b) of (err, h, m) \<Rightarrow> (err, h, s\<lparr>ad_vb := m\<rparr>))
        in if err \<noteq> ERR_OK then (case adam_destroy h (Some s) of (h, sp) \<Rightarrow> (err, h, sp)) else (err, h, Some s))"

definition adam_update ::
  "'a::{one,plus,minus,times,inverse} fmath \<Rightarrow> u64 \<Rightarrow> u64 \<Rightarrow> u64 \<Rightarrow> u64 \<Rightarrow> nat \<Rightarrow> 'a \<Rightarrow> int \<Rightarrow> 'a mem \<Rightarrow> 'a mem ub" where
  "adam_update k param grad m v n lr t h =
     (let beta1 = fm_lit k (9 / 10); beta2 = fm_lit k (999 / 1000);
          bc1 = 1 - fm_pow k beta1 (fm_nat k (nat t)); bc2 = 1 - fm_pow k beta2 (fm_nat k (nat t))
      in for_each [0 ..< n] (\<lambda>i h.
           do { mi \<leftarrow> rd h m i; g \<leftarrow> rd h grad i; h \<leftarrow> wr h m i (beta1 * mi + (1 - beta1) * g);
                vi \<leftarrow> rd h v i; g \<leftarrow> rd h grad i; h \<leftarrow> wr h v i (beta2 * vi + (1 - beta2) * g * g);
                mi \<leftarrow> rd h m i; vi \<leftarrow> rd h v i;
                let mhat = mi / bc1; let vhat = vi / bc2;
                p \<leftarrow> rd h param i; wr h param i (p - lr * mhat / (fm_sqrt k vhat + fm_lit k (1 / 10 ^ 8))) }) h)"

text \<open>The step counter is an \<open>int\<close>: counting past its range is undefined.\<close>

definition adam_step ::
  "'a::{zero,one,plus,minus,times,inverse,ord} fmath \<Rightarrow> 'a mem \<Rightarrow> adam_state option \<Rightarrow> dense_layer option \<Rightarrow> 'a
    \<Rightarrow> (error_code \<times> 'a mem \<times> adam_state option) ub" where
  "adam_step k h sp lp lr =
     (if sp = None \<or> mx_data (ad_mw (the sp)) = 0 \<or> lp = None \<or> mx_data (dl_w (the lp)) = 0 \<or> lr \<le> 0
      then Some (ERR_INVALID_ARG, h, sp)
      else let s = the sp; l = the lp in
        if mx_rows (ad_mw s) \<noteq> mx_rows (dl_w l) \<or> mx_cols (ad_mw s) \<noteq> mx_cols (dl_w l) then Some (ERR_INVALID_ARG, h, sp)
        else if ad_t s = 2147483647 then None
        else let s = s\<lparr>ad_t := ad_t s + 1\<rparr> in
          do { h \<leftarrow> adam_update k (mx_data (dl_w l)) (mx_data (dl_dw l)) (mx_data (ad_mw s)) (mx_data (ad_vw s))
                      (unat (mx_rows (dl_w l) * mx_cols (dl_w l))) lr (ad_t s) h;
               h \<leftarrow> adam_update k (mx_data (dl_b l)) (mx_data (dl_db l)) (mx_data (ad_mb s)) (mx_data (ad_vb s))
                      (unat (mx_cols (dl_b l))) lr (ad_t s) h;
               Some (ERR_OK, h, Some s) })"

section \<open>Losses\<close>

text \<open>\<open>out_loss\<close> says whether a result is wanted; \<open>dpred\<close> is the matrix of the gradient or null.\<close>

definition loss_mse ::
  "('a \<Rightarrow> 'b) \<Rightarrow> ('b \<Rightarrow> 'a) \<Rightarrow> 'a::{minus,times,inverse} fmath \<Rightarrow> 'b::{zero,plus,inverse} fmath \<Rightarrow> 'a mem
    \<Rightarrow> matx option \<Rightarrow> matx option \<Rightarrow> bool \<Rightarrow> matx option \<Rightarrow> (error_code \<times> 'a option \<times> 'a mem) ub" where
  "loss_mse widen narrow m d h pp tp out_loss dp =
     (if \<not> has_data pp \<or> \<not> has_data tp then Some (ERR_INVALID_ARG, None, h)
      else let pred = the pp; target = the tp in
        if \<not> same_shape pred target then Some (ERR_INVALID_ARG, None, h)
        else if dp \<noteq> None \<and> \<not> same_shape (the dp) pred then Some (ERR_INVALID_ARG, None, h)
        else let n = mx_count pred in
          do { (sum, h) \<leftarrow> for_each [0 ..< n] (\<lambda>i (sum, h).
                 do { x \<leftarrow> rd h (mx_data pred) i; y \<leftarrow> rd h (mx_data target) i;
                      let diff = x - y; let sum = sum + widen (diff * diff);
                      h \<leftarrow> (if dp \<noteq> None then wr h (mx_data (the dp)) i (fm_lit m 2 * diff / fm_nat m n) else Some h);
                      Some (sum, h) }) (0, h);
               Some (ERR_OK, (if out_loss then Some (narrow (sum / fm_nat d n)) else None), h) })"

text \<open>One row of the softmax: the index of its maximum and \<open>log_sum\<close>, then its elements.\<close>

definition row_log_sum :: "'a::{one,plus,minus,ord} fmath \<Rightarrow> 'a mem \<Rightarrow> u64 \<Rightarrow> nat \<Rightarrow> nat \<Rightarrow> 'a ub" where
  "row_log_sum m h data base classes =
     do { max_c \<leftarrow> for_each [1 ..< classes] (\<lambda>c max_c.
            do { x \<leftarrow> rd h data (base + c); y \<leftarrow> rd h data (base + max_c); Some (if x > y then c else max_c) }) 0;
          max \<leftarrow> rd h data (base + max_c);
          sum \<leftarrow> for_each [0 ..< classes] (\<lambda>c sum.
            if c \<noteq> max_c then do { x \<leftarrow> rd h data (base + c); Some (sum + fm_exp m (x - max)) } else Some sum) 1;
          Some (fm_log m sum + max) }"

definition loss_softmax_xent ::
  "('a \<Rightarrow> 'b) \<Rightarrow> ('b \<Rightarrow> 'a) \<Rightarrow> 'a::{zero,one,plus,minus,times,inverse,ord} fmath \<Rightarrow> 'b::{zero,plus,inverse} fmath \<Rightarrow> 'a mem
    \<Rightarrow> matx option \<Rightarrow> matx option \<Rightarrow> bool \<Rightarrow> matx option \<Rightarrow> (error_code \<times> 'a option \<times> 'a mem) ub" where
  "loss_softmax_xent widen narrow m d h lp op out_loss dp =
     (if \<not> has_data lp \<or> \<not> has_data op then Some (ERR_INVALID_ARG, None, h)
      else let logits = the lp; onehot = the op in
        if \<not> same_shape logits onehot then Some (ERR_INVALID_ARG, None, h)
        else if dp \<noteq> None \<and> \<not> same_shape (the dp) logits then Some (ERR_INVALID_ARG, None, h)
        else let batch = unat (mx_rows logits); classes = unat (mx_cols logits) in
          if batch = 0 \<or> classes = 0 then Some (ERR_INVALID_ARG, None, h)
          else
            do { (tot, h) \<leftarrow> for_each [0 ..< batch] (\<lambda>r (tot, h).
                   do { log_sum \<leftarrow> row_log_sum m h (mx_data logits) (r * classes) classes;
                        for_each [0 ..< classes] (\<lambda>c (tot, h).
                          do { x \<leftarrow> rd h (mx_data logits) (r * classes + c); y \<leftarrow> rd h (mx_data onehot) (r * classes + c);
                               let p = fm_exp m (x - log_sum);
                               let tot = (if y > 0 then tot + widen (y * (log_sum - x)) else tot);
                               h \<leftarrow> (if dp \<noteq> None then wr h (mx_data (the dp)) (r * classes + c) ((p - y) / fm_nat m batch) else Some h);
                               Some (tot, h) }) (tot, h) }) (0, h);
                 Some (ERR_OK, (if out_loss then Some (narrow (tot / fm_nat d batch)) else None), h) })"

end
