(* ===== verification/NnLayer.thy ===== *)
theory NnLayer
  imports Nn
begin

text \<open>
  The dense layer of theory Nn: the invariant of its matrices, and what the forward and backward
  passes compute, in any arithmetic.
\<close>

section \<open>The invariant of a layer\<close>

definition shaped :: "'a mem \<Rightarrow> matx \<Rightarrow> size_t \<Rightarrow> size_t \<Rightarrow> bool" where
  "shaped h m rows cols \<longleftrightarrow> mx_ok h m \<and> mx_rows m = rows \<and> mx_cols m = cols"

text \<open>The addresses a layer uses; unallocated caches have the address 0.\<close>

definition layer_blocks :: "dense_layer \<Rightarrow> u64 list" where
  "layer_blocks l = [mx_data (dl_w l), mx_data (dl_b l), mx_data (dl_dw l), mx_data (dl_db l),
     mx_data (dl_x_cache l), mx_data (dl_z_cache l)]"

definition layer_inv :: "'a mem \<Rightarrow> dense_layer \<Rightarrow> bool" where
  "layer_inv h l \<longleftrightarrow>
     shaped h (dl_w l) (dl_in_dim l) (dl_out_dim l) \<and> shaped h (dl_b l) 1 (dl_out_dim l)
   \<and> shaped h (dl_dw l) (dl_in_dim l) (dl_out_dim l) \<and> shaped h (dl_db l) 1 (dl_out_dim l)
   \<and> (mx_data (dl_x_cache l) \<noteq> 0 \<longrightarrow> mx_ok h (dl_x_cache l) \<and> mx_cols (dl_x_cache l) = dl_in_dim l)
   \<and> (mx_data (dl_z_cache l) \<noteq> 0 \<longrightarrow> mx_ok h (dl_z_cache l) \<and> mx_cols (dl_z_cache l) = dl_out_dim l)
   \<and> distinct (filter (\<lambda>p. p \<noteq> 0) (layer_blocks l))"

lemma writes_OK:
  assumes "writes h out True g res"
  obtains h' where "res = Some (ERR_OK, h')" "\<And>m. mx_ok h m \<Longrightarrow> mx_ok h' m" "\<And>q. q \<noteq> mx_data out \<Longrightarrow> h' q = h q"
    "\<And>r c. r < unat (mx_rows out) \<Longrightarrow> c < unat (mx_cols out) \<Longrightarrow> mx_at h' out r c = g r c"
  using assms by (auto simp: writes_def)

lemma mx_at_cong: "h' (mx_data m) = h (mx_data m) \<Longrightarrow> mx_at h' m r c = mx_at h m r c"
  by (simp add: mx_at_def)

lemma mx_ok_cong: "h' (mx_data m) = h (mx_data m) \<Longrightarrow> mx_ok h' m = mx_ok h m"
  by (simp add: mx_ok_def)

lemma shaped_cong: "h' (mx_data m) = h (mx_data m) \<Longrightarrow> shaped h' m r c = shaped h m r c"
  by (simp add: shaped_def mx_ok_def)

lemma and_then_simps [simp]:
  "and_then (Some (ERR_OK, s)) f = f s" "err \<noteq> ERR_OK \<Longrightarrow> and_then (Some (err, s)) f = Some (err, s)"
  by (simp_all add: and_then_def)

lemma layer_blocks_distinct:
  assumes "mx_data (dl_w l) \<noteq> 0" and "mx_data (dl_b l) \<noteq> 0" and "mx_data (dl_dw l) \<noteq> 0" and "mx_data (dl_db l) \<noteq> 0"
  shows "distinct (filter (\<lambda>p. p \<noteq> 0) (layer_blocks l)) \<longleftrightarrow>
     (let ps = [mx_data (dl_w l), mx_data (dl_b l), mx_data (dl_dw l), mx_data (dl_db l)] in
      distinct ps \<and> (mx_data (dl_x_cache l) \<noteq> 0 \<longrightarrow> mx_data (dl_x_cache l) \<notin> set ps)
      \<and> (mx_data (dl_z_cache l) \<noteq> 0 \<longrightarrow> mx_data (dl_z_cache l) \<notin> set ps \<and> mx_data (dl_z_cache l) \<noteq> mx_data (dl_x_cache l)))"
  using assms unfolding layer_blocks_def Let_def by auto

text \<open>A matrix inside a structure, allocated at a fresh address.\<close>

lemma init_field_eq:
  assumes "p \<noteq> 0" and "rows \<noteq> 0" and "cols \<noteq> 0" and "unat rows * unat cols < 2 ^ 62"
  shows "init_field p h m rows cols = (ERR_OK, h(p := replicate (unat rows * unat cols) 0),
     \<lparr>mx_data = p, mx_rows = rows, mx_cols = cols, mx_owns = 1\<rparr>)"
    and "shaped (h(p := replicate (unat rows * unat cols) 0)) \<lparr>mx_data = p, mx_rows = rows, mx_cols = cols, mx_owns = 1\<rparr> rows cols"
proof -
  have "checked_count rows cols = (ERR_OK, rows * cols)" using assms by (simp add: checked_count_cases)
  moreover have "unat (rows * cols) = unat rows * unat cols" using assms(4) by (simp add: unat_mult_small)
  ultimately show "init_field p h m rows cols = (ERR_OK, h(p := replicate (unat rows * unat cols) 0),
     \<lparr>mx_data = p, mx_rows = rows, mx_cols = cols, mx_owns = 1\<rparr>)"
    using assms(1) by (simp add: init_field_def matx_init_def)
  show "shaped (h(p := replicate (unat rows * unat cols) 0)) \<lparr>mx_data = p, mx_rows = rows, mx_cols = cols, mx_owns = 1\<rparr> rows cols"
    using assms by (simp add: shaped_def mx_ok_def)
qed

lemma ensure_shape_ok:
  fixes h :: "'a::zero mem"
  assumes "mx_data m \<noteq> 0 \<Longrightarrow> mx_ok h m" and "p \<noteq> 0" and "rows \<noteq> 0" and "cols \<noteq> 0" and "unat rows * unat cols < 2 ^ 62"
  obtains h' m' where "ensure_shape p h m rows cols = (ERR_OK, h', m')" "shaped h' m' rows cols" "mx_data m' \<in> {mx_data m, p}"
    "mx_data m' \<noteq> 0" "\<And>q. q \<noteq> p \<Longrightarrow> q \<noteq> mx_data m \<Longrightarrow> h' q = h q"
proof (cases "mx_data m \<noteq> 0 \<and> mx_rows m = rows \<and> mx_cols m = cols")
  case True
  then show ?thesis using assms(1) that [of h m] by (simp add: ensure_shape_def shaped_def)
next
  case False
  obtain h0 m0 where d: "destroy_field h m = (h0, m0)" "\<And>q. q \<noteq> mx_data m \<Longrightarrow> h0 q = h q"
    by (cases "mx_owns m = 0") (auto simp: destroy_field_def matx_destroy_def)
  show ?thesis using False d init_field_eq [OF assms(2-5)] assms(2)
    by (intro that [of "h0(p := replicate (unat rows * unat cols) 0)" "\<lparr>mx_data = p, mx_rows = rows, mx_cols = cols, mx_owns = 1\<rparr>"])
       (auto simp: ensure_shape_def)
qed

lemma copy_elems_whole:
  assumes "n = length (h src)" and "length (h dst) = n" and "src \<noteq> dst"
  shows "copy_elems dst 0 src 0 n h = Some (h(dst := h src))"
proof -
  have "copy_elems dst 0 src 0 n h = Some (h(dst := map (\<lambda>i. h src ! i) [0 ..< n] @ drop n (h dst)))"
    unfolding copy_elems_def by (rule for_each_write) (use assms in \<open>simp_all add: rd_def wr_def\<close>)
  then show ?thesis using assms(1,2) by (simp add: map_nth)
qed

section \<open>The forward pass\<close>

text \<open>The pre-activation of sample \<open>i\<close> at output \<open>j\<close>.\<close>

definition affine :: "(nat \<Rightarrow> nat \<Rightarrow> 'a::{zero,plus,times}) \<Rightarrow> (nat \<Rightarrow> nat \<Rightarrow> 'a) \<Rightarrow> (nat \<Rightarrow> 'a) \<Rightarrow> nat \<Rightarrow> nat \<Rightarrow> nat \<Rightarrow> 'a" where
  "affine X W B K i j = dot_entry X W K i j + B j"

lemma dot_entry_cong:
  "(\<And>k. k < n \<Longrightarrow> A i k = A' i k) \<Longrightarrow> (\<And>k. k < n \<Longrightarrow> B k j = B' k j) \<Longrightarrow> dot_entry A B n i j = dot_entry A' B' n i j"
  unfolding dot_entry_def by (rule fold_cong) simp_all

lemma dense_forward_spec:
  fixes h :: "'a::{zero,one,plus,uminus,times,inverse,ord} mem"
  assumes "layer_inv h l" and "shaped h x (mx_rows x) (dl_in_dim l)" and "shaped h out (mx_rows x) (dl_out_dim l)"
    and "mx_data x \<notin> set (layer_blocks l)" and "mx_data out \<notin> set (layer_blocks l)" and "mx_data out \<noteq> mx_data x"
    and "distinct [ps 0, ps 1, 0, mx_data x, mx_data out]" and "{ps 0, ps 1} \<inter> set (layer_blocks l) = {}"
  shows "\<exists>h' l'. dense_forward m ps h (Some l) (Some x) (Some out) = Some (ERR_OK, h', Some l') \<and> layer_inv h' l'
     \<and> l' = l\<lparr>dl_x_cache := dl_x_cache l', dl_z_cache := dl_z_cache l'\<rparr>
     \<and> shaped h' (dl_x_cache l') (mx_rows x) (dl_in_dim l) \<and> shaped h' (dl_z_cache l') (mx_rows x) (dl_out_dim l)
     \<and> (\<forall>q \<in> {mx_data (dl_w l), mx_data (dl_b l), mx_data (dl_dw l), mx_data (dl_db l), mx_data x}. h' q = h q)
     \<and> (\<forall>q. q \<notin> set (layer_blocks l) \<union> {ps 0, ps 1, mx_data out} \<longrightarrow> h' q = h q)
     \<and> {mx_data (dl_x_cache l'), mx_data (dl_z_cache l')} \<subseteq> set (layer_blocks l) \<union> {ps 0, ps 1}
     \<and> (\<forall>i k. mx_at h' (dl_x_cache l') i k = mx_at h x i k)
     \<and> (\<forall>i j. i < unat (mx_rows x) \<longrightarrow> j < unat (dl_out_dim l) \<longrightarrow>
          mx_at h' (dl_z_cache l') i j = affine (mx_at h x) (mx_at h (dl_w l)) (mx_at h (dl_b l) 0) (unat (dl_in_dim l)) i j
        \<and> mx_at h' out i j = act_fn (dl_act l) m (mx_at h' (dl_z_cache l') i j))"
proof -
  note inv = assms(1) [unfolded layer_inv_def]
  let ?batch = "mx_rows x" and ?in = "dl_in_dim l" and ?out = "dl_out_dim l"
  let ?w = "mx_data (dl_w l)" and ?b = "mx_data (dl_b l)" and ?dw = "mx_data (dl_dw l)" and ?db = "mx_data (dl_db l)"
  have nz: "?batch \<noteq> 0" "?in \<noteq> 0" "?out \<noteq> 0" "unat ?batch * unat ?in < 2 ^ 62" "unat ?batch * unat ?out < 2 ^ 62"
    using assms(2,3) by (auto simp: shaped_def mx_ok_def)
  have p: "ps 0 \<noteq> 0" "ps 1 \<noteq> 0" using assms(7) by auto
  have fresh: "ps 0 \<notin> set (layer_blocks l)" "ps 1 \<notin> set (layer_blocks l)" using assms(8) by auto
  have blocks: "?w \<noteq> 0" "?b \<noteq> 0" "?dw \<noteq> 0" "?db \<noteq> 0" using inv by (auto simp: shaped_def mx_ok_def)
  have sep: "distinct [?w, ?b, ?dw, ?db]"
    "mx_data (dl_x_cache l) \<noteq> 0 \<Longrightarrow> mx_data (dl_x_cache l) \<notin> {?w, ?b, ?dw, ?db}"
    "mx_data (dl_z_cache l) \<noteq> 0 \<Longrightarrow> mx_data (dl_z_cache l) \<notin> {?w, ?b, ?dw, ?db, mx_data (dl_x_cache l)}"
    using inv layer_blocks_distinct [OF blocks] by (simp_all add: Let_def)
  obtain h1 xc where h1: "ensure_shape (ps 0) h (dl_x_cache l) ?batch ?in = (ERR_OK, h1, xc)" "shaped h1 xc ?batch ?in"
    "mx_data xc \<in> {mx_data (dl_x_cache l), ps 0}" "mx_data xc \<noteq> 0" "\<And>q. q \<noteq> ps 0 \<Longrightarrow> q \<noteq> mx_data (dl_x_cache l) \<Longrightarrow> h1 q = h q"
    by (rule ensure_shape_ok [of "dl_x_cache l" h "ps 0" ?batch ?in]) (use inv p nz in auto)
  have zk: "mx_data (dl_z_cache l) \<noteq> 0 \<Longrightarrow> mx_data (dl_z_cache l) \<noteq> mx_data (dl_x_cache l)"
    using sep(3) by simp
  have z1: "mx_ok h1 (dl_z_cache l)" if "mx_data (dl_z_cache l) \<noteq> 0"
  proof -
    have "h1 (mx_data (dl_z_cache l)) = h (mx_data (dl_z_cache l))"
      by (rule h1(5)) (use zk [OF that] fresh in \<open>auto simp: layer_blocks_def\<close>)
    then show ?thesis using inv that mx_ok_cong by blast
  qed
  obtain h2 zc where h2: "ensure_shape (ps 1) h1 (dl_z_cache l) ?batch ?out = (ERR_OK, h2, zc)" "shaped h2 zc ?batch ?out"
    "mx_data zc \<in> {mx_data (dl_z_cache l), ps 1}" "mx_data zc \<noteq> 0" "\<And>q. q \<noteq> ps 1 \<Longrightarrow> q \<noteq> mx_data (dl_z_cache l) \<Longrightarrow> h2 q = h1 q"
    by (rule ensure_shape_ok [of "dl_z_cache l" h1 "ps 1" ?batch ?out]) (use z1 p nz in auto)
  have xz: "mx_data xc \<noteq> mx_data zc" using h1(3,4) h2(3,4) zk fresh assms(7) by (auto simp: layer_blocks_def)
  have keep: "h2 q = h q" if "q \<in> {?w, ?b, ?dw, ?db, mx_data x, mx_data out}" for q
  proof -
    have "q \<noteq> 0" using that blocks assms(2,3) by (auto simp: shaped_def mx_ok_def)
    then have "q \<noteq> ps 0" "q \<noteq> ps 1" "q \<noteq> mx_data (dl_x_cache l)" "q \<noteq> mx_data (dl_z_cache l)"
      using that fresh assms(4,5,7) sep(2,3) by (auto simp: layer_blocks_def)
    then show ?thesis using h1(5) h2(5) by simp
  qed
  have xc2: "h2 (mx_data xc) = h1 (mx_data xc)"
  proof (rule h2(5))
    show "mx_data xc \<noteq> ps 1" using h1(3) fresh assms(7) by (auto simp: layer_blocks_def)
    show "mx_data xc \<noteq> mx_data (dl_z_cache l)"
      using h1(3,4) zk fresh by (cases "mx_data (dl_z_cache l) = 0") (auto simp: layer_blocks_def)
  qed
  have sh2: "shaped h2 xc ?batch ?in" "shaped h2 x ?batch ?in" "shaped h2 out ?batch ?out" "shaped h2 (dl_w l) ?in ?out" "shaped h2 (dl_b l) 1 ?out"
    "shaped h2 (dl_dw l) ?in ?out" "shaped h2 (dl_db l) 1 ?out"
  proof -
    have k: "shaped h2 m r c = shaped h m r c" if "mx_data m \<in> {?w, ?b, ?dw, ?db, mx_data x, mx_data out}" for m r c
      using keep [OF that] by (rule shaped_cong)
    show "shaped h2 xc ?batch ?in" using h1(2) shaped_cong [of h2 xc h1] xc2 by blast
    show "shaped h2 x ?batch ?in" "shaped h2 out ?batch ?out" "shaped h2 (dl_w l) ?in ?out" "shaped h2 (dl_b l) 1 ?out"
      "shaped h2 (dl_dw l) ?in ?out" "shaped h2 (dl_db l) 1 ?out" using assms(2,3) inv by (simp_all add: k)
  qed
  let ?h3 = "h2(mx_data xc := h2 (mx_data x))"
  have neq: "mx_data x \<noteq> mx_data xc" "mx_data x \<noteq> mx_data zc" "mx_data out \<noteq> mx_data xc" "mx_data out \<noteq> mx_data zc"
    using h1(3) h2(3) assms(4,5,7) by (auto simp: layer_blocks_def)
  have neqw: "q \<noteq> mx_data xc" "q \<noteq> mx_data zc" if "q \<in> {?w, ?b, ?dw, ?db}" for q
    using that h1(3) h2(3) sep(2,3) fresh h1(4) h2(4) by (auto simp: layer_blocks_def)
  have bx: "mx_data xc \<notin> {?w, ?b, ?dw, ?db}" "mx_data zc \<notin> {?w, ?b, ?dw, ?db}" using neqw by blast+
  have bz: "mx_data zc \<noteq> ?b" "mx_data zc \<noteq> ?w" using neqw(2) by auto
  have n: "unat (?batch * ?in) = length (h2 (mx_data x))" using sh2(2) nz(4) by (simp add: shaped_def mx_ok_def unat_mult_small)
  have cp: "copy_elems (mx_data xc) 0 (mx_data x) 0 (unat (?batch * ?in)) h2 = Some ?h3"
    unfolding n by (rule copy_elems_whole) (use sh2(1,2) neq(1) in \<open>auto simp: shaped_def mx_ok_def\<close>)
  have sh3: "mx_ok ?h3 m = mx_ok h2 m" for m using sh2(1,2) by (auto simp: shaped_def mx_ok_def)
  have z3: "mx_ok ?h3 x" "mx_ok ?h3 (dl_w l)" "mx_ok ?h3 (dl_b l)" "mx_ok ?h3 zc" "mx_ok ?h3 out"
    unfolding sh3 using sh2 h2(2) by (simp_all add: shaped_def)
  have fit: "mx_cols x = mx_rows (dl_w l) \<and> mx_rows zc = mx_rows x \<and> mx_cols zc = mx_cols (dl_w l)
             \<and> mx_data zc \<noteq> mx_data x \<and> mx_data zc \<noteq> ?w"
    using sh2 h2(2) neq(2) neqw by (auto simp: shaped_def)
  have mw: "writes ?h3 zc True (dot_entry (mx_at ?h3 x) (mx_at ?h3 (dl_w l)) (unat (mx_cols x))) (matx_mul ?h3 (Some x) (Some (dl_w l)) (Some zc))"
    using mul_writes [OF z3(1,2,4)] fit by simp
  obtain h4 where h4: "matx_mul ?h3 (Some x) (Some (dl_w l)) (Some zc) = Some (ERR_OK, h4)" "\<And>m. mx_ok ?h3 m \<Longrightarrow> mx_ok h4 m"
    "\<And>q. q \<noteq> mx_data zc \<Longrightarrow> h4 q = ?h3 q"
    "\<And>r c. r < unat (mx_rows zc) \<Longrightarrow> c < unat (mx_cols zc) \<Longrightarrow> mx_at h4 zc r c = dot_entry (mx_at ?h3 x) (mx_at ?h3 (dl_w l)) (unat (mx_cols x)) r c"
    by (rule writes_OK [OF mw]) blast
  have mr: "writes h4 zc True (\<lambda>r c. mx_at h4 zc r c + mx_at h4 (dl_b l) 0 c) (matx_add_row h4 (Some zc) (Some (dl_b l)) (Some zc))"
    using add_row_writes [OF h4(2) [OF z3(4)] h4(2) [OF z3(3)] h4(2) [OF z3(4)]] bz sh2(5) h2(2) by (simp add: shaped_def same_shape_def)
  obtain h5 where h5: "matx_add_row h4 (Some zc) (Some (dl_b l)) (Some zc) = Some (ERR_OK, h5)" "\<And>m. mx_ok h4 m \<Longrightarrow> mx_ok h5 m"
    "\<And>q. q \<noteq> mx_data zc \<Longrightarrow> h5 q = h4 q"
    "\<And>r c. r < unat (mx_rows zc) \<Longrightarrow> c < unat (mx_cols zc) \<Longrightarrow> mx_at h5 zc r c = mx_at h4 zc r c + mx_at h4 (dl_b l) 0 c"
    by (rule writes_OK [OF mr]) blast
  have ok5: "mx_ok h5 m" if "mx_ok h2 m" for m using that h4(2) h5(2) sh3 by blast
  have ma: "writes h5 out True (\<lambda>r c. act_fn (dl_act l) m (mx_at h5 zc r c)) (matx_map h5 (Some zc) (Some (act_fn (dl_act l) m)) (Some out))"
    using matx_map_writes [OF ok5 ok5, of zc out "act_fn (dl_act l) m"] sh2(3) h2(2)
    by (simp add: shaped_def same_shape_def)
  obtain h6 where h6: "matx_map h5 (Some zc) (Some (act_fn (dl_act l) m)) (Some out) = Some (ERR_OK, h6)" "\<And>m. mx_ok h5 m \<Longrightarrow> mx_ok h6 m"
    "\<And>q. q \<noteq> mx_data out \<Longrightarrow> h6 q = h5 q"
    "\<And>r c. r < unat (mx_rows out) \<Longrightarrow> c < unat (mx_cols out) \<Longrightarrow> mx_at h6 out r c = act_fn (dl_act l) m (mx_at h5 zc r c)"
    by (rule writes_OK [OF ma]) blast
  let ?l = "l\<lparr>dl_x_cache := xc, dl_z_cache := zc\<rparr>"
  have run: "dense_forward m ps h (Some l) (Some x) (Some out) = Some (ERR_OK, h6, Some ?l)"
    using assms(2,3) cp h4(1) h5(1) h6(1) h1(1) h2(1) mx_ok_has_data [of h x] mx_ok_has_data [of h out]
    by (simp add: dense_forward_def shaped_def Let_def)
  have old: "h6 q = h q" if "q \<in> {?w, ?b, ?dw, ?db, mx_data x}" for q
  proof -
    have "q \<noteq> mx_data out" using that assms(5,6) by (auto simp: layer_blocks_def)
    moreover have "q \<noteq> mx_data zc \<and> q \<noteq> mx_data xc"
    proof (cases "q = mx_data x")
      case True
      then show ?thesis using neq(1,2) by simp
    next
      case False
      then have "q \<in> {?w, ?b, ?dw, ?db}" using that by simp
      then show ?thesis using neqw [of q] by blast
    qed
    ultimately have "q \<noteq> mx_data out" "q \<noteq> mx_data zc" "q \<noteq> mx_data xc" by simp_all
    then show ?thesis using keep that h6(3) h5(3) h4(3) by simp
  qed
  have ok6: "mx_ok h6 m" if "mx_ok h2 m" for m using ok5 [OF that] h6(2) by blast
  have "distinct [?w, ?b, ?dw, ?db]" by (rule sep(1))
  then have "distinct (filter (\<lambda>p. p \<noteq> 0) (layer_blocks ?l))"
    using xz bx by (subst layer_blocks_distinct) (simp_all add: Let_def blocks)
  then have linv: "layer_inv h6 ?l" using sh2 h2(2) ok6 by (simp add: layer_inv_def shaped_def)
  have xcv: "mx_at h6 xc i k = mx_at h x i k" for i k
  proof -
    have "h6 (mx_data xc) = h2 (mx_data x)" using h6(3) h5(3) h4(3) neq xz by simp
    then show ?thesis using keep sh2(1) assms(2) by (simp add: mx_at_def shaped_def)
  qed
  have zv: "mx_at h6 zc i j = affine (mx_at h x) (mx_at h (dl_w l)) (mx_at h (dl_b l) 0) (unat ?in) i j"
    and ov: "mx_at h6 out i j = act_fn (dl_act l) m (mx_at h6 zc i j)"
    if "i < unat ?batch" "j < unat ?out" for i j
  proof -
    have e: "h6 (mx_data zc) = h5 (mx_data zc)" using h6(3) neq by simp
    have "mx_at h4 zc i j = dot_entry (mx_at h x) (mx_at h (dl_w l)) (unat ?in) i j"
      using h4(4) [of i j] that h2(2) sh2(2) keep neq(1) neqw(1) [of ?w]
      by (simp add: shaped_def mx_at_def [abs_def])
    moreover have "mx_at h4 (dl_b l) 0 j = mx_at h (dl_b l) 0 j"
      using h4(3) [of ?b] neqw [of ?b] keep [of ?b] by (simp add: mx_at_def)
    ultimately show "mx_at h6 zc i j = affine (mx_at h x) (mx_at h (dl_w l)) (mx_at h (dl_b l) 0) (unat ?in) i j"
      using h5(4) [of i j] that h2(2) e by (simp add: affine_def shaped_def mx_at_def)
    show "mx_at h6 out i j = act_fn (dl_act l) m (mx_at h6 zc i j)"
      using h6(4) [of i j] that sh2(3) e by (simp add: shaped_def mx_at_def)
  qed
  have sub: "{mx_data xc, mx_data zc} \<subseteq> set (layer_blocks l) \<union> {ps 0, ps 1}" using h1(3) h2(3) by (auto simp: layer_blocks_def)
  have frame: "h6 q = h q" if "q \<notin> set (layer_blocks l) \<union> {ps 0, ps 1, mx_data out}" for q
  proof -
    have "q \<noteq> mx_data xc" "q \<noteq> mx_data zc" "q \<noteq> mx_data (dl_x_cache l)" "q \<noteq> mx_data (dl_z_cache l)"
      using that sub by (auto simp: layer_blocks_def)
    then show ?thesis using that h6(3) h5(3) h4(3) h2(5) h1(5) by simp
  qed
  show ?thesis
    using sub frame run linv old xcv zv ov ok6 sh2(1) h2(2) by (intro exI [of _ h6] exI [of _ ?l]) (simp add: shaped_def)
qed

section \<open>The backward pass\<close>

text \<open>The gradient at the pre-activation of sample \<open>i\<close> and output \<open>j\<close>.\<close>

definition delta :: "('a \<Rightarrow> 'a::times) \<Rightarrow> (nat \<Rightarrow> nat \<Rightarrow> 'a) \<Rightarrow> (nat \<Rightarrow> nat \<Rightarrow> 'a) \<Rightarrow> nat \<Rightarrow> nat \<Rightarrow> 'a" where
  "delta g Z D i j = g (Z i j) * D i j"

lemma destroy_field_keeps: "q \<noteq> mx_data m \<Longrightarrow> fst (destroy_field h m) q = h q"
  by (simp add: destroy_field_def matx_destroy_def)

lemma on_mem_OK [simp]: "on_mem (h, dz, xt, wt) (Some (ERR_OK, h')) = Some (ERR_OK, h', dz, xt, wt)"
  by (simp add: on_mem_def)

lemma shaped_OK: "shaped h m r c \<Longrightarrow> (\<And>m. mx_ok h m \<Longrightarrow> mx_ok h' m) \<Longrightarrow> shaped h' m r c"
  by (simp add: shaped_def)

text \<open>The first half: the temporaries, the weight and the bias gradient.\<close>

lemma backward_gradients:
  fixes h :: "'a::{zero,one,plus,minus,uminus,times,inverse,ord} mem"
  assumes "shaped h xc batch inp" and "shaped h zc batch outp" and "shaped h dout batch outp"
    and "shaped h dw inp outp" and "shaped h db 1 outp"
    and "distinct [p0, p1, 0, mx_data xc, mx_data zc, mx_data dw, mx_data db]"
    and "mx_data dout \<notin> {p0, p1, mx_data dw, mx_data db}"
  obtains h1 dz h2 h3 h4 xt h5 h6 h7 where
    "init_field p0 h null_matx batch outp = (ERR_OK, h1, dz)" "mx_data dz = p0"
    "matx_map h1 (Some zc) (Some g) (Some dz) = Some (ERR_OK, h2)"
    "matx_hadamard h2 (Some dz) (Some dout) (Some dz) = Some (ERR_OK, h3)"
    "init_field p1 h3 null_matx inp batch = (ERR_OK, h4, xt)" "mx_data xt = p1"
    "matx_transpose h4 (Some xc) (Some xt) = Some (ERR_OK, h5)"
    "matx_mul h5 (Some xt) (Some dz) (Some dw) = Some (ERR_OK, h6)"
    "matx_col_sums h6 (Some dz) (Some db) = Some (ERR_OK, h7)"
    "\<And>q. q \<notin> {p0, p1, mx_data dw, mx_data db} \<Longrightarrow> h7 q = h q"
    "\<And>m. mx_data m \<noteq> p0 \<Longrightarrow> mx_data m \<noteq> p1 \<Longrightarrow> mx_ok h m \<Longrightarrow> mx_ok h7 m"
    "shaped h7 dz batch outp"
    "\<And>i j. i < unat batch \<Longrightarrow> j < unat outp \<Longrightarrow> mx_at h7 dz i j = delta g (mx_at h zc) (mx_at h dout) i j"
    "\<And>k j. k < unat inp \<Longrightarrow> j < unat outp \<Longrightarrow> mx_at h7 dw k j
       = dot_entry (\<lambda>k i. mx_at h xc i k) (delta g (mx_at h zc) (mx_at h dout)) (unat batch) k j"
    "\<And>j. j < unat outp \<Longrightarrow> mx_at h7 db 0 j = col_sum (delta g (mx_at h zc) (mx_at h dout)) (unat batch) j"
proof -
  let ?D = "delta g (mx_at h zc) (mx_at h dout)"
  have ne: "mx_data dw \<noteq> p0" "mx_data dw \<noteq> p1" "mx_data db \<noteq> p0" "mx_data xc \<noteq> p0" "mx_data xc \<noteq> p1" "p1 \<noteq> mx_data xc"
    "mx_data db \<noteq> mx_data dw" "p0 \<noteq> p1"
    using assms(6) by auto
  have nz: "batch \<noteq> 0" "inp \<noteq> 0" "outp \<noteq> 0" "unat batch * unat outp < 2 ^ 62" "unat inp * unat batch < 2 ^ 62" "p0 \<noteq> 0" "p1 \<noteq> 0"
    using assms(1,2,6) by (auto simp: shaped_def mx_ok_def mult.commute)
  obtain h1 dz where h1: "init_field p0 h null_matx batch outp = (ERR_OK, h1, dz)" "mx_data dz = p0" "shaped h1 dz batch outp"
    "\<And>q. q \<noteq> p0 \<Longrightarrow> h1 q = h q"
    using init_field_eq(1) [OF nz(6,1,3,4), of h null_matx] init_field_eq(2) [OF nz(6,1,3,4), of h] by auto
  have ok1: "shaped h1 m r c" if "shaped h m r c" "mx_data m \<noteq> p0" for m r c using that h1(4) shaped_cong [of h1 m h] by blast
  have a1: "shaped h1 xc batch inp" "shaped h1 zc batch outp" "shaped h1 dout batch outp" "shaped h1 dw inp outp" "shaped h1 db 1 outp"
    using assms by (auto intro: ok1)
  have w2: "writes h1 dz True (\<lambda>r c. g (mx_at h1 zc r c)) (matx_map h1 (Some zc) (Some g) (Some dz))"
    using matx_map_writes [of h1 zc dz g] a1(2) h1(3) by (simp add: shaped_def same_shape_def)
  obtain h2 where h2: "matx_map h1 (Some zc) (Some g) (Some dz) = Some (ERR_OK, h2)" "\<And>m. mx_ok h1 m \<Longrightarrow> mx_ok h2 m" "\<And>q. q \<noteq> p0 \<Longrightarrow> h2 q = h1 q"
    "\<And>r c. r < unat batch \<Longrightarrow> c < unat outp \<Longrightarrow> mx_at h2 dz r c = g (mx_at h1 zc r c)"
    by (rule writes_OK [OF w2]) (use h1(2,3) in \<open>auto simp: shaped_def\<close>)
  have w3: "writes h2 dz True (\<lambda>r c. mx_at h2 dz r c * mx_at h2 dout r c) (matx_hadamard h2 (Some dz) (Some dout) (Some dz))"
    using matx_hadamard_writes [of h2 dz dout dz] h2(2) a1(3) h1(3) by (simp add: shaped_def same_shape_def)
  obtain h3 where h3: "matx_hadamard h2 (Some dz) (Some dout) (Some dz) = Some (ERR_OK, h3)" "\<And>m. mx_ok h2 m \<Longrightarrow> mx_ok h3 m" "\<And>q. q \<noteq> p0 \<Longrightarrow> h3 q = h2 q"
    "\<And>r c. r < unat batch \<Longrightarrow> c < unat outp \<Longrightarrow> mx_at h3 dz r c = mx_at h2 dz r c * mx_at h2 dout r c"
    by (rule writes_OK [OF w3]) (use h1(2,3) in \<open>auto simp: shaped_def\<close>)
  obtain h4 xt where h4: "init_field p1 h3 null_matx inp batch = (ERR_OK, h4, xt)" "mx_data xt = p1" "shaped h4 xt inp batch" "\<And>q. q \<noteq> p1 \<Longrightarrow> h4 q = h3 q"
    using init_field_eq(1) [OF nz(7,2,1,5), of h3 null_matx] init_field_eq(2) [OF nz(7,2,1,5), of h3] by auto
  have ok4: "shaped h4 m r c" if "shaped h1 m r c" "mx_data m \<noteq> p1" for m r c
    using that h2(2) h3(2) h4(4) shaped_cong [of h4 m h3] by (auto intro: shaped_OK)
  have a4: "shaped h4 xc batch inp" "shaped h4 dz batch outp" "shaped h4 dw inp outp" "shaped h4 db 1 outp"
    using a1 h1(2,3) assms(6) by (auto intro: ok4)
  have w5: "writes h4 xt True (\<lambda>r c. mx_at h4 xc c r) (matx_transpose h4 (Some xc) (Some xt))"
    using transpose_writes [of h4 xc xt] a4(1) h4(2,3) ne by (simp add: shaped_def)
  obtain h5 where h5: "matx_transpose h4 (Some xc) (Some xt) = Some (ERR_OK, h5)" "\<And>m. mx_ok h4 m \<Longrightarrow> mx_ok h5 m" "\<And>q. q \<noteq> p1 \<Longrightarrow> h5 q = h4 q"
    "\<And>r c. r < unat inp \<Longrightarrow> c < unat batch \<Longrightarrow> mx_at h5 xt r c = mx_at h4 xc c r"
    by (rule writes_OK [OF w5]) (use h4(2,3) in \<open>auto simp: shaped_def\<close>)
  have w6: "writes h5 dw True (dot_entry (mx_at h5 xt) (mx_at h5 dz) (unat batch)) (matx_mul h5 (Some xt) (Some dz) (Some dw))"
    using mul_writes [of h5 xt dz dw] h5(2) a4 h4(2,3) h1(2) ne by (simp add: shaped_def)
  obtain h6 where h6: "matx_mul h5 (Some xt) (Some dz) (Some dw) = Some (ERR_OK, h6)" "\<And>m. mx_ok h5 m \<Longrightarrow> mx_ok h6 m" "\<And>q. q \<noteq> mx_data dw \<Longrightarrow> h6 q = h5 q"
    "\<And>r c. r < unat inp \<Longrightarrow> c < unat outp \<Longrightarrow> mx_at h6 dw r c = dot_entry (mx_at h5 xt) (mx_at h5 dz) (unat batch) r c"
    by (rule writes_OK [OF w6]) (use assms(4) in \<open>auto simp: shaped_def\<close>)
  have w7: "writes h6 db True (\<lambda>_. col_sum (mx_at h6 dz) (unat batch)) (matx_col_sums h6 (Some dz) (Some db))"
    using col_sums_writes [of h6 dz db] h5(2) h6(2) a4 h1(2) ne by (simp add: shaped_def)
  obtain h7 where h7: "matx_col_sums h6 (Some dz) (Some db) = Some (ERR_OK, h7)" "\<And>m. mx_ok h6 m \<Longrightarrow> mx_ok h7 m" "\<And>q. q \<noteq> mx_data db \<Longrightarrow> h7 q = h6 q"
    "\<And>r c. r < 1 \<Longrightarrow> c < unat outp \<Longrightarrow> mx_at h7 db r c = col_sum (mx_at h6 dz) (unat batch) c"
    by (rule writes_OK [OF w7]) (use assms(5) in \<open>auto simp: shaped_def\<close>)
  have keep: "h7 q = h q" if "q \<notin> {p0, p1, mx_data dw, mx_data db}" for q
    using that h7(3) h6(3) h5(3) h4(4) h3(3) h2(3) h1(4) by simp
  have dz3: "mx_at h3 dz i j = ?D i j" if "i < unat batch" "j < unat outp" for i j
  proof -
    have "h1 (mx_data zc) = h (mx_data zc)" "h2 (mx_data dout) = h (mx_data dout)" using h1(4) h2(3) assms(6,7) by auto
    then show ?thesis using h3(4) [OF that] h2(4) [OF that] by (simp add: delta_def mx_at_def)
  qed
  have same: "h5 p0 = h3 p0" "h6 p0 = h3 p0" "h7 p0 = h3 p0" using h7(3) h6(3) h5(3) h4(4) assms(6) by auto
  have dz5: "mx_at h5 dz i j = ?D i j" "mx_at h6 dz i j = ?D i j" "mx_at h7 dz i j = ?D i j" if "i < unat batch" "j < unat outp" for i j
    using dz3 [OF that] same h1(2) by (simp_all add: mx_at_def)
  have xt5: "mx_at h5 xt k i = mx_at h xc i k" if "k < unat inp" "i < unat batch" for k i
  proof -
    have "h4 (mx_data xc) = h (mx_data xc)" using h4(4) h3(3) h2(3) h1(4) assms(6) by auto
    then show ?thesis using h5(4) [OF that] by (simp add: mx_at_def)
  qed
  show thesis
  proof (rule that [OF h1(1,2) h2(1) h3(1) h4(1,2) h5(1) h6(1) h7(1) keep])
    show "shaped h7 dz batch outp" using a4(2) h5(2) h6(2) h7(2) by (auto intro: shaped_OK)
    show "mx_at h7 dz i j = ?D i j" if "i < unat batch" "j < unat outp" for i j by (rule dz5(3) [OF that])
    show "mx_ok h7 m" if m: "mx_data m \<noteq> p0" "mx_data m \<noteq> p1" "mx_ok h m" for m
    proof -
      have "mx_ok h1 m" using m(3) mx_ok_cong [of h1 m h] h1(4) [OF m(1)] by blast
      then have "mx_ok h3 m" using h2(2) h3(2) by blast
      then have "mx_ok h4 m" using mx_ok_cong [of h4 m h3] h4(4) [OF m(2)] by blast
      then show ?thesis using h5(2) h6(2) h7(2) by blast
    qed
    show "mx_at h7 dw k j = dot_entry (\<lambda>k i. mx_at h xc i k) ?D (unat batch) k j" if "k < unat inp" "j < unat outp" for k j
    proof -
      have "mx_at h7 dw k j = dot_entry (mx_at h5 xt) (mx_at h5 dz) (unat batch) k j"
        using h6(4) [OF that] h7(3) [of "mx_data dw"] assms(6) by (simp add: mx_at_def)
      also have "\<dots> = dot_entry (\<lambda>k i. mx_at h xc i k) ?D (unat batch) k j"
        by (rule dot_entry_cong) (use xt5 dz5 that in auto)
      finally show ?thesis .
    qed
    show "mx_at h7 db 0 j = col_sum ?D (unat batch) j" if "j < unat outp" for j
    proof -
      have "mx_at h7 db 0 j = col_sum (mx_at h6 dz) (unat batch) j" using h7(4) [of 0 j] that by simp
      also have "\<dots> = col_sum ?D (unat batch) j"
        unfolding col_sum_def by (rule fold_cong) (use dz5 that in auto)
      finally show ?thesis .
    qed
  qed
qed

text \<open>The second half: the gradient at the input.\<close>

lemma backward_input:
  fixes h :: "'a::{zero,one,plus,minus,uminus,times,inverse,ord} mem"
  assumes "shaped h dz batch outp" and "shaped h w inp outp" and "shaped h dx batch inp"
    and "distinct [p2, 0, mx_data dz, mx_data w, mx_data dx]"
  obtains h1 wt h2 h3 where
    "init_field p2 h null_matx outp inp = (ERR_OK, h1, wt)" "mx_data wt = p2"
    "matx_transpose h1 (Some w) (Some wt) = Some (ERR_OK, h2)"
    "matx_mul h2 (Some dz) (Some wt) (Some dx) = Some (ERR_OK, h3)"
    "\<And>q. q \<notin> {p2, mx_data dx} \<Longrightarrow> h3 q = h q" "shaped h3 dx batch inp"
    "\<And>i k. i < unat batch \<Longrightarrow> k < unat inp \<Longrightarrow> mx_at h3 dx i k = dot_entry (mx_at h dz) (\<lambda>j k. mx_at h w k j) (unat outp) i k"
proof -
  have ne: "mx_data w \<noteq> p2" "p2 \<noteq> mx_data w" "mx_data dx \<noteq> mx_data dz" "mx_data dx \<noteq> p2" "mx_data dz \<noteq> p2" using assms(4) by auto
  have nz: "p2 \<noteq> 0" "outp \<noteq> 0" "inp \<noteq> 0" "unat outp * unat inp < 2 ^ 62"
    using assms(2,4) by (auto simp: shaped_def mx_ok_def mult.commute)
  obtain h1 wt where h1: "init_field p2 h null_matx outp inp = (ERR_OK, h1, wt)" "mx_data wt = p2" "shaped h1 wt outp inp" "\<And>q. q \<noteq> p2 \<Longrightarrow> h1 q = h q"
    using init_field_eq(1) [OF nz, of h null_matx] init_field_eq(2) [OF nz, of h] by auto
  have ok1: "shaped h1 m r c" if "shaped h m r c" "mx_data m \<noteq> p2" for m r c using that h1(4) shaped_cong [of h1 m h] by blast
  have a1: "shaped h1 w inp outp" "shaped h1 dz batch outp" "shaped h1 dx batch inp" using assms ne by (auto intro: ok1)
  have w2: "writes h1 wt True (\<lambda>r c. mx_at h1 w c r) (matx_transpose h1 (Some w) (Some wt))"
    using transpose_writes [of h1 w wt] a1(1) h1(2,3) ne by (simp add: shaped_def)
  obtain h2 where h2: "matx_transpose h1 (Some w) (Some wt) = Some (ERR_OK, h2)" "\<And>m. mx_ok h1 m \<Longrightarrow> mx_ok h2 m" "\<And>q. q \<noteq> p2 \<Longrightarrow> h2 q = h1 q"
    "\<And>r c. r < unat outp \<Longrightarrow> c < unat inp \<Longrightarrow> mx_at h2 wt r c = mx_at h1 w c r"
    by (rule writes_OK [OF w2]) (use h1(2,3) in \<open>auto simp: shaped_def\<close>)
  have w3: "writes h2 dx True (dot_entry (mx_at h2 dz) (mx_at h2 wt) (unat outp)) (matx_mul h2 (Some dz) (Some wt) (Some dx))"
    using mul_writes [of h2 dz wt dx] h2(2) a1 h1(2,3) ne by (simp add: shaped_def)
  obtain h3 where h3: "matx_mul h2 (Some dz) (Some wt) (Some dx) = Some (ERR_OK, h3)" "\<And>m. mx_ok h2 m \<Longrightarrow> mx_ok h3 m" "\<And>q. q \<noteq> mx_data dx \<Longrightarrow> h3 q = h2 q"
    "\<And>r c. r < unat batch \<Longrightarrow> c < unat inp \<Longrightarrow> mx_at h3 dx r c = dot_entry (mx_at h2 dz) (mx_at h2 wt) (unat outp) r c"
    by (rule writes_OK [OF w3]) (use assms(3) in \<open>auto simp: shaped_def\<close>)
  have e: "mx_at h2 dz i j = mx_at h dz i j" "mx_at h1 w k j = mx_at h w k j" for i j k
    using h2(3) h1(4) ne by (simp_all add: mx_at_def)
  show thesis
  proof (rule that [OF h1(1,2) h2(1) h3(1)])
    show "h3 q = h q" if "q \<notin> {p2, mx_data dx}" for q using that h3(3) h2(3) h1(4) by simp
    show "shaped h3 dx batch inp" using a1(3) h2(2) h3(2) by (auto intro: shaped_OK)
    show "mx_at h3 dx i k = dot_entry (mx_at h dz) (\<lambda>j k. mx_at h w k j) (unat outp) i k" if "i < unat batch" "k < unat inp" for i k
      unfolding h3(4) [OF that] by (rule dot_entry_cong) (use h2(4) that in \<open>simp_all add: e\<close>)
  qed
qed

lemma dense_backward_spec:
  fixes h :: "'a::{zero,one,plus,minus,uminus,times,inverse,ord} mem" and m :: "'a fmath"
  assumes "layer_inv h l" and "shaped h (dl_x_cache l) batch (dl_in_dim l)" and "shaped h (dl_z_cache l) batch (dl_out_dim l)"
    and "shaped h dout batch (dl_out_dim l)" and "mx_data dout \<notin> set (layer_blocks l)"
    and "distinct [ps 0, ps 1, ps 2, 0, mx_data dout]" and "{ps 0, ps 1, ps 2} \<inter> set (layer_blocks l) = {}"
    and "\<forall>dx. dxp = Some dx \<longrightarrow> shaped h dx batch (dl_in_dim l) \<and> mx_data dx \<notin> set (layer_blocks l) \<union> {ps 0, ps 1, ps 2, mx_data dout}"
  defines "D \<equiv> delta (act_grad_fn (dl_act l) m) (mx_at h (dl_z_cache l)) (mx_at h dout)"
  shows "\<exists>h'. dense_backward m ps h (Some l) (Some dout) dxp = Some (ERR_OK, h') \<and> layer_inv h' l
     \<and> (\<forall>q \<in> {mx_data (dl_w l), mx_data (dl_b l), mx_data (dl_x_cache l), mx_data (dl_z_cache l), mx_data dout}. h' q = h q)
     \<and> (\<forall>k j. k < unat (dl_in_dim l) \<longrightarrow> j < unat (dl_out_dim l) \<longrightarrow>
          mx_at h' (dl_dw l) k j = dot_entry (\<lambda>k i. mx_at h (dl_x_cache l) i k) D (unat batch) k j)
     \<and> (\<forall>j. j < unat (dl_out_dim l) \<longrightarrow> mx_at h' (dl_db l) 0 j = col_sum D (unat batch) j)
     \<and> (\<forall>dx. dxp = Some dx \<longrightarrow> (\<forall>i k. i < unat batch \<longrightarrow> k < unat (dl_in_dim l) \<longrightarrow>
          mx_at h' dx i k = dot_entry D (\<lambda>j k. mx_at h (dl_w l) k j) (unat (dl_out_dim l)) i k))"
proof -
  let ?w = "dl_w l" and ?b = "dl_b l" and ?dw = "dl_dw l" and ?db = "dl_db l" and ?xc = "dl_x_cache l" and ?zc = "dl_z_cache l"
  let ?g = "act_grad_fn (dl_act l) m" and ?in = "dl_in_dim l" and ?out = "dl_out_dim l"
  note inv = assms(1) [unfolded layer_inv_def]
  have blocks: "mx_data ?w \<noteq> 0" "mx_data ?b \<noteq> 0" "mx_data ?dw \<noteq> 0" "mx_data ?db \<noteq> 0" "mx_data ?xc \<noteq> 0" "mx_data ?zc \<noteq> 0"
    using inv assms(2,3) by (auto simp: shaped_def mx_ok_def)
  then have dist: "distinct [mx_data ?w, mx_data ?b, mx_data ?dw, mx_data ?db, mx_data ?xc, mx_data ?zc]"
    using inv by (simp add: layer_blocks_def)
  have fr: "distinct [ps 0, ps 1, 0, mx_data ?xc, mx_data ?zc, mx_data ?dw, mx_data ?db]"
    using assms(6,7) dist blocks by (auto simp: layer_blocks_def)
  have do: "mx_data dout \<notin> {ps 0, ps 1, mx_data ?dw, mx_data ?db}" using assms(5,6) by (auto simp: layer_blocks_def)
  obtain h1 dz h2 h3 h4 xt h5 h6 h7 where b:
    "init_field (ps 0) h null_matx batch ?out = (ERR_OK, h1, dz)" "mx_data dz = ps 0"
    "matx_map h1 (Some ?zc) (Some ?g) (Some dz) = Some (ERR_OK, h2)"
    "matx_hadamard h2 (Some dz) (Some dout) (Some dz) = Some (ERR_OK, h3)"
    "init_field (ps 1) h3 null_matx ?in batch = (ERR_OK, h4, xt)" "mx_data xt = ps 1"
    "matx_transpose h4 (Some ?xc) (Some xt) = Some (ERR_OK, h5)"
    "matx_mul h5 (Some xt) (Some dz) (Some ?dw) = Some (ERR_OK, h6)"
    "matx_col_sums h6 (Some dz) (Some ?db) = Some (ERR_OK, h7)"
    "\<And>q. q \<notin> {ps 0, ps 1, mx_data ?dw, mx_data ?db} \<Longrightarrow> h7 q = h q"
    "\<And>m. mx_data m \<noteq> ps 0 \<Longrightarrow> mx_data m \<noteq> ps 1 \<Longrightarrow> mx_ok h m \<Longrightarrow> mx_ok h7 m"
    "shaped h7 dz batch ?out"
    "\<And>i j. i < unat batch \<Longrightarrow> j < unat ?out \<Longrightarrow> mx_at h7 dz i j = D i j"
    "\<And>k j. k < unat ?in \<Longrightarrow> j < unat ?out \<Longrightarrow> mx_at h7 ?dw k j = dot_entry (\<lambda>k i. mx_at h ?xc i k) D (unat batch) k j"
    "\<And>j. j < unat ?out \<Longrightarrow> mx_at h7 ?db 0 j = col_sum D (unat batch) j"
    using backward_gradients [OF assms(2,3,4) _ _ fr do, of ?g] inv unfolding D_def by blast
  define run where "run = (\<lambda>(err, h, dz, xt, wt).
     let (h, _) = destroy_field h dz; (h, _) = destroy_field h xt; (h, _) = destroy_field h wt in Some (err :: error_code, h :: 'a mem))"
  have freed: "\<exists>h'. run (ERR_OK, hh, dz, xt, wt) = Some (ERR_OK, h') \<and> (\<forall>q. q \<notin> {ps 0, ps 1, mx_data wt} \<longrightarrow> h' q = hh q)" for hh wt
  proof -
    have "run (ERR_OK, hh, dz, xt, wt) =
        Some (ERR_OK, fst (destroy_field (fst (destroy_field (fst (destroy_field hh dz)) xt)) wt))"
      by (simp add: run_def split_beta)
    then show ?thesis using b(2,6) by (auto simp: destroy_field_keeps)
  qed
  have hd: "has_data (Some dout)" using assms(4) by (simp add: shaped_def has_data_def mx_ok_def)
  have chain: "dense_backward m ps h (Some l) (Some dout) dxp =
      (case dxp of None \<Rightarrow> run (ERR_OK, h7, dz, xt, null_matx)
       | Some dx \<Rightarrow> do { t \<leftarrow> and_then (case init_field (ps 2) h7 null_matx ?out ?in of (err, h, wt) \<Rightarrow> Some (err, h, dz, xt, wt)) (\<lambda>(h, dz, xt, wt).
                   and_then (on_mem (h, dz, xt, wt) (matx_transpose h (Some ?w) (Some wt))) (\<lambda>(h, dz, xt, wt).
                   on_mem (h, dz, xt, wt) (matx_mul h (Some dz) (Some wt) dxp))); run t })"
    using hd blocks assms(2,3,4,8) b(1,3,4,5,7,8,9)
    by (cases dxp) (simp_all add: dense_backward_def shaped_def Let_def run_def)
  have "\<exists>h'. dense_backward m ps h (Some l) (Some dout) dxp = Some (ERR_OK, h')
      \<and> (\<forall>q \<in> set (layer_blocks l) \<union> {mx_data dout}. h' q = h7 q)
      \<and> (\<forall>dx. dxp = Some dx \<longrightarrow> (\<forall>i k. i < unat batch \<longrightarrow> k < unat ?in \<longrightarrow>
          mx_at h' dx i k = dot_entry D (\<lambda>j k. mx_at h ?w k j) (unat ?out) i k))"
  proof (cases dxp)
    case None
    obtain h' where "run (ERR_OK, h7, dz, xt, null_matx) = Some (ERR_OK, h')" "\<forall>q. q \<notin> {ps 0, ps 1, mx_data null_matx} \<longrightarrow> h' q = h7 q"
      using freed by blast
    moreover have "\<forall>q \<in> set (layer_blocks l) \<union> {mx_data dout}. q \<notin> {ps 0, ps 1, mx_data null_matx}"
      using assms(6,7) blocks by (auto simp: null_matx_def layer_blocks_def)
    ultimately show ?thesis using None chain by auto
  next
    case (Some dx)
    note dx = assms(8) [rule_format, OF Some]
    have dxn: "mx_data dx \<notin> {ps 0, ps 1, ps 2, mx_data ?dw, mx_data ?db, mx_data ?w}" using dx by (auto simp: layer_blocks_def)
    have sw: "shaped h7 ?w ?in ?out" "shaped h7 dx batch ?in"
      using inv dx dxn b(11) assms(7) by (auto simp: shaped_def layer_blocks_def)
    have di: "distinct [ps 2, 0, mx_data dz, mx_data ?w, mx_data dx]"
      using b(2) dxn assms(6,7) blocks dx by (auto simp: layer_blocks_def shaped_def mx_ok_def)
    obtain h8 wt h9 h10 where c: "init_field (ps 2) h7 null_matx ?out ?in = (ERR_OK, h8, wt)" "mx_data wt = ps 2"
      "matx_transpose h8 (Some ?w) (Some wt) = Some (ERR_OK, h9)"
      "matx_mul h9 (Some dz) (Some wt) (Some dx) = Some (ERR_OK, h10)"
      "\<And>q. q \<notin> {ps 2, mx_data dx} \<Longrightarrow> h10 q = h7 q" "shaped h10 dx batch ?in"
      "\<And>i k. i < unat batch \<Longrightarrow> k < unat ?in \<Longrightarrow> mx_at h10 dx i k = dot_entry (mx_at h7 dz) (\<lambda>j k. mx_at h7 ?w k j) (unat ?out) i k"
      by (rule backward_input [OF b(12) sw di]) blast
    obtain h' where h': "run (ERR_OK, h10, dz, xt, wt) = Some (ERR_OK, h')" "\<forall>q. q \<notin> {ps 0, ps 1, ps 2} \<longrightarrow> h' q = h10 q"
      using freed [of h10 wt] c(2) by auto
    have "dense_backward m ps h (Some l) (Some dout) dxp = Some (ERR_OK, h')"
      using Some chain c(1,3,4) h'(1) by simp
    moreover have "h' q = h7 q" if "q \<in> set (layer_blocks l) \<union> {mx_data dout}" for q
    proof -
      have "q \<notin> {ps 0, ps 1, ps 2, mx_data dx}" using that assms(6,7) dx by auto
      then show ?thesis using h'(2) c(5) by simp
    qed
    moreover have "mx_at h' dx i k = dot_entry D (\<lambda>j k. mx_at h ?w k j) (unat ?out) i k" if "i < unat batch" "k < unat ?in" for i k
    proof -
      have "mx_at h' dx i k = mx_at h10 dx i k" using h'(2) dxn by (simp add: mx_at_def)
      moreover have "mx_at h7 ?w k j = mx_at h ?w k j" for j k
        using b(10) [of "mx_data ?w"] assms(7) dist by (simp add: mx_at_def layer_blocks_def)
      ultimately show ?thesis unfolding c(7) [OF that] using b(13) that by (auto intro!: dot_entry_cong)
    qed
    ultimately show ?thesis using Some by auto
  qed
  then obtain h' where h': "dense_backward m ps h (Some l) (Some dout) dxp = Some (ERR_OK, h')"
    "\<And>q. q \<in> set (layer_blocks l) \<union> {mx_data dout} \<Longrightarrow> h' q = h7 q"
    "\<forall>dx. dxp = Some dx \<longrightarrow> (\<forall>i k. i < unat batch \<longrightarrow> k < unat ?in \<longrightarrow>
          mx_at h' dx i k = dot_entry D (\<lambda>j k. mx_at h ?w k j) (unat ?out) i k)" by blast
  have ok: "mx_ok h' m" if "mx_data m \<in> set (layer_blocks l)" "mx_ok h m" for m
  proof -
    have "mx_ok h7 m" using that assms(7) by (intro b(11)) auto
    then show ?thesis using h'(2) that(1) mx_ok_cong [of h' m h7] by simp
  qed
  have "layer_inv h' l" using inv ok by (simp add: layer_inv_def shaped_def) (simp add: layer_blocks_def)
  moreover have "h' q = h q" if "q \<in> {mx_data ?w, mx_data ?b, mx_data ?xc, mx_data ?zc, mx_data dout}" for q
  proof -
    have "q \<notin> {ps 0, ps 1, mx_data ?dw, mx_data ?db}" using that assms(7) dist do by (auto simp: layer_blocks_def)
    moreover have "q \<in> set (layer_blocks l) \<union> {mx_data dout}" using that by (auto simp: layer_blocks_def)
    ultimately show ?thesis using h'(2) b(10) by simp
  qed
  moreover have "mx_at h' ?dw k j = mx_at h7 ?dw k j" "mx_at h' ?db k j = mx_at h7 ?db k j" for k j
    using h'(2) by (simp_all add: mx_at_def layer_blocks_def)
  ultimately show ?thesis using h'(1,3) b(14,15) by (intro exI [of _ h']) simp
qed

end
