(* ===== verification/NnTrain.thy ===== *)
theory NnTrain
  imports NnLayer
begin

text \<open>
  The life of a dense layer: allocation establishes the invariant of theory NnLayer and a failed one
  frees everything, and the optimiser steps keep it while moving the parameters against the gradient.
\<close>

section \<open>Allocation\<close>

lemma dense_alloc_ok:
  fixes h :: "'a::zero mem"
  assumes "distinct [ps 0, ps 1, ps 2, ps 3, 0]" and "dl_in_dim l \<noteq> 0" and "dl_out_dim l \<noteq> 0"
    and "unat (dl_in_dim l) * unat (dl_out_dim l) < 2 ^ 62" and "dl_x_cache l = null_matx" and "dl_z_cache l = null_matx"
  obtains h' l' where "dense_alloc ps h l = (ERR_OK, h', l')" "layer_inv h' l'"
    "\<And>q. q \<notin> {ps 0, ps 1, ps 2, ps 3} \<Longrightarrow> h' q = h q" "map mx_data [dl_w l', dl_b l', dl_dw l', dl_db l'] = map ps [0, 1, 2, 3]"
    "dl_in_dim l' = dl_in_dim l" "dl_out_dim l' = dl_out_dim l" "dl_act l' = dl_act l"
proof -
  let ?i = "dl_in_dim l" and ?o = "dl_out_dim l"
  have nz: "ps 0 \<noteq> 0" "ps 1 \<noteq> 0" "ps 2 \<noteq> 0" "ps 3 \<noteq> 0" using assms(1) by auto
  have "1 \<le> unat ?i" using assms(2) by (simp add: unat_gt_0 Suc_le_eq)
  from mult_le_mono1 [OF this, of "unat ?o"] have o: "unat (1 :: size_t) * unat ?o < 2 ^ 62"
    using assms(4) by (simp only: unat_1)
  define w where "w = \<lparr>mx_data = ps 0, mx_rows = ?i, mx_cols = ?o, mx_owns = 1\<rparr>"
  define b where "b = \<lparr>mx_data = ps 1, mx_rows = 1, mx_cols = ?o, mx_owns = 1\<rparr>"
  define dw where "dw = \<lparr>mx_data = ps 2, mx_rows = ?i, mx_cols = ?o, mx_owns = 1\<rparr>"
  define db where "db = \<lparr>mx_data = ps 3, mx_rows = 1, mx_cols = ?o, mx_owns = 1\<rparr>"
  define z where "z = (\<lambda>n. replicate n (0 :: 'a))"
  let ?n = "unat ?i * unat ?o" and ?k = "unat (1 :: size_t) * unat ?o"
  have i: "init_field (ps 0) h m ?i ?o = (ERR_OK, h(ps 0 := z ?n), w)" "init_field (ps 1) h m 1 ?o = (ERR_OK, h(ps 1 := z ?k), b)"
    "init_field (ps 2) h m ?i ?o = (ERR_OK, h(ps 2 := z ?n), dw)" "init_field (ps 3) h m 1 ?o = (ERR_OK, h(ps 3 := z ?k), db)" for h m
    using init_field_eq(1) [OF nz(1) assms(2,3,4)] init_field_eq(1) [OF nz(2) _ assms(3) o] init_field_eq(1) [OF nz(3) assms(2,3,4)]
      init_field_eq(1) [OF nz(4) _ assms(3) o] by (simp_all add: w_def b_def dw_def db_def z_def)
  let ?h = "h(ps 0 := z ?n, ps 1 := z ?k, ps 2 := z ?n, ps 3 := z ?k)" and ?l = "l\<lparr>dl_w := w, dl_b := b, dl_dw := dw, dl_db := db\<rparr>"
  have "dense_alloc ps h l = (ERR_OK, ?h, ?l)" by (simp add: dense_alloc_def i Let_def del: One_nat_def)
  moreover have "shaped ?h w ?i ?o" "shaped ?h b 1 ?o" "shaped ?h dw ?i ?o" "shaped ?h db 1 ?o"
    using assms(1-4) o by (auto simp: shaped_def mx_ok_def w_def b_def dw_def db_def z_def)
  then have "layer_inv ?h ?l"
    using assms(1,5,6) by (simp add: layer_inv_def layer_blocks_def null_matx_def w_def b_def dw_def db_def)
  ultimately show thesis by (intro that [of ?h ?l]) (auto simp: w_def b_def dw_def db_def)
qed

text \<open>When an allocation fails, destroying what there is puts the memory back as it was.\<close>

lemma init_field_null:
  obtains z m where "init_field p h null_matx rows cols = (ERR_OK, h(p := z), m)" "mx_data m = p" "mx_owns m = 1" "p \<noteq> 0"
  | err where "init_field p h null_matx rows cols = (err, h, null_matx)" "err \<noteq> ERR_OK"
proof -
  obtain e n where c: "checked_count rows cols = (e, n)" by fastforce
  show thesis
  proof (cases "e = ERR_OK \<and> p \<noteq> 0")
    case True
    then show thesis
      using c by (intro that(1) [of "replicate (unat n) 0" "\<lparr>mx_data = p, mx_rows = rows, mx_cols = cols, mx_owns = 1\<rparr>"])
        (auto simp: init_field_def matx_init_def)
  next
    case False
    then show thesis
      using c by (intro that(2) [of "if e = ERR_OK then ERR_NOMEM else e"])
        (cases e; auto simp: init_field_def matx_init_def null_matx_def)+
  qed
qed

lemma destroy_field_simps [simp]:
  "destroy_field h null_matx = (h, null_matx)"
  "mx_owns m = 1 \<Longrightarrow> destroy_field h m = (h(mx_data m := []), null_matx)"
  by (simp_all add: destroy_field_def matx_destroy_def null_matx_def)

theorem dense_alloc_failure:
  fixes h :: "'a::zero mem"
  assumes "dense_alloc ps h l = (err, h', l')" and "err \<noteq> ERR_OK" and "\<forall>i \<in> {0, 1, 2, 3}. h (ps i) = []"
    and "\<forall>m \<in> {dl_w l, dl_b l, dl_dw l, dl_db l, dl_x_cache l, dl_z_cache l}. m = null_matx"
  shows "dense_destroy h' (Some l') = (h, Some l)"
proof -
  have null: "dl_w l = null_matx" "dl_b l = null_matx" "dl_dw l = null_matx" "dl_db l = null_matx" "dl_x_cache l = null_matx" "dl_z_cache l = null_matx"
    using assms(4) by auto
  have free: "h (ps 0) = []" "h (ps 1) = []" "h (ps 2) = []" "h (ps 3) = []" using assms(3) by auto
  have undo: "(h(a := x))(a := []) = h" "(h(a := x, b := y))(a := [], b := []) = h" "(h(a := x, b := y, c := z))(a := [], b := [], c := []) = h"
    if "h a = []" "h b = []" "h c = []" for a b c x y z
    using that by (auto simp: fun_eq_iff)
  have same: "l\<lparr>dl_w := null_matx, dl_b := null_matx, dl_dw := null_matx, dl_db := null_matx, dl_x_cache := null_matx, dl_z_cache := null_matx\<rparr> = l"
    using null by (cases l) simp
  note all = dense_alloc_def null Let_def
  show ?thesis
  proof (cases rule: init_field_null [of "ps 0" h "dl_in_dim l" "dl_out_dim l"])
    case (2 e)
    then have "(err, h', l') = (e, h, l)" using assms(1) null same by (cases l) (simp add: all)
    then show ?thesis using null same by (simp add: dense_destroy_def)
  next
    case w: (1 z0 m0)
    show ?thesis
    proof (cases rule: init_field_null [of "ps 1" "h(ps 0 := z0)" 1 "dl_out_dim l"])
      case (2 e)
      then have "(err, h', l') = (e, h(ps 0 := z0), l\<lparr>dl_w := m0, dl_b := null_matx\<rparr>)" using assms(1) w by (simp add: all)
      then show ?thesis using w null same undo(1) [OF free(1,1,1)] by (simp add: dense_destroy_def)
    next
      case b: (1 z1 m1)
      show ?thesis
      proof (cases rule: init_field_null [of "ps 2" "h(ps 0 := z0, ps 1 := z1)" "dl_in_dim l" "dl_out_dim l"])
        case (2 e)
        then have "(err, h', l') = (e, h(ps 0 := z0, ps 1 := z1), l\<lparr>dl_w := m0, dl_b := m1, dl_dw := null_matx\<rparr>)"
          using assms(1) w b by (simp add: all del: One_nat_def)
        then show ?thesis using w b null same undo(2) [OF free(1,2,2)] by (simp add: dense_destroy_def del: One_nat_def)
      next
        case dw: (1 z2 m2)
        show ?thesis
        proof (cases rule: init_field_null [of "ps 3" "h(ps 0 := z0, ps 1 := z1, ps 2 := z2)" 1 "dl_out_dim l"])
          case (2 e)
          then have "(err, h', l') = (e, h(ps 0 := z0, ps 1 := z1, ps 2 := z2), l\<lparr>dl_w := m0, dl_b := m1, dl_dw := m2, dl_db := null_matx\<rparr>)"
            using assms(1) w b dw by (simp add: all del: One_nat_def)
          then show ?thesis using w b dw null same undo(3) [OF free(1,2,3)] by (simp add: dense_destroy_def del: One_nat_def)
        next
          case (1 z3 m3)
          then have "err = ERR_OK" using assms(1) w b dw by (simp add: all del: One_nat_def)
          then show ?thesis using assms(2) by simp
        qed
      qed
    qed
  qed
qed

section \<open>Gradient descent\<close>

lemma sgd_loop_eq:
  assumes "length (h param) = n" and "length (h grad) = n" and "param \<noteq> grad"
  shows "sgd_loop lr param grad n h = Some (h(param := map (\<lambda>i. h param ! i - lr * h grad ! i) [0 ..< n]))"
proof -
  have "sgd_loop lr param grad n h = Some (h(param := map (\<lambda>i. h param ! i - lr * h grad ! i) [0 ..< n] @ drop n (h param)))"
    unfolding sgd_loop_def
  proof (rule for_each_write)
    fix m d assume m: "m < n" "length d = length (h param)" "drop m d = drop m (h param)"
    then have "d ! m = h param ! m" using assms(1) by (metis hd_drop_conv_nth)
    then show "do { v \<leftarrow> rd (h(param := d)) param m; g \<leftarrow> rd (h(param := d)) grad m; wr (h(param := d)) param m (v - lr * g) }
        = Some (h(param := d[m := h param ! m - lr * h grad ! m]))"
      using m assms by (simp add: rd_def wr_def)
  qed (use assms in simp)
  then show ?thesis using assms(1) by simp
qed

lemma layer_lengths:
  assumes "layer_inv h l"
  shows "length (h (mx_data (dl_w l))) = unat (mx_rows (dl_w l) * mx_cols (dl_w l))" "length (h (mx_data (dl_dw l))) = unat (mx_rows (dl_w l) * mx_cols (dl_w l))"
    "length (h (mx_data (dl_b l))) = unat (mx_cols (dl_b l))" "length (h (mx_data (dl_db l))) = unat (mx_cols (dl_b l))"
    "distinct [mx_data (dl_w l), mx_data (dl_b l), mx_data (dl_dw l), mx_data (dl_db l), 0]"
proof -
  note inv = assms [unfolded layer_inv_def shaped_def mx_ok_def]
  have "unat (mx_rows (dl_w l) * mx_cols (dl_w l)) = unat (mx_rows (dl_w l)) * unat (mx_cols (dl_w l))"
    using inv by (intro unat_mult_small) auto
  then show "length (h (mx_data (dl_w l))) = unat (mx_rows (dl_w l) * mx_cols (dl_w l))" "length (h (mx_data (dl_dw l))) = unat (mx_rows (dl_w l) * mx_cols (dl_w l))"
    using inv by simp_all
  show "length (h (mx_data (dl_b l))) = unat (mx_cols (dl_b l))" "length (h (mx_data (dl_db l))) = unat (mx_cols (dl_b l))"
    using inv by simp_all
  show "distinct [mx_data (dl_w l), mx_data (dl_b l), mx_data (dl_dw l), mx_data (dl_db l), 0]"
    using inv unfolding layer_blocks_def by (auto split: if_splits)
qed

lemma layer_inv_length: "layer_inv h l \<Longrightarrow> (\<And>q. length (h' q) = length (h q)) \<Longrightarrow> layer_inv h' l"
  by (simp add: layer_inv_def shaped_def mx_ok_len [of h' h])

lemma mx_at_map:
  assumes "mx_ok h m" and "r < unat (mx_rows m)" and "c < unat (mx_cols m)" and "h' (mx_data m) = map f [0 ..< length (h (mx_data m))]"
  shows "mx_at h' m r c = f (r * unat (mx_cols m) + c)"
  using assms(4) mx_index_eq [OF assms(1-3)] by (simp add: mx_at_def)

text \<open>A step of gradient descent, in any arithmetic.\<close>

theorem dense_sgd_step_spec:
  fixes h :: "'a::{zero,minus,times,linorder} mem"
  assumes "layer_inv h l"
  shows "(lr \<le> 0 \<longrightarrow> dense_sgd_step h (Some l) lr = Some (ERR_INVALID_ARG, h))
     \<and> (0 < lr \<longrightarrow> (\<exists>h'. dense_sgd_step h (Some l) lr = Some (ERR_OK, h') \<and> layer_inv h' l
          \<and> (\<forall>q. q \<notin> {mx_data (dl_w l), mx_data (dl_b l)} \<longrightarrow> h' q = h q)
          \<and> (\<forall>k j. k < unat (dl_in_dim l) \<longrightarrow> j < unat (dl_out_dim l) \<longrightarrow>
               mx_at h' (dl_w l) k j = mx_at h (dl_w l) k j - lr * mx_at h (dl_dw l) k j)
          \<and> (\<forall>j. j < unat (dl_out_dim l) \<longrightarrow> mx_at h' (dl_b l) 0 j = mx_at h (dl_b l) 0 j - lr * mx_at h (dl_db l) 0 j)))"
proof (intro conjI impI)
  show "lr \<le> 0 \<Longrightarrow> dense_sgd_step h (Some l) lr = Some (ERR_INVALID_ARG, h)" by (simp add: dense_sgd_step_def)
  assume lr: "0 < lr"
  note len = layer_lengths [OF assms] and inv = assms [unfolded layer_inv_def shaped_def]
  let ?w = "mx_data (dl_w l)" and ?b = "mx_data (dl_b l)" and ?dw = "mx_data (dl_dw l)" and ?db = "mx_data (dl_db l)"
  let ?n = "unat (mx_rows (dl_w l) * mx_cols (dl_w l))" and ?k = "unat (mx_cols (dl_b l))"
  let ?h1 = "h(?w := map (\<lambda>i. h ?w ! i - lr * h ?dw ! i) [0 ..< ?n])"
  let ?h2 = "?h1(?b := map (\<lambda>i. h ?b ! i - lr * h ?db ! i) [0 ..< ?k])"
  have ne: "?b \<noteq> ?w" "?db \<noteq> ?w" "?dw \<noteq> ?w" "?b \<noteq> ?db" "?w \<noteq> 0" "?dw \<noteq> 0" "?w \<noteq> ?b" using len(5) by auto
  have s1: "sgd_loop lr ?w ?dw ?n h = Some ?h1" by (rule sgd_loop_eq) (use len in auto)
  have "sgd_loop lr ?b ?db ?k ?h1 = Some (?h1(?b := map (\<lambda>i. ?h1 ?b ! i - lr * ?h1 ?db ! i) [0 ..< ?k]))"
    by (rule sgd_loop_eq) (use len in auto)
  then have s2: "sgd_loop lr ?b ?db ?k ?h1 = Some ?h2" unfolding fun_upd_other [OF ne(1)] fun_upd_other [OF ne(2)] .
  have run: "dense_sgd_step h (Some l) lr = Some (ERR_OK, ?h2)"
    using lr ne s1 s2 by (simp add: dense_sgd_step_def not_le)
  have inv2: "layer_inv ?h2 l" by (rule layer_inv_length [OF assms]) (use len in auto)
  have w: "mx_at ?h2 (dl_w l) k j = mx_at h (dl_w l) k j - lr * mx_at h (dl_dw l) k j"
    if "k < unat (dl_in_dim l)" "j < unat (dl_out_dim l)" for k j
  proof -
    have "mx_at ?h2 (dl_w l) k j = h ?w ! (k * unat (mx_cols (dl_w l)) + j) - lr * h ?dw ! (k * unat (mx_cols (dl_w l)) + j)"
      by (rule mx_at_map [of h]) (use inv that len in auto)
    then show ?thesis using inv by (simp add: mx_at_def)
  qed
  have b: "mx_at ?h2 (dl_b l) 0 j = mx_at h (dl_b l) 0 j - lr * mx_at h (dl_db l) 0 j" if "j < unat (dl_out_dim l)" for j
  proof -
    have "mx_at ?h2 (dl_b l) 0 j = h ?b ! (0 * unat (mx_cols (dl_b l)) + j) - lr * h ?db ! (0 * unat (mx_cols (dl_b l)) + j)"
      by (rule mx_at_map [of h]) (use inv that len in auto)
    then show ?thesis using inv by (simp add: mx_at_def)
  qed
  show "\<exists>h'. dense_sgd_step h (Some l) lr = Some (ERR_OK, h') \<and> layer_inv h' l
          \<and> (\<forall>q. q \<notin> {?w, ?b} \<longrightarrow> h' q = h q)
          \<and> (\<forall>k j. k < unat (dl_in_dim l) \<longrightarrow> j < unat (dl_out_dim l) \<longrightarrow>
               mx_at h' (dl_w l) k j = mx_at h (dl_w l) k j - lr * mx_at h (dl_dw l) k j)
          \<and> (\<forall>j. j < unat (dl_out_dim l) \<longrightarrow> mx_at h' (dl_b l) 0 j = mx_at h (dl_b l) 0 j - lr * mx_at h (dl_db l) 0 j)"
    using run inv2 w b by (intro exI [of _ ?h2]) simp
qed

section \<open>Adam\<close>

text \<open>The moments and the parameter after one update.\<close>

definition adam_m :: "'a::{one,plus,minus,times} fmath \<Rightarrow> 'a \<Rightarrow> 'a \<Rightarrow> 'a" where
  "adam_m k m g = fm_lit k (9 / 10) * m + (1 - fm_lit k (9 / 10)) * g"

definition adam_v :: "'a::{one,plus,minus,times} fmath \<Rightarrow> 'a \<Rightarrow> 'a \<Rightarrow> 'a" where
  "adam_v k v g = fm_lit k (999 / 1000) * v + (1 - fm_lit k (999 / 1000)) * g * g"

definition adam_p :: "'a::{one,plus,minus,times,inverse} fmath \<Rightarrow> 'a \<Rightarrow> int \<Rightarrow> 'a \<Rightarrow> 'a \<Rightarrow> 'a \<Rightarrow> 'a" where
  "adam_p k lr t p m v = p - lr * (m / (1 - fm_pow k (fm_lit k (9 / 10)) (fm_nat k (nat t))))
     / (fm_sqrt k (v / (1 - fm_pow k (fm_lit k (999 / 1000)) (fm_nat k (nat t)))) + fm_lit k (1 / 10 ^ 8))"

lemma adam_update_ok:
  assumes "length (h p) = n" and "length (h g) = n" and "length (h m) = n" and "length (h v) = n" and "distinct [p, g, m, v]"
  obtains h' where "adam_update k p g m v n lr t h = Some h'" "\<And>q. q \<notin> {p, m, v} \<Longrightarrow> h' q = h q" "\<And>q. length (h' q) = length (h q)"
    "\<And>i. i < n \<Longrightarrow> h' m ! i = adam_m k (h m ! i) (h g ! i)" "\<And>i. i < n \<Longrightarrow> h' v ! i = adam_v k (h v ! i) (h g ! i)"
    "\<And>i. i < n \<Longrightarrow> h' p ! i = adam_p k lr t (h p ! i) (adam_m k (h m ! i) (h g ! i)) (adam_v k (h v ! i) (h g ! i))"
proof -
  define P where "P = (\<lambda>i s. (\<forall>q. q \<notin> {p, m, v} \<longrightarrow> s q = h q) \<and> (\<forall>q. length (s q) = length (h q))
    \<and> (\<forall>j < n. s m ! j = (if j < i then adam_m k (h m ! j) (h g ! j) else h m ! j))
    \<and> (\<forall>j < n. s v ! j = (if j < i then adam_v k (h v ! j) (h g ! j) else h v ! j))
    \<and> (\<forall>j < n. s p ! j = (if j < i then adam_p k lr t (h p ! j) (adam_m k (h m ! j) (h g ! j)) (adam_v k (h v ! j) (h g ! j)) else h p ! j)))"
  have ne: "g \<noteq> p" "g \<noteq> m" "g \<noteq> v" "p \<noteq> m" "p \<noteq> v" "m \<noteq> v" using assms(5) by auto
  have "\<exists>h'. adam_update k p g m v n lr t h = Some h' \<and> P n h'"
    unfolding adam_update_def Let_def
  proof (rule for_each_invariant)
    fix i s assume i: "i < n" and s: "P i s"
    note inv = s [unfolded P_def]
    have g: "s g = h g" using inv ne by simp
    have l: "length (s p) = n" "length (s g) = n" "length (s m) = n" "length (s v) = n" using inv assms(1-4) by simp_all
    have vals: "s m ! i = h m ! i" "s v ! i = h v ! i" "s p ! i = h p ! i" using inv i by simp_all
    let ?m = "adam_m k (h m ! i) (h g ! i)" and ?v = "adam_v k (h v ! i) (h g ! i)"
    let ?s = "s(m := (s m)[i := ?m], v := (s v)[i := ?v], p := (s p)[i := adam_p k lr t (h p ! i) ?m ?v])"
    have "P (Suc i) ?s" using inv i l ne unfolding P_def by (auto simp: less_Suc_eq nth_list_update)
    then show "\<exists>s'. do { mi \<leftarrow> rd s m i; gi \<leftarrow> rd s g i; s \<leftarrow> wr s m i (fm_lit k (9 / 10) * mi + (1 - fm_lit k (9 / 10)) * gi);
                vi \<leftarrow> rd s v i; gi \<leftarrow> rd s g i; s \<leftarrow> wr s v i (fm_lit k (999 / 1000) * vi + (1 - fm_lit k (999 / 1000)) * gi * gi);
                mi \<leftarrow> rd s m i; vi \<leftarrow> rd s v i;
                pv \<leftarrow> rd s p i; wr s p i (pv - lr * (mi / (1 - fm_pow k (fm_lit k (9 / 10)) (fm_nat k (nat t))))
                  / (fm_sqrt k (vi / (1 - fm_pow k (fm_lit k (999 / 1000)) (fm_nat k (nat t)))) + fm_lit k (1 / 10 ^ 8))) } = Some s' \<and> P (Suc i) s'"
      using i l ne vals g by (intro exI [of _ ?s]) (simp add: rd_def wr_def adam_m_def adam_v_def adam_p_def)
  qed (auto simp: P_def)
  then show thesis using that by (auto simp: P_def)
qed

text \<open>
  The first step of Adam on a fresh state, in exact arithmetic: the bias corrections cancel, and every
  parameter moves by the rate against the sign of its gradient, up to the constant \<open>10\<^sup>-\<^sup>8\<close>.
\<close>

lemma adam_first_step:
  "adam_p exact lr 1 p (adam_m exact 0 g) (adam_v exact 0 g) = p - lr * g / (\<bar>g\<bar> + 1 / 10 ^ 8)"
proof -
  have b1: "1 - (9 / 10) powr 1 = (1 - 9 / 10 :: real)" "1 - (999 / 1000) powr 1 = (1 - 999 / 1000 :: real)" by simp_all
  show ?thesis by (simp add: adam_p_def adam_m_def adam_v_def of_rat_divide of_rat_power real_sqrt_abs2)
qed

end
