(* ===== verification/NnGradient.thy ===== *)
theory NnGradient
  imports NnLayer
begin

text \<open>
  Exact arithmetic: the backward pass of a dense layer delivers partial derivatives.
\<close>

section \<open>Activations\<close>

text \<open>The derivative of each activation is its gradient function, except for ReLU at 0.\<close>

lemma act_relu_deriv:
  assumes "z \<noteq> 0" shows "(act_relu has_real_derivative act_relu_grad z) (at z)"
proof (cases "z > 0")
  case True
  have "((\<lambda>x. x) has_real_derivative 1) (at z)" by (rule DERIV_ident)
  then have "(act_relu has_real_derivative 1) (at z)"
    by (rule has_field_derivative_transform_within_open [of _ _ _ "{0<..}"]) (use True in \<open>auto simp: act_relu_def\<close>)
  then show ?thesis using True by (simp add: act_relu_grad_def)
next
  case False
  then have n: "z < 0" using assms by simp
  have "((\<lambda>x. 0) has_real_derivative 0) (at z)" by (rule DERIV_const)
  then have "(act_relu has_real_derivative 0) (at z)"
    by (rule has_field_derivative_transform_within_open [of _ _ _ "{..<0}"]) (use n in \<open>auto simp: act_relu_def\<close>)
  then show ?thesis using n by (simp add: act_relu_grad_def)
qed

lemma act_sigmoid_deriv: "(act_sigmoid exact has_real_derivative act_sigmoid_grad exact z) (at z)"
proof -
  have nz: "1 + exp (- z) \<noteq> 0" by (smt (verit) exp_gt_zero)
  have s: "act_sigmoid exact = (\<lambda>x. 1 / (1 + exp (- x)))" by (rule ext) (simp add: act_sigmoid_def)
  have "((\<lambda>x. 1 / (1 + exp (- x))) has_real_derivative exp (- z) / ((1 + exp (- z)) * (1 + exp (- z)))) (at z)"
    using nz by (auto intro!: derivative_eq_intros simp: field_simps)
  moreover have "1 / (1 + e) * (1 - 1 / (1 + e)) = e / ((1 + e) * (1 + e))" if "1 + e \<noteq> 0" for e :: real
    using that by (simp add: diff_divide_eq_iff)
  then have "act_sigmoid_grad exact z = exp (- z) / ((1 + exp (- z)) * (1 + exp (- z)))"
    using nz by (simp add: act_sigmoid_grad_def act_sigmoid_def Let_def)
  ultimately show ?thesis unfolding s by simp
qed

lemma act_fn_deriv:
  assumes "a = ACT_RELU \<Longrightarrow> z \<noteq> 0"
  shows "(act_fn a exact has_real_derivative act_grad_fn a exact z) (at z)"
proof (cases a)
  case ACT_LINEAR
  have e: "act_identity = (\<lambda>x. x :: real)" by (rule ext) (simp add: act_identity_def)
  have "((\<lambda>x. x) has_real_derivative 1) (at z)" by (rule DERIV_ident)
  then show ?thesis using ACT_LINEAR by (simp add: act_identity_grad_def e)
next
  case ACT_RELU
  then show ?thesis using assms act_relu_deriv by simp
next
  case ACT_SIGMOID
  then show ?thesis using act_sigmoid_deriv by simp
next
  case ACT_TANH
  have "act_tanh exact = tanh" by (rule ext) (simp add: act_tanh_def)
  moreover have "(tanh has_real_derivative 1 - tanh z ^ 2) (at z)" by (auto intro!: derivative_eq_intros)
  ultimately show ?thesis using ACT_TANH by (simp add: act_tanh_grad_def Let_def power2_eq_square)
qed

section \<open>The derivative of a weighted output\<close>

lemma fold_plus_sum: "fold (\<lambda>k s. s + f k) [0 ..< n] z = z + (\<Sum>k < n. f k :: 'a::comm_monoid_add)"
  by (induction n) (simp_all add: ac_simps)

lemma dot_entry_sum: "dot_entry A B n i j = (\<Sum>k < n. A i k * B k j :: 'a::comm_semiring_0)"
  by (simp add: dot_entry_def fold_plus_sum)

lemma col_sum_sum: "col_sum A n j = (\<Sum>i < n. A i j :: 'a::comm_monoid_add)"
  by (simp add: col_sum_def fold_plus_sum)

text \<open>
  \<open>D\<close> is the gradient of some loss at the output of the layer; the loss is then, to first order, the
  output weighted with \<open>D\<close>.
\<close>

definition weighted_output ::
  "activation \<Rightarrow> (nat \<Rightarrow> nat \<Rightarrow> real) \<Rightarrow> nat \<Rightarrow> nat \<Rightarrow> nat \<Rightarrow> (nat \<Rightarrow> nat \<Rightarrow> real) \<Rightarrow> (nat \<Rightarrow> nat \<Rightarrow> real) \<Rightarrow> (nat \<Rightarrow> real) \<Rightarrow> real" where
  "weighted_output a D batch inp outp X W B =
     (\<Sum>i < batch. \<Sum>j < outp. D i j * act_fn a exact (affine X W B inp i j))"

definition smooth_at :: "activation \<Rightarrow> nat \<Rightarrow> nat \<Rightarrow> (nat \<Rightarrow> nat \<Rightarrow> real) \<Rightarrow> bool" where
  "smooth_at a batch outp Z \<longleftrightarrow> a = ACT_RELU \<longrightarrow> (\<forall>i < batch. \<forall>j < outp. Z i j \<noteq> 0)"

lemma weighted_deriv:
  assumes "smooth_at a batch outp (z t0)"
    and "\<And>i j. i < batch \<Longrightarrow> j < outp \<Longrightarrow> ((\<lambda>t. z t i j) has_real_derivative z' i j) (at t0)"
  shows "((\<lambda>t. \<Sum>i < batch. \<Sum>j < outp. D i j * act_fn a exact (z t i j)) has_real_derivative
          (\<Sum>i < batch. \<Sum>j < outp. delta (act_grad_fn a exact) (z t0) D i j * z' i j)) (at t0)"
proof (intro DERIV_sum)
  fix i j assume "i \<in> {..< batch}" "j \<in> {..< outp}"
  then have ij: "i < batch" "j < outp" by simp_all
  have "(act_fn a exact has_real_derivative act_grad_fn a exact (z t0 i j)) (at (z t0 i j))"
    using assms(1) ij by (intro act_fn_deriv) (auto simp: smooth_at_def)
  from DERIV_chain2 [OF this assms(2) [OF ij]]
  have "((\<lambda>t. D i j * act_fn a exact (z t i j)) has_real_derivative D i j * (act_grad_fn a exact (z t0 i j) * z' i j)) (at t0)"
    by (rule DERIV_cmult)
  then show "((\<lambda>t. D i j * act_fn a exact (z t i j)) has_real_derivative delta (act_grad_fn a exact) (z t0) D i j * z' i j) (at t0)"
    by (simp add: delta_def ac_simps)
qed

lemma affine_deriv_weight:
  assumes "k < inp"
  shows "((\<lambda>w. affine X (W(k := (W k)(j := w))) B inp i c) has_real_derivative (if c = j then X i k else 0)) (at t)"
proof -
  have "affine X (W(k := (W k)(j := w))) B inp i c = (if c = j then X i k * w else 0)
      + ((\<Sum>k' \<in> {..< inp} - (if c = j then {k} else {}). X i k' * W k' c) + B c)" for w
  proof (cases "c = j")
    case True
    have "(\<Sum>k' < inp. X i k' * (W(k := (W k)(j := w))) k' c) = X i k * w + (\<Sum>k' \<in> {..< inp} - {k}. X i k' * W k' c)"
      using assms True by (subst sum.remove [of _ k]) (auto intro!: sum.cong)
    then show ?thesis using True by (simp add: affine_def dot_entry_sum)
  next
    case False
    have "(\<Sum>k' < inp. X i k' * (W(k := (W k)(j := w))) k' c) = (\<Sum>k' < inp. X i k' * W k' c)"
      using False by (intro sum.cong) auto
    then show ?thesis using False by (simp add: affine_def dot_entry_sum)
  qed
  then show ?thesis by (auto intro!: derivative_eq_intros)
qed

lemma affine_deriv_input:
  assumes "k < inp"
  shows "((\<lambda>x. affine (X(i := (X i)(k := x))) W B inp r c) has_real_derivative (if r = i then W k c else 0)) (at t)"
proof -
  have "affine (X(i := (X i)(k := x))) W B inp r c = (if r = i then x * W k c else 0)
      + ((\<Sum>k' \<in> {..< inp} - (if r = i then {k} else {}). X r k' * W k' c) + B c)" for x
  proof (cases "r = i")
    case True
    have "(\<Sum>k' < inp. (X(i := (X i)(k := x))) r k' * W k' c) = x * W k c + (\<Sum>k' \<in> {..< inp} - {k}. X r k' * W k' c)"
      using assms True by (subst sum.remove [of _ k]) (auto intro!: sum.cong)
    then show ?thesis using True by (simp add: affine_def dot_entry_sum)
  next
    case False
    then show ?thesis by (simp add: affine_def dot_entry_sum)
  qed
  then show ?thesis by (auto intro!: derivative_eq_intros)
qed

lemma affine_deriv_bias:
  "((\<lambda>b. affine X W (B(j := b)) inp i c) has_real_derivative (if c = j then 1 else 0)) (at t)"
proof -
  have "affine X W (B(j := b)) inp i c = dot_entry X W inp i c + (if c = j then b else B c)" for b
    by (simp add: affine_def)
  then show ?thesis by (auto intro!: derivative_eq_intros)
qed

text \<open>The three partial derivatives of the weighted output are the sums the code computes.\<close>

lemma weighted_output_deriv:
  fixes D X W :: "nat \<Rightarrow> nat \<Rightarrow> real" and B :: "nat \<Rightarrow> real" and a batch outp inp
  assumes "smooth_at a batch outp (affine X W B inp)"
  defines "E \<equiv> delta (act_grad_fn a exact) (affine X W B inp) D"
  shows "k < inp \<Longrightarrow> j < outp \<Longrightarrow> ((\<lambda>w. weighted_output a D batch inp outp X (W(k := (W k)(j := w))) B) has_real_derivative
            dot_entry (\<lambda>k i. X i k) E batch k j) (at (W k j))"
    and "j < outp \<Longrightarrow> ((\<lambda>b. weighted_output a D batch inp outp X W (B(j := b))) has_real_derivative col_sum E batch j) (at (B j))"
    and "i < batch \<Longrightarrow> k < inp \<Longrightarrow> ((\<lambda>x. weighted_output a D batch inp outp (X(i := (X i)(k := x))) W B) has_real_derivative
            dot_entry E (\<lambda>j k. W k j) outp i k) (at (X i k))"
proof -
  have pick: "(\<Sum>j' < n. f j' * (if j' = j then g j' else 0)) = f j * g j" if "j < n" for n j :: nat and f g :: "nat \<Rightarrow> real"
    using that by (simp add: if_distrib [of "\<lambda>x. _ * x"] sum.delta cong: if_cong)
  show "((\<lambda>w. weighted_output a D batch inp outp X (W(k := (W k)(j := w))) B) has_real_derivative
            dot_entry (\<lambda>k i. X i k) E batch k j) (at (W k j))" if k: "k < inp" and j: "j < outp"
  proof -
    have "(\<Sum>i < batch. \<Sum>c < outp. E i c * (if c = j then X i k else 0)) = dot_entry (\<lambda>k i. X i k) E batch k j"
      using pick [OF j, of "E _" "\<lambda>_. X _ k"] by (simp add: dot_entry_sum mult.commute)
    then show ?thesis
      using weighted_deriv [of a batch outp "\<lambda>w. affine X (W(k := (W k)(j := w))) B inp" "W k j" "\<lambda>i c. if c = j then X i k else 0" D]
        assms(1) affine_deriv_weight [OF k] by (simp add: weighted_output_def E_def)
  qed
  show "((\<lambda>b. weighted_output a D batch inp outp X W (B(j := b))) has_real_derivative col_sum E batch j) (at (B j))" if j: "j < outp"
  proof -
    have "(\<Sum>i < batch. \<Sum>c < outp. E i c * (if c = j then 1 else 0)) = col_sum E batch j"
      using pick [OF j, of "E _" "\<lambda>_. 1"] by (simp add: col_sum_sum)
    then show ?thesis
      using weighted_deriv [of a batch outp "\<lambda>b. affine X W (B(j := b)) inp" "B j" "\<lambda>i c. if c = j then 1 else 0" D]
        assms(1) affine_deriv_bias by (simp add: weighted_output_def E_def)
  qed
  show "((\<lambda>x. weighted_output a D batch inp outp (X(i := (X i)(k := x))) W B) has_real_derivative
            dot_entry E (\<lambda>j k. W k j) outp i k) (at (X i k))" if i: "i < batch" and k: "k < inp"
  proof -
    have "(\<Sum>r < batch. \<Sum>c < outp. E r c * (if r = i then W k c else 0)) = (\<Sum>r < batch. if r = i then (\<Sum>c < outp. E r c * W k c) else 0)"
      by (intro sum.cong) auto
    also have "\<dots> = dot_entry E (\<lambda>j k. W k j) outp i k" using i by (simp add: dot_entry_sum sum.delta)
    finally show ?thesis
      using weighted_deriv [of a batch outp "\<lambda>x. affine (X(i := (X i)(k := x))) W B inp" "X i k" "\<lambda>r c. if r = i then W k c else 0" D]
        assms(1) affine_deriv_input [OF k] by (simp add: weighted_output_def E_def)
  qed
qed

text \<open>The matrices of a layer as functions, and the loss its gradients belong to.\<close>

definition layer_loss :: "dense_layer \<Rightarrow> nat \<Rightarrow> (nat \<Rightarrow> nat \<Rightarrow> real) \<Rightarrow> (nat \<Rightarrow> nat \<Rightarrow> real) \<Rightarrow> (nat \<Rightarrow> nat \<Rightarrow> real) \<Rightarrow> (nat \<Rightarrow> real) \<Rightarrow> real" where
  "layer_loss l batch D X W B = weighted_output (dl_act l) D batch (unat (dl_in_dim l)) (unat (dl_out_dim l)) X W B"

lemma delta_cong:
  assumes "\<And>i j. i < m \<Longrightarrow> j < n \<Longrightarrow> Z i j = Z' i j" and "i < m" and "j < n"
  shows "delta g Z D i j = delta g Z' D i j"
  using assms by (simp add: delta_def)

lemma forward_then_backward:
  fixes h :: "real mem" and x dout :: matx and l :: dense_layer
  assumes "layer_inv h l" and "shaped h x batch (dl_in_dim l)" and "shaped h out batch (dl_out_dim l)"
    and "shaped h dout batch (dl_out_dim l)" and "shaped h dx batch (dl_in_dim l)"
    and "distinct ([0, mx_data x, mx_data out, mx_data dout, mx_data dx] @ map ps [0 ..< 5])"
    and "(set (map mx_data [x, out, dout, dx]) \<union> set (map ps [0 ..< 5])) \<inter> set (layer_blocks l) = {}"
  defines "Z \<equiv> affine (mx_at h x) (mx_at h (dl_w l)) (mx_at h (dl_b l) 0) (unat (dl_in_dim l))"
  defines "E \<equiv> delta (act_grad_fn (dl_act l) exact) Z (mx_at h dout)"
  obtains h1 l1 h2 where "dense_forward exact ps h (Some l) (Some x) (Some out) = Some (ERR_OK, h1, Some l1)"
     "dense_backward exact (\<lambda>i. ps (i + 2)) h1 (Some l1) (Some dout) (Some dx) = Some (ERR_OK, h2)" "layer_inv h2 l1"
     "\<And>i j. i < unat batch \<Longrightarrow> j < unat (dl_out_dim l) \<Longrightarrow> mx_at h1 out i j = act_fn (dl_act l) exact (Z i j)"
     "\<And>k j. k < unat (dl_in_dim l) \<Longrightarrow> j < unat (dl_out_dim l) \<Longrightarrow>
        mx_at h2 (dl_dw l) k j = dot_entry (\<lambda>k i. mx_at h x i k) E (unat batch) k j"
     "\<And>j. j < unat (dl_out_dim l) \<Longrightarrow> mx_at h2 (dl_db l) 0 j = col_sum E (unat batch) j"
     "\<And>i k. i < unat batch \<Longrightarrow> k < unat (dl_in_dim l) \<Longrightarrow>
        mx_at h2 dx i k = dot_entry E (\<lambda>j k. mx_at h (dl_w l) k j) (unat (dl_out_dim l)) i k"
proof -
  have r: "mx_rows x = batch" using assms(2) by (simp add: shaped_def)
  have up: "[0 ..< 5] = [0, 1, 2, 3, 4 :: nat]" by (simp add: upt_rec)
  note apart = assms(6,7) [unfolded up, simplified]
  have sx: "shaped h x (mx_rows x) (dl_in_dim l)" "shaped h out (mx_rows x) (dl_out_dim l)" using assms(2,3) r by simp_all
  have fresh0: "mx_data x \<notin> set (layer_blocks l)" "mx_data out \<notin> set (layer_blocks l)" "mx_data out \<noteq> mx_data x"
    "distinct [ps 0, ps 1, 0, mx_data x, mx_data out]" "{ps 0, ps 1} \<inter> set (layer_blocks l) = {}"
    using apart by auto
  obtain h1 l1 where F: "dense_forward exact ps h (Some l) (Some x) (Some out) = Some (ERR_OK, h1, Some l1)" "layer_inv h1 l1"
     "l1 = l\<lparr>dl_x_cache := dl_x_cache l1, dl_z_cache := dl_z_cache l1\<rparr>"
     "shaped h1 (dl_x_cache l1) batch (dl_in_dim l)" "shaped h1 (dl_z_cache l1) batch (dl_out_dim l)"
     "\<forall>q \<in> {mx_data (dl_w l), mx_data (dl_b l), mx_data (dl_dw l), mx_data (dl_db l), mx_data x}. h1 q = h q"
     "\<forall>q. q \<notin> set (layer_blocks l) \<union> {ps 0, ps 1, mx_data out} \<longrightarrow> h1 q = h q"
     "{mx_data (dl_x_cache l1), mx_data (dl_z_cache l1)} \<subseteq> set (layer_blocks l) \<union> {ps 0, ps 1}"
     "\<forall>i k. mx_at h1 (dl_x_cache l1) i k = mx_at h x i k"
     "\<forall>i j. i < unat batch \<longrightarrow> j < unat (dl_out_dim l) \<longrightarrow> mx_at h1 (dl_z_cache l1) i j = Z i j
        \<and> mx_at h1 out i j = act_fn (dl_act l) exact (mx_at h1 (dl_z_cache l1) i j)"
    using dense_forward_spec [OF assms(1) sx fresh0, of exact] unfolding r Z_def [symmetric] by (elim exE conjE) (rule that, assumption+)
  note f = F(1-5) F(6) [rule_format] F(7) [rule_format] F(8) F(9) [rule_format]
    F(10) [rule_format, THEN conjunct1] F(10) [rule_format, THEN conjunct2]
  have same: "dl_act l1 = dl_act l" "dl_in_dim l1 = dl_in_dim l" "dl_out_dim l1 = dl_out_dim l" "dl_w l1 = dl_w l"
    "dl_dw l1 = dl_dw l" "dl_db l1 = dl_db l" "dl_b l1 = dl_b l"
    by (subst f(3), simp)+
  have fresh: "q \<notin> set (layer_blocks l1)" if "q \<notin> set (layer_blocks l)" "q \<noteq> ps 0" "q \<noteq> ps 1" for q
  proof -
    have "set (layer_blocks l1) \<subseteq> set (layer_blocks l) \<union> {ps 0, ps 1}"
      using f(8) unfolding layer_blocks_def same by simp
    then show ?thesis using that by blast
  qed
  have out: "q \<notin> set (layer_blocks l)" if "q \<in> {mx_data x, mx_data out, mx_data dout, mx_data dx, ps 0, ps 1, ps 2, ps 3, ps 4}" for q
    using apart(2) that by auto
  have sep: "mx_data dout \<noteq> ps 0" "mx_data dout \<noteq> ps 1" "mx_data dx \<noteq> ps 0" "mx_data dx \<noteq> ps 1" "mx_data out \<noteq> mx_data dout" "mx_data out \<noteq> mx_data dx"
    "ps 0 \<noteq> ps 2" "ps 1 \<noteq> ps 2" "ps 0 \<noteq> ps 3" "ps 1 \<noteq> ps 3" "ps 0 \<noteq> ps 4" "ps 1 \<noteq> ps 4"
    using apart(1) by simp_all
  note sep = sep sep [symmetric]
  have kept: "h1 (mx_data dout) = h (mx_data dout)" "h1 (mx_data dx) = h (mx_data dx)" "h1 (mx_data (dl_w l)) = h (mx_data (dl_w l))"
  proof -
    show "h1 (mx_data dout) = h (mx_data dout)" by (rule f(7)) (use out sep in blast)
    show "h1 (mx_data dx) = h (mx_data dx)" by (rule f(7)) (use out sep in blast)
    show "h1 (mx_data (dl_w l)) = h (mx_data (dl_w l))" by (rule f(6)) simp
  qed
  have sh: "shaped h1 dout batch (dl_out_dim l)" "shaped h1 dx batch (dl_in_dim l)"
    using assms(4,5) kept shaped_cong by blast+
  have m: "mx_at h1 dout = mx_at h dout" "mx_at h1 (dl_w l) = mx_at h (dl_w l)"
    using kept by (auto simp: mx_at_def intro!: ext)
  let ?D = "delta (act_grad_fn (dl_act l) exact) (mx_at h1 (dl_z_cache l1)) (mx_at h dout)"
  have D: "?D i j = E i j" if "i < unat batch" "j < unat (dl_out_dim l)" for i j
    unfolding E_def using f(10) that by (intro delta_cong) auto
  have ar: "0 + 2 = (2::nat)" "1 + 2 = (3::nat)" "2 + 2 = (4::nat)" by simp_all
  have out1: "mx_data dout \<notin> set (layer_blocks l1)" "mx_data dx \<notin> set (layer_blocks l1)"
    "ps 2 \<notin> set (layer_blocks l1)" "ps 3 \<notin> set (layer_blocks l1)" "ps 4 \<notin> set (layer_blocks l1)"
    by (rule fresh; use out sep in blast)+
  have ne: "distinct [ps 2, ps 3, ps 4, 0, mx_data dout]" "mx_data dx \<noteq> ps 2" "mx_data dx \<noteq> ps 3" "mx_data dx \<noteq> ps 4" "mx_data dx \<noteq> mx_data dout"
    using apart(1) by auto
  have pre: "layer_inv h1 l1" "shaped h1 (dl_x_cache l1) batch (dl_in_dim l1)" "shaped h1 (dl_z_cache l1) batch (dl_out_dim l1)"
    "shaped h1 dout batch (dl_out_dim l1)" "mx_data dout \<notin> set (layer_blocks l1)"
    "distinct [ps (0 + 2), ps (1 + 2), ps (2 + 2), 0, mx_data dout]" "{ps (0 + 2), ps (1 + 2), ps (2 + 2)} \<inter> set (layer_blocks l1) = {}"
    using f(2,4,5) sh(1) out1 ne unfolding same ar by simp_all
  have "\<forall>dx'. Some dx = Some dx' \<longrightarrow> shaped h1 dx' batch (dl_in_dim l1)
      \<and> mx_data dx' \<notin> set (layer_blocks l1) \<union> {ps (0 + 2), ps (1 + 2), ps (2 + 2), mx_data dout}"
    using sh(2) out1 ne unfolding same ar by simp
  from dense_backward_spec [of h1 l1 batch dout "\<lambda>i. ps (i + 2)" "Some dx" exact, OF pre this]
  obtain h2 where B: "dense_backward exact (\<lambda>i. ps (i + 2)) h1 (Some l1) (Some dout) (Some dx) = Some (ERR_OK, h2)" "layer_inv h2 l1"
     "\<forall>k j. k < unat (dl_in_dim l) \<longrightarrow> j < unat (dl_out_dim l) \<longrightarrow>
        mx_at h2 (dl_dw l) k j = dot_entry (\<lambda>k i. mx_at h1 (dl_x_cache l1) i k) ?D (unat batch) k j"
     "\<forall>j. j < unat (dl_out_dim l) \<longrightarrow> mx_at h2 (dl_db l) 0 j = col_sum ?D (unat batch) j"
     "\<forall>d. Some dx = Some d \<longrightarrow> (\<forall>i k. i < unat batch \<longrightarrow> k < unat (dl_in_dim l) \<longrightarrow>
        mx_at h2 d i k = dot_entry ?D (\<lambda>j k. mx_at h (dl_w l) k j) (unat (dl_out_dim l)) i k)"
    unfolding same m by (elim exE conjE) (rule that, assumption+)
  note b = B(1,2) B(3) [rule_format] B(4) [rule_format] B(5) [rule_format, OF refl]
  show ?thesis
  proof (rule that [OF f(1) b(1,2)])
    show "mx_at h1 out i j = act_fn (dl_act l) exact (Z i j)" if "i < unat batch" "j < unat (dl_out_dim l)" for i j
      using f(10,11) that by simp
    show "mx_at h2 (dl_dw l) k j = dot_entry (\<lambda>k i. mx_at h x i k) E (unat batch) k j" if "k < unat (dl_in_dim l)" "j < unat (dl_out_dim l)" for k j
      unfolding b(3) [OF that] using f(9) D that by (intro dot_entry_cong) auto
    show "mx_at h2 (dl_db l) 0 j = col_sum E (unat batch) j" if "j < unat (dl_out_dim l)" for j
      unfolding b(4) [OF that] col_sum_sum using D that by (intro sum.cong) auto
    show "mx_at h2 dx i k = dot_entry E (\<lambda>j k. mx_at h (dl_w l) k j) (unat (dl_out_dim l)) i k"
      if "i < unat batch" "k < unat (dl_in_dim l)" for i k
      unfolding b(5) [OF that] using D that by (intro dot_entry_cong) auto
  qed
qed

text \<open>
  C9. Exact arithmetic, a dense layer whose blocks are apart from the caller's and from the fresh
  ones. \<open>dense_forward\<close> followed by \<open>dense_backward\<close> succeed, keep the invariant of the layer,
  write the output \<open>act (x w + b)\<close>, and leave in \<open>dw\<close>, \<open>db\<close> and \<open>dx\<close> exactly the
  partial derivatives, with respect to each weight, bias and input, of the output weighted with the
  gradient \<open>dout\<close> given by the caller, for every activation (for ReLU where no pre-activation is 0).
\<close>

theorem dense_backward_is_gradient:
  fixes h :: "real mem" and x dout :: matx and l :: dense_layer
  defines "X \<equiv> mx_at h x" and "W \<equiv> mx_at h (dl_w l)" and "B \<equiv> mx_at h (dl_b l) 0" and "D \<equiv> mx_at h dout"
  assumes "layer_inv h l" and "shaped h x batch (dl_in_dim l)" and "shaped h out batch (dl_out_dim l)"
    and "shaped h dout batch (dl_out_dim l)" and "shaped h dx batch (dl_in_dim l)"
    and "distinct ([0, mx_data x, mx_data out, mx_data dout, mx_data dx] @ map ps [0 ..< 5])"
    and "(set (map mx_data [x, out, dout, dx]) \<union> set (map ps [0 ..< 5])) \<inter> set (layer_blocks l) = {}"
    and "smooth_at (dl_act l) (unat batch) (unat (dl_out_dim l)) (affine X W B (unat (dl_in_dim l)))"
  shows "\<exists>h1 l1 h2. dense_forward exact ps h (Some l) (Some x) (Some out) = Some (ERR_OK, h1, Some l1)
     \<and> dense_backward exact (\<lambda>i. ps (i + 2)) h1 (Some l1) (Some dout) (Some dx) = Some (ERR_OK, h2) \<and> layer_inv h2 l1
     \<and> (\<forall>i j. i < unat batch \<longrightarrow> j < unat (dl_out_dim l) \<longrightarrow>
          mx_at h1 out i j = act_fn (dl_act l) exact ((\<Sum>k < unat (dl_in_dim l). X i k * W k j) + B j))
     \<and> (\<forall>k j. k < unat (dl_in_dim l) \<longrightarrow> j < unat (dl_out_dim l) \<longrightarrow>
          ((\<lambda>w. layer_loss l (unat batch) D X (W(k := (W k)(j := w))) B) has_real_derivative mx_at h2 (dl_dw l) k j) (at (W k j)))
     \<and> (\<forall>j. j < unat (dl_out_dim l) \<longrightarrow>
          ((\<lambda>b. layer_loss l (unat batch) D X W (B(j := b))) has_real_derivative mx_at h2 (dl_db l) 0 j) (at (B j)))
     \<and> (\<forall>i k. i < unat batch \<longrightarrow> k < unat (dl_in_dim l) \<longrightarrow>
          ((\<lambda>y. layer_loss l (unat batch) D (X(i := (X i)(k := y))) W B) has_real_derivative mx_at h2 dx i k) (at (X i k)))"
proof -
  obtain h1 l1 h2 where r: "dense_forward exact ps h (Some l) (Some x) (Some out) = Some (ERR_OK, h1, Some l1)"
     "dense_backward exact (\<lambda>i. ps (i + 2)) h1 (Some l1) (Some dout) (Some dx) = Some (ERR_OK, h2)" "layer_inv h2 l1"
     "\<And>i j. i < unat batch \<Longrightarrow> j < unat (dl_out_dim l) \<Longrightarrow>
        mx_at h1 out i j = act_fn (dl_act l) exact (affine X W B (unat (dl_in_dim l)) i j)"
     "\<And>k j. k < unat (dl_in_dim l) \<Longrightarrow> j < unat (dl_out_dim l) \<Longrightarrow> mx_at h2 (dl_dw l) k j
        = dot_entry (\<lambda>k i. X i k) (delta (act_grad_fn (dl_act l) exact) (affine X W B (unat (dl_in_dim l))) D) (unat batch) k j"
     "\<And>j. j < unat (dl_out_dim l) \<Longrightarrow> mx_at h2 (dl_db l) 0 j
        = col_sum (delta (act_grad_fn (dl_act l) exact) (affine X W B (unat (dl_in_dim l))) D) (unat batch) j"
     "\<And>i k. i < unat batch \<Longrightarrow> k < unat (dl_in_dim l) \<Longrightarrow> mx_at h2 dx i k
        = dot_entry (delta (act_grad_fn (dl_act l) exact) (affine X W B (unat (dl_in_dim l))) D) (\<lambda>j k. W k j) (unat (dl_out_dim l)) i k"
    unfolding X_def W_def B_def D_def by (rule forward_then_backward [OF assms(5-11)]) blast
  have "mx_at h1 out i j = act_fn (dl_act l) exact ((\<Sum>k < unat (dl_in_dim l). X i k * W k j) + B j)"
    if "i < unat batch" "j < unat (dl_out_dim l)" for i j
    using r(4) [OF that] by (simp add: affine_def dot_entry_sum)
  then show ?thesis
    using r(1-3) weighted_output_deriv [OF assms(12)]
    unfolding layer_loss_def by (intro exI [of _ h1] exI [of _ l1] exI [of _ h2]) (simp add: r(5-7))
qed

text \<open>A layer of two inputs and one output: weights 2 and 3, bias 4; the sample is (5, 6), its gradient 7.\<close>

definition small_layer :: dense_layer where
  "small_layer = \<lparr>dl_in_dim = 2, dl_out_dim = 1, dl_act = ACT_RELU,
     dl_w = \<lparr>mx_data = 1, mx_rows = 2, mx_cols = 1, mx_owns = 1\<rparr>, dl_b = \<lparr>mx_data = 2, mx_rows = 1, mx_cols = 1, mx_owns = 1\<rparr>,
     dl_dw = \<lparr>mx_data = 3, mx_rows = 2, mx_cols = 1, mx_owns = 1\<rparr>, dl_db = \<lparr>mx_data = 4, mx_rows = 1, mx_cols = 1, mx_owns = 1\<rparr>,
     dl_x_cache = null_matx, dl_z_cache = null_matx\<rparr>"

definition small_mem :: "real mem" where
  "small_mem = (\<lambda>_. [])(1 := [2, 3], 2 := [4], 3 := [0, 0], 4 := [0], 5 := [5, 6], 6 := [0], 7 := [7], 8 := [0, 0])"

theorem dense_backward_is_gradient_witness:
  "\<exists>h1 l1 h2. dense_forward exact (\<lambda>i. 16 + word_of_nat i) small_mem (Some small_layer)
        (Some \<lparr>mx_data = 5, mx_rows = 1, mx_cols = 2, mx_owns = 1\<rparr>) (Some \<lparr>mx_data = 6, mx_rows = 1, mx_cols = 1, mx_owns = 1\<rparr>)
        = Some (ERR_OK, h1, Some l1)
     \<and> dense_backward exact (\<lambda>i. 16 + word_of_nat (i + 2)) h1 (Some l1) (Some \<lparr>mx_data = 7, mx_rows = 1, mx_cols = 1, mx_owns = 1\<rparr>)
        (Some \<lparr>mx_data = 8, mx_rows = 1, mx_cols = 2, mx_owns = 1\<rparr>) = Some (ERR_OK, h2)
     \<and> mx_at h1 \<lparr>mx_data = 6, mx_rows = 1, mx_cols = 1, mx_owns = 1\<rparr> 0 0 = 32"
proof -
  let ?ps = "\<lambda>i. 16 + word_of_nat i :: u64"
  let ?x = "\<lparr>mx_data = 5, mx_rows = 1, mx_cols = 2, mx_owns = 1\<rparr>" and ?out = "\<lparr>mx_data = 6, mx_rows = 1, mx_cols = 1, mx_owns = 1\<rparr>"
  let ?dout = "\<lparr>mx_data = 7, mx_rows = 1, mx_cols = 1, mx_owns = 1\<rparr>" and ?dx = "\<lparr>mx_data = 8, mx_rows = 1, mx_cols = 2, mx_owns = 1\<rparr>"
  have up: "[0 ..< 5] = [0, 1, 2, 3, 4 :: nat]" by (simp add: upt_rec)
  have inv: "layer_inv small_mem small_layer"
    by (simp add: layer_inv_def layer_blocks_def shaped_def mx_ok_def small_layer_def small_mem_def null_matx_def)
  have sh: "shaped small_mem ?x 1 (dl_in_dim small_layer)" "shaped small_mem ?out 1 (dl_out_dim small_layer)"
    "shaped small_mem ?dout 1 (dl_out_dim small_layer)" "shaped small_mem ?dx 1 (dl_in_dim small_layer)"
    by (simp_all add: shaped_def mx_ok_def small_layer_def small_mem_def)
  have ap: "distinct ([0, mx_data ?x, mx_data ?out, mx_data ?dout, mx_data ?dx] @ map ?ps [0 ..< 5])"
    "(set (map mx_data [?x, ?out, ?dout, ?dx]) \<union> set (map ?ps [0 ..< 5])) \<inter> set (layer_blocks small_layer) = {}"
    unfolding up by (simp_all add: small_layer_def layer_blocks_def null_matx_def)
  have z: "affine (mx_at small_mem ?x) (mx_at small_mem (dl_w small_layer)) (mx_at small_mem (dl_b small_layer) 0) 2 0 0 = 32"
    by (simp add: affine_def dot_entry_def mx_at_def small_layer_def small_mem_def upt_rec)
  then have sm: "smooth_at (dl_act small_layer) (unat (1 :: size_t)) (unat (dl_out_dim small_layer))
      (affine (mx_at small_mem ?x) (mx_at small_mem (dl_w small_layer)) (mx_at small_mem (dl_b small_layer) 0) (unat (dl_in_dim small_layer)))"
    by (simp add: smooth_at_def small_layer_def)
  show ?thesis
    using dense_backward_is_gradient [OF inv sh ap sm] z
    by (auto simp: small_layer_def affine_def dot_entry_sum act_relu_def)
qed

end
