(* ===== verification/NnLoss.thy ===== *)
theory NnLoss
  imports NnGradient
begin

text \<open>
  The losses of theory Nn in exact arithmetic: their values, and that the gradients they deliver are
  the partial derivatives.
\<close>

section \<open>The stable softmax\<close>

text \<open>The logarithm of the sum of exponentials, which subtracting the maximum leaves as it is.\<close>

definition lse :: "(nat \<Rightarrow> real) \<Rightarrow> nat \<Rightarrow> real" where
  "lse x n = ln (\<Sum>c < n. exp (x c))"

lemma lse_shift:
  assumes "m < n"
  shows "ln (1 + (\<Sum>c \<in> {..< n} - {m}. exp (x c - x m))) + x m = lse x n"
proof -
  have s: "(\<Sum>c < n. exp (x c)) = exp (x m) * (1 + (\<Sum>c \<in> {..< n} - {m}. exp (x c - x m)))"
  proof -
    have "(\<Sum>c < n. exp (x c)) = exp (x m) + (\<Sum>c \<in> {..< n} - {m}. exp (x m) * exp (x c - x m))"
      using assms by (subst sum.remove [of _ m]) (auto simp: exp_add [symmetric])
    then show ?thesis by (simp add: sum_distrib_left distrib_left)
  qed
  have "0 < 1 + (\<Sum>c \<in> {..< n} - {m}. exp (x c - x m))"
    by (smt (verit) sum_nonneg exp_ge_zero)
  then show ?thesis unfolding lse_def s by (simp add: ln_mult)
qed

lemma sum_except_loop:
  "for_each [0 ..< n] (\<lambda>c s. if c \<noteq> m then Some (s + f c) else Some s) z = Some (z + (\<Sum>c \<in> {..< n} - {m}. f c :: real))"
proof (induction n)
  case (Suc n)
  have "{..< Suc n} - {m} = (if n = m then {..< n} - {m} else insert n ({..< n} - {m}))" by auto
  then show ?case using Suc by (simp add: add.assoc add.commute)
qed simp

lemma row_log_sum_eq:
  assumes "mx_ok h a" and "r < unat (mx_rows a)"
  shows "row_log_sum exact h (mx_data a) (r * unat (mx_cols a)) (unat (mx_cols a)) = Some (lse (mx_at h a r) (unat (mx_cols a)))"
proof -
  let ?C = "unat (mx_cols a)" and ?x = "mx_at h a r"
  have C: "0 < ?C" using mx_ok_bounds(4) [OF assms(1)] .
  note get = rd_ok [OF assms]
  have "\<exists>t. for_each [1 ..< ?C] (\<lambda>c best. do { x \<leftarrow> rd h (mx_data a) (r * ?C + c); y \<leftarrow> rd h (mx_data a) (r * ?C + best);
               Some (if x > y then c else best) }) 0 = Some t \<and> t = first_max ?x ?C"
  proof (rule for_each_invariant)
    show "(0 :: nat) = first_max ?x 1" by (simp add: first_max_def)
    fix c t assume c: "1 \<le> c" "c < ?C" and t: "t = first_max ?x c"
    have "first_max ?x c < ?C" using first_max_less [of c ?x] c by simp
    then show "\<exists>t'. do { x \<leftarrow> rd h (mx_data a) (r * ?C + c); y \<leftarrow> rd h (mx_data a) (r * ?C + t); Some (if x > y then c else t) } = Some t'
        \<and> t' = first_max ?x (Suc c)"
      using c t by (simp add: get first_max_Suc)
  qed (use C in simp)
  then have mx: "for_each [1 ..< ?C] (\<lambda>c best. do { x \<leftarrow> rd h (mx_data a) (r * ?C + c); y \<leftarrow> rd h (mx_data a) (r * ?C + best);
               Some (if x > y then c else best) }) 0 = Some (first_max ?x ?C)" by auto
  define m where "m = first_max ?x ?C"
  have m: "m < ?C" using first_max_less [OF C] by (simp add: m_def)
  have "for_each [0 ..< ?C] (\<lambda>c s. if c \<noteq> m then do { x \<leftarrow> rd h (mx_data a) (r * ?C + c); Some (s + fm_exp exact (x - ?x m)) } else Some s) 1
      = for_each [0 ..< ?C] (\<lambda>c s. if c \<noteq> m then Some (s + exp (?x c - ?x m)) else Some s) 1"
    by (rule for_each_cong) (simp add: get)
  also have "\<dots> = Some (1 + (\<Sum>c \<in> {..< ?C} - {m}. exp (?x c - ?x m)))" by (rule sum_except_loop)
  finally show ?thesis
    using mx get [OF m] lse_shift [OF m, of ?x] unfolding row_log_sum_def m_def [symmetric] by simp
qed

section \<open>Cross-entropy\<close>

text \<open>The loss of one row, and of the batch.\<close>

definition row_xent :: "nat \<Rightarrow> (nat \<Rightarrow> real) \<Rightarrow> (nat \<Rightarrow> real) \<Rightarrow> real" where
  "row_xent n x y = (\<Sum>c < n. y c * (lse x n - x c))"

definition xent :: "nat \<Rightarrow> nat \<Rightarrow> (nat \<Rightarrow> nat \<Rightarrow> real) \<Rightarrow> (nat \<Rightarrow> nat \<Rightarrow> real) \<Rightarrow> real" where
  "xent batch n X Y = (\<Sum>r < batch. row_xent n (X r) (Y r)) / of_nat batch"

lemma lse_deriv:
  assumes "k < n"
  shows "((\<lambda>t. lse (x(k := t)) n) has_real_derivative exp (x k - lse x n)) (at (x k))"
proof -
  have s: "(\<Sum>c < n. exp ((x(k := t)) c)) = exp t + (\<Sum>c \<in> {..< n} - {k}. exp (x c))" for t
    using assms by (subst sum.remove [of _ k]) auto
  have pos: "0 < exp t + (\<Sum>c \<in> {..< n} - {k}. exp (x c))" for t
    by (smt (verit) sum_nonneg exp_gt_zero exp_ge_zero)
  have "((\<lambda>t. ln (exp t + (\<Sum>c \<in> {..< n} - {k}. exp (x c)))) has_real_derivative
      1 / (exp (x k) + (\<Sum>c \<in> {..< n} - {k}. exp (x c))) * exp (x k)) (at (x k))"
    using pos [of "x k"] by (auto intro!: derivative_eq_intros)
  moreover have "exp (x k - lse x n) = 1 / (exp (x k) + (\<Sum>c \<in> {..< n} - {k}. exp (x c))) * exp (x k)"
    using s [of "x k"] pos [of "x k"] by (simp add: lse_def exp_diff)
  ultimately show ?thesis unfolding lse_def s by simp
qed

lemma row_xent_deriv:
  assumes "k < n" and "(\<Sum>c < n. y c) = 1"
  shows "((\<lambda>t. row_xent n (x(k := t)) y) has_real_derivative exp (x k - lse x n) - y k) (at (x k))"
proof -
  have "((\<lambda>t. \<Sum>c < n. y c * (lse (x(k := t)) n - (x(k := t)) c)) has_real_derivative
      (\<Sum>c < n. y c * (exp (x k - lse x n) - (if c = k then 1 else 0)))) (at (x k))"
  proof (intro DERIV_sum DERIV_cmult)
    fix c
    have "((\<lambda>t. (x(k := t)) c) has_real_derivative (if c = k then 1 else 0)) (at (x k))" by (cases "c = k") auto
    then show "((\<lambda>t. lse (x(k := t)) n - (x(k := t)) c) has_real_derivative exp (x k - lse x n) - (if c = k then 1 else 0)) (at (x k))"
      by (intro DERIV_diff lse_deriv [OF assms(1)])
  qed
  moreover have "(\<Sum>c < n. y c * (exp (x k - lse x n) - (if c = k then 1 else 0))) = exp (x k - lse x n) - y k"
  proof -
    have "(\<Sum>c < n. y c * (exp (x k - lse x n) - (if c = k then 1 else 0)))
        = (\<Sum>c < n. y c) * exp (x k - lse x n) - (\<Sum>c < n. if c = k then y c else 0)"
      by (simp add: right_diff_distrib sum_subtractf sum_distrib_right if_distrib [of "\<lambda>z. _ * z"] cong: if_cong)
    then show ?thesis using assms by (simp add: sum.delta)
  qed
  ultimately show ?thesis unfolding row_xent_def by simp
qed

lemma xent_deriv:
  assumes "r < batch" and "k < n" and "(\<Sum>c < n. Y r c) = 1"
  shows "((\<lambda>t. xent batch n (X(r := (X r)(k := t))) Y) has_real_derivative (exp (X r k - lse (X r) n) - Y r k) / of_nat batch) (at (X r k))"
proof -
  have e: "xent batch n (X(r := (X r)(k := t))) Y
      = (row_xent n ((X r)(k := t)) (Y r) + (\<Sum>r' \<in> {..< batch} - {r}. row_xent n (X r') (Y r'))) / of_nat batch" for t
    unfolding xent_def using assms(1) by (subst sum.remove [of _ r]) auto
  show ?thesis
    unfolding e by (rule DERIV_cdivide) (use row_xent_deriv [OF assms(2,3), of "X r"] in \<open>auto intro!: derivative_eq_intros\<close>)
qed

text \<open>The inner loop: row \<open>r\<close> of the gradient and the row's share of the loss.\<close>

definition xent_cell :: "matx \<Rightarrow> matx \<Rightarrow> matx \<Rightarrow> nat \<Rightarrow> nat \<Rightarrow> nat \<Rightarrow> real \<Rightarrow> nat \<Rightarrow> real \<times> real mem \<Rightarrow> (real \<times> real mem) ub" where
  "xent_cell a y d batch C r l c = (\<lambda>(tot, h).
     do { x \<leftarrow> rd h (mx_data a) (r * C + c); yv \<leftarrow> rd h (mx_data y) (r * C + c);
          let p = fm_exp exact (x - l);
          let tot = (if yv > 0 then tot + id (yv * (l - x)) else tot);
          h \<leftarrow> wr h (mx_data d) (r * C + c) ((p - yv) / fm_nat exact batch);
          Some (tot, h) })"

definition xent_grad :: "nat \<Rightarrow> nat \<Rightarrow> (nat \<Rightarrow> nat \<Rightarrow> real) \<Rightarrow> (nat \<Rightarrow> nat \<Rightarrow> real) \<Rightarrow> nat \<Rightarrow> nat \<Rightarrow> real" where
  "xent_grad batch n X Y r c = (exp (X r c - lse (X r) n) - Y r c) / of_nat batch"

lemma xent_inner:
  fixes h :: "real mem"
  assumes "mx_ok h a" and "mx_ok h y" and "mx_ok h d" and "same_shape y a" and "same_shape d a" and "mx_data d \<notin> {mx_data a, mx_data y}"
    and "r < unat (mx_rows a)" and pos: "\<And>c. c < unat (mx_cols a) \<Longrightarrow> 0 \<le> mx_at h y r c"
  defines "C \<equiv> unat (mx_cols a)"
  obtains h' where "for_each [0 ..< C] (xent_cell a y d batch C r (lse (mx_at h a r) C)) (tot, h)
        = Some (tot + row_xent C (mx_at h a r) (mx_at h y r), h')"
    "\<And>q. q \<noteq> mx_data d \<Longrightarrow> h' q = h q" "\<And>q. length (h' q) = length (h q)"
    "\<And>r' c. r' < unat (mx_rows a) \<Longrightarrow> c < C \<Longrightarrow>
       mx_at h' d r' c = (if r' = r then xent_grad batch C (mx_at h a) (mx_at h y) r c else mx_at h d r' c)"
proof -
  let ?l = "lse (mx_at h a r) C" and ?g = "xent_grad batch C (mx_at h a) (mx_at h y) r"
  define P where "P = (\<lambda>n s. case s of (t, h') \<Rightarrow> t = tot + (\<Sum>c < n. mx_at h y r c * (?l - mx_at h a r c)) \<and> (\<forall>q. q \<noteq> mx_data d \<longrightarrow> h' q = h q)
        \<and> (\<forall>q. length (h' q) = length (h q))
        \<and> (\<forall>r' c. r' < unat (mx_rows a) \<longrightarrow> c < C \<longrightarrow> mx_at h' d r' c = (if r' = r \<and> c < n then ?g c else mx_at h d r' c)))"
  have "\<exists>s. for_each [0 ..< C] (xent_cell a y d batch C r ?l) (tot, h) = Some s \<and> P C s"
  proof (rule for_each_invariant)
    fix c s assume c: "c < C" and s: "P c s"
    obtain t h1 where e: "s = (t, h1)" by fastforce
    note inv = s [unfolded e P_def prod.case]
    have cC: "c < unat (mx_cols a)" using c by (simp add: C_def)
    have len: "\<And>q. length (h1 q) = length (h q)" using inv by simp
    have sh: "mx_cols y = mx_cols a" "mx_rows y = mx_rows a" "mx_cols d = mx_cols a" "mx_rows d = mx_rows a"
      using assms(4,5) by (simp_all add: same_shape_def)
    have ok: "mx_ok h1 m = mx_ok h m" for m by (rule mx_ok_len [OF len])
    have same: "h1 (mx_data a) = h (mx_data a)" "h1 (mx_data y) = h (mx_data y)" using inv assms(6) by auto
    have ga: "rd h1 (mx_data a) (r * C + c) = Some (mx_at h a r c)"
      using rd_ok [of h1 a r c] ok assms(1,7) cC same by (simp add: C_def mx_at_def)
    have gy: "rd h1 (mx_data y) (r * C + c) = Some (mx_at h y r c)"
      using rd_ok [of h1 y r c] ok assms(2,7) cC same sh by (simp add: C_def mx_at_def)
    obtain h2 where h2: "wr h1 (mx_data d) (r * unat (mx_cols d) + c) (?g c) = Some h2" "\<And>q. q \<noteq> mx_data d \<Longrightarrow> h2 q = h1 q"
      "\<And>q. length (h2 q) = length (h1 q)"
      "\<And>r' c'. r' < unat (mx_rows d) \<Longrightarrow> c' < unat (mx_cols d) \<Longrightarrow> mx_at h2 d r' c' = (if r' = r \<and> c' = c then ?g c else mx_at h1 d r' c')"
      by (rule matx_set_ok [of h1 d r c "?g c"]) (use ok assms(3,7) cC sh in auto)
    have y0: "mx_at h y r c = 0 \<or> 0 < mx_at h y r c" using pos [OF cC] by linarith
    have "xent_cell a y d batch C r ?l c s = Some (t + mx_at h y r c * (?l - mx_at h a r c), h2)"
      using ga gy h2(1) y0 sh unfolding e xent_cell_def by (auto simp: Let_def xent_grad_def C_def)
    moreover have "P (Suc c) (t + mx_at h y r c * (?l - mx_at h a r c), h2)"
      using inv h2(2-4) sh unfolding P_def by (auto simp: C_def less_Suc_eq)
    ultimately show "\<exists>s'. xent_cell a y d batch C r ?l c s = Some s' \<and> P (Suc c) s'" by blast
  qed (auto simp: P_def)
  then show thesis using that by (auto simp: P_def row_xent_def)
qed

definition xent_state :: "matx \<Rightarrow> matx \<Rightarrow> matx \<Rightarrow> nat \<Rightarrow> real mem \<Rightarrow> nat \<Rightarrow> real \<times> real mem \<Rightarrow> bool" where
  "xent_state a y d batch h i s \<longleftrightarrow> (case s of (t, h') \<Rightarrow>
     t = (\<Sum>r < i. row_xent (unat (mx_cols a)) (mx_at h a r) (mx_at h y r)) \<and> (\<forall>q. q \<noteq> mx_data d \<longrightarrow> h' q = h q)
     \<and> (\<forall>q. length (h' q) = length (h q))
     \<and> (\<forall>r c. r < unat (mx_rows a) \<longrightarrow> c < unat (mx_cols a) \<longrightarrow>
          mx_at h' d r c = (if r < i then xent_grad batch (unat (mx_cols a)) (mx_at h a) (mx_at h y) r c else mx_at h d r c)))"

definition xent_row :: "matx \<Rightarrow> matx \<Rightarrow> matx \<Rightarrow> nat \<Rightarrow> nat \<Rightarrow> real \<times> real mem \<Rightarrow> (real \<times> real mem) ub" where
  "xent_row a y d batch r = (\<lambda>(tot, h). do { l \<leftarrow> row_log_sum exact h (mx_data a) (r * unat (mx_cols a)) (unat (mx_cols a));
     for_each [0 ..< unat (mx_cols a)] (xent_cell a y d batch (unat (mx_cols a)) r l) (tot, h) })"

lemma xent_loop:
  fixes h :: "real mem"
  assumes "mx_ok h a" and "mx_ok h y" and "mx_ok h d" and "same_shape y a" and "same_shape d a" and "mx_data d \<notin> {mx_data a, mx_data y}"
    and pos: "\<And>r c. r < unat (mx_rows a) \<Longrightarrow> c < unat (mx_cols a) \<Longrightarrow> 0 \<le> mx_at h y r c"
  shows "\<exists>s. for_each [0 ..< unat (mx_rows a)] (xent_row a y d batch) (0, h) = Some s \<and> xent_state a y d batch h (unat (mx_rows a)) s"
proof (rule for_each_invariant)
  fix i s assume i: "i < unat (mx_rows a)" and s: "xent_state a y d batch h i s"
  obtain t h1 where e: "s = (t, h1)" by fastforce
  note inv = s [unfolded e xent_state_def prod.case]
  have len: "\<And>q. length (h1 q) = length (h q)" using inv by simp
  have ok: "mx_ok h1 m = mx_ok h m" for m by (rule mx_ok_len [OF len])
  have same: "mx_at h1 a r = mx_at h a r" "mx_at h1 y r = mx_at h y r" for r using inv assms(6) by (auto simp: mx_at_def intro!: ext)
  have l: "row_log_sum exact h1 (mx_data a) (i * unat (mx_cols a)) (unat (mx_cols a)) = Some (lse (mx_at h a i) (unat (mx_cols a)))"
    using row_log_sum_eq [of h1 a i] ok assms(1) i same by simp
  obtain h2 where h2: "for_each [0 ..< unat (mx_cols a)] (xent_cell a y d batch (unat (mx_cols a)) i (lse (mx_at h1 a i) (unat (mx_cols a)))) (t, h1)
        = Some (t + row_xent (unat (mx_cols a)) (mx_at h1 a i) (mx_at h1 y i), h2)"
    "\<And>q. q \<noteq> mx_data d \<Longrightarrow> h2 q = h1 q" "\<And>q. length (h2 q) = length (h1 q)"
    "\<And>r' c. r' < unat (mx_rows a) \<Longrightarrow> c < unat (mx_cols a) \<Longrightarrow>
       mx_at h2 d r' c = (if r' = i then xent_grad batch (unat (mx_cols a)) (mx_at h1 a) (mx_at h1 y) i c else mx_at h1 d r' c)"
    by (rule xent_inner [of h1 a y d i batch t]) (use ok assms(1-6) i pos same in auto)
  have g: "xent_grad batch n (mx_at h1 a) (mx_at h1 y) i c = xent_grad batch n (mx_at h a) (mx_at h y) i c" for n c
    by (simp add: xent_grad_def same)
  have "xent_row a y d batch i s = Some (t + row_xent (unat (mx_cols a)) (mx_at h a i) (mx_at h y i), h2)"
    using l h2(1) unfolding e xent_row_def by (simp add: same)
  moreover have "xent_state a y d batch h (Suc i) (t + row_xent (unat (mx_cols a)) (mx_at h a i) (mx_at h y i), h2)"
    using inv h2(2-4) unfolding xent_state_def g by (auto simp: less_Suc_eq)
  ultimately show "\<exists>s'. xent_row a y d batch i s = Some s' \<and> xent_state a y d batch h (Suc i) s'" by blast
qed (simp_all add: xent_state_def)

text \<open>
  C10. Exact arithmetic, well-formed matrices of one shape in separate blocks, every row of the targets
  non-negative with sum 1 (one-hot rows are). \<open>loss_softmax_xent\<close> succeeds; its loss is the mean over the
  batch of \<open>\<Sum> y (log \<Sum> exp x - x)\<close>, without the subtraction of the maximum that keeps the code from
  overflowing; and the matrix it fills is the gradient of that loss with respect to every logit.
  Nothing else changes.
\<close>

theorem loss_softmax_xent_gradient:
  fixes h :: "real mem"
  assumes "mx_ok h a" and "mx_ok h y" and "mx_ok h d" and "same_shape y a" and "same_shape d a" and "mx_data d \<notin> {mx_data a, mx_data y}"
  defines "B \<equiv> unat (mx_rows a)" and "C \<equiv> unat (mx_cols a)"
  assumes "\<forall>r < B. (\<forall>c < C. 0 \<le> mx_at h y r c) \<and> (\<Sum>c < C. mx_at h y r c) = 1"
  shows "\<exists>h'. loss_softmax_xent id id exact exact h (Some a) (Some y) True (Some d)
        = Some (ERR_OK, Some ((\<Sum>r < B. \<Sum>c < C. mx_at h y r c * (ln (\<Sum>k < C. exp (mx_at h a r k)) - mx_at h a r c)) / real B), h')
     \<and> (\<forall>q. q \<noteq> mx_data d \<longrightarrow> h' q = h q)
     \<and> (\<forall>r < B. \<forall>k < C. ((\<lambda>t. xent B C ((mx_at h a)(r := (mx_at h a r)(k := t))) (mx_at h y)) has_real_derivative mx_at h' d r k)
          (at (mx_at h a r k)))"
proof -
  have sh: "mx_cols y = mx_cols a" "mx_rows y = mx_rows a" "mx_cols d = mx_cols a" "mx_rows d = mx_rows a"
    using assms(4,5) by (simp_all add: same_shape_def)
  have nz: "B \<noteq> 0" "C \<noteq> 0" using mx_ok_bounds(3,4) [OF assms(1)] by (simp_all add: B_def C_def)
  obtain t h' where L: "for_each [0 ..< B] (xent_row a y d B) (0, h) = Some (t, h')"
     "t = (\<Sum>r < B. row_xent C (mx_at h a r) (mx_at h y r))" "\<forall>q. q \<noteq> mx_data d \<longrightarrow> h' q = h q"
     "\<And>r c. r < B \<Longrightarrow> c < C \<Longrightarrow> mx_at h' d r c = xent_grad B C (mx_at h a) (mx_at h y) r c"
    using xent_loop [OF assms(1-6), of B] assms(9) unfolding B_def C_def xent_state_def by auto
  have run: "loss_softmax_xent id id exact exact h (Some a) (Some y) True (Some d) = Some (ERR_OK, Some (t / real B), h')"
  proof -
    have "loss_softmax_xent id id exact exact h (Some a) (Some y) True (Some d)
        = do { (tot, h) \<leftarrow> for_each [0 ..< B] (xent_row a y d B) (0, h); Some (ERR_OK, Some (tot / real B), h) }"
      using assms(1,2) nz sh unfolding loss_softmax_xent_def xent_cell_def xent_row_def B_def C_def
      by (simp add: same_shape_def Let_def del: of_nat_unat split del: if_split cong: if_cong)
    then show ?thesis using L(1) by simp
  qed
  have "((\<lambda>u. xent B C ((mx_at h a)(r := (mx_at h a r)(k := u))) (mx_at h y)) has_real_derivative mx_at h' d r k) (at (mx_at h a r k))"
    if "r < B" "k < C" for r k
    unfolding L(4) [OF that] xent_grad_def using xent_deriv [OF that, of "mx_at h y" "mx_at h a"] assms(9) that by simp
  then show ?thesis using run L(2,3) by (intro exI [of _ h']) (simp add: row_xent_def lse_def)
qed

theorem loss_softmax_xent_gradient_witness:
  "\<exists>h' v. loss_softmax_xent id id exact exact ((\<lambda>_. [])(1 := [3, 5], 2 := [0, 1], 3 := [0, 0])) (Some \<lparr>mx_data = 1, mx_rows = 1, mx_cols = 2, mx_owns = 1\<rparr>)
      (Some \<lparr>mx_data = 2, mx_rows = 1, mx_cols = 2, mx_owns = 1\<rparr>) True (Some \<lparr>mx_data = 3, mx_rows = 1, mx_cols = 2, mx_owns = 1\<rparr>)
      = Some (ERR_OK, Some v, h')"
proof -
  let ?h = "(\<lambda>_. [])(1 := [3, 5], 2 := [0, 1], 3 := [0, 0 :: real])" and ?a = "\<lparr>mx_data = 1, mx_rows = 1, mx_cols = 2, mx_owns = 1\<rparr>"
  let ?y = "\<lparr>mx_data = 2, mx_rows = 1, mx_cols = 2, mx_owns = 1\<rparr>" and ?d = "\<lparr>mx_data = 3, mx_rows = 1, mx_cols = 2, mx_owns = 1\<rparr>"
  have ok: "mx_ok ?h ?a" "mx_ok ?h ?y" "mx_ok ?h ?d" "same_shape ?y ?a" "same_shape ?d ?a" "mx_data ?d \<notin> {mx_data ?a, mx_data ?y}"
    by (simp_all add: mx_ok_def same_shape_def)
  have "\<forall>r < unat (mx_rows ?a). (\<forall>c < unat (mx_cols ?a). 0 \<le> mx_at ?h ?y r c) \<and> (\<Sum>c < unat (mx_cols ?a). mx_at ?h ?y r c) = 1"
    by (auto simp: mx_at_def less_2_cases_iff lessThan_nat_numeral)
  from loss_softmax_xent_gradient [OF ok this] show ?thesis by blast
qed

section \<open>Mean squared error\<close>

definition mse :: "real list \<Rightarrow> real list \<Rightarrow> real" where
  "mse x y = (\<Sum>i < length x. (x ! i - y ! i) * (x ! i - y ! i)) / of_nat (length x)"

lemma mse_deriv:
  assumes "i < length x"
  shows "((\<lambda>t. mse (x[i := t]) y) has_real_derivative 2 * (x ! i - y ! i) / of_nat (length x)) (at (x ! i))"
proof -
  have e: "mse (x[i := t]) y = ((t - y ! i) * (t - y ! i) + (\<Sum>j \<in> {..< length x} - {i}. (x ! j - y ! j) * (x ! j - y ! j))) / of_nat (length x)" for t
    unfolding mse_def length_list_update using assms by (subst sum.remove [of _ i]) (auto intro!: arg_cong2 [where f = "(/)"] sum.cong)
  show ?thesis unfolding e by (rule DERIV_cdivide) (auto intro!: derivative_eq_intros)
qed

definition mse_cell :: "matx \<Rightarrow> matx \<Rightarrow> matx \<Rightarrow> nat \<Rightarrow> nat \<Rightarrow> real \<times> real mem \<Rightarrow> (real \<times> real mem) option" where
  "mse_cell a y d n i = (\<lambda>(tot, h). do { x \<leftarrow> rd h (mx_data a) i; yv \<leftarrow> rd h (mx_data y) i;
     let diff = x - yv; let tot = tot + id (diff * diff);
     h \<leftarrow> wr h (mx_data d) i (2 * diff / of_nat n); Some (tot, h) })"

text \<open>\<open>loss_mse\<close> delivers the loss and its gradient, in exact arithmetic.\<close>

theorem loss_mse_gradient:
  fixes h :: "real mem"
  assumes "mx_ok h a" and "mx_ok h y" and "mx_ok h d" and "same_shape a y" and "same_shape d a" and "mx_data d \<notin> {mx_data a, mx_data y}"
  defines "xs \<equiv> h (mx_data a)" and "ys \<equiv> h (mx_data y)"
  shows "\<exists>h'. loss_mse id id exact exact h (Some a) (Some y) True (Some d) = Some (ERR_OK, Some (mse xs ys), h')
     \<and> (\<forall>q. q \<noteq> mx_data d \<longrightarrow> h' q = h q)
     \<and> (\<forall>i < length xs. ((\<lambda>t. mse (xs[i := t]) ys) has_real_derivative h' (mx_data d) ! i) (at (xs ! i)))"
proof -
  let ?n = "length xs"
  have n: "mx_count a = ?n" using mx_ok_bounds(5) [OF assms(1)] by (simp add: xs_def)
  have l: "length ys = ?n" "length (h (mx_data d)) = ?n" using assms(1-5) by (auto simp: xs_def ys_def mx_ok_def same_shape_def)
  define P where "P = (\<lambda>i (t, s). t = (\<Sum>j < i. (xs ! j - ys ! j) * (xs ! j - ys ! j)) \<and> (\<forall>q. q \<noteq> mx_data d \<longrightarrow> s q = h q)
     \<and> length (s (mx_data d)) = ?n \<and> (\<forall>j < i. s (mx_data d) ! j = 2 * (xs ! j - ys ! j) / of_nat ?n))"
  have "\<exists>s. for_each [0 ..< ?n] (mse_cell a y d ?n) (0, h) = Some s \<and> P ?n s"
  proof (rule for_each_invariant)
    fix i s assume i: "i < ?n" and p: "P i s"
    obtain t g where s: "s = (t, g)" by fastforce
    note inv = p [unfolded P_def s prod.case]
    have "rd g (mx_data a) i = Some (xs ! i)" "rd g (mx_data y) i = Some (ys ! i)"
      using inv i l assms(6) by (auto simp: rd_def xs_def ys_def)
    then show "\<exists>s'. mse_cell a y d ?n i s = Some s' \<and> P (Suc i) s'"
      using inv i unfolding s P_def mse_cell_def by (auto simp: wr_def less_Suc_eq Let_def)
  qed (use l in \<open>auto simp: P_def\<close>)
  then obtain t h' where L: "for_each [0 ..< ?n] (mse_cell a y d ?n) (0, h) = Some (t, h')" "P ?n (t, h')" by auto
  have "loss_mse id id exact exact h (Some a) (Some y) True (Some d) = Some (ERR_OK, Some (mse xs ys), h')"
    using L assms(1,2,4,5) unfolding loss_mse_def P_def mse_cell_def by (simp add: Let_def n mse_def)
  then show ?thesis using L(2) mse_deriv [of _ xs ys] by (intro exI [of _ h']) (auto simp: P_def)
qed

end
