(* ===== verification/Dataset.thy ===== *)
theory Dataset
  imports Nn Stats FileIo
begin

text \<open>
  Data sets of \<open>src/ml/dataset.c\<close>: reading comma-separated values, shuffling, batches, z-scores, one-hot
  labels and accuracy. Matrices are those of theory Matx. \<open>strtof\<close> is a parameter: the value it reads
  at the start of a text and the number of bytes it consumes, 0 when there is no number.
\<close>

section \<open>Comma-separated values\<close>

text \<open>\<open>fgets\<close> with room for \<open>k\<close> bytes: the line it reads and the rest of the stream.\<close>

fun fgets :: "nat \<Rightarrow> byte list \<Rightarrow> byte list \<times> byte list" where
  "fgets 0 s = ([], s)"
| "fgets (Suc k) [] = ([], [])"
| "fgets (Suc k) (c # s) = (if c = 10 then ([c], s) else case fgets k s of (l, rest) \<Rightarrow> (c # l, rest))"

definition count_fields :: "byte list \<Rightarrow> nat" where
  "count_fields line = foldl (\<lambda>n c. if c = 44 then n + 1 else n) 1 line"

text \<open>
  The local variables of \<open>dataset_load_csv\<close>. \<open>cs_vals\<close> are the values written, so that \<open>count\<close> is
  their number; \<open>cs_cap\<close> is the capacity of the block, which is null while it is 0.
\<close>

record 'a csv =
  cs_vals :: "'a list"
  cs_cap :: nat
  cs_cols :: nat
  cs_rows :: nat
  cs_skipped :: bool

text \<open>Doubling the capacity: the inner result is \<open>None\<close> on overflow.\<close>

partial_function (option) grow_cap :: "nat \<Rightarrow> nat \<Rightarrow> nat option ub" where
  "grow_cap cap need =
     (if cap < need then if cap > unat SIZE_MAX div 2 then Some None else grow_cap (cap * 2) need
      else Some (Some cap))"

text \<open>\<open>alloc n\<close> is whether \<open>realloc\<close> to \<open>n\<close> bytes succeeds.\<close>

definition csv_reserve :: "(nat \<Rightarrow> bool) \<Rightarrow> 'a csv \<Rightarrow> (error_code \<times> 'a csv) ub" where
  "csv_reserve alloc st =
     (let count = List.length (cs_vals st); cols = cs_cols st; cap = cs_cap st in
      if cols > unat SIZE_MAX - count then Some (ERR_OVERFLOW, st)
      else if count + cols > cap then
        do { g \<leftarrow> grow_cap (if cap = 0 then 256 else cap) (count + cols);
             (case g of
                None \<Rightarrow> Some (ERR_OVERFLOW, st)
              | Some new_cap \<Rightarrow>
                  if new_cap > unat SIZE_MAX div 4 then Some (ERR_OVERFLOW, st)
                  else if \<not> alloc (new_cap * 4) then Some (ERR_NOMEM, st)
                  else Some (ERR_OK, st\<lparr>cs_cap := new_cap\<rparr>)) }
      else Some (ERR_OK, st))"

text \<open>The cells of a line; a value written past the capacity is undefined.\<close>

fun csv_cells :: "(byte list \<Rightarrow> 'a \<times> nat) \<Rightarrow> nat \<Rightarrow> byte list \<Rightarrow> 'a csv \<Rightarrow> (error_code \<times> 'a csv) ub" where
  "csv_cells strtof 0 p st = Some (ERR_OK, st)"
| "csv_cells strtof (Suc n) p st =
     (case strtof p of (v, k) \<Rightarrow>
        if List.length (cs_vals st) \<ge> cs_cap st then None
        else let st = st\<lparr>cs_vals := cs_vals st @ [v]\<rparr> in
          if k = 0 then Some (ERR_IO, st)
          else csv_cells strtof n (dropWhile (\<lambda>c. c = 44 \<or> c = 32) (drop k p)) st)"

text \<open>One line of the stream; the buffer holds 4096 bytes and the text ends at the first NUL.\<close>

definition csv_line :: "(byte list \<Rightarrow> 'a \<times> nat) \<Rightarrow> (nat \<Rightarrow> bool) \<Rightarrow> byte list \<Rightarrow> 'a csv \<Rightarrow> (error_code \<times> 'a csv) ub" where
  "csv_line strtof alloc buf st =
     (let line = takeWhile (\<lambda>c. c \<noteq> 0) buf in
      if List.length line + 1 \<ge> 4096 then Some (ERR_UNSUPPORTED, st)
      else if \<not> cs_skipped st then Some (ERR_OK, st\<lparr>cs_skipped := True\<rparr>)
      else if line = [] \<or> hd line = 10 \<or> hd line = 13 then Some (ERR_OK, st)
      else let fields = count_fields line;
               st = (if cs_cols st = 0 then st\<lparr>cs_cols := fields\<rparr> else st) in
        if fields \<noteq> cs_cols st then Some (ERR_IO, st)
        else do { (err, st) \<leftarrow> csv_reserve alloc st;
                  if err \<noteq> ERR_OK then Some (err, st)
                  else do { (err, st) \<leftarrow> csv_cells strtof (cs_cols st) line st;
                            if err \<noteq> ERR_OK then Some (err, st)
                            else Some (ERR_OK, st\<lparr>cs_rows := cs_rows st + 1\<rparr>) } })"

lemma fgets_rest: "length (snd (fgets k s)) \<le> length s"
  by (induction k s rule: fgets.induct) (auto split: prod.splits)

lemma fgets_shorter: "s \<noteq> [] \<Longrightarrow> length (snd (fgets (Suc k) s)) < length s"
proof (cases s)
  case (Cons c t)
  then show ?thesis using fgets_rest [of k t] by (auto split: prod.splits)
qed simp

function csv_loop :: "(byte list \<Rightarrow> 'a \<times> nat) \<Rightarrow> (nat \<Rightarrow> bool) \<Rightarrow> byte list \<Rightarrow> 'a csv \<Rightarrow> (error_code \<times> 'a csv) ub" where
  "csv_loop strtof alloc s st =
     (if s = [] then Some (ERR_OK, st)
      else do { (err, st) \<leftarrow> csv_line strtof alloc (fst (fgets 4095 s)) st;
                if err \<noteq> ERR_OK then Some (err, st) else csv_loop strtof alloc (snd (fgets 4095 s)) st })"
  by pat_completeness auto

termination
  by (relation "measure (\<lambda>(_, _, s, _). length s)") (use fgets_shorter [of _ 4094] in simp_all)

declare csv_loop.simps [simp del]

text \<open>\<open>p\<close> is the address \<open>calloc\<close> answers for the result; \<open>fs\<close> gives the bytes of the files that open.\<close>

definition dataset_load_csv ::
  "(byte list \<Rightarrow> 'a::zero \<times> nat) \<Rightarrow> (nat \<Rightarrow> bool) \<Rightarrow> u64 \<Rightarrow> files \<Rightarrow> 'a mem \<Rightarrow> string option \<Rightarrow> bool \<Rightarrow> matx option
    \<Rightarrow> (error_code \<times> 'a mem \<times> matx option) ub" where
  "dataset_load_csv strtof alloc p fs h pathp has_header outp =
     (if pathp = None \<or> outp = None then Some (ERR_INVALID_ARG, h, outp)
      else case fs (the pathp) of
        None \<Rightarrow> Some (ERR_NOT_FOUND, h, outp)
      | Some content \<Rightarrow>
          do { (err, st) \<leftarrow> csv_loop strtof alloc content
                 \<lparr>cs_vals = [], cs_cap = 0, cs_cols = 0, cs_rows = 0, cs_skipped = (\<not> has_header)\<rparr>;
               let err = (if err = ERR_OK \<and> (cs_rows st = 0 \<or> cs_cap st = 0) then ERR_IO else err);
               if err \<noteq> ERR_OK then Some (err, h, outp)
               else case matx_init p h outp (word_of_nat (cs_rows st)) (word_of_nat (cs_cols st)) of (err, h, outp) \<Rightarrow>
                 if err \<noteq> ERR_OK then Some (err, h, outp)
                 else do { h \<leftarrow> for_each [0 ..< unat (word_of_nat (cs_rows st) * word_of_nat (cs_cols st) :: size_t)]
                                  (\<lambda>i h. do { x \<leftarrow> elt (cs_vals st) i; wr h (mx_data (the outp)) i x }) h;
                           Some (ERR_OK, h, outp) } })"

section \<open>Shuffling and batches\<close>

text \<open>Exchanging rows \<open>i\<close> and \<open>j\<close> through the temporary block \<open>t\<close>.\<close>

definition swap_rows :: "u64 \<Rightarrow> matx \<Rightarrow> size_t \<Rightarrow> size_t \<Rightarrow> 'a mem \<Rightarrow> 'a mem ub" where
  "swap_rows t m i j h =
     (let cols = unat (mx_cols m); ri = unat (i * mx_cols m); rj = unat (j * mx_cols m) in
      do { h \<leftarrow> copy_elems t 0 (mx_data m) ri cols h;
           h \<leftarrow> copy_elems (mx_data m) ri (mx_data m) rj cols h;
           copy_elems (mx_data m) rj t 0 cols h })"

text \<open>\<open>t\<close> is the address \<open>malloc\<close> answers for the temporary row, 0 when it fails.\<close>

definition dataset_shuffle ::
  "u64 \<Rightarrow> 'a::zero mem \<Rightarrow> matx option \<Rightarrow> matx option \<Rightarrow> rng option \<Rightarrow> (error_code \<times> 'a mem \<times> rng option) ub" where
  "dataset_shuffle t h xp yp rp =
     (if \<not> has_data xp \<or> rp = None then Some (ERR_INVALID_ARG, h, rp)
      else let x = the xp in
        if yp \<noteq> None \<and> (mx_data (the yp) = 0 \<or> mx_rows (the yp) \<noteq> mx_rows x) then Some (ERR_INVALID_ARG, h, rp)
        else let max_cols = (if yp \<noteq> None \<and> mx_cols (the yp) > mx_cols x then mx_cols (the yp) else mx_cols x) in
          if t = 0 then Some (ERR_NOMEM, h, rp)
          else
            do { (h, r) \<leftarrow> for_each (rev [1 ..< Suc (unat (mx_rows x - 1))]) (\<lambda>i (h, r).
                   do { (v, r) \<leftarrow> rng_range_u32 r (ucast (word_of_nat i + 1 :: size_t));
                        let j = (ucast v :: size_t);
                        if j = word_of_nat i then Some (h, r)
                        else do { h \<leftarrow> swap_rows t x (word_of_nat i) j h;
                                  h \<leftarrow> (if yp \<noteq> None then swap_rows t (the yp) (word_of_nat i) j h else Some h);
                                  Some (h, r) } })
                   (h(t := replicate (unat (max_cols * 4) div 4) 0), the rp);
                 Some (ERR_OK, h(t := []), Some r) })"

definition dataset_batch :: "'a mem \<Rightarrow> matx option \<Rightarrow> size_t \<Rightarrow> size_t \<Rightarrow> matx option \<Rightarrow> (error_code \<times> 'a mem) ub" where
  "dataset_batch h srcp start count dstp =
     (if \<not> has_data srcp \<or> \<not> has_data dstp \<or> count = 0 then Some (ERR_INVALID_ARG, h)
      else let src = the srcp; dst = the dstp in
        if count > mx_rows src \<or> start > mx_rows src - count then Some (ERR_INVALID_ARG, h)
        else if mx_rows dst \<noteq> count \<or> mx_cols dst \<noteq> mx_cols src then Some (ERR_INVALID_ARG, h)
        else do { h \<leftarrow> copy_elems (mx_data dst) 0 (mx_data src) (unat (start * mx_cols src)) (unat (count * mx_cols src)) h;
                  Some (ERR_OK, h) })"

section \<open>Z-scores, one-hot labels, accuracy\<close>

text \<open>One column: its mean and variance as Welford computes them, then every value standardised.\<close>

definition zscore_column ::
  "('a \<Rightarrow> 'b) \<Rightarrow> ('b \<Rightarrow> 'a) \<Rightarrow> 'a::{minus,inverse,ord} fmath \<Rightarrow> 'b::{zero,plus,minus,times,inverse} fmath
    \<Rightarrow> matx \<Rightarrow> nat \<Rightarrow> 'a mem \<Rightarrow> 'a mem ub" where
  "zscore_column widen narrow k d x c h =
     do { (mean, m2) \<leftarrow> for_each [0 ..< unat (mx_rows x)]
            (\<lambda>r s. do { v \<leftarrow> matx_get h x r c; Some (welford_step d r (widen v) s) }) (0, 0);
          let var = m2 / fm_nat d (unat (mx_rows x - 1));
          let std = narrow (fm_sqrt d var);
          let fmean = narrow mean;
          for_each [0 ..< unat (mx_rows x)] (\<lambda>r h.
            do { v \<leftarrow> matx_get h x r c;
                 let centered = v - fmean;
                 matx_set h x r c (if std > fm_lit k (1 / 10 ^ 12) then centered / std else centered) }) h }"

definition dataset_normalize_zscore ::
  "('a \<Rightarrow> 'b) \<Rightarrow> ('b \<Rightarrow> 'a) \<Rightarrow> 'a::{minus,inverse,ord} fmath \<Rightarrow> 'b::{zero,plus,minus,times,inverse} fmath
    \<Rightarrow> 'a mem \<Rightarrow> matx option \<Rightarrow> (error_code \<times> 'a mem) ub" where
  "dataset_normalize_zscore widen narrow k d h xp =
     (if \<not> has_data xp \<or> mx_rows (the xp) < 2 then Some (ERR_INVALID_ARG, h)
      else do { h \<leftarrow> for_each [0 ..< unat (mx_cols (the xp))] (zscore_column widen narrow k d (the xp)) h;
                Some (ERR_OK, h) })"

text \<open>
  The loop over the labels stops at the first bad one: the state is the error with the memory. A
  label that is not a number passes both tests; converting it is undefined.
\<close>

definition dataset_one_hot ::
  "'a::{zero,one,ord} fmath \<Rightarrow> 'a mem \<Rightarrow> matx option \<Rightarrow> size_t \<Rightarrow> matx option \<Rightarrow> (error_code \<times> 'a mem) ub" where
  "dataset_one_hot k h labelsp classes outp =
     (if \<not> has_data labelsp \<or> mx_cols (the labelsp) \<noteq> 1 \<or> classes = 0 then Some (ERR_INVALID_ARG, h)
      else let labels = the labelsp in
        if \<not> has_data outp \<or> mx_rows (the outp) \<noteq> mx_rows labels \<or> mx_cols (the outp) \<noteq> classes then Some (ERR_INVALID_ARG, h)
        else let out = the outp in
          do { h \<leftarrow> zero_data h out;
               for_each [0 ..< unat (mx_rows labels)] (\<lambda>r (err, h).
                 if err \<noteq> ERR_OK then Some (err, h)
                 else do { v \<leftarrow> matx_get h labels r 0;
                           if v < 0 \<or> v \<ge> fm_nat k (unat classes) then Some (ERR_INVALID_ARG, h)
                           else do { c \<leftarrow> fm_trunc k v; h \<leftarrow> matx_set h out r (nat c) 1; Some (ERR_OK, h) } })
                 (ERR_OK, h) })"

definition dataset_accuracy ::
  "'a::{inverse,ord} fmath \<Rightarrow> 'a mem \<Rightarrow> matx option \<Rightarrow> matx option \<Rightarrow> bool \<Rightarrow> (error_code \<times> 'a option) ub" where
  "dataset_accuracy k h predp targetp out_acc =
     (if predp = None \<or> targetp = None \<or> \<not> has_data predp \<or> \<not> has_data targetp \<or> \<not> out_acc then Some (ERR_INVALID_ARG, None)
      else let pred = the predp; target = the targetp in
        if mx_rows pred \<noteq> mx_rows target \<or> mx_cols pred \<noteq> mx_cols target then Some (ERR_INVALID_ARG, None)
        else if mx_rows pred = 0 then Some (ERR_INVALID_ARG, None)
        else
          do { (err, correct) \<leftarrow> for_each [0 ..< unat (mx_rows pred)] (\<lambda>r (err, correct).
                 if err \<noteq> ERR_OK then Some (err, correct)
                 else do { (err, p) \<leftarrow> matx_row_argmax h predp (word_of_nat r) True;
                           if err \<noteq> ERR_OK then Some (err, correct)
                           else do { (err, t) \<leftarrow> matx_row_argmax h targetp (word_of_nat r) True;
                                     Some (err, if err = ERR_OK \<and> p = t then correct + 1 else correct) } })
                 (ERR_OK, 0 :: nat);
               Some (if err \<noteq> ERR_OK then (err, None) else (ERR_OK, Some (fm_nat k correct / fm_nat k (unat (mx_rows pred))))) })"

end
