(* ===== verification/DataCsv.thy ===== *)
theory DataCsv
  imports Dataset MatxOps CLib
begin

text \<open>
  Reading comma-separated values: on every file the loader stays inside its buffers and ends, and a
  table written as text is read back.
\<close>

section \<open>Buffers\<close>

text \<open>Doubling ends, reaches what is needed and less than twice as much.\<close>

lemma grow_cap_returns:
  assumes "0 < cap"
  shows "\<exists>g. grow_cap cap need = Some g \<and> (\<forall>c. g = Some c \<longrightarrow> need \<le> c \<and> cap \<le> c \<and> c < max (Suc cap) (2 * need))
     \<and> (g = None \<longrightarrow> unat SIZE_MAX div 2 < need)"
  using assms
proof (induction "need - cap" arbitrary: cap rule: less_induct)
  case less
  show ?case
  proof (cases "cap < need")
    case False
    then show ?thesis by (subst grow_cap.simps) auto
  next
    case True
    show ?thesis
    proof (cases "cap > unat SIZE_MAX div 2")
      case True
      then show ?thesis using \<open>cap < need\<close> by (subst grow_cap.simps) auto
    next
      case False
      have "grow_cap cap need = grow_cap (cap * 2) need"
        using True False by (subst grow_cap.simps) simp
      moreover have "need - cap * 2 < need - cap" "0 < cap * 2" using True less.prems by auto
      ultimately show ?thesis using less.hyps [of "cap * 2"] True by (auto simp: max_def split: if_splits)
    qed
  qed
qed

text \<open>What holds between two lines.\<close>

definition csv_inv :: "'a csv \<Rightarrow> bool" where
  "csv_inv st \<longleftrightarrow> length (cs_vals st) \<le> cs_cap st \<and> cs_cap st \<le> unat SIZE_MAX div 4
     \<and> length (cs_vals st) = cs_rows st * cs_cols st \<and> (cs_cols st = 0 \<longrightarrow> cs_rows st = 0)"

lemma csv_reserve_ok:
  assumes "length (cs_vals st) \<le> cs_cap st" and "cs_cap st \<le> unat SIZE_MAX div 4"
  obtains err st' where "csv_reserve alloc st = Some (err, st')" "st' = st\<lparr>cs_cap := cs_cap st'\<rparr>"
    "err = ERR_OK \<Longrightarrow> length (cs_vals st) + cs_cols st \<le> cs_cap st' \<and> cs_cap st \<le> cs_cap st' \<and> cs_cap st' \<le> unat SIZE_MAX div 4"
    "err \<noteq> ERR_OK \<Longrightarrow> (\<exists>n. \<not> alloc n) \<or> unat SIZE_MAX div 8 < length (cs_vals st) + cs_cols st"
proof -
  let ?need = "length (cs_vals st) + cs_cols st" and ?cap = "if cs_cap st = 0 then 256 else cs_cap st"
  have pos: "0 < ?cap" by simp
  obtain g where g: "grow_cap ?cap ?need = Some g" "\<And>c. g = Some c \<Longrightarrow> ?need \<le> c \<and> ?cap \<le> c \<and> c < max (Suc ?cap) (2 * ?need)"
    "g = None \<Longrightarrow> unat SIZE_MAX div 2 < ?need"
    using grow_cap_returns [of ?cap ?need, OF pos] by blast
  show thesis
  proof (cases "cs_cols st > unat SIZE_MAX - length (cs_vals st)")
    case True
    then show thesis by (intro that [of ERR_OVERFLOW st]) (auto simp: csv_reserve_def)
  next
    case room: False
    show thesis
    proof (cases "?need > cs_cap st")
      case False
      then show thesis using room assms by (intro that [of ERR_OK st]) (auto simp: csv_reserve_def Let_def)
    next
      case True
      show thesis
      proof (cases g)
        case None
        then have "csv_reserve alloc st = Some (ERR_OVERFLOW, st)" using True room g(1) by (auto simp: csv_reserve_def Let_def)
        then show thesis using g(3) [OF None] by (intro that [of ERR_OVERFLOW st]) auto
      next
        case (Some c)
        note c = g(2) [OF Some]
        have r: "csv_reserve alloc st = (if c > unat SIZE_MAX div 4 then Some (ERR_OVERFLOW, st)
            else if \<not> alloc (c * 4) then Some (ERR_NOMEM, st) else Some (ERR_OK, st\<lparr>cs_cap := c\<rparr>))"
          using True room g(1) Some by (auto simp: csv_reserve_def Let_def)
        show thesis
        proof (cases "c > unat SIZE_MAX div 4")
          case True
          then have "unat SIZE_MAX div 8 < ?need"
            using c assms \<open>?need > cs_cap st\<close> by (auto simp: max_def unat_SIZE_MAX split: if_splits)
          then show thesis using True r by (intro that [of ERR_OVERFLOW st]) auto
        next
          case False
          then show thesis using r c assms
            by (cases "alloc (c * 4)") (intro that [of ERR_OK "st\<lparr>cs_cap := c\<rparr>"] that [of ERR_NOMEM st]; auto split: if_splits)+
        qed
      qed
    qed
  qed
qed

lemma csv_cells_ok:
  assumes "length (cs_vals st) + n \<le> cs_cap st"
  obtains err vs where "csv_cells strtof n p st = Some (err, st\<lparr>cs_vals := cs_vals st @ vs\<rparr>)" "length vs \<le> n" "err = ERR_OK \<Longrightarrow> length vs = n"
proof -
  have "\<exists>err vs. csv_cells strtof n p st = Some (err, st\<lparr>cs_vals := cs_vals st @ vs\<rparr>) \<and> length vs \<le> n \<and> (err = ERR_OK \<longrightarrow> length vs = n)"
    using assms
  proof (induction n arbitrary: p st)
    case 0
    then show ?case by (intro exI [of _ ERR_OK] exI [of _ "[]"]) simp
  next
    case (Suc n)
    obtain v k where vk: "strtof p = (v, k)" by fastforce
    show ?case
    proof (cases "k = 0")
      case True
      then show ?thesis using Suc.prems vk by (intro exI [of _ ERR_IO] exI [of _ "[v]"]) auto
    next
      case False
      obtain err vs where "csv_cells strtof n (dropWhile (\<lambda>c. c = 44 \<or> c = 32) (drop k p)) (st\<lparr>cs_vals := cs_vals st @ [v]\<rparr>)
          = Some (err, st\<lparr>cs_vals := cs_vals st @ [v]\<rparr>\<lparr>cs_vals := cs_vals (st\<lparr>cs_vals := cs_vals st @ [v]\<rparr>) @ vs\<rparr>)"
        "length vs \<le> n" "err = ERR_OK \<longrightarrow> length vs = n"
        using Suc.IH [of "st\<lparr>cs_vals := cs_vals st @ [v]\<rparr>" "dropWhile (\<lambda>c. c = 44 \<or> c = 32) (drop k p)"] Suc.prems by auto
      then show ?thesis using Suc.prems vk False by (intro exI [of _ err] exI [of _ "v # vs"]) simp
    qed
  qed
  then show thesis using that by blast
qed

lemma count_fields_eq: "count_fields line = Suc (length (filter (\<lambda>c. c = 44) line))"
proof -
  have "foldl (\<lambda>n c. if c = 44 then n + 1 else n) k line = k + length (filter (\<lambda>c. c = 44) line)" for k
    by (induction line arbitrary: k) auto
  then show ?thesis by (simp add: count_fields_def)
qed

lemma csv_line_ok:
  assumes "csv_inv st"
  obtains err st' where "csv_line strtof alloc buf st = Some (err, st')" "err = ERR_OK \<Longrightarrow> csv_inv st'"
proof -
  define line where "line = takeWhile (\<lambda>c. c \<noteq> 0) buf"
  define st1 where "st1 = (if cs_cols st = 0 then st\<lparr>cs_cols := count_fields line\<rparr> else st)"
  note inv = assms [unfolded csv_inv_def]
  have i1: "csv_inv st1" "cs_cols st1 \<noteq> 0" using inv by (auto simp: st1_def csv_inv_def count_fields_eq)
  consider "length line + 1 \<ge> 4096" | "length line + 1 < 4096" "\<not> cs_skipped st"
    | "length line + 1 < 4096" "cs_skipped st" "line = [] \<or> hd line = 10 \<or> hd line = 13"
    | "length line + 1 < 4096" "cs_skipped st" "\<not> (line = [] \<or> hd line = 10 \<or> hd line = 13)" "count_fields line \<noteq> cs_cols st1"
    | "length line + 1 < 4096" "cs_skipped st" "\<not> (line = [] \<or> hd line = 10 \<or> hd line = 13)" "count_fields line = cs_cols st1"
    by linarith
  then show thesis
  proof cases
    case 1
    then show thesis by (intro that [of ERR_UNSUPPORTED st]) (auto simp: csv_line_def line_def)
  next
    case 2
    then show thesis using inv by (intro that [of ERR_OK "st\<lparr>cs_skipped := True\<rparr>"]) (auto simp: csv_line_def line_def csv_inv_def)
  next
    case 3
    then show thesis using assms by (intro that [of ERR_OK st]) (auto simp: csv_line_def line_def)
  next
    case 4
    then show thesis by (intro that [of ERR_IO st1]) (auto simp: csv_line_def line_def st1_def Let_def)
  next
    case 5
    have eq: "csv_line strtof alloc buf st = do { (err, st) \<leftarrow> csv_reserve alloc st1;
                  if err \<noteq> ERR_OK then Some (err, st)
                  else do { (err, st) \<leftarrow> csv_cells strtof (cs_cols st) line st;
                            if err \<noteq> ERR_OK then Some (err, st)
                            else Some (ERR_OK, st\<lparr>cs_rows := cs_rows st + 1\<rparr>) } }"
      using 5 unfolding csv_line_def line_def [symmetric] Let_def st1_def [symmetric] by simp
    obtain err st2 where r: "csv_reserve alloc st1 = Some (err, st2)" "st2 = st1\<lparr>cs_cap := cs_cap st2\<rparr>"
      "err = ERR_OK \<Longrightarrow> length (cs_vals st1) + cs_cols st1 \<le> cs_cap st2 \<and> cs_cap st1 \<le> cs_cap st2 \<and> cs_cap st2 \<le> unat SIZE_MAX div 4"
      by (rule csv_reserve_ok [of st1 alloc]) (use i1 in \<open>auto simp: csv_inv_def\<close>)
    have s2: "cs_vals st2 = cs_vals st1" "cs_cols st2 = cs_cols st1" "cs_rows st2 = cs_rows st1" by (subst r(2), simp)+
    show thesis
    proof (cases "err = ERR_OK")
      case False
      then show thesis using r(1) eq by (intro that [of err st2]) auto
    next
      case True
      obtain e vs where c: "csv_cells strtof (cs_cols st2) line st2 = Some (e, st2\<lparr>cs_vals := cs_vals st2 @ vs\<rparr>)"
        "e = ERR_OK \<Longrightarrow> length vs = cs_cols st2"
        by (rule csv_cells_ok [of st2 "cs_cols st2" strtof line]) (use r(3) [OF True] s2 in auto)
      show thesis
      proof (cases "e = ERR_OK")
        case False
        then show thesis using r(1) True c eq by (intro that [of e "st2\<lparr>cs_vals := cs_vals st2 @ vs\<rparr>"]) auto
      next
        case ok: True
        have "csv_inv (st2\<lparr>cs_vals := cs_vals st2 @ vs, cs_rows := cs_rows st2 + 1\<rparr>)"
          using i1 c(2) [OF ok] s2 r(3) [OF True] by (auto simp: csv_inv_def)
        then show thesis using r(1) True c ok eq by (intro that) auto
      qed
    qed
  qed
qed

lemma csv_loop_ok:
  assumes "csv_inv st"
  shows "\<exists>err st'. csv_loop strtof alloc s st = Some (err, st') \<and> (err = ERR_OK \<longrightarrow> csv_inv st')"
  using assms
proof (induction s arbitrary: st rule: measure_induct_rule [where f = length])
  case (less s)
  show ?case
  proof (cases "s = []")
    case False
    obtain err st' where l: "csv_line strtof alloc (fst (fgets 4095 s)) st = Some (err, st')" "err = ERR_OK \<Longrightarrow> csv_inv st'"
      by (rule csv_line_ok [OF less.prems]) blast
    have "length (snd (fgets 4095 s)) < length s" using fgets_shorter [OF False, of 4094] by simp
    then show ?thesis using less.IH [of "snd (fgets 4095 s)" st'] l False
      by (subst csv_loop.simps) auto
  qed (use less.prems in \<open>simp add: csv_loop.simps\<close>)
qed

section \<open>The loader\<close>

lemma csv_store:
  fixes h :: "'a::zero mem"
  assumes "csv_inv st" and "cs_rows st \<noteq> 0" and "p \<noteq> 0"
  defines "m \<equiv> \<lparr>mx_data = p, mx_rows = word_of_nat (cs_rows st), mx_cols = word_of_nat (cs_cols st), mx_owns = 1\<rparr>"
  shows "(case matx_init p h (Some m0) (word_of_nat (cs_rows st)) (word_of_nat (cs_cols st)) of (err, h, outp) \<Rightarrow>
            if err \<noteq> ERR_OK then Some (err, h, outp)
            else do { h \<leftarrow> for_each [0 ..< unat (word_of_nat (cs_rows st) * word_of_nat (cs_cols st) :: size_t)]
                             (\<lambda>i h. do { x \<leftarrow> elt (cs_vals st) i; wr h (mx_data (the outp)) i x }) h;
                      Some (ERR_OK, h, outp) }) = Some (ERR_OK, h(p := cs_vals st), Some m)"
    and "mx_ok (h(p := cs_vals st)) m"
proof -
  note inv = assms(1) [unfolded csv_inv_def]
  have c0: "cs_cols st \<noteq> 0" using inv assms(2) by auto
  have SM: "unat SIZE_MAX div 4 < 2 ^ 62" by (simp add: unat_SIZE_MAX)
  have rc: "cs_rows st * cs_cols st < 2 ^ 62" using inv SM by linarith
  have "cs_rows st * 1 \<le> cs_rows st * cs_cols st" "1 * cs_cols st \<le> cs_rows st * cs_cols st"
    using c0 assms(2) by (intro mult_le_mono; simp)+
  then have l: "cs_rows st < 2 ^ 62" "cs_cols st < 2 ^ 62" using rc by linarith+
  have u: "unat (word_of_nat (cs_rows st) :: size_t) = cs_rows st" "unat (word_of_nat (cs_cols st) :: size_t) = cs_cols st"
    using l by (simp_all add: unat_word_of_nat)
  then have n: "unat (word_of_nat (cs_rows st) * word_of_nat (cs_cols st) :: size_t) = length (cs_vals st)"
    using inv rc by (simp add: unat_mult_small)
  have nz: "(word_of_nat (cs_rows st) :: size_t) \<noteq> 0" "(word_of_nat (cs_cols st) :: size_t) \<noteq> 0"
    using u c0 assms(2) by (metis unat_0)+
  have "checked_count (word_of_nat (cs_rows st)) (word_of_nat (cs_cols st)) = (ERR_OK, word_of_nat (cs_rows st) * word_of_nat (cs_cols st))"
    using nz u rc by (simp add: checked_count_cases)
  then have i: "matx_init p h (Some m0) (word_of_nat (cs_rows st)) (word_of_nat (cs_cols st))
      = (ERR_OK, h(p := replicate (length (cs_vals st)) 0), Some m)"
    using assms(3) n by (simp add: matx_init_def m_def)
  have "for_each [0 ..< length (cs_vals st)] (\<lambda>i h. do { x \<leftarrow> elt (cs_vals st) i; wr h p i x }) (h(p := replicate (length (cs_vals st)) 0))
      = Some ((h(p := replicate (length (cs_vals st)) 0))(p := map (\<lambda>i. cs_vals st ! i) [0 ..< length (cs_vals st)]
                @ drop (length (cs_vals st)) ((h(p := replicate (length (cs_vals st)) 0)) p)))"
    by (rule for_each_write) (simp_all add: wr_def)
  then show "(case matx_init p h (Some m0) (word_of_nat (cs_rows st)) (word_of_nat (cs_cols st)) of (err, h, outp) \<Rightarrow>
            if err \<noteq> ERR_OK then Some (err, h, outp)
            else do { h \<leftarrow> for_each [0 ..< unat (word_of_nat (cs_rows st) * word_of_nat (cs_cols st) :: size_t)]
                             (\<lambda>i h. do { x \<leftarrow> elt (cs_vals st) i; wr h (mx_data (the outp)) i x }) h;
                      Some (ERR_OK, h, outp) }) = Some (ERR_OK, h(p := cs_vals st), Some m)"
    unfolding i n by (simp add: m_def map_nth)
  show "mx_ok (h(p := cs_vals st)) m" using nz u rc inv assms(3) by (simp add: mx_ok_def m_def)
qed

definition csv_start :: "bool \<Rightarrow> 'a csv" where
  "csv_start has_header = \<lparr>cs_vals = [], cs_cap = 0, cs_cols = 0, cs_rows = 0, cs_skipped = (\<not> has_header)\<rparr>"

text \<open>The \<open>calloc\<close> of the result can fail: \<open>matx_init\<close> then leaves a null data pointer in the caller's matrix.\<close>

lemma csv_no_memory:
  fixes h :: "'a::zero mem" and st :: "'a csv"
  assumes "csv_inv st" and "cs_rows st \<noteq> 0"
  shows "matx_init 0 h (Some m0) (word_of_nat (cs_rows st)) (word_of_nat (cs_cols st))
       = (ERR_NOMEM, h, Some (m0\<lparr>mx_data := 0\<rparr>))"
proof -
  have "fst (matx_init 1 h (Some m0) (word_of_nat (cs_rows st)) (word_of_nat (cs_cols st))) = ERR_OK"
    using csv_store(1) [OF assms, of 1 h m0] by (auto split: prod.splits if_splits)
  then show ?thesis
    by (cases "checked_count (word_of_nat (cs_rows st)) (word_of_nat (cs_cols st))"; cases "fst (checked_count (word_of_nat (cs_rows st)) (word_of_nat (cs_cols st)))")
       (simp_all add: matx_init_def)
qed

lemma load_csv_eq:
  assumes "fs path = Some content" and "csv_loop strtof alloc content (csv_start has_header) = Some (err, st)"
    and "err = ERR_OK \<longrightarrow> csv_inv st" and "p \<noteq> 0"
  shows "dataset_load_csv strtof alloc p fs h (Some path) has_header (Some m) =
     (if err = ERR_OK \<and> cs_rows st \<noteq> 0 then
        Some (ERR_OK, h(p := cs_vals st), Some \<lparr>mx_data = p, mx_rows = word_of_nat (cs_rows st), mx_cols = word_of_nat (cs_cols st), mx_owns = 1\<rparr>)
      else Some (if err = ERR_OK then ERR_IO else err, h, Some m))"
proof (cases "err = ERR_OK \<and> cs_rows st \<noteq> 0")
  case True
  have inv: "csv_inv st" using True assms(3) by simp
  then have "0 < cs_rows st * cs_cols st" using True by (auto simp: csv_inv_def)
  then have "cs_cap st \<noteq> 0" using inv unfolding csv_inv_def by linarith
  then show ?thesis
    using True assms(1,2) csv_store(1) [OF inv _ assms(4), of h m] unfolding dataset_load_csv_def csv_start_def [symmetric]
    by (simp add: Let_def split del: if_split cong: if_cong)
next
  case False
  then show ?thesis using assms(1,2) unfolding dataset_load_csv_def csv_start_def [symmetric]
    by (auto simp: Let_def)
qed

text \<open>
  C11. \<open>dataset_load_csv\<close> is safe on every file and every argument, whatever the number parser, \<open>realloc\<close> and \<open>calloc\<close> answer: the
  loops end, no value is written outside the growing buffer, no size computation wraps. On \<open>ERR_OK\<close>
  the result is a well-formed matrix with at least one row and one column, in its own fresh block, and no other block changed. On every
  error the memory is unchanged, and so is the caller's matrix, but for one case: when the whole file was read and
  the \<open>calloc\<close> of the result fails, \<open>ERR_NOMEM\<close> comes with a null data pointer in the caller's matrix, and nothing else changed.
\<close>

theorem dataset_load_csv_safe:
  fixes h :: "'a::zero mem"
  shows "\<exists>err h' out'. dataset_load_csv strtof alloc p fs h path has_header out = Some (err, h', out')
     \<and> (if err = ERR_OK
        then \<exists>m. out' = Some m \<and> mx_ok h' m \<and> mx_data m = p \<and> mx_owns m = 1 \<and> (\<forall>q. q \<noteq> p \<longrightarrow> h' q = h q)
        else h' = h \<and> (out' = out
               \<or> err = ERR_NOMEM \<and> p = 0 \<and> (\<exists>m. out = Some m \<and> out' = Some (m\<lparr>mx_data := 0\<rparr>))))"
proof (cases "path = None \<or> out = None \<or> fs (the path) = None")
  case True
  then show ?thesis by (auto simp: dataset_load_csv_def)
next
  case False
  then obtain f m content where a: "path = Some f" "out = Some m" "fs f = Some content" by auto
  have "csv_inv (csv_start has_header)" by (simp add: csv_inv_def csv_start_def)
  then obtain err st where l: "csv_loop strtof alloc content (csv_start has_header) = Some (err, st)" "err = ERR_OK \<longrightarrow> csv_inv st"
    using csv_loop_ok by blast
  show ?thesis
  proof (cases "p = 0")
    case False
    note e = load_csv_eq [of fs f, OF a(3) l False]
    show ?thesis
    proof (cases "err = ERR_OK \<and> cs_rows st \<noteq> 0")
      case True
      then have "csv_inv st" using l(2) by simp
      then show ?thesis using True csv_store(2) [OF _ _ False, of st h] unfolding a e by auto
    qed (unfold a e, auto)
  next
    case p: True
    show ?thesis
    proof (cases "err = ERR_OK \<and> cs_rows st \<noteq> 0 \<and> cs_cap st \<noteq> 0")
      case True
      then have "csv_inv st" using l(2) by simp
      note n = csv_no_memory [OF this, of h m]
      have "dataset_load_csv strtof alloc p fs h path has_header out = Some (ERR_NOMEM, h, Some (m\<lparr>mx_data := 0\<rparr>))"
        using a l(1) True n unfolding dataset_load_csv_def csv_start_def [symmetric] p by simp
      then show ?thesis using p a(2) by simp
    next
      case False
      then obtain e where "dataset_load_csv strtof alloc p fs h path has_header out = Some (e, h, out)" "e \<noteq> ERR_OK"
        using a l(1) unfolding dataset_load_csv_def csv_start_def [symmetric] by (cases "err = ERR_OK") auto
      then show ?thesis by simp
    qed
  qed
qed

theorem dataset_load_csv_safe_witness:
  "\<exists>err h' out. dataset_load_csv (\<lambda>s. (0 :: int, 0)) (\<lambda>_. False) 0 [''f'' \<mapsto> [49, 44, 50]] (\<lambda>_. []) (Some ''f'') False (Some null_matx)
     = Some (err, h', out)"
  using dataset_load_csv_safe [of "\<lambda>s. (0 :: int, 0)" "\<lambda>_. False" 0 "[''f'' \<mapsto> [49, 44, 50]]" "\<lambda>_. []" "Some ''f''" False "Some null_matx"] by blast

section \<open>Tables written as text\<close>

definition csv_row :: "('a \<Rightarrow> byte list) \<Rightarrow> 'a list \<Rightarrow> byte list" where
  "csv_row fmt vs = concat (map (\<lambda>v. fmt v @ [44]) (butlast vs)) @ fmt (last vs) @ [10]"

text \<open>
  The text of a number: \<open>strtof\<close> reads exactly it back before a separator, and it holds no separator,
  space, line end or NUL.
\<close>

definition number_text :: "(byte list \<Rightarrow> 'a \<times> nat) \<Rightarrow> ('a \<Rightarrow> byte list) \<Rightarrow> 'a \<Rightarrow> bool" where
  "number_text strtof fmt v \<longleftrightarrow>
     (\<forall>c rest. c = 44 \<or> c = 10 \<longrightarrow> strtof (fmt v @ c # rest) = (v, length (fmt v)))
   \<and> fmt v \<noteq> [] \<and> set (fmt v) \<inter> {0, 10, 13, 32, 44} = {}"

lemma csv_row_Cons: "vs \<noteq> [] \<Longrightarrow> csv_row fmt (v # vs) = fmt v @ 44 # csv_row fmt vs"
  by (simp add: csv_row_def)

lemma csv_row_single: "csv_row fmt [v] = fmt v @ [10]"
  by (simp add: csv_row_def)

lemma fgets_line: "10 \<notin> set l \<Longrightarrow> length l < k \<Longrightarrow> fgets k (l @ 10 # s) = (l @ [10], s)"
proof (induction l arbitrary: k)
  case Nil
  then show ?case by (cases k) auto
next
  case (Cons c l)
  then show ?case by (cases k) auto
qed

text \<open>What a row consists of.\<close>

lemma csv_row_bytes:
  assumes "vs \<noteq> []" and "\<forall>v \<in> set vs. number_text strtof fmt v"
  obtains l where "csv_row fmt vs = l @ [10]" "10 \<notin> set l" "0 \<notin> set l" "l \<noteq> []" "hd l \<noteq> 10" "hd l \<noteq> 13" "hd l \<noteq> 32" "hd l \<noteq> 44"
    "Suc (length (filter (\<lambda>c. c = 44) l)) = length vs"
proof -
  have "\<exists>l. csv_row fmt vs = l @ [10] \<and> 10 \<notin> set l \<and> 0 \<notin> set l \<and> l \<noteq> [] \<and> hd l \<notin> {10, 13, 32, 44}
      \<and> Suc (length (filter (\<lambda>c. c = 44) l)) = length vs"
    using assms
  proof (induction vs)
    case (Cons v vs)
    have v: "fmt v \<noteq> []" "set (fmt v) \<inter> {0, 10, 13, 32, 44} = {}" using Cons.prems by (auto simp: number_text_def)
    then have hd: "hd (fmt v) \<notin> {10, 13, 32, 44}" by (meson hd_in_set disjoint_iff insert_iff)
    have f: "filter (\<lambda>c. c = 44) (fmt v) = []" using v(2) by (auto simp: filter_empty_conv)
    show ?case
    proof (cases "vs = []")
      case True
      then show ?thesis using v hd f by (intro exI [of _ "fmt v"]) (auto simp: csv_row_single)
    next
      case False
      then obtain l where l: "csv_row fmt vs = l @ [10] \<and> 10 \<notin> set l \<and> 0 \<notin> set l \<and> l \<noteq> [] \<and> hd l \<notin> {10, 13, 32, 44}
          \<and> Suc (length (filter (\<lambda>c. c = 44) l)) = length vs" using Cons by auto
      then show ?thesis using v hd f False by (intro exI [of _ "fmt v @ 44 # l"]) (auto simp: csv_row_Cons)
    qed
  qed simp
  then show thesis using that by auto
qed

lemma csv_cells_row:
  assumes "vs \<noteq> []" and "\<forall>v \<in> set vs. number_text strtof fmt v" and "length (cs_vals st) + length vs \<le> cs_cap st"
  shows "csv_cells strtof (length vs) (csv_row fmt vs) st = Some (ERR_OK, st\<lparr>cs_vals := cs_vals st @ vs\<rparr>)"
  using assms
proof (induction vs arbitrary: st)
  case (Cons v vs)
  have v: "strtof (fmt v @ c # rest) = (v, length (fmt v))" if "c = 44 \<or> c = 10" for c rest
    using Cons.prems that by (auto simp: number_text_def)
  have ne: "fmt v \<noteq> []" using Cons.prems by (auto simp: number_text_def)
  show ?case
  proof (cases "vs = []")
    case True
    then show ?thesis using v [of 10 "[]"] ne Cons.prems by (simp add: csv_row_single)
  next
    case False
    obtain l where l: "csv_row fmt vs = l @ [10]" "l \<noteq> []" "hd l \<noteq> 32" "hd l \<noteq> 44"
      by (rule csv_row_bytes [of vs strtof fmt]) (use False Cons.prems in auto)
    have "dropWhile (\<lambda>c. c = 44 \<or> c = 32) (44 # csv_row fmt vs) = csv_row fmt vs"
      using l by (cases l) auto
    then show ?thesis
      using v [of 44 "csv_row fmt vs"] ne Cons.prems False Cons.IH [of "st\<lparr>cs_vals := cs_vals st @ [v]\<rparr>"]
      by (simp add: csv_row_Cons)
  qed
qed simp

lemma csv_line_row:
  assumes "vs \<noteq> []" and "\<forall>v \<in> set vs. number_text strtof fmt v" and "length (csv_row fmt vs) < 4095"
    and "csv_inv st" and "cs_skipped st" and "cs_cols st = 0 \<or> cs_cols st = length vs" and "\<And>n. alloc n"
    and "length (cs_vals st) + length vs \<le> unat SIZE_MAX div 8"
  obtains st' where "csv_line strtof alloc (csv_row fmt vs) st = Some (ERR_OK, st')" "csv_inv st'"
    "cs_vals st' = cs_vals st @ vs" "cs_rows st' = cs_rows st + 1" "cs_cols st' = length vs" "cs_skipped st'"
proof -
  obtain l where l: "csv_row fmt vs = l @ [10]" "10 \<notin> set l" "0 \<notin> set l" "l \<noteq> []" "hd l \<noteq> 10" "hd l \<noteq> 13"
    "Suc (length (filter (\<lambda>c. c = 44) l)) = length vs"
    by (rule csv_row_bytes [OF assms(1,2)]) blast
  have line: "takeWhile (\<lambda>c. c \<noteq> 0) (csv_row fmt vs) = csv_row fmt vs" using l(1,3) by (intro takeWhile_eq_all_conv [THEN iffD2]) auto
  have cf: "count_fields (csv_row fmt vs) = length vs" using l(1,7) by (simp add: count_fields_eq)
  define st1 where "st1 = (if cs_cols st = 0 then st\<lparr>cs_cols := length vs\<rparr> else st)"
  have s1: "cs_cols st1 = length vs" "cs_vals st1 = cs_vals st" "cs_rows st1 = cs_rows st" "cs_cap st1 = cs_cap st" "cs_skipped st1"
    using assms(5,6) by (auto simp: st1_def)
  have eq: "csv_line strtof alloc (csv_row fmt vs) st = do { (err, st) \<leftarrow> csv_reserve alloc st1;
                  if err \<noteq> ERR_OK then Some (err, st)
                  else do { (err, st) \<leftarrow> csv_cells strtof (cs_cols st) (csv_row fmt vs) st;
                            if err \<noteq> ERR_OK then Some (err, st)
                            else Some (ERR_OK, st\<lparr>cs_rows := cs_rows st + 1\<rparr>) } }"
    using assms(3,5) l(1,4,5,6) s1(1) unfolding csv_line_def line Let_def cf st1_def [symmetric] by auto
  obtain err st2 where r: "csv_reserve alloc st1 = Some (err, st2)" "st2 = st1\<lparr>cs_cap := cs_cap st2\<rparr>"
    "err = ERR_OK \<Longrightarrow> length (cs_vals st1) + cs_cols st1 \<le> cs_cap st2 \<and> cs_cap st1 \<le> cs_cap st2 \<and> cs_cap st2 \<le> unat SIZE_MAX div 4"
    "err \<noteq> ERR_OK \<Longrightarrow> (\<exists>n. \<not> alloc n) \<or> unat SIZE_MAX div 8 < length (cs_vals st1) + cs_cols st1"
    by (rule csv_reserve_ok [of st1 alloc]) (use assms(4) s1 in \<open>auto simp: csv_inv_def\<close>)
  have e: "err = ERR_OK" using r(4) assms(7,8) s1 by (metis not_le)
  have s2: "cs_vals st2 = cs_vals st" "cs_cols st2 = length vs" "cs_rows st2 = cs_rows st" "cs_skipped st2"
    by (subst r(2), simp add: s1)+
  have c: "csv_cells strtof (cs_cols st2) (csv_row fmt vs) st2 = Some (ERR_OK, st2\<lparr>cs_vals := cs_vals st2 @ vs\<rparr>)"
    unfolding s2(2) by (rule csv_cells_row [OF assms(1,2)]) (use r(3) [OF e] s1 s2 in auto)
  have "csv_line strtof alloc (csv_row fmt vs) st = Some (ERR_OK, st2\<lparr>cs_vals := cs_vals st2 @ vs, cs_rows := cs_rows st2 + 1\<rparr>)"
    using eq r(1) e c by simp
  moreover have "csv_inv (st2\<lparr>cs_vals := cs_vals st2 @ vs, cs_rows := cs_rows st2 + 1\<rparr>)"
    using assms(1,4,6) s1 s2 r(3) [OF e] by (auto simp: csv_inv_def)
  ultimately show thesis
    using s2 by (intro that [of "st2\<lparr>cs_vals := cs_vals st2 @ vs, cs_rows := cs_rows st2 + 1\<rparr>"]) simp_all
qed

lemma csv_loop_rows:
  assumes "\<forall>vs \<in> set rows. length vs = n \<and> (\<forall>v \<in> set vs. number_text strtof fmt v) \<and> length (csv_row fmt vs) < 4095" and "0 < n"
    and "csv_inv st" and "cs_skipped st" and "cs_cols st = 0 \<or> cs_cols st = n" and "\<And>n. alloc n"
    and "length (cs_vals st) + length rows * n \<le> unat SIZE_MAX div 8"
  obtains st' where "csv_loop strtof alloc (concat (map (csv_row fmt) rows)) st = Some (ERR_OK, st')" "csv_inv st'"
    "cs_vals st' = cs_vals st @ concat rows" "cs_rows st' = cs_rows st + length rows" "rows \<noteq> [] \<Longrightarrow> cs_cols st' = n"
proof -
  have "\<exists>st'. csv_loop strtof alloc (concat (map (csv_row fmt) rows)) st = Some (ERR_OK, st') \<and> csv_inv st'
    \<and> cs_vals st' = cs_vals st @ concat rows \<and> cs_rows st' = cs_rows st + length rows \<and> (if rows = [] then cs_cols st' = cs_cols st else cs_cols st' = n)"
    using assms(1,3-5,7)
  proof (induction rows arbitrary: st)
    case Nil
    then show ?case by (simp add: csv_loop.simps)
  next
    case (Cons vs rows)
    have vs: "vs \<noteq> []" "length vs = n" "\<forall>v \<in> set vs. number_text strtof fmt v" "length (csv_row fmt vs) < 4095" using Cons.prems(1) assms(2) by auto
    obtain l where l: "csv_row fmt vs = l @ [10]" "10 \<notin> set l" by (rule csv_row_bytes [OF vs(1,3)]) blast
    obtain st1 where s1: "csv_line strtof alloc (csv_row fmt vs) st = Some (ERR_OK, st1)" "csv_inv st1"
      "cs_vals st1 = cs_vals st @ vs" "cs_rows st1 = cs_rows st + 1" "cs_cols st1 = length vs" "cs_skipped st1"
      by (rule csv_line_row [OF vs(1,3,4) Cons.prems(2,3), of alloc]) (use Cons.prems(4,5) vs(2) assms(6) in auto)
    have f: "fgets 4095 (csv_row fmt vs @ concat (map (csv_row fmt) rows)) = (csv_row fmt vs, concat (map (csv_row fmt) rows))"
      using fgets_line [OF l(2), of 4095 "concat (map (csv_row fmt) rows)"] l vs(4) by simp
    have ne: "csv_row fmt vs @ concat (map (csv_row fmt) rows) \<noteq> []" using l(1) by simp
    have "csv_loop strtof alloc (csv_row fmt vs @ concat (map (csv_row fmt) rows)) st = csv_loop strtof alloc (concat (map (csv_row fmt) rows)) st1"
      unfolding csv_loop.simps [of strtof alloc "csv_row fmt vs @ concat (map (csv_row fmt) rows)" st] f fst_conv snd_conv s1(1)
      if_not_P [OF ne] by simp
    moreover have "\<exists>st'. csv_loop strtof alloc (concat (map (csv_row fmt) rows)) st1 = Some (ERR_OK, st') \<and> csv_inv st'
        \<and> cs_vals st' = cs_vals st1 @ concat rows \<and> cs_rows st' = cs_rows st1 + length rows \<and> (if rows = [] then cs_cols st' = cs_cols st1 else cs_cols st' = n)"
      by (rule Cons.IH) (use Cons.prems s1 vs(2) in auto)
    ultimately show ?case using s1 vs(2) by auto
  qed
  then show thesis using that by auto
qed

text \<open>
  C13. A table written as comma-separated text, with or without a header line, is read back: when the
  number parser reads each number's text back and the lines fit the buffer, \<open>dataset_load_csv\<close>
  succeeds with the number of rows and columns and the values of the table in order.
\<close>

theorem dataset_csv_roundtrip:
  fixes h :: "'a::zero mem"
  assumes "\<forall>vs \<in> set rows. length vs = n \<and> (\<forall>v \<in> set vs. number_text strtof fmt v) \<and> length (csv_row fmt vs) < 4095"
    and "0 < n" and "rows \<noteq> []" and "length rows * n \<le> unat SIZE_MAX div 8" and "p \<noteq> 0" and "\<And>k. alloc k"
    and "10 \<notin> set header" and "length header < 4094"
    and "fs path = Some ((if has_header then header @ [10] else []) @ concat (map (csv_row fmt) rows))"
  shows "dataset_load_csv strtof alloc p fs h (Some path) has_header (Some m) = Some (ERR_OK, h(p := concat rows),
     Some \<lparr>mx_data = p, mx_rows = word_of_nat (length rows), mx_cols = word_of_nat n, mx_owns = 1\<rparr>)"
proof -
  define st where "st = (csv_start has_header :: 'a csv)\<lparr>cs_skipped := True\<rparr>"
  have st: "csv_inv st" "cs_skipped st" "cs_vals st = []" "cs_cols st = 0" "cs_rows st = 0" by (simp_all add: st_def csv_inv_def csv_start_def)
  obtain st' where l: "csv_loop strtof alloc (concat (map (csv_row fmt) rows)) st = Some (ERR_OK, st')" "csv_inv st'"
    "cs_vals st' = concat rows" "cs_rows st' = length rows" "cs_cols st' = n"
    by (rule csv_loop_rows [OF assms(1,2) st(1,2), of alloc]) (use st assms(3,4,6) in auto)
  have "csv_loop strtof alloc ((if has_header then header @ [10] else []) @ concat (map (csv_row fmt) rows)) (csv_start has_header)
      = csv_loop strtof alloc (concat (map (csv_row fmt) rows)) st"
  proof (cases has_header)
    case True
    have f: "fgets 4095 (header @ 10 # concat (map (csv_row fmt) rows)) = (header @ [10], concat (map (csv_row fmt) rows))"
      by (rule fgets_line) (use assms(7,8) in auto)
    have "length (takeWhile (\<lambda>c. c \<noteq> 0) (header @ [10])) + 1 < 4096"
      using length_takeWhile_le [of "\<lambda>c. c \<noteq> 0" "header @ [10]"] assms(8) by simp
    then have "csv_line strtof alloc (header @ [10]) (csv_start True) = Some (ERR_OK, st)"
      using True by (simp add: csv_line_def csv_start_def st_def Let_def not_le)
    then show ?thesis using True f by (subst csv_loop.simps) simp
  qed (simp add: st_def csv_start_def)
  then have run: "csv_loop strtof alloc ((if has_header then header @ [10] else []) @ concat (map (csv_row fmt) rows)) (csv_start has_header) = Some (ERR_OK, st')"
    using l(1) by simp
  show ?thesis
    using load_csv_eq [of fs path, OF assms(9) run _ assms(5), of h m] l(2-5) assms(3) by simp
qed

text \<open>A parser of single digits.\<close>

definition digit_text :: "byte list \<Rightarrow> int \<times> nat" where
  "digit_text s = (case s of [] \<Rightarrow> (0, 0) | c # _ \<Rightarrow> if c_isdigit c then (digit_val c, 1) else (0, 0))"

theorem dataset_csv_roundtrip_witness:
  "dataset_load_csv digit_text (\<lambda>_. True) 1 [''f'' \<mapsto> [120, 44, 121, 10, 49, 44, 50, 10, 51, 44, 52, 10]] (\<lambda>_. []) (Some ''f'') True (Some null_matx)
     = Some (ERR_OK, (\<lambda>_. [])(1 := [1, 2, 3, 4]), Some \<lparr>mx_data = 1, mx_rows = 2, mx_cols = 2, mx_owns = 1\<rparr>)"
proof -
  let ?fmt = "\<lambda>v :: int. [word_of_int (v + 48)]"
  have n: "number_text digit_text ?fmt v" if "v \<in> {1, 2, 3, 4}" for v
    using that by (auto simp: number_text_def digit_text_def c_isdigit_def digit_val_def)
  have "\<forall>vs \<in> set [[1, 2], [3, 4]]. length vs = 2 \<and> (\<forall>v \<in> set vs. number_text digit_text ?fmt v) \<and> length (csv_row ?fmt vs) < 4095"
    using n by (auto simp: csv_row_def)
  from dataset_csv_roundtrip [OF this, of 1 "\<lambda>_. True" "[120, 44, 121]" "[''f'' \<mapsto> [120, 44, 121, 10, 49, 44, 50, 10, 51, 44, 52, 10]]" "''f''" True "\<lambda>_. []" null_matx]
  show ?thesis by (simp add: csv_row_def unat_SIZE_MAX)
qed

section \<open>Malformed rows that pass\<close>

text \<open>
  Cells are counted by commas but separated by commas and spaces: in \<open>1 2,3\<close> the value 3 is dropped.
  Text after the last number of a row, as in \<open>1x\<close>, is ignored.
\<close>

lemma csv_space_drops_value:
  "csv_line digit_text (\<lambda>_. True) [49, 32, 50, 44, 51, 10] (csv_start False)
     = Some (ERR_OK, \<lparr>cs_vals = [1, 2], cs_cap = 256, cs_cols = 2, cs_rows = 1, cs_skipped = True\<rparr>)"
  "csv_line digit_text (\<lambda>_. True) [49, 120, 10] (csv_start False)
     = Some (ERR_OK, \<lparr>cs_vals = [1], cs_cap = 256, cs_cols = 1, cs_rows = 1, cs_skipped = True\<rparr>)"
proof -
  have g: "grow_cap 256 n = Some (Some 256)" if "n \<le> 256" for n using that by (subst grow_cap.simps) simp
  have r: "csv_reserve (\<lambda>_. True) \<lparr>cs_vals = [], cs_cap = 0, cs_cols = n, cs_rows = 0, cs_skipped = True\<rparr>
      = Some (ERR_OK, \<lparr>cs_vals = [] :: int list, cs_cap = 256, cs_cols = n, cs_rows = 0, cs_skipped = True\<rparr>)" if "0 < n" "n \<le> 256" for n
    using that by (simp add: csv_reserve_def g unat_SIZE_MAX)
  have c: "csv_cells digit_text (Suc (Suc 0)) [49, 32, 50, 44, 51, 10] \<lparr>cs_vals = [], cs_cap = 256, cs_cols = 2, cs_rows = 0, cs_skipped = True\<rparr>
      = Some (ERR_OK, \<lparr>cs_vals = [1, 2], cs_cap = 256, cs_cols = 2, cs_rows = 0, cs_skipped = True\<rparr>)"
    by (simp add: digit_text_def c_isdigit_def digit_val_def)
  have cf: "count_fields [49, 32, 50, 44, 51, 10] = 2" by (simp add: count_fields_def)
  have two: "Suc (Suc 0) = 2" by simp
  show "csv_line digit_text (\<lambda>_. True) [49, 32, 50, 44, 51, 10] (csv_start False)
     = Some (ERR_OK, \<lparr>cs_vals = [1, 2], cs_cap = 256, cs_cols = 2, cs_rows = 1, cs_skipped = True\<rparr>)"
    using c [unfolded two] by (simp add: csv_line_def csv_start_def Let_def cf r)
  show "csv_line digit_text (\<lambda>_. True) [49, 120, 10] (csv_start False)
     = Some (ERR_OK, \<lparr>cs_vals = [1], cs_cap = 256, cs_cols = 1, cs_rows = 1, cs_skipped = True\<rparr>)"
    by (simp add: csv_line_def csv_start_def Let_def count_fields_def r
        digit_text_def c_isdigit_def digit_val_def)
qed

text \<open>A line of exactly 4095 bytes fits the buffer and is refused.\<close>

lemma csv_line_4095:
  assumes "0 \<notin> set line" and "length line = 4095"
  shows "csv_line strtof alloc line st = Some (ERR_UNSUPPORTED, st)"
proof -
  have tw: "takeWhile (\<lambda>c. c \<noteq> 0) line = line" using assms(1) by (intro takeWhile_eq_all_conv [THEN iffD2]) auto
  show ?thesis unfolding csv_line_def tw Let_def using assms(2) by simp
qed

end
