(* ===== verification/DataShuffle.thy ===== *)
theory DataShuffle
  imports Dataset Rng MatxOps
begin

text \<open>
  Shuffling: the rows of both matrices are permuted by one permutation, which the draws of the
  generator determine, one sequence of draws for each permutation.
\<close>

section \<open>Permutations from draws\<close>

definition exchange :: "nat \<Rightarrow> nat \<Rightarrow> nat \<Rightarrow> nat" where
  "exchange i j r = (if r = i then j else if r = j then i else r)"

lemma exchange_exchange [simp]: "exchange i j (exchange i j r) = r"
  by (simp add: exchange_def)

definition perm_on :: "nat \<Rightarrow> (nat \<Rightarrow> nat) \<Rightarrow> bool" where
  "perm_on n f \<longleftrightarrow> bij_betw f {..< n} {..< n} \<and> (\<forall>r. n \<le> r \<longrightarrow> f r = r)"

text \<open>The draws for the positions \<open>n\<close>, \<open>n - 1\<close>, \<dots>, 1, where \<open>n\<close> is the length of the list.\<close>

fun shuffle_perm :: "nat list \<Rightarrow> nat \<Rightarrow> nat" where
  "shuffle_perm [] = id"
| "shuffle_perm (j # js) = exchange (Suc (length js)) j \<circ> shuffle_perm js"

fun valid_draws :: "nat list \<Rightarrow> bool" where
  "valid_draws [] = True"
| "valid_draws (j # js) = (j \<le> Suc (length js) \<and> valid_draws js)"

lemma perm_onI:
  assumes "\<And>r. r < n \<Longrightarrow> f r < n" and "\<And>r. n \<le> r \<Longrightarrow> f r = r" and "\<And>r. g (f r) = r" and "\<And>r. f (g r) = r"
  shows "perm_on n f"
proof -
  have "g r < n" if "r < n" for r using assms(2)[of "g r"] assms(4)[of r] that by (metis leI)
  then have "bij_betw f {..< n} {..< n}"
    by (intro bij_betw_byWitness [where f' = g]) (use assms in auto)
  then show ?thesis using assms(2) by (simp add: perm_on_def)
qed

lemma perm_on_exchange:
  assumes "i < n" and "j < n" shows "perm_on n (exchange i j)"
  by (rule perm_onI [where g = "exchange i j"]) (use assms in \<open>auto simp: exchange_def\<close>)

lemma perm_on_comp:
  assumes "perm_on n f" and "perm_on n g" shows "perm_on n (f \<circ> g)"
  using assms bij_betw_trans [of g "{..< n}" "{..< n}" f] by (auto simp: perm_on_def)

lemma perm_on_mono:
  assumes "perm_on n f" and "n \<le> m" shows "perm_on m f"
proof -
  have "bij_betw f ({..< n} \<union> {n ..< m}) ({..< n} \<union> {n ..< m})"
    using assms by (intro bij_betw_combine) (auto simp: perm_on_def bij_betw_def inj_on_def image_def)
  moreover have "{..< n} \<union> {n ..< m} = {..< m}" using assms(2) by auto
  ultimately show ?thesis using assms by (simp add: perm_on_def)
qed

lemma shuffle_perm_on: "valid_draws js \<Longrightarrow> perm_on (Suc (length js)) (shuffle_perm js)"
proof (induction js)
  case Nil
  then show ?case by (auto simp: perm_on_def bij_betw_def inj_on_def)
next
  case (Cons j js)
  then have "perm_on (Suc (Suc (length js))) (shuffle_perm js)" by (auto intro: perm_on_mono)
  moreover have "perm_on (Suc (Suc (length js))) (exchange (Suc (length js)) j)" using Cons.prems by (intro perm_on_exchange) auto
  ultimately have "perm_on (Suc (Suc (length js))) (exchange (Suc (length js)) j \<circ> shuffle_perm js)" by (intro perm_on_comp)
  then show ?case by (simp add: o_def)
qed

text \<open>Every permutation comes from exactly one sequence of draws.\<close>

lemma shuffle_perm_unique:
  assumes "perm_on (Suc n) f"
  shows "\<exists>!js. length js = n \<and> valid_draws js \<and> shuffle_perm js = f"
  using assms
proof (induction n arbitrary: f)
  case 0
  have "f = id"
  proof (rule ext)
    show "f r = id r" for r using 0 by (cases "r = 0") (auto simp: perm_on_def bij_betw_def)
  qed
  then show ?case by auto
next
  case (Suc n)
  define j where "j = f (Suc n)"
  have j: "j \<le> Suc n" using Suc.prems by (auto simp: j_def perm_on_def bij_betw_def less_Suc_eq_le)
  let ?g = "exchange (Suc n) j \<circ> f"
  have g: "perm_on (Suc (Suc n)) ?g" using Suc.prems j by (intro perm_on_comp perm_on_exchange) auto
  have gn: "?g (Suc n) = Suc n" by (simp add: j_def exchange_def)
  have "perm_on (Suc n) ?g"
  proof -
    have "bij_betw ?g ({..< Suc (Suc n)} - {Suc n}) ({..< Suc (Suc n)} - {Suc n})"
      using g gn by (intro bij_betw_DiffI) (auto simp: perm_on_def)
    moreover have "{..< Suc (Suc n)} - {Suc n} = {..< Suc n}" by auto
    moreover have "?g r = r" if "Suc n \<le> r" for r
      using g gn that by (cases "r = Suc n") (auto simp: perm_on_def)
    ultimately show ?thesis unfolding perm_on_def by simp
  qed
  from Suc.IH [OF this] obtain js where js: "length js = n" "valid_draws js" "shuffle_perm js = ?g"
    and uniq: "\<And>ks. length ks = n \<and> valid_draws ks \<and> shuffle_perm ks = ?g \<Longrightarrow> ks = js" by blast
  show ?case
  proof (rule ex1I [of _ "j # js"])
    show "length (j # js) = Suc n \<and> valid_draws (j # js) \<and> shuffle_perm (j # js) = f"
      using js j by (auto simp: fun_eq_iff)
    fix ks assume ks: "length ks = Suc n \<and> valid_draws ks \<and> shuffle_perm ks = f"
    then obtain k ls where kl: "ks = k # ls" "length ls = n" "valid_draws ls" "k \<le> Suc n" by (cases ks) auto
    have "shuffle_perm ls (Suc n) = Suc n" using shuffle_perm_on [OF kl(3)] kl(2) by (simp add: perm_on_def)
    then have k: "k = j" using ks kl by (auto simp: j_def exchange_def)
    have "shuffle_perm ls x = ?g x" for x
    proof -
      have "f x = exchange (Suc n) j (shuffle_perm ls x)" using ks kl k by auto
      then show ?thesis by simp
    qed
    then have "shuffle_perm ls = ?g" by (rule ext)
    then show "ks = j # js" using uniq kl k by blast
  qed
qed

section \<open>Copying and exchanging rows\<close>

lemma copy_elems_ok:
  assumes "src \<noteq> dst \<or> soff + n \<le> doff \<or> doff + n \<le> soff" and "soff + n \<le> length (h src)" and "doff + n \<le> length (h dst)"
  obtains h' where "copy_elems dst doff src soff n h = Some h'" "\<And>q. q \<noteq> dst \<Longrightarrow> h' q = h q" "length (h' dst) = length (h dst)"
    "\<And>k. k < length (h dst) \<Longrightarrow> h' dst ! k = (if doff \<le> k \<and> k < doff + n then h src ! (soff + (k - doff)) else h dst ! k)"
proof -
  have "\<exists>t. copy_elems dst doff src soff n h = Some t \<and> (\<forall>q. q \<noteq> dst \<longrightarrow> t q = h q) \<and> length (t dst) = length (h dst)
     \<and> (\<forall>k < length (h dst). t dst ! k = (if doff \<le> k \<and> k < doff + n then h src ! (soff + (k - doff)) else h dst ! k))"
    unfolding copy_elems_def
  proof (rule for_each_invariant)
    fix i t assume i: "i < n" and t: "(\<forall>q. q \<noteq> dst \<longrightarrow> t q = h q) \<and> length (t dst) = length (h dst)
     \<and> (\<forall>k < length (h dst). t dst ! k = (if doff \<le> k \<and> k < doff + i then h src ! (soff + (k - doff)) else h dst ! k))"
    have r: "rd t src (soff + i) = Some (h src ! (soff + i))"
    proof (cases "src = dst")
      case True
      then show ?thesis using t i assms by (auto simp: rd_def)
    next
      case False
      then show ?thesis using t i assms by (auto simp: rd_def)
    qed
    show "\<exists>t'. do { x \<leftarrow> rd t src (soff + i); wr t dst (doff + i) x } = Some t' \<and> (\<forall>q. q \<noteq> dst \<longrightarrow> t' q = h q)
      \<and> length (t' dst) = length (h dst)
      \<and> (\<forall>k < length (h dst). t' dst ! k = (if doff \<le> k \<and> k < doff + Suc i then h src ! (soff + (k - doff)) else h dst ! k))"
      using t i assms(3) by (auto simp: r wr_def nth_list_update less_Suc_eq)
  qed auto
  then show thesis using that by blast
qed

lemma row_index:
  assumes "mx_ok h m" and "i < unat (mx_rows m)" and "r < unat (mx_rows m)" and "c < unat (mx_cols m)"
  shows "unat (word_of_nat i * mx_cols m) = i * unat (mx_cols m)"
    and "i * unat (mx_cols m) + unat (mx_cols m) \<le> length (h (mx_data m))" and "r * unat (mx_cols m) + c < length (h (mx_data m))"
    and "(i * unat (mx_cols m) \<le> r * unat (mx_cols m) + c \<and> r * unat (mx_cols m) + c < i * unat (mx_cols m) + unat (mx_cols m)) = (r = i)"
proof -
  let ?n = "unat (mx_cols m)"
  have l: "length (h (mx_data m)) = unat (mx_rows m) * ?n" "unat (mx_rows m) * ?n < 2 ^ 62" using assms(1) by (auto simp: mx_ok_def)
  have k: "Suc i * ?n \<le> unat (mx_rows m) * ?n" using assms(2) by (intro mult_le_mono1) simp
  then show "i * ?n + ?n \<le> length (h (mx_data m))" using l by simp
  have "i * 1 \<le> i * ?n" using assms(4) by (intro mult_le_mono2) simp
  then have "i < 2 ^ 62" using k l(2) by (simp only: mult_1_right mult_Suc)
  then have "unat (word_of_nat i :: size_t) = i" by (intro unat_word_of_nat) simp
  then show "unat (word_of_nat i * mx_cols m) = i * ?n" using k l(2) by (subst unat_mult_small) auto
  show "r * ?n + c < length (h (mx_data m))" unfolding l(1) by (rule nat_index_less [OF assms(3,4)])
  show "(i * ?n \<le> r * ?n + c \<and> r * ?n + c < i * ?n + ?n) = (r = i)"
  proof
    assume a: "i * ?n \<le> r * ?n + c \<and> r * ?n + c < i * ?n + ?n"
    have "(r * ?n + c) div ?n = r" using assms(4) by simp
    moreover have "(r * ?n + c) div ?n = i"
      using a by (intro div_nat_eqI) (auto simp: mult.commute)
    ultimately show "r = i" by simp
  qed (use assms(4) in simp)
qed

lemma swap_rows_ok:
  fixes h :: "'a mem"
  assumes "mx_ok h m" and "i < unat (mx_rows m)" and "j < unat (mx_rows m)" and "i \<noteq> j" and "t \<noteq> mx_data m"
    and "unat (mx_cols m) \<le> length (h t)"
  obtains h' where "swap_rows t m (word_of_nat i) (word_of_nat j) h = Some h'" "\<And>q. q \<noteq> mx_data m \<Longrightarrow> q \<noteq> t \<Longrightarrow> h' q = h q"
    "\<And>q. length (h' q) = length (h q)"
    "\<And>r c. r < unat (mx_rows m) \<Longrightarrow> c < unat (mx_cols m) \<Longrightarrow> mx_at h' m r c = mx_at h m (exchange i j r) c"
proof -
  let ?d = "mx_data m" and ?n = "unat (mx_cols m)"
  have c0: "0 < ?n" using assms(1) by (auto simp: mx_ok_def unat_gt_0)
  note ri = row_index [OF assms(1,2,2) c0] and rj = row_index [OF assms(1,3,3) c0]
  have apart: "i * ?n + ?n \<le> j * ?n \<or> j * ?n + ?n \<le> i * ?n"
  proof (cases "i < j")
    case True
    then have "Suc i * ?n \<le> j * ?n" by (intro mult_le_mono1) simp
    then show ?thesis by simp
  next
    case False
    then have "Suc j * ?n \<le> i * ?n" using assms(4) by (intro mult_le_mono1) simp
    then show ?thesis by simp
  qed
  obtain h1 where h1: "copy_elems t 0 ?d (i * ?n) ?n h = Some h1" "\<And>q. q \<noteq> t \<Longrightarrow> h1 q = h q" "length (h1 t) = length (h t)"
    "\<And>k. k < length (h t) \<Longrightarrow> h1 t ! k = (if 0 \<le> k \<and> k < 0 + ?n then h ?d ! (i * ?n + (k - 0)) else h t ! k)"
    by (rule copy_elems_ok [of ?d t "i * ?n" ?n 0 h]) (use assms(5,6) ri in auto)
  have d1: "h1 ?d = h ?d" using h1(2) assms(5) by simp
  obtain h2 where h2: "copy_elems ?d (i * ?n) ?d (j * ?n) ?n h1 = Some h2" "\<And>q. q \<noteq> ?d \<Longrightarrow> h2 q = h1 q" "length (h2 ?d) = length (h ?d)"
    "\<And>k. k < length (h ?d) \<Longrightarrow> h2 ?d ! k = (if i * ?n \<le> k \<and> k < i * ?n + ?n then h ?d ! (j * ?n + (k - i * ?n)) else h ?d ! k)"
    by (rule copy_elems_ok [of ?d ?d "j * ?n" ?n "i * ?n" h1]) (use apart ri rj d1 in auto)
  have t2: "h2 t = h1 t" using h2(2) assms(5) by simp
  obtain h3 where h3: "copy_elems ?d (j * ?n) t 0 ?n h2 = Some h3" "\<And>q. q \<noteq> ?d \<Longrightarrow> h3 q = h2 q" "length (h3 ?d) = length (h ?d)"
    "\<And>k. k < length (h ?d) \<Longrightarrow> h3 ?d ! k = (if j * ?n \<le> k \<and> k < j * ?n + ?n then h1 t ! (0 + (k - j * ?n)) else h2 ?d ! k)"
    by (rule copy_elems_ok [of t ?d 0 ?n "j * ?n" h2]) (use assms(5,6) rj h2(3) t2 h1(3) in auto)
  have "swap_rows t m (word_of_nat i) (word_of_nat j) h = Some h3"
    using h1(1) h2(1) h3(1) ri(1) rj(1) by (simp add: swap_rows_def Let_def)
  moreover have "h3 q = h q" if "q \<noteq> ?d" "q \<noteq> t" for q using that h1(2) h2(2) h3(2) by simp
  moreover have "length (h3 q) = length (h q)" for q
    using h1(2,3) h2(2,3) h3(2,3) by (cases "q = ?d"; cases "q = t") auto
  moreover have "mx_at h3 m r c = mx_at h m (exchange i j r) c" if rc: "r < unat (mx_rows m)" "c < ?n" for r c
  proof -
    note i4 = row_index(3,4) [OF assms(1,2) rc] and j4 = row_index(4) [OF assms(1,3) rc]
    have tm: "h1 t ! c = h ?d ! (i * ?n + c)" using h1(4) [of c] rc(2) assms(6) by simp
    show ?thesis
      using h3(4) [OF i4(1)] h2(4) [OF i4(1)] tm assms(4) unfolding i4(2) j4
      by (auto simp: mx_at_def exchange_def)
  qed
  ultimately show thesis by (rule that)
qed

section \<open>The shuffle\<close>

lemma rng_range_draw:
  assumes "odd (rng_inc r)" and "bound \<noteq> 0"
  obtains v r' where "rng_range_u32 r bound = Some (v, r')" "v < bound" "rng_inc r' = rng_inc r"
proof -
  obtain m where m: "range_loop r bound ((0 - bound) mod bound) =
        Some (fst (rng_next_u32 ((rng_step ^^ m) r)) mod bound, (rng_step ^^ Suc m) r)"
    using range_loop_total [OF assms(1)] by blast
  have "x mod bound < bound" for x using assms(2) by (simp add: word_less_nat_alt unat_mod unat_gt_0)
  moreover have "rng_inc ((rng_step ^^ Suc m) r) = rng_inc r" by (rule rng_steps_inc)
  ultimately show thesis using that m assms(2) unfolding rng_range_u32_def Let_def by (metis (no_types, lifting))
qed

text \<open>The draws are those of the generator, with the bounds \<open>n + 1\<close>, \<open>n\<close>, \<dots>, 2.\<close>

fun drawn :: "rng \<Rightarrow> nat list \<Rightarrow> rng \<Rightarrow> bool" where
  "drawn r [] r' = (r = r')"
| "drawn r (j # js) r' =
     (\<exists>v r1. rng_range_u32 r (word_of_nat (Suc (Suc (length js)))) = Some (v, r1) \<and> j = unat v \<and> drawn r1 js r')"

text \<open>Both matrices with the row numbers read through \<open>f\<close>; nothing else but the temporary row changed.\<close>

definition permuted :: "u64 \<Rightarrow> matx \<Rightarrow> matx option \<Rightarrow> (nat \<Rightarrow> nat) \<Rightarrow> 'a mem \<Rightarrow> 'a mem \<Rightarrow> bool" where
  "permuted t x yp f h h' \<longleftrightarrow>
     (\<forall>q. q \<noteq> t \<longrightarrow> q \<noteq> mx_data x \<longrightarrow> yp = None \<or> q \<noteq> mx_data (the yp) \<longrightarrow> h' q = h q) \<and> (\<forall>q. length (h' q) = length (h q))
   \<and> (\<forall>m. m = x \<or> yp = Some m \<longrightarrow> (\<forall>r < unat (mx_rows x). \<forall>c < unat (mx_cols m). mx_at h' m r c = mx_at h m (f r) c))"

lemma permuted_trans:
  assumes "permuted t x yp f h h1" and "permuted t x yp g h1 h2" and "\<And>r. r < unat (mx_rows x) \<Longrightarrow> g r < unat (mx_rows x)"
  shows "permuted t x yp (f \<circ> g) h h2"
  using assms unfolding permuted_def by (auto simp: o_def)

lemma swap_both:
  fixes h :: "'a mem"
  assumes "mx_ok h x" and "\<And>y. yp = Some y \<Longrightarrow> mx_ok h y \<and> mx_rows y = mx_rows x \<and> mx_data y \<noteq> mx_data x \<and> mx_data y \<noteq> t
        \<and> unat (mx_cols y) \<le> length (h t)"
    and "mx_data x \<noteq> t" and "unat (mx_cols x) \<le> length (h t)" and "i < unat (mx_rows x)" and "j < unat (mx_rows x)" and "i \<noteq> j"
  obtains h' where "do { h \<leftarrow> swap_rows t x (word_of_nat i) (word_of_nat j) h;
      if yp \<noteq> None then swap_rows t (the yp) (word_of_nat i) (word_of_nat j) h else Some h } = Some h'"
    "permuted t x yp (exchange i j) h h'"
proof -
  obtain h1 where h1: "swap_rows t x (word_of_nat i) (word_of_nat j) h = Some h1" "\<And>q. q \<noteq> mx_data x \<Longrightarrow> q \<noteq> t \<Longrightarrow> h1 q = h q"
    "\<And>q. length (h1 q) = length (h q)"
    "\<And>r c. r < unat (mx_rows x) \<Longrightarrow> c < unat (mx_cols x) \<Longrightarrow> mx_at h1 x r c = mx_at h x (exchange i j r) c"
    by (rule swap_rows_ok [OF assms(1,5,6,7) _ assms(4)]) (use assms(3) in auto)
  show thesis
  proof (cases yp)
    case None
    then show thesis using h1 by (intro that [of h1]) (auto simp: permuted_def)
  next
    case (Some y)
    note y = assms(2) [OF Some]
    have y1: "h1 (mx_data y) = h (mx_data y)" using h1(2) y by simp
    obtain h2 where h2: "swap_rows t y (word_of_nat i) (word_of_nat j) h1 = Some h2" "\<And>q. q \<noteq> mx_data y \<Longrightarrow> q \<noteq> t \<Longrightarrow> h2 q = h1 q"
      "\<And>q. length (h2 q) = length (h1 q)"
      "\<And>r c. r < unat (mx_rows y) \<Longrightarrow> c < unat (mx_cols y) \<Longrightarrow> mx_at h2 y r c = mx_at h1 y (exchange i j r) c"
      by (rule swap_rows_ok [of h1 y i j t]) (use y assms(5-7) h1(3) mx_ok_len [of h1 h y] in auto)
    have "h2 (mx_data x) = h1 (mx_data x)" by (rule h2(2)) (use y assms(3) in auto)
    then have "mx_at h2 x r c = mx_at h1 x r c" "mx_at h1 y r c = mx_at h y r c" for r c using y1 by (simp_all add: mx_at_def)
    then show thesis
      using Some y h1 h2 by (intro that [of h2]) (auto simp: permuted_def)
  qed
qed

text \<open>One turn of the loop.\<close>

definition shuffle_body :: "u64 \<Rightarrow> matx \<Rightarrow> matx option \<Rightarrow> nat \<Rightarrow> 'a mem \<times> rng \<Rightarrow> ('a mem \<times> rng) ub" where
  "shuffle_body t x yp i = (\<lambda>(h, r).
     do { (v, r) \<leftarrow> rng_range_u32 r (ucast (word_of_nat i + 1 :: size_t));
          let j = (ucast v :: size_t);
          if j = word_of_nat i then Some (h, r)
          else do { h \<leftarrow> swap_rows t x (word_of_nat i) j h;
                    h \<leftarrow> (if yp \<noteq> None then swap_rows t (the yp) (word_of_nat i) j h else Some h);
                    Some (h, r) } })"

lemma draw_bound:
  assumes "Suc i < 2 ^ 32"
  shows "ucast (word_of_nat i + 1 :: size_t) = (word_of_nat (Suc i) :: 32 word)" and "word_of_nat (Suc i) \<noteq> (0 :: 32 word)"
    and "unat (word_of_nat (Suc i) :: 32 word) = Suc i"
proof -
  have "(word_of_nat i + 1 :: size_t) = word_of_nat (Suc i)" by (simp add: add.commute)
  then show "ucast (word_of_nat i + 1 :: size_t) = (word_of_nat (Suc i) :: 32 word)"
    using assms by (simp only: unsigned_of_nat) (simp add: take_bit_nat_eq_self del: of_nat_Suc)
  show u: "unat (word_of_nat (Suc i) :: 32 word) = Suc i" using assms by (simp only: unsigned_of_nat) (simp add: take_bit_nat_eq_self)
  then show "word_of_nat (Suc i) \<noteq> (0 :: 32 word)" by (metis unat_0 Zero_not_Suc)
qed

text \<open>The loop from position \<open>n\<close> down to 1.\<close>

lemma shuffle_loop:
  fixes h :: "'a mem"
  assumes "mx_ok h x" and "\<And>y. yp = Some y \<Longrightarrow> mx_ok h y \<and> mx_rows y = mx_rows x \<and> mx_data y \<noteq> mx_data x \<and> mx_data y \<noteq> t
        \<and> unat (mx_cols y) \<le> length (h t)"
    and "mx_data x \<noteq> t" and "unat (mx_cols x) \<le> length (h t)" and "odd (rng_inc r)" and "n < unat (mx_rows x)" and "n < 2 ^ 32 - 1"
  shows "\<exists>h' r' js. for_each (rev [1 ..< Suc n]) (shuffle_body t x yp) (h, r) = Some (h', r') \<and> length js = n \<and> valid_draws js
     \<and> drawn r js r' \<and> permuted t x yp (shuffle_perm js) h h'"
  using assms
proof (induction n arbitrary: h r)
  case 0
  then show ?case by (intro exI [of _ h] exI [of _ r] exI [of _ "[]"]) (simp add: permuted_def)
next
  case (Suc n)
  have b: "Suc (Suc n) < 2 ^ 32" using Suc.prems(7) by simp
  note db = draw_bound [OF b]
  obtain v r1 where v: "rng_range_u32 r (word_of_nat (Suc (Suc n))) = Some (v, r1)" "v < word_of_nat (Suc (Suc n))" "rng_inc r1 = rng_inc r"
    by (rule rng_range_draw [OF Suc.prems(5) db(2)])
  define j where "j = unat v"
  have j: "j \<le> Suc n" using v(2) db(3) by (simp add: word_less_nat_alt j_def del: of_nat_Suc)
  have jv: "(ucast v :: size_t) = word_of_nat j" by (simp add: j_def)
  have eq: "(word_of_nat j = (word_of_nat (Suc n) :: size_t)) = (j = Suc n)"
  proof
    assume "word_of_nat j = (word_of_nat (Suc n) :: size_t)"
    then have "unat (word_of_nat j :: size_t) = unat (word_of_nat (Suc n) :: size_t)" by simp
    then show "j = Suc n" using j b by (subst (asm) (1 2) unat_word_of_nat) auto
  qed simp
  obtain h1 where h1: "shuffle_body t x yp (Suc n) (h, r) = Some (h1, r1)" "permuted t x yp (exchange (Suc n) j) h h1"
  proof (cases "j = Suc n")
    case True
    then have "shuffle_body t x yp (Suc n) (h, r) = Some (h, r1)"
      unfolding shuffle_body_def prod.case db(1) v(1) by (simp add: jv eq Let_def del: of_nat_Suc)
    moreover have "exchange (Suc n) (Suc n) r = r" for r by (simp add: exchange_def)
    ultimately show thesis using that True by (simp add: permuted_def)
  next
    case False
    obtain h1 where h1: "do { h \<leftarrow> swap_rows t x (word_of_nat (Suc n)) (word_of_nat j) h;
      if yp \<noteq> None then swap_rows t (the yp) (word_of_nat (Suc n)) (word_of_nat j) h else Some h } = Some h1"
      "permuted t x yp (exchange (Suc n) j) h h1"
      by (rule swap_both [OF Suc.prems(1,2,3,4,6) _ not_sym [OF False]]) (use j Suc.prems(6) in auto)
    have "shuffle_body t x yp (Suc n) (h, r) = do { h \<leftarrow> do { h \<leftarrow> swap_rows t x (word_of_nat (Suc n)) (word_of_nat j) h;
      if yp \<noteq> None then swap_rows t (the yp) (word_of_nat (Suc n)) (word_of_nat j) h else Some h }; Some (h, r1) }"
      unfolding shuffle_body_def prod.case db(1) v(1) using False
      by (simp add: jv eq Let_def del: of_nat_Suc cong: if_cong)
    also have "\<dots> = Some (h1, r1)" unfolding h1(1) by simp
    finally show thesis using that h1(2) by blast
  qed
  have len: "length (h1 q) = length (h q)" for q using h1(2) by (simp add: permuted_def)
  have ok1: "mx_ok h1 m = mx_ok h m" for m by (rule mx_ok_len [OF len])
  from Suc.IH [of h1 r1] obtain h' r' js where IH: "for_each (rev [1 ..< Suc n]) (shuffle_body t x yp) (h1, r1) = Some (h', r')"
      "length js = n" "valid_draws js" "drawn r1 js r'" "permuted t x yp (shuffle_perm js) h1 h'"
    using Suc.prems v(3) len ok1 by (metis (no_types, lifting) Suc_lessD)
  have less: "shuffle_perm js a < unat (mx_rows x)" if "a < unat (mx_rows x)" for a
  proof (cases "a < Suc n")
    case True
    then have "shuffle_perm js a < Suc n" using shuffle_perm_on [OF IH(3)] IH(2) by (auto simp: perm_on_def bij_betw_def)
    then show ?thesis using Suc.prems(6) by simp
  next
    case False
    then show ?thesis using shuffle_perm_on [OF IH(3)] IH(2) that by (simp add: perm_on_def)
  qed
  have "permuted t x yp (exchange (Suc n) j \<circ> shuffle_perm js) h h'" by (rule permuted_trans [OF h1(2) IH(5) less])
  then show ?case
    using h1(1) IH v(1) j by (intro exI [of _ h'] exI [of _ r'] exI [of _ "j # js"]) (auto simp: j_def o_def simp del: of_nat_Suc)
qed

text \<open>
  C12. \<open>dataset_shuffle\<close> of well-formed matrices with the same number of rows (fewer than \<open>2 ^ 32\<close>),
  in separate blocks, terminates with \<open>ERR_OK\<close> and permutes the rows of both by one and the same
  permutation, changing nothing else. The permutation is determined by the draws
  \<open>rng_range_u32 (n), \<dots>, rng_range_u32 (2)\<close>, and every permutation of the rows comes from exactly one
  admissible sequence of draws.
\<close>

theorem dataset_shuffle_lockstep:
  fixes h :: "'a::zero mem"
  assumes "mx_ok h x" and "mx_ok h y" and "mx_rows y = mx_rows x" and "unat (mx_rows x) < 2 ^ 32" and "odd (rng_inc r)"
    and "distinct [t, 0, mx_data x, mx_data y]"
  shows "(\<exists>h' r' js. dataset_shuffle t h (Some x) (Some y) (Some r) = Some (ERR_OK, h', Some r')
        \<and> length js = unat (mx_rows x) - 1 \<and> valid_draws js \<and> drawn r js r' \<and> perm_on (unat (mx_rows x)) (shuffle_perm js)
        \<and> (\<forall>i < unat (mx_rows x). \<forall>c < unat (mx_cols x). mx_at h' x i c = mx_at h x (shuffle_perm js i) c)
        \<and> (\<forall>i < unat (mx_rows x). \<forall>c < unat (mx_cols y). mx_at h' y i c = mx_at h y (shuffle_perm js i) c)
        \<and> (\<forall>q. q \<notin> {t, mx_data x, mx_data y} \<longrightarrow> h' q = h q))
     \<and> (\<forall>f. perm_on (unat (mx_rows x)) f \<longrightarrow> (\<exists>!js. length js = unat (mx_rows x) - 1 \<and> valid_draws js \<and> shuffle_perm js = f))"
proof (intro conjI allI impI)
  let ?n = "unat (mx_rows x - 1)"
  have r0: "mx_rows x \<noteq> 0" using assms(1) by (simp add: mx_ok_def)
  then have n: "?n = unat (mx_rows x) - 1" by (metis unat_minus_one)
  have pos: "0 < unat (mx_rows x)" using r0 by (simp add: unat_gt_0)
  define w where "w = (if mx_cols y > mx_cols x then mx_cols y else mx_cols x)"
  define h0 where "h0 = h(t := replicate (unat (w * 4) div 4) 0)"
  have cols: "unat (mx_cols m) < 2 ^ 62" if "mx_ok h m" for m using mx_ok_bounds(2) [OF that] .
  have w4: "unat (w * 4) div 4 = unat w" "unat (mx_cols x) \<le> unat w" "unat (mx_cols y) \<le> unat w"
  proof -
    have "unat w < 2 ^ 62" using cols [OF assms(1)] cols [OF assms(2)] by (simp add: w_def)
    then have "unat (w * 4) = unat w * unat (4 :: size_t)" by (intro unat_mult_small) simp
    then show "unat (w * 4) div 4 = unat w" by simp
    show "unat (mx_cols x) \<le> unat w" "unat (mx_cols y) \<le> unat w" by (auto simp: w_def word_less_nat_alt)
  qed
  have x0: "mx_ok h0 x" and y0: "mx_ok h0 y" using assms(1,2,6) by (auto simp: h0_def mx_ok_def)
  have ys: "mx_ok h0 y' \<and> mx_rows y' = mx_rows x \<and> mx_data y' \<noteq> mx_data x \<and> mx_data y' \<noteq> t \<and> unat (mx_cols y') \<le> length (h0 t)"
    if "Some y = Some y'" for y'
    using that y0 assms(3,6) w4 by (auto simp: h0_def)
  have xt: "mx_data x \<noteq> t" and lt: "unat (mx_cols x) \<le> length (h0 t)" using assms(6) w4 by (auto simp: h0_def)
  have nr: "?n < unat (mx_rows x)" "?n < 2 ^ 32 - 1" using n pos assms(4) by auto
  obtain h1 r' js where L: "for_each (rev [1 ..< Suc ?n]) (shuffle_body t x (Some y)) (h0, r) = Some (h1, r')" "length js = ?n"
    "valid_draws js" "drawn r js r'" "permuted t x (Some y) (shuffle_perm js) h0 h1"
    using shuffle_loop [OF x0 ys xt lt assms(5) nr] by blast
  have run: "dataset_shuffle t h (Some x) (Some y) (Some r) = Some (ERR_OK, h1(t := []), Some r')"
    using L(1) assms(1-3,6) unfolding dataset_shuffle_def shuffle_body_def h0_def w_def
    by (simp add: Let_def mx_ok_def has_data_def split del: if_split cong: if_cong)
  have p: "perm_on (unat (mx_rows x)) (shuffle_perm js)" using shuffle_perm_on [OF L(3)] L(2) n pos by simp
  have at: "mx_at (h1(t := [])) m i c = mx_at h m (shuffle_perm js i) c"
    if "m \<in> {x, y}" "i < unat (mx_rows x)" "c < unat (mx_cols m)" for m i c
  proof -
    have "mx_at h1 m i c = mx_at h0 m (shuffle_perm js i) c" using L(5) that by (auto simp: permuted_def)
    then show ?thesis using that(1) assms(6) by (auto simp: mx_at_def h0_def)
  qed
  show "\<exists>h' r' js. dataset_shuffle t h (Some x) (Some y) (Some r) = Some (ERR_OK, h', Some r')
        \<and> length js = unat (mx_rows x) - 1 \<and> valid_draws js \<and> drawn r js r' \<and> perm_on (unat (mx_rows x)) (shuffle_perm js)
        \<and> (\<forall>i < unat (mx_rows x). \<forall>c < unat (mx_cols x). mx_at h' x i c = mx_at h x (shuffle_perm js i) c)
        \<and> (\<forall>i < unat (mx_rows x). \<forall>c < unat (mx_cols y). mx_at h' y i c = mx_at h y (shuffle_perm js i) c)
        \<and> (\<forall>q. q \<notin> {t, mx_data x, mx_data y} \<longrightarrow> h' q = h q)"
    using run L(2-5) n p at
    by (intro exI [of _ "h1(t := [])"] exI [of _ r'] exI [of _ js]) (auto simp: permuted_def h0_def)
  show "\<exists>!js. length js = unat (mx_rows x) - 1 \<and> valid_draws js \<and> shuffle_perm js = f" if "perm_on (unat (mx_rows x)) f" for f
    using shuffle_perm_unique [of "unat (mx_rows x) - 1" f] that pos by simp
qed

theorem dataset_shuffle_lockstep_witness:
  "\<exists>h' r' js. dataset_shuffle 9 ((\<lambda>_. [])(1 := [1, 2, 3, 4, 5, 6 :: int], 2 := [7, 8, 9]))
       (Some \<lparr>mx_data = 1, mx_rows = 3, mx_cols = 2, mx_owns = 1\<rparr>) (Some \<lparr>mx_data = 2, mx_rows = 3, mx_cols = 1, mx_owns = 1\<rparr>)
       (Some (rng_seed \<lparr>rng_state = 0, rng_inc = 0\<rparr> 42 54)) = Some (ERR_OK, h', Some r') \<and> length js = 2 \<and> valid_draws js
     \<and> (\<forall>i < 3. h' 2 ! i = [7, 8, 9] ! shuffle_perm js i)"
proof -
  let ?h = "(\<lambda>_. [])(1 := [1, 2, 3, 4, 5, 6 :: int], 2 := [7, 8, 9])" and ?x = "\<lparr>mx_data = 1, mx_rows = 3, mx_cols = 2, mx_owns = 1\<rparr>"
    and ?y = "\<lparr>mx_data = 2, mx_rows = 3, mx_cols = 1, mx_owns = 1\<rparr>" and ?r = "rng_seed \<lparr>rng_state = 0, rng_inc = 0\<rparr> 42 54"
  have "mx_ok ?h ?x" "mx_ok ?h ?y" by (simp_all add: mx_ok_def)
  from dataset_shuffle_lockstep [OF this _ _ rng_seed_odd, where t = 9 and seed1 = 42 and seq1 = 54 and r1 = "\<lparr>rng_state = 0, rng_inc = 0\<rparr>"]
  show ?thesis by (simp add: mx_at_def) blast
qed

text \<open>
  From \<open>2 ^ 32\<close> rows on the bound is cut to 32 bits: for position \<open>2 ^ 32 - 1\<close> it is 0, and the row is
  always exchanged with row 0.
\<close>

lemma shuffle_bound_wraps:
  "(ucast (word_of_nat (2 ^ 32 - 1) + 1 :: size_t) :: 32 word) = 0" and "rng_range_u32 r 0 = Some (0, r)"
  by (simp_all add: rng_range_u32_def)

end
