(* ===== verification/DataLabels.thy ===== *)
theory DataLabels
  imports Dataset MatxOps
begin

text \<open>
  Labels and standardisation: one-hot rows, the accuracy of a prediction against them, and columns of
  mean 0 and variance 1, in exact arithmetic.
\<close>

section \<open>One-hot rows\<close>

definition good_label :: "real \<Rightarrow> size_t \<Rightarrow> bool" where
  "good_label v classes \<longleftrightarrow> 0 \<le> v \<and> v < of_nat (unat classes)"

lemma zero_data_ok:
  fixes h :: "real mem"
  assumes "mx_ok h out"
  obtains h' where "zero_data h out = Some h'" "\<And>q. q \<noteq> mx_data out \<Longrightarrow> h' q = h q" "\<And>q. length (h' q) = length (h q)"
    "\<And>r c. r < unat (mx_rows out) \<Longrightarrow> c < unat (mx_cols out) \<Longrightarrow> mx_at h' out r c = 0"
proof -
  let ?h = "h(mx_data out := replicate (length (h (mx_data out))) 0)"
  have "zero_data h out = Some ?h"
    unfolding zero_data_def mx_ok_bounds(5) [OF assms]
    by (subst for_each_write [where g = "\<lambda>_. 0"]) (auto simp: wr_def map_replicate_const)
  moreover have "mx_at ?h out r c = 0" if "r < unat (mx_rows out)" "c < unat (mx_cols out)" for r c
  proof -
    have "r * unat (mx_cols out) + c < length (h (mx_data out))" using nat_index_less [OF that] assms by (simp add: mx_ok_def)
    then show ?thesis by (simp add: mx_at_def)
  qed
  ultimately show thesis by (intro that [of ?h]) auto
qed

definition one_hot_body :: "matx \<Rightarrow> size_t \<Rightarrow> matx \<Rightarrow> nat \<Rightarrow> error_code \<times> real mem \<Rightarrow> (error_code \<times> real mem) ub" where
  "one_hot_body labels classes out r = (\<lambda>(err, h).
     if err \<noteq> ERR_OK then Some (err, h)
     else do { v \<leftarrow> matx_get h labels r 0;
               if v < 0 \<or> v \<ge> fm_nat exact (unat classes) then Some (ERR_INVALID_ARG, h)
               else do { c \<leftarrow> fm_trunc exact v; h \<leftarrow> matx_set h out r (nat c) 1; Some (ERR_OK, h) } })"

lemma one_hot_loop:
  assumes "mx_ok h labels" and "mx_ok h out" and "mx_cols labels = 1" and "mx_rows out = mx_rows labels" and "mx_data out \<noteq> mx_data labels"
    and zero: "\<And>r c. r < unat (mx_rows out) \<Longrightarrow> c < unat (mx_cols out) \<Longrightarrow> mx_at h out r c = 0"
  shows "\<exists>s. for_each [0 ..< unat (mx_rows labels)] (one_hot_body labels (mx_cols out) out) (ERR_OK, h) = Some s
     \<and> (case s of (err, h') \<Rightarrow> (\<forall>q. q \<noteq> mx_data out \<longrightarrow> h' q = h q) \<and> (\<forall>q. length (h' q) = length (h q))
        \<and> err = (if \<forall>r < unat (mx_rows labels). good_label (mx_at h labels r 0) (mx_cols out) then ERR_OK else ERR_INVALID_ARG)
        \<and> (err = ERR_OK \<longrightarrow> (\<forall>r < unat (mx_rows out). \<forall>c < unat (mx_cols out).
             mx_at h' out r c = (if r < unat (mx_rows labels) \<and> c = nat \<lfloor>mx_at h labels r 0\<rfloor> then 1 else 0))))"
proof (rule for_each_invariant)
  fix i s assume i: "0 \<le> i" "i < unat (mx_rows labels)"
    and s: "case s of (err, h') \<Rightarrow> (\<forall>q. q \<noteq> mx_data out \<longrightarrow> h' q = h q) \<and> (\<forall>q. length (h' q) = length (h q))
        \<and> err = (if \<forall>r < i. good_label (mx_at h labels r 0) (mx_cols out) then ERR_OK else ERR_INVALID_ARG)
        \<and> (err = ERR_OK \<longrightarrow> (\<forall>r < unat (mx_rows out). \<forall>c < unat (mx_cols out).
             mx_at h' out r c = (if r < i \<and> c = nat \<lfloor>mx_at h labels r 0\<rfloor> then 1 else 0)))"
  obtain err h1 where e: "s = (err, h1)" by fastforce
  note inv = s [unfolded e prod.case]
  have len: "length (h1 q) = length (h q)" for q using inv by simp
  have ok: "mx_ok h1 m = mx_ok h m" for m by (rule mx_ok_len [OF len])
  have lab: "matx_get h1 labels i 0 = Some (mx_at h labels i 0)"
  proof -
    have "matx_get h1 labels i 0 = Some (mx_at h1 labels i 0)" by (rule matx_get_ok) (use i assms ok in simp_all)
    then show ?thesis using inv assms(5) by (simp add: mx_at_def)
  qed
  have step: "(\<forall>r < Suc i. good_label (mx_at h labels r 0) (mx_cols out))
      = ((\<forall>r < i. good_label (mx_at h labels r 0) (mx_cols out)) \<and> good_label (mx_at h labels i 0) (mx_cols out))"
    by (auto simp: less_Suc_eq)
  show "\<exists>s'. one_hot_body labels (mx_cols out) out i s = Some s' \<and> (case s' of (err, h') \<Rightarrow> (\<forall>q. q \<noteq> mx_data out \<longrightarrow> h' q = h q) \<and> (\<forall>q. length (h' q) = length (h q))
        \<and> err = (if \<forall>r < Suc i. good_label (mx_at h labels r 0) (mx_cols out) then ERR_OK else ERR_INVALID_ARG)
        \<and> (err = ERR_OK \<longrightarrow> (\<forall>r < unat (mx_rows out). \<forall>c < unat (mx_cols out).
             mx_at h' out r c = (if r < Suc i \<and> c = nat \<lfloor>mx_at h labels r 0\<rfloor> then 1 else 0))))"
  proof (cases "(\<forall>r < i. good_label (mx_at h labels r 0) (mx_cols out)) \<and> good_label (mx_at h labels i 0) (mx_cols out)")
    case False
    then show ?thesis using inv lab unfolding e step by (auto simp: one_hot_body_def good_label_def not_less)
  next
    case True
    define v where "v = mx_at h labels i 0"
    have v: "0 \<le> v" "v < of_nat (unat (mx_cols out))" using True by (simp_all add: v_def good_label_def)
    have c: "nat \<lfloor>v\<rfloor> < unat (mx_cols out)" using v by linarith
    have ir: "i < unat (mx_rows out)" using i assms(4) by simp
    obtain h2 where h2: "matx_set h1 out i (nat \<lfloor>v\<rfloor>) 1 = Some h2" "\<And>q. q \<noteq> mx_data out \<Longrightarrow> h2 q = h1 q" "\<And>q. length (h2 q) = length (h1 q)"
      "\<And>r' c'. r' < unat (mx_rows out) \<Longrightarrow> c' < unat (mx_cols out) \<Longrightarrow> mx_at h2 out r' c' = (if r' = i \<and> c' = nat \<lfloor>v\<rfloor> then 1 else mx_at h1 out r' c')"
      by (rule matx_set_ok [OF _ ir c, of h1]) (use ok assms(2) in auto)
    have "one_hot_body labels (mx_cols out) out i s = Some (ERR_OK, h2)"
      using True inv lab v h2(1) unfolding e by (simp add: one_hot_body_def v_def [symmetric])
    moreover have "mx_at h2 out r c = (if r < Suc i \<and> c = nat \<lfloor>mx_at h labels r 0\<rfloor> then 1 else 0)"
      if "r < unat (mx_rows out)" "c < unat (mx_cols out)" for r c
      using h2(4) [OF that] inv True that by (auto simp: less_Suc_eq v_def)
    ultimately show ?thesis using True inv h2(2,3) unfolding step by simp
  qed
qed (use zero in auto)

text \<open>A label that is not a number passes the range test; converting it to an index is undefined.\<close>

lemma one_hot_nan:
  "dataset_one_hot (math32 lib) ((\<lambda>_. [])(1 := [F32 FNaN], 2 := [0, 0])) (Some \<lparr>mx_data = 1, mx_rows = 1, mx_cols = 1, mx_owns = 1\<rparr>) 2
     (Some \<lparr>mx_data = 2, mx_rows = 1, mx_cols = 2, mx_owns = 1\<rparr>) = None"
  by (simp add: dataset_one_hot_def has_data_def zero_data_def mx_count_def matx_get_def rd_def wr_def mx_index_def
      less_f32_def less_eq_f32_def trunc32_def upt_rec)

section \<open>Accuracy\<close>

lemma accuracy_eq:
  fixes h :: "real mem"
  assumes "mx_ok h pred" and "mx_ok h target" and "same_shape pred target"
  defines "hit \<equiv> \<lambda>r. first_max (mx_at h pred r) (unat (mx_cols pred)) = first_max (mx_at h target r) (unat (mx_cols target))"
  shows "dataset_accuracy exact h (Some pred) (Some target) True
       = Some (ERR_OK, Some (real (card {r. r < unat (mx_rows pred) \<and> hit r}) / real (unat (mx_rows pred))))"
proof -
  let ?body = "\<lambda>r (err, correct).
       if err \<noteq> ERR_OK then Some (err, correct)
       else do { (err, p) \<leftarrow> matx_row_argmax h (Some pred) (word_of_nat r) True;
                 if err \<noteq> ERR_OK then Some (err, correct)
                 else do { (err, t) \<leftarrow> matx_row_argmax h (Some target) (word_of_nat r) True;
                           Some (err, if err = ERR_OK \<and> p = t then correct + 1 else correct) } }"
  have "\<exists>s. for_each [0 ..< unat (mx_rows pred)] ?body (ERR_OK, 0 :: nat) = Some s
      \<and> s = (ERR_OK, card {r. r < unat (mx_rows pred) \<and> hit r})"
  proof (rule for_each_invariant)
    fix i s assume i: "i < unat (mx_rows pred)" and s: "s = (ERR_OK, card {r. r < i \<and> hit r})"
    have "i < 18446744073709551616" using i unat_less_2p64 less_trans by blast
    then have u: "unat (word_of_nat i :: size_t) = i" by (rule unat_word_of_nat)
    then have lt: "word_of_nat i < mx_rows pred" "word_of_nat i < mx_rows target"
      using i assms(3) by (simp_all add: word_less_unat same_shape_def)
    have "{r. r < Suc i \<and> hit r} = (if hit i then insert i {r. r < i \<and> hit r} else {r. r < i \<and> hit r})"
      by (auto simp: less_Suc_eq)
    then show "\<exists>s'. ?body i s = Some s' \<and> s' = (ERR_OK, card {r. r < Suc i \<and> hit r})"
      using row_argmax_eq [OF assms(1) lt(1)] row_argmax_eq [OF assms(2) lt(2)] by (simp add: s u hit_def)
  qed simp_all
  moreover have "mx_rows pred \<noteq> 0" using assms(1) by (simp add: mx_ok_def)
  ultimately show ?thesis using assms(1-3) by (simp add: dataset_accuracy_def same_shape_def)
qed

lemma first_max_one_hot: "k < n \<Longrightarrow> first_max (\<lambda>c. if c = k then 1 else 0 :: real) n = k"
proof -
  assume k: "k < n"
  define x where "x = (\<lambda>c. if c = k then 1 else 0 :: real)"
  have "x k \<le> x (first_max x n)" using first_max_spec [of n x] k by auto
  then have "first_max x n = k" by (simp add: x_def split: if_splits)
  then show ?thesis by (simp add: x_def)
qed

lemma first_max_cong: "0 < n \<Longrightarrow> (\<And>c. c < n \<Longrightarrow> x c = y c) \<Longrightarrow> first_max x n = first_max y n"
proof (induction n rule: nat_induct_non_zero)
  case (Suc n)
  then have "first_max x n = first_max y n" "first_max y n < n" by (simp_all add: first_max_less)
  then show ?case using Suc by (simp add: first_max_Suc)
qed (simp add: first_max_def)

text \<open>
  Exact arithmetic. \<open>dataset_one_hot\<close> accepts exactly the labels in \<open>[0, classes)\<close>, otherwise it
  returns \<open>ERR_INVALID_ARG\<close>; when it accepts them, row \<open>r\<close> of the result is 1 at the integer part of
  label \<open>r\<close> and 0 elsewhere, nothing but the result changes, and \<open>dataset_accuracy\<close> against the
  result is the fraction of the rows in which the first maximum of the prediction is the label, so
  that the one-hot rows themselves have accuracy 1.
\<close>

theorem dataset_one_hot_accuracy:
  fixes h :: "real mem"
  assumes "mx_ok h labels" and "mx_ok h out" and "mx_ok h pred" and "mx_cols labels = 1" and "mx_rows out = mx_rows labels"
    and "same_shape pred out" and "mx_data out \<noteq> mx_data labels" and "mx_data pred \<noteq> mx_data out"
  defines "label \<equiv> \<lambda>r. mx_at h labels r 0" and "n \<equiv> unat (mx_rows labels)"
  shows "\<exists>err h'. dataset_one_hot exact h (Some labels) (mx_cols out) (Some out) = Some (err, h')
     \<and> err = (if \<forall>r < n. 0 \<le> label r \<and> label r < real (unat (mx_cols out)) then ERR_OK else ERR_INVALID_ARG)
     \<and> (\<forall>q. q \<noteq> mx_data out \<longrightarrow> h' q = h q)
     \<and> (err = ERR_OK \<longrightarrow>
          (\<forall>r < n. \<forall>c < unat (mx_cols out). mx_at h' out r c = (if c = nat \<lfloor>label r\<rfloor> then 1 else 0))
        \<and> dataset_accuracy exact h' (Some pred) (Some out) True
            = Some (ERR_OK, Some (real (card {r. r < n \<and> first_max (mx_at h pred r) (unat (mx_cols out)) = nat \<lfloor>label r\<rfloor>}) / real n))
        \<and> dataset_accuracy exact h' (Some out) (Some out) True = Some (ERR_OK, Some 1))"
proof -
  obtain h0 where h0: "zero_data h out = Some h0" "\<And>q. q \<noteq> mx_data out \<Longrightarrow> h0 q = h q" "\<And>q. length (h0 q) = length (h q)"
    "\<And>r c. r < unat (mx_rows out) \<Longrightarrow> c < unat (mx_cols out) \<Longrightarrow> mx_at h0 out r c = 0"
    by (rule zero_data_ok [OF assms(2)]) blast
  have ok0: "mx_ok h0 m = mx_ok h m" for m by (rule mx_ok_len [OF h0(3)])
  have lab0: "mx_at h0 labels r 0 = label r" for r using h0(2) assms(7) by (simp add: mx_at_def label_def)
  obtain err h' where L: "for_each [0 ..< n] (one_hot_body labels (mx_cols out) out) (ERR_OK, h0) = Some (err, h')"
    "\<And>q. q \<noteq> mx_data out \<Longrightarrow> h' q = h0 q" "\<And>q. length (h' q) = length (h0 q)"
    "err = (if \<forall>r < n. good_label (label r) (mx_cols out) then ERR_OK else ERR_INVALID_ARG)"
    "\<And>r c. err = ERR_OK \<Longrightarrow> r < n \<Longrightarrow> c < unat (mx_cols out) \<Longrightarrow> mx_at h' out r c = (if c = nat \<lfloor>label r\<rfloor> then 1 else 0)"
    using one_hot_loop [of h0 labels out] assms(1,2,4,5,7) ok0 h0(4) unfolding lab0 n_def by (auto simp: assms(5))
  have ok: "mx_ok h' m = mx_ok h m" for m using mx_ok_len [of h' h m] L(3) h0(3) by simp
  have c0: "mx_cols out \<noteq> 0" using assms(2) by (simp add: mx_ok_def)
  have run: "dataset_one_hot exact h (Some labels) (mx_cols out) (Some out) = Some (err, h')"
    using L(1) h0(1) assms(1,2,4,5) c0 unfolding dataset_one_hot_def one_hot_body_def n_def
    by (simp add: Let_def split del: if_split cong: if_cong)
  have acc: "dataset_accuracy exact h' (Some pred) (Some out) True
            = Some (ERR_OK, Some (real (card {r. r < n \<and> first_max (mx_at h pred r) (unat (mx_cols out)) = nat \<lfloor>label r\<rfloor>}) / real n))"
    and self: "dataset_accuracy exact h' (Some out) (Some out) True = Some (ERR_OK, Some 1)" if e: "err = ERR_OK"
  proof -
    have g: "good_label (label r) (mx_cols out)" if "r < n" for r using L(4) e that by (auto split: if_splits)
    have r0: "mx_rows labels \<noteq> 0" using assms(1) by (simp add: mx_ok_def)
    have n0: "0 < n" using mx_ok_bounds(3) [OF assms(1)] by (simp add: n_def)
    have fm: "first_max (mx_at h' out r) (unat (mx_cols out)) = nat \<lfloor>label r\<rfloor>" if r: "r < n" for r
    proof -
      have k: "nat \<lfloor>label r\<rfloor> < unat (mx_cols out)" using g [OF r] unfolding good_label_def by linarith
      have "first_max (mx_at h' out r) (unat (mx_cols out)) = first_max (\<lambda>c. if c = nat \<lfloor>label r\<rfloor> then 1 else 0 :: real) (unat (mx_cols out))"
        by (rule first_max_cong) (use k L(5) [OF e r] in auto)
      then show ?thesis using first_max_one_hot [OF k] by simp
    qed
    have p: "mx_at h' pred r = mx_at h pred r" for r using L(2) h0(2) assms(8) by (auto simp: mx_at_def intro!: ext)
    have "{r. r < n \<and> first_max (mx_at h pred r) (unat (mx_cols out)) = first_max (mx_at h' out r) (unat (mx_cols out))}
        = {r. r < n \<and> first_max (mx_at h pred r) (unat (mx_cols out)) = nat \<lfloor>label r\<rfloor>}" using fm by auto
    then show "dataset_accuracy exact h' (Some pred) (Some out) True
            = Some (ERR_OK, Some (real (card {r. r < n \<and> first_max (mx_at h pred r) (unat (mx_cols out)) = nat \<lfloor>label r\<rfloor>}) / real n))"
      using accuracy_eq [of h' pred out] assms(2,3,5,6) ok p by (simp add: same_shape_def n_def)
    show "dataset_accuracy exact h' (Some out) (Some out) True = Some (ERR_OK, Some 1)"
      using accuracy_eq [of h' out out] assms(2,5) ok r0 by (simp add: same_shape_def unsigned_eq_0_iff)
  qed
  show ?thesis
    using run L(2,4,5) h0(2) acc self by (intro exI [of _ err] exI [of _ h']) (auto simp: good_label_def)
qed

theorem dataset_one_hot_accuracy_witness:
  "\<exists>h'. dataset_one_hot exact ((\<lambda>_. [])(1 := [1, 0], 2 := [0, 0, 0, 0], 3 := [3, 4, 1, 2])) (Some \<lparr>mx_data = 1, mx_rows = 2, mx_cols = 1, mx_owns = 1\<rparr>) 2
       (Some \<lparr>mx_data = 2, mx_rows = 2, mx_cols = 2, mx_owns = 1\<rparr>) = Some (ERR_OK, h')
     \<and> dataset_accuracy exact h' (Some \<lparr>mx_data = 2, mx_rows = 2, mx_cols = 2, mx_owns = 1\<rparr>) (Some \<lparr>mx_data = 2, mx_rows = 2, mx_cols = 2, mx_owns = 1\<rparr>) True
       = Some (ERR_OK, Some 1)"
proof -
  let ?h = "(\<lambda>_. [])(1 := [1, 0 :: real], 2 := [0, 0, 0, 0], 3 := [3, 4, 1, 2])" and ?l = "\<lparr>mx_data = 1, mx_rows = 2, mx_cols = 1, mx_owns = 1\<rparr>"
  let ?o = "\<lparr>mx_data = 2, mx_rows = 2, mx_cols = 2, mx_owns = 1\<rparr>" and ?p = "\<lparr>mx_data = 3, mx_rows = 2, mx_cols = 2, mx_owns = 1\<rparr>"
  have "mx_ok ?h ?l" "mx_ok ?h ?o" "mx_ok ?h ?p" by (simp_all add: mx_ok_def)
  from dataset_one_hot_accuracy [OF this] show ?thesis
    by (auto simp: same_shape_def mx_at_def less_2_cases_iff)
qed

section \<open>Z-scores\<close>

definition column :: "'a mem \<Rightarrow> matx \<Rightarrow> nat \<Rightarrow> 'a list" where
  "column h m c = map (\<lambda>r. mx_at h m r c) [0 ..< unat (mx_rows m)]"

text \<open>The sample standard deviation, and what a value of the column becomes.\<close>

definition std_dev :: "real list \<Rightarrow> real" where
  "std_dev d = sqrt (square_dev d / of_nat (length d - 1))"

definition zscore :: "real list \<Rightarrow> real \<Rightarrow> real" where
  "zscore d v = (if std_dev d > 1 / 10 ^ 12 then (v - mean_of d) / std_dev d else v - mean_of d)"

lemma welford_column:
  assumes "mx_ok h x" and "c < unat (mx_cols x)"
  shows "for_each [0 ..< unat (mx_rows x)] (\<lambda>r s. do { v \<leftarrow> matx_get h x r c; Some (welford_step exact r (id v) s) }) (0, 0)
       = Some (mean_of (column h x c), square_dev (column h x c))"
proof -
  have "for_each [0 ..< n] (\<lambda>r s. do { v \<leftarrow> matx_get h x r c; Some (welford_step exact r (id v) s) }) s0
      = for_each [0 ..< n] (\<lambda>r s. do { v \<leftarrow> elt (column h x c) r; Some (welford_step exact r (id v) s) }) s0"
    if "n = unat (mx_rows x)" for n s0
    by (rule for_each_cong) (use that matx_get_ok [OF assms(1) _ assms(2)] in \<open>simp add: column_def\<close>)
  moreover have "0 < unat (mx_rows x)" using mx_ok_bounds(3) [OF assms(1)] .
  moreover have "take (unat (mx_rows x)) (column h x c) = column h x c" "length (column h x c) = unat (mx_rows x)" by (simp_all add: column_def)
  ultimately show ?thesis using welford_loop [of "unat (mx_rows x)" "column h x c"] by simp
qed

lemma zscore_column_ok:
  fixes h :: "real mem"
  assumes "mx_ok h x" and "2 \<le> mx_rows x" and "c < unat (mx_cols x)"
  obtains h' where "zscore_column id id exact exact x c h = Some h'" "\<And>q. q \<noteq> mx_data x \<Longrightarrow> h' q = h q" "\<And>q. length (h' q) = length (h q)"
    "\<And>r c'. r < unat (mx_rows x) \<Longrightarrow> c' < unat (mx_cols x) \<Longrightarrow>
       mx_at h' x r c' = (if c' = c then zscore (column h x c) (mx_at h x r c) else mx_at h x r c')"
proof -
  let ?d = "column h x c"
  let ?body = "\<lambda>r h. do { v \<leftarrow> matx_get h x r c; matx_set h x r c (zscore ?d v) }"
  have "mx_rows x \<noteq> 0" using assms(1) by (simp add: mx_ok_def)
  then have l: "length ?d - 1 = unat (mx_rows x - 1)" by (simp add: column_def unat_minus_one)
  have run: "zscore_column id id exact exact x c h = for_each [0 ..< unat (mx_rows x)] ?body h"
    unfolding zscore_column_def welford_column [OF assms(1,3)] zscore_def std_dev_def l
    by (simp add: Let_def of_rat_divide of_rat_power del: of_nat_unat)
  define R where "R = unat (mx_rows x)"
  have "\<exists>h'. for_each [0 ..< unat (mx_rows x)] ?body h = Some h' \<and> (\<forall>q. q \<noteq> mx_data x \<longrightarrow> h' q = h q) \<and> (\<forall>q. length (h' q) = length (h q))
     \<and> (\<forall>r < R. \<forall>c' < unat (mx_cols x).
          mx_at h' x r c' = (if c' = c \<and> r < unat (mx_rows x) then zscore ?d (mx_at h x r c) else mx_at h x r c'))"
  proof (rule for_each_invariant)
    fix i t assume i: "i < unat (mx_rows x)" and t: "(\<forall>q. q \<noteq> mx_data x \<longrightarrow> t q = h q) \<and> (\<forall>q. length (t q) = length (h q))
     \<and> (\<forall>r < R. \<forall>c' < unat (mx_cols x).
          mx_at t x r c' = (if c' = c \<and> r < i then zscore ?d (mx_at h x r c) else mx_at h x r c'))"
    have ok: "mx_ok t x" using mx_ok_len [of t h x] t assms(1) by blast
    obtain t' where t': "matx_set t x i c (zscore ?d (mx_at h x i c)) = Some t'" "\<And>q. q \<noteq> mx_data x \<Longrightarrow> t' q = t q" "\<And>q. length (t' q) = length (t q)"
      "\<And>r' c'. r' < unat (mx_rows x) \<Longrightarrow> c' < unat (mx_cols x) \<Longrightarrow>
         mx_at t' x r' c' = (if r' = i \<and> c' = c then zscore ?d (mx_at h x i c) else mx_at t x r' c')"
      by (rule matx_set_ok [OF ok i assms(3), of "zscore ?d (mx_at h x i c)"]) blast
    have "?body i t = Some t'" using matx_get_ok [OF ok i assms(3)] t i assms(3) t'(1) by (simp add: R_def)
    then show "\<exists>t'. ?body i t = Some t' \<and> (\<forall>q. q \<noteq> mx_data x \<longrightarrow> t' q = h q) \<and> (\<forall>q. length (t' q) = length (h q))
     \<and> (\<forall>r < R. \<forall>c' < unat (mx_cols x).
          mx_at t' x r c' = (if c' = c \<and> r < Suc i then zscore ?d (mx_at h x r c) else mx_at h x r c'))"
      using t t'(2-4) by (auto simp: less_Suc_eq R_def)
  qed auto
  then show thesis using that run by (auto simp: R_def)
qed

lemma zscore_matrix:
  fixes h :: "real mem"
  assumes "mx_ok h x" and "2 \<le> mx_rows x"
  obtains h' where "dataset_normalize_zscore id id exact exact h (Some x) = Some (ERR_OK, h')" "\<And>q. q \<noteq> mx_data x \<Longrightarrow> h' q = h q"
    "\<And>r c. r < unat (mx_rows x) \<Longrightarrow> c < unat (mx_cols x) \<Longrightarrow> mx_at h' x r c = zscore (column h x c) (mx_at h x r c)"
proof -
  define C where "C = unat (mx_cols x)"
  have "\<exists>h'. for_each [0 ..< unat (mx_cols x)] (zscore_column id id exact exact x) h = Some h'
     \<and> (\<forall>q. q \<noteq> mx_data x \<longrightarrow> h' q = h q) \<and> (\<forall>q. length (h' q) = length (h q))
     \<and> (\<forall>r < unat (mx_rows x). \<forall>c < C.
          mx_at h' x r c = (if c < unat (mx_cols x) then zscore (column h x c) (mx_at h x r c) else mx_at h x r c))"
  proof (rule for_each_invariant)
    fix i t assume i: "i < unat (mx_cols x)" and t: "(\<forall>q. q \<noteq> mx_data x \<longrightarrow> t q = h q) \<and> (\<forall>q. length (t q) = length (h q))
     \<and> (\<forall>r < unat (mx_rows x). \<forall>c < C.
          mx_at t x r c = (if c < i then zscore (column h x c) (mx_at h x r c) else mx_at h x r c))"
    have ok: "mx_ok t x" using mx_ok_len [of t h x] t assms(1) by blast
    have col: "column t x i = column h x i" using t i by (auto simp: column_def C_def)
    obtain t' where t': "zscore_column id id exact exact x i t = Some t'" "\<And>q. q \<noteq> mx_data x \<Longrightarrow> t' q = t q" "\<And>q. length (t' q) = length (t q)"
      "\<And>r c'. r < unat (mx_rows x) \<Longrightarrow> c' < unat (mx_cols x) \<Longrightarrow>
         mx_at t' x r c' = (if c' = i then zscore (column t x i) (mx_at t x r i) else mx_at t x r c')"
      by (rule zscore_column_ok [OF ok assms(2) i]) blast
    show "\<exists>t'. zscore_column id id exact exact x i t = Some t' \<and> (\<forall>q. q \<noteq> mx_data x \<longrightarrow> t' q = h q) \<and> (\<forall>q. length (t' q) = length (h q))
     \<and> (\<forall>r < unat (mx_rows x). \<forall>c < C.
          mx_at t' x r c = (if c < Suc i then zscore (column h x c) (mx_at h x r c) else mx_at h x r c))"
      using t t' i by (intro exI [of _ t']) (auto simp: col less_Suc_eq C_def)
  qed auto
  then obtain h' where h': "for_each [0 ..< unat (mx_cols x)] (zscore_column id id exact exact x) h = Some h'" "\<And>q. q \<noteq> mx_data x \<Longrightarrow> h' q = h q"
    "\<And>r c. r < unat (mx_rows x) \<Longrightarrow> c < unat (mx_cols x) \<Longrightarrow> mx_at h' x r c = zscore (column h x c) (mx_at h x r c)" by (auto simp: C_def)
  have "dataset_normalize_zscore id id exact exact h (Some x) = Some (ERR_OK, h')"
    using h'(1) assms by (simp add: dataset_normalize_zscore_def not_less)
  then show thesis using h'(2,3) that by blast
qed

text \<open>Standardising moves the mean to 0 and scales the squared deviations.\<close>

lemma mean_affine: "d \<noteq> [] \<Longrightarrow> mean_of (map (\<lambda>v. (v - a) / s) d) = (mean_of d - a) / s"
proof -
  assume d: "d \<noteq> []"
  have "sum_list (map (\<lambda>v. (v - a) / s) d) = (sum_list d - of_nat (length d) * a) / s"
    by (induction d) (simp_all add: add_divide_distrib diff_divide_distrib algebra_simps)
  then show ?thesis using d by (simp add: mean_of_def field_simps)
qed

lemma square_dev_affine: "d \<noteq> [] \<Longrightarrow> square_dev (map (\<lambda>v. (v - a) / s) d) = square_dev d / (s * s)"
proof -
  assume d: "d \<noteq> []"
  have e: "((v - a) / s - (mean_of d - a) / s) * ((v - a) / s - (mean_of d - a) / s) = ((v - mean_of d) * (v - mean_of d)) / (s * s)" for v
    by (simp add: diff_divide_distrib [symmetric])
  have "(\<Sum>v \<leftarrow> xs. f v / (s * s)) = (\<Sum>v \<leftarrow> xs. f v) / (s * s)" for xs and f :: "real \<Rightarrow> real"
    by (induction xs) (simp_all add: add_divide_distrib)
  then show ?thesis unfolding square_dev_def mean_affine [OF d] by (simp add: o_def e)
qed

lemma zscore_standard:
  assumes "2 \<le> length d"
  shows "mean_of (map (zscore d) d) = 0" and "std_dev d > 1 / 10 ^ 12 \<Longrightarrow> std_dev (map (zscore d) d) = 1"
proof -
  have d: "d \<noteq> []" using assms by auto
  have z: "zscore d = (\<lambda>v. (v - mean_of d) / (if std_dev d > 1 / 10 ^ 12 then std_dev d else 1))" by (auto simp: zscore_def)
  show "mean_of (map (zscore d) d) = 0" unfolding z mean_affine [OF d] by simp
  assume big: "std_dev d > 1 / 10 ^ 12"
  then have pos: "0 < std_dev d" by (rule less_trans [rotated]) simp
  then have "0 \<le> square_dev d / of_nat (length d - 1)" unfolding std_dev_def real_sqrt_gt_0_iff by (rule less_imp_le)
  then have "std_dev d * std_dev d = square_dev d / of_nat (length d - 1)" by (simp only: std_dev_def real_sqrt_mult_self abs_of_nonneg)
  moreover have "square_dev (map (zscore d) d) / of_nat (length d - 1) = (square_dev d / of_nat (length d - 1)) / (std_dev d * std_dev d)"
    using big unfolding z square_dev_affine [OF d] by simp
  moreover have "std_dev d * std_dev d \<noteq> 0" using pos by simp
  ultimately have "square_dev (map (zscore d) d) / of_nat (length d - 1) = 1" by (metis divide_self)
  then show "std_dev (map (zscore d) d) = 1" unfolding std_dev_def [of "map (zscore d) d"] length_map by (simp only: real_sqrt_one)
qed

text \<open>
  Exact arithmetic. On a well-formed matrix of at least two rows \<open>dataset_normalize_zscore\<close>
  succeeds, changes nothing else, and every column afterwards has mean 0 and, unless its sample
  standard deviation was at most \<open>10\<^sup>-\<^sup>1\<^sup>2\<close>, standard deviation 1; a column at most that wide is only
  centred. With fewer than two rows it returns \<open>ERR_INVALID_ARG\<close> without a write.
\<close>

theorem dataset_zscore_standardises:
  fixes h :: "real mem"
  assumes "mx_ok h x"
  shows "(mx_rows x < 2 \<longrightarrow> dataset_normalize_zscore id id exact exact h (Some x) = Some (ERR_INVALID_ARG, h))
     \<and> (2 \<le> mx_rows x \<longrightarrow> (\<exists>h'. dataset_normalize_zscore id id exact exact h (Some x) = Some (ERR_OK, h')
          \<and> (\<forall>q. q \<noteq> mx_data x \<longrightarrow> h' q = h q)
          \<and> (\<forall>c < unat (mx_cols x). mean_of (column h' x c) = 0
               \<and> (if std_dev (column h x c) > 1 / 10 ^ 12 then std_dev (column h' x c) = 1
                  else column h' x c = map (\<lambda>v. v - mean_of (column h x c)) (column h x c)))))"
proof (intro conjI impI)
  show "mx_rows x < 2 \<Longrightarrow> dataset_normalize_zscore id id exact exact h (Some x) = Some (ERR_INVALID_ARG, h)"
    by (simp add: dataset_normalize_zscore_def)
  assume rows: "2 \<le> mx_rows x"
  then have two: "2 \<le> length (column h x c)" for c by (simp add: column_def word_le_nat_alt)
  obtain h' where h': "dataset_normalize_zscore id id exact exact h (Some x) = Some (ERR_OK, h')" "\<And>q. q \<noteq> mx_data x \<Longrightarrow> h' q = h q"
    "\<And>r c. r < unat (mx_rows x) \<Longrightarrow> c < unat (mx_cols x) \<Longrightarrow> mx_at h' x r c = zscore (column h x c) (mx_at h x r c)"
    by (rule zscore_matrix [OF assms rows]) blast
  have col: "column h' x c = map (zscore (column h x c)) (column h x c)" if "c < unat (mx_cols x)" for c
    using h'(3) that by (simp add: column_def)
  show "\<exists>h'. dataset_normalize_zscore id id exact exact h (Some x) = Some (ERR_OK, h') \<and> (\<forall>q. q \<noteq> mx_data x \<longrightarrow> h' q = h q)
          \<and> (\<forall>c < unat (mx_cols x). mean_of (column h' x c) = 0
               \<and> (if std_dev (column h x c) > 1 / 10 ^ 12 then std_dev (column h' x c) = 1
                  else column h' x c = map (\<lambda>v. v - mean_of (column h x c)) (column h x c)))"
    using h'(1,2) col zscore_standard [OF two] by (intro exI [of _ h']) (auto simp: zscore_def)
qed

theorem dataset_zscore_standardises_witness:
  "\<exists>h'. dataset_normalize_zscore id id exact exact ((\<lambda>_. [])(1 := [1, 3])) (Some \<lparr>mx_data = 1, mx_rows = 2, mx_cols = 1, mx_owns = 1\<rparr>) = Some (ERR_OK, h')
     \<and> mean_of (column h' \<lparr>mx_data = 1, mx_rows = 2, mx_cols = 1, mx_owns = 1\<rparr> 0) = 0"
proof -
  let ?m = "\<lparr>mx_data = 1, mx_rows = 2, mx_cols = 1, mx_owns = 1\<rparr>"
  have "mx_ok ((\<lambda>_. [])(1 := [1, 3 :: real])) ?m" by (simp add: mx_ok_def)
  from dataset_zscore_standardises [OF this] show ?thesis by auto
qed

end
