(* ===== verification/Gpu.thy ===== *)
theory Gpu
  imports FileIo
begin

text \<open>
  The OpenGL and Vulkan set-up code of \<open>src/rendering/gl_pipeline.c\<close> and \<open>vk_pipeline.c\<close>. The drivers are
  parameters, records of calls over a state \<open>'k\<close>; what the code relies on is that they create objects
  under fresh names and delete them. The messages printed on errors are not modelled.
\<close>

section \<open>OpenGL\<close>

type_synonym gl_name = "32 word"

text \<open>A status query writes its result only for an existing object; otherwise it writes nothing.\<close>

record 'k gl =
  glCreateShader :: "32 word \<Rightarrow> 'k \<Rightarrow> gl_name \<times> 'k"
  glShaderSource :: "gl_name \<Rightarrow> byte list \<Rightarrow> 'k \<Rightarrow> 'k"
  glCompileShader :: "gl_name \<Rightarrow> 'k \<Rightarrow> 'k"
  glGetShaderiv :: "gl_name \<Rightarrow> 'k \<Rightarrow> bool option"
  glDeleteShader :: "gl_name \<Rightarrow> 'k \<Rightarrow> 'k"
  glCreateProgram :: "'k \<Rightarrow> gl_name \<times> 'k"
  glAttachShader :: "gl_name \<Rightarrow> gl_name \<Rightarrow> 'k \<Rightarrow> 'k"
  glLinkProgram :: "gl_name \<Rightarrow> 'k \<Rightarrow> 'k"
  glGetProgramiv :: "gl_name \<Rightarrow> 'k \<Rightarrow> bool option"
  glDeleteProgram :: "gl_name \<Rightarrow> 'k \<Rightarrow> 'k"

text \<open>The local \<open>ok\<close> is not initialised: reading it when the query wrote nothing is undefined.\<close>

definition gl_compile_shader :: "'k gl \<Rightarrow> byte list \<Rightarrow> 32 word \<Rightarrow> 'k \<Rightarrow> (gl_name \<times> 'k) ub" where
  "gl_compile_shader g source type k =
     (let (shader, k) = glCreateShader g type k;
          k = glShaderSource g shader source k;
          k = glCompileShader g shader k
      in case glGetShaderiv g shader k of
           None \<Rightarrow> None
         | Some ok \<Rightarrow> if \<not> ok then Some (0, glDeleteShader g shader k) else Some (shader, k))"

definition gl_link_program :: "'k gl \<Rightarrow> gl_name \<Rightarrow> gl_name \<Rightarrow> 'k \<Rightarrow> (gl_name \<times> 'k) ub" where
  "gl_link_program g vert frag k =
     (let (prog, k) = glCreateProgram g k;
          k = glAttachShader g prog vert k;
          k = glAttachShader g prog frag k;
          k = glLinkProgram g prog k
      in case glGetProgramiv g prog k of
           None \<Rightarrow> None
         | Some ok \<Rightarrow> if \<not> ok then Some (0, glDeleteProgram g prog k) else Some (prog, k))"

text \<open>
  \<open>tell\<close> is what \<open>ftell\<close> answers, \<open>alloc\<close> whether \<open>malloc\<close> succeeds, \<open>junk\<close> what the block holds. The
  terminator goes to \<open>src[len]\<close>, outside the block when \<open>len\<close> is negative; the source text ends at the
  first NUL.
\<close>

definition gl_shader_from_file ::
  "'k gl \<Rightarrow> files \<Rightarrow> int \<Rightarrow> bool \<Rightarrow> (nat \<Rightarrow> byte) \<Rightarrow> string \<Rightarrow> 32 word \<Rightarrow> 'k \<Rightarrow> (gl_name \<times> 'k) ub" where
  "gl_shader_from_file g fs tell alloc junk path type k =
     (case fs path of
        None \<Rightarrow> Some (0, k)
      | Some content \<Rightarrow>
          if \<not> alloc then Some (0, k)
          else if tell < 0 then None
          else let len = nat tell; src = take len content; src = src @ map junk [List.length src ..< len] in
            gl_compile_shader g (takeWhile (\<lambda>c. c \<noteq> 0) src) type k)"

definition GL_VERTEX_SHADER :: "32 word" where "GL_VERTEX_SHADER = 0x8B31"
definition GL_FRAGMENT_SHADER :: "32 word" where "GL_FRAGMENT_SHADER = 0x8B30"

definition gl_program_from_source :: "'k gl \<Rightarrow> byte list \<Rightarrow> byte list \<Rightarrow> 'k \<Rightarrow> (gl_name \<times> 'k) ub" where
  "gl_program_from_source g vert_src frag_src k =
     do { (vs, k) \<leftarrow> gl_compile_shader g vert_src GL_VERTEX_SHADER k;
          if vs = 0 then Some (0, k)
          else do { (fs, k) \<leftarrow> gl_compile_shader g frag_src GL_FRAGMENT_SHADER k;
                    if fs = 0 then Some (0, glDeleteShader g vs k)
                    else do { (prog, k) \<leftarrow> gl_link_program g vs fs k;
                              let k = glDeleteShader g vs k;
                              let k = glDeleteShader g fs k;
                              Some (prog, k) } } }"

text \<open>
  The documented behaviour: \<open>shaders\<close> and \<open>programs\<close> are the names in use. Creation gives a fresh name
  other than 0 or, on an error, 0; the queries answer for names in use; deletion frees the name.
\<close>

definition gl_driver :: "'k gl \<Rightarrow> ('k \<Rightarrow> gl_name set) \<Rightarrow> ('k \<Rightarrow> gl_name set) \<Rightarrow> bool" where
  "gl_driver g shaders programs \<longleftrightarrow>
     (\<forall>k t. case glCreateShader g t k of (s, k') \<Rightarrow> s \<notin> shaders k \<and> shaders k' = shaders k \<union> ({s} - {0}) \<and> programs k' = programs k)
   \<and> (\<forall>k. case glCreateProgram g k of (p, k') \<Rightarrow> p \<notin> programs k \<and> programs k' = programs k \<union> ({p} - {0}) \<and> shaders k' = shaders k)
   \<and> (\<forall>k s. shaders (glDeleteShader g s k) = shaders k - {s} \<and> programs (glDeleteShader g s k) = programs k)
   \<and> (\<forall>k p. programs (glDeleteProgram g p k) = programs k - {p} \<and> shaders (glDeleteProgram g p k) = shaders k)
   \<and> (\<forall>k s. glGetShaderiv g s k = None \<longleftrightarrow> s \<notin> shaders k) \<and> (\<forall>k p. glGetProgramiv g p k = None \<longleftrightarrow> p \<notin> programs k)
   \<and> (\<forall>k s src. shaders (glShaderSource g s src k) = shaders k \<and> programs (glShaderSource g s src k) = programs k)
   \<and> (\<forall>k s. shaders (glCompileShader g s k) = shaders k \<and> programs (glCompileShader g s k) = programs k)
   \<and> (\<forall>k p s. shaders (glAttachShader g p s k) = shaders k \<and> programs (glAttachShader g p s k) = programs k)
   \<and> (\<forall>k p. shaders (glLinkProgram g p k) = shaders k \<and> programs (glLinkProgram g p k) = programs k)
   \<and> (\<forall>k. 0 \<notin> shaders k \<and> 0 \<notin> programs k)"

lemma gl_compile_shader_cases:
  assumes "gl_driver g shaders programs"
  obtains s where "fst (glCreateShader g t k) = 0" "gl_compile_shader g src t k = None"
  | s k' where "gl_compile_shader g src t k = Some (s, k')" "programs k' = programs k" "s = 0 \<or> s \<notin> shaders k"
      "shaders k' = shaders k \<union> ({s} - {0})"
proof -
  obtain s k1 where c: "glCreateShader g t k = (s, k1)" by fastforce
  then have k1: "s \<notin> shaders k" "shaders k1 = shaders k \<union> ({s} - {0})" "programs k1 = programs k"
    using assms unfolding gl_driver_def by (metis (mono_tags, lifting) case_prod_conv)+
  let ?k2 = "glCompileShader g s (glShaderSource g s src k1)"
  have k2: "shaders ?k2 = shaders k1" "programs ?k2 = programs k1" "glGetShaderiv g s ?k2 = None \<longleftrightarrow> s \<notin> shaders k1"
    "shaders (glDeleteShader g s ?k2) = shaders k1 - {s}" "programs (glDeleteShader g s ?k2) = programs k1" "0 \<notin> shaders k"
    using assms unfolding gl_driver_def by auto
  show thesis
  proof (cases "s = 0")
    case True
    then have "glGetShaderiv g s ?k2 = None" using k1 k2 by auto
    then show thesis using that(1) c True by (simp add: gl_compile_shader_def)
  next
    case False
    then obtain ok where "glGetShaderiv g s ?k2 = Some ok" using k1 k2 by (metis Un_iff DiffI insertI1 singletonD not_None_eq)
    then show thesis using that(2) c k1 k2 False by (cases ok) (auto simp: gl_compile_shader_def)
  qed
qed

lemma gl_link_program_cases:
  assumes "gl_driver g shaders programs"
  obtains "fst (glCreateProgram g k) = 0" "gl_link_program g v f k = None"
  | p k' where "gl_link_program g v f k = Some (p, k')" "shaders k' = shaders k" "programs k' = programs k \<union> ({p} - {0})"
proof -
  obtain p k1 where c: "glCreateProgram g k = (p, k1)" by fastforce
  then have k1: "p \<notin> programs k" "programs k1 = programs k \<union> ({p} - {0})" "shaders k1 = shaders k"
    using assms unfolding gl_driver_def by (metis (mono_tags, lifting) case_prod_conv)+
  let ?k2 = "glLinkProgram g p (glAttachShader g p f (glAttachShader g p v k1))"
  have k2: "shaders ?k2 = shaders k1" "programs ?k2 = programs k1" "glGetProgramiv g p ?k2 = None \<longleftrightarrow> p \<notin> programs k1"
    "programs (glDeleteProgram g p ?k2) = programs k1 - {p}" "shaders (glDeleteProgram g p ?k2) = shaders k1" "0 \<notin> programs k"
    using assms unfolding gl_driver_def by auto
  show thesis
  proof (cases "p = 0")
    case True
    then have "glGetProgramiv g p ?k2 = None" using k1 k2 by auto
    then show thesis using that(1) c True by (simp add: gl_link_program_def)
  next
    case False
    then obtain ok where "glGetProgramiv g p ?k2 = Some ok" using k1 k2 by (metis Un_iff DiffI insertI1 singletonD not_None_eq)
    then show thesis using that(2) c k1 k2 False by (cases ok) (auto simp: gl_link_program_def)
  qed
qed

text \<open>
  Building a program leaves no shader behind, whichever step fails, and the returned program is the
  only new one; the run is undefined only when the driver cannot create an object.
\<close>

theorem gl_program_no_leak:
  assumes "gl_driver g shaders programs" and "\<And>t k. fst (glCreateShader g t k) \<noteq> 0" and "\<And>k. fst (glCreateProgram g k) \<noteq> 0"
  shows "\<exists>p k'. gl_program_from_source g v f k = Some (p, k') \<and> shaders k' = shaders k \<and> programs k' = programs k \<union> ({p} - {0})"
proof -
  have del: "shaders (glDeleteShader g s k) = shaders k - {s}" "programs (glDeleteShader g s k) = programs k" for s k
    using assms(1) unfolding gl_driver_def by auto
  have nz: "0 \<notin> shaders k" for k using assms(1) unfolding gl_driver_def by auto
  obtain vs k1 where v: "gl_compile_shader g v GL_VERTEX_SHADER k = Some (vs, k1)" "programs k1 = programs k"
    "vs = 0 \<or> vs \<notin> shaders k" "shaders k1 = shaders k \<union> ({vs} - {0})"
    by (rule gl_compile_shader_cases [OF assms(1), of GL_VERTEX_SHADER k v]) (use assms(2) in auto)
  show ?thesis
  proof (cases "vs = 0")
    case True
    then show ?thesis using v by (simp add: gl_program_from_source_def)
  next
    case vs: False
    obtain fs k2 where f: "gl_compile_shader g f GL_FRAGMENT_SHADER k1 = Some (fs, k2)" "programs k2 = programs k1"
      "fs = 0 \<or> fs \<notin> shaders k1" "shaders k2 = shaders k1 \<union> ({fs} - {0})"
      by (rule gl_compile_shader_cases [OF assms(1), of GL_FRAGMENT_SHADER k1 f]) (use assms(2) in auto)
    show ?thesis
    proof (cases "fs = 0")
      case True
      then show ?thesis using v f vs by (auto simp: gl_program_from_source_def del)
    next
      case False
      obtain p k3 where p: "gl_link_program g vs fs k2 = Some (p, k3)" "shaders k3 = shaders k2" "programs k3 = programs k2 \<union> ({p} - {0})"
        by (rule gl_link_program_cases [OF assms(1), of k2 vs fs]) (use assms(3) in auto)
      have "shaders (glDeleteShader g fs (glDeleteShader g vs k3)) = shaders k"
        using v f p vs False by (auto simp: del)
      then show ?thesis using v f p vs False by (simp add: gl_program_from_source_def del Let_def)
    qed
  qed
qed

text \<open>Where no object can be created the code reads an uninitialised status; and a file without a length.\<close>

lemma gl_compile_without_object:
  assumes "gl_driver g shaders programs" and "fst (glCreateShader g t k) = 0"
  shows "gl_compile_shader g src t k = None"
proof -
  obtain k1 where c: "glCreateShader g t k = (0, k1)" using assms(2) by (metis prod.collapse)
  let ?k2 = "glCompileShader g 0 (glShaderSource g 0 src k1)"
  have "glGetShaderiv g 0 ?k2 = None" using assms(1) unfolding gl_driver_def by auto
  then show ?thesis using c by (simp add: gl_compile_shader_def)
qed

lemma gl_shader_from_unseekable_file:
  assumes "fs path = Some content" shows "gl_shader_from_file g fs (- 1) True junk path t k = None"
  using assms by (simp add: gl_shader_from_file_def)

section \<open>Vulkan\<close>

record vk_context =
  vc_instance :: u64
  vc_physical_device :: u64
  vc_device :: u64
  vc_graphics_queue :: u64
  vc_queue_family :: "32 word"

definition vk_zero :: vk_context where
  "vk_zero = \<lparr>vc_instance = 0, vc_physical_device = 0, vc_device = 0, vc_graphics_queue = 0, vc_queue_family = 0\<rparr>"

text \<open>Creation answers the new handle, or nothing when it does not return \<open>VK_SUCCESS\<close>.\<close>

record 'k vk =
  vkCreateInstance :: "string \<Rightarrow> 'k \<Rightarrow> u64 option \<times> 'k"
  vkPhysicalDevices :: "u64 \<Rightarrow> 'k \<Rightarrow> u64 list"
  vkQueueFamilies :: "u64 \<Rightarrow> 'k \<Rightarrow> 32 word list"
  vkCreateDevice :: "u64 \<Rightarrow> 32 word \<Rightarrow> 'k \<Rightarrow> u64 option \<times> 'k"
  vkGetDeviceQueue :: "u64 \<Rightarrow> 32 word \<Rightarrow> 'k \<Rightarrow> u64"
  vkDestroyDevice :: "u64 \<Rightarrow> 'k \<Rightarrow> 'k"
  vkDestroyInstance :: "u64 \<Rightarrow> 'k \<Rightarrow> 'k"
  vkCreateShaderModule :: "u64 \<Rightarrow> 32 word list \<Rightarrow> size_t \<Rightarrow> 'k \<Rightarrow> u64 option \<times> 'k"

definition vk_context_destroy :: "'k vk \<Rightarrow> vk_context option \<Rightarrow> 'k \<Rightarrow> vk_context option \<times> 'k" where
  "vk_context_destroy v ctxp k =
     (case ctxp of
        None \<Rightarrow> (None, k)
      | Some ctx \<Rightarrow>
          let k = (if vc_device ctx \<noteq> 0 then vkDestroyDevice v (vc_device ctx) k else k);
              k = (if vc_instance ctx \<noteq> 0 then vkDestroyInstance v (vc_instance ctx) k else k)
          in (Some vk_zero, k))"

text \<open>The first family with graphics among the first 32, else \<open>UINT32_MAX\<close>.\<close>

fun find_family :: "32 word list \<Rightarrow> 32 word \<Rightarrow> 32 word" where
  "find_family [] i = - 1"
| "find_family (flags # fs) i = (if and flags 1 \<noteq> 0 then i else find_family fs (i + 1))"

definition vk_context_create :: "'k vk \<Rightarrow> vk_context option \<Rightarrow> string option \<Rightarrow> 'k \<Rightarrow> error_code \<times> vk_context option \<times> 'k" where
  "vk_context_create v ctxp app_name k =
     (if ctxp = None \<or> app_name = None then (ERR_INVALID_ARG, ctxp, k)
      else case vkCreateInstance v (the app_name) k of
        (None, k) \<Rightarrow> (ERR_IO, Some vk_zero, k)
      | (Some inst, k) \<Rightarrow>
          let ctx = vk_zero\<lparr>vc_instance := inst\<rparr>; devices = take 1 (vkPhysicalDevices v inst k) in
          if devices = [] then (case vk_context_destroy v (Some ctx) k of (ctxp, k) \<Rightarrow> (ERR_IO, ctxp, k))
          else
            let ctx = ctx\<lparr>vc_physical_device := hd devices\<rparr>;
                ctx = ctx\<lparr>vc_queue_family := find_family (take 32 (vkQueueFamilies v (hd devices) k)) 0\<rparr> in
            if vc_queue_family ctx = - 1 then (case vk_context_destroy v (Some ctx) k of (ctxp, k) \<Rightarrow> (ERR_IO, ctxp, k))
            else case vkCreateDevice v (hd devices) (vc_queue_family ctx) k of
              (None, k) \<Rightarrow> (case vk_context_destroy v (Some ctx) k of (ctxp, k) \<Rightarrow> (ERR_IO, ctxp, k))
            | (Some dev, k) \<Rightarrow>
                let ctx = ctx\<lparr>vc_device := dev\<rparr> in
                (ERR_OK, Some (ctx\<lparr>vc_graphics_queue := vkGetDeviceQueue v dev (vc_queue_family ctx) k\<rparr>), k))"

definition vk_create_shader :: "'k vk \<Rightarrow> u64 \<Rightarrow> 32 word list \<Rightarrow> size_t \<Rightarrow> 'k \<Rightarrow> u64 \<times> 'k" where
  "vk_create_shader v device code sz k =
     (case vkCreateShaderModule v device code sz k of (None, k) \<Rightarrow> (0, k) | (Some m, k) \<Rightarrow> (m, k))"

definition vk_driver :: "'k vk \<Rightarrow> ('k \<Rightarrow> u64 set) \<Rightarrow> ('k \<Rightarrow> u64 set) \<Rightarrow> bool" where
  "vk_driver v instances devices \<longleftrightarrow>
     (\<forall>k n. case vkCreateInstance v n k of (r, k') \<Rightarrow> devices k' = devices k \<and> instances k' = instances k \<union> set_option r
        \<and> (\<forall>x. r = Some x \<longrightarrow> x \<noteq> 0 \<and> x \<notin> instances k))
   \<and> (\<forall>k p f. case vkCreateDevice v p f k of (r, k') \<Rightarrow> instances k' = instances k \<and> devices k' = devices k \<union> set_option r
        \<and> (\<forall>x. r = Some x \<longrightarrow> x \<noteq> 0 \<and> x \<notin> devices k))
   \<and> (\<forall>k x. devices (vkDestroyDevice v x k) = devices k - {x} \<and> instances (vkDestroyDevice v x k) = instances k)
   \<and> (\<forall>k x. instances (vkDestroyInstance v x k) = instances k - {x} \<and> devices (vkDestroyInstance v x k) = devices k)"

text \<open>
  A context that could not be created holds nothing and leaks nothing; one that was created owns
  exactly its instance and its device, and destroying it returns both.
\<close>

theorem vk_context_no_leak:
  assumes "vk_driver v instances devices"
  shows "case vk_context_create v (Some c) (Some name) k of (err, ctxp, k') \<Rightarrow>
     (err = ERR_OK \<longrightarrow> (\<exists>ctx. ctxp = Some ctx \<and> vc_instance ctx \<notin> instances k \<and> vc_device ctx \<notin> devices k
        \<and> instances k' = insert (vc_instance ctx) (instances k) \<and> devices k' = insert (vc_device ctx) (devices k)
        \<and> (case vk_context_destroy v ctxp k' of (c', k'') \<Rightarrow> c' = Some vk_zero \<and> instances k'' = instances k \<and> devices k'' = devices k)))
   \<and> (err \<noteq> ERR_OK \<longrightarrow> err = ERR_IO \<and> ctxp = Some vk_zero \<and> instances k' = instances k \<and> devices k' = devices k)"
proof -
  have del: "devices (vkDestroyDevice v x k) = devices k - {x}" "instances (vkDestroyDevice v x k) = instances k"
    "instances (vkDestroyInstance v x k) = instances k - {x}" "devices (vkDestroyInstance v x k) = devices k" for x k
    using assms unfolding vk_driver_def by auto
  obtain r k1 where i: "vkCreateInstance v name k = (r, k1)" by fastforce
  then have i1: "devices k1 = devices k" "instances k1 = instances k \<union> set_option r" "\<And>x. r = Some x \<Longrightarrow> x \<noteq> 0 \<and> x \<notin> instances k"
    using assms unfolding vk_driver_def by (metis (mono_tags, lifting) case_prod_conv)+
  show ?thesis
  proof (cases r)
    case None
    then show ?thesis using i i1 by (simp add: vk_context_create_def)
  next
    case (Some inst)
    define ds where "ds = take 1 (vkPhysicalDevices v inst k1)"
    define q where "q = find_family (take 32 (vkQueueFamilies v (hd ds) k1)) 0"
    obtain r2 k2 where d: "vkCreateDevice v (hd ds) q k1 = (r2, k2)" by fastforce
    then have d1: "instances k2 = instances k1" "devices k2 = devices k1 \<union> set_option r2" "\<And>x. r2 = Some x \<Longrightarrow> x \<noteq> 0 \<and> x \<notin> devices k1"
      using assms unfolding vk_driver_def by (metis (mono_tags, lifting) case_prod_conv)+
    have eq: "vk_context_create v (Some c) (Some name) k =
       (if ds = [] then (ERR_IO, Some vk_zero, vkDestroyInstance v inst k1)
        else if q = - 1 then (ERR_IO, Some vk_zero, vkDestroyInstance v inst k1)
        else case r2 of None \<Rightarrow> (ERR_IO, Some vk_zero, vkDestroyInstance v inst k2)
           | Some dev \<Rightarrow> (ERR_OK, Some \<lparr>vc_instance = inst, vc_physical_device = hd ds, vc_device = dev,
               vc_graphics_queue = vkGetDeviceQueue v dev q k2, vc_queue_family = q\<rparr>, k2))"
    proof -
      have "inst \<noteq> 0" using i1(3) Some by simp
      then show ?thesis
        unfolding vk_context_create_def option.sel i Some prod.case option.case ds_def [symmetric] q_def Let_def
        using d [unfolded q_def]
        by (cases r2; simp add: vk_context_destroy_def vk_zero_def Let_def del: One_nat_def cong: if_cong)
    qed
    show ?thesis unfolding eq
      using Some i1 d1 by (auto simp: del vk_context_destroy_def Let_def split: option.splits)
  qed
qed

end
