(* ===== verification/Spec2Isabelle.thy ===== *)
theory Spec2Isabelle
  imports Prelude Core Fifo RingBuf Arena Pool LeakDetect Hash StringMap HashMap Allocator VecArray StrBuf
    CLib StrView Spsc BlockingQueue Pipeline ThreadPool Parallel CliArgs CliOutput Path EventLoop Sockets EchoServer FileIo Process
    Log Clock Perf Rng Ieee RngFloat Loops Matx MatxOps VecMath Mat4 Quat Stats Physics Numerical Simd Renderer Nn NnLayer NnTrain NnGradient NnLoss
    Dataset DataCsv DataShuffle DataLabels Gpu
begin

text \<open>
  A verification library for the C template library of this repository (\<open>src/src\<close> and
  \<open>src/include\<close>; paths below are relative to them, those under \<open>examples\<close> to \<open>src\<close>).

  \<^bold>\<open>The program.\<close> Some forty independent modules that share one convention: a module is a structure and
  functions on a pointer to it, every fallible function returns an \<open>ErrorCode\<close>, null pointers are
  checked at the entrance, and memory comes from the C library or from a pluggable allocator. They
  depend on each other only in places: \<open>vec\<close> takes an \<open>Allocator\<close>; \<open>hashmap\<close> hashes with \<open>hash_fnv1a_str\<close>; the
  three queues share one circular layout; \<open>parallel_for\<close> and the thread pool run callbacks on threads; the event loop runs callbacks that
  change the loop; \<open>nn\<close> and \<open>dataset\<close> work on the matrices of \<open>matx\<close> with the generator of \<open>rng\<close>; \<open>mat\<close>, \<open>quat\<close>
  and \<open>physics\<close> build on \<open>Vec3\<close>; the UDP and Unix sockets use the helpers of \<open>socket\<close>.

  \<^bold>\<open>Conventions of the model.\<close>

  \<^item> A structure is a record with its fields, an enumeration a datatype, \<open>size_t\<close>, \<open>uint64_t\<close> and \<open>uint32_t\<close> are
    words, so that wrap-around is where the code has it; \<open>int\<close> arithmetic is undefined outside its range.
  \<^item> Undefined behaviour is the value \<open>None\<close> of \<open>'a ub\<close> (theory Prelude): an access outside a block, a
    division by zero, a signed overflow, a store through \<open>NULL\<close>. A claim that an operation is \<open>Some\<close> therefore
    says that it is defined. Error codes are ordinary results.
  \<^item> State is passed: an operation takes the structure (and the memory, where structures share it) and
    returns the new one with its result.
  \<^item> Where the answer of the environment matters it is an argument: the verdict of each \<open>malloc\<close>, \<open>realloc\<close> and
    \<open>pthread_create\<close>; the text \<open>vsnprintf\<close> produces; the matches of \<open>getopt_long\<close>; \<open>strtof\<close>, \<open>logf\<close>, \<open>expf\<close> and the
    other functions of \<open>math.h\<close> but the square root; the answers of \<open>poll\<close>; the system calls of a kernel
    record; the calls of the OpenGL and Vulkan drivers. \<open>strtol\<close>, \<open>memchr\<close>, \<open>isspace\<close>, \<open>fgets\<close> and
    \<open>snprintf\<close> truncation are modelled from the C standard (theories CLib, CliArgs, Dataset).
  \<^item> No fuel is used. Loops with an evident bound are recursions or \<open>for_each\<close> over their range (theory
    Loops). The others are partial functions, for which \<open>None\<close> also means that the loop does not return:
    the growth loops of StrBuf and Dataset, the discard loop of ThreadPool, the tile loop of Matx, the
    line loop of Renderer, the rejection loops of Rng and RngFloat, the integration loop of Numerical, the sleep of
    Clock, and the retry loops of Sockets. That they return is part of the claims about them, or depends on
    the environment (a peer that keeps interrupting) and is then stated with that hypothesis.
  \<^item> Concurrent modules are cut into steps: what a thread does under one mutex, or between two atomic
    accesses, is one step of an inductive relation over the states of all threads. Claims hold for every
    state the relation reaches.
  \<^item> Numeric code is written once over a record \<open>fmath\<close> of literals and functions. Theory Ieee gives the
    instances the code runs at, binary32 and binary64 with rounding to nearest even; claims on the
    memory, on the shapes and on the order of evaluation hold at every instance. Claims called exact are about
    the instance at the real numbers: they say that the formulas of the code are the right ones, not how
    large rounding errors are.

  \<^bold>\<open>Theories, sources and claims.\<close>

  \<^item> Prelude, Loops, CLib: shared blocks of bytes, loads and stores, the circular view of the three queues,
    counting loops with their invariant rule, the C library on characters.
  \<^item> Core, Log, Clock, Perf: \<open>core/error.c\<close>, \<open>core/log.c\<close>, \<open>core/time.c\<close>, \<open>testing/perf_test.h\<close>: the names of the error codes, the filter and the
    line of the log, clock arithmetic, the sleep that
    resumes after signals, the numbers of a benchmark.
  \<^item> Fifo, RingBuf: the interface \<open>bounded_fifo\<close> and \<open>containers/ringbuf.c\<close>, which refines a bounded list (C38).
  \<^item> Spsc: \<open>hpc/spsc.c\<close>. Alone it is an instance of \<open>bounded_fifo\<close>; with one producer and one consumer
    interleaved at the atomic accesses, reading indices that may be stale, it is still a queue (C2).
  \<^item> BlockingQueue: \<open>hpc/blocking_queue.c\<close>. Order and capacity under any number of threads (C3), no lost
    wakeup (C4).
  \<^item> Pipeline: \<open>examples/pipeline_demo.c\<close>, three producers and a consumer on that queue. It never gets stuck, and
    ends with everything delivered (C5).
  \<^item> ThreadPool: \<open>hpc/thread_pool.c\<close>. Tasks are nodes of a heap that workers and
    the destructor free: every task runs once and in order and no freed node is read (C6); destruction joins every worker and
    terminates, with every submitted task run and every node freed (C7).
  \<^item> Parallel: \<open>hpc/parallel.c\<close>. The loop that creates the threads, with its inline runs, and the loop that joins them: every
    index once and every created thread joined once, whatever allocations and thread creations fail (C23).
  \<^item> Arena, Pool, LeakDetect: \<open>memory/arena.c\<close> (blocks are disjoint and aligned to their offset, C37),
    \<open>memory/pool.c\<close> (the free list in memory holds exactly the blocks nobody owns, C36),
    \<open>memory/leak_detect.c\<close> (the records are the live heap, but for blocks whose record
    could not be allocated, C39).
  \<^item> Allocator, VecArray, StrBuf: \<open>memory/allocator.c\<close> and the locale \<open>heap_allocator\<close> with the contract of
    \<open>realloc\<close>; \<open>containers/vec.c\<close> implements a list with a capacity, and
    its exact error codes, over any lawful allocator (C8); \<open>containers/strbuf.c\<close>
    holds the text appended to it (C16).
  \<^item> Hash, StringMap, HashMap: \<open>containers/hash.c\<close> (CRC-32 against the table zlib publishes, and the detection of
    bursts of up to 32 bits, C40); the locale \<open>string_map\<close>; \<open>containers/hashmap.c\<close> refines a finite map (C1).
  \<^item> StrView: \<open>containers/str.c\<close>. Splitting and joining is a round trip (C17).
  \<^item> Path: \<open>systems/path.c\<close>. Normalisation inside its buffer, against the walk the path
    describes; a relative path keeps the \<open>..\<close> that lead above its start (C18).
  \<^item> FileIo, Process: \<open>systems/file_io.c\<close> (atomic writing, C26) and \<open>systems/process.c\<close>.
  \<^item> CliArgs, CliOutput: \<open>cli/argparse.c\<close> (precedence of the four sources over
    an independent grammar of command lines and settings files, C22) and \<open>cli/output.c\<close>.
  \<^item> EventLoop: \<open>networking/event_loop.c\<close>. The registrations are a finite map, with the exact error of every operation
    (C19), and stay so while callbacks change them; a callback is called only for a descriptor registered at that
    moment (C20).
  \<^item> Sockets: \<open>networking/socket.c\<close>, \<open>udp.c\<close>, \<open>unix_socket.c\<close>. Complete sending (C27), no descriptor leaks (C28).
  \<^item> EchoServer: \<open>examples/evloop_server_demo.c\<close>, an echo server of callbacks on the event loop over the
    sockets. Every byte comes back and every descriptor is registered or closed (C21).
  \<^item> Rng, RngFloat: \<open>math/rng.c\<close>. Uniform ranges with a terminating rejection loop (C29), the full period (C30).
  \<^item> Matx, MatxOps: \<open>math/matx.c\<close>. The blocked product is the plain one (C14); every operation keeps every
    matrix well-formed and computes the textbook entries, aliased operands included (C15).
  \<^item> VecMath, Mat4, Quat: \<open>math/scalar.h\<close>, \<open>vec.c\<close>, \<open>mat.c\<close> (the inverse, C31), \<open>quat.c\<close> (rotations, C32).
  \<^item> Stats, Physics, Numerical, Simd: \<open>math/stats.c\<close> (the one-pass variance), \<open>simulation/physics.c\<close> (conservation in a
    collision, C33), \<open>simulation/numerical.c\<close> (bisection, C34), \<open>hpc/simd_ops.c\<close> in its three builds (C35).
  \<^item> Renderer, Gpu: \<open>rendering/software_renderer.c\<close> (lines, C24, and circles, C25),
    \<open>gl_pipeline.c\<close> and \<open>vk_pipeline.c\<close> (what a failed set-up created is deleted).
  \<^item> Nn, NnLayer, NnTrain, NnGradient, NnLoss: \<open>ml/nn.c\<close>. The layer invariant and its life, the optimiser
    steps; the backward pass (C9) and the losses (C10) deliver partial derivatives.
  \<^item> Dataset, DataCsv, DataShuffle, DataLabels: \<open>ml/dataset.c\<close>. Loading is safe on every file, failing allocations
    included (C11) and reads
    back a written table (C13); shuffling keeps features and labels together and is fair (C12); one-hot
    labels, accuracy and standardisation.

  \<^bold>\<open>Interfaces.\<close> \<open>bounded_fifo\<close> is interpreted on the ring buffer (\<open>rb\<close>) and on the composed operations of the
  single-producer ring (\<open>spsc\<close>); \<open>string_map\<close> on the hash map (\<open>hm\<close>); \<open>heap_allocator\<close> on the allocator over the
  C library (\<open>libc\<close>). C1, C8 and C38 are client lemmas of these locales at the interpretations, or hold for any
  lawful allocator.

  \<^bold>\<open>Bounds.\<close> The hash map claim is for at most 2 ^ 50 operations between two overflows of its capacity; matrices
  have fewer than 2 ^ 62 elements, so that their size in bytes does not wrap; bisection makes 80 halvings as in the
  code; a CSV line has at most 4094 bytes and a settings line 1022 without NUL, so that each fits its buffer whole; of the
  options and settings the code keeps the first 64 and the first 128, which C22 states. Other bounds are
  hypotheses of the claims.

  \<^bold>\<open>Not modelled.\<close> The other programs under \<open>examples\<close> (calls of the library with printed output), the tests, build files and
  documentation. Within the modelled files: the Windows branches, the text the OpenGL code prints, the bytes of
  messages formatted by \<open>vsnprintf\<close>, weak memory beyond stale atomic reads, the size of rounding errors.

  \<^bold>\<open>What the model showed.\<close> Lemmas named after a defect keep it on record; examples are
  \<open>pool_double_free_aliases\<close>, \<open>spsc_init_wraps\<close>, \<open>path_normalize_empty_overruns\<close>, \<open>one_hot_nan\<close> and
  \<open>shuffle_bound_wraps\<close>. Each states the input and the wrong or undefined result.
\<close>

end
